(* ===== verification/Prelude.thy ===== *)
theory Prelude
  imports Main "HOL-Library.Word"
begin

text \<open>
  Shared ground of the development: the machine types of the C sources, the
  byte-string operations every component uses (bytewise exclusive or, cutting
  a buffer into blocks) and the collections of rewrite rules the component
  theories extend.
\<close>

unbundle bit_operations_syntax

type_synonym byte = "8 word"
type_synonym u32 = "32 word"
type_synonym u64 = "64 word"

text \<open>
  \<open>xor_simps\<close> collects the facts about bytewise exclusive or,
  \<open>len_simps\<close> the lengths of the values the operations return.
\<close>

named_theorems xor_simps
named_theorems len_simps

subsection \<open>Exclusive or on words\<close>

lemma xor_left_cancel [simp]: "(a :: 'a::len word) XOR (a XOR b) = b"
  by (rule bit_word_eqI) (auto simp: bit_simps)

lemma xor_right_cancel [simp]: "(b XOR a) XOR a = (b :: 'a::len word)"
  by (rule bit_word_eqI) (auto simp: bit_simps)

lemma xor_eq_0_iff [simp]: "(a :: 'a::len word) XOR b = 0 \<longleftrightarrow> a = b"
  by (metis xor.left_neutral xor_left_cancel xor_self_eq)

lemmas xor_ac = xor.assoc xor.commute xor.left_commute

lemma ucast_xor: "ucast (a XOR b) = (ucast a XOR ucast b :: 'b::len word)"
  for a b :: "'a::len word"
  by (rule bit_word_eqI) (auto simp: bit_simps dest: bit_imp_le_length)

lemma push_bit_xor_word: "push_bit n (a XOR b) = push_bit n a XOR push_bit n (b :: 'a::len word)"
  by (rule bit_word_eqI) (auto simp: bit_simps)

lemma drop_bit_xor_word: "drop_bit n (a XOR b) = drop_bit n a XOR drop_bit n (b :: 'a::len word)"
  by (rule bit_word_eqI) (auto simp: bit_simps)

lemma and_xor_distrib_word: "(a XOR b) AND m = (a AND m) XOR (b AND m :: 'a::len word)"
  by (rule bit_word_eqI) (auto simp: bit_simps)

subsection \<open>Byte strings\<close>

definition xor_bytes :: "byte list \<Rightarrow> byte list \<Rightarrow> byte list" where
  "xor_bytes xs ys = map2 (XOR) xs ys"

lemma xor_bytes_Nil [simp]: "xor_bytes [] ys = []" "xor_bytes xs [] = []"
  by (simp_all add: xor_bytes_def)

lemma xor_bytes_Cons [simp]: "xor_bytes (x # xs) (y # ys) = (x XOR y) # xor_bytes xs ys"
  by (simp add: xor_bytes_def)

lemma length_xor_bytes [simp, len_simps]:
  "length (xor_bytes xs ys) = min (length xs) (length ys)"
  by (simp add: xor_bytes_def)

lemma nth_xor_bytes:
  "i < length xs \<Longrightarrow> i < length ys \<Longrightarrow> xor_bytes xs ys ! i = xs ! i XOR ys ! i"
  by (simp add: xor_bytes_def)

lemma xor_bytes_commute: "xor_bytes xs ys = xor_bytes ys xs"
proof (induction xs arbitrary: ys)
  case (Cons x xs)
  then show ?case by (cases ys) (simp_all add: xor.commute)
qed simp

lemma xor_bytes_cancel [xor_simps]:
  "length xs \<le> length ks \<Longrightarrow> xor_bytes (xor_bytes xs ks) ks = xs"
proof (induction xs arbitrary: ks)
  case (Cons x xs)
  then show ?case by (cases ks) simp_all
qed simp

lemma xor_bytes_cancel_left [xor_simps]:
  "length xs \<le> length ks \<Longrightarrow> xor_bytes ks (xor_bytes ks xs) = xs"
  by (metis xor_bytes_cancel xor_bytes_commute)

lemma xor_bytes_append [xor_simps]:
  "length xs = length ks \<Longrightarrow>
   xor_bytes (xs @ ys) (ks @ ls) = xor_bytes xs ks @ xor_bytes ys ls"
  by (simp add: xor_bytes_def)

lemma xor_bytes_append_left:
  "xor_bytes (xs @ ys) ks = xor_bytes xs (take (length xs) ks) @ xor_bytes ys (drop (length xs) ks)"
proof (induction xs arbitrary: ks)
  case (Cons x xs)
  then show ?case by (cases ks) simp_all
qed simp

lemma take_xor_bytes: "take n (xor_bytes xs ks) = xor_bytes (take n xs) (take n ks)"
  by (simp add: xor_bytes_def take_map take_zip)

lemma drop_xor_bytes: "drop n (xor_bytes xs ks) = xor_bytes (drop n xs) (drop n ks)"
  by (simp add: xor_bytes_def drop_map drop_zip)

lemma xor_bytes_take_self: "xor_bytes xs (take (length xs) ks) = xor_bytes xs ks"
proof (induction xs arbitrary: ks)
  case (Cons x xs)
  then show ?case by (cases ks) simp_all
qed simp

subsection \<open>Lists of known length\<close>

lemma length_Suc_conv_ex: "length xs = Suc n \<longleftrightarrow> (\<exists>y ys. xs = y # ys \<and> length ys = n)"
  by (auto simp: length_Suc_conv)

lemma list4_exhaust:
  assumes "length xs = 4"
  obtains a b c d where "xs = [a, b, c, d]"
  using assms by (auto simp: length_Suc_conv eval_nat_numeral)

lemma list_ge4_exhaust:
  assumes "4 \<le> length xs"
  obtains a b c d ys where "xs = a # b # c # d # ys"
  using assms by (auto simp: Suc_le_length_iff eval_nat_numeral)

lemma list16_exhaust:
  assumes "length xs = 16"
  obtains a0 a1 a2 a3 a4 a5 a6 a7 a8 a9 a10 a11 a12 a13 a14 a15
  where "xs = [a0, a1, a2, a3, a4, a5, a6, a7, a8, a9, a10, a11, a12, a13, a14, a15]"
  using assms by (auto simp: length_Suc_conv eval_nat_numeral)

lemma nth_eq_append_Cons: "i < length xs \<Longrightarrow> xs = take i xs @ xs ! i # drop (Suc i) xs"
  by (rule id_take_nth_drop)

lemma take_Suc_nth: "i < length xs \<Longrightarrow> take (Suc i) xs = take i xs @ [xs ! i]"
  by (rule take_Suc_conv_app_nth)

end
