(* ===== verification/AesOpt.thy ===== *)
theory AesOpt
  imports Prelude
begin

text \<open>
  The macros of \<^verbatim>\<open>native/aes/aesopt.h\<close> that the other AES files share, for
  the options that file selects: little-endian \<open>ALGORITHM_BYTE_ORDER\<close> and
  \<open>PLATFORM_BYTE_ORDER\<close>, the state in an array (\<open>ARRAYS\<close>), four tables per
  round (\<open>FOUR_TABLES\<close>) and static tables. A 32-bit word is read as its four
  bytes by \<open>word_bytes\<close>; the lemmas relate each macro to those bytes.
\<close>

subsection \<open>Bytes of a word\<close>

definition to_byte :: "u32 \<Rightarrow> u32" where
  "to_byte x = x AND 0xff"

definition upr :: "u32 \<Rightarrow> nat \<Rightarrow> u32" where
  "upr x n = push_bit (8 * n) x OR drop_bit (32 - 8 * n) x"

definition ups :: "u32 \<Rightarrow> nat \<Rightarrow> u32" where
  "ups x n = push_bit (8 * n) x"

definition bval :: "u32 \<Rightarrow> nat \<Rightarrow> u32" where
  "bval x n = to_byte (drop_bit (8 * n) x)"

definition bytes2word :: "u32 \<Rightarrow> u32 \<Rightarrow> u32 \<Rightarrow> u32 \<Rightarrow> u32" where
  "bytes2word b0 b1 b2 b3 = (push_bit 24 b3 OR push_bit 16 b2 OR push_bit 8 b1 OR b0)"

definition word_in :: "byte list \<Rightarrow> nat \<Rightarrow> u32" where
  "word_in x c = bytes2word (ucast (x ! (4 * c))) (ucast (x ! (4 * c + 1)))
                            (ucast (x ! (4 * c + 2))) (ucast (x ! (4 * c + 3)))"

text \<open>\<open>word_out\<close> stores the four bytes of a word; here it returns them.\<close>

definition word_out :: "u32 \<Rightarrow> byte list" where
  "word_out v = [ucast (bval v 0), ucast (bval v 1), ucast (bval v 2), ucast (bval v 3)]"

text \<open>The state \<open>s(x,c)\<close> is the array element \<open>x[c]\<close>.\<close>

definition s_col :: "u32 list \<Rightarrow> nat \<Rightarrow> u32" where
  "s_col x c = x ! c"

subsection \<open>Multiplication by x in four bytes at once\<close>

definition gf_c1 :: u32 where "gf_c1 = 0x80808080"
definition gf_c2 :: u32 where "gf_c2 = 0x7f7f7f7f"
definition BPOLY :: u32 where "BPOLY = 0x1b"
definition WPOLY :: u32 where "WPOLY = 0x011b"

definition gf_mulx :: "u32 \<Rightarrow> u32" where
  "gf_mulx x = push_bit 1 (x AND gf_c2) XOR (drop_bit 7 (x AND gf_c1) * BPOLY)"

text \<open>\<open>fwd_mcol\<close> of the option without \<open>FM4_SET\<close> and \<open>FM1_SET\<close>, and the
  \<open>inv_mcol\<close> of the option without \<open>IM4_SET\<close> and \<open>IM1_SET\<close>.\<close>

definition fwd_mcol :: "u32 \<Rightarrow> u32" where
  "fwd_mcol x = (let g2 = gf_mulx x in g2 XOR upr (x XOR g2) 3 XOR upr x 2 XOR upr x 1)"

definition inv_mcol_no_table :: "u32 \<Rightarrow> u32" where
  "inv_mcol_no_table x =
     (let g2 = gf_mulx x; g4 = gf_mulx g2; g9 = x XOR gf_mulx g4; g4 = g4 XOR g9
      in x XOR g2 XOR g4 XOR upr (g2 XOR g9) 3 XOR upr g4 2 XOR upr g9 1)"

subsection \<open>Table look-ups\<close>

definition vf1 :: "u32 \<Rightarrow> nat \<Rightarrow> nat \<Rightarrow> u32" where
  "vf1 x r c = x"

definition rf1 :: "nat \<Rightarrow> nat \<Rightarrow> nat" where
  "rf1 r c = r"

definition rf2 :: "nat \<Rightarrow> nat \<Rightarrow> nat" where
  "rf2 r c = (8 + r - c) mod 4"

text \<open>The macro's \<open>vf(x,r,c)\<close> is passed with its first argument \<open>x\<close> supplied.\<close>

definition four_tables ::
  "u32 list list \<Rightarrow> (nat \<Rightarrow> nat \<Rightarrow> u32) \<Rightarrow> (nat \<Rightarrow> nat \<Rightarrow> nat) \<Rightarrow> nat \<Rightarrow> u32" where
  "four_tables tab vf rf c =
     tab ! 0 ! unat (bval (vf 0 c) (rf 0 c)) XOR
     tab ! 1 ! unat (bval (vf 1 c) (rf 1 c)) XOR
     tab ! 2 ! unat (bval (vf 2 c) (rf 2 c)) XOR
     tab ! 3 ! unat (bval (vf 3 c) (rf 3 c))"

subsection \<open>The bytes of a word, as a list\<close>

definition byte_of :: "u32 \<Rightarrow> nat \<Rightarrow> byte" where
  "byte_of w n = ucast (drop_bit (8 * n) w)"

abbreviation word_bytes :: "u32 \<Rightarrow> byte list" where
  "word_bytes w \<equiv> word_out w"

lemma mask_8: "(0xff :: u32) = mask 8"
  by (simp add: mask_eq_exp_minus_1)

lemma bit_bval: "bit (bval x n) i \<longleftrightarrow> i < 8 \<and> bit x (8 * n + i)"
  by (auto simp: bval_def to_byte_def bit_simps mask_8 dest: bit_imp_le_length)

lemma bit_byte_of: "bit (byte_of x n) i \<longleftrightarrow> i < 8 \<and> bit x (8 * n + i)"
  by (auto simp: byte_of_def bit_simps dest: bit_imp_le_length)

lemma bval_eq_byte_of: "bval x n = ucast (byte_of x n)"
  by (rule bit_word_eqI) (auto simp: bit_simps bit_bval bit_byte_of)

lemma ucast_bval [simp]: "ucast (bval x n) = byte_of x n"
  by (rule bit_word_eqI) (auto simp: bit_simps bit_bval bit_byte_of)

lemma unat_ucast_byte: "unat (ucast (b :: byte) :: u32) = unat b"
proof -
  have "unat b < 2 ^ 8" using unsigned_less [of b, where 'a = nat] by simp
  then have "unat b < 2 ^ 32" by simp
  then show ?thesis by (simp add: unsigned_ucast_eq take_bit_nat_eq_self)
qed

lemma unat_bval: "unat (bval x n) = unat (byte_of x n)"
  by (simp add: bval_eq_byte_of unat_ucast_byte)

lemma word_out_byte_of: "word_out w = [byte_of w 0, byte_of w 1, byte_of w 2, byte_of w 3]"
  by (simp add: word_out_def)

lemma length_word_out [simp, len_simps]: "length (word_out w) = 4"
  by (simp add: word_out_def)

lemma byte_of_bytes2word [simp]:
  fixes a b c d :: byte
  shows "byte_of (bytes2word (ucast a) (ucast b) (ucast c) (ucast d)) 0 = a"
    and "byte_of (bytes2word (ucast a) (ucast b) (ucast c) (ucast d)) (Suc 0) = b"
    and "byte_of (bytes2word (ucast a) (ucast b) (ucast c) (ucast d)) 2 = c"
    and "byte_of (bytes2word (ucast a) (ucast b) (ucast c) (ucast d)) 3 = d"
  by (rule bit_word_eqI; auto simp: bit_byte_of bytes2word_def bit_simps dest: bit_imp_le_length)+

lemma word_eq_byte_ofI:
  assumes "byte_of v 0 = byte_of w 0" "byte_of v 1 = byte_of w 1"
    and "byte_of v 2 = byte_of w 2" "byte_of v 3 = byte_of w 3"
  shows "v = w"
proof (rule bit_word_eqI)
  fix i :: nat assume "i < LENGTH(32)"
  then have i: "i < 32" by simp
  have eq: "byte_of v (i div 8) = byte_of w (i div 8)"
  proof -
    have "i div 8 < 4" using i by simp
    then have "i div 8 = 0 \<or> i div 8 = 1 \<or> i div 8 = 2 \<or> i div 8 = 3" by arith
    then show ?thesis using assms by (elim disjE) simp_all
  qed
  have "bit v i \<longleftrightarrow> bit (byte_of v (i div 8)) (i mod 8)" for v :: u32
    by (simp add: bit_byte_of)
  with eq show "bit v i \<longleftrightarrow> bit w i" by simp
qed

lemma word_out_inj: "word_out v = word_out w \<longleftrightarrow> v = w"
  by (auto simp: word_out_byte_of intro: word_eq_byte_ofI)

lemma byte_of_xor [simp]: "byte_of (a XOR b) n = byte_of a n XOR byte_of b n"
  by (rule bit_word_eqI) (auto simp: bit_byte_of bit_simps)

lemma word_out_xor [xor_simps]: "word_out (a XOR b) = xor_bytes (word_out a) (word_out b)"
  by (simp add: word_out_byte_of)

lemma byte_of_word_in [simp]:
  shows "byte_of (word_in x c) 0 = x ! (4 * c)"
    and "byte_of (word_in x c) (Suc 0) = x ! (4 * c + 1)"
    and "byte_of (word_in x c) 2 = x ! (4 * c + 2)"
    and "byte_of (word_in x c) 3 = x ! (4 * c + 3)"
  by (simp_all add: word_in_def)

lemma word_in_word_out: "word_in (word_out w) 0 = w"
  by (rule word_eq_byte_ofI) (simp_all add: word_out_byte_of)

lemma word_out_word_in:
  assumes "4 * c + 4 \<le> length x"
  shows "word_out (word_in x c) = take 4 (drop (4 * c) x)"
proof -
  have "length (take 4 (drop (4 * c) x)) = 4" using assms by simp
  then obtain p q r s where l: "take 4 (drop (4 * c) x) = [p, q, r, s]"
    by (rule list4_exhaust)
  have n: "x ! (4 * c + i) = [p, q, r, s] ! i" if "i < 4" for i
    using that assms by (simp flip: l)
  from n [of 0] n [of 1] n [of 2] n [of 3] show ?thesis
    by (simp add: word_out_byte_of l)
qed

subsection \<open>Rotations and the parallel multiplication, bytewise\<close>

lemma byte_of_upr:
  "byte_of (upr x (Suc 0)) 0 = byte_of x 3" "byte_of (upr x (Suc 0)) (Suc 0) = byte_of x 0"
  "byte_of (upr x (Suc 0)) 2 = byte_of x 1" "byte_of (upr x (Suc 0)) 3 = byte_of x 2"
  "byte_of (upr x 2) 0 = byte_of x 2" "byte_of (upr x 2) (Suc 0) = byte_of x 3"
  "byte_of (upr x 2) 2 = byte_of x 0" "byte_of (upr x 2) 3 = byte_of x 1"
  "byte_of (upr x 3) 0 = byte_of x 1" "byte_of (upr x 3) (Suc 0) = byte_of x 2"
  "byte_of (upr x 3) 2 = byte_of x 3" "byte_of (upr x 3) 3 = byte_of x 0"
  by (rule bit_word_eqI; auto simp: bit_byte_of upr_def bit_simps dest: bit_imp_le_length)+

end
