(* ===== verification/AesSpec.thy ===== *)
theory AesSpec
  imports AesOpt
begin

text \<open>
  The reference the AES code is compared with: the cipher of FIPS 197 on a
  state of sixteen bytes in column order (byte \<open>4 * c + r\<close> is row \<open>r\<close> of
  column \<open>c\<close>), with the S-box and the key schedule as parameters of the
  rounds, and the algebra of \<open>MixColumns\<close> and its inverse. Nothing here is
  taken from the sources.
\<close>

subsection \<open>The field\<close>

definition xtime :: "byte \<Rightarrow> byte" where
  "xtime x = push_bit 1 x XOR (if bit x 7 then 0x1b else 0)"

definition gmul :: "byte \<Rightarrow> byte \<Rightarrow> byte" where
  "gmul a b =
     (if bit b 0 then a else 0) XOR
     (if bit b 1 then (xtime ^^ 1) a else 0) XOR
     (if bit b 2 then (xtime ^^ 2) a else 0) XOR
     (if bit b 3 then (xtime ^^ 3) a else 0) XOR
     (if bit b 4 then (xtime ^^ 4) a else 0) XOR
     (if bit b 5 then (xtime ^^ 5) a else 0) XOR
     (if bit b 6 then (xtime ^^ 6) a else 0) XOR
     (if bit b 7 then (xtime ^^ 7) a else 0)"

lemma xtime_0 [simp]: "xtime 0 = 0"
  by (simp add: xtime_def)

lemma xtime_xor [simp]: "xtime (a XOR b) = xtime a XOR xtime b"
  by (auto simp: xtime_def push_bit_xor_word bit_simps xor_ac)

abbreviation "x2 \<equiv> xtime"
abbreviation "x4 b \<equiv> xtime (xtime b)"
abbreviation "x8 b \<equiv> xtime (xtime (xtime b))"

abbreviation "g3 b \<equiv> xtime b XOR b"
abbreviation "g9 b \<equiv> x8 b XOR b"
abbreviation "gb b \<equiv> x8 b XOR xtime b XOR b"
abbreviation "gd b \<equiv> x8 b XOR x4 b XOR b"
abbreviation "ge b \<equiv> x8 b XOR x4 b XOR xtime b"

lemma gmul_consts:
  "gmul b 2 = xtime b" "gmul b 3 = g3 b" "gmul b 9 = g9 b"
  "gmul b 0xb = gb b" "gmul b 0xd = gd b" "gmul b 0xe = ge b"
  by (simp_all add: gmul_def xor_ac numeral_2_eq_2 numeral_3_eq_3)

lemma bit_push_bit_1: "bit (push_bit 1 (a :: byte)) i \<longleftrightarrow> 0 < i \<and> i < 8 \<and> bit a (i - 1)"
  by (simp only: bit_push_bit_iff) (auto simp: bit_imp_le_length)

lemma bit_xtime:
  "bit (xtime a) i \<longleftrightarrow>
     i < 8 \<and> (0 < i \<and> bit a (i - 1)) \<noteq> (bit a 7 \<and> (i = 0 \<or> i = 1 \<or> i = 3 \<or> i = 4))"
proof (cases "i < 8")
  case True
  then consider "i = 0" | "i = 1" | "i = 2" | "i = 3" | "i = 4" | "i = 5" | "i = 6" | "i = 7"
    by arith
  then show ?thesis
    unfolding xtime_def bit_xor_iff bit_push_bit_1 by cases simp_all
next
  case False
  then show ?thesis using bit_imp_le_length [of "xtime a" i] by auto
qed

subsection \<open>Rounds on sixteen bytes\<close>

definition sub_bytes :: "(byte \<Rightarrow> byte) \<Rightarrow> byte list \<Rightarrow> byte list" where
  "sub_bytes sb s = map sb s"

definition shift_rows :: "byte list \<Rightarrow> byte list" where
  "shift_rows s = map (\<lambda>i. s ! ((i + 4 * (i mod 4)) mod 16)) [0..<16]"

definition inv_shift_rows :: "byte list \<Rightarrow> byte list" where
  "inv_shift_rows s = map (\<lambda>i. s ! ((i + 12 * (i mod 4)) mod 16)) [0..<16]"

definition mix_column :: "byte list \<Rightarrow> byte list" where
  "mix_column a =
     [gmul (a!0) 2 XOR gmul (a!1) 3 XOR a!2 XOR a!3,
      a!0 XOR gmul (a!1) 2 XOR gmul (a!2) 3 XOR a!3,
      a!0 XOR a!1 XOR gmul (a!2) 2 XOR gmul (a!3) 3,
      gmul (a!0) 3 XOR a!1 XOR a!2 XOR gmul (a!3) 2]"

definition inv_mix_column :: "byte list \<Rightarrow> byte list" where
  "inv_mix_column a =
     [gmul (a!0) 0xe XOR gmul (a!1) 0xb XOR gmul (a!2) 0xd XOR gmul (a!3) 9,
      gmul (a!0) 9 XOR gmul (a!1) 0xe XOR gmul (a!2) 0xb XOR gmul (a!3) 0xd,
      gmul (a!0) 0xd XOR gmul (a!1) 9 XOR gmul (a!2) 0xe XOR gmul (a!3) 0xb,
      gmul (a!0) 0xb XOR gmul (a!1) 0xd XOR gmul (a!2) 9 XOR gmul (a!3) 0xe]"

definition columns :: "(byte list \<Rightarrow> byte list) \<Rightarrow> byte list \<Rightarrow> byte list" where
  "columns f s = f (take 4 s) @ f (take 4 (drop 4 s)) @ f (take 4 (drop 8 s)) @ f (take 4 (drop 12 s))"

definition mix_columns :: "byte list \<Rightarrow> byte list" where
  "mix_columns s = columns mix_column s"

definition inv_mix_columns :: "byte list \<Rightarrow> byte list" where
  "inv_mix_columns s = columns inv_mix_column s"

definition add_round_key :: "byte list \<Rightarrow> byte list \<Rightarrow> byte list" where
  "add_round_key k s = xor_bytes s k"

definition spec_round :: "(byte \<Rightarrow> byte) \<Rightarrow> byte list \<Rightarrow> byte list \<Rightarrow> byte list" where
  "spec_round sb k s = add_round_key k (mix_columns (shift_rows (sub_bytes sb s)))"

definition spec_last_round :: "(byte \<Rightarrow> byte) \<Rightarrow> byte list \<Rightarrow> byte list \<Rightarrow> byte list" where
  "spec_last_round sb k s = add_round_key k (shift_rows (sub_bytes sb s))"

text \<open>\<open>Cipher\<close> and \<open>InvCipher\<close> (FIPS 197, figures 5 and 12); \<open>rk r\<close> is round key \<open>r\<close>.\<close>

definition cipher :: "(byte \<Rightarrow> byte) \<Rightarrow> nat \<Rightarrow> (nat \<Rightarrow> byte list) \<Rightarrow> byte list \<Rightarrow> byte list" where
  "cipher sb nr rk inp =
     spec_last_round sb (rk nr)
       (fold (\<lambda>r. spec_round sb (rk r)) [1..<nr] (add_round_key (rk 0) inp))"

definition inv_round :: "(byte \<Rightarrow> byte) \<Rightarrow> byte list \<Rightarrow> byte list \<Rightarrow> byte list" where
  "inv_round isb k s = inv_mix_columns (add_round_key k (sub_bytes isb (inv_shift_rows s)))"

definition inv_last_round :: "(byte \<Rightarrow> byte) \<Rightarrow> byte list \<Rightarrow> byte list \<Rightarrow> byte list" where
  "inv_last_round isb k s = add_round_key k (sub_bytes isb (inv_shift_rows s))"

definition inv_cipher :: "(byte \<Rightarrow> byte) \<Rightarrow> nat \<Rightarrow> (nat \<Rightarrow> byte list) \<Rightarrow> byte list \<Rightarrow> byte list" where
  "inv_cipher isb nr rk inp =
     inv_last_round isb (rk 0)
       (fold (\<lambda>r. inv_round isb (rk r)) (rev [1..<nr]) (add_round_key (rk nr) inp))"

lemma upt16: "[0..<16] = [0,1,2,3,4,5,6,7,8,9,10,11,12,13,14,15]"
  by (simp add: upt_conv_Cons)

lemmas round_defs = sub_bytes_def shift_rows_def inv_shift_rows_def mix_columns_def
  inv_mix_columns_def columns_def mix_column_def inv_mix_column_def add_round_key_def

lemma length_rounds [simp, len_simps]:
  "length (sub_bytes sb s) = length s" "length (shift_rows s) = 16"
  "length (inv_shift_rows s) = 16" "length (mix_columns s) = 16"
  "length (inv_mix_columns s) = 16"
  by (simp_all add: round_defs)

lemma length_add_round_key [simp, len_simps]:
  "length (add_round_key k s) = min (length s) (length k)"
  by (simp add: add_round_key_def)

lemma inv_shift_rows_shift_rows: "length s = 16 \<Longrightarrow> inv_shift_rows (shift_rows s) = s"
  by (erule list16_exhaust) (simp add: shift_rows_def inv_shift_rows_def upt16)

lemma inv_mix_column_mix_column: "length a = 4 \<Longrightarrow> inv_mix_column (mix_column a) = a"
proof (erule list4_exhaust)
  fix p q r s assume "a = [p, q, r, s]"
  then show ?thesis
    by (simp add: mix_column_def inv_mix_column_def gmul_consts xor_ac)
qed

subsection \<open>Key expansion\<close>

text \<open>\<open>KeyExpansion\<close> (FIPS 197, figure 11): word \<open>i\<close> of the schedule, as four bytes.\<close>

definition rcon :: "nat \<Rightarrow> byte list" where
  "rcon i = [(xtime ^^ (i - 1)) 1, 0, 0, 0]"

function key_expansion :: "(byte \<Rightarrow> byte) \<Rightarrow> nat \<Rightarrow> byte list \<Rightarrow> nat \<Rightarrow> byte list" where
  "key_expansion sb nk key i =
     (if i < nk \<or> nk = 0 then take 4 (drop (4 * i) key)
      else xor_bytes (key_expansion sb nk key (i - nk))
        (let t = key_expansion sb nk key (i - 1)
         in if i mod nk = 0 then xor_bytes (map sb (rotate1 t)) (rcon (i div nk))
            else if 6 < nk \<and> i mod nk = 4 then map sb t else t))"
  by pat_completeness auto

termination
  by (relation "measure (\<lambda>(sb, nk, key, i). i)") auto

declare key_expansion.simps [simp del]

text \<open>Round key \<open>r\<close> of the expanded key.\<close>

definition exp_round_key :: "(byte \<Rightarrow> byte) \<Rightarrow> byte list \<Rightarrow> nat \<Rightarrow> byte list" where
  "exp_round_key sb key r = concat (map (key_expansion sb (length key div 4) key) [4 * r..<4 * r + 4])"

subsection \<open>The word macros, bytewise\<close>

lemma gf_high_bits: "bit (drop_bit 7 (x AND gf_c1)) i \<longleftrightarrow> bit (x :: u32) (i + 7) \<and> i \<in> {0, 8, 16, 24}"
proof (cases "i < 32")
  case True
  have c1: "bit gf_c1 j \<longleftrightarrow> j \<in> {7, 15, 23, 31}" if "j < 32" for j
  proof -
    from that have "j \<in> {0,1,2,3,4,5,6,7,8,9,10,11,12,13,14,15,16,17,18,19,20,21,22,23,24,25,26,27,28,29,30,31}"
      by simp arith
    then show ?thesis by (elim insertE emptyE) (simp_all add: gf_c1_def)
  qed
  show ?thesis
  proof (cases "i + 7 < 32")
    case True
    then show ?thesis by (auto simp: bit_simps c1 dest: bit_imp_le_length)
  next
    case False
    then show ?thesis using bit_imp_le_length [of x "i + 7"] by (auto simp: bit_simps add.commute)
  qed
next
  case False
  then show ?thesis using bit_imp_le_length [of x "i + 7"] by (auto simp: bit_simps add.commute)
qed

lemma times_27:
  fixes t :: u32
  assumes "\<And>i. bit t i \<Longrightarrow> i \<in> {0, 8, 16, 24}"
  shows "bit (t * 27) i \<longleftrightarrow> i < 32 \<and> (bit t i \<or> (1 \<le> i \<and> bit t (i - 1)) \<or> (3 \<le> i \<and> bit t (i - 3)) \<or> (4 \<le> i \<and> bit t (i - 4)))"
proof -
  have e: "t * 27 = ((t + push_bit 1 t) + push_bit 3 t) + push_bit 4 t"
    by (simp add: push_bit_eq_mult)
  have disj: "\<not> (bit t n \<and> (1 \<le> n \<and> bit t (n - 1) \<or> 3 \<le> n \<and> bit t (n - 3) \<or> 4 \<le> n \<and> bit t (n - 4)))"
    "\<not> (3 \<le> n \<and> bit t (n - 3) \<and> (bit t (n - 1) \<or> 4 \<le> n \<and> bit t (n - 4)))"
    "\<not> (4 \<le> n \<and> bit t (n - 4) \<and> bit t (n - 1))" for n
    using assms [of n] assms [of "n - 1"] assms [of "n - 3"] assms [of "n - 4"] by auto
  have d1: "t + push_bit 1 t = t OR push_bit 1 t"
    by (rule disjunctive_add_eq_or, rule bit_word_eqI)
       (unfold bit_and_iff bit_push_bit_iff, use disj in auto)
  have d2: "(t OR push_bit 1 t) + push_bit 3 t = (t OR push_bit 1 t) OR push_bit 3 t"
    by (rule disjunctive_add_eq_or, rule bit_word_eqI)
       (unfold bit_and_iff bit_or_iff bit_push_bit_iff, use disj in auto)
  have d3: "((t OR push_bit 1 t) OR push_bit 3 t) + push_bit 4 t = ((t OR push_bit 1 t) OR push_bit 3 t) OR push_bit 4 t"
    by (rule disjunctive_add_eq_or, rule bit_word_eqI)
       (unfold bit_and_iff bit_or_iff bit_push_bit_iff, use disj in auto)
  show ?thesis
    unfolding e d1 d2 d3 bit_or_iff bit_push_bit_iff by (auto dest: bit_imp_le_length)
qed

lemma bit_gf_mulx:
  assumes "n < 4" "j < 8"
  shows "bit (gf_mulx x) (8 * n + j) \<longleftrightarrow> bit (xtime (byte_of x n)) j"
proof -
  let ?h = "drop_bit 7 (x AND gf_c1)"
  have t27: "bit (?h * 27) i \<longleftrightarrow> i < 32 \<and> (bit ?h i \<or> (1 \<le> i \<and> bit ?h (i - 1)) \<or> (3 \<le> i \<and> bit ?h (i - 3)) \<or> (4 \<le> i \<and> bit ?h (i - 4)))" for i
    by (rule times_27) (simp only: gf_high_bits)
  have c2: "bit gf_c2 i \<longleftrightarrow> i < 32 \<and> i \<notin> {7, 15, 23, 31}" for i
  proof (cases "i < 32")
    case True
    then have "i \<in> {0,1,2,3,4,5,6,7,8,9,10,11,12,13,14,15,16,17,18,19,20,21,22,23,24,25,26,27,28,29,30,31}"
      by simp arith
    then show ?thesis by (elim insertE emptyE) (simp_all add: gf_c2_def)
  qed (use bit_imp_le_length [of gf_c2 i] in auto)
  have n: "n = 0 \<or> n = 1 \<or> n = 2 \<or> n = 3" using assms(1) by arith
  have j: "j = 0 \<or> j = 1 \<or> j = 2 \<or> j = 3 \<or> j = 4 \<or> j = 5 \<or> j = 6 \<or> j = 7" using assms(2) by arith
  show ?thesis
    unfolding gf_mulx_def BPOLY_def bit_xor_iff t27
    unfolding gf_high_bits bit_xtime bit_byte_of bit_push_bit_iff bit_and_iff c2
    using n j by (elim disjE) (simp_all flip: numeral_2_eq_2)
qed

lemma byte_of_gf_mulx [simp]: "n < 4 \<Longrightarrow> byte_of (gf_mulx x) n = xtime (byte_of x n)"
  by (rule bit_word_eqI) (simp add: bit_byte_of bit_gf_mulx)

lemma fwd_mcol_mix_column: "word_bytes (fwd_mcol x) = mix_column (word_bytes x)"
  by (simp add: word_out_byte_of fwd_mcol_def Let_def byte_of_upr mix_column_def gmul_consts xor_ac)

lemma inv_mcol_no_table_inv_mix_column:
  "word_bytes (inv_mcol_no_table x) = inv_mix_column (word_bytes x)"
  by (simp add: word_out_byte_of inv_mcol_no_table_def Let_def byte_of_upr inv_mix_column_def
      gmul_consts xor_ac)

end
