(* ===== verification/AesField.thy ===== *)
theory AesField
  imports AesSpec
begin

text \<open>
  The field of AES and the S-box of FIPS 197 built from it: the multiplicative
  inverse in \<open>GF(2^8)\<close> followed by the affine transformation. Nothing here is
  taken from the sources; \<open>AesTab\<close> shows that the tables of the sources hold
  these values.
\<close>

subsection \<open>Multiplication\<close>

text \<open>A multiple by a bit.\<close>

definition times_bit :: "bool \<Rightarrow> byte \<Rightarrow> byte" where
  "times_bit p x = (if p then x else 0)"

lemma times_bit_simps [simp]: "times_bit True x = x" "times_bit False x = 0" "times_bit p 0 = 0"
  by (simp_all add: times_bit_def)

lemma times_bit_xor: "times_bit p (x XOR y) = times_bit p x XOR times_bit p y"
  by (simp add: times_bit_def)

lemma times_bit_neq: "times_bit (p \<noteq> q) x = times_bit p x XOR times_bit q x"
  by (simp add: times_bit_def)

lemma xtime_times_bit: "xtime (times_bit p x) = times_bit p (xtime x)"
  by (simp add: times_bit_def)

lemma gmul_times_bit: "gmul a (times_bit p b) = times_bit p (gmul a b)" "gmul (times_bit p a) b = times_bit p (gmul a b)"
  by (simp_all add: times_bit_def gmul_def eval_nat_numeral)

lemma gmul_terms:
  "gmul a b = times_bit (bit b 0) a XOR times_bit (bit b 1) (xtime a) XOR times_bit (bit b 2) (xtime (xtime a)) XOR
    times_bit (bit b 3) (xtime (xtime (xtime a))) XOR times_bit (bit b 4) (xtime (xtime (xtime (xtime a)))) XOR
    times_bit (bit b 5) (xtime (xtime (xtime (xtime (xtime a))))) XOR
    times_bit (bit b 6) (xtime (xtime (xtime (xtime (xtime (xtime a)))))) XOR
    times_bit (bit b 7) (xtime (xtime (xtime (xtime (xtime (xtime (xtime a)))))))"
proof -
  have "(xtime ^^ 1) a = xtime a" "(xtime ^^ 2) a = xtime (xtime a)" "(xtime ^^ 3) a = xtime (xtime (xtime a))"
    "(xtime ^^ 4) a = xtime (xtime (xtime (xtime a)))" "(xtime ^^ 5) a = xtime (xtime (xtime (xtime (xtime a))))"
    "(xtime ^^ 6) a = xtime (xtime (xtime (xtime (xtime (xtime a)))))"
    "(xtime ^^ 7) a = xtime (xtime (xtime (xtime (xtime (xtime (xtime a))))))"
    by (simp_all add: eval_nat_numeral)
  then show ?thesis by (simp only: gmul_def times_bit_def)
qed

lemma gmul_xor_left: "gmul (a XOR a') b = gmul a b XOR gmul a' b"
  unfolding gmul_terms by (simp only: xtime_xor times_bit_xor xor_ac)

lemma gmul_xor_right: "gmul a (b XOR b') = gmul a b XOR gmul a b'"
  unfolding gmul_terms bit_xor_iff times_bit_neq by (simp only: xor_ac)

lemma gmul_0 [simp]: "gmul 0 b = 0" "gmul a 0 = 0"
  by (simp_all add: gmul_terms)

lemma gmul_xtime_left: "gmul (xtime a) b = xtime (gmul a b)"
  unfolding gmul_terms by (simp only: xtime_xor xtime_times_bit)

text \<open>\<open>x^8 = x^4 + x^3 + x + 1\<close>.\<close>

lemma xtime_8: "xtime (xtime (xtime (xtime (xtime (xtime (xtime (xtime a))))))) =
    a XOR xtime a XOR xtime (xtime (xtime a)) XOR xtime (xtime (xtime (xtime a)))"
proof (rule bit_word_eqI)
  fix i
  assume "i < LENGTH(8)"
  then consider "i = 0" | "i = 1" | "i = 2" | "i = 3" | "i = 4" | "i = 5" | "i = 6" | "i = 7"
    by (simp, arith)
  then show "bit (xtime (xtime (xtime (xtime (xtime (xtime (xtime (xtime a)))))))) i =
      bit (a XOR xtime a XOR xtime (xtime (xtime a)) XOR xtime (xtime (xtime (xtime a)))) i"
    by cases (simp add: bit_xor_iff bit_xtime; blast)+
qed

lemma gmul_xtime_right: "gmul a (xtime b) = xtime (gmul a b)"
proof -
  have e: "bit (xtime b) 0 = bit b 7" "bit (xtime b) 1 = (bit b 0 \<noteq> bit b 7)" "bit (xtime b) 2 = bit b 1"
    "bit (xtime b) 3 = (bit b 2 \<noteq> bit b 7)" "bit (xtime b) 4 = (bit b 3 \<noteq> bit b 7)" "bit (xtime b) 5 = bit b 4"
    "bit (xtime b) 6 = bit b 5" "bit (xtime b) 7 = bit b 6"
    by (simp_all add: bit_xtime)
  show ?thesis
    unfolding gmul_terms [of a "xtime b"] e times_bit_neq gmul_terms [of a b] xtime_xor xtime_times_bit xtime_8
    by (simp only: times_bit_xor xor_ac)
qed

lemma gmul_assoc: "gmul (gmul a b) c = gmul a (gmul b c)"
  unfolding gmul_terms [of b c] gmul_terms [of "gmul a b" c] gmul_xor_right gmul_times_bit gmul_xtime_right ..

lemma gmul_1 [simp]: "gmul a 1 = a" "gmul 1 a = a"
proof -
  show "gmul a 1 = a" by (simp add: gmul_terms)
  have x: "xtime 1 = 2" "xtime 2 = 4" "xtime 4 = 8" "xtime 8 = 16" "xtime 16 = 32" "xtime 32 = 64" "xtime 64 = 128"
    by (simp_all add: xtime_def)
  show "gmul 1 a = a"
  proof (rule bit_word_eqI)
    fix i
    assume "i < LENGTH(8)"
    then consider "i = 0" | "i = 1" | "i = 2" | "i = 3" | "i = 4" | "i = 5" | "i = 6" | "i = 7"
      by (simp, arith)
    then show "bit (gmul 1 a) i = bit a i"
      by cases (simp_all add: gmul_terms x bit_xor_iff times_bit_def)
  qed
qed

lemma gmul_commute: "gmul a b = gmul b a"
proof -
  have "gmul a b = gmul (gmul 1 a) b" by simp
  also have "\<dots> = gmul b a"
    unfolding gmul_terms [of 1 a] unfolding gmul_terms [of b a] gmul_xor_left gmul_times_bit gmul_xtime_left gmul_1 ..
  finally show ?thesis .
qed

subsection \<open>Inverses\<close>

text \<open>The multiplicative inverse of a byte, found by search; \<open>0\<close> is mapped to itself.\<close>

definition ginv :: "byte \<Rightarrow> byte" where
  "ginv b = (case List.find (\<lambda>c. gmul b c = 1) (map word_of_nat [0..<256]) of None \<Rightarrow> 0 | Some c \<Rightarrow> c)"

lemma ginv_0 [simp]: "ginv 0 = 0"
proof -
  have "List.find (\<lambda>c. gmul 0 c = 1) (map word_of_nat [0..<256]) = None"
    unfolding find_None_iff gmul_0 by simp
  then show ?thesis unfolding ginv_def by (simp only: option.case)
qed

lemma gmul_inverse_unique: "gmul b c = 1 \<Longrightarrow> gmul b c' = 1 \<Longrightarrow> c = c'"
  by (metis gmul_1 gmul_assoc gmul_commute)

lemma ginv_eqI:
  assumes "gmul b c = 1"
  shows "ginv b = c"
proof -
  have "c \<in> set (map word_of_nat [0..<256])"
    using unsigned_less [of c, where 'a = nat] by (auto intro!: image_eqI [where x = "unat c"])
  with assms obtain c' where "List.find (\<lambda>c. gmul b c = 1) (map word_of_nat [0..<256]) = Some c'"
    by (metis (mono_tags, lifting) find_None_iff option.exhaust)
  moreover from this have "gmul b c' = 1" by (auto simp: find_Some_iff)
  ultimately show ?thesis using gmul_inverse_unique [OF assms] by (simp add: ginv_def)
qed

text \<open>All inverses, checked by multiplication.\<close>

fun gmul_bits :: "byte \<Rightarrow> bool list \<Rightarrow> byte" where
  "gmul_bits a [] = 0"
| "gmul_bits a (p # ps) = (if p then a else 0) XOR gmul_bits (xtime a) ps"

lemma gmul_bits: "gmul a b = gmul_bits a [bit b 0, bit b 1, bit b 2, bit b 3, bit b 4, bit b 5, bit b 6, bit b 7]"
  by (simp add: gmul_terms xtime_times_bit times_bit_def)

fun inverse_lists :: "byte list \<Rightarrow> byte list \<Rightarrow> bool" where
  "inverse_lists (b # bs) (c # cs) \<longleftrightarrow>
    gmul_bits b [bit c 0, bit c 1, bit c 2, bit c 3, bit c 4, bit c 5, bit c 6, bit c 7] = 1 \<and> inverse_lists bs cs"
| "inverse_lists bs cs \<longleftrightarrow> bs = [] \<and> cs = []"

lemma inverse_lists: "inverse_lists bs cs \<Longrightarrow> map ginv bs = cs"
proof (induction bs cs rule: inverse_lists.induct)
  case (1 b bs c cs)
  then have "gmul b c = 1" by (simp add: gmul_bits)
  with 1 show ?case by (simp add: ginv_eqI)
qed simp_all

definition bytes_1_255 :: "byte list" where
  "bytes_1_255 = [
    0x01, 0x02, 0x03, 0x04, 0x05, 0x06, 0x07, 0x08, 0x09, 0x0a, 0x0b, 0x0c, 0x0d, 0x0e, 0x0f, 0x10,
    0x11, 0x12, 0x13, 0x14, 0x15, 0x16, 0x17, 0x18, 0x19, 0x1a, 0x1b, 0x1c, 0x1d, 0x1e, 0x1f, 0x20,
    0x21, 0x22, 0x23, 0x24, 0x25, 0x26, 0x27, 0x28, 0x29, 0x2a, 0x2b, 0x2c, 0x2d, 0x2e, 0x2f, 0x30,
    0x31, 0x32, 0x33, 0x34, 0x35, 0x36, 0x37, 0x38, 0x39, 0x3a, 0x3b, 0x3c, 0x3d, 0x3e, 0x3f, 0x40,
    0x41, 0x42, 0x43, 0x44, 0x45, 0x46, 0x47, 0x48, 0x49, 0x4a, 0x4b, 0x4c, 0x4d, 0x4e, 0x4f, 0x50,
    0x51, 0x52, 0x53, 0x54, 0x55, 0x56, 0x57, 0x58, 0x59, 0x5a, 0x5b, 0x5c, 0x5d, 0x5e, 0x5f, 0x60,
    0x61, 0x62, 0x63, 0x64, 0x65, 0x66, 0x67, 0x68, 0x69, 0x6a, 0x6b, 0x6c, 0x6d, 0x6e, 0x6f, 0x70,
    0x71, 0x72, 0x73, 0x74, 0x75, 0x76, 0x77, 0x78, 0x79, 0x7a, 0x7b, 0x7c, 0x7d, 0x7e, 0x7f, 0x80,
    0x81, 0x82, 0x83, 0x84, 0x85, 0x86, 0x87, 0x88, 0x89, 0x8a, 0x8b, 0x8c, 0x8d, 0x8e, 0x8f, 0x90,
    0x91, 0x92, 0x93, 0x94, 0x95, 0x96, 0x97, 0x98, 0x99, 0x9a, 0x9b, 0x9c, 0x9d, 0x9e, 0x9f, 0xa0,
    0xa1, 0xa2, 0xa3, 0xa4, 0xa5, 0xa6, 0xa7, 0xa8, 0xa9, 0xaa, 0xab, 0xac, 0xad, 0xae, 0xaf, 0xb0,
    0xb1, 0xb2, 0xb3, 0xb4, 0xb5, 0xb6, 0xb7, 0xb8, 0xb9, 0xba, 0xbb, 0xbc, 0xbd, 0xbe, 0xbf, 0xc0,
    0xc1, 0xc2, 0xc3, 0xc4, 0xc5, 0xc6, 0xc7, 0xc8, 0xc9, 0xca, 0xcb, 0xcc, 0xcd, 0xce, 0xcf, 0xd0,
    0xd1, 0xd2, 0xd3, 0xd4, 0xd5, 0xd6, 0xd7, 0xd8, 0xd9, 0xda, 0xdb, 0xdc, 0xdd, 0xde, 0xdf, 0xe0,
    0xe1, 0xe2, 0xe3, 0xe4, 0xe5, 0xe6, 0xe7, 0xe8, 0xe9, 0xea, 0xeb, 0xec, 0xed, 0xee, 0xef, 0xf0,
    0xf1, 0xf2, 0xf3, 0xf4, 0xf5, 0xf6, 0xf7, 0xf8, 0xf9, 0xfa, 0xfb, 0xfc, 0xfd, 0xfe, 0xff]"

definition inverse_table :: "byte list" where
  "inverse_table = [
    0x01, 0x8d, 0xf6, 0xcb, 0x52, 0x7b, 0xd1, 0xe8, 0x4f, 0x29, 0xc0, 0xb0, 0xe1, 0xe5, 0xc7, 0x74,
    0xb4, 0xaa, 0x4b, 0x99, 0x2b, 0x60, 0x5f, 0x58, 0x3f, 0xfd, 0xcc, 0xff, 0x40, 0xee, 0xb2, 0x3a,
    0x6e, 0x5a, 0xf1, 0x55, 0x4d, 0xa8, 0xc9, 0xc1, 0x0a, 0x98, 0x15, 0x30, 0x44, 0xa2, 0xc2, 0x2c,
    0x45, 0x92, 0x6c, 0xf3, 0x39, 0x66, 0x42, 0xf2, 0x35, 0x20, 0x6f, 0x77, 0xbb, 0x59, 0x19, 0x1d,
    0xfe, 0x37, 0x67, 0x2d, 0x31, 0xf5, 0x69, 0xa7, 0x64, 0xab, 0x13, 0x54, 0x25, 0xe9, 0x09, 0xed,
    0x5c, 0x05, 0xca, 0x4c, 0x24, 0x87, 0xbf, 0x18, 0x3e, 0x22, 0xf0, 0x51, 0xec, 0x61, 0x17, 0x16,
    0x5e, 0xaf, 0xd3, 0x49, 0xa6, 0x36, 0x43, 0xf4, 0x47, 0x91, 0xdf, 0x33, 0x93, 0x21, 0x3b, 0x79,
    0xb7, 0x97, 0x85, 0x10, 0xb5, 0xba, 0x3c, 0xb6, 0x70, 0xd0, 0x06, 0xa1, 0xfa, 0x81, 0x82, 0x83,
    0x7e, 0x7f, 0x80, 0x96, 0x73, 0xbe, 0x56, 0x9b, 0x9e, 0x95, 0xd9, 0xf7, 0x02, 0xb9, 0xa4, 0xde,
    0x6a, 0x32, 0x6d, 0xd8, 0x8a, 0x84, 0x72, 0x2a, 0x14, 0x9f, 0x88, 0xf9, 0xdc, 0x89, 0x9a, 0xfb,
    0x7c, 0x2e, 0xc3, 0x8f, 0xb8, 0x65, 0x48, 0x26, 0xc8, 0x12, 0x4a, 0xce, 0xe7, 0xd2, 0x62, 0x0c,
    0xe0, 0x1f, 0xef, 0x11, 0x75, 0x78, 0x71, 0xa5, 0x8e, 0x76, 0x3d, 0xbd, 0xbc, 0x86, 0x57, 0x0b,
    0x28, 0x2f, 0xa3, 0xda, 0xd4, 0xe4, 0x0f, 0xa9, 0x27, 0x53, 0x04, 0x1b, 0xfc, 0xac, 0xe6, 0x7a,
    0x07, 0xae, 0x63, 0xc5, 0xdb, 0xe2, 0xea, 0x94, 0x8b, 0xc4, 0xd5, 0x9d, 0xf8, 0x90, 0x6b, 0xb1,
    0x0d, 0xd6, 0xeb, 0xc6, 0x0e, 0xcf, 0xad, 0x08, 0x4e, 0xd7, 0xe3, 0x5d, 0x50, 0x1e, 0xb3, 0x5b,
    0x23, 0x38, 0x34, 0x68, 0x46, 0x03, 0x8c, 0xdd, 0x9c, 0x7d, 0xa0, 0xcd, 0x1a, 0x41, 0x1c]"

lemma inverse_table: "inverse_lists bytes_1_255 inverse_table"
  unfolding bytes_1_255_def inverse_table_def by (simp add: xtime_def)

lemma map_ginv: "map ginv bytes_1_255 = inverse_table"
  by (rule inverse_lists [OF inverse_table])

lemma bytes_1_255: "bytes_1_255 = map word_of_nat [1..<256]"
  by (simp add: bytes_1_255_def upt_conv_Cons)

lemma inverse_exists: "list_all (\<lambda>b. gmul b (ginv b) = 1) bytes_1_255"
proof -
  have "inverse_lists bs cs \<Longrightarrow> list_all (\<lambda>b. gmul b (ginv b) = 1) bs" for bs cs
  proof (induction bs cs rule: inverse_lists.induct)
    case (1 b bs c cs)
    then have "gmul b c = 1" by (simp add: gmul_bits)
    with 1 show ?case by (simp add: ginv_eqI)
  qed simp_all
  from this [OF inverse_table] show ?thesis .
qed

lemma gmul_ginv: "b \<noteq> 0 \<Longrightarrow> gmul b (ginv b) = 1"
proof -
  assume "b \<noteq> 0"
  then have "0 < unat b" by (simp add: word_gt_0 unat_gt_0)
  then have "b \<in> set bytes_1_255"
    using unsigned_less [of b, where 'a = nat] unfolding bytes_1_255
    by (auto intro!: image_eqI [where x = "unat b"])
  then show ?thesis using inverse_exists by (simp add: list_all_iff)
qed

lemma ginv_ginv [simp]: "ginv (ginv b) = b"
proof (cases "b = 0")
  case False
  then show ?thesis using ginv_eqI [of "ginv b" b] gmul_ginv [of b] gmul_commute [of b "ginv b"] by simp
qed simp

subsection \<open>The S-box\<close>

definition byte_rotl :: "nat \<Rightarrow> byte \<Rightarrow> byte" where
  "byte_rotl n b = push_bit n b OR drop_bit (8 - n) b"

text \<open>The affine transformation (FIPS 197, equation 5.1) and its inverse.\<close>

definition affine :: "byte \<Rightarrow> byte" where
  "affine b = b XOR byte_rotl 1 b XOR byte_rotl 2 b XOR byte_rotl 3 b XOR byte_rotl 4 b XOR 0x63"

definition inv_affine :: "byte \<Rightarrow> byte" where
  "inv_affine b = byte_rotl 1 b XOR byte_rotl 3 b XOR byte_rotl 6 b XOR 0x05"

definition sbox :: "byte \<Rightarrow> byte" where
  "sbox b = affine (ginv b)"

definition inv_sbox :: "byte \<Rightarrow> byte" where
  "inv_sbox b = ginv (inv_affine b)"

lemma bit_byte_rotl: "n < 8 \<Longrightarrow> bit (byte_rotl n b) i \<longleftrightarrow> i < 8 \<and> bit b ((i + 8 - n) mod 8)"
proof -
  assume n: "n < 8"
  have z: "\<not> bit b j" if "8 \<le> j" for j using that bit_imp_le_length [of b j] by auto
  have u: "bit (byte_rotl n b) i \<longleftrightarrow> (n \<le> i \<and> i < 8 \<and> bit b (i - n)) \<or> bit b (8 - n + i)"
    unfolding byte_rotl_def bit_or_iff bit_drop_bit_eq o_def using bit_imp_le_length [of "push_bit n b" i]
    by (auto simp: bit_push_bit_iff)
  consider "8 \<le> i" | "i < n" | "n \<le> i" "i < 8" by linarith
  then show ?thesis
  proof cases
    case 1
    then have "\<not> bit b (8 - n + i)" using n by (intro z) simp
    then show ?thesis using 1 u by simp
  next
    case 2
    then have "(i + 8 - n) mod 8 = 8 - n + i" using n by simp
    then show ?thesis using 2 n u by simp
  next
    case 3
    then have "(i + 8 - n) mod 8 = i - n" using mod_add_self2 [of "i - n" 8] by simp
    moreover have "\<not> bit b (8 - n + i)" using 3 n by (intro z) simp
    ultimately show ?thesis using 3 u by simp
  qed
qed

lemma byte_rotl_xor: "n < 8 \<Longrightarrow> byte_rotl n (a XOR b) = byte_rotl n a XOR byte_rotl n b"
  by (rule bit_word_eqI) (simp add: bit_byte_rotl bit_xor_iff)

lemma byte_rotl_rotl: "m < 8 \<Longrightarrow> n < 8 \<Longrightarrow> byte_rotl m (byte_rotl n b) = byte_rotl ((m + n) mod 8) b"
proof (rule bit_word_eqI)
  fix i
  assume m: "m < 8" and n: "n < 8" and i: "i < LENGTH(8)"
  have "((i + 8 - n) mod 8 + 8 - m) mod 8 = (i + 8 - n + (8 - m)) mod 8" if "m < 8" for i m n :: nat
    using that mod_add_left_eq [of "i + 8 - n" 8 "8 - m"] by simp
  from this [OF n] have "((i + 8 - m) mod 8 + 8 - n) mod 8 = (i + 8 - m + (8 - n)) mod 8" .
  also have "i + 8 - m + (8 - n) = i + 16 - (m + n)" using m n by simp
  also have "(i + 16 - (m + n)) mod 8 = (i + 8 - (m + n) mod 8) mod 8"
  proof (cases "m + n < 8")
    case True
    then have "i + 16 - (m + n) = i + 8 - (m + n) + 8" by simp
    then show ?thesis using True by (simp only: mod_add_self2 mod_less)
  next
    case False
    then have "(m + n) mod 8 = m + n - 8" using m n by (simp add: mod_if)
    then show ?thesis using False by (simp add: add.commute)
  qed
  finally show "bit (byte_rotl m (byte_rotl n b)) i = bit (byte_rotl ((m + n) mod 8) b) i"
    using m n i by (simp add: bit_byte_rotl)
qed

lemma byte_rotl_0: "byte_rotl 0 b = b"
  by (rule bit_word_eqI) (simp add: bit_byte_rotl)

lemma byte_rotl_consts:
  "byte_rotl 1 0x63 = 0xc6" "byte_rotl 3 0x63 = 0x1b" "byte_rotl 6 0x63 = 0xd8"
  "byte_rotl 1 0x05 = 0x0a" "byte_rotl 2 0x05 = 0x14" "byte_rotl 3 0x05 = 0x28" "byte_rotl 4 0x05 = 0x50"
  by (simp_all add: byte_rotl_def)

lemma inv_affine_affine [simp]: "inv_affine (affine b) = b"
proof -
  have "inv_affine (affine b) = b XOR (0xc6 XOR 0x1b XOR 0xd8 XOR 0x05)"
    by (simp add: inv_affine_def affine_def byte_rotl_xor byte_rotl_rotl byte_rotl_0 byte_rotl_consts xor_ac
        del: One_nat_def)
  then show ?thesis by simp
qed

lemma affine_inv_affine [simp]: "affine (inv_affine b) = b"
proof -
  have "affine (inv_affine b) = b XOR (0x05 XOR 0x0a XOR 0x14 XOR 0x28 XOR 0x50 XOR 0x63)"
    by (simp add: inv_affine_def affine_def byte_rotl_xor byte_rotl_rotl byte_rotl_0 byte_rotl_consts xor_ac
        del: One_nat_def)
  then show ?thesis by simp
qed

lemma inv_sbox_sbox [simp]: "inv_sbox (sbox b) = b"
  by (simp add: sbox_def inv_sbox_def)

lemma sbox_inv_sbox [simp]: "sbox (inv_sbox b) = b"
  by (simp add: sbox_def inv_sbox_def)

lemma map_sbox: "map sbox bytes_1_255 = map affine inverse_table"
  unfolding sbox_def [abs_def] by (simp add: map_ginv [symmetric])

end
