(* ===== verification/AesTab.thy ===== *)
theory AesTab
  imports AesField
begin

text \<open>
  \<^verbatim>\<open>native/aes/aestab.c\<close> and \<^verbatim>\<open>aestab.h\<close>: the S-box data, the finite field
  macros \<open>f2\<close> to \<open>fe\<close> of the static-table option and the tables \<open>t_fn\<close>,
  \<open>t_fl\<close>, \<open>t_in\<close>, \<open>t_il\<close>, \<open>t_im\<close> and \<open>t_rc\<close> built from them. As in the
  sources, the data macros take the macro \<open>w\<close> that is applied to every entry.
  The lemmas say what a look-up returns, in terms of the S-box and the field.
\<close>

subsection \<open>The data\<close>

definition sb_data :: "(u32 \<Rightarrow> 'a) \<Rightarrow> 'a list" where
  "sb_data w = [
    w 0x63, w 0x7c, w 0x77, w 0x7b, w 0xf2, w 0x6b, w 0x6f, w 0xc5,
    w 0x30, w 0x01, w 0x67, w 0x2b, w 0xfe, w 0xd7, w 0xab, w 0x76,
    w 0xca, w 0x82, w 0xc9, w 0x7d, w 0xfa, w 0x59, w 0x47, w 0xf0,
    w 0xad, w 0xd4, w 0xa2, w 0xaf, w 0x9c, w 0xa4, w 0x72, w 0xc0,
    w 0xb7, w 0xfd, w 0x93, w 0x26, w 0x36, w 0x3f, w 0xf7, w 0xcc,
    w 0x34, w 0xa5, w 0xe5, w 0xf1, w 0x71, w 0xd8, w 0x31, w 0x15,
    w 0x04, w 0xc7, w 0x23, w 0xc3, w 0x18, w 0x96, w 0x05, w 0x9a,
    w 0x07, w 0x12, w 0x80, w 0xe2, w 0xeb, w 0x27, w 0xb2, w 0x75,
    w 0x09, w 0x83, w 0x2c, w 0x1a, w 0x1b, w 0x6e, w 0x5a, w 0xa0,
    w 0x52, w 0x3b, w 0xd6, w 0xb3, w 0x29, w 0xe3, w 0x2f, w 0x84,
    w 0x53, w 0xd1, w 0x00, w 0xed, w 0x20, w 0xfc, w 0xb1, w 0x5b,
    w 0x6a, w 0xcb, w 0xbe, w 0x39, w 0x4a, w 0x4c, w 0x58, w 0xcf,
    w 0xd0, w 0xef, w 0xaa, w 0xfb, w 0x43, w 0x4d, w 0x33, w 0x85,
    w 0x45, w 0xf9, w 0x02, w 0x7f, w 0x50, w 0x3c, w 0x9f, w 0xa8,
    w 0x51, w 0xa3, w 0x40, w 0x8f, w 0x92, w 0x9d, w 0x38, w 0xf5,
    w 0xbc, w 0xb6, w 0xda, w 0x21, w 0x10, w 0xff, w 0xf3, w 0xd2,
    w 0xcd, w 0x0c, w 0x13, w 0xec, w 0x5f, w 0x97, w 0x44, w 0x17,
    w 0xc4, w 0xa7, w 0x7e, w 0x3d, w 0x64, w 0x5d, w 0x19, w 0x73,
    w 0x60, w 0x81, w 0x4f, w 0xdc, w 0x22, w 0x2a, w 0x90, w 0x88,
    w 0x46, w 0xee, w 0xb8, w 0x14, w 0xde, w 0x5e, w 0x0b, w 0xdb,
    w 0xe0, w 0x32, w 0x3a, w 0x0a, w 0x49, w 0x06, w 0x24, w 0x5c,
    w 0xc2, w 0xd3, w 0xac, w 0x62, w 0x91, w 0x95, w 0xe4, w 0x79,
    w 0xe7, w 0xc8, w 0x37, w 0x6d, w 0x8d, w 0xd5, w 0x4e, w 0xa9,
    w 0x6c, w 0x56, w 0xf4, w 0xea, w 0x65, w 0x7a, w 0xae, w 0x08,
    w 0xba, w 0x78, w 0x25, w 0x2e, w 0x1c, w 0xa6, w 0xb4, w 0xc6,
    w 0xe8, w 0xdd, w 0x74, w 0x1f, w 0x4b, w 0xbd, w 0x8b, w 0x8a,
    w 0x70, w 0x3e, w 0xb5, w 0x66, w 0x48, w 0x03, w 0xf6, w 0x0e,
    w 0x61, w 0x35, w 0x57, w 0xb9, w 0x86, w 0xc1, w 0x1d, w 0x9e,
    w 0xe1, w 0xf8, w 0x98, w 0x11, w 0x69, w 0xd9, w 0x8e, w 0x94,
    w 0x9b, w 0x1e, w 0x87, w 0xe9, w 0xce, w 0x55, w 0x28, w 0xdf,
    w 0x8c, w 0xa1, w 0x89, w 0x0d, w 0xbf, w 0xe6, w 0x42, w 0x68,
    w 0x41, w 0x99, w 0x2d, w 0x0f, w 0xb0, w 0x54, w 0xbb, w 0x16]"

definition isb_data :: "(u32 \<Rightarrow> 'a) \<Rightarrow> 'a list" where
  "isb_data w = [
    w 0x52, w 0x09, w 0x6a, w 0xd5, w 0x30, w 0x36, w 0xa5, w 0x38,
    w 0xbf, w 0x40, w 0xa3, w 0x9e, w 0x81, w 0xf3, w 0xd7, w 0xfb,
    w 0x7c, w 0xe3, w 0x39, w 0x82, w 0x9b, w 0x2f, w 0xff, w 0x87,
    w 0x34, w 0x8e, w 0x43, w 0x44, w 0xc4, w 0xde, w 0xe9, w 0xcb,
    w 0x54, w 0x7b, w 0x94, w 0x32, w 0xa6, w 0xc2, w 0x23, w 0x3d,
    w 0xee, w 0x4c, w 0x95, w 0x0b, w 0x42, w 0xfa, w 0xc3, w 0x4e,
    w 0x08, w 0x2e, w 0xa1, w 0x66, w 0x28, w 0xd9, w 0x24, w 0xb2,
    w 0x76, w 0x5b, w 0xa2, w 0x49, w 0x6d, w 0x8b, w 0xd1, w 0x25,
    w 0x72, w 0xf8, w 0xf6, w 0x64, w 0x86, w 0x68, w 0x98, w 0x16,
    w 0xd4, w 0xa4, w 0x5c, w 0xcc, w 0x5d, w 0x65, w 0xb6, w 0x92,
    w 0x6c, w 0x70, w 0x48, w 0x50, w 0xfd, w 0xed, w 0xb9, w 0xda,
    w 0x5e, w 0x15, w 0x46, w 0x57, w 0xa7, w 0x8d, w 0x9d, w 0x84,
    w 0x90, w 0xd8, w 0xab, w 0x00, w 0x8c, w 0xbc, w 0xd3, w 0x0a,
    w 0xf7, w 0xe4, w 0x58, w 0x05, w 0xb8, w 0xb3, w 0x45, w 0x06,
    w 0xd0, w 0x2c, w 0x1e, w 0x8f, w 0xca, w 0x3f, w 0x0f, w 0x02,
    w 0xc1, w 0xaf, w 0xbd, w 0x03, w 0x01, w 0x13, w 0x8a, w 0x6b,
    w 0x3a, w 0x91, w 0x11, w 0x41, w 0x4f, w 0x67, w 0xdc, w 0xea,
    w 0x97, w 0xf2, w 0xcf, w 0xce, w 0xf0, w 0xb4, w 0xe6, w 0x73,
    w 0x96, w 0xac, w 0x74, w 0x22, w 0xe7, w 0xad, w 0x35, w 0x85,
    w 0xe2, w 0xf9, w 0x37, w 0xe8, w 0x1c, w 0x75, w 0xdf, w 0x6e,
    w 0x47, w 0xf1, w 0x1a, w 0x71, w 0x1d, w 0x29, w 0xc5, w 0x89,
    w 0x6f, w 0xb7, w 0x62, w 0x0e, w 0xaa, w 0x18, w 0xbe, w 0x1b,
    w 0xfc, w 0x56, w 0x3e, w 0x4b, w 0xc6, w 0xd2, w 0x79, w 0x20,
    w 0x9a, w 0xdb, w 0xc0, w 0xfe, w 0x78, w 0xcd, w 0x5a, w 0xf4,
    w 0x1f, w 0xdd, w 0xa8, w 0x33, w 0x88, w 0x07, w 0xc7, w 0x31,
    w 0xb1, w 0x12, w 0x10, w 0x59, w 0x27, w 0x80, w 0xec, w 0x5f,
    w 0x60, w 0x51, w 0x7f, w 0xa9, w 0x19, w 0xb5, w 0x4a, w 0x0d,
    w 0x2d, w 0xe5, w 0x7a, w 0x9f, w 0x93, w 0xc9, w 0x9c, w 0xef,
    w 0xa0, w 0xe0, w 0x3b, w 0x4d, w 0xae, w 0x2a, w 0xf5, w 0xb0,
    w 0xc8, w 0xeb, w 0xbb, w 0x3c, w 0x83, w 0x53, w 0x99, w 0x61,
    w 0x17, w 0x2b, w 0x04, w 0x7e, w 0xba, w 0x77, w 0xd6, w 0x26,
    w 0xe1, w 0x69, w 0x14, w 0x63, w 0x55, w 0x21, w 0x0c, w 0x7d]"

definition mm_data :: "(u32 \<Rightarrow> 'a) \<Rightarrow> 'a list" where
  "mm_data w = [
    w 0x00, w 0x01, w 0x02, w 0x03, w 0x04, w 0x05, w 0x06, w 0x07,
    w 0x08, w 0x09, w 0x0a, w 0x0b, w 0x0c, w 0x0d, w 0x0e, w 0x0f,
    w 0x10, w 0x11, w 0x12, w 0x13, w 0x14, w 0x15, w 0x16, w 0x17,
    w 0x18, w 0x19, w 0x1a, w 0x1b, w 0x1c, w 0x1d, w 0x1e, w 0x1f,
    w 0x20, w 0x21, w 0x22, w 0x23, w 0x24, w 0x25, w 0x26, w 0x27,
    w 0x28, w 0x29, w 0x2a, w 0x2b, w 0x2c, w 0x2d, w 0x2e, w 0x2f,
    w 0x30, w 0x31, w 0x32, w 0x33, w 0x34, w 0x35, w 0x36, w 0x37,
    w 0x38, w 0x39, w 0x3a, w 0x3b, w 0x3c, w 0x3d, w 0x3e, w 0x3f,
    w 0x40, w 0x41, w 0x42, w 0x43, w 0x44, w 0x45, w 0x46, w 0x47,
    w 0x48, w 0x49, w 0x4a, w 0x4b, w 0x4c, w 0x4d, w 0x4e, w 0x4f,
    w 0x50, w 0x51, w 0x52, w 0x53, w 0x54, w 0x55, w 0x56, w 0x57,
    w 0x58, w 0x59, w 0x5a, w 0x5b, w 0x5c, w 0x5d, w 0x5e, w 0x5f,
    w 0x60, w 0x61, w 0x62, w 0x63, w 0x64, w 0x65, w 0x66, w 0x67,
    w 0x68, w 0x69, w 0x6a, w 0x6b, w 0x6c, w 0x6d, w 0x6e, w 0x6f,
    w 0x70, w 0x71, w 0x72, w 0x73, w 0x74, w 0x75, w 0x76, w 0x77,
    w 0x78, w 0x79, w 0x7a, w 0x7b, w 0x7c, w 0x7d, w 0x7e, w 0x7f,
    w 0x80, w 0x81, w 0x82, w 0x83, w 0x84, w 0x85, w 0x86, w 0x87,
    w 0x88, w 0x89, w 0x8a, w 0x8b, w 0x8c, w 0x8d, w 0x8e, w 0x8f,
    w 0x90, w 0x91, w 0x92, w 0x93, w 0x94, w 0x95, w 0x96, w 0x97,
    w 0x98, w 0x99, w 0x9a, w 0x9b, w 0x9c, w 0x9d, w 0x9e, w 0x9f,
    w 0xa0, w 0xa1, w 0xa2, w 0xa3, w 0xa4, w 0xa5, w 0xa6, w 0xa7,
    w 0xa8, w 0xa9, w 0xaa, w 0xab, w 0xac, w 0xad, w 0xae, w 0xaf,
    w 0xb0, w 0xb1, w 0xb2, w 0xb3, w 0xb4, w 0xb5, w 0xb6, w 0xb7,
    w 0xb8, w 0xb9, w 0xba, w 0xbb, w 0xbc, w 0xbd, w 0xbe, w 0xbf,
    w 0xc0, w 0xc1, w 0xc2, w 0xc3, w 0xc4, w 0xc5, w 0xc6, w 0xc7,
    w 0xc8, w 0xc9, w 0xca, w 0xcb, w 0xcc, w 0xcd, w 0xce, w 0xcf,
    w 0xd0, w 0xd1, w 0xd2, w 0xd3, w 0xd4, w 0xd5, w 0xd6, w 0xd7,
    w 0xd8, w 0xd9, w 0xda, w 0xdb, w 0xdc, w 0xdd, w 0xde, w 0xdf,
    w 0xe0, w 0xe1, w 0xe2, w 0xe3, w 0xe4, w 0xe5, w 0xe6, w 0xe7,
    w 0xe8, w 0xe9, w 0xea, w 0xeb, w 0xec, w 0xed, w 0xee, w 0xef,
    w 0xf0, w 0xf1, w 0xf2, w 0xf3, w 0xf4, w 0xf5, w 0xf6, w 0xf7,
    w 0xf8, w 0xf9, w 0xfa, w 0xfb, w 0xfc, w 0xfd, w 0xfe, w 0xff]"

definition rc_data :: "(u32 \<Rightarrow> 'a) \<Rightarrow> 'a list" where
  "rc_data w = [
    w 0x01, w 0x02, w 0x04, w 0x08, w 0x10, w 0x20, w 0x40, w 0x80,
    w 0x1b, w 0x36]"

subsection \<open>Field multiples and table entries\<close>

definition f2 :: "u32 \<Rightarrow> u32" where
  "f2 x = push_bit 1 x XOR ((drop_bit 7 x AND 1) * WPOLY)"

definition f4 :: "u32 \<Rightarrow> u32" where
  "f4 x = push_bit 2 x XOR ((drop_bit 6 x AND 1) * WPOLY) XOR ((drop_bit 6 x AND 2) * WPOLY)"

definition f8 :: "u32 \<Rightarrow> u32" where
  "f8 x = push_bit 3 x XOR ((drop_bit 5 x AND 1) * WPOLY) XOR ((drop_bit 5 x AND 2) * WPOLY)
                       XOR ((drop_bit 5 x AND 4) * WPOLY)"

definition f3 :: "u32 \<Rightarrow> u32" where "f3 x = f2 x XOR x"
definition f9 :: "u32 \<Rightarrow> u32" where "f9 x = f8 x XOR x"
definition fb :: "u32 \<Rightarrow> u32" where "fb x = f8 x XOR f2 x XOR x"
definition fd :: "u32 \<Rightarrow> u32" where "fd x = f8 x XOR f4 x XOR x"
definition fe :: "u32 \<Rightarrow> u32" where "fe x = f8 x XOR f4 x XOR f2 x"

definition w0 :: "u32 \<Rightarrow> u32" where "w0 p = bytes2word p 0 0 0"
definition w1 :: "u32 \<Rightarrow> u32" where "w1 p = bytes2word 0 p 0 0"
definition w2 :: "u32 \<Rightarrow> u32" where "w2 p = bytes2word 0 0 p 0"
definition w3 :: "u32 \<Rightarrow> u32" where "w3 p = bytes2word 0 0 0 p"

definition u0 :: "u32 \<Rightarrow> u32" where "u0 p = bytes2word (f2 p) p p (f3 p)"
definition u1 :: "u32 \<Rightarrow> u32" where "u1 p = bytes2word (f3 p) (f2 p) p p"
definition u2 :: "u32 \<Rightarrow> u32" where "u2 p = bytes2word p (f3 p) (f2 p) p"
definition u3 :: "u32 \<Rightarrow> u32" where "u3 p = bytes2word p p (f3 p) (f2 p)"

definition v0 :: "u32 \<Rightarrow> u32" where "v0 p = bytes2word (fe p) (f9 p) (fd p) (fb p)"
definition v1 :: "u32 \<Rightarrow> u32" where "v1 p = bytes2word (fb p) (fe p) (f9 p) (fd p)"
definition v2 :: "u32 \<Rightarrow> u32" where "v2 p = bytes2word (fd p) (fb p) (fe p) (f9 p)"
definition v3 :: "u32 \<Rightarrow> u32" where "v3 p = bytes2word (f9 p) (fd p) (fb p) (fe p)"

subsection \<open>The tables\<close>

definition t_rc :: "u32 list" where "t_rc = rc_data w0"
definition t_fn :: "u32 list list" where "t_fn = [sb_data u0, sb_data u1, sb_data u2, sb_data u3]"
definition t_fl :: "u32 list list" where "t_fl = [sb_data w0, sb_data w1, sb_data w2, sb_data w3]"
definition t_in :: "u32 list list" where "t_in = [isb_data v0, isb_data v1, isb_data v2, isb_data v3]"
definition t_il :: "u32 list list" where "t_il = [isb_data w0, isb_data w1, isb_data w2, isb_data w3]"
definition t_im :: "u32 list list" where "t_im = [mm_data v0, mm_data v1, mm_data v2, mm_data v3]"

text \<open>\<open>aes_init\<close> of the static-table option has nothing to do and reports success.\<close>

datatype aes_return = EXIT_SUCCESS | EXIT_FAILURE

definition aes_init :: aes_return where
  "aes_init = EXIT_SUCCESS"

definition ls_box :: "u32 \<Rightarrow> nat \<Rightarrow> u32" where
  "ls_box x c = four_tables t_fl (vf1 x) rf2 c"

definition inv_mcol :: "u32 \<Rightarrow> u32" where
  "inv_mcol x = four_tables t_im (vf1 x) rf1 0"

subsection \<open>What the tables hold\<close>

lemma sb_data_map: "sb_data w = map w (sb_data id)"
  by (simp add: sb_data_def)

lemma isb_data_map: "isb_data w = map w (isb_data id)"
  by (simp add: isb_data_def)

lemma mm_data_upt: "mm_data w = map (\<lambda>i. w (word_of_nat i)) [0..<256]"
  by (simp add: mm_data_def upt_conv_Cons)

lemma length_data [simp, len_simps]:
  "length (sb_data w) = 256" "length (isb_data w) = 256" "length (mm_data w) = 256"
  by (simp_all add: sb_data_def isb_data_def mm_data_def)

lemma data_bytes:
  "list_all (\<lambda>v. v AND 0xff = v) (sb_data id)" "list_all (\<lambda>v. v AND 0xff = v) (isb_data id)"
  by (simp_all add: sb_data_def isb_data_def)

lemma unat_byte_less: "unat (b :: byte) < 256"
  using unsigned_less [of b, where 'a = nat] by simp

lemma ucast_ucast_byte: "v AND 0xff = v \<Longrightarrow> ucast (ucast (v :: u32) :: byte) = v"
  unfolding mask_8 by (rule bit_word_eqI) (auto simp: bit_simps dest!: arg_cong [where f = "\<lambda>w. bit w _"])

text \<open>The S-box data is the S-box of the field, byte by byte, and \<open>isb_data\<close> is its inverse.\<close>

lemma sb_data_table: "sb_data id = 0x63 # map (ucast \<circ> affine) inverse_table"
  by (simp add: sb_data_def inverse_table_def affine_def byte_rotl_def)

lemma sb_data_sbox: "sb_data id = map (ucast \<circ> sbox) (map word_of_nat [0..<256])"
proof -
  have "map word_of_nat [0..<256] = (0 :: byte) # bytes_1_255" by (simp add: bytes_1_255 upt_conv_Cons)
  moreover have "sbox 0 = 0x63" by (simp add: sbox_def affine_def byte_rotl_def)
  moreover have "map (ucast \<circ> sbox) bytes_1_255 = (map (ucast \<circ> affine) inverse_table :: u32 list)"
    by (simp only: map_map [symmetric] map_sbox)
  ultimately show ?thesis by (simp add: sb_data_table)
qed

lemma nth_sb_data: "sb_data w ! unat (b :: byte) = w (ucast (sbox b))"
  by (subst sb_data_map) (simp add: sb_data_sbox unat_byte_less)

lemma sbox_inverse_table: "map (\<lambda>s. isb_data id ! unat s) (sb_data id) = mm_data id"
  by (simp add: isb_data_def sb_data_def mm_data_def)

lemma word_of_nat_unat_byte: "word_of_nat (unat (b :: byte)) = (ucast b :: u32)"
  by (simp flip: unat_ucast_byte)

lemma nth_isb_data: "isb_data w ! unat (b :: byte) = w (ucast (inv_sbox b))"
proof -
  have u: "unat b = unat (sb_data id ! unat (inv_sbox b))"
    by (simp add: nth_sb_data unat_ucast_byte)
  have "isb_data id ! unat b = mm_data id ! unat (inv_sbox b)"
    unfolding u using arg_cong [OF sbox_inverse_table, of "\<lambda>xs. xs ! unat (inv_sbox b)"] by (simp add: unat_byte_less)
  also have "\<dots> = ucast (inv_sbox b)" by (simp add: mm_data_upt unat_byte_less word_of_nat_unat_byte)
  finally show ?thesis by (subst isb_data_map) (simp add: unat_byte_less)
qed

lemma nth_mm_data: "mm_data w ! unat (b :: byte) = w (ucast b)"
  by (simp add: mm_data_upt unat_byte_less word_of_nat_unat_byte)

text \<open>The field macros, on a byte, are the multiplications of the standard.\<close>

lemma drop_bit_7_and: "(drop_bit n x AND 1) * WPOLY = (if bit x n then WPOLY else 0)" for x :: u32
proof -
  have "drop_bit n x AND 1 = (if bit x n then 1 else 0)"
    by (simp add: and_one_eq bit_iff_odd_drop_bit mod_2_eq_odd)
  then show ?thesis by simp
qed

lemma and_exp_word: "x AND 2 ^ n = (if bit x n then 2 ^ n else 0)" for x :: "'a::len word"
  by (rule bit_word_eqI) (auto simp: bit_and_iff bit_exp_iff)

lemma drop_bit_and_2: "(drop_bit n x AND 2) * WPOLY = (if bit x (Suc n) then WPOLY * 2 else 0)" for x :: u32
  using and_exp_word [of "drop_bit n x" 1] by (simp add: bit_drop_bit_eq)

lemma drop_bit_and_4: "(drop_bit n x AND 4) * WPOLY = (if bit x (n + 2) then WPOLY * 4 else 0)" for x :: u32
  using and_exp_word [of "drop_bit n x" 2] by (simp add: bit_drop_bit_eq)

lemma bit_WPOLY:
  "bit WPOLY i \<longleftrightarrow> i \<in> {0, 1, 3, 4, 8}"
  "bit (WPOLY * 2) i \<longleftrightarrow> i \<in> {1, 2, 4, 5, 9}"
  "bit (WPOLY * 4) i \<longleftrightarrow> i \<in> {2, 3, 5, 6, 10}"
proof -
  have "(bit WPOLY i \<longleftrightarrow> i \<in> {0, 1, 3, 4, 8}) \<and> (bit (WPOLY * 2) i \<longleftrightarrow> i \<in> {1, 2, 4, 5, 9})
      \<and> (bit (WPOLY * 4) i \<longleftrightarrow> i \<in> {2, 3, 5, 6, 10})"
  proof (cases "i < 32")
    case True
    then have "i \<in> {0,1,2,3,4,5,6,7,8,9,10,11,12,13,14,15,16,17,18,19,20,21,22,23,24,25,26,27,28,29,30,31}"
      by simp arith
    then show ?thesis by (elim insertE emptyE) (simp_all add: WPOLY_def)
  next
    case False
    then show ?thesis
      using bit_imp_le_length [of WPOLY i] bit_imp_le_length [of "WPOLY * 2" i]
        bit_imp_le_length [of "WPOLY * 4" i] by auto
  qed
  then show "bit WPOLY i \<longleftrightarrow> i \<in> {0, 1, 3, 4, 8}"
    and "bit (WPOLY * 2) i \<longleftrightarrow> i \<in> {1, 2, 4, 5, 9}"
    and "bit (WPOLY * 4) i \<longleftrightarrow> i \<in> {2, 3, 5, 6, 10}" by auto
qed

lemma bit_ucast_byte: "bit (ucast (b :: byte) :: u32) i \<longleftrightarrow> i < 8 \<and> bit b i"
  by (auto simp: bit_simps dest: bit_imp_le_length)

lemma bits_less_12: "(i :: nat) < 12 \<longleftrightarrow> i = 0 \<or> i = 1 \<or> i = 2 \<or> i = 3 \<or> i = 4 \<or> i = 5 \<or>
    i = 6 \<or> i = 7 \<or> i = 8 \<or> i = 9 \<or> i = 10 \<or> i = 11"
  by arith

lemmas f_bits = drop_bit_7_and drop_bit_and_2 drop_bit_and_4 bit_xor_iff if_distribR
  bit_push_bit_iff bit_ucast_byte bit_xtime

lemma f2_ucast: "f2 (ucast b) = ucast (xtime b)"
proof (rule bit_word_eqI)
  fix i assume "i < LENGTH(32)"
  show "bit (f2 (ucast b)) i = bit (ucast (xtime b) :: u32) i"
  proof (cases "i < 12")
    case True
    then show ?thesis unfolding bits_less_12 f2_def f_bits
      by (elim disjE; cases "bit b 7")
        (simp_all add: bit_ucast_byte bit_WPOLY flip: numeral_2_eq_2)
  next
    case False
    then show ?thesis unfolding f2_def f_bits
      by (cases "bit b 7") (auto simp: bit_ucast_byte bit_WPOLY)
  qed
qed

lemma f4_ucast: "f4 (ucast b) = ucast (x4 b)"
proof (rule bit_word_eqI)
  fix i assume "i < LENGTH(32)"
  show "bit (f4 (ucast b)) i = bit (ucast (x4 b) :: u32) i"
  proof (cases "i < 12")
    case True
    then show ?thesis unfolding bits_less_12 f4_def f_bits
      by (elim disjE; cases "bit b 7"; cases "bit b 6")
        (simp_all add: bit_ucast_byte bit_WPOLY flip: numeral_2_eq_2)
  next
    case False
    then show ?thesis unfolding f4_def f_bits
      by (cases "bit b 7"; cases "bit b 6") (auto simp: bit_ucast_byte bit_WPOLY)
  qed
qed

lemma f8_ucast: "f8 (ucast b) = ucast (x8 b)"
proof (rule bit_word_eqI)
  fix i assume "i < LENGTH(32)"
  show "bit (f8 (ucast b)) i = bit (ucast (x8 b) :: u32) i"
  proof (cases "i < 12")
    case True
    then show ?thesis unfolding bits_less_12 f8_def f_bits
      by (elim disjE; cases "bit b 7"; cases "bit b 6"; cases "bit b 5")
        (simp_all add: bit_ucast_byte bit_WPOLY flip: numeral_2_eq_2)
  next
    case False
    then show ?thesis unfolding f8_def f_bits
      by (cases "bit b 7"; cases "bit b 6"; cases "bit b 5") (auto simp: bit_ucast_byte bit_WPOLY)
  qed
qed

lemmas f_ucast = f2_ucast f4_ucast f8_ucast

end
