(* ===== verification/AesCrypt.thy ===== *)
theory AesCrypt
  imports AesTab
begin

text \<open>
  \<^verbatim>\<open>native/aes/aescrypt.c\<close>: one block through the cipher and back, for the
  options of \<^verbatim>\<open>aesopt.h\<close> (four tables, \<open>ENC_UNROLL\<close> and \<open>DEC_UNROLL\<close> equal to
  \<open>FULL\<close>). The flag \<open>rev_dks\<close> stands for \<open>AES_REV_DKS\<close>, which the header
  turns off for builds that may use the AES instructions. A context is the
  structure \<open>aes_crypt_ctx\<close> of \<^verbatim>\<open>aes.h\<close>; its union \<open>inf\<close> is kept as the four
  bytes \<open>inf.b\<close>. \<open>None\<close> is the return value \<open>EXIT_FAILURE\<close>, which leaves
  the output buffer untouched.
\<close>

record aes_crypt_ctx =
  ks :: "u32 list"
  inf_b :: "byte list"

definition AES_BLOCK_SIZE :: nat where "AES_BLOCK_SIZE = 16"
definition N_COLS :: nat where "N_COLS = 4"
definition KS_LENGTH :: nat where "KS_LENGTH = 60"

subsection \<open>The state\<close>

definition state_in :: "byte list \<Rightarrow> u32 list \<Rightarrow> u32 list" where
  "state_in x k = map (\<lambda>c. word_in x c XOR k ! c) [0, 1, 2, 3]"

definition state_out :: "u32 list \<Rightarrow> byte list" where
  "state_out x = concat (map (\<lambda>c. word_out (s_col x c)) [0, 1, 2, 3])"

definition round4 :: "(u32 list \<Rightarrow> u32 list \<Rightarrow> nat \<Rightarrow> u32) \<Rightarrow> u32 list \<Rightarrow> u32 list \<Rightarrow> u32 list" where
  "round4 rm x k = map (rm x k) [0, 1, 2, 3]"

subsection \<open>Encryption\<close>

definition fwd_var :: "u32 list \<Rightarrow> nat \<Rightarrow> nat \<Rightarrow> u32" where
  "fwd_var x r c =
     (if r = 0 then (if c = 0 then s_col x 0 else if c = 1 then s_col x 1 else if c = 2 then s_col x 2 else s_col x 3)
      else if r = 1 then (if c = 0 then s_col x 1 else if c = 1 then s_col x 2 else if c = 2 then s_col x 3 else s_col x 0)
      else if r = 2 then (if c = 0 then s_col x 2 else if c = 1 then s_col x 3 else if c = 2 then s_col x 0 else s_col x 1)
      else (if c = 0 then s_col x 3 else if c = 1 then s_col x 0 else if c = 2 then s_col x 1 else s_col x 2))"

definition fwd_rnd :: "u32 list \<Rightarrow> u32 list \<Rightarrow> nat \<Rightarrow> u32" where
  "fwd_rnd x k c = k ! c XOR four_tables t_fn (fwd_var x) rf1 c"

definition fwd_lrnd :: "u32 list \<Rightarrow> u32 list \<Rightarrow> nat \<Rightarrow> u32" where
  "fwd_lrnd x k c = k ! c XOR four_tables t_fl (fwd_var x) rf1 c"

text \<open>Two rounds and the advance of \<open>kp\<close>: the body of \<open>case 14\<close> and of \<open>case 12\<close>.\<close>

definition enc_two_rounds :: "u32 list \<times> u32 list \<Rightarrow> u32 list \<times> u32 list" where
  "enc_two_rounds = (\<lambda>(b0, kp).
     let b1 = round4 fwd_rnd b0 (drop (1 * N_COLS) kp);
         b0 = round4 fwd_rnd b1 (drop (2 * N_COLS) kp)
     in (b0, drop (2 * N_COLS) kp))"

definition enc_ten_rounds :: "u32 list \<times> u32 list \<Rightarrow> u32 list" where
  "enc_ten_rounds = (\<lambda>(b0, kp).
     let b1 = round4 fwd_rnd b0 (drop (1 * N_COLS) kp);
         b0 = round4 fwd_rnd b1 (drop (2 * N_COLS) kp);
         b1 = round4 fwd_rnd b0 (drop (3 * N_COLS) kp);
         b0 = round4 fwd_rnd b1 (drop (4 * N_COLS) kp);
         b1 = round4 fwd_rnd b0 (drop (5 * N_COLS) kp);
         b0 = round4 fwd_rnd b1 (drop (6 * N_COLS) kp);
         b1 = round4 fwd_rnd b0 (drop (7 * N_COLS) kp);
         b0 = round4 fwd_rnd b1 (drop (8 * N_COLS) kp);
         b1 = round4 fwd_rnd b0 (drop (9 * N_COLS) kp);
         b0 = round4 fwd_lrnd b1 (drop (10 * N_COLS) kp)
     in b0)"

definition aes_encrypt :: "byte list \<Rightarrow> aes_crypt_ctx \<Rightarrow> byte list option" where
  "aes_encrypt inp cx =
     (let n = unat (inf_b cx ! 0)
      in if n \<noteq> 10 * AES_BLOCK_SIZE \<and> n \<noteq> 12 * AES_BLOCK_SIZE \<and> n \<noteq> 14 * AES_BLOCK_SIZE then None
         else
           let kp = ks cx;
               b0 = state_in inp kp;
               st = (b0, kp);
               st = (if n = 14 * AES_BLOCK_SIZE then enc_two_rounds st else st);
               st = (if n = 14 * AES_BLOCK_SIZE \<or> n = 12 * AES_BLOCK_SIZE then enc_two_rounds st else st)
           in Some (state_out (enc_ten_rounds st)))"

subsection \<open>Decryption\<close>

definition inv_var :: "u32 list \<Rightarrow> nat \<Rightarrow> nat \<Rightarrow> u32" where
  "inv_var x r c =
     (if r = 0 then (if c = 0 then s_col x 0 else if c = 1 then s_col x 1 else if c = 2 then s_col x 2 else s_col x 3)
      else if r = 1 then (if c = 0 then s_col x 3 else if c = 1 then s_col x 0 else if c = 2 then s_col x 1 else s_col x 2)
      else if r = 2 then (if c = 0 then s_col x 2 else if c = 1 then s_col x 3 else if c = 2 then s_col x 0 else s_col x 1)
      else (if c = 0 then s_col x 1 else if c = 1 then s_col x 2 else if c = 2 then s_col x 3 else s_col x 0))"

definition inv_rnd :: "u32 list \<Rightarrow> u32 list \<Rightarrow> nat \<Rightarrow> u32" where
  "inv_rnd x k c = k ! c XOR four_tables t_in (inv_var x) rf1 c"

definition inv_lrnd :: "u32 list \<Rightarrow> u32 list \<Rightarrow> nat \<Rightarrow> u32" where
  "inv_lrnd x k c = k ! c XOR four_tables t_il (inv_var x) rf1 c"

text \<open>
  The round keys are read at a signed distance from \<open>kp\<close>: \<open>rnd_key(n)\<close> with
  the non-positive \<open>n\<close> of the unrolled code, written here as \<open>- n\<close>.
\<close>

definition rnd_key :: "bool \<Rightarrow> u32 list \<Rightarrow> nat \<Rightarrow> nat \<Rightarrow> u32 list" where
  "rnd_key rev_dks key kp n = (if rev_dks then drop (kp - n * N_COLS) key else drop (kp + n * N_COLS) key)"

definition dec_two_rounds ::
  "bool \<Rightarrow> u32 list \<Rightarrow> nat \<Rightarrow> nat \<Rightarrow> u32 list \<Rightarrow> u32 list" where
  "dec_two_rounds rev_dks key kp n b0 =
     (let b1 = round4 inv_rnd b0 (rnd_key rev_dks key kp n);
          b0 = round4 inv_rnd b1 (rnd_key rev_dks key kp (n - 1))
      in b0)"

definition dec_ten_rounds :: "bool \<Rightarrow> u32 list \<Rightarrow> nat \<Rightarrow> u32 list \<Rightarrow> u32 list" where
  "dec_ten_rounds rev_dks key kp b0 =
     (let b1 = round4 inv_rnd b0 (rnd_key rev_dks key kp 9);
          b0 = round4 inv_rnd b1 (rnd_key rev_dks key kp 8);
          b1 = round4 inv_rnd b0 (rnd_key rev_dks key kp 7);
          b0 = round4 inv_rnd b1 (rnd_key rev_dks key kp 6);
          b1 = round4 inv_rnd b0 (rnd_key rev_dks key kp 5);
          b0 = round4 inv_rnd b1 (rnd_key rev_dks key kp 4);
          b1 = round4 inv_rnd b0 (rnd_key rev_dks key kp 3);
          b0 = round4 inv_rnd b1 (rnd_key rev_dks key kp 2);
          b1 = round4 inv_rnd b0 (rnd_key rev_dks key kp 1);
          b0 = round4 inv_lrnd b1 (rnd_key rev_dks key kp 0)
      in b0)"

definition aes_decrypt :: "bool \<Rightarrow> byte list \<Rightarrow> aes_crypt_ctx \<Rightarrow> byte list option" where
  "aes_decrypt rev_dks inp cx =
     (let n = unat (inf_b cx ! 0)
      in if n \<noteq> 10 * AES_BLOCK_SIZE \<and> n \<noteq> 12 * AES_BLOCK_SIZE \<and> n \<noteq> 14 * AES_BLOCK_SIZE then None
         else
           let kp = (if \<not> rev_dks then n div 4 else 0);
               b0 = state_in inp (drop kp (ks cx));
               kp = (if \<not> rev_dks then 0 else n div 4);
               b0 = (if n = 14 * AES_BLOCK_SIZE then dec_two_rounds rev_dks (ks cx) kp 13 b0 else b0);
               b0 = (if n = 14 * AES_BLOCK_SIZE \<or> n = 12 * AES_BLOCK_SIZE
                     then dec_two_rounds rev_dks (ks cx) kp 11 b0 else b0)
           in Some (state_out (dec_ten_rounds rev_dks (ks cx) kp b0)))"

subsection \<open>Rounds on the bytes of the state\<close>

definition st_bytes :: "u32 list \<Rightarrow> byte list" where
  "st_bytes x = concat (map word_out x)"

lemma state_out_st_bytes: "length x = 4 \<Longrightarrow> state_out x = st_bytes x"
  by (erule list4_exhaust) (simp add: state_out_def st_bytes_def s_col_def)

lemma st_bytes_state_in:
  assumes "length x = 16" "4 \<le> length k"
  shows "st_bytes (state_in x k) = add_round_key (st_bytes (take 4 k)) x"
proof -
  from assms(2) obtain k0 k1 k2 k3 kr where k: "k = k0 # k1 # k2 # k3 # kr"
    by (rule list_ge4_exhaust)
  from assms(1) show ?thesis
    by (elim list16_exhaust)
       (simp add: st_bytes_def state_in_def add_round_key_def word_out_byte_of k)
qed

lemma length_round4 [simp, len_simps]: "length (round4 rm x k) = 4"
  by (simp add: round4_def)

lemma sbox_tables:
  "t_fn ! 0 ! unat (b :: byte) = u0 (ucast (sbox b))" "t_fn ! Suc 0 ! unat b = u1 (ucast (sbox b))"
  "t_fn ! 2 ! unat b = u2 (ucast (sbox b))" "t_fn ! 3 ! unat b = u3 (ucast (sbox b))"
  "t_fl ! 0 ! unat b = w0 (ucast (sbox b))" "t_fl ! Suc 0 ! unat b = w1 (ucast (sbox b))"
  "t_fl ! 2 ! unat b = w2 (ucast (sbox b))" "t_fl ! 3 ! unat b = w3 (ucast (sbox b))"
  "t_in ! 0 ! unat b = v0 (ucast (inv_sbox b))" "t_in ! Suc 0 ! unat b = v1 (ucast (inv_sbox b))"
  "t_in ! 2 ! unat b = v2 (ucast (inv_sbox b))" "t_in ! 3 ! unat b = v3 (ucast (inv_sbox b))"
  "t_il ! 0 ! unat b = w0 (ucast (inv_sbox b))" "t_il ! Suc 0 ! unat b = w1 (ucast (inv_sbox b))"
  "t_il ! 2 ! unat b = w2 (ucast (inv_sbox b))" "t_il ! 3 ! unat b = w3 (ucast (inv_sbox b))"
  "t_im ! 0 ! unat b = v0 (ucast b)" "t_im ! Suc 0 ! unat b = v1 (ucast b)"
  "t_im ! 2 ! unat b = v2 (ucast b)" "t_im ! 3 ! unat b = v3 (ucast b)"
  by (simp_all add: t_fn_def t_fl_def t_in_def t_il_def t_im_def nth_sb_data nth_isb_data nth_mm_data)

lemma f3_ucast: "f3 (ucast b) = ucast (g3 b)" and f9_ucast: "f9 (ucast b) = ucast (g9 b)"
  and fb_ucast: "fb (ucast b) = ucast (gb b)" and fd_ucast: "fd (ucast b) = ucast (gd b)"
  and fe_ucast: "fe (ucast b) = ucast (ge b)"
  by (simp_all add: f3_def f9_def fb_def fd_def fe_def f_ucast ucast_xor)

lemmas entry_defs = u0_def u1_def u2_def u3_def w0_def w1_def w2_def w3_def v0_def v1_def v2_def v3_def
  f2_ucast f3_ucast f9_ucast fb_ucast fd_ucast fe_ucast

lemma byte_of_bytes2word_0 [simp]:
  fixes b :: byte
  shows "byte_of (bytes2word (ucast b) 0 0 0) 0 = b"
    and "byte_of (bytes2word (ucast b) 0 0 0) (Suc 0) = 0"
    and "byte_of (bytes2word (ucast b) 0 0 0) 2 = 0"
    and "byte_of (bytes2word (ucast b) 0 0 0) 3 = 0"
    and "byte_of (bytes2word 0 (ucast b) 0 0) 0 = 0"
    and "byte_of (bytes2word 0 (ucast b) 0 0) (Suc 0) = b"
    and "byte_of (bytes2word 0 (ucast b) 0 0) 2 = 0"
    and "byte_of (bytes2word 0 (ucast b) 0 0) 3 = 0"
    and "byte_of (bytes2word 0 0 (ucast b) 0) 0 = 0"
    and "byte_of (bytes2word 0 0 (ucast b) 0) (Suc 0) = 0"
    and "byte_of (bytes2word 0 0 (ucast b) 0) 2 = b"
    and "byte_of (bytes2word 0 0 (ucast b) 0) 3 = 0"
    and "byte_of (bytes2word 0 0 0 (ucast b)) 0 = 0"
    and "byte_of (bytes2word 0 0 0 (ucast b)) (Suc 0) = 0"
    and "byte_of (bytes2word 0 0 0 (ucast b)) 2 = 0"
    and "byte_of (bytes2word 0 0 0 (ucast b)) 3 = b"
  using byte_of_bytes2word [of b 0 0 0] byte_of_bytes2word [of 0 b 0 0]
    byte_of_bytes2word [of 0 0 b 0] byte_of_bytes2word [of 0 0 0 b]
  by simp_all

lemma word_out_bytes2word [simp]:
  fixes a b c d :: byte
  shows "word_out (bytes2word (ucast a) (ucast b) (ucast c) (ucast d)) = [a, b, c, d]"
  by (simp add: word_out_byte_of)

lemma four_tables_words:
  "four_tables tab vf rf c =
     tab ! 0 ! unat (byte_of (vf 0 c) (rf 0 c)) XOR tab ! Suc 0 ! unat (byte_of (vf 1 c) (rf 1 c)) XOR
     tab ! 2 ! unat (byte_of (vf 2 c) (rf 2 c)) XOR tab ! 3 ! unat (byte_of (vf 3 c) (rf 3 c))"
  by (simp add: four_tables_def unat_bval)

text \<open>The table-driven forward rounds are the rounds of the standard.\<close>

lemma fwd_rnd_spec:
  assumes "length x = 4" "4 \<le> length k"
  shows "st_bytes (round4 fwd_rnd x k) = spec_round sbox (st_bytes (take 4 k)) (st_bytes x)"
proof -
  from assms(2) obtain k0 k1 k2 k3 kr where k: "k = k0 # k1 # k2 # k3 # kr"
    by (rule list_ge4_exhaust)
  from assms(1) obtain x0 x1 x2 x3 where x: "x = [x0, x1, x2, x3]"
    by (rule list4_exhaust)
  show ?thesis
    by (simp add: st_bytes_def round4_def fwd_rnd_def four_tables_words fwd_var_def s_col_def rf1_def
        sbox_tables entry_defs xor_simps x k spec_round_def round_defs upt16 gmul_consts word_out_byte_of xor_ac)
qed

lemma fwd_lrnd_spec:
  assumes "length x = 4" "4 \<le> length k"
  shows "st_bytes (round4 fwd_lrnd x k) = spec_last_round sbox (st_bytes (take 4 k)) (st_bytes x)"
proof -
  from assms(2) obtain k0 k1 k2 k3 kr where k: "k = k0 # k1 # k2 # k3 # kr"
    by (rule list_ge4_exhaust)
  from assms(1) obtain x0 x1 x2 x3 where x: "x = [x0, x1, x2, x3]"
    by (rule list4_exhaust)
  show ?thesis
    by (simp add: st_bytes_def round4_def fwd_lrnd_def four_tables_words fwd_var_def s_col_def rf1_def
        sbox_tables entry_defs xor_simps x k spec_last_round_def round_defs upt16 word_out_byte_of xor_ac)
qed

text \<open>
  The table-driven inverse rounds compute the equivalent inverse cipher: the
  column transformation comes before the key is added.
\<close>

lemma inv_rnd_spec:
  assumes "length x = 4" "4 \<le> length k"
  shows "st_bytes (round4 inv_rnd x k) =
    add_round_key (st_bytes (take 4 k)) (inv_mix_columns (sub_bytes inv_sbox (inv_shift_rows (st_bytes x))))"
proof -
  from assms(2) obtain k0 k1 k2 k3 kr where k: "k = k0 # k1 # k2 # k3 # kr"
    by (rule list_ge4_exhaust)
  from assms(1) obtain x0 x1 x2 x3 where x: "x = [x0, x1, x2, x3]"
    by (rule list4_exhaust)
  show ?thesis
    by (simp add: st_bytes_def round4_def inv_rnd_def four_tables_words inv_var_def s_col_def rf1_def
        sbox_tables entry_defs xor_simps x k round_defs upt16 gmul_consts word_out_byte_of xor_ac)
qed

lemma inv_lrnd_spec:
  assumes "length x = 4" "4 \<le> length k"
  shows "st_bytes (round4 inv_lrnd x k) = inv_last_round inv_sbox (st_bytes (take 4 k)) (st_bytes x)"
proof -
  from assms(2) obtain k0 k1 k2 k3 kr where k: "k = k0 # k1 # k2 # k3 # kr"
    by (rule list_ge4_exhaust)
  from assms(1) obtain x0 x1 x2 x3 where x: "x = [x0, x1, x2, x3]"
    by (rule list4_exhaust)
  show ?thesis
    by (simp add: st_bytes_def round4_def inv_lrnd_def four_tables_words inv_var_def s_col_def rf1_def
        sbox_tables entry_defs xor_simps x k inv_last_round_def round_defs upt16 word_out_byte_of xor_ac)
qed

lemma word_out_inv_mcol: "word_out (inv_mcol w) = inv_mix_column (word_out w)"
  by (simp add: inv_mcol_def four_tables_words vf1_def rf1_def sbox_tables entry_defs xor_simps
      inv_mix_column_def gmul_consts word_out_byte_of xor_ac)

lemma inv_mcol_xor: "inv_mcol (a XOR b) = inv_mcol a XOR inv_mcol b"
proof (rule word_out_inj [THEN iffD1])
  show "word_out (inv_mcol (a XOR b)) = word_out (inv_mcol a XOR inv_mcol b)"
    unfolding word_out_inv_mcol word_out_xor
    by (simp add: inv_mix_column_def gmul_consts word_out_byte_of xor_ac)
qed

lemma st_bytes_inv_mcol:
  "length k = 4 \<Longrightarrow> st_bytes (map inv_mcol k) = inv_mix_columns (st_bytes k)"
  by (erule list4_exhaust)
     (simp add: st_bytes_def word_out_inv_mcol inv_mix_columns_def columns_def)

subsection \<open>The whole cipher\<close>

definition round_key :: "u32 list \<Rightarrow> nat \<Rightarrow> byte list" where
  "round_key key r = st_bytes (take 4 (drop (4 * r) key))"

lemma length_st_bytes [simp, len_simps]: "length (st_bytes x) = 4 * length x"
  by (induction x) (simp_all add: st_bytes_def)

lemma length_round_key [simp]: "4 * r + 4 \<le> length key \<Longrightarrow> length (round_key key r) = 16"
  by (simp add: round_key_def)

lemma fwd_rnd_key:
  assumes "length x = 4" "4 * (i + j) + 4 \<le> length key"
  shows "st_bytes (round4 fwd_rnd x (drop (j * N_COLS) (drop (4 * i) key))) =
         spec_round sbox (round_key key (i + j)) (st_bytes x)"
    and "st_bytes (round4 fwd_lrnd x (drop (j * N_COLS) (drop (4 * i) key))) =
         spec_last_round sbox (round_key key (i + j)) (st_bytes x)"
  using assms
  by (simp_all add: fwd_rnd_spec fwd_lrnd_spec round_key_def N_COLS_def algebra_simps)

lemma enc_two_rounds_spec:
  assumes "length x = 4" "4 * (i + 2) + 4 \<le> length key"
    and "enc_two_rounds (x, drop (4 * i) key) = (y, kp)"
  shows "length y = 4" "kp = drop (4 * (i + 2)) key"
    and "st_bytes y = fold (\<lambda>r. spec_round sbox (round_key key r)) [i + 1, i + 2] (st_bytes x)"
proof -
  let ?x1 = "round4 fwd_rnd x (drop (1 * N_COLS) (drop (4 * i) key))"
  have y: "y = round4 fwd_rnd ?x1 (drop (2 * N_COLS) (drop (4 * i) key))"
    and kp: "kp = drop (2 * N_COLS) (drop (4 * i) key)"
    using assms(3) by (auto simp: enc_two_rounds_def Let_def)
  show "length y = 4" by (simp add: y)
  show "kp = drop (4 * (i + 2)) key" by (simp add: kp N_COLS_def algebra_simps)
  have "st_bytes ?x1 = spec_round sbox (round_key key (i + 1)) (st_bytes x)"
    by (rule fwd_rnd_key) (use assms in simp_all)
  moreover have "st_bytes y = spec_round sbox (round_key key (i + 2)) (st_bytes ?x1)"
    unfolding y by (rule fwd_rnd_key) (use assms in simp_all)
  ultimately show "st_bytes y = fold (\<lambda>r. spec_round sbox (round_key key r)) [i + 1, i + 2] (st_bytes x)"
    by simp
qed

lemma enc_ten_rounds_spec:
  assumes "length x = 4" "4 * (i + 10) + 4 \<le> length key"
  shows "length (enc_ten_rounds (x, drop (4 * i) key)) = 4"
    and "st_bytes (enc_ten_rounds (x, drop (4 * i) key)) =
      spec_last_round sbox (round_key key (i + 10))
        (fold (\<lambda>r. spec_round sbox (round_key key r)) (map ((+) i) [1..<10]) (st_bytes x))"
proof -
  have r: "length y = 4 \<Longrightarrow> j < 10 \<Longrightarrow>
      st_bytes (round4 fwd_rnd y (drop (j * N_COLS) (drop (4 * i) key))) =
      spec_round sbox (round_key key (i + j)) (st_bytes y)" for y j
    by (rule fwd_rnd_key) (use assms in simp_all)
  have l: "length y = 4 \<Longrightarrow>
      st_bytes (round4 fwd_lrnd y (drop (10 * N_COLS) (drop (4 * i) key))) =
      spec_last_round sbox (round_key key (i + 10)) (st_bytes y)" for y
    by (rule fwd_rnd_key) (use assms in simp_all)
  have u: "[1..<10] = [1, 2, 3, 4, 5, 6, 7, 8, 9 :: nat]" by (simp add: upt_conv_Cons)
  show "length (enc_ten_rounds (x, drop (4 * i) key)) = 4"
    by (simp add: enc_ten_rounds_def Let_def)
  show "st_bytes (enc_ten_rounds (x, drop (4 * i) key)) =
      spec_last_round sbox (round_key key (i + 10))
        (fold (\<lambda>r. spec_round sbox (round_key key r)) (map ((+) i) [1..<10]) (st_bytes x))"
    unfolding enc_ten_rounds_def Let_def prod.case u
    using r [of _ 1] r [of _ 2] r [of _ 3] r [of _ 4] r [of _ 5] r [of _ 6] r [of _ 7] r [of _ 8]
      r [of _ 9] l assms(1)
    by (simp del: drop_drop One_nat_def)
qed

lemma map_plus_upt: "map ((+) i) [j..<k] = [i + j..<i + k]"
  by (induction k) auto

definition valid_nr :: "nat \<Rightarrow> bool" where
  "valid_nr nr \<longleftrightarrow> nr = 10 \<or> nr = 12 \<or> nr = 14"

lemma state_in_add_round_key:
  assumes "length inp = 16" "4 * i + 4 \<le> length key"
  shows "st_bytes (state_in inp (drop (4 * i) key)) = add_round_key (round_key key i) inp"
  using assms by (simp add: st_bytes_state_in round_key_def)

lemma length_state_in [simp]: "length (state_in inp k) = 4"
  by (simp add: state_in_def)

lemma upt_rounds:
  "[Suc 0..<3] = [1, 2]" "[Suc 0..<10] = [1, 2, 3, 4, 5, 6, 7, 8, 9]" "[Suc 0..<12] = [1, 2, 3, 4, 5, 6, 7, 8, 9, 10, 11]"
  "[Suc 0..<14] = [1, 2, 3, 4, 5, 6, 7, 8, 9, 10, 11, 12, 13]"
  by (simp_all add: upt_conv_Cons)

lemma aes_encrypt_cipher:
  assumes "valid_nr nr" "unat (inf_b cx ! 0) = nr * 16"
    and "4 * nr + 4 \<le> length (ks cx)" "length inp = 16"
  shows "aes_encrypt inp cx = Some (cipher sbox nr (round_key (ks cx)) inp)"
proof -
  let ?key = "ks cx" and ?b = "state_in inp (ks cx)"
  let ?R = "\<lambda>r. spec_round sbox (round_key ?key r)"
  have b: "st_bytes ?b = add_round_key (round_key ?key 0) inp"
    using state_in_add_round_key [of inp 0 ?key] assms by simp
  have ten: "state_out (enc_ten_rounds (x, drop (4 * i) ?key)) =
      spec_last_round sbox (round_key ?key (i + 10)) (fold ?R [i + 1..<i + 10] (st_bytes x))"
    if "length x = 4" "4 * (i + 10) + 4 \<le> length ?key" for x i
    using enc_ten_rounds_spec [OF that] by (simp add: state_out_st_bytes map_plus_upt)
  have two: "\<exists>y. enc_two_rounds (x, drop (4 * i) ?key) = (y, drop (4 * (i + 2)) ?key) \<and> length y = 4
      \<and> st_bytes y = fold ?R [i + 1..<i + 3] (st_bytes x)"
    if "length x = 4" "4 * (i + 2) + 4 \<le> length ?key" for x i
  proof -
    obtain y kp where e: "enc_two_rounds (x, drop (4 * i) ?key) = (y, kp)" by fastforce
    from enc_two_rounds_spec [OF that e] e show ?thesis
      by (simp add: upt_conv_Cons)
  qed
  consider "nr = 10" | "nr = 12" | "nr = 14" using assms(1) by (auto simp: valid_nr_def)
  then show ?thesis
  proof cases
    case 1
    with assms have "aes_encrypt inp cx = Some (state_out (enc_ten_rounds (?b, drop (4 * 0) ?key)))"
      by (simp add: aes_encrypt_def AES_BLOCK_SIZE_def Let_def)
    then show ?thesis using ten [of ?b 0] assms 1 by (simp add: cipher_def b)
  next
    case 2
    obtain y where y: "enc_two_rounds (?b, drop (4 * 0) ?key) = (y, drop (4 * (0 + 2)) ?key)"
      "length y = 4" "st_bytes y = fold ?R [0 + 1..<0 + 3] (st_bytes ?b)"
      using two [of ?b 0] assms 2 by auto
    with 2 assms have "aes_encrypt inp cx = Some (state_out (enc_ten_rounds (y, drop (4 * 2) ?key)))"
      by (simp add: aes_encrypt_def AES_BLOCK_SIZE_def Let_def)
    then show ?thesis using ten [of y 2] assms 2 y
      by (simp add: cipher_def b upt_rounds)
  next
    case 3
    obtain y where y: "enc_two_rounds (?b, drop (4 * 0) ?key) = (y, drop (4 * (0 + 2)) ?key)"
      "length y = 4" "st_bytes y = fold ?R [0 + 1..<0 + 3] (st_bytes ?b)"
      using two [of ?b 0] assms 3 by auto
    obtain z where z: "enc_two_rounds (y, drop (4 * 2) ?key) = (z, drop (4 * (2 + 2)) ?key)"
      "length z = 4" "st_bytes z = fold ?R [2 + 1..<2 + 3] (st_bytes y)"
      using two [of y 2] assms 3 y by auto
    with 3 assms y have "aes_encrypt inp cx = Some (state_out (enc_ten_rounds (z, drop (4 * 4) ?key)))"
      by (simp add: aes_encrypt_def AES_BLOCK_SIZE_def Let_def)
    then show ?thesis using ten [of z 4] assms 3 y z
      by (simp add: cipher_def b upt_rounds)
  qed
qed

subsection \<open>The inverse cipher\<close>

text \<open>
  \<open>InvCipher\<close> with the column transformation moved before the key addition
  (FIPS 197, figure 15), for round keys \<open>dk\<close>; \<open>dec_key\<close> reads round key
  \<open>r\<close> from a schedule that is reversed or not.
\<close>

definition eq_inv_cipher :: "(byte \<Rightarrow> byte) \<Rightarrow> nat \<Rightarrow> (nat \<Rightarrow> byte list) \<Rightarrow> byte list \<Rightarrow> byte list" where
  "eq_inv_cipher isb nr dk inp =
     inv_last_round isb (dk 0)
       (fold (\<lambda>r s. add_round_key (dk r) (inv_mix_columns (sub_bytes isb (inv_shift_rows s))))
         (rev [1..<nr]) (add_round_key (dk nr) inp))"

definition dec_key :: "bool \<Rightarrow> nat \<Rightarrow> u32 list \<Rightarrow> nat \<Rightarrow> byte list" where
  "dec_key rev_dks nr key r = (if rev_dks then round_key key (nr - r) else round_key key r)"

lemma inv_rnd_key:
  assumes "length x = 4" "j \<le> nr" "4 * nr + 4 \<le> length key"
    and "kp = (if rev_dks then nr * 4 else 0)"
  shows "st_bytes (round4 inv_rnd x (rnd_key rev_dks key kp j)) =
      add_round_key (dec_key rev_dks nr key j) (inv_mix_columns (sub_bytes inv_sbox (inv_shift_rows (st_bytes x))))"
    and "st_bytes (round4 inv_lrnd x (rnd_key rev_dks key kp j)) =
      inv_last_round inv_sbox (dec_key rev_dks nr key j) (st_bytes x)"
proof -
  have e: "nr * 4 - 4 * j = 4 * (nr - j)" by (simp add: diff_mult_distrib2)
  show "st_bytes (round4 inv_rnd x (rnd_key rev_dks key kp j)) =
      add_round_key (dec_key rev_dks nr key j) (inv_mix_columns (sub_bytes inv_sbox (inv_shift_rows (st_bytes x))))"
    "st_bytes (round4 inv_lrnd x (rnd_key rev_dks key kp j)) =
      inv_last_round inv_sbox (dec_key rev_dks nr key j) (st_bytes x)"
    using assms by (auto simp: rnd_key_def dec_key_def round_key_def N_COLS_def e mult.commute [of j] inv_rnd_spec inv_lrnd_spec)
qed

lemma aes_decrypt_eq_inv_cipher:
  assumes "valid_nr nr" "unat (inf_b cx ! 0) = nr * 16"
    and "4 * nr + 4 \<le> length (ks cx)" "length inp = 16"
  shows "aes_decrypt rev_dks inp cx =
    Some (eq_inv_cipher inv_sbox nr (dec_key rev_dks nr (ks cx)) inp)"
proof -
  let ?key = "ks cx" and ?kp = "if rev_dks then nr * 4 else 0"
  let ?b = "state_in inp (drop (if rev_dks then 0 else nr * 4) ?key)"
  let ?R = "\<lambda>r s. add_round_key (dec_key rev_dks nr ?key r) (inv_mix_columns (sub_bytes inv_sbox (inv_shift_rows s)))"
  have b: "st_bytes ?b = add_round_key (dec_key rev_dks nr ?key nr) inp"
    using state_in_add_round_key [of inp 0 ?key] state_in_add_round_key [of inp nr ?key] assms
    by (auto simp: dec_key_def mult.commute)
  note r = inv_rnd_key(1) [OF _ _ assms(3) refl, of _ _ rev_dks]
  note l = inv_rnd_key(2) [OF _ _ assms(3) refl, of _ _ rev_dks]
  have two: "st_bytes (dec_two_rounds rev_dks ?key ?kp j x) = ?R (j - 1) (?R j (st_bytes x))"
    "length (dec_two_rounds rev_dks ?key ?kp j x) = 4"
    if "length x = 4" "j \<le> nr" for j x
    using that by (simp_all add: dec_two_rounds_def Let_def r)
  have ten: "state_out (dec_ten_rounds rev_dks ?key ?kp x) =
      inv_last_round inv_sbox (dec_key rev_dks nr ?key 0) (fold ?R (rev [1..<10]) (st_bytes x))"
    if "length x = 4" for x
  proof -
    have "10 \<le> nr" using assms(1) by (auto simp: valid_nr_def)
    then show ?thesis
      using that by (simp add: dec_ten_rounds_def Let_def state_out_st_bytes r l upt_rounds)
  qed
  have unf: "aes_decrypt rev_dks inp cx =
     (let b0 = ?b;
          b0 = (if nr = 14 then dec_two_rounds rev_dks ?key ?kp 13 b0 else b0);
          b0 = (if nr = 14 \<or> nr = 12 then dec_two_rounds rev_dks ?key ?kp 11 b0 else b0)
      in Some (state_out (dec_ten_rounds rev_dks ?key ?kp b0)))"
    using assms(1,2) by (auto simp: aes_decrypt_def AES_BLOCK_SIZE_def Let_def valid_nr_def)
  consider "nr = 10" | "nr = 12" | "nr = 14" using assms(1) by (auto simp: valid_nr_def)
  then show ?thesis
  proof cases
    case 1
    then show ?thesis unfolding unf using ten [of ?b] b by (simp add: Let_def eq_inv_cipher_def upt_rounds)
  next
    case 2
    then show ?thesis unfolding unf
      using ten [of "dec_two_rounds rev_dks ?key ?kp 11 ?b"] two [of ?b 11] b
      by (simp add: Let_def eq_inv_cipher_def upt_rounds)
  next
    case 3
    let ?c = "dec_two_rounds rev_dks ?key ?kp 13 ?b"
    from 3 show ?thesis unfolding unf
      using ten [of "dec_two_rounds rev_dks ?key ?kp 11 ?c"] two [of ?b 13] two [of ?c 11] b
      by (simp add: Let_def eq_inv_cipher_def upt_rounds)
  qed
qed

subsection \<open>Decryption undoes encryption\<close>

lemma inv_mix_columns_add_round_key:
  assumes "length s = 16" "length k = 16"
  shows "inv_mix_columns (add_round_key k s) = add_round_key (inv_mix_columns k) (inv_mix_columns s)"
proof -
  from assms(1) obtain a0 a1 a2 a3 a4 a5 a6 a7 a8 a9 a10 a11 a12 a13 a14 a15
    where s: "s = [a0, a1, a2, a3, a4, a5, a6, a7, a8, a9, a10, a11, a12, a13, a14, a15]"
    by (rule list16_exhaust)
  from assms(2) obtain b0 b1 b2 b3 b4 b5 b6 b7 b8 b9 b10 b11 b12 b13 b14 b15
    where k: "k = [b0, b1, b2, b3, b4, b5, b6, b7, b8, b9, b10, b11, b12, b13, b14, b15]"
    by (rule list16_exhaust)
  show ?thesis by (simp add: s k round_defs gmul_consts xor_ac)
qed

lemma inv_mix_columns_mix_columns: "length s = 16 \<Longrightarrow> inv_mix_columns (mix_columns s) = s"
  by (erule list16_exhaust) (simp add: round_defs gmul_consts xor_ac)

lemma inv_sub_shift:
  assumes "\<And>b. isb (sb b) = b" "length s = 16"
  shows "sub_bytes isb (inv_shift_rows (shift_rows (sub_bytes sb s))) = s"
  using assms by (simp add: inv_shift_rows_shift_rows) (simp add: sub_bytes_def o_def)

lemma add_round_key_twice: "length s \<le> length k \<Longrightarrow> add_round_key k (add_round_key k s) = s"
  by (simp add: add_round_key_def xor_bytes_cancel)

lemma length_spec_round [simp, len_simps]:
  "length k = 16 \<Longrightarrow> length (spec_round sb k s) = 16"
  "length k = 16 \<Longrightarrow> length (spec_last_round sb k s) = 16"
  by (simp_all add: spec_round_def spec_last_round_def)

lemma length_fold_spec_round:
  "(\<And>r. r \<in> set rs \<Longrightarrow> length (rk r) = 16) \<Longrightarrow> length s = 16 \<Longrightarrow>
   length (fold (\<lambda>r. spec_round sb (rk r)) rs s) = 16"
  by (induction rs arbitrary: s) simp_all

lemma length_cipher [simp, len_simps]: "length (rk nr) = 16 \<Longrightarrow> length (cipher sb nr rk inp) = 16"
  by (simp add: cipher_def)

lemma eq_inv_rounds:
  assumes inv: "\<And>b. isb (sb b) = b" and len: "\<And>r. r < n \<Longrightarrow> length (rk r) = 16"
    and dk: "\<And>r. 0 < r \<Longrightarrow> r < n \<Longrightarrow> dk r = inv_mix_columns (rk r)" and s: "length s = 16"
  shows "fold (\<lambda>r s. add_round_key (dk r) (inv_mix_columns (sub_bytes isb (inv_shift_rows s)))) (rev [1..<n])
           (shift_rows (sub_bytes sb (fold (\<lambda>r. spec_round sb (rk r)) [1..<n] s))) =
         shift_rows (sub_bytes sb s)"
  using len dk
proof (induction n)
  case (Suc n)
  show ?case
  proof (cases "n = 0")
    case False
    let ?t = "fold (\<lambda>r. spec_round sb (rk r)) [1..<n] s"
    have t: "length ?t = 16" by (rule length_fold_spec_round) (use Suc.prems s in auto)
    have k: "length (rk n) = 16" "dk n = inv_mix_columns (rk n)" using Suc.prems False by auto
    have "add_round_key (dk n) (inv_mix_columns (sub_bytes isb (inv_shift_rows
            (shift_rows (sub_bytes sb (spec_round sb (rk n) ?t)))))) = shift_rows (sub_bytes sb ?t)"
      using k by (simp add: inv_sub_shift inv spec_round_def inv_mix_columns_add_round_key
          inv_mix_columns_mix_columns add_round_key_twice)
    then show ?thesis using Suc False by simp
  qed simp
qed simp

lemma eq_inv_cipher_cipher:
  assumes inv: "\<And>b. isb (sb b) = b" and len: "\<And>r. r \<le> nr \<Longrightarrow> length (rk r) = 16"
    and dk: "dk 0 = rk 0" "dk nr = rk nr" "\<And>r. 0 < r \<Longrightarrow> r < nr \<Longrightarrow> dk r = inv_mix_columns (rk r)"
    and inp: "length inp = 16"
  shows "eq_inv_cipher isb nr dk (cipher sb nr rk inp) = inp"
proof -
  let ?s = "add_round_key (rk 0) inp"
  have s: "length ?s = 16" using inp len [of 0] by simp
  have "eq_inv_cipher isb nr dk (cipher sb nr rk inp) =
      inv_last_round isb (rk 0) (shift_rows (sub_bytes sb ?s))"
    using eq_inv_rounds [of isb sb nr rk dk ?s] inv len dk s
    by (simp add: eq_inv_cipher_def cipher_def spec_last_round_def add_round_key_twice)
  also have "\<dots> = inp"
    using s inp len [of 0] inv by (simp add: inv_last_round_def inv_sub_shift add_round_key_twice)
  finally show ?thesis .
qed

end
