(* ===== verification/AesKey.thy ===== *)
theory AesKey
  imports AesCrypt
begin

text \<open>
  \<^verbatim>\<open>native/aes/aeskey.c\<close>: the key schedules, for the options
  \<open>ENC_KS_UNROLL\<close> and \<open>DEC_KS_UNROLL\<close>. The macros \<open>ke4\<close>, \<open>kd4\<close>, \dots write
  the schedule \<open>k\<close> and the rolling words \<open>ss\<close>; here they map a pair \<open>(k, ss)\<close>
  to the new pair, one \<open>kset\<close> or \<open>sset\<close> per assignment. A key-setting function
  takes the context it overwrites and returns it (they always succeed). The
  schedules are compared with \<open>KeyExpansion\<close> of FIPS 197.
\<close>

subsection \<open>Assignments\<close>

type_synonym sched = "u32 list \<times> u32 list"

text \<open>\<open>k[n] = ss[j] ^= e\<close>, \<open>ss[j] ^= e\<close>, \<open>ss[j] = e\<close> and \<open>k[n] = e\<close>.\<close>

definition kset :: "nat \<Rightarrow> nat \<Rightarrow> (sched \<Rightarrow> u32) \<Rightarrow> sched \<Rightarrow> sched" where
  "kset n j e = (\<lambda>(k, ss). let v = ss ! j XOR e (k, ss) in (k[n := v], ss[j := v]))"

definition sxor :: "nat \<Rightarrow> (sched \<Rightarrow> u32) \<Rightarrow> sched \<Rightarrow> sched" where
  "sxor j e = (\<lambda>(k, ss). (k, ss[j := ss ! j XOR e (k, ss)]))"

definition sset :: "nat \<Rightarrow> (sched \<Rightarrow> u32) \<Rightarrow> sched \<Rightarrow> sched" where
  "sset j e = (\<lambda>(k, ss). (k, ss[j := e (k, ss)]))"

definition kput :: "nat \<Rightarrow> (sched \<Rightarrow> u32) \<Rightarrow> sched \<Rightarrow> sched" where
  "kput n e = (\<lambda>(k, ss). (k[n := e (k, ss)], ss))"

definition sv :: "nat \<Rightarrow> sched \<Rightarrow> u32" where "sv j = (\<lambda>(k, ss). ss ! j)"
definition kv :: "nat \<Rightarrow> sched \<Rightarrow> u32" where "kv n = (\<lambda>(k, ss). k ! n)"

fun steps :: "(sched \<Rightarrow> sched) list \<Rightarrow> sched \<Rightarrow> sched" where
  "steps [] s = s"
| "steps (f # fs) s = steps fs (f s)"

definition MARK_AS_ENCRYPTION_CTX :: "aes_crypt_ctx \<Rightarrow> aes_crypt_ctx" where
  "MARK_AS_ENCRYPTION_CTX cx = cx\<lparr>inf_b := (inf_b cx)[2 := inf_b cx ! 2 OR 0x01]\<rparr>"

definition MARK_AS_DECRYPTION_CTX :: "aes_crypt_ctx \<Rightarrow> aes_crypt_ctx" where
  "MARK_AS_DECRYPTION_CTX cx = cx\<lparr>inf_b := (inf_b cx)[2 := inf_b cx ! 2 AND 0xfe]\<rparr>"

text \<open>\<open>cx->inf.l = 0; cx->inf.b[0] = n * AES_BLOCK_SIZE\<close>\<close>

definition set_rounds :: "nat \<Rightarrow> aes_crypt_ctx \<Rightarrow> aes_crypt_ctx" where
  "set_rounds n cx = cx\<lparr>inf_b := (replicate 4 0)[0 := word_of_nat (n * AES_BLOCK_SIZE)]\<rparr>"

definition IS_ENCRYPTION_CTX :: "aes_crypt_ctx \<Rightarrow> bool" where
  "IS_ENCRYPTION_CTX cx \<longleftrightarrow> inf_b cx ! 2 AND 0x01 = 1"

definition IS_DECRYPTION_CTX :: "aes_crypt_ctx \<Rightarrow> bool" where
  "IS_DECRYPTION_CTX cx \<longleftrightarrow> inf_b cx ! 2 AND 0x01 = 0"

definition key_in :: "byte list \<Rightarrow> nat \<Rightarrow> u32 list \<Rightarrow> sched" where
  "key_in key nk k = (fold (\<lambda>i k. k[i := word_in key i]) [0..<nk] k, map (word_in key) [0..<nk])"

subsection \<open>Encryption schedules\<close>

definition ke4 :: "nat \<Rightarrow> sched \<Rightarrow> sched" where
  "ke4 i = steps
    [kset (4*i+4) 0 (\<lambda>s. ls_box (sv 3 s) 3 XOR t_rc ! i),
     kset (4*i+5) 1 (sv 0),
     kset (4*i+6) 2 (sv 1),
     kset (4*i+7) 3 (sv 2)]"

definition aes_encrypt_key128 :: "byte list \<Rightarrow> aes_crypt_ctx \<Rightarrow> aes_crypt_ctx" where
  "aes_encrypt_key128 key cx =
     (let st = key_in key 4 (ks cx);
          st = steps [ke4 0, ke4 1, ke4 2, ke4 3, ke4 4, ke4 5, ke4 6, ke4 7, ke4 8, ke4 9] st
      in MARK_AS_ENCRYPTION_CTX (set_rounds 10 (cx\<lparr>ks := fst st\<rparr>)))"

definition kef6 :: "nat \<Rightarrow> sched \<Rightarrow> sched" where
  "kef6 i = steps
    [kset (6*i+ 6) 0 (\<lambda>s. ls_box (sv 5 s) 3 XOR t_rc ! i),
     kset (6*i+ 7) 1 (sv 0),
     kset (6*i+ 8) 2 (sv 1),
     kset (6*i+ 9) 3 (sv 2)]"

definition ke6 :: "nat \<Rightarrow> sched \<Rightarrow> sched" where
  "ke6 i = steps
    [kef6 i,
     kset (6*i+10) 4 (sv 3),
     kset (6*i+11) 5 (sv 4)]"

definition aes_encrypt_key192 :: "byte list \<Rightarrow> aes_crypt_ctx \<Rightarrow> aes_crypt_ctx" where
  "aes_encrypt_key192 key cx =
     (let st = key_in key 6 (ks cx);
          st = steps [ke6 0, ke6 1, ke6 2, ke6 3, ke6 4, ke6 5, ke6 6, kef6 7] st
      in MARK_AS_ENCRYPTION_CTX (set_rounds 12 (cx\<lparr>ks := fst st\<rparr>)))"

definition kef8 :: "nat \<Rightarrow> sched \<Rightarrow> sched" where
  "kef8 i = steps
    [kset (8*i+ 8) 0 (\<lambda>s. ls_box (sv 7 s) 3 XOR t_rc ! i),
     kset (8*i+ 9) 1 (sv 0),
     kset (8*i+10) 2 (sv 1),
     kset (8*i+11) 3 (sv 2)]"

definition ke8 :: "nat \<Rightarrow> sched \<Rightarrow> sched" where
  "ke8 i = steps
    [kef8 i,
     kset (8*i+12) 4 (\<lambda>s. ls_box (sv 3 s) 0),
     kset (8*i+13) 5 (sv 4),
     kset (8*i+14) 6 (sv 5),
     kset (8*i+15) 7 (sv 6)]"

definition aes_encrypt_key256 :: "byte list \<Rightarrow> aes_crypt_ctx \<Rightarrow> aes_crypt_ctx" where
  "aes_encrypt_key256 key cx =
     (let st = key_in key 8 (ks cx);
          st = steps [ke8 0, ke8 1, ke8 2, ke8 3, ke8 4, ke8 5, kef8 6] st
      in MARK_AS_ENCRYPTION_CTX (set_rounds 14 (cx\<lparr>ks := fst st\<rparr>)))"

definition aes_encrypt_key :: "byte list \<Rightarrow> int \<Rightarrow> aes_crypt_ctx \<Rightarrow> aes_crypt_ctx option" where
  "aes_encrypt_key key key_len cx =
     (if key_len = 16 \<or> key_len = 128 then Some (aes_encrypt_key128 key cx)
      else if key_len = 24 \<or> key_len = 192 then Some (aes_encrypt_key192 key cx)
      else if key_len = 32 \<or> key_len = 256 then Some (aes_encrypt_key256 key cx)
      else None)"

subsection \<open>Decryption schedules\<close>

text \<open>
  The index map \<open>v\<close>: the schedule is stored reversed, by round keys, under
  \<open>AES_REV_DKS\<close>. The macro's \<open>(n) - (i) + 2 * ((i) & 3)\<close> is evaluated in
  \<open>int\<close>; the sum comes first here, so that the difference of naturals is exact.
\<close>

definition v_idx :: "bool \<Rightarrow> nat \<Rightarrow> nat \<Rightarrow> nat" where
  "v_idx rev_dks n i = (if rev_dks then n + 2 * (i mod 4) - i else i)"

text \<open>\<open>DEC_ROUND\<close> is not \<open>NO_TABLES\<close>.\<close>

definition ff :: "u32 \<Rightarrow> u32" where
  "ff x = inv_mcol x"

text \<open>\<open>k[n] = ss[j] ^= k[m]\<close> of the \<open>kd\<close> macros is \<open>kset n j (kv m)\<close>.\<close>

definition kdf4 :: "bool \<Rightarrow> nat \<Rightarrow> sched \<Rightarrow> sched" where
  "kdf4 rd i = (let v = v_idx rd 40 in steps
    [sset 0 (\<lambda>s. sv 0 s XOR sv 2 s XOR sv 1 s XOR sv 3 s),
     sset 1 (\<lambda>s. sv 1 s XOR sv 3 s),
     sset 2 (\<lambda>s. sv 2 s XOR sv 3 s),
     sset 4 (\<lambda>s. ls_box (sv ((i+3) mod 4) s) 3 XOR t_rc ! i),
     sxor (i mod 4) (sv 4),
     sxor 4 (kv (v (4*i))),   kput (v (4*i+4)) (\<lambda>s. ff (sv 4 s)),
     sxor 4 (kv (v (4*i+1))), kput (v (4*i+5)) (\<lambda>s. ff (sv 4 s)),
     sxor 4 (kv (v (4*i+2))), kput (v (4*i+6)) (\<lambda>s. ff (sv 4 s)),
     sxor 4 (kv (v (4*i+3))), kput (v (4*i+7)) (\<lambda>s. ff (sv 4 s))])"

definition kd4 :: "bool \<Rightarrow> nat \<Rightarrow> sched \<Rightarrow> sched" where
  "kd4 rd i = (let v = v_idx rd 40 in steps
    [sset 4 (\<lambda>s. ls_box (sv ((i+3) mod 4) s) 3 XOR t_rc ! i),
     sxor (i mod 4) (sv 4), sset 4 (\<lambda>s. ff (sv 4 s)),
     kset (v (4*i+4)) 4 (kv (v (4*i))),
     kset (v (4*i+5)) 4 (kv (v (4*i+1))),
     kset (v (4*i+6)) 4 (kv (v (4*i+2))),
     kset (v (4*i+7)) 4 (kv (v (4*i+3)))])"

definition kdl4 :: "bool \<Rightarrow> nat \<Rightarrow> sched \<Rightarrow> sched" where
  "kdl4 rd i = (let v = v_idx rd 40 in steps
    [sset 4 (\<lambda>s. ls_box (sv ((i+3) mod 4) s) 3 XOR t_rc ! i), sxor (i mod 4) (sv 4),
     sxor 0 (sv 1), kput (v (4*i+4)) (\<lambda>s. sv 0 s XOR sv 2 s XOR sv 3 s),
     kput (v (4*i+5)) (\<lambda>s. sv 1 s XOR sv 3 s),
     kput (v (4*i+6)) (sv 0),
     kput (v (4*i+7)) (sv 1)])"

text \<open>The stores of the first key words; those from \<open>n\<close> on go through \<open>ff\<close>.\<close>

definition key_in_dec :: "(nat \<Rightarrow> nat) \<Rightarrow> byte list \<Rightarrow> nat \<Rightarrow> nat \<Rightarrow> u32 list \<Rightarrow> sched" where
  "key_in_dec v key nk n k =
     (fold (\<lambda>i k. k[v i := (if i < 4 then word_in key i else ff (word_in key i))]) [0..<nk] k,
      map (word_in key) [0..<nk] @ replicate (n - nk) 0)"

definition aes_decrypt_key128 :: "bool \<Rightarrow> byte list \<Rightarrow> aes_crypt_ctx \<Rightarrow> aes_crypt_ctx" where
  "aes_decrypt_key128 rd key cx =
     (let st = key_in_dec (v_idx rd 40) key 4 5 (ks cx);
          st = steps [kdf4 rd 0, kd4 rd 1, kd4 rd 2, kd4 rd 3, kd4 rd 4, kd4 rd 5,
                      kd4 rd 6, kd4 rd 7, kd4 rd 8, kdl4 rd 9] st
      in MARK_AS_DECRYPTION_CTX (set_rounds 10 (cx\<lparr>ks := fst st\<rparr>)))"

definition kdf6 :: "bool \<Rightarrow> nat \<Rightarrow> sched \<Rightarrow> sched" where
  "kdf6 rd i = (let v = v_idx rd 48 in steps
    [sxor 0 (\<lambda>s. ls_box (sv 5 s) 3 XOR t_rc ! i), kput (v (6*i+ 6)) (\<lambda>s. ff (sv 0 s)),
     sxor 1 (sv 0), kput (v (6*i+ 7)) (\<lambda>s. ff (sv 1 s)),
     sxor 2 (sv 1), kput (v (6*i+ 8)) (\<lambda>s. ff (sv 2 s)),
     sxor 3 (sv 2), kput (v (6*i+ 9)) (\<lambda>s. ff (sv 3 s)),
     sxor 4 (sv 3), kput (v (6*i+10)) (\<lambda>s. ff (sv 4 s)),
     sxor 5 (sv 4), kput (v (6*i+11)) (\<lambda>s. ff (sv 5 s))])"

definition kd6 :: "bool \<Rightarrow> nat \<Rightarrow> sched \<Rightarrow> sched" where
  "kd6 rd i = (let v = v_idx rd 48 in steps
    [sset 6 (\<lambda>s. ls_box (sv 5 s) 3 XOR t_rc ! i),
     sxor 0 (sv 6), sset 6 (\<lambda>s. ff (sv 6 s)), kset (v (6*i+ 6)) 6 (kv (v (6*i))),
     sxor 1 (sv 0), kset (v (6*i+ 7)) 6 (kv (v (6*i+ 1))),
     sxor 2 (sv 1), kset (v (6*i+ 8)) 6 (kv (v (6*i+ 2))),
     sxor 3 (sv 2), kset (v (6*i+ 9)) 6 (kv (v (6*i+ 3))),
     sxor 4 (sv 3), kset (v (6*i+10)) 6 (kv (v (6*i+ 4))),
     sxor 5 (sv 4), kset (v (6*i+11)) 6 (kv (v (6*i+ 5)))])"

definition kdl6 :: "bool \<Rightarrow> nat \<Rightarrow> sched \<Rightarrow> sched" where
  "kdl6 rd i = (let v = v_idx rd 48 in steps
    [kset (v (6*i+ 6)) 0 (\<lambda>s. ls_box (sv 5 s) 3 XOR t_rc ! i),
     kset (v (6*i+ 7)) 1 (sv 0),
     kset (v (6*i+ 8)) 2 (sv 1),
     kset (v (6*i+ 9)) 3 (sv 2)])"

definition aes_decrypt_key192 :: "bool \<Rightarrow> byte list \<Rightarrow> aes_crypt_ctx \<Rightarrow> aes_crypt_ctx" where
  "aes_decrypt_key192 rd key cx =
     (let st = key_in_dec (v_idx rd 48) key 6 7 (ks cx);
          st = steps [kdf6 rd 0, kd6 rd 1, kd6 rd 2, kd6 rd 3, kd6 rd 4, kd6 rd 5, kd6 rd 6, kdl6 rd 7] st
      in MARK_AS_DECRYPTION_CTX (set_rounds 12 (cx\<lparr>ks := fst st\<rparr>)))"

definition kdf8 :: "bool \<Rightarrow> nat \<Rightarrow> sched \<Rightarrow> sched" where
  "kdf8 rd i = (let v = v_idx rd 56 in steps
    [sxor 0 (\<lambda>s. ls_box (sv 7 s) 3 XOR t_rc ! i), kput (v (8*i+ 8)) (\<lambda>s. ff (sv 0 s)),
     sxor 1 (sv 0), kput (v (8*i+ 9)) (\<lambda>s. ff (sv 1 s)),
     sxor 2 (sv 1), kput (v (8*i+10)) (\<lambda>s. ff (sv 2 s)),
     sxor 3 (sv 2), kput (v (8*i+11)) (\<lambda>s. ff (sv 3 s)),
     sxor 4 (\<lambda>s. ls_box (sv 3 s) 0), kput (v (8*i+12)) (\<lambda>s. ff (sv 4 s)),
     sxor 5 (sv 4), kput (v (8*i+13)) (\<lambda>s. ff (sv 5 s)),
     sxor 6 (sv 5), kput (v (8*i+14)) (\<lambda>s. ff (sv 6 s)),
     sxor 7 (sv 6), kput (v (8*i+15)) (\<lambda>s. ff (sv 7 s))])"

definition kd8 :: "bool \<Rightarrow> nat \<Rightarrow> sched \<Rightarrow> sched" where
  "kd8 rd i = (let v = v_idx rd 56 in steps
    [sset 8 (\<lambda>s. ls_box (sv 7 s) 3 XOR t_rc ! i),
     sxor 0 (sv 8), sset 8 (\<lambda>s. ff (sv 8 s)), kset (v (8*i+ 8)) 8 (kv (v (8*i))),
     sxor 1 (sv 0), kset (v (8*i+ 9)) 8 (kv (v (8*i+ 1))),
     sxor 2 (sv 1), kset (v (8*i+10)) 8 (kv (v (8*i+ 2))),
     sxor 3 (sv 2), kset (v (8*i+11)) 8 (kv (v (8*i+ 3))),
     sset 8 (\<lambda>s. ls_box (sv 3 s) 0),
     sxor 4 (sv 8), sset 8 (\<lambda>s. ff (sv 8 s)), kset (v (8*i+12)) 8 (kv (v (8*i+ 4))),
     sxor 5 (sv 4), kset (v (8*i+13)) 8 (kv (v (8*i+ 5))),
     sxor 6 (sv 5), kset (v (8*i+14)) 8 (kv (v (8*i+ 6))),
     sxor 7 (sv 6), kset (v (8*i+15)) 8 (kv (v (8*i+ 7)))])"

definition kdl8 :: "bool \<Rightarrow> nat \<Rightarrow> sched \<Rightarrow> sched" where
  "kdl8 rd i = (let v = v_idx rd 56 in steps
    [kset (v (8*i+ 8)) 0 (\<lambda>s. ls_box (sv 7 s) 3 XOR t_rc ! i),
     kset (v (8*i+ 9)) 1 (sv 0),
     kset (v (8*i+10)) 2 (sv 1),
     kset (v (8*i+11)) 3 (sv 2)])"

definition aes_decrypt_key256 :: "bool \<Rightarrow> byte list \<Rightarrow> aes_crypt_ctx \<Rightarrow> aes_crypt_ctx" where
  "aes_decrypt_key256 rd key cx =
     (let st = key_in_dec (v_idx rd 56) key 8 9 (ks cx);
          st = steps [kdf8 rd 0, kd8 rd 1, kd8 rd 2, kd8 rd 3, kd8 rd 4, kd8 rd 5, kdl8 rd 6] st
      in MARK_AS_DECRYPTION_CTX (set_rounds 14 (cx\<lparr>ks := fst st\<rparr>)))"

definition aes_decrypt_key :: "bool \<Rightarrow> byte list \<Rightarrow> int \<Rightarrow> aes_crypt_ctx \<Rightarrow> aes_crypt_ctx option" where
  "aes_decrypt_key rd key key_len cx =
     (if key_len = 16 \<or> key_len = 128 then Some (aes_decrypt_key128 rd key cx)
      else if key_len = 24 \<or> key_len = 192 then Some (aes_decrypt_key192 rd key cx)
      else if key_len = 32 \<or> key_len = 256 then Some (aes_decrypt_key256 rd key cx)
      else None)"

subsection \<open>The layout of a schedule\<close>

text \<open>
  \<open>holds v D n k\<close>: words \<open>0\<close> to \<open>n - 1\<close> of the sequence \<open>D\<close> are stored in
  the schedule \<open>k\<close>, word \<open>m\<close> at index \<open>v m\<close>. The macros rely on an index map
  that does not write a word twice and stays inside the array.
\<close>

definition holds :: "(nat \<Rightarrow> nat) \<Rightarrow> (nat \<Rightarrow> u32) \<Rightarrow> nat \<Rightarrow> u32 list \<Rightarrow> bool" where
  "holds v D n k \<longleftrightarrow> length k = KS_LENGTH \<and> (\<forall>m<n. k ! v m = D m)"

lemma holdsD: "holds v D n k \<Longrightarrow> m < n \<Longrightarrow> k ! v m = D m"
  by (simp add: holds_def)

lemma steps_append: "steps (fs @ gs) st = steps gs (steps fs st)"
  by (induction fs arbitrary: st) simp_all

lemma steps_nest: "steps (steps fs # gs) st = steps (fs @ gs) st"
  by (simp add: steps_append)

lemma sv_pair [simp]: "sv j (k, ss) = ss ! j"
  by (simp add: sv_def)

lemma kv_pair [simp]: "kv n (k, ss) = k ! n"
  by (simp add: kv_def)

text \<open>\<open>stored v D n ss st\<close>: the state \<open>st\<close> holds \<open>n\<close> words and the rolling words are \<open>ss\<close>.\<close>

definition stored :: "(nat \<Rightarrow> nat) \<Rightarrow> (nat \<Rightarrow> u32) \<Rightarrow> nat \<Rightarrow> u32 list \<Rightarrow> sched \<Rightarrow> bool" where
  "stored v D n ss st \<longleftrightarrow> holds v D n (fst st) \<and> snd st = ss"

lemma sxor_step:
  "ss ! j XOR e (k, ss) = x \<Longrightarrow> stored v D n ss' (steps fs (k, ss[j := x])) \<Longrightarrow>
   stored v D n ss' (steps (sxor j e # fs) (k, ss))"
  by (simp add: sxor_def)

lemma sset_step:
  "e (k, ss) = x \<Longrightarrow> stored v D n ss' (steps fs (k, ss[j := x])) \<Longrightarrow>
   stored v D n ss' (steps (sset j e # fs) (k, ss))"
  by (simp add: sset_def)

lemma storedI: "holds v D n k \<Longrightarrow> n' = n \<Longrightarrow> ss = ss' \<Longrightarrow> stored v D n' ss' (steps [] (k, ss))"
  by (simp add: stored_def)

locale ks_layout =
  fixes v :: "nat \<Rightarrow> nat" and N :: nat
  assumes v_inj: "m < N \<Longrightarrow> n < N \<Longrightarrow> v m = v n \<Longrightarrow> m = n"
    and v_less: "m < N \<Longrightarrow> v m < KS_LENGTH"
begin

lemma holds_update: "holds v D n k \<Longrightarrow> n < N \<Longrightarrow> holds v D (Suc n) (k[v n := D n])"
proof -
  assume h: "holds v D n k" and n: "n < N"
  have "k[v n := D n] ! v m = D m" if "m < Suc n" for m
  proof (cases "m = n")
    case False
    with that n v_inj [of m n] have "v m \<noteq> v n" "m < n" by auto
    then show ?thesis using h by (simp add: holds_def)
  qed (use h v_less [OF n] in \<open>simp add: holds_def\<close>)
  then show ?thesis using h by (simp add: holds_def)
qed

lemma holds_fold:
  "length k = KS_LENGTH \<Longrightarrow> (\<And>i. i < n \<Longrightarrow> f i = D i) \<Longrightarrow> n \<le> N \<Longrightarrow>
   holds v D n (fold (\<lambda>i k. k[v i := f i]) [0..<n] k)"
proof (induction n)
  case (Suc n)
  then show ?case using holds_update [of D n "fold (\<lambda>i k. k[v i := f i]) [0..<n] k"] by simp
qed (simp add: holds_def)

lemma kput_step:
  assumes "holds v D n k" "w = v n" "n < N" "e (k, ss) = D n"
    and "\<And>k'. holds v D (Suc n) k' \<Longrightarrow> stored v D n' ss' (steps fs (k', ss))"
  shows "stored v D n' ss' (steps (kput w e # fs) (k, ss))"
  using assms(5) [OF holds_update [OF assms(1,3)]] assms(2,4) by (simp add: kput_def)

lemma kset_step:
  assumes "holds v D n k" "w = v n" "n < N" "ss ! j XOR e (k, ss) = D n"
    and "\<And>k'. holds v D (Suc n) k' \<Longrightarrow> stored v D n' ss' (steps fs (k', ss[j := D n]))"
  shows "stored v D n' ss' (steps (kset w j e # fs) (k, ss))"
  using assms(5) [OF holds_update [OF assms(1,3)]] assms(2,4) by (simp add: kset_def Let_def)

end

interpretation lay_enc: ks_layout "\<lambda>i. i" 60
  by unfold_locales (auto simp: KS_LENGTH_def)

lemma v_idx_rev: "i < n + 4 \<Longrightarrow> 4 dvd n \<Longrightarrow> v_idx True n i = 4 * (n div 4 - i div 4) + i mod 4"
proof -
  assume i: "i < n + 4" and n: "4 dvd n"
  obtain p where p: "n = 4 * p" using n by (elim dvdE)
  obtain q r where q: "q = i div 4" "r = i mod 4" by simp
  then have "i = 4 * q + r" "q \<le> p" using i p by simp_all
  then have "n + 2 * r - i = 4 * (p - q) + r" using p by simp
  then show ?thesis unfolding v_idx_def using p q by simp
qed

lemma ks_layout_v_idx:
  assumes "n = 40 \<or> n = 48 \<or> n = 56"
  shows "ks_layout (v_idx rd n) (n + 4)"
proof
  fix m j assume mj: "m < n + 4" "j < n + 4" "v_idx rd n m = v_idx rd n j"
  have n: "4 dvd n" using assms by auto
  show "m = j"
  proof (cases rd)
    case True
    with mj v_idx_rev [OF mj(1) n] v_idx_rev [OF mj(2) n]
    have e: "4 * (n div 4 - m div 4) + m mod 4 = 4 * (n div 4 - j div 4) + j mod 4" by simp
    then have "(4 * (n div 4 - m div 4) + m mod 4) mod 4 = (4 * (n div 4 - j div 4) + j mod 4) mod 4" by simp
    then have mo: "m mod 4 = j mod 4" by simp
    with e have "n div 4 - m div 4 = n div 4 - j div 4" by simp
    moreover have "m div 4 \<le> n div 4" "j div 4 \<le> n div 4" using mj(1,2) n by presburger+
    ultimately have "m div 4 = j div 4" by arith
    with mo show ?thesis by (metis mult_div_mod_eq)
  qed (use mj in \<open>simp add: v_idx_def\<close>)
next
  fix m assume "m < n + 4"
  then have "2 * (m mod 4) \<le> m + 3" by presburger
  with \<open>m < n + 4\<close> assms show "v_idx rd n m < KS_LENGTH" by (auto simp: v_idx_def KS_LENGTH_def)
qed

interpretation lay_dec10: ks_layout "v_idx rd 40" 44 for rd
  using ks_layout_v_idx [of 40 rd] by simp

interpretation lay_dec12: ks_layout "v_idx rd 48" 52 for rd
  using ks_layout_v_idx [of 48 rd] by simp

interpretation lay_dec14: ks_layout "v_idx rd 56" 60 for rd
  using ks_layout_v_idx [of 56 rd] by simp

subsection \<open>The words of the expanded key\<close>

definition exp_word :: "nat \<Rightarrow> byte list \<Rightarrow> nat \<Rightarrow> u32" where
  "exp_word nk key i = word_in (key_expansion sbox nk key i) 0"

lemma length_key_expansion [simp]:
  "length key = 4 * nk \<Longrightarrow> 0 < nk \<Longrightarrow> length (key_expansion sb nk key i) = 4"
proof (induction sb nk key i rule: key_expansion.induct)
  case (1 sb nk key i)
  have r: "length (rcon j) = 4" for j by (simp add: rcon_def)
  show ?case
    using 1 by (subst key_expansion.simps) (simp add: Let_def r)
qed

lemma word_out_exp_word:
  "length key = 4 * nk \<Longrightarrow> 0 < nk \<Longrightarrow> word_out (exp_word nk key i) = key_expansion sbox nk key i"
  by (simp add: exp_word_def word_out_word_in)

lemma word_out_ls_box:
  "word_out (ls_box x 3) = map sbox (rotate1 (word_out x))" "word_out (ls_box x 0) = map sbox (word_out x)"
  by (simp_all add: ls_box_def four_tables_words vf1_def rf2_def sbox_tables entry_defs
      word_out_byte_of)

lemma xtime_vals:
  "xtime 1 = 2" "xtime 2 = 4" "xtime 4 = 8" "xtime 8 = 16" "xtime 16 = 32"
  "xtime 32 = 64" "xtime 64 = 128" "xtime 128 = 27" "xtime 27 = 54"
  by (simp_all add: xtime_def)

lemma rcon_vals:
  "rcon 1 = [1, 0, 0, 0]" "rcon 2 = [2, 0, 0, 0]" "rcon 3 = [4, 0, 0, 0]" "rcon 4 = [8, 0, 0, 0]"
  "rcon 5 = [16, 0, 0, 0]" "rcon 6 = [32, 0, 0, 0]" "rcon 7 = [64, 0, 0, 0]" "rcon 8 = [128, 0, 0, 0]"
  "rcon 9 = [27, 0, 0, 0]" "rcon 10 = [54, 0, 0, 0]"
  by (simp_all add: rcon_def eval_nat_numeral xtime_vals)

lemma word_out_t_rc: "i < 10 \<Longrightarrow> word_out (t_rc ! i) = rcon (i + 1)"
proof -
  assume "i < 10"
  then have "i = 0 \<or> i = 1 \<or> i = 2 \<or> i = 3 \<or> i = 4 \<or> i = 5 \<or> i = 6 \<or> i = 7 \<or> i = 8 \<or> i = 9"
    by arith
  then show ?thesis
    by (elim disjE)
       (simp_all add: rcon_vals [simplified] rcon_vals [unfolded numeral_2_eq_2] t_rc_def rc_data_def w0_def word_out_byte_of byte_of_def bytes2word_def)
qed

lemma exp_word_step:
  assumes "length key = 4 * nk" "0 < nk" "nk \<le> i"
  shows "exp_word nk key i = exp_word nk key (i - nk) XOR
    word_in (let t = key_expansion sbox nk key (i - 1)
         in if i mod nk = 0 then xor_bytes (map sbox (rotate1 t)) (rcon (i div nk))
            else if 6 < nk \<and> i mod nk = 4 then map sbox t else t) 0"
proof (rule word_out_inj [THEN iffD1])
  let ?t = "let t = key_expansion sbox nk key (i - 1)
         in if i mod nk = 0 then xor_bytes (map sbox (rotate1 t)) (rcon (i div nk))
            else if 6 < nk \<and> i mod nk = 4 then map sbox t else t"
  have "length (rcon j) = 4" for j by (simp add: rcon_def)
  then have l: "length ?t = 4" using assms by (simp add: Let_def)
  have "word_out (exp_word nk key i) = xor_bytes (key_expansion sbox nk key (i - nk)) ?t"
    using assms by (subst word_out_exp_word) (simp_all, subst key_expansion.simps, simp)
  also have "\<dots> = word_out (exp_word nk key (i - nk) XOR word_in ?t 0)"
    using assms l by (simp add: word_out_xor word_out_exp_word word_out_word_in)
  finally show "word_out (exp_word nk key i) = word_out (exp_word nk key (i - nk) XOR word_in ?t 0)" .
qed

lemma word_in_key_expansion:
  "word_in (xor_bytes xs ys) 0 = word_in xs 0 XOR word_in ys 0" if "length xs = 4" "length ys = 4"
  by (rule word_out_inj [THEN iffD1]) (use that in \<open>simp add: word_out_word_in word_out_xor\<close>)

lemma exp_word_rot:
  assumes "length key = 4 * nk" "0 < nk" "nk \<le> i" "i mod nk = 0" "i div nk \<le> 10"
  shows "exp_word nk key i = exp_word nk key (i - nk) XOR (ls_box (exp_word nk key (i - 1)) 3 XOR t_rc ! (i div nk - 1))"
proof -
  have d: "0 < i div nk" using assms by (simp add: div_greater_zero_iff)
  have "word_in (xor_bytes (map sbox (rotate1 (key_expansion sbox nk key (i - 1)))) (rcon (i div nk))) 0 =
      ls_box (exp_word nk key (i - 1)) 3 XOR t_rc ! (i div nk - 1)"
    by (rule word_out_inj [THEN iffD1])
       (use assms d in \<open>simp add: word_out_word_in word_out_xor word_out_ls_box word_out_t_rc word_out_exp_word rcon_def\<close>)
  then show ?thesis using exp_word_step [OF assms(1-3)] assms(4) by (simp add: Let_def)
qed

lemma exp_word_sub:
  assumes "length key = 4 * nk" "6 < nk" "nk \<le> i" "i mod nk = 4"
  shows "exp_word nk key i = exp_word nk key (i - nk) XOR ls_box (exp_word nk key (i - 1)) 0"
proof -
  have "word_in (map sbox (key_expansion sbox nk key (i - 1))) 0 = ls_box (exp_word nk key (i - 1)) 0"
    by (rule word_out_inj [THEN iffD1])
       (use assms in \<open>simp add: word_out_word_in word_out_ls_box word_out_exp_word\<close>)
  then show ?thesis using exp_word_step [of key nk i] assms by (simp add: Let_def)
qed

lemma exp_word_plain:
  assumes "length key = 4 * nk" "0 < nk" "nk \<le> i" "i mod nk \<noteq> 0" "6 < nk \<Longrightarrow> i mod nk \<noteq> 4"
  shows "exp_word nk key i = exp_word nk key (i - nk) XOR exp_word nk key (i - 1)"
proof -
  have "word_in (key_expansion sbox nk key (i - 1)) 0 = exp_word nk key (i - 1)"
    by (simp add: exp_word_def)
  then show ?thesis using exp_word_step [OF assms(1-3)] assms(4,5) by (auto simp: Let_def)
qed

lemma exp_word_key:
  assumes "length key = 4 * nk" "i < nk"
  shows "exp_word nk key i = word_in key i"
  by (rule word_out_inj [THEN iffD1], subst word_out_exp_word)
     (use assms in \<open>simp_all add: word_out_word_in key_expansion.simps\<close>)

text \<open>The recurrence, in the form in which the macros of each key length use it (indices as \<open>simp\<close> writes them).\<close>

lemma exp4:
  assumes "length key = 16" "i < 10"
  shows "exp_word 4 key (4 + 4 * i) = exp_word 4 key (4 * i) XOR (ls_box (exp_word 4 key (3 + 4 * i)) 3 XOR t_rc ! i)"
    and "exp_word 4 key (5 + 4 * i) = exp_word 4 key (Suc (4 * i)) XOR exp_word 4 key (4 + 4 * i)"
    and "exp_word 4 key (6 + 4 * i) = exp_word 4 key (Suc (Suc (4 * i))) XOR exp_word 4 key (5 + 4 * i)"
    and "exp_word 4 key (7 + 4 * i) = exp_word 4 key (3 + 4 * i) XOR exp_word 4 key (6 + 4 * i)"
proof -
  show "exp_word 4 key (4 + 4 * i) = exp_word 4 key (4 * i) XOR (ls_box (exp_word 4 key (3 + 4 * i)) 3 XOR t_rc ! i)"
    using exp_word_rot [of key 4 "4*i+4"] assms by (simp add: add.commute)
  show "exp_word 4 key (5 + 4 * i) = exp_word 4 key (Suc (4 * i)) XOR exp_word 4 key (4 + 4 * i)"
    using exp_word_plain [of key 4 "4*i+5"] assms by (simp add: add.commute mod_simps)
  show "exp_word 4 key (6 + 4 * i) = exp_word 4 key (Suc (Suc (4 * i))) XOR exp_word 4 key (5 + 4 * i)"
    using exp_word_plain [of key 4 "4*i+6"] assms by (simp add: add.commute mod_simps)
  show "exp_word 4 key (7 + 4 * i) = exp_word 4 key (3 + 4 * i) XOR exp_word 4 key (6 + 4 * i)"
    using exp_word_plain [of key 4 "4*i+7"] assms by (simp add: add.commute mod_simps)
qed

lemma exp6:
  assumes "length key = 24" "i < 8"
  shows "exp_word 6 key (6 + 6 * i) = exp_word 6 key (6 * i) XOR (ls_box (exp_word 6 key (5 + 6 * i)) 3 XOR t_rc ! i)"
    and "exp_word 6 key (7 + 6 * i) = exp_word 6 key (Suc (6 * i)) XOR exp_word 6 key (6 + 6 * i)"
    and "exp_word 6 key (8 + 6 * i) = exp_word 6 key (Suc (Suc (6 * i))) XOR exp_word 6 key (7 + 6 * i)"
    and "exp_word 6 key (9 + 6 * i) = exp_word 6 key (3 + 6 * i) XOR exp_word 6 key (8 + 6 * i)"
    and "exp_word 6 key (10 + 6 * i) = exp_word 6 key (4 + 6 * i) XOR exp_word 6 key (9 + 6 * i)"
    and "exp_word 6 key (11 + 6 * i) = exp_word 6 key (5 + 6 * i) XOR exp_word 6 key (10 + 6 * i)"
proof -
  show "exp_word 6 key (6 + 6 * i) = exp_word 6 key (6 * i) XOR (ls_box (exp_word 6 key (5 + 6 * i)) 3 XOR t_rc ! i)"
    using exp_word_rot [of key 6 "6*i+6"] assms by (simp add: add.commute)
  show "exp_word 6 key (7 + 6 * i) = exp_word 6 key (Suc (6 * i)) XOR exp_word 6 key (6 + 6 * i)"
    using exp_word_plain [of key 6 "6*i+7"] assms by (simp add: add.commute mod_simps)
  show "exp_word 6 key (8 + 6 * i) = exp_word 6 key (Suc (Suc (6 * i))) XOR exp_word 6 key (7 + 6 * i)"
    using exp_word_plain [of key 6 "6*i+8"] assms by (simp add: add.commute mod_simps)
  show "exp_word 6 key (9 + 6 * i) = exp_word 6 key (3 + 6 * i) XOR exp_word 6 key (8 + 6 * i)"
    using exp_word_plain [of key 6 "6*i+9"] assms by (simp add: add.commute mod_simps)
  show "exp_word 6 key (10 + 6 * i) = exp_word 6 key (4 + 6 * i) XOR exp_word 6 key (9 + 6 * i)"
    using exp_word_plain [of key 6 "6*i+10"] assms by (simp add: add.commute mod_simps)
  show "exp_word 6 key (11 + 6 * i) = exp_word 6 key (5 + 6 * i) XOR exp_word 6 key (10 + 6 * i)"
    using exp_word_plain [of key 6 "6*i+11"] assms by (simp add: add.commute mod_simps)
qed

lemma exp8:
  assumes "length key = 32" "i < 7"
  shows "exp_word 8 key (8 + 8 * i) = exp_word 8 key (8 * i) XOR (ls_box (exp_word 8 key (7 + 8 * i)) 3 XOR t_rc ! i)"
    and "exp_word 8 key (9 + 8 * i) = exp_word 8 key (Suc (8 * i)) XOR exp_word 8 key (8 + 8 * i)"
    and "exp_word 8 key (10 + 8 * i) = exp_word 8 key (Suc (Suc (8 * i))) XOR exp_word 8 key (9 + 8 * i)"
    and "exp_word 8 key (11 + 8 * i) = exp_word 8 key (3 + 8 * i) XOR exp_word 8 key (10 + 8 * i)"
    and "exp_word 8 key (12 + 8 * i) = exp_word 8 key (4 + 8 * i) XOR ls_box (exp_word 8 key (11 + 8 * i)) 0"
    and "exp_word 8 key (13 + 8 * i) = exp_word 8 key (5 + 8 * i) XOR exp_word 8 key (12 + 8 * i)"
    and "exp_word 8 key (14 + 8 * i) = exp_word 8 key (6 + 8 * i) XOR exp_word 8 key (13 + 8 * i)"
    and "exp_word 8 key (15 + 8 * i) = exp_word 8 key (7 + 8 * i) XOR exp_word 8 key (14 + 8 * i)"
proof -
  show "exp_word 8 key (8 + 8 * i) = exp_word 8 key (8 * i) XOR (ls_box (exp_word 8 key (7 + 8 * i)) 3 XOR t_rc ! i)"
    using exp_word_rot [of key 8 "8*i+8"] assms by (simp add: add.commute)
  show "exp_word 8 key (9 + 8 * i) = exp_word 8 key (Suc (8 * i)) XOR exp_word 8 key (8 + 8 * i)"
    using exp_word_plain [of key 8 "8*i+9"] assms by (simp add: add.commute mod_simps)
  show "exp_word 8 key (10 + 8 * i) = exp_word 8 key (Suc (Suc (8 * i))) XOR exp_word 8 key (9 + 8 * i)"
    using exp_word_plain [of key 8 "8*i+10"] assms by (simp add: add.commute mod_simps)
  show "exp_word 8 key (11 + 8 * i) = exp_word 8 key (3 + 8 * i) XOR exp_word 8 key (10 + 8 * i)"
    using exp_word_plain [of key 8 "8*i+11"] assms by (simp add: add.commute mod_simps)
  show "exp_word 8 key (12 + 8 * i) = exp_word 8 key (4 + 8 * i) XOR ls_box (exp_word 8 key (11 + 8 * i)) 0"
    using exp_word_sub [of key 8 "8*i+12"] assms by (simp add: add.commute mod_simps)
  show "exp_word 8 key (13 + 8 * i) = exp_word 8 key (5 + 8 * i) XOR exp_word 8 key (12 + 8 * i)"
    using exp_word_plain [of key 8 "8*i+13"] assms by (simp add: add.commute mod_simps)
  show "exp_word 8 key (14 + 8 * i) = exp_word 8 key (6 + 8 * i) XOR exp_word 8 key (13 + 8 * i)"
    using exp_word_plain [of key 8 "8*i+14"] assms by (simp add: add.commute mod_simps)
  show "exp_word 8 key (15 + 8 * i) = exp_word 8 key (7 + 8 * i) XOR exp_word 8 key (14 + 8 * i)"
    using exp_word_plain [of key 8 "8*i+15"] assms by (simp add: add.commute mod_simps)
qed

end
