(* ===== verification/AesSched.thy ===== *)
theory AesSched
  imports AesKey
begin

text \<open>
  The key schedules of \<^verbatim>\<open>native/aes/aeskey.c\<close> against the key expansion of
  FIPS 197: one lemma per macro (\<open>ke4\<close>, \<open>kd4\<close>, \dots), by the step rules of
  the schedule layout, then one per key-setting function, and the properties
  of a context set by a key: which cipher it computes, and that the
  decryption context undoes the encryption context.
\<close>

abbreviation "ewords nk key i \<equiv> map (\<lambda>j. exp_word nk key (nk * i + j)) [0..<nk]"

lemma upt_small:
  "[0..<4] = [0, 1, 2, 3 :: nat]" "[0..<6] = [0, 1, 2, 3, 4, 5 :: nat]" "[0..<8] = [0, 1, 2, 3, 4, 5, 6, 7 :: nat]"
  by (simp_all add: upt_conv_Cons)

subsection \<open>Encryption macros\<close>

lemma ke4_stored:
  assumes "length key = 16" "i < 10" "holds (\<lambda>i. i) (exp_word 4 key) (4 * i + 4) k"
  shows "stored (\<lambda>i. i) (exp_word 4 key) (4 * i + 8) (ewords 4 key (i + 1)) (ke4 i (k, ewords 4 key i))"
proof -
  note e = exp4 [OF assms(1)] and i = assms(2)
  show ?thesis
    unfolding ke4_def steps_nest append.simps upt_small list.map
    using assms(3)
    apply -
    apply (rule lay_enc.kset_step, assumption, simp, use i in simp, use i in \<open>simp add: e add.commute xor_ac\<close>)+
    apply (rule storedI, assumption)
    apply (simp_all add: add.commute)
    done
qed

lemma kef6_stored:
  assumes "length key = 24" "i < 8" "holds (\<lambda>i. i) (exp_word 6 key) (6 * i + 6) k"
  shows "stored (\<lambda>i. i) (exp_word 6 key) (6 * i + 10) (map (exp_word 6 key) [6 * i + 6, 6 * i + 7, 6 * i + 8, 6 * i + 9] @ drop 4 (ewords 6 key i)) (kef6 i (k, ewords 6 key i))"
proof -
  note e = exp6 [OF assms(1)] and i = assms(2)
  show ?thesis
    unfolding kef6_def steps_nest append.simps upt_small list.map
    using assms(3)
    apply -
    apply (rule lay_enc.kset_step, assumption, simp, use i in simp, use i in \<open>simp add: e add.commute xor_ac\<close>)+
    apply (rule storedI, assumption)
    apply (simp_all add: add.commute)
    done
qed

lemma ke6_stored:
  assumes "length key = 24" "i < 7" "holds (\<lambda>i. i) (exp_word 6 key) (6 * i + 6) k"
  shows "stored (\<lambda>i. i) (exp_word 6 key) (6 * i + 12) (ewords 6 key (i + 1)) (ke6 i (k, ewords 6 key i))"
proof -
  note e = exp6 [OF assms(1)] and i = assms(2)
  show ?thesis
    unfolding ke6_def kef6_def steps_nest append.simps upt_small list.map
    using assms(3)
    apply -
    apply (rule lay_enc.kset_step, assumption, simp, use i in simp, use i in \<open>simp add: e add.commute xor_ac\<close>)+
    apply (rule storedI, assumption)
    apply (simp_all add: add.commute)
    done
qed

lemma kef8_stored:
  assumes "length key = 32" "i < 7" "holds (\<lambda>i. i) (exp_word 8 key) (8 * i + 8) k"
  shows "stored (\<lambda>i. i) (exp_word 8 key) (8 * i + 12) (map (exp_word 8 key) [8 * i + 8, 8 * i + 9, 8 * i + 10, 8 * i + 11] @ drop 4 (ewords 8 key i)) (kef8 i (k, ewords 8 key i))"
proof -
  note e = exp8 [OF assms(1)] and i = assms(2)
  show ?thesis
    unfolding kef8_def steps_nest append.simps upt_small list.map
    using assms(3)
    apply -
    apply (rule lay_enc.kset_step, assumption, simp, use i in simp, use i in \<open>simp add: e add.commute xor_ac\<close>)+
    apply (rule storedI, assumption)
    apply (simp_all add: add.commute)
    done
qed

lemma ke8_stored:
  assumes "length key = 32" "i < 6" "holds (\<lambda>i. i) (exp_word 8 key) (8 * i + 8) k"
  shows "stored (\<lambda>i. i) (exp_word 8 key) (8 * i + 16) (ewords 8 key (i + 1)) (ke8 i (k, ewords 8 key i))"
proof -
  note e = exp8 [OF assms(1)] and i = assms(2)
  show ?thesis
    unfolding ke8_def kef8_def steps_nest append.simps upt_small list.map
    using assms(3)
    apply -
    apply (rule lay_enc.kset_step, assumption, simp, use i in simp, use i in \<open>simp add: e add.commute xor_ac\<close>)+
    apply (rule storedI, assumption)
    apply (simp_all add: add.commute)
    done
qed

subsection \<open>Decryption macros\<close>

text \<open>
  Word \<open>m\<close> of a decryption schedule: the expanded key, with the column
  transformation on the inner round keys.
\<close>

definition dec_word :: "nat \<Rightarrow> nat \<Rightarrow> byte list \<Rightarrow> nat \<Rightarrow> u32" where
  "dec_word nr nk key m =
     (if m < 4 \<or> 4 * nr \<le> m then exp_word nk key m else inv_mcol (exp_word nk key m))"

text \<open>
  The 128-bit schedule keeps sums of key words in \<open>ss\<close>, rotated by one place
  per step; \<open>rolling key i\<close> is what it holds before step \<open>i\<close>.
\<close>

definition rolling :: "byte list \<Rightarrow> nat \<Rightarrow> u32 list" where
  "rolling key i =
     (let w = (\<lambda>j. exp_word 4 key (4 * i + j));
          a = w 0 XOR w 1 XOR w 2 XOR w 3; b = w 1 XOR w 3; c = w 2 XOR w 3; d = w 3
      in if i mod 4 = 0 then [a, b, c, d] else if i mod 4 = 1 then [d, a, b, c]
         else if i mod 4 = 2 then [c, d, a, b] else [b, c, d, a])"

lemma mod4_cases:
  obtains "i mod 4 = 0" "(i + 1) mod 4 = 1" "(i + 3) mod 4 = (3::nat)"
    | "i mod 4 = 1" "(i + 1) mod 4 = 2" "(i + 3) mod 4 = 0"
    | "i mod 4 = 2" "(i + 1) mod 4 = 3" "(i + 3) mod 4 = 1"
    | "i mod 4 = 3" "(i + 1) mod 4 = 0" "(i + 3) mod 4 = 2"
proof -
  obtain r where r: "r = i mod 4" "r < 4" by simp
  have c: "(i + 1) mod 4 = (r + 1) mod 4" "(i + 3) mod 4 = (r + 3) mod 4"
    unfolding r(1) by (simp_all only: mod_add_left_eq)
  from r(2) have "r = 0 \<or> r = 1 \<or> r = 2 \<or> r = 3" by arith
  then show ?thesis
    using that c by (elim disjE) (simp_all add: r(1) [symmetric])
qed

lemma kdf4_stored:
  assumes "length key = 16"  "holds (v_idx rd 40) (dec_word 10 4 key) (4) k"
  shows "\<exists>x. stored (v_idx rd 40) (dec_word 10 4 key) (8) (rolling key 1 @ [x]) (kdf4 rd 0 (k, ewords 4 key 0 @ [y]))"
proof -
  note e = exp4 [OF assms(1), of 0, simplified] and i = TrueI
  show ?thesis
    apply (rule exI)
    unfolding kdf4_def Let_def upt_small list.map append.simps
    using assms(2)
    apply -
    apply (((rule sxor_step, simp add: holds_def e add.commute dec_word_def ff_def xor_ac) | (rule sset_step, simp add: e add.commute dec_word_def ff_def xor_ac)
       | (rule lay_dec10.kput_step, assumption, use i in simp, use i in simp, use i in \<open>simp add: e add.commute dec_word_def ff_def xor_ac\<close>)
       | (rule lay_dec10.kset_step, assumption, use i in simp, use i in simp, use i in \<open>simp add: holds_def inv_mcol_xor e add.commute dec_word_def ff_def xor_ac\<close>))+)
    apply (rule storedI, assumption)
    apply (simp_all add: rolling_def Let_def e xor_ac)
    done
qed

lemma rolling_nth:
  "rolling key i ! ((i + 3) mod 4) = exp_word 4 key (4 * i + 3)"
  "rolling key i ! (i mod 4) = exp_word 4 key (4 * i) XOR exp_word 4 key (4 * i + 1) XOR
     exp_word 4 key (4 * i + 2) XOR exp_word 4 key (4 * i + 3)"
  by (rule mod4_cases [of i]; simp add: rolling_def Let_def)+

lemma length_rolling [simp]: "length (rolling key i) = 4"
  by (simp add: rolling_def Let_def)

lemma rolling_Suc:
  assumes "length key = 16" "i < 10"
  shows "(rolling key i)[i mod 4 := exp_word 4 key (4 * i + 7)] = rolling key (i + 1)"
  by (rule mod4_cases [of i]) (simp_all add: rolling_def Let_def exp4 [OF assms] add.commute xor_ac)

lemma kd4_stored:
  assumes "length key = 16" "1 \<le> i" "i \<le> 8" "holds (v_idx rd 40) (dec_word 10 4 key) (4 * i + 4) k"
  shows "\<exists>x. stored (v_idx rd 40) (dec_word 10 4 key) (4 * i + 8) (rolling key (i + 1) @ [x])
               (kd4 rd i (k, rolling key i @ [y]))"
proof -
  have i10: "i < 10" using assms(3) by simp
  note e = exp4 [OF assms(1) i10] and i = assms(2,3)
  let ?t = "ls_box (exp_word 4 key (4 * i + 3)) 3 XOR t_rc ! i"
  have j: "(rolling key i @ [x]) ! (j mod 4) = rolling key i ! (j mod 4)" for x j
    by (simp add: nth_append)
  have w: "rolling key i ! (i mod 4) XOR ?t = exp_word 4 key (4 * i + 7)"
    by (simp add: rolling_nth e add.commute xor_ac)
  have s: "(rolling key i @ [y])[4 := a, i mod 4 := w, 4 := b] = (rolling key i)[i mod 4 := w] @ [b]" for a w b
    by (simp add: list_update_append)
  have "stored (v_idx rd 40) (dec_word 10 4 key) (4 * i + 8) (rolling key (i + 1) @ [dec_word 10 4 key (4 * i + 7)])
               (kd4 rd i (k, rolling key i @ [y]))"
    unfolding kd4_def Let_def using assms(4)
    apply -
    apply (rule sset_step [where x = ?t], simp add: j rolling_nth)
    apply (rule sxor_step [where x = "exp_word 4 key (4 * i + 7)"], use w in \<open>simp add: nth_append\<close>)
    apply (rule sset_step [where x = "inv_mcol ?t"], simp add: ff_def)
    apply (unfold s)
    apply (rule lay_dec10.kset_step, assumption, simp add: add.commute, use i in linarith,
        use i in \<open>simp add: nth_append holds_def inv_mcol_xor e add.commute dec_word_def xor_ac\<close>)+
    apply (rule storedI, assumption, simp, use rolling_Suc [OF assms(1) i10] in \<open>simp add: add.commute list_update_append\<close>)
    done
  then show ?thesis ..
qed

lemma kdl4_stored:
  assumes "length key = 16" "holds (v_idx rd 40) (dec_word 10 4 key) 40 k"
  shows "\<exists>ss. stored (v_idx rd 40) (dec_word 10 4 key) 44 ss (kdl4 rd 9 (k, rolling key 9 @ [y]))"
proof -
  note e = exp4 [OF assms(1), of 9, simplified] and i = TrueI
  have r: "rolling key 9 = [exp_word 4 key 39,
      exp_word 4 key 36 XOR exp_word 4 key 37 XOR exp_word 4 key 38 XOR exp_word 4 key 39,
      exp_word 4 key 37 XOR exp_word 4 key 39, exp_word 4 key 38 XOR exp_word 4 key 39]"
    by (simp add: rolling_def Let_def)
  show ?thesis
    apply (rule exI)
    unfolding kdl4_def Let_def r append.simps
    using assms(2)
    apply -
    apply ((rule sxor_step, simp add: e add.commute dec_word_def ff_def xor_ac) | (rule sset_step, simp add: e add.commute dec_word_def ff_def xor_ac)
       | (rule lay_dec10.kput_step, assumption, simp add: add.commute, use i in linarith, use i in \<open>simp add: e add.commute dec_word_def ff_def xor_ac\<close>)
       | (rule lay_dec10.kset_step, assumption, simp add: add.commute, use i in linarith,
          use i in \<open>simp add: holds_def inv_mcol_xor e add.commute dec_word_def ff_def xor_ac\<close>))+
    apply (rule storedI, assumption, simp, rule refl)
    done
qed

lemma kdf6_stored:
  assumes "length key = 24" "holds (v_idx rd 48) (dec_word 12 6 key) (6) k"
  shows "\<exists>x. stored (v_idx rd 48) (dec_word 12 6 key) (12) (ewords 6 key 1 @ [x]) (kdf6 rd 0 (k, ewords 6 key 0 @ [y]))"
proof -
  note e = exp6 [OF assms(1), of 0, simplified] and i = TrueI
  show ?thesis
    apply (rule exI)
    unfolding kdf6_def Let_def upt_small list.map append.simps
    using assms(2)
    apply -
    apply ((rule sxor_step, simp add: e add.commute dec_word_def ff_def xor_ac) | (rule sset_step, simp add: e add.commute dec_word_def ff_def xor_ac)
       | (rule lay_dec12.kput_step, assumption, simp add: add.commute, use i in linarith, use i in \<open>simp add: e add.commute dec_word_def ff_def xor_ac\<close>)
       | (rule lay_dec12.kset_step, assumption, simp add: add.commute, use i in linarith,
          use i in \<open>simp add: holds_def inv_mcol_xor e add.commute dec_word_def ff_def xor_ac\<close>))+
    apply (rule storedI, assumption)
    apply (simp_all add: e add.commute xor_ac)
    done
qed

lemma kd6_stored:
  assumes "length key = 24" "1 \<le> i" "i \<le> 6" "holds (v_idx rd 48) (dec_word 12 6 key) (6 * i + 6) k"
  shows "\<exists>x. stored (v_idx rd 48) (dec_word 12 6 key) (6 * i + 12) (ewords 6 key (i + 1) @ [x]) (kd6 rd i (k, ewords 6 key i @ [y]))"
proof -
  have "i < 8" using assms(3) by simp
  note e = exp6 [OF assms(1) this] and i = assms(2,3)
  show ?thesis
    apply (rule exI)
    unfolding kd6_def Let_def upt_small list.map append.simps
    using assms(4)
    apply -
    apply ((rule sxor_step, simp add: e add.commute dec_word_def ff_def xor_ac) | (rule sset_step, simp add: e add.commute dec_word_def ff_def xor_ac)
       | (rule lay_dec12.kput_step, assumption, simp add: add.commute, use i in linarith, use i in \<open>simp add: e add.commute dec_word_def ff_def xor_ac\<close>)
       | (rule lay_dec12.kset_step, assumption, simp add: add.commute, use i in linarith,
          use i in \<open>simp add: holds_def inv_mcol_xor e add.commute dec_word_def ff_def xor_ac\<close>))+
    apply (rule storedI, assumption)
    apply (simp_all add: e add.commute xor_ac)
    done
qed

lemma kdl6_stored:
  assumes "length key = 24" "holds (v_idx rd 48) (dec_word 12 6 key) (48) k"
  shows "\<exists>x. stored (v_idx rd 48) (dec_word 12 6 key) (52) (x) (kdl6 rd 7 (k, ewords 6 key 7 @ [y]))"
proof -
  note e = exp6 [OF assms(1), of 7, simplified] and i = TrueI
  show ?thesis
    apply (rule exI)
    unfolding kdl6_def Let_def upt_small list.map append.simps
    using assms(2)
    apply -
    apply ((rule sxor_step, simp add: e add.commute dec_word_def ff_def xor_ac) | (rule sset_step, simp add: e add.commute dec_word_def ff_def xor_ac)
       | (rule lay_dec12.kput_step, assumption, simp add: add.commute, use i in linarith, use i in \<open>simp add: e add.commute dec_word_def ff_def xor_ac\<close>)
       | (rule lay_dec12.kset_step, assumption, simp add: add.commute, use i in linarith,
          use i in \<open>simp add: holds_def inv_mcol_xor e add.commute dec_word_def ff_def xor_ac\<close>))+
    apply (rule storedI, assumption)
    apply (simp_all add: e add.commute xor_ac)
    done
qed

lemma kdf8_stored:
  assumes "length key = 32" "holds (v_idx rd 56) (dec_word 14 8 key) (8) k"
  shows "\<exists>x. stored (v_idx rd 56) (dec_word 14 8 key) (16) (ewords 8 key 1 @ [x]) (kdf8 rd 0 (k, ewords 8 key 0 @ [y]))"
proof -
  note e = exp8 [OF assms(1), of 0, simplified] and i = TrueI
  show ?thesis
    apply (rule exI)
    unfolding kdf8_def Let_def upt_small list.map append.simps
    using assms(2)
    apply -
    apply ((rule sxor_step, simp add: e add.commute dec_word_def ff_def xor_ac) | (rule sset_step, simp add: e add.commute dec_word_def ff_def xor_ac)
       | (rule lay_dec14.kput_step, assumption, simp add: add.commute, use i in linarith, use i in \<open>simp add: e add.commute dec_word_def ff_def xor_ac\<close>)
       | (rule lay_dec14.kset_step, assumption, simp add: add.commute, use i in linarith,
          use i in \<open>simp add: holds_def inv_mcol_xor e add.commute dec_word_def ff_def xor_ac\<close>))+
    apply (rule storedI, assumption)
    apply (simp_all add: e add.commute xor_ac)
    done
qed

lemma kd8_stored:
  assumes "length key = 32" "1 \<le> i" "i \<le> 5" "holds (v_idx rd 56) (dec_word 14 8 key) (8 * i + 8) k"
  shows "\<exists>x. stored (v_idx rd 56) (dec_word 14 8 key) (8 * i + 16) (ewords 8 key (i + 1) @ [x]) (kd8 rd i (k, ewords 8 key i @ [y]))"
proof -
  have "i < 7" using assms(3) by simp
  note e = exp8 [OF assms(1) this] and i = assms(2,3)
  show ?thesis
    apply (rule exI)
    unfolding kd8_def Let_def upt_small list.map append.simps
    using assms(4)
    apply -
    apply ((rule sxor_step, simp add: e add.commute dec_word_def ff_def xor_ac) | (rule sset_step, simp add: e add.commute dec_word_def ff_def xor_ac)
       | (rule lay_dec14.kput_step, assumption, simp add: add.commute, use i in linarith, use i in \<open>simp add: e add.commute dec_word_def ff_def xor_ac\<close>)
       | (rule lay_dec14.kset_step, assumption, simp add: add.commute, use i in linarith,
          use i in \<open>simp add: holds_def inv_mcol_xor e add.commute dec_word_def ff_def xor_ac\<close>))+
    apply (rule storedI, assumption)
    apply (simp_all add: e add.commute xor_ac)
    done
qed

lemma kdl8_stored:
  assumes "length key = 32" "holds (v_idx rd 56) (dec_word 14 8 key) (56) k"
  shows "\<exists>x. stored (v_idx rd 56) (dec_word 14 8 key) (60) (x) (kdl8 rd 6 (k, ewords 8 key 6 @ [y]))"
proof -
  note e = exp8 [OF assms(1), of 6, simplified] and i = TrueI
  show ?thesis
    apply (rule exI)
    unfolding kdl8_def Let_def upt_small list.map append.simps
    using assms(2)
    apply -
    apply ((rule sxor_step, simp add: e add.commute dec_word_def ff_def xor_ac) | (rule sset_step, simp add: e add.commute dec_word_def ff_def xor_ac)
       | (rule lay_dec14.kput_step, assumption, simp add: add.commute, use i in linarith, use i in \<open>simp add: e add.commute dec_word_def ff_def xor_ac\<close>)
       | (rule lay_dec14.kset_step, assumption, simp add: add.commute, use i in linarith,
          use i in \<open>simp add: holds_def inv_mcol_xor e add.commute dec_word_def ff_def xor_ac\<close>))+
    apply (rule storedI, assumption)
    apply (simp_all add: e add.commute xor_ac)
    done
qed

subsection \<open>The key-setting functions\<close>

lemma fold_upt_inv:
  "a \<le> b \<Longrightarrow> P a s \<Longrightarrow> (\<And>i s. a \<le> i \<Longrightarrow> i < b \<Longrightarrow> P i s \<Longrightarrow> P (Suc i) (f i s)) \<Longrightarrow> P b (fold f [a..<b] s)"
  by (induction b) (auto simp: le_Suc_eq)

lemma storedE:
  assumes "stored v D n ss st"
  obtains k where "st = (k, ss)" "holds v D n k"
  using assms by (cases st) (auto simp: stored_def)

lemma steps_fold: "steps fs = fold (\<lambda>f. f) fs"
  by (rule ext, rule sym) (induction fs, simp_all add: fun_eq_iff)

lemma steps_map: "steps (map f xs) = fold f xs"
  by (simp add: steps_fold fold_map o_def)

lemma key_in4_stored:
  assumes "length key = 16" "length k = KS_LENGTH"
  shows "stored (\<lambda>i. i) (exp_word 4 key) 4 (ewords 4 key 0) (key_in key 4 k)"
  using assms lay_enc.holds_fold [of k 4 "word_in key" "exp_word 4 key"]
  by (simp add: key_in_def stored_def exp_word_key)

lemma ke4_fold:
  assumes "length key = 16" "length k = KS_LENGTH" "m \<le> 10"
  shows "stored (\<lambda>i. i) (exp_word 4 key) (4 * m + 4) (ewords 4 key m) (fold ke4 [0..<m] (key_in key 4 k))"
proof (rule fold_upt_inv)
  show "stored (\<lambda>i. i) (exp_word 4 key) (4 * 0 + 4) (ewords 4 key 0) (key_in key 4 k)"
    using key_in4_stored [OF assms(1,2)] by simp
next
  fix i s assume i: "i < m" and s: "stored (\<lambda>i. i) (exp_word 4 key) (4 * i + 4) (ewords 4 key i) s"
  from s obtain k where "s = (k, ewords 4 key i)" "holds (\<lambda>i. i) (exp_word 4 key) (4 * i + 4) k"
    by (rule storedE)
  then show "stored (\<lambda>i. i) (exp_word 4 key) (4 * Suc i + 4) (ewords 4 key (Suc i)) (ke4 i s)"
    using ke4_stored [OF assms(1), of i k] i assms(3) by (simp add: add.commute)
qed simp

lemma key_in6_stored:
  assumes "length key = 24" "length k = KS_LENGTH"
  shows "stored (\<lambda>i. i) (exp_word 6 key) 6 (ewords 6 key 0) (key_in key 6 k)"
  using assms lay_enc.holds_fold [of k 6 "word_in key" "exp_word 6 key"]
  by (simp add: key_in_def stored_def exp_word_key)

lemma ke6_fold:
  assumes "length key = 24" "length k = KS_LENGTH" "m \<le> 7"
  shows "stored (\<lambda>i. i) (exp_word 6 key) (6 * m + 6) (ewords 6 key m) (fold ke6 [0..<m] (key_in key 6 k))"
proof (rule fold_upt_inv)
  show "stored (\<lambda>i. i) (exp_word 6 key) (6 * 0 + 6) (ewords 6 key 0) (key_in key 6 k)"
    using key_in6_stored [OF assms(1,2)] by simp
next
  fix i s assume i: "i < m" and s: "stored (\<lambda>i. i) (exp_word 6 key) (6 * i + 6) (ewords 6 key i) s"
  from s obtain k where "s = (k, ewords 6 key i)" "holds (\<lambda>i. i) (exp_word 6 key) (6 * i + 6) k"
    by (rule storedE)
  then show "stored (\<lambda>i. i) (exp_word 6 key) (6 * Suc i + 6) (ewords 6 key (Suc i)) (ke6 i s)"
    using ke6_stored [OF assms(1), of i k] i assms(3) by (simp add: add.commute)
qed simp

lemma key_in8_stored:
  assumes "length key = 32" "length k = KS_LENGTH"
  shows "stored (\<lambda>i. i) (exp_word 8 key) 8 (ewords 8 key 0) (key_in key 8 k)"
  using assms lay_enc.holds_fold [of k 8 "word_in key" "exp_word 8 key"]
  by (simp add: key_in_def stored_def exp_word_key)

lemma ke8_fold:
  assumes "length key = 32" "length k = KS_LENGTH" "m \<le> 6"
  shows "stored (\<lambda>i. i) (exp_word 8 key) (8 * m + 8) (ewords 8 key m) (fold ke8 [0..<m] (key_in key 8 k))"
proof (rule fold_upt_inv)
  show "stored (\<lambda>i. i) (exp_word 8 key) (8 * 0 + 8) (ewords 8 key 0) (key_in key 8 k)"
    using key_in8_stored [OF assms(1,2)] by simp
next
  fix i s assume i: "i < m" and s: "stored (\<lambda>i. i) (exp_word 8 key) (8 * i + 8) (ewords 8 key i) s"
  from s obtain k where "s = (k, ewords 8 key i)" "holds (\<lambda>i. i) (exp_word 8 key) (8 * i + 8) k"
    by (rule storedE)
  then show "stored (\<lambda>i. i) (exp_word 8 key) (8 * Suc i + 8) (ewords 8 key (Suc i)) (ke8 i s)"
    using ke8_stored [OF assms(1), of i k] i assms(3) by (simp add: add.commute)
qed simp

lemma aes_encrypt_key128_holds:
  assumes "length key = 16" "length (ks cx) = KS_LENGTH"
  shows "holds (\<lambda>i. i) (exp_word 4 key) 44 (ks (aes_encrypt_key128 key cx))"
proof -
  have l: "[ke4 0, ke4 1, ke4 2, ke4 3, ke4 4, ke4 5, ke4 6, ke4 7, ke4 8, ke4 9] = map ke4 [0..<10]" by (simp add: upt_conv_Cons eval_nat_numeral)
  show ?thesis
    using ke4_fold [OF assms, of 10]
    unfolding aes_encrypt_key128_def l steps_map Let_def
    by (simp add: MARK_AS_ENCRYPTION_CTX_def set_rounds_def stored_def)
qed

lemma aes_encrypt_key192_holds:
  assumes "length key = 24" "length (ks cx) = KS_LENGTH"
  shows "holds (\<lambda>i. i) (exp_word 6 key) 52 (ks (aes_encrypt_key192 key cx))"
proof -
  have l: "[ke6 0, ke6 1, ke6 2, ke6 3, ke6 4, ke6 5, ke6 6, kef6 7] = map ke6 [0..<7] @ [kef6 7]" by (simp add: upt_conv_Cons eval_nat_numeral)
  obtain k where k: "fold ke6 [0..<7] (key_in key 6 (ks cx)) = (k, ewords 6 key 7)"
    "holds (\<lambda>i. i) (exp_word 6 key) (6 * 7 + 6) k"
    using ke6_fold [OF assms, of 7] by (auto elim: storedE)
  show ?thesis
    using kef6_stored [OF assms(1) _ k(2)]
    unfolding aes_encrypt_key192_def l steps_append steps_map k(1) Let_def
    by (simp add: MARK_AS_ENCRYPTION_CTX_def set_rounds_def stored_def)
qed

lemma aes_encrypt_key256_holds:
  assumes "length key = 32" "length (ks cx) = KS_LENGTH"
  shows "holds (\<lambda>i. i) (exp_word 8 key) 60 (ks (aes_encrypt_key256 key cx))"
proof -
  have l: "[ke8 0, ke8 1, ke8 2, ke8 3, ke8 4, ke8 5, kef8 6] = map ke8 [0..<6] @ [kef8 6]" by (simp add: upt_conv_Cons eval_nat_numeral)
  obtain k where k: "fold ke8 [0..<6] (key_in key 8 (ks cx)) = (k, ewords 8 key 6)"
    "holds (\<lambda>i. i) (exp_word 8 key) (8 * 6 + 8) k"
    using ke8_fold [OF assms, of 6] by (auto elim: storedE)
  show ?thesis
    using kef8_stored [OF assms(1) _ k(2)]
    unfolding aes_encrypt_key256_def l steps_append steps_map k(1) Let_def
    by (simp add: MARK_AS_ENCRYPTION_CTX_def set_rounds_def stored_def)
qed

lemma key_in_dec4_stored:
  assumes "length key = 16" "length k = KS_LENGTH"
  shows "stored (v_idx rd 40) (dec_word 10 4 key) 4 (ewords 4 key 0 @ [0]) (key_in_dec (v_idx rd 40) key 4 5 k)"
  using assms lay_dec10.holds_fold [of k 4 "\<lambda>i. if i < 4 then word_in key i else ff (word_in key i)" "(dec_word 10 4 key)"]
  by (simp add: key_in_dec_def stored_def exp_word_key dec_word_def ff_def)

lemma kd4_fold:
  assumes "length key = 16" "length k = KS_LENGTH"
  shows "\<exists>x. stored (v_idx rd 40) (dec_word 10 4 key) (4 * 9 + 4) (rolling key 9 @ [x])
    (fold (kd4 rd) [1..<9] (kdf4 rd 0 (key_in_dec (v_idx rd 40) key 4 5 k)))"
proof (rule fold_upt_inv)
  obtain k' where k: "key_in_dec (v_idx rd 40) key 4 5 k = (k', ewords 4 key 0 @ [0])" "holds (v_idx rd 40) (dec_word 10 4 key) 4 k'"
    using key_in_dec4_stored [OF assms] by (auto elim: storedE)
  show "\<exists>x. stored (v_idx rd 40) (dec_word 10 4 key) (4 * 1 + 4) (rolling key 1 @ [x]) (kdf4 rd 0 (key_in_dec (v_idx rd 40) key 4 5 k))"
    using kdf4_stored [OF assms(1) k(2)] by (simp add: k(1))
next
  fix i s assume i: "1 \<le> i" "i < 9" and s: "\<exists>x. stored (v_idx rd 40) (dec_word 10 4 key) (4 * i + 4) (rolling key i @ [x]) s"
  from s obtain k x where k: "s = (k, rolling key i @ [x])" "holds (v_idx rd 40) (dec_word 10 4 key) (4 * i + 4) k"
    by (auto elim: storedE)
  show "\<exists>x. stored (v_idx rd 40) (dec_word 10 4 key) (4 * Suc i + 4) (rolling key (Suc i) @ [x]) (kd4 rd i s)"
    using kd4_stored [OF assms(1) i(1) _ k(2), of x] i(2) by (simp add: k(1) add.commute)
qed simp

lemma aes_decrypt_key128_holds:
  assumes "length key = 16" "length (ks cx) = KS_LENGTH"
  shows "holds (v_idx rd 40) (dec_word 10 4 key) 44 (ks (aes_decrypt_key128 rd key cx))"
proof -
  have l: "[kdf4 rd 0, kd4 rd 1, kd4 rd 2, kd4 rd 3, kd4 rd 4, kd4 rd 5, kd4 rd 6, kd4 rd 7, kd4 rd 8, kdl4 rd 9] = kdf4 rd 0 # map (kd4 rd) [1..<9] @ [kdl4 rd 9]"
    by (simp add: upt_conv_Cons eval_nat_numeral)
  obtain k x where k: "fold (kd4 rd) [1..<9] (kdf4 rd 0 (key_in_dec (v_idx rd 40) key 4 5 (ks cx))) = (k, rolling key 9 @ [x])"
    "holds (v_idx rd 40) (dec_word 10 4 key) (4 * 9 + 4) k"
    using kd4_fold [OF assms, of rd] by (elim exE storedE) (rule that)
  have "\<exists>y. stored (v_idx rd 40) (dec_word 10 4 key) 44 y (kdl4 rd 9 (k, rolling key 9 @ [x]))"
    by (rule kdl4_stored [OF assms(1)]) (use k(2) in simp)
  then show ?thesis
    unfolding aes_decrypt_key128_def l steps.simps steps_append steps_map k(1) Let_def
    by (auto simp add: MARK_AS_DECRYPTION_CTX_def set_rounds_def stored_def)
qed

lemma key_in_dec6_stored:
  assumes "length key = 24" "length k = KS_LENGTH"
  shows "stored (v_idx rd 48) (dec_word 12 6 key) 6 (ewords 6 key 0 @ [0]) (key_in_dec (v_idx rd 48) key 6 7 k)"
  using assms lay_dec12.holds_fold [of k 6 "\<lambda>i. if i < 4 then word_in key i else ff (word_in key i)" "(dec_word 12 6 key)"]
  by (simp add: key_in_dec_def stored_def exp_word_key dec_word_def ff_def)

lemma kd6_fold:
  assumes "length key = 24" "length k = KS_LENGTH"
  shows "\<exists>x. stored (v_idx rd 48) (dec_word 12 6 key) (6 * 7 + 6) (ewords 6 key 7 @ [x])
    (fold (kd6 rd) [1..<7] (kdf6 rd 0 (key_in_dec (v_idx rd 48) key 6 7 k)))"
proof (rule fold_upt_inv)
  obtain k' where k: "key_in_dec (v_idx rd 48) key 6 7 k = (k', ewords 6 key 0 @ [0])" "holds (v_idx rd 48) (dec_word 12 6 key) 6 k'"
    using key_in_dec6_stored [OF assms] by (auto elim: storedE)
  show "\<exists>x. stored (v_idx rd 48) (dec_word 12 6 key) (6 * 1 + 6) (ewords 6 key 1 @ [x]) (kdf6 rd 0 (key_in_dec (v_idx rd 48) key 6 7 k))"
    using kdf6_stored [OF assms(1) k(2)] by (simp add: k(1))
next
  fix i s assume i: "1 \<le> i" "i < 7" and s: "\<exists>x. stored (v_idx rd 48) (dec_word 12 6 key) (6 * i + 6) (ewords 6 key i @ [x]) s"
  from s obtain k x where k: "s = (k, ewords 6 key i @ [x])" "holds (v_idx rd 48) (dec_word 12 6 key) (6 * i + 6) k"
    by (auto elim: storedE)
  show "\<exists>x. stored (v_idx rd 48) (dec_word 12 6 key) (6 * Suc i + 6) (ewords 6 key (Suc i) @ [x]) (kd6 rd i s)"
    using kd6_stored [OF assms(1) i(1) _ k(2), of x] i(2) by (simp add: k(1) add.commute)
qed simp

lemma aes_decrypt_key192_holds:
  assumes "length key = 24" "length (ks cx) = KS_LENGTH"
  shows "holds (v_idx rd 48) (dec_word 12 6 key) 52 (ks (aes_decrypt_key192 rd key cx))"
proof -
  have l: "[kdf6 rd 0, kd6 rd 1, kd6 rd 2, kd6 rd 3, kd6 rd 4, kd6 rd 5, kd6 rd 6, kdl6 rd 7] = kdf6 rd 0 # map (kd6 rd) [1..<7] @ [kdl6 rd 7]"
    by (simp add: upt_conv_Cons eval_nat_numeral)
  obtain k x where k: "fold (kd6 rd) [1..<7] (kdf6 rd 0 (key_in_dec (v_idx rd 48) key 6 7 (ks cx))) = (k, ewords 6 key 7 @ [x])"
    "holds (v_idx rd 48) (dec_word 12 6 key) (6 * 7 + 6) k"
    using kd6_fold [OF assms, of rd] by (elim exE storedE) (rule that)
  have "\<exists>y. stored (v_idx rd 48) (dec_word 12 6 key) 52 y (kdl6 rd 7 (k, ewords 6 key 7 @ [x]))"
    by (rule kdl6_stored [OF assms(1)]) (use k(2) in simp)
  then show ?thesis
    unfolding aes_decrypt_key192_def l steps.simps steps_append steps_map k(1) Let_def
    by (auto simp add: MARK_AS_DECRYPTION_CTX_def set_rounds_def stored_def)
qed

lemma key_in_dec8_stored:
  assumes "length key = 32" "length k = KS_LENGTH"
  shows "stored (v_idx rd 56) (dec_word 14 8 key) 8 (ewords 8 key 0 @ [0]) (key_in_dec (v_idx rd 56) key 8 9 k)"
  using assms lay_dec14.holds_fold [of k 8 "\<lambda>i. if i < 4 then word_in key i else ff (word_in key i)" "(dec_word 14 8 key)"]
  by (simp add: key_in_dec_def stored_def exp_word_key dec_word_def ff_def)

lemma kd8_fold:
  assumes "length key = 32" "length k = KS_LENGTH"
  shows "\<exists>x. stored (v_idx rd 56) (dec_word 14 8 key) (8 * 6 + 8) (ewords 8 key 6 @ [x])
    (fold (kd8 rd) [1..<6] (kdf8 rd 0 (key_in_dec (v_idx rd 56) key 8 9 k)))"
proof (rule fold_upt_inv)
  obtain k' where k: "key_in_dec (v_idx rd 56) key 8 9 k = (k', ewords 8 key 0 @ [0])" "holds (v_idx rd 56) (dec_word 14 8 key) 8 k'"
    using key_in_dec8_stored [OF assms] by (auto elim: storedE)
  show "\<exists>x. stored (v_idx rd 56) (dec_word 14 8 key) (8 * 1 + 8) (ewords 8 key 1 @ [x]) (kdf8 rd 0 (key_in_dec (v_idx rd 56) key 8 9 k))"
    using kdf8_stored [OF assms(1) k(2)] by (simp add: k(1))
next
  fix i s assume i: "1 \<le> i" "i < 6" and s: "\<exists>x. stored (v_idx rd 56) (dec_word 14 8 key) (8 * i + 8) (ewords 8 key i @ [x]) s"
  from s obtain k x where k: "s = (k, ewords 8 key i @ [x])" "holds (v_idx rd 56) (dec_word 14 8 key) (8 * i + 8) k"
    by (auto elim: storedE)
  show "\<exists>x. stored (v_idx rd 56) (dec_word 14 8 key) (8 * Suc i + 8) (ewords 8 key (Suc i) @ [x]) (kd8 rd i s)"
    using kd8_stored [OF assms(1) i(1) _ k(2), of x] i(2) by (simp add: k(1) add.commute)
qed simp

lemma aes_decrypt_key256_holds:
  assumes "length key = 32" "length (ks cx) = KS_LENGTH"
  shows "holds (v_idx rd 56) (dec_word 14 8 key) 60 (ks (aes_decrypt_key256 rd key cx))"
proof -
  have l: "[kdf8 rd 0, kd8 rd 1, kd8 rd 2, kd8 rd 3, kd8 rd 4, kd8 rd 5, kdl8 rd 6] = kdf8 rd 0 # map (kd8 rd) [1..<6] @ [kdl8 rd 6]"
    by (simp add: upt_conv_Cons eval_nat_numeral)
  obtain k x where k: "fold (kd8 rd) [1..<6] (kdf8 rd 0 (key_in_dec (v_idx rd 56) key 8 9 (ks cx))) = (k, ewords 8 key 6 @ [x])"
    "holds (v_idx rd 56) (dec_word 14 8 key) (8 * 6 + 8) k"
    using kd8_fold [OF assms, of rd] by (elim exE storedE) (rule that)
  have "\<exists>y. stored (v_idx rd 56) (dec_word 14 8 key) 60 y (kdl8 rd 6 (k, ewords 8 key 6 @ [x]))"
    by (rule kdl8_stored [OF assms(1)]) (use k(2) in simp)
  then show ?thesis
    unfolding aes_decrypt_key256_def l steps.simps steps_append steps_map k(1) Let_def
    by (auto simp add: MARK_AS_DECRYPTION_CTX_def set_rounds_def stored_def)
qed

lemma aes_key_inf_b:
  "inf_b (aes_encrypt_key128 key cx) = [160, 0, 1, 0]" "inf_b (aes_decrypt_key128 rd key cx) = [160, 0, 0, 0]"
  "inf_b (aes_encrypt_key192 key cx) = [192, 0, 1, 0]" "inf_b (aes_decrypt_key192 rd key cx) = [192, 0, 0, 0]"
  "inf_b (aes_encrypt_key256 key cx) = [224, 0, 1, 0]" "inf_b (aes_decrypt_key256 rd key cx) = [224, 0, 0, 0]"
  by (simp_all add: aes_encrypt_key128_def aes_encrypt_key192_def aes_encrypt_key256_def
      aes_decrypt_key128_def aes_decrypt_key192_def aes_decrypt_key256_def Let_def AES_BLOCK_SIZE_def
      MARK_AS_ENCRYPTION_CTX_def MARK_AS_DECRYPTION_CTX_def set_rounds_def eval_nat_numeral)

subsection \<open>Round keys\<close>

lemma take_drop_map_nth: "j + n \<le> length xs \<Longrightarrow> take n (drop j xs) = map (\<lambda>i. xs ! (j + i)) [0..<n]"
  by (simp add: list_eq_iff_nth_eq)

lemma exp_round_key_words:
  assumes "length key = 4 * nk" "0 < nk"
  shows "exp_round_key sbox key r = st_bytes (map (\<lambda>i. exp_word nk key (4 * r + i)) [0..<4])"
proof -
  have "[4 * r..<4 * r + 4] = map ((+) (4 * r)) [0..<4]" by (simp add: map_plus_upt)
  then show ?thesis
    using assms by (simp add: exp_round_key_def st_bytes_def o_def word_out_exp_word)
qed

lemma round_key_holds:
  assumes "holds (\<lambda>i. i) (exp_word nk key) n k" "4 * r + 4 \<le> n" "n \<le> KS_LENGTH"
    and "length key = 4 * nk" "0 < nk"
  shows "round_key k r = exp_round_key sbox key r"
proof -
  have "take 4 (drop (4 * r) k) = map (\<lambda>i. exp_word nk key (4 * r + i)) [0..<4]"
    using assms by (subst take_drop_map_nth) (auto simp: holds_def)
  then show ?thesis by (simp add: round_key_def exp_round_key_words [OF assms(4,5)])
qed

lemma dec_key_words:
  assumes "holds (v_idx rd (4 * nr)) D (4 * nr + 4) k" "r \<le> nr" "4 * nr + 4 \<le> KS_LENGTH"
  shows "dec_key rd nr k r = st_bytes (map (\<lambda>i. D (4 * r + i)) [0..<4])"
proof -
  let ?q = "if rd then nr - r else r"
  have v: "v_idx rd (4 * nr) (4 * r + i) = 4 * ?q + i" if "i < 4" for i
  proof (cases rd)
    case True
    have "(4 * r + i) div 4 = r" "(4 * r + i) mod 4 = i" using that by simp_all
    then show ?thesis using that assms(2) True v_idx_rev [of "4 * r + i" "4 * nr"] by simp
  qed (simp add: v_idx_def)
  have "take 4 (drop (4 * ?q) k) = map (\<lambda>i. k ! (4 * ?q + i)) [0..<4]"
    by (rule take_drop_map_nth) (use assms in \<open>auto simp: holds_def\<close>)
  also have "\<dots> = map (\<lambda>i. D (4 * r + i)) [0..<4]"
    using assms by (auto simp: v [symmetric] holds_def)
  finally show ?thesis by (auto simp: dec_key_def round_key_def)
qed

lemma dec_key_holds:
  assumes "holds (v_idx rd (4 * nr)) (dec_word nr nk key) (4 * nr + 4) k" "r \<le> nr" "4 * nr + 4 \<le> KS_LENGTH"
    and "length key = 4 * nk" "0 < nk"
  shows "dec_key rd nr k r =
    (if r = 0 \<or> r = nr then exp_round_key sbox key r else inv_mix_columns (exp_round_key sbox key r))"
proof -
  have "map (\<lambda>i. dec_word nr nk key (4 * r + i)) [0..<4] =
      (if r = 0 \<or> r = nr then map (\<lambda>i. exp_word nk key (4 * r + i)) [0..<4]
       else map inv_mcol (map (\<lambda>i. exp_word nk key (4 * r + i)) [0..<4]))"
    using assms(2) by (auto simp: dec_word_def upt_small)
  then show ?thesis
    by (simp add: dec_key_words [OF assms(1-3)] exp_round_key_words [OF assms(4,5)] st_bytes_inv_mcol del: map_map)
qed

subsection \<open>The cipher of a keyed context\<close>

text \<open>
  \<open>enc_keyed key c\<close>: the context \<open>c\<close> is one that \<open>aes_encrypt_key\<close> makes of
  \<open>key\<close>, up to the bytes of \<open>inf\<close> other than the first, which the modes
  change; \<open>dec_keyed\<close> likewise for \<open>aes_decrypt_key\<close>.
\<close>

definition aes_rounds :: "byte list \<Rightarrow> nat" where
  "aes_rounds key = length key div 4 + 6"

definition aes_key_len :: "byte list \<Rightarrow> int \<Rightarrow> bool" where
  "aes_key_len key n \<longleftrightarrow> length key \<in> {16, 24, 32} \<and> (n = int (length key) \<or> n = 8 * int (length key))"

definition enc_keyed :: "byte list \<Rightarrow> aes_crypt_ctx \<Rightarrow> bool" where
  "enc_keyed key c \<longleftrightarrow> length key \<in> {16, 24, 32} \<and> length (inf_b c) = 4 \<and> unat (inf_b c ! 0) = aes_rounds key * 16
     \<and> holds (\<lambda>i. i) (exp_word (length key div 4) key) (4 * aes_rounds key + 4) (ks c)"

definition dec_keyed :: "bool \<Rightarrow> byte list \<Rightarrow> aes_crypt_ctx \<Rightarrow> bool" where
  "dec_keyed rd key c \<longleftrightarrow> length key \<in> {16, 24, 32} \<and> length (inf_b c) = 4 \<and> unat (inf_b c ! 0) = aes_rounds key * 16
     \<and> holds (v_idx rd (4 * aes_rounds key)) (dec_word (aes_rounds key) (length key div 4) key)
         (4 * aes_rounds key + 4) (ks c)"

lemma enc_key_ctx:
  assumes "aes_key_len key n" "length (ks cx) = KS_LENGTH"
  shows "\<exists>c. aes_encrypt_key key n cx = Some c \<and> enc_keyed key c \<and> inf_b c ! 2 = 1"
  using assms aes_encrypt_key128_holds [of key cx] aes_encrypt_key192_holds [of key cx]
    aes_encrypt_key256_holds [of key cx]
  by (auto simp: aes_key_len_def aes_encrypt_key_def enc_keyed_def aes_rounds_def aes_key_inf_b)

lemma dec_key_ctx:
  assumes "aes_key_len key n" "length (ks cx) = KS_LENGTH"
  shows "\<exists>c. aes_decrypt_key rd key n cx = Some c \<and> dec_keyed rd key c \<and> inf_b c ! 2 = 0"
  using assms aes_decrypt_key128_holds [of key cx rd] aes_decrypt_key192_holds [of key cx rd]
    aes_decrypt_key256_holds [of key cx rd]
  by (auto simp: aes_key_len_def aes_decrypt_key_def dec_keyed_def aes_rounds_def aes_key_inf_b)

text \<open>The cipher of the standard under a key, and its inverse on the blocks it produces.\<close>

definition aes_cipher :: "byte list \<Rightarrow> byte list \<Rightarrow> byte list" where
  "aes_cipher key = cipher sbox (aes_rounds key) (exp_round_key sbox key)"

definition aes_inv_cipher :: "byte list \<Rightarrow> byte list \<Rightarrow> byte list" where
  "aes_inv_cipher key = eq_inv_cipher inv_sbox (aes_rounds key)
     (\<lambda>r. if r = 0 \<or> r = aes_rounds key then exp_round_key sbox key r
          else inv_mix_columns (exp_round_key sbox key r))"

lemma cipher_cong:
  assumes "\<And>r. r \<le> nr \<Longrightarrow> rk r = rk' r" "0 < nr"
  shows "cipher sb nr rk p = cipher sb nr rk' p" "eq_inv_cipher sb nr rk p = eq_inv_cipher sb nr rk' p"
proof -
  have "fold (\<lambda>r. spec_round sb (rk r)) [1..<nr] s = fold (\<lambda>r. spec_round sb (rk' r)) [1..<nr] s" for s
    by (rule fold_cong) (use assms in auto)
  then show "cipher sb nr rk p = cipher sb nr rk' p" using assms by (simp add: cipher_def)
  have "fold (\<lambda>r s. add_round_key (rk r) (inv_mix_columns (sub_bytes sb (inv_shift_rows s)))) (rev [1..<nr]) s =
      fold (\<lambda>r s. add_round_key (rk' r) (inv_mix_columns (sub_bytes sb (inv_shift_rows s)))) (rev [1..<nr]) s" for s
    by (rule fold_cong) (use assms in auto)
  then show "eq_inv_cipher sb nr rk p = eq_inv_cipher sb nr rk' p" using assms by (simp add: eq_inv_cipher_def)
qed

lemma ctx_bounds:
  "length key \<in> {16, 24, 32} \<Longrightarrow> valid_nr (aes_rounds key) \<and> 4 * aes_rounds key + 4 \<le> KS_LENGTH \<and>
     0 < aes_rounds key \<and> length key = 4 * (length key div 4) \<and> 0 < length key div 4"
  by (auto simp: valid_nr_def aes_rounds_def KS_LENGTH_def)

lemma aes_encrypt_ctx:
  assumes "enc_keyed key c" "length p = 16"
  shows "aes_encrypt p c = Some (aes_cipher key p)"
proof -
  let ?nr = "aes_rounds key"
  from assms(1) have k: "length key \<in> {16, 24, 32}" and h: "holds (\<lambda>i. i) (exp_word (length key div 4) key) (4 * ?nr + 4) (ks c)"
    by (simp_all add: enc_keyed_def)
  note b = ctx_bounds [OF k]
  have "aes_encrypt p c = Some (cipher sbox ?nr (round_key (ks c)) p)"
    by (rule aes_encrypt_cipher) (use assms b h in \<open>auto simp: enc_keyed_def holds_def\<close>)
  also have "cipher sbox ?nr (round_key (ks c)) p = aes_cipher key p"
    unfolding aes_cipher_def
    by (rule cipher_cong) (use b round_key_holds [OF h, of _] in auto)
  finally show ?thesis .
qed

lemma aes_decrypt_ctx:
  assumes "dec_keyed rd key c" "length p = 16"
  shows "aes_decrypt rd p c = Some (aes_inv_cipher key p)"
proof -
  let ?nr = "aes_rounds key"
  from assms(1) have k: "length key \<in> {16, 24, 32}"
    and h: "holds (v_idx rd (4 * ?nr)) (dec_word ?nr (length key div 4) key) (4 * ?nr + 4) (ks c)"
    by (simp_all add: dec_keyed_def)
  note b = ctx_bounds [OF k]
  have "aes_decrypt rd p c = Some (eq_inv_cipher inv_sbox ?nr (dec_key rd ?nr (ks c)) p)"
    by (rule aes_decrypt_eq_inv_cipher) (use assms b h in \<open>auto simp: dec_keyed_def holds_def\<close>)
  also have "eq_inv_cipher inv_sbox ?nr (dec_key rd ?nr (ks c)) p = aes_inv_cipher key p"
    unfolding aes_inv_cipher_def
    by (rule cipher_cong) (use b dec_key_holds [OF h] in auto)
  finally show ?thesis .
qed

lemma length_exp_round_key [simp]:
  "length key \<in> {16, 24, 32} \<Longrightarrow> length (exp_round_key sb key r) = 16"
proof -
  assume "length key \<in> {16, 24, 32}"
  from ctx_bounds [OF this] have l: "length (key_expansion sb (length key div 4) key i) = 4" for i
    by (intro length_key_expansion) simp_all
  have "length (concat (map (key_expansion sb (length key div 4) key) xs)) = 4 * length xs" for xs
    by (induction xs) (simp_all add: l)
  then show ?thesis by (simp add: exp_round_key_def)
qed

lemma length_aes_cipher [simp, len_simps]:
  "length key \<in> {16, 24, 32} \<Longrightarrow> length (aes_cipher key p) = 16"
  by (simp add: aes_cipher_def del: insert_iff)

lemma aes_inv_cipher_cipher:
  assumes "length key \<in> {16, 24, 32}" "length p = 16"
  shows "aes_inv_cipher key (aes_cipher key p) = p"
proof -
  have "0 < aes_rounds key" using ctx_bounds [OF assms(1)] by blast
  then show ?thesis
    unfolding aes_inv_cipher_def aes_cipher_def
    by (intro eq_inv_cipher_cipher) (use assms in \<open>simp_all add: inv_sbox_sbox del: insert_iff\<close>)
qed

lemma length_aes_inv_cipher [simp, len_simps]:
  "length key \<in> {16, 24, 32} \<Longrightarrow> length (aes_inv_cipher key c) = 16"
  by (simp add: aes_inv_cipher_def eq_inv_cipher_def inv_last_round_def del: insert_iff)

end
