(* ===== verification/AesNi.thy ===== *)
theory AesNi
  imports AesSched
begin

text \<open>
  \<^verbatim>\<open>native/aes/aes_ni.c\<close>: key schedules and block functions with the AES
  instructions of x64 processors. On the builds that may use them the public
  names \<open>aes_encrypt\<close>, \<open>aes_encrypt_key128\<close>, \dots are these functions, and the
  table-driven ones of \<^verbatim>\<open>aescrypt.c\<close> and \<^verbatim>\<open>aeskey.c\<close> (theories \<open>AesCrypt\<close> and
  \<open>AesKey\<close>) are what they fall back to. The processor is a parameter: what
  \<open>cpuid\<close> answers and the six AES instructions, whose documented behaviour is
  the predicate \<open>aes_instructions\<close>. A value of type \<open>__m128i\<close> is the list of its
  sixteen bytes in memory order. The assertions that a context is aligned hold by
  its type and are left out. A key is the memory that its pointer reaches.
\<close>

type_synonym m128 = "byte list"

record cpu =
  cpuid_ecx :: u32
  mm_aesenc :: "m128 \<Rightarrow> m128 \<Rightarrow> m128"
  mm_aesenclast :: "m128 \<Rightarrow> m128 \<Rightarrow> m128"
  mm_aesdec :: "m128 \<Rightarrow> m128 \<Rightarrow> m128"
  mm_aesdeclast :: "m128 \<Rightarrow> m128 \<Rightarrow> m128"
  mm_aesimc :: "m128 \<Rightarrow> m128"
  mm_keygenassist :: "m128 \<Rightarrow> byte \<Rightarrow> m128"

subsection \<open>The instructions\<close>

text \<open>The operations of SSE2 that the file uses.\<close>

definition mm_loadu :: "byte list \<Rightarrow> nat \<Rightarrow> m128" where
  "mm_loadu mem a = take 16 (drop a mem)"

definition mm_xor :: "m128 \<Rightarrow> m128 \<Rightarrow> m128" where
  "mm_xor a b = xor_bytes a b"

definition mm_dword :: "m128 \<Rightarrow> nat \<Rightarrow> byte list" where
  "mm_dword a i = take 4 (drop (4 * i) a)"

definition mm_shuffle_epi32 :: "m128 \<Rightarrow> nat \<Rightarrow> m128" where
  "mm_shuffle_epi32 a imm = concat (map (\<lambda>i. mm_dword a (imm div 4 ^ i mod 4)) [0, 1, 2, 3])"

definition mm_slli_si128 :: "m128 \<Rightarrow> nat \<Rightarrow> m128" where
  "mm_slli_si128 a n = take 16 (replicate n 0 @ a)"

definition mm_shuffle_pd :: "m128 \<Rightarrow> m128 \<Rightarrow> nat \<Rightarrow> m128" where
  "mm_shuffle_pd a b imm = (if odd imm then drop 8 a else take 8 a) @ (if odd (imm div 2) then drop 8 b else take 8 b)"

text \<open>The documented behaviour of the AES instructions, as operations of FIPS 197.\<close>

definition keygenassist :: "m128 \<Rightarrow> byte \<Rightarrow> m128" where
  "keygenassist s rc =
     (let x1 = map sbox (mm_dword s 1); x3 = map sbox (mm_dword s 3)
      in x1 @ xor_bytes (rotate1 x1) [rc, 0, 0, 0] @ x3 @ xor_bytes (rotate1 x3) [rc, 0, 0, 0])"

definition aes_instructions :: "cpu \<Rightarrow> bool" where
  "aes_instructions c \<longleftrightarrow> (\<forall>s k rc. length s = 16 \<longrightarrow> length k = 16 \<longrightarrow>
     mm_aesenc c s k = spec_round sbox k s \<and> mm_aesenclast c s k = spec_last_round sbox k s \<and>
     mm_aesdec c s k = add_round_key k (inv_mix_columns (sub_bytes inv_sbox (inv_shift_rows s))) \<and>
     mm_aesdeclast c s k = inv_last_round inv_sbox k s \<and>
     mm_aesimc c s = inv_mix_columns s \<and> mm_keygenassist c s rc = keygenassist s rc)"

text \<open>
  \<open>has_aes_ni\<close> keeps the answer of \<open>cpuid\<close> in a static variable: its new value,
  which is also the result, for the old one.
\<close>

definition has_aes_ni_test :: "u32 \<Rightarrow> u32 \<Rightarrow> u32" where
  "has_aes_ni_test ecx test = (if sint test < 0 then ecx AND 0x02000000 else test)"

definition has_aes_ni :: "cpu \<Rightarrow> bool" where
  "has_aes_ni c \<longleftrightarrow> has_aes_ni_test (cpuid_ecx c) (-1) \<noteq> 0"

subsection \<open>Round keys in memory\<close>

definition get128 :: "u32 list \<Rightarrow> nat \<Rightarrow> m128" where
  "get128 k j = concat (map word_out (take 4 (drop (4 * j) k)))"

definition put128 :: "nat \<Rightarrow> m128 \<Rightarrow> u32 list \<Rightarrow> u32 list" where
  "put128 j t k = k[4*j := word_in t 0, 4*j+1 := word_in t 1, 4*j+2 := word_in t 2, 4*j+3 := word_in t 3]"

subsection \<open>Key schedules\<close>

text \<open>The three shifted copies that the key expansion adds up.\<close>

definition aes_128_assist :: "m128 \<Rightarrow> m128 \<Rightarrow> m128" where
  "aes_128_assist t1 t2 =
     (let t2 = mm_shuffle_epi32 t2 0xff;
          t3 = mm_slli_si128 t1 4;
          t1 = mm_xor t1 t3;
          t3 = mm_slli_si128 t3 4;
          t1 = mm_xor t1 t3;
          t3 = mm_slli_si128 t3 4;
          t1 = mm_xor t1 t3
      in mm_xor t1 t2)"

definition ni_step128 :: "cpu \<Rightarrow> nat \<Rightarrow> byte \<Rightarrow> u32 list \<times> m128 \<Rightarrow> u32 list \<times> m128" where
  "ni_step128 c j rc = (\<lambda>(k, t1).
     let t2 = mm_keygenassist c t1 rc; t1 = aes_128_assist t1 t2 in (put128 j t1 k, t1))"

definition ni_encrypt_key128 :: "cpu \<Rightarrow> byte list \<Rightarrow> aes_crypt_ctx \<Rightarrow> aes_crypt_ctx" where
  "ni_encrypt_key128 c key cx =
     (if \<not> has_aes_ni c then aes_encrypt_key128 key cx
      else
        let t1 = mm_loadu key 0;
            st = (put128 0 t1 (ks cx), t1);
            st = ni_step128 c 1 0x01 st;
            st = ni_step128 c 2 0x02 st;
            st = ni_step128 c 3 0x04 st;
            st = ni_step128 c 4 0x08 st;
            st = ni_step128 c 5 0x10 st;
            st = ni_step128 c 6 0x20 st;
            st = ni_step128 c 7 0x40 st;
            st = ni_step128 c 8 0x80 st;
            st = ni_step128 c 9 0x1b st;
            st = ni_step128 c 10 0x36 st
        in set_rounds 10 (cx\<lparr>ks := fst st\<rparr>))"

definition aes_192_assist :: "m128 \<Rightarrow> m128 \<Rightarrow> m128 \<Rightarrow> m128 \<times> m128" where
  "aes_192_assist t1 t2 t3 =
     (let t2 = mm_shuffle_epi32 t2 0x55;
          t4 = mm_slli_si128 t1 4;
          t1 = mm_xor t1 t4;
          t4 = mm_slli_si128 t4 4;
          t1 = mm_xor t1 t4;
          t4 = mm_slli_si128 t4 4;
          t1 = mm_xor t1 t4;
          t1 = mm_xor t1 t2;
          t2 = mm_shuffle_epi32 t1 0xff;
          t4 = mm_slli_si128 t3 4;
          t3 = mm_xor t3 t4;
          t3 = mm_xor t3 t2
      in (t1, t3))"

type_synonym ni192 = "u32 list \<times> m128 \<times> m128"

text \<open>Two kinds of step: the six new words straddle three round keys, or start one.\<close>

definition ni_step192a :: "cpu \<Rightarrow> nat \<Rightarrow> byte \<Rightarrow> ni192 \<Rightarrow> ni192" where
  "ni_step192a c j rc = (\<lambda>(k, t1, t3).
     let t2 = mm_keygenassist c t3 rc;
         (t1, t3) = aes_192_assist t1 t2 t3;
         k = put128 j (mm_shuffle_pd (get128 k j) t1 0) k;
         k = put128 (j + 1) (mm_shuffle_pd t1 t3 1) k
     in (k, t1, t3))"

definition ni_step192b :: "cpu \<Rightarrow> nat \<Rightarrow> byte \<Rightarrow> ni192 \<Rightarrow> ni192" where
  "ni_step192b c j rc = (\<lambda>(k, t1, t3).
     let t2 = mm_keygenassist c t3 rc;
         (t1, t3) = aes_192_assist t1 t2 t3
     in (put128 (j + 1) t3 (put128 j t1 k), t1, t3))"

definition ni_last192 :: "cpu \<Rightarrow> nat \<Rightarrow> byte \<Rightarrow> ni192 \<Rightarrow> u32 list" where
  "ni_last192 c j rc = (\<lambda>(k, t1, t3).
     let t2 = mm_keygenassist c t3 rc;
         (t1, t3) = aes_192_assist t1 t2 t3
     in put128 j t1 k)"

definition ni_encrypt_key192 :: "cpu \<Rightarrow> byte list \<Rightarrow> aes_crypt_ctx \<Rightarrow> aes_crypt_ctx" where
  "ni_encrypt_key192 c key cx =
     (if \<not> has_aes_ni c then aes_encrypt_key192 key cx
      else
        let t1 = mm_loadu key 0; t3 = mm_loadu key 16;
            st = (put128 1 t3 (put128 0 t1 (ks cx)), t1, t3);
            st = ni_step192a c 1 0x01 st;
            st = ni_step192b c 3 0x02 st;
            st = ni_step192a c 4 0x04 st;
            st = ni_step192b c 6 0x08 st;
            st = ni_step192a c 7 0x10 st;
            st = ni_step192b c 9 0x20 st;
            st = ni_step192a c 10 0x40 st;
            k = ni_last192 c 12 0x80 st
        in set_rounds 12 (cx\<lparr>ks := k\<rparr>))"

definition aes_256_assist1 :: "m128 \<Rightarrow> m128 \<Rightarrow> m128" where
  "aes_256_assist1 t1 t2 =
     (let t2 = mm_shuffle_epi32 t2 0xff;
          t4 = mm_slli_si128 t1 4;
          t1 = mm_xor t1 t4;
          t4 = mm_slli_si128 t4 4;
          t1 = mm_xor t1 t4;
          t4 = mm_slli_si128 t4 4;
          t1 = mm_xor t1 t4
      in mm_xor t1 t2)"

definition aes_256_assist2 :: "cpu \<Rightarrow> m128 \<Rightarrow> m128 \<Rightarrow> m128" where
  "aes_256_assist2 c t1 t3 =
     (let t4 = mm_keygenassist c t1 0;
          t2 = mm_shuffle_epi32 t4 0xaa;
          t4 = mm_slli_si128 t3 4;
          t3 = mm_xor t3 t4;
          t4 = mm_slli_si128 t4 4;
          t3 = mm_xor t3 t4;
          t4 = mm_slli_si128 t4 4;
          t3 = mm_xor t3 t4
      in mm_xor t3 t2)"

definition ni_half256 :: "cpu \<Rightarrow> nat \<Rightarrow> byte \<Rightarrow> ni192 \<Rightarrow> ni192" where
  "ni_half256 c j rc = (\<lambda>(k, t1, t3).
     let t2 = mm_keygenassist c t3 rc; t1 = aes_256_assist1 t1 t2 in (put128 j t1 k, t1, t3))"

definition ni_step256 :: "cpu \<Rightarrow> nat \<Rightarrow> byte \<Rightarrow> ni192 \<Rightarrow> ni192" where
  "ni_step256 c j rc st =
     (let (k, t1, t3) = ni_half256 c j rc st; t3 = aes_256_assist2 c t1 t3 in (put128 (j + 1) t3 k, t1, t3))"

definition ni_encrypt_key256 :: "cpu \<Rightarrow> byte list \<Rightarrow> aes_crypt_ctx \<Rightarrow> aes_crypt_ctx" where
  "ni_encrypt_key256 c key cx =
     (if \<not> has_aes_ni c then aes_encrypt_key256 key cx
      else
        let t1 = mm_loadu key 0; t3 = mm_loadu key 16;
            st = (put128 1 t3 (put128 0 t1 (ks cx)), t1, t3);
            st = ni_step256 c 2 0x01 st;
            st = ni_step256 c 4 0x02 st;
            st = ni_step256 c 6 0x04 st;
            st = ni_step256 c 8 0x08 st;
            st = ni_step256 c 10 0x10 st;
            st = ni_step256 c 12 0x20 st;
            (k, t1, t3) = ni_half256 c 14 0x40 st
        in set_rounds 14 (cx\<lparr>ks := k\<rparr>))"

text \<open>\<open>enc_to_dec\<close> turns an encryption schedule into a decryption schedule in place.\<close>

definition enc_to_dec :: "cpu \<Rightarrow> aes_crypt_ctx \<Rightarrow> aes_crypt_ctx" where
  "enc_to_dec c cx =
     cx\<lparr>ks := fold (\<lambda>j k. put128 j (mm_aesimc c (get128 k j)) k) [1..<unat (inf_b cx ! 0) div 16] (ks cx)\<rparr>"

definition ni_decrypt_key128 :: "cpu \<Rightarrow> byte list \<Rightarrow> aes_crypt_ctx \<Rightarrow> aes_crypt_ctx" where
  "ni_decrypt_key128 c key cx =
     (if \<not> has_aes_ni c then aes_decrypt_key128 False key cx else enc_to_dec c (ni_encrypt_key128 c key cx))"

definition ni_decrypt_key192 :: "cpu \<Rightarrow> byte list \<Rightarrow> aes_crypt_ctx \<Rightarrow> aes_crypt_ctx" where
  "ni_decrypt_key192 c key cx =
     (if \<not> has_aes_ni c then aes_decrypt_key192 False key cx else enc_to_dec c (ni_encrypt_key192 c key cx))"

definition ni_decrypt_key256 :: "cpu \<Rightarrow> byte list \<Rightarrow> aes_crypt_ctx \<Rightarrow> aes_crypt_ctx" where
  "ni_decrypt_key256 c key cx =
     (if \<not> has_aes_ni c then aes_decrypt_key256 False key cx else enc_to_dec c (ni_encrypt_key256 c key cx))"

subsection \<open>Blocks\<close>

text \<open>One \<open>aesenc\<close> with \<open>*++key\<close>, one \<open>aesdec\<close> with \<open>*--key\<close>.\<close>

definition ni_enc_step :: "cpu \<Rightarrow> u32 list \<Rightarrow> m128 \<times> nat \<Rightarrow> m128 \<times> nat" where
  "ni_enc_step c k = (\<lambda>(t, j). (mm_aesenc c t (get128 k (j + 1)), j + 1))"

definition ni_dec_step :: "cpu \<Rightarrow> u32 list \<Rightarrow> m128 \<times> nat \<Rightarrow> m128 \<times> nat" where
  "ni_dec_step c k = (\<lambda>(t, j). (mm_aesdec c t (get128 k (j - 1)), j - 1))"

definition ni_encrypt :: "cpu \<Rightarrow> byte list \<Rightarrow> aes_crypt_ctx \<Rightarrow> byte list option" where
  "ni_encrypt c inp cx =
     (let n = unat (inf_b cx ! 0)
      in if n \<noteq> 10 * AES_BLOCK_SIZE \<and> n \<noteq> 12 * AES_BLOCK_SIZE \<and> n \<noteq> 14 * AES_BLOCK_SIZE then None
         else if \<not> has_aes_ni c then aes_encrypt inp cx
         else
           let st = (mm_xor (mm_loadu inp 0) (get128 (ks cx) 0), 0);
               st = (if n = 14 * AES_BLOCK_SIZE then (ni_enc_step c (ks cx) ^^ 2) st else st);
               st = (if n = 14 * AES_BLOCK_SIZE \<or> n = 12 * AES_BLOCK_SIZE then (ni_enc_step c (ks cx) ^^ 2) st else st);
               (t, j) = (ni_enc_step c (ks cx) ^^ 9) st
           in Some (mm_aesenclast c t (get128 (ks cx) (j + 1))))"

definition ni_decrypt :: "cpu \<Rightarrow> byte list \<Rightarrow> aes_crypt_ctx \<Rightarrow> byte list option" where
  "ni_decrypt c inp cx =
     (let n = unat (inf_b cx ! 0)
      in if n \<noteq> 10 * AES_BLOCK_SIZE \<and> n \<noteq> 12 * AES_BLOCK_SIZE \<and> n \<noteq> 14 * AES_BLOCK_SIZE then None
         else if \<not> has_aes_ni c then aes_decrypt False inp cx
         else
           let st = (mm_xor (mm_loadu inp 0) (get128 (ks cx) (n div 16)), n div 16);
               st = (if n = 14 * AES_BLOCK_SIZE then (ni_dec_step c (ks cx) ^^ 2) st else st);
               st = (if n = 14 * AES_BLOCK_SIZE \<or> n = 12 * AES_BLOCK_SIZE then (ni_dec_step c (ks cx) ^^ 2) st else st);
               (t, j) = (ni_dec_step c (ks cx) ^^ 9) st
           in Some (mm_aesdeclast c t (get128 (ks cx) (j - 1))))"

text \<open>The dispatchers of \<^verbatim>\<open>aeskey.c\<close> call the functions by their public names.\<close>

definition ni_encrypt_key :: "cpu \<Rightarrow> byte list \<Rightarrow> int \<Rightarrow> aes_crypt_ctx \<Rightarrow> aes_crypt_ctx option" where
  "ni_encrypt_key c key key_len cx =
     (if key_len = 16 \<or> key_len = 128 then Some (ni_encrypt_key128 c key cx)
      else if key_len = 24 \<or> key_len = 192 then Some (ni_encrypt_key192 c key cx)
      else if key_len = 32 \<or> key_len = 256 then Some (ni_encrypt_key256 c key cx)
      else None)"

definition ni_decrypt_key :: "cpu \<Rightarrow> byte list \<Rightarrow> int \<Rightarrow> aes_crypt_ctx \<Rightarrow> aes_crypt_ctx option" where
  "ni_decrypt_key c key key_len cx =
     (if key_len = 16 \<or> key_len = 128 then Some (ni_decrypt_key128 c key cx)
      else if key_len = 24 \<or> key_len = 192 then Some (ni_decrypt_key192 c key cx)
      else if key_len = 32 \<or> key_len = 256 then Some (ni_decrypt_key256 c key cx)
      else None)"

end
