(* ===== verification/AesModes.thy ===== *)
theory AesModes
  imports AesSched
begin

text \<open>
  \<^verbatim>\<open>native/aes/aes_modes.c\<close>: the block modes. A mode function takes its
  buffers as lists and returns what it wrote: the return value, the output
  bytes, the chaining block (\<open>iv\<close> or \<open>cbuf\<close>) and, where it changes, the
  context; after \<open>EXIT_FAILURE\<close> these are the bytes written before the return.
  The length argument is the length of \<open>ibuf\<close>. The flags \<open>al_i\<close>, \<open>al_o\<close>,
  \<open>al_v\<close> say that a buffer lies on a 4-byte boundary, which chooses between
  the word-wise and the byte-wise code (\<open>FAST_BUFFER_OPERATIONS\<close>). The block
  function that a loop calls is an argument of the loop.

  The lemmas give each mode its specification over a block cipher, stated as
  a locale and interpreted on the contexts of \<^verbatim>\<open>aeskey.c\<close>.
\<close>

subsection \<open>Pointer alignment\<close>

type_synonym address = u64

definition ALIGN_OFFSET :: "address \<Rightarrow> address \<Rightarrow> address" where
  "ALIGN_OFFSET x n = x AND (n - 1)"

definition ALIGN_FLOOR :: "address \<Rightarrow> address \<Rightarrow> address" where
  "ALIGN_FLOOR x n = x - (x AND (n - 1))"

definition ALIGN_CEIL :: "address \<Rightarrow> address \<Rightarrow> address" where
  "ALIGN_CEIL x n = x + ((- x) AND (n - 1))"

text \<open>The loop over \<open>i\<close>; \<open>None\<close> is its early return.\<close>

fun alignment_counts :: "address \<Rightarrow> nat \<Rightarrow> nat list \<Rightarrow> nat \<times> nat \<Rightarrow> (nat \<times> nat) option" where
  "alignment_counts p n [] c = Some c"
| "alignment_counts p n (i # is) (count_eq, count_neq) =
    (let qf = ALIGN_FLOOR (p + of_nat i) (of_nat n);
         qh = ALIGN_CEIL (p + of_nat i) (of_nat n)
     in if qh = qf then alignment_counts p n is (count_eq + 1, count_neq)
        else if qh = qf + of_nat n then alignment_counts p n is (count_eq, count_neq + 1)
        else None)"

definition aes_test_alignment_detection :: "address \<Rightarrow> nat \<Rightarrow> aes_return" where
  "aes_test_alignment_detection p n =
    (if n < 4 \<or> n > 16 then EXIT_FAILURE
     else case alignment_counts p n [0..<n] (0, 0) of
         None \<Rightarrow> EXIT_FAILURE
       | Some (count_eq, count_neq) \<Rightarrow>
           if count_eq \<noteq> 1 \<or> count_neq \<noteq> n - 1 then EXIT_FAILURE else EXIT_SUCCESS)"

definition aes_mode_reset :: "aes_crypt_ctx \<Rightarrow> aes_return \<times> aes_crypt_ctx" where
  "aes_mode_reset cx = (EXIT_SUCCESS, cx\<lparr>inf_b := (inf_b cx)[2 := 0]\<rparr>)"

subsection \<open>ECB\<close>

type_synonym block_call = "byte list \<Rightarrow> byte list option"

fun ecb_loop :: "block_call \<Rightarrow> nat \<Rightarrow> byte list \<Rightarrow> aes_return \<times> byte list" where
  "ecb_loop f 0 ibuf = (EXIT_SUCCESS, [])"
| "ecb_loop f (Suc nb) ibuf =
    (case f (take 16 ibuf) of None \<Rightarrow> (EXIT_FAILURE, [])
     | Some b \<Rightarrow> (case ecb_loop f nb (drop 16 ibuf) of (r, out) \<Rightarrow> (r, b @ out)))"

definition aes_ecb_encrypt :: "byte list \<Rightarrow> aes_crypt_ctx \<Rightarrow> aes_return \<times> byte list" where
  "aes_ecb_encrypt ibuf ctx =
    (let len = length ibuf; nb = len div 16
     in if len mod 16 \<noteq> 0 then (EXIT_FAILURE, [])
        else ecb_loop (\<lambda>b. aes_encrypt b ctx) nb ibuf)"

definition aes_ecb_decrypt :: "bool \<Rightarrow> byte list \<Rightarrow> aes_crypt_ctx \<Rightarrow> aes_return \<times> byte list" where
  "aes_ecb_decrypt rev_dks ibuf ctx =
    (let len = length ibuf; nb = len div 16
     in if len mod 16 \<noteq> 0 then (EXIT_FAILURE, [])
        else ecb_loop (\<lambda>b. aes_decrypt rev_dks b ctx) nb ibuf)"

subsection \<open>CBC\<close>

text \<open>
  \<open>a ^= b\<close> on a block: four words through \<open>lp32\<close> or sixteen bytes. The words
  are read and written in the byte order of the platform, which is the one of
  \<open>word_in\<close>.
\<close>

definition xor_block_words :: "byte list \<Rightarrow> byte list \<Rightarrow> byte list" where
  "xor_block_words a b = concat (map (\<lambda>c. word_out (word_in a c XOR word_in b c)) [0, 1, 2, 3])"

definition xor_block_bytes :: "byte list \<Rightarrow> byte list \<Rightarrow> byte list" where
  "xor_block_bytes a b = map (\<lambda>i. a ! i XOR b ! i) [0..<16]"

definition xor_block :: "bool \<Rightarrow> byte list \<Rightarrow> byte list \<Rightarrow> byte list" where
  "xor_block aligned a b = (if aligned then xor_block_words a b else xor_block_bytes a b)"

fun cbc_encrypt_loop ::
  "bool \<Rightarrow> block_call \<Rightarrow> nat \<Rightarrow> byte list \<Rightarrow> byte list \<Rightarrow> aes_return \<times> byte list \<times> byte list" where
  "cbc_encrypt_loop al f 0 ibuf iv = (EXIT_SUCCESS, [], iv)"
| "cbc_encrypt_loop al f (Suc nb) ibuf iv =
    (let iv = xor_block al iv (take 16 ibuf)
     in case f iv of None \<Rightarrow> (EXIT_FAILURE, [], iv)
        | Some iv \<Rightarrow> (case cbc_encrypt_loop al f nb (drop 16 ibuf) iv of (r, out, iv') \<Rightarrow> (r, iv @ out, iv')))"

definition aes_cbc_encrypt ::
  "bool \<Rightarrow> bool \<Rightarrow> byte list \<Rightarrow> byte list \<Rightarrow> aes_crypt_ctx \<Rightarrow> aes_return \<times> byte list \<times> byte list" where
  "aes_cbc_encrypt al_i al_v ibuf iv ctx =
    (let len = length ibuf; nb = len div 16
     in if len mod 16 \<noteq> 0 then (EXIT_FAILURE, [], iv)
        else cbc_encrypt_loop (al_i \<and> al_v) (\<lambda>b. aes_encrypt b ctx) nb ibuf iv)"

fun cbc_decrypt_loop ::
  "bool \<Rightarrow> block_call \<Rightarrow> nat \<Rightarrow> byte list \<Rightarrow> byte list \<Rightarrow> aes_return \<times> byte list \<times> byte list" where
  "cbc_decrypt_loop al f 0 ibuf iv = (EXIT_SUCCESS, [], iv)"
| "cbc_decrypt_loop al f (Suc nb) ibuf iv =
    (let tmp = take 16 ibuf
     in case f tmp of None \<Rightarrow> (EXIT_FAILURE, [], iv)
        | Some b \<Rightarrow>
            (let b = xor_block al b iv
             in case cbc_decrypt_loop al f nb (drop 16 ibuf) tmp of (r, out, iv') \<Rightarrow> (r, b @ out, iv')))"

definition aes_cbc_decrypt ::
  "bool \<Rightarrow> bool \<Rightarrow> bool \<Rightarrow> byte list \<Rightarrow> byte list \<Rightarrow> aes_crypt_ctx \<Rightarrow> aes_return \<times> byte list \<times> byte list" where
  "aes_cbc_decrypt rev_dks al_o al_v ibuf iv ctx =
    (let len = length ibuf; nb = len div 16
     in if len mod 16 \<noteq> 0 then (EXIT_FAILURE, [], iv)
        else cbc_decrypt_loop (al_o \<and> al_v) (\<lambda>b. aes_decrypt rev_dks b ctx) nb ibuf iv)"

subsection \<open>CFB and OFB\<close>

text \<open>
  The three functions share one shape and differ in what happens to one byte
  of input \<open>x\<close> and the byte \<open>v\<close> of \<open>iv\<close> at the same place; an operation gives
  the byte written to \<open>obuf\<close> and the new byte of \<open>iv\<close>:
  \<open>*obuf++ = (iv[b_pos++] ^= *ibuf++)\<close>,
  \<open>t = *ibuf++; *obuf++ = t ^ iv[b_pos]; iv[b_pos++] = t\<close> and
  \<open>*obuf++ = iv[b_pos++] ^ *ibuf++\<close>. The word-wise code applies the same
  operation to words.
\<close>

definition cfb_enc_op :: "'a::len word \<Rightarrow> 'a word \<Rightarrow> 'a word \<times> 'a word" where
  "cfb_enc_op v x = (let v = v XOR x in (v, v))"

definition cfb_dec_op :: "'a::len word \<Rightarrow> 'a word \<Rightarrow> 'a word \<times> 'a word" where
  "cfb_dec_op v x = (let t = x in (t XOR v, t))"

definition ofb_op :: "'a::len word \<Rightarrow> 'a word \<Rightarrow> 'a word \<times> 'a word" where
  "ofb_op v x = (v XOR x, v)"

type_synonym byte_op = "byte \<Rightarrow> byte \<Rightarrow> byte \<times> byte"
type_synonym word_op = "u32 \<Rightarrow> u32 \<Rightarrow> u32 \<times> u32"

text \<open>
  \<open>while(b_pos < AES_BLOCK_SIZE && cnt < len)\<close>; the result is \<open>b_pos\<close>, \<open>iv\<close>,
  the bytes written and the input left.
\<close>

fun stream_bytes ::
  "byte_op \<Rightarrow> nat \<Rightarrow> byte list \<Rightarrow> byte list \<Rightarrow> nat \<times> byte list \<times> byte list \<times> byte list" where
  "stream_bytes opb b_pos iv [] = (b_pos, iv, [], [])"
| "stream_bytes opb b_pos iv (x # ibuf) =
    (if b_pos < AES_BLOCK_SIZE then
       (case opb (iv ! b_pos) x of (y, v) \<Rightarrow>
        case stream_bytes opb (b_pos + 1) (iv[b_pos := v]) ibuf of
          (b_pos', iv', out, rest) \<Rightarrow> (b_pos', iv', y # out, rest))
     else (b_pos, iv, [], x # ibuf))"

definition block_op_bytes :: "byte_op \<Rightarrow> byte list \<Rightarrow> byte list \<Rightarrow> byte list \<times> byte list" where
  "block_op_bytes opb iv ib =
    (map (\<lambda>i. fst (opb (iv ! i) (ib ! i))) [0..<16], map (\<lambda>i. snd (opb (iv ! i) (ib ! i))) [0..<16])"

definition block_op_words :: "word_op \<Rightarrow> byte list \<Rightarrow> byte list \<Rightarrow> byte list \<times> byte list" where
  "block_op_words opw iv ib =
    (concat (map (\<lambda>c. word_out (fst (opw (word_in iv c) (word_in ib c)))) [0, 1, 2, 3]),
     concat (map (\<lambda>c. word_out (snd (opw (word_in iv c) (word_in ib c)))) [0, 1, 2, 3]))"

text \<open>
  \<open>while(cnt + AES_BLOCK_SIZE <= len)\<close>, entered only when there are whole
  blocks; the result is the return value so far, \<open>iv\<close>, the bytes written and
  the input left.
\<close>

function stream_blocks ::
  "(byte list \<Rightarrow> byte list \<Rightarrow> byte list \<times> byte list) \<Rightarrow> block_call \<Rightarrow> byte list \<Rightarrow> byte list \<Rightarrow>
   aes_return \<times> byte list \<times> byte list \<times> byte list" where
  "stream_blocks blk f iv ibuf =
    (if 16 \<le> length ibuf then
       (case f iv of None \<Rightarrow> (EXIT_FAILURE, iv, [], ibuf)
        | Some iv \<Rightarrow> (case blk iv (take 16 ibuf) of (y, iv) \<Rightarrow>
            (case stream_blocks blk f iv (drop 16 ibuf) of (r, iv', out, rest) \<Rightarrow> (r, iv', y @ out, rest))))
     else (EXIT_SUCCESS, iv, [], ibuf))"
  by pat_completeness auto

termination
  by (relation "measure (\<lambda>(blk, f, iv, ibuf). length ibuf)") auto

declare stream_blocks.simps [simp del]

definition wrap_pos :: "nat \<Rightarrow> nat" where
  "wrap_pos b_pos = (if b_pos = AES_BLOCK_SIZE then 0 else b_pos)"

text \<open>
  \<open>while(cnt < len)\<close>: it makes no progress when \<open>b_pos\<close> is above the block
  size, so it is a partial function, whose value \<open>None\<close> is not returning.
\<close>

partial_function (option) stream_tail ::
  "byte_op \<Rightarrow> block_call \<Rightarrow> nat \<Rightarrow> byte list \<Rightarrow> byte list \<Rightarrow>
   (aes_return \<times> nat \<times> byte list \<times> byte list) option" where
  "stream_tail opb f b_pos iv ibuf =
    (if ibuf = [] then Some (EXIT_SUCCESS, b_pos, iv, [])
     else case (if b_pos = 0 then f iv else Some iv) of
         None \<Rightarrow> Some (EXIT_FAILURE, b_pos, iv, [])
       | Some iv \<Rightarrow>
           (case stream_bytes opb b_pos iv ibuf of (b_pos, iv, out, rest) \<Rightarrow>
            Option.bind (stream_tail opb f (wrap_pos b_pos) iv rest)
              (\<lambda>(r, b_pos', iv', out'). Some (r, b_pos', iv', out @ out'))))"

text \<open>The body of the three functions, up to the update of \<open>ctx->inf.b[2]\<close>.\<close>

definition stream_crypt ::
  "byte_op \<Rightarrow> word_op \<Rightarrow> bool \<Rightarrow> block_call \<Rightarrow> nat \<Rightarrow> byte list \<Rightarrow> byte list \<Rightarrow>
   (aes_return \<times> nat \<times> byte list \<times> byte list) option" where
  "stream_crypt opb opw aligned f b_pos iv ibuf =
    (let (b_pos, iv, out1, ibuf) =
           (if b_pos \<noteq> 0 then
              (case stream_bytes opb b_pos iv ibuf of (b_pos, iv, out, rest) \<Rightarrow> (wrap_pos b_pos, iv, out, rest))
            else (b_pos, iv, [], ibuf));
         (r, iv, out2, ibuf) =
           (if length ibuf div 16 \<noteq> 0 then
              stream_blocks (if aligned then block_op_words opw else block_op_bytes opb) f iv ibuf
            else (EXIT_SUCCESS, iv, [], ibuf))
     in if r = EXIT_FAILURE then Some (EXIT_FAILURE, b_pos, iv, out1 @ out2)
        else Option.bind (stream_tail opb f b_pos iv ibuf)
               (\<lambda>(r, b_pos, iv, out3). Some (r, b_pos, iv, out1 @ out2 @ out3)))"

definition set_b2 :: "aes_crypt_ctx \<Rightarrow> nat \<Rightarrow> aes_crypt_ctx" where
  "set_b2 ctx b_pos = ctx\<lparr>inf_b := (inf_b ctx)[2 := word_of_nat b_pos]\<rparr>"

type_synonym mode_result = "(aes_return \<times> byte list \<times> byte list \<times> aes_crypt_ctx) option"

definition aes_cfb_encrypt :: "bool \<Rightarrow> bool \<Rightarrow> bool \<Rightarrow> byte list \<Rightarrow> byte list \<Rightarrow> aes_crypt_ctx \<Rightarrow> mode_result" where
  "aes_cfb_encrypt al_i al_o al_v ibuf iv ctx =
    Option.bind (stream_crypt cfb_enc_op cfb_enc_op (al_i \<and> al_o \<and> al_v) (\<lambda>b. aes_encrypt b ctx)
                   (unat (inf_b ctx ! 2)) iv ibuf)
      (\<lambda>(r, b_pos, iv, out). Some (r, out, iv, if r = EXIT_SUCCESS then set_b2 ctx b_pos else ctx))"

definition aes_cfb_decrypt :: "bool \<Rightarrow> bool \<Rightarrow> bool \<Rightarrow> byte list \<Rightarrow> byte list \<Rightarrow> aes_crypt_ctx \<Rightarrow> mode_result" where
  "aes_cfb_decrypt al_i al_o al_v ibuf iv ctx =
    Option.bind (stream_crypt cfb_dec_op cfb_dec_op (al_i \<and> al_o \<and> al_v) (\<lambda>b. aes_encrypt b ctx)
                   (unat (inf_b ctx ! 2)) iv ibuf)
      (\<lambda>(r, b_pos, iv, out). Some (r, out, iv, if r = EXIT_SUCCESS then set_b2 ctx b_pos else ctx))"

definition aes_ofb_crypt :: "bool \<Rightarrow> bool \<Rightarrow> bool \<Rightarrow> byte list \<Rightarrow> byte list \<Rightarrow> aes_crypt_ctx \<Rightarrow> mode_result" where
  "aes_ofb_crypt al_i al_o al_v ibuf iv ctx =
    Option.bind (stream_crypt ofb_op ofb_op (al_i \<and> al_o \<and> al_v) (\<lambda>b. aes_encrypt b ctx)
                   (unat (inf_b ctx ! 2)) iv ibuf)
      (\<lambda>(r, b_pos, iv, out). Some (r, out, iv, if r = EXIT_SUCCESS then set_b2 ctx b_pos else ctx))"

subsection \<open>CTR\<close>

text \<open>
  \<open>ctr_inc\<close> is the caller's function that steps the counter block \<open>cbuf\<close>. The
  loop over \<open>i\<close> that lays out counter blocks is \<open>ctr_fill\<close>; \<open>ctr_xor\<close> is the
  exclusive or of \<open>blen\<close> bytes with the encrypted counter blocks, by blocks and
  then by bytes, where \<open>b_pos\<close> runs from its value on entry.
\<close>

definition BFR_BLOCKS :: nat where "BFR_BLOCKS = 8"
definition BFR_LENGTH :: nat where "BFR_LENGTH = BFR_BLOCKS * AES_BLOCK_SIZE"

fun ctr_fill :: "(byte list \<Rightarrow> byte list) \<Rightarrow> nat \<Rightarrow> byte list \<Rightarrow> byte list \<times> byte list" where
  "ctr_fill ctr_inc 0 cbuf = ([], cbuf)"
| "ctr_fill ctr_inc (Suc n) cbuf =
    (case ctr_fill ctr_inc n (ctr_inc cbuf) of (buf, cbuf') \<Rightarrow> (cbuf @ buf, cbuf'))"

fun ctr_xor_blocks :: "bool \<Rightarrow> nat \<Rightarrow> byte list \<Rightarrow> byte list \<Rightarrow> byte list" where
  "ctr_xor_blocks al 0 ibuf ip = []"
| "ctr_xor_blocks al (Suc n) ibuf ip =
    xor_block al (take 16 ibuf) (take 16 ip) @ ctr_xor_blocks al n (drop 16 ibuf) (drop 16 ip)"

definition ctr_xor_bytes :: "nat \<Rightarrow> byte list \<Rightarrow> byte list \<Rightarrow> byte list" where
  "ctr_xor_bytes b_pos ibuf ip = map (\<lambda>i. ibuf ! i XOR ip ! (b_pos + i)) [0..<length ibuf]"

function ctr_loop ::
  "bool \<Rightarrow> (byte list \<Rightarrow> byte list) \<Rightarrow> (byte list \<Rightarrow> aes_return \<times> byte list) \<Rightarrow> nat \<Rightarrow> byte list \<Rightarrow> byte list \<Rightarrow>
   aes_return \<times> nat \<times> byte list \<times> byte list" where
  "ctr_loop al ctr_inc ecb b_pos cbuf ibuf =
    (if ibuf = [] then (EXIT_SUCCESS, b_pos, cbuf, [])
     else
       let blen = min (length ibuf) BFR_LENGTH;
           n = blen div 16; m = blen mod 16;
           (buf, cbuf) = ctr_fill ctr_inc n cbuf;
           buf = (if m \<noteq> 0 then buf @ cbuf else buf)
       in case ecb buf of
            (EXIT_FAILURE, _) \<Rightarrow> (EXIT_FAILURE, b_pos, cbuf, [])
          | (EXIT_SUCCESS, buf) \<Rightarrow>
              (let out = ctr_xor_blocks al n (take (16 * n) ibuf) buf;
                   out = out @ ctr_xor_bytes b_pos (take m (drop (16 * n) ibuf)) (drop (16 * n) buf)
               in case ctr_loop al ctr_inc ecb (b_pos + m) cbuf (drop blen ibuf) of
                    (r, b_pos', cbuf', out') \<Rightarrow> (r, b_pos', cbuf', out @ out')))"
  by pat_completeness auto

termination
  by (relation "measure (\<lambda>(al, ctr_inc, ecb, b_pos, cbuf, ibuf). length ibuf)")
     (auto simp: BFR_LENGTH_def BFR_BLOCKS_def AES_BLOCK_SIZE_def min_def)

declare ctr_loop.simps [simp del]

definition aes_ctr_crypt ::
  "bool \<Rightarrow> byte list \<Rightarrow> byte list \<Rightarrow> (byte list \<Rightarrow> byte list) \<Rightarrow> aes_crypt_ctx \<Rightarrow>
   aes_return \<times> byte list \<times> byte list \<times> aes_crypt_ctx" where
  "aes_ctr_crypt al ibuf cbuf ctr_inc ctx =
    (let ecb = (\<lambda>b. aes_ecb_encrypt b ctx);
         b_pos = unat (inf_b ctx ! 2);
         main = (\<lambda>b_pos cbuf ibuf out1. case ctr_loop al ctr_inc ecb b_pos cbuf ibuf of
                   (EXIT_FAILURE, _, cbuf, out) \<Rightarrow> (EXIT_FAILURE, out1 @ out, cbuf, ctx)
                 | (EXIT_SUCCESS, b_pos, cbuf, out) \<Rightarrow> (EXIT_SUCCESS, out1 @ out, cbuf, set_b2 ctx b_pos))
     in if b_pos \<noteq> 0 then
          (case ecb cbuf of
             (EXIT_FAILURE, _) \<Rightarrow> (EXIT_FAILURE, [], cbuf, ctx)
           | (EXIT_SUCCESS, buf) \<Rightarrow>
               (let n = min (16 - b_pos) (length ibuf);
                    out1 = ctr_xor_bytes b_pos (take n ibuf) buf;
                    ibuf = drop n ibuf; b_pos = b_pos + n
                in if ibuf \<noteq> [] then main 0 (ctr_inc cbuf) ibuf out1 else main b_pos cbuf ibuf out1))
        else main b_pos cbuf ibuf [])"

subsection \<open>The block cipher interface\<close>

text \<open>
  What a mode needs of the block functions: on a keyed context they succeed
  and compute a permutation of 16-byte blocks and its inverse.
\<close>

locale block_cipher =
  fixes keyed_e :: "'k \<Rightarrow> 'e \<Rightarrow> bool" and keyed_d :: "'k \<Rightarrow> 'd \<Rightarrow> bool"
    and enc :: "byte list \<Rightarrow> 'e \<Rightarrow> byte list option" and dec :: "byte list \<Rightarrow> 'd \<Rightarrow> byte list option"
    and E :: "'k \<Rightarrow> byte list \<Rightarrow> byte list" and D :: "'k \<Rightarrow> byte list \<Rightarrow> byte list"
  assumes enc_E: "keyed_e k c \<Longrightarrow> length b = 16 \<Longrightarrow> enc b c = Some (E k b)"
    and dec_D: "keyed_d k d \<Longrightarrow> length b = 16 \<Longrightarrow> dec b d = Some (D k b)"
    and length_E: "keyed_e k c \<Longrightarrow> length b = 16 \<Longrightarrow> length (E k b) = 16"
    and length_D: "keyed_d k d \<Longrightarrow> length b = 16 \<Longrightarrow> length (D k b) = 16"
    and D_E: "keyed_d k d \<Longrightarrow> length b = 16 \<Longrightarrow> D k (E k b) = b"

text \<open>The modes over a function on blocks (NIST SP 800-38A), the input being \<open>n\<close> blocks.\<close>

fun ecb_spec :: "(byte list \<Rightarrow> byte list) \<Rightarrow> nat \<Rightarrow> byte list \<Rightarrow> byte list" where
  "ecb_spec F 0 p = []"
| "ecb_spec F (Suc n) p = F (take 16 p) @ ecb_spec F n (drop 16 p)"

fun cbc_enc_spec :: "(byte list \<Rightarrow> byte list) \<Rightarrow> nat \<Rightarrow> byte list \<Rightarrow> byte list \<Rightarrow> byte list \<times> byte list" where
  "cbc_enc_spec F 0 p iv = ([], iv)"
| "cbc_enc_spec F (Suc n) p iv =
    (let c = F (xor_bytes (take 16 p) iv); r = cbc_enc_spec F n (drop 16 p) c in (c @ fst r, snd r))"

fun cbc_dec_spec :: "(byte list \<Rightarrow> byte list) \<Rightarrow> nat \<Rightarrow> byte list \<Rightarrow> byte list \<Rightarrow> byte list \<times> byte list" where
  "cbc_dec_spec G 0 c iv = ([], iv)"
| "cbc_dec_spec G (Suc n) c iv =
    (let p = xor_bytes (G (take 16 c)) iv; r = cbc_dec_spec G n (drop 16 c) (take 16 c) in (p @ fst r, snd r))"

text \<open>
  CFB with 8-bit segments grouped in blocks, and OFB: one byte at a time; the
  state is the position in the block and the block. CTR: the state is the
  position and the counter block.
\<close>

fun stream_spec ::
  "(byte list \<Rightarrow> byte list) \<Rightarrow> byte_op \<Rightarrow> nat \<times> byte list \<Rightarrow> byte list \<Rightarrow> byte list \<times> nat \<times> byte list" where
  "stream_spec F opb (pos, iv) [] = ([], pos, iv)"
| "stream_spec F opb (pos, iv) (x # xs) =
    (let iv = if pos = 0 then F iv else iv;
         yv = opb (iv ! pos) x;
         r = stream_spec F opb ((pos + 1) mod 16, iv[pos := snd yv]) xs
     in (fst yv # fst r, snd r))"

fun ctr_spec ::
  "(byte list \<Rightarrow> byte list) \<Rightarrow> (byte list \<Rightarrow> byte list) \<Rightarrow> nat \<times> byte list \<Rightarrow> byte list \<Rightarrow> byte list \<times> nat \<times> byte list" where
  "ctr_spec F inc (pos, cbuf) [] = ([], pos, cbuf)"
| "ctr_spec F inc (pos, cbuf) (x # xs) =
    (let r = ctr_spec F inc (if pos = 15 then (0, inc cbuf) else (pos + 1, cbuf)) xs
     in ((x XOR F cbuf ! pos) # fst r, snd r))"

subsection \<open>Words and bytes\<close>

lemma length_xor_block [simp]: "length (xor_block al a b) = 16"
  by (simp add: xor_block_def xor_block_words_def xor_block_bytes_def)

lemma xor_block: "length a = 16 \<Longrightarrow> length b = 16 \<Longrightarrow> xor_block al a b = xor_bytes a b"
  by (erule list16_exhaust, erule list16_exhaust)
     (simp add: xor_block_def xor_block_words_def xor_block_bytes_def word_out_byte_of upt16)

definition bytewise :: "byte_op \<Rightarrow> word_op \<Rightarrow> bool" where
  "bytewise opb opw \<longleftrightarrow> (\<forall>a b i.
     byte_of (fst (opw a b)) i = fst (opb (byte_of a i) (byte_of b i)) \<and>
     byte_of (snd (opw a b)) i = snd (opb (byte_of a i) (byte_of b i)))"

lemma bytewise_ops:
  "bytewise cfb_enc_op cfb_enc_op" "bytewise cfb_dec_op cfb_dec_op" "bytewise ofb_op ofb_op"
  by (simp_all add: bytewise_def cfb_enc_op_def cfb_dec_op_def ofb_op_def Let_def xor.commute)

lemma block_op_words:
  "bytewise opb opw \<Longrightarrow> length iv = 16 \<Longrightarrow> length ib = 16 \<Longrightarrow>
   block_op_words opw iv ib = block_op_bytes opb iv ib"
  by (erule list16_exhaust, erule list16_exhaust)
     (simp add: block_op_words_def block_op_bytes_def word_out_byte_of upt16 bytewise_def)

subsection \<open>ECB and CBC\<close>

lemma mult16_SucE:
  assumes "length xs = 16 * Suc n"
  obtains "length (take 16 xs) = 16" "length (drop 16 xs) = 16 * n"
  using assms by simp

context block_cipher
begin

lemma ecb_enc: "keyed_e k c \<Longrightarrow> length p = 16 * n \<Longrightarrow>
    ecb_loop (\<lambda>b. enc b c) n p = (EXIT_SUCCESS, ecb_spec (E k) n p)"
  by (induction n arbitrary: p) (simp_all add: enc_E)

lemma ecb_dec: "keyed_d k d \<Longrightarrow> length p = 16 * n \<Longrightarrow>
    ecb_loop (\<lambda>b. dec b d) n p = (EXIT_SUCCESS, ecb_spec (D k) n p)"
  by (induction n arbitrary: p) (simp_all add: dec_D)

lemma length_ecb_spec: "keyed_e k c \<Longrightarrow> length p = 16 * n \<Longrightarrow> length (ecb_spec (E k) n p) = 16 * n"
  by (induction n arbitrary: p) (simp_all add: length_E)

lemma ecb_inverse: "keyed_e k c \<Longrightarrow> keyed_d k d \<Longrightarrow> length p = 16 * n \<Longrightarrow>
    ecb_spec (D k) n (ecb_spec (E k) n p) = p"
  by (induction n arbitrary: p) (simp_all add: length_E D_E)

lemma cbc_enc: "keyed_e k c \<Longrightarrow> length iv = 16 \<Longrightarrow> length p = 16 * n \<Longrightarrow>
    cbc_encrypt_loop al (\<lambda>b. enc b c) n p iv =
      (EXIT_SUCCESS, fst (cbc_enc_spec (E k) n p iv), snd (cbc_enc_spec (E k) n p iv))"
  by (induction n arbitrary: p iv)
     (simp_all add: enc_E length_E xor_block xor_bytes_commute [of iv for iv] Let_def case_prod_beta)

lemma cbc_dec: "keyed_d k d \<Longrightarrow> length iv = 16 \<Longrightarrow> length c = 16 * n \<Longrightarrow>
    cbc_decrypt_loop al (\<lambda>b. dec b d) n c iv =
      (EXIT_SUCCESS, fst (cbc_dec_spec (D k) n c iv), snd (cbc_dec_spec (D k) n c iv))"
  by (induction n arbitrary: c iv) (simp_all add: dec_D length_D xor_block Let_def case_prod_beta)

lemma length_cbc_spec: "keyed_e k c \<Longrightarrow> length iv = 16 \<Longrightarrow> length p = 16 * n \<Longrightarrow>
    length (fst (cbc_enc_spec (E k) n p iv)) = 16 * n \<and> length (snd (cbc_enc_spec (E k) n p iv)) = 16"
  by (induction n arbitrary: p iv) (simp_all add: Let_def length_E)

lemma cbc_inverse: "keyed_e k c \<Longrightarrow> keyed_d k d \<Longrightarrow> length iv = 16 \<Longrightarrow> length p = 16 * n \<Longrightarrow>
    cbc_dec_spec (D k) n (fst (cbc_enc_spec (E k) n p iv)) iv = (p, snd (cbc_enc_spec (E k) n p iv))"
  by (induction n arbitrary: p iv)
     (simp_all add: Let_def length_E D_E xor_bytes_cancel)

end

subsection \<open>CFB and OFB against the byte-wise machine\<close>

lemma stream_spec_append:
  "stream_spec F opb st (xs @ ys) =
    (fst (stream_spec F opb st xs) @ fst (stream_spec F opb (snd (stream_spec F opb st xs)) ys),
     snd (stream_spec F opb (snd (stream_spec F opb st xs)) ys))"
  by (induction xs arbitrary: st) (auto simp: Let_def)

lemma length_stream_spec [simp]: "length (fst (stream_spec F opb st xs)) = length xs"
  by (induction xs arbitrary: st) (auto simp: Let_def)

text \<open>A run of the byte loop that starts inside a block ends in it, at its end or at the end of the input.\<close>

lemma stream_bytes_spec:
  assumes "0 < pos" "pos \<le> 16"
  shows "stream_bytes opb pos iv xs =
    (let n = min (16 - pos) (length xs); r = stream_spec F opb (pos mod 16, iv) (take n xs)
     in (pos + n, snd (snd r), fst r, drop n xs)) \<and>
    fst (snd (stream_spec F opb (pos mod 16, iv) (take (min (16 - pos) (length xs)) xs))) =
      (pos + min (16 - pos) (length xs)) mod 16"
  using assms
proof (induction xs arbitrary: pos iv)
  case (Cons x xs)
  show ?case
  proof (cases "pos = 16")
    case True
    then show ?thesis by (simp add: AES_BLOCK_SIZE_def)
  next
    case False
    then have p: "pos < 16" "16 - pos = Suc (15 - pos)" using Cons.prems by auto
    then have m: "min (16 - pos) (length (x # xs)) = Suc (min (16 - Suc pos) (length xs))" by simp
    let ?iv = "iv[pos := snd (opb (iv ! pos) x)]"
    have ih: "stream_bytes opb (Suc pos) ?iv xs =
        (let n = min (16 - Suc pos) (length xs); r = stream_spec F opb (Suc pos mod 16, ?iv) (take n xs)
         in (Suc pos + n, snd (snd r), fst r, drop n xs))"
      "fst (snd (stream_spec F opb (Suc pos mod 16, ?iv) (take (min (16 - Suc pos) (length xs)) xs))) =
        (Suc pos + min (16 - Suc pos) (length xs)) mod 16"
      using Cons.IH [of "Suc pos" ?iv] p by auto
    have st: "pos mod 16 = pos" "pos \<noteq> 0" using p Cons.prems by simp_all
    show ?thesis
      unfolding m using p ih Cons.prems
      by (simp add: AES_BLOCK_SIZE_def Let_def case_prod_beta st)
  qed
qed (simp add: AES_BLOCK_SIZE_def)

lemma stream_block_spec:
  assumes "length (F iv) = 16" "length ib = 16"
  shows "stream_spec F opb (0, iv) ib =
    (fst (block_op_bytes opb (F iv) ib), 0, snd (block_op_bytes opb (F iv) ib))"
proof -
  obtain a0 a1 a2 a3 a4 a5 a6 a7 a8 a9 a10 a11 a12 a13 a14 a15
    where a: "F iv = [a0, a1, a2, a3, a4, a5, a6, a7, a8, a9, a10, a11, a12, a13, a14, a15]"
    using assms(1) by (rule list16_exhaust)
  show ?thesis using assms(2)
    by (elim list16_exhaust) (simp add: block_op_bytes_def upt16 a Let_def)
qed

lemma length_block_op_bytes [simp]:
  "length (fst (block_op_bytes opb a b)) = 16" "length (snd (block_op_bytes opb a b)) = 16"
  by (simp_all add: block_op_bytes_def)

lemma stream_blocks_spec:
  assumes f: "\<And>b. length b = 16 \<Longrightarrow> f b = Some (F b)" "\<And>b. length b = 16 \<Longrightarrow> length (F b) = 16"
    and blk: "\<And>a b. length a = 16 \<Longrightarrow> length b = 16 \<Longrightarrow> blk a b = block_op_bytes opb a b"
  shows "length iv = 16 \<Longrightarrow> length ibuf div 16 = n \<Longrightarrow>
    \<exists>iv'. stream_spec F opb (0, iv) (take (16 * n) ibuf) =
        (fst (stream_spec F opb (0, iv) (take (16 * n) ibuf)), 0, iv') \<and> length iv' = 16 \<and>
      stream_blocks blk f iv ibuf =
        (EXIT_SUCCESS, iv', fst (stream_spec F opb (0, iv) (take (16 * n) ibuf)), drop (16 * n) ibuf)"
proof (induction n arbitrary: iv ibuf)
  case 0
  then have "length ibuf < 16" by (simp add: div_eq_0_iff)
  then show ?case using 0 by (simp add: stream_blocks.simps)
next
  case (Suc n)
  let ?b = "block_op_bytes opb (F iv) (take 16 ibuf)"
  have l: "16 \<le> length ibuf" and n: "length (drop 16 ibuf) div 16 = n" using Suc.prems(2) by auto
  have s: "stream_spec F opb (0, iv) (take 16 ibuf) = (fst ?b, 0, snd ?b)"
    by (rule stream_block_spec) (use f Suc.prems l in simp_all)
  have t: "take (16 * Suc n) ibuf = take 16 ibuf @ take (16 * n) (drop 16 ibuf)"
    by (simp add: take_add)
  obtain iv' where iv': "stream_spec F opb (0, snd ?b) (take (16 * n) (drop 16 ibuf)) =
        (fst (stream_spec F opb (0, snd ?b) (take (16 * n) (drop 16 ibuf))), 0, iv')" "length iv' = 16"
      "stream_blocks blk f (snd ?b) (drop 16 ibuf) =
        (EXIT_SUCCESS, iv', fst (stream_spec F opb (0, snd ?b) (take (16 * n) (drop 16 ibuf))), drop (16 * n) (drop 16 ibuf))"
    using Suc.IH [OF _ n, of "snd ?b"] by auto
  have "stream_blocks blk f iv ibuf =
      (EXIT_SUCCESS, iv', fst ?b @ fst (stream_spec F opb (0, snd ?b) (take (16 * n) (drop 16 ibuf))), drop (16 * Suc n) ibuf)"
    using f Suc.prems l iv'(3) blk [of "F iv" "take 16 ibuf"]
    by (subst stream_blocks.simps) (simp add: case_prod_beta add.commute)
  moreover have "stream_spec F opb (0, iv) (take (16 * Suc n) ibuf) =
      (fst ?b @ fst (stream_spec F opb (0, snd ?b) (take (16 * n) (drop 16 ibuf))), 0, iv')"
    unfolding t stream_spec_append s using iv'(1) by (metis fst_conv snd_conv)
  ultimately show ?case using iv'(2) by simp
qed

lemma length_stream_iv:
  assumes "\<And>b. length b = 16 \<Longrightarrow> length (F b) = 16"
  shows "length iv = 16 \<Longrightarrow> length (snd (snd (stream_spec F opb (pos, iv) xs))) = 16"
  by (induction xs arbitrary: pos iv) (simp_all add: Let_def assms)

lemma stream_tail_spec:
  assumes f: "\<And>b. length b = 16 \<Longrightarrow> f b = Some (F b)" "\<And>b. length b = 16 \<Longrightarrow> length (F b) = 16"
  shows "length iv = 16 \<Longrightarrow> pos < 16 \<Longrightarrow>
    stream_tail opb f pos iv xs =
      (let r = stream_spec F opb (pos, iv) xs in Some (EXIT_SUCCESS, fst (snd r), snd (snd r), fst r))"
proof (induction "length xs" arbitrary: pos iv xs rule: less_induct)
  case less
  show ?case
  proof (cases xs)
    case Nil
    then show ?thesis by (simp add: stream_tail.simps)
  next
    case (Cons x ys)
    let ?iv = "if pos = 0 then F iv else iv"
    let ?iv1 = "?iv[pos := snd (opb (?iv ! pos) x)]"
    let ?n = "min (15 - pos) (length ys)"
    let ?r = "stream_spec F opb (Suc pos mod 16, ?iv1) (take ?n ys)"
    have iv: "length ?iv = 16" "(if pos = 0 then f iv else Some iv) = Some ?iv" using f less.prems by auto
    have p: "Suc pos \<le> 16" "16 - Suc pos = 15 - pos" using less.prems by simp_all
    have b: "stream_bytes opb (Suc pos) ?iv1 ys = (Suc pos + ?n, snd (snd ?r), fst ?r, drop ?n ys)"
      "fst (snd ?r) = (Suc pos + ?n) mod 16"
      using stream_bytes_spec [of "Suc pos" opb ?iv1 ys F] p by (auto simp: Let_def)
    have w: "wrap_pos (Suc pos + ?n) = (Suc pos + ?n) mod 16" "(Suc pos + ?n) mod 16 < 16"
      using less.prems(2) by (auto simp: wrap_pos_def AES_BLOCK_SIZE_def)
    have l: "length (snd (snd ?r)) = 16" by (rule length_stream_iv) (use f iv in simp_all)
    have ih: "stream_tail opb f (wrap_pos (Suc pos + ?n)) (snd (snd ?r)) (drop ?n ys) =
        (let r = stream_spec F opb (wrap_pos (Suc pos + ?n), snd (snd ?r)) (drop ?n ys)
         in Some (EXIT_SUCCESS, fst (snd r), snd (snd r), fst r))"
      by (rule less.hyps) (use l w Cons in \<open>simp_all add: le_imp_less_Suc\<close>)
    have "stream_spec F opb (Suc pos mod 16, ?iv1) ys =
        (let r = stream_spec F opb (snd ?r) (drop ?n ys) in (fst ?r @ fst r, snd r))"
      using stream_spec_append [of F opb "(Suc pos mod 16, ?iv1)" "take ?n ys" "drop ?n ys"]
      by (simp add: Let_def)
    then have sp: "stream_spec F opb (pos, iv) xs =
        (let r = stream_spec F opb (snd ?r) (drop ?n ys)
         in (fst (opb (?iv ! pos) x) # fst ?r @ fst r, snd r))"
      by (simp add: Cons Let_def)
    have sr: "snd ?r = (wrap_pos (Suc pos + ?n), snd (snd ?r))" using b(2) w(1) by (metis prod.collapse)
    show ?thesis
      unfolding sp using ih less.prems(2) iv(2) b(1) sr
      by (subst stream_tail.simps) (simp add: Cons AES_BLOCK_SIZE_def case_prod_beta Let_def)
  qed
qed

lemma stream_crypt_spec:
  assumes f: "\<And>b. length b = 16 \<Longrightarrow> f b = Some (F b)" "\<And>b. length b = 16 \<Longrightarrow> length (F b) = 16"
    and op: "bytewise opb opw" and iv: "length iv = 16" and pos: "pos < 16"
  shows "stream_crypt opb opw al f pos iv ibuf =
    (let r = stream_spec F opb (pos, iv) ibuf in Some (EXIT_SUCCESS, fst (snd r), snd (snd r), fst r))"
proof -
  let ?n1 = "if pos = 0 then 0 else min (16 - pos) (length ibuf)"
  let ?r1 = "stream_spec F opb (pos, iv) (take ?n1 ibuf)"
  let ?blk = "if al then block_op_words opw else block_op_bytes opb"
  let ?i2 = "drop ?n1 ibuf"
  have blk: "length a = 16 \<Longrightarrow> length b = 16 \<Longrightarrow> ?blk a b = block_op_bytes opb a b" for a b
    using block_op_words [OF op] by simp
  have s1: "(if pos \<noteq> 0 then
              (case stream_bytes opb pos iv ibuf of (b_pos, iv, out, rest) \<Rightarrow> (wrap_pos b_pos, iv, out, rest))
            else (pos, iv, [], ibuf)) = (fst (snd ?r1), snd (snd ?r1), fst ?r1, ?i2)"
  proof (cases "pos = 0")
    case False
    then have "wrap_pos (pos + ?n1) = (pos + ?n1) mod 16" using pos by (auto simp: wrap_pos_def AES_BLOCK_SIZE_def)
    then show ?thesis using stream_bytes_spec [of pos opb iv ibuf F] False pos by (simp add: Let_def)
  qed simp
  obtain o1 p v where r1: "?r1 = (o1, p, v)" by (cases ?r1)
  have l1: "length v = 16" using length_stream_iv [of F iv opb pos "take ?n1 ibuf"] f iv r1 by simp
  have p1: "p < 16 \<and> (length ?i2 div 16 \<noteq> 0 \<longrightarrow> p = 0)"
    using stream_bytes_spec [of pos opb iv ibuf F] pos r1 by (auto simp: min_def split: if_splits)
  let ?n2 = "16 * (length ?i2 div 16)"
  obtain o2 w where r2: "stream_spec F opb (p, v) (take ?n2 ?i2) = (o2, p, w)" "length w = 16"
    "(if length ?i2 div 16 \<noteq> 0 then stream_blocks ?blk f v ?i2 else (EXIT_SUCCESS, v, [], ?i2)) =
       (EXIT_SUCCESS, w, o2, drop ?n2 ?i2)"
  proof (cases "length ?i2 div 16 = 0")
    case True
    then show ?thesis using that [of "[]" v] l1 by simp
  next
    case False
    with p1 have "p = 0" by simp
    with stream_blocks_spec [of f F ?blk opb, OF f blk l1 refl, of ?i2] False that show ?thesis
      by (metis (no_types, lifting))
  qed
  obtain o3 p3 u where r3: "stream_spec F opb (p, w) (drop ?n2 ?i2) = (o3, p3, u)"
    by (cases "stream_spec F opb (p, w) (drop ?n2 ?i2)")
  have s3: "stream_tail opb f p w (drop ?n2 ?i2) = Some (EXIT_SUCCESS, p3, u, o3)"
    using stream_tail_spec [of f F w p opb "drop ?n2 ?i2", OF f r2(2)] p1
    unfolding r3 Let_def fst_conv snd_conv by blast
  have "stream_spec F opb (pos, iv) ibuf = (o1 @ o2 @ o3, p3, u)"
    using stream_spec_append [of F opb "(pos, iv)" "take ?n1 ibuf" ?i2]
      stream_spec_append [of F opb "(p, v)" "take ?n2 ?i2" "drop ?n2 ?i2"]
    by (simp only: append_take_drop_id r1 r2(1) r3 fst_conv snd_conv)
  then show ?thesis
    unfolding stream_crypt_def s1 Let_def r1 fst_conv snd_conv prod.case r2(3) s3 by simp
qed

subsection \<open>CTR against the byte-wise machine\<close>

lemma ctr_spec_append:
  "ctr_spec F inc st (xs @ ys) =
    (fst (ctr_spec F inc st xs) @ fst (ctr_spec F inc (snd (ctr_spec F inc st xs)) ys),
     snd (ctr_spec F inc (snd (ctr_spec F inc st xs)) ys))"
  by (induction xs arbitrary: st) (auto simp: Let_def)

lemma ctr_spec_Nil [simp]: "ctr_spec F inc st [] = ([], st)"
  by (cases st) simp

lemma length_ctr_spec [simp]: "length (fst (ctr_spec F inc st xs)) = length xs"
  by (induction xs arbitrary: st) (auto simp: Let_def)

text \<open>Bytes within one block.\<close>

lemma ctr_spec_bytes:
  "pos + length xs \<le> 16 \<Longrightarrow> pos < 16 \<Longrightarrow>
    ctr_spec F inc (pos, cbuf) xs =
      (ctr_xor_bytes pos xs (F cbuf),
       if pos + length xs = 16 then (0, inc cbuf) else (pos + length xs, cbuf))"
proof (induction xs arbitrary: pos)
  case (Cons x xs)
  have c: "ctr_xor_bytes pos (x # xs) k = (x XOR k ! pos) # ctr_xor_bytes (Suc pos) xs k" for k
    unfolding ctr_xor_bytes_def length_Cons upt_conv_Cons [OF zero_less_Suc] map_Suc_upt [symmetric]
    by simp
  show ?case
  proof (cases "pos = 15")
    case True
    then show ?thesis using Cons.prems by (simp add: c) (simp add: ctr_xor_bytes_def)
  next
    case False
    then show ?thesis using Cons.IH [of "Suc pos"] Cons.prems by (simp add: c)
  qed
qed (simp add: ctr_xor_bytes_def)

lemma ctr_xor_bytes_block: "length xs = 16 \<Longrightarrow> length zs = 16 \<Longrightarrow> ctr_xor_bytes 0 xs zs = xor_bytes xs zs"
  by (simp add: ctr_xor_bytes_def xor_bytes_def list_eq_iff_nth_eq)

text \<open>The counter blocks that are laid out, and the whole blocks encrypted with them.\<close>

lemma ctr_fill_iterate:
  "ctr_fill inc n cbuf = (concat (map (\<lambda>i. (inc ^^ i) cbuf) [0..<n]), (inc ^^ n) cbuf)"
  by (induction n arbitrary: cbuf)
     (simp_all add: upt_conv_Cons map_Suc_upt [symmetric] o_def funpow_swap1 del: upt_Suc)

lemma ctr_blocks_spec:
  assumes F: "\<And>b. length b = 16 \<Longrightarrow> length (F b) = 16"
    and inc: "\<And>b. length b = 16 \<Longrightarrow> length (inc b) = 16"
  shows "length cbuf = 16 \<Longrightarrow> length xs = 16 * n \<Longrightarrow>
    ctr_spec F inc (0, cbuf) xs = (ctr_xor_blocks al n xs (ecb_spec F n (fst (ctr_fill inc n cbuf)) @ ys), 0, (inc ^^ n) cbuf)"
proof (induction n arbitrary: cbuf xs)
  case (Suc n)
  have x: "xs = take 16 xs @ drop 16 xs" by simp
  have b: "ctr_spec F inc (0, cbuf) (take 16 xs) = (xor_bytes (take 16 xs) (F cbuf), 0, inc cbuf)"
    using ctr_spec_bytes [of 0 "take 16 xs" F inc cbuf] Suc.prems F by (simp add: ctr_xor_bytes_block)
  show ?case
    by (subst x, subst ctr_spec_append)
       (use Suc F inc in \<open>simp add: b xor_block case_prod_beta funpow_swap1\<close>)
qed simp

lemma length_ctr_fill:
  assumes "\<And>b. length b = 16 \<Longrightarrow> length (inc b) = 16"
  shows "length cbuf = 16 \<Longrightarrow> length (fst (ctr_fill inc n cbuf)) = 16 * n \<and> length (snd (ctr_fill inc n cbuf)) = 16"
  by (induction n arbitrary: cbuf) (simp_all add: case_prod_beta assms)

lemma ecb_spec_append: "length xs = 16 * n \<Longrightarrow> ecb_spec F (n + m) (xs @ ys) = ecb_spec F n xs @ ecb_spec F m ys"
  by (induction n arbitrary: xs) simp_all

lemma length_ecb_map:
  "(\<And>b. length b = 16 \<Longrightarrow> length (F b) = 16) \<Longrightarrow> length xs = 16 * n \<Longrightarrow> length (ecb_spec F n xs) = 16 * n"
  by (induction n arbitrary: xs) simp_all

text \<open>One pass of the loop: \<open>n\<close> whole blocks and \<open>m\<close> bytes of the next.\<close>

lemma ctr_chunk_spec:
  fixes n m :: nat
  assumes F: "\<And>b. length b = 16 \<Longrightarrow> length (F b) = 16"
    and inc: "\<And>b. length b = 16 \<Longrightarrow> length (inc b) = 16"
    and cbuf: "length cbuf = 16" and xs: "length xs = 16 * n" and ys: "length ys = m" "m < 16"
    and buf: "buf = (if m \<noteq> 0 then fst (ctr_fill inc n cbuf) @ (inc ^^ n) cbuf else fst (ctr_fill inc n cbuf))"
    and c: "c = (if m \<noteq> 0 then Suc n else n)"
  shows "length buf = 16 * c" "length ((inc ^^ n) cbuf) = 16"
    and "ctr_spec F inc (0, cbuf) (xs @ ys) =
      (ctr_xor_blocks al n xs (ecb_spec F c buf) @ ctr_xor_bytes 0 ys (drop (16 * n) (ecb_spec F c buf)), m, (inc ^^ n) cbuf)"
proof -
  obtain full where full: "full = fst (ctr_fill inc n cbuf)" by simp
  have l: "length full = 16 * n" "length ((inc ^^ n) cbuf) = 16"
    using length_ctr_fill [of inc, OF inc cbuf, of n] by (simp_all add: full ctr_fill_iterate)
  show "length ((inc ^^ n) cbuf) = 16" by (rule l)
  show "length buf = 16 * c" using l by (simp add: buf c full)
  have k: "ecb_spec F c buf = ecb_spec F n full @ (if m \<noteq> 0 then F ((inc ^^ n) cbuf) else [])"
    using ecb_spec_append [OF l(1), of F 1 "(inc ^^ n) cbuf"] l by (simp add: buf c full)
  have kl: "length (ecb_spec F n full) = 16 * n" by (rule length_ecb_map) (use F l in simp_all)
  have b1: "ctr_spec F inc (0, cbuf) xs = (ctr_xor_blocks al n xs (ecb_spec F c buf), 0, (inc ^^ n) cbuf)"
    unfolding k full by (rule ctr_blocks_spec) (use F inc cbuf xs in simp_all)
  have b2: "ctr_spec F inc (0, (inc ^^ n) cbuf) ys =
      (ctr_xor_bytes 0 ys (drop (16 * n) (ecb_spec F c buf)), m, (inc ^^ n) cbuf)"
  proof (cases "m = 0")
    case False
    then have "drop (16 * n) (ecb_spec F c buf) = F ((inc ^^ n) cbuf)" unfolding k by (simp add: kl)
    then show ?thesis using ctr_spec_bytes [of 0 ys F inc "(inc ^^ n) cbuf"] ys by simp
  qed (use ys in \<open>simp add: ctr_xor_bytes_def\<close>)
  show "ctr_spec F inc (0, cbuf) (xs @ ys) =
      (ctr_xor_blocks al n xs (ecb_spec F c buf) @ ctr_xor_bytes 0 ys (drop (16 * n) (ecb_spec F c buf)), m, (inc ^^ n) cbuf)"
    unfolding ctr_spec_append b1 fst_conv snd_conv b2 ..
qed

lemma ctr_loop_spec:
  assumes F: "\<And>b. length b = 16 \<Longrightarrow> length (F b) = 16"
    and inc: "\<And>b. length b = 16 \<Longrightarrow> length (inc b) = 16"
    and ecb: "\<And>b n. length b = 16 * n \<Longrightarrow> ecb b = (EXIT_SUCCESS, ecb_spec F n b)"
  shows "length cbuf = 16 \<Longrightarrow>
    ctr_loop al inc ecb 0 cbuf ibuf =
      (let r = ctr_spec F inc (0, cbuf) ibuf in (EXIT_SUCCESS, fst (snd r), snd (snd r), fst r))"
proof (induction "length ibuf" arbitrary: cbuf ibuf rule: less_induct)
  case less
  show ?case
  proof (cases "ibuf = []")
    case True
    then show ?thesis by (simp add: ctr_loop.simps)
  next
    case False
    obtain blen where blen: "blen = min (length ibuf) BFR_LENGTH" by simp
    obtain n m where nm: "n = blen div 16" "m = blen mod 16" by simp
    have sum: "16 * n + m = blen" "m < 16" "blen \<le> length ibuf" by (simp_all add: nm blen)
    let ?xs = "take (16 * n) ibuf" and ?ys = "take m (drop (16 * n) ibuf)"
    obtain buf where buf: "buf = (if m \<noteq> 0 then fst (ctr_fill inc n cbuf) @ (inc ^^ n) cbuf else fst (ctr_fill inc n cbuf))"
      by simp
    obtain c where c: "c = (if m \<noteq> 0 then Suc n else n)" by simp
    have l: "length ?xs = 16 * n" "length ?ys = m" using sum by simp_all
    note ch = ctr_chunk_spec [OF F inc less.prems l sum(2) buf c]
    have t: "ibuf = (?xs @ ?ys) @ drop blen ibuf"
      using sum(1) by (metis append.assoc append_take_drop_id drop_drop add.commute)
    let ?r = "ctr_spec F inc (m, (inc ^^ n) cbuf) (drop blen ibuf)"
    have rec: "ctr_loop al inc ecb m ((inc ^^ n) cbuf) (drop blen ibuf) =
        (EXIT_SUCCESS, fst (snd ?r), snd (snd ?r), fst ?r)"
    proof (cases "m = 0")
      case True
      have "0 < blen" using False by (simp add: blen BFR_LENGTH_def BFR_BLOCKS_def AES_BLOCK_SIZE_def)
      then have "length (drop blen ibuf) < length ibuf" using sum(3) by simp
      from less.hyps [OF this ch(2)] True show ?thesis by (simp add: Let_def)
    next
      case False
      have "blen \<noteq> BFR_LENGTH" using False by (auto simp: nm BFR_LENGTH_def BFR_BLOCKS_def AES_BLOCK_SIZE_def)
      then have "drop blen ibuf = []" by (simp add: blen min_def split: if_splits)
      then show ?thesis by (simp add: ctr_loop.simps)
    qed
    have sp: "ctr_spec F inc (0, cbuf) ibuf =
        ((ctr_xor_blocks al n ?xs (ecb_spec F c buf) @ ctr_xor_bytes 0 ?ys (drop (16 * n) (ecb_spec F c buf))) @ fst ?r, snd ?r)"
      by (subst t) (simp only: ctr_spec_append [of _ _ _ "?xs @ ?ys"] ch(3) [where al = al] fst_conv snd_conv)
    have fill: "ctr_fill inc n cbuf = (fst (ctr_fill inc n cbuf), (inc ^^ n) cbuf)"
      by (simp add: ctr_fill_iterate)
    show ?thesis
      unfolding sp
      apply (subst ctr_loop.simps)
      apply (subst if_not_P [OF False])
      unfolding Let_def blen [symmetric] nm [symmetric]
      apply (subst fill)
      unfolding prod.case buf [symmetric] add_0 rec
      by (simp add: ecb [OF ch(1)])
  qed
qed

subsection \<open>The modes on the contexts of AES\<close>

interpretation aes: block_cipher enc_keyed "dec_keyed rd" aes_encrypt "aes_decrypt rd" aes_cipher aes_inv_cipher
  for rd
proof unfold_locales
  fix k c d and b :: "byte list"
  assume b: "length b = 16"
  show "enc_keyed k c \<Longrightarrow> aes_encrypt b c = Some (aes_cipher k b)"
    by (rule aes_encrypt_ctx) (use b in simp_all)
  show "dec_keyed rd k d \<Longrightarrow> aes_decrypt rd b d = Some (aes_inv_cipher k b)"
    by (rule aes_decrypt_ctx) (use b in simp_all)
  show "enc_keyed k c \<Longrightarrow> length (aes_cipher k b) = 16" by (simp add: enc_keyed_def del: insert_iff)
  show "dec_keyed rd k d \<Longrightarrow> length (aes_inv_cipher k b) = 16" by (simp add: dec_keyed_def del: insert_iff)
  show "dec_keyed rd k d \<Longrightarrow> aes_inv_cipher k (aes_cipher k b) = b"
    by (rule aes_inv_cipher_cipher) (use b in \<open>simp_all add: dec_keyed_def\<close>)
qed

lemma set_b2:
  "enc_keyed key (set_b2 ctx n) \<longleftrightarrow> enc_keyed key ctx" "set_b2 (set_b2 ctx m) n = set_b2 ctx n"
  "enc_keyed key ctx \<Longrightarrow> n < 256 \<Longrightarrow> unat (inf_b (set_b2 ctx n) ! 2) = n"
  by (simp_all add: set_b2_def enc_keyed_def unat_of_nat)

lemma ecb_encrypt_ctx:
  assumes "enc_keyed key ctx" "length p mod 16 = 0"
  shows "aes_ecb_encrypt p ctx = (EXIT_SUCCESS, ecb_spec (aes_cipher key) (length p div 16) p)"
  using assms(2) aes.ecb_enc [OF assms(1), of p "length p div 16"] mult_div_mod_eq [of 16 "length p"]
  by (simp add: aes_ecb_encrypt_def)

lemma ecb_decrypt_ctx:
  assumes "dec_keyed rd key ctx" "length p mod 16 = 0"
  shows "aes_ecb_decrypt rd p ctx = (EXIT_SUCCESS, ecb_spec (aes_inv_cipher key) (length p div 16) p)"
  using assms(2) aes.ecb_dec [OF assms(1), of p "length p div 16"] mult_div_mod_eq [of 16 "length p"]
  by (simp add: aes_ecb_decrypt_def)

lemma stream_pos_less: "pos < 16 \<Longrightarrow> fst (snd (stream_spec F opb (pos, iv) xs)) < 16"
  by (induction xs arbitrary: pos iv) (simp_all add: Let_def)

lemma stream_crypt_ctx:
  assumes "enc_keyed key ctx" "length iv = 16" "unat (inf_b ctx ! 2) < 16"
  shows "aes_cfb_encrypt a b c p iv ctx =
      (let r = stream_spec (aes_cipher key) cfb_enc_op (unat (inf_b ctx ! 2), iv) p
       in Some (EXIT_SUCCESS, fst r, snd (snd r), set_b2 ctx (fst (snd r))))"
    and "aes_cfb_decrypt a b c p iv ctx =
      (let r = stream_spec (aes_cipher key) cfb_dec_op (unat (inf_b ctx ! 2), iv) p
       in Some (EXIT_SUCCESS, fst r, snd (snd r), set_b2 ctx (fst (snd r))))"
    and "aes_ofb_crypt a b c p iv ctx =
      (let r = stream_spec (aes_cipher key) ofb_op (unat (inf_b ctx ! 2), iv) p
       in Some (EXIT_SUCCESS, fst r, snd (snd r), set_b2 ctx (fst (snd r))))"
proof -
  have f: "length b = 16 \<Longrightarrow> aes_encrypt b ctx = Some (aes_cipher key b)"
    "length b = 16 \<Longrightarrow> length (aes_cipher key b) = 16" for b
    using aes.enc_E [OF assms(1)] aes.length_E [OF assms(1)] by auto
  note s = stream_crypt_spec [where f = "\<lambda>b. aes_encrypt b ctx", OF f _ assms(2,3)]
  show "aes_cfb_encrypt a b c p iv ctx =
      (let r = stream_spec (aes_cipher key) cfb_enc_op (unat (inf_b ctx ! 2), iv) p
       in Some (EXIT_SUCCESS, fst r, snd (snd r), set_b2 ctx (fst (snd r))))"
    by (simp add: aes_cfb_encrypt_def s [OF _ _ bytewise_ops(1)] Let_def)
  show "aes_cfb_decrypt a b c p iv ctx =
      (let r = stream_spec (aes_cipher key) cfb_dec_op (unat (inf_b ctx ! 2), iv) p
       in Some (EXIT_SUCCESS, fst r, snd (snd r), set_b2 ctx (fst (snd r))))"
    by (simp add: aes_cfb_decrypt_def s [OF _ _ bytewise_ops(2)] Let_def)
  show "aes_ofb_crypt a b c p iv ctx =
      (let r = stream_spec (aes_cipher key) ofb_op (unat (inf_b ctx ! 2), iv) p
       in Some (EXIT_SUCCESS, fst r, snd (snd r), set_b2 ctx (fst (snd r))))"
    by (simp add: aes_ofb_crypt_def s [OF _ _ bytewise_ops(3)] Let_def)
qed

lemma cfb_dec_enc:
  "stream_spec F cfb_dec_op st (fst (stream_spec F cfb_enc_op st p)) = (p, snd (stream_spec F cfb_enc_op st p))"
  by (induction p arbitrary: st) (auto simp: Let_def cfb_enc_op_def cfb_dec_op_def xor_ac)

lemma ofb_twice:
  "stream_spec F ofb_op st (fst (stream_spec F ofb_op st p)) = (p, snd (stream_spec F ofb_op st p))"
  by (induction p arbitrary: st) (auto simp: Let_def ofb_op_def)

lemma ctr_twice:
  "ctr_spec F inc st (fst (ctr_spec F inc st p)) = (p, snd (ctr_spec F inc st p))"
  by (induction p arbitrary: st) (auto simp: Let_def xor.assoc)

text \<open>
  \<open>aes_ctr_crypt\<close> may leave \<open>b_pos\<close> at the block size, with the counter not
  stepped yet; \<open>ctr_abs\<close> is the state that stands for.
\<close>

definition ctr_abs :: "(byte list \<Rightarrow> byte list) \<Rightarrow> nat \<Rightarrow> byte list \<Rightarrow> nat \<times> byte list" where
  "ctr_abs inc pos cbuf = (if pos = 16 then (0, inc cbuf) else (pos, cbuf))"

lemma ctr_state:
  assumes "\<And>b. length b = 16 \<Longrightarrow> length (inc b) = 16"
  shows "length cbuf = 16 \<Longrightarrow> pos < 16 \<Longrightarrow>
    fst (snd (ctr_spec F inc (pos, cbuf) xs)) < 16 \<and> length (snd (snd (ctr_spec F inc (pos, cbuf) xs))) = 16"
  by (induction xs arbitrary: pos cbuf) (simp_all add: Let_def assms)

lemma ctr_crypt_ctx:
  assumes ctx: "enc_keyed key ctx" and cbuf: "length cbuf = 16" and pos: "unat (inf_b ctx ! 2) \<le> 16"
    and inc: "\<And>b. length b = 16 \<Longrightarrow> length (inc b) = 16"
  shows "\<exists>pos' cbuf'. aes_ctr_crypt al p cbuf inc ctx =
      (EXIT_SUCCESS, fst (ctr_spec (aes_cipher key) inc (ctr_abs inc (unat (inf_b ctx ! 2)) cbuf) p), cbuf', set_b2 ctx pos') \<and>
      pos' \<le> 16 \<and> length cbuf' = 16 \<and>
      ctr_abs inc pos' cbuf' = snd (ctr_spec (aes_cipher key) inc (ctr_abs inc (unat (inf_b ctx ! 2)) cbuf) p)"
proof -
  let ?F = "aes_cipher key" and ?ecb = "\<lambda>b. aes_ecb_encrypt b ctx" and ?pos = "unat (inf_b ctx ! 2)"
  have F: "length b = 16 \<Longrightarrow> length (?F b) = 16" for b using aes.length_E [OF ctx] by auto
  have ecb: "length b = 16 * n \<Longrightarrow> ?ecb b = (EXIT_SUCCESS, ecb_spec ?F n b)" for b n
    using ecb_encrypt_ctx [OF ctx, of b] by simp
  note loop = ctr_loop_spec [where F = ?F and ecb = ?ecb and inc = inc and al = al, OF F inc ecb]
  have st: "fst (snd (ctr_spec ?F inc (0, c) xs)) < 16 \<and> length (snd (snd (ctr_spec ?F inc (0, c) xs))) = 16"
    if "length c = 16" for c xs using ctr_state [OF inc that] by simp
  have abs: "ctr_abs inc a b = (a, b)" if "a < 16" for a b using that by (simp add: ctr_abs_def)
  have fin: "\<exists>pos' cbuf'. (EXIT_SUCCESS, o1 @ fst r, snd (snd r), set_b2 ctx (fst (snd r))) =
      (EXIT_SUCCESS, o1 @ fst r, cbuf', set_b2 ctx pos') \<and> pos' \<le> 16 \<and> length cbuf' = 16 \<and>
      ctr_abs inc pos' cbuf' = snd r"
    if "length c = 16" "r = ctr_spec ?F inc (0, c) xs" for o1 r c xs
    by (intro exI [of _ "fst (snd r)"] exI [of _ "snd (snd r)"])
       (use st [OF that(1), of xs] that(2) in \<open>auto simp: abs\<close>)
  show ?thesis
  proof (cases "?pos = 0")
    case True
    then show ?thesis
      using loop [of cbuf p] fin [OF cbuf refl, of "[]" p] cbuf
      by (simp add: aes_ctr_crypt_def abs Let_def)
  next
    case False
    let ?n = "min (16 - ?pos) (length p)"
    have e: "?ecb cbuf = (EXIT_SUCCESS, ?F cbuf)" using ecb [of cbuf 1] cbuf by simp
    have b: "ctr_spec ?F inc (ctr_abs inc ?pos cbuf) (take ?n p) =
        (ctr_xor_bytes ?pos (take ?n p) (?F cbuf), ctr_abs inc (?pos + ?n) cbuf)"
    proof (cases "?pos = 16")
      case True
      then show ?thesis by (simp add: ctr_abs_def ctr_xor_bytes_def)
    next
      case False
      then show ?thesis
        using ctr_spec_bytes [of ?pos "take ?n p" ?F inc cbuf] pos by (auto simp: ctr_abs_def min_def)
    qed
    have sp: "ctr_spec ?F inc (ctr_abs inc ?pos cbuf) p =
        (let r = ctr_spec ?F inc (ctr_abs inc (?pos + ?n) cbuf) (drop ?n p)
         in (ctr_xor_bytes ?pos (take ?n p) (?F cbuf) @ fst r, snd r))"
      using ctr_spec_append [of ?F inc "ctr_abs inc ?pos cbuf" "take ?n p" "drop ?n p"] b by (simp add: Let_def)
    show ?thesis
    proof (cases "drop ?n p = []")
      case True
      have l: "ctr_loop al inc ?ecb (?pos + ?n) cbuf [] = (EXIT_SUCCESS, ?pos + ?n, cbuf, [])"
        by (simp add: ctr_loop.simps)
      have "aes_ctr_crypt al p cbuf inc ctx =
          (EXIT_SUCCESS, ctr_xor_bytes ?pos (take ?n p) (?F cbuf), cbuf, set_b2 ctx (?pos + ?n))"
        unfolding aes_ctr_crypt_def Let_def e prod.case aes_return.case True if_P [OF False] l by simp
      then show ?thesis
        unfolding sp True using cbuf pos by auto
    next
      case nonempty: False
      then have "?pos + ?n = 16" using pos by auto
      then have "ctr_abs inc (?pos + ?n) cbuf = (0, inc cbuf)" by (simp add: ctr_abs_def)
      then show ?thesis
        unfolding sp
        using loop [of "inc cbuf" "drop ?n p"] fin [OF inc [OF cbuf] refl, of "ctr_xor_bytes ?pos (take ?n p) (?F cbuf)" "drop ?n p"]
          inc [OF cbuf] False nonempty
        by (simp add: aes_ctr_crypt_def e Let_def)
    qed
  qed
qed

subsection \<open>Alignment arithmetic\<close>

lemma align_and: "x AND (2 ^ k - 1) = take_bit k (x :: address)"
  by (simp add: take_bit_eq_mask mask_eq_exp_minus_1)

lemma unat_take_bit: "unat (take_bit k (x :: address)) = unat x mod 2 ^ k"
  by (simp only: unsigned_take_bit_eq) (simp only: take_bit_eq_mod)

lemma uint_take_bit: "uint (take_bit k (x :: address)) = uint x mod 2 ^ k"
  by (simp only: unsigned_take_bit_eq) (simp only: take_bit_eq_mod)

lemma unat_take_bit_add:
  assumes "k \<le> 64"
  shows "unat (take_bit k (p + of_nat i :: address)) = (unat p + i) mod 2 ^ k"
proof -
  have d: "(2::nat) ^ k dvd 2 ^ 64" using assms by (rule le_imp_power_dvd)
  have "unat (p + of_nat i) = (unat p + i) mod 2 ^ 64"
    by (simp add: unat_word_ariths unsigned_of_nat take_bit_nat_def mod_simps)
  then have "unat (take_bit k (p + of_nat i)) = (unat p + i) mod 2 ^ 64 mod 2 ^ k"
    by (simp only: unat_take_bit)
  also have "(unat p + i) mod 2 ^ 64 mod 2 ^ k = (unat p + i) mod 2 ^ k"
    by (rule mod_mod_cancel [OF d])
  finally show ?thesis .
qed

lemma take_bit_uminus:
  assumes "k < 64"
  shows "take_bit k (- x :: address) = (if take_bit k x = 0 then 0 else 2 ^ k - take_bit k x)"
proof (rule word_uint_eqI)
  have d: "(2::int) ^ k dvd 2 ^ 64" using assms by (intro le_imp_power_dvd) simp
  have lt: "(2::int) ^ k < 2 ^ 64" using assms by (intro power_strict_increasing) simp_all
  have m: "uint (- x) mod 2 ^ k = (- uint x) mod 2 ^ k"
    using mod_mod_cancel [OF d, of "- uint x"] by (simp add: uint_word_ariths)
  have z: "take_bit k x = 0 \<longleftrightarrow> uint x mod 2 ^ k = 0"
    unfolding uint_take_bit [symmetric] by (simp only: unsigned_eq_0_iff)
  have u: "uint (2 ^ k :: address) = 2 ^ k" 
  proof (rule uint_2p)
    show "(0::address) < 2 ^ k" using assms by (simp add: word_gt_0)
  qed
  have s: "uint (2 ^ k - take_bit k x) = 2 ^ k - uint x mod 2 ^ k"
  proof -
    have "uint (2 ^ k - take_bit k x) = (2 ^ k - uint x mod 2 ^ k) mod 2 ^ 64"
      by (simp add: uint_word_ariths u uint_take_bit)
    moreover have "0 < (2::int) ^ k" by simp
    from pos_mod_bound [OF this, of "uint x"] pos_mod_sign [OF this, of "uint x"] lt
    have "(2 ^ k - uint x mod 2 ^ k) mod 2 ^ 64 = 2 ^ k - uint x mod 2 ^ k"
      by (intro mod_pos_pos_trivial) linarith+
    ultimately show ?thesis by simp
  qed
  show "uint (take_bit k (- x)) = uint (if take_bit k x = 0 then 0 else 2 ^ k - take_bit k x)"
    unfolding uint_take_bit m using z s by (simp add: zmod_zminus1_eq_if)
qed

lemma align_ceil_floor:
  assumes "k < 64" "n = 2 ^ k"
  shows "ALIGN_CEIL x n = (if take_bit k x = 0 then ALIGN_FLOOR x n else ALIGN_FLOOR x n + n)"
  by (simp add: ALIGN_CEIL_def ALIGN_FLOOR_def assms(2) align_and take_bit_uminus assms(1))

lemma alignment_counts_filter:
  assumes "k < 64"
  shows "alignment_counts p (2 ^ k) is (a, b) =
    Some (a + length (filter (\<lambda>i. (unat p + i) mod 2 ^ k = 0) is),
          b + length (filter (\<lambda>i. (unat p + i) mod 2 ^ k \<noteq> 0) is))"
proof (induction "is" arbitrary: a b)
  case (Cons i "is")
  have n: "word_of_nat (2 ^ k) = (2 ^ k :: address)" by simp
  have nz: "(2 ^ k :: address) \<noteq> 0" using assms by simp
  have z: "take_bit k (p + of_nat i) = 0 \<longleftrightarrow> (unat p + i) mod 2 ^ k = 0"
    using unat_take_bit_add [of k p i] assms by (metis less_imp_le unat_eq_zero)
  show ?case
    using Cons.IH nz by (simp add: Let_def n align_ceil_floor [OF assms refl] z)
qed simp

lemma filter_upt_eq: "filter (\<lambda>i. i = c) [0..<n] = (if c < n then [c] else [])" for c n :: nat
  by (induction n) auto

lemma multiples_in_range:
  assumes "0 < (n :: nat)"
  shows "length (filter (\<lambda>i. (p + i) mod n = 0) [0..<n]) = 1"
    and "length (filter (\<lambda>i. (p + i) mod n \<noteq> 0) [0..<n]) = n - 1"
proof -
  have e: "(p + i) mod n = 0 \<longleftrightarrow> i = (n - p mod n) mod n" if "i < n" for i
  proof -
    obtain r where r: "r = p mod n" "r < n" using assms by simp
    have "(p + i) mod n = (r + i) mod n" by (simp add: r mod_simps)
    also have "(r + i) mod n = 0 \<longleftrightarrow> i = (n - r) mod n"
      using that r(2) by (cases "r = 0") (auto simp: mod_if)
    finally show ?thesis by (simp add: r)
  qed
  have "filter (\<lambda>i. (p + i) mod n = 0) [0..<n] = filter (\<lambda>i. i = (n - p mod n) mod n) [0..<n]"
    by (rule filter_cong) (use e in auto)
  then show one: "length (filter (\<lambda>i. (p + i) mod n = 0) [0..<n]) = 1"
    using assms by (simp add: filter_upt_eq)
  show "length (filter (\<lambda>i. (p + i) mod n \<noteq> 0) [0..<n]) = n - 1"
    using sum_length_filter_compl [of "\<lambda>i. (p + i) mod n = 0" "[0..<n]"] one by simp
qed

lemma alignment_detection:
  assumes "2 \<le> k" "k \<le> 4"
  shows "aes_test_alignment_detection p (2 ^ k) = EXIT_SUCCESS"
proof -
  have "(2::nat) ^ 2 \<le> 2 ^ k" "(2::nat) ^ k \<le> 2 ^ 4"
    using assms by (intro power_increasing; simp)+
  then have "4 \<le> (2::nat) ^ k" "(2::nat) ^ k \<le> 16" by simp_all
  then show ?thesis
    using assms multiples_in_range [of "2 ^ k" "unat p"]
    by (simp add: aes_test_alignment_detection_def alignment_counts_filter)
qed

end
