(* ===== verification/AesProps.thy ===== *)
theory AesProps
  imports AesModes
begin

text \<open>
  What the AES code promises: the cipher and the key schedules of FIPS 197,
  the equivalence of the table-driven code with the plain transformations,
  the modes and their inverses, and the error returns.
\<close>

abbreviation zero_ctx :: aes_crypt_ctx where
  "zero_ctx \<equiv> \<lparr>ks = replicate 60 0, inf_b = replicate 4 0\<rparr>"

abbreviation zero_key :: "byte list" where "zero_key \<equiv> replicate 32 0"

lemma zero_ctx_ks: "length (ks zero_ctx) = KS_LENGTH"
  by (simp add: KS_LENGTH_def)

lemma zero_key_len: "aes_key_len zero_key 256"
  by (simp add: aes_key_len_def)

text \<open>The contexts that the witnesses use.\<close>

lemma zero_enc_keyed: "enc_keyed zero_key (aes_encrypt_key256 zero_key zero_ctx)"
  using enc_key_ctx [OF zero_key_len zero_ctx_ks] by (simp add: aes_encrypt_key_def)

lemma zero_dec_ctx: "dec_keyed rd zero_key (aes_decrypt_key256 rd zero_key zero_ctx)"
  using dec_key_ctx [OF zero_key_len zero_ctx_ks, of rd] by (simp add: aes_decrypt_key_def)

lemma zero_enc_b2: "unat (inf_b (aes_encrypt_key256 zero_key zero_ctx) ! 2) = 1"
  by (simp add: aes_key_inf_b eval_nat_numeral)

subsection \<open>One block\<close>

text \<open>C4: \<open>aes_encrypt_key\<close> followed by \<open>aes_encrypt\<close> computes the cipher of FIPS 197 under the key,
  for each key length and both ways to state it (bytes or bits).\<close>

theorem aes_encrypt_fips197:
  assumes "length key \<in> {16, 24, 32}" "n = int (length key) \<or> n = 8 * int (length key)"
    and "length (ks cx) = KS_LENGTH" "length p = 16"
  shows "\<exists>c. aes_encrypt_key key n cx = Some c \<and>
    aes_encrypt p c = Some (cipher sbox (length key div 4 + 6) (exp_round_key sbox key) p)"
proof -
  from assms have "aes_key_len key n" by (simp add: aes_key_len_def)
  from enc_key_ctx [OF this assms(3)] aes_encrypt_ctx [OF _ assms(4)] show ?thesis
    by (auto simp: aes_cipher_def aes_rounds_def)
qed

theorem aes_encrypt_fips197_witness:
  "\<exists>c. aes_encrypt_key zero_key 256 zero_ctx = Some c \<and>
    aes_encrypt (replicate 16 0) c = Some (cipher sbox 14 (exp_round_key sbox zero_key) (replicate 16 0))"
  using aes_encrypt_fips197 [of zero_key 256 zero_ctx "replicate 16 0"] by (simp add: KS_LENGTH_def)

text \<open>C5: \<open>aes_decrypt\<close> under the decryption schedule of a key inverts \<open>aes_encrypt\<close> under its
  encryption schedule, whether the decryption schedule is stored reversed or not.\<close>

theorem aes_decrypt_encrypt:
  assumes "length key \<in> {16, 24, 32}" "n = int (length key) \<or> n = 8 * int (length key)"
    and "length (ks cx) = KS_LENGTH" "length (ks cx') = KS_LENGTH" "length p = 16"
  shows "\<exists>e d c. aes_encrypt_key key n cx = Some e \<and> aes_decrypt_key rd key n cx' = Some d \<and>
    aes_encrypt p e = Some c \<and> aes_decrypt rd c d = Some p"
proof -
  from assms have k: "aes_key_len key n" by (simp add: aes_key_len_def)
  from enc_key_ctx [OF k assms(3)] obtain e where "aes_encrypt_key key n cx = Some e" and e: "enc_keyed key e"
    by auto
  moreover from dec_key_ctx [OF k assms(4)] obtain d
    where "aes_decrypt_key rd key n cx' = Some d" and d: "dec_keyed rd key d" by auto
  moreover from aes.enc_E [OF e assms(5)] have "aes_encrypt p e = Some (aes_cipher key p)" .
  moreover from aes.dec_D [OF d aes.length_E [OF e assms(5)]] aes.D_E [OF d assms(5)]
  have "aes_decrypt rd (aes_cipher key p) d = Some p" by simp
  ultimately show ?thesis by blast
qed

theorem aes_decrypt_encrypt_witness:
  "\<exists>e d c. aes_encrypt_key zero_key 32 zero_ctx = Some e \<and> aes_decrypt_key True zero_key 32 zero_ctx = Some d \<and>
    aes_encrypt (replicate 16 7) e = Some c \<and> aes_decrypt True c d = Some (replicate 16 7)"
  by (rule aes_decrypt_encrypt) (simp_all add: KS_LENGTH_def)

text \<open>The words of an encryption schedule are those of \<open>KeyExpansion\<close>.\<close>

theorem encryption_schedule:
  assumes "length key \<in> {16, 24, 32}" "length (ks cx) = KS_LENGTH"
    and "aes_encrypt_key key (int (length key)) cx = Some c" "i < 4 * (length key div 4 + 7)"
  shows "word_bytes (ks c ! i) = key_expansion sbox (length key div 4) key i"
proof -
  have "aes_key_len key (int (length key))" using assms(1) by (simp add: aes_key_len_def)
  from enc_key_ctx [OF this assms(2)] assms(3) have "enc_keyed key c" by simp
  then have "ks c ! i = exp_word (length key div 4) key i"
    using assms(4) by (auto simp: enc_keyed_def aes_rounds_def dest: holdsD)
  moreover have "length key = 4 * (length key div 4) \<and> 0 < length key div 4" using assms(1) by auto
  ultimately show ?thesis using word_out_exp_word by metis
qed

theorem encryption_schedule_witness:
  "word_bytes (ks (aes_encrypt_key256 zero_key zero_ctx) ! 59) = key_expansion sbox 8 zero_key 59"
  using encryption_schedule [of zero_key zero_ctx "aes_encrypt_key256 zero_key zero_ctx" 59]
  by (simp add: KS_LENGTH_def aes_encrypt_key_def)

text \<open>Word \<open>i\<close> of a decryption schedule, at its index under either storage order, is word \<open>i\<close> of
  \<open>KeyExpansion\<close>, through \<open>InvMixColumns\<close> unless it belongs to the first or the last round key.\<close>

theorem decryption_schedule:
  assumes "length key \<in> {16, 24, 32}" "length (ks cx) = KS_LENGTH"
    and "aes_decrypt_key rd key (int (length key)) cx = Some d"
    and "nr = length key div 4 + 6" "i < 4 * (nr + 1)"
  shows "word_bytes (ks d ! v_idx rd (4 * nr) i) =
    (let w = key_expansion sbox (length key div 4) key i
     in if i < 4 \<or> 4 * nr \<le> i then w else inv_mix_column w)"
proof -
  have "aes_key_len key (int (length key))" using assms(1) by (simp add: aes_key_len_def)
  from dec_key_ctx [OF this assms(2), of rd] assms(3) have "dec_keyed rd key d" by simp
  then have "ks d ! v_idx rd (4 * nr) i = dec_word nr (length key div 4) key i"
    using assms(4,5) by (auto simp: dec_keyed_def aes_rounds_def dest: holdsD)
  moreover have "length key = 4 * (length key div 4) \<and> 0 < length key div 4" using assms(1) by auto
  ultimately show ?thesis
    using word_out_exp_word [of key "length key div 4" i]
    by (simp add: dec_word_def word_out_inv_mcol Let_def)
qed

theorem decryption_schedule_witness:
  "word_bytes (ks (aes_decrypt_key256 True zero_key zero_ctx) ! v_idx True 56 9) =
     inv_mix_column (key_expansion sbox 8 zero_key 9)"
  using decryption_schedule [of zero_key zero_ctx True "aes_decrypt_key256 True zero_key zero_ctx" 14 9]
  by (simp add: KS_LENGTH_def aes_decrypt_key_def Let_def)

text \<open>A call of \<open>aes_encrypt_key\<close> or \<open>aes_decrypt_key\<close> fails exactly for the lengths that name no key
  size of AES, and both agree on them.\<close>

theorem key_length_errors:
  "(aes_encrypt_key key n cx = None \<longleftrightarrow> n \<notin> {16, 24, 32, 128, 192, 256}) \<and>
   (aes_decrypt_key rd key n cx = None \<longleftrightarrow> n \<notin> {16, 24, 32, 128, 192, 256})"
  by (simp add: aes_encrypt_key_def aes_decrypt_key_def)

text \<open>On a context whose round count is none of the three that the key functions set,
  such as one that was never keyed, neither direction produces output.\<close>

theorem block_errors:
  assumes "unat (inf_b cx ! 0) \<notin> {160, 192, 224}"
  shows "aes_encrypt p cx = None \<and> aes_decrypt rd p cx = None"
  using assms by (simp add: aes_encrypt_def aes_decrypt_def AES_BLOCK_SIZE_def Let_def)

theorem block_errors_witness:
  "aes_encrypt (replicate 16 1) zero_ctx = None \<and> aes_decrypt True (replicate 16 1) zero_ctx = None"
  by (rule block_errors) simp

text \<open>One table-driven round of \<open>aes_encrypt\<close>, four look-ups per column, is \<open>SubBytes\<close>, \<open>ShiftRows\<close>,
  \<open>MixColumns\<close> and \<open>AddRoundKey\<close> on the sixteen bytes of the state; the last round omits \<open>MixColumns\<close>.\<close>

theorem forward_round_tables:
  assumes "length x = 4" "length k = 4"
  shows "st_bytes (round4 fwd_rnd x k) =
      add_round_key (st_bytes k) (mix_columns (shift_rows (sub_bytes sbox (st_bytes x)))) \<and>
    st_bytes (round4 fwd_lrnd x k) = add_round_key (st_bytes k) (shift_rows (sub_bytes sbox (st_bytes x)))"
  using fwd_rnd_spec [of x k] fwd_lrnd_spec [of x k] assms
  by (simp add: spec_round_def spec_last_round_def)

theorem forward_round_tables_witness:
  "st_bytes (round4 fwd_rnd [1, 2, 3, 4] [5, 6, 7, 8]) =
      add_round_key (st_bytes [5, 6, 7, 8]) (mix_columns (shift_rows (sub_bytes sbox (st_bytes [1, 2, 3, 4])))) \<and>
    st_bytes (round4 fwd_lrnd [1, 2, 3, 4] [5, 6, 7, 8]) =
      add_round_key (st_bytes [5, 6, 7, 8]) (shift_rows (sub_bytes sbox (st_bytes [1, 2, 3, 4])))"
  by (rule forward_round_tables) simp_all

text \<open>The column transformations of \<open>aesopt.h\<close> are those of the standard, and the table \<open>t_im\<close> computes
  the same inverse as the code without tables.\<close>

theorem column_transformations:
  "word_bytes (fwd_mcol x) = mix_column (word_bytes x) \<and>
   word_bytes (inv_mcol x) = inv_mix_column (word_bytes x) \<and> inv_mcol x = inv_mcol_no_table x \<and>
   inv_mcol (fwd_mcol x) = x"
proof -
  have eq: "inv_mcol y = inv_mcol_no_table y" for y
    by (rule word_out_inj [THEN iffD1]) (simp add: word_out_inv_mcol inv_mcol_no_table_inv_mix_column)
  have "inv_mcol (fwd_mcol x) = x"
    by (rule word_out_inj [THEN iffD1])
       (simp add: word_out_inv_mcol fwd_mcol_mix_column inv_mix_column_mix_column)
  then show ?thesis
    by (simp add: fwd_mcol_mix_column word_out_inv_mcol inv_mcol_no_table_inv_mix_column eq)
qed

subsection \<open>Modes\<close>

text \<open>ECB decryption undoes ECB encryption on any whole number of blocks; other lengths are refused by
  both functions with no output.\<close>

theorem ecb_roundtrip:
  assumes "enc_keyed key e" "dec_keyed rd key d"
  shows "if length p mod 16 = 0
    then \<exists>c. aes_ecb_encrypt p e = (EXIT_SUCCESS, c) \<and> length c = length p \<and> aes_ecb_decrypt rd c d = (EXIT_SUCCESS, p)
    else aes_ecb_encrypt p e = (EXIT_FAILURE, []) \<and> aes_ecb_decrypt rd p d = (EXIT_FAILURE, [])"
proof (cases "length p mod 16 = 0")
  case True
  let ?c = "ecb_spec (aes_cipher key) (length p div 16) p"
  have p: "length p = 16 * (length p div 16)" using True mult_div_mod_eq [of 16 "length p"] by simp
  have c: "length ?c = 16 * (length p div 16)" by (rule aes.length_ecb_spec [OF assms(1) p])
  have "aes_ecb_decrypt rd ?c d = (EXIT_SUCCESS, p)"
    using ecb_decrypt_ctx [OF assms(2), of ?c] aes.ecb_inverse [OF assms p] c by simp
  then show ?thesis using True ecb_encrypt_ctx [OF assms(1) True] c p by simp
qed (simp add: aes_ecb_encrypt_def aes_ecb_decrypt_def Let_def)

theorem ecb_roundtrip_witness:
  "\<exists>c. aes_ecb_encrypt (replicate 48 5) (aes_encrypt_key256 zero_key zero_ctx) = (EXIT_SUCCESS, c) \<and>
    length c = 48 \<and> aes_ecb_decrypt True c (aes_decrypt_key256 True zero_key zero_ctx) = (EXIT_SUCCESS, replicate 48 5)"
  using ecb_roundtrip [OF zero_enc_keyed zero_dec_ctx, of "replicate 48 5" True] by simp

text \<open>C12: CBC decryption undoes CBC encryption from the same \<open>iv\<close>, and both leave the same \<open>iv\<close> to continue
  from; the alignment of the buffers does not matter.\<close>

theorem cbc_roundtrip:
  assumes "enc_keyed key e" "dec_keyed rd key d" "length iv = 16" "length p mod 16 = 0"
  shows "\<exists>c iv'. aes_cbc_encrypt a1 a2 p iv e = (EXIT_SUCCESS, c, iv') \<and> length c = length p \<and> length iv' = 16 \<and>
    aes_cbc_decrypt rd a3 a4 c iv d = (EXIT_SUCCESS, p, iv')"
proof -
  let ?n = "length p div 16"
  have p: "length p = 16 * ?n" using assms(4) mult_div_mod_eq [of 16 "length p"] by simp
  let ?r = "cbc_enc_spec (aes_cipher key) ?n p iv"
  have l: "length (fst ?r) = 16 * ?n" "length (snd ?r) = 16"
    using aes.length_cbc_spec [OF assms(1,3) p] by simp_all
  have "aes_cbc_decrypt rd a3 a4 (fst ?r) iv d = (EXIT_SUCCESS, p, snd ?r)"
    using aes.cbc_dec [OF assms(2,3) l(1)] aes.cbc_inverse [OF assms(1-3) p]
    by (simp add: aes_cbc_decrypt_def l)
  moreover have "aes_cbc_encrypt a1 a2 p iv e = (EXIT_SUCCESS, fst ?r, snd ?r)"
    using aes.cbc_enc [OF assms(1,3) p] assms(4) by (simp add: aes_cbc_encrypt_def)
  ultimately show ?thesis
    by (intro exI [of _ "fst ?r"] exI [of _ "snd ?r"]) (use l p in simp)
qed

theorem cbc_roundtrip_witness:
  "\<exists>c iv'. aes_cbc_encrypt True False (replicate 32 9) (replicate 16 1) (aes_encrypt_key256 zero_key zero_ctx) =
      (EXIT_SUCCESS, c, iv') \<and> length c = length (replicate 32 (9::byte)) \<and> length iv' = 16 \<and>
    aes_cbc_decrypt False True True c (replicate 16 1) (aes_decrypt_key256 False zero_key zero_ctx) =
      (EXIT_SUCCESS, replicate 32 9, iv')"
  by (rule cbc_roundtrip [OF zero_enc_keyed zero_dec_ctx]) simp_all

text \<open>CFB decryption from the same state undoes CFB encryption of any length, and both calls end in the
  same state (chaining block and position in it), whatever the alignment of the buffers.\<close>

theorem cfb_roundtrip:
  assumes "enc_keyed key ctx" "length iv = 16" "unat (inf_b ctx ! 2) < 16"
  shows "\<exists>c iv' ctx'. aes_cfb_encrypt a1 a2 a3 p iv ctx = Some (EXIT_SUCCESS, c, iv', ctx') \<and> length c = length p \<and>
    aes_cfb_decrypt a4 a5 a6 c iv ctx = Some (EXIT_SUCCESS, p, iv', ctx')"
  by (simp add: stream_crypt_ctx [OF assms] Let_def cfb_dec_enc)

theorem cfb_roundtrip_witness:
  "\<exists>c iv' ctx'. aes_cfb_encrypt True True True (replicate 37 9) (replicate 16 1) (aes_encrypt_key256 zero_key zero_ctx) =
      Some (EXIT_SUCCESS, c, iv', ctx') \<and> length c = length (replicate 37 (9::byte)) \<and>
    aes_cfb_decrypt True False True c (replicate 16 1) (aes_encrypt_key256 zero_key zero_ctx) =
      Some (EXIT_SUCCESS, replicate 37 9, iv', ctx')"
  by (rule cfb_roundtrip [OF zero_enc_keyed]) (simp_all add: zero_enc_b2)

text \<open>A message may be cut anywhere: CFB encryption of two parts, the second from the state that the first
  call leaves, is CFB encryption of the whole.\<close>

theorem cfb_incremental:
  assumes "enc_keyed key ctx" "length iv = 16" "unat (inf_b ctx ! 2) < 16"
  shows "\<exists>c1 iv1 ctx1 c2 iv2 ctx2.
    aes_cfb_encrypt a1 a2 a3 xs iv ctx = Some (EXIT_SUCCESS, c1, iv1, ctx1) \<and>
    aes_cfb_encrypt a4 a5 a6 ys iv1 ctx1 = Some (EXIT_SUCCESS, c2, iv2, ctx2) \<and>
    aes_cfb_encrypt a7 a8 a9 (xs @ ys) iv ctx = Some (EXIT_SUCCESS, c1 @ c2, iv2, ctx2)"
proof -
  let ?F = "aes_cipher key"
  let ?r1 = "stream_spec ?F cfb_enc_op (unat (inf_b ctx ! 2), iv) xs"
  let ?r2 = "stream_spec ?F cfb_enc_op (snd ?r1) ys"
  have l: "length (snd (snd ?r1)) = 16" by (rule length_stream_iv) (use aes.length_E [OF assms(1)] assms(2) in auto)
  have pos: "fst (snd ?r1) < 16" by (rule stream_pos_less [OF assms(3)])
  then have b: "unat (inf_b (set_b2 ctx (fst (snd ?r1))) ! 2) = fst (snd ?r1)" using set_b2(3) [OF assms(1)] by simp
  have e: "enc_keyed key (set_b2 ctx (fst (snd ?r1)))" using assms(1) by (simp add: set_b2(1))
  show ?thesis
    using stream_crypt_ctx(1) [OF e l, of _ _ _ ys] pos b
    by (simp add: stream_crypt_ctx(1) [OF assms] stream_spec_append Let_def set_b2(2))
qed

theorem cfb_incremental_witness:
  "\<exists>c1 iv1 ctx1 c2 iv2 ctx2.
    aes_cfb_encrypt True True True [1, 2, 3] (replicate 16 1) (aes_encrypt_key256 zero_key zero_ctx) =
      Some (EXIT_SUCCESS, c1, iv1, ctx1) \<and>
    aes_cfb_encrypt False True True (replicate 40 4) iv1 ctx1 = Some (EXIT_SUCCESS, c2, iv2, ctx2) \<and>
    aes_cfb_encrypt True True False ([1, 2, 3] @ replicate 40 4) (replicate 16 1) (aes_encrypt_key256 zero_key zero_ctx) =
      Some (EXIT_SUCCESS, c1 @ c2, iv2, ctx2)"
  by (rule cfb_incremental [OF zero_enc_keyed]) (simp_all add: zero_enc_b2)

text \<open>OFB applied twice from the same state gives the input back, and both calls end in the same state.\<close>

theorem ofb_roundtrip:
  assumes "enc_keyed key ctx" "length iv = 16" "unat (inf_b ctx ! 2) < 16"
  shows "\<exists>c iv' ctx'. aes_ofb_crypt a1 a2 a3 p iv ctx = Some (EXIT_SUCCESS, c, iv', ctx') \<and> length c = length p \<and>
    aes_ofb_crypt a4 a5 a6 c iv ctx = Some (EXIT_SUCCESS, p, iv', ctx')"
  by (simp add: stream_crypt_ctx [OF assms] Let_def ofb_twice)

theorem ofb_roundtrip_witness:
  "\<exists>c iv' ctx'. aes_ofb_crypt True True True (replicate 37 9) (replicate 16 1) (aes_encrypt_key256 zero_key zero_ctx) =
      Some (EXIT_SUCCESS, c, iv', ctx') \<and> length c = length (replicate 37 (9::byte)) \<and>
    aes_ofb_crypt True False True c (replicate 16 1) (aes_encrypt_key256 zero_key zero_ctx) =
      Some (EXIT_SUCCESS, replicate 37 9, iv', ctx')"
  by (rule ofb_roundtrip [OF zero_enc_keyed]) (simp_all add: zero_enc_b2)

text \<open>CTR applied twice from the same state gives the input back, for any counter function of the caller that
  keeps the length of the block, also from a state that an earlier call left in the middle or at the end of a block.\<close>

theorem ctr_roundtrip:
  assumes "enc_keyed key ctx" "length cbuf = 16" "unat (inf_b ctx ! 2) \<le> 16"
    and "\<And>b. length b = 16 \<Longrightarrow> length (inc b) = 16"
  shows "\<exists>c cbuf1 ctx1 cbuf2 ctx2. aes_ctr_crypt a1 p cbuf inc ctx = (EXIT_SUCCESS, c, cbuf1, ctx1) \<and> length c = length p \<and>
    aes_ctr_crypt a2 c cbuf inc ctx = (EXIT_SUCCESS, p, cbuf2, ctx2)"
proof -
  let ?r = "ctr_spec (aes_cipher key) inc (ctr_abs inc (unat (inf_b ctx ! 2)) cbuf)"
  from ctr_crypt_ctx [where inc = inc and al = a1 and p = p, OF assms] obtain cbuf1 ctx1
    where "aes_ctr_crypt a1 p cbuf inc ctx = (EXIT_SUCCESS, fst (?r p), cbuf1, ctx1)" by blast
  moreover from ctr_crypt_ctx [where inc = inc and al = a2 and p = "fst (?r p)", OF assms] obtain cbuf2 ctx2
    where "aes_ctr_crypt a2 (fst (?r p)) cbuf inc ctx = (EXIT_SUCCESS, p, cbuf2, ctx2)"
    by (auto simp: ctr_twice)
  ultimately show ?thesis by auto
qed

theorem ctr_roundtrip_witness:
  "\<exists>c cbuf1 ctx1 cbuf2 ctx2.
    aes_ctr_crypt True (replicate 300 3) (replicate 16 0) (\<lambda>b. b[15 := b ! 15 + 1]) (aes_encrypt_key256 zero_key zero_ctx) =
      (EXIT_SUCCESS, c, cbuf1, ctx1) \<and> length c = length (replicate 300 (3::byte)) \<and>
    aes_ctr_crypt False c (replicate 16 0) (\<lambda>b. b[15 := b ! 15 + 1]) (aes_encrypt_key256 zero_key zero_ctx) =
      (EXIT_SUCCESS, replicate 300 3, cbuf2, ctx2)"
  by (rule ctr_roundtrip [OF zero_enc_keyed]) (simp_all add: zero_enc_b2)

text \<open>CTR may be called on a message in parts: the two outputs together are the output of one call, although
  a call may return with the counter stepped or still to be stepped.\<close>

theorem ctr_incremental:
  assumes "enc_keyed key ctx" "length cbuf = 16" "unat (inf_b ctx ! 2) \<le> 16"
    and "\<And>b. length b = 16 \<Longrightarrow> length (inc b) = 16"
  shows "\<exists>c1 cbuf1 ctx1 c2 cbuf2 ctx2 cbuf3 ctx3. aes_ctr_crypt a1 xs cbuf inc ctx = (EXIT_SUCCESS, c1, cbuf1, ctx1) \<and>
    aes_ctr_crypt a2 ys cbuf1 inc ctx1 = (EXIT_SUCCESS, c2, cbuf2, ctx2) \<and>
    aes_ctr_crypt a3 (xs @ ys) cbuf inc ctx = (EXIT_SUCCESS, c1 @ c2, cbuf3, ctx3)"
proof -
  let ?s = "ctr_abs inc (unat (inf_b ctx ! 2)) cbuf" and ?F = "aes_cipher key"
  from ctr_crypt_ctx [where inc = inc and al = a1 and p = xs, OF assms] obtain pos' cbuf' where
    one: "aes_ctr_crypt a1 xs cbuf inc ctx = (EXIT_SUCCESS, fst (ctr_spec ?F inc ?s xs), cbuf', set_b2 ctx pos')"
    "pos' \<le> 16" "length cbuf' = 16" "ctr_abs inc pos' cbuf' = snd (ctr_spec ?F inc ?s xs)" by blast
  have b: "unat (inf_b (set_b2 ctx pos') ! 2) = pos'" using set_b2(3) [OF assms(1)] one(2) by simp
  have e: "enc_keyed key (set_b2 ctx pos')" using assms(1) by (simp add: set_b2(1))
  from ctr_crypt_ctx [where inc = inc and al = a2 and p = ys, OF e one(3) _ assms(4)] obtain cbuf2 ctx2 where
    two: "aes_ctr_crypt a2 ys cbuf' inc (set_b2 ctx pos') =
      (EXIT_SUCCESS, fst (ctr_spec ?F inc (snd (ctr_spec ?F inc ?s xs)) ys), cbuf2, ctx2)"
    unfolding b one(4) using one(2) by blast
  from ctr_crypt_ctx [where inc = inc and al = a3 and p = "xs @ ys", OF assms] obtain cbuf3 ctx3 where
    three: "aes_ctr_crypt a3 (xs @ ys) cbuf inc ctx = (EXIT_SUCCESS, fst (ctr_spec ?F inc ?s (xs @ ys)), cbuf3, ctx3)"
    by blast
  from one(1) two three show ?thesis by (auto simp: ctr_spec_append)
qed

theorem ctr_incremental_witness:
  "\<exists>c1 cbuf1 ctx1 c2 cbuf2 ctx2 cbuf3 ctx3.
    aes_ctr_crypt True (replicate 15 3) (replicate 16 0) (\<lambda>b. b[15 := b ! 15 + 1]) (aes_encrypt_key256 zero_key zero_ctx) =
      (EXIT_SUCCESS, c1, cbuf1, ctx1) \<and>
    aes_ctr_crypt True (replicate 40 4) cbuf1 (\<lambda>b. b[15 := b ! 15 + 1]) ctx1 = (EXIT_SUCCESS, c2, cbuf2, ctx2) \<and>
    aes_ctr_crypt True (replicate 15 3 @ replicate 40 4) (replicate 16 0) (\<lambda>b. b[15 := b ! 15 + 1])
      (aes_encrypt_key256 zero_key zero_ctx) = (EXIT_SUCCESS, c1 @ c2, cbuf3, ctx3)"
  by (rule ctr_incremental [OF zero_enc_keyed]) (simp_all add: zero_enc_b2)

lemma ofb_in_block:
  "0 < pos \<Longrightarrow> pos + length p \<le> 16 \<Longrightarrow> length iv = 16 \<Longrightarrow>
    fst (stream_spec F ofb_op (pos, iv) p) = xor_bytes p (drop pos iv)"
proof (induction p arbitrary: pos)
  case (Cons x p)
  have d: "drop pos iv = iv ! pos # drop (Suc pos) iv" using Cons.prems by (simp add: Cons_nth_drop_Suc)
  show ?case
  proof (cases "p = []")
    case False
    then have "Suc pos < 16" using Cons.prems by (cases p) auto
    then show ?thesis using Cons by (simp add: d ofb_op_def Let_def xor.commute)
  qed (use Cons.prems in \<open>simp add: d ofb_op_def Let_def xor.commute\<close>)
qed simp

lemma ofb_fresh:
  assumes "length (F iv) = 16" "length p \<le> 15"
  shows "fst (stream_spec F ofb_op (0, iv) p) = xor_bytes p (F iv)"
proof (cases p)
  case (Cons x q)
  have d: "F iv = F iv ! 0 # drop 1 (F iv)"
    using assms(1) Cons_nth_drop_Suc [of 0 "F iv"] by simp
  have "fst (stream_spec F ofb_op (1, F iv) q) = xor_bytes q (drop 1 (F iv))"
    by (rule ofb_in_block) (use assms Cons in simp_all)
  then show ?thesis by (subst d) (simp add: Cons ofb_op_def Let_def xor.commute)
qed simp

text \<open>C13: the key functions leave \<open>inf.b[2]\<close> at 1, the mark of an encryption context, which the byte modes read
  as a position in the block. Without \<open>aes_mode_reset\<close> the first OFB call therefore exclusive-ors up to fifteen
  bytes of the message with \<open>iv\<close> itself, which the block cipher never sees; after \<open>aes_mode_reset\<close> it encrypts
  \<open>iv\<close> first.\<close>

theorem ofb_without_reset:
  assumes "length key \<in> {16, 24, 32}" "aes_encrypt_key key (int (length key)) cx = Some e"
    and "length (ks cx) = KS_LENGTH" "length iv = 16" "length p \<le> 15"
  shows "(\<exists>iv' e'. aes_ofb_crypt a1 a2 a3 p iv e = Some (EXIT_SUCCESS, xor_bytes p (drop 1 iv), iv', e')) \<and>
    (\<exists>iv' e'. aes_ofb_crypt a1 a2 a3 p iv (snd (aes_mode_reset e)) =
       Some (EXIT_SUCCESS, xor_bytes p (aes_cipher key iv), iv', e'))"
proof -
  have "aes_key_len key (int (length key))" using assms(1) by (simp add: aes_key_len_def)
  from enc_key_ctx [OF this assms(3)] assms(2) have e: "enc_keyed key e" and b: "inf_b e ! 2 = 1" by simp_all
  let ?e = "set_b2 e 0"
  have r: "snd (aes_mode_reset e) = ?e" by (simp add: aes_mode_reset_def set_b2_def)
  have e0: "enc_keyed key ?e" "unat (inf_b ?e ! 2) = 0" using e set_b2(3) [OF e, of 0] by (simp_all add: set_b2(1))
  have l: "length (aes_cipher key iv) = 16" using aes.length_E [OF e] assms(4) by auto
  have fresh: "fst (stream_spec (aes_cipher key) ofb_op (1, iv) p) = xor_bytes p (drop 1 iv)"
    by (rule ofb_in_block) (use assms in simp_all)
  have "fst (stream_spec (aes_cipher key) ofb_op (0, iv) p) = xor_bytes p (aes_cipher key iv)"
    by (rule ofb_fresh) (use assms l in simp_all)
  then show ?thesis
    using fresh stream_crypt_ctx(3) [OF e assms(4), of a1 a2 a3 p] stream_crypt_ctx(3) [OF e0(1) assms(4), of a1 a2 a3 p]
    by (simp add: r b e0 Let_def)
qed

theorem ofb_without_reset_witness:
  "(\<exists>iv' e'. aes_ofb_crypt True True True [65, 66, 67] (replicate 16 1) (aes_encrypt_key256 zero_key zero_ctx) =
      Some (EXIT_SUCCESS, xor_bytes [65, 66, 67] (drop 1 (replicate 16 1)), iv', e')) \<and>
    (\<exists>iv' e'. aes_ofb_crypt True True True [65, 66, 67] (replicate 16 1)
        (snd (aes_mode_reset (aes_encrypt_key256 zero_key zero_ctx))) =
      Some (EXIT_SUCCESS, xor_bytes [65, 66, 67] (aes_cipher zero_key (replicate 16 1)), iv', e'))"
  by (rule ofb_without_reset [of zero_key zero_ctx]) (simp_all add: aes_encrypt_key_def KS_LENGTH_def)

subsection \<open>Alignment\<close>

text \<open>The self-test of the alignment macros succeeds for the power-of-two sizes that the macros are meant
  for, wherever its array lies in memory, also at the top of the address space, where the sums wrap around.\<close>

theorem alignment_self_test:
  assumes "n \<in> {4, 8, 16}"
  shows "aes_test_alignment_detection p n = EXIT_SUCCESS"
  using assms alignment_detection [of 2 p] alignment_detection [of 3 p] alignment_detection [of 4 p] by auto

theorem alignment_self_test_witness: "aes_test_alignment_detection 0xfffffffffffffff9 16 = EXIT_SUCCESS"
  by (rule alignment_self_test) simp

end
