(* ===== verification/AesNiProps.thy ===== *)
theory AesNiProps
  imports AesNi AesProps
begin

text \<open>
  The AES instructions compute what the tables compute: the block functions of
  \<open>AesNi\<close> against those of \<open>AesCrypt\<close>, its key schedules against \<open>KeyExpansion\<close>.
  Values of type \<open>__m128i\<close> are written as \<open>st_bytes [a, b, c, d]\<close> with the words
  of the schedule, and each vector operation is read as one on words.
\<close>

lemma get128_round_key: "get128 k j = round_key k j"
  by (simp add: get128_def round_key_def st_bytes_def)

text \<open>The cached answer of \<open>cpuid\<close> does not change: a second call returns what the first one did.\<close>

lemma has_aes_ni_cached: "has_aes_ni_test ecx (has_aes_ni_test ecx (-1)) = has_aes_ni_test ecx (-1)"
  by (simp add: has_aes_ni_test_def)

lemmas instrD = aes_instructions_def [THEN iffD1, rule_format]

lemma instr:
  assumes "aes_instructions c" "length s = 16"
  shows "mm_aesimc c s = inv_mix_columns s" "mm_keygenassist c s rc = keygenassist s rc"
    and "length k = 16 \<Longrightarrow> mm_aesenc c s k = spec_round sbox k s"
    and "length k = 16 \<Longrightarrow> mm_aesenclast c s k = spec_last_round sbox k s"
    and "length k = 16 \<Longrightarrow> mm_aesdec c s k = add_round_key k (inv_mix_columns (sub_bytes inv_sbox (inv_shift_rows s)))"
    and "length k = 16 \<Longrightarrow> mm_aesdeclast c s k = inv_last_round inv_sbox k s"
  using instrD [OF assms(1), of s] assms(2) by (blast, blast, blast, blast, blast, blast)

subsection \<open>Blocks\<close>

abbreviation dec_round :: "u32 list \<Rightarrow> nat \<Rightarrow> byte list \<Rightarrow> byte list" where
  "dec_round k r s \<equiv> add_round_key (round_key k r) (inv_mix_columns (sub_bytes inv_sbox (inv_shift_rows s)))"

lemma ni_enc_steps:
  assumes "aes_instructions c" "length t = 16" "4 * (j + n) + 4 \<le> length k"
  shows "(ni_enc_step c k ^^ n) (t, j) =
    (fold (\<lambda>r. spec_round sbox (round_key k r)) [Suc j..<Suc (j + n)] t, j + n)"
  using assms(3)
proof (induction n)
  case (Suc n)
  let ?t = "fold (\<lambda>r. spec_round sbox (round_key k r)) [Suc j..<Suc (j + n)] t"
  have "length ?t = 16" by (rule length_fold_spec_round) (use Suc.prems assms(2) in auto)
  then show ?case
    using Suc instr(3) [OF assms(1), of ?t "round_key k (Suc (j + n))"]
    by (simp add: ni_enc_step_def get128_round_key)
qed simp

lemma length_dec_rounds:
  "(\<And>r. r \<in> set rs \<Longrightarrow> 4 * r + 4 \<le> length k) \<Longrightarrow> length s = 16 \<Longrightarrow> length (fold (dec_round k) rs s) = 16"
  by (induction rs arbitrary: s) simp_all

lemma ni_dec_steps:
  assumes "aes_instructions c" "length t = 16" "4 * j + 4 \<le> length k" "n \<le> j"
  shows "(ni_dec_step c k ^^ n) (t, j) = (fold (dec_round k) (rev [j - n..<j]) t, j - n)"
  using assms(4)
proof (induction n)
  case (Suc n)
  let ?t = "fold (dec_round k) (rev [j - n..<j]) t"
  have "length ?t = 16" by (rule length_dec_rounds) (use Suc.prems assms(2,3) in auto)
  moreover have "[j - Suc n..<j] = (j - Suc n) # [j - n..<j]"
    using Suc.prems upt_conv_Cons [of "j - Suc n" j] by (simp add: Suc_diff_Suc)
  ultimately show ?case
    using Suc instr(5) [OF assms(1), of ?t "round_key k (j - Suc n)"] assms(3)
    by (simp add: ni_dec_step_def get128_round_key)
qed simp

lemma rounds_cases:
  assumes "\<not> (n \<noteq> 10 * AES_BLOCK_SIZE \<and> n \<noteq> 12 * AES_BLOCK_SIZE \<and> n \<noteq> 14 * AES_BLOCK_SIZE)"
  obtains "n = 160" | "n = 192" | "n = 224"
  using assms by (auto simp: AES_BLOCK_SIZE_def)

lemma length_inv_round [simp]: "length k = 16 \<Longrightarrow> length (inv_last_round isb k s) = 16"
  by (simp add: inv_last_round_def)

lemma ni_encrypt_agrees:
  assumes "aes_instructions c" "length (ks cx) = KS_LENGTH" "length inp = 16"
  shows "ni_encrypt c inp cx = aes_encrypt inp cx"
proof (cases "has_aes_ni c \<and> \<not> (unat (inf_b cx ! 0) \<noteq> 10 * AES_BLOCK_SIZE \<and>
    unat (inf_b cx ! 0) \<noteq> 12 * AES_BLOCK_SIZE \<and> unat (inf_b cx ! 0) \<noteq> 14 * AES_BLOCK_SIZE)")
  case False
  then show ?thesis by (auto simp: ni_encrypt_def aes_encrypt_def Let_def)
next
  case True
  let ?k = "ks cx" and ?b = "add_round_key (round_key (ks cx) 0) inp"
  let ?R = "\<lambda>r. spec_round sbox (round_key ?k r)"
  obtain X where X: "X = (\<lambda>i. fold ?R [Suc 0..<Suc i] ?b)" by simp
  have l: "length ?k = 60" using assms(2) by (simp add: KS_LENGTH_def)
  have b: "mm_xor (mm_loadu inp 0) (get128 ?k 0) = X 0" "length ?b = 16"
    using assms(3) l by (simp_all add: mm_xor_def mm_loadu_def add_round_key_def get128_round_key X)
  have len: "length (X n) = 16" if "n \<le> 14" for n
    unfolding X by (rule length_fold_spec_round) (use l b(2) that in auto)
  have S: "(ni_enc_step c ?k ^^ n) (X i, i) = (X (i + n), i + n)" if "i + n \<le> 14" for i n
  proof -
    have "fold ?R [Suc i..<Suc (i + n)] (X i) = X (i + n)"
      unfolding X using upt_add_eq_append [of "Suc 0" "Suc i" n] by (simp del: upt_Suc)
    then show ?thesis using ni_enc_steps [OF assms(1) len, of i i n ?k] that l by simp
  qed
  have last: "mm_aesenclast c (X n) (get128 ?k (Suc n)) = cipher sbox (Suc n) (round_key ?k) inp" if "n \<le> 13" for n
    using instr(4) [OF assms(1) len, of n "round_key ?k (Suc n)"] that l
    by (simp add: get128_round_key cipher_def X)
  from True have "\<not> (unat (inf_b cx ! 0) \<noteq> 10 * AES_BLOCK_SIZE \<and>
    unat (inf_b cx ! 0) \<noteq> 12 * AES_BLOCK_SIZE \<and> unat (inf_b cx ! 0) \<noteq> 14 * AES_BLOCK_SIZE)" by simp
  then show ?thesis
  proof (cases rule: rounds_cases)
    case 1
    then have "ni_encrypt c inp cx = Some (cipher sbox 10 (round_key ?k) inp)"
      using True S [of 0 9] last [of 9] by (simp add: ni_encrypt_def AES_BLOCK_SIZE_def b)
    then show ?thesis using aes_encrypt_cipher [of 10 cx inp] 1 l assms(3) by (simp add: valid_nr_def)
  next
    case 2
    then have "ni_encrypt c inp cx = Some (cipher sbox 12 (round_key ?k) inp)"
      using True S [of 0 2] S [of 2 9] last [of 11] by (simp flip: numeral_2_eq_2 add: ni_encrypt_def AES_BLOCK_SIZE_def b)
    then show ?thesis using aes_encrypt_cipher [of 12 cx inp] 2 l assms(3) by (simp add: valid_nr_def)
  next
    case 3
    then have "ni_encrypt c inp cx = Some (cipher sbox 14 (round_key ?k) inp)"
      using True S [of 0 2] S [of 2 2] S [of 4 9] last [of 13] by (simp flip: numeral_2_eq_2 add: ni_encrypt_def AES_BLOCK_SIZE_def b)
    then show ?thesis using aes_encrypt_cipher [of 14 cx inp] 3 l assms(3) by (simp add: valid_nr_def)
  qed
qed

lemma ni_decrypt_agrees:
  assumes "aes_instructions c" "length (ks cx) = KS_LENGTH" "length inp = 16"
  shows "ni_decrypt c inp cx = aes_decrypt False inp cx"
proof (cases "has_aes_ni c \<and> \<not> (unat (inf_b cx ! 0) \<noteq> 10 * AES_BLOCK_SIZE \<and>
    unat (inf_b cx ! 0) \<noteq> 12 * AES_BLOCK_SIZE \<and> unat (inf_b cx ! 0) \<noteq> 14 * AES_BLOCK_SIZE)")
  case False
  then show ?thesis by (auto simp: ni_decrypt_def aes_decrypt_def Let_def)
next
  case True
  let ?k = "ks cx"
  have l: "length ?k = 60" using assms(2) by (simp add: KS_LENGTH_def)
  obtain X where X: "X = (\<lambda>nr i. fold (dec_round ?k) (rev [i..<nr]) (add_round_key (round_key ?k nr) inp))" by simp
  have b: "mm_xor (mm_loadu inp 0) (get128 ?k nr) = X nr nr"
    and l0: "length (add_round_key (round_key ?k nr) inp) = 16" if "nr \<le> 14" for nr
    using assms(3) l that by (simp_all add: mm_xor_def mm_loadu_def add_round_key_def get128_round_key X)
  have len: "length (X nr n) = 16" if "nr \<le> 14" for nr n
    unfolding X by (rule length_dec_rounds) (use l l0 that in auto)
  have S: "(ni_dec_step c ?k ^^ n) (X nr i, i) = (X nr (i - n), i - n)" if "n \<le> i" "i \<le> nr" "nr \<le> 14" for i n nr
  proof -
    have "[i - n..<nr] = [i - n..<i] @ [i..<nr]"
      using that upt_add_eq_append [of "i - n" i "nr - i"] by simp
    then have "fold (dec_round ?k) (rev [i - n..<i]) (X nr i) = X nr (i - n)" by (simp add: X)
    then show ?thesis using ni_dec_steps [OF assms(1) len [of nr i], of i ?k n] that l by simp
  qed
  have last: "Some (mm_aesdeclast c (X nr 1) (get128 ?k 0)) = aes_decrypt False inp cx"
    if "unat (inf_b cx ! 0) = nr * 16" "valid_nr nr" for nr
  proof -
    have nr: "nr \<le> 14" using that by (auto simp: valid_nr_def)
    show ?thesis
      using instr(6) [OF assms(1) len [OF nr], of "round_key ?k 0"] nr l that assms(3)
        aes_decrypt_eq_inv_cipher [of nr cx inp False]
      by (simp add: get128_round_key eq_inv_cipher_def dec_key_def X)
  qed
  from True have "\<not> (unat (inf_b cx ! 0) \<noteq> 10 * AES_BLOCK_SIZE \<and>
    unat (inf_b cx ! 0) \<noteq> 12 * AES_BLOCK_SIZE \<and> unat (inf_b cx ! 0) \<noteq> 14 * AES_BLOCK_SIZE)" by simp
  then show ?thesis
  proof (cases rule: rounds_cases)
    case 1
    with True S [of 9 10 10] last [of 10] show ?thesis
      by (simp add: ni_decrypt_def AES_BLOCK_SIZE_def b valid_nr_def)
  next
    case 2
    with True S [of 2 12 12] S [of 9 10 12] last [of 12] show ?thesis
      by (simp add: ni_decrypt_def AES_BLOCK_SIZE_def b valid_nr_def)
  next
    case 3
    with True S [of 2 14 14] S [of 2 12 14] S [of 9 10 14] last [of 14] show ?thesis
      by (simp add: ni_decrypt_def AES_BLOCK_SIZE_def b valid_nr_def)
  qed
qed

subsection \<open>Vector operations on words\<close>

abbreviation w4 :: "u32 \<Rightarrow> u32 \<Rightarrow> u32 \<Rightarrow> u32 \<Rightarrow> m128" where
  "w4 a b c d \<equiv> st_bytes [a, b, c, d]"

lemma w4_bytes: "w4 a b c d = word_out a @ word_out b @ word_out c @ word_out d"
  by (simp add: st_bytes_def)

lemma word_out_0: "word_out 0 = [0, 0, 0, 0]"
  by (simp add: word_out_byte_of byte_of_def)

lemma mm_xor_w4: "mm_xor (w4 a b c d) (w4 x y z t) = w4 (a XOR x) (b XOR y) (c XOR z) (d XOR t)"
  by (simp add: mm_xor_def w4_bytes xor_simps)

lemma mm_slli_w4: "mm_slli_si128 (w4 a b c d) 4 = w4 0 a b c"
  by (simp add: mm_slli_si128_def w4_bytes word_out_0 eval_nat_numeral)

lemma mm_dword_w4:
  "mm_dword (w4 a b c d) 0 = word_out a" "mm_dword (w4 a b c d) (Suc 0) = word_out b"
  "mm_dword (w4 a b c d) 2 = word_out c" "mm_dword (w4 a b c d) 3 = word_out d"
  by (simp_all add: mm_dword_def w4_bytes)

lemma mm_shuffle_w4:
  "mm_shuffle_epi32 (w4 a b c d) 0xff = w4 d d d d" "mm_shuffle_epi32 (w4 a b c d) 0x55 = w4 b b b b"
  "mm_shuffle_epi32 (w4 a b c d) 0xaa = w4 c c c c"
  by (simp_all add: mm_shuffle_epi32_def mm_dword_w4 [simplified] mm_dword_w4) (simp_all add: w4_bytes)

lemma mm_shuffle_pd_w4:
  "mm_shuffle_pd (w4 a b c d) (w4 x y z t) 0 = w4 a b x y" "mm_shuffle_pd (w4 a b c d) (w4 x y z t) 1 = w4 c d x y"
  by (simp_all add: mm_shuffle_pd_def w4_bytes)

lemma word_in_w4:
  "word_in (w4 a b c d) 0 = a" "word_in (w4 a b c d) (Suc 0) = b" "word_in (w4 a b c d) 2 = c" "word_in (w4 a b c d) 3 = d"
  by (simp_all add: word_out_inj [symmetric] word_out_word_in del: word_out_inj) (simp_all add: w4_bytes)

lemma put128_w4: "put128 j (w4 a b c d) k = k[4*j := a, 4*j+1 := b, 4*j+2 := c, 4*j+3 := d]"
  by (simp add: put128_def word_in_w4)

lemma w4_words: "length s = 16 \<Longrightarrow> s = w4 (word_in s 0) (word_in s 1) (word_in s 2) (word_in s 3)"
  by (erule list16_exhaust) (simp add: w4_bytes word_out_byte_of)

text \<open>The round constant as a word, as the tables have it.\<close>

abbreviation rcw :: "byte \<Rightarrow> u32" where
  "rcw rc \<equiv> word_in [rc, 0, 0, 0] 0"

lemma rcw_t_rc:
  "rcw 0x01 = t_rc ! 0" "rcw 0x02 = t_rc ! 1" "rcw 0x04 = t_rc ! 2" "rcw 0x08 = t_rc ! 3" "rcw 0x10 = t_rc ! 4"
  "rcw 0x20 = t_rc ! 5" "rcw 0x40 = t_rc ! 6" "rcw 0x80 = t_rc ! 7" "rcw 0x1b = t_rc ! 8" "rcw 0x36 = t_rc ! 9"
  using rcon_vals
  by (simp_all add: word_out_inj [symmetric] word_out_word_in word_out_t_rc flip: numeral_2_eq_2 del: word_out_inj)

lemma rotate1_map: "rotate1 (map f xs) = map f (rotate1 xs)"
  by (cases xs) simp_all

lemma keygenassist_w4:
  "keygenassist (w4 a b c d) rc =
    w4 (ls_box b 0) (ls_box b 3 XOR rcw rc) (ls_box d 0) (ls_box d 3 XOR rcw rc)"
  by (simp add: keygenassist_def Let_def mm_dword_def w4_bytes rotate1_map word_out_ls_box
      word_out_xor word_out_word_in)

lemma mm_keygenassist_w4:
  "aes_instructions i \<Longrightarrow> mm_keygenassist i (w4 a b c d) rc =
    w4 (ls_box b 0) (ls_box b 3 XOR rcw rc) (ls_box d 0) (ls_box d 3 XOR rcw rc)"
  by (simp add: instr(2) keygenassist_w4)

lemma assist_w4:
  "aes_128_assist (w4 a b c d) (w4 x y z t) = w4 (a XOR t) (a XOR b XOR t) (a XOR b XOR c XOR t) (a XOR b XOR c XOR d XOR t)"
  "aes_256_assist1 (w4 a b c d) (w4 x y z t) = w4 (a XOR t) (a XOR b XOR t) (a XOR b XOR c XOR t) (a XOR b XOR c XOR d XOR t)"
  "aes_instructions i \<Longrightarrow> aes_256_assist2 i (w4 x y z t) (w4 a b c d) =
    w4 (a XOR ls_box t 0) (a XOR b XOR ls_box t 0) (a XOR b XOR c XOR ls_box t 0) (a XOR b XOR c XOR d XOR ls_box t 0)"
  by (simp_all add: aes_128_assist_def aes_256_assist1_def aes_256_assist2_def mm_slli_w4 mm_xor_w4 mm_shuffle_w4
      mm_keygenassist_w4 Let_def xor_ac)

lemma assist192_w4:
  "aes_192_assist (w4 a b c d) (w4 x y z t) (w4 e f g h) =
    (w4 (a XOR y) (a XOR b XOR y) (a XOR b XOR c XOR y) (a XOR b XOR c XOR d XOR y),
     w4 (e XOR (a XOR b XOR c XOR d XOR y)) (e XOR f XOR (a XOR b XOR c XOR d XOR y))
        (f XOR g XOR (a XOR b XOR c XOR d XOR y)) (g XOR h XOR (a XOR b XOR c XOR d XOR y)))"
  by (simp add: aes_192_assist_def mm_slli_w4 mm_xor_w4 mm_shuffle_w4 Let_def xor_ac)

subsection \<open>Schedules\<close>

lemma holds_put128:
  assumes "holds (\<lambda>i. i) D (4 * j) k" "j < 15"
    and "a = D (4 * j)" "b = D (4 * j + 1)" "c = D (4 * j + 2)" "d = D (4 * j + 3)"
  shows "holds (\<lambda>i. i) D (4 * j + 4) (put128 j (w4 a b c d) k)"
proof -
  have n: "4 * j + 1 = Suc (4 * j)" "4 * j + 2 = Suc (Suc (4 * j))" "4 * j + 3 = Suc (Suc (Suc (4 * j)))"
    "4 * j + 4 = Suc (Suc (Suc (Suc (4 * j))))" by simp_all
  show ?thesis
    using lay_enc.holds_update [OF lay_enc.holds_update [OF lay_enc.holds_update [OF lay_enc.holds_update [OF assms(1)]]]]
    assms(2-) unfolding put128_w4 n by simp
qed

lemma load_w4: "16 + n \<le> length key \<Longrightarrow> n = 4 * i \<Longrightarrow>
  mm_loadu key n = w4 (word_in key i) (word_in key (i + 1)) (word_in key (i + 2)) (word_in key (i + 3))"
  using w4_words [of "mm_loadu key n"] by (simp add: mm_loadu_def word_in_def add.commute)

text \<open>
  \<open>at128 key j st\<close>: round keys \<open>0\<close> to \<open>j\<close> are stored and \<open>t1\<close> is round key \<open>j\<close>. For
  the longer keys \<open>at_key nk key n\<close> says that \<open>n\<close> words are stored.
\<close>

abbreviation at_key :: "nat \<Rightarrow> byte list \<Rightarrow> nat \<Rightarrow> u32 list \<Rightarrow> bool" where
  "at_key nk key \<equiv> holds (\<lambda>i. i) (exp_word nk key)"

abbreviation kw4 :: "nat \<Rightarrow> byte list \<Rightarrow> nat \<Rightarrow> m128" where
  "kw4 nk key n \<equiv> w4 (exp_word nk key n) (exp_word nk key (n + 1)) (exp_word nk key (n + 2)) (exp_word nk key (n + 3))"

abbreviation at128 :: "byte list \<Rightarrow> nat \<Rightarrow> u32 list \<times> m128 \<Rightarrow> bool" where
  "at128 key j st \<equiv> at_key 4 key (4 * j + 4) (fst st) \<and> snd st = kw4 4 key (4 * j)"

lemma load4:
  assumes "32 \<le> length key"
  shows "mm_loadu key 16 = w4 (word_in key 4) (word_in key 5) (word_in key 6) (word_in key 7)"
proof -
  have n: "16 + 16 \<le> length key" "(16 :: nat) = 4 * 4" "4 + 1 = (5 :: nat)" "4 + 2 = (6 :: nat)" "4 + 3 = (7 :: nat)"
    using assms by simp_all
  show ?thesis using load_w4 [OF n(1,2)] unfolding n(3-) .
qed

lemma ni_step128:
  assumes "at128 key i st" "aes_instructions c" "length key = 16" "i < 10" "j = i + 1" "rcw rc = t_rc ! i"
  shows "at128 key j (ni_step128 c j rc st)"
proof -
  obtain k t where st: "st = (k, t)" by (cases st)
  note e = exp4 [OF assms(3,4)]
  have s: "snd (ni_step128 c j rc st) = kw4 4 key (4 * j)"
    using assms(1,5) e
    by (simp add: st ni_step128_def mm_keygenassist_w4 [OF assms(2)] assist_w4 assms(6) Let_def add.commute xor_ac)
  have "fst (ni_step128 c j rc st) = put128 j (snd (ni_step128 c j rc st)) k"
    by (simp add: st ni_step128_def Let_def)
  then have f: "fst (ni_step128 c j rc st) = put128 j (kw4 4 key (4 * j)) k"
    unfolding s .
  have "at_key 4 key (4 * j) k" using assms(1,5) by (simp add: st add.commute)
  then show ?thesis unfolding f using assms(4,5) by (intro conjI s holds_put128) simp_all
qed

lemma ks_set_rounds: "ks (set_rounds n (cx\<lparr>ks := k\<rparr>)) = k"
  by (simp add: set_rounds_def)

lemma ni_key128_holds:
  assumes "has_aes_ni c" "aes_instructions c" "length key = 16" "length (ks cx) = KS_LENGTH"
  shows "at_key 4 key 44 (ks (ni_encrypt_key128 c key cx))"
proof -
  obtain s0 where s0: "s0 = (put128 0 (mm_loadu key 0) (ks cx), mm_loadu key 0)" by simp
  have "at_key 4 key (4 * 0) (ks cx)" using assms(4) by (simp add: holds_def)
  then have 0: "at128 key 0 s0"
    unfolding s0 using holds_put128 [of "exp_word 4 key" 0 "ks cx", OF _ _ refl refl refl refl] assms(3)
    by (simp add: load_w4 [of 0 key 0] exp_word_key)
  obtain s1 where s1: "s1 = ni_step128 c 1 0x01 s0" by simp
  have 1: "at128 key 1 s1" unfolding s1 by (rule ni_step128 [OF 0 assms(2,3)]) (simp_all add: rcw_t_rc)
  obtain s2 where s2: "s2 = ni_step128 c 2 0x02 s1" by simp
  have 2: "at128 key 2 s2" unfolding s2 by (rule ni_step128 [OF 1 assms(2,3)]) (simp_all add: rcw_t_rc flip: numeral_2_eq_2)
  obtain s3 where s3: "s3 = ni_step128 c 3 0x04 s2" by simp
  have 3: "at128 key 3 s3" unfolding s3 by (rule ni_step128 [OF 2 assms(2,3)]) (simp_all add: rcw_t_rc)
  obtain s4 where s4: "s4 = ni_step128 c 4 0x08 s3" by simp
  have 4: "at128 key 4 s4" unfolding s4 by (rule ni_step128 [OF 3 assms(2,3)]) (simp_all add: rcw_t_rc)
  obtain s5 where s5: "s5 = ni_step128 c 5 0x10 s4" by simp
  have 5: "at128 key 5 s5" unfolding s5 by (rule ni_step128 [OF 4 assms(2,3)]) (simp_all add: rcw_t_rc)
  obtain s6 where s6: "s6 = ni_step128 c 6 0x20 s5" by simp
  have 6: "at128 key 6 s6" unfolding s6 by (rule ni_step128 [OF 5 assms(2,3)]) (simp_all add: rcw_t_rc)
  obtain s7 where s7: "s7 = ni_step128 c 7 0x40 s6" by simp
  have 7: "at128 key 7 s7" unfolding s7 by (rule ni_step128 [OF 6 assms(2,3)]) (simp_all add: rcw_t_rc)
  obtain s8 where s8: "s8 = ni_step128 c 8 0x80 s7" by simp
  have 8: "at128 key 8 s8" unfolding s8 by (rule ni_step128 [OF 7 assms(2,3)]) (simp_all add: rcw_t_rc)
  obtain s9 where s9: "s9 = ni_step128 c 9 0x1b s8" by simp
  have 9: "at128 key 9 s9" unfolding s9 by (rule ni_step128 [OF 8 assms(2,3)]) (simp_all add: rcw_t_rc)
  obtain s10 where s10: "s10 = ni_step128 c 10 0x36 s9" by simp
  have 10: "at128 key 10 s10" unfolding s10 by (rule ni_step128 [OF 9 assms(2,3)]) (simp_all add: rcw_t_rc)
  have "ks (ni_encrypt_key128 c key cx) = fst s10"
    unfolding ni_encrypt_key128_def Let_def s10 s9 s8 s7 s6 s5 s4 s3 s2 s1 s0
    using assms(1) by (simp only: not_True_eq_False if_False ks_set_rounds)
  then show ?thesis using 10 by simp
qed

text \<open>192 bits: only the low half of \<open>t3\<close> is part of the schedule.\<close>

lemma holds_mono: "holds v D n k \<Longrightarrow> m \<le> n \<Longrightarrow> holds v D m k"
  by (simp add: holds_def)

lemma holds_put128_low:
  assumes "holds (\<lambda>i. i) D (4 * j) k" "j < 15" "a = D (4 * j)" "b = D (4 * j + 1)"
  shows "holds (\<lambda>i. i) D (4 * j + 2) (put128 j (w4 a b x y) k)"
  using assms by (auto simp: holds_def put128_w4 KS_LENGTH_def nth_list_update less_Suc_eq)

definition at192 :: "byte list \<Rightarrow> nat \<Rightarrow> ni192 \<Rightarrow> bool" where
  "at192 key i = (\<lambda>(k, t1, t3). at_key 6 key (6 * i + 6) k \<and> t1 = kw4 6 key (6 * i) \<and>
     (\<exists>x y. t3 = w4 (exp_word 6 key (6 * i + 4)) (exp_word 6 key (6 * i + 5)) x y))"

lemma at192_assist:
  assumes "at192 key i (k, t1, t3)" "aes_instructions c" "length key = 24" "i < 8" "rcw rc = t_rc ! i"
  obtains x y where "aes_192_assist t1 (mm_keygenassist c t3 rc) t3 =
    (kw4 6 key (6 * i + 6), w4 (exp_word 6 key (6 * i + 10)) (exp_word 6 key (6 * i + 11)) x y)"
proof -
  obtain x y where t: "t1 = kw4 6 key (6 * i)" "t3 = w4 (exp_word 6 key (6 * i + 4)) (exp_word 6 key (6 * i + 5)) x y"
    using assms(1) by (auto simp: at192_def)
  note e = exp6 [OF assms(3,4)]
  have "aes_192_assist t1 (mm_keygenassist c t3 rc) t3 =
    (kw4 6 key (6 * i + 6), w4 (exp_word 6 key (6 * i + 10)) (exp_word 6 key (6 * i + 11))
      (exp_word 6 key (6 * i + 5) XOR x XOR exp_word 6 key (6 * i + 9)) (x XOR y XOR exp_word 6 key (6 * i + 9)))"
    unfolding t mm_keygenassist_w4 [OF assms(2)] assist192_w4 assms(5)
    using e by (simp add: add.commute xor_ac)
  then show ?thesis by (rule that)
qed

lemma get128_w4: "4 * j + 4 \<le> length k \<Longrightarrow> get128 k j = w4 (k ! (4*j)) (k ! (4*j+1)) (k ! (4*j+2)) (k ! (4*j+3))"
  by (simp add: get128_round_key round_key_def take_drop_map_nth upt_small)

lemma ni_step192a:
  assumes "at192 key i st" "aes_instructions c" "length key = 24" "i < 8" "rcw rc = t_rc ! i" "4 * j = 6 * i + 4"
  shows "at192 key (i + 1) (ni_step192a c j rc st)"
proof -
  obtain k t1 t3 where st: "st = (k, t1, t3)" by (cases st) auto
  obtain x y where a: "aes_192_assist t1 (mm_keygenassist c t3 rc) t3 =
    (kw4 6 key (6 * i + 6), w4 (exp_word 6 key (6 * i + 10)) (exp_word 6 key (6 * i + 11)) x y)"
    by (rule at192_assist [OF assms(1) [unfolded st] assms(2-5)])
  have h: "at_key 6 key (6 * i + 6) k" using assms(1) by (simp add: st at192_def)
  then have l: "4 * j + 4 \<le> length k" using assms(4,6) by (simp add: holds_def KS_LENGTH_def)
  have "k ! (4 * j) = exp_word 6 key (4 * j)" "k ! (4 * j + 1) = exp_word 6 key (4 * j + 1)"
    using h assms(6) by (auto simp: holds_def)
  then have s1: "mm_shuffle_pd (get128 k j) (kw4 6 key (6 * i + 6)) 0 = kw4 6 key (4 * j)"
    unfolding get128_w4 [OF l] mm_shuffle_pd_w4 using assms(6) by (simp add: add.commute)
  have s2: "mm_shuffle_pd (kw4 6 key (6 * i + 6)) (w4 (exp_word 6 key (6 * i + 10)) (exp_word 6 key (6 * i + 11)) x y) 1
      = kw4 6 key (4 * (j + 1))"
    unfolding mm_shuffle_pd_w4 using assms(6) by (simp add: add.commute)
  let ?k = "put128 (j + 1) (kw4 6 key (4 * (j + 1))) (put128 j (kw4 6 key (4 * j)) k)"
  have "at_key 6 key (4 * (j + 1)) (put128 j (kw4 6 key (4 * j)) k)"
    using holds_put128 [of "exp_word 6 key" j k, OF holds_mono [OF h] _ refl refl refl refl] assms(4,6) by (simp add: add.commute)
  from holds_put128 [of "exp_word 6 key" "j + 1", OF this _ refl refl refl refl]
  have "at_key 6 key (6 * (i + 1) + 6) ?k" using assms(4,6) by (simp add: add.commute)
  moreover have "ni_step192a c j rc st =
    (?k, kw4 6 key (6 * i + 6), w4 (exp_word 6 key (6 * i + 10)) (exp_word 6 key (6 * i + 11)) x y)"
    unfolding st ni_step192a_def Let_def prod.case a s1 s2 ..
  ultimately show ?thesis by (auto simp: at192_def add.commute)
qed

lemma ni_step192b:
  assumes "at192 key i st" "aes_instructions c" "length key = 24" "i < 8" "rcw rc = t_rc ! i" "4 * j = 6 * i + 6" "j < 14"
  shows "at192 key (i + 1) (ni_step192b c j rc st) \<and> at_key 6 key (4 * j + 4) (ni_last192 c j rc st)"
proof -
  obtain k t1 t3 where st: "st = (k, t1, t3)" by (cases st) auto
  obtain x y where a: "aes_192_assist t1 (mm_keygenassist c t3 rc) t3 =
    (kw4 6 key (6 * i + 6), w4 (exp_word 6 key (6 * i + 10)) (exp_word 6 key (6 * i + 11)) x y)"
    by (rule at192_assist [OF assms(1) [unfolded st] assms(2-5)])
  have h: "at_key 6 key (4 * j) k" using assms(1,6) by (simp add: st at192_def)
  let ?t = "w4 (exp_word 6 key (6 * i + 10)) (exp_word 6 key (6 * i + 11)) x y"
  have one: "at_key 6 key (4 * (j + 1)) (put128 j (kw4 6 key (4 * j)) k)"
    using holds_put128 [of "exp_word 6 key" j k, OF h _ refl refl refl refl] assms(7) by (simp add: add.commute)
  then have "at_key 6 key (6 * (i + 1) + 6) (put128 (j + 1) ?t (put128 j (kw4 6 key (4 * j)) k))"
    using holds_put128_low [OF one, of "exp_word 6 key (6 * i + 10)" "exp_word 6 key (6 * i + 11)" x y] assms(6,7)
    by (simp add: add.commute)
  then show ?thesis
    using one assms(6) by (auto simp: st ni_step192b_def ni_last192_def a at192_def add.commute)
qed

lemma word_in_take: "4 * i + 4 \<le> n \<Longrightarrow> word_in (take n mem) i = word_in mem i"
  by (simp add: word_in_def)

lemma ni_key192_holds:
  assumes "has_aes_ni c" "aes_instructions c" "32 \<le> length mem" "length (ks cx) = KS_LENGTH"
  shows "at_key 6 (take 24 mem) 52 (ks (ni_encrypt_key192 c mem cx))"
proof -
  let ?key = "take 24 mem"
  have k: "length ?key = 24" using assms(3) by simp
  have w: "word_in mem i = exp_word 6 ?key i" if "i < 6" for i
    using that exp_word_key [of ?key 6 i] k word_in_take [of i 24 mem] by simp
  obtain t1 t3 where t: "t1 = mm_loadu mem 0" "t3 = mm_loadu mem 16" by simp
  have t1: "t1 = kw4 6 ?key (4 * 0)" using load_w4 [of 0 mem 0] assms(3) by (simp add: t w)
  have t3: "t3 = w4 (exp_word 6 ?key 4) (exp_word 6 ?key 5) (word_in mem 6) (word_in mem 7)"
    unfolding t load4 [OF assms(3)] using w [of 4] w [of 5] by simp
  obtain s0 where s0: "s0 = (put128 1 t3 (put128 0 t1 (ks cx)), t1, t3)" by simp
  have "at_key 6 ?key (4 * 0) (ks cx)" using assms(4) by (simp add: holds_def)
  from holds_put128 [OF this _ refl refl refl refl] have "at_key 6 ?key (4 * 1) (put128 0 t1 (ks cx))"
    unfolding t1 by simp
  from holds_put128_low [OF this, of "exp_word 6 ?key 4" "exp_word 6 ?key 5"]
  have "at_key 6 ?key 6 (put128 1 t3 (put128 0 t1 (ks cx)))" unfolding t3 by simp
  then have 0: "at192 ?key 0 s0" unfolding s0 at192_def prod.case using t1 t3 by auto
  obtain s1 where s1: "s1 = ni_step192a c 1 0x01 s0" by simp
  have 1: "at192 ?key 1 s1"
    using ni_step192a [OF 0 assms(2) k, of "0x01" 1] by (simp add: s1 rcw_t_rc)
  obtain s2 where s2: "s2 = ni_step192b c 3 0x02 s1" by simp
  have 2: "at192 ?key 2 s2"
    using ni_step192b [OF 1 assms(2) k, of "0x02" 3] by (simp add: s2 rcw_t_rc flip: numeral_2_eq_2)
  obtain s3 where s3: "s3 = ni_step192a c 4 0x04 s2" by simp
  have 3: "at192 ?key 3 s3"
    using ni_step192a [OF 2 assms(2) k, of "0x04" 4] by (simp add: s3 rcw_t_rc)
  obtain s4 where s4: "s4 = ni_step192b c 6 0x08 s3" by simp
  have 4: "at192 ?key 4 s4"
    using ni_step192b [OF 3 assms(2) k, of "0x08" 6] by (simp add: s4 rcw_t_rc)
  obtain s5 where s5: "s5 = ni_step192a c 7 0x10 s4" by simp
  have 5: "at192 ?key 5 s5"
    using ni_step192a [OF 4 assms(2) k, of "0x10" 7] by (simp add: s5 rcw_t_rc)
  obtain s6 where s6: "s6 = ni_step192b c 9 0x20 s5" by simp
  have 6: "at192 ?key 6 s6"
    using ni_step192b [OF 5 assms(2) k, of "0x20" 9] by (simp add: s6 rcw_t_rc)
  obtain s7 where s7: "s7 = ni_step192a c 10 0x40 s6" by simp
  have 7: "at192 ?key 7 s7"
    using ni_step192a [OF 6 assms(2) k, of "0x40" 10] by (simp add: s7 rcw_t_rc)
  have "at_key 6 ?key 52 (ni_last192 c 12 0x80 s7)"
    using ni_step192b [OF 7 assms(2) k, of "0x80" 12] by (simp add: rcw_t_rc)
  moreover have "ks (ni_encrypt_key192 c mem cx) = ni_last192 c 12 0x80 s7"
    unfolding ni_encrypt_key192_def Let_def s7 s6 s5 s4 s3 s2 s1 s0 t
    using assms(1) by (simp only: not_True_eq_False if_False ks_set_rounds)
  ultimately show ?thesis by simp
qed

text \<open>256 bits.\<close>

definition at256 :: "byte list \<Rightarrow> nat \<Rightarrow> ni192 \<Rightarrow> bool" where
  "at256 key i = (\<lambda>(k, t1, t3). at_key 8 key (8 * i + 8) k \<and> t1 = kw4 8 key (8 * i) \<and> t3 = kw4 8 key (8 * i + 4))"

lemma ni_half256:
  assumes "at256 key i st" "aes_instructions c" "length key = 32" "i < 7" "rcw rc = t_rc ! i" "j = 2 * i + 2"
  obtains k where "ni_half256 c j rc st = (k, kw4 8 key (8 * i + 8), kw4 8 key (8 * i + 4))" "at_key 8 key (8 * i + 12) k"
proof -
  obtain k where st: "st = (k, kw4 8 key (8 * i), kw4 8 key (8 * i + 4))" and h: "at_key 8 key (8 * i + 8) k"
    using assms(1) by (cases st) (auto simp: at256_def)
  have e: "kw4 8 key (8 * i + 8) = aes_256_assist1 (kw4 8 key (8 * i)) (mm_keygenassist c (kw4 8 key (8 * i + 4)) rc)"
    unfolding mm_keygenassist_w4 [OF assms(2)] assist_w4 assms(5) using exp8 [OF assms(3,4)]
    by (simp add: add.commute xor_ac)
  have "at_key 8 key (4 * j + 4) (put128 j (kw4 8 key (4 * j)) k)"
    by (rule holds_put128) (use h assms(4,6) in \<open>simp_all add: add.commute\<close>)
  then have "at_key 8 key (8 * i + 12) (put128 j (kw4 8 key (8 * i + 8)) k)" using assms(6) by (simp add: add.commute)
  moreover have "ni_half256 c j rc st = (put128 j (kw4 8 key (8 * i + 8)) k, kw4 8 key (8 * i + 8), kw4 8 key (8 * i + 4))"
    unfolding st ni_half256_def Let_def prod.case e ..
  ultimately show ?thesis using that by blast
qed

lemma ni_step256:
  assumes "at256 key i st" "aes_instructions c" "length key = 32" "i < 6" "rcw rc = t_rc ! i" "j = 2 * i + 2"
    and "n = i + 1"
  shows "at256 key n (ni_step256 c j rc st)"
proof -
  obtain k where n: "ni_half256 c j rc st = (k, kw4 8 key (8 * i + 8), kw4 8 key (8 * i + 4))"
    and h: "at_key 8 key (8 * i + 12) k"
    by (rule ni_half256 [OF assms(1-3) _ assms(5,6)]) (use assms(4) in simp)
  have "i < 7" using assms(4) by simp
  have e: "kw4 8 key (8 * i + 12) = aes_256_assist2 c (kw4 8 key (8 * i + 8)) (kw4 8 key (8 * i + 4))"
    unfolding assist_w4(3) [OF assms(2)] using exp8 [OF assms(3) \<open>i < 7\<close>]
    by (simp add: add.commute xor_ac)
  have "at_key 8 key (4 * (j + 1) + 4) (put128 (j + 1) (kw4 8 key (4 * (j + 1))) k)"
    by (rule holds_put128) (use h assms(4,6) in \<open>simp_all add: add.commute\<close>)
  then show ?thesis using assms(6)
    unfolding ni_step256_def n Let_def prod.case e [symmetric] at256_def assms(7) by (simp add: add.commute)
qed

lemma ni_key256_holds:
  assumes "has_aes_ni c" "aes_instructions c" "length key = 32" "length (ks cx) = KS_LENGTH"
  shows "at_key 8 key 60 (ks (ni_encrypt_key256 c key cx))"
proof -
  have w: "word_in key i = exp_word 8 key i" if "i < 8" for i
    using that exp_word_key [of key 8 i] assms(3) by simp
  obtain t1 t3 where t: "t1 = mm_loadu key 0" "t3 = mm_loadu key 16" by simp
  have t1: "t1 = kw4 8 key (4 * 0)" using load_w4 [of 0 key 0] assms(3) by (simp add: t w)
  have t3: "t3 = kw4 8 key (4 * 1)" 
    unfolding t using load4 [of key] assms(3) w [of 4] w [of 5] w [of 6] w [of 7] by simp
  obtain s0 where s0: "s0 = (put128 1 t3 (put128 0 t1 (ks cx)), t1, t3)" by simp
  have "at_key 8 key (4 * 0) (ks cx)" using assms(4) by (simp add: holds_def)
  from holds_put128 [OF this _ refl refl refl refl] have "at_key 8 key (4 * 1) (put128 0 t1 (ks cx))"
    unfolding t1 by simp
  from holds_put128 [OF this _ refl refl refl refl] have "at_key 8 key 8 (put128 1 t3 (put128 0 t1 (ks cx)))"
    unfolding t3 by simp
  then have 0: "at256 key 0 s0" unfolding s0 at256_def prod.case using t1 t3 by simp
  obtain s1 where s1: "s1 = ni_step256 c 2 0x01 s0" by simp
  have 1: "at256 key 1 s1"
    unfolding s1 by (rule ni_step256 [OF 0 assms(2,3), of "0x01" 2]) (simp_all add: rcw_t_rc)
  obtain s2 where s2: "s2 = ni_step256 c 4 0x02 s1" by simp
  have 2: "at256 key 2 s2"
    unfolding s2 by (rule ni_step256 [OF 1 assms(2,3), of "0x02" 4]) (simp_all add: rcw_t_rc)
  obtain s3 where s3: "s3 = ni_step256 c 6 0x04 s2" by simp
  have 3: "at256 key 3 s3"
    unfolding s3 by (rule ni_step256 [OF 2 assms(2,3), of "0x04" 6]) (simp_all add: rcw_t_rc)
  obtain s4 where s4: "s4 = ni_step256 c 8 0x08 s3" by simp
  have 4: "at256 key 4 s4"
    unfolding s4 by (rule ni_step256 [OF 3 assms(2,3), of "0x08" 8]) (simp_all add: rcw_t_rc)
  obtain s5 where s5: "s5 = ni_step256 c 10 0x10 s4" by simp
  have 5: "at256 key 5 s5"
    unfolding s5 by (rule ni_step256 [OF 4 assms(2,3), of "0x10" 10]) (simp_all add: rcw_t_rc)
  obtain s6 where s6: "s6 = ni_step256 c 12 0x20 s5" by simp
  have 6: "at256 key 6 s6"
    unfolding s6 by (rule ni_step256 [OF 5 assms(2,3), of "0x20" 12]) (simp_all add: rcw_t_rc)
  obtain k where n: "ni_half256 c 14 0x40 s6 = (k, kw4 8 key 56, kw4 8 key 52)" and h: "at_key 8 key 60 k"
    by (rule ni_half256 [OF 6 assms(2,3) _ rcw_t_rc(7), of 14]) simp_all
  have "ks (ni_encrypt_key256 c key cx) = fst (ni_half256 c 14 0x40 s6)"
    unfolding ni_encrypt_key256_def Let_def s6 s5 s4 s3 s2 s1 s0 t
    using assms(1) by (simp only: not_True_eq_False if_False case_prod_beta ks_set_rounds)
  then show ?thesis using h n by simp
qed

text \<open>\<open>enc_to_dec\<close> applies \<open>InvMixColumns\<close> to the inner round keys.\<close>

lemma mm_aesimc_w4:
  "aes_instructions i \<Longrightarrow> mm_aesimc i (w4 a b c d) = w4 (inv_mcol a) (inv_mcol b) (inv_mcol c) (inv_mcol d)"
  using instr(1) [of i "w4 a b c d"] st_bytes_inv_mcol [of "[a, b, c, d]"] by simp

lemma enc_to_dec_fold:
  assumes "aes_instructions c" "holds (\<lambda>i. i) D N k" "1 \<le> n" "4 * n \<le> N" "N \<le> KS_LENGTH"
  shows "holds (\<lambda>i. i) (\<lambda>m. if m < 4 \<or> 4 * n \<le> m then D m else inv_mcol (D m)) N
    (fold (\<lambda>j k. put128 j (mm_aesimc c (get128 k j)) k) [1..<n] k)"
  using assms(3,4)
proof (induction n)
  case (Suc n)
  show ?case
  proof (cases "n = 0")
    case True
    then show ?thesis using assms(2) by (simp add: holds_def not_less)
  next
    case False
    let ?f = "fold (\<lambda>j k. put128 j (mm_aesimc c (get128 k j)) k) [1..<n] k"
    have h: "holds (\<lambda>i. i) (\<lambda>m. if m < 4 \<or> 4 * n \<le> m then D m else inv_mcol (D m)) N ?f"
      using Suc False by simp
    then have l: "length ?f = 60" by (simp add: holds_def KS_LENGTH_def)
    have w: "?f ! (4 * n + i) = D (4 * n + i)" if "i < 4" for i
      using h that Suc.prems by (simp add: holds_def)
    have "get128 ?f n = w4 (D (4 * n)) (D (4 * n + 1)) (D (4 * n + 2)) (D (4 * n + 3))"
      using get128_w4 [of n ?f] w [of 0] w [of 1] w [of 2] w [of 3] l Suc.prems assms(5) by (simp add: KS_LENGTH_def)
    then have e: "fold (\<lambda>j k. put128 j (mm_aesimc c (get128 k j)) k) [1..<Suc n] k =
      put128 n (w4 (inv_mcol (D (4 * n))) (inv_mcol (D (4 * n + 1))) (inv_mcol (D (4 * n + 2))) (inv_mcol (D (4 * n + 3)))) ?f"
      using False by (simp add: mm_aesimc_w4 [OF assms(1)])
    have m: "m = 4 * n \<or> m = 4 * n + 1 \<or> m = 4 * n + 2 \<or> m = 4 * n + 3 \<or> m < 4 * n \<or> 4 * n + 4 \<le> m" for m by arith
    have "put128 n (w4 (inv_mcol (D (4 * n))) (inv_mcol (D (4 * n + 1))) (inv_mcol (D (4 * n + 2))) (inv_mcol (D (4 * n + 3)))) ?f ! m =
        (if m < 4 \<or> 4 * Suc n \<le> m then D m else inv_mcol (D m))" if "m < N" for m
      using m [of m] h that False l assms(5) Suc.prems
      by (auto simp: holds_def put128_w4 nth_list_update KS_LENGTH_def)
    then show ?thesis using h unfolding e by (simp add: holds_def put128_w4)
  qed
qed simp

lemma holds_enc_to_dec:
  assumes "aes_instructions c" "holds (\<lambda>i. i) (exp_word nk key) (4 * nr + 4) (ks cx)"
    and "unat (inf_b cx ! 0) = nr * 16" "1 \<le> nr" "4 * nr + 4 \<le> KS_LENGTH"
  shows "holds (v_idx False (4 * nr)) (dec_word nr nk key) (4 * nr + 4) (ks (enc_to_dec c cx))"
proof -
  have v: "v_idx False (4 * nr) = (\<lambda>i. i)" by (simp add: v_idx_def fun_eq_iff)
  have d: "dec_word nr nk key = (\<lambda>m. if m < 4 \<or> 4 * nr \<le> m then exp_word nk key m else inv_mcol (exp_word nk key m))"
    by (simp add: dec_word_def fun_eq_iff)
  show ?thesis unfolding v d
    using enc_to_dec_fold [OF assms(1,2,4) _ assms(5)] by (simp add: enc_to_dec_def assms(3))
qed

subsection \<open>Contexts\<close>

text \<open>Only the bytes of the key matter, not what the memory holds behind them.\<close>

lemma word_in_append: "4 * i + 4 \<le> length key \<Longrightarrow> word_in (key @ r) i = word_in key i"
  by (simp add: word_in_def nth_append)

lemma key_in_append: "4 * nk \<le> length key \<Longrightarrow> key_in (key @ r) nk k = key_in key nk k"
  by (auto simp: key_in_def word_in_append intro!: fold_cong)

lemma key_in_dec_append: "4 * nk \<le> length key \<Longrightarrow> key_in_dec v (key @ r) nk n k = key_in_dec v key nk n k"
  by (auto simp: key_in_dec_def word_in_append intro!: fold_cong)

lemma aes_key_append:
  "16 \<le> length key \<Longrightarrow> aes_encrypt_key128 (key @ r) cx = aes_encrypt_key128 key cx"
  "16 \<le> length key \<Longrightarrow> aes_decrypt_key128 rd (key @ r) cx = aes_decrypt_key128 rd key cx"
  "24 \<le> length key \<Longrightarrow> aes_encrypt_key192 (key @ r) cx = aes_encrypt_key192 key cx"
  "24 \<le> length key \<Longrightarrow> aes_decrypt_key192 rd (key @ r) cx = aes_decrypt_key192 rd key cx"
  "32 \<le> length key \<Longrightarrow> aes_encrypt_key256 (key @ r) cx = aes_encrypt_key256 key cx"
  "32 \<le> length key \<Longrightarrow> aes_decrypt_key256 rd (key @ r) cx = aes_decrypt_key256 rd key cx"
  by (simp_all add: aes_encrypt_key128_def aes_decrypt_key128_def aes_encrypt_key192_def aes_decrypt_key192_def
      aes_encrypt_key256_def aes_decrypt_key256_def key_in_append key_in_dec_append)

lemma mm_loadu_append: "n + 16 \<le> length key \<Longrightarrow> mm_loadu (key @ r) n = mm_loadu key n"
  by (simp add: mm_loadu_def)

lemma ni_key_append:
  "16 \<le> length key \<Longrightarrow> ni_encrypt_key128 c (key @ r) cx = ni_encrypt_key128 c key cx"
  "32 \<le> length key \<Longrightarrow> ni_encrypt_key256 c (key @ r) cx = ni_encrypt_key256 c key cx"
  unfolding ni_encrypt_key128_def ni_encrypt_key256_def
  by (simp_all add: mm_loadu_append aes_key_append del: One_nat_def)

lemma inf_b_set_rounds: "n \<in> {10, 12, 14} \<Longrightarrow> inf_b (set_rounds n cx) = [word_of_nat (n * 16), 0, 0, 0]"
  by (auto simp: set_rounds_def AES_BLOCK_SIZE_def eval_nat_numeral)

lemma ni_key_inf_b:
  assumes "has_aes_ni c"
  shows "inf_b (ni_encrypt_key128 c key cx) = [160, 0, 0, 0]" "inf_b (ni_encrypt_key192 c key cx) = [192, 0, 0, 0]"
    and "inf_b (ni_encrypt_key256 c key cx) = [224, 0, 0, 0]"
  using assms unfolding ni_encrypt_key128_def ni_encrypt_key192_def ni_encrypt_key256_def Let_def
  by (simp_all only: not_True_eq_False if_False case_prod_beta inf_b_set_rounds [of 10, simplified]
      inf_b_set_rounds [of 12, simplified] inf_b_set_rounds [of 14, simplified])

lemma inf_b_enc_to_dec [simp]: "inf_b (enc_to_dec c cx) = inf_b cx"
  by (simp add: enc_to_dec_def)

lemma ni_enc_key_ctx:
  assumes "aes_instructions c" "aes_key_len key n" "length (ks cx) = KS_LENGTH" "length key = 24 \<Longrightarrow> 8 \<le> length r"
  shows "\<exists>e. ni_encrypt_key c (key @ r) n cx = Some e \<and> enc_keyed key e \<and> inf_b e ! 2 = (if has_aes_ni c then 0 else 1)"
proof (cases "has_aes_ni c")
  case False
  have "ni_encrypt_key c (key @ r) n cx = aes_encrypt_key key n cx"
    using False assms(2) by (auto simp: ni_encrypt_key_def aes_encrypt_key_def aes_key_len_def aes_key_append
        ni_encrypt_key128_def ni_encrypt_key192_def ni_encrypt_key256_def)
  then show ?thesis using enc_key_ctx [OF assms(2,3)] False by simp
next
  case True
  consider "length key = 16" | "length key = 24" | "length key = 32" using assms(2) by (auto simp: aes_key_len_def)
  then show ?thesis
  proof cases
    case 1
    then show ?thesis using True assms(2) ni_key128_holds [OF True assms(1) _ assms(3), of key]
      by (auto simp: ni_encrypt_key_def aes_key_len_def ni_key_append ni_key_inf_b enc_keyed_def aes_rounds_def)
  next
    case 2
    then show ?thesis using True assms(2,4) ni_key192_holds [OF True assms(1) _ assms(3), of "key @ r"]
      by (auto simp: ni_encrypt_key_def aes_key_len_def ni_key_inf_b enc_keyed_def aes_rounds_def)
  next
    case 3
    then show ?thesis using True assms(2) ni_key256_holds [OF True assms(1) _ assms(3), of key]
      by (auto simp: ni_encrypt_key_def aes_key_len_def ni_key_append ni_key_inf_b enc_keyed_def aes_rounds_def)
  qed
qed

lemma ni_dec_key_ctx:
  assumes "aes_instructions c" "aes_key_len key n" "length (ks cx) = KS_LENGTH" "length key = 24 \<Longrightarrow> 8 \<le> length r"
  shows "\<exists>d. ni_decrypt_key c (key @ r) n cx = Some d \<and> dec_keyed False key d \<and> inf_b d ! 2 = 0"
proof (cases "has_aes_ni c")
  case False
  have "ni_decrypt_key c (key @ r) n cx = aes_decrypt_key False key n cx"
    using False assms(2) by (auto simp: ni_decrypt_key_def aes_decrypt_key_def aes_key_len_def aes_key_append
        ni_decrypt_key128_def ni_decrypt_key192_def ni_decrypt_key256_def)
  then show ?thesis using dec_key_ctx [OF assms(2,3), of False] by simp
next
  case True
  obtain e where e: "ni_encrypt_key c (key @ r) n cx = Some e" "enc_keyed key e" "inf_b e ! 2 = 0"
    using ni_enc_key_ctx [OF assms] True by auto
  have "ni_decrypt_key c (key @ r) n cx = Some (enc_to_dec c e)"
    using True e(1) by (auto simp: ni_decrypt_key_def ni_encrypt_key_def ni_decrypt_key128_def ni_decrypt_key192_def
        ni_decrypt_key256_def split: if_splits)
  moreover have "dec_keyed False key (enc_to_dec c e)"
    using e(2) holds_enc_to_dec [OF assms(1), of "length key div 4" key "aes_rounds key" e]
      ctx_bounds [of key] by (auto simp: enc_keyed_def dec_keyed_def)
  ultimately show ?thesis using e(3) by simp
qed

subsection \<open>Properties\<close>

text \<open>A processor that behaves as documented, with and without the AES instructions.\<close>

definition spec_cpu :: "u32 \<Rightarrow> cpu" where
  "spec_cpu ecx = \<lparr>cpuid_ecx = ecx, mm_aesenc = (\<lambda>s k. spec_round sbox k s), mm_aesenclast = (\<lambda>s k. spec_last_round sbox k s),
     mm_aesdec = (\<lambda>s k. add_round_key k (inv_mix_columns (sub_bytes inv_sbox (inv_shift_rows s)))),
     mm_aesdeclast = (\<lambda>s k. inv_last_round inv_sbox k s), mm_aesimc = inv_mix_columns, mm_keygenassist = keygenassist\<rparr>"

lemma spec_cpu_instructions: "aes_instructions (spec_cpu ecx)"
  by (simp add: aes_instructions_def spec_cpu_def)

lemma spec_cpu_has: "has_aes_ni (spec_cpu 0x02000000)" "\<not> has_aes_ni (spec_cpu 0)"
  by (simp_all add: has_aes_ni_def has_aes_ni_test_def spec_cpu_def)

text \<open>C14: under the same key the functions with the AES instructions compute the cipher of the table-driven ones: the contexts
  that \<open>ni_encrypt_key\<close> and \<open>aes_encrypt_key\<close> make encrypt every block alike, those of \<open>ni_decrypt_key\<close> and \<open>aes_decrypt_key\<close>
  decrypt it again, and on each single context of full size, keyed or not, the block functions of both kinds return the
  same, failures included. The 192-bit schedule reads eight bytes \<open>r\<close> behind the key, which have no influence.\<close>

theorem ni_blocks_agree:
  assumes "aes_instructions c" "length key \<in> {16, 24, 32}" "n = int (length key) \<or> n = 8 * int (length key)"
    and "length (ks cx) = KS_LENGTH" "length key = 24 \<longrightarrow> 8 \<le> length r" "length p = 16"
  shows "(\<exists>e d se sd. ni_encrypt_key c (key @ r) n cx = Some e \<and> ni_decrypt_key c (key @ r) n cx = Some d \<and>
      aes_encrypt_key key n cx = Some se \<and> aes_decrypt_key False key n cx = Some sd \<and>
      ni_encrypt c p e = Some (aes_cipher key p) \<and> aes_encrypt p se = Some (aes_cipher key p) \<and>
      ni_decrypt c (aes_cipher key p) d = Some p \<and> aes_decrypt False (aes_cipher key p) sd = Some p) \<and>
    ni_encrypt c p cx = aes_encrypt p cx \<and> ni_decrypt c p cx = aes_decrypt False p cx"
proof -
  have kl: "aes_key_len key n" using assms(2,3) by (simp add: aes_key_len_def)
  obtain e d where ni: "ni_encrypt_key c (key @ r) n cx = Some e" "enc_keyed key e"
    "ni_decrypt_key c (key @ r) n cx = Some d" "dec_keyed False key d"
    using ni_enc_key_ctx [OF assms(1) _ assms(4), of key n r] ni_dec_key_ctx [OF assms(1) _ assms(4), of key n r] assms(5) kl
    by auto
  obtain se where se: "aes_encrypt_key key n cx = Some se" "enc_keyed key se"
    using enc_key_ctx [OF kl assms(4)] by blast
  obtain sd where sd: "aes_decrypt_key False key n cx = Some sd" "dec_keyed False key sd"
    using dec_key_ctx [OF kl assms(4)] by blast
  have l: "length (ks e) = KS_LENGTH" "length (ks d) = KS_LENGTH" using ni(2,4) by (simp_all add: enc_keyed_def dec_keyed_def holds_def)
  have c: "length (aes_cipher key p) = 16" using assms(2) by (simp del: insert_iff)
  have "ni_encrypt c p e = Some (aes_cipher key p)" "aes_encrypt p se = Some (aes_cipher key p)"
    using ni_encrypt_agrees [OF assms(1) l(1) assms(6)] aes_encrypt_ctx [OF ni(2) assms(6)] aes_encrypt_ctx [OF se(2) assms(6)]
    by simp_all
  moreover have "ni_decrypt c (aes_cipher key p) d = Some p" "aes_decrypt False (aes_cipher key p) sd = Some p"
    using ni_decrypt_agrees [OF assms(1) l(2) c] aes_decrypt_ctx [OF ni(4) c] aes_decrypt_ctx [OF sd(2) c]
      aes_inv_cipher_cipher [OF assms(2,6)] by simp_all
  moreover have "ni_encrypt c p cx = aes_encrypt p cx" "ni_decrypt c p cx = aes_decrypt False p cx"
    using ni_encrypt_agrees [OF assms(1,4,6)] ni_decrypt_agrees [OF assms(1,4,6)] by simp_all
  ultimately show ?thesis using ni(1,3) se(1) sd(1) by blast
qed

theorem ni_blocks_agree_witness:
  "(\<exists>e d se sd. ni_encrypt_key (spec_cpu 0x02000000) (replicate 24 1 @ replicate 8 9) 192 \<lparr>ks = replicate 60 5, inf_b = [192, 0, 0, 0]\<rparr> = Some e \<and>
      ni_decrypt_key (spec_cpu 0x02000000) (replicate 24 1 @ replicate 8 9) 192 \<lparr>ks = replicate 60 5, inf_b = [192, 0, 0, 0]\<rparr> = Some d \<and>
      aes_encrypt_key (replicate 24 1) 192 \<lparr>ks = replicate 60 5, inf_b = [192, 0, 0, 0]\<rparr> = Some se \<and>
      aes_decrypt_key False (replicate 24 1) 192 \<lparr>ks = replicate 60 5, inf_b = [192, 0, 0, 0]\<rparr> = Some sd \<and>
      ni_encrypt (spec_cpu 0x02000000) (replicate 16 7) e = Some (aes_cipher (replicate 24 1) (replicate 16 7)) \<and>
      aes_encrypt (replicate 16 7) se = Some (aes_cipher (replicate 24 1) (replicate 16 7)) \<and>
      ni_decrypt (spec_cpu 0x02000000) (aes_cipher (replicate 24 1) (replicate 16 7)) d = Some (replicate 16 7) \<and>
      aes_decrypt False (aes_cipher (replicate 24 1) (replicate 16 7)) sd = Some (replicate 16 7)) \<and>
    ni_encrypt (spec_cpu 0x02000000) (replicate 16 7) \<lparr>ks = replicate 60 5, inf_b = [192, 0, 0, 0]\<rparr> =
      aes_encrypt (replicate 16 7) \<lparr>ks = replicate 60 5, inf_b = [192, 0, 0, 0]\<rparr> \<and>
    ni_decrypt (spec_cpu 0x02000000) (replicate 16 7) \<lparr>ks = replicate 60 5, inf_b = [192, 0, 0, 0]\<rparr> =
      aes_decrypt False (replicate 16 7) \<lparr>ks = replicate 60 5, inf_b = [192, 0, 0, 0]\<rparr>"
  by (rule ni_blocks_agree [OF spec_cpu_instructions]) (simp_all add: KS_LENGTH_def)

text \<open>With or without the AES instructions, the key functions make contexts of \<open>KeyExpansion\<close> for encryption and for
  decryption. The 192-bit schedule reads eight bytes behind the key, which have no influence.\<close>

theorem ni_key_schedule:
  assumes "aes_instructions c" "length key \<in> {16, 24, 32}" "n = int (length key) \<or> n = 8 * int (length key)"
    and "length (ks cx) = KS_LENGTH" "length key = 24 \<longrightarrow> 8 \<le> length r"
  shows "\<exists>e d. ni_encrypt_key c (key @ r) n cx = Some e \<and> enc_keyed key e \<and>
    ni_decrypt_key c (key @ r) n cx = Some d \<and> dec_keyed False key d"
  using ni_enc_key_ctx [OF assms(1) _ assms(4), of key n r] ni_dec_key_ctx [OF assms(1) _ assms(4), of key n r] assms
  by (auto simp: aes_key_len_def)

theorem ni_key_schedule_witness:
  "\<exists>e d. ni_encrypt_key (spec_cpu 0x02000000) (replicate 24 1 @ replicate 8 9) 192 \<lparr>ks = replicate 60 0, inf_b = [0, 0, 0, 0]\<rparr> = Some e \<and>
     enc_keyed (replicate 24 1) e \<and>
     ni_decrypt_key (spec_cpu 0x02000000) (replicate 24 1 @ replicate 8 9) 192 \<lparr>ks = replicate 60 0, inf_b = [0, 0, 0, 0]\<rparr> = Some d \<and>
     dec_keyed False (replicate 24 1) d"
  by (rule ni_key_schedule [OF spec_cpu_instructions]) (simp_all add: KS_LENGTH_def)

text \<open>C15: what a context remembers of its making depends on the processor: without the AES instructions the key functions
  mark it as an encryption context, which the byte modes read as position 1 in the block; with them the mark is missing
  and the position is 0. So the same calls, a key and OFB on up to fifteen bytes, give different outputs.\<close>

theorem ni_context_marks:
  assumes "aes_instructions c" "length key \<in> {16, 24, 32}" "length (ks cx) = KS_LENGTH" "length key = 24 \<longrightarrow> 8 \<le> length r"
    and "length iv = 16" "length p \<le> 15"
  shows "\<exists>e iv' e'. ni_encrypt_key c (key @ r) (int (length key)) cx = Some e \<and>
    (IS_ENCRYPTION_CTX e \<longleftrightarrow> \<not> has_aes_ni c) \<and> (IS_DECRYPTION_CTX e \<longleftrightarrow> has_aes_ni c) \<and>
    aes_ofb_crypt a1 a2 a3 p iv e =
      Some (EXIT_SUCCESS, xor_bytes p (if has_aes_ni c then aes_cipher key iv else drop 1 iv), iv', e')"
proof -
  have "aes_key_len key (int (length key))" using assms(2) by (simp add: aes_key_len_def)
  from ni_enc_key_ctx [OF assms(1) this assms(3)] assms(4)
  obtain e where e: "ni_encrypt_key c (key @ r) (int (length key)) cx = Some e" "enc_keyed key e"
    and b: "inf_b e ! 2 = (if has_aes_ni c then 0 else 1)" by blast
  have l: "length (aes_cipher key iv) = 16" using aes.length_E [OF e(2)] assms(5) by auto
  have "fst (stream_spec (aes_cipher key) ofb_op (0, iv) p) = xor_bytes p (aes_cipher key iv)"
    "fst (stream_spec (aes_cipher key) ofb_op (1, iv) p) = xor_bytes p (drop 1 iv)"
    using ofb_fresh [of "aes_cipher key" iv p] ofb_in_block [of 1 p iv "aes_cipher key"] l assms(5,6) by simp_all
  then show ?thesis
    using e(1) stream_crypt_ctx(3) [OF e(2) assms(5), of a1 a2 a3 p]
    by (simp add: b Let_def IS_ENCRYPTION_CTX_def IS_DECRYPTION_CTX_def)
qed

theorem ni_context_marks_witness:
  "\<exists>e iv' e'. ni_encrypt_key (spec_cpu 0x02000000) (replicate 16 1 @ []) (int (length (replicate 16 (1::byte))))
       \<lparr>ks = replicate 60 0, inf_b = [0, 0, 0, 0]\<rparr> = Some e \<and>
     (IS_ENCRYPTION_CTX e \<longleftrightarrow> \<not> has_aes_ni (spec_cpu 0x02000000)) \<and> (IS_DECRYPTION_CTX e \<longleftrightarrow> has_aes_ni (spec_cpu 0x02000000)) \<and>
     aes_ofb_crypt True True True [65, 66] (replicate 16 3) e = Some (EXIT_SUCCESS, xor_bytes [65, 66]
       (if has_aes_ni (spec_cpu 0x02000000) then aes_cipher (replicate 16 1) (replicate 16 3) else drop 1 (replicate 16 3)), iv', e')"
  by (rule ni_context_marks [OF spec_cpu_instructions]) (simp_all add: KS_LENGTH_def)

end
