(* ===== verification/ModeHdr.thy ===== *)
theory ModeHdr
  imports AesOpt
begin

text \<open>
  \<^verbatim>\<open>native/aes_modes/mode_hdr.h\<close>: rotations, byte swaps and the operations on
  16-byte blocks, for the three values of \<open>UNIT_BITS\<close>. A block operation maps
  the source block (and, where single bytes are stored, the old contents of
  the destination) to the new contents of the destination, for buffers that
  do not overlap. \<^verbatim>\<open>cwc.h\<close> sets \<open>UNIT_BITS\<close> to 32.
\<close>

subsection \<open>Rotations and byte swaps\<close>

definition rotl32 :: "u32 \<Rightarrow> nat \<Rightarrow> u32" where
  "rotl32 x n = push_bit n x OR drop_bit (32 - n) x"

definition rotr32 :: "u32 \<Rightarrow> nat \<Rightarrow> u32" where
  "rotr32 x n = drop_bit n x OR push_bit (32 - n) x"

definition rotl64 :: "u64 \<Rightarrow> nat \<Rightarrow> u64" where
  "rotl64 x n = push_bit n x OR drop_bit (64 - n) x"

definition rotr64 :: "u64 \<Rightarrow> nat \<Rightarrow> u64" where
  "rotr64 x n = drop_bit n x OR push_bit (64 - n) x"

text \<open>With Microsoft's compiler \<open>rotr64\<close> is defined as \<open>_rotl64\<close>.\<close>

definition rotr64_msc :: "u64 \<Rightarrow> nat \<Rightarrow> u64" where
  "rotr64_msc x n = rotl64 x n"

definition bswap_16 :: "16 word \<Rightarrow> 16 word" where
  "bswap_16 x = drop_bit 8 x OR push_bit 8 x"

definition bswap_32 :: "u32 \<Rightarrow> u32" where
  "bswap_32 x = (rotr32 x 24 AND 0x00ff00ff) OR (rotr32 x 8 AND 0xff00ff00)"

definition bswap_64 :: "u64 \<Rightarrow> u64" where
  "bswap_64 x = ucast (bswap_32 (ucast (drop_bit 32 x))) OR push_bit 32 (ucast (bswap_32 (ucast x)))"

subsection \<open>Blocks as units\<close>

text \<open>A 64-bit unit is read and written as its two 32-bit halves, the low one first.\<close>

definition unit64_in :: "byte list \<Rightarrow> nat \<Rightarrow> u64" where
  "unit64_in s i = ucast (word_in s (2 * i)) OR push_bit 32 (ucast (word_in s (2 * i + 1)))"

definition unit64_out :: "u64 \<Rightarrow> byte list" where
  "unit64_out w = word_out (ucast w) @ word_out (ucast (drop_bit 32 w))"

definition copy_block :: "byte list \<Rightarrow> byte list" where
  "copy_block q = take 16 q"

definition copy_block_aligned :: "nat \<Rightarrow> byte list \<Rightarrow> byte list" where
  "copy_block_aligned unit_bits q =
     (if unit_bits = 8 then take 16 q
      else if unit_bits = 32 then concat (map (\<lambda>n. word_out (word_in q n)) [0, 1, 2, 3])
      else concat (map (\<lambda>n. unit64_out (unit64_in q n)) [0, 1]))"

definition xor_block8 :: "byte list \<Rightarrow> byte list \<Rightarrow> byte list" where
  "xor_block8 p q = map (\<lambda>n. p ! n XOR q ! n) [0..<16]"

definition xor_block_aligned :: "nat \<Rightarrow> byte list \<Rightarrow> byte list \<Rightarrow> byte list" where
  "xor_block_aligned unit_bits p q =
     (if unit_bits = 8 then xor_block8 p q
      else if unit_bits = 32 then concat (map (\<lambda>n. word_out (word_in p n XOR word_in q n)) [0, 1, 2, 3])
      else concat (map (\<lambda>n. unit64_out (unit64_in p n XOR unit64_in q n)) [0, 1]))"

text \<open>Stores \<open>d[i] = v\<close>, in order.\<close>

definition stores :: "(nat \<times> 'a) list \<Rightarrow> 'a list \<Rightarrow> 'a list" where
  "stores ivs d = fold (\<lambda>(i, v) d. d[i := v]) ivs d"

definition bswap32_block8 :: "byte list \<Rightarrow> byte list \<Rightarrow> byte list" where
  "bswap32_block8 d s = stores
    [(0, s!3), (3, s!0), (1, s!2), (2, s!1),
     (4, s!7), (7, s!4), (5, s!6), (6, s!5),
     (8, s!11), (12, s!8), (9, s!10), (10, s!9),
     (12, s!15), (15, s!12), (3, s!14), (14, s!13)] d"

definition bswap32_block :: "byte list \<Rightarrow> byte list" where
  "bswap32_block s = concat (map (\<lambda>n. word_out (bswap_32 (word_in s n))) [0, 1, 2, 3])"

definition bswap64_block8 :: "byte list \<Rightarrow> byte list \<Rightarrow> byte list" where
  "bswap64_block8 d s = stores
    [(0, s!7), (7, s!0), (1, s!6), (6, s!1), (2, s!5), (5, s!2), (3, s!3), (3, s!3),
     (8, s!15), (15, s!8), (9, s!14), (14, s!9), (10, s!13), (13, s!10), (11, s!12), (12, s!11)] d"

definition bswap64_block32 :: "byte list \<Rightarrow> byte list" where
  "bswap64_block32 s =
     word_out (bswap_32 (word_in s 1)) @ word_out (bswap_32 (word_in s 0)) @
     word_out (bswap_32 (word_in s 2)) @ word_out (bswap_32 (word_in s 2))"

definition bswap64_block64 :: "byte list \<Rightarrow> byte list" where
  "bswap64_block64 s = unit64_out (bswap_64 (unit64_in s 0)) @ unit64_out (bswap_64 (unit64_in s 1))"

definition bswap128_block8 :: "byte list \<Rightarrow> byte list \<Rightarrow> byte list" where
  "bswap128_block8 d s = stores
    [(0, s!15), (15, s!0), (1, s!14), (14, s!1), (2, s!13), (13, s!2), (3, s!12), (12, s!3),
     (4, s!11), (11, s!4), (5, s!10), (10, s!5), (6, s!9), (9, s!6), (7, s!8), (8, s!7)] d"

definition bswap128_block32 :: "byte list \<Rightarrow> byte list" where
  "bswap128_block32 s =
     word_out (bswap_32 (word_in s 3)) @ word_out (bswap_32 (word_in s 2)) @
     word_out (bswap_32 (word_in s 1)) @ word_out (bswap_32 (word_in s 0))"

definition bswap128_block64 :: "byte list \<Rightarrow> byte list" where
  "bswap128_block64 s = unit64_out (bswap_64 (unit64_in s 1)) @ unit64_out (bswap_64 (unit64_in s 0))"

subsection \<open>What they do to the bytes\<close>

lemma byte_of_bswap_32:
  "byte_of (bswap_32 x) 0 = byte_of x 3" "byte_of (bswap_32 x) (Suc 0) = byte_of x 2"
  "byte_of (bswap_32 x) 2 = byte_of x (Suc 0)" "byte_of (bswap_32 x) 3 = byte_of x 0"
proof -
  have m1: "bit (0x00ff00ff :: u32) i \<longleftrightarrow> i < 32 \<and> (i < 8 \<or> 16 \<le> i \<and> i < 24)" for i
  proof (cases "i < 32")
    case True
    then have "i \<in> {0,1,2,3,4,5,6,7,8,9,10,11,12,13,14,15,16,17,18,19,20,21,22,23,24,25,26,27,28,29,30,31}"
      by simp arith
    then show ?thesis by (elim insertE emptyE) simp_all
  qed (use bit_imp_le_length [of "0x00ff00ff :: u32" i] in auto)
  have m2: "bit (0xff00ff00 :: u32) i \<longleftrightarrow> i < 32 \<and> (8 \<le> i \<and> i < 16 \<or> 24 \<le> i)" for i
  proof (cases "i < 32")
    case True
    then have "i \<in> {0,1,2,3,4,5,6,7,8,9,10,11,12,13,14,15,16,17,18,19,20,21,22,23,24,25,26,27,28,29,30,31}"
      by simp arith
    then show ?thesis by (elim insertE emptyE) simp_all
  qed (use bit_imp_le_length [of "0xff00ff00 :: u32" i] in auto)
  show "byte_of (bswap_32 x) 0 = byte_of x 3" "byte_of (bswap_32 x) (Suc 0) = byte_of x 2"
    "byte_of (bswap_32 x) 2 = byte_of x (Suc 0)" "byte_of (bswap_32 x) 3 = byte_of x 0"
    by (rule bit_word_eqI; unfold bit_byte_of bswap_32_def rotr32_def bit_and_iff bit_or_iff m1 m2;
        auto simp: bit_drop_bit_eq bit_push_bit_iff dest: bit_imp_le_length)+
qed

lemma word_out_bswap_32: "word_out (bswap_32 x) = rev (word_out x)"
  by (simp add: word_out_byte_of byte_of_bswap_32)

lemma unit64_out_in: "unit64_out (unit64_in s i) = word_out (word_in s (2 * i)) @ word_out (word_in s (2 * i + 1))"
proof -
  have "ucast (unit64_in s i) = word_in s (2 * i)" "ucast (drop_bit 32 (unit64_in s i)) = word_in s (2 * i + 1)"
    by (rule bit_word_eqI; auto simp: unit64_in_def bit_simps dest: bit_imp_le_length)+
  then show ?thesis by (simp add: unit64_out_def)
qed

lemma unit64_out_xor: "unit64_out (a XOR b) = xor_bytes (unit64_out a) (unit64_out b)"
  by (simp add: unit64_out_def ucast_xor drop_bit_xor_word word_out_xor xor_bytes_append)

lemma unit64_out_bswap: "unit64_out (bswap_64 w) = rev (unit64_out w)"
proof -
  have "ucast (bswap_64 w) = bswap_32 (ucast (drop_bit 32 w))" "ucast (drop_bit 32 (bswap_64 w)) = bswap_32 (ucast w)"
    by (rule bit_word_eqI; auto simp: bswap_64_def bit_simps dest: bit_imp_le_length)+
  then show ?thesis by (simp add: unit64_out_def word_out_bswap_32)
qed

lemma word_out_word_in_bytes: "word_out (word_in x c) = [x ! (4*c), x ! (4*c+1), x ! (4*c+2), x ! (4*c+3)]"
  by (simp add: word_out_byte_of)

lemma unit64_xor: "unit64_out (unit64_in p i XOR unit64_in q i) =
    xor_bytes (unit64_out (unit64_in p i)) (unit64_out (unit64_in q i))"
  by (rule unit64_out_xor)

lemma xor_block8: "length p = 16 \<Longrightarrow> length q = 16 \<Longrightarrow> xor_block8 p q = xor_bytes p q"
  by (simp add: xor_block8_def xor_bytes_def list_eq_iff_nth_eq)

lemma block16_nth: "length p = 16 \<Longrightarrow>
    p = [p!0, p!1, p!2, p!3, p!4, p!5, p!6, p!7, p!8, p!9, p!10, p!11, p!12, p!13, p!14, p!15]"
  by (erule list16_exhaust) simp

lemma xor_block_aligned:
  assumes "length p = 16" "length q = 16"
  shows "xor_block_aligned u p q = xor_bytes p q"
proof -
  from assms(1) show ?thesis
    by (elim list16_exhaust, use assms(2) in \<open>elim list16_exhaust\<close>)
       (simp add: xor_block_aligned_def xor_block8 word_out_xor word_out_word_in_bytes unit64_xor unit64_out_in)
qed

lemma copy_block_aligned:
  assumes "length q = 16"
  shows "copy_block_aligned u q = q"
  using assms
  by (elim list16_exhaust) (simp add: copy_block_aligned_def word_out_word_in_bytes unit64_out_in)

lemma bswap32_block:
  assumes "length s = 16"
  shows "bswap32_block s =
    rev (take 4 s) @ rev (take 4 (drop 4 s)) @ rev (take 4 (drop 8 s)) @ rev (take 4 (drop 12 s))"
  using assms
  by (elim list16_exhaust) (simp add: bswap32_block_def word_out_bswap_32 word_out_word_in_bytes)

lemma length_bswap32_block [simp, len_simps]: "length (bswap32_block s) = 16"
  by (simp add: bswap32_block_def)

lemma bswap64_block64:
  assumes "length s = 16"
  shows "bswap64_block64 s = rev (take 8 s) @ rev (drop 8 s)"
  using assms
  by (elim list16_exhaust)
     (simp add: bswap64_block64_def unit64_out_bswap unit64_out_in word_out_word_in_bytes)

lemma stores_list:
  "stores [] d = d" "stores ((i, v) # ivs) d = stores ivs (d[i := v])"
  by (simp_all add: stores_def)

lemma bswap128_block:
  assumes "length s = 16" "length d = 16"
  shows "bswap128_block8 d s = rev s" "bswap128_block32 s = rev s" "bswap128_block64 s = rev s"
proof -
  from assms show "bswap128_block8 d s = rev s"
    by (elim list16_exhaust) (simp add: bswap128_block8_def stores_list)
  from assms(1) show "bswap128_block32 s = rev s"
    by (elim list16_exhaust) (simp add: bswap128_block32_def word_out_bswap_32 word_out_word_in_bytes)
  from assms(1) show "bswap128_block64 s = rev s"
    by (elim list16_exhaust)
       (simp add: bswap128_block64_def unit64_out_bswap unit64_out_in word_out_word_in_bytes)
qed

subsection \<open>Properties\<close>

text \<open>The block operations that CWC and the other modes may call do the same for each size of unit: the
  exclusive or and the copy work bytewise, the 128-bit swap reverses the block, and the 32-bit swap that CWC
  uses reverses each group of four bytes and is its own inverse.\<close>

theorem block_operations_agree:
  assumes "length p = 16" "length q = 16" "length d = 16"
  shows "xor_block_aligned u p q = xor_block8 p q \<and> xor_block8 p q = xor_bytes p q \<and>
    copy_block_aligned u q = copy_block q \<and>
    bswap128_block8 d q = rev q \<and> bswap128_block32 q = rev q \<and> bswap128_block64 q = rev q \<and>
    bswap32_block q = concat (map (\<lambda>i. rev (take 4 (drop (4 * i) q))) [0, 1, 2, 3]) \<and>
    bswap32_block (bswap32_block q) = q"
proof -
  have "bswap32_block (bswap32_block q) = q"
    using assms(2) by (elim list16_exhaust) (simp add: bswap32_block)
  then show ?thesis
    using assms by (simp add: xor_block_aligned xor_block8 copy_block_aligned copy_block_def bswap128_block bswap32_block)
qed

theorem block_operations_agree_witness:
  "xor_block_aligned 32 (replicate 16 1) (replicate 16 2) = xor_block8 (replicate 16 1) (replicate 16 2) \<and>
    xor_block8 (replicate 16 1) (replicate 16 2) = xor_bytes (replicate 16 1) (replicate 16 2) \<and>
    copy_block_aligned 32 (replicate 16 2) = copy_block (replicate 16 2) \<and>
    bswap128_block8 (replicate 16 0) (replicate 16 2) = rev (replicate 16 2) \<and>
    bswap128_block32 (replicate 16 2) = rev (replicate 16 2) \<and> bswap128_block64 (replicate 16 2) = rev (replicate 16 2) \<and>
    bswap32_block (replicate 16 2) = concat (map (\<lambda>i. rev (take 4 (drop (4 * i) (replicate 16 2)))) [0, 1, 2, 3]) \<and>
    bswap32_block (bswap32_block (replicate 16 2)) = replicate 16 2"
  by (rule block_operations_agree) simp_all

text \<open>The code for other unit sizes than the one in use is not equivalent: the byte-wise 32-bit swap stores to
  wrong places, the 32-bit version of the 64-bit swap drops the last word, and Microsoft's \<open>rotr64\<close> rotates left.\<close>

theorem unused_variants_differ:
  "\<exists>d s. length d = 16 \<and> length s = 16 \<and> bswap32_block8 d s \<noteq> bswap32_block s \<and>
     bswap64_block32 s \<noteq> bswap64_block64 s \<and> rotr64_msc 1 1 \<noteq> rotr64 1 1"
proof -
  let ?s = "[0, 1, 2, 3, 4, 5, 6, 7, 8, 9, 10, 11, 12, 13, 14, 15 :: byte]" and ?d = "[0, 0, 0, 0, 0, 0, 0, 0, 0, 0, 0, 0, 0, 0, 0, 0 :: byte]"
  have "bswap32_block8 ?d ?s ! 11 \<noteq> bswap32_block ?s ! 11"
    by (simp add: bswap32_block bswap32_block8_def stores_list)
  moreover have "bswap64_block32 ?s \<noteq> bswap64_block64 ?s"
    by (simp add: bswap64_block64 bswap64_block32_def word_out_bswap_32 word_out_word_in_bytes)
  moreover have "rotr64_msc 1 1 \<noteq> rotr64 1 1"
    by (simp add: rotr64_msc_def rotl64_def rotr64_def)
  ultimately show ?thesis by (intro exI [of _ ?d] exI [of _ ?s]) auto
qed

end
