(* ===== verification/AesNiModes.thy ===== *)
theory AesNiModes
  imports AesNiProps ModeHdr
begin

text \<open>
  The second half of \<^verbatim>\<open>native/aes/aes_ni.c\<close>, CBC and CTR calls that use the AES
  instructions directly (compiled under \<open>ADD_AESNI_MODE_CALLS\<close>), in the
  version that takes a context and in the version that takes the round keys and
  their number. The buffer \<open>inp\<close> is the memory from the pointer on, since these
  functions round a length that is no multiple of 16 up. A result is the return
  value, the bytes written to \<open>out\<close> and \<open>ivec\<close> afterwards; \<open>None\<close> stands for a
  call that runs past its buffers. A length is an \<open>unsigned long\<close>, a word of 32 bits
  on 64-bit Windows; the fallbacks to \<^verbatim>\<open>aes_modes.c\<close> convert it to \<open>int\<close>.
\<close>

subsection \<open>More operations on \<open>__m128i\<close>\<close>

definition mm_shuffle_epi8 :: "m128 \<Rightarrow> m128 \<Rightarrow> m128" where
  "mm_shuffle_epi8 a m = map (\<lambda>b. if bit b 7 then 0 else a ! (unat b mod 16)) m"

definition mm_add_epi64 :: "m128 \<Rightarrow> m128 \<Rightarrow> m128" where
  "mm_add_epi64 a b = unit64_out (unit64_in a 0 + unit64_in b 0) @ unit64_out (unit64_in a 1 + unit64_in b 1)"

definition mm_srli_si128 :: "m128 \<Rightarrow> nat \<Rightarrow> m128" where
  "mm_srli_si128 a n = drop n a @ replicate n 0"

definition mm_insert_epi64 :: "m128 \<Rightarrow> byte list \<Rightarrow> nat \<Rightarrow> m128" where
  "mm_insert_epi64 a v i = take (8 * i) a @ v @ drop (8 * i + 8) a"

definition mm_insert_epi32 :: "m128 \<Rightarrow> byte list \<Rightarrow> nat \<Rightarrow> m128" where
  "mm_insert_epi32 a v i = take (4 * i) a @ v @ drop (4 * i + 4) a"

definition ONE :: m128 where "ONE = [0, 0, 0, 0, 0, 0, 0, 0, 1, 0, 0, 0, 0, 0, 0, 0]"
definition BSWAP_EPI64 :: m128 where "BSWAP_EPI64 = [7, 6, 5, 4, 3, 2, 1, 0, 15, 14, 13, 12, 11, 10, 9, 8]"

subsection \<open>CBC\<close>

text \<open>The loop over \<open>j\<close> and the last round; \<open>ni_dec_rounds\<close> runs down, \<open>ni_dec_rounds_up\<close> up.\<close>

definition ni_rounds :: "cpu \<Rightarrow> u32 list \<Rightarrow> nat \<Rightarrow> m128 \<Rightarrow> m128" where
  "ni_rounds c key nr t = mm_aesenclast c (fold (\<lambda>j t. mm_aesenc c t (get128 key j)) [1..<nr] t) (get128 key nr)"

definition ni_dec_rounds :: "cpu \<Rightarrow> u32 list \<Rightarrow> nat \<Rightarrow> m128 \<Rightarrow> m128" where
  "ni_dec_rounds c key nr t =
     mm_aesdeclast c (fold (\<lambda>j t. mm_aesdec c t (get128 key j)) (rev [1..<nr]) t) (get128 key 0)"

definition ni_dec_rounds_up :: "cpu \<Rightarrow> u32 list \<Rightarrow> nat \<Rightarrow> m128 \<Rightarrow> m128" where
  "ni_dec_rounds_up c key nr t =
     mm_aesdeclast c (fold (\<lambda>j t. mm_aesdec c t (get128 key j)) [1..<nr] t) (get128 key nr)"

definition nblocks :: "nat \<Rightarrow> nat" where
  "nblocks n = (if n mod 16 \<noteq> 0 then n div 16 + 1 else n div 16)"

fun ni_cbc_enc :: "cpu \<Rightarrow> u32 list \<Rightarrow> nat \<Rightarrow> nat \<Rightarrow> byte list \<Rightarrow> m128 \<Rightarrow> byte list" where
  "ni_cbc_enc c key nr 0 inp feedback = []"
| "ni_cbc_enc c key nr (Suc n) inp feedback =
    (let data = mm_loadu inp 0;
         feedback = mm_xor data feedback;
         feedback = mm_xor feedback (get128 key 0);
         feedback = ni_rounds c key nr feedback
     in feedback @ ni_cbc_enc c key nr n (drop 16 inp) feedback)"

fun ni_cbc_dec :: "(m128 \<Rightarrow> m128) \<Rightarrow> m128 \<Rightarrow> nat \<Rightarrow> byte list \<Rightarrow> m128 \<Rightarrow> byte list" where
  "ni_cbc_dec rounds k0 0 inp feedback = []"
| "ni_cbc_dec rounds k0 (Suc n) inp feedback =
    (let last_in = mm_loadu inp 0;
         data = mm_xor last_in k0;
         data = rounds data;
         data = mm_xor data feedback
     in data @ ni_cbc_dec rounds k0 n (drop 16 inp) last_in)"

text \<open>
  The calls of \<open>aes_cbc_encrypt\<close> and \<open>aes_cbc_decrypt\<close> in the fallback. From \<open>2^31\<close> on the
  length is negative as an \<open>int\<close>: a length that is no multiple of 16 is refused, with
  a multiple the loop \<open>while(nb--)\<close> starts below 0 and runs past the end of the memory
  \<open>inp\<close>, unless a block function fails before that.
\<close>

definition cbc_fallback ::
  "(byte list \<Rightarrow> aes_return \<times> byte list \<times> byte list) \<Rightarrow> byte list \<Rightarrow> byte list \<Rightarrow> u32 \<Rightarrow>
   (aes_return \<times> byte list \<times> byte list) option" where
  "cbc_fallback f inp ivec len =
    (if 0 \<le> sint len then Some (f (take (nat (sint len)) inp))
     else if sint len mod 16 \<noteq> 0 then Some (EXIT_FAILURE, [], ivec)
     else (case f (take (16 * (length inp div 16)) inp) of
             (EXIT_FAILURE, out, iv) \<Rightarrow> Some (EXIT_FAILURE, out, iv)
           | (EXIT_SUCCESS, out, iv) \<Rightarrow> None))"

definition aes_CBC_encrypt ::
  "cpu \<Rightarrow> bool \<Rightarrow> bool \<Rightarrow> byte list \<Rightarrow> byte list \<Rightarrow> u32 \<Rightarrow> aes_crypt_ctx \<Rightarrow>
   (aes_return \<times> byte list \<times> byte list) option" where
  "aes_CBC_encrypt c a1 a2 inp ivec len cx =
    (let number_of_rounds = unat (inf_b cx ! 0) div 16
     in if number_of_rounds \<noteq> 10 \<and> number_of_rounds \<noteq> 12 \<and> number_of_rounds \<noteq> 14 then Some (EXIT_FAILURE, [], ivec)
        else if \<not> has_aes_ni c then cbc_fallback (\<lambda>ibuf. aes_cbc_encrypt a1 a2 ibuf ivec cx) inp ivec len
        else Some (EXIT_SUCCESS, ni_cbc_enc c (ks cx) number_of_rounds (nblocks (unat len)) inp (mm_loadu ivec 0), ivec))"

definition aes_CBC_decrypt ::
  "cpu \<Rightarrow> bool \<Rightarrow> bool \<Rightarrow> byte list \<Rightarrow> byte list \<Rightarrow> u32 \<Rightarrow> aes_crypt_ctx \<Rightarrow>
   (aes_return \<times> byte list \<times> byte list) option" where
  "aes_CBC_decrypt c a1 a2 inp ivec len cx =
    (let number_of_rounds = unat (inf_b cx ! 0) div 16
     in if number_of_rounds \<noteq> 10 \<and> number_of_rounds \<noteq> 12 \<and> number_of_rounds \<noteq> 14 then Some (EXIT_FAILURE, [], ivec)
        else if \<not> has_aes_ni c then cbc_fallback (\<lambda>ibuf. aes_cbc_decrypt False a1 a2 ibuf ivec cx) inp ivec len
        else Some (EXIT_SUCCESS, ni_cbc_dec (ni_dec_rounds c (ks cx) number_of_rounds) (get128 (ks cx) number_of_rounds)
                (nblocks (unat len)) inp (mm_loadu ivec 0), ivec))"

text \<open>The versions without a context; \<open>key\<close> holds the round keys in the order in which they are used.\<close>

definition aes_CBC_encrypt_keys :: "cpu \<Rightarrow> byte list \<Rightarrow> byte list \<Rightarrow> u32 \<Rightarrow> u32 list \<Rightarrow> nat \<Rightarrow> byte list" where
  "aes_CBC_encrypt_keys c inp ivec len key number_of_rounds =
     ni_cbc_enc c key number_of_rounds (nblocks (unat len)) inp (mm_loadu ivec 0)"

definition aes_CBC_decrypt_keys :: "cpu \<Rightarrow> byte list \<Rightarrow> byte list \<Rightarrow> u32 \<Rightarrow> u32 list \<Rightarrow> nat \<Rightarrow> byte list" where
  "aes_CBC_decrypt_keys c inp ivec len key number_of_rounds =
     ni_cbc_dec (ni_dec_rounds_up c key number_of_rounds) (get128 key 0) (nblocks (unat len)) inp (mm_loadu ivec 0)"

subsection \<open>CTR\<close>

text \<open>The step of the counter block that the fallback hands to \<open>aes_ctr_crypt\<close>: 32-bit words in memory order.\<close>

definition ni_ctr_inc :: "byte list \<Rightarrow> byte list" where
  "ni_ctr_inc ctr_blk =
     (let c = word_in ctr_blk 2 + 1;
          ctr_blk = take 8 ctr_blk @ word_out c @ drop 12 ctr_blk
      in if c = 0 then take 12 ctr_blk @ word_out (word_in ctr_blk 3 + 1) else ctr_blk)"

definition ni_ctr_block :: "byte list \<Rightarrow> byte list \<Rightarrow> m128" where
  "ni_ctr_block ivec nonce =
     (let ctr_block = mm_insert_epi64 (replicate 16 0) ivec 1;
          ctr_block = mm_insert_epi32 ctr_block nonce 1;
          ctr_block = mm_srli_si128 ctr_block 4;
          ctr_block = mm_shuffle_epi8 ctr_block BSWAP_EPI64
      in mm_add_epi64 ctr_block ONE)"

fun ni_ctr_loop :: "cpu \<Rightarrow> u32 list \<Rightarrow> nat \<Rightarrow> nat \<Rightarrow> byte list \<Rightarrow> m128 \<Rightarrow> byte list" where
  "ni_ctr_loop c key nr 0 inp ctr_block = []"
| "ni_ctr_loop c key nr (Suc n) inp ctr_block =
    (let tmp = mm_shuffle_epi8 ctr_block BSWAP_EPI64;
         ctr_block = mm_add_epi64 ctr_block ONE;
         tmp = mm_xor tmp (get128 key 0);
         tmp = ni_rounds c key nr tmp;
         tmp = mm_xor tmp (mm_loadu inp 0)
     in tmp @ ni_ctr_loop c key nr n (drop 16 inp) ctr_block)"

text \<open>
  The call of \<open>aes_ctr_crypt\<close> in the fallback. With a negative length its first loop
  finishes the block that has been started, the second one makes a key stream block
  and uses nothing of it; \<open>None\<close> is the overflow of \<open>--len\<close> at the least \<open>int\<close>.
\<close>

definition ctr_fallback ::
  "bool \<Rightarrow> byte list \<Rightarrow> byte list \<Rightarrow> u32 \<Rightarrow> aes_crypt_ctx \<Rightarrow> (aes_return \<times> byte list) option" where
  "ctr_fallback al inp ctr_blk len cx =
    (let b_pos = unat (inf_b cx ! 2);
         m = (if b_pos = 0 then 0 else 16 - b_pos)
     in if 0 \<le> sint len then
          (case aes_ctr_crypt al (take (nat (sint len)) inp) ctr_blk ni_ctr_inc cx of (r, out, _, _) \<Rightarrow> Some (r, out))
        else if sint len - int m < - (2 ^ 31) then None
        else
          (case aes_ctr_crypt al (take m inp) ctr_blk ni_ctr_inc cx of
             (EXIT_FAILURE, out, _, _) \<Rightarrow> Some (EXIT_FAILURE, out)
           | (EXIT_SUCCESS, out, cbuf, _) \<Rightarrow>
               Some (if (sint len - int m) mod 16 \<noteq> 0 \<and> aes_encrypt (if b_pos = 0 then cbuf else ni_ctr_inc cbuf) cx = None
                     then EXIT_FAILURE else EXIT_SUCCESS, out)))"

text \<open>The last four bytes of \<open>ctr_blk\<close> are not initialised in the fallback: they are the argument \<open>u\<close>.\<close>

definition aes_CTR_encrypt ::
  "cpu \<Rightarrow> bool \<Rightarrow> byte list \<Rightarrow> byte list \<Rightarrow> byte list \<Rightarrow> byte list \<Rightarrow> u32 \<Rightarrow> aes_crypt_ctx \<Rightarrow>
   (aes_return \<times> byte list) option" where
  "aes_CTR_encrypt c al u inp ivec nonce len cx =
    (let number_of_rounds = unat (inf_b cx ! 0) div 16
     in if number_of_rounds \<noteq> 10 \<and> number_of_rounds \<noteq> 12 \<and> number_of_rounds \<noteq> 14 then Some (EXIT_FAILURE, [])
        else if \<not> has_aes_ni c then ctr_fallback al inp (take 8 ivec @ take 4 nonce @ u) len cx
        else Some (EXIT_SUCCESS,
          ni_ctr_loop c (ks cx) number_of_rounds (nblocks (unat len)) inp (ni_ctr_block (take 8 ivec) (take 4 nonce))))"

definition aes_CTR_encrypt_keys :: "cpu \<Rightarrow> byte list \<Rightarrow> byte list \<Rightarrow> byte list \<Rightarrow> u32 \<Rightarrow> u32 list \<Rightarrow> nat \<Rightarrow> byte list" where
  "aes_CTR_encrypt_keys c inp ivec nonce len key number_of_rounds =
     ni_ctr_loop c key number_of_rounds (nblocks (unat len)) inp (ni_ctr_block (take 8 ivec) (take 4 nonce))"

subsection \<open>Rounds\<close>

lemma fold_aesenc:
  assumes "aes_instructions c"
  shows "(\<And>r. r \<in> set rs \<Longrightarrow> 4 * r + 4 \<le> length k) \<Longrightarrow> length t = 16 \<Longrightarrow>
    fold (\<lambda>j t. mm_aesenc c t (get128 k j)) rs t = fold (\<lambda>r. spec_round sbox (round_key k r)) rs t \<and>
    length (fold (\<lambda>r. spec_round sbox (round_key k r)) rs t) = 16"
  by (induction rs arbitrary: t) (simp_all add: instr(3) [OF assms] get128_round_key)

lemma fold_aesdec:
  assumes "aes_instructions c"
  shows "(\<And>r. r \<in> set rs \<Longrightarrow> 4 * r + 4 \<le> length k) \<Longrightarrow> length t = 16 \<Longrightarrow>
    fold (\<lambda>j t. mm_aesdec c t (get128 k j)) rs t = fold (dec_round k) rs t \<and> length (fold (dec_round k) rs t) = 16"
  by (induction rs arbitrary: t) (simp_all add: instr(5) [OF assms] get128_round_key)

lemma enc_keyed_rounds: "enc_keyed key e \<Longrightarrow> unat (inf_b e ! 0) = aes_rounds key * 16 \<and> aes_rounds key \<in> {10, 12, 14} \<and> length (ks e) = 60"
  by (auto simp: enc_keyed_def aes_rounds_def holds_def KS_LENGTH_def)

lemma dec_keyed_rounds: "dec_keyed rd key d \<Longrightarrow> unat (inf_b d ! 0) = aes_rounds key * 16 \<and> aes_rounds key \<in> {10, 12, 14} \<and> length (ks d) = 60"
  by (auto simp: dec_keyed_def aes_rounds_def holds_def KS_LENGTH_def)

lemma mm_xor_key: "length x = 16 \<Longrightarrow> length k = 60 \<Longrightarrow> r \<le> 14 \<Longrightarrow>
    mm_xor x (get128 k r) = add_round_key (round_key k r) x \<and> length (add_round_key (round_key k r) x) = 16"
  by (simp add: mm_xor_def add_round_key_def get128_round_key)

lemma ni_rounds_cipher:
  assumes "aes_instructions c" "enc_keyed key e" "length x = 16"
  shows "ni_rounds c (ks e) (aes_rounds key) (mm_xor x (get128 (ks e) 0)) = aes_cipher key x"
proof -
  let ?nr = "aes_rounds key" and ?k = "ks e"
  note r = enc_keyed_rounds [OF assms(2)]
  have n: "?nr \<le> 14" "valid_nr ?nr" using r by (auto simp: valid_nr_def)
  have x: "mm_xor x (get128 ?k 0) = add_round_key (round_key ?k 0) x" "length (add_round_key (round_key ?k 0) x) = 16"
    using mm_xor_key [of x ?k 0] assms(3) r by simp_all
  have f: "fold (\<lambda>j t. mm_aesenc c t (get128 ?k j)) [1..<?nr] (add_round_key (round_key ?k 0) x) =
      fold (\<lambda>r. spec_round sbox (round_key ?k r)) [1..<?nr] (add_round_key (round_key ?k 0) x)"
    "length (fold (\<lambda>r. spec_round sbox (round_key ?k r)) [1..<?nr] (add_round_key (round_key ?k 0) x)) = 16"
    using fold_aesenc [OF assms(1), of "[1..<?nr]" ?k, OF _ x(2)] n r by simp_all
  have "ni_rounds c ?k ?nr (mm_xor x (get128 ?k 0)) = cipher sbox ?nr (round_key ?k) x"
    unfolding ni_rounds_def x f cipher_def unfolding get128_round_key
    by (rule instr(4) [OF assms(1) f(2)]) (use n r in simp)
  then show ?thesis
    using aes_encrypt_ctx [OF assms(2,3)] aes_encrypt_cipher [OF n(2), of e x] r n assms(3) by simp
qed

lemma ni_dec_rounds_gen:
  assumes "aes_instructions c" "dec_keyed rd key d" "length x = 16"
    and "\<And>r. r \<le> aes_rounds key \<Longrightarrow> round_key (ks d) (f r) = dec_key rd (aes_rounds key) (ks d) r" "\<And>r. r \<le> aes_rounds key \<Longrightarrow> f r \<le> 14"
  shows "mm_aesdeclast c (fold (\<lambda>j t. mm_aesdec c t (get128 (ks d) j)) (map f (rev [1..<aes_rounds key]))
      (mm_xor x (get128 (ks d) (f (aes_rounds key))))) (get128 (ks d) (f 0)) = aes_inv_cipher key x"
proof -
  let ?nr = "aes_rounds key" and ?k = "ks d"
  note r = dec_keyed_rounds [OF assms(2)]
  have n: "?nr \<le> 14" "valid_nr ?nr" using r by (auto simp: valid_nr_def)
  have x: "mm_xor x (get128 ?k (f ?nr)) = add_round_key (dec_key rd ?nr ?k ?nr) x" "length (add_round_key (dec_key rd ?nr ?k ?nr) x) = 16"
    unfolding assms(4) [OF order_refl, symmetric] using mm_xor_key [of x ?k "f ?nr"] assms(3) assms(5) [OF order_refl] r by simp_all
  let ?x = "add_round_key (dec_key rd ?nr ?k ?nr) x"
  have f: "fold (\<lambda>j t. mm_aesdec c t (get128 ?k j)) (map f (rev [1..<?nr])) ?x = fold (dec_round ?k) (map f (rev [1..<?nr])) ?x"
    "length (fold (dec_round ?k) (map f (rev [1..<?nr])) ?x) = 16"
    using fold_aesdec [OF assms(1), of "map f (rev [1..<?nr])" ?k, OF _ x(2)] assms(5) r by fastforce+
  have g: "fold (dec_round ?k) (map f (rev [1..<?nr])) ?x =
      fold (\<lambda>r s. add_round_key (dec_key rd ?nr ?k r) (inv_mix_columns (sub_bytes inv_sbox (inv_shift_rows s)))) (rev [1..<?nr]) ?x"
    unfolding fold_map comp_def by (rule fold_cong) (simp_all add: assms(4))
  have l: "length (round_key ?k (f 0)) = 16" "round_key ?k (f 0) = dec_key rd ?nr ?k 0"
    using length_round_key [of "f 0" ?k] assms(5) [of 0] r by (simp, intro assms(4), simp)
  have "mm_aesdeclast c (fold (\<lambda>j t. mm_aesdec c t (get128 ?k j)) (map f (rev [1..<?nr])) (mm_xor x (get128 ?k (f ?nr)))) (get128 ?k (f 0)) =
      eq_inv_cipher inv_sbox ?nr (dec_key rd ?nr ?k) x"
    unfolding x f(1) unfolding get128_round_key eq_inv_cipher_def g [symmetric] l(2) [symmetric]
    by (rule instr(6) [OF assms(1) f(2) l(1)])
  then show ?thesis
    using aes_decrypt_ctx [OF assms(2,3)] aes_decrypt_eq_inv_cipher [OF n(2), of d x rd] r n assms(3) by simp
qed

lemma rev_minus: "n \<in> {10, 12, 14} \<Longrightarrow> map (\<lambda>r. n - r) (rev [1..<n]) = [1..<n]"
  by (elim insertE emptyE) (simp_all add: upt_rounds)

lemma ni_dec_rounds_inv:
  assumes "aes_instructions c" "length x = 16"
  shows "dec_keyed False key d \<Longrightarrow>
      ni_dec_rounds c (ks d) (aes_rounds key) (mm_xor x (get128 (ks d) (aes_rounds key))) = aes_inv_cipher key x"
    and "dec_keyed True key d \<Longrightarrow>
      ni_dec_rounds_up c (ks d) (aes_rounds key) (mm_xor x (get128 (ks d) 0)) = aes_inv_cipher key x"
proof -
  assume d: "dec_keyed False key d"
  have "aes_rounds key \<le> 14" using dec_keyed_rounds [OF d] by auto
  then show "ni_dec_rounds c (ks d) (aes_rounds key) (mm_xor x (get128 (ks d) (aes_rounds key))) = aes_inv_cipher key x"
    using ni_dec_rounds_gen [OF assms(1) d assms(2), of "\<lambda>r. r"] by (simp add: dec_key_def ni_dec_rounds_def)
next
  assume d: "dec_keyed True key d"
  have n: "aes_rounds key \<le> 14" "aes_rounds key \<in> {10, 12, 14}" using dec_keyed_rounds [OF d] by auto
  show "ni_dec_rounds_up c (ks d) (aes_rounds key) (mm_xor x (get128 (ks d) 0)) = aes_inv_cipher key x"
    using ni_dec_rounds_gen [OF assms(1) d assms(2), of "\<lambda>r. aes_rounds key - r"] n(1)
    unfolding rev_minus [OF n(2)] by (simp add: dec_key_def ni_dec_rounds_up_def)
qed

subsection \<open>CBC against the software\<close>

lemma ni_cbc_enc_spec:
  assumes "aes_instructions c" "enc_keyed key e"
  shows "length p = 16 * n \<Longrightarrow> length iv = 16 \<Longrightarrow>
    ni_cbc_enc c (ks e) (aes_rounds key) n p iv = fst (cbc_enc_spec (aes_cipher key) n p iv)"
proof (induction n arbitrary: p iv)
  case (Suc n)
  have x: "mm_xor (mm_loadu p 0) iv = xor_bytes (take 16 p) iv" "length (xor_bytes (take 16 p) iv) = 16"
    using Suc.prems by (simp_all add: mm_xor_def mm_loadu_def)
  then show ?case
    using Suc ni_rounds_cipher [OF assms x(2)] aes.length_E [OF assms(2) x(2)] by (simp add: Let_def)
qed simp

lemma ni_cbc_dec_spec:
  assumes "\<And>x. length x = 16 \<Longrightarrow> rounds (mm_xor x kz) = G x"
  shows "length q = 16 * n \<Longrightarrow> length iv = 16 \<Longrightarrow> ni_cbc_dec rounds kz n q iv = fst (cbc_dec_spec G n q iv)"
proof (induction n arbitrary: q iv)
  case (Suc n)
  have "mm_loadu q 0 = take 16 q" "length (take 16 q) = 16" using Suc.prems by (simp_all add: mm_loadu_def)
  then show ?case using Suc assms [of "take 16 q"] by (simp add: Let_def mm_xor_def)
qed simp

lemma mm_loadu_all: "length iv = 16 \<Longrightarrow> mm_loadu iv 0 = iv"
  by (simp add: mm_loadu_def)

lemma keyed_guard:
  assumes "unat (inf_b e ! 0) = aes_rounds key * 16 \<and> aes_rounds key \<in> {10, 12, 14} \<and> length (ks e) = 60"
  shows "unat (inf_b e ! 0) div 16 = aes_rounds key" "\<not> (aes_rounds key \<noteq> 10 \<and> aes_rounds key \<noteq> 12 \<and> aes_rounds key \<noteq> 14)"
  using assms by auto

text \<open>The conversion of the length to \<open>int\<close>.\<close>

lemma sint_of_nat_len:
  assumes "n < 2 ^ 32"
  shows "sint (of_nat n :: u32) = (if n < 2 ^ 31 then int n else int n - 2 ^ 32)"
proof -
  have "sint (of_nat n :: u32) = signed_take_bit 31 (int n)" by (simp add: signed_of_nat)
  also have "\<dots> = (int n + 2 ^ 31) mod 2 ^ 32 - 2 ^ 31"
    by (simp add: signed_take_bit_eq_take_bit_shift take_bit_int_def)
  also have "\<dots> = (if n < 2 ^ 31 then int n else int n - 2 ^ 32)"
  proof (cases "n < 2 ^ 31")
    case False
    then have "(int n + 2 ^ 31) mod 2 ^ 32 = int n + 2 ^ 31 - 2 ^ 32"
      using assms by (subst mod_pos_geq) simp_all
    then show ?thesis using False by simp
  qed simp
  finally show ?thesis .
qed

lemma cbc_fallback_short:
  assumes "length p < 2 ^ 31"
  shows "cbc_fallback f p iv (of_nat (length p)) = Some (f p)"
  using sint_of_nat_len [of "length p"] assms by (simp add: cbc_fallback_def)

lemma cbc_fallback_long:
  assumes "2 ^ 31 \<le> n" "n < 2 ^ 32" "n mod 16 = 0" "fst (f (take (16 * (length p div 16)) p)) = EXIT_SUCCESS"
  shows "cbc_fallback f p iv (of_nat n) = None"
proof -
  have s: "sint (of_nat n :: u32) = int n - 2 ^ 32" using sint_of_nat_len [of n] assms(1,2) by simp
  obtain k where "n = 16 * k" using assms(3) by auto
  then have "int n - 2 ^ 32 = 16 * (int k - 2 ^ 28)" by simp
  then have "(int n - 2 ^ 32) mod 16 = 0" by (simp only: mod_mult_self1_is_0)
  moreover have "int n - 2 ^ 32 < 0" using assms(2) by simp
  ultimately show ?thesis using assms(4) unfolding cbc_fallback_def s by (auto split: prod.split aes_return.split)
qed

text \<open>C16: the CBC calls with the AES instructions give the output of \<open>aes_cbc_encrypt\<close> and decrypt it again, with a context
  or with round keys, for texts below \<open>2^31\<close> bytes; but with the instructions \<open>ivec\<close> is left as it was, where the fallback
  leaves the last block in it. From \<open>2^31\<close> bytes on the calls without the instructions hand a negative length to
  \<open>aes_cbc_encrypt\<close> and \<open>aes_cbc_decrypt\<close>, which run past the end of every buffer \<open>x\<close>.\<close>

theorem ni_cbc_agrees:
  assumes "aes_instructions c" "enc_keyed key e" "dec_keyed False key d" "dec_keyed True key d'"
    and "length iv = 16" "length p mod 16 = 0" "length p < 2 ^ 31"
  shows "(\<exists>q iv'. aes_cbc_encrypt a1 a2 p iv e = (EXIT_SUCCESS, q, iv') \<and>
      aes_CBC_encrypt c a1 a2 p iv (of_nat (length p)) e = Some (EXIT_SUCCESS, q, if has_aes_ni c then iv else iv') \<and>
      aes_CBC_decrypt c a3 a4 q iv (of_nat (length p)) d = Some (EXIT_SUCCESS, p, if has_aes_ni c then iv else iv') \<and>
      aes_CBC_encrypt_keys c p iv (of_nat (length p)) (ks e) (aes_rounds key) = q \<and>
      aes_CBC_decrypt_keys c q iv (of_nat (length p)) (ks d') (aes_rounds key) = p) \<and>
    (\<not> has_aes_ni c \<and> 2 ^ 31 \<le> n \<and> n < 2 ^ 32 \<and> n mod 16 = 0 \<longrightarrow>
      aes_CBC_encrypt c a1 a2 x iv (of_nat n) e = None \<and> aes_CBC_decrypt c a3 a4 x iv (of_nat n) d = None)"
proof -
  let ?n = "length p div 16"
  obtain q iv' where r: "cbc_enc_spec (aes_cipher key) ?n p iv = (q, iv')" by fastforce
  have p: "length p = 16 * ?n" using assms(6) by auto
  have q: "length q = 16 * ?n" "length iv' = 16" using aes.length_cbc_spec [OF assms(2,5) p] r by simp_all
  have inv: "cbc_dec_spec (aes_inv_cipher key) ?n q iv = (p, iv')"
    using aes.cbc_inverse [OF assms(2,3,5) p] r by simp
  have u: "unat (of_nat (length p) :: u32) = length p" using assms(7) by (simp add: unsigned_of_nat take_bit_nat_def)
  have nb: "nblocks (unat (of_nat (length p) :: u32)) = ?n" unfolding u using assms(6) by (simp add: nblocks_def)
  have lq: "length q = length p" using p q(1) by simp
  have soft: "aes_cbc_encrypt a1 a2 p iv e = (EXIT_SUCCESS, q, iv')"
    using aes.cbc_enc [OF assms(2,5) p] r assms(6) by (simp add: aes_cbc_encrypt_def)
  have softd: "aes_cbc_decrypt False a3 a4 q iv d = (EXIT_SUCCESS, p, iv')"
    using aes.cbc_dec [OF assms(3,5) q(1)] inv assms(6) lq by (simp add: aes_cbc_decrypt_def)
  have enc: "ni_cbc_enc c (ks e) (aes_rounds key) ?n p iv = q"
    using ni_cbc_enc_spec [OF assms(1,2) p assms(5)] r by simp
  have dec: "ni_cbc_dec (ni_dec_rounds c (ks d) (aes_rounds key)) (get128 (ks d) (aes_rounds key)) ?n q iv = p"
    using ni_cbc_dec_spec [where G = "aes_inv_cipher key" and kz = "get128 (ks d) (aes_rounds key)" and
        rounds = "ni_dec_rounds c (ks d) (aes_rounds key)", OF _ q(1) assms(5)] ni_dec_rounds_inv(1) [OF assms(1) _ assms(3)] inv by simp
  have dec2: "ni_cbc_dec (ni_dec_rounds_up c (ks d') (aes_rounds key)) (get128 (ks d') 0) ?n q iv = p"
    using ni_cbc_dec_spec [where G = "aes_inv_cipher key" and kz = "get128 (ks d') 0" and
        rounds = "ni_dec_rounds_up c (ks d') (aes_rounds key)", OF _ q(1) assms(5)] ni_dec_rounds_inv(2) [OF assms(1) _ assms(4)] inv by simp
  note ge = keyed_guard [OF enc_keyed_rounds [OF assms(2)]] and gd = keyed_guard [OF dec_keyed_rounds [OF assms(3)]]
  have fb: "cbc_fallback f p iv (of_nat (length p)) = Some (f p)" "cbc_fallback f q iv (of_nat (length p)) = Some (f q)" for f
    using cbc_fallback_short [of p] cbc_fallback_short [of q] assms(7) lq by simp_all
  have E: "aes_CBC_encrypt c a1 a2 p iv (of_nat (length p)) e = Some (EXIT_SUCCESS, q, if has_aes_ni c then iv else iv')"
    using ge(2) soft enc unfolding aes_CBC_encrypt_def ge(1) Let_def nb fb mm_loadu_all [OF assms(5)] by simp
  have D: "aes_CBC_decrypt c a3 a4 q iv (of_nat (length p)) d = Some (EXIT_SUCCESS, p, if has_aes_ni c then iv else iv')"
    using gd(2) softd dec unfolding aes_CBC_decrypt_def gd(1) Let_def nb fb mm_loadu_all [OF assms(5)] by simp
  have K: "aes_CBC_encrypt_keys c p iv (of_nat (length p)) (ks e) (aes_rounds key) = q"
    "aes_CBC_decrypt_keys c q iv (of_nat (length p)) (ks d') (aes_rounds key) = p"
    using enc dec2 unfolding aes_CBC_encrypt_keys_def aes_CBC_decrypt_keys_def nb mm_loadu_all [OF assms(5)] by simp_all
  have L: "aes_CBC_encrypt c a1 a2 x iv (of_nat n) e = None \<and> aes_CBC_decrypt c a3 a4 x iv (of_nat n) d = None"
    if n: "\<not> has_aes_ni c" "2 ^ 31 \<le> n" "n < 2 ^ 32" "n mod 16 = 0"
  proof -
    let ?x = "take (16 * (length x div 16)) x"
    have x: "length ?x = 16 * (length x div 16)" by simp
    have "fst (aes_cbc_encrypt a1 a2 ?x iv e) = EXIT_SUCCESS" "fst (aes_cbc_decrypt False a3 a4 ?x iv d) = EXIT_SUCCESS"
      using aes.cbc_enc [OF assms(2,5) x] aes.cbc_dec [OF assms(3,5) x] by (simp_all add: aes_cbc_encrypt_def aes_cbc_decrypt_def)
    then show ?thesis
      using ge(2) gd(2) n(1) cbc_fallback_long [OF n(2-4)]
      unfolding aes_CBC_encrypt_def aes_CBC_decrypt_def ge(1) gd(1) Let_def by simp
  qed
  show ?thesis by (intro conjI impI exI [of _ q] exI [of _ iv'] soft E D K; elim conjE) (simp_all only: L simp_thms)
qed

theorem ni_cbc_agrees_witness:
  "(\<exists>q iv'. aes_cbc_encrypt True False (replicate 48 9) (replicate 16 1) (aes_encrypt_key256 zero_key zero_ctx) = (EXIT_SUCCESS, q, iv') \<and>
      aes_CBC_encrypt (spec_cpu 0x02000000) True False (replicate 48 9) (replicate 16 1) (of_nat (length (replicate 48 (9::byte))))
        (aes_encrypt_key256 zero_key zero_ctx) = Some (EXIT_SUCCESS, q, if has_aes_ni (spec_cpu 0x02000000) then replicate 16 1 else iv') \<and>
      aes_CBC_decrypt (spec_cpu 0x02000000) True True q (replicate 16 1) (of_nat (length (replicate 48 (9::byte))))
        (aes_decrypt_key256 False zero_key zero_ctx) =
        Some (EXIT_SUCCESS, replicate 48 9, if has_aes_ni (spec_cpu 0x02000000) then replicate 16 1 else iv') \<and>
      aes_CBC_encrypt_keys (spec_cpu 0x02000000) (replicate 48 9) (replicate 16 1) (of_nat (length (replicate 48 (9::byte))))
        (ks (aes_encrypt_key256 zero_key zero_ctx)) (aes_rounds zero_key) = q \<and>
      aes_CBC_decrypt_keys (spec_cpu 0x02000000) q (replicate 16 1) (of_nat (length (replicate 48 (9::byte))))
        (ks (aes_decrypt_key256 True zero_key zero_ctx)) (aes_rounds zero_key) = replicate 48 9) \<and>
    aes_CBC_encrypt (spec_cpu 0) True False [] (replicate 16 1) (of_nat (2 ^ 31)) (aes_encrypt_key256 zero_key zero_ctx) = None"
proof (rule conjI)
  note t = ni_cbc_agrees [OF spec_cpu_instructions zero_enc_keyed zero_dec_ctx zero_dec_ctx]
  show "\<exists>q iv'. aes_cbc_encrypt True False (replicate 48 9) (replicate 16 1) (aes_encrypt_key256 zero_key zero_ctx) = (EXIT_SUCCESS, q, iv') \<and>
      aes_CBC_encrypt (spec_cpu 0x02000000) True False (replicate 48 9) (replicate 16 1) (of_nat (length (replicate 48 (9::byte))))
        (aes_encrypt_key256 zero_key zero_ctx) = Some (EXIT_SUCCESS, q, if has_aes_ni (spec_cpu 0x02000000) then replicate 16 1 else iv') \<and>
      aes_CBC_decrypt (spec_cpu 0x02000000) True True q (replicate 16 1) (of_nat (length (replicate 48 (9::byte))))
        (aes_decrypt_key256 False zero_key zero_ctx) =
        Some (EXIT_SUCCESS, replicate 48 9, if has_aes_ni (spec_cpu 0x02000000) then replicate 16 1 else iv') \<and>
      aes_CBC_encrypt_keys (spec_cpu 0x02000000) (replicate 48 9) (replicate 16 1) (of_nat (length (replicate 48 (9::byte))))
        (ks (aes_encrypt_key256 zero_key zero_ctx)) (aes_rounds zero_key) = q \<and>
      aes_CBC_decrypt_keys (spec_cpu 0x02000000) q (replicate 16 1) (of_nat (length (replicate 48 (9::byte))))
        (ks (aes_decrypt_key256 True zero_key zero_ctx)) (aes_rounds zero_key) = replicate 48 9"
    by (rule conjunct1 [OF t]) simp_all
  show "aes_CBC_encrypt (spec_cpu 0) True False [] (replicate 16 1) (of_nat (2 ^ 31)) (aes_encrypt_key256 zero_key zero_ctx) = None"
    using conjunct2 [OF t [where p = "[]" and n = "2 ^ 31" and x = "[]"], of "replicate 16 1"] spec_cpu_has(2) by simp
qed

subsection \<open>CTR against the software\<close>

lemma list8_exhaust:
  assumes "length xs = 8"
  obtains a b c d e f g h where "xs = [a, b, c, d, e, f, g, h]"
  using assms by (auto simp: length_Suc_conv eval_nat_numeral)

lemma list4_bytes: "length xs = 4 \<Longrightarrow> xs = [xs ! 0, xs ! 1, xs ! 2, xs ! 3]"
  by (erule list4_exhaust) simp

lemma unit64_out_step:
  assumes "word_in s 2 = 0"
  shows "unit64_out (unit64_in s 1 + 1) = word_out 1 @ word_out (word_in s 3)"
proof -
  have u: "unit64_in s 1 = push_bit 32 (ucast (word_in s 3))" using assms by (simp add: unit64_in_def)
  have "unit64_in s 1 AND 1 = 0" unfolding u by (rule bit_word_eqI) (auto simp: bit_simps bit_1_iff)
  then have a: "unit64_in s 1 + 1 = unit64_in s 1 OR 1" by (rule disjunctive_add_eq_or)
  have "ucast (unit64_in s 1 OR 1) = (1 :: u32)" "ucast (drop_bit 32 (unit64_in s 1 OR 1)) = word_in s 3"
    unfolding u by (rule bit_word_eqI; auto simp: bit_simps bit_1_iff dest: bit_imp_le_length)+
  then show ?thesis unfolding unit64_out_def a by (simp only:)
qed

lemma word_out_1: "word_out 1 = [1, 0, 0, 0]"
  by (simp add: word_out_byte_of byte_of_def)

text \<open>The first counter block of the instructions: \<open>nonce\<close>, \<open>ivec\<close> and the number 1 in big-endian order.\<close>

lemma ni_first_block:
  assumes "length ivec = 8" "length nonce = 4"
  shows "mm_shuffle_epi8 (ni_ctr_block ivec nonce) BSWAP_EPI64 = nonce @ ivec @ [0, 0, 0, 1]"
proof -
  obtain v0 v1 v2 v3 v4 v5 v6 v7 where v: "ivec = [v0, v1, v2, v3, v4, v5, v6, v7]" by (rule list8_exhaust [OF assms(1)])
  obtain n0 n1 n2 n3 where n: "nonce = [n0, n1, n2, n3]" by (rule list4_exhaust [OF assms(2)])
  let ?x = "[v3, v2, v1, v0, n3, n2, n1, n0, 0, 0, 0, 0, v7, v6, v5, v4]"
  have z: "replicate 16 (0 :: byte) = [0, 0, 0, 0, 0, 0, 0, 0, 0, 0, 0, 0, 0, 0, 0, 0]" by (simp add: eval_nat_numeral)
  have z4: "replicate 4 (0 :: byte) = [0, 0, 0, 0]" by (simp add: eval_nat_numeral)
  have x: "mm_shuffle_epi8 (mm_srli_si128 (mm_insert_epi32 (mm_insert_epi64 (replicate 16 0) ivec 1) nonce 1) 4) BSWAP_EPI64 = ?x"
    by (simp add: z z4 v n mm_shuffle_epi8_def mm_srli_si128_def mm_insert_epi32_def mm_insert_epi64_def BSWAP_EPI64_def)
  have o: "unit64_in ONE 0 = 0" "unit64_in ONE 1 = 1"
    by (simp_all add: ONE_def unit64_in_def word_in_def bytes2word_def)
  have w2: "word_in ?x 2 = 0" by (simp add: word_in_def bytes2word_def)
  have a: "unit64_out (unit64_in ?x 0 + 0) = [v3, v2, v1, v0, n3, n2, n1, n0]"
    by (simp add: unit64_out_in word_out_word_in_bytes)
  have b: "word_out (word_in ?x 3) = [v7, v6, v5, v4]"
    by (simp add: word_out_word_in_bytes)
  have "ni_ctr_block ivec nonce = [v3, v2, v1, v0, n3, n2, n1, n0, 1, 0, 0, 0, v7, v6, v5, v4]"
    unfolding ni_ctr_block_def Let_def x mm_add_epi64_def o unit64_out_step [OF w2] a b word_out_1 by simp
  then show ?thesis by (simp add: v n mm_shuffle_epi8_def BSWAP_EPI64_def)
qed

lemma length_ni_ctr_inc: "length b = 16 \<Longrightarrow> length (ni_ctr_inc b) = 16"
  by (simp add: ni_ctr_inc_def Let_def)

lemma xor_bytes_inj:
  assumes "length a = 16" "length b = 16" "length p = 16" "xor_bytes a p = xor_bytes b p"
  shows "a = b"
proof -
  have "a = xor_bytes (xor_bytes a p) p" by (rule xor_bytes_cancel [symmetric]) (use assms in simp)
  also have "\<dots> = b" unfolding assms(4) by (rule xor_bytes_cancel) (use assms in simp)
  finally show ?thesis .
qed

text \<open>C17: the two paths of \<open>aes_CTR_encrypt\<close> are not the same cipher: with the AES instructions the first counter block is
  \<open>nonce\<close>, \<open>ivec\<close>, 1, without them \<open>ivec\<close>, \<open>nonce\<close> and four bytes that nothing has set. So the outputs for one block differ,
  under every key, unless \<open>ivec\<close> begins with \<open>nonce\<close>.\<close>

theorem ni_ctr_paths_differ:
  assumes "aes_instructions c1" "has_aes_ni c1" "\<not> has_aes_ni c2" "enc_keyed key e" "inf_b e ! 2 = 0"
    and "length ivec = 8" "length nonce = 4" "length u = 4" "length p = 16"
  shows "\<exists>q1 q2. aes_CTR_encrypt c1 al u p ivec nonce 16 e = Some (EXIT_SUCCESS, q1) \<and>
    aes_CTR_encrypt c2 al u p ivec nonce 16 e = Some (EXIT_SUCCESS, q2) \<and> length q1 = 16 \<and> length q2 = 16 \<and>
    q1 = xor_bytes (aes_cipher key (nonce @ ivec @ [0, 0, 0, 1])) p \<and> (nonce \<noteq> take 4 ivec \<longrightarrow> q1 \<noteq> q2)"
proof -
  let ?F = "aes_cipher key"
  let ?b1 = "nonce @ ivec @ [0, 0, 0, 1]" and ?b2 = "ivec @ nonce @ u"
  have l: "length ?b1 = 16" "length ?b2 = 16" using assms by simp_all
  have k: "length key \<in> {16, 24, 32}" using assms(4) by (simp add: enc_keyed_def)
  have F: "length (?F ?b1) = 16" "length (?F ?b2) = 16" using k by (simp_all del: insert_iff)
  note g = keyed_guard [OF enc_keyed_rounds [OF assms(4)]]
  have nb: "nblocks (unat (16 :: u32)) = Suc 0" by (simp add: nblocks_def)
  have t: "take 8 ivec = ivec" "take 4 nonce = nonce" "mm_loadu p 0 = p" using assms by (simp_all add: mm_loadu_def)
  have one: "aes_CTR_encrypt c1 al u p ivec nonce 16 e = Some (EXIT_SUCCESS, xor_bytes (?F ?b1) p)"
    using g(2) assms(2) ni_rounds_cipher [OF assms(1,4) l(1)]
    unfolding aes_CTR_encrypt_def g(1) Let_def nb t
    by (simp add: Let_def ni_first_block [OF assms(6,7)] t mm_xor_def)
  obtain pos cbuf where r: "aes_ctr_crypt al p ?b2 ni_ctr_inc e =
      (EXIT_SUCCESS, fst (ctr_spec ?F ni_ctr_inc (0, ?b2) p), cbuf, set_b2 e pos)"
    using ctr_crypt_ctx [OF assms(4) l(2), of ni_ctr_inc al p] length_ni_ctr_inc assms(5) by (auto simp: ctr_abs_def)
  have "fst (ctr_spec ?F ni_ctr_inc (0, ?b2) p) = xor_bytes (?F ?b2) p"
    using ctr_spec_bytes [of 0 p ?F ni_ctr_inc ?b2] ctr_xor_bytes_block [OF assms(9) F(2)] assms(9)
    by (simp add: xor_bytes_commute)
  then have two: "aes_CTR_encrypt c2 al u p ivec nonce 16 e = Some (EXIT_SUCCESS, xor_bytes (?F ?b2) p)"
    using g(2) assms(3,9) r unfolding aes_CTR_encrypt_def ctr_fallback_def g(1) Let_def t by simp
  have "xor_bytes (?F ?b1) p \<noteq> xor_bytes (?F ?b2) p" if "nonce \<noteq> take 4 ivec"
  proof
    assume "xor_bytes (?F ?b1) p = xor_bytes (?F ?b2) p"
    then have "?F ?b1 = ?F ?b2" by (rule xor_bytes_inj [OF F assms(9)])
    then have "?b1 = ?b2" using aes_inv_cipher_cipher [OF k l(1)] aes_inv_cipher_cipher [OF k l(2)] by metis
    then have "take 4 ?b1 = take 4 ?b2" by (simp only:)
    then show False using that assms(6,7) by simp
  qed
  then show ?thesis using one two F assms(9) by simp
qed

theorem ni_ctr_paths_differ_witness:
  "\<exists>q1 q2. aes_CTR_encrypt (spec_cpu 0x02000000) True [0, 0, 0, 0] (replicate 16 9) (replicate 8 1) [2, 2, 2, 2] 16
      (snd (aes_mode_reset (aes_encrypt_key256 zero_key zero_ctx))) = Some (EXIT_SUCCESS, q1) \<and>
    aes_CTR_encrypt (spec_cpu 0) True [0, 0, 0, 0] (replicate 16 9) (replicate 8 1) [2, 2, 2, 2] 16
      (snd (aes_mode_reset (aes_encrypt_key256 zero_key zero_ctx))) = Some (EXIT_SUCCESS, q2) \<and> length q1 = 16 \<and> length q2 = 16 \<and>
    q1 = xor_bytes (aes_cipher zero_key ([2, 2, 2, 2] @ replicate 8 1 @ [0, 0, 0, 1])) (replicate 16 9) \<and>
    ([2, 2, 2, 2] \<noteq> take 4 (replicate 8 (1::byte)) \<longrightarrow> q1 \<noteq> q2)"
proof (rule ni_ctr_paths_differ [OF spec_cpu_instructions spec_cpu_has])
  have r: "snd (aes_mode_reset x) = set_b2 x 0" for x by (simp add: aes_mode_reset_def set_b2_def)
  show "enc_keyed zero_key (snd (aes_mode_reset (aes_encrypt_key256 zero_key zero_ctx)))"
    unfolding r set_b2(1) by (rule zero_enc_keyed)
  have "unat (inf_b (set_b2 (aes_encrypt_key256 zero_key zero_ctx) 0) ! 2) = 0" by (rule set_b2(3) [OF zero_enc_keyed]) simp
  then show "inf_b (snd (aes_mode_reset (aes_encrypt_key256 zero_key zero_ctx))) ! 2 = 0" unfolding r by (simp add: unsigned_eq_0_iff)
qed simp_all

end
