(* ===== verification/ConstTime.thy ===== *)
theory ConstTime
  imports Prelude
begin

text \<open>
  \<^verbatim>\<open>native/openssl/include/internal/constant_time.h\<close>: comparisons and selections
  without branches. On 64-bit Windows \<open>unsigned int\<close> has 32 bits and \<open>size_t\<close> 64. A
  signed \<open>int\<close> is kept as the 32-bit word of its representation, so the casts of
  the source are the identity. The barriers return their argument.
\<close>

subsection \<open>The functions\<close>

definition constant_time_msb :: "u32 \<Rightarrow> u32" where "constant_time_msb a = 0 - drop_bit 31 a"
definition constant_time_msb_32 :: "u32 \<Rightarrow> u32" where "constant_time_msb_32 a = 0 - drop_bit 31 a"
definition constant_time_msb_64 :: "u64 \<Rightarrow> u64" where "constant_time_msb_64 a = 0 - drop_bit 63 a"
definition constant_time_msb_s :: "u64 \<Rightarrow> u64" where "constant_time_msb_s a = 0 - drop_bit 63 a"

definition constant_time_lt :: "u32 \<Rightarrow> u32 \<Rightarrow> u32" where
  "constant_time_lt a b = constant_time_msb (a XOR ((a XOR b) OR ((a - b) XOR b)))"

definition constant_time_lt_s :: "u64 \<Rightarrow> u64 \<Rightarrow> u64" where
  "constant_time_lt_s a b = constant_time_msb_s (a XOR ((a XOR b) OR ((a - b) XOR b)))"

definition constant_time_lt_8 :: "u32 \<Rightarrow> u32 \<Rightarrow> byte" where
  "constant_time_lt_8 a b = ucast (constant_time_lt a b)"

definition constant_time_lt_64 :: "u64 \<Rightarrow> u64 \<Rightarrow> u64" where
  "constant_time_lt_64 a b = constant_time_msb_64 (a XOR ((a XOR b) OR ((a - b) XOR b)))"

definition constant_time_ge :: "u32 \<Rightarrow> u32 \<Rightarrow> u32" where "constant_time_ge a b = NOT (constant_time_lt a b)"
definition constant_time_ge_s :: "u64 \<Rightarrow> u64 \<Rightarrow> u64" where "constant_time_ge_s a b = NOT (constant_time_lt_s a b)"
definition constant_time_ge_8 :: "u32 \<Rightarrow> u32 \<Rightarrow> byte" where "constant_time_ge_8 a b = ucast (constant_time_ge a b)"
definition constant_time_ge_8_s :: "u64 \<Rightarrow> u64 \<Rightarrow> byte" where "constant_time_ge_8_s a b = ucast (constant_time_ge_s a b)"

definition constant_time_is_zero :: "u32 \<Rightarrow> u32" where
  "constant_time_is_zero a = constant_time_msb (NOT a AND (a - 1))"

definition constant_time_is_zero_s :: "u64 \<Rightarrow> u64" where
  "constant_time_is_zero_s a = constant_time_msb_s (NOT a AND (a - 1))"

definition constant_time_is_zero_8 :: "u32 \<Rightarrow> byte" where
  "constant_time_is_zero_8 a = ucast (constant_time_is_zero a)"

definition constant_time_is_zero_32 :: "u32 \<Rightarrow> u32" where
  "constant_time_is_zero_32 a = constant_time_msb_32 (NOT a AND (a - 1))"

definition constant_time_eq :: "u32 \<Rightarrow> u32 \<Rightarrow> u32" where "constant_time_eq a b = constant_time_is_zero (a XOR b)"
definition constant_time_eq_s :: "u64 \<Rightarrow> u64 \<Rightarrow> u64" where "constant_time_eq_s a b = constant_time_is_zero_s (a XOR b)"
definition constant_time_eq_8 :: "u32 \<Rightarrow> u32 \<Rightarrow> byte" where "constant_time_eq_8 a b = ucast (constant_time_eq a b)"
definition constant_time_eq_8_s :: "u64 \<Rightarrow> u64 \<Rightarrow> byte" where "constant_time_eq_8_s a b = ucast (constant_time_eq_s a b)"
definition constant_time_eq_int :: "u32 \<Rightarrow> u32 \<Rightarrow> u32" where "constant_time_eq_int a b = constant_time_eq a b"
definition constant_time_eq_int_8 :: "u32 \<Rightarrow> u32 \<Rightarrow> byte" where "constant_time_eq_int_8 a b = constant_time_eq_8 a b"

definition value_barrier :: "u32 \<Rightarrow> u32" where "value_barrier a = a"
definition value_barrier_32 :: "u32 \<Rightarrow> u32" where "value_barrier_32 a = a"
definition value_barrier_64 :: "u64 \<Rightarrow> u64" where "value_barrier_64 a = a"
definition value_barrier_s :: "u64 \<Rightarrow> u64" where "value_barrier_s a = a"

definition constant_time_select :: "u32 \<Rightarrow> u32 \<Rightarrow> u32 \<Rightarrow> u32" where
  "constant_time_select m a b = (value_barrier m AND a) OR (value_barrier (NOT m) AND b)"

definition constant_time_select_s :: "u64 \<Rightarrow> u64 \<Rightarrow> u64 \<Rightarrow> u64" where
  "constant_time_select_s m a b = (value_barrier_s m AND a) OR (value_barrier_s (NOT m) AND b)"

definition constant_time_select_8 :: "byte \<Rightarrow> byte \<Rightarrow> byte \<Rightarrow> byte" where
  "constant_time_select_8 m a b = ucast (constant_time_select (ucast m) (ucast a) (ucast b))"

definition constant_time_select_int :: "u32 \<Rightarrow> u32 \<Rightarrow> u32 \<Rightarrow> u32" where
  "constant_time_select_int m a b = constant_time_select m a b"

definition constant_time_select_int_s :: "u64 \<Rightarrow> u32 \<Rightarrow> u32 \<Rightarrow> u32" where
  "constant_time_select_int_s m a b = constant_time_select (ucast m) a b"

definition constant_time_select_32 :: "u32 \<Rightarrow> u32 \<Rightarrow> u32 \<Rightarrow> u32" where
  "constant_time_select_32 m a b = (value_barrier_32 m AND a) OR (value_barrier_32 (NOT m) AND b)"

definition constant_time_select_64 :: "u64 \<Rightarrow> u64 \<Rightarrow> u64 \<Rightarrow> u64" where
  "constant_time_select_64 m a b = (value_barrier_64 m AND a) OR (value_barrier_64 (NOT m) AND b)"

definition constant_time_cond_swap_32 :: "u32 \<Rightarrow> u32 \<Rightarrow> u32 \<Rightarrow> u32 \<times> u32" where
  "constant_time_cond_swap_32 m a b = (let x = (a XOR b) AND m in (a XOR x, b XOR x))"

definition constant_time_cond_swap_64 :: "u64 \<Rightarrow> u64 \<Rightarrow> u64 \<Rightarrow> u64 \<times> u64" where
  "constant_time_cond_swap_64 m a b = (let x = (a XOR b) AND m in (a XOR x, b XOR x))"

text \<open>The loop over the rows: \<open>n\<close> rows left, \<open>idx\<close> counting down, \<open>outc\<close> the row collected.\<close>

fun ct_lookup_loop :: "nat \<Rightarrow> nat \<Rightarrow> u64 \<Rightarrow> byte list \<Rightarrow> byte list \<Rightarrow> byte list" where
  "ct_lookup_loop rowsize 0 idx tablec outc = outc"
| "ct_lookup_loop rowsize (Suc n) idx tablec outc =
    (let m = ucast (constant_time_is_zero_s idx) :: byte;
         outc = map2 (\<lambda>o' t. o' OR constant_time_select_8 m t 0) outc (take rowsize tablec)
     in ct_lookup_loop rowsize n (idx - 1) (drop rowsize tablec) outc)"

definition constant_time_lookup :: "byte list \<Rightarrow> nat \<Rightarrow> nat \<Rightarrow> u64 \<Rightarrow> byte list" where
  "constant_time_lookup table rowsize numrows idx = ct_lookup_loop rowsize numrows idx table (replicate rowsize 0)"

subsection \<open>Masks\<close>

text \<open>The m of a condition at any width, and what each function is in terms of it.\<close>

definition ct_mask :: "bool \<Rightarrow> 'a::len word" where
  "ct_mask b = (if b then -1 else 0)"

named_theorems ct_simps

lemma bit_top: "bit (a :: 'a::len word) (LENGTH('a) - 1) \<longleftrightarrow> 2 ^ (LENGTH('a) - 1) \<le> unat a"
proof -
  let ?n = "LENGTH('a) - 1"
  have p: "(2 :: nat) ^ LENGTH('a) = 2 * 2 ^ ?n" using power_Suc [of "2 :: nat" ?n] by simp
  have "unat a < 2 ^ LENGTH('a)" by (rule unsigned_less)
  then have "unat a div 2 ^ ?n < 2" unfolding p by (simp add: less_mult_imp_div_less)
  moreover have "bit a ?n \<longleftrightarrow> odd (unat a div 2 ^ ?n)"
    using bit_unsigned_iff [where 'a = nat, of a ?n] by (simp add: bit_iff_odd)
  moreover have "2 ^ ?n \<le> unat a \<longleftrightarrow> unat a div 2 ^ ?n \<noteq> 0" by (simp add: div_eq_0_iff not_less)
  ultimately show ?thesis by (metis One_nat_def dvd_0_right less_2_cases odd_one)
qed

lemma msb_mask: "0 - drop_bit (LENGTH('a) - 1) (a :: 'a::len word) = ct_mask (bit a (LENGTH('a) - 1))"
proof -
  have "drop_bit (LENGTH('a) - 1) a = of_bool (bit a (LENGTH('a) - 1))"
  proof (rule bit_word_eqI)
    fix i
    show "bit (drop_bit (LENGTH('a) - 1) a) i = bit (of_bool (bit a (LENGTH('a) - 1)) :: 'a word) i"
    proof (cases i)
      case (Suc j)
      then show ?thesis using bit_imp_le_length [of a "LENGTH('a) - 1 + Suc j"] by (auto simp: bit_simps bit_1_iff)
    qed (simp add: bit_simps bit_1_iff)
  qed
  then show ?thesis by (simp add: ct_mask_def)
qed

lemma unat_top_cases:
  fixes a b :: "'a::len word"
  shows "bit (a XOR ((a XOR b) OR ((a - b) XOR b))) (LENGTH('a) - 1) \<longleftrightarrow> a < b"
proof -
  let ?n = "LENGTH('a) - 1" and ?h = "(2 :: nat) ^ (LENGTH('a) - 1)"
  have p: "(2 :: nat) ^ LENGTH('a) = 2 * ?h" using power_Suc [of "2 :: nat" ?n] by simp
  have u: "unat a < 2 * ?h" "unat b < 2 * ?h" using unsigned_less [of a, where 'a = nat] unsigned_less [of b, where 'a = nat]
    by (simp_all only: p)
  have d: "unat (a - b) = (if unat b \<le> unat a then unat a - unat b else 2 * ?h + unat a - unat b)"
    unfolding p [symmetric] by (simp add: unat_sub_if' add.commute)
  have l: "a < b \<longleftrightarrow> unat a < unat b" by (rule word_less_nat_alt)
  have "bit (a XOR ((a XOR b) OR ((a - b) XOR b))) ?n \<longleftrightarrow>
    (bit a ?n \<noteq> ((bit a ?n \<noteq> bit b ?n) \<or> (bit (a - b) ?n \<noteq> bit b ?n)))"
    by (simp add: bit_simps)
  also have "\<dots> \<longleftrightarrow> (?h \<le> unat a) \<noteq> (((?h \<le> unat a) \<noteq> (?h \<le> unat b)) \<or> ((?h \<le> unat (a - b)) \<noteq> (?h \<le> unat b)))"
    unfolding bit_top ..
  also have "\<dots> \<longleftrightarrow> unat a < unat b" unfolding d using u by auto
  finally show ?thesis unfolding l .
qed

lemma is_zero_top: "bit (NOT a AND (a - 1)) (LENGTH('a) - 1) \<longleftrightarrow> a = (0 :: 'a::len word)"
proof (cases "a = 0")
  case False
  then have "1 \<le> a" by (simp add: word_le_nat_alt Suc_le_eq unsigned_eq_0_iff flip: neq0_conv)
  then have "unat (a - 1) = unat a - 1" by (simp add: unat_sub)
  then have "\<not> bit a (LENGTH('a) - 1) \<longrightarrow> \<not> bit (a - 1) (LENGTH('a) - 1)"
    unfolding bit_top by linarith
  then show ?thesis using False by (auto simp: bit_simps)
qed (simp add: bit_simps)

lemma msb_32: "constant_time_msb a = ct_mask (bit a 31)" "constant_time_msb_32 a = ct_mask (bit a 31)"
  using msb_mask [of a] by (simp_all add: constant_time_msb_def constant_time_msb_32_def)

lemma msb_64: "constant_time_msb_64 x = ct_mask (bit x 63)" "constant_time_msb_s x = ct_mask (bit x 63)"
  using msb_mask [of x] by (simp_all add: constant_time_msb_64_def constant_time_msb_s_def)

lemma ucast_ct_mask [ct_simps]:
  "ucast (ct_mask b :: u32) = (ct_mask b :: byte)" "ucast (ct_mask b :: u64) = (ct_mask b :: byte)"
  "ucast (ct_mask b :: u64) = (ct_mask b :: u32)"
  by (auto simp: ct_mask_def intro!: bit_word_eqI simp: bit_simps)

lemma ct_mask_ops [ct_simps]:
  "NOT (ct_mask b) = ct_mask (\<not> b)" "ct_mask b AND ct_mask c = ct_mask (b \<and> c)" "ct_mask b OR ct_mask c = ct_mask (b \<or> c)"
  by (auto simp: ct_mask_def)

lemma ct_lt [ct_simps]:
  "constant_time_lt a b = ct_mask (a < b)" "constant_time_lt_s x y = ct_mask (x < y)" "constant_time_lt_64 x y = ct_mask (x < y)"
  "constant_time_lt_8 a b = ct_mask (a < b)"
  using unat_top_cases [of a b] unat_top_cases [of x y]
  by (simp_all add: constant_time_lt_def constant_time_lt_s_def constant_time_lt_64_def constant_time_lt_8_def msb_32 msb_64 ucast_ct_mask)

lemma ct_ge [ct_simps]:
  "constant_time_ge a b = ct_mask (b \<le> a)" "constant_time_ge_s x y = ct_mask (y \<le> x)"
  "constant_time_ge_8 a b = ct_mask (b \<le> a)" "constant_time_ge_8_s x y = ct_mask (y \<le> x)"
  by (simp_all add: constant_time_ge_def constant_time_ge_s_def constant_time_ge_8_def constant_time_ge_8_s_def ct_simps not_less)

lemma ct_is_zero [ct_simps]:
  "constant_time_is_zero a = ct_mask (a = 0)" "constant_time_is_zero_s x = ct_mask (x = 0)"
  "constant_time_is_zero_8 a = ct_mask (a = 0)" "constant_time_is_zero_32 a = ct_mask (a = 0)"
  using is_zero_top [of a] is_zero_top [of x]
  by (simp_all add: constant_time_is_zero_def constant_time_is_zero_s_def constant_time_is_zero_8_def
      constant_time_is_zero_32_def msb_32 msb_64 ucast_ct_mask)

lemma ct_eq [ct_simps]:
  "constant_time_eq a b = ct_mask (a = b)" "constant_time_eq_s x y = ct_mask (x = y)"
  "constant_time_eq_8 a b = ct_mask (a = b)" "constant_time_eq_8_s x y = ct_mask (x = y)"
  "constant_time_eq_int a b = ct_mask (a = b)" "constant_time_eq_int_8 a b = ct_mask (a = b)"
  by (simp_all add: constant_time_eq_def constant_time_eq_s_def constant_time_eq_8_def constant_time_eq_8_s_def
      constant_time_eq_int_def constant_time_eq_int_8_def ct_simps)

lemma ct_mask_and [ct_simps]: "ct_mask b AND a = (if b then a else 0)" "a AND ct_mask b = (if b then a else 0)"
  by (simp_all add: ct_mask_def)

lemma ct_select [ct_simps]:
  "constant_time_select (ct_mask c) a b = (if c then a else b)"
  "constant_time_select_s (ct_mask c) x y = (if c then x else y)"
  "constant_time_select_int (ct_mask c) a b = (if c then a else b)"
  "constant_time_select_int_s (ct_mask c) a b = (if c then a else b)"
  "constant_time_select_32 (ct_mask c) a b = (if c then a else b)"
  "constant_time_select_64 (ct_mask c) x y = (if c then x else y)"
  by (simp_all add: constant_time_select_def constant_time_select_s_def constant_time_select_int_def
      constant_time_select_int_s_def constant_time_select_32_def constant_time_select_64_def value_barrier_def
      value_barrier_s_def value_barrier_32_def value_barrier_64_def ct_simps)

text \<open>The mask of 8 bits is extended with zeros to 32 bits, so its complement selects the upper bits of \<open>b\<close>, which are zero.\<close>

lemma ct_select_8 [ct_simps]: "constant_time_select_8 (ct_mask c) a b = (if c then a else b)"
proof -
  have "ucast ((ucast (ct_mask c :: byte) AND ucast a :: u32) OR (NOT (ucast (ct_mask c :: byte)) AND ucast b)) = (if c then a else b)"
    by (rule bit_word_eqI) (auto simp: ct_mask_def bit_simps dest: bit_imp_le_length)
  then show ?thesis by (simp add: constant_time_select_8_def constant_time_select_def value_barrier_def)
qed

lemma ct_cond_swap:
  "constant_time_cond_swap_32 (ct_mask c) a b = (if c then (b, a) else (a, b))"
  "constant_time_cond_swap_64 (ct_mask c) x y = (if c then (y, x) else (x, y))"
  by (simp_all add: constant_time_cond_swap_32_def constant_time_cond_swap_64_def ct_mask_def Let_def)
     (simp_all add: xor_ac)

lemma map2_OR_0: "length xs = length ys \<Longrightarrow> map2 (\<lambda>o' t. o' OR 0) xs ys = (xs :: byte list)"
  by (induction xs ys rule: list_induct2) simp_all

lemma unat_minus_1: "x \<noteq> 0 \<Longrightarrow> unat (x - 1 :: u64) = unat x - 1"
  using unat_sub [of 1 x] by (simp add: word_le_nat_alt Suc_le_eq unsigned_eq_0_iff flip: neq0_conv)

lemma ct_lookup_loop:
  "length outc = r \<Longrightarrow> r * n \<le> length tablec \<Longrightarrow> n \<le> 2 ^ 64 \<Longrightarrow>
   ct_lookup_loop r n idx tablec outc =
     (if unat idx < n then map2 (OR) outc (take r (drop (r * unat idx) tablec)) else outc)"
proof (induction n arbitrary: idx tablec outc)
  case (Suc n)
  have l: "length (take r tablec) = r" "r * n \<le> length (drop r tablec)" using Suc.prems by simp_all
  show ?case
  proof (cases "idx = 0")
    case True
    have "unat (0 - 1 :: u64) = 2 ^ 64 - 1" by (simp add: unsigned_minus_1_eq_mask mask_eq_exp_minus_1)
    then have "\<not> unat (0 - 1 :: u64) < n" using Suc.prems(3) by simp
    then show ?thesis
      using Suc.IH [of "map2 (OR) outc (take r tablec)" "drop r tablec" "0 - 1"] Suc.prems l True
      by (simp add: Let_def ct_simps)
  next
    case False
    have "map2 (\<lambda>o' t. o' OR constant_time_select_8 (ucast (constant_time_is_zero_s idx)) t 0) outc (take r tablec) = outc"
      using False map2_OR_0 [of outc "take r tablec"] Suc.prems(1) l(1) by (simp add: ct_simps)
    moreover have "unat idx = Suc (unat (idx - 1))"
      using False unat_minus_1 [OF False] by (simp add: unsigned_eq_0_iff Suc_le_eq flip: neq0_conv)
    ultimately show ?thesis
      using Suc.IH [of outc "drop r tablec" "idx - 1"] Suc.prems l by (simp add: Let_def add.commute)
  qed
qed simp

text \<open>C18: every function of the header, for all words of its width. The functions that copy the top bit and the comparisons
  return all ones or zero for their condition; with such a mask each selection and each exchange chooses; and the table
  look-up returns row \<open>idx\<close>, or zeros when there is none.\<close>

theorem constant_time_masks:
  assumes "length table = rowsize * numrows" "numrows \<le> 2 ^ 64"
  shows "constant_time_msb a = (if bit a 31 then -1 else 0) \<and> constant_time_msb_32 a = (if bit a 31 then -1 else 0) \<and>
   constant_time_msb_64 x = (if bit x 63 then -1 else 0) \<and> constant_time_msb_s x = (if bit x 63 then -1 else 0) \<and>
   constant_time_lt a b = (if a < b then -1 else 0) \<and> constant_time_lt_s x y = (if x < y then -1 else 0) \<and>
   constant_time_lt_8 a b = (if a < b then -1 else 0) \<and> constant_time_lt_64 x y = (if x < y then -1 else 0) \<and>
   constant_time_ge a b = (if b \<le> a then -1 else 0) \<and> constant_time_ge_s x y = (if y \<le> x then -1 else 0) \<and>
   constant_time_ge_8 a b = (if b \<le> a then -1 else 0) \<and> constant_time_ge_8_s x y = (if y \<le> x then -1 else 0) \<and>
   constant_time_is_zero a = (if a = 0 then -1 else 0) \<and> constant_time_is_zero_s x = (if x = 0 then -1 else 0) \<and>
   constant_time_is_zero_8 a = (if a = 0 then -1 else 0) \<and> constant_time_is_zero_32 a = (if a = 0 then -1 else 0) \<and>
   constant_time_eq a b = (if a = b then -1 else 0) \<and> constant_time_eq_s x y = (if x = y then -1 else 0) \<and>
   constant_time_eq_8 a b = (if a = b then -1 else 0) \<and> constant_time_eq_8_s x y = (if x = y then -1 else 0) \<and>
   constant_time_eq_int a b = (if a = b then -1 else 0) \<and> constant_time_eq_int_8 a b = (if a = b then -1 else 0) \<and>
   constant_time_select (if c then -1 else 0) a b = (if c then a else b) \<and>
   constant_time_select_s (if c then -1 else 0) x y = (if c then x else y) \<and>
   constant_time_select_8 (if c then -1 else 0) p q = (if c then p else q) \<and>
   constant_time_select_int (if c then -1 else 0) a b = (if c then a else b) \<and>
   constant_time_select_int_s (if c then -1 else 0) a b = (if c then a else b) \<and>
   constant_time_select_32 (if c then -1 else 0) a b = (if c then a else b) \<and>
   constant_time_select_64 (if c then -1 else 0) x y = (if c then x else y) \<and>
   constant_time_cond_swap_32 (if c then -1 else 0) a b = (if c then (b, a) else (a, b)) \<and>
   constant_time_cond_swap_64 (if c then -1 else 0) x y = (if c then (y, x) else (x, y)) \<and>
   constant_time_lookup table rowsize numrows idx =
     (if unat idx < numrows then take rowsize (drop (rowsize * unat idx) table) else replicate rowsize 0)"
proof -
  have z: "map2 (OR) (replicate n (0 :: byte)) xs = xs" if "length xs = n" for n xs
    using that by (induction xs arbitrary: n) auto
  have "length (take rowsize (drop (rowsize * unat idx) table)) = rowsize" if "unat idx < numrows"
  proof -
    have "rowsize * Suc (unat idx) \<le> rowsize * numrows" using that by (intro mult_le_mono2) simp
    then show ?thesis using assms(1) by simp
  qed
  then have "constant_time_lookup table rowsize numrows idx =
     (if unat idx < numrows then take rowsize (drop (rowsize * unat idx) table) else replicate rowsize 0)"
    using ct_lookup_loop [of "replicate rowsize 0" rowsize numrows table idx] assms
      z [of "take rowsize (drop (rowsize * unat idx) table)" rowsize]
    by (simp add: constant_time_lookup_def)
  then show ?thesis
    unfolding ct_mask_def [symmetric] by (intro conjI) (simp_all only: ct_simps ct_cond_swap msb_32 msb_64)
qed

theorem constant_time_masks_witness:
  "constant_time_lookup [1, 2, 3, 4, 5, 6] 2 3 2 = (if unat (2 :: u64) < 3
     then take 2 (drop (2 * unat (2 :: u64)) [1, 2, 3, 4, 5, 6]) else replicate 2 0)"
  using constant_time_masks [of "[1, 2, 3, 4, 5, 6]" 2 3] by simp

end
