(* ===== verification/RsaPad.thy ===== *)
theory RsaPad
  imports ConstTime
begin

text \<open>
  Paddings of RSA blocks: \<^verbatim>\<open>native/openssl/crypto/rsa/rsa_pk1.c\<close>, \<^verbatim>\<open>rsa_none.c\<close>,
  \<^verbatim>\<open>rsa_x931.c\<close> and \<^verbatim>\<open>rsa_ssl.c\<close>. A C \<open>int\<close> that is a length is an \<open>int\<close>, and the 32-bit
  word of it where the constant-time functions work on it. \<open>flen\<close> is the length
  of \<open>from\<close>. A result is \<open>Inl\<close> the reason given to \<open>RSAerr\<close> for the return value 0 or
  -1, \<open>NO_REASON\<close> where there is none, or \<open>Inr\<close> the bytes written to \<open>to\<close>. The
  constant-time functions return the value, the buffer \<open>to\<close> and the reason that is
  left. The random generator is the list of the bytes that it delivers until
  it fails; \<open>alloc\<close> says whether \<open>OPENSSL_malloc\<close> succeeds.
\<close>

datatype rsa_reason = NO_REASON | DATA_TOO_LARGE_FOR_KEY_SIZE | DATA_TOO_SMALL_FOR_KEY_SIZE | DATA_TOO_LARGE | DATA_TOO_SMALL
  | INVALID_PADDING | INVALID_HEADER | INVALID_TRAILER | BLOCK_TYPE_IS_NOT_01 | BLOCK_TYPE_IS_NOT_02
  | BAD_FIXED_HEADER_DECRYPT | NULL_BEFORE_BLOCK_MISSING | BAD_PAD_BYTE_COUNT | PKCS_DECODING_ERROR | SSLV3_ROLLBACK_ATTACK
  | KEY_SIZE_TOO_SMALL | OAEP_DECODING_ERROR | MALLOC_FAILURE

definition RSA_PKCS1_PADDING_SIZE :: int where "RSA_PKCS1_PADDING_SIZE = 11"

subsection \<open>No padding\<close>

definition RSA_padding_add_none :: "int \<Rightarrow> byte list \<Rightarrow> rsa_reason + byte list" where
  "RSA_padding_add_none tlen from' =
    (let flen = int (length from')
     in if flen > tlen then Inl DATA_TOO_LARGE_FOR_KEY_SIZE
        else if flen < tlen then Inl DATA_TOO_SMALL_FOR_KEY_SIZE
        else Inr from')"

definition RSA_padding_check_none :: "int \<Rightarrow> byte list \<Rightarrow> rsa_reason + byte list" where
  "RSA_padding_check_none tlen from' =
    (let flen = int (length from')
     in if flen > tlen then Inl DATA_TOO_LARGE
        else Inr (replicate (nat (tlen - flen)) 0 @ from'))"

subsection \<open>X9.31\<close>

definition RSA_padding_add_X931 :: "int \<Rightarrow> byte list \<Rightarrow> rsa_reason + byte list" where
  "RSA_padding_add_X931 tlen from' =
    (let flen = int (length from'); j = tlen - flen - 2
     in if j < 0 then Inl DATA_TOO_LARGE_FOR_KEY_SIZE
        else let p = (if j = 0 then [0x6A] else [0x6B] @ (if j > 1 then replicate (nat (j - 1)) 0xBB else []) @ [0xBA])
             in Inr (p @ from' @ [0xCC]))"

text \<open>The loop over the padding nibbles: \<open>n\<close> steps left, \<open>i\<close> done, \<open>p\<close> the rest of the input.\<close>

fun x931_scan :: "nat \<Rightarrow> nat \<Rightarrow> byte list \<Rightarrow> rsa_reason + nat \<times> byte list" where
  "x931_scan 0 i p = Inr (i, p)"
| "x931_scan (Suc n) i p =
    (let c = hd p; p = tl p
     in if c = 0xBA then Inr (i, p)
        else if c \<noteq> 0xBB then Inl INVALID_PADDING
        else x931_scan n (i + 1) p)"

text \<open>A negative \<open>j\<close> reads the byte before \<open>p\<close>, the header byte itself, which is no trailer.\<close>

definition RSA_padding_check_X931 :: "byte list \<Rightarrow> int \<Rightarrow> rsa_reason + byte list" where
  "RSA_padding_check_X931 from' num =
    (let flen = int (length from')
     in if num \<noteq> flen \<or> hd from' \<noteq> 0x6A \<and> hd from' \<noteq> 0x6B then Inl INVALID_HEADER
        else
          let trailer = (\<lambda>j p. if j < 0 \<or> p ! nat j \<noteq> 0xCC then Inl INVALID_TRAILER else Inr (take (nat j) p));
              p = tl from'
          in if hd from' = 0x6B then
               let j = flen - 3
               in case x931_scan (nat j) 0 p of
                    Inl e \<Rightarrow> Inl e
                  | Inr (i, p) \<Rightarrow> if i = 0 then Inl INVALID_PADDING else trailer (j - int i) p
             else trailer (flen - 2) p)"

datatype nid = NID_sha1 | NID_sha256 | NID_sha384 | NID_sha512 | NID_other

definition RSA_X931_hash_id :: "nid \<Rightarrow> int" where
  "RSA_X931_hash_id nid = (case nid of NID_sha1 \<Rightarrow> 0x33 | NID_sha256 \<Rightarrow> 0x34 | NID_sha384 \<Rightarrow> 0x36 | NID_sha512 \<Rightarrow> 0x35 | _ \<Rightarrow> -1)"

subsection \<open>PKCS 1, block type 1\<close>

definition RSA_padding_add_PKCS1_type_1 :: "int \<Rightarrow> byte list \<Rightarrow> rsa_reason + byte list" where
  "RSA_padding_add_PKCS1_type_1 tlen from' =
    (let flen = int (length from')
     in if flen > tlen - RSA_PKCS1_PADDING_SIZE then Inl DATA_TOO_LARGE_FOR_KEY_SIZE
        else let j = tlen - 3 - flen in Inr ([0, 1] @ replicate (nat j) 0xff @ [0] @ from'))"

fun pk1_scan :: "nat \<Rightarrow> nat \<Rightarrow> byte list \<Rightarrow> rsa_reason + nat \<times> byte list" where
  "pk1_scan 0 i p = Inr (i, p)"
| "pk1_scan (Suc n) i p =
    (if hd p \<noteq> 0xff then if hd p = 0 then Inr (i, tl p) else Inl BAD_FIXED_HEADER_DECRYPT
     else pk1_scan n (i + 1) (tl p))"

text \<open>What follows the block type: \<open>j\<close> bytes of padding and data.\<close>

definition pk1_data :: "int \<Rightarrow> int \<Rightarrow> byte list \<Rightarrow> rsa_reason + byte list" where
  "pk1_data tlen j p =
    (case pk1_scan (nat j) 0 p of
       Inl e \<Rightarrow> Inl e
     | Inr (i, p) \<Rightarrow>
         if int i = j then Inl NULL_BEFORE_BLOCK_MISSING
         else if i < 8 then Inl BAD_PAD_BYTE_COUNT
         else let i = i + 1; j = j - int i
              in if j > tlen then Inl DATA_TOO_LARGE else Inr (take (nat j) p))"

definition RSA_padding_check_PKCS1_type_1 :: "int \<Rightarrow> byte list \<Rightarrow> int \<Rightarrow> rsa_reason + byte list" where
  "RSA_padding_check_PKCS1_type_1 tlen from' num =
    (let flen = int (length from')
     in if num < RSA_PKCS1_PADDING_SIZE then Inl NO_REASON
        else if num = flen \<and> hd from' \<noteq> 0 then Inl INVALID_PADDING
        else
          let (p, flen) = (if num = flen then (tl from', flen - 1) else (from', flen))
          in if num \<noteq> flen + 1 \<or> hd p \<noteq> 1 then Inl BLOCK_TYPE_IS_NOT_01
             else pk1_data tlen (flen - 1) (tl p))"

subsection \<open>PKCS 1, block type 2\<close>

definition RAND_bytes :: "nat \<Rightarrow> byte list \<Rightarrow> (byte list \<times> byte list) option" where
  "RAND_bytes n rng = (if n \<le> length rng then Some (take n rng, drop n rng) else None)"

text \<open>The inner loop draws single bytes until one is not zero, the outer one replaces the zeros of the padding.\<close>

fun draw_nonzero :: "byte list \<Rightarrow> (byte \<times> byte list) option" where
  "draw_nonzero [] = None"
| "draw_nonzero (y # rng) = (if y = 0 then draw_nonzero rng else Some (y, rng))"

fun nonzero_pad :: "byte list \<Rightarrow> byte list \<Rightarrow> (byte list \<times> byte list) option" where
  "nonzero_pad [] rng = Some ([], rng)"
| "nonzero_pad (x # p) rng =
    Option.bind (if x = 0 then draw_nonzero rng else Some (x, rng))
      (\<lambda>(x, rng). Option.bind (nonzero_pad p rng) (\<lambda>(p, rng). Some (x # p, rng)))"

definition RSA_padding_add_PKCS1_type_2 :: "int \<Rightarrow> byte list \<Rightarrow> byte list \<Rightarrow> rsa_reason + byte list \<times> byte list" where
  "RSA_padding_add_PKCS1_type_2 tlen from' rng =
    (let flen = int (length from')
     in if flen > tlen - RSA_PKCS1_PADDING_SIZE then Inl DATA_TOO_LARGE_FOR_KEY_SIZE
        else let j = tlen - 3 - flen
             in case Option.bind (RAND_bytes (nat j) rng) (\<lambda>(p, rng). nonzero_pad p rng) of
                  None \<Rightarrow> Inl NO_REASON
                | Some (p, rng) \<Rightarrow> Inr ([0, 2] @ p @ [0] @ from', rng))"

text \<open>
  The copy of \<open>from\<close> to the right end of \<open>em\<close>, from the last byte on; \<open>n\<close> bytes are
  left and \<open>flen\<close> is both the count and the distance of the pointer from the
  start of \<open>from\<close>, which go down together.
\<close>

fun em_copy :: "byte list \<Rightarrow> nat \<Rightarrow> u32 \<Rightarrow> byte list \<Rightarrow> byte list" where
  "em_copy from' 0 flen em = em"
| "em_copy from' (Suc n) flen em =
    (let m = NOT (constant_time_is_zero flen);
         flen = flen - (1 AND m)
     in em_copy from' n flen ((from' ! unat flen AND ucast m) # em))"

definition pk1_zero_step :: "byte list \<Rightarrow> nat \<Rightarrow> u32 \<times> u32 \<Rightarrow> u32 \<times> u32" where
  "pk1_zero_step em i = (\<lambda>(found_zero_byte, zero_index).
    (let equals0 = constant_time_is_zero (ucast (em ! i));
         zero_index = constant_time_select_int (NOT found_zero_byte AND equals0) (word_of_nat i) zero_index
     in (found_zero_byte OR equals0, zero_index)))"

text \<open>
  The move to the left: \<open>em\<close> from \<open>off\<close> to its end \<open>n\<close>, by \<open>n - off - mlen\<close> places, one
  binary digit of it at a time. \<open>ct_out\<close> is the last loop, \<open>mlen\<close> bytes to \<open>to\<close>. In the code \<open>msg_index\<close> is an
  \<^verbatim>\<open>int\<close> that the loop doubles: for blocks above \<open>2 ^ 30\<close> bytes that overflows, which C leaves undefined, and \<open>ct_move\<close>
  says nothing of the code. The theorems on the checks are stated for blocks of at most \<open>2 ^ 30\<close> bytes, where the last
  doubling gives at most \<open>2 ^ 30\<close>; a modulus of this library has at most \<open>2 ^ 26\<close>.
\<close>

definition ct_shift :: "u32 \<Rightarrow> nat \<Rightarrow> nat \<Rightarrow> nat \<Rightarrow> byte list \<Rightarrow> byte list" where
  "ct_shift m msg_index off n em =
    fold (\<lambda>i em. em[i := constant_time_select_8 (ucast m) (em ! (i + msg_index)) (em ! i)]) [off..<n - msg_index] em"

function ct_move :: "nat \<Rightarrow> nat \<Rightarrow> u32 \<Rightarrow> nat \<Rightarrow> byte list \<Rightarrow> byte list" where
  "ct_move off n mlen msg_index em =
    (if msg_index = 0 \<or> n - off \<le> msg_index then em
     else
       let m = NOT (constant_time_eq (word_of_nat msg_index AND (word_of_nat (n - off) - mlen)) 0)
       in ct_move off n mlen (2 * msg_index) (ct_shift m msg_index off n em))"
  by pat_completeness auto

termination
  by (relation "measure (\<lambda>(off, n, mlen, msg_index, em). n - off - msg_index)") auto

declare ct_move.simps [simp del]

definition ct_out :: "u32 \<Rightarrow> u32 \<Rightarrow> nat \<Rightarrow> byte list \<Rightarrow> nat \<Rightarrow> byte list \<Rightarrow> byte list" where
  "ct_out good mlen off em tlen to =
    fold (\<lambda>i to. to[i := constant_time_select_8 (ucast (good AND constant_time_lt (word_of_nat i) mlen)) (em ! (i + off)) (to ! i)])
      [0..<tlen] to"

definition RSA_padding_check_PKCS1_type_2 ::
  "bool \<Rightarrow> byte list \<Rightarrow> int \<Rightarrow> byte list \<Rightarrow> int \<Rightarrow> int \<times> byte list \<times> rsa_reason option" where
  "RSA_padding_check_PKCS1_type_2 alloc to tlen from' num =
    (let flen = int (length from')
     in if tlen \<le> 0 \<or> flen \<le> 0 then (-1, to, None)
        else if flen > num \<or> num < RSA_PKCS1_PADDING_SIZE then (-1, to, Some PKCS_DECODING_ERROR)
        else if \<not> alloc then (-1, to, Some MALLOC_FAILURE)
        else
          let em = em_copy from' (nat num) (word_of_int flen) [];
              good = constant_time_is_zero (ucast (em ! 0));
              good = good AND constant_time_eq (ucast (em ! 1)) 2;
              (found_zero_byte, zero_index) = fold (pk1_zero_step em) [2..<nat num] (0, 0);
              good = good AND constant_time_ge zero_index (2 + 8);
              msg_index = zero_index + 1;
              mlen = word_of_int num - msg_index;
              good = good AND constant_time_ge (word_of_int tlen) mlen;
              rest = word_of_int (num - RSA_PKCS1_PADDING_SIZE);
              tlen = constant_time_select_int (constant_time_lt rest (word_of_int tlen)) rest (word_of_int tlen);
              em = ct_move 11 (nat num) mlen 1 em;
              to = ct_out good mlen 11 em (unat tlen) to
          in (sint (constant_time_select_int good mlen (-1)), to,
              if 1 AND good = 1 then None else Some PKCS_DECODING_ERROR))"

end
