(* ===== verification/RsaOaep.thy ===== *)
theory RsaOaep
  imports RsaPad
begin

text \<open>
  OAEP, \<^verbatim>\<open>native/openssl/crypto/rsa/rsa_oaep.c\<close>: the padding that the server
  decrypts with. A digest is a parameter: its size and the function from data to
  the digest, \<open>None\<close> where one of its calls fails. The record \<open>oaep_env\<close> holds what else
  comes from outside: the digest \<open>EVP_sha1\<close> that stands for a null pointer and
  whether the allocations succeed. A result of \<open>None\<close> at the outermost level
  says that the loop of \<open>PKCS1_MGF1\<close> does not end.
\<close>

record evp_md =
  md_size :: nat
  md_digest :: "byte list \<Rightarrow> byte list option"

record oaep_env =
  EVP_sha1 :: evp_md
  ctx_ok :: bool
  malloc_ok :: bool

definition EVP_Digest :: "oaep_env \<Rightarrow> byte list \<Rightarrow> evp_md \<Rightarrow> byte list option" where
  "EVP_Digest env data md = (if ctx_ok env then md_digest md data else None)"

definition CRYPTO_memcmp :: "byte list \<Rightarrow> byte list \<Rightarrow> byte" where
  "CRYPTO_memcmp a b = fold (\<lambda>(x, y) r. r OR (x XOR y)) (zip a b) 0"

subsection \<open>Mask generation\<close>

definition mgf1_cnt :: "nat \<Rightarrow> byte list" where
  "mgf1_cnt i = [word_of_nat (i div 2 ^ 24), word_of_nat (i div 2 ^ 16), word_of_nat (i div 2 ^ 8), word_of_nat i]"

text \<open>The loop; \<open>out\<close> is what has been written to \<open>mask\<close>, so its length is \<open>outlen\<close>.\<close>

partial_function (option) mgf1_loop :: "evp_md \<Rightarrow> byte list \<Rightarrow> nat \<Rightarrow> nat \<Rightarrow> byte list \<Rightarrow> byte list option option" where
  "mgf1_loop dgst seed len i out =
    (if length out < len then
       case md_digest dgst (seed @ mgf1_cnt i) of
         None \<Rightarrow> Some None
       | Some md \<Rightarrow>
           if length out + md_size dgst \<le> len then mgf1_loop dgst seed len (i + 1) (out @ md)
           else mgf1_loop dgst seed len (i + 1) (out @ take (len - length out) md)
     else Some (Some out))"

declare mgf1_loop.simps [code]

definition PKCS1_MGF1 :: "oaep_env \<Rightarrow> nat \<Rightarrow> byte list \<Rightarrow> evp_md \<Rightarrow> byte list option option" where
  "PKCS1_MGF1 env len seed dgst = (if \<not> ctx_ok env then Some None else mgf1_loop dgst seed len 0 [])"

subsection \<open>Encoding\<close>

text \<open>
  \<open>seed\<close> are the random bytes. The data block is the digest of the label,
  zeros, a one and the message.
\<close>

definition RSA_padding_add_PKCS1_OAEP_mgf1 ::
  "oaep_env \<Rightarrow> int \<Rightarrow> byte list \<Rightarrow> byte list \<Rightarrow> evp_md option \<Rightarrow> evp_md option \<Rightarrow> byte list \<Rightarrow>
   (rsa_reason + byte list \<times> byte list) option" where
  "RSA_padding_add_PKCS1_OAEP_mgf1 env tlen from' param md mgf1md rng =
    (let emlen = tlen - 1;
         md = (case md of None \<Rightarrow> EVP_sha1 env | Some m \<Rightarrow> m);
         mgf1md = (case mgf1md of None \<Rightarrow> md | Some m \<Rightarrow> m);
         mdlen = int (md_size md);
         flen = int (length from')
     in if flen > emlen - 2 * mdlen - 1 then Some (Inl DATA_TOO_LARGE_FOR_KEY_SIZE)
        else if emlen < 2 * mdlen + 1 then Some (Inl KEY_SIZE_TOO_SMALL)
        else case EVP_Digest env param md of
          None \<Rightarrow> Some (Inl NO_REASON)
        | Some phash \<Rightarrow>
            let db = phash @ replicate (nat (emlen - flen - 2 * mdlen - 1)) 0 @ [1] @ from'
            in case RAND_bytes (md_size md) rng of
                 None \<Rightarrow> Some (Inl NO_REASON)
               | Some (seed, rng) \<Rightarrow>
                   let dbmask_len = nat (emlen - mdlen)
                   in if \<not> malloc_ok env then Some (Inl MALLOC_FAILURE)
                      else Option.bind (PKCS1_MGF1 env dbmask_len seed mgf1md) (\<lambda>r. case r of
                          None \<Rightarrow> Some (Inl NO_REASON)
                        | Some dbmask \<Rightarrow>
                            let db = xor_bytes db dbmask
                            in Option.bind (PKCS1_MGF1 env (md_size md) db mgf1md) (\<lambda>r. case r of
                                None \<Rightarrow> Some (Inl NO_REASON)
                              | Some seedmask \<Rightarrow> Some (Inr ([0] @ xor_bytes seed seedmask @ db, rng)))))"

definition RSA_padding_add_PKCS1_OAEP ::
  "oaep_env \<Rightarrow> int \<Rightarrow> byte list \<Rightarrow> byte list \<Rightarrow> byte list \<Rightarrow> (rsa_reason + byte list \<times> byte list) option" where
  "RSA_padding_add_PKCS1_OAEP env tlen from' param rng =
     RSA_padding_add_PKCS1_OAEP_mgf1 env tlen from' param None None rng"

subsection \<open>Decoding\<close>

definition oaep_step :: "byte list \<Rightarrow> nat \<Rightarrow> u32 \<times> u32 \<times> u32 \<Rightarrow> u32 \<times> u32 \<times> u32" where
  "oaep_step db i = (\<lambda>(found_one_byte, one_index, good).
     let equals1 = constant_time_eq (ucast (db ! i)) 1;
         equals0 = constant_time_is_zero (ucast (db ! i));
         one_index = constant_time_select_int (NOT found_one_byte AND equals1) (word_of_nat i) one_index;
         found_one_byte = found_one_byte OR equals1
     in (found_one_byte, one_index, good AND (found_one_byte OR equals0)))"

text \<open>From the comparison with the digest of the label on.\<close>

definition oaep_unpad :: "u32 \<Rightarrow> byte list \<Rightarrow> byte list \<Rightarrow> nat \<Rightarrow> byte list \<Rightarrow> int \<Rightarrow> int \<times> byte list \<times> rsa_reason option" where
  "oaep_unpad good db phash mdlen to tlen =
    (let dblen = length db;
         good = good AND constant_time_is_zero (ucast (CRYPTO_memcmp (take mdlen db) (take mdlen phash)));
         (found_one_byte, one_index, good) = fold (oaep_step db) [mdlen..<dblen] (0, 0, good);
         good = good AND found_one_byte;
         msg_index = one_index + 1;
         mlen = word_of_nat dblen - msg_index;
         good = good AND constant_time_ge (word_of_int tlen) mlen;
         rest = word_of_nat (dblen - mdlen - 1);
         tlen = constant_time_select_int (constant_time_lt rest (word_of_int tlen)) rest (word_of_int tlen);
         db = ct_move (mdlen + 1) dblen mlen 1 db;
         to = ct_out good mlen (mdlen + 1) db (unat tlen) to
     in (sint (constant_time_select_int good mlen (-1)), to,
         if 1 AND good = 1 then None else Some OAEP_DECODING_ERROR))"

definition RSA_padding_check_PKCS1_OAEP_mgf1 ::
  "oaep_env \<Rightarrow> byte list \<Rightarrow> int \<Rightarrow> byte list \<Rightarrow> int \<Rightarrow> byte list \<Rightarrow> evp_md option \<Rightarrow> evp_md option \<Rightarrow>
   (int \<times> byte list \<times> rsa_reason option) option" where
  "RSA_padding_check_PKCS1_OAEP_mgf1 env to tlen from' num param md mgf1md =
    (let md = (case md of None \<Rightarrow> EVP_sha1 env | Some m \<Rightarrow> m);
         mgf1md = (case mgf1md of None \<Rightarrow> md | Some m \<Rightarrow> m);
         mdlen = md_size md;
         flen = int (length from')
     in if tlen \<le> 0 \<or> flen \<le> 0 then Some (-1, to, None)
        else if num < flen \<or> num < 2 * int mdlen + 2 then Some (-1, to, Some OAEP_DECODING_ERROR)
        else if \<not> malloc_ok env then Some (-1, to, Some MALLOC_FAILURE)
        else
          let dblen = nat num - mdlen - 1;
              em = em_copy from' (nat num) (word_of_int flen) [];
              good = constant_time_is_zero (ucast (em ! 0));
              maskedseed = take mdlen (drop 1 em);
              maskeddb = drop (1 + mdlen) em
          in Option.bind (PKCS1_MGF1 env mdlen maskeddb mgf1md) (\<lambda>r. case r of
              None \<Rightarrow> Some (-1, to, None)
            | Some seed \<Rightarrow>
                let seed = xor_bytes seed maskedseed
                in Option.bind (PKCS1_MGF1 env dblen seed mgf1md) (\<lambda>r. case r of
                    None \<Rightarrow> Some (-1, to, None)
                  | Some db \<Rightarrow>
                      let db = xor_bytes db maskeddb
                      in case EVP_Digest env param md of
                           None \<Rightarrow> Some (-1, to, None)
                         | Some phash \<Rightarrow> Some (oaep_unpad good db phash mdlen to tlen))))"

definition RSA_padding_check_PKCS1_OAEP ::
  "oaep_env \<Rightarrow> byte list \<Rightarrow> int \<Rightarrow> byte list \<Rightarrow> int \<Rightarrow> byte list \<Rightarrow> (int \<times> byte list \<times> rsa_reason option) option" where
  "RSA_padding_check_PKCS1_OAEP env to tlen from' num param =
     RSA_padding_check_PKCS1_OAEP_mgf1 env to tlen from' num param None None"

end
