(* ===== verification/RsaPadProps.thy ===== *)
theory RsaPadProps
  imports RsaPad
begin

text \<open>
  What the paddings of \<open>RsaPad\<close> accept, and that they accept what they produce.
\<close>

subsection \<open>X9.31\<close>

lemma x931_scan_pad: "x931_scan (n + Suc m) i (replicate n 0xBB @ 0xBA # r) = Inr (i + n, r)"
  by (induction n arbitrary: i) simp_all

lemma x931_padded:
  assumes "from' \<noteq> []" "int (length from') + 3 \<le> tlen"
  shows "RSA_padding_add_X931 tlen from' =
    Inr (0x6B # replicate (nat (tlen - int (length from') - 3)) 0xBB @ 0xBA # from' @ [0xCC])"
  using assms by (cases "tlen = int (length from') + 3") (auto simp: RSA_padding_add_X931_def Let_def algebra_simps)

text \<open>C19: the X9.31 padding of a non-empty block is accepted and gives the block back, with one exception: when exactly one
  byte of padding is needed, the padded block is refused by the check.\<close>

theorem x931_roundtrip:
  assumes "from' \<noteq> []" "int (length from') + 2 \<le> tlen"
  shows "\<exists>e. RSA_padding_add_X931 tlen from' = Inr e \<and> int (length e) = tlen \<and>
    RSA_padding_check_X931 e tlen = (if tlen = int (length from') + 3 then Inl INVALID_PADDING else Inr from')"
proof (cases "tlen = int (length from') + 2")
  case True
  then show ?thesis by (simp add: RSA_padding_add_X931_def RSA_padding_check_X931_def Let_def nth_append)
next
  case False
  let ?n = "nat (tlen - int (length from') - 3)"
  let ?e = "0x6B # replicate ?n 0xBB @ 0xBA # from' @ [0xCC]"
  have p: "RSA_padding_add_X931 tlen from' = Inr ?e" "int (length ?e) = tlen"
    using x931_padded [OF assms(1), of tlen] assms False by auto
  obtain m where l: "length from' = Suc m" using assms(1) by (cases from') auto
  have m: "nat (tlen - 3) = ?n + Suc m" using l assms(2) False by linarith
  have s: "x931_scan (nat (tlen - 3)) 0 (replicate ?n 0xBB @ 0xBA # from' @ [0xCC]) = Inr (?n, from' @ [0xCC])"
    unfolding m using x931_scan_pad [of ?n m 0] by simp
  have "RSA_padding_check_X931 ?e tlen = (if tlen = int (length from') + 3 then Inl INVALID_PADDING else Inr from')"
    using assms False unfolding RSA_padding_check_X931_def p(2) Let_def by (simp add: s nat_eq_iff nth_append)
  then show ?thesis using p by blast
qed

theorem x931_roundtrip_witness:
  "(\<exists>e. RSA_padding_add_X931 9 [1, 2, 3] = Inr e \<and> int (length e) = 9 \<and> RSA_padding_check_X931 e 9 =
      (if 9 = int (length [1, 2, 3 :: byte]) + 3 then Inl INVALID_PADDING else Inr [1, 2, 3]))"
  by (rule x931_roundtrip) simp_all

subsection \<open>Block type 1\<close>

lemma pk1_scan_spec:
  "n \<le> length p \<Longrightarrow> pk1_scan n i p =
    (let k = length (takeWhile (\<lambda>b. b = 0xff) (take n p))
     in if k = n then Inr (i + n, drop n p)
        else if p ! k = 0 then Inr (i + k, drop (Suc k) p) else Inl BAD_FIXED_HEADER_DECRYPT)"
proof (induction n arbitrary: i p)
  case (Suc n)
  then obtain x q where p: "p = x # q" "n \<le> length q" by (cases p) auto
  then show ?case using Suc.IH [of q "i + 1"] by (auto simp: Let_def)
qed simp

lemma replicate_takeWhile:
  "length (takeWhile (\<lambda>b. b = x) q) = k \<Longrightarrow> k < length q \<Longrightarrow> q ! k = y \<Longrightarrow> q = replicate k x @ y # drop (Suc k) q"
proof (induction q arbitrary: k)
  case (Cons a q)
  then show ?case by (cases k) (auto split: if_splits)
qed simp

lemma takeWhile_replicate: "x \<noteq> y \<Longrightarrow> takeWhile (\<lambda>b. b = x) (replicate k x @ y # r) = replicate k x"
  by (induction k) auto

lemma pk1_data:
  "pk1_data tlen (int (length q)) q = Inr m \<longleftrightarrow> int (length m) \<le> tlen \<and> (\<exists>k\<ge>8. q = replicate k 0xff @ 0 # m)"
  (is "?L = Inr m \<longleftrightarrow> ?R")
proof -
  let ?k = "length (takeWhile (\<lambda>b. b = 0xff) q)"
  have k: "?k \<le> length q" by (rule length_takeWhile_le)
  have s: "pk1_scan (length q) 0 q = (if ?k = length q then Inr (?k, []) else if q ! ?k = 0 then Inr (?k, drop (Suc ?k) q)
      else Inl BAD_FIXED_HEADER_DECRYPT)"
    using pk1_scan_spec [of "length q" q 0] by (simp add: Let_def)
  have l: "?L = (if ?k = length q then Inl NULL_BEFORE_BLOCK_MISSING else if q ! ?k = 0 then
        (if ?k < 8 then Inl BAD_PAD_BYTE_COUNT else if int (length q - Suc ?k) > tlen then Inl DATA_TOO_LARGE
         else Inr (drop (Suc ?k) q)) else Inl BAD_FIXED_HEADER_DECRYPT)"
    unfolding pk1_data_def nat_int s using k by (auto simp: Let_def of_nat_diff nat_diff_distrib' nat_add_distrib algebra_simps)
  show ?thesis
  proof
    assume "?L = Inr m"
    then have a: "?k \<noteq> length q" "q ! ?k = 0" "8 \<le> ?k" "m = drop (Suc ?k) q" "int (length q - Suc ?k) \<le> tlen"
      unfolding l by (auto split: if_splits)
    then have "q = replicate ?k 0xff @ 0 # m" using replicate_takeWhile [where x = "0xff" and q = q and y = 0, OF refl] k by simp
    then show ?R using a by (metis length_drop)
  next
    assume ?R
    then obtain j where j: "8 \<le> j" "q = replicate j 0xff @ 0 # m" "int (length m) \<le> tlen" by auto
    then have "?k = j" using takeWhile_replicate [where x = "0xff" and y = "0 :: byte" and k = j and r = m] by simp
    then show "?L = Inr m" unfolding l using j by (simp add: nth_append)
  qed
qed

text \<open>C20: the check of block type 1 accepts exactly the blocks \<open>00 01 FF\<close>\dots\<open>FF 00 D\<close> with at least eight bytes \<open>FF\<close>, with or
  without the leading zero, of the length of the modulus, and returns \<open>D\<close>; the padding of \<open>D\<close> is such a block.\<close>

theorem pkcs1_type_1_accepts:
  "(RSA_padding_check_PKCS1_type_1 tlen f num = Inr m \<longleftrightarrow>
     RSA_PKCS1_PADDING_SIZE \<le> num \<and> int (length m) \<le> tlen \<and>
     (\<exists>k\<ge>8. num = int (length m) + int k + 3 \<and>
       (f = [0, 1] @ replicate k 0xff @ [0] @ m \<or> f = [1] @ replicate k 0xff @ [0] @ m))) \<and>
   (case RSA_padding_add_PKCS1_type_1 num m of
      Inl e \<Rightarrow> e = DATA_TOO_LARGE_FOR_KEY_SIZE \<and> num < int (length m) + 11
    | Inr f \<Rightarrow> int (length f) = num \<and> RSA_padding_check_PKCS1_type_1 (int (length m)) f num = Inr m)"
proof -
  have *: "RSA_padding_check_PKCS1_type_1 tlen f num = Inr m \<longleftrightarrow>
     RSA_PKCS1_PADDING_SIZE \<le> num \<and> int (length m) \<le> tlen \<and>
     (\<exists>k\<ge>8. num = int (length m) + int k + 3 \<and>
       (f = [0, 1] @ replicate k 0xff @ [0] @ m \<or> f = [1] @ replicate k 0xff @ [0] @ m))" (is "?L = Inr m \<longleftrightarrow> ?R") for tlen f num
  proof -
    have body: "?L = Inr m \<longleftrightarrow> int (length m) \<le> tlen \<and> (\<exists>k\<ge>8. q = replicate k 0xff @ 0 # m)"
      if q: "f = 0 # 1 # q \<and> num = int (length f) \<or> f = 1 # q \<and> num = int (length f) + 1" and n: "11 \<le> num" for q
    proof -
      have "?L = pk1_data tlen (int (length q)) q"
        using q n by (auto simp: RSA_padding_check_PKCS1_type_1_def RSA_PKCS1_PADDING_SIZE_def)
      then show ?thesis unfolding pk1_data [symmetric] by simp
    qed
    show ?thesis
    proof
      assume L: "?L = Inr m"
      then have n: "11 \<le> num" by (cases "num < 11") (auto simp: RSA_padding_check_PKCS1_type_1_def RSA_PKCS1_PADDING_SIZE_def Let_def)
      obtain q where q: "f = 0 # 1 # q \<and> num = int (length f) \<or> f = 1 # q \<and> num = int (length f) + 1"
        using L n by (cases f; cases "tl f") (auto simp: RSA_padding_check_PKCS1_type_1_def RSA_PKCS1_PADDING_SIZE_def Let_def split: if_splits)
      from L body [OF q n] q show ?R using n by (auto simp: RSA_PKCS1_PADDING_SIZE_def)
    next
      assume ?R
      then obtain k where k: "8 \<le> k" "num = int (length m) + int k + 3" "int (length m) \<le> tlen" "11 \<le> num"
        and f: "f = 0 # 1 # replicate k 0xff @ 0 # m \<or> f = 1 # replicate k 0xff @ 0 # m"
        by (auto simp: RSA_PKCS1_PADDING_SIZE_def)
      show "?L = Inr m" using body [of "replicate k 0xff @ 0 # m"] k f by auto
    qed
  qed
  have "RSA_padding_check_PKCS1_type_1 (int (length m)) ([0, 1] @ replicate (nat (num - 3 - int (length m))) 0xff @ [0] @ m) num = Inr m"
    if "int (length m) + 11 \<le> num"
    using that unfolding * by (intro conjI exI [of _ "nat (num - 3 - int (length m))"]) (auto simp: RSA_PKCS1_PADDING_SIZE_def)
  then show ?thesis using * by (auto simp: RSA_padding_add_PKCS1_type_1_def Let_def RSA_PKCS1_PADDING_SIZE_def)
qed

end
