(* ===== verification/RsaPk1.thy ===== *)
theory RsaPk1
  imports RsaPadProps
begin

text \<open>
  The constant-time decoding of block type 2 against a plain specification, and
  the lemmas on its loops (the copy of the input, the move to the left and the
  masked output) that the decoding of OAEP shares.
\<close>

subsection \<open>The loops\<close>

lemma em_copy:
  "f \<le> length from' \<Longrightarrow> f < 2 ^ 32 \<Longrightarrow>
   em_copy from' n (word_of_nat f) em = replicate (n - f) 0 @ drop (f - n) (take f from') @ em"
proof (induction n arbitrary: f em)
  case (Suc n)
  show ?case
  proof (cases f)
    case 0
    then show ?thesis using Suc.IH [of 0 "0 # em"] by (simp add: ct_simps Let_def replicate_append_same)
  next
    case (Suc g)
    have u: "unat (word_of_nat f :: u32) = f" using Suc.prems(2) by (simp add: unat_of_nat)
    have z: "(word_of_nat f :: u32) \<noteq> 0" using u Suc by (metis unsigned_0 nat.distinct(1))
    have m: "(1 :: u32) AND NOT (ct_mask False) = 1" by (simp add: ct_mask_def)
    have g: "(word_of_nat f :: u32) - 1 = word_of_nat g" "unat (word_of_nat g :: u32) = g"
      using Suc Suc.prems(2) by (simp_all add: unat_of_nat)
    have b: "(x :: byte) AND ucast (NOT (ct_mask False :: u32)) = x" for x
      by (simp add: ct_mask_ops ucast_ct_mask ct_mask_and)
    have "em_copy from' (Suc n) (word_of_nat f) em = em_copy from' n (word_of_nat g) (from' ! g # em)"
      using z m g b by (simp add: ct_is_zero Let_def)
    also have "\<dots> = replicate (n - g) 0 @ drop (g - n) (take g from') @ from' ! g # em"
      by (rule Suc.IH) (use Suc Suc.prems in simp_all)
    also have "drop (g - n) (take g from') @ from' ! g # em = drop (f - Suc n) (take f from') @ em"
      using Suc Suc.prems by (simp add: take_Suc_conv_app_nth)
    finally show ?thesis using Suc by simp
  qed
qed (simp)

lemma length_ct_shift [simp]: "length (ct_shift m mi off n em) = length em"
proof -
  have "length (fold (\<lambda>i em. em[i := constant_time_select_8 (ucast m) (em ! (i + mi)) (em ! i)]) is em) = length em" for "is"
    by (induction "is" arbitrary: em) simp_all
  then show ?thesis by (simp add: ct_shift_def)
qed

lemma ct_shift_nth:
  assumes "0 < mi" "e + mi \<le> length em"
  shows "i < length em \<Longrightarrow>
    fold (\<lambda>i em. em[i := constant_time_select_8 (ucast (ct_mask b :: u32)) (em ! (i + mi)) (em ! i)]) [off..<e] em ! i =
      (if b \<and> off \<le> i \<and> i < e then em ! (i + mi) else em ! i)"
  using assms(2)
proof (induction e arbitrary: i)
  case (Suc e)
  let ?f = "\<lambda>e. fold (\<lambda>i em. em[i := constant_time_select_8 (ucast (ct_mask b :: u32)) (em ! (i + mi)) (em ! i)]) [off..<e] em"
  have l: "length (?f e) = length em" for e using length_ct_shift [of "ct_mask b" mi off "e + mi" em] by (simp add: ct_shift_def)
  show ?case
  proof (cases "off \<le> e")
    case True
    obtain E where E: "E = ?f e" by simp
    have "E ! (e + mi) = em ! (e + mi)" "E ! e = em ! e" "E ! i = (if b \<and> off \<le> i \<and> i < e then em ! (i + mi) else em ! i)"
      unfolding E using Suc.IH [of "e + mi"] Suc.IH [of e] Suc.IH [of i] Suc.prems assms(1) by simp_all
    moreover have "?f (Suc e) = E[e := constant_time_select_8 (ucast (ct_mask b :: u32)) (E ! (e + mi)) (E ! e)]"
      using True by (simp add: E)
    moreover have "length E = length em" unfolding E by (rule l)
    ultimately show ?thesis using Suc.prems True by (simp add: ct_simps nth_list_update)
  qed (use Suc in auto)
qed simp

lemma ct_move_nth:
  assumes n: "n < 2 ^ 31" and s: "unat (word_of_nat (n - off) - mlen) = s" "s < n - off"
  shows "length em = n \<Longrightarrow> off \<le> i \<Longrightarrow> i + (s - s mod 2 ^ k) < n \<Longrightarrow>
    ct_move off n mlen (2 ^ k) em ! i = em ! (i + (s - s mod 2 ^ k))"
proof (induction "n - off - 2 ^ k" arbitrary: k em rule: less_induct)
  case less
  show ?case
  proof (cases "n - off \<le> 2 ^ k")
    case True
    then show ?thesis using s(2) by (simp add: ct_move.simps)
  next
    case False
    let ?b = "bit s k"
    have k: "k < 32"
    proof (rule ccontr)
      assume "\<not> k < 32"
      then have "(2 :: nat) ^ 32 \<le> 2 ^ k" by (intro power_increasing) simp_all
      then show False using False n by simp
    qed
    have w: "word_of_nat (n - off) - mlen = (word_of_nat s :: u32)" by (simp flip: s(1))
    have "(word_of_nat (2 ^ k) AND word_of_nat s = (0 :: u32)) \<longleftrightarrow> \<not> ?b"
    proof -
      have "word_of_nat (2 ^ k) AND (word_of_nat s :: u32) = (if bit (word_of_nat s :: u32) k then 2 ^ k else 0)"
        by (rule bit_word_eqI) (auto simp: bit_simps)
      moreover have "(2 :: u32) ^ k \<noteq> 0" using k by (simp add: exp_eq_zero_iff)
      moreover have "bit (word_of_nat s :: u32) k \<longleftrightarrow> bit s k" using k by (simp add: bit_simps)
      ultimately show ?thesis by simp
    qed
    then have m: "NOT (constant_time_eq (word_of_nat (2 ^ k) AND (word_of_nat (n - off) - mlen)) 0) = ct_mask ?b"
      unfolding w by (simp add: ct_eq ct_mask_ops)
    let ?e = "ct_shift (ct_mask ?b) (2 ^ k) off n em" and ?t = "s - s mod 2 ^ Suc k"
    have t: "s - s mod 2 ^ k = ?t + (if ?b then 2 ^ k else 0)"
    proof -
      have "s mod 2 ^ Suc k = s mod 2 ^ k + (if ?b then 2 ^ k else 0)"
        using mod_mult2_eq [of s "2 ^ k" 2] by (simp add: bit_iff_odd odd_iff_mod_2_eq_one mult.commute)
      moreover have "s mod 2 ^ Suc k \<le> s" by simp
      ultimately show ?thesis by (auto split: if_splits)
    qed
    have st: "ct_move off n mlen (2 ^ k) em = ct_move off n mlen (2 ^ Suc k) ?e"
      unfolding ct_move.simps [of off n mlen "2 ^ k" em] Let_def m using False by simp
    have i: "i + ?t < n" using less.prems(3) t by simp
    have "ct_move off n mlen (2 ^ Suc k) ?e ! i = ?e ! (i + ?t)"
      by (rule less.hyps) (use False less.prems i in \<open>simp_all add: diff_less_mono2\<close>)
    also have "\<dots> = em ! (i + ?t + (if ?b then 2 ^ k else 0))"
    proof -
      obtain T B where T: "T = ?t" and B: "B = ?b" by simp
      show ?thesis
        using ct_shift_nth [of "2 ^ k" "n - 2 ^ k" em "i + T" B off] less.prems t i False
        unfolding ct_shift_def T [symmetric] B [symmetric] by auto
    qed
    finally show ?thesis unfolding st t add.assoc .
  qed
qed

lemma length_ct_out [simp]: "length (ct_out g mlen off em tlen to) = length to"
proof -
  have "length (fold (\<lambda>i to. to[i := f i (to ! i)]) is to) = length (to :: byte list)" for f "is"
    by (induction "is" arbitrary: to) simp_all
  then show ?thesis by (simp add: ct_out_def)
qed

lemma ct_out_nth:
  assumes "tlen \<le> length to" "tlen < 2 ^ 32" "i < length to"
  shows "ct_out (ct_mask g) mlen off em tlen to ! i =
    (if i < tlen \<and> g \<and> i < unat mlen then em ! (i + off) else to ! i)"
  using assms(1,2)
proof (induction tlen)
  case (Suc t)
  obtain r where r: "r = ct_out (ct_mask g) mlen off em t to" by simp
  then have l: "length r = length to" by simp
  have w: "(word_of_nat t :: u32) < mlen \<longleftrightarrow> t < unat mlen" using Suc.prems(2) by (simp add: word_less_nat_alt unat_of_nat)
  have "ct_out (ct_mask g) mlen off em (Suc t) to =
    r[t := constant_time_select_8 (ucast (ct_mask g AND constant_time_lt (word_of_nat t) mlen)) (em ! (t + off)) (r ! t)]"
    by (simp add: ct_out_def r)
  also have "\<dots> = r[t := if g \<and> t < unat mlen then em ! (t + off) else r ! t]"
    by (simp add: ct_lt ct_mask_ops ucast_ct_mask ct_select_8 w)
  finally show ?case using Suc assms(3) l by (auto simp: nth_list_update r)
qed (simp add: ct_out_def)

text \<open>The end of both decodings: the message, the last \<open>M\<close> bytes of \<open>em\<close>, or nothing.\<close>

lemma ct_message:
  assumes "length em = n" "n < 2 ^ 31" "off \<le> n" "M < 2 ^ 32" "w \<le> length to" "w < 2 ^ 32"
    and "g \<Longrightarrow> M \<le> n - off" "g \<Longrightarrow> M \<le> w"
  shows "ct_out (ct_mask g) (word_of_nat M) off (ct_move off n (word_of_nat M) 1 em) w to =
    (if g then drop (n - M) em @ drop M to else to)" (is "?l = ?r")
proof (rule nth_equalityI)
  show l: "length ?l = length ?r" using assms by auto
  fix i
  assume "i < length ?l"
  then have i: "i < length to" by simp
  have u: "unat (word_of_nat M :: u32) = M" using assms(4) by (simp add: unat_of_nat)
  have "?l ! i = (if i < w \<and> g \<and> i < M then ct_move off n (word_of_nat M) 1 em ! (i + off) else to ! i)"
    using ct_out_nth [OF assms(5,6) i] u by simp
  also have "\<dots> = ?r ! i"
  proof (cases "g \<and> i < M")
    case True
    have s: "unat (word_of_nat (n - off) - word_of_nat M :: u32) = n - off - M"
      using assms(2,7) True by (simp add: unat_of_nat flip: of_nat_diff)
    have "ct_move off n (word_of_nat M) (2 ^ 0) em ! (i + off) = em ! (i + off + (n - off - M - (n - off - M) mod 2 ^ 0))"
      by (rule ct_move_nth [OF assms(2) s]) (use True assms in auto)
    moreover have "i + off + (n - off - M) = n - M + i" using True assms(3,7) by simp
    ultimately show ?thesis using True assms by (simp add: nth_append add.commute)
  next
    case False
    then show ?thesis using assms i by (auto simp: nth_append)
  qed
  finally show "?l ! i = ?r ! i" .
qed

lemma sint_small: "k < 2 ^ 31 \<Longrightarrow> sint (word_of_nat k :: u32) = int k"
  by (simp add: sint_uint uint_nat unat_of_nat signed_take_bit_int_eq_self)

lemma unat_small: "k < 2 ^ 31 \<Longrightarrow> unat (word_of_nat k :: u32) = k"
  by (simp add: unat_of_nat)

lemma ct_tail:
  assumes "length em = n" "n < 2 ^ 31" "off \<le> n" "M < 2 ^ 31" "length to < 2 ^ 31" "g \<Longrightarrow> M \<le> n - off \<and> M \<le> length to"
  shows "(sint (constant_time_select_int (ct_mask g) (word_of_nat M) (-1) :: u32),
     ct_out (ct_mask g) (word_of_nat M) off (ct_move off n (word_of_nat M) 1 em)
       (unat (constant_time_select_int (constant_time_lt (word_of_nat (n - off)) (word_of_nat (length to)))
          (word_of_nat (n - off)) (word_of_nat (length to)))) to,
     if 1 AND ct_mask g = (1 :: u32) then None else Some e) =
   (if g then (int M, drop (n - M) em @ drop M to, None) else (-1, to, Some e))"
proof -
  let ?w = "if n - off < length to then n - off else length to"
  have w: "unat (constant_time_select_int (constant_time_lt (word_of_nat (n - off)) (word_of_nat (length to)))
      (word_of_nat (n - off)) (word_of_nat (length to))) = ?w"
    using unat_small [of "n - off"] unat_small [of "length to"] assms(2,5) by (simp only: ct_lt ct_select word_less_nat_alt) auto
  have "ct_out (ct_mask g) (word_of_nat M) off (ct_move off n (word_of_nat M) 1 em) ?w to =
      (if g then drop (n - M) em @ drop M to else to)"
    by (rule ct_message) (use assms in auto)
  moreover have "constant_time_select_int (ct_mask g) (word_of_nat M) (-1) = (if g then word_of_nat M else -1 :: u32)"
    by (rule ct_select)
  moreover have "(1 AND ct_mask g = (1 :: u32)) \<longleftrightarrow> g" by (simp add: ct_mask_and)
  ultimately show ?thesis unfolding w using sint_small [OF assms(4)] by simp
qed

subsection \<open>Block type 2\<close>

lemma ucast_byte_inj: "(ucast (b :: byte) :: u32) = ucast c \<longleftrightarrow> b = c"
proof
  assume "(ucast b :: u32) = ucast c"
  then have "ucast (ucast b :: u32) = (ucast (ucast c :: u32) :: byte)" by simp
  then show "b = c" by (simp add: ucast_up_ucast_id is_up.rep_eq)
qed simp

lemma ucast_byte: "(ucast (b :: byte) :: u32) = 0 \<longleftrightarrow> b = 0" "(ucast b :: u32) = 1 \<longleftrightarrow> b = 1" "(ucast b :: u32) = 2 \<longleftrightarrow> b = 2"
  using ucast_byte_inj [of b 0] ucast_byte_inj [of b 1] ucast_byte_inj [of b 2] by simp_all

lemma pk1_zero_step:
  "pk1_zero_step em i (ct_mask f, z) = (ct_mask (f \<or> em ! i = 0), if \<not> f \<and> em ! i = 0 then word_of_nat i else z)"
  by (simp add: pk1_zero_step_def ct_is_zero ct_mask_ops ct_select Let_def ucast_byte)

lemma pk1_zero_scan:
  assumes "2 \<le> n" "n \<le> length em"
  shows "fold (pk1_zero_step em) [2..<n] (0, 0) =
    (let xs = drop 2 (take n em)
     in (ct_mask (0 \<in> set xs), word_of_nat (if 0 \<in> set xs then 2 + length (takeWhile (\<lambda>x. x \<noteq> 0) xs) else 0)))"
  using assms
proof (induction n rule: dec_induct)
  case base
  then show ?case by (simp add: ct_mask_def)
next
  case (step n)
  obtain xs where xs: "xs = drop 2 (take n em)" by simp
  have x: "drop 2 (take (Suc n) em) = xs @ [em ! n]" using step unfolding xs by (simp add: take_Suc_conv_app_nth)
  have l: "length xs = n - 2" using step unfolding xs by simp
  have t: "takeWhile (\<lambda>x. x \<noteq> 0) (xs @ [em ! n]) =
    (if 0 \<in> set xs then takeWhile (\<lambda>x. x \<noteq> 0) xs else xs @ takeWhile (\<lambda>x. x \<noteq> 0) [em ! n])"
    by (auto simp: takeWhile_append)
  have "fold (pk1_zero_step em) [2..<Suc n] (0, 0) = pk1_zero_step em n (fold (pk1_zero_step em) [2..<n] (0, 0))"
    using step by simp
  also have "fold (pk1_zero_step em) [2..<n] (0, 0) =
      (ct_mask (0 \<in> set xs), word_of_nat (if 0 \<in> set xs then 2 + length (takeWhile (\<lambda>x. x \<noteq> 0) xs) else 0))"
    using step unfolding xs by (simp add: Let_def)
  also have "pk1_zero_step em n \<dots> = (ct_mask (0 \<in> set (xs @ [em ! n])),
      word_of_nat (if 0 \<in> set (xs @ [em ! n]) then 2 + length (takeWhile (\<lambda>x. x \<noteq> 0) (xs @ [em ! n])) else 0))"
    using step(1) unfolding pk1_zero_step t by (auto simp: l)
  finally show ?case unfolding x Let_def .
qed

lemma first_index_less: "(a :: byte) \<in> set xs \<Longrightarrow> length (takeWhile (\<lambda>x. x \<noteq> a) xs) < length xs"
  by (induction xs) auto

text \<open>The plain decoding: header, at least eight bytes that are not zero, a zero, the message, which has to fit the buffer.\<close>

definition pkcs1_decode :: "nat \<Rightarrow> byte list \<Rightarrow> byte list option" where
  "pkcs1_decode tlen em =
    (let ps = takeWhile (\<lambda>x. x \<noteq> 0) (drop 2 em); m = drop (length ps + 3) em
     in if em ! 0 = 0 \<and> em ! 1 = 2 \<and> 0 \<in> set (drop 2 em) \<and> 8 \<le> length ps \<and> length m \<le> tlen then Some m else None)"

text \<open>C21: for every input of sensible lengths the constant-time check of block type 2 gives what the plain decoding of the
  input, filled up with zeros, gives: the message at the start of \<open>to\<close>, its length and no error, or -1, the error and
  \<open>to\<close> untouched.\<close>

theorem pkcs1_type_2_refines:
  assumes "0 < length to" "length to < 2 ^ 31" "from' \<noteq> []" "length from' \<le> num" "11 \<le> num" "num \<le> 2 ^ 30"
  shows "RSA_padding_check_PKCS1_type_2 True to (int (length to)) from' (int num) =
    (case pkcs1_decode (length to) (replicate (num - length from') 0 @ from') of
       Some m \<Rightarrow> (int (length m), m @ drop (length m) to, None)
     | None \<Rightarrow> (-1, to, Some PKCS_DECODING_ERROR))"
proof -
  have le31: "num < 2 ^ 31" using assms(6) by simp
  let ?em = "replicate (num - length from') 0 @ from'"
  obtain em where em: "em = ?em" by simp
  have n: "length em = num" unfolding em using assms(4) by simp
  have copy: "em_copy from' num (word_of_nat (length from')) [] = em"
    unfolding em using em_copy [of "length from'" from' num "[]"] assms by simp
  obtain xs where xs: "xs = drop 2 em" by simp
  define ps where "ps = takeWhile (\<lambda>x. x \<noteq> 0) xs"
  define Z where "Z = (if 0 \<in> set xs then 2 + length ps else 0)"
  have scan: "fold (pk1_zero_step em) [2..<num] (0, 0) = (ct_mask (0 \<in> set xs), word_of_nat Z)"
    using pk1_zero_scan [of num em] n assms(5) by (simp add: xs ps_def Z_def Let_def)
  have Z: "Z < num" using first_index_less [of 0 xs] n assms(5) unfolding Z_def ps_def by (auto simp: xs less_diff_conv)
  define M where "M = num - Suc Z"
  have mlen: "word_of_nat num - (word_of_nat Z + 1) = (word_of_nat M :: u32)"
    unfolding M_def using Z by (simp add: of_nat_diff)
  define g where "g \<longleftrightarrow> em ! 0 = 0 \<and> em ! 1 = 2 \<and> 10 \<le> Z \<and> M \<le> length to"
  have guards: "\<not> (int (length to) \<le> 0 \<or> int (length from') \<le> 0)"
    "\<not> (int (length from') > int num \<or> int num < RSA_PKCS1_PADDING_SIZE)"
    using assms by (simp_all add: RSA_PKCS1_PADDING_SIZE_def)
  have ints: "word_of_int (int k) = (word_of_nat k :: u32)" "int num - RSA_PKCS1_PADDING_SIZE = int (num - 11)" for k
    using assms(5) by (simp_all add: RSA_PKCS1_PADDING_SIZE_def of_nat_diff)
  have good: "constant_time_is_zero (ucast (em ! 0)) AND constant_time_eq (ucast (em ! 1)) 2 AND
      constant_time_ge (word_of_nat Z) (2 + 8) AND constant_time_ge (word_of_nat (length to)) (word_of_nat M) = ct_mask g"
  proof -
    have "(2 + 8 \<le> (word_of_nat Z :: u32)) \<longleftrightarrow> 10 \<le> Z" using unat_small [of Z] Z assms(6) by (simp add: word_le_nat_alt)
    moreover have "((word_of_nat M :: u32) \<le> word_of_nat (length to)) \<longleftrightarrow> M \<le> length to"
      using unat_small [of M] unat_small [of "length to"] assms by (simp add: word_le_nat_alt M_def)
    ultimately show ?thesis unfolding g_def by (simp only: ct_is_zero ct_eq ct_ge ct_mask_ops ucast_byte)
  qed
  have run: "RSA_padding_check_PKCS1_type_2 True to (int (length to)) from' (int num) =
    (if g then (int M, drop (num - M) em @ drop M to, None) else (-1, to, Some PKCS_DECODING_ERROR))"
    unfolding RSA_padding_check_PKCS1_type_2_def Let_def if_not_P [OF guards(1)] if_not_P [OF guards(2)] ints nat_int copy scan
      case_prod_conv mlen good and.assoc not_True_eq_False if_False
    by (rule ct_tail [OF n le31 assms(5)]) (use assms in \<open>auto simp: g_def M_def\<close>)
  have "pkcs1_decode (length to) em = (if g then Some (drop (num - M) em) else None)"
  proof (cases "0 \<in> set xs")
    case True
    then have "num - M = length ps + 3" "10 \<le> Z \<longleftrightarrow> 8 \<le> length ps" "M = num - (length ps + 3)"
      using Z by (simp_all add: M_def Z_def)
    then show ?thesis using True n by (simp add: pkcs1_decode_def Let_def g_def flip: xs ps_def)
  qed (simp add: pkcs1_decode_def g_def Z_def Let_def flip: xs)
  then show ?thesis unfolding run em [symmetric] using n by (simp add: M_def)
qed

theorem pkcs1_type_2_refines_witness:
  "RSA_padding_check_PKCS1_type_2 True [9, 9, 9] (int (length [9, 9, 9 :: byte])) ([2] @ replicate 8 7 @ [0, 1]) (int 12) =
    (case pkcs1_decode (length [9, 9, 9 :: byte]) (replicate (12 - length ([2] @ replicate 8 7 @ [0, 1 :: byte])) 0 @ [2] @ replicate 8 7 @ [0, 1]) of
       Some m \<Rightarrow> (int (length m), m @ drop (length m) [9, 9, 9], None)
     | None \<Rightarrow> (-1, [9, 9, 9], Some PKCS_DECODING_ERROR)) \<and>
   pkcs1_decode (length [9, 9, 9 :: byte]) (replicate (12 - length ([2] @ replicate 8 7 @ [0, 1 :: byte])) 0 @ [2] @ replicate 8 7 @ [0, 1]) = Some [1]"
  by (intro conjI pkcs1_type_2_refines) (simp_all, code_simp)

lemma draw_nonzero: "draw_nonzero rng = Some (y, r) \<Longrightarrow> y \<noteq> 0"
  by (induction rng rule: draw_nonzero.induct) (auto split: if_splits)

lemma nonzero_pad:
  "nonzero_pad p rng = Some (q, r) \<Longrightarrow> length q = length p \<and> 0 \<notin> set q"
proof (induction p arbitrary: rng q r)
  case (Cons x p)
  from Cons.prems obtain y s q' where "(if x = 0 then draw_nonzero rng else Some (x, rng)) = Some (y, s)"
    "nonzero_pad p s = Some (q', r)" "q = y # q'" by (auto simp: bind_eq_Some_conv)
  then show ?case using Cons.IH [of s q' r] draw_nonzero [of rng y s] by (auto split: if_splits)
qed simp

lemma add_type_2:
  assumes "RSA_padding_add_PKCS1_type_2 (int n) m rng = Inr (em, rng')"
  obtains p where "em = 0 # 2 # p @ 0 # m" "0 \<notin> set p" "8 \<le> length p" "length em = n"
proof -
  from assms have l: "length m + 11 \<le> n" by (auto simp: RSA_padding_add_PKCS1_type_2_def Let_def RSA_PKCS1_PADDING_SIZE_def split: if_splits)
  then have j: "nat (int n - 3 - int (length m)) = n - 3 - length m" by simp
  from assms obtain p r q where p: "RAND_bytes (n - 3 - length m) rng = Some (q, r)" "nonzero_pad q r = Some (p, rng')" "em = 0 # 2 # p @ 0 # m"
    by (auto simp: RSA_padding_add_PKCS1_type_2_def Let_def j bind_eq_Some_conv split: if_splits option.splits)
  then have "length q = n - 3 - length m" by (auto simp: RAND_bytes_def split: if_splits)
  with nonzero_pad [OF p(2)] p(3) l that [of p] show thesis by simp
qed

text \<open>C22: whatever the random generator delivers, what \<open>RSA_padding_add_PKCS1_type_2\<close> makes of a message is decoded to the
  message, with and without the leading zero, which the conversion from an integer may drop.\<close>

theorem pkcs1_type_2_roundtrip:
  assumes "RSA_padding_add_PKCS1_type_2 (int n) m rng = Inr (em, rng')"
    and "0 < length to" "length to < 2 ^ 31" "length m \<le> length to" "n \<le> 2 ^ 30" "from' = em \<or> from' = tl em"
  shows "RSA_padding_check_PKCS1_type_2 True to (int (length to)) from' (int n) = (int (length m), m @ drop (length m) to, None)"
proof -
  obtain p where p: "em = 0 # 2 # p @ 0 # m" "0 \<notin> set p" "8 \<le> length p" "length em = n" by (rule add_type_2 [OF assms(1)])
  have e: "replicate (n - length from') 0 @ from' = em" using assms(6) p by auto
  have "takeWhile (\<lambda>x. x \<noteq> 0) (p @ 0 # m) = p" using p(2) by (subst takeWhile_append2) auto
  then have "pkcs1_decode (length to) em = Some m"
    using p(3) assms(4) unfolding p(1) by (simp add: pkcs1_decode_def Let_def numeral_3_eq_3)
  then show ?thesis
    using pkcs1_type_2_refines [of to from' n] assms p unfolding e by auto
qed

theorem pkcs1_type_2_roundtrip_witness:
  "RSA_padding_check_PKCS1_type_2 True [9, 9, 9] (int (length [9, 9, 9 :: byte])) ([0, 2] @ [7, 7, 7, 7, 7, 7, 7, 7] @ [0, 1]) (int 12) =
    (int (length [1 :: byte]), [1] @ drop (length [1 :: byte]) [9, 9, 9], None)"
  by (rule pkcs1_type_2_roundtrip [of 12 "[1]" "[7, 0, 7, 7, 7, 0, 7, 7] @ [0, 7, 7, 5]" _ "[5]"]) (code_simp, simp_all)

end
