(* ===== verification/RsaOaepProps.thy ===== *)
theory RsaOaepProps
  imports RsaOaep RsaPk1
begin

text \<open>
  Mask generation against its formula and where it does not end, the
  constant-time decoding of OAEP against a plain one, and the round trip.
\<close>

subsection \<open>Mask generation\<close>

definition digest_ok :: "evp_md \<Rightarrow> bool" where
  "digest_ok d \<longleftrightarrow> (\<forall>x. \<exists>h. md_digest d x = Some h \<and> length h = md_size d)"

definition digest :: "evp_md \<Rightarrow> byte list \<Rightarrow> byte list" where
  "digest d x = the (md_digest d x)"

lemma digest:
  assumes "digest_ok d"
  shows "md_digest d x = Some (digest d x)" "length (digest d x) = md_size d"
proof -
  obtain h where "md_digest d x = Some h" "length h = md_size d" using assms unfolding digest_ok_def by blast
  then show "md_digest d x = Some (digest d x)" "length (digest d x) = md_size d" by (simp_all add: digest_def)
qed

text \<open>The mask: as many digests of the seed and a counter as it takes, cut to the length.\<close>

definition mgf1 :: "evp_md \<Rightarrow> byte list \<Rightarrow> nat \<Rightarrow> byte list" where
  "mgf1 d seed len =
    take len (concat (map (\<lambda>i. digest d (seed @ mgf1_cnt i)) [0..<(len + md_size d - 1) div md_size d]))"

lemma mgf1_loop:
  assumes "digest_ok d"
  shows "length out \<le> len \<Longrightarrow> len \<le> length out + n * md_size d \<Longrightarrow>
    mgf1_loop d seed len i out = Some (Some (take len (out @ concat (map (\<lambda>i. digest d (seed @ mgf1_cnt i)) [i..<i + n]))))"
proof (induction n arbitrary: i out)
  case 0
  then show ?case by (simp add: mgf1_loop.simps)
next
  case (Suc n)
  let ?h = "digest d (seed @ mgf1_cnt i)"
  have u: "[i..<i + Suc n] = i # [Suc i..<Suc i + n]" by (simp add: upt_conv_Cons)
  show ?case
  proof (cases "length out < len")
    case False
    then show ?thesis using Suc.prems by (simp add: mgf1_loop.simps)
  next
    case lt: True
    show ?thesis
    proof (cases "length out + md_size d \<le> len")
      case True
      then have "mgf1_loop d seed len i out = mgf1_loop d seed len (Suc i) (out @ ?h)"
        using lt by (subst mgf1_loop.simps) (simp add: digest [OF assms])
      also have "\<dots> = Some (Some (take len ((out @ ?h) @ concat (map (\<lambda>i. digest d (seed @ mgf1_cnt i)) [Suc i..<Suc i + n]))))"
        by (rule Suc.IH) (use Suc.prems True in \<open>simp_all add: digest [OF assms]\<close>)
      finally show ?thesis unfolding u by simp
    next
      case False
      let ?o = "out @ take (len - length out) ?h"
      have "mgf1_loop d seed len i out = mgf1_loop d seed len (Suc i) ?o"
        using lt False by (subst mgf1_loop.simps) (simp add: digest [OF assms])
      also have "\<dots> = Some (Some ?o)" using lt False by (subst mgf1_loop.simps) (simp add: digest [OF assms])
      finally show ?thesis unfolding u using lt False by (simp add: digest [OF assms])
    qed
  qed
qed


lemma PKCS1_MGF1:
  assumes "ctx_ok env" "digest_ok d" "0 < md_size d"
  shows "PKCS1_MGF1 env len seed d = Some (Some (mgf1 d seed len))"
proof -
  let ?s = "md_size d"
  have "len + ?s - 1 < ((len + ?s - 1) div ?s + 1) * ?s" using dividend_less_div_times [OF assms(3), of "len + ?s - 1"] by simp
  then have "len \<le> length ([] :: byte list) + (len + ?s - 1) div ?s * ?s" using assms(3) by (simp add: add.commute)
  from mgf1_loop [OF assms(2) _ this] assms(1) show ?thesis by (simp add: PKCS1_MGF1_def mgf1_def)
qed

lemma length_mgf1 [simp]:
  assumes "digest_ok d" "0 < md_size d"
  shows "length (mgf1 d seed len) = len"
proof -
  let ?s = "md_size d"
  have "len + ?s - 1 < ((len + ?s - 1) div ?s + 1) * ?s" using dividend_less_div_times [OF assms(2), of "len + ?s - 1"] by simp
  then have "len \<le> (len + ?s - 1) div ?s * ?s" using assms(2) by simp
  then show ?thesis using assms by (simp add: mgf1_def length_concat o_def digest sum_list_triv)
qed


definition sum_md :: "nat \<Rightarrow> evp_md" where
  "sum_md n = \<lparr>md_size = n, md_digest = \<lambda>x. Some (replicate n (sum_list x))\<rparr>"

lemma sum_md_ok: "digest_ok (sum_md n)" "md_size (sum_md n) = n"
  by (simp_all add: digest_ok_def sum_md_def)


subsection \<open>Decoding\<close>

lemma CRYPTO_memcmp:
  assumes "length a = length b"
  shows "CRYPTO_memcmp a b = 0 \<longleftrightarrow> a = b"
proof -
  have "fold (\<lambda>(x, y) r. r OR (x XOR y)) (zip a b) r = 0 \<longleftrightarrow> r = (0 :: byte) \<and> a = b" for r
    using assms by (induction a b arbitrary: r rule: list_induct2) (auto simp: or_eq_0_iff)
  then show ?thesis by (simp add: CRYPTO_memcmp_def)
qed

lemma oaep_step:
  "oaep_step db i (ct_mask f, z, ct_mask g) =
    (ct_mask (f \<or> db ! i = 1), if \<not> f \<and> db ! i = 1 then word_of_nat i else z, ct_mask (g \<and> (f \<or> db ! i = 1 \<or> db ! i = 0)))"
  by (simp add: oaep_step_def ct_is_zero ct_eq ct_mask_ops ct_select Let_def ucast_byte)

lemma oaep_scan:
  assumes "m \<le> n" "n \<le> length db"
  shows "fold (oaep_step db) [m..<n] (0, 0, ct_mask g) =
    (let xs = drop m (take n db); zs = takeWhile (\<lambda>x. x \<noteq> 1) xs
     in (ct_mask (1 \<in> set xs), word_of_nat (if 1 \<in> set xs then m + length zs else 0), ct_mask (g \<and> (\<forall>x \<in> set zs. x = 0))))"
  using assms
proof (induction n rule: dec_induct)
  case base
  then show ?case by (simp add: ct_mask_def)
next
  case (step n)
  obtain xs where xs: "xs = drop m (take n db)" by simp
  have x: "drop m (take (Suc n) db) = xs @ [db ! n]" using step unfolding xs by (simp add: take_Suc_conv_app_nth)
  have l: "length xs = n - m" using step unfolding xs by simp
  have t: "takeWhile (\<lambda>x. x \<noteq> 1) (xs @ [db ! n]) =
    (if 1 \<in> set xs then takeWhile (\<lambda>x. x \<noteq> 1) xs else xs @ takeWhile (\<lambda>x. x \<noteq> 1) [db ! n])"
    "1 \<notin> set xs \<Longrightarrow> takeWhile (\<lambda>x. x \<noteq> 1) xs = xs"
    by (auto simp: takeWhile_append)
  have "fold (oaep_step db) [m..<Suc n] (0, 0, ct_mask g) = oaep_step db n (fold (oaep_step db) [m..<n] (0, 0, ct_mask g))"
    using step by simp
  also have "fold (oaep_step db) [m..<n] (0, 0, ct_mask g) =
      (ct_mask (1 \<in> set xs), word_of_nat (if 1 \<in> set xs then m + length (takeWhile (\<lambda>x. x \<noteq> 1) xs) else 0),
       ct_mask (g \<and> (\<forall>x \<in> set (takeWhile (\<lambda>x. x \<noteq> 1) xs). x = 0)))"
    using step unfolding xs by (simp add: Let_def)
  also have "oaep_step db n \<dots> = (ct_mask (1 \<in> set (xs @ [db ! n])),
      word_of_nat (if 1 \<in> set (xs @ [db ! n]) then m + length (takeWhile (\<lambda>x. x \<noteq> 1) (xs @ [db ! n])) else 0),
      ct_mask (g \<and> (\<forall>x \<in> set (takeWhile (\<lambda>x. x \<noteq> 1) (xs @ [db ! n])). x = 0)))"
    using step(1) unfolding oaep_step t(1) by (cases "1 \<in> set xs") (simp_all add: l conj_ac t(2))
  finally show ?case unfolding x Let_def .
qed

text \<open>The plain decoding: the first byte is zero, the digest of the label, zeros, a one, the message, which has to fit.\<close>

definition oaep_decode :: "nat \<Rightarrow> byte list \<Rightarrow> byte \<Rightarrow> byte list \<Rightarrow> byte list option" where
  "oaep_decode tlen lhash y db =
    (let rest = dropWhile (\<lambda>x. x = 0) (drop (length lhash) db)
     in if y = 0 \<and> take (length lhash) db = lhash \<and> rest \<noteq> [] \<and> hd rest = 1 \<and> length (tl rest) \<le> tlen then Some (tl rest) else None)"

lemma dropWhile_one:
  "(dropWhile (\<lambda>x. x = 0) xs \<noteq> [] \<and> hd (dropWhile (\<lambda>x. x = 0) xs) = 1) \<longleftrightarrow>
   (1 \<in> set xs \<and> (\<forall>x \<in> set (takeWhile (\<lambda>x. x \<noteq> 1) xs). x = (0 :: byte)))"
  by (induction xs) auto

lemma dropWhile_one_drop:
  "1 \<in> set xs \<Longrightarrow> \<forall>x \<in> set (takeWhile (\<lambda>x. x \<noteq> 1) xs). x = (0 :: byte) \<Longrightarrow>
   tl (dropWhile (\<lambda>x. x = 0) xs) = drop (Suc (length (takeWhile (\<lambda>x. x \<noteq> 1) xs))) xs"
  by (induction xs) auto

lemma oaep_unpad:
  assumes "length db = n" "length phash = m" "m + 1 \<le> n" "n < 2 ^ 31" "length to < 2 ^ 31"
  shows "oaep_unpad (ct_mask (y = 0)) db phash m to (int (length to)) =
    (case oaep_decode (length to) phash y db of
       Some msg \<Rightarrow> (int (length msg), msg @ drop (length msg) to, None)
     | None \<Rightarrow> (-1, to, Some OAEP_DECODING_ERROR))"
proof -
  obtain xs where xs: "xs = drop m db" by simp
  define zs where "zs = takeWhile (\<lambda>x. x \<noteq> 1) xs"
  define h where "h \<longleftrightarrow> y = 0 \<and> take m db = phash"
  define Z where "Z = (if 1 \<in> set xs then m + length zs else 0)"
  have scan: "fold (oaep_step db) [m..<n] (0, 0, ct_mask h) = (ct_mask (1 \<in> set xs), word_of_nat Z, ct_mask (h \<and> (\<forall>x \<in> set zs. x = 0)))"
    using oaep_scan [of m n db h] assms by (simp add: xs zs_def Z_def Let_def)
  have Z: "Z < n" using first_index_less [of 1 xs] assms(1,3) unfolding Z_def zs_def by (auto simp: xs less_diff_conv add.commute)
  define M where "M = n - Suc Z"
  have mlen: "word_of_nat n - (word_of_nat Z + 1) = (word_of_nat M :: u32)"
    unfolding M_def using Z by (simp add: of_nat_diff)
  define g where "g \<longleftrightarrow> h \<and> (\<forall>x \<in> set zs. x = 0) \<and> 1 \<in> set xs \<and> M \<le> length to"
  have hash: "ct_mask (y = 0) AND constant_time_is_zero (ucast (CRYPTO_memcmp (take m db) (take m phash))) = ct_mask h"
    using assms(1,2,3) by (simp add: ct_is_zero ct_mask_ops ucast_byte CRYPTO_memcmp h_def)
  have good: "(ct_mask (h \<and> (\<forall>x \<in> set zs. x = 0)) AND ct_mask (1 \<in> set xs)) AND
      constant_time_ge (word_of_nat (length to)) (word_of_nat M :: u32) = ct_mask g"
    using unat_small [of M] unat_small [of "length to"] assms
    by (simp add: ct_ge ct_mask_ops g_def word_le_nat_alt M_def)
  have run: "oaep_unpad (ct_mask (y = 0)) db phash m to (int (length to)) =
    (if g then (int M, drop (n - M) db @ drop M to, None) else (-1, to, Some OAEP_DECODING_ERROR))"
    unfolding oaep_unpad_def Let_def assms(1) hash scan case_prod_conv mlen of_int_of_nat_eq good diff_diff_left
    by (rule ct_tail [OF assms(1,4,3) _ assms(5)]) (use assms Z in \<open>auto simp: g_def M_def Z_def\<close>)
  have "oaep_decode (length to) phash y db = (if g then Some (drop (n - M) db) else None)"
  proof (cases "1 \<in> set xs \<and> (\<forall>x \<in> set zs. x = 0)")
    case True
    then have d: "tl (dropWhile (\<lambda>x. x = 0) xs) = drop (n - M) db" "length (drop (n - M) db) = M"
      using dropWhile_one_drop [of xs] Z assms(1) by (simp_all add: M_def Z_def xs zs_def add.commute)
    show ?thesis using True d dropWhile_one [of xs]
      by (simp add: oaep_decode_def Let_def assms(2) g_def h_def del: length_tl flip: xs zs_def)
  next
    case False
    then show ?thesis using dropWhile_one [of xs]
      by (simp add: oaep_decode_def Let_def assms(2) g_def h_def flip: xs zs_def) blast
  qed
  then show ?thesis unfolding run using assms(1) by (simp add: M_def)
qed

subsection \<open>The whole padding\<close>

text \<open>The digests that null pointers stand for, and what the masks hide.\<close>

definition oaep_md :: "oaep_env \<Rightarrow> evp_md option \<Rightarrow> evp_md" where
  "oaep_md env md = (case md of None \<Rightarrow> EVP_sha1 env | Some d \<Rightarrow> d)"

definition oaep_mgf :: "oaep_env \<Rightarrow> evp_md option \<Rightarrow> evp_md option \<Rightarrow> evp_md" where
  "oaep_mgf env md mgf1md = (case mgf1md of None \<Rightarrow> oaep_md env md | Some d \<Rightarrow> d)"

definition oaep_unmask :: "evp_md \<Rightarrow> nat \<Rightarrow> byte list \<Rightarrow> byte list" where
  "oaep_unmask mgf m em =
    (let maskeddb = drop (1 + m) em;
         seed = xor_bytes (take m (drop 1 em)) (mgf1 mgf maskeddb m)
     in xor_bytes maskeddb (mgf1 mgf seed (length maskeddb)))"

definition oaep_digests :: "oaep_env \<Rightarrow> evp_md option \<Rightarrow> evp_md option \<Rightarrow> bool" where
  "oaep_digests env md mgf1md \<longleftrightarrow> ctx_ok env \<and> malloc_ok env \<and> digest_ok (oaep_md env md) \<and>
     digest_ok (oaep_mgf env md mgf1md) \<and> 0 < md_size (oaep_mgf env md mgf1md)"

text \<open>C24: for inputs of sensible lengths and digests that work the constant-time check of OAEP ends and returns what the plain
  decoding of the unmasked, zero-filled input returns: the message or, for every flaw, the same error.\<close>

theorem oaep_check_refines:
  assumes "oaep_digests env md mgf1md" "m = md_size (oaep_md env md)"
    and "0 < length to" "length to < 2 ^ 31" "from' \<noteq> []" "length from' \<le> num" "2 * m + 2 \<le> num" "num \<le> 2 ^ 30"
    and "em = replicate (num - length from') 0 @ from'"
  shows "RSA_padding_check_PKCS1_OAEP_mgf1 env to (int (length to)) from' (int num) param md mgf1md = Some (
    case oaep_decode (length to) (digest (oaep_md env md) param) (em ! 0) (oaep_unmask (oaep_mgf env md mgf1md) m em) of
       Some msg \<Rightarrow> (int (length msg), msg @ drop (length msg) to, None)
     | None \<Rightarrow> (-1, to, Some OAEP_DECODING_ERROR))"
proof -
  let ?md = "oaep_md env md" and ?g = "oaep_mgf env md mgf1md"
  have ok: "ctx_ok env" "malloc_ok env" "digest_ok ?md" "digest_ok ?g" "0 < md_size ?g"
    using assms(1) by (simp_all add: oaep_digests_def)
  have n: "length em = num" unfolding assms(9) using assms(6) by simp
  have copy: "em_copy from' num (word_of_nat (length from')) [] = em"
    unfolding assms(9) using em_copy [of "length from'" from' num "[]"] assms by simp
  have guards: "\<not> (int (length to) \<le> 0 \<or> int (length from') \<le> 0)" "\<not> (int num < int (length from') \<or> int num < 2 * int m + 2)"
    "\<not> \<not> malloc_ok env"
    using assms ok by simp_all
  have hash: "EVP_Digest env param ?md = Some (digest ?md param)" using ok(1) digest(1) [OF ok(3)] by (simp add: EVP_Digest_def)
  let ?db = "drop (1 + m) em"
  have l: "num - m - 1 = length ?db" using n by simp
  have "RSA_padding_check_PKCS1_OAEP_mgf1 env to (int (length to)) from' (int num) param md mgf1md =
    Some (oaep_unpad (ct_mask (em ! 0 = 0)) (oaep_unmask ?g m em) (digest ?md param) m to (int (length to)))"
    unfolding RSA_padding_check_PKCS1_OAEP_mgf1_def Let_def oaep_md_def [symmetric] oaep_mgf_def [symmetric] assms(2) [symmetric]
      if_not_P [OF guards(1)] if_not_P [OF guards(2)] if_not_P [OF guards(3)] nat_int of_int_of_nat_eq copy l
      PKCS1_MGF1 [OF ok(1,4,5)] bind.bind_lunit option.case hash ct_is_zero ucast_byte
    by (simp add: oaep_unmask_def Let_def xor_bytes_commute)
  also have "oaep_unpad (ct_mask (em ! 0 = 0)) (oaep_unmask ?g m em) (digest ?md param) m to (int (length to)) =
    (case oaep_decode (length to) (digest ?md param) (em ! 0) (oaep_unmask ?g m em) of
       Some msg \<Rightarrow> (int (length msg), msg @ drop (length msg) to, None)
     | None \<Rightarrow> (-1, to, Some OAEP_DECODING_ERROR))"
  proof (rule oaep_unpad)
    show "length (oaep_unmask ?g m em) = num - (1 + m)" using n ok by (simp add: oaep_unmask_def Let_def)
    show "length (digest ?md param) = m" using ok assms(2) by (simp add: digest)
  qed (use assms(2-8) in auto)
  finally show ?thesis .
qed

text \<open>C23: a message that fits is padded, from the random bytes of one digest, and the check gives it back, from the whole
  block and from the block without its leading zero.\<close>

theorem oaep_roundtrip:
  assumes "oaep_digests env md mgf1md" "m = md_size (oaep_md env md)"
    and "length msg + 2 * m + 2 \<le> n" "n \<le> 2 ^ 30" "m \<le> length rng"
    and "0 < length to" "length to < 2 ^ 31" "length msg \<le> length to"
  shows "\<exists>em. RSA_padding_add_PKCS1_OAEP_mgf1 env (int n) msg param md mgf1md rng = Some (Inr (em, drop m rng)) \<and> length em = n \<and>
    (\<forall>from' \<in> {em, tl em}. RSA_padding_check_PKCS1_OAEP_mgf1 env to (int (length to)) from' (int n) param md mgf1md =
       Some (int (length msg), msg @ drop (length msg) to, None))"
proof -
  let ?md = "oaep_md env md" and ?g = "oaep_mgf env md mgf1md"
  have ok: "ctx_ok env" "malloc_ok env" "digest_ok ?md" "digest_ok ?g" "0 < md_size ?g"
    using assms(1) by (simp_all add: oaep_digests_def)
  have hash: "EVP_Digest env param ?md = Some (digest ?md param)" using ok(1) digest(1) [OF ok(3)] by (simp add: EVP_Digest_def)
  obtain h where h: "h = digest ?md param" "length h = m" using digest(2) [OF ok(3)] assms(2) by simp
  obtain seed where seed: "seed = take m rng" "length seed = m" using assms(5) by simp
  define db where "db = h @ replicate (n - length msg - 2 * m - 2) 0 @ [1] @ msg"
  define mdb where "mdb = xor_bytes db (mgf1 ?g seed (n - 1 - m))"
  define em where "em = 0 # xor_bytes seed (mgf1 ?g mdb m) @ mdb"
  have l: "length db = n - 1 - m" "length mdb = n - 1 - m" unfolding mdb_def using assms(3) h ok by (simp_all add: db_def)
  have n: "length em = n" unfolding em_def using l(2) seed assms(3) ok by simp
  have guards: "\<not> int (length msg) > int n - 1 - 2 * int m - 1" "\<not> int n - 1 < 2 * int m + 1" "\<not> \<not> malloc_ok env" using assms(3) ok by simp_all
  have ints: "nat (int n - 1 - int (length msg) - 2 * int m - 1) = n - length msg - 2 * m - 2" "nat (int n - 1 - int m) = n - 1 - m"
    using assms(3) by simp_all
  have rand: "RAND_bytes m rng = Some (seed, drop m rng)" using assms(5) by (simp add: RAND_bytes_def seed)
  have add: "RSA_padding_add_PKCS1_OAEP_mgf1 env (int n) msg param md mgf1md rng = Some (Inr (em, drop m rng))"
    unfolding RSA_padding_add_PKCS1_OAEP_mgf1_def Let_def oaep_md_def [symmetric] oaep_mgf_def [symmetric] assms(2) [symmetric]
      if_not_P [OF guards(1)] if_not_P [OF guards(2)] if_not_P [OF guards(3)] hash option.case rand case_prod_conv ints
      PKCS1_MGF1 [OF ok(1,4,5)] bind.bind_lunit h(1) [symmetric] db_def [symmetric] mdb_def [symmetric]
    by (simp add: em_def)
  have un: "oaep_unmask ?g m em = db"
    using seed l ok by (simp add: oaep_unmask_def em_def Let_def xor_bytes_cancel) (simp add: mdb_def xor_bytes_cancel)
  have dec: "oaep_decode (length to) h 0 db = Some msg"
  proof -
    have "dropWhile (\<lambda>x. x = 0) (replicate k 0 @ 1 # msg) = 1 # msg" for k by (induction k) simp_all
    then show ?thesis using h assms(8) by (simp add: oaep_decode_def db_def)
  qed
  obtain t where t: "em = 0 # t" by (simp add: em_def)
  have e0: "em ! 0 = 0" by (simp add: t)
  have "RSA_padding_check_PKCS1_OAEP_mgf1 env to (int (length to)) from' (int n) param md mgf1md =
       Some (int (length msg), msg @ drop (length msg) to, None)" if f: "from' \<in> {em, tl em}" for from'
  proof -
    have p: "from' \<noteq> []" "length from' \<le> n" "em = replicate (n - length from') 0 @ from'" "2 * m + 2 \<le> n"
      using f n assms(3) unfolding t by auto
    show ?thesis using oaep_check_refines [OF assms(1,2,6,7) p(1,2,4) assms(4) p(3), of param]
      unfolding un e0 h(1) [symmetric] dec by simp
  qed
  then show ?thesis using add n by blast
qed

definition sum_env :: oaep_env where
  "sum_env = \<lparr>EVP_sha1 = sum_md 2, ctx_ok = True, malloc_ok = True\<rparr>"

lemma sum_env: "oaep_digests sum_env None None" "md_size (oaep_md sum_env None) = 2"
  by (simp_all add: oaep_digests_def oaep_md_def oaep_mgf_def sum_env_def sum_md_ok)

theorem oaep_check_refines_witness:
  "RSA_padding_check_PKCS1_OAEP_mgf1 sum_env [9, 9] (int (length [9, 9 :: byte])) [1, 2, 3, 4, 5, 6] (int 7) [8] None None = Some (
    case oaep_decode (length [9, 9 :: byte]) (digest (oaep_md sum_env None) [8]) ([0, 1, 2, 3, 4, 5, 6] ! 0)
      (oaep_unmask (oaep_mgf sum_env None None) 2 [0, 1, 2, 3, 4, 5, 6]) of
       Some msg \<Rightarrow> (int (length msg), msg @ drop (length msg) [9, 9], None)
     | None \<Rightarrow> (-1, [9, 9], Some OAEP_DECODING_ERROR))"
  by (rule oaep_check_refines [OF sum_env(1)]) (simp_all add: sum_env(2))

theorem oaep_roundtrip_witness:
  "\<exists>em. RSA_padding_add_PKCS1_OAEP_mgf1 sum_env (int 10) [65, 66] [8] None None [3, 7, 5] = Some (Inr (em, drop 2 [3, 7, 5])) \<and> length em = 10 \<and>
    (\<forall>from' \<in> {em, tl em}. RSA_padding_check_PKCS1_OAEP_mgf1 sum_env [9, 9, 9] (int (length [9, 9, 9 :: byte])) from' (int 10) [8] None None =
       Some (int (length [65, 66 :: byte]), [65, 66] @ drop (length [65, 66 :: byte]) [9, 9, 9], None))"
  by (rule oaep_roundtrip [OF sum_env(1)]) (simp_all add: sum_env(2))

end
