(* ===== verification/RsaSsl.thy ===== *)
theory RsaSsl
  imports RsaPk1
begin

text \<open>
  \<^verbatim>\<open>native/openssl/crypto/rsa/rsa_ssl.c\<close>: block type 2 with the mark that a client
  of SSL 3 sets when it was talked down to SSL 2. The check selects its error
  code in constant time, so here the reasons are the numbers of \<^verbatim>\<open>rsaerr.h\<close>. The
  conventions are those of theory \<open>RsaPad\<close>.
\<close>

definition RSA_R_BLOCK_TYPE_IS_NOT_02 :: u32 where "RSA_R_BLOCK_TYPE_IS_NOT_02 = 107"
definition RSA_R_DATA_TOO_LARGE :: u32 where "RSA_R_DATA_TOO_LARGE = 109"
definition RSA_R_DATA_TOO_SMALL :: u32 where "RSA_R_DATA_TOO_SMALL = 111"
definition RSA_R_NULL_BEFORE_BLOCK_MISSING :: u32 where "RSA_R_NULL_BEFORE_BLOCK_MISSING = 113"
definition RSA_R_SSLV3_ROLLBACK_ATTACK :: u32 where "RSA_R_SSLV3_ROLLBACK_ATTACK = 115"
definition ERR_R_MALLOC_FAILURE :: u32 where "ERR_R_MALLOC_FAILURE = 65"

lemmas rsa_reasons = RSA_R_BLOCK_TYPE_IS_NOT_02_def RSA_R_DATA_TOO_LARGE_def RSA_R_DATA_TOO_SMALL_def
  RSA_R_NULL_BEFORE_BLOCK_MISSING_def RSA_R_SSLV3_ROLLBACK_ATTACK_def

definition RSA_padding_add_SSLv23 :: "int \<Rightarrow> byte list \<Rightarrow> byte list \<Rightarrow> rsa_reason + byte list \<times> byte list" where
  "RSA_padding_add_SSLv23 tlen from' rng =
    (let flen = int (length from')
     in if flen > tlen - RSA_PKCS1_PADDING_SIZE then Inl DATA_TOO_LARGE_FOR_KEY_SIZE
        else let j = tlen - 3 - 8 - flen
             in case Option.bind (RAND_bytes (nat j) rng) (\<lambda>(p, rng). nonzero_pad p rng) of
                  None \<Rightarrow> Inl NO_REASON
                | Some (p, rng) \<Rightarrow> Inr ([0, 2] @ p @ replicate 8 3 @ [0] @ from', rng))"

definition ssl_step :: "byte list \<Rightarrow> nat \<Rightarrow> u32 \<times> u32 \<times> u32 \<Rightarrow> u32 \<times> u32 \<times> u32" where
  "ssl_step em i = (\<lambda>(found_zero_byte, zero_index, threes_in_row).
    (let equals0 = constant_time_is_zero (ucast (em ! i));
         zero_index = constant_time_select_int (NOT found_zero_byte AND equals0) (word_of_nat i) zero_index;
         found_zero_byte = found_zero_byte OR equals0;
         threes_in_row = threes_in_row + (1 AND NOT found_zero_byte);
         threes_in_row = threes_in_row AND (found_zero_byte OR constant_time_eq (ucast (em ! i)) 3)
     in (found_zero_byte, zero_index, threes_in_row)))"

definition RSA_padding_check_SSLv23 ::
  "bool \<Rightarrow> byte list \<Rightarrow> int \<Rightarrow> byte list \<Rightarrow> int \<Rightarrow> int \<times> byte list \<times> u32 option" where
  "RSA_padding_check_SSLv23 alloc to tlen from' num =
    (let flen = int (length from')
     in if tlen \<le> 0 \<or> flen \<le> 0 then (-1, to, None)
        else if flen > num \<or> num < RSA_PKCS1_PADDING_SIZE then (-1, to, Some RSA_R_DATA_TOO_SMALL)
        else if \<not> alloc then (-1, to, Some ERR_R_MALLOC_FAILURE)
        else
          let em = em_copy from' (nat num) (word_of_int flen) [];
              good = constant_time_is_zero (ucast (em ! 0));
              good = good AND constant_time_eq (ucast (em ! 1)) 2;
              err = constant_time_select_int good 0 RSA_R_BLOCK_TYPE_IS_NOT_02;
              m = NOT good;
              (found_zero_byte, zero_index, threes_in_row) = fold (ssl_step em) [2..<nat num] (0, 0, 0);
              good = good AND constant_time_ge zero_index (2 + 8);
              err = constant_time_select_int (m OR good) err RSA_R_NULL_BEFORE_BLOCK_MISSING;
              m = NOT good;
              good = good AND constant_time_lt threes_in_row 8;
              err = constant_time_select_int (m OR good) err RSA_R_SSLV3_ROLLBACK_ATTACK;
              m = NOT good;
              msg_index = zero_index + 1;
              mlen = word_of_int num - msg_index;
              good = good AND constant_time_ge (word_of_int tlen) mlen;
              err = constant_time_select_int (m OR good) err RSA_R_DATA_TOO_LARGE;
              rest = word_of_int (num - RSA_PKCS1_PADDING_SIZE);
              tlen = constant_time_select_int (constant_time_lt rest (word_of_int tlen)) rest (word_of_int tlen);
              em = ct_move 11 (nat num) mlen 1 em;
              to = ct_out good mlen 11 em (unat tlen) to
          in (sint (constant_time_select_int good mlen (-1)), to,
              if 1 AND good = 1 then None else Some err))"

subsection \<open>The scan\<close>

definition threes :: "byte list \<Rightarrow> nat" where
  "threes ps = length (takeWhile (\<lambda>x. x = 3) (rev ps))"

lemma threes_snoc [simp]: "threes [] = 0" "threes (ps @ [x]) = (if x = 3 then Suc (threes ps) else 0)"
  by (simp_all add: threes_def)

lemma threes_le: "threes ps \<le> length ps"
  using length_takeWhile_le [of "\<lambda>x. x = 3" "rev ps"] by (simp add: threes_def)

lemma ucast_byte_3: "(ucast (b :: byte) :: u32) = 3 \<longleftrightarrow> b = 3"
  using ucast_byte_inj [of b 3] by simp

lemma ssl_step:
  "ssl_step em i (ct_mask f, z, t) =
    (ct_mask (f \<or> em ! i = 0), if \<not> f \<and> em ! i = 0 then word_of_nat i else z,
     if f \<or> em ! i = 0 then t else if em ! i = 3 then t + 1 else 0)"
  by (simp add: ssl_step_def ct_is_zero ct_eq ct_mask_ops ct_select Let_def ucast_byte ucast_byte_3) (simp add: ct_mask_and)

lemma ssl_scan:
  assumes "2 \<le> n" "n \<le> length em"
  shows "fold (ssl_step em) [2..<n] (0, 0, 0) =
    (let xs = drop 2 (take n em); ps = takeWhile (\<lambda>x. x \<noteq> 0) xs
     in (ct_mask (0 \<in> set xs), word_of_nat (if 0 \<in> set xs then 2 + length ps else 0), word_of_nat (threes ps)))"
  using assms
proof (induction n rule: dec_induct)
  case base
  then show ?case by (simp add: ct_mask_def)
next
  case (step n)
  obtain xs where xs: "xs = drop 2 (take n em)" by simp
  have x: "drop 2 (take (Suc n) em) = xs @ [em ! n]" using step unfolding xs by (simp add: take_Suc_conv_app_nth)
  have l: "length xs = n - 2" using step unfolding xs by simp
  have t: "takeWhile (\<lambda>x. x \<noteq> 0) (xs @ [em ! n]) =
    (if 0 \<in> set xs then takeWhile (\<lambda>x. x \<noteq> 0) xs else xs @ takeWhile (\<lambda>x. x \<noteq> 0) [em ! n])"
    "0 \<notin> set xs \<Longrightarrow> takeWhile (\<lambda>x. x \<noteq> 0) xs = xs"
    by (auto simp: takeWhile_append)
  have "fold (ssl_step em) [2..<Suc n] (0, 0, 0) = ssl_step em n (fold (ssl_step em) [2..<n] (0, 0, 0))"
    using step by simp
  also have "fold (ssl_step em) [2..<n] (0, 0, 0) =
      (ct_mask (0 \<in> set xs), word_of_nat (if 0 \<in> set xs then 2 + length (takeWhile (\<lambda>x. x \<noteq> 0) xs) else 0),
       word_of_nat (threes (takeWhile (\<lambda>x. x \<noteq> 0) xs)))"
    using step unfolding xs by (simp add: Let_def)
  also have "ssl_step em n \<dots> = (ct_mask (0 \<in> set (xs @ [em ! n])),
      word_of_nat (if 0 \<in> set (xs @ [em ! n]) then 2 + length (takeWhile (\<lambda>x. x \<noteq> 0) (xs @ [em ! n])) else 0),
      word_of_nat (threes (takeWhile (\<lambda>x. x \<noteq> 0) (xs @ [em ! n]))))"
    using step(1) unfolding ssl_step t(1) by (cases "0 \<in> set xs") (simp_all add: l t(2))
  finally show ?case unfolding x Let_def .
qed

subsection \<open>The check\<close>

text \<open>The plain decoding: the first thing that is wrong, or the message.\<close>

definition sslv23_decode :: "nat \<Rightarrow> byte list \<Rightarrow> u32 + byte list" where
  "sslv23_decode tlen em =
    (let ps = takeWhile (\<lambda>x. x \<noteq> 0) (drop 2 em); m = drop (length ps + 3) em
     in if \<not> (em ! 0 = 0 \<and> em ! 1 = 2) then Inl RSA_R_BLOCK_TYPE_IS_NOT_02
        else if 0 \<notin> set (drop 2 em) \<or> length ps < 8 then Inl RSA_R_NULL_BEFORE_BLOCK_MISSING
        else if 8 \<le> threes ps then Inl RSA_R_SSLV3_ROLLBACK_ATTACK
        else if tlen < length m then Inl RSA_R_DATA_TOO_LARGE
        else Inr m)"

text \<open>C26: the constant-time check of the SSL padding returns what the plain decoding of the zero-filled input returns: the
  message, or -1 with the code of the first flaw, in the order block type, delimiter, roll-back mark, length.\<close>

theorem sslv23_check_refines:
  assumes "0 < length to" "length to < 2 ^ 31" "from' \<noteq> []" "length from' \<le> num" "11 \<le> num" "num \<le> 2 ^ 30"
  shows "RSA_padding_check_SSLv23 True to (int (length to)) from' (int num) =
    (case sslv23_decode (length to) (replicate (num - length from') 0 @ from') of
       Inr m \<Rightarrow> (int (length m), m @ drop (length m) to, None)
     | Inl e \<Rightarrow> (-1, to, Some e))"
proof -
  have le31: "num < 2 ^ 31" using assms(6) by simp
  let ?em = "replicate (num - length from') 0 @ from'"
  obtain em where em: "em = ?em" by simp
  have n: "length em = num" unfolding em using assms(4) by simp
  have copy: "em_copy from' num (word_of_nat (length from')) [] = em"
    unfolding em using em_copy [of "length from'" from' num "[]"] assms by simp
  obtain xs where xs: "xs = drop 2 em" by simp
  define ps where "ps = takeWhile (\<lambda>x. x \<noteq> 0) xs"
  define Z where "Z = (if 0 \<in> set xs then 2 + length ps else 0)"
  have scan: "fold (ssl_step em) [2..<num] (0, 0, 0) = (ct_mask (0 \<in> set xs), word_of_nat Z, word_of_nat (threes ps))"
    using ssl_scan [of num em] n assms(5) by (simp add: xs ps_def Z_def Let_def)
  have Z: "Z < num" using first_index_less [of 0 xs] n assms(5) unfolding Z_def ps_def by (auto simp: xs less_diff_conv)
  define M where "M = num - Suc Z"
  have mlen: "word_of_nat num - (word_of_nat Z + 1) = (word_of_nat M :: u32)"
    unfolding M_def using Z by (simp add: of_nat_diff)
  let ?a = "em ! 0 = 0 \<and> em ! 1 = 2" and ?b = "10 \<le> Z" and ?c = "threes ps < 8" and ?d = "M \<le> length to"
  have cmp: "constant_time_is_zero (ucast (em ! 0)) AND constant_time_eq (ucast (em ! 1)) 2 = ct_mask ?a"
    "constant_time_ge (word_of_nat Z) (2 + 8) = ct_mask ?b" "constant_time_lt (word_of_nat (threes ps)) 8 = ct_mask ?c"
    "constant_time_ge (word_of_nat (length to)) (word_of_nat M) = ct_mask ?d"
  proof -
    have "length ps \<le> length xs" unfolding ps_def by (rule length_takeWhile_le)
    then have "threes ps < 2 ^ 31" using threes_le [of ps] n assms(6) by (simp add: xs)
    then show "constant_time_lt (word_of_nat (threes ps)) 8 = ct_mask ?c"
      using unat_small [of "threes ps"] by (simp add: ct_lt word_less_nat_alt)
    show "constant_time_is_zero (ucast (em ! 0)) AND constant_time_eq (ucast (em ! 1)) 2 = ct_mask ?a"
      by (simp only: ct_is_zero ct_eq ct_mask_ops ucast_byte)
    show "constant_time_ge (word_of_nat Z) (2 + 8) = ct_mask ?b"
      using unat_small [of Z] Z assms(6) by (simp add: ct_ge word_le_nat_alt)
    show "constant_time_ge (word_of_nat (length to)) (word_of_nat M) = ct_mask ?d"
      using unat_small [of M] unat_small [of "length to"] assms by (simp add: ct_ge word_le_nat_alt M_def)
  qed
  have sel: "constant_time_select_int (NOT (ct_mask p) OR ct_mask q) v w = (if \<not> p \<or> q then v else w)"
    "constant_time_select_int (ct_mask p) 0 w = (if p then 0 else w)" for p q v w
    by (simp_all only: ct_mask_ops ct_select)
  have guards: "\<not> (int (length to) \<le> 0 \<or> int (length from') \<le> 0)"
    "\<not> (int (length from') > int num \<or> int num < RSA_PKCS1_PADDING_SIZE)"
    using assms by (simp_all add: RSA_PKCS1_PADDING_SIZE_def)
  have ints: "word_of_int (int k) = (word_of_nat k :: u32)" "int num - RSA_PKCS1_PADDING_SIZE = int (num - 11)" for k
    using assms(5) by (simp_all add: RSA_PKCS1_PADDING_SIZE_def of_nat_diff)
  let ?g = "((?a \<and> ?b) \<and> ?c) \<and> ?d"
  let ?e = "if \<not> ((?a \<and> ?b) \<and> ?c) \<or> ?g then if \<not> (?a \<and> ?b) \<or> (?a \<and> ?b) \<and> ?c then if \<not> ?a \<or> ?a \<and> ?b then if ?a then 0
     else RSA_R_BLOCK_TYPE_IS_NOT_02 else RSA_R_NULL_BEFORE_BLOCK_MISSING else RSA_R_SSLV3_ROLLBACK_ATTACK else RSA_R_DATA_TOO_LARGE"
  have run: "RSA_padding_check_SSLv23 True to (int (length to)) from' (int num) =
    (if ?g then (int M, drop (num - M) em @ drop M to, None) else (-1, to, Some ?e))"
    unfolding RSA_padding_check_SSLv23_def Let_def if_not_P [OF guards(1)] if_not_P [OF guards(2)] ints nat_int copy scan
      case_prod_conv mlen cmp ct_mask_ops(2) sel not_True_eq_False if_False
    by (rule ct_tail [OF n le31 assms(5)]) (use assms in \<open>auto simp: M_def\<close>)
  have b: "?b \<longleftrightarrow> 0 \<in> set xs \<and> 8 \<le> length ps" by (simp add: Z_def)
  have D: "sslv23_decode (length to) em = (if \<not> ?a then Inl RSA_R_BLOCK_TYPE_IS_NOT_02
      else if 0 \<notin> set xs \<or> length ps < 8 then Inl RSA_R_NULL_BEFORE_BLOCK_MISSING
      else if 8 \<le> threes ps then Inl RSA_R_SSLV3_ROLLBACK_ATTACK
      else if length to < length (drop (length ps + 3) em) then Inl RSA_R_DATA_TOO_LARGE else Inr (drop (length ps + 3) em))"
    unfolding sslv23_decode_def Let_def xs ps_def ..
  have "sslv23_decode (length to) em = (if ?g then Inr (drop (num - M) em) else Inl ?e)"
  proof (cases ?b)
    case True
    then have k: "num - M = length ps + 3" "length (drop (length ps + 3) em) = M" using Z b n by (simp_all add: M_def Z_def)
    obtain t where t: "t = threes ps" by simp
    obtain z where z: "z = Z" by simp
    have "z \<ge> 10" "0 \<in> set xs" "\<not> length ps < 8" using True b z by simp_all
    then show ?thesis unfolding D k t [symmetric] z [symmetric] by (cases "t < 8"; cases "M \<le> length to"; cases ?a) auto
  next
    case False
    then show ?thesis using b unfolding D by (cases ?a) auto
  qed
  then show ?thesis unfolding run em [symmetric] using n by (simp add: M_def)
qed

theorem sslv23_check_refines_witness:
  "RSA_padding_check_SSLv23 True [9] (int (length [9 :: byte])) [2, 7, 7, 7, 7, 7, 7, 7, 3, 0, 1] (int 12) =
    (case sslv23_decode (length [9 :: byte]) (replicate (12 - length [2, 7, 7, 7, 7, 7, 7, 7, 3, 0, 1 :: byte]) 0 @ [2, 7, 7, 7, 7, 7, 7, 7, 3, 0, 1]) of
       Inr m \<Rightarrow> (int (length m), m @ drop (length m) [9], None)
     | Inl e \<Rightarrow> (-1, [9], Some e))"
  by (rule sslv23_check_refines) simp_all

text \<open>C27: what \<open>RSA_padding_add_SSLv23\<close> makes is a sound block of type 2, from which the type 2 check takes the message; the SSL
  check finds the mark and always refuses it as a roll-back attack.\<close>

theorem sslv23_rollback:
  assumes "RSA_padding_add_SSLv23 (int n) m rng = Inr (em, rng')"
    and "0 < length to" "length to < 2 ^ 31" "length m \<le> length to" "n \<le> 2 ^ 30"
  shows "RSA_padding_check_SSLv23 True to (int (length to)) em (int n) = (-1, to, Some RSA_R_SSLV3_ROLLBACK_ATTACK) \<and>
    RSA_padding_check_PKCS1_type_2 True to (int (length to)) em (int n) = (int (length m), m @ drop (length m) to, None)"
proof -
  from assms(1) have l: "length m + 11 \<le> n" by (auto simp: RSA_padding_add_SSLv23_def Let_def RSA_PKCS1_PADDING_SIZE_def split: if_splits)
  then have j: "nat (int n - 11 - int (length m)) = n - 11 - length m" by simp
  from assms(1) obtain q r p where p: "RAND_bytes (n - 11 - length m) rng = Some (q, r)" "nonzero_pad q r = Some (p, rng')"
    "em = 0 # 2 # p @ replicate 8 3 @ 0 # m"
    by (auto simp: RSA_padding_add_SSLv23_def Let_def j bind_eq_Some_conv split: if_splits option.splits)
  then have q: "length q = n - 11 - length m" by (auto simp: RAND_bytes_def split: if_splits)
  define ps where "ps = p @ replicate 8 (3 :: byte)"
  have ps: "em = 0 # 2 # ps @ 0 # m" "0 \<notin> set ps" "8 \<le> length ps" "length em = n"
    using nonzero_pad [OF p(2)] p(3) q l by (auto simp: ps_def)
  have t: "8 \<le> threes ps" by (simp add: ps_def threes_def takeWhile_append)
  have w: "takeWhile (\<lambda>x. x \<noteq> 0) (ps @ 0 # m) = ps" using ps(2) by (subst takeWhile_append2) auto
  have "sslv23_decode (length to) em = Inl RSA_R_SSLV3_ROLLBACK_ATTACK" "pkcs1_decode (length to) em = Some m"
    using ps(3) t assms(4) unfolding ps(1) by (simp_all add: sslv23_decode_def pkcs1_decode_def Let_def w numeral_3_eq_3)
  then show ?thesis
    using sslv23_check_refines [of to em n] pkcs1_type_2_refines [of to em n] assms ps l by auto
qed

theorem sslv23_rollback_witness:
  "RSA_padding_check_SSLv23 True [9, 9] (int (length [9, 9 :: byte])) [0, 2, 7, 3, 3, 3, 3, 3, 3, 3, 3, 0, 1] (int 13) =
     (-1, [9, 9], Some RSA_R_SSLV3_ROLLBACK_ATTACK) \<and>
   RSA_padding_check_PKCS1_type_2 True [9, 9] (int (length [9, 9 :: byte])) [0, 2, 7, 3, 3, 3, 3, 3, 3, 3, 3, 0, 1] (int 13) =
     (int (length [1 :: byte]), [1] @ drop (length [1 :: byte]) [9, 9], None)"
  by (rule sslv23_rollback [of 13 "[1]" "[0, 0, 7, 5]" _ "[5]"]) (code_simp, simp_all)

end
