(* ===== verification/CwcHash.thy ===== *)
theory CwcHash
  imports ModeHdr
begin

text \<open>
  The Carter-Wegman hash of \<^verbatim>\<open>native/aes_modes/cwc.c\<close> for \<open>USE_LONGS\<close>: arrays
  of 32-bit words, most significant word first, and the functions \<open>add_4\<close>,
  \<open>mlt_4\<close> and \<open>do_cwc\<close>. \<open>wval\<close> reads an array as a number. The lemmas compute
  each function in the natural numbers: \<open>do_cwc\<close> multiplies modulo
  \<open>2^127 - 1\<close> as long as the sum it reduces fits into 128 bits, and the
  condition under which it fits is made explicit.
\<close>

subsection \<open>The code\<close>

definition CWC_ABLK_SIZE :: nat where "CWC_ABLK_SIZE = 12"
definition CWC_CBLK_SIZE :: nat where "CWC_CBLK_SIZE = 16"
definition CTR_POS :: nat where "CTR_POS = 12"

text \<open>
  \<open>be_inc(x,n)\<close>: the chain of \<open>&&\<close> stops at the first element that is not zero
  after its increment.
\<close>

definition be_inc :: "'a::len word list \<Rightarrow> nat \<Rightarrow> 'a word list" where
  "be_inc x n =
    (let x = x[n + 3 := x ! (n + 3) + 1]
     in if x ! (n + 3) \<noteq> 0 then x
        else let x = x[n + 2 := x ! (n + 2) + 1]
     in if x ! (n + 2) \<noteq> 0 then x
        else let x = x[n + 1 := x ! (n + 1) + 1]
     in if x ! (n + 1) \<noteq> 0 then x
        else x[n := x ! n + 1])"

text \<open>\<open>add_4\<close> overwrites the first four words of \<open>l\<close>. In \<open>add_4(h, h)\<close> each word of \<open>r\<close>
  is read before the same word of \<open>l\<close> is written, so \<open>r\<close> can be passed by value.\<close>

definition add_4 :: "u32 list \<Rightarrow> u32 list \<Rightarrow> u32 list" where
  "add_4 l r =
    (let ss = l ! 3 + r ! 3;
         cc = (if ss < l ! 3 then 1 else 0);
         l = l[3 := ss];
         ss = l ! 2 + r ! 2 + cc;
         cc = (if ss < l ! 2 then 1 else if ss > l ! 2 then 0 else cc);
         l = l[2 := ss];
         ss = l ! 1 + r ! 1 + cc;
         cc = (if ss < l ! 1 then 1 else if ss > l ! 1 then 0 else cc);
         l = l[1 := ss]
     in l[0 := l ! 0 + r ! 0 + cc])"

definition mlt_term :: "u32 list \<Rightarrow> u32 list \<Rightarrow> nat \<Rightarrow> nat \<Rightarrow> u64 \<times> u64 \<Rightarrow> u64 \<times> u64" where
  "mlt_term a b i j = (\<lambda>(cl, ch).
     let sm = ucast (a ! (3 - j)) * ucast (b ! (3 + j - i)) :: u64
     in (cl + ucast (ucast sm :: u32), ch + drop_bit 32 sm))"

definition mlt_column :: "u32 list \<Rightarrow> u32 list \<Rightarrow> nat \<Rightarrow> u64 \<times> u32 list \<Rightarrow> u64 \<times> u32 list" where
  "mlt_column a b i = (\<lambda>(cl, r).
     let k = (if i < 3 then 0 else i - 3);
         (cl, ch) = fold (mlt_term a b i) [k..<i - k + 1] (cl, 0);
         r = r[7 - i := ucast cl]
     in (drop_bit 32 cl + ch, r))"

definition mlt_4 :: "u32 list \<Rightarrow> u32 list \<Rightarrow> u32 list \<Rightarrow> u32 list" where
  "mlt_4 r a b = snd (fold (mlt_column a b) [0..<8] (0, r))"

text \<open>The test of the top bit that ends \<open>do_cwc\<close> and is made once more in \<open>cwc_compute_tag\<close>.\<close>

definition fold_top :: "u32 list \<Rightarrow> u32 list" where
  "fold_top hash =
    (if hash ! 0 AND 0x80000000 \<noteq> 0 then be_inc (hash[0 := hash ! 0 AND 0x7fffffff]) 0 else hash)"

text \<open>\<open>do_cwc(in, ctx)\<close> on the words \<open>ctx->zval\<close> and \<open>ctx->hash\<close>; the new hash is returned. The
  platform is little-endian, so the words of \<open>in\<close> are taken as they are.\<close>

definition do_cwc :: "u32 list \<Rightarrow> u32 list \<Rightarrow> u32 list \<Rightarrow> u32 list" where
  "do_cwc inp zval hash =
    (let data = [0, inp ! 0, inp ! 1, inp ! 2];
         data = add_4 data hash;
         hash = mlt_4 hash data zval;
         hash = add_4 hash hash;
         hash = (if hash ! 4 AND 0x80000000 \<noteq> 0
                 then (let hash = hash[4 := hash ! 4 AND 0x7fffffff] in hash[3 := hash ! 3 + 1])
                 else hash);
         hash = add_4 hash (drop 4 hash)
     in fold_top hash)"

subsection \<open>Values\<close>

fun wval :: "u32 list \<Rightarrow> nat" where
  "wval [] = 0"
| "wval (w # ws) = unat w * 2 ^ (32 * length ws) + wval ws"

lemma unat_u32: "unat (w :: u32) < 4294967296"
  using unsigned_less [of w, where 'a = nat] by simp

lemma wval_less: "wval ws < 2 ^ (32 * length ws)"
proof (induction ws)
  case (Cons w ws)
  have "unat w * 2 ^ (32 * length ws) + wval ws < (unat w + 1) * 2 ^ (32 * length ws)"
    using Cons by (simp add: algebra_simps)
  also have "\<dots> \<le> 2 ^ 32 * 2 ^ (32 * length ws)"
    by (rule mult_right_mono) (use unat_u32 [of w] in simp_all)
  also have "\<dots> = 2 ^ (32 * length (w # ws))" by (simp add: power_add)
  finally show ?case by simp
qed simp

lemma wval_append: "wval (xs @ ys) = wval xs * 2 ^ (32 * length ys) + wval ys"
  by (induction xs) (simp_all add: algebra_simps power_add)

lemma unat_add_u32: "unat (a + b :: u32) = (unat a + unat b) mod 4294967296"
  by (simp add: unat_word_ariths)

lemma unat_add_u64: "unat (a + b :: u64) = (unat a + unat b) mod 2 ^ 64"
  by (simp add: unat_word_ariths)

subsection \<open>Addition\<close>

lemma add_carry:
  fixes l r cc :: u32
  assumes "unat cc \<le> 1"
  shows "unat (l + r + cc) + 4294967296 * unat (if l + r + cc < l then 1 else if l + r + cc > l then 0 else cc) =
      unat l + unat r + unat cc"
    and "unat (if l + r + cc < l then 1 else if l + r + cc > l then 0 else cc) \<le> 1"
proof -
  let ?T = "unat l + unat r + unat cc"
  have ss: "unat (l + r + cc) = ?T mod 4294967296" by (simp add: unat_add_u32 mod_simps)
  have b: "unat l < 4294967296" "unat r < 4294967296" by (rule unat_u32)+
  show "unat (l + r + cc) + 4294967296 * unat (if l + r + cc < l then 1 else if l + r + cc > l then 0 else cc) = ?T"
  proof (cases "?T < 4294967296")
    case True
    then have "unat (l + r + cc) = ?T" using ss by simp
    then show ?thesis by (auto simp: word_less_nat_alt)
  next
    case False
    then have "unat (l + r + cc) = ?T - 4294967296"
      using ss b assms by (simp add: mod_if)
    then show ?thesis using False b assms by (auto simp: word_less_nat_alt)
  qed
  show "unat (if l + r + cc < l then 1 else if l + r + cc > l then 0 else cc) \<le> 1"
    using assms by auto
qed

lemma add_carry0:
  fixes l r :: u32
  shows "unat (l + r) + 4294967296 * unat (if l + r < l then 1 else 0 :: u32) = unat l + unat r"
    and "unat (if l + r < l then 1 else 0 :: u32) \<le> 1"
  using add_carry [of 0 l r, unfolded add_0_right] by (simp_all split: if_splits)

lemma add_4_words:
  "add_4 (l0 # l1 # l2 # l3 # ls) (r0 # r1 # r2 # r3 # rs) =
    (let c3 = (if l3 + r3 < l3 then 1 else 0); s2 = l2 + r2 + c3;
         c2 = (if s2 < l2 then 1 else if s2 > l2 then 0 else c3); s1 = l1 + r1 + c2;
         c1 = (if s1 < l1 then 1 else if s1 > l1 then 0 else c2)
     in (l0 + r0 + c1) # s1 # s2 # (l3 + r3) # ls)"
  by (simp add: add_4_def Let_def numeral_3_eq_3 numeral_2_eq_2)

lemma wval4: "wval [a, b, c, d] = unat a * 79228162514264337593543950336 + unat b * 18446744073709551616 +
    unat c * 4294967296 + unat d"
  by simp

lemma add_4_value:
  assumes "4 \<le> length l" "4 \<le> length r"
  shows "wval (take 4 (add_4 l r)) = (wval (take 4 l) + wval (take 4 r)) mod 2 ^ 128"
    and "drop 4 (add_4 l r) = drop 4 l" and "length (add_4 l r) = length l"
proof -
  obtain l0 l1 l2 l3 ls where l: "l = l0 # l1 # l2 # l3 # ls" using assms(1) by (rule list_ge4_exhaust)
  obtain r0 r1 r2 r3 rs where r: "r = r0 # r1 # r2 # r3 # rs" using assms(2) by (rule list_ge4_exhaust)
  obtain c3 :: u32 where c3: "c3 = (if l3 + r3 < l3 then 1 else 0)" by simp
  obtain s2 where s2: "s2 = l2 + r2 + c3" by simp
  obtain c2 where c2: "c2 = (if s2 < l2 then 1 else if s2 > l2 then 0 else c3)" by simp
  obtain s1 where s1: "s1 = l1 + r1 + c2" by simp
  obtain c1 where c1: "c1 = (if s1 < l1 then 1 else if s1 > l1 then 0 else c2)" by simp
  have e: "add_4 l r = (l0 + r0 + c1) # s1 # s2 # (l3 + r3) # ls"
    unfolding l r add_4_words Let_def c3 [symmetric] s2 [symmetric] c2 [symmetric] s1 [symmetric] c1 [symmetric] ..
  have q3: "unat (l3 + r3) + 4294967296 * unat c3 = unat l3 + unat r3" "unat c3 \<le> 1"
    unfolding c3 by (rule add_carry0)+
  have q2: "unat s2 + 4294967296 * unat c2 = unat l2 + unat r2 + unat c3" "unat c2 \<le> 1"
    unfolding c2 s2 by (rule add_carry [OF q3(2)])+
  have q1: "unat s1 + 4294967296 * unat c1 = unat l1 + unat r1 + unat c2" "unat c1 \<le> 1"
    unfolding c1 s1 by (rule add_carry [OF q2(2)])+
  obtain c0 where q0: "unat (l0 + r0 + c1) + 4294967296 * c0 = unat l0 + unat r0 + unat c1"
    using add_carry(1) [OF q1(2), of l0 r0] by blast
  have t: "take 4 (add_4 l r) = [l0 + r0 + c1, s1, s2, l3 + r3]" "take 4 l = [l0, l1, l2, l3]" "take 4 r = [r0, r1, r2, r3]"
    unfolding e by (simp_all add: l r)
  have "wval (take 4 (add_4 l r)) + c0 * 2 ^ 128 = wval (take 4 l) + wval (take 4 r)"
    unfolding t wval4 using q3 q2 q1 q0 by simp
  moreover have "wval (take 4 (add_4 l r)) < 2 ^ 128"
    using wval_less [of "[l0 + r0 + c1, s1, s2, l3 + r3]"] by (simp add: t)
  ultimately show "wval (take 4 (add_4 l r)) = (wval (take 4 l) + wval (take 4 r)) mod 2 ^ 128"
    by (metis mod_less mod_mult_self1)
  show "drop 4 (add_4 l r) = drop 4 l" "length (add_4 l r) = length l" unfolding e by (simp_all add: l)
qed

subsection \<open>Multiplication\<close>

lemma unat_ucast_u64: "unat (ucast (w :: u32) :: u64) = unat w"
proof -
  have "unat w < 2 ^ 64" using unat_u32 [of w] by simp
  then show ?thesis by (simp add: unsigned_ucast_eq take_bit_nat_eq_self)
qed

lemma u64_halves:
  fixes s :: u64
  shows "unat (ucast (ucast s :: u32) :: u64) = unat s mod 4294967296"
    and "unat (drop_bit 32 s) = unat s div 4294967296" and "unat (ucast s :: u32) = unat s mod 4294967296"
proof -
  show e: "unat (ucast s :: u32) = unat s mod 4294967296"
    by (simp add: unsigned_ucast_eq take_bit_nat_def)
  show "unat (ucast (ucast s :: u32) :: u64) = unat s mod 4294967296"
    by (simp add: unat_ucast_u64 e)
  show "unat (drop_bit 32 s) = unat s div 4294967296"
    using unsigned_less [of s, where 'a = nat]
    by (simp add: unsigned_drop_bit_eq drop_bit_nat_def take_bit_nat_eq_self)
qed

abbreviation tm :: "u32 list \<Rightarrow> u32 list \<Rightarrow> nat \<Rightarrow> nat \<Rightarrow> nat" where
  "tm a b i j \<equiv> unat (a ! (3 - j)) * unat (b ! (3 + j - i))"

lemma tm_product: "unat (ucast (x :: u32) * ucast (y :: u32) :: u64) = unat x * unat y"
proof -
  have "unat x * unat y \<le> 4294967295 * 4294967295"
    by (rule mult_mono) (use unat_u32 [of x] unat_u32 [of y] in simp_all)
  then show ?thesis by (simp add: unat_word_ariths unat_ucast_u64)
qed

lemma mlt_terms:
  "unat cl + length js * 4294967296 < 2 ^ 64 \<Longrightarrow> unat ch + length js * 4294967296 < 2 ^ 64 \<Longrightarrow>
   (case fold (mlt_term a b i) js (cl, ch) of (cl', ch') \<Rightarrow>
     unat cl' + 4294967296 * unat ch' = unat cl + 4294967296 * unat ch + (\<Sum>j\<leftarrow>js. tm a b i j) \<and>
     unat cl' \<le> unat cl + length js * 4294967296 \<and> unat ch' \<le> unat ch + length js * 4294967296)"
proof (induction js arbitrary: cl ch)
  case (Cons j js)
  let ?sm = "ucast (a ! (3 - j)) * ucast (b ! (3 + j - i)) :: u64"
  let ?cl = "cl + ucast (ucast ?sm :: u32)" and ?ch = "ch + drop_bit 32 ?sm"
  have sm: "unat ?sm = tm a b i j" by (rule tm_product)
  have lt: "tm a b i j < 2 ^ 64" using unsigned_less [of ?sm, where 'a = nat] unfolding sm by simp
  have hi: "tm a b i j div 4294967296 < 4294967296" using lt by (simp add: div_less_iff_less_mult)
  have lo: "tm a b i j mod 4294967296 < 4294967296" by simp
  have cl: "unat ?cl = unat cl + tm a b i j mod 4294967296"
    using Cons.prems(1) lo by (simp only: unat_add_u64 u64_halves sm) simp
  have ch: "unat ?ch = unat ch + tm a b i j div 4294967296"
    using Cons.prems(2) hi by (simp only: unat_add_u64 u64_halves sm) simp
  have d: "tm a b i j = 4294967296 * (tm a b i j div 4294967296) + tm a b i j mod 4294967296" by simp
  have st: "fold (mlt_term a b i) (j # js) (cl, ch) = fold (mlt_term a b i) js (?cl, ?ch)"
    by (simp add: mlt_term_def Let_def)
  obtain cl' ch' where f: "fold (mlt_term a b i) js (?cl, ?ch) = (cl', ch')" by fastforce
  have len: "length (j # js) * 4294967296 = length js * 4294967296 + 4294967296" by simp
  have p: "unat ?cl + length js * 4294967296 < 2 ^ 64" "unat ?ch + length js * 4294967296 < 2 ^ 64"
    using Cons.prems lo hi unfolding cl ch len by linarith+
  from Cons.IH [OF p] have ih: "unat cl' + 4294967296 * unat ch' = unat ?cl + 4294967296 * unat ?ch + (\<Sum>j\<leftarrow>js. tm a b i j)"
    "unat cl' \<le> unat ?cl + length js * 4294967296" "unat ch' \<le> unat ?ch + length js * 4294967296"
    unfolding f prod.case by blast+
  obtain t S where t: "tm a b i j = t" "(\<Sum>j\<leftarrow>js. tm a b i j) = S" by simp
  obtain q m where qm: "t div 4294967296 = q" "t mod 4294967296 = m" by simp
  have "unat cl' + 4294967296 * unat ch' = unat cl + 4294967296 * unat ch + (t + S)"
    using ih(1) [unfolded cl ch t qm] d [unfolded t qm] by simp
  moreover have "unat cl' \<le> unat cl + (length js * 4294967296 + 4294967296)"
    using ih(2) [unfolded cl t qm] lo [unfolded t qm] by linarith
  moreover have "unat ch' \<le> unat ch + (length js * 4294967296 + 4294967296)"
    using ih(3) [unfolded ch t qm] hi [unfolded t qm] by linarith
  ultimately show ?case
    unfolding st f prod.case sum_list.Cons list.map len t by blast
qed simp

lemma mlt_column_step:
  assumes "unat cl < 34359738368" "i < 8" "length r = 8"
  shows "\<exists>cl' w. mlt_column a b i (cl, r) = (cl', r[7 - i := w]) \<and> unat cl' < 34359738368 \<and>
    unat w + 4294967296 * unat cl' =
      unat cl + (\<Sum>j\<leftarrow>[(if i < 3 then 0 else i - 3)..<i - (if i < 3 then 0 else i - 3) + 1]. tm a b i j)"
proof -
  let ?k = "if i < 3 then 0 else i - 3"
  let ?js = "[?k..<i - ?k + 1]"
  have "length ?js \<le> 4" using assms(2) by auto
  then have l: "length ?js * 4294967296 \<le> 17179869184" by simp
  obtain c h where f: "fold (mlt_term a b i) ?js (cl, 0) = (c, h)" by fastforce
  have m: "unat c + 4294967296 * unat h = unat cl + (\<Sum>j\<leftarrow>?js. tm a b i j)"
    "unat c \<le> unat cl + 17179869184" "unat h \<le> 17179869184"
    using mlt_terms [of cl ?js 0 a b i] assms(1) l f by auto
  have e: "mlt_column a b i (cl, r) = (drop_bit 32 c + h, r[7 - i := ucast c])"
    unfolding mlt_column_def prod.case Let_def f ..
  have dm: "unat c = 4294967296 * (unat c div 4294967296) + unat c mod 4294967296" by simp
  then have c: "unat c div 4294967296 < 16" using m(2) assms(1) by linarith
  then have s: "unat (drop_bit 32 c + h) = unat c div 4294967296 + unat h"
    using m(3) by (simp add: unat_add_u64 u64_halves)
  show ?thesis
    unfolding e
    by (intro exI conjI, rule refl) (use m c s dm in \<open>simp_all add: u64_halves\<close>)
qed

text \<open>The eight columns.\<close>

lemma upt8: "[0..<8] = [0, 1, 2, 3, 4, 5, 6, 7 :: nat]"
  by (simp add: upt_conv_Cons)

lemma mlt_4_value:
  assumes r: "length r = 8" and a: "a = [a0, a1, a2, a3]" and b: "b = [b0, b1, b2, b3]"
  shows "length (mlt_4 r a b) = 8" and "wval (mlt_4 r a b) = wval a * wval b"
proof -
  note step = mlt_column_step [of _ _ _ a b]
  obtain x0 c0 where s0: "mlt_column a b 0 ((0::u64), r) = (c0, r[7 := x0])" "unat c0 < 34359738368"
    "unat x0 + 4294967296 * unat c0 = 0 + (unat a3 * unat b3)"
    using step [of "0 :: u64" 0 "r"] r by (auto simp: a b upt_rec)
  obtain x1 c1 where s1: "mlt_column a b 1 (c0, r[7 := x0]) = (c1, r[7 := x0, 6 := x1])" "unat c1 < 34359738368"
    "unat x1 + 4294967296 * unat c1 = unat c0 + (unat a3 * unat b2 + unat a2 * unat b3)"
    using step [of c0 1 "r[7 := x0]"] r s0 by (auto simp: a b upt_rec)
  obtain x2 c2 where s2: "mlt_column a b 2 (c1, r[7 := x0, 6 := x1]) = (c2, r[7 := x0, 6 := x1, 5 := x2])" "unat c2 < 34359738368"
    "unat x2 + 4294967296 * unat c2 = unat c1 + (unat a3 * unat b1 + unat a2 * unat b2 + unat a1 * unat b3)"
    using step [of c1 2 "r[7 := x0, 6 := x1]"] r s1 by (auto simp: a b upt_rec)
  obtain x3 c3 where s3: "mlt_column a b 3 (c2, r[7 := x0, 6 := x1, 5 := x2]) = (c3, r[7 := x0, 6 := x1, 5 := x2, 4 := x3])" "unat c3 < 34359738368"
    "unat x3 + 4294967296 * unat c3 = unat c2 + (unat a3 * unat b0 + unat a2 * unat b1 + unat a1 * unat b2 + unat a0 * unat b3)"
    using step [of c2 3 "r[7 := x0, 6 := x1, 5 := x2]"] r s2 by (auto simp: a b upt_rec)
  obtain x4 c4 where s4: "mlt_column a b 4 (c3, r[7 := x0, 6 := x1, 5 := x2, 4 := x3]) = (c4, r[7 := x0, 6 := x1, 5 := x2, 4 := x3, 3 := x4])" "unat c4 < 34359738368"
    "unat x4 + 4294967296 * unat c4 = unat c3 + (unat a2 * unat b0 + unat a1 * unat b1 + unat a0 * unat b2)"
    using step [of c3 4 "r[7 := x0, 6 := x1, 5 := x2, 4 := x3]"] r s3 by (auto simp: a b upt_rec)
  obtain x5 c5 where s5: "mlt_column a b 5 (c4, r[7 := x0, 6 := x1, 5 := x2, 4 := x3, 3 := x4]) = (c5, r[7 := x0, 6 := x1, 5 := x2, 4 := x3, 3 := x4, 2 := x5])" "unat c5 < 34359738368"
    "unat x5 + 4294967296 * unat c5 = unat c4 + (unat a1 * unat b0 + unat a0 * unat b1)"
    using step [of c4 5 "r[7 := x0, 6 := x1, 5 := x2, 4 := x3, 3 := x4]"] r s4 by (auto simp: a b upt_rec)
  obtain x6 c6 where s6: "mlt_column a b 6 (c5, r[7 := x0, 6 := x1, 5 := x2, 4 := x3, 3 := x4, 2 := x5]) = (c6, r[7 := x0, 6 := x1, 5 := x2, 4 := x3, 3 := x4, 2 := x5, 1 := x6])" "unat c6 < 34359738368"
    "unat x6 + 4294967296 * unat c6 = unat c5 + (unat a0 * unat b0)"
    using step [of c5 6 "r[7 := x0, 6 := x1, 5 := x2, 4 := x3, 3 := x4, 2 := x5]"] r s5 by (auto simp: a b upt_rec)
  obtain x7 c7 where s7: "mlt_column a b 7 (c6, r[7 := x0, 6 := x1, 5 := x2, 4 := x3, 3 := x4, 2 := x5, 1 := x6]) = (c7, r[7 := x0, 6 := x1, 5 := x2, 4 := x3, 3 := x4, 2 := x5, 1 := x6, 0 := x7])" "unat c7 < 34359738368"
    "unat x7 + 4294967296 * unat c7 = unat c6 + (0)"
    using step [of c6 7 "r[7 := x0, 6 := x1, 5 := x2, 4 := x3, 3 := x4, 2 := x5, 1 := x6]"] r s6 by (auto simp: a b upt_rec)
  have f: "mlt_4 r a b = r[7 := x0, 6 := x1, 5 := x2, 4 := x3, 3 := x4, 2 := x5, 1 := x6, 0 := x7]"
    unfolding mlt_4_def upt8 by (simp only: fold_simps o_apply id_apply s0 s1 s2 s3 s4 s5 s6 s7 snd_conv)
  then show "length (mlt_4 r a b) = 8" using r by simp
  have l: "mlt_4 r a b = [x7, x6, x5, x4, x3, x2, x1, x0]"
    unfolding f using r by (auto simp: length_Suc_conv eval_nat_numeral)
  have p: "wval a * wval b = 1 * (unat a3 * unat b3) + 4294967296 * (unat a3 * unat b2 + unat a2 * unat b3) + 18446744073709551616 * (unat a3 * unat b1 + unat a2 * unat b2 + unat a1 * unat b3) + 79228162514264337593543950336 * (unat a3 * unat b0 + unat a2 * unat b1 + unat a1 * unat b2 + unat a0 * unat b3) + 340282366920938463463374607431768211456 * (unat a2 * unat b0 + unat a1 * unat b1 + unat a0 * unat b2) + 1461501637330902918203684832716283019655932542976 * (unat a1 * unat b0 + unat a0 * unat b1) + 6277101735386680763835789423207666416102355444464034512896 * (unat a0 * unat b0)"
    unfolding a b wval4 by (simp add: algebra_simps)
  have "wval (mlt_4 r a b) + unat c7 * 115792089237316195423570985008687907853269984665640564039457584007913129639936 = wval a * wval b"
    unfolding l p using s0(3) s1(3) s2(3) s3(3) s4(3) s5(3) s6(3) s7(3) by simp
  moreover have "wval a * wval b < 2 ^ 128 * 2 ^ 128"
    by (rule mult_strict_mono) (use wval_less [of a] wval_less [of b] in \<open>simp_all add: a b\<close>)
  ultimately show "wval (mlt_4 r a b) = wval a * wval b" by (cases "unat c7 = 0") simp_all
qed

subsection \<open>The reduction\<close>

lemma top_bit_u32: "(w :: u32) AND 0x80000000 \<noteq> 0 \<longleftrightarrow> 2147483648 \<le> unat w"
proof -
  have "w AND 0x80000000 = w AND 2 ^ 31" by simp
  then have "w AND 0x80000000 \<noteq> 0 \<longleftrightarrow> bit w 31"
    by (simp only: and_exp_eq_0_iff_not_bit not_not)
  also have "\<dots> \<longleftrightarrow> odd (unat w div 2 ^ 31)"
    unfolding bit_iff_odd [symmetric] by (simp only: bit_unsigned_iff) simp
  also have "\<dots> \<longleftrightarrow> 2147483648 \<le> unat w"
  proof -
    have "unat w div 2147483648 < 2" using unat_u32 [of w] by (simp add: div_less_iff_less_mult)
    then have "unat w div 2147483648 = 0 \<or> unat w div 2147483648 = 1" by arith
    then show ?thesis by (auto simp: div_eq_0_iff)
  qed
  finally show ?thesis .
qed

lemma clear_top_u32: "unat (w AND 0x7fffffff :: u32) = unat w mod 2147483648"
proof -
  have "w AND 0x7fffffff = take_bit 31 w" by (simp add: take_bit_eq_mask mask_eq_exp_minus_1)
  then have "unat (w AND 0x7fffffff) = take_bit 31 (unat w)" by (simp only: unsigned_take_bit_eq)
  then show ?thesis by (simp add: take_bit_nat_def)
qed

lemma inc_u32: "unat (x + 1 :: u32) = (if x + 1 = 0 then 0 else unat x + 1)"
  "x + 1 = 0 \<longleftrightarrow> unat x = 4294967295"
proof -
  have u: "unat (x + 1) = (unat x + 1) mod 4294967296" by (simp add: unat_add_u32)
  show z: "x + 1 = 0 \<longleftrightarrow> unat x = 4294967295"
  proof
    assume "x + 1 = 0"
    then show "unat x = 4294967295" using u unat_u32 [of x] by (simp add: mod_if split: if_splits)
  next
    assume "unat x = 4294967295"
    then have "unat (x + 1) = 0" using u by simp
    then show "x + 1 = 0" by (simp only: unsigned_eq_0_iff)
  qed
  show "unat (x + 1) = (if x + 1 = 0 then 0 else unat x + 1)"
    using u z unat_u32 [of x] by (auto simp: mod_if)
qed

lemma be_inc_words:
  "be_inc (x0 # x1 # x2 # x3 # xs) 0 =
    (if x3 + 1 \<noteq> 0 then x0 # x1 # x2 # (x3 + 1) # xs
     else if x2 + 1 \<noteq> 0 then x0 # x1 # (x2 + 1) # 0 # xs
     else if x1 + 1 \<noteq> 0 then x0 # (x1 + 1) # 0 # 0 # xs
     else (x0 + 1) # 0 # 0 # 0 # xs)"
  by (simp add: be_inc_def Let_def numeral_3_eq_3 numeral_2_eq_2)

lemma be_inc_value:
  assumes "4 \<le> length h" "wval (take 4 h) + 1 < 2 ^ 128"
  shows "wval (take 4 (be_inc h 0)) = wval (take 4 h) + 1" "drop 4 (be_inc h 0) = drop 4 h"
    "length (be_inc h 0) = length h"
proof -
  obtain x0 x1 x2 x3 xs where h: "h = x0 # x1 # x2 # x3 # xs" using assms(1) by (rule list_ge4_exhaust)
  show "drop 4 (be_inc h 0) = drop 4 h" "length (be_inc h 0) = length h"
    unfolding h be_inc_words by simp_all
  have "x0 + 1 \<noteq> 0 \<or> x1 + 1 \<noteq> 0 \<or> x2 + 1 \<noteq> 0 \<or> x3 + 1 \<noteq> 0"
    using assms(2) by (auto simp: h inc_u32(2))
  then show "wval (take 4 (be_inc h 0)) = wval (take 4 h) + 1"
    unfolding h be_inc_words by (auto simp: inc_u32)
qed

abbreviation P127 :: nat where "P127 \<equiv> 2 ^ 127 - 1"

text \<open>One step of the hash on numbers, with the partial reduction the code makes.\<close>

definition cwc_reduce :: "nat \<Rightarrow> nat" where
  "cwc_reduce n = (let s = n div 2 ^ 127 + n mod 2 ^ 127 in if s < 2 ^ 127 then s else s - P127)"

lemma cwc_reduce_mod: "cwc_reduce n mod P127 = n mod P127"
proof -
  have n: "n = (n div 2 ^ 127 + n mod 2 ^ 127) + P127 * (n div 2 ^ 127)"
    using div_mult_mod_eq [of n "2 ^ 127"] by simp
  have s: "n mod P127 = (n div 2 ^ 127 + n mod 2 ^ 127) mod P127"
    by (subst n) (rule mod_mult_self2)
  obtain t where t: "n div 2 ^ 127 + n mod 2 ^ 127 = t" by blast
  show ?thesis unfolding s cwc_reduce_def Let_def t by (auto simp: le_mod_geq)
qed

lemma cwc_reduce_le:
  assumes "n < 2 ^ 254"
  shows "cwc_reduce n \<le> 2 ^ 127"
proof -
  have "n div 2 ^ 127 < 2 ^ 127" using assms by (simp add: div_less_iff_less_mult)
  moreover have "n mod 2 ^ 127 < 2 ^ 127" by simp
  ultimately obtain q r where q: "n div 2 ^ 127 = q" "n mod 2 ^ 127 = r" "q < 2 ^ 127" "r < 2 ^ 127" by blast
  show ?thesis unfolding cwc_reduce_def Let_def q(1,2) using q(3,4) by (auto simp: le_diff_conv)
qed

lemma top_fold:
  assumes l: "length h = 4 \<or> length h = 8" and v: "wval (take 4 h) = s"
  shows "wval (take 4 (fold_top h)) =
      (if s < 2 ^ 127 then s else s - P127)"
    and "length (fold_top h) = length h"
proof -
  have l4: "4 \<le> length h" using l by auto
  then obtain x0 x1 x2 x3 xs where h: "h = x0 # x1 # x2 # x3 # xs" by (rule list_ge4_exhaust)
  have sv: "s = wval [x0, x1, x2, x3]" using v by (simp add: h)
  have top: "x0 AND 0x80000000 \<noteq> 0 \<longleftrightarrow> 2 ^ 127 \<le> s"
    unfolding top_bit_u32 sv wval4 using unat_u32 [of x1] unat_u32 [of x2] unat_u32 [of x3] by auto
  have hb: "s < 2 ^ 128" using wval_less [of "[x0, x1, x2, x3]"] by (simp add: sv)
  let ?c = "(x0 AND 0x7fffffff) # x1 # x2 # x3 # xs"
  have c: "wval (take 4 ?c) = s - 2 ^ 127" if "2 ^ 127 \<le> s"
  proof -
    have "2147483648 \<le> unat x0" using that top top_bit_u32 by blast
    moreover from this have "unat (x0 AND 0x7fffffff) = unat x0 - 2147483648"
      using unat_u32 [of x0] by (simp add: clear_top_u32 mod_if)
    ultimately show ?thesis unfolding sv by (simp add: diff_mult_distrib)
  qed
  have u: "fold_top h =
      (if 2 ^ 127 \<le> s then be_inc ?c 0 else h)"
    unfolding fold_top_def using top by (simp add: h)
  show "length (fold_top h) = length h"
    unfolding u by (simp add: h be_inc_words)
  have "wval (take 4 (be_inc ?c 0)) = s - 2 ^ 127 + 1" if "2 ^ 127 \<le> s"
    using be_inc_value(1) [of ?c] c [OF that] hb by simp
  moreover have "s - 2 ^ 127 + 1 = s - P127" if "2 ^ 127 \<le> s" using that by simp
  ultimately show "wval (take 4 (fold_top h)) =
      (if s < 2 ^ 127 then s else s - P127)"
    unfolding u using v by (simp only: not_less [symmetric]) (simp split: if_splits)
qed

lemma split_127:
  "(hi * 2 ^ 128 + lo) div 2 ^ 127 = 2 * hi + lo div (2 ^ 127 :: nat)"
  "(hi * 2 ^ 128 + lo) mod 2 ^ 127 = lo mod (2 ^ 127 :: nat)"
proof -
  have "hi * 2 ^ 128 + lo = lo + (2 * hi) * 2 ^ 127" by simp
  then show "(hi * 2 ^ 128 + lo) div 2 ^ 127 = 2 * hi + lo div (2 ^ 127 :: nat)"
    "(hi * 2 ^ 128 + lo) mod 2 ^ 127 = lo mod (2 ^ 127 :: nat)"
    by (simp_all only: div_mult_self1 mod_mult_self1 add.commute) simp_all
qed

lemma do_cwc_wrapped:
  assumes z: "length zval = 4" and h: "length hash = 8" and i: "length inp = 3"
    and hb: "wval (take 4 hash) \<le> 2 ^ 127"
    and pb: "(wval inp + wval (take 4 hash)) * wval zval < 2 ^ 255"
  shows "length (do_cwc inp zval hash) = 8"
    and "wval (take 4 (do_cwc inp zval hash)) =
      (let n = (wval inp + wval (take 4 hash)) * wval zval; s = (n div 2 ^ 127 + n mod 2 ^ 127) mod 2 ^ 128
       in if s < 2 ^ 127 then s else s - P127)"
proof -
  let ?d = "add_4 [0, inp ! 0, inp ! 1, inp ! 2] hash" and ?n = "(wval inp + wval (take 4 hash)) * wval zval"
  obtain i0 i1 i2 where inp: "inp = [i0, i1, i2]" using i by (auto simp: length_Suc_conv eval_nat_numeral)
  obtain z0 z1 z2 z3 where zv: "zval = [z0, z1, z2, z3]" using z by (rule list4_exhaust)
  have ib: "wval inp < 2 ^ 96" using wval_less [of inp] i by simp
  have dl: "length ?d = 4" using add_4_value(3) [of "[0, inp ! 0, inp ! 1, inp ! 2]" hash] h by simp
  then obtain d0 d1 d2 d3 where d: "?d = [d0, d1, d2, d3]" by (rule list4_exhaust)
  have dv: "wval ?d = wval inp + wval (take 4 hash)"
    using add_4_value(1) [of "[0, inp ! 0, inp ! 1, inp ! 2]" hash] h hb ib dl by (simp add: inp)
  obtain R where R: "mlt_4 hash ?d zval = R" by blast
  have rl: "length R = 8" and rv: "wval R = ?n"
    using mlt_4_value [OF h d zv] dv unfolding R by simp_all
  have "4 \<le> length R" by (simp add: rl)
  then obtain r0 r1 r2 r3 ps where r: "R = r0 # r1 # r2 # r3 # ps" by (rule list_ge4_exhaust)
  have "length ps = 4" using rl by (simp add: r)
  then obtain p0 p1 p2 p3 where ps: "ps = [p0, p1, p2, p3]" by (rule list4_exhaust)
  let ?hi = "wval [r0, r1, r2, r3]" and ?lo = "wval [p0, p1, p2, p3]"
  have n: "?n = ?hi * 2 ^ 128 + ?lo"
    using wval_append [of "[r0, r1, r2, r3]" "[p0, p1, p2, p3]"] rv by (simp add: r ps)
  have lo: "?lo < 2 ^ 128" using wval_less [of "[p0, p1, p2, p3]"] by simp
  have hi: "?hi < 2 ^ 127"
  proof (rule ccontr)
    assume "\<not> ?hi < 2 ^ 127"
    then have "2 ^ 127 * 2 ^ 128 \<le> ?hi * 2 ^ 128" by (intro mult_right_mono) simp_all
    then show False using n pb by simp
  qed
  let ?h1 = "add_4 R R"
  have h1: "length ?h1 = 8" "drop 4 ?h1 = ps" "wval (take 4 ?h1) = 2 * ?hi"
    using add_4_value [of R R] rl hi by (simp_all add: r)
  have "4 \<le> length ?h1" by (simp add: h1(1))
  then obtain a0 a1 a2 a3 qs where a: "?h1 = a0 # a1 # a2 # a3 # qs" by (rule list_ge4_exhaust)
  have a': "?h1 = [a0, a1, a2, a3, p0, p1, p2, p3]" using h1(2) a ps by simp
  have av: "wval [a0, a1, a2, a3] = 2 * ?hi" using h1(3) by (simp only: a') simp
  have even: "unat a3 < 4294967295"
  proof (rule ccontr)
    assume "\<not> unat a3 < 4294967295"
    then have "unat a3 = 4294967295" using unat_u32 [of a3] by simp
    then have "wval [a0, a1, a2, a3] = 2 * (unat a0 * 39614081257132168796771975168 + unat a1 * 9223372036854775808
        + unat a2 * 2147483648 + 2147483647) + 1" by (simp add: wval4)
    with av show False by presburger
  qed
  have top: "p0 AND 0x80000000 \<noteq> 0 \<longleftrightarrow> 2 ^ 127 \<le> ?lo"
    unfolding top_bit_u32 wval4 using unat_u32 [of p1] unat_u32 [of p2] unat_u32 [of p3] by auto
  let ?h2 = "if p0 AND 0x80000000 \<noteq> 0 then [a0, a1, a2, a3 + 1, p0 AND 0x7fffffff, p1, p2, p3]
             else [a0, a1, a2, a3, p0, p1, p2, p3]"
  have q: "?n div 2 ^ 127 = 2 * ?hi + ?lo div 2 ^ 127" "?n mod 2 ^ 127 = ?lo mod 2 ^ 127"
    unfolding n by (rule split_127)+
  have h2: "length ?h2 = 8" "wval (take 4 ?h2) = ?n div 2 ^ 127" "wval (drop 4 ?h2) = ?n mod 2 ^ 127"
  proof -
    show "length ?h2 = 8" by simp
    have "wval (take 4 ?h2) = ?n div 2 ^ 127 \<and> wval (drop 4 ?h2) = ?n mod 2 ^ 127"
    proof (cases "2 ^ 127 \<le> ?lo")
      case True
      have l: "?lo = 2 ^ 127 + (?lo - 2 ^ 127)" "?lo - 2 ^ 127 < 2 ^ 127" using True lo by simp_all
      have dm: "?lo div 2 ^ 127 = 1" "?lo mod 2 ^ 127 = ?lo - 2 ^ 127"
        using l by (simp_all add: div_if mod_if)
      have p0: "2147483648 \<le> unat p0" using True top top_bit_u32 by blast
      have "unat (p0 AND 0x7fffffff) = unat p0 - 2147483648"
        using p0 unat_u32 [of p0] by (simp add: clear_top_u32 mod_if)
      then have "wval [p0 AND 0x7fffffff, p1, p2, p3] = ?lo - 2 ^ 127"
        using p0 unfolding wval4 by (simp add: diff_mult_distrib)
      moreover have "a3 + 1 \<noteq> 0" using even by (simp add: inc_u32(2))
      then have "unat (a3 + 1) = unat a3 + 1" by (simp add: inc_u32(1))
      then have "wval [a0, a1, a2, a3 + 1] = 2 * ?hi + 1" using av unfolding wval4 by simp
      ultimately show ?thesis unfolding q dm using True top by simp
    next
      case False
      then have "?lo div 2 ^ 127 = 0" "?lo mod 2 ^ 127 = ?lo" by simp_all
      then show ?thesis unfolding q using False top av by simp
    qed
    then show "wval (take 4 ?h2) = ?n div 2 ^ 127" "wval (drop 4 ?h2) = ?n mod 2 ^ 127" by blast+
  qed
  let ?h3 = "add_4 ?h2 (drop 4 ?h2)" and ?s = "(?n div 2 ^ 127 + ?n mod 2 ^ 127) mod 2 ^ 128"
  have h3: "length ?h3 = 8" "wval (take 4 ?h3) = ?s"
  proof -
    have l: "4 \<le> length ?h2" "4 \<le> length (drop 4 ?h2)" by simp_all
    have t: "take 4 (drop 4 ?h2) = drop 4 ?h2" by simp
    show "length ?h3 = 8" using add_4_value(3) [OF l] h2(1) by simp
    show "wval (take 4 ?h3) = ?s"
      unfolding add_4_value(1) [OF l] t h2 ..
  qed
  have e: "do_cwc inp zval hash = fold_top ?h3"
    unfolding do_cwc_def Let_def R a' by (simp add: a')
  have l8: "length ?h3 = 4 \<or> length ?h3 = 8" using h3(1) by blast
  show "length (do_cwc inp zval hash) = 8" unfolding e using top_fold(2) [OF l8 h3(2)] h3(1) by simp
  show "wval (take 4 (do_cwc inp zval hash)) =
      (let n = ?n; s = (n div 2 ^ 127 + n mod 2 ^ 127) mod 2 ^ 128 in if s < 2 ^ 127 then s else s - P127)"
    unfolding e Let_def by (rule top_fold(1) [OF l8 h3(2)])
qed

text \<open>The sum of the two halves fits into 128 bits when the product is below \<open>2^254\<close>.\<close>

lemma do_cwc_value:
  assumes "length zval = 4" "length hash = 8" "length inp = 3" "wval (take 4 hash) \<le> 2 ^ 127"
    and pb: "(wval inp + wval (take 4 hash)) * wval zval < 2 ^ 254"
  shows "length (do_cwc inp zval hash) = 8"
    and "wval (take 4 (do_cwc inp zval hash)) = cwc_reduce ((wval inp + wval (take 4 hash)) * wval zval)"
proof -
  obtain n where n: "(wval inp + wval (take 4 hash)) * wval zval = n" by blast
  have "n < 2 ^ 255" using pb n by simp
  note w = do_cwc_wrapped [OF assms(1-4), unfolded n, OF this]
  show "length (do_cwc inp zval hash) = 8" by (rule w(1))
  have "n div 2 ^ 127 < 2 ^ 127" "n mod 2 ^ 127 < 2 ^ 127" using pb n by (simp_all add: div_less_iff_less_mult)
  then have "(n div 2 ^ 127 + n mod 2 ^ 127) mod 2 ^ 128 = n div 2 ^ 127 + n mod 2 ^ 127" by simp
  then show "wval (take 4 (do_cwc inp zval hash)) = cwc_reduce ((wval inp + wval (take 4 hash)) * wval zval)"
    unfolding w(2) n cwc_reduce_def Let_def by metis
qed

subsection \<open>The hash as a polynomial\<close>

text \<open>
  What a mode may rely on of one step of the hash: a good state stays good and
  the step is one step of Horner's rule modulo \<open>p\<close>.
\<close>

locale poly_hash =
  fixes step :: "'b \<Rightarrow> 'k \<Rightarrow> 'h \<Rightarrow> 'h" and block_ok :: "'b \<Rightarrow> bool" and key_ok :: "'k \<Rightarrow> bool" and state_ok :: "'h \<Rightarrow> bool"
    and block_val :: "'b \<Rightarrow> nat" and key_val :: "'k \<Rightarrow> nat" and state_val :: "'h \<Rightarrow> nat" and p :: nat
  assumes step_ok: "block_ok b \<Longrightarrow> key_ok z \<Longrightarrow> state_ok h \<Longrightarrow> state_ok (step b z h)"
    and step_val: "block_ok b \<Longrightarrow> key_ok z \<Longrightarrow> state_ok h \<Longrightarrow>
      state_val (step b z h) mod p = ((block_val b + state_val h) * key_val z) mod p"
begin

lemma fold_ok: "key_ok z \<Longrightarrow> state_ok h \<Longrightarrow> \<forall>b\<in>set bs. block_ok b \<Longrightarrow> state_ok (fold (\<lambda>b. step b z) bs h)"
  by (induction bs arbitrary: h) (simp_all add: step_ok)

lemma fold_polynomial:
  "key_ok z \<Longrightarrow> state_ok h \<Longrightarrow> \<forall>b\<in>set bs. block_ok b \<Longrightarrow>
    state_val (fold (\<lambda>b. step b z) bs h) mod p =
    (state_val h * key_val z ^ length bs + (\<Sum>i<length bs. block_val (bs ! i) * key_val z ^ (length bs - i))) mod p"
proof (induction bs rule: rev_induct)
  case (snoc b bs)
  let ?n = "length bs" and ?h = "fold (\<lambda>b. step b z) bs h" and ?z = "key_val z"
  let ?s = "\<Sum>i<?n. block_val (bs ! i) * ?z ^ (?n - i)"
  have ok: "\<forall>b\<in>set bs. block_ok b" "block_ok b" using snoc.prems(3) by simp_all
  have "state_val (step b z ?h) mod p = ((block_val b + state_val ?h) * ?z) mod p"
    by (rule step_val [OF ok(2) snoc.prems(1) fold_ok [OF snoc.prems(1,2) ok(1)]])
  also have "\<dots> = ((block_val b + (state_val h * ?z ^ ?n + ?s)) * ?z) mod p"
    using snoc.IH [OF snoc.prems(1,2) ok(1)] by (metis mod_add_cong mod_mult_cong)
  also have "(block_val b + (state_val h * ?z ^ ?n + ?s)) * ?z = state_val h * ?z ^ Suc ?n + (?s * ?z + block_val b * ?z)"
    by (simp add: algebra_simps)
  also have "?s * ?z = (\<Sum>i<?n. block_val ((bs @ [b]) ! i) * ?z ^ (Suc ?n - i))"
    unfolding sum_distrib_right by (rule sum.cong) (simp_all add: nth_append Suc_diff_le)
  also have "\<dots> + block_val b * ?z = (\<Sum>i<Suc ?n. block_val ((bs @ [b]) ! i) * ?z ^ (Suc ?n - i))" by simp
  finally show ?case by simp
qed simp

end

text \<open>
  The bound on the key makes the sum of the reduction fit for every block and every
  hash up to \<open>2^127\<close>, the largest value that a step leaves.
\<close>

definition zval_ok :: "u32 list \<Rightarrow> bool" where
  "zval_ok z \<longleftrightarrow> length z = 4 \<and> wval z \<le> 2 ^ 127 - 2 ^ 97"

definition hash_ok :: "u32 list \<Rightarrow> bool" where
  "hash_ok h \<longleftrightarrow> length h = 8 \<and> wval (take 4 h) \<le> 2 ^ 127"

lemma product_bound:
  assumes "b < 2 ^ 96" "h \<le> 2 ^ 127" "z \<le> 2 ^ 127 - 2 ^ 97"
  shows "(b + h) * z < (2 :: nat) ^ 254"
proof -
  have "(b + h) * z \<le> (2 ^ 96 + 2 ^ 127) * (2 ^ 127 - 2 ^ 97)"
    by (rule mult_mono) (use assms in linarith)+
  then show ?thesis by simp
qed

lemma do_cwc_ok:
  assumes "length b = 3" "zval_ok z" "hash_ok h"
  shows "hash_ok (do_cwc b z h)"
    and "wval (take 4 (do_cwc b z h)) mod P127 = ((wval b + wval (take 4 h)) * wval z) mod P127"
proof -
  have z: "length z = 4" "wval z \<le> 2 ^ 127 - 2 ^ 97" using assms(2) by (simp_all add: zval_ok_def)
  have h: "length h = 8" "wval (take 4 h) \<le> 2 ^ 127" using assms(3) by (simp_all add: hash_ok_def)
  have "wval b < 2 ^ 96" using wval_less [of b] assms(1) by simp
  then have n: "(wval b + wval (take 4 h)) * wval z < 2 ^ 254" by (rule product_bound [OF _ h(2) z(2)])
  note v = do_cwc_value [OF z(1) h(1) assms(1) h(2) n]
  show "hash_ok (do_cwc b z h)" unfolding hash_ok_def v(2) using v(1) cwc_reduce_le [OF n] by blast
  show "wval (take 4 (do_cwc b z h)) mod P127 = ((wval b + wval (take 4 h)) * wval z) mod P127"
    unfolding v(2) by (rule cwc_reduce_mod)
qed

interpretation cwc: poly_hash do_cwc "\<lambda>b. length b = 3" zval_ok hash_ok wval wval "\<lambda>h. wval (take 4 h)" P127
  by unfold_locales (use do_cwc_ok in blast)+

end
