(* ===== verification/Cwc.thy ===== *)
theory Cwc
  imports AesModes CwcHash
begin

text \<open>
  \<^verbatim>\<open>native/aes_modes/cwc.c\<close>: the CWC mode, which encrypts with a counter and
  authenticates header and ciphertext with the Carter-Wegman hash. The context
  is a record of the fields of \<open>cwc_ctx\<close>, its three block buffers as 16 bytes;
  each function takes the buffers it reads as lists and returns what it writes.
  A flag \<open>al\<close> stands for the test on the address of the buffer that chooses
  between the word-wise and the byte-wise code.

  The lemmas relate the loops to two machines that take one byte at a time, one
  for the hash and one for the key stream, so that the alignment of a buffer and
  the way a message is cut into calls make no difference.
\<close>

subsection \<open>The context\<close>

datatype ret_type = RETURN_WARN | RETURN_GOOD | RETURN_ERROR

record cwc_ctx =
  ctr_val :: "byte list"
  enc_ctr :: "byte list"
  cwc_buf :: "byte list"
  enc_ctx :: aes_crypt_ctx
  zval :: "u32 list"
  hash :: "u32 list"
  hdr_cnt :: u32
  txt_ccnt :: u32
  txt_acnt :: u32

definition cwc_zero :: cwc_ctx where
  "cwc_zero = \<lparr>ctr_val = replicate 16 0, enc_ctr = replicate 16 0, cwc_buf = replicate 16 0,
     enc_ctx = \<lparr>ks = replicate 60 0, inf_b = replicate 4 0\<rparr>, zval = replicate 4 0, hash = replicate 8 0,
     hdr_cnt = 0, txt_ccnt = 0, txt_acnt = 0\<rparr>"

text \<open>
  \<open>aes_encrypt(in, out, ctx->enc_ctx)\<close> with its return value ignored: the old
  contents of \<open>out\<close> stay where the context is not keyed.
\<close>

definition encrypt_to :: "byte list \<Rightarrow> byte list \<Rightarrow> aes_crypt_ctx \<Rightarrow> byte list" where
  "encrypt_to inp out cx = (case aes_encrypt inp cx of None \<Rightarrow> out | Some b \<Rightarrow> b)"

definition words_of_block :: "byte list \<Rightarrow> u32 list" where
  "words_of_block b = map (word_in b) [0, 1, 2, 3]"

definition block_of_words :: "u32 list \<Rightarrow> byte list" where
  "block_of_words w = concat (map word_out (take 4 w))"

definition cwc_init_and_key :: "byte list \<Rightarrow> nat \<Rightarrow> cwc_ctx \<Rightarrow> ret_type \<times> cwc_ctx" where
  "cwc_init_and_key key key_len ctx =
    (if key_len \<noteq> 16 \<and> key_len \<noteq> 24 \<and> key_len \<noteq> 32 then (RETURN_ERROR, ctx)
     else
       let ctx = cwc_zero;
           ctx = (case aes_encrypt_key key (int key_len) (enc_ctx ctx) of
                    None \<Rightarrow> ctx | Some e \<Rightarrow> ctx\<lparr>enc_ctx := e\<rparr>);
           zv = (replicate 16 0)[0 := 0xc0];
           zv = encrypt_to zv zv (enc_ctx ctx);
           zv = zv[0 := zv ! 0 AND 0x7f];
           zv = bswap32_block zv
       in (RETURN_GOOD, ctx\<lparr>zval := words_of_block zv\<rparr>))"

definition cwc_init_message :: "byte list \<Rightarrow> cwc_ctx \<Rightarrow> ret_type \<times> cwc_ctx" where
  "cwc_init_message iv ctx =
    (RETURN_GOOD, ctx\<lparr>ctr_val := 0x80 # map (\<lambda>i. iv ! i) [0..<11] @ word_out 0,
       cwc_buf := replicate 16 0, hdr_cnt := 0, txt_acnt := 0, txt_ccnt := 0, hash := replicate 8 0\<rparr>)"

subsection \<open>Authentication\<close>

text \<open>\<open>do_cwc(UI32_PTR(ctx->cwc_buf), ctx)\<close>.\<close>

definition cwc_step :: "cwc_ctx \<Rightarrow> cwc_ctx" where
  "cwc_step ctx = ctx\<lparr>hash := do_cwc (map (word_in (cwc_buf ctx)) [0, 1, 2]) (zval ctx) (hash ctx)\<rparr>"

definition put_bytes :: "byte list \<Rightarrow> nat \<Rightarrow> byte list \<Rightarrow> byte list" where
  "put_bytes buf pos bs = take pos buf @ bs @ drop (pos + length bs) buf"

text \<open>
  The loops of \<open>cwc_auth_header\<close> and \<open>cwc_auth_data\<close>, which are the same; the
  condition of the bytewise loop is \<open>b_pos & BUF_ADRMASK\<close> or \<open>b_pos < ABLK_LEN\<close>.
  The results are \<open>b_pos\<close>, the input left and the context.

  The counter \<open>cnt\<close> and the length \<open>len\<close> have 32 bits (\<open>uint32_t\<close> and, on 64-bit
  Windows, \<open>unsigned long\<close>), so the tests \<open>cnt + BUF_INC <= len\<close> and
  \<open>cnt + ABLK_LEN <= len\<close> of the loops over words and blocks can wrap around. The
  input left is then shorter than what the body reads: the code runs past the end of
  the buffer, and the model gives \<open>None\<close>. In the bytewise loops \<open>cnt < len\<close> cannot
  wrap; they are recursions over the input left. The buffer has exactly \<open>len\<close> bytes,
  and \<open>cnt\<close> is the number of those that have been taken.
\<close>

fun auth_bytes :: "(nat \<Rightarrow> bool) \<Rightarrow> nat \<Rightarrow> byte list \<Rightarrow> cwc_ctx \<Rightarrow> nat \<times> byte list \<times> cwc_ctx" where
  "auth_bytes cond b_pos [] ctx = (b_pos, [], ctx)"
| "auth_bytes cond b_pos (x # xs) ctx =
    (if cond b_pos then auth_bytes cond (b_pos + 1) xs (ctx\<lparr>cwc_buf := (cwc_buf ctx)[b_pos := x]\<rparr>)
     else (b_pos, x # xs, ctx))"

function auth_units :: "u32 \<Rightarrow> u32 \<Rightarrow> nat \<Rightarrow> byte list \<Rightarrow> cwc_ctx \<Rightarrow> (u32 \<times> nat \<times> byte list \<times> cwc_ctx) option" where
  "auth_units len cnt b_pos xs ctx =
    (if cnt + 4 \<le> len \<and> b_pos \<le> CWC_ABLK_SIZE - 4
     then if length xs < 4 then None
          else auth_units len (cnt + 4) (b_pos + 4) (drop 4 xs)
                 (ctx\<lparr>cwc_buf := put_bytes (cwc_buf ctx) b_pos (word_out (word_in xs 0))\<rparr>)
     else Some (cnt, b_pos, xs, ctx))"
  by pat_completeness auto

termination
  by (relation "measure (\<lambda>(len, cnt, b_pos, xs, ctx). length xs)") auto

function auth_blocks :: "u32 \<Rightarrow> u32 \<Rightarrow> byte list \<Rightarrow> cwc_ctx \<Rightarrow> (byte list \<times> cwc_ctx) option" where
  "auth_blocks len cnt xs ctx =
    (if cnt + of_nat CWC_ABLK_SIZE \<le> len
     then if length xs < CWC_ABLK_SIZE then None
          else let ctx = cwc_step ctx
               in auth_blocks len (cnt + of_nat CWC_ABLK_SIZE) (drop CWC_ABLK_SIZE xs)
                    (ctx\<lparr>cwc_buf := put_bytes (cwc_buf ctx) 0 (take CWC_ABLK_SIZE xs)\<rparr>)
     else Some (xs, ctx))"
  by pat_completeness auto

termination
  by (relation "measure (\<lambda>(len, cnt, xs, ctx). length xs)") (auto simp: CWC_ABLK_SIZE_def)

declare auth_units.simps [simp del] auth_blocks.simps [simp del]

fun auth_tail :: "nat \<Rightarrow> byte list \<Rightarrow> cwc_ctx \<Rightarrow> nat \<times> cwc_ctx" where
  "auth_tail b_pos [] ctx = (b_pos, ctx)"
| "auth_tail b_pos (x # xs) ctx =
    (let (b_pos, ctx) = (if b_pos = CWC_ABLK_SIZE then (0, cwc_step ctx) else (b_pos, ctx))
     in auth_tail (b_pos + 1) xs (ctx\<lparr>cwc_buf := (cwc_buf ctx)[b_pos := x]\<rparr>))"

definition auth_loops :: "bool \<Rightarrow> nat \<Rightarrow> byte list \<Rightarrow> cwc_ctx \<Rightarrow> cwc_ctx option" where
  "auth_loops al b_pos data ctx =
    (let len = of_nat (length data) :: u32;
         start = (if al
                  then (case auth_bytes (\<lambda>b_pos. b_pos mod 4 \<noteq> 0) b_pos data ctx of
                          (b_pos, xs, ctx) \<Rightarrow> auth_units len (of_nat (length data - length xs)) b_pos xs ctx)
                  else (case auth_bytes (\<lambda>b_pos. b_pos < CWC_ABLK_SIZE) b_pos data ctx of
                          (b_pos, xs, ctx) \<Rightarrow> Some (of_nat (length data - length xs), b_pos, xs, ctx)))
     in case start of None \<Rightarrow> None
        | Some (cnt, b_pos, xs, ctx) \<Rightarrow>
          (case auth_blocks len cnt xs ctx of None \<Rightarrow> None
           | Some (xs, ctx) \<Rightarrow>
             (case auth_tail b_pos xs ctx of
                (b_pos, ctx) \<Rightarrow> Some (if b_pos = CWC_ABLK_SIZE then cwc_step ctx else ctx))))"

definition cwc_auth_header :: "bool \<Rightarrow> byte list \<Rightarrow> cwc_ctx \<Rightarrow> (ret_type \<times> cwc_ctx) option" where
  "cwc_auth_header al hdr ctx =
    (let b_pos = unat (hdr_cnt ctx) mod CWC_ABLK_SIZE
     in if length hdr = 0 then Some (RETURN_GOOD, ctx)
        else (case auth_loops al b_pos hdr ctx of None \<Rightarrow> None
              | Some ctx \<Rightarrow> Some (RETURN_GOOD, ctx\<lparr>hdr_cnt := hdr_cnt ctx + of_nat (length hdr)\<rparr>)))"

text \<open>\<open>while(pos < ABLK_LEN) UI8_PTR(ctx->cwc_buf)[pos++] = 0; do_cwc(...)\<close>.\<close>

definition cwc_pad :: "nat \<Rightarrow> cwc_ctx \<Rightarrow> cwc_ctx" where
  "cwc_pad pos ctx =
    cwc_step (ctx\<lparr>cwc_buf := put_bytes (cwc_buf ctx) pos (replicate (CWC_ABLK_SIZE - pos) 0)\<rparr>)"

definition cwc_pad_header :: "cwc_ctx \<Rightarrow> cwc_ctx" where
  "cwc_pad_header ctx =
    (if txt_acnt ctx = 0
     then (let pos = unat (hdr_cnt ctx) mod CWC_ABLK_SIZE in if pos \<noteq> 0 then cwc_pad pos ctx else ctx)
     else ctx)"

text \<open>The two paddings at the start of \<open>cwc_compute_tag\<close>.\<close>

definition cwc_pad_all :: "cwc_ctx \<Rightarrow> cwc_ctx" where
  "cwc_pad_all ctx =
    (let ctx = cwc_pad_header ctx;
         pos = unat (txt_acnt ctx) mod CWC_ABLK_SIZE
     in if pos \<noteq> 0 then cwc_pad pos ctx else ctx)"

definition cwc_auth_data :: "bool \<Rightarrow> byte list \<Rightarrow> cwc_ctx \<Rightarrow> (ret_type \<times> cwc_ctx) option" where
  "cwc_auth_data al data ctx =
    (let b_pos = unat (txt_acnt ctx) mod CWC_ABLK_SIZE
     in if length data = 0 then Some (RETURN_GOOD, ctx)
        else (case auth_loops al b_pos data (cwc_pad_header ctx) of None \<Rightarrow> None
              | Some ctx \<Rightarrow> Some (RETURN_GOOD, ctx\<lparr>txt_acnt := txt_acnt ctx + of_nat (length data)\<rparr>)))"

subsection \<open>Encryption\<close>

text \<open>
  The loops of \<open>cwc_crypt_data\<close>; the bytewise loop returns \<open>b_pos\<close>, the bytes
  written and the input left.
\<close>

fun crypt_bytes :: "(nat \<Rightarrow> bool) \<Rightarrow> byte list \<Rightarrow> nat \<Rightarrow> byte list \<Rightarrow> nat \<times> byte list \<times> byte list" where
  "crypt_bytes cond ek b_pos [] = (b_pos, [], [])"
| "crypt_bytes cond ek b_pos (x # xs) =
    (if cond b_pos
     then (case crypt_bytes cond ek (b_pos + 1) xs of (b_pos', out, rest) \<Rightarrow> (b_pos', (x XOR ek ! b_pos) # out, rest))
     else (b_pos, [], x # xs))"

function crypt_units ::
  "byte list \<Rightarrow> u32 \<Rightarrow> u32 \<Rightarrow> nat \<Rightarrow> byte list \<Rightarrow> (u32 \<times> nat \<times> byte list \<times> byte list) option" where
  "crypt_units ek len cnt b_pos xs =
    (if cnt + 4 \<le> len \<and> b_pos \<le> CWC_CBLK_SIZE - 4
     then if length xs < 4 then None
          else (case crypt_units ek len (cnt + 4) (b_pos + 4) (drop 4 xs) of None \<Rightarrow> None
                | Some (cnt', b_pos', out, rest) \<Rightarrow>
                  Some (cnt', b_pos', word_out (word_in xs 0 XOR word_in (drop b_pos ek) 0) @ out, rest))
     else Some (cnt, b_pos, [], xs))"
  by pat_completeness auto

termination
  by (relation "measure (\<lambda>(ek, len, cnt, b_pos, xs). length xs)") auto

definition next_key :: "cwc_ctx \<Rightarrow> cwc_ctx" where
  "next_key ctx =
    (let ctx = ctx\<lparr>ctr_val := be_inc (ctr_val ctx) CTR_POS\<rparr>
     in ctx\<lparr>enc_ctr := encrypt_to (ctr_val ctx) (enc_ctr ctx) (enc_ctx ctx)\<rparr>)"

function crypt_blocks ::
  "bool \<Rightarrow> u32 \<Rightarrow> u32 \<Rightarrow> byte list \<Rightarrow> cwc_ctx \<Rightarrow> (byte list \<times> byte list \<times> cwc_ctx) option" where
  "crypt_blocks al len cnt xs ctx =
    (if cnt + of_nat CWC_CBLK_SIZE \<le> len
     then if length xs < CWC_CBLK_SIZE then None
          else let ctx = next_key ctx;
                   y = (if al then xor_block_aligned 32 (take CWC_CBLK_SIZE xs) (enc_ctr ctx)
                        else xor_block8 (take CWC_CBLK_SIZE xs) (enc_ctr ctx))
               in case crypt_blocks al len (cnt + of_nat CWC_CBLK_SIZE) (drop CWC_CBLK_SIZE xs) ctx of None \<Rightarrow> None
                  | Some (out, rest, ctx) \<Rightarrow> Some (y @ out, rest, ctx)
     else Some ([], xs, ctx))"
  by pat_completeness auto

termination
  by (relation "measure (\<lambda>(al, len, cnt, xs, ctx). length xs)") (auto simp: CWC_CBLK_SIZE_def)

declare crypt_units.simps [simp del] crypt_blocks.simps [simp del]

fun crypt_tail :: "nat \<Rightarrow> byte list \<Rightarrow> cwc_ctx \<Rightarrow> byte list \<times> cwc_ctx" where
  "crypt_tail b_pos [] ctx = ([], ctx)"
| "crypt_tail b_pos (x # xs) ctx =
    (let (b_pos, ctx) = (if b_pos = CWC_CBLK_SIZE \<or> b_pos = 0 then (0, next_key ctx) else (b_pos, ctx))
     in case crypt_tail (b_pos + 1) xs ctx of (out, ctx') \<Rightarrow> ((x XOR enc_ctr ctx ! b_pos) # out, ctx'))"

definition cwc_crypt_data :: "bool \<Rightarrow> byte list \<Rightarrow> cwc_ctx \<Rightarrow> (ret_type \<times> byte list \<times> cwc_ctx) option" where
  "cwc_crypt_data al data ctx =
    (let b_pos = unat (txt_ccnt ctx) mod CWC_CBLK_SIZE;
         len = of_nat (length data) :: u32
     in if length data = 0 then Some (RETURN_GOOD, data, ctx)
        else
          let start =
                (if b_pos = 0 then Some (0, b_pos, [], data)
                 else if al then
                   (case crypt_bytes (\<lambda>b_pos. b_pos mod 4 \<noteq> 0) (enc_ctr ctx) b_pos data of
                      (b_pos, out, xs) \<Rightarrow>
                        (case crypt_units (enc_ctr ctx) len (of_nat (length data - length xs)) b_pos xs of None \<Rightarrow> None
                         | Some (cnt, b_pos, out', xs) \<Rightarrow> Some (cnt, b_pos, out @ out', xs)))
                 else
                   (case crypt_bytes (\<lambda>b_pos. b_pos < CWC_CBLK_SIZE) (enc_ctr ctx) b_pos data of
                      (b_pos, out, xs) \<Rightarrow> Some (of_nat (length data - length xs), b_pos, out, xs)))
          in case start of None \<Rightarrow> None
             | Some (cnt, b_pos, out1, xs) \<Rightarrow>
               (case crypt_blocks al len cnt xs ctx of None \<Rightarrow> None
                | Some (out2, xs, ctx) \<Rightarrow>
                  (case crypt_tail b_pos xs ctx of
                     (out3, ctx) \<Rightarrow>
                       Some (RETURN_GOOD, out1 @ out2 @ out3, ctx\<lparr>txt_ccnt := txt_ccnt ctx + of_nat (length data)\<rparr>))))"

subsection \<open>The tag and whole messages\<close>

text \<open>The bytes written to \<open>tag\<close> are a result; none are written when an error is returned early.\<close>

definition cwc_compute_tag :: "nat \<Rightarrow> cwc_ctx \<Rightarrow> ret_type \<times> byte list \<times> cwc_ctx" where
  "cwc_compute_tag tag_len ctx =
    (if txt_acnt ctx \<noteq> txt_ccnt ctx \<and> 0 < txt_ccnt ctx then (RETURN_ERROR, [], ctx)
     else
       let ctx = cwc_pad_all ctx;
           h = fold_top (add_4 (hash ctx) [0, hdr_cnt ctx, 0, txt_acnt ctx]);
           ctx = ctx\<lparr>hash := h\<rparr>;
           hh = bswap32_block (block_of_words h);
           hh = encrypt_to hh hh (enc_ctx ctx);
           ctx = ctx\<lparr>enc_ctr := put_bytes (ctr_val ctx) CTR_POS (word_out 0)\<rparr>;
           ctx = ctx\<lparr>enc_ctr := encrypt_to (enc_ctr ctx) (enc_ctr ctx) (enc_ctx ctx)\<rparr>
       in (if txt_ccnt ctx = txt_acnt ctx then RETURN_GOOD else RETURN_WARN,
           map (\<lambda>pos. hh ! pos XOR enc_ctr ctx ! pos) [0..<tag_len], ctx))"

definition cwc_end :: "cwc_ctx \<Rightarrow> ret_type \<times> cwc_ctx" where
  "cwc_end ctx = (RETURN_GOOD, cwc_zero)"

definition cwc_encrypt :: "bool \<Rightarrow> bool \<Rightarrow> byte list \<Rightarrow> cwc_ctx \<Rightarrow> (ret_type \<times> byte list \<times> cwc_ctx) option" where
  "cwc_encrypt al_c al_a data ctx =
    (case cwc_crypt_data al_c data ctx of None \<Rightarrow> None
     | Some (_, data, ctx) \<Rightarrow>
       (case cwc_auth_data al_a data ctx of None \<Rightarrow> None
        | Some (_, ctx) \<Rightarrow> Some (RETURN_GOOD, data, ctx)))"

definition cwc_decrypt :: "bool \<Rightarrow> bool \<Rightarrow> byte list \<Rightarrow> cwc_ctx \<Rightarrow> (ret_type \<times> byte list \<times> cwc_ctx) option" where
  "cwc_decrypt al_a al_c data ctx =
    (case cwc_auth_data al_a data ctx of None \<Rightarrow> None
     | Some (_, ctx) \<Rightarrow>
       (case cwc_crypt_data al_c data ctx of None \<Rightarrow> None
        | Some (_, data, ctx) \<Rightarrow> Some (RETURN_GOOD, data, ctx)))"

definition cwc_encrypt_message ::
  "bool \<times> bool \<times> bool \<Rightarrow> byte list \<Rightarrow> byte list \<Rightarrow> byte list \<Rightarrow> nat \<Rightarrow> cwc_ctx \<Rightarrow>
   (ret_type \<times> byte list \<times> byte list \<times> cwc_ctx) option" where
  "cwc_encrypt_message = (\<lambda>(al_h, al_c, al_a) iv hdr msg tag_len ctx.
    let (_, ctx) = cwc_init_message iv ctx
    in case cwc_auth_header al_h hdr ctx of None \<Rightarrow> None
       | Some (_, ctx) \<Rightarrow>
         (case cwc_encrypt al_c al_a msg ctx of None \<Rightarrow> None
          | Some (_, msg, ctx) \<Rightarrow>
            (case cwc_compute_tag tag_len ctx of
               (rr, tag, ctx) \<Rightarrow> Some (if rr \<noteq> RETURN_GOOD then RETURN_ERROR else RETURN_GOOD, msg, tag, ctx))))"

text \<open>\<open>memcmp(tag, local_tag, tag_len)\<close> is read as a comparison of \<open>tag_len\<close> bytes.\<close>

definition cwc_decrypt_message ::
  "bool \<times> bool \<times> bool \<Rightarrow> byte list \<Rightarrow> byte list \<Rightarrow> byte list \<Rightarrow> byte list \<Rightarrow> nat \<Rightarrow> cwc_ctx \<Rightarrow>
   (ret_type \<times> byte list \<times> cwc_ctx) option" where
  "cwc_decrypt_message = (\<lambda>(al_h, al_c, al_a) iv hdr msg tag tag_len ctx.
    let (_, ctx) = cwc_init_message iv ctx
    in case cwc_auth_header al_h hdr ctx of None \<Rightarrow> None
       | Some (_, ctx) \<Rightarrow>
         (case cwc_decrypt al_a al_c msg ctx of None \<Rightarrow> None
          | Some (_, msg, ctx) \<Rightarrow>
            (case cwc_compute_tag tag_len ctx of
               (rr, local_tag, ctx) \<Rightarrow>
                 Some (if rr \<noteq> RETURN_GOOD \<or> take tag_len tag \<noteq> take tag_len local_tag then RETURN_ERROR else RETURN_GOOD,
                       msg, ctx))))"

subsection \<open>The loops without wrap-around\<close>

text \<open>
  The same loops with counters that do not wrap, on which the lemmas below are
  proved; \<open>auth_loops_n\<close> and \<open>crypt_data_n\<close> at the end of this part say exactly when
  the loops of the code do what these do.
\<close>

function auth_units_n :: "nat \<Rightarrow> byte list \<Rightarrow> cwc_ctx \<Rightarrow> nat \<times> byte list \<times> cwc_ctx" where
  "auth_units_n b_pos xs ctx =
    (if 4 \<le> length xs \<and> b_pos \<le> CWC_ABLK_SIZE - 4
     then auth_units_n (b_pos + 4) (drop 4 xs)
            (ctx\<lparr>cwc_buf := put_bytes (cwc_buf ctx) b_pos (word_out (word_in xs 0))\<rparr>)
     else (b_pos, xs, ctx))"
  by pat_completeness auto

termination
  by (relation "measure (\<lambda>(b_pos, xs, ctx). length xs)") auto

function auth_blocks_n :: "byte list \<Rightarrow> cwc_ctx \<Rightarrow> byte list \<times> cwc_ctx" where
  "auth_blocks_n xs ctx =
    (if CWC_ABLK_SIZE \<le> length xs
     then let ctx = cwc_step ctx
          in auth_blocks_n (drop CWC_ABLK_SIZE xs)
               (ctx\<lparr>cwc_buf := put_bytes (cwc_buf ctx) 0 (take CWC_ABLK_SIZE xs)\<rparr>)
     else (xs, ctx))"
  by pat_completeness auto

termination
  by (relation "measure (\<lambda>(xs, ctx). length xs)") (auto simp: CWC_ABLK_SIZE_def)

declare auth_units_n.simps [simp del] auth_blocks_n.simps [simp del]

definition auth_loops_n :: "bool \<Rightarrow> nat \<Rightarrow> byte list \<Rightarrow> cwc_ctx \<Rightarrow> cwc_ctx" where
  "auth_loops_n al b_pos xs ctx =
    (let (b_pos, xs, ctx) =
           (if al then (case auth_bytes (\<lambda>b_pos. b_pos mod 4 \<noteq> 0) b_pos xs ctx of
                          (b_pos, xs, ctx) \<Rightarrow> auth_units_n b_pos xs ctx)
            else auth_bytes (\<lambda>b_pos. b_pos < CWC_ABLK_SIZE) b_pos xs ctx);
         (xs, ctx) = auth_blocks_n xs ctx;
         (b_pos, ctx) = auth_tail b_pos xs ctx
     in if b_pos = CWC_ABLK_SIZE then cwc_step ctx else ctx)"

function crypt_units_n :: "byte list \<Rightarrow> nat \<Rightarrow> byte list \<Rightarrow> nat \<times> byte list \<times> byte list" where
  "crypt_units_n ek b_pos xs =
    (if 4 \<le> length xs \<and> b_pos \<le> CWC_CBLK_SIZE - 4
     then (case crypt_units_n ek (b_pos + 4) (drop 4 xs) of
             (b_pos', out, rest) \<Rightarrow> (b_pos', word_out (word_in xs 0 XOR word_in (drop b_pos ek) 0) @ out, rest))
     else (b_pos, [], xs))"
  by pat_completeness auto

termination
  by (relation "measure (\<lambda>(ek, b_pos, xs). length xs)") auto

function crypt_blocks_n :: "bool \<Rightarrow> byte list \<Rightarrow> cwc_ctx \<Rightarrow> byte list \<times> byte list \<times> cwc_ctx" where
  "crypt_blocks_n al xs ctx =
    (if CWC_CBLK_SIZE \<le> length xs
     then let ctx = next_key ctx;
              y = (if al then xor_block_aligned 32 (take CWC_CBLK_SIZE xs) (enc_ctr ctx)
                   else xor_block8 (take CWC_CBLK_SIZE xs) (enc_ctr ctx))
          in case crypt_blocks_n al (drop CWC_CBLK_SIZE xs) ctx of (out, rest, ctx) \<Rightarrow> (y @ out, rest, ctx)
     else ([], xs, ctx))"
  by pat_completeness auto

termination
  by (relation "measure (\<lambda>(al, xs, ctx). length xs)") (auto simp: CWC_CBLK_SIZE_def)

declare crypt_units_n.simps [simp del] crypt_blocks_n.simps [simp del]

definition cwc_crypt_data_n :: "bool \<Rightarrow> byte list \<Rightarrow> cwc_ctx \<Rightarrow> ret_type \<times> byte list \<times> cwc_ctx" where
  "cwc_crypt_data_n al data ctx =
    (let b_pos = unat (txt_ccnt ctx) mod CWC_CBLK_SIZE
     in if length data = 0 then (RETURN_GOOD, data, ctx)
        else
          let (b_pos, out1, xs) =
                (if b_pos = 0 then (b_pos, [], data)
                 else if al then
                   (case crypt_bytes (\<lambda>b_pos. b_pos mod 4 \<noteq> 0) (enc_ctr ctx) b_pos data of
                      (b_pos, out, xs) \<Rightarrow>
                        (case crypt_units_n (enc_ctr ctx) b_pos xs of (b_pos, out', xs) \<Rightarrow> (b_pos, out @ out', xs)))
                 else crypt_bytes (\<lambda>b_pos. b_pos < CWC_CBLK_SIZE) (enc_ctr ctx) b_pos data);
              (out2, xs, ctx) = crypt_blocks_n al xs ctx;
              (out3, ctx) = crypt_tail b_pos xs ctx
          in (RETURN_GOOD, out1 @ out2 @ out3, ctx\<lparr>txt_ccnt := txt_ccnt ctx + of_nat (length data)\<rparr>))"

subsection \<open>The hash, one byte at a time\<close>

text \<open>The state is the hash and the bytes of the block that is not full yet.\<close>

type_synonym mac_state = "u32 list \<times> byte list"

definition mac_flush :: "u32 list \<Rightarrow> mac_state \<Rightarrow> mac_state" where
  "mac_flush z = (\<lambda>(h, p). if length p = CWC_ABLK_SIZE then (do_cwc (map (word_in p) [0, 1, 2]) z h, []) else (h, p))"

definition mac_byte :: "u32 list \<Rightarrow> mac_state \<Rightarrow> byte \<Rightarrow> mac_state" where
  "mac_byte z = (\<lambda>(h, p) x. mac_flush z (h, p @ [x]))"

definition mac_bytes :: "u32 list \<Rightarrow> mac_state \<Rightarrow> byte list \<Rightarrow> mac_state" where
  "mac_bytes z st xs = foldl (mac_byte z) st xs"

lemma mac_bytes_simps [simp]:
  "mac_bytes z st [] = st" "mac_bytes z st (x # xs) = mac_bytes z (mac_byte z st x) xs"
  "mac_bytes z st (xs @ ys) = mac_bytes z (mac_bytes z st xs) ys"
  by (simp_all add: mac_bytes_def)

text \<open>What the context holds when \<open>b_pos\<close> bytes are in \<open>cwc_buf\<close>; a full buffer is yet to be hashed.\<close>

definition auth_view :: "nat \<Rightarrow> cwc_ctx \<Rightarrow> mac_state" where
  "auth_view b_pos ctx = mac_flush (zval ctx) (hash ctx, take b_pos (cwc_buf ctx))"

text \<open>Only \<open>hash\<close> and \<open>cwc_buf\<close> have changed.\<close>

definition auth_frame :: "cwc_ctx \<Rightarrow> cwc_ctx \<Rightarrow> bool" where
  "auth_frame ctx ctx' \<longleftrightarrow>
    ctx' = ctx\<lparr>cwc_buf := cwc_buf ctx', hash := hash ctx'\<rparr> \<and> length (cwc_buf ctx) = 16 \<and> length (cwc_buf ctx') = 16"

lemma auth_frame_refl [simp]: "auth_frame ctx ctx \<longleftrightarrow> length (cwc_buf ctx) = 16"
  by (auto simp: auth_frame_def)

lemma auth_frame_trans [trans]: "auth_frame a b \<Longrightarrow> auth_frame b c \<Longrightarrow> auth_frame a c"
  unfolding auth_frame_def by (cases a, cases b, cases c) simp

lemma auth_frame_fields:
  assumes "auth_frame a b"
  shows "zval b = zval a" "ctr_val b = ctr_val a" "enc_ctr b = enc_ctr a" "enc_ctx b = enc_ctx a"
    "hdr_cnt b = hdr_cnt a" "txt_acnt b = txt_acnt a" "txt_ccnt b = txt_ccnt a" "length (cwc_buf b) = 16"
  using assms unfolding auth_frame_def by (cases a, cases b, simp)+

lemma length_put_bytes [simp, len_simps]: "pos + length bs \<le> length buf \<Longrightarrow> length (put_bytes buf pos bs) = length buf"
  by (simp add: put_bytes_def)

lemma auth_frame_step: "length (cwc_buf ctx) = 16 \<Longrightarrow> auth_frame ctx (cwc_step ctx)"
  by (simp add: auth_frame_def cwc_step_def)

lemma auth_frame_buf: "length (cwc_buf ctx) = 16 \<Longrightarrow> length b = 16 \<Longrightarrow> auth_frame ctx (ctx\<lparr>cwc_buf := b\<rparr>)"
  by (simp add: auth_frame_def)

lemma auth_view_below: "length (cwc_buf ctx) = 16 \<Longrightarrow> b_pos < 12 \<Longrightarrow> auth_view b_pos ctx = (hash ctx, take b_pos (cwc_buf ctx))"
  by (simp add: auth_view_def mac_flush_def CWC_ABLK_SIZE_def)

lemma map_word_in_take: "12 \<le> length b \<Longrightarrow> map (word_in (take 12 b)) [0, 1, 2] = map (word_in b) [0, 1, 2]"
  by (simp add: word_in_def)

lemma auth_view_full: "length (cwc_buf ctx) = 16 \<Longrightarrow> auth_view 12 ctx = (hash (cwc_step ctx), [])"
  using map_word_in_take [of "cwc_buf ctx"]
  by (simp add: auth_view_def mac_flush_def CWC_ABLK_SIZE_def cwc_step_def)

lemma auth_view_write:
  assumes "length (cwc_buf ctx) = 16" "b_pos < 12"
  shows "auth_view (b_pos + 1) (ctx\<lparr>cwc_buf := (cwc_buf ctx)[b_pos := x]\<rparr>) = mac_byte (zval ctx) (auth_view b_pos ctx) x"
  unfolding auth_view_below [OF assms] mac_byte_def prod.case
  using assms by (simp add: auth_view_def take_Suc_conv_app_nth)

text \<open>Writing bytes in order is one write of all of them.\<close>

lemma put_bytes_Cons:
  "pos < length buf \<Longrightarrow> put_bytes buf pos (x # bs) = put_bytes (buf[pos := x]) (Suc pos) bs"
  by (simp add: put_bytes_def take_Suc_conv_app_nth)

lemma auth_view_put:
  "length (cwc_buf ctx) = 16 \<Longrightarrow> b_pos + length bs \<le> 12 \<Longrightarrow>
    auth_view (b_pos + length bs) (ctx\<lparr>cwc_buf := put_bytes (cwc_buf ctx) b_pos bs\<rparr>) =
    mac_bytes (zval ctx) (auth_view b_pos ctx) bs"
proof (induction bs arbitrary: b_pos ctx)
  case Nil
  then show ?case by (simp add: put_bytes_def)
next
  case (Cons x bs)
  let ?ctx = "ctx\<lparr>cwc_buf := (cwc_buf ctx)[b_pos := x]\<rparr>"
  have "auth_view (Suc b_pos + length bs) (?ctx\<lparr>cwc_buf := put_bytes (cwc_buf ?ctx) (Suc b_pos) bs\<rparr>) =
      mac_bytes (zval ?ctx) (auth_view (Suc b_pos) ?ctx) bs"
    by (rule Cons.IH) (use Cons.prems in simp_all)
  then show ?case
    using Cons.prems auth_view_write [of ctx b_pos x] by (simp add: put_bytes_Cons)
qed

subsection \<open>The authentication loops\<close>

lemma auth_bytes_inv:
  assumes "\<And>b. cond b \<Longrightarrow> b \<le> 12 \<Longrightarrow> b < 12"
  shows "length (cwc_buf ctx) = 16 \<Longrightarrow> b_pos \<le> 12 \<Longrightarrow> auth_bytes cond b_pos xs ctx = (b', ys, ctx') \<Longrightarrow>
    \<exists>us. xs = us @ ys \<and> b' = b_pos + length us \<and> b' \<le> 12 \<and> (ys = [] \<or> \<not> cond b') \<and> auth_frame ctx ctx' \<and>
      auth_view b' ctx' = mac_bytes (zval ctx) (auth_view b_pos ctx) us"
proof (induction xs arbitrary: b_pos ctx)
  case (Cons x xs)
  show ?case
  proof (cases "cond b_pos")
    case True
    let ?ctx = "ctx\<lparr>cwc_buf := (cwc_buf ctx)[b_pos := x]\<rparr>"
    have b: "b_pos < 12" using assms True Cons.prems(2) by blast
    obtain us where us: "xs = us @ ys" "b' = b_pos + 1 + length us" "b' \<le> 12" "ys = [] \<or> \<not> cond b'" "auth_frame ?ctx ctx'"
      "auth_view b' ctx' = mac_bytes (zval ?ctx) (auth_view (b_pos + 1) ?ctx) us"
      using Cons.IH [of ?ctx "b_pos + 1"] Cons.prems b True by auto
    have "auth_frame ctx ctx'"
      using auth_frame_trans [OF auth_frame_buf us(5)] Cons.prems(1) by simp
    moreover have "auth_view b' ctx' = mac_bytes (zval ctx) (auth_view b_pos ctx) (x # us)"
      using us(6) auth_view_write [OF Cons.prems(1) b, of x] by simp
    ultimately show ?thesis using us(1-4) by (intro exI [of _ "x # us"]) simp
  next
    case False
    then show ?thesis using Cons.prems by simp
  qed
qed auto

lemma auth_units_inv:
  "length (cwc_buf ctx) = 16 \<Longrightarrow> b_pos \<le> 12 \<Longrightarrow> auth_units_n b_pos xs ctx = (b', ys, ctx') \<Longrightarrow>
    \<exists>us. xs = us @ ys \<and> b' = b_pos + length us \<and> length us mod 4 = 0 \<and> b' \<le> 12 \<and> (length ys < 4 \<or> 8 < b') \<and>
      auth_frame ctx ctx' \<and> auth_view b' ctx' = mac_bytes (zval ctx) (auth_view b_pos ctx) us"
proof (induction b_pos xs ctx rule: auth_units_n.induct)
  case (1 b_pos xs ctx)
  show ?case
  proof (cases "4 \<le> length xs \<and> b_pos \<le> CWC_ABLK_SIZE - 4")
    case True
    then have b: "4 \<le> length xs" "b_pos \<le> 8" by (simp_all add: CWC_ABLK_SIZE_def)
    have w: "word_out (word_in xs 0) = take 4 xs" using word_out_word_in [of 0 xs] b by simp
    have t: "length (take 4 xs) = 4" using b by simp
    let ?ctx = "ctx\<lparr>cwc_buf := put_bytes (cwc_buf ctx) b_pos (take 4 xs)\<rparr>"
    have u: "auth_units_n (b_pos + 4) (drop 4 xs) ?ctx = (b', ys, ctx')"
      using "1.prems"(3) True unfolding auth_units_n.simps [of b_pos xs ctx] w by simp
    have l: "length (put_bytes (cwc_buf ctx) b_pos (take 4 xs)) = 16" using "1.prems"(1) b by (simp add: put_bytes_def)
    obtain us where us: "drop 4 xs = us @ ys" "b' = b_pos + 4 + length us" "length us mod 4 = 0" "b' \<le> 12"
      "length ys < 4 \<or> 8 < b'" "auth_frame ?ctx ctx'"
      "auth_view b' ctx' = mac_bytes (zval ?ctx) (auth_view (b_pos + 4) ?ctx) us"
      using "1.IH" [OF True, unfolded w] l b u by auto
    have "auth_frame ctx ctx'"
      using auth_frame_trans [OF auth_frame_buf us(6)] "1.prems"(1) l by simp
    moreover have "auth_view b' ctx' = mac_bytes (zval ctx) (auth_view b_pos ctx) (take 4 xs @ us)"
      using us(7) auth_view_put [of ctx b_pos "take 4 xs", unfolded t] "1.prems"(1) b by simp
    moreover have "xs = (take 4 xs @ us) @ ys" using us(1) by (metis append.assoc append_take_drop_id)
    moreover have "length (take 4 xs @ us) = 4 + length us" using b by simp
    ultimately show ?thesis using us(2-5) by (intro exI [of _ "take 4 xs @ us"]) simp
  next
    case False
    then have e: "b' = b_pos" "ys = xs" "ctx' = ctx" using "1.prems"(3) by (subst (asm) auth_units_n.simps; simp)+
    show ?thesis unfolding e using False "1.prems"(1,2) by (auto simp: CWC_ABLK_SIZE_def)
  qed
qed

lemma auth_blocks_inv:
  "length (cwc_buf ctx) = 16 \<Longrightarrow> 12 \<le> length xs \<longrightarrow> b_pos = 12 \<Longrightarrow> auth_blocks_n xs ctx = (ys, ctx') \<Longrightarrow>
    \<exists>us. xs = us @ ys \<and> length us mod 12 = 0 \<and> length ys < 12 \<and> auth_frame ctx ctx' \<and>
      auth_view b_pos ctx' = mac_bytes (zval ctx) (auth_view b_pos ctx) us"
proof (induction xs ctx rule: auth_blocks_n.induct)
  case (1 xs ctx)
  show ?case
  proof (cases "CWC_ABLK_SIZE \<le> length xs")
    case True
    then have b: "12 \<le> length xs" "b_pos = 12" using "1.prems"(2) by (simp_all add: CWC_ABLK_SIZE_def)
    have t: "length (take 12 xs) = 12" using b by simp
    let ?c = "cwc_step ctx"
    let ?ctx = "?c\<lparr>cwc_buf := put_bytes (cwc_buf ?c) 0 (take 12 xs)\<rparr>"
    note fs = auth_frame_step [OF "1.prems"(1)]
    have lc: "length (cwc_buf ?c) = 16" by (rule auth_frame_fields(8) [OF fs])
    have l: "length (put_bytes (cwc_buf ?c) 0 (take 12 xs)) = 16" using lc b by (simp add: put_bytes_def)
    have u: "auth_blocks_n (drop 12 xs) ?ctx = (ys, ctx')"
      using "1.prems"(3) True unfolding auth_blocks_n.simps [of xs ctx] by (simp add: CWC_ABLK_SIZE_def Let_def)
    obtain us where us: "drop 12 xs = us @ ys" "length us mod 12 = 0" "length ys < 12" "auth_frame ?ctx ctx'"
      "auth_view b_pos ctx' = mac_bytes (zval ?ctx) (auth_view b_pos ?ctx) us"
      using "1.IH" [OF True refl] l b(2) u unfolding CWC_ABLK_SIZE_def by auto
    have "auth_frame ctx ctx'"
      using auth_frame_trans [OF fs auth_frame_trans [OF auth_frame_buf us(4)]] lc l by simp
    moreover have "auth_view 12 ?ctx = mac_bytes (zval ?c) (auth_view 0 ?c) (take 12 xs)"
      using auth_view_put [of ?c 0 "take 12 xs", unfolded t] lc by simp
    moreover have "auth_view 0 ?c = auth_view 12 ctx"
      unfolding auth_view_full [OF "1.prems"(1)] using auth_view_below [OF lc, of 0] by simp
    ultimately have "auth_frame ctx ctx'" "auth_view b_pos ctx' = mac_bytes (zval ctx) (auth_view b_pos ctx) (take 12 xs @ us)"
      using us(5) auth_frame_fields(1) [OF fs] b(2) by simp_all
    moreover have "xs = (take 12 xs @ us) @ ys" using us(1) by (metis append.assoc append_take_drop_id)
    moreover have "length (take 12 xs @ us) = 12 + length us" using b by simp
    ultimately show ?thesis using us(2,3) by (intro exI [of _ "take 12 xs @ us"]) simp
  next
    case False
    then have e: "ys = xs" "ctx' = ctx" using "1.prems"(3) by (subst (asm) auth_blocks_n.simps; simp)+
    show ?thesis unfolding e using False "1.prems"(1) by (auto simp: CWC_ABLK_SIZE_def)
  qed
qed

lemma auth_tail_inv:
  "length (cwc_buf ctx) = 16 \<Longrightarrow> b_pos \<le> 12 \<Longrightarrow> auth_tail b_pos xs ctx = (b', ctx') \<Longrightarrow>
    b' \<le> 12 \<and> b' mod 12 = (b_pos + length xs) mod 12 \<and> auth_frame ctx ctx' \<and>
    auth_view b' ctx' = mac_bytes (zval ctx) (auth_view b_pos ctx) xs"
proof (induction xs arbitrary: b_pos ctx)
  case (Cons x xs)
  obtain c b where c: "(if b_pos = CWC_ABLK_SIZE then (0, cwc_step ctx) else (b_pos, ctx)) = (b, c)" by fastforce
  note fs = auth_frame_step [OF Cons.prems(1)]
  have cb: "b < 12" "auth_frame ctx c" "auth_view b c = auth_view b_pos ctx" "b mod 12 = b_pos mod 12"
    using c fs Cons.prems(1,2) auth_view_full [OF Cons.prems(1)] auth_view_below [OF auth_frame_fields(8) [OF fs], of 0]
    by (auto simp: CWC_ABLK_SIZE_def split: if_splits)
  have lc: "length (cwc_buf c) = 16" by (rule auth_frame_fields(8) [OF cb(2)])
  let ?ctx = "c\<lparr>cwc_buf := (cwc_buf c)[b := x]\<rparr>"
  have u: "auth_tail (b + 1) xs ?ctx = (b', ctx')"
    using Cons.prems(3) unfolding auth_tail.simps c by simp
  have ih: "b' \<le> 12" "b' mod 12 = (b + 1 + length xs) mod 12" "auth_frame ?ctx ctx'"
    "auth_view b' ctx' = mac_bytes (zval ?ctx) (auth_view (b + 1) ?ctx) xs"
    using Cons.IH [OF _ _ u] lc cb(1) by auto
  have "auth_frame ctx ctx'"
    using auth_frame_trans [OF cb(2) auth_frame_trans [OF auth_frame_buf ih(3)]] lc by simp
  moreover have "auth_view b' ctx' = mac_bytes (zval ctx) (auth_view b_pos ctx) (x # xs)"
    using ih(4) auth_view_write [OF lc cb(1), of x] auth_frame_fields(1) [OF cb(2)] cb(3) by simp
  moreover have "(b + 1 + length xs) mod 12 = (b_pos + length (x # xs)) mod 12"
    using cb(4) mod_add_cong [of b 12 b_pos "1 + length xs" "1 + length xs"] by simp
  ultimately show ?case using ih(1,2) by simp
qed auto

lemma auth_loops_spec:
  assumes "length (cwc_buf ctx) = 16" "b_pos < 12"
  shows "auth_frame ctx (auth_loops_n al b_pos xs ctx)"
    and "(hash (auth_loops_n al b_pos xs ctx), take ((b_pos + length xs) mod 12) (cwc_buf (auth_loops_n al b_pos xs ctx))) =
      mac_bytes (zval ctx) (hash ctx, take b_pos (cwc_buf ctx)) xs"
proof -
  have b12: "b_pos \<le> 12" using assms(2) by simp
  obtain b1 ys1 c1 us1 where s1:
    "(if al then (case auth_bytes (\<lambda>b_pos. b_pos mod 4 \<noteq> 0) b_pos xs ctx of (b_pos, xs, ctx) \<Rightarrow> auth_units_n b_pos xs ctx)
      else auth_bytes (\<lambda>b_pos. b_pos < CWC_ABLK_SIZE) b_pos xs ctx) = (b1, ys1, c1)"
    "xs = us1 @ ys1" "b1 = b_pos + length us1" "b1 \<le> 12" "12 \<le> length ys1 \<longrightarrow> b1 = 12" "auth_frame ctx c1"
    "auth_view b1 c1 = mac_bytes (zval ctx) (auth_view b_pos ctx) us1"
  proof (cases al)
    case True
    obtain b0 ys0 c0 where r0: "auth_bytes (\<lambda>b_pos. b_pos mod 4 \<noteq> 0) b_pos xs ctx = (b0, ys0, c0)" by (metis prod_cases3)
    have "b < 12" if "b mod 4 \<noteq> 0" "b \<le> 12" for b :: nat using that by (cases "b = 12") simp_all
    from auth_bytes_inv [OF this assms(1) b12 r0] obtain us0 where s0: "xs = us0 @ ys0" "b0 = b_pos + length us0" "b0 \<le> 12"
      "ys0 = [] \<or> b0 mod 4 = 0" "auth_frame ctx c0" "auth_view b0 c0 = mac_bytes (zval ctx) (auth_view b_pos ctx) us0"
      by auto
    obtain b1 ys1 c1 where r1: "auth_units_n b0 ys0 c0 = (b1, ys1, c1)" by (metis prod_cases3)
    from auth_units_inv [OF auth_frame_fields(8) [OF s0(5)] s0(3) r1] obtain us1 where s1: "ys0 = us1 @ ys1"
      "b1 = b0 + length us1" "length us1 mod 4 = 0" "b1 \<le> 12" "length ys1 < 4 \<or> 8 < b1" "auth_frame c0 c1"
      "auth_view b1 c1 = mac_bytes (zval c0) (auth_view b0 c0) us1" by (elim exE conjE) (rule that)
    have b1: "b1 = 12" if "12 \<le> length ys1"
    proof -
      have "b1 mod 4 = 0" using that s0(4) s1(1,2,3) mod_add_cong [of b0 4 0 "length us1" 0] by auto
      moreover have "8 < b1" using s1(5) that by simp
      ultimately show ?thesis using s1(4) by presburger
    qed
    show ?thesis
    proof (rule that [of b1 ys1 c1 "us0 @ us1"])
      show "(if al then (case auth_bytes (\<lambda>b_pos. b_pos mod 4 \<noteq> 0) b_pos xs ctx of (b_pos, xs, ctx) \<Rightarrow> auth_units_n b_pos xs ctx)
          else auth_bytes (\<lambda>b_pos. b_pos < CWC_ABLK_SIZE) b_pos xs ctx) = (b1, ys1, c1)"
        using True by (simp only: if_True r0 prod.case r1)
      show "auth_frame ctx c1" using auth_frame_trans [OF s0(5) s1(6)] .
      show "auth_view b1 c1 = mac_bytes (zval ctx) (auth_view b_pos ctx) (us0 @ us1)"
        using s0(6) s1(7) auth_frame_fields(1) [OF s0(5)] by simp
    qed (use s0(1,2) s1(1,2,4) b1 in simp_all)
  next
    case False
    obtain b1 ys1 c1 where r1: "auth_bytes (\<lambda>b_pos. b_pos < CWC_ABLK_SIZE) b_pos xs ctx = (b1, ys1, c1)" by (metis prod_cases3)
    have "b < 12" if "b < CWC_ABLK_SIZE" "b \<le> 12" for b using that by (simp add: CWC_ABLK_SIZE_def)
    from auth_bytes_inv [where cond = "\<lambda>b_pos. b_pos < CWC_ABLK_SIZE", OF this assms(1) b12 r1] obtain us1 where s1: "xs = us1 @ ys1" "b1 = b_pos + length us1" "b1 \<le> 12"
      "ys1 = [] \<or> \<not> b1 < CWC_ABLK_SIZE" "auth_frame ctx c1" "auth_view b1 c1 = mac_bytes (zval ctx) (auth_view b_pos ctx) us1"
      by auto
    have "b1 = 12" if "12 \<le> length ys1" using that s1(3,4) by (auto simp: CWC_ABLK_SIZE_def)
    with s1 show ?thesis using False r1 by (intro that [of b1 ys1 c1 us1]) simp_all
  qed
  obtain ys2 c2 where r2: "auth_blocks_n ys1 c1 = (ys2, c2)" by fastforce
  from auth_blocks_inv [OF auth_frame_fields(8) [OF s1(6)] s1(5) r2] obtain us2 where s2: "ys1 = us2 @ ys2"
    "length us2 mod 12 = 0" "auth_frame c1 c2" "auth_view b1 c2 = mac_bytes (zval c1) (auth_view b1 c1) us2"
    by (elim exE conjE) (rule that)
  obtain b3 c3 where r3: "auth_tail b1 ys2 c2 = (b3, c3)" by fastforce
  from auth_tail_inv [OF auth_frame_fields(8) [OF s2(3)] s1(4) r3] have s3: "b3 \<le> 12" "b3 mod 12 = (b1 + length ys2) mod 12"
    "auth_frame c2 c3" "auth_view b3 c3 = mac_bytes (zval c2) (auth_view b1 c2) ys2" by auto
  have e: "auth_loops_n al b_pos xs ctx = (if b3 = 12 then cwc_step c3 else c3)"
    unfolding auth_loops_n_def s1(1) Let_def prod.case r2 r3 by (simp add: CWC_ABLK_SIZE_def)
  have f: "auth_frame ctx c3" using auth_frame_trans s1(6) s2(3) s3(3) by blast
  note l3 = auth_frame_fields(8) [OF f]
  show "auth_frame ctx (auth_loops_n al b_pos xs ctx)"
    unfolding e using f auth_frame_trans [OF f auth_frame_step [OF l3]] by simp
  have "(b_pos + length xs) mod 12 = b3 mod 12"
    using s1(2,3) s2(1,2) s3(2) mod_add_cong [of "length us2" 12 0 "b_pos + length us1 + length ys2" "b_pos + length us1 + length ys2"]
    by (simp add: ac_simps)
  moreover have "auth_view b3 c3 = mac_bytes (zval ctx) (auth_view b_pos ctx) xs"
    using s1(2,7) s2(1,4) s3(4) auth_frame_fields(1) [OF s1(6)] auth_frame_fields(1) [OF s2(3)] by simp
  moreover have "auth_view b_pos ctx = (hash ctx, take b_pos (cwc_buf ctx))" by (rule auth_view_below [OF assms])
  moreover have "(hash (if b3 = 12 then cwc_step c3 else c3), take (b3 mod 12) (cwc_buf (if b3 = 12 then cwc_step c3 else c3))) =
      auth_view b3 c3"
    using s3(1) auth_view_full [OF l3] auth_view_below [OF l3, of b3] by auto
  ultimately show "(hash (auth_loops_n al b_pos xs ctx), take ((b_pos + length xs) mod 12) (cwc_buf (auth_loops_n al b_pos xs ctx))) =
      mac_bytes (zval ctx) (hash ctx, take b_pos (cwc_buf ctx)) xs"
    unfolding e by simp
qed

subsection \<open>The key stream, one byte at a time\<close>

text \<open>The state is the position in the block, the counter block and the encrypted counter block.\<close>

type_synonym ks_state = "nat \<times> byte list \<times> byte list"

definition ks_next :: "(byte list \<Rightarrow> byte list) \<Rightarrow> ks_state \<Rightarrow> ks_state" where
  "ks_next F = (\<lambda>(pos, ctr, ek). if pos = 0 then (let ctr = be_inc ctr CTR_POS in (0, ctr, F ctr)) else (pos, ctr, ek))"

fun ks_bytes :: "(byte list \<Rightarrow> byte list) \<Rightarrow> ks_state \<Rightarrow> byte list \<Rightarrow> byte list \<times> ks_state" where
  "ks_bytes F st [] = ([], st)"
| "ks_bytes F st (x # xs) =
    (let (pos, ctr, ek) = ks_next F st; r = ks_bytes F ((pos + 1) mod 16, ctr, ek) xs
     in ((x XOR ek ! pos) # fst r, snd r))"

lemma ks_bytes_append:
  "ks_bytes F st (xs @ ys) =
    (fst (ks_bytes F st xs) @ fst (ks_bytes F (snd (ks_bytes F st xs)) ys), snd (ks_bytes F (snd (ks_bytes F st xs)) ys))"
  by (induction xs arbitrary: st) (simp_all add: case_prod_beta Let_def)

lemma length_ks_bytes [simp, len_simps]: "length (fst (ks_bytes F st xs)) = length xs"
  by (induction xs arbitrary: st) (simp_all add: case_prod_beta Let_def)

text \<open>The stream does not depend on the text, so that it cancels.\<close>

lemma ks_bytes_involution:
  "ks_bytes F st (fst (ks_bytes F st xs)) = (xs, snd (ks_bytes F st xs))"
  by (induction xs arbitrary: st) (simp_all add: case_prod_beta Let_def)

lemma ks_next_pos: "0 < pos \<Longrightarrow> ks_next F (pos, ctr, ek) = (pos, ctr, ek)"
  by (simp add: ks_next_def)

text \<open>Bytes within a block that has been started.\<close>

lemma ks_bytes_within:
  "0 < pos \<Longrightarrow> pos + length xs \<le> 16 \<Longrightarrow>
    ks_bytes F (pos mod 16, ctr, ek) xs =
      (map (\<lambda>i. xs ! i XOR ek ! (pos + i)) [0..<length xs], ((pos + length xs) mod 16, ctr, ek))"
proof (induction xs arbitrary: pos)
  case (Cons x xs)
  then have "ks_next F (pos mod 16, ctr, ek) = (pos, ctr, ek)" by (simp add: ks_next_pos)
  moreover have "map (\<lambda>i. (x # xs) ! i XOR ek ! (pos + i)) [0..<length (x # xs)] =
      (x XOR ek ! pos) # map (\<lambda>i. xs ! i XOR ek ! (Suc pos + i)) [0..<length xs]"
    by (simp add: upt_conv_Cons map_Suc_upt [symmetric] o_def del: upt_Suc)
  ultimately show ?case using Cons.IH [of "Suc pos"] Cons.prems by (simp add: Let_def case_prod_beta)
qed simp

lemma ks_bytes_block:
  assumes "length xs = 16" "length (F (be_inc ctr CTR_POS)) = 16"
  shows "ks_bytes F (0, ctr, ek) xs = (xor_bytes xs (F (be_inc ctr CTR_POS)), 0, be_inc ctr CTR_POS, F (be_inc ctr CTR_POS))"
proof -
  obtain x ys where xs: "xs = x # ys" "length ys = 15" using assms(1) by (cases xs) auto
  obtain ek' where ek': "F (be_inc ctr CTR_POS) = ek'" by blast
  have "map (\<lambda>i. xs ! i XOR ek' ! i) [0..<16] = (x XOR ek' ! 0) # map (\<lambda>i. ys ! i XOR ek' ! (Suc i)) [0..<15]"
  proof -
    have "[0..<16] = 0 # map Suc [0..<15]" unfolding map_Suc_upt by (simp add: upt_rec)
    then show ?thesis by (simp only: list.map map_map o_def) (simp add: xs)
  qed
  moreover have "xor_bytes xs ek' = map (\<lambda>i. xs ! i XOR ek' ! i) [0..<16]"
    using assms ek' by (simp add: xor_bytes_def list_eq_iff_nth_eq)
  ultimately show ?thesis
    using ks_bytes_within [of 1 ys F "be_inc ctr CTR_POS" ek'] xs by (simp add: ks_next_def Let_def ek')
qed

subsection \<open>The encryption loops\<close>

definition crypt_view :: "nat \<Rightarrow> cwc_ctx \<Rightarrow> ks_state" where
  "crypt_view b_pos ctx = (b_pos mod 16, ctr_val ctx, enc_ctr ctx)"

text \<open>Only \<open>ctr_val\<close> and \<open>enc_ctr\<close> have changed, on a context keyed with \<open>key\<close>.\<close>

definition crypt_frame :: "byte list \<Rightarrow> cwc_ctx \<Rightarrow> cwc_ctx \<Rightarrow> bool" where
  "crypt_frame key ctx ctx' \<longleftrightarrow>
    ctx' = ctx\<lparr>ctr_val := ctr_val ctx', enc_ctr := enc_ctr ctx'\<rparr> \<and> enc_keyed key (enc_ctx ctx) \<and>
    length (ctr_val ctx) = 16 \<and> length (enc_ctr ctx) = 16 \<and> length (ctr_val ctx') = 16 \<and> length (enc_ctr ctx') = 16"

lemma crypt_frame_trans [trans]: "crypt_frame key a b \<Longrightarrow> crypt_frame key b c \<Longrightarrow> crypt_frame key a c"
  unfolding crypt_frame_def by (cases a, cases b, cases c) simp

lemma crypt_frame_refl: "crypt_frame key a a \<longleftrightarrow> enc_keyed key (enc_ctx a) \<and> length (ctr_val a) = 16 \<and> length (enc_ctr a) = 16"
  by (auto simp: crypt_frame_def)

lemma crypt_frame_right: "crypt_frame key a b \<Longrightarrow> crypt_frame key b b"
  unfolding crypt_frame_def by (cases a, cases b) simp

lemma crypt_frame_fields:
  assumes "crypt_frame key a b"
  shows "zval b = zval a" "cwc_buf b = cwc_buf a" "hash b = hash a" "enc_ctx b = enc_ctx a"
    "hdr_cnt b = hdr_cnt a" "txt_acnt b = txt_acnt a" "txt_ccnt b = txt_ccnt a"
    "length (ctr_val b) = 16" "length (enc_ctr b) = 16" "enc_keyed key (enc_ctx b)"
  using assms unfolding crypt_frame_def by (cases a, cases b, simp)+

lemma length_be_inc [simp, len_simps]: "length (be_inc x n) = length x"
  by (simp add: be_inc_def Let_def)

lemma encrypt_to_keyed: "enc_keyed key cx \<Longrightarrow> length b = 16 \<Longrightarrow> encrypt_to b out cx = aes_cipher key b"
  by (simp add: encrypt_to_def aes.enc_E)

lemma next_key:
  assumes "crypt_frame key ctx ctx"
  shows "next_key ctx = ctx\<lparr>ctr_val := be_inc (ctr_val ctx) CTR_POS, enc_ctr := aes_cipher key (be_inc (ctr_val ctx) CTR_POS)\<rparr>"
    and "crypt_frame key ctx (next_key ctx)"
    and "crypt_view 0 (next_key ctx) = ks_next (aes_cipher key) (crypt_view 0 ctx)"
proof -
  note f = assms [unfolded crypt_frame_refl]
  show e: "next_key ctx = ctx\<lparr>ctr_val := be_inc (ctr_val ctx) CTR_POS, enc_ctr := aes_cipher key (be_inc (ctr_val ctx) CTR_POS)\<rparr>"
    using f by (simp add: next_key_def Let_def encrypt_to_keyed)
  show "crypt_frame key ctx (next_key ctx)"
    using f aes.length_E [of key "enc_ctx ctx" "be_inc (ctr_val ctx) CTR_POS"] by (simp add: crypt_frame_def e)
  show "crypt_view 0 (next_key ctx) = ks_next (aes_cipher key) (crypt_view 0 ctx)"
    by (simp add: e crypt_view_def ks_next_def Let_def)
qed

lemma crypt_bytes_inv:
  assumes "\<And>b. cond b \<Longrightarrow> b \<le> 16 \<Longrightarrow> b < 16"
  shows "0 < b_pos \<Longrightarrow> b_pos \<le> 16 \<Longrightarrow> crypt_bytes cond ek b_pos xs = (b', out, ys) \<Longrightarrow>
    \<exists>us. xs = us @ ys \<and> b' = b_pos + length us \<and> b' \<le> 16 \<and> (ys = [] \<or> \<not> cond b') \<and>
      out = map (\<lambda>i. us ! i XOR ek ! (b_pos + i)) [0..<length us]"
proof (induction xs arbitrary: b_pos out)
  case (Cons x xs)
  show ?case
  proof (cases "cond b_pos")
    case True
    then have b: "b_pos < 16" using assms Cons.prems(2) by blast
    obtain out' where o: "crypt_bytes cond ek (b_pos + 1) xs = (b', out', ys)" "out = (x XOR ek ! b_pos) # out'"
      using Cons.prems(3) True by (auto split: prod.splits)
    from Cons.IH [OF _ _ o(1)] b obtain us where us: "xs = us @ ys" "b' = b_pos + 1 + length us" "b' \<le> 16" "ys = [] \<or> \<not> cond b'"
      "out' = map (\<lambda>i. us ! i XOR ek ! (b_pos + 1 + i)) [0..<length us]" by auto
    have "out = map (\<lambda>i. (x # us) ! i XOR ek ! (b_pos + i)) [0..<length (x # us)]"
      unfolding o(2) us(5) by (simp add: upt_conv_Cons map_Suc_upt [symmetric] o_def del: upt_Suc)
    with us(1-4) show ?thesis by (intro exI [of _ "x # us"]) simp
  next
    case False
    then show ?thesis using Cons.prems by simp
  qed
qed auto

lemma crypt_units_inv:
  "0 < b_pos \<Longrightarrow> b_pos \<le> 16 \<Longrightarrow> length ek = 16 \<Longrightarrow> crypt_units_n ek b_pos xs = (b', out, ys) \<Longrightarrow>
    \<exists>us. xs = us @ ys \<and> b' = b_pos + length us \<and> length us mod 4 = 0 \<and> b' \<le> 16 \<and> (length ys < 4 \<or> 12 < b') \<and>
      out = map (\<lambda>i. us ! i XOR ek ! (b_pos + i)) [0..<length us]"
proof (induction ek b_pos xs arbitrary: out rule: crypt_units_n.induct)
  case (1 ek b_pos xs)
  show ?case
  proof (cases "4 \<le> length xs \<and> b_pos \<le> CWC_CBLK_SIZE - 4")
    case True
    then have b: "4 \<le> length xs" "b_pos \<le> 12" by (simp_all add: CWC_CBLK_SIZE_def)
    obtain x0 x1 x2 x3 xs' where xs: "xs = x0 # x1 # x2 # x3 # xs'" using b(1) by (rule list_ge4_exhaust)
    obtain out' where o: "crypt_units_n ek (b_pos + 4) (drop 4 xs) = (b', out', ys)"
      "out = word_out (word_in xs 0 XOR word_in (drop b_pos ek) 0) @ out'"
      using "1.prems"(4) True unfolding crypt_units_n.simps [of ek b_pos xs] by (auto split: prod.splits)
    have ekl: "length ek = 16" by (rule "1.prems"(3))
    from "1.IH" [OF True _ _ ekl o(1)] b obtain us where us: "drop 4 xs = us @ ys" "b' = b_pos + 4 + length us" "length us mod 4 = 0"
      "b' \<le> 16" "length ys < 4 \<or> 12 < b'" "out' = map (\<lambda>i. us ! i XOR ek ! (b_pos + 4 + i)) [0..<length us]" by auto
    let ?us = "[x0, x1, x2, x3] @ us"
    have "word_out (word_in xs 0 XOR word_in (drop b_pos ek) 0) =
        [x0 XOR ek ! b_pos, x1 XOR ek ! (b_pos + 1), x2 XOR ek ! (b_pos + 2), x3 XOR ek ! (b_pos + 3)]"
      using b(2) "1.prems"(3) by (simp add: xs word_out_xor word_out_word_in_bytes)
    then have "out = map (\<lambda>i. ?us ! i XOR ek ! (b_pos + i)) [0..<length ?us]"
      unfolding o(2) us(6)
      by (simp add: upt_conv_Cons map_Suc_upt [symmetric] o_def eval_nat_numeral del: upt_Suc)
    moreover have "xs = ?us @ ys" using us(1) by (simp add: xs)
    ultimately show ?thesis using us(2-5) by (intro exI [of _ ?us]) simp
  next
    case False
    then have e: "b' = b_pos" "ys = xs" "out = []" using "1.prems"(4) by (subst (asm) crypt_units_n.simps; simp)+
    show ?thesis unfolding e using False "1.prems"(2) by (auto simp: CWC_CBLK_SIZE_def)
  qed
qed

lemma crypt_blocks_inv:
  "crypt_frame key ctx ctx \<Longrightarrow> 16 \<le> length xs \<longrightarrow> b_pos mod 16 = 0 \<Longrightarrow> crypt_blocks_n al xs ctx = (out, ys, ctx') \<Longrightarrow>
    \<exists>us. xs = us @ ys \<and> length us mod 16 = 0 \<and> length ys < 16 \<and> crypt_frame key ctx ctx' \<and>
      ks_bytes (aes_cipher key) (crypt_view b_pos ctx) us = (out, crypt_view b_pos ctx')"
proof (induction al xs ctx arbitrary: out rule: crypt_blocks_n.induct)
  case (1 al xs ctx)
  show ?case
  proof (cases "CWC_CBLK_SIZE \<le> length xs")
    case True
    then have b: "16 \<le> length xs" "b_pos mod 16 = 0" using "1.prems"(2) by (simp_all add: CWC_CBLK_SIZE_def)
    let ?c = "next_key ctx" and ?x = "take 16 xs"
    note nk = next_key [OF "1.prems"(1)]
    have fc: "crypt_frame key ?c ?c" by (rule crypt_frame_right [OF nk(2)])
    have y: "(if al then xor_block_aligned 32 ?x (enc_ctr ?c) else xor_block8 ?x (enc_ctr ?c)) = xor_bytes ?x (enc_ctr ?c)"
      using b(1) crypt_frame_fields(9) [OF nk(2)] by (simp add: xor_block_aligned xor_block8)
    obtain out' where o: "crypt_blocks_n al (drop 16 xs) ?c = (out', ys, ctx')" "out = xor_bytes ?x (enc_ctr ?c) @ out'"
      using "1.prems"(3) True unfolding crypt_blocks_n.simps [of al xs ctx] Let_def
      by (simp only: if_True CWC_CBLK_SIZE_def y) (auto split: prod.splits)
    from "1.IH" [OF True refl refl fc _ o(1) [folded CWC_CBLK_SIZE_def]] b(2)
    obtain us where us: "drop 16 xs = us @ ys" "length us mod 16 = 0" "length ys < 16" "crypt_frame key ?c ctx'"
      "ks_bytes (aes_cipher key) (crypt_view b_pos ?c) us = (out', crypt_view b_pos ctx')"
      by (auto simp: CWC_CBLK_SIZE_def)
    have "ks_bytes (aes_cipher key) (crypt_view b_pos ctx) ?x = (xor_bytes ?x (enc_ctr ?c), crypt_view b_pos ?c)"
      using ks_bytes_block [of ?x "aes_cipher key" "ctr_val ctx" "enc_ctr ctx"] b crypt_frame_fields(9) [OF nk(2)]
      by (simp add: crypt_view_def nk(1))
    then have "ks_bytes (aes_cipher key) (crypt_view b_pos ctx) (?x @ us) = (out, crypt_view b_pos ctx')"
      using us(5) o(2) by (simp add: ks_bytes_append)
    moreover have "xs = (?x @ us) @ ys" using us(1) by (metis append.assoc append_take_drop_id)
    moreover have "length (?x @ us) = 16 + length us" using b by simp
    moreover have "crypt_frame key ctx ctx'" by (rule crypt_frame_trans [OF nk(2) us(4)])
    ultimately show ?thesis using us(2,3) by (intro exI [of _ "?x @ us"]) simp
  next
    case False
    then have e: "ys = xs" "ctx' = ctx" "out = []" using "1.prems"(3) by (subst (asm) crypt_blocks_n.simps; simp)+
    show ?thesis unfolding e using False "1.prems"(1) by (auto simp: CWC_CBLK_SIZE_def)
  qed
qed

lemma crypt_tail_inv:
  "crypt_frame key ctx ctx \<Longrightarrow> b_pos \<le> 16 \<Longrightarrow> crypt_tail b_pos xs ctx = (out, ctx') \<Longrightarrow>
    crypt_frame key ctx ctx' \<and>
    ks_bytes (aes_cipher key) (crypt_view b_pos ctx) xs = (out, crypt_view (b_pos + length xs) ctx')"
proof (induction xs arbitrary: b_pos ctx out)
  case (Cons x xs)
  obtain b c where c: "(if b_pos = CWC_CBLK_SIZE \<or> b_pos = 0 then (0, next_key ctx) else (b_pos, ctx)) = (b, c)" by fastforce
  note nk = next_key [OF Cons.prems(1)]
  have cb: "b < 16" "crypt_frame key ctx c" "ks_next (aes_cipher key) (crypt_view b_pos ctx) = (b, ctr_val c, enc_ctr c)"
    "b mod 16 = b_pos mod 16"
    using c Cons.prems(1,2) nk(2,3)
    by (auto simp: CWC_CBLK_SIZE_def crypt_view_def ks_next_pos split: if_splits)
  note fc = crypt_frame_right [OF cb(2)]
  obtain out' where o: "crypt_tail (b + 1) xs c = (out', ctx')" "out = (x XOR enc_ctr c ! b) # out'"
    using Cons.prems(3) unfolding crypt_tail.simps c by (auto split: prod.splits)
  have ih: "crypt_frame key c ctx'"
    "ks_bytes (aes_cipher key) (crypt_view (b + 1) c) xs = (out', crypt_view (b + 1 + length xs) ctx')"
    using Cons.IH [OF fc _ o(1)] cb(1) by auto
  have "(b + 1 + length xs) mod 16 = (b_pos + length (x # xs)) mod 16"
    using cb(4) mod_add_cong [of b 16 b_pos "1 + length xs" "1 + length xs"] by simp
  then have "crypt_view (b + 1 + length xs) ctx' = crypt_view (b_pos + length (x # xs)) ctx'"
    by (simp only: crypt_view_def)
  then show ?case
    using ih cb(3) crypt_frame_trans [OF cb(2) ih(1)] by (simp add: o(2) crypt_view_def Let_def)
qed (simp add: crypt_view_def crypt_frame_refl)

text \<open>The first step of \<open>cwc_crypt_data_n\<close>, in a block that has been started.\<close>

lemma crypt_start:
  assumes "b_pos < 16" "length ek = 16"
    and "(if b_pos = 0 then (b_pos, [], data)
          else if al then
            (case crypt_bytes (\<lambda>b_pos. b_pos mod 4 \<noteq> 0) ek b_pos data of
               (b_pos, out, xs) \<Rightarrow> (case crypt_units_n ek b_pos xs of (b_pos, out', xs) \<Rightarrow> (b_pos, out @ out', xs)))
          else crypt_bytes (\<lambda>b_pos. b_pos < CWC_CBLK_SIZE) ek b_pos data) = (b1, out1, xs)" (is "?lhs = _")
  shows "\<exists>us. data = us @ xs \<and> b1 = b_pos + length us \<and> b1 \<le> 16 \<and> (16 \<le> length xs \<longrightarrow> b1 mod 16 = 0) \<and>
      ks_bytes F (b_pos mod 16, ctr, ek) us = (out1, b1 mod 16, ctr, ek)"
proof (cases "b_pos = 0")
  case True
  then show ?thesis using assms by simp
next
  case False
  then have p: "0 < b_pos" "b_pos \<le> 16" using assms(1) by simp_all
  have "\<exists>us. data = us @ xs \<and> b1 = b_pos + length us \<and> b1 \<le> 16 \<and> (16 \<le> length xs \<longrightarrow> b1 mod 16 = 0) \<and>
      out1 = map (\<lambda>i. us ! i XOR ek ! (b_pos + i)) [0..<length us]"
  proof (cases al)
    case True
    obtain b0 o0 ys0 where r0: "crypt_bytes (\<lambda>b_pos. b_pos mod 4 \<noteq> 0) ek b_pos data = (b0, o0, ys0)" by (metis prod_cases3)
    have c: "b < 16" if "b mod 4 \<noteq> 0" "b \<le> 16" for b :: nat using that by (cases "b = 16") simp_all
    from crypt_bytes_inv [OF c p r0] obtain us0 where s0: "data = us0 @ ys0" "b0 = b_pos + length us0" "b0 \<le> 16"
      "ys0 = [] \<or> b0 mod 4 = 0" "o0 = map (\<lambda>i. us0 ! i XOR ek ! (b_pos + i)) [0..<length us0]" by auto
    obtain b2 o2 ys2 where r2: "crypt_units_n ek b0 ys0 = (b2, o2, ys2)" by (metis prod_cases3)
    have e: "b1 = b2" "out1 = o0 @ o2" "xs = ys2"
      using assms(3) False True by (simp_all only: if_True if_False r0 r2 prod.case prod.inject)
    have b0: "0 < b0" using s0(2) p(1) by simp
    from crypt_units_inv [OF b0 s0(3) assms(2) r2] obtain us2 where s2: "ys0 = us2 @ ys2" "b2 = b0 + length us2"
      "length us2 mod 4 = 0" "b2 \<le> 16" "length ys2 < 4 \<or> 12 < b2" "o2 = map (\<lambda>i. us2 ! i XOR ek ! (b0 + i)) [0..<length us2]"
      by (elim exE conjE) (rule that)
    have "b2 = 16" if "16 \<le> length ys2"
    proof -
      have "b2 mod 4 = 0" using that s0(4) s2(1,2,3) mod_add_cong [of b0 4 0 "length us2" 0] by auto
      moreover have "12 < b2" using s2(5) that by simp
      ultimately show ?thesis using s2(4) by presburger
    qed
    moreover have "out1 = map (\<lambda>i. (us0 @ us2) ! i XOR ek ! (b_pos + i)) [0..<length (us0 @ us2)]"
      unfolding e s0(5) s2(6) s0(2) by (rule nth_equalityI) (auto simp: nth_append)
    ultimately show ?thesis using s0(1,2) s2(1,2,4) e by (intro exI [of _ "us0 @ us2"]) auto
  next
    case al: False
    have r1: "crypt_bytes (\<lambda>b_pos. b_pos < CWC_CBLK_SIZE) ek b_pos data = (b1, out1, xs)"
      using assms(3) False al by simp
    have c: "b < 16" if "b < CWC_CBLK_SIZE" "b \<le> 16" for b using that by (simp add: CWC_CBLK_SIZE_def)
    from crypt_bytes_inv [OF c p r1] show ?thesis by (auto simp: CWC_CBLK_SIZE_def)
  qed
  then show ?thesis using ks_bytes_within [OF p(1), of _ F ctr ek] by auto
qed

lemma cwc_crypt_data_spec:
  assumes f: "crypt_frame key ctx ctx"
  obtains out ctx' where "cwc_crypt_data_n al data ctx = (RETURN_GOOD, out, ctx'\<lparr>txt_ccnt := txt_ccnt ctx + of_nat (length data)\<rparr>)"
    "crypt_frame key ctx ctx'"
    "ks_bytes (aes_cipher key) (crypt_view (unat (txt_ccnt ctx) mod 16) ctx) data =
      (out, crypt_view (unat (txt_ccnt ctx) mod 16 + length data) ctx')"
proof (cases "data = []")
  case True
  then show ?thesis using that [of "[]" ctx] f by (simp add: cwc_crypt_data_n_def)
next
  case False
  let ?b = "unat (txt_ccnt ctx) mod 16" and ?F = "aes_cipher key"
  obtain b1 out1 xs1 where r1: "(if ?b = 0 then (?b, [], data)
          else if al then
            (case crypt_bytes (\<lambda>b_pos. b_pos mod 4 \<noteq> 0) (enc_ctr ctx) ?b data of
               (b_pos, out, xs) \<Rightarrow> (case crypt_units_n (enc_ctr ctx) b_pos xs of (b_pos, out', xs) \<Rightarrow> (b_pos, out @ out', xs)))
          else crypt_bytes (\<lambda>b_pos. b_pos < CWC_CBLK_SIZE) (enc_ctr ctx) ?b data) = (b1, out1, xs1)" by (metis prod_cases3)
  have b: "?b < 16" by simp
  from crypt_start [OF b crypt_frame_fields(9) [OF f] r1, of ?F "ctr_val ctx"] obtain us1 where
    s1: "data = us1 @ xs1" "b1 = ?b + length us1" "b1 \<le> 16" "16 \<le> length xs1 \<longrightarrow> b1 mod 16 = 0"
    "ks_bytes ?F (?b mod 16, ctr_val ctx, enc_ctr ctx) us1 = (out1, b1 mod 16, ctr_val ctx, enc_ctr ctx)"
    by (elim exE conjE) (rule that)
  obtain out2 xs2 c2 where r2: "crypt_blocks_n al xs1 ctx = (out2, xs2, c2)" by (metis prod_cases3)
  from crypt_blocks_inv [OF f s1(4) r2] obtain us2 where s2: "xs1 = us2 @ xs2" "length us2 mod 16 = 0" "length xs2 < 16"
    "crypt_frame key ctx c2" "ks_bytes ?F (crypt_view b1 ctx) us2 = (out2, crypt_view b1 c2)"
    by (elim exE conjE) (rule that)
  obtain out3 c3 where r3: "crypt_tail b1 xs2 c2 = (out3, c3)" by fastforce
  note s3 = crypt_tail_inv [OF crypt_frame_right [OF s2(4)] s1(3) r3]
  have f3: "crypt_frame key ctx c3" using s3 crypt_frame_trans [OF s2(4)] by blast
  have e: "cwc_crypt_data_n al data ctx =
      (RETURN_GOOD, out1 @ out2 @ out3, c3\<lparr>txt_ccnt := txt_ccnt ctx + of_nat (length data)\<rparr>)"
    unfolding cwc_crypt_data_n_def Let_def CWC_CBLK_SIZE_def r1 [unfolded CWC_CBLK_SIZE_def]
    using False crypt_frame_fields(7) [OF f3] by (simp add: r2 r3)
  have m: "(b1 + length xs2) mod 16 = (?b + length data) mod 16"
    using s1(1,2) s2(1,2) mod_add_cong [of "length us2" 16 0 "?b + length us1 + length xs2" "?b + length us1 + length xs2"]
    by (simp add: ac_simps)
  have v: "crypt_view (b1 + length xs2) c3 = crypt_view (?b + length data) c3"
    unfolding crypt_view_def m ..
  have d: "data = us1 @ us2 @ xs2" using s1(1) s2(1) by simp
  have k: "ks_bytes ?F (crypt_view ?b ctx) data = (out1 @ out2 @ out3, crypt_view (?b + length data) c3)"
    unfolding d ks_bytes_append using s1(5) s2(5) s3 v [unfolded d] by (simp add: crypt_view_def)
  show ?thesis by (rule that [OF e f3 k])
qed

subsection \<open>The counters\<close>

text \<open>
  From \<open>b_pos\<close> in a block, the loops stay within a buffer of \<open>n\<close> bytes when the last test
  of the loop over blocks does not wrap: \<open>cnt\<close> is then the number of bytes up to the last
  boundary of a block.
\<close>

definition cnt_fits :: "nat \<Rightarrow> nat \<Rightarrow> nat \<Rightarrow> bool" where
  "cnt_fits blk b_pos n \<longleftrightarrow> n - (b_pos + n) mod blk + blk < 2 ^ 32"

lemma cnt_fits_sum: "m + n < 2 ^ 32 - blk \<Longrightarrow> cnt_fits blk (m mod blk) n"
  by (simp add: cnt_fits_def mod_simps)

text \<open>The last multiple of 12 below \<open>2^32\<close> is \<open>2^32 - 4\<close>.\<close>

lemma cnt_fits_12:
  assumes "m + n < 4294967292"
  shows "cnt_fits 12 (m mod 12) n"
proof -
  have "(m + n) - (m + n) mod 12 = 12 * ((m + n) div 12)" by (simp add: minus_mod_eq_mult_div)
  moreover have "(m + n) div 12 < 357913941" using assms by (simp add: div_less_iff_less_mult)
  moreover have "n - (m + n) mod 12 \<le> (m + n) - (m + n) mod 12" by (rule diff_le_mono) simp
  ultimately have "n - (m + n) mod 12 + 12 < 4294967296" by linarith
  then show ?thesis by (simp add: cnt_fits_def mod_simps)
qed

lemma cnt_fits_start: "cnt_fits 12 0 n \<longleftrightarrow> n < 4294967292" "cnt_fits 16 0 n \<longleftrightarrow> n < 4294967280"
proof -
  have d: "n - n mod 12 = 12 * (n div 12)" "n - n mod 16 = 16 * (n div 16)" by (simp_all add: minus_mod_eq_mult_div)
  have q: "n div 12 < 357913941 \<longleftrightarrow> n < 4294967292" "n div 16 < 268435455 \<longleftrightarrow> n < 4294967280"
    by (simp_all add: div_less_iff_less_mult)
  have "12 * (n div 12) + 12 < 4294967296 \<longleftrightarrow> n div 12 < 357913941" by linarith
  then show "cnt_fits 12 0 n \<longleftrightarrow> n < 4294967292" by (simp add: cnt_fits_def d q)
  have "16 * (n div 16) + 16 < 4294967296 \<longleftrightarrow> n div 16 < 268435455" by linarith
  then show "cnt_fits 16 0 n \<longleftrightarrow> n < 4294967280" by (simp add: cnt_fits_def d q)
qed

lemma unat_add_of_nat:
  "unat (w :: u32) + n < 2 ^ 32 \<Longrightarrow> unat (w + of_nat n) = unat w + n"
  by (simp add: unat_add_u32 unsigned_of_nat take_bit_nat_def)

lemma cnt_step:
  assumes "unat cnt + length xs = unat (len :: u32)" "k \<le> length xs"
  shows "unat (cnt + of_nat k) + length (drop k xs) = unat len" "cnt + of_nat k \<le> len"
proof -
  have "unat cnt + k < 2 ^ 32" using assms unat_u32 [of len] by simp
  then have u: "unat (cnt + of_nat k) = unat cnt + k" by (simp add: unat_add_of_nat)
  then show "unat (cnt + of_nat k) + length (drop k xs) = unat len" "cnt + of_nat k \<le> len"
    using assms by (simp_all add: word_le_nat_alt)
qed

text \<open>With less than \<open>k\<close> bytes left the test fails, unless it wraps.\<close>

lemma cnt_stop:
  assumes "unat cnt + length xs = unat (len :: u32)" "length xs < k" "k \<le> 16"
  shows "cnt + of_nat k \<le> len \<longleftrightarrow> 2 ^ 32 \<le> unat cnt + k"
proof (cases "unat cnt + k < 2 ^ 32")
  case True
  then have u: "unat (cnt + of_nat k) = unat cnt + k" by (simp add: unat_add_of_nat)
  show ?thesis using True assms by (simp add: word_le_nat_alt u)
next
  case False
  have "unat (cnt + of_nat k) = (unat cnt + k) mod 2 ^ 32"
    using assms(3) by (simp add: unat_word_ariths unsigned_of_nat take_bit_nat_def)
  also have "\<dots> = unat cnt + k - 2 ^ 32"
    using False unat_u32 [of cnt] assms(3) by (simp add: mod_if)
  finally show ?thesis using False unat_u32 [of cnt] assms(1,3) by (simp add: word_le_nat_alt)
qed

lemma auth_units_n:
  "unat cnt + length xs = unat len \<Longrightarrow> unat cnt \<le> b_pos \<Longrightarrow> auth_units_n b_pos xs ctx = (b', ys, ctx') \<Longrightarrow>
    \<exists>cnt'. auth_units len cnt b_pos xs ctx = Some (cnt', b', ys, ctx') \<and> unat cnt' + length ys = unat len"
proof (induction b_pos xs ctx arbitrary: cnt rule: auth_units_n.induct)
  case (1 b_pos xs ctx)
  show ?case
  proof (cases "4 \<le> length xs \<and> b_pos \<le> CWC_ABLK_SIZE - 4")
    case True
    note st = cnt_step [OF "1.prems"(1), of 4, simplified, OF conjunct1 [OF True]]
    have "unat (cnt + 4) \<le> b_pos + 4" using st(1) "1.prems"(1,2) True by simp
    with "1.IH" [OF True, of "cnt + 4"] st "1.prems"(3) True show ?thesis
      by (simp add: auth_units.simps [of len cnt] auth_units_n.simps [of b_pos xs])
  next
    case False
    have n: "\<not> (cnt + 4 \<le> len \<and> b_pos \<le> CWC_ABLK_SIZE - 4)"
    proof (cases "b_pos \<le> CWC_ABLK_SIZE - 4")
      case True
      then show ?thesis
        using False cnt_stop [OF "1.prems"(1), of 4] "1.prems"(2) by (simp add: CWC_ABLK_SIZE_def)
    qed simp
    then show ?thesis
      using False "1.prems"(1,3) by (subst auth_units.simps) (auto simp: auth_units_n.simps [of b_pos xs])
  qed
qed

lemma auth_blocks_n:
  "unat cnt + length xs = unat len \<Longrightarrow>
    auth_blocks len cnt xs ctx =
      (if unat len - length xs mod 12 + 12 < 2 ^ 32 then Some (auth_blocks_n xs ctx) else None)"
proof (induction xs ctx arbitrary: cnt rule: auth_blocks_n.induct)
  case (1 xs ctx)
  show ?case
  proof (cases "CWC_ABLK_SIZE \<le> length xs")
    case True
    then have l: "12 \<le> length xs" by (simp add: CWC_ABLK_SIZE_def)
    have st: "unat (cnt + 12) + length (drop 12 xs) = unat len" "cnt + 12 \<le> len"
      using cnt_step [OF "1.prems"(1) l] by simp_all
    obtain P where P: "(unat len - length xs mod 12 + 12 < 2 ^ 32) = P" by blast
    have m: "length (drop 12 xs) mod 12 = length xs mod 12" using l by (metis le_add_diff_inverse length_drop mod_add_self1)
    show ?thesis
      using "1.IH" [OF True refl st(1) [folded CWC_ABLK_SIZE_def], unfolded CWC_ABLK_SIZE_def m P] st(2) l
      unfolding P by (simp add: auth_blocks.simps [of len cnt] auth_blocks_n.simps [of xs] CWC_ABLK_SIZE_def Let_def)
  next
    case False
    then have l: "length xs < 12" by (simp add: CWC_ABLK_SIZE_def)
    then have "unat len - length xs mod 12 = unat cnt" using "1.prems" by simp
    then show ?thesis
      using l cnt_stop [OF "1.prems" l]
      by (subst auth_blocks.simps, subst auth_blocks_n.simps) (simp add: CWC_ABLK_SIZE_def not_less)
  qed
qed

lemma auth_loops_n:
  assumes "length (cwc_buf ctx) = 16" "b_pos < 12" "length data < 2 ^ 32"
  shows "auth_loops al b_pos data ctx =
    (if cnt_fits 12 b_pos (length data) then Some (auth_loops_n al b_pos data ctx) else None)"
proof -
  let ?len = "of_nat (length data) :: u32"
  have b12: "b_pos \<le> 12" using assms(2) by simp
  have len: "unat ?len = length data" using assms(3) by (simp add: unsigned_of_nat take_bit_nat_def)
  obtain cnt b1 ys1 c1 where s1:
    "(if al then (case auth_bytes (\<lambda>b_pos. b_pos mod 4 \<noteq> 0) b_pos data ctx of
        (b_pos, xs, ctx) \<Rightarrow> auth_units ?len (of_nat (length data - length xs)) b_pos xs ctx)
      else (case auth_bytes (\<lambda>b_pos. b_pos < CWC_ABLK_SIZE) b_pos data ctx of
        (b_pos, xs, ctx) \<Rightarrow> Some (of_nat (length data - length xs), b_pos, xs, ctx))) = Some (cnt, b1, ys1, c1)"
    "(if al then (case auth_bytes (\<lambda>b_pos. b_pos mod 4 \<noteq> 0) b_pos data ctx of (b_pos, xs, ctx) \<Rightarrow> auth_units_n b_pos xs ctx)
      else auth_bytes (\<lambda>b_pos. b_pos < CWC_ABLK_SIZE) b_pos data ctx) = (b1, ys1, c1)"
    "unat cnt + length ys1 = unat ?len" "b1 + length ys1 = b_pos + length data" "12 \<le> length ys1 \<longrightarrow> b1 = 12" "b1 \<le> 12"
  proof (cases al)
    case True
    obtain b0 ys0 c0 where r0: "auth_bytes (\<lambda>b_pos. b_pos mod 4 \<noteq> 0) b_pos data ctx = (b0, ys0, c0)" by (metis prod_cases3)
    have "b < 12" if "b mod 4 \<noteq> 0" "b \<le> 12" for b :: nat using that by (cases "b = 12") simp_all
    from auth_bytes_inv [OF this assms(1) b12 r0] obtain us0 where s0: "data = us0 @ ys0" "b0 = b_pos + length us0" "b0 \<le> 12"
      "ys0 = [] \<or> b0 mod 4 = 0" "auth_frame ctx c0" by auto
    obtain b1 ys1 c1 where r1: "auth_units_n b0 ys0 c0 = (b1, ys1, c1)" by (metis prod_cases3)
    from auth_units_inv [OF auth_frame_fields(8) [OF s0(5)] s0(3) r1] obtain us1 where u1: "ys0 = us1 @ ys1"
      "b1 = b0 + length us1" "length us1 mod 4 = 0" "b1 \<le> 12" "length ys1 < 4 \<or> 8 < b1" by (elim exE conjE) (rule that)
    have b1: "b1 = 12" if "12 \<le> length ys1"
    proof -
      have "b1 mod 4 = 0" using that s0(4) u1(1,2,3) mod_add_cong [of b0 4 0 "length us1" 0] by auto
      moreover have "8 < b1" using u1(5) that by simp
      ultimately show ?thesis using u1(4) by presburger
    qed
    have c: "unat (of_nat (length us0) :: u32) = length us0"
      using s0(1) assms(3) by (simp add: unsigned_of_nat take_bit_nat_def)
    have "length data - length ys0 = length us0" by (simp add: s0(1))
    moreover have l0: "unat (of_nat (length us0) :: u32) + length ys0 = unat ?len" unfolding c len by (simp add: s0(1))
    ultimately obtain cnt where "auth_units ?len (of_nat (length data - length ys0)) b0 ys0 c0 = Some (cnt, b1, ys1, c1)"
      "unat cnt + length ys1 = unat ?len" using auth_units_n [OF l0 _ r1] s0(2) c by auto
    then show ?thesis using that [of cnt b1 ys1 c1] True r0 r1 b1 s0(1,2) u1(1,2,4) by simp
  next
    case False
    obtain b1 ys1 c1 where r1: "auth_bytes (\<lambda>b_pos. b_pos < CWC_ABLK_SIZE) b_pos data ctx = (b1, ys1, c1)" by (metis prod_cases3)
    have "b < 12" if "b < CWC_ABLK_SIZE" "b \<le> 12" for b using that by (simp add: CWC_ABLK_SIZE_def)
    from auth_bytes_inv [where cond = "\<lambda>b_pos. b_pos < CWC_ABLK_SIZE", OF this assms(1) b12 r1] obtain us1
      where u1: "data = us1 @ ys1" "b1 = b_pos + length us1" "b1 \<le> 12" "ys1 = [] \<or> \<not> b1 < CWC_ABLK_SIZE" by auto
    have "length data - length ys1 = length us1" by (simp add: u1(1))
    moreover have "unat (of_nat (length us1) :: u32) = length us1"
      using u1(1) assms(3) by (simp add: unsigned_of_nat take_bit_nat_def)
    moreover have "12 \<le> length ys1 \<longrightarrow> b1 = 12" using u1(3,4) by (auto simp: CWC_ABLK_SIZE_def)
    ultimately show ?thesis using that [of "of_nat (length us1)" b1 ys1 c1] False r1 u1(1-3) len by simp
  qed
  obtain ys2 c2 where r2: "auth_blocks_n ys1 c1 = (ys2, c2)" by fastforce
  obtain b3 c3 where r3: "auth_tail b1 ys2 c2 = (b3, c3)" by fastforce
  have n: "auth_loops_n al b_pos data ctx = (if b3 = CWC_ABLK_SIZE then cwc_step c3 else c3)"
    unfolding auth_loops_n_def s1(2) Let_def prod.case r2 r3 ..
  have e: "unat ?len - length ys1 mod 12 + 12 < 2 ^ 32 \<longleftrightarrow> cnt_fits 12 b_pos (length data)"
  proof (cases "12 \<le> length ys1")
    case True
    have "(b_pos + length data) mod 12 = length ys1 mod 12" using s1(4,5) True by (metis mod_add_self1)
    then show ?thesis unfolding cnt_fits_def len by simp
  next
    case False
    then have "length data < 24" using s1(4,6) by simp
    then show ?thesis unfolding cnt_fits_def len by (simp add: less_imp_diff_less)
  qed
  note bl = auth_blocks_n [OF s1(3), of c1, unfolded e r2]
  show ?thesis unfolding n auth_loops_def Let_def s1(1) by (simp add: bl r3)
qed

lemma crypt_units_n:
  "unat cnt + length xs = unat len \<Longrightarrow> unat cnt \<le> b_pos \<Longrightarrow> crypt_units_n ek b_pos xs = (b', out, ys) \<Longrightarrow>
    \<exists>cnt'. crypt_units ek len cnt b_pos xs = Some (cnt', b', out, ys) \<and> unat cnt' + length ys = unat len"
proof (induction ek b_pos xs arbitrary: cnt out rule: crypt_units_n.induct)
  case (1 ek b_pos xs)
  show ?case
  proof (cases "4 \<le> length xs \<and> b_pos \<le> CWC_CBLK_SIZE - 4")
    case True
    note st = cnt_step [OF "1.prems"(1), of 4, simplified, OF conjunct1 [OF True]]
    obtain out' where o: "crypt_units_n ek (b_pos + 4) (drop 4 xs) = (b', out', ys)"
      "out = word_out (word_in xs 0 XOR word_in (drop b_pos ek) 0) @ out'"
      using "1.prems"(3) True unfolding crypt_units_n.simps [of ek b_pos xs] by (auto split: prod.splits)
    have "unat (cnt + 4) \<le> b_pos + 4" using st(1) "1.prems"(1,2) True by simp
    with "1.IH" [OF True, of "cnt + 4" out'] st o True show ?thesis
      by (auto simp: crypt_units.simps [of ek len cnt])
  next
    case False
    have n: "\<not> (cnt + 4 \<le> len \<and> b_pos \<le> CWC_CBLK_SIZE - 4)"
    proof (cases "b_pos \<le> CWC_CBLK_SIZE - 4")
      case True
      then show ?thesis
        using False cnt_stop [OF "1.prems"(1), of 4] "1.prems"(2) by (simp add: CWC_CBLK_SIZE_def)
    qed simp
    then show ?thesis
      using False "1.prems"(1,3) by (subst crypt_units.simps) (auto simp: crypt_units_n.simps [of ek b_pos xs])
  qed
qed

lemma crypt_blocks_n:
  "unat cnt + length xs = unat len \<Longrightarrow>
    crypt_blocks al len cnt xs ctx =
      (if unat len - length xs mod 16 + 16 < 2 ^ 32 then Some (crypt_blocks_n al xs ctx) else None)"
proof (induction al xs ctx arbitrary: cnt rule: crypt_blocks_n.induct)
  case (1 al xs ctx)
  show ?case
  proof (cases "CWC_CBLK_SIZE \<le> length xs")
    case True
    then have l: "16 \<le> length xs" by (simp add: CWC_CBLK_SIZE_def)
    have st: "unat (cnt + 16) + length (drop 16 xs) = unat len" "cnt + 16 \<le> len"
      using cnt_step [OF "1.prems"(1) l] by simp_all
    obtain P where P: "(unat len - length xs mod 16 + 16 < 2 ^ 32) = P" by blast
    have m: "length (drop 16 xs) mod 16 = length xs mod 16" using l by (metis le_add_diff_inverse length_drop mod_add_self1)
    have ih: "crypt_blocks al len (cnt + 16) (drop 16 xs) (next_key ctx) =
        (if P then Some (crypt_blocks_n al (drop 16 xs) (next_key ctx)) else None)"
      using "1.IH" [OF True refl refl st(1) [folded CWC_CBLK_SIZE_def], unfolded CWC_CBLK_SIZE_def m P] .
    show ?thesis
      using st(2) l unfolding P crypt_blocks.simps [of al len cnt xs ctx] crypt_blocks_n.simps [of al xs ctx]
      by (simp add: CWC_CBLK_SIZE_def Let_def ih split: prod.split)
  next
    case False
    then have l: "length xs < 16" by (simp add: CWC_CBLK_SIZE_def)
    then have "unat len - length xs mod 16 = unat cnt" using "1.prems" by simp
    then show ?thesis
      using l cnt_stop [OF "1.prems" l]
      by (subst crypt_blocks.simps, subst crypt_blocks_n.simps) (simp add: CWC_CBLK_SIZE_def not_less)
  qed
qed

text \<open>The first step of \<open>cwc_crypt_data\<close> cannot wrap: it takes less than a block.\<close>

lemma crypt_start_n:
  assumes "b_pos < 16" "length ek = 16" "length data < 2 ^ 32"
  obtains cnt b1 out1 xs1 where
    "(if b_pos = 0 then Some (0, b_pos, [], data)
      else if al then
        (case crypt_bytes (\<lambda>b_pos. b_pos mod 4 \<noteq> 0) ek b_pos data of
           (b_pos, out, xs) \<Rightarrow>
             (case crypt_units ek (of_nat (length data)) (of_nat (length data - length xs)) b_pos xs of None \<Rightarrow> None
              | Some (cnt, b_pos, out', xs) \<Rightarrow> Some (cnt, b_pos, out @ out', xs)))
      else
        (case crypt_bytes (\<lambda>b_pos. b_pos < CWC_CBLK_SIZE) ek b_pos data of
           (b_pos, out, xs) \<Rightarrow> Some (of_nat (length data - length xs), b_pos, out, xs))) = Some (cnt, b1, out1, xs1)"
    "(if b_pos = 0 then (b_pos, [], data)
      else if al then
        (case crypt_bytes (\<lambda>b_pos. b_pos mod 4 \<noteq> 0) ek b_pos data of
           (b_pos, out, xs) \<Rightarrow> (case crypt_units_n ek b_pos xs of (b_pos, out', xs) \<Rightarrow> (b_pos, out @ out', xs)))
      else crypt_bytes (\<lambda>b_pos. b_pos < CWC_CBLK_SIZE) ek b_pos data) = (b1, out1, xs1)"
    "unat cnt + length xs1 = unat (of_nat (length data) :: u32)"
proof (cases "b_pos = 0")
  case True
  then show ?thesis using that [of 0 b_pos "[]" data] assms(3) by (simp add: unsigned_of_nat take_bit_nat_def)
next
  case False
  then have p: "0 < b_pos" "b_pos \<le> 16" using assms(1) by simp_all
  have len: "unat (of_nat (length data) :: u32) = length data" using assms(3) by (simp add: unsigned_of_nat take_bit_nat_def)
  show ?thesis
  proof (cases al)
    case True
    obtain b0 o0 ys0 where r0: "crypt_bytes (\<lambda>b_pos. b_pos mod 4 \<noteq> 0) ek b_pos data = (b0, o0, ys0)" by (metis prod_cases3)
    have c: "b < 16" if "b mod 4 \<noteq> 0" "b \<le> 16" for b :: nat using that by (cases "b = 16") simp_all
    from crypt_bytes_inv [OF c p r0] obtain us0 where s0: "data = us0 @ ys0" "b0 = b_pos + length us0" by auto
    obtain b2 o2 ys2 where r2: "crypt_units_n ek b0 ys0 = (b2, o2, ys2)" by (metis prod_cases3)
    have u: "unat (of_nat (length us0) :: u32) = length us0"
      using s0(1) assms(3) by (simp add: unsigned_of_nat take_bit_nat_def)
    have d: "length data - length ys0 = length us0" by (simp add: s0(1))
    have l0: "unat (of_nat (length us0) :: u32) + length ys0 = unat (of_nat (length data) :: u32)"
      unfolding u len by (simp add: s0(1))
    obtain cnt where "crypt_units ek (of_nat (length data)) (of_nat (length data - length ys0)) b0 ys0 = Some (cnt, b2, o2, ys2)"
      "unat cnt + length ys2 = unat (of_nat (length data) :: u32)"
      using crypt_units_n [OF l0 _ r2] s0(2) u unfolding d by auto
    then show ?thesis using that [of cnt b2 "o0 @ o2" ys2] False True by (simp add: r0 r2 del: neq0_conv)
  next
    case al: False
    obtain b1 o1 ys1 where r1: "crypt_bytes (\<lambda>b_pos. b_pos < CWC_CBLK_SIZE) ek b_pos data = (b1, o1, ys1)" by (metis prod_cases3)
    have c: "b < 16" if "b < CWC_CBLK_SIZE" "b \<le> 16" for b using that by (simp add: CWC_CBLK_SIZE_def)
    from crypt_bytes_inv [where cond = "\<lambda>b_pos. b_pos < CWC_CBLK_SIZE", OF c p r1] obtain us where u: "data = us @ ys1" by auto
    have "length data - length ys1 = length us" by (simp add: u)
    moreover have "unat (of_nat (length us) :: u32) = length us"
      using u assms(3) by (simp add: unsigned_of_nat take_bit_nat_def)
    ultimately show ?thesis using that [of "of_nat (length us)" b1 o1 ys1] False al r1 len u by simp
  qed
qed

lemma crypt_data_n:
  assumes f: "crypt_frame key ctx ctx" and n: "length data < 2 ^ 32"
  shows "cwc_crypt_data al data ctx =
    (if cnt_fits 16 (unat (txt_ccnt ctx) mod 16) (length data) then Some (cwc_crypt_data_n al data ctx) else None)"
proof (cases "data = []")
  case True
  then show ?thesis by (simp add: cwc_crypt_data_def cwc_crypt_data_n_def cnt_fits_def)
next
  case False
  let ?b = "unat (txt_ccnt ctx) mod 16" and ?len = "of_nat (length data) :: u32"
  have b: "?b < 16" by simp
  have len: "unat ?len = length data" using n by (simp add: unsigned_of_nat take_bit_nat_def)
  note ekl = crypt_frame_fields(9) [OF f]
  from crypt_start_n [OF b ekl n, of al] obtain cnt b1 out1 xs1 where s1:
    "(if ?b = 0 then Some (0, ?b, [], data)
      else if al then
        (case crypt_bytes (\<lambda>b_pos. b_pos mod 4 \<noteq> 0) (enc_ctr ctx) ?b data of
           (b_pos, out, xs) \<Rightarrow>
             (case crypt_units (enc_ctr ctx) ?len (of_nat (length data - length xs)) b_pos xs of None \<Rightarrow> None
              | Some (cnt, b_pos, out', xs) \<Rightarrow> Some (cnt, b_pos, out @ out', xs)))
      else
        (case crypt_bytes (\<lambda>b_pos. b_pos < CWC_CBLK_SIZE) (enc_ctr ctx) ?b data of
           (b_pos, out, xs) \<Rightarrow> Some (of_nat (length data - length xs), b_pos, out, xs))) = Some (cnt, b1, out1, xs1)"
    "(if ?b = 0 then (?b, [], data)
      else if al then
        (case crypt_bytes (\<lambda>b_pos. b_pos mod 4 \<noteq> 0) (enc_ctr ctx) ?b data of
           (b_pos, out, xs) \<Rightarrow> (case crypt_units_n (enc_ctr ctx) b_pos xs of (b_pos, out', xs) \<Rightarrow> (b_pos, out @ out', xs)))
      else crypt_bytes (\<lambda>b_pos. b_pos < CWC_CBLK_SIZE) (enc_ctr ctx) ?b data) = (b1, out1, xs1)"
    "unat cnt + length xs1 = unat ?len" .
  from crypt_start [OF b ekl s1(2)] obtain us1 where
    u1: "data = us1 @ xs1" "b1 = ?b + length us1" "b1 \<le> 16" "16 \<le> length xs1 \<longrightarrow> b1 mod 16 = 0" by blast
  obtain out2 xs2 c2 where r2: "crypt_blocks_n al xs1 ctx = (out2, xs2, c2)" by (metis prod_cases3)
  obtain out3 c3 where r3: "crypt_tail b1 xs2 c2 = (out3, c3)" by fastforce
  have nn: "cwc_crypt_data_n al data ctx =
      (RETURN_GOOD, out1 @ out2 @ out3, c3\<lparr>txt_ccnt := txt_ccnt c3 + of_nat (length data)\<rparr>)"
    unfolding cwc_crypt_data_n_def Let_def CWC_CBLK_SIZE_def s1(2) [unfolded CWC_CBLK_SIZE_def]
    using False by (simp add: r2 r3)
  have e: "unat ?len - length xs1 mod 16 + 16 < 2 ^ 32 \<longleftrightarrow> cnt_fits 16 ?b (length data)"
  proof (cases "16 \<le> length xs1")
    case True
    have "?b + length data = b1 + length xs1" using u1(1,2) by simp
    moreover have "(b1 + length xs1) mod 16 = length xs1 mod 16" using u1(4) True mod_add_cong [of b1 16 0 "length xs1" "length xs1"] by simp
    ultimately show ?thesis unfolding cnt_fits_def len by simp
  next
    case False
    then have "length data < 32" using u1(1-3) by simp
    then show ?thesis unfolding cnt_fits_def len by (simp add: less_imp_diff_less)
  qed
  note bl = crypt_blocks_n [OF s1(3), of al ctx, unfolded e r2]
  show ?thesis
    unfolding nn cwc_crypt_data_def Let_def CWC_CBLK_SIZE_def s1(1) [unfolded CWC_CBLK_SIZE_def]
    using False by (simp add: bl r3)
qed

subsection \<open>The message in progress\<close>

text \<open>
  The abstract state of a message: the two machines and the number of bytes
  that went through each phase. \<open>cwc_abs\<close> reads it off a context; the bytes
  that wait in \<open>cwc_buf\<close> are header bytes until text is authenticated.
\<close>

record cwc_msg =
  mac :: mac_state
  stream :: ks_state
  n_hdr :: nat
  n_crypt :: nat
  n_auth :: nat

definition pending :: "cwc_ctx \<Rightarrow> byte list" where
  "pending ctx = take (unat (if txt_acnt ctx = 0 then hdr_cnt ctx else txt_acnt ctx) mod 12) (cwc_buf ctx)"

definition cwc_abs :: "cwc_ctx \<Rightarrow> cwc_msg" where
  "cwc_abs ctx = \<lparr>mac = (hash ctx, pending ctx), stream = crypt_view (unat (txt_ccnt ctx)) ctx,
     n_hdr = unat (hdr_cnt ctx), n_crypt = unat (txt_ccnt ctx), n_auth = unat (txt_acnt ctx)\<rparr>"

definition mac_pad :: "u32 list \<Rightarrow> mac_state \<Rightarrow> mac_state" where
  "mac_pad z st = (if snd st = [] then st else mac_bytes z st (replicate (12 - length (snd st)) 0))"

definition msg_header :: "u32 list \<Rightarrow> byte list \<Rightarrow> cwc_msg \<Rightarrow> cwc_msg" where
  "msg_header z hdr m = m\<lparr>mac := mac_bytes z (mac m) hdr, n_hdr := n_hdr m + length hdr\<rparr>"

definition msg_auth :: "u32 list \<Rightarrow> byte list \<Rightarrow> cwc_msg \<Rightarrow> cwc_msg" where
  "msg_auth z data m =
    (if data = [] then m
     else m\<lparr>mac := mac_bytes z (if n_auth m = 0 then mac_pad z (mac m) else mac m) data, n_auth := n_auth m + length data\<rparr>)"

definition msg_crypt :: "(byte list \<Rightarrow> byte list) \<Rightarrow> byte list \<Rightarrow> cwc_msg \<Rightarrow> byte list \<times> cwc_msg" where
  "msg_crypt F data m =
    (fst (ks_bytes F (stream m) data), m\<lparr>stream := snd (ks_bytes F (stream m) data), n_crypt := n_crypt m + length data\<rparr>)"

definition msg_encrypt :: "(byte list \<Rightarrow> byte list) \<Rightarrow> u32 list \<Rightarrow> byte list \<Rightarrow> cwc_msg \<Rightarrow> byte list \<times> cwc_msg" where
  "msg_encrypt F z data m = (let (c, m) = msg_crypt F data m in (c, msg_auth z c m))"

definition msg_decrypt :: "(byte list \<Rightarrow> byte list) \<Rightarrow> u32 list \<Rightarrow> byte list \<Rightarrow> cwc_msg \<Rightarrow> byte list \<times> cwc_msg" where
  "msg_decrypt F z data m = msg_crypt F data (msg_auth z data m)"

definition cwc_final :: "u32 list \<Rightarrow> nat \<Rightarrow> nat \<Rightarrow> u32 list" where
  "cwc_final h n_h n_a = fold_top (add_4 h [0, of_nat n_h, 0, of_nat n_a])"

definition msg_tag :: "(byte list \<Rightarrow> byte list) \<Rightarrow> u32 list \<Rightarrow> cwc_msg \<Rightarrow> byte list" where
  "msg_tag F z m =
    xor_bytes (F (bswap32_block (block_of_words (cwc_final (fst (mac_pad z (mac m))) (n_hdr m) (n_auth m)))))
      (F (take 12 (fst (snd (stream m))) @ replicate 4 0))"

text \<open>A context the operations can work on: keyed, with buffers of 16 bytes.\<close>

definition cwc_keyed :: "byte list \<Rightarrow> cwc_ctx \<Rightarrow> bool" where
  "cwc_keyed key ctx \<longleftrightarrow> enc_keyed key (enc_ctx ctx) \<and> length (ctr_val ctx) = 16 \<and> length (enc_ctr ctx) = 16 \<and>
    length (cwc_buf ctx) = 16"

lemma cwc_keyed_frame: "cwc_keyed key ctx \<longleftrightarrow> crypt_frame key ctx ctx \<and> length (cwc_buf ctx) = 16"
  by (auto simp: cwc_keyed_def crypt_frame_refl)

lemma add_of_nat_eq_0:
  assumes "unat (w :: u32) + n < 2 ^ 32" "0 < n"
  shows "w + of_nat n \<noteq> 0"
proof
  assume "w + of_nat n = 0"
  then have "unat (w + of_nat n) = 0" by simp
  then show False using unat_add_of_nat [OF assms(1)] assms(2) by simp
qed

lemma mac_pad_list: "length p \<le> 12 \<Longrightarrow> p \<noteq> [] \<Longrightarrow> mac_pad z (h, p) = mac_bytes z (h, p) (replicate (12 - length p) 0)"
  by (simp add: mac_pad_def)

lemma cwc_pad:
  assumes "length (cwc_buf ctx) = 16" "0 < pos" "pos < 12"
  shows "(hash (cwc_pad pos ctx), []) = mac_pad (zval ctx) (hash ctx, take pos (cwc_buf ctx))"
    and "auth_frame ctx (cwc_pad pos ctx)"
proof -
  let ?z = "replicate (12 - pos) (0 :: byte)"
  let ?ctx = "ctx\<lparr>cwc_buf := put_bytes (cwc_buf ctx) pos ?z\<rparr>"
  have p: "pos + length ?z = 12" using assms(3) by simp
  have l: "length (cwc_buf ?ctx) = 16" using assms p by (simp add: put_bytes_def)
  have e: "cwc_pad pos ctx = cwc_step ?ctx" by (simp add: cwc_pad_def CWC_ABLK_SIZE_def)
  have t: "length (take pos (cwc_buf ctx)) = pos" using assms by simp
  show "(hash (cwc_pad pos ctx), []) = mac_pad (zval ctx) (hash ctx, take pos (cwc_buf ctx))"
    using auth_view_put [of ctx pos ?z] auth_view_full [OF l] auth_view_below [OF assms(1,3)] assms p t
    unfolding e mac_pad_def by (auto simp del: length_take)
  show "auth_frame ctx (cwc_pad pos ctx)"
    unfolding e using auth_frame_trans [OF auth_frame_buf auth_frame_step [OF l]] assms(1) l by simp
qed

lemma cwc_pad_header:
  assumes "length (cwc_buf ctx) = 16" "txt_acnt ctx = 0"
  shows "(hash (cwc_pad_header ctx), []) = mac_pad (zval ctx) (hash ctx, pending ctx)"
    and "auth_frame ctx (cwc_pad_header ctx)"
proof -
  let ?n = "unat (hdr_cnt ctx) mod 12"
  have n: "?n < 12" by simp
  have p: "pending ctx = take ?n (cwc_buf ctx)" using assms(2) by (simp add: pending_def)
  have e: "cwc_pad_header ctx = (if ?n \<noteq> 0 then cwc_pad ?n ctx else ctx)"
    using assms(2) by (simp add: cwc_pad_header_def CWC_ABLK_SIZE_def)
  show "(hash (cwc_pad_header ctx), []) = mac_pad (zval ctx) (hash ctx, pending ctx)"
    unfolding e p using cwc_pad(1) [OF assms(1) _ n] by (cases "?n = 0") (simp_all add: mac_pad_def)
  show "auth_frame ctx (cwc_pad_header ctx)"
    unfolding e using cwc_pad(2) [OF assms(1) _ n] assms(1) by (cases "?n = 0") simp_all
qed

text \<open>What every operation keeps of a context.\<close>

definition cwc_same :: "byte list \<Rightarrow> cwc_ctx \<Rightarrow> cwc_ctx \<Rightarrow> bool" where
  "cwc_same key ctx ctx' \<longleftrightarrow> cwc_keyed key ctx' \<and> zval ctx' = zval ctx \<and> enc_ctx ctx' = enc_ctx ctx"

lemma cwc_same_trans [trans]: "cwc_same key a b \<Longrightarrow> cwc_same key b c \<Longrightarrow> cwc_same key a c"
  by (simp add: cwc_same_def)

lemma cwc_same_keyed: "cwc_same key a b \<Longrightarrow> cwc_keyed key b"
  by (simp add: cwc_same_def)

lemma auth_frame_same: "cwc_keyed key ctx \<Longrightarrow> auth_frame ctx ctx' \<Longrightarrow> cwc_same key ctx ctx'"
  by (simp add: cwc_same_def cwc_keyed_def auth_frame_fields)

lemma crypt_frame_same: "cwc_keyed key ctx \<Longrightarrow> crypt_frame key ctx ctx' \<Longrightarrow> cwc_same key ctx ctx'"
  using crypt_frame_fields [of key ctx ctx'] by (simp add: cwc_same_def cwc_keyed_def)

lemma crypt_view_mod: "crypt_view (n mod 16) ctx = crypt_view n ctx" "crypt_view (n mod 16 + k) ctx = crypt_view (n + k) ctx"
  by (simp_all add: crypt_view_def mod_simps)

lemma auth_header_abs:
  assumes k: "cwc_keyed key ctx" and t: "txt_acnt ctx = 0" and n: "unat (hdr_cnt ctx) + length hdr < 2 ^ 32 - 4"
  shows "\<exists>c. cwc_auth_header al hdr ctx = Some (RETURN_GOOD, c) \<and> cwc_same key ctx c \<and>
    cwc_abs c = msg_header (zval ctx) hdr (cwc_abs ctx) \<and> txt_acnt c = 0"
proof -
  let ?b = "unat (hdr_cnt ctx) mod 12"
  have l: "length (cwc_buf ctx) = 16" and b: "?b < 12" using k by (simp_all add: cwc_keyed_def)
  obtain c where c: "auth_loops_n al ?b hdr ctx = c" by blast
  note sp = auth_loops_spec [OF l b, of al hdr, unfolded c]
  note f = auth_frame_fields [OF sp(1)]
  let ?e = "c\<lparr>hdr_cnt := hdr_cnt ctx + of_nat (length hdr)\<rparr>"
  have al: "auth_loops al ?b hdr ctx = Some c"
    using auth_loops_n [OF l b, of hdr al] cnt_fits_12 [of "unat (hdr_cnt ctx)" "length hdr"] n c by simp
  then have e: "cwc_auth_header al hdr ctx = Some (RETURN_GOOD, if hdr = [] then ctx else ?e)"
    using f(5) by (simp add: cwc_auth_header_def Let_def CWC_ABLK_SIZE_def)
  have u: "unat (hdr_cnt ctx + of_nat (length hdr)) = unat (hdr_cnt ctx) + length hdr"
    by (rule unat_add_of_nat) (use n in simp)
  have p: "pending ?e = take ((?b + length hdr) mod 12) (cwc_buf c)" "pending ctx = take ?b (cwc_buf ctx)"
    using f(6) t by (simp_all add: pending_def u mod_simps)
  have "cwc_abs ?e = msg_header (zval ctx) hdr (cwc_abs ctx)"
    using f sp(2) p u by (simp add: cwc_abs_def msg_header_def crypt_view_def)
  then have "cwc_abs (if hdr = [] then ctx else ?e) = msg_header (zval ctx) hdr (cwc_abs ctx)"
    by (simp add: msg_header_def)
  moreover have "cwc_same key ctx (if hdr = [] then ctx else ?e)"
    using auth_frame_same [OF k sp(1)] k by (simp add: cwc_same_def cwc_keyed_def)
  moreover have "txt_acnt (if hdr = [] then ctx else ?e) = 0" using f(6) t by simp
  ultimately show ?thesis using e by blast
qed

lemma auth_data_abs:
  assumes k: "cwc_keyed key ctx" and n: "unat (txt_acnt ctx) + length data < 2 ^ 32 - 4"
  shows "\<exists>c. cwc_auth_data al data ctx = Some (RETURN_GOOD, c) \<and> cwc_same key ctx c \<and>
    cwc_abs c = msg_auth (zval ctx) data (cwc_abs ctx) \<and> txt_ccnt c = txt_ccnt ctx"
proof -
  let ?b = "unat (txt_acnt ctx) mod 12" and ?h = "cwc_pad_header ctx"
  have l: "length (cwc_buf ctx) = 16" and b: "?b < 12" using k by (simp_all add: cwc_keyed_def)
  have n32: "unat (txt_acnt ctx) + length data < 2 ^ 32" using n by simp
  have h: "auth_frame ctx ?h \<and> (hash ?h, take ?b (cwc_buf ?h)) =
      (if txt_acnt ctx = 0 then mac_pad (zval ctx) (hash ctx, pending ctx) else (hash ctx, pending ctx))"
  proof (cases "txt_acnt ctx = 0")
    case True
    then show ?thesis using cwc_pad_header [OF l True] by simp
  next
    case False
    then show ?thesis using l by (simp add: cwc_pad_header_def pending_def)
  qed
  obtain c where c: "auth_loops_n al ?b data ?h = c" by blast
  note lh = auth_frame_fields [OF conjunct1 [OF h]]
  note sp = auth_loops_spec [OF lh(8) b, of al data, unfolded c]
  have fr: "auth_frame ctx c" by (rule auth_frame_trans [OF conjunct1 [OF h] sp(1)])
  note f = auth_frame_fields [OF fr]
  let ?e = "c\<lparr>txt_acnt := txt_acnt ctx + of_nat (length data)\<rparr>"
  let ?r = "if data = [] then ctx else ?e"
  have al: "auth_loops al ?b data ?h = Some c"
    using auth_loops_n [OF lh(8) b, of data al] cnt_fits_12 [of "unat (txt_acnt ctx)" "length data"] n c by simp
  then have e: "cwc_auth_data al data ctx = Some (RETURN_GOOD, ?r)"
    using f(6) by (simp add: cwc_auth_data_def Let_def CWC_ABLK_SIZE_def)
  have u: "unat (txt_acnt ctx + of_nat (length data)) = unat (txt_acnt ctx) + length data"
    by (rule unat_add_of_nat [OF n32])
  have "cwc_abs ?r = msg_auth (zval ctx) data (cwc_abs ctx)"
  proof (cases "data = []")
    case False
    have nz: "txt_acnt ctx + of_nat (length data) \<noteq> 0" using add_of_nat_eq_0 [OF n32] False by simp
    have p: "pending ?e = take ((?b + length data) mod 12) (cwc_buf c)"
      using nz by (simp add: pending_def u mod_simps)
    have z: "unat (txt_acnt ctx) = 0 \<longleftrightarrow> txt_acnt ctx = 0" by (rule unsigned_eq_0_iff)
    have "(hash ?e, pending ?e) =
        mac_bytes (zval ctx) (if txt_acnt ctx = 0 then mac_pad (zval ctx) (hash ctx, pending ctx) else (hash ctx, pending ctx)) data"
      using sp(2) p lh(1) conjunct2 [OF h] by simp
    then show ?thesis
      using False f u by (simp add: cwc_abs_def msg_auth_def crypt_view_def z)
  qed (simp add: msg_auth_def)
  moreover have "cwc_same key ctx ?r"
    using auth_frame_same [OF k fr] k by (simp add: cwc_same_def cwc_keyed_def)
  moreover have "txt_ccnt ?r = txt_ccnt ctx" using f(7) by simp
  ultimately show ?thesis using e by blast
qed

lemma crypt_data_abs:
  assumes k: "cwc_keyed key ctx" and n: "unat (txt_ccnt ctx) + length data < 2 ^ 32 - 16"
  shows "\<exists>out ctx'. cwc_crypt_data al data ctx = Some (RETURN_GOOD, out, ctx') \<and> cwc_same key ctx ctx' \<and>
    txt_acnt ctx' = txt_acnt ctx \<and> (out, cwc_abs ctx') = msg_crypt (aes_cipher key) data (cwc_abs ctx)"
proof -
  have f: "crypt_frame key ctx ctx" using k by (simp add: cwc_keyed_frame)
  obtain out c where c: "cwc_crypt_data_n al data ctx = (RETURN_GOOD, out, c\<lparr>txt_ccnt := txt_ccnt ctx + of_nat (length data)\<rparr>)"
    "crypt_frame key ctx c"
    "ks_bytes (aes_cipher key) (crypt_view (unat (txt_ccnt ctx) mod 16) ctx) data =
      (out, crypt_view (unat (txt_ccnt ctx) mod 16 + length data) c)" by (rule cwc_crypt_data_spec [OF f])
  let ?e = "c\<lparr>txt_ccnt := txt_ccnt ctx + of_nat (length data)\<rparr>"
  have e: "cwc_crypt_data al data ctx = Some (RETURN_GOOD, out, ?e)"
    using crypt_data_n [OF f, of data al] cnt_fits_sum [OF n] n c(1) by simp
  have u: "unat (txt_ccnt ctx + of_nat (length data)) = unat (txt_ccnt ctx) + length data"
    by (rule unat_add_of_nat) (use n in simp)
  note g = crypt_frame_fields [OF c(2)]
  have v: "crypt_view m ?e = crypt_view m c" "pending ?e = pending ctx" for m
    using g by (simp_all add: crypt_view_def pending_def)
  have "(out, cwc_abs ?e) = msg_crypt (aes_cipher key) data (cwc_abs ctx)"
    using c(3) g u v by (simp add: cwc_abs_def msg_crypt_def crypt_view_mod)
  moreover have "cwc_same key ctx ?e"
    using crypt_frame_same [OF k c(2)] by (auto simp: cwc_same_def cwc_keyed_def)
  ultimately show ?thesis using e g(6) by auto
qed

lemma encrypt_abs:
  assumes k: "cwc_keyed key ctx"
    and n: "unat (txt_ccnt ctx) + length data < 2 ^ 32 - 16" "unat (txt_acnt ctx) + length data < 2 ^ 32 - 4"
  shows "\<exists>out ctx'. cwc_encrypt al_c al_a data ctx = Some (RETURN_GOOD, out, ctx') \<and> cwc_same key ctx ctx' \<and>
    (out, cwc_abs ctx') = msg_encrypt (aes_cipher key) (zval ctx) data (cwc_abs ctx)"
proof -
  obtain out c where c: "cwc_crypt_data al_c data ctx = Some (RETURN_GOOD, out, c)" "cwc_same key ctx c" "txt_acnt c = txt_acnt ctx"
    "(out, cwc_abs c) = msg_crypt (aes_cipher key) data (cwc_abs ctx)"
    using crypt_data_abs [OF k n(1)] by blast
  have l: "length out = length data" using c(4) by (simp add: msg_crypt_def)
  obtain d where a: "cwc_auth_data al_a out c = Some (RETURN_GOOD, d)" "cwc_same key c d"
    "cwc_abs d = msg_auth (zval c) out (cwc_abs c)"
    using auth_data_abs [OF cwc_same_keyed [OF c(2)], of out al_a, unfolded c(3) l, OF n(2)] by blast
  have z: "zval c = zval ctx" using c(2) by (simp add: cwc_same_def)
  show ?thesis
    using c(1) a cwc_same_trans [OF c(2) a(2)]
    by (simp add: cwc_encrypt_def case_prod_beta msg_encrypt_def c(4) [symmetric] z)
qed

lemma decrypt_abs:
  assumes k: "cwc_keyed key ctx"
    and n: "unat (txt_ccnt ctx) + length data < 2 ^ 32 - 16" "unat (txt_acnt ctx) + length data < 2 ^ 32 - 4"
  shows "\<exists>out ctx'. cwc_decrypt al_a al_c data ctx = Some (RETURN_GOOD, out, ctx') \<and> cwc_same key ctx ctx' \<and>
    (out, cwc_abs ctx') = msg_decrypt (aes_cipher key) (zval ctx) data (cwc_abs ctx)"
proof -
  obtain a where a: "cwc_auth_data al_a data ctx = Some (RETURN_GOOD, a)" "cwc_same key ctx a"
    "cwc_abs a = msg_auth (zval ctx) data (cwc_abs ctx)" "txt_ccnt a = txt_ccnt ctx"
    using auth_data_abs [OF k n(2), of al_a] by blast
  obtain out c where c: "cwc_crypt_data al_c data a = Some (RETURN_GOOD, out, c)" "cwc_same key a c"
    "(out, cwc_abs c) = msg_crypt (aes_cipher key) data (cwc_abs a)"
    using crypt_data_abs [OF cwc_same_keyed [OF a(2)], of data al_c] n(1) unfolding a(4) by blast
  show ?thesis
    using a(1) c(1,3) a(3) cwc_same_trans [OF a(2) c(2)]
    by (simp add: cwc_decrypt_def case_prod_beta msg_decrypt_def)
qed

text \<open>Beyond these lengths a first call runs past the end of its buffer.\<close>

lemma auth_header_none:
  assumes "cwc_keyed key ctx" "hdr_cnt ctx = 0" "2 ^ 32 - 4 \<le> length hdr" "length hdr < 2 ^ 32"
  shows "cwc_auth_header al hdr ctx = None"
proof -
  have l: "length (cwc_buf ctx) = 16" using assms(1) by (simp add: cwc_keyed_def)
  have h: "length hdr \<noteq> 0" using assms(3) by auto
  show ?thesis
    using auth_loops_n [OF l, of 0 hdr al] assms(2-4) h
    by (simp add: cwc_auth_header_def Let_def cnt_fits_start)
qed

lemma crypt_data_none:
  assumes "cwc_keyed key ctx" "txt_ccnt ctx = 0" "2 ^ 32 - 16 \<le> length data" "length data < 2 ^ 32"
  shows "cwc_crypt_data al data ctx = None"
  using crypt_data_n [of key ctx data al] assms by (simp add: cwc_keyed_frame cnt_fits_start)

lemma encrypt_none:
  assumes "cwc_keyed key ctx" "txt_ccnt ctx = 0" "2 ^ 32 - 16 \<le> length data" "length data < 2 ^ 32"
  shows "cwc_encrypt al_c al_a data ctx = None"
  using crypt_data_none [OF assms, of al_c] by (simp add: cwc_encrypt_def)

lemma decrypt_none:
  assumes k: "cwc_keyed key ctx" and "txt_ccnt ctx = 0" "txt_acnt ctx = 0" and n: "2 ^ 32 - 16 \<le> length data" "length data < 2 ^ 32"
  shows "cwc_decrypt al_a al_c data ctx = None"
proof (cases "length data < 2 ^ 32 - 4")
  case True
  then obtain a where "cwc_auth_data al_a data ctx = Some (RETURN_GOOD, a)" "cwc_same key ctx a" "txt_ccnt a = 0"
    using auth_data_abs [OF k, of data al_a] assms(2,3) by auto
  then show ?thesis using crypt_data_none [OF cwc_same_keyed _ n, of key ctx a al_c] by (simp add: cwc_decrypt_def)
next
  case False
  have l: "length (cwc_buf ctx) = 16" using k by (simp add: cwc_keyed_def)
  have lp: "length (cwc_buf (cwc_pad_header ctx)) = 16"
    using cwc_pad_header [OF l assms(3)] auth_frame_fields(8) by blast
  have d: "length data \<noteq> 0" using n(1) by auto
  have "cwc_auth_data al_a data ctx = None"
    using auth_loops_n [OF lp, of 0 data al_a] False n assms(3) d
    by (simp add: cwc_auth_data_def Let_def cnt_fits_start)
  then show ?thesis by (simp add: cwc_decrypt_def)
qed

subsection \<open>The tag\<close>

lemma length_block_of_words: "4 \<le> length w \<Longrightarrow> length (block_of_words w) = 16"
  by (elim list_ge4_exhaust) (simp add: block_of_words_def)

lemma hash_padded:
  assumes "cwc_keyed key ctx"
  shows "auth_frame ctx (cwc_pad_all ctx) \<and> hash (cwc_pad_all ctx) = fst (mac_pad (zval ctx) (hash ctx, pending ctx))"
proof (cases "txt_acnt ctx = 0")
  case True
  have l: "length (cwc_buf ctx) = 16" using assms by (simp add: cwc_keyed_def)
  note h = cwc_pad_header [OF l True]
  have "hash (cwc_pad_header ctx) = fst (mac_pad (zval ctx) (hash ctx, pending ctx))" unfolding h(1) [symmetric] by simp
  then show ?thesis using True h(2) auth_frame_fields(6) [OF h(2)] by (simp add: cwc_pad_all_def Let_def)
next
  case False
  let ?pos = "unat (txt_acnt ctx) mod 12"
  have l: "length (cwc_buf ctx) = 16" using assms by (simp add: cwc_keyed_def)
  have e: "cwc_pad_header ctx = ctx" using False by (simp add: cwc_pad_header_def)
  have p: "pending ctx = take ?pos (cwc_buf ctx)" using False by (simp add: pending_def)
  show ?thesis
  proof (cases "?pos = 0")
    case True
    then show ?thesis using l by (simp add: e p CWC_ABLK_SIZE_def mac_pad_def cwc_pad_all_def Let_def)
  next
    case pos: False
    then have b: "0 < ?pos" "?pos < 12" by simp_all
    note c = cwc_pad [OF l b]
    have "hash (cwc_pad ?pos ctx) = fst (mac_pad (zval ctx) (hash ctx, pending ctx))"
      unfolding p c(1) [symmetric] by simp
    then show ?thesis using pos c(2) by (simp add: e CWC_ABLK_SIZE_def cwc_pad_all_def Let_def)
  qed
qed

lemma xor_take: "length a = 16 \<Longrightarrow> length b = 16 \<Longrightarrow> n \<le> 16 \<Longrightarrow>
    map (\<lambda>i. a ! i XOR b ! i) [0..<n] = take n (xor_bytes a b)"
  by (rule nth_equalityI) (simp_all add: nth_xor_bytes)

lemma length_cwc_final: "length (cwc_final h a b) = length h"
  by (simp add: cwc_final_def fold_top_def Let_def add_4_def)

lemma compute_tag_abs:
  assumes k: "cwc_keyed key ctx" and l: "tag_len \<le> 16"
    and m: "m = cwc_abs ctx" "\<not> (n_auth m \<noteq> n_crypt m \<and> 0 < n_crypt m)"
  shows "\<exists>ctx'. cwc_compute_tag tag_len ctx =
      (if n_crypt m = n_auth m then RETURN_GOOD else RETURN_WARN, take tag_len (msg_tag (aes_cipher key) (zval ctx) m), ctx') \<and>
    cwc_same key ctx ctx'"
proof -
  let ?F = "aes_cipher key"
  obtain c where cc: "cwc_pad_all ctx = c" by blast
  note c = hash_padded [OF k, unfolded cc]
  note f = auth_frame_fields [OF conjunct1 [OF c]]
  let ?h = "cwc_final (hash c) (n_hdr m) (n_auth m)"
  let ?t = "take 12 (ctr_val ctx) @ replicate 4 0"
  have fin: "fold_top (add_4 (hash c) [0, hdr_cnt ctx, 0, txt_acnt ctx]) = ?h"
    by (simp add: cwc_final_def m(1) cwc_abs_def)
  have ne: "\<not> (txt_acnt ctx \<noteq> txt_ccnt ctx \<and> 0 < txt_ccnt ctx)"
    using m by (auto simp: cwc_abs_def word_less_nat_alt intro: unsigned_word_eqI)
  have hb: "length (bswap32_block (block_of_words ?h)) = 16" by simp
  have tb: "length ?t = 16" using k by (simp add: cwc_keyed_def)
  have kc: "enc_keyed key (enc_ctx ctx)" using k by (simp add: cwc_keyed_def)
  have put: "put_bytes (ctr_val ctx) CTR_POS (word_out 0) = ?t"
    using k by (simp add: put_bytes_def CTR_POS_def cwc_keyed_def word_out_byte_of byte_of_def eval_nat_numeral)
  have eq: "n_crypt m = n_auth m \<longleftrightarrow> txt_ccnt ctx = txt_acnt ctx"
    by (auto simp: m(1) cwc_abs_def intro: unsigned_word_eqI)
  let ?c = "c\<lparr>hash := ?h, enc_ctr := ?F ?t\<rparr>"
  have tag: "map (\<lambda>pos. ?F (bswap32_block (block_of_words ?h)) ! pos XOR ?F ?t ! pos) [0..<tag_len] =
      take tag_len (msg_tag ?F (zval ctx) m)"
    using xor_take [OF aes.length_E [OF kc hb] aes.length_E [OF kc tb] l]
    by (simp add: msg_tag_def m(1) cwc_abs_def conjunct2 [OF c] crypt_view_def)
  have "cwc_compute_tag tag_len ctx =
      (if n_crypt m = n_auth m then RETURN_GOOD else RETURN_WARN, take tag_len (msg_tag ?F (zval ctx) m), ?c)"
    unfolding cwc_compute_tag_def if_not_P [OF ne] tag [symmetric] eq
    using cc fin f(2,4,5,6,7) encrypt_to_keyed [OF kc hb] encrypt_to_keyed [OF kc tb] put
    by (simp add: Let_def)
  moreover have "cwc_same key ctx ?c"
    using auth_frame_same [OF k conjunct1 [OF c]] aes.length_E [OF kc tb] by (auto simp: cwc_same_def cwc_keyed_def)
  ultimately show ?thesis by blast
qed

subsection \<open>Laws of the abstract operations\<close>

lemma mac_bytes_pending:
  "length (snd st) < 12 \<Longrightarrow> length (snd (mac_bytes z st xs)) = (length (snd st) + length xs) mod 12"
proof (induction xs arbitrary: st)
  case (Cons x xs)
  obtain h p where st: "st = (h, p)" by fastforce
  have "length (snd (mac_byte z st x)) < 12 \<and> length (snd (mac_byte z st x)) mod 12 = (length p + 1) mod 12"
    using Cons.prems by (auto simp: st mac_byte_def mac_flush_def CWC_ABLK_SIZE_def)
  then have "length (snd (mac_byte z st x)) < 12"
    "(length (snd (mac_byte z st x)) + length xs) mod 12 = (length p + 1 + length xs) mod 12"
    by (blast intro: mod_add_cong)+
  then show ?case using Cons.IH [of "mac_byte z st x"] by (simp add: st)
qed simp

lemma mac_pad_pending: "length (snd st) < 12 \<Longrightarrow> snd (mac_pad z st) = []"
  using mac_bytes_pending [of st z "replicate (12 - length (snd st)) 0"] by (auto simp: mac_pad_def)

lemma mac_pad_idem: "length (snd st) < 12 \<Longrightarrow> mac_pad z (mac_pad z st) = mac_pad z st"
  by (subst mac_pad_def) (simp add: mac_pad_pending)

lemma msg_header_append: "msg_header z (h1 @ h2) m = msg_header z h2 (msg_header z h1 m)"
  by (simp add: msg_header_def)

lemma msg_auth_append: "msg_auth z (d1 @ d2) m = msg_auth z d2 (msg_auth z d1 m)"
  by (auto simp: msg_auth_def)

lemma msg_crypt_append:
  "msg_crypt F (d1 @ d2) m =
    (fst (msg_crypt F d1 m) @ fst (msg_crypt F d2 (snd (msg_crypt F d1 m))), snd (msg_crypt F d2 (snd (msg_crypt F d1 m))))"
  by (simp add: msg_crypt_def ks_bytes_append)

lemma msg_auth_crypt:
  "msg_auth z c (snd (msg_crypt F d m)) = snd (msg_crypt F d (msg_auth z c m))"
  "fst (msg_crypt F d (msg_auth z c m)) = fst (msg_crypt F d m)"
  by (simp_all add: msg_auth_def msg_crypt_def)

lemma msg_encrypt_append:
  "msg_encrypt F z (d1 @ d2) m =
    (fst (msg_encrypt F z d1 m) @ fst (msg_encrypt F z d2 (snd (msg_encrypt F z d1 m))),
     snd (msg_encrypt F z d2 (snd (msg_encrypt F z d1 m))))"
  by (simp add: msg_encrypt_def case_prod_beta msg_crypt_append msg_auth_append
    msg_auth_crypt(1) [symmetric] msg_auth_crypt(2))

lemma msg_decrypt_encrypt:
  "msg_decrypt F z (fst (msg_encrypt F z d m)) m = (d, snd (msg_encrypt F z d m))"
proof -
  have "msg_crypt F (fst (msg_crypt F d m)) m = (d, snd (msg_crypt F d m))"
    by (simp add: msg_crypt_def ks_bytes_involution)
  then have "msg_crypt F (fst (msg_crypt F d m)) (msg_auth z c m) = (d, msg_auth z c (snd (msg_crypt F d m)))" for c
    using msg_auth_crypt [where z = z and c = c and F = F and d = "fst (msg_crypt F d m)" and m = m] by (simp add: prod_eq_iff)
  then show ?thesis by (simp add: msg_encrypt_def msg_decrypt_def case_prod_beta)
qed

text \<open>The text phases leave the header count, and the first 12 bytes of the counter block, as they are.\<close>

lemma ks_bytes_iv: "take 12 (fst (snd (snd (ks_bytes F st xs)))) = take 12 (fst (snd st))"
proof (induction xs arbitrary: st)
  case (Cons x xs)
  have "take 12 (be_inc c CTR_POS) = take 12 c" for c :: "byte list"
    by (simp add: be_inc_def CTR_POS_def Let_def)
  then show ?case by (simp add: Cons.IH case_prod_beta Let_def ks_next_def)
qed simp

lemma ks_bytes_fresh: "fst (ks_bytes F (0, ctr, ek) xs) = fst (ks_bytes F (0, ctr, ek') xs)"
  by (cases xs) (simp_all add: ks_next_def Let_def)

subsection \<open>Whole messages\<close>

definition iv_block :: "byte list \<Rightarrow> byte list" where
  "iv_block iv = 0x80 # map (\<lambda>i. iv ! i) [0..<11] @ replicate 4 0"

definition cwc_ciphertext :: "(byte list \<Rightarrow> byte list) \<Rightarrow> byte list \<Rightarrow> byte list \<Rightarrow> byte list" where
  "cwc_ciphertext F iv msg = fst (ks_bytes F (0, iv_block iv, replicate 16 0) msg)"

definition cwc_mac :: "u32 list \<Rightarrow> byte list \<Rightarrow> byte list \<Rightarrow> u32 list" where
  "cwc_mac z hdr ct = fst (mac_pad z (mac_bytes z (mac_pad z (mac_bytes z (replicate 8 0, []) hdr)) ct))"

definition cwc_tag :: "(byte list \<Rightarrow> byte list) \<Rightarrow> u32 list \<Rightarrow> byte list \<Rightarrow> byte list \<Rightarrow> byte list \<Rightarrow> byte list" where
  "cwc_tag F z iv hdr ct =
    xor_bytes (F (bswap32_block (block_of_words (cwc_final (cwc_mac z hdr ct) (length hdr) (length ct))))) (F (iv_block iv))"

definition msg_start :: "byte list \<Rightarrow> byte list \<Rightarrow> cwc_msg" where
  "msg_start iv ek = \<lparr>mac = (replicate 8 0, []), stream = (0, iv_block iv, ek), n_hdr = 0, n_crypt = 0, n_auth = 0\<rparr>"

lemma init_message_abs:
  assumes "cwc_keyed key ctx"
  shows "cwc_same key ctx (snd (cwc_init_message iv ctx))"
    and "cwc_abs (snd (cwc_init_message iv ctx)) = msg_start iv (enc_ctr ctx)"
    and "hdr_cnt (snd (cwc_init_message iv ctx)) = 0" "txt_acnt (snd (cwc_init_message iv ctx)) = 0"
      "txt_ccnt (snd (cwc_init_message iv ctx)) = 0"
proof -
  have "word_out 0 = replicate 4 0" by (simp add: word_out_byte_of byte_of_def eval_nat_numeral)
  then show "cwc_abs (snd (cwc_init_message iv ctx)) = msg_start iv (enc_ctr ctx)"
    by (simp add: cwc_init_message_def cwc_abs_def msg_start_def pending_def crypt_view_def iv_block_def)
qed (use assms in \<open>simp_all add: cwc_init_message_def cwc_same_def cwc_keyed_def\<close>)

lemma iv_block_take: "take 12 (iv_block iv) @ replicate 4 0 = iv_block iv"
  by (simp add: iv_block_def)

text \<open>The tag of a message that went through the header and the text phase.\<close>

lemma msg_tag_message:
  assumes "m = msg_auth z ct (msg_header z hdr (msg_start iv ek))"
  shows "msg_tag F z m = cwc_tag F z iv hdr ct"
proof -
  have p: "length (snd (mac_bytes z (replicate 8 0, []) hdr)) < 12"
    using mac_bytes_pending [of "(replicate 8 0, [])" z hdr] by simp
  have h: "fst (mac_pad z (mac m)) = cwc_mac z hdr ct"
    unfolding assms cwc_mac_def by (simp add: msg_auth_def msg_header_def msg_start_def mac_pad_idem [OF p])
  have n: "n_hdr m = length hdr" "n_auth m = length ct" "stream m = (0, iv_block iv, ek)"
    by (simp_all add: assms msg_auth_def msg_header_def msg_start_def)
  show ?thesis by (simp add: msg_tag_def cwc_tag_def h n iv_block_take)
qed

lemma msg_tag_crypt: "msg_tag F z (snd (msg_crypt F' d m)) = msg_tag F z m"
  by (simp add: msg_tag_def msg_crypt_def ks_bytes_iv)

lemma encrypt_phases:
  assumes "(c, m) = msg_encrypt F z msg (msg_header z hdr (msg_start iv ek))"
  shows "c = cwc_ciphertext F iv msg" "msg_tag F z m = cwc_tag F z iv hdr c" "n_crypt m = n_auth m"
proof -
  let ?h = "msg_header z hdr (msg_start iv ek)"
  have e: "c = fst (msg_crypt F msg ?h)" "m = snd (msg_crypt F msg (msg_auth z c ?h))"
    using assms by (simp_all add: msg_encrypt_def case_prod_beta msg_auth_crypt)
  show "c = cwc_ciphertext F iv msg"
    unfolding e cwc_ciphertext_def by (simp add: msg_crypt_def msg_header_def msg_start_def ks_bytes_fresh [of F _ ek])
  show "msg_tag F z m = cwc_tag F z iv hdr c"
    unfolding e(2) msg_tag_crypt by (rule msg_tag_message [OF refl])
  have "length c = length msg" by (simp add: e(1) msg_crypt_def)
  then show "n_crypt m = n_auth m" by (auto simp: e(2) msg_crypt_def msg_auth_def msg_header_def msg_start_def)
qed

lemma decrypt_phases:
  assumes "(p, m) = msg_decrypt F z ct (msg_header z hdr (msg_start iv ek))"
  shows "p = cwc_ciphertext F iv ct" "msg_tag F z m = cwc_tag F z iv hdr ct" "n_crypt m = n_auth m"
proof -
  let ?h = "msg_header z hdr (msg_start iv ek)"
  have e: "p = fst (msg_crypt F ct ?h)" "m = snd (msg_crypt F ct (msg_auth z ct ?h))"
    using assms by (simp_all add: msg_decrypt_def msg_auth_crypt prod_eq_iff)
  show "p = cwc_ciphertext F iv ct"
    unfolding e cwc_ciphertext_def by (simp add: msg_crypt_def msg_header_def msg_start_def ks_bytes_fresh [of F _ ek])
  show "msg_tag F z m = cwc_tag F z iv hdr ct"
    unfolding e(2) msg_tag_crypt by (rule msg_tag_message [OF refl])
  show "n_crypt m = n_auth m" by (simp add: e(2) msg_crypt_def msg_auth_def msg_header_def msg_start_def)
qed

end
