(* ===== verification/CwcProps.thy ===== *)
theory CwcProps
  imports Cwc
begin

text \<open>
  What the CWC code promises: its bignum arithmetic and the hash modulo
  \<open>2^127 - 1\<close>, with the inputs on which a carry is lost; whole messages against
  their specification, the round trip and the verdict of decryption; the
  independence of the result from the alignment of the buffers and from the way
  a message is cut into calls; the return values.
\<close>

subsection \<open>The hash over blocks\<close>

definition pad12 :: "byte list \<Rightarrow> byte list" where
  "pad12 xs = xs @ (if length xs mod 12 = 0 then [] else replicate (12 - length xs mod 12) 0)"

definition blocks12 :: "byte list \<Rightarrow> u32 list list" where
  "blocks12 xs = map (\<lambda>i. map (word_in (drop (12 * i) xs)) [0, 1, 2]) [0..<length xs div 12]"

lemma mac_bytes_fill:
  "length p + length xs \<le> 12 \<Longrightarrow> length p < 12 \<Longrightarrow> mac_bytes z (h, p) xs = mac_flush z (h, p @ xs)"
proof (induction xs arbitrary: p)
  case Nil
  then show ?case by (simp add: mac_flush_def CWC_ABLK_SIZE_def)
next
  case (Cons x xs)
  show ?case
  proof (cases xs)
    case Nil
    then show ?thesis by (simp add: mac_byte_def)
  next
    case (Cons y ys)
    then have "mac_byte z (h, p) x = (h, p @ [x])"
      using Cons.prems by (simp add: mac_byte_def mac_flush_def CWC_ABLK_SIZE_def)
    then show ?thesis using Cons.IH [of "p @ [x]"] Cons.prems Cons by simp
  qed
qed

lemma blocks12_first:
  assumes "length xs = 12 * Suc n"
  shows "blocks12 xs = map (word_in (take 12 xs)) [0, 1, 2] # blocks12 (drop 12 xs)"
proof -
  have "length xs div 12 = Suc n" "length (drop 12 xs) div 12 = n" using assms by simp_all
  moreover have "map (word_in xs) [0, 1, 2] = map (word_in (take 12 xs)) [0, 1, 2]"
    using map_word_in_take [of xs] assms by simp
  ultimately show ?thesis
    unfolding blocks12_def by (simp add: upt_conv_Cons map_Suc_upt [symmetric] o_def add.commute del: upt_Suc)
qed

lemma mac_bytes_blocks:
  "length xs = 12 * n \<Longrightarrow> mac_bytes z (h, []) xs = (fold (\<lambda>b. do_cwc b z) (blocks12 xs) h, [])"
proof (induction n arbitrary: xs h)
  case 0
  then show ?case by (simp add: blocks12_def)
next
  case (Suc n)
  have t: "length (take 12 xs) = 12" "length (drop 12 xs) = 12 * n" using Suc.prems by simp_all
  have "mac_bytes z (h, []) (take 12 xs) = mac_flush z (h, take 12 xs)"
    using mac_bytes_fill [of "[]" "take 12 xs"] t by simp
  then have "mac_bytes z (h, []) (take 12 xs) = (do_cwc (map (word_in (take 12 xs)) [0, 1, 2]) z h, [])"
    using t by (simp add: mac_flush_def CWC_ABLK_SIZE_def)
  moreover have "mac_bytes z (h, []) xs = mac_bytes z (mac_bytes z (h, []) (take 12 xs)) (drop 12 xs)"
    by (simp only: mac_bytes_simps [symmetric] append_take_drop_id)
  ultimately show ?case using Suc.IH [OF t(2)] by (simp only: blocks12_first [OF Suc.prems]) simp
qed

lemma length_pad12: "length (pad12 xs) = 12 * ((length xs + 11) div 12)"
proof -
  obtain q r where q: "length xs = 12 * q + r" "r < 12"
    using mult_div_mod_eq [of 12 "length xs"] mod_less_divisor [of 12 "length xs"] by (metis zero_less_numeral)
  then have "length xs mod 12 = r" by simp
  moreover have "(12 * q + r + 11) div 12 = (if r = 0 then q else Suc q)"
  proof -
    have "(12 * q + r + 11) div 12 = q + (r + 11) div 12"
      using div_mult_self1 [of 12 "r + 11" q] by (simp add: ac_simps)
    moreover have "(r + 11) div 12 = (if r = 0 then 0 else 1)" using q(2) by (auto simp: div_if)
    ultimately show ?thesis by simp
  qed
  ultimately show ?thesis using q by (simp add: pad12_def)
qed

lemma mac_pad_blocks: "mac_pad z (mac_bytes z (h, []) xs) = (fold (\<lambda>b. do_cwc b z) (blocks12 (pad12 xs)) h, [])"
proof -
  have l: "length (snd (mac_bytes z (h, []) xs)) = length xs mod 12"
    using mac_bytes_pending [of "(h, [])" z xs] by simp
  have "mac_pad z (mac_bytes z (h, []) xs) = mac_bytes z (h, []) (pad12 xs)"
    using l by (auto simp: mac_pad_def pad12_def)
  then show ?thesis using mac_bytes_blocks [OF length_pad12] by simp
qed

lemma cwc_mac_blocks:
  "cwc_mac z hdr ct = fold (\<lambda>b. do_cwc b z) (blocks12 (pad12 hdr) @ blocks12 (pad12 ct)) (replicate 8 0)"
  by (simp add: cwc_mac_def mac_pad_blocks)

lemma blocks12_length: "b \<in> set (blocks12 xs) \<Longrightarrow> length b = 3"
  by (auto simp: blocks12_def)

subsection \<open>Keying\<close>

text \<open>The hash key of an AES key: the encrypted block \<open>0xc0, 0, ...\<close> without its top bit, as four words.\<close>

definition cwc_z :: "byte list \<Rightarrow> u32 list" where
  "cwc_z key = (let b = aes_cipher key (0xc0 # replicate 15 0)
    in words_of_block (bswap32_block (b[0 := b ! 0 AND 0x7f])))"

definition be_val :: "byte list \<Rightarrow> nat" where
  "be_val bs = foldl (\<lambda>a b. a * 256 + unat b) 0 bs"

lemma unat_byte_of: "unat (byte_of w n) = unat w div 2 ^ (8 * n) mod 256"
proof (cases "8 * n < 32")
  case True
  then show ?thesis
    using unsigned_less [of w, where 'a = nat]
    by (simp add: byte_of_def unsigned_ucast_eq unsigned_drop_bit_eq drop_bit_nat_def take_bit_nat_def)
next
  case False
  then have "(2 :: nat) ^ 32 \<le> 2 ^ (8 * n)" by (intro power_increasing) simp_all
  then have "unat w div 2 ^ (8 * n) = 0" using unat_u32 [of w] by simp
  moreover have "byte_of w n = 0"
    using False by (intro bit_word_eqI) (auto simp: bit_byte_of dest: bit_imp_le_length)
  ultimately show ?thesis by simp
qed

lemma unat_bytes: "unat w = unat (byte_of w 0) + 256 * unat (byte_of w 1) + 65536 * unat (byte_of w 2) + 16777216 * unat (byte_of w 3)"
proof -
  obtain x where x: "unat w = x" by blast
  have "x < 256 * (256 * (256 * 256))" using unat_u32 [of w] x by simp
  moreover have "x = x mod 256 + 256 * (x div 256 mod 256 + 256 * (x div 256 div 256 mod 256 + 256 * (x div 256 div 256 div 256)))"
    by (metis add.commute mult_div_mod_eq)
  moreover have "x div 256 div 256 div 256 < 256"
    using calculation(1) by (simp add: div_less_iff_less_mult)
  ultimately show ?thesis
    unfolding unat_byte_of x by (simp add: div_mult2_eq [symmetric] algebra_simps)
qed

lemma unat_bswap_word:
  "unat (bswap_32 w) = unat (byte_of w 3) + 256 * unat (byte_of w 2) + 65536 * unat (byte_of w 1) + 16777216 * unat (byte_of w 0)"
  using unat_bytes [of "bswap_32 w"] by (simp add: byte_of_bswap_32)

lemma be_val_16:
  assumes "length b = 16"
  shows "wval (words_of_block (bswap32_block b)) = be_val b"
proof -
  have "word_in (bswap32_block b) i = bswap_32 (word_in b i)" if "i \<in> {0, 1, 2, 3}" for i
  proof -
    have "word_out (word_in (bswap32_block b) i) = word_out (bswap_32 (word_in b i))"
      using that assms
      by (elim list16_exhaust) (auto simp: bswap32_block word_out_bswap_32 word_out_word_in_bytes)
    then show ?thesis by (simp add: word_out_inj)
  qed
  then have "words_of_block (bswap32_block b) = map (\<lambda>i. bswap_32 (word_in b i)) [0, 1, 2, 3]"
    by (simp add: words_of_block_def)
  moreover from assms obtain b0 b1 b2 b3 b4 b5 b6 b7 b8 b9 b10 b11 b12 b13 b14 b15
    where "b = [b0, b1, b2, b3, b4, b5, b6, b7, b8, b9, b10, b11, b12, b13, b14, b15]" by (rule list16_exhaust)
  ultimately show ?thesis by (simp add: be_val_def unat_bswap_word)
qed

lemma be_val_top:
  "be_val (b # bs) = unat b * 256 ^ length bs + be_val bs" "be_val bs < 256 ^ length bs"
proof -
  have f: "foldl (\<lambda>a b. a * 256 + unat b) a bs = a * 256 ^ length bs + be_val bs" for a and bs :: "byte list"
  proof (induction bs arbitrary: a)
    case (Cons b bs)
    have "be_val (b # bs) = unat b * 256 ^ length bs + be_val bs"
      unfolding be_val_def [of "b # bs"] using Cons.IH [of "unat b"] by simp
    then show ?case using Cons.IH [of "a * 256 + unat b"] by (simp add: algebra_simps)
  qed (simp add: be_val_def)
  show "be_val (b # bs) = unat b * 256 ^ length bs + be_val bs" 
    unfolding be_val_def [of "b # bs"] using f [of "unat b" bs] by simp
  show "be_val bs < 256 ^ length bs"
  proof (induction bs)
    case (Cons b bs)
    have "unat b < 256" using unsigned_less [of b, where 'a = nat] by simp
    then have le: "(unat b + 1) * 256 ^ length bs \<le> 256 * 256 ^ length bs" by (intro mult_right_mono) simp_all
    have "be_val (b # bs) < unat b * 256 ^ length bs + 256 ^ length bs"
      using Cons f [of "unat b" bs] unfolding be_val_def [of "b # bs"] by simp
    also have "\<dots> = (unat b + 1) * 256 ^ length bs" by (simp add: algebra_simps)
    also note le
    finally show ?case by simp
  qed (simp add: be_val_def)
qed

lemma cwc_z_value:
  assumes "enc_keyed key e"
  shows "length (cwc_z key) = 4" "wval (cwc_z key) < 2 ^ 127"
    "wval (cwc_z key) = be_val (aes_cipher key (0xc0 # replicate 15 0)) mod 2 ^ 127"
proof -
  obtain b bs where b: "aes_cipher key (0xc0 # replicate 15 0) = b # bs" "length bs = 15"
    using aes.length_E [OF assms, of "0xc0 # replicate 15 0"] by (auto simp: length_Suc_conv eval_nat_numeral)
  have v: "wval (cwc_z key) = be_val ((b AND 0x7f) # bs)"
    using be_val_16 [of "(b AND 0x7f) # bs"] b by (simp add: cwc_z_def)
  have t: "be_val bs < 256 ^ 15" using be_val_top(2) [of bs] b(2) by simp
  have m: "unat (b AND 0x7f) = unat b mod 128"
  proof -
    have "b AND 0x7f = take_bit 7 b" by (simp add: take_bit_eq_mask mask_eq_exp_minus_1)
    then show ?thesis by (simp only: unsigned_take_bit_eq) (simp add: take_bit_nat_def)
  qed
  obtain u where u: "unat b = u" by blast
  have "(u * 256 ^ 15 + be_val bs) mod (128 * 256 ^ 15) = (u mod 128) * 256 ^ 15 + be_val bs"
  proof -
    obtain q m where q: "u div 128 = q" "u mod 128 = m" "u = 128 * q + m"
      using mult_div_mod_eq [of 128 u] by metis
    have "u * 256 ^ 15 + be_val bs = (u mod 128) * 256 ^ 15 + be_val bs + (u div 128) * (128 * 256 ^ 15)"
      unfolding q(1,2) by (subst q(3)) (simp only: distrib_right mult.assoc mult.left_commute add.assoc add.commute)
    moreover have "(u mod 128) * 256 ^ 15 + be_val bs < 128 * 256 ^ 15"
    proof -
      have "u mod 128 < 128" by simp
      then have "(u mod 128) * 256 ^ 15 \<le> 127 * 256 ^ 15" by (intro mult_right_mono) simp_all
      then show ?thesis using t by simp
    qed
    ultimately show ?thesis by (simp only: mod_mult_self1 mod_less)
  qed
  moreover have "(128 :: nat) * 256 ^ 15 = 2 ^ 127" by simp
  ultimately show e: "wval (cwc_z key) = be_val (aes_cipher key (0xc0 # replicate 15 0)) mod 2 ^ 127"
    unfolding v b(1) be_val_top(1) b(2) m u by simp
  show "wval (cwc_z key) < 2 ^ 127" unfolding e by simp
  show "length (cwc_z key) = 4" by (simp add: cwc_z_def words_of_block_def Let_def)
qed

lemma init_and_key:
  assumes "length key \<in> {16, 24, 32}"
  shows "\<exists>ctx'. cwc_init_and_key key (length key) ctx = (RETURN_GOOD, ctx') \<and> cwc_keyed key ctx' \<and> zval ctx' = cwc_z key"
proof -
  have "aes_key_len key (int (length key))" using assms by (simp add: aes_key_len_def)
  from enc_key_ctx [OF this, of "enc_ctx cwc_zero"] obtain e
    where e: "aes_encrypt_key key (int (length key)) (enc_ctx cwc_zero) = Some e" "enc_keyed key e"
    by (auto simp: cwc_zero_def KS_LENGTH_def)
  have z: "(replicate 16 0)[0 := 0xc0 :: byte] = 0xc0 # replicate 15 0" by (simp add: eval_nat_numeral)
  have "cwc_init_and_key key (length key) ctx =
      (RETURN_GOOD, cwc_zero\<lparr>enc_ctx := e, zval := cwc_z key\<rparr>)"
    using assms e encrypt_to_keyed [OF e(2), of "0xc0 # replicate 15 0"]
    by (auto simp: cwc_init_and_key_def Let_def z cwc_z_def)
  then show ?thesis using e(2) by (simp add: cwc_keyed_def cwc_zero_def)
qed

subsection \<open>Whole messages\<close>

lemma header_phase:
  assumes k: "cwc_keyed key ctx" and h: "length hdr < 2 ^ 32 - 4"
  obtains c where "cwc_auth_header al hdr (snd (cwc_init_message iv ctx)) = Some (RETURN_GOOD, c)" "cwc_same key ctx c"
    "cwc_abs c = msg_header (zval ctx) hdr (msg_start iv (enc_ctr ctx))" "txt_acnt c = 0" "txt_ccnt c = 0"
proof -
  let ?i = "snd (cwc_init_message iv ctx)"
  note i = init_message_abs [OF k, of iv]
  have h': "unat (hdr_cnt ?i) + length hdr < 2 ^ 32 - 4" using h i(3) by simp
  obtain c where a: "cwc_auth_header al hdr ?i = Some (RETURN_GOOD, c)" "cwc_same key ?i c"
    "cwc_abs c = msg_header (zval ?i) hdr (cwc_abs ?i)" "txt_acnt c = 0"
    using auth_header_abs [OF cwc_same_keyed [OF i(1)] i(4) h', of al] by blast
  have z: "zval ?i = zval ctx" using i(1) by (simp add: cwc_same_def)
  have "n_crypt (cwc_abs c) = 0" using a(3) i(2) by (simp add: msg_header_def msg_start_def)
  then have "txt_ccnt c = 0" by (simp add: cwc_abs_def unsigned_eq_0_iff)
  then show ?thesis
    by (intro that [of c]) (use a i(2) z cwc_same_trans [OF i(1) a(2)] in simp_all)
qed

lemma encrypt_message_ctx:
  assumes "cwc_keyed key ctx" "length hdr < 2 ^ 32 - 4" "length msg < 2 ^ 32 - 16" "tag_len \<le> 16"
  shows "\<exists>ctx'. cwc_encrypt_message (al1, al2, al3) iv hdr msg tag_len ctx =
      Some (RETURN_GOOD, cwc_ciphertext (aes_cipher key) iv msg,
       take tag_len (cwc_tag (aes_cipher key) (zval ctx) iv hdr (cwc_ciphertext (aes_cipher key) iv msg)), ctx') \<and>
    cwc_same key ctx ctx'"
proof -
  let ?F = "aes_cipher key"
  obtain c where c: "cwc_auth_header al1 hdr (snd (cwc_init_message iv ctx)) = Some (RETURN_GOOD, c)" "cwc_same key ctx c"
    "cwc_abs c = msg_header (zval ctx) hdr (msg_start iv (enc_ctr ctx))" "txt_acnt c = 0" "txt_ccnt c = 0"
    by (rule header_phase [OF assms(1,2)])
  have n: "unat (txt_ccnt c) + length msg < 2 ^ 32 - 16" "unat (txt_acnt c) + length msg < 2 ^ 32 - 4"
    using c(4,5) assms(3) by simp_all
  obtain out d where d: "cwc_encrypt al2 al3 msg c = Some (RETURN_GOOD, out, d)" "cwc_same key c d"
    "(out, cwc_abs d) = msg_encrypt ?F (zval c) msg (cwc_abs c)" using encrypt_abs [OF cwc_same_keyed [OF c(2)] n] by blast
  have z: "zval c = zval ctx" "zval d = zval ctx" using c(2) d(2) by (simp_all add: cwc_same_def)
  note ph = encrypt_phases [OF d(3) [unfolded c(3) z]]
  have "\<not> (n_auth (cwc_abs d) \<noteq> n_crypt (cwc_abs d) \<and> 0 < n_crypt (cwc_abs d))" using ph(3) by simp
  from compute_tag_abs [OF cwc_same_keyed [OF d(2)] assms(4) refl this] obtain e where
    e: "cwc_compute_tag tag_len d = (RETURN_GOOD, take tag_len (cwc_tag ?F (zval ctx) iv hdr out), e)" "cwc_same key d e"
    using ph(2,3) z(2) by auto
  have "cwc_encrypt_message (al1, al2, al3) iv hdr msg tag_len ctx =
      Some (RETURN_GOOD, out, take tag_len (cwc_tag ?F (zval ctx) iv hdr out), e)"
    by (simp add: cwc_encrypt_message_def case_prod_beta c(1) d(1) e(1))
  then show ?thesis using ph(1) cwc_same_trans [OF cwc_same_trans [OF c(2) d(2)] e(2)] by blast
qed

lemma decrypt_message_ctx:
  assumes "cwc_keyed key ctx" "length hdr < 2 ^ 32 - 4" "length msg < 2 ^ 32 - 16" "tag_len \<le> 16"
  shows "\<exists>ctx'. cwc_decrypt_message (al1, al2, al3) iv hdr msg tag tag_len ctx =
      Some (if take tag_len tag = take tag_len (cwc_tag (aes_cipher key) (zval ctx) iv hdr msg) then RETURN_GOOD else RETURN_ERROR,
       cwc_ciphertext (aes_cipher key) iv msg, ctx') \<and>
    cwc_same key ctx ctx'"
proof -
  let ?F = "aes_cipher key"
  obtain c where c: "cwc_auth_header al1 hdr (snd (cwc_init_message iv ctx)) = Some (RETURN_GOOD, c)" "cwc_same key ctx c"
    "cwc_abs c = msg_header (zval ctx) hdr (msg_start iv (enc_ctr ctx))" "txt_acnt c = 0" "txt_ccnt c = 0"
    by (rule header_phase [OF assms(1,2)])
  have n: "unat (txt_ccnt c) + length msg < 2 ^ 32 - 16" "unat (txt_acnt c) + length msg < 2 ^ 32 - 4"
    using c(4,5) assms(3) by simp_all
  obtain out d where d: "cwc_decrypt al3 al2 msg c = Some (RETURN_GOOD, out, d)" "cwc_same key c d"
    "(out, cwc_abs d) = msg_decrypt ?F (zval c) msg (cwc_abs c)" using decrypt_abs [OF cwc_same_keyed [OF c(2)] n] by blast
  have z: "zval c = zval ctx" "zval d = zval ctx" using c(2) d(2) by (simp_all add: cwc_same_def)
  note ph = decrypt_phases [OF d(3) [unfolded c(3) z]]
  have "\<not> (n_auth (cwc_abs d) \<noteq> n_crypt (cwc_abs d) \<and> 0 < n_crypt (cwc_abs d))" using ph(3) by simp
  from compute_tag_abs [OF cwc_same_keyed [OF d(2)] assms(4) refl this] obtain e where
    e: "cwc_compute_tag tag_len d = (RETURN_GOOD, take tag_len (cwc_tag ?F (zval ctx) iv hdr msg), e)" "cwc_same key d e"
    using ph(2,3) z(2) by auto
  have "cwc_decrypt_message (al1, al2, al3) iv hdr msg tag tag_len ctx =
      Some (if take tag_len tag = take tag_len (cwc_tag ?F (zval ctx) iv hdr msg) then RETURN_GOOD else RETURN_ERROR, out, e)"
    by (simp add: cwc_decrypt_message_def case_prod_beta c(1) d(1) e(1))
  then show ?thesis using ph(1) cwc_same_trans [OF cwc_same_trans [OF c(2) d(2)] e(2)] by blast
qed

text \<open>Longer headers and texts: the 32-bit counters wrap and a loop runs past the end of its buffer.\<close>

lemma message_none:
  assumes "cwc_keyed key ctx" "length hdr < 2 ^ 32" "length msg < 2 ^ 32"
    and "\<not> (length hdr < 2 ^ 32 - 4 \<and> length msg < 2 ^ 32 - 16)"
  shows "cwc_encrypt_message (al1, al2, al3) iv hdr msg tag_len ctx = None"
    and "cwc_decrypt_message (al1, al2, al3) iv hdr msg tag tag_len ctx = None"
proof -
  note i = init_message_abs [OF assms(1), of iv]
  have "(cwc_encrypt_message (al1, al2, al3) iv hdr msg tag_len ctx = None) \<and>
    cwc_decrypt_message (al1, al2, al3) iv hdr msg tag tag_len ctx = None"
  proof (cases "length hdr < 2 ^ 32 - 4")
    case True
    then have n: "2 ^ 32 - 16 \<le> length msg" using assms(4) by simp
    obtain c where c: "cwc_auth_header al1 hdr (snd (cwc_init_message iv ctx)) = Some (RETURN_GOOD, c)" "cwc_same key ctx c"
      "txt_acnt c = 0" "txt_ccnt c = 0" by (rule header_phase [OF assms(1) True])
    note k = cwc_same_keyed [OF c(2)]
    show ?thesis
      using encrypt_none [OF k c(4) n assms(3), of al2 al3] decrypt_none [OF k c(4,3) n assms(3), of al3 al2]
      by (simp add: cwc_encrypt_message_def cwc_decrypt_message_def case_prod_beta c(1))
  next
    case False
    then have "cwc_auth_header al1 hdr (snd (cwc_init_message iv ctx)) = None"
      using auth_header_none [OF cwc_same_keyed [OF i(1)] i(3)] assms(2) by simp
    then show ?thesis by (simp add: cwc_encrypt_message_def cwc_decrypt_message_def case_prod_beta)
  qed
  then show "cwc_encrypt_message (al1, al2, al3) iv hdr msg tag_len ctx = None"
    "cwc_decrypt_message (al1, al2, al3) iv hdr msg tag tag_len ctx = None" by simp_all
qed

lemma ciphertext_twice: "cwc_ciphertext F iv (cwc_ciphertext F iv msg) = msg"
  by (simp add: cwc_ciphertext_def ks_bytes_involution)

lemma length_ciphertext [simp]: "length (cwc_ciphertext F iv msg) = length msg"
  by (simp add: cwc_ciphertext_def)

text \<open>The context of the witnesses.\<close>

abbreviation zero_cwc_key :: "byte list" where "zero_cwc_key \<equiv> replicate 32 0"

lemma zero_cwc:
  "cwc_keyed zero_cwc_key (snd (cwc_init_and_key zero_cwc_key 32 cwc_zero))"
  "zval (snd (cwc_init_and_key zero_cwc_key 32 cwc_zero)) = cwc_z zero_cwc_key"
  using init_and_key [of zero_cwc_key cwc_zero] by auto

text \<open>C2: a call of \<open>cwc_encrypt_message\<close> on a keyed context returns the ciphertext and the tag of the mode: the text
  under the key stream, and the tag over header and ciphertext, cut to \<open>tag_len\<close>, whatever the alignment of the
  three buffers. It does so exactly for headers below \<open>2^32 - 4\<close> and texts below \<open>2^32 - 16\<close> bytes; for the longer
  ones that an \<open>unsigned long\<close> can state, a 32-bit counter wraps and a loop runs past the end of its buffer.\<close>

theorem cwc_encrypt_message_refines:
  assumes "cwc_keyed key ctx" "length hdr < 2 ^ 32" "length msg < 2 ^ 32" "tag_len \<le> 16"
  shows "if length hdr < 2 ^ 32 - 4 \<and> length msg < 2 ^ 32 - 16
    then \<exists>ctx'. cwc_encrypt_message als iv hdr msg tag_len ctx =
      Some (RETURN_GOOD, cwc_ciphertext (aes_cipher key) iv msg,
       take tag_len (cwc_tag (aes_cipher key) (zval ctx) iv hdr (cwc_ciphertext (aes_cipher key) iv msg)), ctx')
    else cwc_encrypt_message als iv hdr msg tag_len ctx = None"
proof -
  obtain a b c where als: "als = (a, b, c)" by (cases als)
  show ?thesis
    unfolding als using encrypt_message_ctx [OF assms(1) _ _ assms(4), of hdr msg a b c iv]
      message_none(1) [OF assms(1-3), of a b c iv tag_len] by (auto simp del: power_numeral)
qed

theorem cwc_encrypt_message_refines_witness:
  "\<exists>ctx'. cwc_encrypt_message (True, False, True) (replicate 11 7) [1, 2, 3] (replicate 40 9) 16
      (snd (cwc_init_and_key zero_cwc_key 32 cwc_zero)) =
    Some (RETURN_GOOD, cwc_ciphertext (aes_cipher zero_cwc_key) (replicate 11 7) (replicate 40 9),
     take 16 (cwc_tag (aes_cipher zero_cwc_key) (zval (snd (cwc_init_and_key zero_cwc_key 32 cwc_zero))) (replicate 11 7) [1, 2, 3]
       (cwc_ciphertext (aes_cipher zero_cwc_key) (replicate 11 7) (replicate 40 9))), ctx')"
  using cwc_encrypt_message_refines [OF zero_cwc(1), of "[1, 2, 3]" "replicate 40 9" 16 "(True, False, True)" "replicate 11 7"]
  by simp

text \<open>C1: what one context encrypts, another one with the same key decrypts and accepts, from the same \<open>iv\<close>, header
  and tag, for each tag length and alignment, as long as the header is shorter than \<open>2^32 - 4\<close> and the text shorter
  than \<open>2^32 - 16\<close> bytes.\<close>

theorem cwc_message_roundtrip:
  assumes "cwc_keyed key ctx" "cwc_keyed key ctx2" "zval ctx2 = zval ctx"
    and "length hdr < 2 ^ 32 - 4" "length msg < 2 ^ 32 - 16" "tag_len \<le> 16"
  shows "\<exists>c tag ctx' ctx2'. cwc_encrypt_message als iv hdr msg tag_len ctx = Some (RETURN_GOOD, c, tag, ctx') \<and>
    length c = length msg \<and> cwc_decrypt_message als2 iv hdr c tag tag_len ctx2 = Some (RETURN_GOOD, msg, ctx2')"
proof -
  let ?c = "cwc_ciphertext (aes_cipher key) iv msg"
  let ?t = "take tag_len (cwc_tag (aes_cipher key) (zval ctx) iv hdr ?c)"
  obtain a1 a2 a3 b1 b2 b3 where al: "als = (a1, a2, a3)" "als2 = (b1, b2, b3)" by (cases als, cases als2) auto
  obtain ctx' where "cwc_encrypt_message als iv hdr msg tag_len ctx = Some (RETURN_GOOD, ?c, ?t, ctx')"
    using encrypt_message_ctx [OF assms(1,4-6)] unfolding al by blast
  moreover obtain ctx2' where "cwc_decrypt_message als2 iv hdr ?c ?t tag_len ctx2 = Some (RETURN_GOOD, msg, ctx2')"
    using decrypt_message_ctx [OF assms(2,4) _ assms(6), of ?c b1 b2 b3 iv ?t] assms(3,5)
    unfolding al by (auto simp: ciphertext_twice)
  ultimately show ?thesis by (intro exI conjI) simp_all
qed

theorem cwc_message_roundtrip_witness:
  "\<exists>c tag ctx' ctx2'. cwc_encrypt_message (True, True, True) (replicate 11 7) [1, 2, 3] (replicate 40 9) 12
      (snd (cwc_init_and_key zero_cwc_key 32 cwc_zero)) = Some (RETURN_GOOD, c, tag, ctx') \<and> length c = length (replicate 40 (9 :: byte)) \<and>
    cwc_decrypt_message (False, False, True) (replicate 11 7) [1, 2, 3] c tag 12
      (snd (cwc_init_and_key zero_cwc_key 32 cwc_zero)) = Some (RETURN_GOOD, replicate 40 9, ctx2')"
  by (rule cwc_message_roundtrip [OF zero_cwc(1) zero_cwc(1)]) simp_all

text \<open>C3: decryption accepts a message exactly when the first \<open>tag_len\<close> bytes of the tag are those of the tag over
  header and ciphertext, and it overwrites the buffer with the decrypted bytes in both cases; with a header of
  \<open>2^32 - 4\<close> or a text of \<open>2^32 - 16\<close> bytes or more it runs past the end of the buffer and gives no verdict.\<close>

theorem cwc_decrypt_verdict:
  assumes "cwc_keyed key ctx" "length hdr < 2 ^ 32" "length msg < 2 ^ 32" "tag_len \<le> 16"
  shows "if length hdr < 2 ^ 32 - 4 \<and> length msg < 2 ^ 32 - 16
    then \<exists>ctx'. cwc_decrypt_message als iv hdr msg tag tag_len ctx =
      Some (if take tag_len tag = take tag_len (cwc_tag (aes_cipher key) (zval ctx) iv hdr msg) then RETURN_GOOD else RETURN_ERROR,
       cwc_ciphertext (aes_cipher key) iv msg, ctx')
    else cwc_decrypt_message als iv hdr msg tag tag_len ctx = None"
proof -
  obtain a b c where als: "als = (a, b, c)" by (cases als)
  show ?thesis
    unfolding als using decrypt_message_ctx [OF assms(1) _ _ assms(4), of hdr msg a b c iv tag]
      message_none(2) [OF assms(1-3), of a b c iv tag tag_len] by (auto simp del: power_numeral)
qed

theorem cwc_decrypt_verdict_witness:
  "\<exists>ctx'. cwc_decrypt_message (True, False, True) (replicate 11 7) [1, 2, 3] (replicate 5 9) (replicate 16 0) 16
      (snd (cwc_init_and_key zero_cwc_key 32 cwc_zero)) =
    Some (if take 16 (replicate 16 0) = take 16 (cwc_tag (aes_cipher zero_cwc_key)
        (zval (snd (cwc_init_and_key zero_cwc_key 32 cwc_zero))) (replicate 11 7) [1, 2, 3] (replicate 5 9))
     then RETURN_GOOD else RETURN_ERROR, cwc_ciphertext (aes_cipher zero_cwc_key) (replicate 11 7) (replicate 5 9), ctx')"
  using cwc_decrypt_verdict [OF zero_cwc(1), of "[1, 2, 3]" "replicate 5 9" 16 "(True, False, True)" "replicate 11 7" "replicate 16 0"]
  by simp

subsection \<open>Messages in parts\<close>

text \<open>Sequences of calls: the header in parts, then the text in parts, each with its own alignment.\<close>

fun cwc_headers :: "(bool \<times> byte list) list \<Rightarrow> cwc_ctx \<Rightarrow> cwc_ctx option" where
  "cwc_headers [] ctx = Some ctx"
| "cwc_headers ((al, h) # hs) ctx =
    (case cwc_auth_header al h ctx of None \<Rightarrow> None | Some (_, ctx) \<Rightarrow> cwc_headers hs ctx)"

fun cwc_encrypts :: "(bool \<times> bool \<times> byte list) list \<Rightarrow> cwc_ctx \<Rightarrow> (byte list \<times> cwc_ctx) option" where
  "cwc_encrypts [] ctx = Some ([], ctx)"
| "cwc_encrypts ((al_c, al_a, d) # ds) ctx =
    (case cwc_encrypt al_c al_a d ctx of None \<Rightarrow> None
     | Some (_, out, ctx) \<Rightarrow>
       (case cwc_encrypts ds ctx of None \<Rightarrow> None | Some (outs, ctx) \<Rightarrow> Some (out @ outs, ctx)))"

definition cwc_in_parts ::
  "(bool \<times> byte list) list \<Rightarrow> (bool \<times> bool \<times> byte list) list \<Rightarrow> byte list \<Rightarrow> nat \<Rightarrow> cwc_ctx \<Rightarrow>
   (ret_type \<times> byte list \<times> byte list \<times> cwc_ctx) option" where
  "cwc_in_parts hs ds iv tag_len ctx =
    (case cwc_headers hs (snd (cwc_init_message iv ctx)) of None \<Rightarrow> None
     | Some ctx \<Rightarrow>
       (case cwc_encrypts ds ctx of None \<Rightarrow> None
        | Some (out, ctx) \<Rightarrow> (case cwc_compute_tag tag_len ctx of (rr, tag, ctx) \<Rightarrow> Some (rr, out, tag, ctx))))"

lemma headers_abs:
  "cwc_keyed key ctx \<Longrightarrow> txt_acnt ctx = 0 \<Longrightarrow> unat (hdr_cnt ctx) + length (concat (map snd hs)) < 2 ^ 32 - 4 \<Longrightarrow>
    \<exists>c. cwc_headers hs ctx = Some c \<and> cwc_same key ctx c \<and> txt_acnt c = 0 \<and>
      cwc_abs c = msg_header (zval ctx) (concat (map snd hs)) (cwc_abs ctx)"
proof (induction hs arbitrary: ctx)
  case Nil
  then show ?case by (simp add: cwc_same_def msg_header_def)
next
  case (Cons ah hs)
  obtain al h where ah: "ah = (al, h)" by fastforce
  have l: "unat (hdr_cnt ctx) + length h < 2 ^ 32 - 4" using Cons.prems(3) by (simp add: ah)
  obtain c where a: "cwc_auth_header al h ctx = Some (RETURN_GOOD, c)" "cwc_same key ctx c"
    "cwc_abs c = msg_header (zval ctx) h (cwc_abs ctx)" "txt_acnt c = 0"
    using auth_header_abs [OF Cons.prems(1,2) l, of al] by blast
  have "unat (hdr_cnt c) = n_hdr (cwc_abs c)" by (simp add: cwc_abs_def)
  also have "\<dots> = unat (hdr_cnt ctx) + length h" unfolding a(3) by (simp add: msg_header_def cwc_abs_def)
  finally have n: "unat (hdr_cnt c) + length (concat (map snd hs)) < 2 ^ 32 - 4" using Cons.prems(3) by (simp add: ah)
  have z: "zval c = zval ctx" using a(2) by (simp add: cwc_same_def)
  show ?case
    using Cons.IH [OF cwc_same_keyed [OF a(2)] a(4) n] a(1,3) z cwc_same_trans [OF a(2)]
    by (auto simp: ah msg_header_append)
qed

lemma encrypts_abs:
  "cwc_keyed key ctx \<Longrightarrow> n_crypt (cwc_abs ctx) + length (concat (map (\<lambda>a. snd (snd a)) ds)) < 2 ^ 32 - 16 \<Longrightarrow>
    n_auth (cwc_abs ctx) + length (concat (map (\<lambda>a. snd (snd a)) ds)) < 2 ^ 32 - 16 \<Longrightarrow>
    \<exists>out c. cwc_encrypts ds ctx = Some (out, c) \<and> cwc_same key ctx c \<and>
      (out, cwc_abs c) = msg_encrypt (aes_cipher key) (zval ctx) (concat (map (\<lambda>a. snd (snd a)) ds)) (cwc_abs ctx)"
proof (induction ds arbitrary: ctx)
  case Nil
  then show ?case by (simp add: cwc_same_def msg_encrypt_def msg_crypt_def msg_auth_def)
next
  case (Cons ad ds)
  obtain a1 a2 d where ad: "ad = (a1, a2, d)" by (metis prod_cases3)
  let ?F = "aes_cipher key"
  have n: "unat (txt_ccnt ctx) + length d < 2 ^ 32 - 16" "unat (txt_acnt ctx) + length d < 2 ^ 32 - 4"
    using Cons.prems(2,3) by (simp_all add: ad cwc_abs_def)
  obtain out c where c: "cwc_encrypt a1 a2 d ctx = Some (RETURN_GOOD, out, c)" "cwc_same key ctx c"
    "(out, cwc_abs c) = msg_encrypt ?F (zval ctx) d (cwc_abs ctx)" using encrypt_abs [OF Cons.prems(1) n] by blast
  have o: "out = fst (msg_encrypt ?F (zval ctx) d (cwc_abs ctx))" "cwc_abs c = snd (msg_encrypt ?F (zval ctx) d (cwc_abs ctx))"
    unfolding c(3) [symmetric] by simp_all
  have "n_crypt (cwc_abs c) = n_crypt (cwc_abs ctx) + length d" "n_auth (cwc_abs c) = n_auth (cwc_abs ctx) + length d"
    unfolding o(2) by (auto simp: msg_encrypt_def case_prod_beta msg_crypt_def msg_auth_def)
       (metis length_0_conv length_ks_bytes)
  then have m: "n_crypt (cwc_abs c) + length (concat (map (\<lambda>a. snd (snd a)) ds)) < 2 ^ 32 - 16"
    "n_auth (cwc_abs c) + length (concat (map (\<lambda>a. snd (snd a)) ds)) < 2 ^ 32 - 16" using Cons.prems(2,3) by (simp_all add: ad)
  have z: "zval c = zval ctx" using c(2) by (simp add: cwc_same_def)
  obtain outs e where e: "cwc_encrypts ds c = Some (outs, e)" "cwc_same key c e"
    "(outs, cwc_abs e) = msg_encrypt ?F (zval ctx) (concat (map (\<lambda>a. snd (snd a)) ds)) (cwc_abs c)"
    using Cons.IH [OF cwc_same_keyed [OF c(2)] m] z by auto
  have "(out @ outs, cwc_abs e) = msg_encrypt ?F (zval ctx) (concat (map (\<lambda>a. snd (snd a)) (ad # ds))) (cwc_abs ctx)"
    using e(3) by (simp add: ad msg_encrypt_append o(1) [symmetric] o(2) prod_eq_iff)
  then show ?case using c(1) e(1) cwc_same_trans [OF c(2) e(2)] by (simp add: ad)
qed

text \<open>C6: a message may be given in parts: any sequence of \<open>cwc_auth_header\<close> calls followed by any sequence of
  \<open>cwc_encrypt\<close> calls, empty parts and unaligned buffers included, gives the ciphertext and the tag that
  \<open>cwc_encrypt_message\<close> gives for the whole header and the whole text, as long as these are shorter than
  \<open>2^32 - 4\<close> and \<open>2^32 - 16\<close> bytes.\<close>

theorem cwc_parts:
  assumes "cwc_keyed key ctx" "length (concat (map snd hs)) < 2 ^ 32 - 4"
    "length (concat (map (\<lambda>a. snd (snd a)) ds)) < 2 ^ 32 - 16" "tag_len \<le> 16"
  shows "\<exists>c tag ctx1 ctx2. cwc_in_parts hs ds iv tag_len ctx = Some (RETURN_GOOD, c, tag, ctx1) \<and>
    cwc_encrypt_message als iv (concat (map snd hs)) (concat (map (\<lambda>a. snd (snd a)) ds)) tag_len ctx =
      Some (RETURN_GOOD, c, tag, ctx2)"
proof -
  let ?F = "aes_cipher key" and ?h = "concat (map snd hs)" and ?d = "concat (map (\<lambda>a. snd (snd a)) ds)"
  let ?i = "snd (cwc_init_message iv ctx)"
  note i = init_message_abs [OF assms(1), of iv]
  have n: "unat (hdr_cnt ?i) + length ?h < 2 ^ 32 - 4" using assms(2) i(3) by simp
  obtain c where h: "cwc_headers hs ?i = Some c" "cwc_same key ?i c" "cwc_abs c = msg_header (zval ?i) ?h (cwc_abs ?i)"
    using headers_abs [OF cwc_same_keyed [OF i(1)] i(4) n] by blast
  have kc: "cwc_keyed key c" using h(2) cwc_same_keyed by blast
  have z: "zval ?i = zval ctx" "zval c = zval ctx" using i(1) h(2) by (simp_all add: cwc_same_def)
  have a: "cwc_abs c = msg_header (zval ctx) ?h (msg_start iv (enc_ctr ctx))" using h(3) i(2) z(1) by simp
  have m: "n_crypt (cwc_abs c) + length ?d < 2 ^ 32 - 16" "n_auth (cwc_abs c) + length ?d < 2 ^ 32 - 16"
    unfolding a using assms(3) by (simp_all add: msg_header_def msg_start_def)
  obtain out d where e: "cwc_encrypts ds c = Some (out, d)" "cwc_same key c d"
    "(out, cwc_abs d) = msg_encrypt ?F (zval ctx) ?d (msg_header (zval ctx) ?h (msg_start iv (enc_ctr ctx)))"
    using encrypts_abs [OF kc m, unfolded z(2) a] by blast
  note ph = encrypt_phases [OF e(3)]
  have z1: "zval d = zval ctx" using e(2) z(2) by (simp add: cwc_same_def)
  have "\<not> (n_auth (cwc_abs d) \<noteq> n_crypt (cwc_abs d) \<and> 0 < n_crypt (cwc_abs d))" using ph(3) by simp
  from compute_tag_abs [OF cwc_same_keyed [OF e(2)] assms(4) refl this] obtain ctx2 where
    "cwc_compute_tag tag_len d = (RETURN_GOOD, take tag_len (cwc_tag ?F (zval ctx) iv ?h out), ctx2)"
    using ph(2,3) z1 by auto
  then have "cwc_in_parts hs ds iv tag_len ctx = Some (RETURN_GOOD, out, take tag_len (cwc_tag ?F (zval ctx) iv ?h out), ctx2)"
    by (simp add: cwc_in_parts_def h(1) e(1))
  then show ?thesis
    using encrypt_message_ctx [OF assms, of "fst als" "fst (snd als)" "snd (snd als)" iv] ph(1) by auto
qed

theorem cwc_parts_witness:
  "\<exists>c tag ctx1 ctx2. cwc_in_parts [(True, [5]), (False, replicate 20 6)] [(True, True, [1, 2]), (False, True, []), (True, False, replicate 33 9)]
      (replicate 11 7) 16 (snd (cwc_init_and_key zero_cwc_key 32 cwc_zero)) = Some (RETURN_GOOD, c, tag, ctx1) \<and>
    cwc_encrypt_message (True, True, True) (replicate 11 7) (5 # replicate 20 6) (1 # 2 # replicate 33 9) 16
      (snd (cwc_init_and_key zero_cwc_key 32 cwc_zero)) = Some (RETURN_GOOD, c, tag, ctx2)"
  using cwc_parts [OF zero_cwc(1), of "[(True, [5]), (False, replicate 20 6)]"
    "[(True, True, [1, 2]), (False, True, []), (True, False, replicate 33 9)]" 16 "replicate 11 7" "(True, True, True)"]
  by simp

subsection \<open>Keys, counters, return values\<close>

text \<open>\<open>cwc_init_and_key\<close> refuses every key length but 16, 24 and 32 and leaves the context alone then; otherwise
  it gives a context keyed for AES whose hash key is the encrypted block \<open>0xc0, 0, ...\<close> read as a number in
  big-endian order, without its top bit.\<close>

theorem cwc_key_setup:
  "(key_len \<notin> {16, 24, 32} \<longrightarrow> cwc_init_and_key key key_len ctx = (RETURN_ERROR, ctx)) \<and>
   (length key \<in> {16, 24, 32} \<longrightarrow>
     (\<exists>ctx'. cwc_init_and_key key (length key) ctx = (RETURN_GOOD, ctx') \<and> cwc_keyed key ctx' \<and> length (zval ctx') = 4 \<and>
       wval (zval ctx') = be_val (aes_cipher key (0xc0 # replicate 15 0)) mod 2 ^ 127))"
proof -
  have "\<exists>ctx'. cwc_init_and_key key (length key) ctx = (RETURN_GOOD, ctx') \<and> cwc_keyed key ctx' \<and> length (zval ctx') = 4 \<and>
       wval (zval ctx') = be_val (aes_cipher key (0xc0 # replicate 15 0)) mod 2 ^ 127" if k: "length key \<in> {16, 24, 32}"
  proof -
    obtain c where c: "cwc_init_and_key key (length key) ctx = (RETURN_GOOD, c)" "cwc_keyed key c" "zval c = cwc_z key"
      using init_and_key [OF k, of ctx] by blast
    have "enc_keyed key (enc_ctx c)" using c(2) by (simp add: cwc_keyed_def)
    from cwc_z_value [OF this] show ?thesis using c by auto
  qed
  then show ?thesis by (auto simp: cwc_init_and_key_def)
qed

theorem cwc_key_setup_witness:
  "cwc_init_and_key zero_cwc_key 20 cwc_zero = (RETURN_ERROR, cwc_zero) \<and>
   (\<exists>ctx'. cwc_init_and_key zero_cwc_key (length zero_cwc_key) cwc_zero = (RETURN_GOOD, ctx') \<and> cwc_keyed zero_cwc_key ctx')"
  using cwc_key_setup [of 20 zero_cwc_key cwc_zero] by auto

text \<open>The counter is the number in the last four bytes of \<open>ctr_val\<close>.\<close>

lemma unat_byte: "unat (b :: byte) < 256"
  using unsigned_less [of b, where 'a = nat] by simp

lemma inc_byte: "unat (x + 1 :: byte) = (if x + 1 = 0 then 0 else unat x + 1)" "x + 1 = 0 \<longleftrightarrow> unat x = 255"
proof -
  have u: "unat (x + 1) = (unat x + 1) mod 256" by (simp add: unat_word_ariths)
  show z: "x + 1 = 0 \<longleftrightarrow> unat x = 255"
  proof
    assume "x + 1 = 0"
    then show "unat x = 255" using u unat_byte [of x] by (simp add: mod_if split: if_splits)
  next
    assume "unat x = 255"
    then have "unat (x + 1) = 0" using u by simp
    then show "x + 1 = 0" by (simp only: unsigned_eq_0_iff)
  qed
  show "unat (x + 1) = (if x + 1 = 0 then 0 else unat x + 1)" using u z unat_byte [of x] by (auto simp: mod_if)
qed

lemma ctr_inc:
  assumes "length c = 16"
  shows "take 12 (be_inc c CTR_POS) = take 12 c"
    and "be_val (drop 12 (be_inc c CTR_POS)) = (be_val (drop 12 c) + 1) mod 2 ^ 32"
proof -
  show "take 12 (be_inc c CTR_POS) = take 12 c" by (simp add: be_inc_def CTR_POS_def Let_def)
  from assms obtain c0 c1 c2 c3 c4 c5 c6 c7 c8 c9 c10 c11 a b d e
    where c: "c = [c0, c1, c2, c3, c4, c5, c6, c7, c8, c9, c10, c11, a, b, d, e]" by (rule list16_exhaust)
  have i: "drop 12 (be_inc c CTR_POS) =
      (if e + 1 \<noteq> 0 then [a, b, d, e + 1] else if d + 1 \<noteq> 0 then [a, b, d + 1, 0]
       else if b + 1 \<noteq> 0 then [a, b + 1, 0, 0] else [a + 1, 0, 0, 0])"
    by (simp add: c be_inc_def CTR_POS_def Let_def)
  have v: "be_val [w, x, y, z] = unat w * 16777216 + unat x * 65536 + unat y * 256 + unat z" for w x y z
    by (simp add: be_val_def)
  have d: "drop 12 c = [a, b, d, e]" by (simp add: c)
  show "be_val (drop 12 (be_inc c CTR_POS)) = (be_val (drop 12 c) + 1) mod 2 ^ 32"
    using unat_byte [of a] unat_byte [of b] unat_byte [of d] unat_byte [of e]
    unfolding i d by (auto simp: v inc_byte)
qed

lemma ctr_inc_n:
  assumes "length c = 16"
  shows "length (((\<lambda>c. be_inc c CTR_POS) ^^ n) c) = 16 \<and> take 12 (((\<lambda>c. be_inc c CTR_POS) ^^ n) c) = take 12 c \<and>
    be_val (drop 12 (((\<lambda>c. be_inc c CTR_POS) ^^ n) c)) = (be_val (drop 12 c) + n) mod 2 ^ 32"
proof (induction n)
  case 0
  have "be_val (drop 12 c) < 2 ^ 32" using be_val_top(2) [of "drop 12 c"] assms by simp
  then show ?case using assms by simp
next
  case (Suc n)
  let ?c = "((\<lambda>c. be_inc c CTR_POS) ^^ n) c"
  have "be_val (drop 12 (be_inc ?c CTR_POS)) = (be_val (drop 12 c) + Suc n) mod 2 ^ 32"
    using ctr_inc(2) [of ?c] Suc by (simp add: mod_simps)
  then show ?case using ctr_inc(1) [of ?c] Suc by simp
qed

definition ctr_block :: "byte list \<Rightarrow> nat \<Rightarrow> byte list" where
  "ctr_block iv n = ((\<lambda>c. be_inc c CTR_POS) ^^ n) (iv_block iv)"

lemma length_iv_block [simp]: "length (iv_block iv) = 16"
  by (simp add: iv_block_def)

lemma ctr_block_value: "length (ctr_block iv n) = 16 \<and> take 12 (ctr_block iv n) = 0x80 # map (\<lambda>i. iv ! i) [0..<11] \<and>
    be_val (drop 12 (ctr_block iv n)) = n mod 2 ^ 32"
proof -
  have "be_val (drop 12 (iv_block iv)) = 0" by (simp add: iv_block_def be_val_def eval_nat_numeral)
  moreover have "take 12 (iv_block iv) = 0x80 # map (\<lambda>i. iv ! i) [0..<11]" by (simp add: iv_block_def)
  ultimately show ?thesis using ctr_inc_n [of "iv_block iv" n] by (simp add: ctr_block_def)
qed

lemma ks_bytes_nth:
  "i < length xs \<Longrightarrow> pos < 16 \<Longrightarrow> (0 < pos \<longrightarrow> ek = F (((\<lambda>c. be_inc c CTR_POS) ^^ n) c)) \<Longrightarrow>
    fst (ks_bytes F (pos, ((\<lambda>c. be_inc c CTR_POS) ^^ n) c, ek) xs) ! i =
      xs ! i XOR F (((\<lambda>c. be_inc c CTR_POS) ^^ (if pos = 0 then n + (i div 16 + 1) else n + (pos + i) div 16)) c) ! ((pos + i) mod 16)"
proof (induction xs arbitrary: pos ek n i)
  case (Cons x xs)
  let ?I = "\<lambda>n. ((\<lambda>c. be_inc c CTR_POS) ^^ n) c"
  let ?n = "if pos = 0 then Suc n else n"
  have nx: "ks_next F (pos, ?I n, ek) = (pos, ?I ?n, F (?I ?n))" using Cons.prems(3) by (simp add: ks_next_def Let_def)
  show ?case
  proof (cases i)
    case 0
    then show ?thesis using Cons.prems(2) nx by (simp add: Let_def)
  next
    case (Suc j)
    have "fst (ks_bytes F ((pos + 1) mod 16, ?I ?n, F (?I ?n)) xs) ! j = xs ! j XOR
        F (?I (if (pos + 1) mod 16 = 0 then ?n + (j div 16 + 1) else ?n + ((pos + 1) mod 16 + j) div 16)) ! (((pos + 1) mod 16 + j) mod 16)"
      by (rule Cons.IH) (use Cons.prems(1) Suc in simp_all)
    moreover have "(if (pos + 1) mod 16 = 0 then ?n + (j div 16 + 1) else ?n + ((pos + 1) mod 16 + j) div 16) =
        (if pos = 0 then n + (i div 16 + 1) else n + (pos + i) div 16)"
    proof (cases "pos = 15")
      case True
      have "(15 + Suc j) div 16 = j div 16 + 1" by simp
      then show ?thesis using True Suc by simp
    next
      case False
      then show ?thesis using Cons.prems(2) Suc by simp
    qed
    moreover have "((pos + 1) mod 16 + j) mod 16 = (pos + i) mod 16" by (simp add: Suc mod_simps)
    ultimately show ?thesis using nx by (simp add: Let_def Suc)
  qed
qed simp

text \<open>Byte \<open>i\<close> of the text is masked with byte \<open>i mod 16\<close> of the encryption of counter block \<open>i div 16 + 1\<close>: the byte
  \<open>0x80\<close>, eleven bytes of \<open>iv\<close> and the number of the block in big-endian order. Up to \<open>2^32 - 1\<close> blocks no counter block
  occurs twice, and none is the block \<open>0\<close> that masks the tag.\<close>

theorem cwc_key_stream:
  "(i < length msg \<longrightarrow> cwc_ciphertext F iv msg ! i = msg ! i XOR F (ctr_block iv (i div 16 + 1)) ! (i mod 16)) \<and>
   take 12 (ctr_block iv n) = 0x80 # map (\<lambda>i. iv ! i) [0..<11] \<and> be_val (drop 12 (ctr_block iv n)) = n mod 2 ^ 32 \<and>
   (m < 2 ^ 32 \<and> n < 2 ^ 32 \<and> ctr_block iv m = ctr_block iv n \<longrightarrow> m = n) \<and> ctr_block iv 0 = iv_block iv"
proof -
  have a: "m = n" if "m < 2 ^ 32" "n < 2 ^ 32" "ctr_block iv m = ctr_block iv n" for m n
  proof -
    have "m mod 2 ^ 32 = n mod 2 ^ 32" using ctr_block_value [of iv m] ctr_block_value [of iv n] that(3) by metis
    then show ?thesis using that(1,2) by simp
  qed
  have b: "cwc_ciphertext F iv msg ! i = msg ! i XOR F (ctr_block iv (i div 16 + 1)) ! (i mod 16)" if "i < length msg"
    using ks_bytes_nth [OF that, of 0 "replicate 16 0" F 0 "iv_block iv"]
    unfolding cwc_ciphertext_def ctr_block_def by (simp only: funpow_0 if_True add_0 less_irrefl simp_thms zero_less_numeral)
  have "ctr_block iv 0 = iv_block iv" by (simp add: ctr_block_def)
  with a b ctr_block_value [of iv n] show ?thesis by blast
qed

theorem cwc_key_stream_witness:
  "cwc_ciphertext (aes_cipher zero_cwc_key) (replicate 11 7) (replicate 40 9) ! 33 =
    9 XOR aes_cipher zero_cwc_key (ctr_block (replicate 11 7) 3) ! 1 \<and>
   ctr_block (replicate 11 7) 3 \<noteq> ctr_block (replicate 11 7) 4"
proof -
  note t = cwc_key_stream [where i = 33 and msg = "replicate 40 9" and F = "aes_cipher zero_cwc_key" and iv = "replicate 11 7" and n = 3 and m = 4]
  have d: "(33 :: nat) < length (replicate 40 (9 :: byte))" "(33 :: nat) div 16 + 1 = 3" "(33 :: nat) mod 16 = 1"
    "replicate 40 (9 :: byte) ! 33 = 9" by simp_all
  have b: "(4 :: nat) < 2 ^ 32" "(3 :: nat) < 2 ^ 32" "(4 :: nat) \<noteq> 3" by simp_all
  from t [unfolded d(2,3,4)] d(1) b show ?thesis by metis
qed

text \<open>C11: \<open>cwc_compute_tag\<close> tells the uses apart by its return value: when text was both encrypted and authenticated but
  not to the same length it is an error and the context and the tag are left alone, text that was only authenticated
  gives a tag and a warning, and equal lengths give a tag and success.\<close>

theorem cwc_tag_states:
  assumes "cwc_keyed key ctx" "tag_len \<le> 16"
  shows "if txt_acnt ctx \<noteq> txt_ccnt ctx \<and> 0 < txt_ccnt ctx
    then cwc_compute_tag tag_len ctx = (RETURN_ERROR, [], ctx)
    else \<exists>ctx'. cwc_compute_tag tag_len ctx =
      (if txt_ccnt ctx = txt_acnt ctx then RETURN_GOOD else RETURN_WARN,
       take tag_len (msg_tag (aes_cipher key) (zval ctx) (cwc_abs ctx)), ctx')"
proof (cases "txt_acnt ctx \<noteq> txt_ccnt ctx \<and> 0 < txt_ccnt ctx")
  case True
  then show ?thesis by (simp add: cwc_compute_tag_def)
next
  case False
  then have "\<not> (n_auth (cwc_abs ctx) \<noteq> n_crypt (cwc_abs ctx) \<and> 0 < n_crypt (cwc_abs ctx))"
    by (auto simp: cwc_abs_def word_less_nat_alt)
  from compute_tag_abs [OF assms refl this] obtain ctx' where
    "cwc_compute_tag tag_len ctx = (if n_crypt (cwc_abs ctx) = n_auth (cwc_abs ctx) then RETURN_GOOD else RETURN_WARN,
      take tag_len (msg_tag (aes_cipher key) (zval ctx) (cwc_abs ctx)), ctx')" by blast
  moreover have "n_crypt (cwc_abs ctx) = n_auth (cwc_abs ctx) \<longleftrightarrow> txt_ccnt ctx = txt_acnt ctx"
    by (auto simp: cwc_abs_def intro: unsigned_word_eqI)
  ultimately show ?thesis using False by auto
qed

theorem cwc_tag_states_witness:
  "\<exists>ctx'. cwc_compute_tag 16 (snd (cwc_init_and_key zero_cwc_key 32 cwc_zero)\<lparr>txt_acnt := 5, txt_ccnt := 0\<rparr>) =
      (RETURN_WARN, take 16 (msg_tag (aes_cipher zero_cwc_key) (zval (snd (cwc_init_and_key zero_cwc_key 32 cwc_zero)))
        (cwc_abs (snd (cwc_init_and_key zero_cwc_key 32 cwc_zero)\<lparr>txt_acnt := 5, txt_ccnt := 0\<rparr>))), ctx')"
  using cwc_tag_states [of zero_cwc_key "snd (cwc_init_and_key zero_cwc_key 32 cwc_zero)\<lparr>txt_acnt := 5, txt_ccnt := 0\<rparr>" 16]
    zero_cwc(1) by (simp add: cwc_keyed_def)

subsection \<open>The hash\<close>

lemma fold_top_mod: "length h = 4 \<or> length h = 8 \<Longrightarrow> wval (take 4 (fold_top h)) mod P127 = wval (take 4 h) mod P127"
  using top_fold(1) [of h "wval (take 4 h)"] by (auto simp: le_mod_geq)

lemma cwc_final_value:
  assumes "hash_ok h" "n_h < 2 ^ 32" "n_a < 2 ^ 32"
  shows "wval (take 4 (cwc_final h n_h n_a)) mod P127 = (wval (take 4 h) + n_h * 2 ^ 64 + n_a) mod P127"
proof -
  let ?r = "[0, of_nat n_h, 0, of_nat n_a] :: u32 list"
  have h: "length h = 8" "wval (take 4 h) \<le> 2 ^ 127" using assms(1) by (simp_all add: hash_ok_def)
  have u: "unat (of_nat n_h :: u32) = n_h" "unat (of_nat n_a :: u32) = n_a"
    using assms(2,3) by (simp_all add: unsigned_of_nat take_bit_nat_def)
  have r: "wval ?r = n_h * 2 ^ 64 + n_a" by (simp add: u)
  have lt: "wval ?r < 2 ^ 127" unfolding r using assms(2,3) by simp
  have l: "4 \<le> length h" "4 \<le> length ?r" using h(1) by simp_all
  have t: "take 4 ?r = ?r" by simp
  have "wval (take 4 h) + wval ?r < 2 ^ 127 + 2 ^ 127" by (rule add_le_less_mono [OF h(2) lt])
  also have "\<dots> = 2 ^ 128" by simp
  finally have "(wval (take 4 h) + wval ?r) mod 2 ^ 128 = wval (take 4 h) + wval ?r" by (rule mod_less)
  then have v: "wval (take 4 (add_4 h ?r)) = wval (take 4 h) + (n_h * 2 ^ 64 + n_a)"
    unfolding add_4_value(1) [OF l] t using r by simp
  have l8: "length (add_4 h ?r) = 4 \<or> length (add_4 h ?r) = 8" using add_4_value(3) [OF l] h(1) by simp
  show ?thesis unfolding cwc_final_def fold_top_mod [OF l8] v by (simp add: add.assoc)
qed

text \<open>C7: the hash of header and ciphertext is the polynomial of their padded 12-byte blocks in the hash key modulo \<open>2^127 - 1\<close>,
  and the value that is encrypted for the tag adds both lengths to it; this holds for every hash key up to
  \<open>2^127 - 2^97\<close>.\<close>

theorem cwc_hash_polynomial:
  assumes "zval_ok z" "bs = blocks12 (pad12 hdr) @ blocks12 (pad12 ct)" "length hdr < 2 ^ 32" "length ct < 2 ^ 32"
  shows "wval (take 4 (cwc_mac z hdr ct)) mod P127 = (\<Sum>i<length bs. wval (bs ! i) * wval z ^ (length bs - i)) mod P127 \<and>
    wval (take 4 (cwc_final (cwc_mac z hdr ct) (length hdr) (length ct))) mod P127 =
      ((\<Sum>i<length bs. wval (bs ! i) * wval z ^ (length bs - i)) + length hdr * 2 ^ 64 + length ct) mod P127"
proof -
  have ok: "\<forall>b\<in>set bs. length b = 3" using assms(2) by (auto dest: blocks12_length)
  have "take 4 (replicate 8 0) = [0, 0, 0, 0 :: u32]" by (simp add: eval_nat_numeral)
  then have w0: "wval (take 4 (replicate 8 0)) = 0" by simp
  then have h0: "hash_ok (replicate 8 0)" by (simp add: hash_ok_def)
  have m: "cwc_mac z hdr ct = fold (\<lambda>b. do_cwc b z) bs (replicate 8 0)" unfolding assms(2) by (rule cwc_mac_blocks)
  have p: "wval (take 4 (cwc_mac z hdr ct)) mod P127 = (\<Sum>i<length bs. wval (bs ! i) * wval z ^ (length bs - i)) mod P127"
    using cwc.fold_polynomial [OF assms(1) h0 ok] unfolding m w0 by simp
  have hm: "hash_ok (cwc_mac z hdr ct)" unfolding m by (rule cwc.fold_ok [OF assms(1) h0 ok])
  have "(wval (take 4 (cwc_mac z hdr ct)) + length hdr * 2 ^ 64 + length ct) mod P127 =
      ((\<Sum>i<length bs. wval (bs ! i) * wval z ^ (length bs - i)) + length hdr * 2 ^ 64 + length ct) mod P127"
    by (intro mod_add_cong p refl)
  then show ?thesis unfolding cwc_final_value [OF hm assms(3,4)] by (rule conjI [OF p])
qed

theorem cwc_hash_polynomial_witness:
  "wval (take 4 (cwc_mac [0, 0, 0, 5] [1, 2] [3])) mod P127 =
     (\<Sum>i<length (blocks12 (pad12 [1, 2]) @ blocks12 (pad12 [3])). wval ((blocks12 (pad12 [1, 2]) @ blocks12 (pad12 [3])) ! i) *
        wval [0, 0, 0, 5] ^ (length (blocks12 (pad12 [1, 2]) @ blocks12 (pad12 [3])) - i)) mod P127"
  using cwc_hash_polynomial [OF _ refl, of "[0, 0, 0, 5]" "[1, 2]" "[3]"] by (simp add: zval_ok_def)

text \<open>C10: \<open>add_4\<close> adds modulo \<open>2^128\<close> and \<open>mlt_4\<close> multiplies without loss: the carries of the 32-bit and 64-bit steps are
  complete for all words.\<close>

theorem cwc_bignum:
  assumes "length l = 8" "length a = 4" "length b = 4"
  shows "wval (take 4 (add_4 l a)) = (wval (take 4 l) + wval a) mod 2 ^ 128 \<and> drop 4 (add_4 l a) = drop 4 l \<and>
    length (mlt_4 l a b) = 8 \<and> wval (mlt_4 l a b) = wval a * wval b"
proof -
  have l: "4 \<le> length l" "4 \<le> length a" "take 4 a = a" using assms by simp_all
  obtain a0 a1 a2 a3 where a: "a = [a0, a1, a2, a3]" using assms(2) by (rule list4_exhaust)
  obtain b0 b1 b2 b3 where b: "b = [b0, b1, b2, b3]" using assms(3) by (rule list4_exhaust)
  show ?thesis
    using add_4_value(1,2) [OF l(1,2)] mlt_4_value [OF assms(1) a b] l(3) by simp
qed

theorem cwc_bignum_witness:
  "wval (mlt_4 (replicate 8 0) [0xffffffff, 0xffffffff, 0xffffffff, 0xffffffff] [0xffffffff, 0xffffffff, 0xffffffff, 0xffffffff]) =
    (2 ^ 128 - 1) * (2 ^ 128 - 1)"
  using cwc_bignum [of "replicate 8 0" "[0xffffffff, 0xffffffff, 0xffffffff, 0xffffffff]" "[0xffffffff, 0xffffffff, 0xffffffff, 0xffffffff]"]
  by simp

text \<open>C8: one step of the hash is \<open>(block + hash) * key\<close> modulo \<open>2^127 - 1\<close>, and leaves a hash of at most \<open>2^127\<close>, as long as the
  product is below \<open>2^254\<close>.\<close>

theorem do_cwc_step:
  assumes "length z = 4" "length h = 8" "length inp = 3" "wval (take 4 h) \<le> 2 ^ 127"
    and "(wval inp + wval (take 4 h)) * wval z < 2 ^ 254"
  shows "wval (take 4 (do_cwc inp z h)) mod P127 = ((wval inp + wval (take 4 h)) * wval z) mod P127 \<and>
    wval (take 4 (do_cwc inp z h)) \<le> 2 ^ 127"
  unfolding do_cwc_value(2) [OF assms] by (intro conjI cwc_reduce_mod cwc_reduce_le [OF assms(5)])

theorem do_cwc_step_witness:
  "wval (take 4 (do_cwc [1, 2, 3] [0x7ffffff0, 0, 0, 1] [0x7fffffff, 0, 0, 0, 0, 0, 0, 0])) mod P127 =
    ((wval [1, 2, 3] + wval (take 4 [0x7fffffff, 0, 0, 0, 0, 0, 0, 0])) * wval [0x7ffffff0, 0, 0, 1]) mod P127"
  using do_cwc_step [of "[0x7ffffff0, 0, 0, 1]" "[0x7fffffff, 0, 0, 0, 0, 0, 0, 0]" "[1, 2, 3]"]
  by simp

text \<open>C9: what one step of the hash does for every hash key below \<open>2^127\<close> and every hash up to \<open>2^127\<close>: with \<open>s\<close> the sum of
  the two halves of the product, the step is right modulo \<open>2^127 - 1\<close> exactly when \<open>s\<close> is below \<open>2^128\<close>. Otherwise
  the last \<open>add_4\<close> drops the carry, the result is \<open>s - 2^128\<close>, and it is too small by exactly two. This happens for
  keys near \<open>2^127\<close>, as with the key \<open>2^127 - 1 - 2^31\<close>, the hash \<open>2^127 - 2\<close> and a block of ones.\<close>

theorem do_cwc_lost_carry:
  assumes "length z = 4" "length h = 8" "length inp = 3" "wval (take 4 h) \<le> 2 ^ 127" "wval z < 2 ^ 127"
    and n: "n = (wval inp + wval (take 4 h)) * wval z" and s: "s = n div 2 ^ 127 + n mod 2 ^ 127"
  shows "wval (take 4 (do_cwc inp z h)) = (if s < 2 ^ 127 then s else if s < 2 ^ 128 then s - P127 else s - 2 ^ 128) \<and>
    (wval (take 4 (do_cwc inp z h)) + (if s < 2 ^ 128 then 0 else 2)) mod P127 = n mod P127 \<and>
    (wval (take 4 (do_cwc inp z h)) mod P127 = n mod P127 \<longleftrightarrow> s < 2 ^ 128)"
proof -
  have i: "wval inp < 2 ^ 96" using wval_less [of inp] assms(3) by simp
  have "n \<le> (2 ^ 96 + 2 ^ 127) * 2 ^ 127"
    unfolding n by (intro mult_le_mono add_le_mono) (use i assms(4,5) in simp_all)
  also have "\<dots> < 2 ^ 255" by simp
  finally have n255: "n < 2 ^ 255" .
  note w = do_cwc_wrapped(2) [OF assms(1-4), folded n, OF n255, unfolded Let_def, folded s]
  have hi: "n div 2 ^ 127 < 2 ^ 128" using n255 by (simp add: div_less_iff_less_mult)
  have lo: "n mod 2 ^ 127 < 2 ^ 127" by simp
  have s3: "s < 2 ^ 128 + 2 ^ 127" unfolding s by (rule add_strict_mono [OF hi lo])
  obtain r where r: "wval (take 4 (do_cwc inp z h)) = r" by blast
  have e: "r = (if s < 2 ^ 127 then s else if s < 2 ^ 128 then s - P127 else s - 2 ^ 128)"
  proof (cases "s < 2 ^ 128")
    case False
    then have "s mod 2 ^ 128 = s - 2 ^ 128" using s3 by (simp add: mod_if)
    then show ?thesis using w r False s3 by simp
  qed (use w r in simp)
  have sn: "s mod P127 = n mod P127"
  proof -
    have "n = 2 ^ 127 * (n div 2 ^ 127) + n mod 2 ^ 127" by simp
    also have "\<dots> = P127 * (n div 2 ^ 127) + s" unfolding s by simp
    finally show ?thesis by (metis mod_mult_self4)
  qed
  have c: "(r + (if s < 2 ^ 128 then 0 else 2)) mod P127 = n mod P127"
  proof (cases "s < 2 ^ 128")
    case True
    then show ?thesis using e sn by (auto simp: le_mod_geq)
  next
    case False
    then have "s = (r + 2) + 2 * P127" using e by simp
    then have "s mod P127 = (r + 2) mod P127" by (metis mod_mult_self1)
    then show ?thesis using sn False by simp
  qed
  have "r mod P127 \<noteq> (r + 2) mod P127"
  proof
    assume "r mod P127 = (r + 2) mod P127"
    then have "P127 dvd (r + 2) - r" by (metis mod_eq_dvd_iff_nat le_add1)
    then show False by (auto dest: dvd_imp_le)
  qed
  then have "r mod P127 = n mod P127 \<longleftrightarrow> s < 2 ^ 128" using c by (auto split: if_splits)
  with e c show ?thesis unfolding r by blast
qed

theorem do_cwc_lost_carry_witness:
  "\<exists>r. wval (take 4 (do_cwc [0xffffffff, 0xffffffff, 0xffffffff] [0x7fffffff, 0xffffffff, 0xffffffff, 0x7fffffff]
        [0x7fffffff, 0xffffffff, 0xffffffff, 0xfffffffe, 0, 0, 0, 0])) = r \<and>
    (r + 2) mod P127 = ((2 ^ 96 - 1 + (2 ^ 127 - 2)) * (2 ^ 127 - 1 - 2 ^ 31)) mod P127 \<and>
    r mod P127 \<noteq> ((2 ^ 96 - 1 + (2 ^ 127 - 2)) * (2 ^ 127 - 1 - 2 ^ 31)) mod P127"
proof -
  let ?i = "[0xffffffff, 0xffffffff, 0xffffffff] :: u32 list"
  let ?z = "[0x7fffffff, 0xffffffff, 0xffffffff, 0x7fffffff] :: u32 list"
  let ?h = "[0x7fffffff, 0xffffffff, 0xffffffff, 0xfffffffe, 0, 0, 0, 0] :: u32 list"
  have v: "wval ?i = 2 ^ 96 - 1" "wval ?z = 2 ^ 127 - 1 - 2 ^ 31" "wval (take 4 ?h) = 2 ^ 127 - 2" by simp_all
  have l: "length ?z = 4" "length ?h = 8" "length ?i = 3" "wval (take 4 ?h) \<le> 2 ^ 127" "wval ?z < 2 ^ 127"
    unfolding v by simp_all
  have big: "\<not> ((wval ?i + wval (take 4 ?h)) * wval ?z) div 2 ^ 127 + ((wval ?i + wval (take 4 ?h)) * wval ?z) mod 2 ^ 127 < 2 ^ 128"
    unfolding v by simp
  note t = conjunct2 [OF do_cwc_lost_carry [OF l refl refl, unfolded if_not_P [OF big]]]
  show ?thesis
    using conjunct1 [OF t] conjunct2 [OF t] big unfolding v by blast
qed

end
