(* ===== verification/BnLib.thy ===== *)
theory BnLib
  imports ConstTime
begin

text \<open>
  Big numbers, \<^verbatim>\<open>native/openssl/crypto/bn/bn_lib.c\<close>, with words of 64 bits. The array
  of a number is the list \<open>bn_d\<close>, whose length is \<open>dmax\<close>; \<open>bn_top\<close> words of it are in
  use, the least significant one first. \<open>BN_FLG_FIXED_TOP\<close> is 0 outside debugging
  builds and left out. \<open>alloc\<close> says whether \<open>OPENSSL_zalloc\<close> succeeds; a function that may
  fail returns an option. Return values 0 and 1 that are tests are booleans.
\<close>

record bignum =
  bn_d :: "u64 list"
  bn_top :: nat
  bn_neg :: bool
  bn_flags :: u32

definition BN_BITS2 :: nat where "BN_BITS2 = 64"
definition BN_BYTES :: nat where "BN_BYTES = 8"
definition BN_MASK2 :: u64 where "BN_MASK2 = -1"
definition BN_FLG_MALLOCED :: u32 where "BN_FLG_MALLOCED = 0x01"
definition BN_FLG_STATIC_DATA :: u32 where "BN_FLG_STATIC_DATA = 0x02"
definition BN_FLG_CONSTTIME :: u32 where "BN_FLG_CONSTTIME = 0x04"
definition BN_FLG_SECURE :: u32 where "BN_FLG_SECURE = 0x08"
definition INT_MAX :: nat where "INT_MAX = 2147483647"

subsection \<open>Construction and size\<close>

definition BN_value_one :: bignum where
  "BN_value_one = \<lparr>bn_d = [1], bn_top = 1, bn_neg = False, bn_flags = BN_FLG_STATIC_DATA\<rparr>"

definition bn_init :: bignum where
  "bn_init = \<lparr>bn_d = [], bn_top = 0, bn_neg = False, bn_flags = 0\<rparr>"

definition BN_new :: "bool \<Rightarrow> bignum option" where
  "BN_new alloc = (if \<not> alloc then None else Some (bn_init\<lparr>bn_flags := BN_FLG_MALLOCED\<rparr>))"

definition BN_secure_new :: "bool \<Rightarrow> bignum option" where
  "BN_secure_new alloc = map_option (\<lambda>ret. ret\<lparr>bn_flags := bn_flags ret OR BN_FLG_SECURE\<rparr>) (BN_new alloc)"

definition BN_get_flags :: "bignum \<Rightarrow> u32 \<Rightarrow> u32" where
  "BN_get_flags b n = bn_flags b AND n"

definition BN_set_flags :: "bignum \<Rightarrow> u32 \<Rightarrow> bignum" where
  "BN_set_flags b n = b\<lparr>bn_flags := bn_flags b OR n\<rparr>"

definition BN_with_flags :: "bignum \<Rightarrow> bignum \<Rightarrow> u32 \<Rightarrow> bignum" where
  "BN_with_flags dest b fl =
     \<lparr>bn_d = bn_d b, bn_top = bn_top b, bn_neg = bn_neg b,
      bn_flags = (bn_flags dest AND BN_FLG_MALLOCED) OR (bn_flags b AND NOT BN_FLG_MALLOCED) OR BN_FLG_STATIC_DATA OR fl\<rparr>"

definition bn_expand_internal :: "bool \<Rightarrow> bignum \<Rightarrow> nat \<Rightarrow> u64 list option" where
  "bn_expand_internal alloc b words =
    (if words > INT_MAX div (4 * BN_BITS2) then None
     else if BN_get_flags b BN_FLG_STATIC_DATA \<noteq> 0 then None
     else if \<not> alloc then None
     else Some (take (bn_top b) (bn_d b) @ replicate (words - bn_top b) 0))"

definition bn_expand2 :: "bool \<Rightarrow> bignum \<Rightarrow> nat \<Rightarrow> bignum option" where
  "bn_expand2 alloc b words =
    (if words > length (bn_d b) then map_option (\<lambda>a. b\<lparr>bn_d := a\<rparr>) (bn_expand_internal alloc b words)
     else Some b)"

definition bn_wexpand :: "bool \<Rightarrow> bignum \<Rightarrow> nat \<Rightarrow> bignum option" where
  "bn_wexpand alloc a words = (if words \<le> length (bn_d a) then Some a else bn_expand2 alloc a words)"

definition bn_expand :: "bool \<Rightarrow> bignum \<Rightarrow> nat \<Rightarrow> bignum option" where
  "bn_expand alloc a bits =
    (if bits > INT_MAX - BN_BITS2 + 1 then None
     else if (bits + BN_BITS2 - 1) div BN_BITS2 \<le> length (bn_d a) then Some a
     else bn_expand2 alloc a ((bits + BN_BITS2 - 1) div BN_BITS2))"

definition BN_copy :: "bool \<Rightarrow> bignum \<Rightarrow> bignum \<Rightarrow> bignum option" where
  "BN_copy alloc a b =
    (let bn_words = (if BN_get_flags b BN_FLG_CONSTTIME \<noteq> 0 then length (bn_d b) else bn_top b)
     in map_option (\<lambda>a.
          let a = (if bn_top b > 0 then a\<lparr>bn_d := take bn_words (bn_d b) @ drop bn_words (bn_d a)\<rparr> else a)
          in a\<lparr>bn_neg := bn_neg b, bn_top := bn_top b\<rparr>)
        (bn_wexpand alloc a bn_words))"

definition BN_dup :: "bool \<Rightarrow> bignum \<Rightarrow> bignum option" where
  "BN_dup alloc a =
    Option.bind (if BN_get_flags a BN_FLG_SECURE \<noteq> 0 then BN_secure_new alloc else BN_new alloc) (\<lambda>t. BN_copy alloc t a)"

definition FLAGS_DATA :: "u32 \<Rightarrow> u32" where
  "FLAGS_DATA fl = fl AND (BN_FLG_STATIC_DATA OR BN_FLG_CONSTTIME OR BN_FLG_SECURE)"

definition FLAGS_STRUCT :: "u32 \<Rightarrow> u32" where
  "FLAGS_STRUCT fl = fl AND BN_FLG_MALLOCED"

definition BN_swap :: "bignum \<Rightarrow> bignum \<Rightarrow> bignum \<times> bignum" where
  "BN_swap a b =
    (\<lparr>bn_d = bn_d b, bn_top = bn_top b, bn_neg = bn_neg b, bn_flags = FLAGS_STRUCT (bn_flags a) OR FLAGS_DATA (bn_flags b)\<rparr>,
     \<lparr>bn_d = bn_d a, bn_top = bn_top a, bn_neg = bn_neg a, bn_flags = FLAGS_STRUCT (bn_flags b) OR FLAGS_DATA (bn_flags a)\<rparr>)"

definition BN_clear :: "bignum \<Rightarrow> bignum" where
  "BN_clear a = a\<lparr>bn_d := replicate (length (bn_d a)) 0, bn_neg := False, bn_top := 0\<rparr>"

definition BN_zero_ex :: "bignum \<Rightarrow> bignum" where
  "BN_zero_ex a = a\<lparr>bn_neg := False, bn_top := 0\<rparr>"

fun top_loop :: "u64 list \<Rightarrow> nat \<Rightarrow> nat" where
  "top_loop d 0 = 0"
| "top_loop d (Suc n) = (if d ! n \<noteq> 0 then Suc n else top_loop d n)"

definition bn_correct_top :: "bignum \<Rightarrow> bignum" where
  "bn_correct_top a =
    (let a = a\<lparr>bn_top := top_loop (bn_d a) (bn_top a)\<rparr>
     in if bn_top a = 0 then a\<lparr>bn_neg := False\<rparr> else a)"

subsection \<open>Single words and tests\<close>

definition BN_get_word :: "bignum \<Rightarrow> u64" where
  "BN_get_word a = (if bn_top a > 1 then BN_MASK2 else if bn_top a = 1 then bn_d a ! 0 else 0)"

definition BN_set_word :: "bool \<Rightarrow> bignum \<Rightarrow> u64 \<Rightarrow> bignum option" where
  "BN_set_word alloc a w =
    map_option (\<lambda>a. a\<lparr>bn_neg := False, bn_d := (bn_d a)[0 := w], bn_top := (if w \<noteq> 0 then 1 else 0)\<rparr>)
      (bn_expand alloc a (8 * 8))"

definition BN_abs_is_word :: "bignum \<Rightarrow> u64 \<Rightarrow> bool" where
  "BN_abs_is_word a w \<longleftrightarrow> bn_top a = 1 \<and> bn_d a ! 0 = w \<or> w = 0 \<and> bn_top a = 0"

definition BN_is_zero :: "bignum \<Rightarrow> bool" where "BN_is_zero a \<longleftrightarrow> bn_top a = 0"
definition BN_is_one :: "bignum \<Rightarrow> bool" where "BN_is_one a \<longleftrightarrow> BN_abs_is_word a 1 \<and> \<not> bn_neg a"
definition BN_is_word :: "bignum \<Rightarrow> u64 \<Rightarrow> bool" where "BN_is_word a w \<longleftrightarrow> BN_abs_is_word a w \<and> (w = 0 \<or> \<not> bn_neg a)"
definition BN_is_odd :: "bignum \<Rightarrow> bool" where "BN_is_odd a \<longleftrightarrow> bn_top a > 0 \<and> bn_d a ! 0 AND 1 \<noteq> 0"
definition BN_is_negative :: "bignum \<Rightarrow> bool" where "BN_is_negative a \<longleftrightarrow> bn_neg a"

definition BN_set_negative :: "bignum \<Rightarrow> bool \<Rightarrow> bignum" where
  "BN_set_negative a b = (if b \<and> \<not> BN_is_zero a then a\<lparr>bn_neg := True\<rparr> else a\<lparr>bn_neg := False\<rparr>)"

subsection \<open>Length in bits\<close>

text \<open>One of the six halvings: \<open>l\<close> is replaced by its upper part when that is not zero.\<close>

definition num_bits_step :: "nat \<Rightarrow> u64 \<times> u64 \<Rightarrow> u64 \<times> u64" where
  "num_bits_step k = (\<lambda>(l, bits).
    (let x = drop_bit k l;
         m = (0 - x) AND BN_MASK2;
         m = 0 - drop_bit (BN_BITS2 - 1) m;
         bits = bits + (word_of_nat k AND m)
     in (l XOR ((x XOR l) AND m), bits)))"

definition BN_num_bits_word :: "u64 \<Rightarrow> nat" where
  "BN_num_bits_word l = unat (snd (fold num_bits_step [32, 16, 8, 4, 2, 1] (l, if l \<noteq> 0 then 1 else 0)))"

definition nbits_step :: "bignum \<Rightarrow> u32 \<Rightarrow> nat \<Rightarrow> u32 \<times> u32 \<Rightarrow> u32 \<times> u32" where
  "nbits_step a i j = (\<lambda>(ret, past_i).
    (let m = constant_time_eq_int i (word_of_nat j);
         ret = ret + (word_of_nat BN_BITS2 AND (NOT m AND NOT past_i));
         ret = ret + (word_of_nat (BN_num_bits_word (bn_d a ! j)) AND m)
     in (ret, past_i OR m)))"

definition bn_num_bits_consttime :: "bignum \<Rightarrow> nat" where
  "bn_num_bits_consttime a =
    (let i = word_of_nat (bn_top a) - 1;
         (ret, past_i) = fold (nbits_step a i) [0..<length (bn_d a)] (0, 0);
         m = NOT (constant_time_eq_int i (-1))
     in unat (ret AND m))"

definition BN_num_bits :: "bignum \<Rightarrow> nat" where
  "BN_num_bits a =
    (if bn_flags a AND BN_FLG_CONSTTIME \<noteq> 0 then bn_num_bits_consttime a
     else if BN_is_zero a then 0
     else (bn_top a - 1) * BN_BITS2 + BN_num_bits_word (bn_d a ! (bn_top a - 1)))"

definition BN_num_bytes :: "bignum \<Rightarrow> nat" where
  "BN_num_bytes a = (BN_num_bits a + 7) div 8"

subsection \<open>Conversions\<close>

text \<open>The loop over the bytes; \<open>m\<close> bytes of the word \<open>l\<close> are missing after the next one, \<open>i\<close> words are not written yet.\<close>

fun bin_loop :: "byte list \<Rightarrow> nat \<Rightarrow> nat \<Rightarrow> u64 \<Rightarrow> u64 list \<Rightarrow> u64 list" where
  "bin_loop [] i m l d = d"
| "bin_loop (x # s) i m l d =
    (let l = push_bit 8 l OR ucast x
     in if m = 0 then bin_loop s (i - 1) (BN_BYTES - 1) 0 (d[i - 1 := l])
        else bin_loop s i (m - 1) l d)"

definition BN_bin2bn :: "bool \<Rightarrow> byte list \<Rightarrow> bignum \<Rightarrow> bignum option" where
  "BN_bin2bn alloc s ret =
    (let s = dropWhile (\<lambda>x. x = 0) s;
         n = length s
     in if n = 0 then Some (ret\<lparr>bn_top := 0\<rparr>)
        else let i = (n - 1) div BN_BYTES + 1; m = (n - 1) mod BN_BYTES
             in map_option (\<lambda>ret.
                  bn_correct_top (ret\<lparr>bn_top := i, bn_neg := False, bn_d := bin_loop s i m 0 (bn_d ret)\<rparr>))
                (bn_wexpand alloc ret i))"

text \<open>The same from the last byte backwards.\<close>

definition BN_lebin2bn :: "bool \<Rightarrow> byte list \<Rightarrow> bignum \<Rightarrow> bignum option" where
  "BN_lebin2bn alloc s ret =
    (let s = rev s; s = dropWhile (\<lambda>x. x = 0) s;
         n = length s
     in if n = 0 then Some (ret\<lparr>bn_top := 0\<rparr>)
        else let i = (n - 1) div BN_BYTES + 1; m = (n - 1) mod BN_BYTES
             in map_option (\<lambda>ret.
                  bn_correct_top (ret\<lparr>bn_top := i, bn_neg := False, bn_d := bin_loop s i m 0 (bn_d ret)\<rparr>))
                (bn_wexpand alloc ret i))"

datatype endianess_t = big | little

text \<open>The loop that makes the bytes, the least significant one first; \<open>size_t\<close> has 64 bits.\<close>

fun bn2bin_loop :: "u64 list \<Rightarrow> u64 \<Rightarrow> u64 \<Rightarrow> nat \<Rightarrow> u64 \<Rightarrow> u64 \<Rightarrow> byte list" where
  "bn2bin_loop d atop lasti 0 j i = []"
| "bn2bin_loop d atop lasti (Suc n) j i =
    (let l = d ! (unat i div BN_BYTES);
         m = 0 - drop_bit (8 * 8 - 1) (j - atop);
         val = ucast (drop_bit (8 * (unat i mod BN_BYTES)) l AND m)
     in val # bn2bin_loop d atop lasti n (j + 1) (i + drop_bit (8 * 8 - 1) (i - lasti)))"

definition bn2binpad :: "bignum \<Rightarrow> int \<Rightarrow> endianess_t \<Rightarrow> int \<times> byte list" where
  "bn2binpad a tolen e =
    (let n = int (BN_num_bytes a);
         bad = (tolen \<noteq> -1 \<and> tolen < n \<and> tolen < int (BN_num_bytes (bn_correct_top a)));
         tolen = (if tolen = -1 then n else tolen);
         atop = word_of_nat (length (bn_d a) * BN_BYTES) :: u64
     in if bad then (-1, [])
        else if atop = 0 then (tolen, replicate (nat tolen) 0)
        else let lasti = atop - 1;
                 atop = word_of_nat (bn_top a * BN_BYTES);
                 bs = bn2bin_loop (bn_d a) atop lasti (nat tolen) 0 0
             in (tolen, case e of big \<Rightarrow> rev bs | little \<Rightarrow> bs))"

definition BN_bn2binpad :: "bignum \<Rightarrow> int \<Rightarrow> int \<times> byte list" where
  "BN_bn2binpad a tolen = (if tolen < 0 then (-1, []) else bn2binpad a tolen big)"

definition BN_bn2bin :: "bignum \<Rightarrow> int \<times> byte list" where
  "BN_bn2bin a = bn2binpad a (-1) big"

definition BN_bn2lebinpad :: "bignum \<Rightarrow> int \<Rightarrow> int \<times> byte list" where
  "BN_bn2lebinpad a tolen = (if tolen < 0 then (-1, []) else bn2binpad a tolen little)"

subsection \<open>Comparison\<close>

text \<open>The loop from word \<open>n - 1\<close> down to word 0.\<close>

fun cmp_loop :: "u64 list \<Rightarrow> u64 list \<Rightarrow> nat \<Rightarrow> int" where
  "cmp_loop a b 0 = 0"
| "cmp_loop a b (Suc n) = (if a ! n \<noteq> b ! n then (if a ! n > b ! n then 1 else -1) else cmp_loop a b n)"

definition BN_ucmp :: "bignum \<Rightarrow> bignum \<Rightarrow> int" where
  "BN_ucmp a b =
    (let i = int (bn_top a) - int (bn_top b)
     in if i \<noteq> 0 then i else cmp_loop (bn_d a) (bn_d b) (bn_top a))"

fun cmp_gt_lt :: "int \<Rightarrow> int \<Rightarrow> u64 list \<Rightarrow> u64 list \<Rightarrow> nat \<Rightarrow> int" where
  "cmp_gt_lt gt lt a b 0 = 0"
| "cmp_gt_lt gt lt a b (Suc n) =
    (if a ! n > b ! n then gt else if a ! n < b ! n then lt else cmp_gt_lt gt lt a b n)"

definition BN_cmp :: "bignum \<Rightarrow> bignum \<Rightarrow> int" where
  "BN_cmp a b =
    (if bn_neg a \<noteq> bn_neg b then (if bn_neg a then -1 else 1)
     else
       let (gt, lt) = (if \<not> bn_neg a then (1, -1) else (-1, 1))
       in if bn_top a > bn_top b then gt
          else if bn_top a < bn_top b then lt
          else cmp_gt_lt gt lt (bn_d a) (bn_d b) (bn_top a))"

definition bn_cmp_words :: "u64 list \<Rightarrow> u64 list \<Rightarrow> nat \<Rightarrow> int" where
  "bn_cmp_words a b n =
    (if n = 0 then 0
     else
       let aa = a ! (n - 1); bb = b ! (n - 1)
       in if aa \<noteq> bb then (if aa > bb then 1 else -1) else cmp_loop a b (n - 1))"

text \<open>The parts in which only one of the arrays has words are tested first.\<close>

definition bn_cmp_part_words :: "u64 list \<Rightarrow> u64 list \<Rightarrow> nat \<Rightarrow> int \<Rightarrow> int" where
  "bn_cmp_part_words a b cl dl =
    (let n = int cl - 1
     in if dl < 0 \<and> list_ex (\<lambda>i. b ! nat (n - i) \<noteq> 0) [dl..-1] then -1
        else if dl > 0 \<and> list_ex (\<lambda>i. a ! nat (n + i) \<noteq> 0) (rev [1..dl]) then 1
        else bn_cmp_words a b cl)"

subsection \<open>Single bits\<close>

definition BN_set_bit :: "bool \<Rightarrow> bignum \<Rightarrow> int \<Rightarrow> bignum option" where
  "BN_set_bit alloc a n =
    (if n < 0 then None
     else
       let i = nat n div BN_BITS2; j = nat n mod BN_BITS2
       in map_option (\<lambda>a. a\<lparr>bn_d := (bn_d a)[i := bn_d a ! i OR push_bit j 1]\<rparr>)
            (if bn_top a \<le> i then
               map_option (\<lambda>a. a\<lparr>bn_d := fold (\<lambda>k d. d[k := 0]) [bn_top a..<i + 1] (bn_d a), bn_top := i + 1\<rparr>)
                 (bn_wexpand alloc a (i + 1))
             else Some a))"

definition BN_clear_bit :: "bignum \<Rightarrow> int \<Rightarrow> bignum option" where
  "BN_clear_bit a n =
    (if n < 0 then None
     else
       let i = nat n div BN_BITS2; j = nat n mod BN_BITS2
       in if bn_top a \<le> i then None
          else Some (bn_correct_top (a\<lparr>bn_d := (bn_d a)[i := bn_d a ! i AND NOT (push_bit j 1)]\<rparr>)))"

definition BN_is_bit_set :: "bignum \<Rightarrow> int \<Rightarrow> bool" where
  "BN_is_bit_set a n =
    (if n < 0 then False
     else
       let i = nat n div BN_BITS2; j = nat n mod BN_BITS2
       in if bn_top a \<le> i then False else drop_bit j (bn_d a ! i) AND 1 \<noteq> 0)"

definition BN_mask_bits :: "bignum \<Rightarrow> int \<Rightarrow> bignum option" where
  "BN_mask_bits a n =
    (if n < 0 then None
     else
       let w = nat n div BN_BITS2; b = nat n mod BN_BITS2
       in if w \<ge> bn_top a then None
          else if b = 0 then Some (bn_correct_top (a\<lparr>bn_top := w\<rparr>))
          else Some (bn_correct_top (a\<lparr>bn_top := w + 1, bn_d := (bn_d a)[w := bn_d a ! w AND NOT (push_bit b BN_MASK2)]\<rparr>)))"

subsection \<open>Exchange and strength\<close>

text \<open>The exchange of two different numbers in constant time. \<open>top\<close> and \<open>neg\<close> are words here, as in the code.\<close>

definition xor_swap :: "u64 \<Rightarrow> u64 \<Rightarrow> u64 \<Rightarrow> u64 \<times> u64" where
  "xor_swap condition x y = (let t = (x XOR y) AND condition in (x XOR t, y XOR t))"

definition BN_consttime_swap :: "u64 \<Rightarrow> bignum \<Rightarrow> bignum \<Rightarrow> nat \<Rightarrow> bignum \<times> bignum" where
  "BN_consttime_swap condition a b nwords =
    (let condition = drop_bit (BN_BITS2 - 1) (NOT condition AND (condition - 1)) - 1;
         (at, bt) = xor_swap condition (word_of_nat (bn_top a)) (word_of_nat (bn_top b));
         (an, bn) = xor_swap condition (of_bool (bn_neg a)) (of_bool (bn_neg b));
         t = (ucast (bn_flags a XOR bn_flags b) AND ucast BN_FLG_CONSTTIME) AND condition;
         fa = bn_flags a XOR ucast t;
         fb = bn_flags b XOR ucast t;
         (ad, bd) = fold (\<lambda>i (ad, bd). case xor_swap condition (ad ! i) (bd ! i) of (x, y) \<Rightarrow> (ad[i := x], bd[i := y]))
           [0..<nwords] (bn_d a, bn_d b)
     in (\<lparr>bn_d = ad, bn_top = unat at, bn_neg = (an \<noteq> 0), bn_flags = fa\<rparr>,
         \<lparr>bn_d = bd, bn_top = unat bt, bn_neg = (bn \<noteq> 0), bn_flags = fb\<rparr>))"

definition BN_security_bits :: "int \<Rightarrow> int \<Rightarrow> int" where
  "BN_security_bits L N =
    (let result = (\<lambda>secbits. if N = -1 then secbits
           else let bits = N div 2 in if bits < 80 then 0 else if bits \<ge> secbits then secbits else bits)
     in if L \<ge> 15360 then result 256
        else if L \<ge> 7680 then result 192
        else if L \<ge> 3072 then result 128
        else if L \<ge> 2048 then result 112
        else if L \<ge> 1024 then result 80
        else 0)"

end
