(* ===== verification/BnAsm.thy ===== *)
theory BnAsm
  imports BnLib
begin

text \<open>
  Arithmetic on arrays of words, \<^verbatim>\<open>native/openssl/crypto/bn/bn_asm.c\<close> with the macros of
  \<^verbatim>\<open>bn_local.h\<close>. The build defines \<open>OPENSSL_NO_ASM\<close> and has words of 64 bits without a type of
  twice that size, so products are made of 32-bit halves. A pointer is the list of the words from where
  it points; a function that writes \<open>num\<close> words at \<open>rp\<close> returns the list at \<open>rp\<close> with its other words
  unchanged. A result array may be an operand at the same address: each word is read before it is written.
\<close>

definition BN_BITS4 :: nat where "BN_BITS4 = 32"
definition BN_MASK2l :: u64 where "BN_MASK2l = 0xffffffff"
definition BN_MASK2h :: u64 where "BN_MASK2h = 0xffffffff00000000"
definition BN_MASK2h1 :: u64 where "BN_MASK2h1 = 0xffffffff80000000"

definition LBITS :: "u64 \<Rightarrow> u64" where "LBITS a = a AND BN_MASK2l"
definition HBITS :: "u64 \<Rightarrow> u64" where "HBITS a = drop_bit BN_BITS4 a AND BN_MASK2l"
definition L2HBITS :: "u64 \<Rightarrow> u64" where "L2HBITS a = push_bit BN_BITS4 a AND BN_MASK2"

subsection \<open>Products of two words\<close>

text \<open>\<open>(l, h)\<close> are the halves of one factor before and the words of the product after.\<close>

definition mul64 :: "u64 \<Rightarrow> u64 \<Rightarrow> u64 \<Rightarrow> u64 \<Rightarrow> u64 \<times> u64" where
  "mul64 l h bl bh =
    (let lt = l; ht = h;
         m = bh * lt;
         lt = bl * lt;
         m1 = bl * ht;
         ht = bh * ht;
         m = (m + m1) AND BN_MASK2;
         ht = (if m < m1 then ht + L2HBITS 1 else ht);
         ht = ht + HBITS m;
         m1 = L2HBITS m;
         lt = (lt + m1) AND BN_MASK2;
         ht = (if lt < m1 then ht + 1 else ht)
     in (lt, ht))"

definition sqr64 :: "u64 \<Rightarrow> u64 \<times> u64" where
  "sqr64 w =
    (let h = w;
         l = LBITS h;
         h = HBITS h;
         m = l * h;
         l = l * l;
         h = h * h;
         h = h + drop_bit (BN_BITS4 - 1) (m AND BN_MASK2h1);
         m = push_bit (BN_BITS4 + 1) (m AND BN_MASK2l);
         l = (l + m) AND BN_MASK2;
         h = (if l < m then h + 1 else h)
     in (l, h))"

text \<open>\<open>r + a * b + c\<close> and \<open>a * b + c\<close>: the new \<open>r\<close> and the new \<open>c\<close>.\<close>

definition mul_add :: "u64 \<Rightarrow> u64 \<Rightarrow> u64 \<Rightarrow> u64 \<Rightarrow> u64 \<Rightarrow> u64 \<times> u64" where
  "mul_add r a bl bh c =
    (let h = a;
         l = LBITS h;
         h = HBITS h;
         (l, h) = mul64 l h bl bh;
         l = (l + c) AND BN_MASK2; h = (if l < c then h + 1 else h);
         c = r;
         l = (l + c) AND BN_MASK2; h = (if l < c then h + 1 else h)
     in (l, h AND BN_MASK2))"

definition mul_macro :: "u64 \<Rightarrow> u64 \<Rightarrow> u64 \<Rightarrow> u64 \<Rightarrow> u64 \<times> u64" where
  "mul_macro a bl bh c =
    (let h = a;
         l = LBITS h;
         h = HBITS h;
         (l, h) = mul64 l h bl bh;
         l = l + c; h = (if l AND BN_MASK2 < c then h + 1 else h)
     in (l AND BN_MASK2, h AND BN_MASK2))"

subsection \<open>Loops over arrays\<close>

text \<open>
  The loops of this file: four words in each round while there are four, then one word at a time. \<open>f\<close> makes
  one word of the result and the next carry from the words at the two pointers.
\<close>

fun words_loop :: "(u64 \<Rightarrow> u64 \<Rightarrow> u64 \<Rightarrow> u64 \<times> u64) \<Rightarrow> u64 list \<Rightarrow> u64 list \<Rightarrow> nat \<Rightarrow> u64 \<Rightarrow> u64 list \<times> u64" where
  "words_loop f a b (Suc (Suc (Suc (Suc n)))) c =
    (let (r0, c) = f (a ! 0) (b ! 0) c;
         (r1, c) = f (a ! 1) (b ! 1) c;
         (r2, c) = f (a ! 2) (b ! 2) c;
         (r3, c) = f (a ! 3) (b ! 3) c;
         (r, c) = words_loop f (drop 4 a) (drop 4 b) n c
     in (r0 # r1 # r2 # r3 # r, c))"
| "words_loop f a b (Suc n) c =
    (let (r0, c) = f (a ! 0) (b ! 0) c;
         (r, c) = words_loop f (drop 1 a) (drop 1 b) n c
     in (r0 # r, c))"
| "words_loop f a b 0 c = ([], c)"

text \<open>The words that a loop makes, written at a pointer.\<close>

definition put_words :: "u64 list \<Rightarrow> u64 list \<times> 'c \<Rightarrow> u64 list \<times> 'c" where
  "put_words r out = (fst out @ drop (length (fst out)) r, snd out)"

definition bn_mul_add_words :: "u64 list \<Rightarrow> u64 list \<Rightarrow> nat \<Rightarrow> u64 \<Rightarrow> u64 list \<times> u64" where
  "bn_mul_add_words rp ap num w =
    (if num = 0 then (rp, 0)
     else let bl = LBITS w; bh = HBITS w
          in put_words rp (words_loop (\<lambda>r a c. mul_add r a bl bh c) rp ap num 0))"

definition bn_mul_words :: "u64 list \<Rightarrow> u64 list \<Rightarrow> nat \<Rightarrow> u64 \<Rightarrow> u64 list \<times> u64" where
  "bn_mul_words rp ap num w =
    (if num = 0 then (rp, 0)
     else let bl = LBITS w; bh = HBITS w
          in put_words rp (words_loop (\<lambda>a _ c. mul_macro a bl bh c) ap ap num 0))"

text \<open>The squares of the words, two words each.\<close>

fun sqr_words_loop :: "u64 list \<Rightarrow> nat \<Rightarrow> u64 list" where
  "sqr_words_loop a (Suc (Suc (Suc (Suc n)))) =
    (let (r0, r1) = sqr64 (a ! 0);
         (r2, r3) = sqr64 (a ! 1);
         (r4, r5) = sqr64 (a ! 2);
         (r6, r7) = sqr64 (a ! 3)
     in [r0, r1, r2, r3, r4, r5, r6, r7] @ sqr_words_loop (drop 4 a) n)"
| "sqr_words_loop a (Suc n) = (let (r0, r1) = sqr64 (a ! 0) in [r0, r1] @ sqr_words_loop (drop 1 a) n)"
| "sqr_words_loop a 0 = []"

definition bn_sqr_words :: "u64 list \<Rightarrow> u64 list \<Rightarrow> nat \<Rightarrow> u64 list" where
  "bn_sqr_words r a n = (if n = 0 then r else fst (put_words r (sqr_words_loop a n, ())))"

definition add_word :: "u64 \<Rightarrow> u64 \<Rightarrow> u64 \<Rightarrow> u64 \<times> u64" where
  "add_word a b c =
    (let t = a;
         t = (t + c) AND BN_MASK2;
         c = (if t < c then 1 else 0);
         l = (t + b) AND BN_MASK2;
         c = c + (if l < t then 1 else 0)
     in (l, c))"

definition bn_add_words :: "u64 list \<Rightarrow> u64 list \<Rightarrow> u64 list \<Rightarrow> nat \<Rightarrow> u64 list \<times> u64" where
  "bn_add_words r a b n = (if n = 0 then (r, 0) else put_words r (words_loop add_word a b n 0))"

definition sub_word :: "u64 \<Rightarrow> u64 \<Rightarrow> u64 \<Rightarrow> u64 \<times> u64" where
  "sub_word t1 t2 c = ((t1 - t2 - c) AND BN_MASK2, if t1 \<noteq> t2 then (if t1 < t2 then 1 else 0) else c)"

definition bn_sub_words :: "u64 list \<Rightarrow> u64 list \<Rightarrow> u64 list \<Rightarrow> nat \<Rightarrow> u64 list \<times> u64" where
  "bn_sub_words r a b n = (if n = 0 then (r, 0) else put_words r (words_loop sub_word a b n 0))"

subsection \<open>Division of two words by one\<close>

text \<open>The inner loop lowers the digit \<open>q\<close> until the product with the divisor fits; it has no bound of its own.\<close>

partial_function (option) div_adjust :: "u64 \<Rightarrow> u64 \<Rightarrow> u64 \<Rightarrow> u64 \<Rightarrow> u64 \<Rightarrow> u64 \<Rightarrow> u64 \<Rightarrow> (u64 \<times> u64 \<times> u64) option" where
  "div_adjust dh dl h l q th tlo =
    (let t = h - th
     in if t AND BN_MASK2h \<noteq> 0 \<or> tlo \<le> push_bit BN_BITS4 t OR drop_bit BN_BITS4 (l AND BN_MASK2h) then Some (q, th, tlo)
        else div_adjust dh dl h l (q - 1) (th - dh) (tlo - dl))"

text \<open>One digit of 32 bits: the digit and what is left of \<open>h\<close> and \<open>l\<close>.\<close>

definition div_digit :: "u64 \<Rightarrow> u64 \<Rightarrow> u64 \<Rightarrow> (u64 \<times> u64 \<times> u64) option" where
  "div_digit d h l =
    (let dh = drop_bit BN_BITS4 (d AND BN_MASK2h);
         dl = d AND BN_MASK2l;
         q = (if drop_bit BN_BITS4 h = dh then BN_MASK2l else h div dh);
         th = q * dh;
         tlo = dl * q
     in Option.bind (div_adjust dh dl h l q th tlo) (\<lambda>(q, th, tlo).
          let t = drop_bit BN_BITS4 tlo;
              tlo = push_bit BN_BITS4 tlo AND BN_MASK2h;
              th = th + t;
              th = (if l < tlo then th + 1 else th);
              l = l - tlo;
              (h, q) = (if h < th then (h + d, q - 1) else (h, q));
              h = h - th
          in Some (q, h, l)))"

definition bn_div_words :: "u64 \<Rightarrow> u64 \<Rightarrow> u64 \<Rightarrow> u64 option" where
  "bn_div_words h l d =
    (if d = 0 then Some BN_MASK2
     else
       let i = BN_BITS2 - BN_num_bits_word d;
           h = (if h \<ge> d then h - d else h);
           (d, h, l) = (if i \<noteq> 0 then (push_bit i d, push_bit i h OR drop_bit (BN_BITS2 - i) l, push_bit i l) else (d, h, l))
       in Option.bind (div_digit d h l) (\<lambda>(q, h, l).
            let ret = push_bit BN_BITS4 q;
                h = (push_bit BN_BITS4 h OR drop_bit BN_BITS4 l) AND BN_MASK2;
                l = push_bit BN_BITS4 (l AND BN_MASK2l)
            in Option.bind (div_digit d h l) (\<lambda>(q, h, l). Some (ret OR q))))"

subsection \<open>Products by columns\<close>

text \<open>Additions of a product, of twice a product and of a square to a number of three words.\<close>

definition mul_add_c :: "u64 \<Rightarrow> u64 \<Rightarrow> u64 \<times> u64 \<times> u64 \<Rightarrow> u64 \<times> u64 \<times> u64" where
  "mul_add_c a b = (\<lambda>(c0, c1, c2).
    (let lo = LBITS a; hi = HBITS a; bl = LBITS b; bh = HBITS b;
         (lo, hi) = mul64 lo hi bl bh;
         c0 = (c0 + lo) AND BN_MASK2; hi = (if c0 < lo then hi + 1 else hi);
         c1 = (c1 + hi) AND BN_MASK2; c2 = (if c1 < hi then c2 + 1 else c2)
     in (c0, c1, c2)))"

definition mul_add_c2 :: "u64 \<Rightarrow> u64 \<Rightarrow> u64 \<times> u64 \<times> u64 \<Rightarrow> u64 \<times> u64 \<times> u64" where
  "mul_add_c2 a b = (\<lambda>(c0, c1, c2).
    (let lo = LBITS a; hi = HBITS a; bl = LBITS b; bh = HBITS b;
         (lo, hi) = mul64 lo hi bl bh;
         tt = hi;
         c0 = (c0 + lo) AND BN_MASK2; tt = (if c0 < lo then tt + 1 else tt);
         c1 = (c1 + tt) AND BN_MASK2; c2 = (if c1 < tt then c2 + 1 else c2);
         c0 = (c0 + lo) AND BN_MASK2; hi = (if c0 < lo then hi + 1 else hi);
         c1 = (c1 + hi) AND BN_MASK2; c2 = (if c1 < hi then c2 + 1 else c2)
     in (c0, c1, c2)))"

definition sqr_add_c :: "u64 list \<Rightarrow> nat \<Rightarrow> u64 \<times> u64 \<times> u64 \<Rightarrow> u64 \<times> u64 \<times> u64" where
  "sqr_add_c a i = (\<lambda>(c0, c1, c2).
    (let (lo, hi) = sqr64 (a ! i);
         c0 = (c0 + lo) AND BN_MASK2; hi = (if c0 < lo then hi + 1 else hi);
         c1 = (c1 + hi) AND BN_MASK2; c2 = (if c1 < hi then c2 + 1 else c2)
     in (c0, c1, c2)))"

definition sqr_add_c2 :: "u64 list \<Rightarrow> nat \<Rightarrow> nat \<Rightarrow> u64 \<times> u64 \<times> u64 \<Rightarrow> u64 \<times> u64 \<times> u64" where
  "sqr_add_c2 a i j = mul_add_c2 (a ! i) (a ! j)"

text \<open>
  The columns one after the other: the additions of a column, then its lowest word is written and the three words
  change their roles, the freed one being set to 0. The last word of the result is what is left after the last column.
\<close>

fun comba_cols :: "(u64 \<times> u64 \<times> u64 \<Rightarrow> u64 \<times> u64 \<times> u64) list list \<Rightarrow> u64 \<times> u64 \<times> u64 \<Rightarrow> u64 list" where
  "comba_cols [] c = [fst c]"
| "comba_cols (col # cols) c = (case fold (\<lambda>f. f) col c of (c0, c1, c2) \<Rightarrow> c0 # comba_cols cols (c1, c2, 0))"

definition bn_mul_comba8 :: "u64 list \<Rightarrow> u64 list \<Rightarrow> u64 list \<Rightarrow> u64 list" where
  "bn_mul_comba8 r a b =
    (let m = (\<lambda>i j. mul_add_c (a ! i) (b ! j))
     in comba_cols
         [[m 0 0],
          [m 0 1, m 1 0],
          [m 2 0, m 1 1, m 0 2],
          [m 0 3, m 1 2, m 2 1, m 3 0],
          [m 4 0, m 3 1, m 2 2, m 1 3, m 0 4],
          [m 0 5, m 1 4, m 2 3, m 3 2, m 4 1, m 5 0],
          [m 6 0, m 5 1, m 4 2, m 3 3, m 2 4, m 1 5, m 0 6],
          [m 0 7, m 1 6, m 2 5, m 3 4, m 4 3, m 5 2, m 6 1, m 7 0],
          [m 7 1, m 6 2, m 5 3, m 4 4, m 3 5, m 2 6, m 1 7],
          [m 2 7, m 3 6, m 4 5, m 5 4, m 6 3, m 7 2],
          [m 7 3, m 6 4, m 5 5, m 4 6, m 3 7],
          [m 4 7, m 5 6, m 6 5, m 7 4],
          [m 7 5, m 6 6, m 5 7],
          [m 6 7, m 7 6],
          [m 7 7]] (0, 0, 0) @ drop 16 r)"

definition bn_mul_comba4 :: "u64 list \<Rightarrow> u64 list \<Rightarrow> u64 list \<Rightarrow> u64 list" where
  "bn_mul_comba4 r a b =
    (let m = (\<lambda>i j. mul_add_c (a ! i) (b ! j))
     in comba_cols
         [[m 0 0],
          [m 0 1, m 1 0],
          [m 2 0, m 1 1, m 0 2],
          [m 0 3, m 1 2, m 2 1, m 3 0],
          [m 3 1, m 2 2, m 1 3],
          [m 2 3, m 3 2],
          [m 3 3]] (0, 0, 0) @ drop 8 r)"

definition bn_sqr_comba8 :: "u64 list \<Rightarrow> u64 list \<Rightarrow> u64 list" where
  "bn_sqr_comba8 r a =
    (let s = sqr_add_c a; m = sqr_add_c2 a
     in comba_cols
         [[s 0],
          [m 1 0],
          [s 1, m 2 0],
          [m 3 0, m 2 1],
          [s 2, m 3 1, m 4 0],
          [m 5 0, m 4 1, m 3 2],
          [s 3, m 4 2, m 5 1, m 6 0],
          [m 7 0, m 6 1, m 5 2, m 4 3],
          [s 4, m 5 3, m 6 2, m 7 1],
          [m 7 2, m 6 3, m 5 4],
          [s 5, m 6 4, m 7 3],
          [m 7 4, m 6 5],
          [s 6, m 7 5],
          [m 7 6],
          [s 7]] (0, 0, 0) @ drop 16 r)"

definition bn_sqr_comba4 :: "u64 list \<Rightarrow> u64 list \<Rightarrow> u64 list" where
  "bn_sqr_comba4 r a =
    (let s = sqr_add_c a; m = sqr_add_c2 a
     in comba_cols
         [[s 0],
          [m 1 0],
          [s 1, m 2 0],
          [m 3 0, m 2 1],
          [s 2, m 3 1],
          [m 3 2],
          [s 3]] (0, 0, 0) @ drop 8 r)"

end
