(* ===== verification/BnArith.thy ===== *)
theory BnArith
  imports BnAsm
begin

text \<open>
  Addition, subtraction, shifts and operations with a single word: \<^verbatim>\<open>native/openssl/crypto/bn/bn_add.c\<close>,
  \<^verbatim>\<open>bn_shift.c\<close> and \<^verbatim>\<open>bn_word.c\<close>. A function takes the number that receives the result, whose array and
  flags are kept, and returns it, or \<open>None\<close> where the code returns 0. The operands may be the same object as
  the result: every loop reads a word before it writes it, and an expansion keeps the words in use.
\<close>

subsection \<open>Addition and subtraction\<close>

text \<open>The words of the longer number, with the carry or the borrow.\<close>

fun carry_loop :: "u64 list \<Rightarrow> u64 \<Rightarrow> u64 list \<times> u64" where
  "carry_loop [] carry = ([], carry)"
| "carry_loop (t1 # ap) carry =
    (let t2 = (t1 + carry) AND BN_MASK2;
         (rp, carry) = carry_loop ap (carry AND (if t2 = 0 then 1 else 0))
     in (t2 # rp, carry))"

fun borrow_loop :: "u64 list \<Rightarrow> u64 \<Rightarrow> u64 list \<times> u64" where
  "borrow_loop [] borrow = ([], borrow)"
| "borrow_loop (t1 # ap) borrow =
    (let t2 = (t1 - borrow) AND BN_MASK2;
         (rp, borrow) = borrow_loop ap (borrow AND (if t1 = 0 then 1 else 0))
     in (t2 # rp, borrow))"

definition BN_uadd :: "bool \<Rightarrow> bignum \<Rightarrow> bignum \<Rightarrow> bignum \<Rightarrow> bignum option" where
  "BN_uadd alloc r a b =
    (let (a, b) = (if bn_top a < bn_top b then (b, a) else (a, b));
         max = bn_top a; min = bn_top b; dif = max - min
     in map_option (\<lambda>r.
          let (rp, carry) = bn_add_words (bn_d r) (bn_d a) (bn_d b) min;
              (out, carry) = carry_loop (take dif (drop min (bn_d a))) carry
          in r\<lparr>bn_d := take min rp @ out @ [carry] @ drop (max + 1) rp, bn_top := max + unat carry, bn_neg := False\<rparr>)
        (bn_wexpand alloc r (max + 1)))"

definition BN_usub :: "bool \<Rightarrow> bignum \<Rightarrow> bignum \<Rightarrow> bignum \<Rightarrow> bignum option" where
  "BN_usub alloc r a b =
    (let max = bn_top a; min = bn_top b
     in if max < min then None
        else map_option (\<lambda>r.
          let (rp, borrow) = bn_sub_words (bn_d r) (bn_d a) (bn_d b) min;
              (out, borrow) = borrow_loop (take (max - min) (drop min (bn_d a))) borrow;
              rp = take min rp @ out @ drop max rp
          in r\<lparr>bn_d := rp, bn_top := top_loop rp max, bn_neg := False\<rparr>)
        (bn_wexpand alloc r max))"

definition BN_add :: "bool \<Rightarrow> bignum \<Rightarrow> bignum \<Rightarrow> bignum \<Rightarrow> bignum option" where
  "BN_add alloc r a b =
    (let (r_neg, ret) =
       (if bn_neg a = bn_neg b then (bn_neg a, BN_uadd alloc r a b)
        else
          let cmp_res = BN_ucmp a b
          in if cmp_res > 0 then (bn_neg a, BN_usub alloc r a b)
             else if cmp_res < 0 then (bn_neg b, BN_usub alloc r b a)
             else (False, Some (BN_zero_ex r)))
     in map_option (\<lambda>r. r\<lparr>bn_neg := r_neg\<rparr>) ret)"

definition BN_sub :: "bool \<Rightarrow> bignum \<Rightarrow> bignum \<Rightarrow> bignum \<Rightarrow> bignum option" where
  "BN_sub alloc r a b =
    (let (r_neg, ret) =
       (if bn_neg a \<noteq> bn_neg b then (bn_neg a, BN_uadd alloc r a b)
        else
          let cmp_res = BN_ucmp a b
          in if cmp_res > 0 then (bn_neg a, BN_usub alloc r a b)
             else if cmp_res < 0 then (\<not> bn_neg b, BN_usub alloc r b a)
             else (False, Some (BN_zero_ex r)))
     in map_option (\<lambda>r. r\<lparr>bn_neg := r_neg\<rparr>) ret)"

subsection \<open>Shifts\<close>

text \<open>By one bit, from the lowest word upwards and from the highest word downwards.\<close>

fun lshift1_loop :: "u64 list \<Rightarrow> u64 \<Rightarrow> u64 list \<times> u64" where
  "lshift1_loop [] c = ([], c)"
| "lshift1_loop (t # ap) c =
    (let (rp, c') = lshift1_loop ap (drop_bit (BN_BITS2 - 1) t)
     in (((push_bit 1 t OR c) AND BN_MASK2) # rp, c'))"

definition BN_lshift1 :: "bool \<Rightarrow> bignum \<Rightarrow> bignum \<Rightarrow> bignum option" where
  "BN_lshift1 alloc r a =
    map_option (\<lambda>r.
      let (rp, c) = lshift1_loop (take (bn_top a) (bn_d a)) 0
      in r\<lparr>bn_d := rp @ [c] @ drop (bn_top a + 1) (bn_d r), bn_top := bn_top a + unat c, bn_neg := bn_neg a\<rparr>)
    (bn_wexpand alloc r (bn_top a + 1))"

fun rshift1_loop :: "u64 list \<Rightarrow> nat \<Rightarrow> u64 \<Rightarrow> u64 list \<Rightarrow> u64 list" where
  "rshift1_loop ap 0 c rp = rp"
| "rshift1_loop ap (Suc i) c rp =
    (let t = ap ! i in rshift1_loop ap i (push_bit (BN_BITS2 - 1) t) (rp[i := (drop_bit 1 t AND BN_MASK2) OR c]))"

definition BN_rshift1 :: "bool \<Rightarrow> bignum \<Rightarrow> bignum \<Rightarrow> bignum option" where
  "BN_rshift1 alloc r a =
    (if BN_is_zero a then Some (BN_zero_ex r)
     else map_option (\<lambda>r.
       let i = bn_top a - 1;
           t = bn_d a ! i;
           rp = rshift1_loop (bn_d a) i (push_bit (BN_BITS2 - 1) t) ((bn_d r)[i := drop_bit 1 t]);
           top = (if t = 1 then bn_top a - 1 else bn_top a)
       in r\<lparr>bn_d := rp, bn_top := top, bn_neg := (if top = 0 then False else bn_neg a)\<rparr>)
     (bn_wexpand alloc r (bn_top a)))"

text \<open>All ones unless the count of bits is 0; \<open>n\<close> is less than the length of a word.\<close>

definition shift_mask :: "nat \<Rightarrow> u64" where
  "shift_mask n = (let rmask = 0 - word_of_nat n in rmask OR drop_bit 8 rmask)"

text \<open>The words of \<open>f\<close> below word \<open>i\<close>, downwards; \<open>l\<close> is word \<open>i\<close>.\<close>

fun lshift_loop :: "nat \<Rightarrow> nat \<Rightarrow> u64 \<Rightarrow> u64 list \<Rightarrow> nat \<Rightarrow> u64 \<Rightarrow> u64 list \<Rightarrow> u64 list" where
  "lshift_loop lb rb rmask f 0 l t = t[0 := push_bit lb l AND BN_MASK2]"
| "lshift_loop lb rb rmask f (Suc i) l t =
    (let m = push_bit lb l; l = f ! i
     in lshift_loop lb rb rmask f i l (t[Suc i := (m OR (drop_bit rb l AND rmask)) AND BN_MASK2]))"

definition bn_lshift_fixed_top :: "bool \<Rightarrow> bignum \<Rightarrow> bignum \<Rightarrow> nat \<Rightarrow> bignum option" where
  "bn_lshift_fixed_top alloc r a n =
    (let nw = n div BN_BITS2
     in map_option (\<lambda>r.
          let d = (if bn_top a \<noteq> 0 then
                     let lb = n mod BN_BITS2;
                         rb = (BN_BITS2 - lb) mod BN_BITS2;
                         rmask = shift_mask rb;
                         l = bn_d a ! (bn_top a - 1);
                         t = drop nw (bn_d r);
                         t = t[bn_top a := drop_bit rb l AND rmask]
                     in take nw (bn_d r) @ lshift_loop lb rb rmask (bn_d a) (bn_top a - 1) l t
                   else (bn_d r)[nw := 0]);
              d = (if nw \<noteq> 0 then replicate nw 0 @ drop nw d else d)
          in r\<lparr>bn_d := d, bn_neg := bn_neg a, bn_top := bn_top a + nw + 1\<rparr>)
        (bn_wexpand alloc r (bn_top a + nw + 1)))"

definition BN_lshift :: "bool \<Rightarrow> bignum \<Rightarrow> bignum \<Rightarrow> int \<Rightarrow> bignum option" where
  "BN_lshift alloc r a n = (if n < 0 then None else map_option bn_correct_top (bn_lshift_fixed_top alloc r a (nat n)))"

text \<open>The words of \<open>f\<close> upwards; \<open>l\<close> is the first word that is not yet shifted.\<close>

fun rshift_loop :: "nat \<Rightarrow> nat \<Rightarrow> u64 \<Rightarrow> u64 \<Rightarrow> u64 list \<Rightarrow> u64 list" where
  "rshift_loop rb lb msk l [] = [drop_bit rb l]"
| "rshift_loop rb lb msk l (m # f) = (drop_bit rb l OR (push_bit lb m AND msk)) # rshift_loop rb lb msk m f"

definition bn_rshift_fixed_top :: "bool \<Rightarrow> bignum \<Rightarrow> bignum \<Rightarrow> nat \<Rightarrow> bignum option" where
  "bn_rshift_fixed_top alloc r a n =
    (let nw = n div BN_BITS2
     in if nw \<ge> bn_top a then Some (BN_zero_ex r)
        else
          let rb = n mod BN_BITS2;
              lb = (BN_BITS2 - rb) mod BN_BITS2;
              msk = shift_mask lb;
              top = bn_top a - nw
          in map_option (\<lambda>r.
               let f = take top (drop nw (bn_d a))
               in r\<lparr>bn_d := rshift_loop rb lb msk (f ! 0) (drop 1 f) @ drop top (bn_d r), bn_neg := bn_neg a, bn_top := top\<rparr>)
             (bn_wexpand alloc r top))"

definition BN_rshift :: "bool \<Rightarrow> bignum \<Rightarrow> bignum \<Rightarrow> int \<Rightarrow> bignum option" where
  "BN_rshift alloc r a n = (if n < 0 then None else map_option bn_correct_top (bn_rshift_fixed_top alloc r a (nat n)))"

subsection \<open>Operations with one word\<close>

text \<open>Addition of a word to the words from index \<open>i\<close> on, at most to \<open>top\<close>: the words, the index where it ended and the carry.\<close>

fun add_word_loop :: "u64 list \<Rightarrow> nat \<Rightarrow> nat \<Rightarrow> u64 \<Rightarrow> u64 list \<times> nat \<times> u64" where
  "add_word_loop d i 0 w = (d, i, w)"
| "add_word_loop d i (Suc n) w =
    (if w = 0 then (d, i, w)
     else let l = (d ! i + w) AND BN_MASK2
          in add_word_loop (d[i := l]) (i + 1) n (if w > l then 1 else 0))"

text \<open>Subtraction of a word: the loop has no bound but the array's, the result is \<open>None\<close> if it leaves it.\<close>

function sub_word_loop :: "u64 list \<Rightarrow> nat \<Rightarrow> u64 \<Rightarrow> (u64 list \<times> nat) option" where
  "sub_word_loop d i w =
    (if i \<ge> length d then None
     else if d ! i \<ge> w then Some (d[i := d ! i - w], i)
     else sub_word_loop (d[i := (d ! i - w) AND BN_MASK2]) (i + 1) 1)"
  by auto
termination by (relation "measure (\<lambda>(d, i, w). length d - i)") auto

declare sub_word_loop.simps [simp del]

function BN_add_word :: "bool \<Rightarrow> bignum \<Rightarrow> u64 \<Rightarrow> bignum option"
  and BN_sub_word :: "bool \<Rightarrow> bignum \<Rightarrow> u64 \<Rightarrow> bignum option" where
  "BN_add_word alloc a w =
    (if w = 0 then Some a
     else if BN_is_zero a then BN_set_word alloc a w
     else if bn_neg a then
       map_option (\<lambda>a. if \<not> BN_is_zero a then a\<lparr>bn_neg := \<not> bn_neg a\<rparr> else a) (BN_sub_word alloc (a\<lparr>bn_neg := False\<rparr>) w)
     else
       let (d, i, w) = add_word_loop (bn_d a) 0 (bn_top a) w
       in if w \<noteq> 0 \<and> i = bn_top a then
            map_option (\<lambda>a. a\<lparr>bn_top := bn_top a + 1, bn_d := (bn_d a)[i := w]\<rparr>) (bn_wexpand alloc (a\<lparr>bn_d := d\<rparr>) (bn_top a + 1))
          else Some (a\<lparr>bn_d := d\<rparr>))"
| "BN_sub_word alloc a w =
    (if w = 0 then Some a
     else if BN_is_zero a then map_option (\<lambda>a. BN_set_negative a True) (BN_set_word alloc a w)
     else if bn_neg a then map_option (\<lambda>a. a\<lparr>bn_neg := True\<rparr>) (BN_add_word alloc (a\<lparr>bn_neg := False\<rparr>) w)
     else if bn_top a = 1 \<and> bn_d a ! 0 < w then Some (a\<lparr>bn_d := (bn_d a)[0 := w - bn_d a ! 0], bn_neg := True\<rparr>)
     else map_option (\<lambda>(d, i). a\<lparr>bn_d := d, bn_top := (if d ! i = 0 \<and> i + 1 = bn_top a then bn_top a - 1 else bn_top a)\<rparr>)
       (sub_word_loop (bn_d a) 0 w))"
  by pat_completeness auto
termination
  by (relation "measure (case_sum (\<lambda>(alloc, a, w). if bn_neg a then 1 else 0) (\<lambda>(alloc, a, w). if bn_neg a then 1 else 0))") auto

declare BN_add_word.simps [simp del] BN_sub_word.simps [simp del]

definition BN_mul_word :: "bool \<Rightarrow> bignum \<Rightarrow> u64 \<Rightarrow> bignum option" where
  "BN_mul_word alloc a w =
    (if bn_top a \<noteq> 0 then
       if w = 0 then Some (BN_zero_ex a)
       else
         let (d, ll) = bn_mul_words (bn_d a) (bn_d a) (bn_top a) w; a = a\<lparr>bn_d := d\<rparr>
         in if ll \<noteq> 0 then map_option (\<lambda>a. a\<lparr>bn_d := (bn_d a)[bn_top a := ll], bn_top := bn_top a + 1\<rparr>) (bn_wexpand alloc a (bn_top a + 1))
            else Some a
     else Some a)"

text \<open>Division by a word, from word \<open>n - 1\<close> down: the quotient's words and the remainder.\<close>

fun div_word_loop :: "u64 list \<Rightarrow> u64 \<Rightarrow> nat \<Rightarrow> u64 \<Rightarrow> (u64 list \<times> u64) option" where
  "div_word_loop ds w 0 ret = Some (ds, ret)"
| "div_word_loop ds w (Suc i) ret =
    (let l = ds ! i
     in Option.bind (bn_div_words ret l w) (\<lambda>d.
          let ret = (l - (d * w AND BN_MASK2)) AND BN_MASK2
          in div_word_loop (ds[i := d]) w i ret))"

text \<open>The number after the division and the remainder; \<open>None\<close> where the shift fails and the code returns -1.\<close>

definition BN_div_word :: "bool \<Rightarrow> bignum \<Rightarrow> u64 \<Rightarrow> (bignum \<times> u64) option" where
  "BN_div_word alloc a w =
    (if w = 0 then Some (a, -1)
     else if bn_top a = 0 then Some (a, 0)
     else
       let j = BN_BITS2 - BN_num_bits_word w;
           w = push_bit j w
       in Option.bind (BN_lshift alloc a a (int j)) (\<lambda>a.
          Option.bind (div_word_loop (bn_d a) w (bn_top a) 0) (\<lambda>(d, ret).
            let a = a\<lparr>bn_d := d\<rparr>;
                a = (if bn_top a > 0 \<and> bn_d a ! (bn_top a - 1) = 0 then a\<lparr>bn_top := bn_top a - 1\<rparr> else a);
                ret = drop_bit j ret;
                a = (if bn_top a = 0 then a\<lparr>bn_neg := False\<rparr> else a)
            in Some (a, ret))))"

fun mod_word_loop :: "u64 list \<Rightarrow> u64 \<Rightarrow> nat \<Rightarrow> u64 \<Rightarrow> u64" where
  "mod_word_loop d w 0 ret = ret"
| "mod_word_loop d w (Suc i) ret =
    (let ret = (push_bit BN_BITS4 ret OR (drop_bit BN_BITS4 (d ! i) AND BN_MASK2l)) mod w;
         ret = (push_bit BN_BITS4 ret OR (d ! i AND BN_MASK2l)) mod w
     in mod_word_loop d w i ret)"

definition BN_mod_word :: "bool \<Rightarrow> bignum \<Rightarrow> u64 \<Rightarrow> u64" where
  "BN_mod_word alloc a w =
    (if w = 0 then -1
     else if w > push_bit BN_BITS4 1 then
       (case BN_dup alloc a of None \<Rightarrow> -1
        | Some tmp \<Rightarrow> (case BN_div_word alloc tmp w of None \<Rightarrow> -1 | Some (_, ret) \<Rightarrow> ret))
     else mod_word_loop (bn_d a) w (bn_top a) 0)"

end
