(* ===== verification/BnProps.thy ===== *)
theory BnProps
  imports BnLib
begin

text \<open>
  The functions of \<open>BnLib\<close> on the numbers that they stand for: lengths in bits,
  conversions from and to bytes, comparison, single bits.
\<close>

subsection \<open>Values\<close>

fun words_val :: "u64 list \<Rightarrow> nat" where
  "words_val [] = 0"
| "words_val (w # ws) = unat w + 2 ^ 64 * words_val ws"

definition bn_nat :: "bignum \<Rightarrow> nat" where
  "bn_nat a = words_val (take (bn_top a) (bn_d a))"

definition bn_val :: "bignum \<Rightarrow> int" where
  "bn_val a = (if bn_neg a then - int (bn_nat a) else int (bn_nat a))"

text \<open>The numbers that the functions return: no leading zero words, no negative zero, a size that \<open>bn_expand_internal\<close> allows.\<close>

definition bn_fits :: "bignum \<Rightarrow> bool" where
  "bn_fits a \<longleftrightarrow> bn_top a \<le> length (bn_d a) \<and> length (bn_d a) \<le> INT_MAX div (4 * BN_BITS2)"

definition bn_wf :: "bignum \<Rightarrow> bool" where
  "bn_wf a \<longleftrightarrow> bn_fits a \<and> (0 < bn_top a \<longrightarrow> bn_d a ! (bn_top a - 1) \<noteq> 0) \<and> (bn_top a = 0 \<longrightarrow> \<not> bn_neg a)"

lemma unat_u64: "unat (w :: u64) < 2 ^ 64"
  using unsigned_less [of w, where 'a = nat] by simp

lemma words_val_append: "words_val (xs @ ys) = words_val xs + 2 ^ (64 * length xs) * words_val ys"
  by (induction xs) (simp_all add: power_add distrib_left mult.assoc)

lemma words_val_less: "words_val ws < 2 ^ (64 * length ws)"
proof (induction ws)
  case (Cons w ws)
  have "unat w + 2 ^ 64 * words_val ws < 2 ^ 64 * (words_val ws + 1)" using unat_u64 [of w] by simp
  also have "\<dots> \<le> 2 ^ 64 * 2 ^ (64 * length ws)" using Cons.IH by (intro mult_le_mono2) simp
  finally show ?case by (simp add: power_add)
qed simp

lemma words_val_take_Suc: "n < length d \<Longrightarrow> words_val (take (Suc n) d) = words_val (take n d) + 2 ^ (64 * n) * unat (d ! n)"
  by (simp add: take_Suc_conv_app_nth words_val_append)

lemma bn_fits_size: "bn_fits a \<Longrightarrow> bn_top a \<le> length (bn_d a) \<and> length (bn_d a) \<le> 8388607"
  by (simp add: bn_fits_def INT_MAX_def BN_BITS2_def)

subsection \<open>Length in bits\<close>

fun bit_len :: "nat \<Rightarrow> nat" where
  "bit_len n = (if n = 0 then 0 else Suc (bit_len (n div 2)))"

declare bit_len.simps [simp del]

lemma bit_len_0 [simp]: "bit_len 0 = 0" "bit_len n = 0 \<longleftrightarrow> n = 0"
  by (simp_all add: bit_len.simps [of n] bit_len.simps [of 0])

lemma bit_len_le: "bit_len n \<le> k \<longleftrightarrow> n < 2 ^ k"
proof (induction n arbitrary: k rule: bit_len.induct)
  case (1 n)
  show ?case
  proof (cases "n = 0")
    case False
    show ?thesis
    proof (cases k)
      case (Suc j)
      have "n div 2 < 2 ^ j \<longleftrightarrow> n < 2 * 2 ^ j" by (simp add: div_less_iff_less_mult mult.commute)
      then show ?thesis using 1 [OF False, of j] False Suc by (subst bit_len.simps) simp
    qed (use False in simp)
  qed simp
qed

lemma bit_len_shift: "a < 2 ^ k \<Longrightarrow> 0 < b \<Longrightarrow> bit_len (a + 2 ^ k * b) = k + bit_len b"
proof (induction k arbitrary: a)
  case (Suc k)
  have "(a + 2 ^ Suc k * b) div 2 = a div 2 + 2 ^ k * b" by (simp add: mult.assoc div_plus_div_distrib_dvd_right)
  moreover have "a div 2 < 2 ^ k" using Suc.prems by (simp add: div_less_iff_less_mult mult.commute)
  ultimately show ?case using Suc.IH [of "a div 2"] Suc.prems by (subst bit_len.simps) simp
qed simp

lemma bit_len_div: "2 ^ k \<le> n \<Longrightarrow> bit_len n = k + bit_len (n div 2 ^ k)"
  using bit_len_shift [of "n mod 2 ^ k" k "n div 2 ^ k"] by (simp add: div_greater_zero_iff add.commute)

lemma nonzero_mask:
  assumes "unat x \<le> 2 ^ 63"
  shows "0 - drop_bit (BN_BITS2 - 1) ((0 - x) AND BN_MASK2) = (ct_mask (x \<noteq> 0) :: u64)"
proof -
  have "bit (0 - x) 63 \<longleftrightarrow> 2 ^ 63 \<le> unat (0 - x)" using bit_top [of "0 - x"] by simp
  also have "unat (0 - x) = (if x = 0 then 0 else 2 ^ 64 - unat x)"
    using unat_sub_if' [of 0 x] by (auto simp flip: unat_eq_zero)
  also have "2 ^ 63 \<le> (if x = 0 then 0 else 2 ^ 64 - unat x) \<longleftrightarrow> x \<noteq> 0" using assms by auto
  finally show ?thesis using msb_mask [of "0 - x"] by (simp add: BN_BITS2_def BN_MASK2_def)
qed

lemma unat_drop: "unat (drop_bit k (l :: u64)) = unat l div 2 ^ k"
  using unat_u64 [of l] by (simp only: unsigned_drop_bit_eq) (simp add: drop_bit_eq_div take_bit_nat_eq_self)

lemma num_bits_step:
  assumes "0 < k" "k \<le> 32" "unat b < 2 ^ 32"
  shows "num_bits_step k (l, b) = (if 2 ^ k \<le> unat l then (drop_bit k l, b + word_of_nat k) else (l, b))"
proof -
  have "unat l div 2 ^ k \<le> 2 ^ 63"
  proof -
    have "unat l div 2 ^ k \<le> unat l div 2 ^ 1" by (rule div_le_mono2) (use assms(1) power_increasing [of 1 k "2 :: nat"] in simp_all)
    also have "\<dots> \<le> 2 ^ 63" using unat_u64 [of l] by simp
    finally show ?thesis .
  qed
  then have m: "0 - drop_bit (BN_BITS2 - 1) ((0 - drop_bit k l) AND BN_MASK2) = ct_mask (drop_bit k l \<noteq> 0)"
    by (intro nonzero_mask) (simp add: unat_drop)
  have z: "drop_bit k l \<noteq> 0 \<longleftrightarrow> 2 ^ k \<le> unat l" unfolding unat_eq_zero [symmetric] unat_drop by (simp add: div_eq_0_iff not_less)
  show ?thesis unfolding num_bits_step_def case_prod_conv Let_def m z by (auto simp: ct_mask_def xor_ac)
qed

definition bits_inv :: "u64 \<Rightarrow> nat \<Rightarrow> u64 \<times> u64 \<Rightarrow> bool" where
  "bits_inv l0 k = (\<lambda>(l, b). unat l < 2 ^ k \<and> (l = 0 \<longleftrightarrow> l0 = 0) \<and> unat b + bit_len (unat l) = of_bool (l0 \<noteq> 0) + bit_len (unat l0))"

lemma bits_inv_step:
  assumes "0 < k" "k \<le> 32" "bits_inv l0 (2 * k) s"
  shows "bits_inv l0 k (num_bits_step k s)"
proof -
  obtain l b where s: "s = (l, b)" by fastforce
  have i: "unat l < 2 ^ (2 * k)" "l = 0 \<longleftrightarrow> l0 = 0" "unat b + bit_len (unat l) = of_bool (l0 \<noteq> 0) + bit_len (unat l0)"
    using assms(3) unfolding s bits_inv_def by simp_all
  have "bit_len (unat l0) \<le> 64" unfolding bit_len_le by (rule unat_u64)
  then have b: "unat b \<le> 65" using i(3) by (cases "l0 = 0") simp_all
  show ?thesis
  proof (cases "2 ^ k \<le> unat l")
    case True
    have "unat l div 2 ^ k < 2 ^ k" using i(1) by (simp add: div_less_iff_less_mult flip: power_add mult_2)
    moreover have "0 < unat l" using True by (rule less_le_trans [rotated]) simp
    then have "drop_bit k l \<noteq> 0" "l \<noteq> 0" using True unat_drop [of k l] by (auto simp: div_eq_0_iff simp flip: unat_eq_zero)
    moreover have "unat (b + word_of_nat k) = unat b + k" using b assms(2) by (simp add: unat_word_ariths unat_of_nat)
    ultimately show ?thesis using i bit_len_div [OF True] True b num_bits_step [OF assms(1,2), of b l] by (simp add: s bits_inv_def unat_drop)
  next
    case False
    then show ?thesis using i b num_bits_step [OF assms(1,2), of b l] by (simp add: s bits_inv_def)
  qed
qed

lemma BN_num_bits_word: "BN_num_bits_word l = bit_len (unat l)"
proof -
  let ?s = "(l, if l \<noteq> 0 then 1 else 0)"
  have "bits_inv l (2 * 32) ?s" using unat_u64 [of l] by (simp add: bits_inv_def)
  then have "bits_inv l 1 (fold num_bits_step [32, 16, 8, 4, 2, 1] ?s)"
    using bits_inv_step [of 32 l] bits_inv_step [of 16 l] bits_inv_step [of 8 l] bits_inv_step [of 4 l] bits_inv_step [of 2 l]
      bits_inv_step [of 1 l] by simp
  moreover obtain l' b where s: "fold num_bits_step [32, 16, 8, 4, 2, 1] ?s = (l', b)" by fastforce
  ultimately have i: "unat l' < 2" "l' = 0 \<longleftrightarrow> l = 0" "unat b + bit_len (unat l') = of_bool (l \<noteq> 0) + bit_len (unat l)"
    by (simp_all add: bits_inv_def)
  have "bit_len (unat l') = of_bool (l \<noteq> 0)"
  proof (cases "l = 0")
    case False
    then have "unat l' = 1" using i(1,2) by (simp add: less_2_cases_iff unat_eq_zero)
    then show ?thesis using False by (simp add: bit_len.simps)
  qed (use i(2) in simp)
  then show ?thesis using i(3) unfolding BN_num_bits_word_def s by simp
qed

lemma nbits_step:
  "nbits_step a i j (ret, ct_mask p) =
    (ret + (if i \<noteq> word_of_nat j \<and> \<not> p then word_of_nat BN_BITS2 else 0) +
       (if i = word_of_nat j then word_of_nat (BN_num_bits_word (bn_d a ! j)) else 0), ct_mask (p \<or> i = word_of_nat j))"
  by (simp add: nbits_step_def ct_eq ct_mask_ops Let_def) (simp add: ct_mask_and)

lemma unat_of_u32: "n < 2 ^ 32 \<Longrightarrow> unat (word_of_nat n :: u32) = n"
  by (simp add: unat_of_nat)

lemma nbits_loop:
  assumes "n < 2 ^ 32" "i < n" "m \<le> n"
  shows "fold (nbits_step a (word_of_nat i)) [0..<m] (0, 0) =
    (if m \<le> i then (word_of_nat (64 * m), ct_mask False)
     else (word_of_nat (64 * i + BN_num_bits_word (bn_d a ! i)), ct_mask True))"
  using assms(3)
proof (induction m)
  case (Suc m)
  have e: "(word_of_nat i :: u32) = word_of_nat m \<longleftrightarrow> i = m"
    using unat_of_u32 [of i] unat_of_u32 [of m] assms(1,2) Suc.prems by (metis Suc_le_lessD less_trans)
  show ?case
  proof (cases "m \<le> i")
    case True
    then have "fold (nbits_step a (word_of_nat i)) [0..<Suc m] (0, 0) = nbits_step a (word_of_nat i) m (word_of_nat (64 * m), ct_mask False)"
      using Suc by simp
    then show ?thesis using True unfolding nbits_step e by (cases "i = m") (auto simp: BN_BITS2_def algebra_simps)
  next
    case False
    then have "fold (nbits_step a (word_of_nat i)) [0..<Suc m] (0, 0) =
        nbits_step a (word_of_nat i) m (word_of_nat (64 * i + BN_num_bits_word (bn_d a ! i)), ct_mask True)"
      using Suc by simp
    then show ?thesis using False unfolding nbits_step e by auto
  qed
qed (simp add: ct_mask_def)

lemma bn_nat_bit_len:
  assumes "bn_wf a" "bn_top a = Suc i"
  shows "bit_len (bn_nat a) = 64 * i + bit_len (unat (bn_d a ! i))"
proof -
  have i: "i < length (bn_d a)" "0 < unat (bn_d a ! i)"
    using assms by (simp_all add: bn_wf_def bn_fits_def unat_gt_0)
  have "words_val (take i (bn_d a)) < 2 ^ (64 * i)" using words_val_less [of "take i (bn_d a)"] i(1) by simp
  from bit_len_shift [OF this i(2)] show ?thesis using words_val_take_Suc [OF i(1)] by (simp add: bn_nat_def assms(2))
qed

lemma bn_num_bits_consttime:
  assumes "bn_wf a"
  shows "bn_num_bits_consttime a = bit_len (bn_nat a)"
proof (cases "bn_top a")
  case 0
  have "fold (nbits_step a (-1)) js (r, p) = (fst (fold (nbits_step a (-1)) js (r, p)), snd (fold (nbits_step a (-1)) js (r, p)))" for js r p by simp
  then show ?thesis using 0 by (simp add: bn_num_bits_consttime_def ct_eq ct_mask_ops bn_nat_def case_prod_beta) (simp add: ct_mask_def)
next
  case (Suc i)
  let ?n = "length (bn_d a)"
  have s: "bn_top a \<le> ?n" "?n \<le> 8388607" using assms bn_fits_size [of a] by (simp_all add: bn_wf_def)
  have i: "word_of_nat (bn_top a) - 1 = (word_of_nat i :: u32)" by (simp add: Suc)
  have f: "fold (nbits_step a (word_of_nat i)) [0..<?n] (0, 0) = (word_of_nat (64 * i + BN_num_bits_word (bn_d a ! i)), ct_mask True)"
    using nbits_loop [of ?n i ?n a] s Suc by simp
  have b: "bit_len (unat (bn_d a ! i)) \<le> 64" unfolding bit_len_le by (rule unat_u64)
  have "(word_of_nat i :: u32) \<noteq> -1"
  proof
    assume "(word_of_nat i :: u32) = -1"
    then have "unat (word_of_nat i :: u32) = unat (-1 :: u32)" by simp
    then show False using s Suc by (simp add: unat_of_nat unsigned_minus_1_eq_mask mask_eq_exp_minus_1)
  qed
  then have "bn_num_bits_consttime a = unat (word_of_nat (64 * i + bit_len (unat (bn_d a ! i))) :: u32)"
    by (simp add: bn_num_bits_consttime_def i f ct_eq ct_mask_ops BN_num_bits_word) (simp add: ct_mask_def)
  also have "\<dots> = 64 * i + bit_len (unat (bn_d a ! i))" by (rule unat_of_u32) (use s b Suc in simp)
  finally show ?thesis using bn_nat_bit_len [OF assms Suc] by simp
qed

lemma BN_num_bits: "bn_wf a \<Longrightarrow> BN_num_bits a = bit_len (bn_nat a)"
  using bn_nat_bit_len [of a "bn_top a - 1"]
  by (auto simp: BN_num_bits_def bn_num_bits_consttime BN_is_zero_def BN_num_bits_word BN_BITS2_def) (simp add: bn_nat_def)

lemma BN_num_bytes: "bn_wf a \<Longrightarrow> BN_num_bytes a \<le> k \<longleftrightarrow> bn_nat a < 256 ^ k"
proof -
  assume "bn_wf a"
  then have "BN_num_bytes a \<le> k \<longleftrightarrow> bit_len (bn_nat a) \<le> 8 * k" by (auto simp: BN_num_bytes_def BN_num_bits)
  then show ?thesis unfolding bit_len_le by (simp add: power_mult)
qed

subsection \<open>From bytes\<close>

definition bin_val :: "byte list \<Rightarrow> nat" where
  "bin_val s = foldl (\<lambda>v x. v * 256 + unat x) 0 s"

lemma bin_val_foldl: "foldl (\<lambda>v x. v * 256 + unat x) v s = v * 256 ^ length s + bin_val s"
proof (induction s arbitrary: v)
  case (Cons x s)
  show ?case using Cons.IH [of "v * 256 + unat x"] Cons.IH [of "unat x"] by (simp add: bin_val_def algebra_simps)
qed (simp add: bin_val_def)

lemma bin_val_simps [simp]: "bin_val [] = 0" "bin_val (x # s) = unat x * 256 ^ length s + bin_val s"
  using bin_val_foldl [of "unat x" s] by (simp_all add: bin_val_def)

lemma bin_val_append: "bin_val (s @ t) = bin_val s * 256 ^ length t + bin_val t"
  by (induction s) (simp_all add: power_add algebra_simps)

lemma unat_byte_256: "unat (x :: byte) < 256"
  using unsigned_less [of x, where 'a = nat] by simp

lemma bin_val_less: "bin_val s < 256 ^ length s"
proof (induction s)
  case (Cons x s)
  have "bin_val (x # s) < (unat x + 1) * 256 ^ length s" using Cons.IH by simp
  also have "\<dots> \<le> 256 * 256 ^ length s" using unat_byte_256 [of x] by (intro mult_le_mono1) simp
  finally show ?case by simp
qed simp

lemma bin_val_dropWhile [simp]: "bin_val (dropWhile (\<lambda>x. x = 0) s) = bin_val s"
  by (induction s) simp_all

lemma bin_val_inj: "length s = length t \<Longrightarrow> bin_val s = bin_val t \<Longrightarrow> s = t"
proof (induction s t rule: list_induct2)
  case (Cons x s y t)
  let ?N = "256 ^ length s :: nat"
  have e: "unat x * ?N + bin_val s = unat y * ?N + bin_val t" using Cons by simp
  have b: "bin_val s < ?N" "bin_val t < ?N" using bin_val_less [of s] bin_val_less [of t] Cons by simp_all
  have "unat x = (unat x * ?N + bin_val s) div ?N" using b(1) by simp
  also have "\<dots> = unat y" unfolding e using b(2) by simp
  finally have "unat x = unat y" .
  with e have "unat x = unat y" "bin_val s = bin_val t" by simp_all
  then show ?case using Cons by (simp add: word_unat_eq_iff)
qed simp

lemma shift_in_byte:
  assumes "unat l < 256 ^ 7"
  shows "unat (push_bit 8 l OR ucast (x :: byte) :: u64) = unat l * 256 + unat x"
proof -
  have u: "unat (ucast x :: u64) = unat x" using unat_byte_256 [of x] by (simp add: unsigned_ucast_eq take_bit_nat_eq_self)
  have p: "unat (push_bit 8 l) = unat l * 256"
    by (simp only: unsigned_push_bit_eq) (use assms in \<open>simp add: push_bit_eq_mult take_bit_nat_eq_self\<close>)
  have "push_bit 8 l AND ucast x = 0"
    by (rule bit_word_eqI) (auto simp: bit_simps dest: bit_imp_le_length)
  then have "push_bit 8 l OR ucast x = push_bit 8 l + ucast x" by (simp add: disjunctive_add_eq_or)
  moreover have "unat (push_bit 8 l + ucast x) = unat (push_bit 8 l) + unat (ucast x :: u64)"
    using assms unat_byte_256 [of x] by (subst unat_plus_simple [THEN iffD1]) (simp_all add: no_olen_add_nat p u)
  ultimately show ?thesis using p u by simp
qed

lemma bin_loop:
  assumes "s \<noteq> [] \<Longrightarrow> 1 \<le> i \<and> m \<le> 7 \<and> length s = 8 * (i - 1) + m + 1 \<and> unat l < 256 ^ (7 - m)"
    and "s = [] \<Longrightarrow> i = 0 \<and> l = 0" "i \<le> length d"
  shows "length (bin_loop s i m l d) = length d \<and> drop i (bin_loop s i m l d) = drop i d \<and>
    words_val (take i (bin_loop s i m l d)) = unat l * 256 ^ length s + bin_val s"
  using assms
proof (induction s i m l d rule: bin_loop.induct)
  case (2 x s i m l d)
  let ?l = "push_bit 8 l OR ucast x"
  have a: "1 \<le> i" "m \<le> 7" "length s = 8 * (i - 1) + m" "unat l < 256 ^ (7 - m)" "i \<le> length d" using 2(3,5) by simp_all
  have "(256 :: nat) ^ (7 - m) \<le> 256 ^ 7" by (rule power_increasing) simp_all
  then have l: "unat ?l = unat l * 256 + unat x" using a(4) by (intro shift_in_byte) simp
  show ?case
  proof (cases "m = 0")
    case True
    let ?d = "d[i - 1 := ?l]" and ?r = "bin_loop s (i - 1) 7 0 (d[i - 1 := ?l])"
    have r: "length ?r = length d" "drop (i - 1) ?r = drop (i - 1) ?d" "words_val (take (i - 1) ?r) = bin_val s"
    proof -
      have "s \<noteq> [] \<Longrightarrow> 1 \<le> i - 1 \<and> BN_BYTES - 1 \<le> 7 \<and> length s = 8 * (i - 1 - 1) + (BN_BYTES - 1) + 1 \<and>
          unat (0 :: u64) < 256 ^ (7 - (BN_BYTES - 1))"
        using a True by (cases "i - 1") (auto simp: BN_BYTES_def)
      moreover have "s = [] \<Longrightarrow> i - 1 = 0 \<and> (0 :: u64) = 0" "i - 1 \<le> length ?d" using a True by auto
      ultimately have "length ?r = length ?d \<and> drop (i - 1) ?r = drop (i - 1) ?d \<and> words_val (take (i - 1) ?r) = unat (0 :: u64) * 256 ^ length s + bin_val s"
        using 2(1) [OF refl True] by (simp add: BN_BYTES_def)
      then show "length ?r = length d" "drop (i - 1) ?r = drop (i - 1) ?d" "words_val (take (i - 1) ?r) = bin_val s" by simp_all
    qed
    have "?r ! (i - 1) = ?l" "drop i ?r = drop i d"
    proof -
      have "?r ! (i - 1) = hd (drop (i - 1) ?r)" using r(1) a by (simp add: hd_drop_conv_nth)
      then show "?r ! (i - 1) = ?l" using r(2) a by (simp add: hd_drop_conv_nth)
      have "drop 1 (drop (i - 1) ?r) = drop 1 (drop (i - 1) ?d)" using r(2) by simp
      then show "drop i ?r = drop i d" using a by simp
    qed
    then have "words_val (take i ?r) = bin_val s + 2 ^ (64 * (i - 1)) * (unat l * 256 + unat x)"
      using words_val_take_Suc [of "i - 1" ?r] r a l by simp
    also have "(2 :: nat) ^ (64 * (i - 1)) = 256 ^ length s" using a True by (simp add: power_mult)
    finally show ?thesis using True r \<open>drop i ?r = drop i d\<close> by (simp add: Let_def BN_BYTES_def algebra_simps)
  next
    case False
    have "unat ?l < 256 ^ (7 - (m - 1))"
    proof -
      have "unat ?l < (unat l + 1) * 256" using l unat_byte_256 [of x] by simp
      also have "\<dots> \<le> 256 ^ (7 - m) * 256" using a(4) by (intro mult_le_mono1) simp
      also have "\<dots> = 256 ^ (7 - (m - 1))" using False a(2) power_Suc [of "256 :: nat" "7 - m"] by (simp add: Suc_diff_le [symmetric])
      finally show ?thesis .
    qed
    then have "length (bin_loop s i (m - 1) ?l d) = length d \<and> drop i (bin_loop s i (m - 1) ?l d) = drop i d \<and>
      words_val (take i (bin_loop s i (m - 1) ?l d)) = unat ?l * 256 ^ length s + bin_val s"
    proof (intro 2(2) [OF refl False])
      show "1 \<le> i \<and> m - 1 \<le> 7 \<and> length s = 8 * (i - 1) + (m - 1) + 1 \<and> unat ?l < 256 ^ (7 - (m - 1))"
        using a False \<open>unat ?l < 256 ^ (7 - (m - 1))\<close> by simp
      show "s = [] \<Longrightarrow> i = 0 \<and> ?l = 0" using a False by auto
    qed (rule a(5))
    then show ?thesis using False l by (simp add: Let_def algebra_simps)
  qed
qed simp

subsection \<open>Normal form\<close>

lemma top_loop:
  "n \<le> length d \<Longrightarrow> top_loop d n \<le> n \<and> (0 < top_loop d n \<longrightarrow> d ! (top_loop d n - 1) \<noteq> 0) \<and>
   words_val (take (top_loop d n) d) = words_val (take n d)"
  by (induction n) (auto simp: words_val_take_Suc)

lemma bn_correct_top:
  assumes "bn_fits a"
  shows "bn_wf (bn_correct_top a)" "bn_nat (bn_correct_top a) = bn_nat a" "bn_neg (bn_correct_top a) \<longrightarrow> bn_neg a"
    "bn_d (bn_correct_top a) = bn_d a" "bn_flags (bn_correct_top a) = bn_flags a"
proof -
  have t: "top_loop (bn_d a) (bn_top a) \<le> bn_top a \<and>
      (0 < top_loop (bn_d a) (bn_top a) \<longrightarrow> bn_d a ! (top_loop (bn_d a) (bn_top a) - 1) \<noteq> 0) \<and>
      words_val (take (top_loop (bn_d a) (bn_top a)) (bn_d a)) = words_val (take (bn_top a) (bn_d a))"
    using assms by (intro top_loop) (simp add: bn_fits_def)
  show "bn_wf (bn_correct_top a)" "bn_nat (bn_correct_top a) = bn_nat a" "bn_neg (bn_correct_top a) \<longrightarrow> bn_neg a"
    "bn_d (bn_correct_top a) = bn_d a" "bn_flags (bn_correct_top a) = bn_flags a"
    using t assms by (auto simp: bn_correct_top_def Let_def bn_wf_def bn_fits_def bn_nat_def)
qed

lemma bn_correct_top_wf: "bn_wf a \<Longrightarrow> bn_correct_top a = a"
  by (cases "bn_top a") (auto simp: bn_correct_top_def bn_wf_def Let_def)

lemma bn_wexpand:
  assumes "bn_fits a" "bn_wexpand alloc a n = Some b"
  shows "bn_fits b" "n \<le> length (bn_d b)" "bn_top b = bn_top a" "bn_neg b = bn_neg a" "bn_flags b = bn_flags a"
    "take (bn_top a) (bn_d b) = take (bn_top a) (bn_d a)"
  using assms by (auto simp: bn_wexpand_def bn_expand2_def bn_expand_internal_def bn_fits_def split: if_splits)

text \<open>When an expansion succeeds: in range, or allocated and not static.\<close>

lemma bn_wexpand_None:
  "bn_fits a \<Longrightarrow> bn_wexpand alloc a n = None \<longleftrightarrow>
   length (bn_d a) < n \<and> (INT_MAX div (4 * BN_BITS2) < n \<or> BN_get_flags a BN_FLG_STATIC_DATA \<noteq> 0 \<or> \<not> alloc)"
  by (auto simp: bn_wexpand_def bn_expand2_def bn_expand_internal_def)

lemma bin2bn_words:
  assumes "s \<noteq> []" "(length s - 1) div 8 + 1 \<le> length d"
  shows "length (bin_loop s ((length s - 1) div 8 + 1) ((length s - 1) mod 8) 0 d) = length d \<and>
    words_val (take ((length s - 1) div 8 + 1) (bin_loop s ((length s - 1) div 8 + 1) ((length s - 1) mod 8) 0 d)) = bin_val s"
  using bin_loop [of s "(length s - 1) div 8 + 1" "(length s - 1) mod 8" 0 d] assms by (cases s) auto

lemma BN_bin2bn:
  assumes "bn_fits r" "BN_bin2bn alloc s r = Some a"
  shows "bn_fits a" "bn_nat a = bin_val s" "bin_val s \<noteq> 0 \<or> \<not> bn_neg r \<Longrightarrow> bn_wf a \<and> \<not> bn_neg a" "bn_flags a = bn_flags r"
proof -
  define t where "t = dropWhile (\<lambda>x. x = 0) s"
  have v: "bin_val t = bin_val s" by (simp add: t_def)
  have "bn_fits a \<and> bn_nat a = bin_val s \<and> (bin_val s \<noteq> 0 \<or> \<not> bn_neg r \<longrightarrow> bn_wf a \<and> \<not> bn_neg a) \<and> bn_flags a = bn_flags r"
  proof (cases "t = []")
    case True
    then have "bin_val s = 0" using v by simp
    then show ?thesis using assms True by (auto simp: BN_bin2bn_def Let_def t_def bn_fits_def bn_wf_def bn_nat_def)
  next
    case False
    let ?i = "(length t - 1) div BN_BYTES + 1" and ?m = "(length t - 1) mod BN_BYTES"
    from assms False obtain b where b: "bn_wexpand alloc r ?i = Some b"
      and a: "a = bn_correct_top (b\<lparr>bn_top := ?i, bn_neg := False, bn_d := bin_loop t ?i ?m 0 (bn_d b)\<rparr>)"
      unfolding BN_bin2bn_def Let_def t_def [symmetric] by auto
    note w = bn_wexpand [OF assms(1) b]
    let ?c = "b\<lparr>bn_top := ?i, bn_neg := False, bn_d := bin_loop t ?i ?m 0 (bn_d b)\<rparr>"
    have l: "length (bin_loop t ?i ?m 0 (bn_d b)) = length (bn_d b)" "words_val (take ?i (bin_loop t ?i ?m 0 (bn_d b))) = bin_val t"
      using bin2bn_words [OF False, of "bn_d b"] w(2) by (simp_all add: BN_BYTES_def)
    have f: "bn_fits ?c" using w(1,2) l(1) by (simp add: bn_fits_def)
    have "bn_nat ?c = bin_val s" using l(2) v by (simp add: bn_nat_def)
    then show ?thesis using bn_correct_top [OF f] w(5) unfolding a by (auto simp: bn_wf_def)
  qed
  then show "bn_fits a" "bn_nat a = bin_val s" "bin_val s \<noteq> 0 \<or> \<not> bn_neg r \<Longrightarrow> bn_wf a \<and> \<not> bn_neg a" "bn_flags a = bn_flags r"
    by simp_all
qed

subsection \<open>To bytes\<close>

text \<open>Byte \<open>j\<close> of an array of words, and the bytes of a number, least significant first.\<close>

definition word_byte :: "u64 list \<Rightarrow> nat \<Rightarrow> byte" where
  "word_byte d j = ucast (drop_bit (8 * (j mod 8)) (d ! (j div 8)))"

lemma unat_of_u64: "n < 2 ^ 63 \<Longrightarrow> unat (word_of_nat n :: u64) = n"
  by (simp add: unat_of_nat)

lemma less_bit:
  assumes "j < 2 ^ 62" "k < 2 ^ 62"
  shows "drop_bit (8 * 8 - 1) (word_of_nat j - word_of_nat k :: u64) = (if j < k then 1 else 0)"
proof -
  have u: "unat (word_of_nat j - word_of_nat k :: u64) = (if k \<le> j then j - k else 2 ^ 64 + j - k)"
    using unat_sub_if' [of "word_of_nat j :: u64" "word_of_nat k"] unat_of_u64 [of j] unat_of_u64 [of k] assms by auto
  have "unat (drop_bit 63 (word_of_nat j - word_of_nat k :: u64)) = (if j < k then 1 else 0)"
    unfolding unat_drop u using assms by (auto simp: div_eq_dividend_iff intro!: div_nat_eqI)
  then show ?thesis by (auto simp: word_unat_eq_iff)
qed

lemma bn2bin_loop:
  assumes "8 * length d < 2 ^ 62" "0 < length d" "8 * t \<le> 8 * length d" "j + n < 2 ^ 62"
  shows "bn2bin_loop d (word_of_nat (8 * t)) (word_of_nat (8 * length d - 1)) n (word_of_nat j) (word_of_nat (min j (8 * length d - 1))) =
    map (\<lambda>j. if j < 8 * t then word_byte d j else 0) [j..<j + n]"
  using assms(4)
proof (induction n arbitrary: j)
  case (Suc n)
  let ?L = "8 * length d - 1"
  let ?i = "min j ?L"
  have i: "unat (word_of_nat ?i :: u64) = ?i" using assms(1) by (intro unat_of_u64) simp
  have m: "0 - drop_bit (8 * 8 - 1) (word_of_nat j - word_of_nat (8 * t)) = (if j < 8 * t then -1 else 0 :: u64)"
    using less_bit [of j "8 * t"] Suc.prems assms by simp
  have "drop_bit (8 * 8 - 1) (word_of_nat ?i - word_of_nat ?L) = (if ?i < ?L then 1 else 0 :: u64)"
    by (rule less_bit) (use Suc.prems assms in auto)
  then have n: "word_of_nat ?i + drop_bit (8 * 8 - 1) (word_of_nat ?i - word_of_nat ?L) = (word_of_nat (min (Suc j) ?L) :: u64)"
    by (cases "j < ?L") (simp_all add: min_def)
  have b: "(ucast (drop_bit (8 * (?i mod BN_BYTES)) (d ! (?i div BN_BYTES)) AND (if j < 8 * t then -1 else 0)) :: byte) =
      (if j < 8 * t then word_byte d j else 0)"
    using assms(3) by (auto simp: word_byte_def BN_BYTES_def min_def)
  have s: "word_of_nat j + 1 = (word_of_nat (Suc j) :: u64)" by simp
  have u: "[j..<j + Suc n] = j # [Suc j..<Suc j + n]" by (simp add: upt_conv_Cons del: upt_Suc)
  show ?case
    unfolding bn2bin_loop.simps Let_def i m n b s Suc.IH [of "Suc j", OF Suc.prems [unfolded add_Suc_right, folded add_Suc]] u
    by simp
qed simp

lemma bin_val_rev_bytes:
  "bin_val (rev (map (\<lambda>j. if j < 8 * t then word_byte d j else 0) [0..<n])) = words_val (take t d) mod 256 ^ n" if "t \<le> length d"
proof (induction n)
  case (Suc n)
  let ?V = "words_val (take t d)"
  have "unat (if n < 8 * t then word_byte d n else 0) = ?V div 256 ^ n mod 256"
  proof (cases "n < 8 * t")
    case True
    let ?q = "n div 8" and ?r = "n mod 8"
    have q: "?q < t" "?q < length d" using True that by auto
    have p: "(256 :: nat) ^ n = 2 ^ (64 * ?q) * 2 ^ (8 * ?r)"
    proof -
      have "(256 :: nat) ^ n = 2 ^ (8 * n)" by (simp add: power_mult)
      also have "8 * n = 64 * ?q + 8 * ?r" using div_mult_mod_eq [of n 8] by linarith
      finally show ?thesis by (simp only: power_add)
    qed
    have "take t d = take ?q d @ d ! ?q # drop (Suc ?q) (take t d)"
      using q id_take_nth_drop [of ?q "take t d"] by simp
    then have "?V = words_val (take ?q d) + 2 ^ (64 * ?q) * (unat (d ! ?q) + 2 ^ 64 * words_val (drop (Suc ?q) (take t d)))"
      using q by (metis words_val_append words_val.simps(2) length_take min.absorb4)
    then have "?V div 2 ^ (64 * ?q) = unat (d ! ?q) + 2 ^ 64 * words_val (drop (Suc ?q) (take t d))"
      using words_val_less [of "take ?q d"] q by simp
    then have "?V div 256 ^ n mod 256 = (unat (d ! ?q) + 2 ^ 64 * words_val (drop (Suc ?q) (take t d))) div 2 ^ (8 * ?r) mod 2 ^ 8"
      unfolding p by (simp add: div_mult2_eq)
    also have "\<dots> = unat (d ! ?q) div 2 ^ (8 * ?r) mod 2 ^ 8"
    proof -
      have r: "8 * ?r + 8 \<le> 64" by simp
      have "(x + 2 ^ 64 * y) div 2 ^ k mod 2 ^ 8 = x div 2 ^ k mod 2 ^ 8" if "k + 8 \<le> 64" for x y k :: nat
      proof -
        have "(2 :: nat) ^ 64 = 2 ^ k * (2 ^ 8 * 2 ^ (64 - k - 8))" using that by (simp flip: power_add)
        then have "x + 2 ^ 64 * y = x + 2 ^ k * (2 ^ 8 * (2 ^ (64 - k - 8) * y))" by simp
        then have "(x + 2 ^ 64 * y) div 2 ^ k = x div 2 ^ k + 2 ^ 8 * (2 ^ (64 - k - 8) * y)" by (simp only: div_mult_self2 power_not_zero) simp
        then show ?thesis by (simp only: mod_mult_self2)
      qed
      from this [OF r] show ?thesis .
    qed
    also have "\<dots> = unat (word_byte d n)"
      by (simp add: word_byte_def unsigned_ucast_eq unat_drop take_bit_eq_mod)
    finally show ?thesis using True by simp
  next
    case False
    have "?V < 2 ^ (64 * t)" using words_val_less [of "take t d"] that by simp
    also have "\<dots> = 256 ^ (8 * t)" by (simp add: power_mult)
    also have "\<dots> \<le> 256 ^ n" using False by (intro power_increasing) simp_all
    finally show ?thesis using False by simp
  qed
  moreover have "?V mod 256 ^ Suc n = ?V div 256 ^ n mod 256 * 256 ^ n + ?V mod 256 ^ n"
    using mod_mult2_eq [of ?V "256 ^ n" 256] by (simp only: power_Suc2 mult.commute add.commute)
  ultimately show ?case using Suc.IH by simp
qed simp

lemma BN_bn2binpad:
  assumes "bn_wf a" "n < 2 ^ 31"
  shows "if bn_nat a < 256 ^ n
    then \<exists>s. BN_bn2binpad a (int n) = (int n, s) \<and> BN_bn2lebinpad a (int n) = (int n, rev s) \<and> length s = n \<and> bin_val s = bn_nat a
    else BN_bn2binpad a (int n) = (-1, []) \<and> BN_bn2lebinpad a (int n) = (-1, [])"
proof (cases "bn_nat a < 256 ^ n")
  case False
  then have "\<not> BN_num_bytes a \<le> n" using BN_num_bytes [OF assms(1)] by simp
  then show ?thesis using False bn_correct_top_wf [OF assms(1)] by (simp add: BN_bn2binpad_def BN_bn2lebinpad_def bn2binpad_def Let_def)
next
  case True
  let ?n = "length (bn_d a)"
  have c: "bn_top a \<le> ?n" "?n \<le> 8388607" using assms(1) bn_fits_size [of a] by (simp_all add: bn_wf_def)
  have b: "BN_num_bytes a \<le> n" using True BN_num_bytes [OF assms(1)] by simp
  show ?thesis
  proof (cases "?n = 0")
    case z: True
    then have "bn_nat a = 0" by (simp add: bn_nat_def)
    moreover have "bin_val (replicate n 0) = 0" for n by (induction n) simp_all
    ultimately show ?thesis using True z b by (simp add: BN_bn2binpad_def BN_bn2lebinpad_def bn2binpad_def Let_def)
  next
    case False
    let ?bs = "map (\<lambda>j. if j < 8 * bn_top a then word_byte (bn_d a) j else 0) [0..<n]"
    have a: "(word_of_nat (?n * BN_BYTES) :: u64) \<noteq> 0" "word_of_nat (?n * BN_BYTES) - 1 = (word_of_nat (8 * ?n - 1) :: u64)"
      "(word_of_nat (bn_top a * BN_BYTES) :: u64) = word_of_nat (8 * bn_top a)"
    proof -
      have "unat (word_of_nat (?n * BN_BYTES) :: u64) = 8 * ?n" using unat_of_u64 [of "8 * ?n"] c by (simp add: BN_BYTES_def mult.commute)
      then show "(word_of_nat (?n * BN_BYTES) :: u64) \<noteq> 0" using False by (metis mult_eq_0_iff unsigned_0 zero_neq_numeral)
      show "word_of_nat (?n * BN_BYTES) - 1 = (word_of_nat (8 * ?n - 1) :: u64)" using False by (cases "?n") (simp_all add: BN_BYTES_def)
    qed (simp add: BN_BYTES_def mult.commute)
    have l: "bn2bin_loop (bn_d a) (word_of_nat (8 * bn_top a)) (word_of_nat (8 * ?n - 1)) n 0 0 = ?bs"
    proof -
      have "bn2bin_loop (bn_d a) (word_of_nat (8 * bn_top a)) (word_of_nat (8 * ?n - 1)) n (word_of_nat 0) (word_of_nat (min 0 (8 * ?n - 1))) =
          map (\<lambda>j. if j < 8 * bn_top a then word_byte (bn_d a) j else 0) [0..<0 + n]"
        by (rule bn2bin_loop) (use c assms(2) False in auto)
      then show ?thesis by (simp only: min_0L semiring_1_class.of_nat_0 add_0)
    qed
    have t: "(if int n = -1 then x else int n) = int n" for x by simp
    have "words_val (take (bn_top a) (bn_d a)) mod 256 ^ n = bn_nat a" using True by (simp add: bn_nat_def)
    then have "bin_val (rev ?bs) = bn_nat a" using bin_val_rev_bytes [OF c(1), of n] by simp
    moreover have "BN_bn2binpad a (int n) = (int n, rev ?bs)" "BN_bn2lebinpad a (int n) = (int n, ?bs)"
      using b unfolding BN_bn2binpad_def BN_bn2lebinpad_def bn2binpad_def Let_def a t nat_int l if_not_P [OF a(1)] by simp_all
    ultimately show ?thesis using True by simp
  qed
qed

text \<open>C38: Reading a byte string into any big number gives the magnitude that the bytes spell, and writing it out at the length
  of the string gives the string back; at another length it is written exactly when it fits. The sign is cleared, but for
  the zero string, which leaves a negative number a negative zero.\<close>

theorem bn_bytes_roundtrip:
  assumes "bn_fits r" "length s < 2 ^ 31" "BN_bin2bn alloc s r = Some a" "n < 2 ^ 31"
  shows "bn_nat a = bin_val s \<and> (bn_neg a \<longleftrightarrow> bn_neg r \<and> bin_val s = 0) \<and>
    BN_bn2binpad a (int (length s)) = (int (length s), s) \<and> (fst (BN_bn2binpad a (int n)) = int n \<longleftrightarrow> bin_val s < 256 ^ n)"
proof -
  note b = BN_bin2bn [OF assms(1,3)]
  let ?a = "a\<lparr>bn_neg := False\<rparr>"
  have neg: "bn_neg a \<longleftrightarrow> bn_neg r \<and> bin_val s = 0"
  proof (cases "bin_val s = 0")
    case True
    then have "dropWhile (\<lambda>x. x = 0) s = []" by (induction s) (auto split: if_splits simp: unat_eq_zero)
    then show ?thesis using True assms(3) by (auto simp: BN_bin2bn_def)
  qed (use b(3) in auto)
  have z: "bn_top a = 0" if "bn_neg a"
  proof -
    have "dropWhile (\<lambda>x. x = 0) s = []" using neg that by (induction s) (auto split: if_splits simp: unat_eq_zero)
    then show ?thesis using assms(3) by (auto simp: BN_bin2bn_def)
  qed
  then have w: "bn_wf ?a" using b(1,3) neg by (cases "bn_neg a") (auto simp: bn_wf_def bn_fits_def)
  have nat: "bn_nat ?a = bin_val s" using b(2) by (simp add: bn_nat_def)
  have same: "BN_bn2binpad ?a k = BN_bn2binpad a k" for k
  proof (cases "bn_neg a")
    case True
    have "nbits_step ?a = nbits_step a" by (simp add: nbits_step_def fun_eq_iff)
    then have "BN_num_bytes ?a = BN_num_bytes a"
      by (simp add: BN_num_bytes_def BN_num_bits_def bn_num_bits_consttime_def BN_is_zero_def)
    moreover have "bn_correct_top ?a = ?a" "bn_correct_top a = ?a" using z [OF True] by (simp_all add: bn_correct_top_def)
    ultimately show ?thesis by (simp add: BN_bn2binpad_def bn2binpad_def Let_def)
  next
    case False
    then have "?a = a" by simp
    then show ?thesis by simp
  qed
  have "BN_bn2binpad ?a (int (length s)) = (int (length s), s)"
    using BN_bn2binpad [OF w assms(2)] bin_val_less [of s] bin_val_inj [of _ s] unfolding nat by auto
  moreover have "fst (BN_bn2binpad ?a (int n)) = int n \<longleftrightarrow> bin_val s < 256 ^ n"
    using BN_bn2binpad [OF w assms(4)] unfolding nat by (auto split: if_splits)
  ultimately show ?thesis using b(2) neg unfolding same by simp
qed

lemmas bn_eval = BN_bin2bn_def bn_wexpand_def bn_expand2_def bn_expand_internal_def bn_correct_top_def bn_init_def BN_get_flags_def
  BN_BYTES_def BN_BITS2_def INT_MAX_def BN_MASK2_def BN_FLG_STATIC_DATA_def Let_def

theorem bn_bytes_roundtrip_witness:
  "bn_nat \<lparr>bn_d = [0x0102], bn_top = 1, bn_neg = False, bn_flags = 0\<rparr> = bin_val [0, 1, 2] \<and>
   (bn_neg \<lparr>bn_d = [0x0102], bn_top = 1, bn_neg = False, bn_flags = 0\<rparr> \<longleftrightarrow> bn_neg bn_init \<and> bin_val [0, 1, 2] = 0) \<and>
   BN_bn2binpad \<lparr>bn_d = [0x0102], bn_top = 1, bn_neg = False, bn_flags = 0\<rparr> (int (length [0, 1, 2 :: byte])) =
     (int (length [0, 1, 2 :: byte]), [0, 1, 2]) \<and>
   (fst (BN_bn2binpad \<lparr>bn_d = [0x0102], bn_top = 1, bn_neg = False, bn_flags = 0\<rparr> (int 1)) = int 1 \<longleftrightarrow> bin_val [0, 1, 2] < 256 ^ 1)"
  by (rule bn_bytes_roundtrip [of bn_init _ True]) (simp_all add: bn_fits_def bn_eval)

text \<open>C40: The length of a number in bits is the same with and without the flag for constant time, and is the position after its
  highest bit.\<close>

theorem bn_num_bits_exact:
  assumes "bn_wf a"
  shows "bn_nat a < 2 ^ BN_num_bits a \<and> (bn_nat a \<noteq> 0 \<longrightarrow> 2 ^ (BN_num_bits a - 1) \<le> bn_nat a) \<and>
    BN_num_bits (BN_set_flags a BN_FLG_CONSTTIME) = BN_num_bits a \<and> (BN_num_bytes a \<le> k \<longleftrightarrow> bn_nat a < 256 ^ k)"
proof -
  have w: "bn_wf (BN_set_flags a BN_FLG_CONSTTIME)" "bn_nat (BN_set_flags a BN_FLG_CONSTTIME) = bn_nat a"
    using assms by (simp_all add: BN_set_flags_def bn_wf_def bn_fits_def bn_nat_def)
  have l: "bit_len (bn_nat a) \<le> j \<longleftrightarrow> bn_nat a < 2 ^ j" for j by (rule bit_len_le)
  have "2 ^ (bit_len (bn_nat a) - 1) \<le> bn_nat a" if "bn_nat a \<noteq> 0"
  proof -
    have "0 < bit_len (bn_nat a)" using that by (simp add: neq0_conv [symmetric] del: neq0_conv)
    then show ?thesis using l [of "bit_len (bn_nat a) - 1"] by linarith
  qed
  then show ?thesis using l [of "bit_len (bn_nat a)"] BN_num_bits [OF assms] BN_num_bits [OF w(1)] w(2) BN_num_bytes [OF assms] by simp
qed

theorem bn_num_bits_exact_witness:
  "bn_nat BN_value_one < 2 ^ BN_num_bits BN_value_one \<and> 2 ^ (BN_num_bits BN_value_one - 1) \<le> bn_nat BN_value_one \<and>
   BN_num_bits (BN_set_flags BN_value_one BN_FLG_CONSTTIME) = BN_num_bits BN_value_one"
proof -
  have w: "bn_wf BN_value_one" "bn_nat BN_value_one \<noteq> 0"
    by (simp_all add: bn_wf_def bn_fits_def BN_value_one_def bn_nat_def INT_MAX_def BN_BITS2_def)
  show ?thesis using bn_num_bits_exact [OF w(1), of 1] w(2) by blast
qed

subsection \<open>Comparison\<close>

lemma cmp_loop:
  "n \<le> length a \<Longrightarrow> n \<le> length b \<Longrightarrow>
   cmp_loop a b n = sgn (int (words_val (take n a)) - int (words_val (take n b)))"
proof (induction n)
  case (Suc n)
  let ?A = "words_val (take n a)" and ?B = "words_val (take n b)" and ?P = "2 ^ (64 * n) :: nat"
  have l: "?A < ?P" "?B < ?P" using words_val_less [of "take n a"] words_val_less [of "take n b"] Suc.prems by simp_all
  have v: "words_val (take (Suc n) a) = ?A + ?P * unat (a ! n)" "words_val (take (Suc n) b) = ?B + ?P * unat (b ! n)"
    using Suc.prems by (simp_all add: words_val_take_Suc)
  have gt: "Y + ?P * y < X + ?P * x" if "Y < ?P" "X < ?P" "y < x" for X Y x y :: nat
  proof -
    have "Y + ?P * y < ?P * Suc y" using that by simp
    also have "\<dots> \<le> ?P * x" using that by (intro mult_le_mono2) simp
    finally show ?thesis by simp
  qed
  consider "a ! n = b ! n" | "unat (a ! n) > unat (b ! n)" | "unat (a ! n) < unat (b ! n)"
    by (metis nat_neq_iff word_unat_eq_iff)
  then show ?case
  proof cases
    case 1
    then show ?thesis using Suc unfolding v by simp
  next
    case 2
    have "words_val (take (Suc n) b) < words_val (take (Suc n) a)" unfolding v by (rule gt [OF l(2,1) 2])
    then have "sgn (int (words_val (take (Suc n) a)) - int (words_val (take (Suc n) b))) = 1" by simp
    then show ?thesis using 2 by (auto simp: word_less_nat_alt)
  next
    case 3
    have "words_val (take (Suc n) a) < words_val (take (Suc n) b)" unfolding v by (rule gt [OF l 3])
    then have "sgn (int (words_val (take (Suc n) a)) - int (words_val (take (Suc n) b))) = -1" by simp
    then show ?thesis using 3 by (auto simp: word_less_nat_alt)
  qed
qed simp

lemma cmp_gt_lt: "cmp_gt_lt gt lt a b n = (if cmp_loop a b n = 1 then gt else if cmp_loop a b n = -1 then lt else 0)"
  by (induction n) auto

lemma bn_nat_top_less:
  assumes "bn_wf a" "bn_wf b" "bn_top a < bn_top b"
  shows "bn_nat a < bn_nat b"
proof -
  obtain i where i: "bn_top b = Suc i" using assms(3) by (cases "bn_top b") auto
  have s: "bn_top a \<le> length (bn_d a)" "i < length (bn_d b)" "0 < unat (bn_d b ! i)"
    using assms i by (simp_all add: bn_wf_def bn_fits_def unat_gt_0)
  have "bn_nat a < 2 ^ (64 * bn_top a)" using words_val_less [of "take (bn_top a) (bn_d a)"] s(1) by (simp add: bn_nat_def)
  also have "\<dots> \<le> 2 ^ (64 * i)" using assms(3) i by (intro power_increasing) simp_all
  also have "\<dots> \<le> 2 ^ (64 * i) * unat (bn_d b ! i)" using s(3) by simp
  also have "\<dots> \<le> bn_nat b" using words_val_take_Suc [OF s(2)] by (simp add: bn_nat_def i)
  finally show ?thesis .
qed

lemma BN_ucmp:
  assumes "bn_wf a" "bn_wf b"
  shows "sgn (BN_ucmp a b) = sgn (int (bn_nat a) - int (bn_nat b))"
proof -
  consider "bn_top a = bn_top b" | "bn_top a < bn_top b" | "bn_top b < bn_top a" by linarith
  then show ?thesis
  proof cases
    case 1
    have "sgn (cmp_loop (bn_d a) (bn_d b) n) = cmp_loop (bn_d a) (bn_d b) n" for n by (induction n) auto
    then show ?thesis using cmp_loop [of "bn_top a" "bn_d a" "bn_d b"] assms 1
      by (simp add: BN_ucmp_def bn_nat_def bn_wf_def bn_fits_def)
  qed (use bn_nat_top_less [OF assms] bn_nat_top_less [OF assms(2,1)] in \<open>simp_all add: BN_ucmp_def Let_def\<close>)
qed

lemma BN_cmp:
  assumes "bn_wf a" "bn_wf b"
  shows "BN_cmp a b = sgn (bn_val a - bn_val b)"
proof (cases "bn_neg a = bn_neg b")
  case False
  have pos: "0 < bn_nat c" if "bn_wf c" "bn_neg c" for c
    using bn_nat_top_less [of "c\<lparr>bn_top := 0, bn_neg := False\<rparr>" c] that by (auto simp: bn_wf_def bn_fits_def bn_nat_def)
  show ?thesis using False pos [OF assms(1)] pos [OF assms(2)] by (cases "bn_neg a") (auto simp: BN_cmp_def bn_val_def)
next
  case True
  consider "bn_top a = bn_top b" | "bn_top a < bn_top b" | "bn_top b < bn_top a" by linarith
  then show ?thesis
  proof cases
    case 1
    then have c: "cmp_loop (bn_d a) (bn_d b) (bn_top a) = sgn (int (bn_nat a) - int (bn_nat b))"
      using cmp_loop [of "bn_top a" "bn_d a" "bn_d b"] assms by (simp add: bn_nat_def bn_wf_def bn_fits_def)
    show ?thesis using True 1 unfolding BN_cmp_def cmp_gt_lt c bn_val_def by (auto simp: sgn_if)
  qed (use True bn_nat_top_less [OF assms] bn_nat_top_less [OF assms(2,1)] in \<open>auto simp: BN_cmp_def bn_val_def\<close>)
qed

lemma bn_nat_words:
  assumes "bn_wf a"
  shows "bn_nat a = 0 \<longleftrightarrow> bn_top a = 0" "bn_top a = 1 \<Longrightarrow> bn_nat a = unat (bn_d a ! 0)" "1 < bn_top a \<Longrightarrow> 2 ^ 64 \<le> bn_nat a"
    "0 < bn_top a \<Longrightarrow> odd (bn_nat a) = odd (unat (bn_d a ! 0))"
proof -
  have t: "bn_top a \<le> length (bn_d a)" using assms by (simp add: bn_wf_def bn_fits_def)
  have z: "bn_wf (a\<lparr>bn_top := 0, bn_neg := False\<rparr>)" using assms by (simp add: bn_wf_def bn_fits_def)
  show "bn_nat a = 0 \<longleftrightarrow> bn_top a = 0" using bn_nat_top_less [OF z assms] by (cases "bn_top a") (auto simp: bn_nat_def)
  show "bn_nat a = unat (bn_d a ! 0)" if "bn_top a = 1"
    using that t by (cases "bn_d a") (simp_all add: bn_nat_def)
  have o: "bn_wf \<lparr>bn_d = [-1], bn_top = 1, bn_neg = False, bn_flags = 0\<rparr>" by (simp add: bn_wf_def bn_fits_def INT_MAX_def BN_BITS2_def)
  show "2 ^ 64 \<le> bn_nat a" if "1 < bn_top a"
    using bn_nat_top_less [OF o assms] that by (simp add: bn_nat_def unsigned_minus_1_eq_mask mask_eq_exp_minus_1)
  show "odd (bn_nat a) = odd (unat (bn_d a ! 0))" if "0 < bn_top a"
    using that t by (cases "bn_d a"; cases "bn_top a") (auto simp: bn_nat_def)
qed

text \<open>C39: On numbers in normal form the comparisons and the tests of \<open>bn_lib.c\<close> are those of the integers that they stand for.\<close>

theorem bn_compare:
  assumes "bn_wf a" "bn_wf b"
  shows "sgn (BN_ucmp a b) = sgn (\<bar>bn_val a\<bar> - \<bar>bn_val b\<bar>) \<and> BN_cmp a b = sgn (bn_val a - bn_val b) \<and>
    (BN_is_zero a \<longleftrightarrow> bn_val a = 0) \<and> (BN_is_one a \<longleftrightarrow> bn_val a = 1) \<and> (BN_is_word a w \<longleftrightarrow> bn_val a = int (unat w)) \<and>
    (BN_is_odd a \<longleftrightarrow> odd (bn_val a)) \<and> (BN_is_negative a \<longleftrightarrow> bn_val a < 0) \<and>
    (BN_get_word a = (if \<bar>bn_val a\<bar> < 2 ^ 64 then word_of_nat (bn_nat a) else -1))"
proof -
  note n = bn_nat_words [OF assms(1)]
  have odd1: "x AND 1 \<noteq> 0 \<longleftrightarrow> odd (unat x)" for x :: u64
    using bit_unsigned_iff [where 'a = nat, of x 0] by (simp add: and_one_eq mod2_eq_if bit_0)
  have abs: "BN_abs_is_word a w \<longleftrightarrow> bn_nat a = unat w" for w
  proof -
    consider "bn_top a = 0" | "bn_top a = 1" | "1 < bn_top a" by linarith
    then show ?thesis
    proof cases
      case 3
      then show ?thesis using n(3) unat_u64 [of w] by (auto simp: BN_abs_is_word_def)
    qed (use n(1,2) in \<open>auto simp: BN_abs_is_word_def word_unat_eq_iff\<close>)
  qed
  have neg: "bn_neg a \<Longrightarrow> bn_nat a \<noteq> 0" using assms(1) n(1) by (auto simp: bn_wf_def)
  have val: "\<bar>bn_val a\<bar> = int (bn_nat a)" "\<bar>bn_val b\<bar> = int (bn_nat b)" by (simp_all add: bn_val_def)
  have small: "int (bn_nat a) < 2 ^ 64 \<longleftrightarrow> bn_nat a < 2 ^ 64" by (metis of_nat_less_iff of_nat_numeral of_nat_power)
  have "BN_is_zero a \<longleftrightarrow> bn_val a = 0" using n(1) by (simp add: BN_is_zero_def bn_val_def)
  moreover have "BN_is_one a \<longleftrightarrow> bn_val a = 1" by (auto simp: BN_is_one_def abs bn_val_def)
  moreover have "BN_is_word a w \<longleftrightarrow> bn_val a = int (unat w)"
  proof -
    obtain v where v: "v = unat w" "w = 0 \<longleftrightarrow> v = 0" by (simp add: unat_eq_zero)
    show ?thesis using neg unfolding BN_is_word_def abs bn_val_def v(1) [symmetric] v(2) by (cases "bn_neg a") auto
  qed
  moreover have "BN_is_odd a \<longleftrightarrow> odd (bn_val a)"
    using n(1,4) by (cases "bn_top a = 0") (simp_all add: BN_is_odd_def odd1 bn_val_def)
  moreover have "BN_is_negative a \<longleftrightarrow> bn_val a < 0" using neg by (auto simp: BN_is_negative_def bn_val_def)
  moreover have "BN_get_word a = (if bn_nat a < 2 ^ 64 then word_of_nat (bn_nat a) else -1)"
  proof -
    consider "bn_top a = 0" | "bn_top a = 1" | "1 < bn_top a" by linarith
    then show ?thesis using n(1-3) unat_u64 [of "bn_d a ! 0"] by cases (simp_all add: BN_get_word_def BN_MASK2_def)
  qed
  ultimately show ?thesis using BN_ucmp [OF assms] BN_cmp [OF assms] unfolding val small by simp
qed

theorem bn_compare_witness:
  "sgn (BN_ucmp BN_value_one bn_init) = sgn (\<bar>bn_val BN_value_one\<bar> - \<bar>bn_val bn_init\<bar>) \<and>
   BN_cmp BN_value_one bn_init = sgn (bn_val BN_value_one - bn_val bn_init) \<and>
   (BN_is_zero BN_value_one \<longleftrightarrow> bn_val BN_value_one = 0) \<and> (BN_is_one BN_value_one \<longleftrightarrow> bn_val BN_value_one = 1) \<and>
   (BN_is_word BN_value_one 7 \<longleftrightarrow> bn_val BN_value_one = int (unat (7 :: u64))) \<and>
   (BN_is_odd BN_value_one \<longleftrightarrow> odd (bn_val BN_value_one)) \<and> (BN_is_negative BN_value_one \<longleftrightarrow> bn_val BN_value_one < 0) \<and>
   (BN_get_word BN_value_one = (if \<bar>bn_val BN_value_one\<bar> < 2 ^ 64 then word_of_nat (bn_nat BN_value_one) else -1))"
  by (rule bn_compare) (simp_all add: bn_wf_def bn_fits_def BN_value_one_def bn_init_def INT_MAX_def BN_BITS2_def)

end
