(* ===== verification/BnAsmProps.thy ===== *)
theory BnAsmProps
  imports BnAsm BnProps
begin

text \<open>
  What the word arithmetic of \<^verbatim>\<open>bn_asm.c\<close> computes: each function is an equation between the natural
  numbers that its operands and results stand for, carries and borrows included.
\<close>

named_theorems limb_simps

lemma and_MASK2 [limb_simps]: "w AND BN_MASK2 = w"
  by (simp add: BN_MASK2_def)

lemma unat_inverse: "word_of_nat (unat w) = (w :: u64)"
  by simp

lemma unatI: "w = word_of_nat n \<Longrightarrow> n < 2 ^ 64 \<Longrightarrow> unat (w :: u64) = n"
  by (simp add: unat_of_nat take_bit_nat_eq_self)

lemma unat_plus: "unat a + unat b < 2 ^ 64 \<Longrightarrow> unat (a + b :: u64) = unat a + unat b"
  by (rule unatI) simp_all

lemma unat_times: "unat a * unat b < 2 ^ 64 \<Longrightarrow> unat (a * b :: u64) = unat a * unat b"
  by (rule unatI) simp_all

lemma word_add_carry: "unat (a + b) + 2 ^ 64 * of_bool (a + b < b) = unat a + unat (b :: u64)"
proof (cases "unat a + unat b < 2 ^ 64")
  case True
  then show ?thesis using unat_plus [OF True] by (simp add: word_less_nat_alt)
next
  case False
  have "unat a < 2 ^ 64" "unat b < 2 ^ 64" by (rule unat_u64)+
  moreover have "unat (a + b) = unat a + unat b - 2 ^ 64"
    using False unat_u64 [of a] unat_u64 [of b] by (simp add: unat_word_ariths(1) le_mod_geq)
  ultimately show ?thesis using False by (simp add: word_less_nat_alt)
qed

lemma if_add_1: "(if P then h + 1 else h) = h + (of_bool P :: u64)"
  by simp

subsection \<open>Halves of words\<close>

lemma unat_mask: "unat (w AND mask n :: u64) = unat w mod 2 ^ n"
  unfolding take_bit_eq_mask [symmetric] unsigned_take_bit_eq by (simp only: take_bit_eq_mod)

lemma MASK2l: "BN_MASK2l = mask 32"
  by (simp add: BN_MASK2l_def mask_eq_exp_minus_1)

lemma unat_LBITS [limb_simps]: "unat (LBITS w) = unat w mod 2 ^ 32"
  by (simp add: LBITS_def MASK2l unat_mask)

lemma unat_HBITS [limb_simps]: "unat (HBITS w) = unat w div 2 ^ 32"
proof -
  have "unat w div 2 ^ 32 < 2 ^ 32" using unat_u64 [of w] by (intro less_mult_imp_div_less) simp
  then show ?thesis by (simp only: HBITS_def MASK2l unat_mask BN_BITS4_def unat_drop mod_less)
qed

lemma unat_L2HBITS [limb_simps]: "unat (L2HBITS w) = unat w mod 2 ^ 32 * 2 ^ 32"
proof -
  have "unat w * 2 ^ 32 mod (2 ^ 32 * 2 ^ 32) = unat w mod 2 ^ 32 * 2 ^ 32" by (rule mult_mod_left [symmetric])
  moreover have "(2 :: nat) ^ 64 = 2 ^ 32 * 2 ^ 32" by (simp flip: power_add)
  ultimately show ?thesis
    by (simp only: L2HBITS_def and_MASK2 BN_BITS4_def unsigned_push_bit_eq) (simp add: take_bit_eq_mod push_bit_eq_mult)
qed

lemma HBITS_of_nat: "HBITS w = word_of_nat (unat w div 2 ^ 32)"
  by (metis unat_HBITS unat_inverse)

lemma drop_of_nat: "drop_bit k w = (word_of_nat (unat w div 2 ^ k) :: u64)"
  by (metis unat_drop unat_inverse)

lemma halves_less: "unat (LBITS w) < 2 ^ 32" "unat (HBITS w) < 2 ^ 32"
  using unat_u64 [of w] by (simp_all add: limb_simps less_mult_imp_div_less)

lemma halves: "unat (LBITS w) + 2 ^ 32 * unat (HBITS w) = unat w"
  unfolding unat_LBITS unat_HBITS by (metis add.commute mult_div_mod_eq)

subsection \<open>Products\<close>

lemma half_prod: "x < 2 ^ 32 \<Longrightarrow> y < 2 ^ 32 \<Longrightarrow> x * y \<le> (2 ^ 32 - 1) * (2 ^ 32 - 1)" for x y :: nat
  by (intro mult_le_mono) simp_all

lemma high_less: "l + 2 ^ 64 * h < 2 ^ 64 * 2 ^ 64 \<Longrightarrow> h < 2 ^ 64" for l h :: nat
  by simp

lemma mul64_sum:
  "m + 2 ^ 64 * c1 = x \<Longrightarrow> m = mm + 2 ^ 32 * md \<Longrightarrow> lo + 2 ^ 64 * c2 = a + mm * 2 ^ 32 \<Longrightarrow>
   a + 2 ^ 32 * x + 2 ^ 64 * d = lo + 2 ^ 64 * (d + c1 * 2 ^ 32 + md + c2)" for m :: nat
  by simp

lemma mul64:
  assumes "unat l < 2 ^ 32" "unat h < 2 ^ 32" "unat bl < 2 ^ 32" "unat bh < 2 ^ 32" "mul64 l h bl bh = (lo, hi)"
  shows "unat lo + 2 ^ 64 * unat hi = (unat l + 2 ^ 32 * unat h) * (unat bl + 2 ^ 32 * unat bh)"
proof -
  define m where "m = bh * l + bl * h"
  have p: "unat (x * y) = unat x * unat y" if "unat x < 2 ^ 32" "unat y < 2 ^ 32" for x y :: u64
    using half_prod [OF that] by (intro unat_times) simp
  have m: "unat m + 2 ^ 64 * of_bool (m < bl * h) = unat bh * unat l + unat bl * unat h"
    using word_add_carry [of "bh * l" "bl * h"] p assms by (simp add: m_def)
  define lt where "lt = bl * l + L2HBITS m"
  have lt: "unat lt + 2 ^ 64 * of_bool (lt < L2HBITS m) = unat bl * unat l + unat m mod 2 ^ 32 * 2 ^ 32"
    using word_add_carry [of "bl * l" "L2HBITS m"] p assms by (simp add: lt_def unat_L2HBITS)
  have one: "L2HBITS 1 = word_of_nat (2 ^ 32)" by (simp add: L2HBITS_def BN_BITS4_def and_MASK2 push_bit_eq_mult)
  have lo: "lo = lt" and hi: "hi = word_of_nat (unat bh * unat h + of_bool (m < bl * h) * 2 ^ 32 + unat m div 2 ^ 32 + of_bool (lt < L2HBITS m))"
    using assms(5) by (auto simp: mul64_def Let_def limb_simps m_def lt_def one HBITS_of_nat)
  let ?T = "(unat l + 2 ^ 32 * unat h) * (unat bl + 2 ^ 32 * unat bh)"
  let ?H = "unat bh * unat h + of_bool (m < bl * h) * 2 ^ 32 + unat m div 2 ^ 32 + of_bool (lt < L2HBITS m)"
  have "unat m = unat m mod 2 ^ 32 + 2 ^ 32 * (unat m div 2 ^ 32)" by simp
  moreover have "?T = unat bl * unat l + 2 ^ 32 * (unat bh * unat l + unat bl * unat h) + 2 ^ 64 * (unat bh * unat h)"
    by (simp add: algebra_simps)
  ultimately have T: "?T = unat lt + 2 ^ 64 * ?H" using mul64_sum [OF m _ lt] by simp
  have "?T < 2 ^ 64 * 2 ^ 64"
  proof (rule mult_strict_mono)
    show "unat l + 2 ^ 32 * unat h < 2 ^ 64" "unat bl + 2 ^ 32 * unat bh < 2 ^ 64" using assms by simp_all
  qed simp_all
  then have "?H < 2 ^ 64" unfolding T by (rule high_less)
  then have "unat hi = ?H" using hi by (rule unatI [rotated])
  then show ?thesis using T lo by simp
qed

lemma mul64_words: "mul64 (LBITS a) (HBITS a) (LBITS b) (HBITS b) = (lo, hi) \<Longrightarrow> unat lo + 2 ^ 64 * unat hi = unat a * unat b"
  using mul64 [OF halves_less(1) halves_less(2) halves_less(1) halves_less(2), of a a b b lo hi] unfolding halves by blast

lemma word_prod: "unat (a :: u64) * unat (b :: u64) \<le> (2 ^ 64 - 1) * (2 ^ 64 - 1)"
  using unat_u64 [of a] unat_u64 [of b] by (intro mult_le_mono) simp_all

lemma word_prod_less: "unat a * unat b + unat c + unat d < 2 ^ 64 * 2 ^ 64" for a b c d :: u64
  using word_prod [of a b] unat_u64 [of c] unat_u64 [of d] by simp

lemma sqr64_sum:
  "m = mm + 2 ^ 31 * md \<Longrightarrow> lo + 2 ^ 64 * c = a + mm * 2 ^ 33 \<Longrightarrow> a + 2 ^ 33 * m + 2 ^ 64 * d = lo + 2 ^ 64 * (d + md + c)" for m :: nat
  by simp

lemma sqr64: "sqr64 w = (lo, hi) \<Longrightarrow> unat lo + 2 ^ 64 * unat hi = unat w * unat w"
proof -
  assume s: "sqr64 w = (lo, hi)"
  define l h where "l = LBITS w" and "h = HBITS w"
  have lh: "unat l < 2 ^ 32" "unat h < 2 ^ 32" "unat l + 2 ^ 32 * unat h = unat w"
    using halves_less [of w] halves [of w] by (simp_all add: l_def h_def)
  have p: "unat (x * y) = unat x * unat y" if "unat x < 2 ^ 32" "unat y < 2 ^ 32" for x y :: u64
    using half_prod [OF that] by (intro unat_times) simp
  define m where "m = l * h"
  have m: "unat m = unat l * unat h" using p lh by (simp add: m_def)
  have b31: "BN_BITS4 - 1 = 31" by (simp add: BN_BITS4_def)
  have "drop_bit 31 (m AND BN_MASK2h1) = drop_bit 31 m"
  proof (rule bit_word_eqI)
    fix n assume "n < LENGTH(64)"
    have k: "BN_MASK2h1 = NOT (mask 31)" by (simp add: BN_MASK2h1_def mask_eq_exp_minus_1)
    have "bit BN_MASK2h1 (31 + n) \<longleftrightarrow> 31 + n < 64" unfolding k by (auto simp: bit_simps simp del: mask_numeral)
    then show "bit (drop_bit 31 (m AND BN_MASK2h1)) n = bit (drop_bit 31 m) n"
      by (auto simp: bit_simps dest: bit_imp_le_length)
  qed
  then have up: "drop_bit (BN_BITS4 - 1) (m AND BN_MASK2h1) = word_of_nat (unat m div 2 ^ 31)"
    unfolding b31 by (simp only: drop_of_nat)
  define m2 where "m2 = push_bit (BN_BITS4 + 1) (m AND BN_MASK2l)"
  have "unat m mod 2 ^ 32 * 2 ^ 33 mod 2 ^ 64 = unat m mod 2 ^ 31 * 2 ^ 33"
  proof -
    have "unat m mod 2 ^ 32 * 2 ^ 33 mod 2 ^ 64 = unat m mod 2 ^ 32 * 2 ^ 33 mod (2 ^ 31 * 2 ^ 33)" by simp
    also have "\<dots> = unat m mod 2 ^ 32 mod 2 ^ 31 * 2 ^ 33" by (rule mult_mod_left [symmetric])
    also have "unat m mod 2 ^ 32 mod 2 ^ 31 = unat m mod 2 ^ 31" by (rule mod_mod_cancel) (rule le_imp_power_dvd, simp)
    finally show ?thesis .
  qed
  then have m2: "unat m2 = unat m mod 2 ^ 31 * 2 ^ 33"
    by (simp only: m2_def BN_BITS4_def unsigned_push_bit_eq MASK2l unat_mask) (simp add: take_bit_eq_mod push_bit_eq_mult)
  define l2 where "l2 = l * l + m2"
  have l2: "unat l2 + 2 ^ 64 * of_bool (l2 < m2) = unat l * unat l + unat m mod 2 ^ 31 * 2 ^ 33"
    using word_add_carry [of "l * l" m2] p lh m2 by (simp add: l2_def)
  let ?H = "unat h * unat h + unat m div 2 ^ 31 + of_bool (l2 < m2)"
  have lo: "lo = l2" and hi: "hi = word_of_nat ?H"
    using s [unfolded sqr64_def Let_def and_MASK2, folded l_def h_def, folded m_def, folded m2_def, unfolded up, folded l2_def]
    by (auto simp: if_add_1)
  have e: "unat m = unat m mod 2 ^ 31 + 2 ^ 31 * (unat m div 2 ^ 31)" by simp
  have w2: "unat w * unat w = unat l * unat l + 2 ^ 33 * unat m + 2 ^ 64 * (unat h * unat h)"
    unfolding lh(3) [symmetric] m by (simp add: algebra_simps)
  have T: "unat w * unat w = unat lo + 2 ^ 64 * ?H" unfolding w2 lo by (rule sqr64_sum [OF e l2])
  have "?H < 2 ^ 64" using word_prod_less [of w w 0 0] unfolding T by (simp only: add_0_right unat_0 high_less)
  then show ?thesis using T unatI [OF hi] by simp
qed

lemma mul_add:
  assumes "mul_add r a (LBITS w) (HBITS w) c = (r', c')"
  shows "unat r' + 2 ^ 64 * unat c' = unat r + unat a * unat w + unat c"
proof -
  obtain l h where lh: "mul64 (LBITS a) (HBITS a) (LBITS w) (HBITS w) = (l, h)" by fastforce
  note p = mul64_words [OF lh]
  have c1: "unat (l + c) + 2 ^ 64 * of_bool (l + c < c) = unat l + unat c" by (rule word_add_carry)
  have c2: "unat (l + c + r) + 2 ^ 64 * of_bool (l + c + r < r) = unat (l + c) + unat r" by (rule word_add_carry)
  let ?H = "unat h + of_bool (l + c < c) + of_bool (l + c + r < r)"
  have r: "r' = l + c + r" and h: "c' = word_of_nat ?H"
    using assms by (auto simp: mul_add_def lh and_MASK2 Let_def)
  have T: "unat r' + 2 ^ 64 * ?H = unat r + unat a * unat w + unat c"
    using p c1 c2 unfolding r by (simp add: algebra_simps)
  then have "unat r' + 2 ^ 64 * ?H < 2 ^ 64 * 2 ^ 64" using word_prod_less [of a w r c] by (simp only: ac_simps)
  then have "?H < 2 ^ 64" by (rule high_less)
  then show ?thesis using T unatI [OF h] by simp
qed

lemma mul_macro:
  assumes "mul_macro a (LBITS w) (HBITS w) c = (r', c')"
  shows "unat r' + 2 ^ 64 * unat c' = unat a * unat w + unat c"
proof -
  obtain l h where lh: "mul64 (LBITS a) (HBITS a) (LBITS w) (HBITS w) = (l, h)" by fastforce
  note p = mul64_words [OF lh]
  have c1: "unat (l + c) + 2 ^ 64 * of_bool (l + c < c) = unat l + unat c" by (rule word_add_carry)
  let ?H = "unat h + of_bool (l + c < c)"
  have r: "r' = l + c" and h: "c' = word_of_nat ?H"
    using assms by (auto simp: mul_macro_def lh and_MASK2 Let_def)
  have T: "unat r' + 2 ^ 64 * ?H = unat a * unat w + unat c"
    using p c1 unfolding r by (simp add: algebra_simps)
  then have "unat r' + 2 ^ 64 * ?H < 2 ^ 64 * 2 ^ 64" using word_prod_less [of a w c 0] by (simp only: unat_0 add_0_right)
  then have "?H < 2 ^ 64" by (rule high_less)
  then show ?thesis using T unatI [OF h] by simp
qed

lemma add_word: "unat c \<le> 1 \<Longrightarrow> add_word a b c = (l, c') \<Longrightarrow> unat c' \<le> 1 \<and> unat l + 2 ^ 64 * unat c' = unat a + unat b + unat c"
proof -
  assume c: "unat c \<le> 1" and s: "add_word a b c = (l, c')"
  have 1: "unat (a + c) + 2 ^ 64 * of_bool (a + c < c) = unat a + unat c" by (rule word_add_carry)
  have 2: "unat (b + (a + c)) + 2 ^ 64 * of_bool (b + (a + c) < a + c) = unat b + unat (a + c)" by (rule word_add_carry)
  have l: "l = b + (a + c)" and c': "c' = word_of_nat (of_bool (a + c < c) + of_bool (b + (a + c) < a + c))"
    using s unfolding add_word_def and_MASK2 Let_def add.commute [of "a + c" b] by auto
  have small: "of_bool (a + c < c) + of_bool (b + (a + c) < a + c) \<le> (1 :: nat)"
    using 1 2 c unat_u64 [of a] unat_u64 [of b] unat_u64 [of "b + (a + c)"] by (auto simp: of_bool_def split: if_splits)
  then have "unat c' = of_bool (a + c < c) + of_bool (b + (a + c) < a + c)" by (intro unatI [OF c']) simp
  then show ?thesis using small 1 2 unfolding l by simp
qed

lemma sub_borrow: "int (unat (a - b)) - 2 ^ 64 * of_bool (a < b) = int (unat a) - int (unat (b :: u64))"
  using unat_u64 [of a] unat_u64 [of b] by (auto simp: unat_sub_if' word_less_nat_alt)

lemma sub_borrow_nat: "unat (a - b) + unat (b :: u64) = unat a + 2 ^ 64 * of_bool (a < b)"
  using unat_u64 [of a] unat_u64 [of b] by (auto simp: unat_sub_if' word_less_nat_alt)

lemma sub_word:
  assumes "unat c \<le> 1" "sub_word a b c = (r, c')"
  shows "unat c' \<le> 1 \<and> int (unat r) - 2 ^ 64 * int (unat c') = int (unat a) - int (unat b) - int (unat c)"
proof -
  have 1: "int (unat (a - b)) - 2 ^ 64 * of_bool (a < b) = int (unat a) - int (unat b)" by (rule sub_borrow)
  have 2: "int (unat (a - b - c)) - 2 ^ 64 * of_bool (a - b < c) = int (unat (a - b)) - int (unat c)" by (rule sub_borrow)
  have r: "r = a - b - c" and c': "c' = (if a \<noteq> b then of_bool (a < b) else c)" using assms(2) by (auto simp: sub_word_def and_MASK2)
  show ?thesis
  proof (cases "a = b")
    case True
    have "unat c = 0 \<or> unat c = 1" using assms(1) by linarith
    then have "c = 0 \<or> c = 1" by (simp add: word_unat_eq_iff)
    then have "int (unat (- c)) = 2 ^ 64 * int (unat c) - int (unat c)" by (auto simp: unsigned_minus_1_eq_mask mask_eq_exp_minus_1)
    then show ?thesis using assms(1) True r c' by simp
  next
    case False
    have "unat (a - b) \<noteq> 0" using False by (metis right_minus_eq unat_eq_zero)
    then have "\<not> a - b < c" using assms(1) by (simp add: word_less_nat_alt)
    then show ?thesis using 1 2 False r c' by (cases "a < b") simp_all
  qed
qed

subsection \<open>Loops\<close>

text \<open>The unrolled loop does one word after the other.\<close>

lemma words_loop_Suc:
  "n < length a \<Longrightarrow> n < length b \<Longrightarrow> words_loop f a b (Suc n) c =
    (case f (a ! 0) (b ! 0) c of (r0, c) \<Rightarrow> case words_loop f (drop 1 a) (drop 1 b) n c of (r, c) \<Rightarrow> (r0 # r, c))"
proof (induction n arbitrary: a b c rule: less_induct)
  case (less n)
  consider "n = 0" | "n = 1" | "n = 2" | m where "n = Suc (Suc (Suc m))" by (metis One_nat_def Suc_1 not0_implies_Suc)
  then show ?case
  proof cases
    case 4
    then show ?thesis using less.prems less.IH [of "Suc (Suc m)" "drop 1 a" "drop 1 b"] less.IH [of "Suc m" "drop 2 a" "drop 2 b"]
        less.IH [of m "drop 3 a" "drop 3 b"]
      by (simp add: Let_def split_beta numeral_2_eq_2 numeral_3_eq_3 eval_nat_numeral)
  qed (simp_all add: numeral_2_eq_2)
qed

lemma words_loop_value:
  assumes "\<And>x y c r c'. P c \<Longrightarrow> f x y c = (r, c') \<Longrightarrow>
      P c' \<and> int (unat r) + s * 2 ^ 64 * int (unat c') = p * int (unat x) + q * int (unat y) + s * int (unat c)"
    and "P c" "n \<le> length a" "n \<le> length b" "words_loop f a b n c = (r, c')"
  shows "length r = n \<and> P c' \<and>
    int (words_val r) + s * 2 ^ (64 * n) * int (unat c') = p * int (words_val (take n a)) + q * int (words_val (take n b)) + s * int (unat c)"
  using assms(2-)
proof (induction n arbitrary: a b c r)
  case (Suc n)
  obtain x a' y b' where ab: "a = x # a'" "b = y # b'" using Suc.prems by (cases a; cases b) auto
  obtain r0 c1 where f: "f x y c = (r0, c1)" by fastforce
  obtain r' where l: "words_loop f a' b' n c1 = (r', c')" "r = r0 # r'"
    using Suc.prems(4) words_loop_Suc [of n a b f c] Suc.prems(2,3) f unfolding ab by (auto split: prod.splits)
  note s1 = assms(1) [OF Suc.prems(1) f]
  note s2 = Suc.IH [OF conjunct1 [OF s1] _ _ l(1)]
  have "int (words_val r') + s * 2 ^ (64 * n) * int (unat c') =
      p * int (words_val (take n a')) + q * int (words_val (take n b')) + s * int (unat c1)" "length r' = n" "P c'"
    using s2 Suc.prems(2,3) ab by simp_all
  then show ?case using s1 unfolding l(2) ab by (simp add: algebra_simps power_add)
qed simp

text \<open>The functions on arrays. Each leaves the words above the ones it writes.\<close>

lemma put_words: "length out = n \<Longrightarrow> n \<le> length r \<Longrightarrow> put_words r (out, c) = (r', c') \<Longrightarrow>
    c' = c \<and> length r' = length r \<and> take n r' = out \<and> drop n r' = drop n r"
  by (auto simp: put_words_def)

lemma bn_mul_add_words:
  assumes "n \<le> length rp" "n \<le> length ap" "bn_mul_add_words rp ap n w = (r, c)"
  shows "length r = length rp" "drop n r = drop n rp"
    "words_val (take n r) + 2 ^ (64 * n) * unat c = words_val (take n rp) + words_val (take n ap) * unat w"
proof -
  obtain out c0 where l: "words_loop (\<lambda>r a c. mul_add r a (LBITS w) (HBITS w) c) rp ap n 0 = (out, c0)" by fastforce
  have "length out = n \<and> True \<and> int (words_val out) + 1 * 2 ^ (64 * n) * int (unat c0) =
      1 * int (words_val (take n rp)) + int (unat w) * int (words_val (take n ap)) + 1 * int (unat (0 :: u64))"
  proof (rule words_loop_value [OF _ _ assms(1,2) l])
    show "True \<and> int (unat r) + 1 * 2 ^ 64 * int (unat c') = 1 * int (unat x) + int (unat w) * int (unat y) + 1 * int (unat c)"
      if "mul_add x y (LBITS w) (HBITS w) c = (r, c')" for x y c r c'
      using arg_cong [OF mul_add [OF that], of int] by (simp add: algebra_simps)
  qed simp
  then have v: "length out = n" "int (words_val out + 2 ^ (64 * n) * unat c0) = int (words_val (take n rp) + words_val (take n ap) * unat w)"
    by (simp_all add: algebra_simps)
  show "length r = length rp" "drop n r = drop n rp"
    "words_val (take n r) + 2 ^ (64 * n) * unat c = words_val (take n rp) + words_val (take n ap) * unat w"
    using v(1) v(2) [unfolded of_nat_eq_iff] put_words [OF v(1) assms(1), of c0 r c] assms(3) l
    by (cases "n = 0"; simp add: bn_mul_add_words_def)+
qed

lemma bn_mul_words:
  assumes "n \<le> length rp" "n \<le> length ap" "bn_mul_words rp ap n w = (r, c)"
  shows "length r = length rp" "drop n r = drop n rp"
    "words_val (take n r) + 2 ^ (64 * n) * unat c = words_val (take n ap) * unat w"
proof -
  obtain out c0 where l: "words_loop (\<lambda>a _ c. mul_macro a (LBITS w) (HBITS w) c) ap ap n 0 = (out, c0)" by fastforce
  have "length out = n \<and> True \<and> int (words_val out) + 1 * 2 ^ (64 * n) * int (unat c0) =
      int (unat w) * int (words_val (take n ap)) + 0 * int (words_val (take n ap)) + 1 * int (unat (0 :: u64))"
  proof (rule words_loop_value [OF _ _ assms(2,2) l])
    show "True \<and> int (unat r) + 1 * 2 ^ 64 * int (unat c') = int (unat w) * int (unat x) + 0 * int (unat y) + 1 * int (unat c)"
      if "mul_macro x (LBITS w) (HBITS w) c = (r, c')" for x y c r c'
      using arg_cong [OF mul_macro [OF that], of int] by (simp add: algebra_simps)
  qed simp
  then have v: "length out = n" "int (words_val out + 2 ^ (64 * n) * unat c0) = int (words_val (take n ap) * unat w)"
    by (simp_all add: algebra_simps)
  show "length r = length rp" "drop n r = drop n rp"
    "words_val (take n r) + 2 ^ (64 * n) * unat c = words_val (take n ap) * unat w"
    using v(1) v(2) [unfolded of_nat_eq_iff] put_words [OF v(1) assms(1), of c0 r c] assms(3) l
    by (cases "n = 0"; simp add: bn_mul_words_def)+
qed

lemma bn_add_words:
  assumes "n \<le> length r0" "n \<le> length a" "n \<le> length b" "bn_add_words r0 a b n = (r, c)"
  shows "length r = length r0" "drop n r = drop n r0" "unat c \<le> 1"
    "words_val (take n r) + 2 ^ (64 * n) * unat c = words_val (take n a) + words_val (take n b)"
proof -
  obtain out c0 where l: "words_loop add_word a b n 0 = (out, c0)" by fastforce
  have "length out = n \<and> unat c0 \<le> 1 \<and> int (words_val out) + 1 * 2 ^ (64 * n) * int (unat c0) =
      1 * int (words_val (take n a)) + 1 * int (words_val (take n b)) + 1 * int (unat (0 :: u64))"
  proof (rule words_loop_value [OF _ _ assms(2,3) l])
    show "unat c' \<le> 1 \<and> int (unat r) + 1 * 2 ^ 64 * int (unat c') = 1 * int (unat x) + 1 * int (unat y) + 1 * int (unat c)"
      if "unat c \<le> 1" "add_word x y c = (r, c')" for x y c r c'
      by (rule conjI [OF conjunct1 [OF add_word [OF that]]]) (use arg_cong [OF conjunct2 [OF add_word [OF that]], of int] in simp)
  qed simp
  then have v: "length out = n" "unat c0 \<le> 1" "int (words_val out + 2 ^ (64 * n) * unat c0) = int (words_val (take n a) + words_val (take n b))"
    by simp_all
  show "length r = length r0" "drop n r = drop n r0" "unat c \<le> 1"
    "words_val (take n r) + 2 ^ (64 * n) * unat c = words_val (take n a) + words_val (take n b)"
    using v(1,2) v(3) [unfolded of_nat_eq_iff] put_words [OF v(1) assms(1), of c0 r c] assms(4) l
    by (cases "n = 0"; simp add: bn_add_words_def)+
qed

lemma bn_sub_words:
  assumes "n \<le> length r0" "n \<le> length a" "n \<le> length b" "bn_sub_words r0 a b n = (r, c)"
  shows "length r = length r0" "drop n r = drop n r0" "unat c \<le> 1"
    "words_val (take n r) + words_val (take n b) = words_val (take n a) + 2 ^ (64 * n) * unat c"
proof -
  obtain out c0 where l: "words_loop sub_word a b n 0 = (out, c0)" by fastforce
  have "length out = n \<and> unat c0 \<le> 1 \<and> int (words_val out) + -1 * 2 ^ (64 * n) * int (unat c0) =
      1 * int (words_val (take n a)) + -1 * int (words_val (take n b)) + -1 * int (unat (0 :: u64))"
  proof (rule words_loop_value [OF _ _ assms(2,3) l])
    show "unat c' \<le> 1 \<and> int (unat r) + -1 * 2 ^ 64 * int (unat c') = 1 * int (unat x) + -1 * int (unat y) + -1 * int (unat c)"
      if "unat c \<le> 1" "sub_word x y c = (r, c')" for x y c r c'
      using sub_word [OF that] by simp
  qed simp
  then have v: "length out = n" "unat c0 \<le> 1" "int (words_val out + words_val (take n b)) = int (words_val (take n a) + 2 ^ (64 * n) * unat c0)"
    by simp_all
  show "length r = length r0" "drop n r = drop n r0" "unat c \<le> 1"
    "words_val (take n r) + words_val (take n b) = words_val (take n a) + 2 ^ (64 * n) * unat c"
    using v(1,2) v(3) [unfolded of_nat_eq_iff] put_words [OF v(1) assms(1), of c0 r c] assms(4) l
    by (cases "n = 0"; simp add: bn_sub_words_def)+
qed

lemma sqr_words_loop_Suc:
  "n < length a \<Longrightarrow> sqr_words_loop a (Suc n) = (case sqr64 (a ! 0) of (r0, r1) \<Rightarrow> r0 # r1 # sqr_words_loop (drop 1 a) n)"
proof (induction n arbitrary: a rule: less_induct)
  case (less n)
  consider "n = 0" | "n = 1" | "n = 2" | m where "n = Suc (Suc (Suc m))" by (metis One_nat_def Suc_1 not0_implies_Suc)
  then show ?case
  proof cases
    case 4
    then show ?thesis using less.prems less.IH [of "Suc (Suc m)" "drop 1 a"] less.IH [of "Suc m" "drop 2 a"] less.IH [of m "drop 3 a"]
      by (simp add: Let_def split_beta numeral_2_eq_2 numeral_3_eq_3 eval_nat_numeral)
  qed (simp_all add: numeral_2_eq_2)
qed

text \<open>The squares of the words at twice their positions.\<close>

fun squares_val :: "u64 list \<Rightarrow> nat" where
  "squares_val [] = 0"
| "squares_val (w # ws) = unat w * unat w + 2 ^ 128 * squares_val ws"

lemma sqr_words_loop: "n \<le> length a \<Longrightarrow> length (sqr_words_loop a n) = 2 * n \<and> words_val (sqr_words_loop a n) = squares_val (take n a)"
proof (induction n arbitrary: a)
  case (Suc n)
  obtain x a' where a: "a = x # a'" using Suc.prems by (cases a) auto
  obtain r0 r1 where s: "sqr64 x = (r0, r1)" by fastforce
  have "words_val (r0 # r1 # ws) = unat x * unat x + 2 ^ 128 * words_val ws" for ws
    using sqr64 [OF s] by (simp add: algebra_simps)
  then show ?case using Suc.IH [of a'] Suc.prems sqr_words_loop_Suc [of n a] s by (simp add: a del: words_val.simps)
qed simp

lemma bn_sqr_words:
  assumes "2 * n \<le> length r" "n \<le> length a"
  shows "length (bn_sqr_words r a n) = length r" "words_val (take (2 * n) (bn_sqr_words r a n)) = squares_val (take n a)"
    "drop (2 * n) (bn_sqr_words r a n) = drop (2 * n) r"
  using sqr_words_loop [OF assms(2)] assms by (cases "n = 0"; simp add: bn_sqr_words_def put_words_def)+

end
