(* ===== verification/BnBits.thy ===== *)
theory BnBits
  imports BnProps
begin

text \<open>
  Single bits of big numbers, copies and the exchange in constant time.
\<close>

subsection \<open>Bits of an array\<close>

lemma bit_words_val: "bit (words_val ws) k \<longleftrightarrow> k div 64 < length ws \<and> bit (ws ! (k div 64)) (k mod 64)"
proof (induction ws arbitrary: k)
  case (Cons w ws)
  have "bit (unat w + 2 ^ 64 * words_val ws) k = (if k < 64 then bit w k else bit (words_val ws) (k - 64))"
  proof -
    have "unat w AND push_bit 64 (words_val ws) = 0"
      by (rule bit_eqI) (auto simp: bit_simps dest: bit_imp_le_length)
    then have "unat w + push_bit 64 (words_val ws) = unat w OR push_bit 64 (words_val ws)" by (rule disjunctive_add_eq_or)
    moreover have "2 ^ 64 * words_val ws = push_bit 64 (words_val ws)" by (simp only: push_bit_eq_mult mult.commute)
    moreover have "bit (unat w OR push_bit 64 (words_val ws)) k = (if k < 64 then bit w k else bit (words_val ws) (k - 64))"
      by (auto simp: bit_simps dest: bit_imp_le_length)
    ultimately show ?thesis by metis
  qed
  also have "\<dots> \<longleftrightarrow> k div 64 < length (w # ws) \<and> bit ((w # ws) ! (k div 64)) (k mod 64)"
  proof (cases "k < 64")
    case False
    then have "k div 64 = Suc ((k - 64) div 64)" "k mod 64 = (k - 64) mod 64" by (simp_all add: le_div_geq le_mod_geq)
    then show ?thesis using False Cons.IH [of "k - 64"] by simp
  qed simp
  finally show ?case by simp
qed simp

lemma bit_bn_nat:
  "bn_top a \<le> length (bn_d a) \<Longrightarrow> bit (bn_nat a) k \<longleftrightarrow> k div 64 < bn_top a \<and> bit (bn_d a ! (k div 64)) (k mod 64)"
  by (auto simp: bn_nat_def bit_words_val)

lemma bn_nat_top: "bn_top a \<le> length (bn_d a) \<Longrightarrow> bn_top a \<le> n div 64 \<Longrightarrow> bn_nat a < 2 ^ n"
proof -
  assume t: "bn_top a \<le> length (bn_d a)" "bn_top a \<le> n div 64"
  then have "bn_nat a < 2 ^ (64 * bn_top a)" using words_val_less [of "take (bn_top a) (bn_d a)"] by (simp add: bn_nat_def)
  also have "\<dots> \<le> 2 ^ n" using t(2) by (intro power_increasing) simp_all
  finally show ?thesis .
qed

text \<open>The number with word \<open>n div 64\<close> replaced: its other bits are unchanged.\<close>

lemma bit_update:
  assumes "bn_top a \<le> length (bn_d a)" "n div 64 < bn_top a"
  shows "bit (bn_nat (a\<lparr>bn_d := (bn_d a)[n div 64 := x]\<rparr>)) k \<longleftrightarrow>
    (if k div 64 = n div 64 then bit x (k mod 64) else bit (bn_nat a) k)"
  using assms by (auto simp: bit_bn_nat nth_list_update)

lemma div_mod_64: "k div 64 = n div 64 \<Longrightarrow> k mod 64 = n mod 64 \<longleftrightarrow> k = (n :: nat)"
  by (metis div_mult_mod_eq)

lemma zero_words: "fold (\<lambda>k d. d[k := 0]) [m..<m + n] d = take m d @ replicate n 0 @ drop (m + n) d" if "m + n \<le> length d" for d :: "u64 list"
  using that
proof (induction n)
  case (Suc n)
  then show ?case by (simp add: list_update_append replicate_append_same [symmetric] Cons_nth_drop_Suc [symmetric] del: replicate_append_same)
qed simp

lemma length_fold_update [simp]: "length (fold (\<lambda>k d. d[k := x]) ks d) = length d"
  by (induction ks arbitrary: d) simp_all

lemma BN_set_bit_grow:
  assumes "bn_fits a" "bn_top a \<le> i" "bn_wexpand alloc a (i + 1) = Some b"
  shows "bn_fits (b\<lparr>bn_d := fold (\<lambda>k d. d[k := 0]) [bn_top b..<i + 1] (bn_d b), bn_top := i + 1\<rparr>)"
    "bn_nat (b\<lparr>bn_d := fold (\<lambda>k d. d[k := 0]) [bn_top b..<i + 1] (bn_d b), bn_top := i + 1\<rparr>) = bn_nat a"
proof -
  note w = bn_wexpand [OF assms(1,3)]
  obtain j where j: "i + 1 = bn_top a + j" using assms(2) by (metis le_add_diff_inverse le_SucI Suc_eq_plus1)
  have j': "Suc i = bn_top a + j" using j by simp
  have z: "fold (\<lambda>k d. d[k := 0]) [bn_top a..<i + 1] (bn_d b) = take (bn_top a) (bn_d b) @ replicate j 0 @ drop (bn_top a + j) (bn_d b)"
    unfolding j by (rule zero_words) (use w(2) j in simp)
  have v: "words_val (replicate j 0) = 0" by (induction j) simp_all
  have l: "bn_top a + j \<le> length (bn_d b)" using w(2) j by simp
  show "bn_fits (b\<lparr>bn_d := fold (\<lambda>k d. d[k := 0]) [bn_top b..<i + 1] (bn_d b), bn_top := i + 1\<rparr>)"
    using w(1) l j unfolding w(3) z bn_fits_def by simp
  show "bn_nat (b\<lparr>bn_d := fold (\<lambda>k d. d[k := 0]) [bn_top b..<i + 1] (bn_d b), bn_top := i + 1\<rparr>) = bn_nat a"
    using l w(6) j' bn_fits_size [OF assms(1)] unfolding w(3) z by (simp add: bn_nat_def words_val_append v min_absorb2)
qed

subsection \<open>The operations\<close>

text \<open>The top word in use is not zero exactly when the number needs it.\<close>

lemma bn_top_word:
  assumes "bn_fits a" "0 < bn_top a"
  shows "bn_d a ! (bn_top a - 1) \<noteq> 0 \<longleftrightarrow> 2 ^ (64 * (bn_top a - 1)) \<le> bn_nat a"
proof -
  let ?P = "2 ^ (64 * (bn_top a - 1)) :: nat" and ?L = "words_val (take (bn_top a - 1) (bn_d a))"
  have k: "bn_top a - 1 < length (bn_d a)" using bn_fits_size [OF assms(1)] assms(2) by linarith
  have v: "bn_nat a = ?L + ?P * unat (bn_d a ! (bn_top a - 1))"
    using words_val_take_Suc [OF k] assms(2) by (simp add: bn_nat_def)
  have l: "?L < ?P" using words_val_less [of "take (bn_top a - 1) (bn_d a)"] k by (simp add: min_absorb2)
  show ?thesis
  proof (cases "bn_d a ! (bn_top a - 1) = 0")
    case False
    then have "0 < unat (bn_d a ! (bn_top a - 1))" by (simp add: unat_gt_0)
    then have "?P \<le> ?P * unat (bn_d a ! (bn_top a - 1))" by simp
    then show ?thesis using v False by linarith
  qed (use v l in simp)
qed

lemma bn_wf_top_bit:
  assumes "bn_fits a" "n div 64 + 1 = bn_top a" "bit (bn_nat a) n"
  shows "bn_wf a"
proof -
  have "bn_top a - 1 = n div 64" using assms(2) by simp
  then show ?thesis using assms by (auto simp: bn_wf_def bit_bn_nat bn_fits_def)
qed

lemma bit_or_word: "bit (x OR push_bit j 1) k \<longleftrightarrow> bit x k \<or> k = j" if "j < 64" for x :: u64
  using that by (auto simp: bit_simps dest: bit_imp_le_length)

lemma bit_andnot_word: "bit (x AND NOT (push_bit j 1)) k \<longleftrightarrow> bit x k \<and> k \<noteq> j" for x :: u64
  by (auto simp: bit_simps dest: bit_imp_le_length)

lemma bn_neg_correct_top: "bn_fits a \<Longrightarrow> bn_neg (bn_correct_top a) \<longleftrightarrow> bn_neg a \<and> bn_nat a \<noteq> 0"
  using bn_correct_top [of a] bn_nat_words(1) [of "bn_correct_top a"] by (auto simp: bn_correct_top_def bn_wf_def Let_def)

lemma drop_bit_and_1: "drop_bit j w AND 1 \<noteq> 0 \<longleftrightarrow> bit w j" for w :: u64
  by (simp add: and_one_eq mod2_eq_if bit_iff_odd_drop_bit)

lemma BN_is_bit_set: "bn_wf a \<Longrightarrow> BN_is_bit_set a (int n) \<longleftrightarrow> bit (bn_nat a) n"
  by (auto simp: BN_is_bit_set_def bit_bn_nat bn_wf_def bn_fits_def BN_BITS2_def drop_bit_and_1 Let_def)

lemma BN_set_bit:
  assumes "bn_wf a" "BN_set_bit alloc a (int n) = Some b"
  shows "bn_wf b \<and> bn_nat b = set_bit n (bn_nat a) \<and> bn_neg b = bn_neg a"
proof -
  let ?i = "n div 64" and ?j = "n mod 64"
  have f: "bn_fits a" using assms(1) by (simp add: bn_wf_def)
  obtain c where c: "b = c\<lparr>bn_d := (bn_d c)[?i := bn_d c ! ?i OR push_bit ?j 1]\<rparr>"
    and s: "bn_fits c" "bn_nat c = bn_nat a" "bn_neg c = bn_neg a" "bn_top c = max (bn_top a) (?i + 1)"
  proof (cases "bn_top a \<le> ?i")
    case True
    then obtain e where e: "bn_wexpand alloc a (?i + 1) = Some e"
      "b = e\<lparr>bn_d := fold (\<lambda>k d. d[k := 0]) [bn_top e..<?i + 1] (bn_d e), bn_top := ?i + 1,
         bn_d := (fold (\<lambda>k d. d[k := 0]) [bn_top e..<?i + 1] (bn_d e))[?i := (fold (\<lambda>k d. d[k := 0]) [bn_top e..<?i + 1] (bn_d e)) ! ?i OR push_bit ?j 1]\<rparr>"
      using assms(2) by (auto simp: BN_set_bit_def BN_BITS2_def Let_def nat_div_distrib nat_mod_distrib)
    show ?thesis
      by (rule that [OF _ BN_set_bit_grow [OF f True e(1)]])
        (use e bn_wexpand [OF f e(1)] True in \<open>simp_all add: max_def\<close>)
  next
    case False
    then show ?thesis using that [of a] assms(2) f by (simp add: BN_set_bit_def BN_BITS2_def Let_def max_def)
  qed
  have t: "bn_top c \<le> length (bn_d c)" "?i < bn_top c" using s(1,4) by (simp_all add: bn_fits_def)
  have fb: "bn_fits b" "bn_top b = bn_top c" using s(1) unfolding c bn_fits_def by simp_all
  have bit: "bit (bn_nat b) k \<longleftrightarrow> bit (bn_nat c) k \<or> k = n" for k
    unfolding c bit_update [OF t] using t div_mod_64 [of k n] by (auto simp: bit_or_word bit_bn_nat simp del: push_bit_of_1)
  have "bn_nat b = set_bit n (bn_nat c)" by (rule bit_eqI) (auto simp: bit bit_simps)
  moreover have "bn_wf b"
  proof (cases "bn_top a \<le> ?i")
    case True
    then show ?thesis using bn_wf_top_bit [OF fb(1), of n] bit [of n] s(4) fb(2) by (simp add: max_def)
  next
    case False
    then have "bn_top c = bn_top a" "0 < bn_top a" using s(4) by simp_all
    then have "bn_nat a \<noteq> 0" "bn_top b = bn_top a" using bn_nat_words(1) [OF assms(1)] fb(2) by simp_all
    have "bn_nat a \<le> bn_nat b" using \<open>bn_nat b = set_bit n (bn_nat c)\<close> s(2) by (simp add: set_bit_eq)
    then have "bn_d b ! (bn_top b - 1) \<noteq> 0"
      using bn_top_word [OF fb(1)] bn_top_word [OF f] assms(1) \<open>0 < bn_top a\<close> \<open>bn_top b = bn_top a\<close>
      unfolding bn_wf_def by fastforce
    then show ?thesis using fb assms(1) s(3,4) \<open>0 < bn_top a\<close> \<open>bn_top b = bn_top a\<close> by (simp add: bn_wf_def)
  qed
  ultimately show ?thesis using s(2,3) c by simp
qed

text \<open>The number with the words above \<open>w\<close> left out.\<close>

lemma bn_nat_mod: "bn_top a \<le> length (bn_d a) \<Longrightarrow> w \<le> bn_top a \<Longrightarrow> bn_nat (a\<lparr>bn_top := w\<rparr>) = take_bit (64 * w) (bn_nat a)"
  by (rule bit_eqI) (auto simp: bit_bn_nat bit_simps div_less_iff_less_mult mult.commute less_mult_imp_div_less)

lemma BN_mask_bits:
  assumes "bn_wf a"
  shows "case BN_mask_bits a (int n) of None \<Rightarrow> bn_nat a < 2 ^ n
    | Some b \<Rightarrow> bn_wf b \<and> bn_nat b = bn_nat a mod 2 ^ n \<and> (bn_neg b \<longleftrightarrow> bn_neg a \<and> bn_nat b \<noteq> 0)"
proof (cases "bn_top a \<le> n div 64")
  case True
  then show ?thesis using bn_nat_top [of a n] assms by (simp add: BN_mask_bits_def BN_BITS2_def bn_wf_def bn_fits_def)
next
  case False
  let ?w = "n div 64" and ?b = "n mod 64"
  have t: "bn_top a \<le> length (bn_d a)" "?w < bn_top a" using assms False by (simp_all add: bn_wf_def bn_fits_def)
  obtain c where c: "BN_mask_bits a (int n) = Some (bn_correct_top c)" "bn_neg c = bn_neg a" "bn_fits c" "bn_nat c = take_bit n (bn_nat a)"
  proof (cases "?b = 0")
    case True
    then have n: "n = 64 * ?w" by (metis add.right_neutral mult_div_mod_eq)
    show ?thesis
    proof (rule that)
      show "BN_mask_bits a (int n) = Some (bn_correct_top (a\<lparr>bn_top := ?w\<rparr>))" using False True by (simp add: BN_mask_bits_def BN_BITS2_def Let_def)
      show "bn_nat (a\<lparr>bn_top := ?w\<rparr>) = take_bit n (bn_nat a)" using bn_nat_mod [of a ?w] t n by simp
    qed (use assms t in \<open>simp_all add: bn_wf_def bn_fits_def\<close>)
  next
    case b: False
    let ?c = "a\<lparr>bn_top := ?w + 1, bn_d := (bn_d a)[?w := bn_d a ! ?w AND NOT (push_bit ?b BN_MASK2)]\<rparr>"
    have w: "bit (x AND NOT (push_bit ?b BN_MASK2)) k \<longleftrightarrow> bit x k \<and> k < ?b" for x :: u64 and k
      by (auto simp: bit_simps BN_MASK2_def dest: bit_imp_le_length)
    have "bit (bn_nat ?c) k \<longleftrightarrow> k < n \<and> bit (bn_nat a) k" for k
    proof -
      consider "k div 64 < ?w" | "k div 64 = ?w" | "?w < k div 64" by linarith
      then show ?thesis
      proof cases
        case 1
        then have "k < n" by (metis div_le_mono not_le)
        then show ?thesis using 1 t by (simp add: bit_bn_nat)
      next
        case 2
        then have "k < n \<longleftrightarrow> k mod 64 < ?b" using div_mult_mod_eq [of k 64] div_mult_mod_eq [of n 64] by linarith
        then show ?thesis using 2 t w [of "bn_d a ! ?w" "k mod 64"] by (auto simp: bit_bn_nat simp del: bit_and_iff)
      next
        case 3
        then have "\<not> k < n" using div_le_mono [of k n 64] by linarith
        then show ?thesis using 3 t by (simp add: bit_bn_nat)
      qed
    qed
    then have "bn_nat ?c = take_bit n (bn_nat a)" by (intro bit_eqI) (simp add: bit_simps)
    then show ?thesis using that [of ?c] assms t b by (simp add: BN_mask_bits_def BN_BITS2_def Let_def bn_wf_def bn_fits_def)
  qed
  show ?thesis using bn_correct_top [OF c(3)] bn_neg_correct_top [OF c(3)] unfolding c(1) by (simp add: c(2,4) take_bit_eq_mod)
qed

lemma BN_clear_bit:
  assumes "bn_wf a"
  shows "case BN_clear_bit a (int n) of None \<Rightarrow> bn_nat a < 2 ^ (64 * (n div 64))
    | Some b \<Rightarrow> bn_wf b \<and> bn_nat b = unset_bit n (bn_nat a) \<and> (bn_neg b \<longleftrightarrow> bn_neg a \<and> bn_nat b \<noteq> 0)"
proof (cases "bn_top a \<le> n div 64")
  case True
  then show ?thesis using bn_nat_top [of a "64 * (n div 64)"] assms by (simp add: BN_clear_bit_def BN_BITS2_def bn_wf_def bn_fits_def)
next
  case False
  define c where "c = a\<lparr>bn_d := (bn_d a)[n div 64 := bn_d a ! (n div 64) AND NOT (push_bit (n mod 64) 1)]\<rparr>"
  have t: "bn_top a \<le> length (bn_d a)" "n div 64 < bn_top a" using assms False by (simp_all add: bn_wf_def bn_fits_def)
  have bit: "bit (bn_nat c) k \<longleftrightarrow> bit (bn_nat a) k \<and> k \<noteq> n" for k
    unfolding c_def bit_update [OF t] using t div_mod_64 [of k n] by (auto simp: bit_andnot_word bit_bn_nat simp del: push_bit_of_1)
  have "bn_nat c = unset_bit n (bn_nat a)" by (rule bit_eqI) (auto simp: bit bit_simps)
  moreover have f: "bn_fits c" using assms by (simp add: c_def bn_wf_def bn_fits_def)
  moreover have "bn_neg c = bn_neg a" by (simp add: c_def)
  moreover have "BN_clear_bit a (int n) = Some (bn_correct_top c)" using False by (simp add: BN_clear_bit_def BN_BITS2_def c_def Let_def)
  ultimately show ?thesis using bn_correct_top [OF f] bn_neg_correct_top [OF f] by simp
qed

text \<open>The operations on single bits are those on the number's magnitude. Clearing fails when the word of the bit is not in use
  and masking when the number has no more words than are kept, that is only where there was nothing to do.\<close>

theorem bn_single_bits:
  assumes "bn_wf a"
  shows "(BN_is_bit_set a (int n) \<longleftrightarrow> bit (bn_nat a) n) \<and>
    (case BN_set_bit alloc a (int n) of None \<Rightarrow> bn_top a \<le> n div 64
     | Some b \<Rightarrow> bn_wf b \<and> bn_nat b = set_bit n (bn_nat a) \<and> bn_neg b = bn_neg a) \<and>
    (case BN_clear_bit a (int n) of None \<Rightarrow> bn_nat a < 2 ^ (64 * (n div 64))
     | Some b \<Rightarrow> bn_wf b \<and> bn_nat b = unset_bit n (bn_nat a) \<and> (bn_neg b \<longleftrightarrow> bn_neg a \<and> bn_nat b \<noteq> 0)) \<and>
    (case BN_mask_bits a (int n) of None \<Rightarrow> bn_nat a < 2 ^ n
     | Some b \<Rightarrow> bn_wf b \<and> bn_nat b = bn_nat a mod 2 ^ n \<and> (bn_neg b \<longleftrightarrow> bn_neg a \<and> bn_nat b \<noteq> 0))"
proof -
  have "case BN_set_bit alloc a (int n) of None \<Rightarrow> bn_top a \<le> n div 64
     | Some b \<Rightarrow> bn_wf b \<and> bn_nat b = set_bit n (bn_nat a) \<and> bn_neg b = bn_neg a"
  proof (cases "BN_set_bit alloc a (int n)")
    case None
    then show ?thesis by (simp add: BN_set_bit_def BN_BITS2_def Let_def split: if_splits)
  next
    case (Some b)
    then show ?thesis using BN_set_bit [OF assms Some] by simp
  qed
  then show ?thesis using BN_is_bit_set [OF assms] BN_clear_bit [OF assms] BN_mask_bits [OF assms] by blast
qed

lemma one_wf: "bn_wf BN_value_one"
  by (simp add: bn_wf_def bn_fits_def BN_value_one_def INT_MAX_def BN_BITS2_def)

theorem bn_single_bits_witness:
  "(BN_is_bit_set BN_value_one (int 3) \<longleftrightarrow> bit (bn_nat BN_value_one) 3) \<and>
    (case BN_set_bit True BN_value_one (int 3) of None \<Rightarrow> bn_top BN_value_one \<le> 3 div 64
     | Some b \<Rightarrow> bn_wf b \<and> bn_nat b = set_bit 3 (bn_nat BN_value_one) \<and> bn_neg b = bn_neg BN_value_one) \<and>
    (case BN_clear_bit BN_value_one (int 3) of None \<Rightarrow> bn_nat BN_value_one < 2 ^ (64 * (3 div 64))
     | Some b \<Rightarrow> bn_wf b \<and> bn_nat b = unset_bit 3 (bn_nat BN_value_one) \<and> (bn_neg b \<longleftrightarrow> bn_neg BN_value_one \<and> bn_nat b \<noteq> 0)) \<and>
    (case BN_mask_bits BN_value_one (int 3) of None \<Rightarrow> bn_nat BN_value_one < 2 ^ 3
     | Some b \<Rightarrow> bn_wf b \<and> bn_nat b = bn_nat BN_value_one mod 2 ^ 3 \<and> (bn_neg b \<longleftrightarrow> bn_neg BN_value_one \<and> bn_nat b \<noteq> 0))"
  by (rule bn_single_bits [OF one_wf])

subsection \<open>The exchange in constant time\<close>

lemma xor_swap: "xor_swap (ct_mask c) x y = (if c then (y, x) else (x, y))"
  by (simp add: xor_swap_def ct_mask_def Let_def) (metis xor.commute xor_left_cancel xor_right_cancel)

lemma swap_condition: "drop_bit (BN_BITS2 - 1) (NOT c AND (c - 1)) - 1 = (ct_mask (c \<noteq> 0) :: u64)"
proof -
  have "constant_time_is_zero_s c = ct_mask (c = 0)" by (simp add: ct_is_zero)
  then have "0 - drop_bit (BN_BITS2 - 1) (NOT c AND (c - 1)) = ct_mask (c = 0)"
    unfolding constant_time_is_zero_s_def constant_time_msb_s_def BN_BITS2_def by simp
  moreover obtain z where z: "drop_bit (BN_BITS2 - 1) (NOT c AND (c - 1)) = z" by simp
  ultimately have "z = - ct_mask (c = 0)" unfolding z by (metis diff_0 minus_minus)
  then show ?thesis unfolding z by (cases "c = 0") (simp_all add: ct_mask_def)
qed

lemma swap_words:
  assumes "n \<le> length x" "n \<le> length y"
  shows "fold (\<lambda>i (ad, bd). case xor_swap (ct_mask c) (ad ! i) (bd ! i) of (u, v) \<Rightarrow> (ad[i := u], bd[i := v])) [0..<n] (x, y) =
    (if c then (take n y @ drop n x, take n x @ drop n y) else (x, y))"
  using assms
proof (induction n)
  case (Suc n)
  have "n < length x" "n < length y" using Suc.prems by simp_all
  then have d: "drop n x = x ! n # drop (Suc n) x" "drop n y = y ! n # drop (Suc n) y" by (simp_all add: Cons_nth_drop_Suc)
  show ?case using Suc by (simp add: xor_swap nth_append list_update_append d take_Suc_conv_app_nth)
qed simp

text \<open>The exchange in constant time leaves two numbers alone when the condition is 0 and exchanges their values otherwise, if
  both have room for the words that are exchanged.\<close>

theorem bn_swap_values:
  assumes "bn_fits a" "bn_fits b" "bn_top a \<le> n" "bn_top b \<le> n" "n \<le> length (bn_d a)" "n \<le> length (bn_d b)"
  shows "(case BN_consttime_swap c a b n of (x, y) \<Rightarrow>
    bn_fits x \<and> bn_fits y \<and> (bn_val x, bn_val y) = (if c = 0 then (bn_val a, bn_val b) else (bn_val b, bn_val a)))"
proof -
  have l: "bn_top a < 2 ^ 63" "bn_top b < 2 ^ 63" using bn_fits_size [OF assms(1)] bn_fits_size [OF assms(2)] by simp_all
  define t where "t = (ucast (bn_flags a XOR bn_flags b) AND ucast BN_FLG_CONSTTIME) AND (ct_mask (c \<noteq> 0) :: u64)"
  have s: "BN_consttime_swap c a b n =
    (if c \<noteq> 0 then (\<lparr>bn_d = take n (bn_d b) @ drop n (bn_d a), bn_top = bn_top b, bn_neg = bn_neg b, bn_flags = bn_flags a XOR ucast t\<rparr>,
                     \<lparr>bn_d = take n (bn_d a) @ drop n (bn_d b), bn_top = bn_top a, bn_neg = bn_neg a, bn_flags = bn_flags b XOR ucast t\<rparr>)
     else (a\<lparr>bn_flags := bn_flags a XOR ucast t\<rparr>, b\<lparr>bn_flags := bn_flags b XOR ucast t\<rparr>))"
    unfolding BN_consttime_swap_def swap_condition Let_def swap_words [OF assms(5,6)] t_def [symmetric] using l
    by (cases "c = 0") (simp_all add: unat_of_u64 xor_swap)
  show ?thesis unfolding s using assms by (simp add: bn_fits_def bn_val_def bn_nat_def take_append min_absorb2)
qed

theorem bn_swap_values_witness:
  "(case BN_consttime_swap 1 BN_value_one (BN_value_one\<lparr>bn_neg := True\<rparr>) 1 of (x, y) \<Rightarrow>
    bn_fits x \<and> bn_fits y \<and> (bn_val x, bn_val y) = (if (1 :: u64) = 0 then (bn_val BN_value_one, bn_val (BN_value_one\<lparr>bn_neg := True\<rparr>))
      else (bn_val (BN_value_one\<lparr>bn_neg := True\<rparr>), bn_val BN_value_one)))"
  by (rule bn_swap_values) (simp_all add: bn_fits_def BN_value_one_def INT_MAX_def BN_BITS2_def)

end
