(* ===== verification/BnAddProps.thy ===== *)
theory BnAddProps
  imports BnArith BnAsmProps BnBits
begin

text \<open>
  Addition and subtraction of big numbers are those of the integers, whatever the number that receives the
  result holds, and fail only where its array cannot grow.
\<close>

lemma bit_word_cases: "unat c \<le> 1 \<Longrightarrow> c = 0 \<or> c = (1 :: u64)"
  by (auto simp: word_unat_eq_iff le_Suc_eq)

lemma carry_loop:
  "unat c \<le> 1 \<Longrightarrow> carry_loop ap c = (out, c') \<Longrightarrow>
   unat c' \<le> 1 \<and> length out = length ap \<and> words_val out + 2 ^ (64 * length ap) * unat c' = words_val ap + unat c"
proof (induction ap c arbitrary: out c' rule: carry_loop.induct)
  case (2 t1 ap c)
  let ?t = "t1 + c" and ?c = "c AND (if t1 + c = 0 then 1 else 0)"
  obtain o1 where l: "carry_loop ap ?c = (o1, c')" "out = ?t # o1" using "2.prems"(2) by (auto simp: and_MASK2 Let_def split: prod.splits)
  have s: "unat ?t + 2 ^ 64 * unat ?c = unat t1 + unat c"
  proof -
    consider "c = 0" | "c = 1" "t1 + 1 = 0" | "c = 1" "t1 + 1 \<noteq> 0" using bit_word_cases [OF "2.prems"(1)] by blast
    then show ?thesis
    proof cases
      case 2
      then have "t1 = -1" by (simp add: eq_neg_iff_add_eq_0)
      then show ?thesis using 2 by (simp add: unsigned_minus_1_eq_mask mask_eq_exp_minus_1)
    next
      case 3
      then have "\<not> t1 + 1 < 1" by (simp add: word_less_nat_alt unat_eq_zero)
      then have "unat (t1 + 1) = unat t1 + 1" using word_add_carry [of t1 1] by simp
      then show ?thesis using 3 by simp
    qed simp
  qed
  have c: "unat ?c \<le> 1" using bit_word_cases [OF "2.prems"(1)] by auto
  have "unat c' \<le> 1 \<and> length o1 = length ap \<and> words_val o1 + 2 ^ (64 * length ap) * unat c' = words_val ap + unat ?c"
    using "2.IH" [OF refl] c l(1) by (simp add: and_MASK2)
  then show ?case using s unfolding l(2) by (simp add: power_add algebra_simps)
qed simp

lemma borrow_loop:
  "unat c \<le> 1 \<Longrightarrow> borrow_loop ap c = (out, c') \<Longrightarrow>
   unat c' \<le> 1 \<and> length out = length ap \<and> words_val out + unat c = words_val ap + 2 ^ (64 * length ap) * unat c'"
proof (induction ap c arbitrary: out c' rule: borrow_loop.induct)
  case (2 t1 ap c)
  let ?t = "t1 - c" and ?c = "c AND (if t1 = 0 then 1 else 0)"
  obtain o1 where l: "borrow_loop ap ?c = (o1, c')" "out = ?t # o1" using "2.prems"(2) by (auto simp: and_MASK2 Let_def split: prod.splits)
  have s: "unat ?t + unat c = unat t1 + 2 ^ 64 * unat ?c"
    using sub_borrow_nat [of t1 c] bit_word_cases [OF "2.prems"(1)] by (auto simp: word_less_nat_alt unat_eq_zero)
  have c: "unat ?c \<le> 1" using bit_word_cases [OF "2.prems"(1)] by auto
  have "unat c' \<le> 1 \<and> length o1 = length ap \<and> words_val o1 + unat ?c = words_val ap + 2 ^ (64 * length ap) * unat c'"
    using "2.IH" [OF refl] c l(1) by (simp add: and_MASK2)
  then show ?case using s unfolding l(2) by (simp add: power_add algebra_simps)
qed simp

text \<open>The value of the words of an array from \<open>m\<close> on.\<close>

lemma words_val_split: "m \<le> n \<Longrightarrow> m \<le> length d \<Longrightarrow>
    words_val (take n d) = words_val (take m d) + 2 ^ (64 * m) * words_val (take (n - m) (drop m d))"
proof -
  assume "m \<le> n" "m \<le> length d"
  then have "take n d = take m d @ take (n - m) (drop m d)" by (metis le_add_diff_inverse take_add)
  then show ?thesis using \<open>m \<le> length d\<close> by (simp add: words_val_append min_absorb2)
qed

lemma bn_wexpand_more: "bn_fits r \<Longrightarrow> bn_wexpand alloc r m = None \<Longrightarrow> m \<le> n \<Longrightarrow> bn_wexpand alloc r n = None"
  by (auto simp: bn_wexpand_None)

lemma BN_uadd:
  assumes "bn_wf a" "bn_wf b" "bn_fits r" "BN_uadd alloc r a b = Some c"
  shows "bn_wf c \<and> bn_nat c = bn_nat a + bn_nat b \<and> \<not> bn_neg c \<and> bn_flags c = bn_flags r"
proof -
  define x y where "x = (if bn_top a < bn_top b then b else a)" and "y = (if bn_top a < bn_top b then a else b)"
  have xy: "bn_wf x" "bn_wf y" "bn_top y \<le> bn_top x" "bn_nat a + bn_nat b = bn_nat x + bn_nat y"
    using assms(1,2) by (auto simp: x_def y_def)
  let ?M = "bn_top x" and ?m = "bn_top y"
  have u: "BN_uadd alloc r a b = map_option (\<lambda>r.
      let (rp, k) = bn_add_words (bn_d r) (bn_d x) (bn_d y) ?m; (out, k2) = carry_loop (take (?M - ?m) (drop ?m (bn_d x))) k
      in r\<lparr>bn_d := take ?m rp @ out @ [k2] @ drop (?M + 1) rp, bn_top := ?M + unat k2, bn_neg := False\<rparr>) (bn_wexpand alloc r (?M + 1))"
    by (cases "bn_top a < bn_top b") (simp_all add: BN_uadd_def x_def y_def Let_def)
  obtain r1 where w: "bn_wexpand alloc r (?M + 1) = Some r1" using assms(4) unfolding u by auto
  obtain rp k where a: "bn_add_words (bn_d r1) (bn_d x) (bn_d y) ?m = (rp, k)" by fastforce
  obtain out k2 where l: "carry_loop (take (?M - ?m) (drop ?m (bn_d x))) k = (out, k2)" by fastforce
  have c: "c = r1\<lparr>bn_d := take ?m rp @ out @ [k2] @ drop (?M + 1) rp, bn_top := ?M + unat k2, bn_neg := False\<rparr>"
    using assms(4) unfolding u w by (simp add: a l)
  note e = bn_wexpand [OF assms(3) w]
  have t: "?M \<le> length (bn_d x)" "?m \<le> length (bn_d y)" "?M < length (bn_d r1)" using xy e by (simp_all add: bn_wf_def bn_fits_def)
  then have m: "?m \<le> length (bn_d r1)" "?m \<le> length (bn_d x)" "?m \<le> length (bn_d y)" using xy(3) by linarith+
  note add = bn_add_words [OF m a]
  note cl = carry_loop [OF add(3) l]
  have lo: "length out = ?M - ?m" using cl t xy(3) by simp
  have rp: "length rp = length (bn_d r1)" "?m \<le> length rp" using add(1) m by simp_all
  have d: "take (?M + 1) (bn_d c) = take ?m rp @ out @ [k2]" using rp lo xy(3) unfolding c by simp
  have lc: "length (bn_d c) = length (bn_d r1)" using rp lo t xy(3) unfolding c by simp
  have lx: "length (take (?M - ?m) (drop ?m (bn_d x))) = ?M - ?m" using t xy(3) by simp
  have "words_val (take (?M + 1) (bn_d c)) = words_val (take ?m rp) + 2 ^ (64 * ?m) * (words_val out + 2 ^ (64 * (?M - ?m)) * unat k2)"
    unfolding d using rp lo by (simp add: words_val_append)
  also have "words_val out + 2 ^ (64 * (?M - ?m)) * unat k2 = words_val (take (?M - ?m) (drop ?m (bn_d x))) + unat k"
    using cl unfolding lx by simp
  also have "words_val (take ?m rp) + 2 ^ (64 * ?m) * (words_val (take (?M - ?m) (drop ?m (bn_d x))) + unat k) =
      words_val (take ?m (bn_d x)) + words_val (take ?m (bn_d y)) + 2 ^ (64 * ?m) * words_val (take (?M - ?m) (drop ?m (bn_d x)))"
    using add(4) by (simp add: distrib_left)
  also have "\<dots> = bn_nat x + bn_nat y" using words_val_split [OF xy(3) m(2)] unfolding bn_nat_def by simp
  finally have v: "words_val (take (?M + 1) (bn_d c)) = bn_nat x + bn_nat y" .
  have kk: "k2 = 0 \<or> k2 = 1" using cl bit_word_cases by blast
  have ck: "bn_d c ! ?M = k2" using nth_take [of ?M "?M + 1" "bn_d c"] unfolding d using rp lo xy(3) by (simp add: nth_append)
  have tc: "bn_top c = ?M + unat k2" "\<not> bn_neg c" "bn_flags c = bn_flags r" unfolding c using e by simp_all
  have vs: "words_val (take (?M + 1) (bn_d c)) = words_val (take ?M (bn_d c)) + 2 ^ (64 * ?M) * unat k2"
    using words_val_take_Suc [of ?M "bn_d c"] unfolding ck lc by (simp add: t(3))
  have n: "bn_nat c = bn_nat x + bn_nat y"
    using kk
  proof
    assume "k2 = 0"
    then show ?thesis using v vs tc(1) unfolding bn_nat_def by simp
  next
    assume "k2 = 1"
    then show ?thesis using v tc(1) by (simp add: bn_nat_def [of c])
  qed
  have "bn_top c \<le> length (bn_d c)" unfolding tc lc using kk t(3) by auto
  then have f: "bn_fits c" using e(1) lc by (simp add: bn_fits_def)
  have "0 < bn_top c \<longrightarrow> bn_d c ! (bn_top c - 1) \<noteq> 0"
  proof (cases "k2 = 0")
    case False
    then show ?thesis using kk ck tc(1) by auto
  next
    case True
    then have top: "bn_top c = ?M" using tc(1) by simp
    show ?thesis
    proof
      assume p: "0 < bn_top c"
      have "2 ^ (64 * (?M - 1)) \<le> bn_nat x" using bn_top_word [of x] xy(1) p top by (simp add: bn_wf_def)
      then show "bn_d c ! (bn_top c - 1) \<noteq> 0" using bn_top_word [OF f p] unfolding top n by linarith
    qed
  qed
  then show ?thesis using f tc n xy(4) by (simp add: bn_wf_def)
qed

text \<open>A number made by \<open>top_loop\<close> from its array has no leading zeros.\<close>

lemma top_loop_wf:
  assumes "bn_fits r" "length d = length (bn_d r)" "n \<le> length d" "c = r\<lparr>bn_d := d, bn_top := top_loop d n, bn_neg := False\<rparr>"
  shows "bn_wf c" "bn_nat c = words_val (take n d)" "\<not> bn_neg c" "bn_flags c = bn_flags r"
  using top_loop [OF assms(3)] assms(1-3) unfolding assms(4) by (simp_all add: bn_wf_def bn_fits_def bn_nat_def)

lemma BN_usub:
  assumes "bn_wf a" "bn_wf b" "bn_fits r" "bn_nat b \<le> bn_nat a" "BN_usub alloc r a b = Some c"
  shows "bn_wf c \<and> bn_nat c = bn_nat a - bn_nat b \<and> \<not> bn_neg c \<and> bn_flags c = bn_flags r"
proof -
  let ?M = "bn_top a" and ?m = "bn_top b"
  have le: "?m \<le> ?M" using bn_nat_top_less [OF assms(1,2)] assms(4) by linarith
  obtain r1 where w: "bn_wexpand alloc r ?M = Some r1" using assms(5) le unfolding BN_usub_def by (auto simp: Let_def)
  obtain rp k where a: "bn_sub_words (bn_d r1) (bn_d a) (bn_d b) ?m = (rp, k)" by fastforce
  obtain out k2 where l: "borrow_loop (take (?M - ?m) (drop ?m (bn_d a))) k = (out, k2)" by fastforce
  define d where "d = take ?m rp @ out @ drop ?M rp"
  have c: "c = r1\<lparr>bn_d := d, bn_top := top_loop d ?M, bn_neg := False\<rparr>"
    using assms(5) le by (simp add: BN_usub_def w a l Let_def d_def split: if_splits)
  note e = bn_wexpand [OF assms(3) w]
  have t: "?M \<le> length (bn_d a)" "?m \<le> length (bn_d b)" "?M \<le> length (bn_d r1)" using assms(1,2) e by (simp_all add: bn_wf_def bn_fits_def)
  then have m: "?m \<le> length (bn_d r1)" "?m \<le> length (bn_d a)" "?m \<le> length (bn_d b)" using le by linarith+
  note sub = bn_sub_words [OF m a]
  note cl = borrow_loop [OF sub(3) l]
  have lx: "length (take (?M - ?m) (drop ?m (bn_d a))) = ?M - ?m" using t le by simp
  have lo: "length out = ?M - ?m" using cl unfolding lx by simp
  have rp: "length rp = length (bn_d r1)" "?m \<le> length rp" using sub(1) m by simp_all
  have ld: "length d = length (bn_d r1)" using rp lo le t unfolding d_def by simp
  have td: "take ?M d = take ?m rp @ out" using rp lo le unfolding d_def by simp
  have "bn_nat a = words_val (take ?m (bn_d a)) + 2 ^ (64 * ?m) * words_val (take (?M - ?m) (drop ?m (bn_d a)))"
    unfolding bn_nat_def by (rule words_val_split [OF le m(2)])
  moreover have "words_val (take ?M d) = words_val (take ?m rp) + 2 ^ (64 * ?m) * words_val out"
    unfolding td using rp by (simp add: words_val_append)
  moreover have "2 ^ (64 * ?m) * (words_val out + unat k) =
      2 ^ (64 * ?m) * (words_val (take (?M - ?m) (drop ?m (bn_d a))) + 2 ^ (64 * (?M - ?m)) * unat k2)"
    using cl unfolding lx by simp
  moreover have "2 ^ (64 * ?m) * 2 ^ (64 * (?M - ?m)) = (2 :: nat) ^ (64 * ?M)" using le by (simp add: power_add [symmetric] distrib_left [symmetric])
  ultimately have v: "words_val (take ?M d) + bn_nat b = bn_nat a + 2 ^ (64 * ?M) * unat k2"
    using sub(4) unfolding bn_nat_def [of b] by (simp add: distrib_left mult.assoc [symmetric])
  have "words_val (take ?M d) < 2 ^ (64 * ?M)" using words_val_less [of "take ?M d"] ld t by (simp add: min_absorb2)
  then have "unat k2 = 0" using v assms(4) conjunct1 [OF cl] by (cases "unat k2 = 0") (auto simp: le_Suc_eq)
  then have "words_val (take ?M d) = bn_nat a - bn_nat b" using v by simp
  moreover have "?M \<le> length d" using t ld by simp
  ultimately show ?thesis using top_loop_wf [OF e(1) ld _ c] e(5) by simp
qed

lemma BN_zero_ex: "bn_fits r \<Longrightarrow> bn_wf (BN_zero_ex r) \<and> bn_nat (BN_zero_ex r) = 0 \<and> bn_val (BN_zero_ex r) = 0 \<and> bn_flags (BN_zero_ex r) = bn_flags r"
  by (simp add: BN_zero_ex_def bn_wf_def bn_fits_def bn_nat_def bn_val_def)

lemma bn_wf_neg: "bn_wf a \<Longrightarrow> bn_nat a \<noteq> 0 \<or> \<not> n \<Longrightarrow> bn_wf (a\<lparr>bn_neg := n\<rparr>) \<and> bn_nat (a\<lparr>bn_neg := n\<rparr>) = bn_nat a"
  using bn_nat_words(1) [of a] by (auto simp: bn_wf_def bn_fits_def bn_nat_def)

lemma bn_neg_nat: "bn_wf a \<Longrightarrow> bn_neg a \<Longrightarrow> 0 < bn_nat a"
  using bn_nat_words(1) [of a] by (auto simp: bn_wf_def)

lemma BN_ucmp_nat: "bn_wf a \<Longrightarrow> bn_wf b \<Longrightarrow> (0 < BN_ucmp a b \<longleftrightarrow> bn_nat b < bn_nat a) \<and> (BN_ucmp a b < 0 \<longleftrightarrow> bn_nat a < bn_nat b)"
  using BN_ucmp [of a b] by (auto simp: sgn_if split: if_splits)

text \<open>Both functions: the magnitudes are added or the smaller is taken from the larger.\<close>

lemma signed_sum:
  assumes "bn_wf a" "bn_wf b" "bn_fits r"
    and "x = map_option (\<lambda>r. r\<lparr>bn_neg := n\<rparr>) ret"
    and "(n, ret) = (if bn_neg a = nb then (bn_neg a, BN_uadd alloc r a b)
        else if BN_ucmp a b > 0 then (bn_neg a, BN_usub alloc r a b)
             else if BN_ucmp a b < 0 then (nb, BN_usub alloc r b a)
             else (False, Some (BN_zero_ex r)))"
  shows "case x of None \<Rightarrow> bn_wexpand alloc r (max (bn_top a) (bn_top b) + 1) = None
    | Some c \<Rightarrow> bn_wf c \<and> bn_val c = bn_val a + (if nb then - int (bn_nat b) else int (bn_nat b)) \<and> bn_flags c = bn_flags r"
proof -
  note neg = bn_neg_nat [OF assms(1)]
  consider "bn_neg a = nb" | "bn_neg a \<noteq> nb" "bn_nat b < bn_nat a" | "bn_neg a \<noteq> nb" "bn_nat a < bn_nat b" | "bn_neg a \<noteq> nb" "bn_nat a = bn_nat b"
    by linarith
  then show ?thesis
  proof cases
    case 1
    then have nr: "n = bn_neg a" "ret = BN_uadd alloc r a b" using assms(5) by simp_all
    show ?thesis
    proof (cases ret)
      case None
      then have "bn_wexpand alloc r (max (bn_top a) (bn_top b) + 1) = None"
        unfolding nr BN_uadd_def by (auto simp: Let_def max_def split: if_splits)
      then show ?thesis using None assms(4) by simp
    next
      case (Some c)
      note u = BN_uadd [OF assms(1,2,3) Some [unfolded nr]]
      have "bn_nat c \<noteq> 0 \<or> \<not> n" using u neg nr(1) by auto
      then show ?thesis using u bn_wf_neg [of c n] Some assms(4) 1 nr(1) by (auto simp: bn_val_def)
    qed
  next
    case 2
    then have nr: "n = bn_neg a" "ret = BN_usub alloc r a b" using assms(5) BN_ucmp_nat [OF assms(1,2)] by simp_all
    show ?thesis
    proof (cases ret)
      case None
      then have "bn_wexpand alloc r (bn_top a) = None \<or> bn_top a < bn_top b"
        unfolding nr BN_usub_def by (auto simp: Let_def split: if_splits)
      moreover have "\<not> bn_top a < bn_top b" using bn_nat_top_less [OF assms(1,2)] 2 by linarith
      ultimately show ?thesis using None assms(4) bn_wexpand_more [OF assms(3)] by auto
    next
      case (Some c)
      note u = BN_usub [OF assms(1,2,3) less_imp_le [OF 2(2)] Some [unfolded nr]]
      then show ?thesis using bn_wf_neg [of c n] Some assms(4) 2 nr(1) by (auto simp: bn_val_def)
    qed
  next
    case 3
    then have nr: "n = nb" "ret = BN_usub alloc r b a" using assms(5) BN_ucmp_nat [OF assms(1,2)] by simp_all
    show ?thesis
    proof (cases ret)
      case None
      then have "bn_wexpand alloc r (bn_top b) = None \<or> bn_top b < bn_top a"
        unfolding nr BN_usub_def by (auto simp: Let_def split: if_splits)
      moreover have "\<not> bn_top b < bn_top a" using bn_nat_top_less [OF assms(2,1)] 3 by linarith
      ultimately show ?thesis using None assms(4) bn_wexpand_more [OF assms(3)] by auto
    next
      case (Some c)
      note u = BN_usub [OF assms(2,1,3) less_imp_le [OF 3(2)] Some [unfolded nr]]
      then show ?thesis using bn_wf_neg [of c n] Some assms(4) 3 nr(1) by (auto simp: bn_val_def)
    qed
  next
    case 4
    then have "n = False" "ret = Some (BN_zero_ex r)" using assms(5) BN_ucmp_nat [OF assms(1,2)] by simp_all
    then show ?thesis using BN_zero_ex [OF assms(3)] assms(4) 4 bn_wf_neg [of "BN_zero_ex r" False]
      by (auto simp: bn_val_def)
  qed
qed

lemma BN_add_cases:
  assumes "bn_wf a" "bn_wf b" "bn_fits r"
  shows "case BN_add alloc r a b of None \<Rightarrow> bn_wexpand alloc r (max (bn_top a) (bn_top b) + 1) = None
     | Some c \<Rightarrow> bn_wf c \<and> bn_val c = bn_val a + bn_val b \<and> bn_flags c = bn_flags r"
proof -
  define p where "p = (if bn_neg a = bn_neg b then (bn_neg a, BN_uadd alloc r a b)
        else if BN_ucmp a b > 0 then (bn_neg a, BN_usub alloc r a b)
             else if BN_ucmp a b < 0 then (bn_neg b, BN_usub alloc r b a)
             else (False, Some (BN_zero_ex r)))"
  have a: "BN_add alloc r a b = map_option (\<lambda>r. r\<lparr>bn_neg := fst p\<rparr>) (snd p)"
    by (simp add: BN_add_def p_def Let_def split: if_splits)
  have v: "bn_val b = (if bn_neg b then - int (bn_nat b) else int (bn_nat b))" by (simp add: bn_val_def)
  show ?thesis unfolding v using signed_sum [OF assms a, of "bn_neg b" alloc] by (simp add: p_def)
qed

lemma BN_sub_cases:
  assumes "bn_wf a" "bn_wf b" "bn_fits r"
  shows "case BN_sub alloc r a b of None \<Rightarrow> bn_wexpand alloc r (max (bn_top a) (bn_top b) + 1) = None
     | Some c \<Rightarrow> bn_wf c \<and> bn_val c = bn_val a - bn_val b \<and> bn_flags c = bn_flags r"
proof -
  define p where "p = (if bn_neg a = (\<not> bn_neg b) then (bn_neg a, BN_uadd alloc r a b)
        else if BN_ucmp a b > 0 then (bn_neg a, BN_usub alloc r a b)
             else if BN_ucmp a b < 0 then (\<not> bn_neg b, BN_usub alloc r b a)
             else (False, Some (BN_zero_ex r)))"
  have a: "BN_sub alloc r a b = map_option (\<lambda>r. r\<lparr>bn_neg := fst p\<rparr>) (snd p)"
    by (cases "bn_neg a"; cases "bn_neg b") (simp_all add: BN_sub_def p_def Let_def split: if_splits)
  have v: "bn_val a - bn_val b = bn_val a + (if \<not> bn_neg b then - int (bn_nat b) else int (bn_nat b))" by (simp add: bn_val_def [of b])
  show ?thesis unfolding v using signed_sum [OF assms a, of "\<not> bn_neg b" alloc] by (simp add: p_def)
qed

text \<open>C28: signed addition and subtraction of numbers in normal form give numbers in normal form with the sum and the
  difference of the integers, for any operands, also when the result is one of them; they fail only if the array of
  the result cannot be made one word longer than the longer operand.\<close>

theorem bn_add_sub:
  assumes "bn_wf a" "bn_wf b" "bn_fits r"
  shows "(case BN_add alloc r a b of None \<Rightarrow> bn_wexpand alloc r (max (bn_top a) (bn_top b) + 1) = None
     | Some c \<Rightarrow> bn_wf c \<and> bn_val c = bn_val a + bn_val b \<and> bn_flags c = bn_flags r) \<and>
    (case BN_sub alloc r a b of None \<Rightarrow> bn_wexpand alloc r (max (bn_top a) (bn_top b) + 1) = None
     | Some c \<Rightarrow> bn_wf c \<and> bn_val c = bn_val a - bn_val b \<and> bn_flags c = bn_flags r)"
  using BN_add_cases [OF assms] BN_sub_cases [OF assms] by (rule conjI)

theorem bn_add_sub_witness:
  "(case BN_add True bn_init BN_value_one BN_value_one of None \<Rightarrow> bn_wexpand True bn_init (max (bn_top BN_value_one) (bn_top BN_value_one) + 1) = None
     | Some c \<Rightarrow> bn_wf c \<and> bn_val c = bn_val BN_value_one + bn_val BN_value_one \<and> bn_flags c = bn_flags bn_init) \<and>
    (case BN_sub True bn_init BN_value_one BN_value_one of None \<Rightarrow> bn_wexpand True bn_init (max (bn_top BN_value_one) (bn_top BN_value_one) + 1) = None
     | Some c \<Rightarrow> bn_wf c \<and> bn_val c = bn_val BN_value_one - bn_val BN_value_one \<and> bn_flags c = bn_flags bn_init)"
  by (rule bn_add_sub [OF one_wf one_wf]) (simp add: bn_fits_def bn_init_def)

end
