(* ===== verification/BnShiftProps.thy ===== *)
theory BnShiftProps
  imports BnAddProps
begin

text \<open>
  Shifts of big numbers: by whole words and bits in one pass, in both directions, they are multiplication and
  division of the magnitude by a power of two.
\<close>

lemma shift_mask: "n < 64 \<Longrightarrow> shift_mask n = ct_mask (n \<noteq> 0)"
proof (cases "n = 0")
  case False
  assume n: "n < 64"
  define w where "w = (word_of_nat n - 1 :: u64)"
  have "unat (word_of_nat n :: u64) = n" using n by (intro unatI) simp_all
  then have "unat w = n - 1" using False unfolding w_def by (subst unat_sub) (simp_all add: word_le_nat_alt)
  then have small: "\<not> bit w k" if "6 \<le> k" for k
  proof -
    have "n - 1 < 2 ^ 6" using n by simp
    also have "\<dots> \<le> 2 ^ k" using that by (intro power_increasing) simp_all
    finally show ?thesis using \<open>unat w = n - 1\<close> bit_unsigned_iff [where 'a = nat, of w k] by (simp add: bit_iff_odd)
  qed
  have "0 - word_of_nat n = NOT w" by (simp add: w_def not_eq_complement)
  then have "shift_mask n = NOT w OR drop_bit 8 (NOT w)" by (simp add: shift_mask_def Let_def)
  also have "\<dots> = -1"
  proof (rule bit_word_eqI)
    fix k assume "k < LENGTH(64)"
    then show "bit (NOT w OR drop_bit 8 (NOT w)) k = bit (-1 :: u64) k"
      using small [of k] small [of "k + 8"] by (cases "6 \<le> k") (auto simp: bit_simps add.commute)
  qed
  finally show ?thesis using False by (simp add: ct_mask_def)
qed (simp add: shift_mask_def ct_mask_def Let_def)

text \<open>The bits of the upper and lower parts that move into the neighbouring word.\<close>

lemma bit_high_part: "lb < 64 \<Longrightarrow> bit (drop_bit ((64 - lb) mod 64) w AND shift_mask ((64 - lb) mod 64)) j \<longleftrightarrow> bit (w :: u64) (j + (64 - lb))"
  by (cases "lb = 0") (auto simp: shift_mask ct_mask_def bit_simps add.commute dest: bit_imp_le_length)

lemma bit_low_part:
  "rb < 64 \<Longrightarrow> bit (push_bit ((64 - rb) mod 64) w AND shift_mask ((64 - rb) mod 64)) j \<longleftrightarrow> 64 - rb \<le> j \<and> j < 64 \<and> bit (w :: u64) (j - (64 - rb))"
  by (cases "rb = 0") (auto simp: shift_mask ct_mask_def bit_simps dest: bit_imp_le_length)

subsection \<open>To the left\<close>

lemma lshift_loop:
  assumes "i < length t" "l = f ! i"
  shows "length (lshift_loop lb rb m f i l t) = length t"
    "k < length t \<Longrightarrow> lshift_loop lb rb m f i l t ! k =
      (if k = 0 then push_bit lb (f ! 0) else if k \<le> i then push_bit lb (f ! k) OR (drop_bit rb (f ! (k - 1)) AND m) else t ! k)"
  using assms
proof (induction i arbitrary: l t)
  case 0
  { case 1 then show ?case by simp }
  { case 2 then show ?case by (simp add: and_MASK2 nth_list_update) }
next
  case (Suc i)
  { case 1 then show ?case using Suc(1) [of "t[Suc i := (push_bit lb l OR (drop_bit rb (f ! i) AND m)) AND BN_MASK2]" "f ! i"] by (simp add: Let_def) }
  { case 2 then show ?case using Suc(2) [of "t[Suc i := (push_bit lb l OR (drop_bit rb (f ! i) AND m)) AND BN_MASK2]" "f ! i"]
      by (cases "k = Suc i") (auto simp: Let_def and_MASK2 nth_list_update) }
qed

lemma div_mod_sub:
  fixes lb K :: nat
  assumes "lb < 64" "lb \<le> K"
  shows "(K - lb) div 64 = (if lb \<le> K mod 64 then K div 64 else K div 64 - 1)"
    "(K - lb) mod 64 = (if lb \<le> K mod 64 then K mod 64 - lb else K mod 64 + 64 - lb)" "\<not> lb \<le> K mod 64 \<Longrightarrow> 0 < K div 64"
proof -
  obtain k j where K: "K = 64 * k + j" "j < 64" "K div 64 = k" "K mod 64 = j"
    using that [of "K div 64" "K mod 64"] by simp
  show p: "0 < K div 64" if "\<not> lb \<le> K mod 64" using that assms(2) K by (cases k) simp_all
  have dm: "(64 * q + m) div 64 = q \<and> (64 * q + m) mod 64 = m" if "m < 64" for q m :: nat using that by simp
  have "(K - lb) div 64 = (if lb \<le> j then k else k - 1) \<and> (K - lb) mod 64 = (if lb \<le> j then j - lb else j + 64 - lb)"
  proof (cases "lb \<le> j")
    case True
    then have "K - lb = 64 * k + (j - lb)" "j - lb < 64" using K(1,2) by simp_all
    then show ?thesis using dm [of "j - lb" k] True by simp
  next
    case False
    then have "0 < k" using p K(3,4) by simp
    then have "K - lb = 64 * (k - 1) + (j + 64 - lb)" "j + 64 - lb < 64" using K(1,2) False assms(1) by (simp_all add: diff_mult_distrib2)
    then show ?thesis using dm [of "j + 64 - lb" "k - 1"] False by simp
  qed
  then show "(K - lb) div 64 = (if lb \<le> K mod 64 then K div 64 else K div 64 - 1)"
    "(K - lb) mod 64 = (if lb \<le> K mod 64 then K mod 64 - lb else K mod 64 + 64 - lb)" using K by simp_all
qed

lemma words_push_bit:
  assumes "lb < 64" "n < length t" "n \<le> length f"
    and "\<And>k j. k \<le> n \<Longrightarrow> j < 64 \<Longrightarrow> bit (t ! k) j \<longleftrightarrow> k < n \<and> lb \<le> j \<and> bit (f ! k) (j - lb) \<or> 0 < k \<and> bit (f ! (k - 1)) (j + (64 - lb))"
  shows "words_val (take (n + 1) t) = words_val (take n f) * 2 ^ lb"
proof -
  have "words_val (take (n + 1) t) = push_bit lb (words_val (take n f))"
  proof (rule bit_eqI)
    fix K
    have hi: "bit (f ! k) j \<Longrightarrow> j < 64" for k j by (drule bit_imp_le_length) simp
    have "bit (words_val (take (n + 1) t)) K \<longleftrightarrow> K div 64 \<le> n \<and> bit (t ! (K div 64)) (K mod 64)"
      using assms(2) by (auto simp: bit_words_val)
    also have "\<dots> \<longleftrightarrow> K div 64 < n \<and> lb \<le> K mod 64 \<and> bit (f ! (K div 64)) (K mod 64 - lb) \<or>
        K div 64 \<le> n \<and> 0 < K div 64 \<and> bit (f ! (K div 64 - 1)) (K mod 64 + (64 - lb))"
      using assms(4) [of "K div 64" "K mod 64"] by auto
    also have "\<dots> \<longleftrightarrow> lb \<le> K \<and> (K - lb) div 64 < n \<and> bit (f ! ((K - lb) div 64)) ((K - lb) mod 64)"
    proof (cases "lb \<le> K")
      case True
      note d = div_mod_sub [OF assms(1) True]
      show ?thesis
      proof (cases "lb \<le> K mod 64")
        case le: True
        have "\<not> bit (f ! (K div 64 - 1)) (K mod 64 + (64 - lb))" using hi [of "K div 64 - 1" "K mod 64 + (64 - lb)"] le by linarith
        then show ?thesis using d le True by simp
      next
        case False
        have "K mod 64 + (64 - lb) = K mod 64 + 64 - lb" using assms(1) by simp
        moreover have "K div 64 - 1 < n \<longleftrightarrow> K div 64 \<le> n" using d(3) [OF False] by linarith
        ultimately show ?thesis using d False True by simp
      qed
    next
      case False
      then have "K div 64 = 0" "K mod 64 = K" using assms(1) by simp_all
      then show ?thesis using False by simp
    qed
    also have "\<dots> \<longleftrightarrow> bit (push_bit lb (words_val (take n f))) K" using assms(3) by (auto simp: bit_simps bit_words_val)
    finally show "bit (words_val (take (n + 1) t)) K \<longleftrightarrow> bit (push_bit lb (words_val (take n f))) K" .
  qed
  then show ?thesis by (simp add: push_bit_eq_mult)
qed

lemma words_val_replicate [simp]: "words_val (replicate n 0 @ ws) = 2 ^ (64 * n) * words_val ws"
  by (induction n) (simp_all add: power_add)

lemma bn_lshift_fixed_top:
  assumes "bn_fits a" "bn_fits r" "bn_lshift_fixed_top alloc r a n = Some c"
  shows "bn_fits c" "bn_nat c = bn_nat a * 2 ^ n" "bn_neg c = bn_neg a" "bn_flags c = bn_flags r" "bn_top c = bn_top a + n div 64 + 1"
proof -
  let ?T = "bn_top a" and ?nw = "n div 64" and ?lb = "n mod 64"
  let ?rb = "(64 - ?lb) mod 64"
  obtain r1 where w: "bn_wexpand alloc r (?T + ?nw + 1) = Some r1"
    using assms(3) unfolding bn_lshift_fixed_top_def BN_BITS2_def Let_def by blast
  note e = bn_wexpand [OF assms(2) w]
  have T: "?T \<le> length (bn_d a)" using assms(1) by (simp add: bn_fits_def)
  define t where "t = (drop ?nw (bn_d r1))[?T := drop_bit ?rb (bn_d a ! (?T - 1)) AND shift_mask ?rb]"
  define x where "x = (if ?T \<noteq> 0 then lshift_loop ?lb ?rb (shift_mask ?rb) (bn_d a) (?T - 1) (bn_d a ! (?T - 1)) t else (drop ?nw (bn_d r1))[0 := 0])"
  have lt: "length t = length (bn_d r1) - ?nw" "?T < length t" using e(2) by (simp_all add: t_def)
  have lx: "length x = length (bn_d r1) - ?nw" using lt e(2) lshift_loop(1) [of "?T - 1" t "bn_d a ! (?T - 1)" "bn_d a" ?lb ?rb "shift_mask ?rb"]
    by (simp add: x_def)
  have c: "c = r1\<lparr>bn_d := replicate ?nw 0 @ x, bn_neg := bn_neg a, bn_top := ?T + ?nw + 1\<rparr>"
  proof -
    have "(bn_d r1)[?nw := 0] = take ?nw (bn_d r1) @ (drop ?nw (bn_d r1))[0 := 0]"
      using e(2) by (simp add: list_eq_iff_nth_eq nth_list_update nth_append min_absorb2)
    then have "c = r1\<lparr>bn_d := (if ?nw \<noteq> 0 then replicate ?nw 0 @ drop ?nw (take ?nw (bn_d r1) @ x) else take ?nw (bn_d r1) @ x),
        bn_neg := bn_neg a, bn_top := ?T + ?nw + 1\<rparr>"
      using assms(3) w unfolding bn_lshift_fixed_top_def BN_BITS2_def Let_def x_def t_def by (simp split: if_splits)
    moreover have "drop ?nw (take ?nw (bn_d r1) @ x) = x" using e(2) by simp
    ultimately show ?thesis by simp
  qed
  have "words_val (take (?T + 1) x) = words_val (take ?T (bn_d a)) * 2 ^ ?lb"
  proof (cases "?T = 0")
    case True
    then show ?thesis using e(2) by (cases "drop ?nw (bn_d r1)") (simp_all add: x_def)
  next
    case False
    show ?thesis
    proof (rule words_push_bit)
      show "?lb < 64" "?T < length x" "?T \<le> length (bn_d a)" using lt lx T by simp_all
      fix k j :: nat
      assume kj: "k \<le> ?T" "j < 64"
      have xk: "x ! k = (if k = 0 then push_bit ?lb (bn_d a ! 0)
          else if k \<le> ?T - 1 then push_bit ?lb (bn_d a ! k) OR (drop_bit ?rb (bn_d a ! (k - 1)) AND shift_mask ?rb) else t ! k)"
        using lshift_loop(2) [of "?T - 1" t "bn_d a ! (?T - 1)" "bn_d a" k ?lb ?rb "shift_mask ?rb"] lt False kj by (simp add: x_def)
      have tT: "t ! ?T = drop_bit ?rb (bn_d a ! (?T - 1)) AND shift_mask ?rb" using lt(2) by (simp add: t_def)
      have h: "bit (drop_bit ?rb w AND shift_mask ?rb) j \<longleftrightarrow> bit w (j + (64 - ?lb))" for w :: u64 by (rule bit_high_part) simp
      have l: "bit (push_bit ?lb w) j \<longleftrightarrow> ?lb \<le> j \<and> bit w (j - ?lb)" for w :: u64 using kj(2) by (auto simp: bit_simps)
      consider "k = 0" | "0 < k" "k \<le> ?T - 1" | "0 < k" "k = ?T" using kj(1) by linarith
      then show "bit (x ! k) j \<longleftrightarrow> k < ?T \<and> ?lb \<le> j \<and> bit (bn_d a ! k) (j - ?lb) \<or> 0 < k \<and> bit (bn_d a ! (k - 1)) (j + (64 - ?lb))"
      proof cases
        case 2
        then have "x ! k = push_bit ?lb (bn_d a ! k) OR (drop_bit ?rb (bn_d a ! (k - 1)) AND shift_mask ?rb)" "k < ?T" using xk by simp_all
        then show ?thesis using 2 by (simp only: bit_or_iff h l) simp
      next
        case 1
        then have "x ! k = push_bit ?lb (bn_d a ! k)" using xk by simp
        then show ?thesis using 1 False by (simp only: l) simp
      next
        case 3
        then have "k \<noteq> 0" "\<not> k \<le> ?T - 1" by linarith+
        then have "x ! k = drop_bit ?rb (bn_d a ! (k - 1)) AND shift_mask ?rb" using xk tT 3 by metis
        then show ?thesis using 3 by (simp only: h) simp
      qed
    qed
  qed
  then have "words_val (take (bn_top c) (bn_d c)) = 2 ^ (64 * ?nw) * (words_val (take ?T (bn_d a)) * 2 ^ ?lb)"
    unfolding c by simp
  also have "\<dots> = words_val (take ?T (bn_d a)) * 2 ^ n"
  proof -
    have "2 ^ (64 * ?nw) * 2 ^ ?lb = (2 :: nat) ^ n" by (simp flip: power_add)
    then show ?thesis unfolding mult.left_commute [of "2 ^ (64 * ?nw)"] by simp
  qed
  finally show "bn_nat c = bn_nat a * 2 ^ n" by (simp only: bn_nat_def)
  show "bn_fits c" using e lx unfolding c by (simp add: bn_fits_def)
  show "bn_neg c = bn_neg a" "bn_flags c = bn_flags r" "bn_top c = bn_top a + n div 64 + 1" using e(5) unfolding c by simp_all
qed

subsection \<open>To the right\<close>

lemma rshift_loop:
  "length (rshift_loop rb lb m l f) = length f + 1"
  "k \<le> length f \<Longrightarrow> rshift_loop rb lb m l f ! k =
    (if k < length f then drop_bit rb ((l # f) ! k) OR (push_bit lb (f ! k) AND m) else drop_bit rb ((l # f) ! k))"
proof (induction f arbitrary: l k)
  case (Cons w f)
  { case 1 then show ?case using Cons(1) by simp }
  { case 2 then show ?case using Cons(2) [of "k - 1" w] by (cases k) auto }
qed simp_all

lemma words_drop_bit:
  assumes "rb < 64" "length t = length f"
    and "\<And>k j. k < length f \<Longrightarrow> j < 64 \<Longrightarrow> bit (t ! k) j \<longleftrightarrow>
      (if j + rb < 64 then bit (f ! k) (j + rb) else k + 1 < length f \<and> bit (f ! (k + 1)) (j + rb - 64))"
  shows "words_val t = words_val f div 2 ^ rb"
proof -
  have "words_val t = drop_bit rb (words_val f)"
  proof (rule bit_eqI)
    fix K
    have d: "(K + rb) div 64 = (if K mod 64 + rb < 64 then K div 64 else K div 64 + 1)"
      "(K + rb) mod 64 = (if K mod 64 + rb < 64 then K mod 64 + rb else K mod 64 + rb - 64)"
    proof -
      obtain k j where K: "K = 64 * k + j" "j < 64" "K div 64 = k" "K mod 64 = j" using that [of "K div 64" "K mod 64"] by simp
      have dm: "(64 * q + m) div 64 = q \<and> (64 * q + m) mod 64 = m" if "m < 64" for q m :: nat using that by simp
      show "(K + rb) div 64 = (if K mod 64 + rb < 64 then K div 64 else K div 64 + 1)"
        "(K + rb) mod 64 = (if K mod 64 + rb < 64 then K mod 64 + rb else K mod 64 + rb - 64)"
        using dm [of "j + rb" k] dm [of "j + rb - 64" "k + 1"] K assms(1) by (cases "j + rb < 64"; simp add: add.assoc [symmetric])+
    qed
    show "bit (words_val t) K \<longleftrightarrow> bit (drop_bit rb (words_val f)) K"
      using assms(3) [of "K div 64" "K mod 64"] d assms(2) by (auto simp: bit_words_val bit_drop_bit_eq add.commute [of rb])
  qed
  then show ?thesis by (simp add: drop_bit_eq_div)
qed

lemma bn_rshift_fixed_top:
  assumes "bn_fits a" "bn_fits r" "bn_rshift_fixed_top alloc r a n = Some c"
  shows "bn_fits c" "bn_nat c = bn_nat a div 2 ^ n" "bn_neg c \<longrightarrow> bn_neg a" "bn_flags c = bn_flags r"
    "bn_nat c \<noteq> 0 \<longrightarrow> bn_neg c = bn_neg a" "bn_top c = bn_top a - n div 64"
proof -
  let ?nw = "n div 64" and ?rb = "n mod 64"
  let ?lb = "(64 - ?rb) mod 64"
  let ?T = "bn_top a - ?nw"
  have T: "bn_top a \<le> length (bn_d a)" using assms(1) by (simp add: bn_fits_def)
  have "bn_fits c \<and> bn_nat c = bn_nat a div 2 ^ n \<and> (bn_neg c \<longrightarrow> bn_neg a) \<and> bn_flags c = bn_flags r \<and>
      (bn_nat c \<noteq> 0 \<longrightarrow> bn_neg c = bn_neg a) \<and> bn_top c = ?T"
  proof (cases "bn_top a \<le> ?nw")
    case True
    have "bn_nat a < 2 ^ n" using bn_nat_top [OF T True] .
    then show ?thesis using True assms(2,3) BN_zero_ex [OF assms(2)] by (auto simp: bn_rshift_fixed_top_def BN_BITS2_def bn_wf_def BN_zero_ex_def)
  next
    case False
    obtain r1 where w: "bn_wexpand alloc r ?T = Some r1"
      using assms(3) False unfolding bn_rshift_fixed_top_def BN_BITS2_def Let_def by auto
    note e = bn_wexpand [OF assms(2) w]
    define f where "f = take ?T (drop ?nw (bn_d a))"
    have lf: "length f = ?T" "0 < length f" using T False by (simp_all add: f_def)
    then obtain l g where f: "f = l # g" by (cases f) auto
    define x where "x = rshift_loop ?rb ?lb (shift_mask ?lb) l g"
    have lx: "length x = length f" unfolding x_def f rshift_loop(1) by simp
    have c: "c = r1\<lparr>bn_d := x @ drop ?T (bn_d r1), bn_neg := bn_neg a, bn_top := ?T\<rparr>"
      using assms(3) w False unfolding bn_rshift_fixed_top_def BN_BITS2_def Let_def f_def [symmetric] f x_def by simp
    have "words_val x = words_val f div 2 ^ ?rb"
    proof (rule words_drop_bit [OF _ lx])
      fix k j :: nat assume kj: "k < length f" "j < 64"
      have xk: "x ! k = (if k + 1 < length f then drop_bit ?rb (f ! k) OR (push_bit ?lb (f ! (k + 1)) AND shift_mask ?lb) else drop_bit ?rb (f ! k))"
        using rshift_loop(2) [of k g ?rb ?lb "shift_mask ?lb" l] kj unfolding x_def f by simp
      have h: "bit (push_bit ?lb w AND shift_mask ?lb) j \<longleftrightarrow> 64 - ?rb \<le> j \<and> j < 64 \<and> bit w (j - (64 - ?rb))" for w :: u64
        by (rule bit_low_part) simp
      have hi: "bit w i \<Longrightarrow> i < 64" for w :: u64 and i by (drule bit_imp_le_length) simp
      have l: "bit (drop_bit ?rb w) j \<longleftrightarrow> j + ?rb < 64 \<and> bit w (j + ?rb)" for w :: u64
        using hi [of w "j + ?rb"] by (auto simp: bit_drop_bit_eq add.commute)
      have s: "64 - ?rb \<le> j \<longleftrightarrow> \<not> j + ?rb < 64" "\<not> j + ?rb < 64 \<Longrightarrow> j - (64 - ?rb) = j + ?rb - 64" by auto
      show "bit (x ! k) j \<longleftrightarrow> (if j + ?rb < 64 then bit (f ! k) (j + ?rb) else k + 1 < length f \<and> bit (f ! (k + 1)) (j + ?rb - 64))"
      proof (cases "k + 1 < length f")
        case True
        show ?thesis unfolding xk if_P [OF True] bit_or_iff h l using True s kj(2) by auto
      next
        case no: False
        show ?thesis unfolding xk if_not_P [OF no] l using no by simp
      qed
    qed simp
    moreover have "words_val f = bn_nat a div 2 ^ (64 * ?nw)"
    proof -
      have "bn_nat a = words_val (take ?nw (bn_d a)) + 2 ^ (64 * ?nw) * words_val f"
        unfolding bn_nat_def f_def using T False by (intro words_val_split) simp_all
      moreover have "words_val (take ?nw (bn_d a)) < 2 ^ (64 * ?nw)" using words_val_less [of "take ?nw (bn_d a)"] T False by (simp add: min_absorb2)
      ultimately show ?thesis by simp
    qed
    moreover have "(2 :: nat) ^ n = 2 ^ (64 * ?nw) * 2 ^ ?rb" by (simp flip: power_add)
    ultimately have "words_val x = bn_nat a div 2 ^ n" by (simp add: div_mult2_eq)
    then have "bn_nat c = bn_nat a div 2 ^ n" unfolding c bn_nat_def using lx lf by simp
    moreover have "bn_fits c" using e lx lf unfolding c by (simp add: bn_fits_def)
    ultimately show ?thesis using e(5) unfolding c by simp
  qed
  then show "bn_fits c" "bn_nat c = bn_nat a div 2 ^ n" "bn_neg c \<longrightarrow> bn_neg a" "bn_flags c = bn_flags r"
    "bn_nat c \<noteq> 0 \<longrightarrow> bn_neg c = bn_neg a" "bn_top c = bn_top a - n div 64" by blast+
qed

subsection \<open>By one bit\<close>

lemma shift1_word:
  assumes "unat c \<le> 1"
  shows "unat (push_bit 1 t OR c) + 2 ^ 64 * unat (drop_bit 63 t) = 2 * unat t + unat c" "unat (drop_bit 63 (t :: u64)) \<le> 1"
proof -
  show "unat (drop_bit 63 t) \<le> 1" unfolding unat_drop using unat_u64 [of t] less_mult_imp_div_less [of "unat t" 2 "2 ^ 63"] by simp
  have "push_bit 1 t AND 1 = 0"
    by (rule bit_word_eqI) (simp only: bit_and_iff bit_push_bit_iff bit_1_iff, simp)
  then have "push_bit 1 t AND c = 0" using bit_word_cases [OF assms] by auto
  then have "push_bit 1 t OR c = push_bit 1 t + c" by (simp add: disjunctive_add_eq_or)
  moreover have p: "unat (push_bit 1 t) = 2 * unat t mod 2 ^ 64"
    by (simp only: unsigned_push_bit_eq) (simp add: take_bit_eq_mod push_bit_eq_mult mult.commute)
  moreover have ev: "2 * unat t mod 2 ^ 64 \<le> 2 ^ 64 - 2"
  proof -
    have "2 * unat t mod (2 * 2 ^ 63) = 2 * (unat t mod 2 ^ 63)" by (rule mult_mod_right [symmetric])
    moreover have "unat t mod 2 ^ 63 < 2 ^ 63" by simp
    ultimately show ?thesis by simp
  qed
  then have "unat (push_bit 1 t + c) = 2 * unat t mod 2 ^ 64 + unat c" using assms p by (subst unat_plus) simp_all
  moreover have "2 * unat t div 2 ^ 64 = unat t div 2 ^ 63"
    using div_mult_mult1 [of 2 "unat t" "2 ^ 63"] by simp
  ultimately show "unat (push_bit 1 t OR c) + 2 ^ 64 * unat (drop_bit 63 t) = 2 * unat t + unat c"
    using div_mult_mod_eq [of "2 * unat t" "2 ^ 64"] unfolding unat_drop by simp
qed

lemma lshift1_loop:
  "unat c \<le> 1 \<Longrightarrow> lshift1_loop ap c = (rp, c') \<Longrightarrow>
   length rp = length ap \<and> unat c' \<le> 1 \<and> words_val rp + 2 ^ (64 * length ap) * unat c' = 2 * words_val ap + unat c"
proof (induction ap c arbitrary: rp c' rule: lshift1_loop.induct)
  case (2 t ap c)
  obtain o1 where l: "lshift1_loop ap (drop_bit 63 t) = (o1, c')" "rp = (push_bit 1 t OR c) # o1"
    using "2.prems"(2) by (auto simp: and_MASK2 BN_BITS2_def split: prod.splits)
  have "length o1 = length ap \<and> unat c' \<le> 1 \<and> words_val o1 + 2 ^ (64 * length ap) * unat c' = 2 * words_val ap + unat (drop_bit 63 t)"
    using "2.IH" [of o1 c'] shift1_word(2) [OF "2.prems"(1)] l(1) by (simp add: BN_BITS2_def)
  then show ?case using shift1_word(1) [OF "2.prems"(1), of t] unfolding l(2) by (simp add: power_add algebra_simps)
qed simp

lemma BN_lshift1:
  assumes "bn_wf a" "bn_fits r" "BN_lshift1 alloc r a = Some c"
  shows "bn_wf c \<and> bn_val c = 2 * bn_val a \<and> bn_flags c = bn_flags r"
proof -
  let ?T = "bn_top a"
  have T: "?T \<le> length (bn_d a)" using assms(1) by (simp add: bn_wf_def bn_fits_def)
  obtain r1 where w: "bn_wexpand alloc r (?T + 1) = Some r1" using assms(3) unfolding BN_lshift1_def by auto
  note e = bn_wexpand [OF assms(2) w]
  obtain rp k where l: "lshift1_loop (take ?T (bn_d a)) 0 = (rp, k)" by fastforce
  have c: "c = r1\<lparr>bn_d := rp @ [k] @ drop (?T + 1) (bn_d r1), bn_top := ?T + unat k, bn_neg := bn_neg a\<rparr>"
    using assms(3) w l by (simp add: BN_lshift1_def)
  have v: "length rp = ?T" "unat k \<le> 1" "words_val rp + 2 ^ (64 * ?T) * unat k = 2 * bn_nat a"
    using lshift1_loop [OF _ l] T by (simp_all add: bn_nat_def)
  have k: "k = 0 \<or> k = 1" using v(2) by (rule bit_word_cases)
  have n: "bn_nat c = 2 * bn_nat a" using k v(1,3) unfolding c by (auto simp: bn_nat_def words_val_append)
  have f: "bn_fits c" using e(1,2) v(1) k unfolding c by (auto simp: bn_fits_def)
  have "0 < bn_top c \<longrightarrow> bn_d c ! (bn_top c - 1) \<noteq> 0"
  proof (cases "k = 0")
    case False
    then show ?thesis using k v(1) unfolding c by (auto simp: nth_append)
  next
    case True
    then have t: "bn_top c = ?T" unfolding c by simp
    have "2 ^ (64 * (?T - 1)) \<le> bn_nat a" if "0 < ?T" using bn_top_word [of a] assms(1) that by (simp add: bn_wf_def)
    then show ?thesis using bn_top_word [OF f] unfolding t n by fastforce
  qed
  moreover have "bn_top c = 0 \<longrightarrow> \<not> bn_neg c" using assms(1) unfolding c by (simp add: bn_wf_def)
  moreover have "bn_neg c = bn_neg a" "bn_flags c = bn_flags r" using e(5) unfolding c by simp_all
  ultimately show ?thesis using f n by (simp add: bn_wf_def bn_val_def)
qed

lemma rshift1_loop:
  "i \<le> length rp \<Longrightarrow> c = push_bit 63 (ap ! i) \<Longrightarrow> length (rshift1_loop ap i c rp) = length rp \<and>
   (\<forall>k < length rp. rshift1_loop ap i c rp ! k = (if k < i then drop_bit 1 (ap ! k) OR push_bit 63 (ap ! (k + 1)) else rp ! k))"
proof (induction i arbitrary: c rp)
  case (Suc i)
  let ?rp = "rp[i := drop_bit 1 (ap ! i) OR c]"
  have "length (rshift1_loop ap i (push_bit 63 (ap ! i)) ?rp) = length ?rp \<and>
    (\<forall>k < length ?rp. rshift1_loop ap i (push_bit 63 (ap ! i)) ?rp ! k =
      (if k < i then drop_bit 1 (ap ! k) OR push_bit 63 (ap ! (k + 1)) else ?rp ! k))"
    by (rule Suc.IH) (use Suc.prems in simp_all)
  then show ?case using Suc.prems by (auto simp: and_MASK2 BN_BITS2_def nth_list_update less_Suc_eq Let_def)
qed simp

lemma BN_rshift1:
  assumes "bn_wf a" "bn_fits r" "BN_rshift1 alloc r a = Some c"
  shows "bn_wf c \<and> bn_nat c = bn_nat a div 2 \<and> (bn_neg c \<longleftrightarrow> bn_neg a \<and> bn_nat c \<noteq> 0) \<and> bn_flags c = bn_flags r"
proof (cases "bn_top a = 0")
  case True
  then show ?thesis using assms BN_zero_ex [OF assms(2)] by (auto simp: BN_rshift1_def BN_is_zero_def bn_nat_def BN_zero_ex_def)
next
  case False
  let ?T = "bn_top a"
  have T: "?T \<le> length (bn_d a)" "bn_d a ! (?T - 1) \<noteq> 0" using assms(1) False by (simp_all add: bn_wf_def bn_fits_def)
  obtain r1 where w: "bn_wexpand alloc r ?T = Some r1" using assms(3) False unfolding BN_rshift1_def BN_is_zero_def by auto
  note e = bn_wexpand [OF assms(2) w]
  let ?t = "bn_d a ! (?T - 1)"
  define x where "x = rshift1_loop (bn_d a) (?T - 1) (push_bit 63 ?t) ((bn_d r1)[?T - 1 := drop_bit 1 ?t])"
  have c: "c = r1\<lparr>bn_d := x, bn_top := (if ?t = 1 then ?T - 1 else ?T), bn_neg := (if (if ?t = 1 then ?T - 1 else ?T) = 0 then False else bn_neg a)\<rparr>"
    using assms(3) w False by (simp add: BN_rshift1_def BN_is_zero_def Let_def BN_BITS2_def x_def)
  have l: "length x = length (bn_d r1)"
    and nx: "\<And>k. k < length (bn_d r1) \<Longrightarrow> x ! k = (if k < ?T - 1 then drop_bit 1 (bn_d a ! k) OR push_bit 63 (bn_d a ! (k + 1))
      else (bn_d r1)[?T - 1 := drop_bit 1 ?t] ! k)"
    using rshift1_loop [of "?T - 1" "(bn_d r1)[?T - 1 := drop_bit 1 ?t]" "push_bit 63 ?t" "bn_d a"] e(2) by (simp_all add: x_def)
  have "words_val (take ?T x) = words_val (take ?T (bn_d a)) div 2 ^ 1"
  proof (rule words_drop_bit)
    show "length (take ?T x) = length (take ?T (bn_d a))" using l T e(2) by simp
    fix k j :: nat assume "k < length (take ?T (bn_d a))" "j < 64"
    then have kj: "k < ?T" "j < 64" using T by simp_all
    have xk: "x ! k = (if k < ?T - 1 then drop_bit 1 (bn_d a ! k) OR push_bit 63 (bn_d a ! (k + 1)) else drop_bit 1 ?t)"
      using nx [of k] kj e(2) by (auto simp: nth_list_update)
    have hi: "bit w i \<Longrightarrow> i < 64" for w :: u64 and i by (drule bit_imp_le_length) simp
    have d: "bit (drop_bit 1 w) j \<longleftrightarrow> j + 1 < 64 \<and> bit w (j + 1)" for w :: u64
      using hi [of w "j + 1"] by (auto simp: bit_drop_bit_eq)
    have p: "bit (push_bit 63 w) j \<longleftrightarrow> \<not> j + 1 < 64 \<and> bit w (j + 1 - 64)" for w :: u64 using kj(2) by (auto simp: bit_simps)
    show "bit (take ?T x ! k) j \<longleftrightarrow> (if j + 1 < 64 then bit (take ?T (bn_d a) ! k) (j + 1)
        else k + 1 < length (take ?T (bn_d a)) \<and> bit (take ?T (bn_d a) ! (k + 1)) (j + 1 - 64))"
    proof (cases "k < ?T - 1")
      case True
      then show ?thesis using kj T unfolding nth_take [OF kj(1)] xk if_P [OF True] bit_or_iff d p by auto
    next
      case no: False
      then have "k = ?T - 1" using kj by simp
      then show ?thesis using kj T no unfolding nth_take [OF kj(1)] xk if_not_P [OF no] d by auto
    qed
  qed simp
  then have v: "words_val (take ?T x) = bn_nat a div 2" by (simp add: bn_nat_def)
  have "x ! (?T - 1) = drop_bit 1 ?t" using nx [of "?T - 1"] e(2) False by simp
  then have top: "x ! (?T - 1) = 0 \<longleftrightarrow> ?t = 1"
  proof -
    have "drop_bit 1 ?t = 0 \<longleftrightarrow> unat ?t div 2 ^ 1 = 0" by (metis unat_drop unat_eq_zero)
    also have "\<dots> \<longleftrightarrow> unat ?t = 1" using T(2) by (auto simp: div_eq_0_iff unat_eq_zero less_2_cases_iff)
    finally show ?thesis using \<open>x ! (?T - 1) = drop_bit 1 ?t\<close> by (simp add: word_unat_eq_iff)
  qed
  have lx: "?T \<le> length x" using l e(2) by simp
  have s: "words_val (take ?T x) = words_val (take (?T - 1) x) + 2 ^ (64 * (?T - 1)) * unat (x ! (?T - 1))"
    using words_val_take_Suc [of "?T - 1" x] lx False by simp
  have n: "bn_nat c = bn_nat a div 2"
  proof (cases "?t = 1")
    case True
    then have "words_val (take ?T x) = words_val (take (?T - 1) x)" using s top by simp
    then show ?thesis using v True unfolding c by (simp add: bn_nat_def)
  next
    case no: False
    then show ?thesis using v unfolding c by (simp add: bn_nat_def)
  qed
  have "bn_top c \<le> length x" using lx unfolding c by (auto intro: le_trans [OF diff_le_self])
  moreover have "bn_d c = x" unfolding c by simp
  ultimately have f: "bn_fits c" using e(1) l unfolding bn_fits_def by simp
  have "bn_d c ! (bn_top c - 1) \<noteq> 0" if "0 < bn_top c"
  proof (cases "?t = 1")
    case False
    then show ?thesis using top unfolding c by simp
  next
    case True
    then have t: "bn_top c = ?T - 1" "1 < ?T" using that unfolding c by simp_all
    have "2 ^ (64 * (?T - 1)) \<le> bn_nat a" using bn_top_word [of a] assms(1) False by (simp add: bn_wf_def)
    then have "2 ^ (64 * (?T - 1)) div 2 \<le> bn_nat c" unfolding n by (rule div_le_mono)
    moreover have "2 ^ (64 * (bn_top c - 1)) \<le> 2 ^ (64 * (?T - 1)) div (2 :: nat)"
    proof -
      have "64 * (?T - 1) = Suc (64 * (?T - 1) - 1)" using t by simp
      then have "2 ^ (64 * (?T - 1)) div (2 :: nat) = 2 ^ (64 * (?T - 1) - 1)" by (metis nonzero_mult_div_cancel_left power_Suc zero_neq_numeral)
      then show ?thesis using t by (simp add: power_increasing)
    qed
    ultimately show ?thesis using bn_top_word [OF f that] by linarith
  qed
  then have w: "bn_wf c" using f unfolding c by (auto simp: bn_wf_def)
  have "bn_neg c \<longleftrightarrow> bn_neg a \<and> bn_top c \<noteq> 0" unfolding c by simp
  then show ?thesis using w n bn_nat_words(1) [OF w] e(5) unfolding c by simp
qed

lemma BN_lshift:
  assumes "bn_wf a" "bn_fits r" "BN_lshift alloc r a (int n) = Some c"
  shows "bn_wf c \<and> bn_val c = bn_val a * 2 ^ n \<and> bn_flags c = bn_flags r \<and> bn_top c \<le> bn_top a + n div 64 + 1"
proof -
  obtain d where d: "bn_lshift_fixed_top alloc r a n = Some d" "c = bn_correct_top d" using assms(3) by (auto simp: BN_lshift_def)
  have fa: "bn_fits a" using assms(1) by (simp add: bn_wf_def)
  note l = bn_lshift_fixed_top [OF fa assms(2) d(1)]
  note t = bn_correct_top [OF l(1)] bn_neg_correct_top [OF l(1)]
  have "bn_neg a \<Longrightarrow> bn_nat a \<noteq> 0" using bn_neg_nat [OF assms(1)] by simp
  moreover have "bn_top c \<le> bn_top d" unfolding d(2) using top_loop [of "bn_top d" "bn_d d"] l(1) by (simp add: bn_correct_top_def bn_fits_def Let_def)
  ultimately show ?thesis using t l unfolding d(2) by (auto simp: bn_val_def)
qed

lemma BN_rshift:
  assumes "bn_wf a" "bn_fits r" "BN_rshift alloc r a (int n) = Some c"
  shows "bn_wf c \<and> bn_nat c = bn_nat a div 2 ^ n \<and> (bn_neg c \<longleftrightarrow> bn_neg a \<and> bn_nat c \<noteq> 0) \<and> bn_flags c = bn_flags r"
proof -
  obtain d where d: "bn_rshift_fixed_top alloc r a n = Some d" "c = bn_correct_top d" using assms(3) by (auto simp: BN_rshift_def)
  have fa: "bn_fits a" using assms(1) by (simp add: bn_wf_def)
  note l = bn_rshift_fixed_top [OF fa assms(2) d(1)]
  show ?thesis using bn_correct_top [OF l(1)] bn_neg_correct_top [OF l(1)] l unfolding d(2) by auto
qed

text \<open>C37: the shifts multiply and divide by powers of two: to the left the value is multiplied, to the right the magnitude is
  divided and the sign kept unless nothing is left; the results are in normal form. A negative count fails.\<close>

theorem bn_shifts:
  assumes "bn_wf a" "bn_fits r"
  shows "(\<forall>c. BN_lshift alloc r a (int n) = Some c \<longrightarrow> bn_wf c \<and> bn_val c = bn_val a * 2 ^ n) \<and>
    (\<forall>c. BN_lshift1 alloc r a = Some c \<longrightarrow> bn_wf c \<and> bn_val c = 2 * bn_val a) \<and>
    (\<forall>c. BN_rshift alloc r a (int n) = Some c \<longrightarrow> bn_wf c \<and> bn_val c = sgn (bn_val a) * (\<bar>bn_val a\<bar> div 2 ^ n)) \<and>
    (\<forall>c. BN_rshift1 alloc r a = Some c \<longrightarrow> bn_wf c \<and> bn_val c = sgn (bn_val a) * (\<bar>bn_val a\<bar> div 2)) \<and>
    (i < 0 \<longrightarrow> BN_lshift alloc r a i = None \<and> BN_rshift alloc r a i = None) \<and>
    (bn_top a + n div 64 + 1 \<le> length (bn_d r) \<longrightarrow> (\<exists>x y. BN_lshift alloc r a (int n) = Some x \<and> BN_rshift alloc r a (int n) = Some y))"
proof -
  have s: "bn_val c = sgn (bn_val a) * (\<bar>bn_val a\<bar> div 2 ^ k)" if "bn_nat c = bn_nat a div 2 ^ k" "bn_neg c \<longleftrightarrow> bn_neg a \<and> bn_nat c \<noteq> 0" for c k
  proof -
    have "\<bar>bn_val a\<bar> div 2 ^ k = int (bn_nat c)" using that(1) by (simp add: bn_val_def zdiv_int)
    moreover have "bn_val c = (if bn_neg a then - int (bn_nat c) else int (bn_nat c))" using that(2) by (auto simp: bn_val_def)
    moreover have "bn_nat a = 0 \<Longrightarrow> bn_nat c = 0" using that(1) by simp
    ultimately show ?thesis by (auto simp: bn_val_def sgn_if)
  qed
  have "\<exists>x y. BN_lshift alloc r a (int n) = Some x \<and> BN_rshift alloc r a (int n) = Some y" if "bn_top a + n div 64 + 1 \<le> length (bn_d r)"
  proof -
    have "bn_top a - n div 64 \<le> length (bn_d r)" using that by linarith
    then show ?thesis
      using that by (simp add: BN_lshift_def BN_rshift_def bn_lshift_fixed_top_def bn_rshift_fixed_top_def bn_wexpand_def BN_BITS2_def Let_def)
  qed
  moreover have "i < 0 \<longrightarrow> BN_lshift alloc r a i = None \<and> BN_rshift alloc r a i = None" by (simp add: BN_lshift_def BN_rshift_def)
  ultimately show ?thesis
    using BN_lshift [OF assms] BN_lshift1 [OF assms] BN_rshift [OF assms] BN_rshift1 [OF assms] s [of _ n] s [of _ 1] by auto
qed

theorem bn_shifts_witness:
  "\<exists>x y. BN_lshift True \<lparr>bn_d = [0, 0], bn_top = 0, bn_neg = False, bn_flags = 0\<rparr> BN_value_one (int 3) = Some x \<and> bn_val x = 8 \<and>
     BN_rshift True \<lparr>bn_d = [0, 0], bn_top = 0, bn_neg = False, bn_flags = 0\<rparr> BN_value_one (int 3) = Some y \<and> bn_val y = 0 \<and>
     BN_lshift True \<lparr>bn_d = [0, 0], bn_top = 0, bn_neg = False, bn_flags = 0\<rparr> BN_value_one (- 1) = None"
proof -
  let ?r = "\<lparr>bn_d = [0, 0], bn_top = 0, bn_neg = False, bn_flags = 0\<rparr>"
  have r: "bn_fits ?r" "bn_top BN_value_one + 3 div 64 + 1 \<le> length (bn_d ?r)" "bn_val BN_value_one = 1"
    by (simp_all add: bn_fits_def BN_value_one_def bn_val_def bn_nat_def INT_MAX_def BN_BITS2_def)
  note h = bn_shifts [OF one_wf r(1), of True 3 "- 1"]
  obtain x y where e: "BN_lshift True ?r BN_value_one (int 3) = Some x" "BN_rshift True ?r BN_value_one (int 3) = Some y" using h r(2) by blast
  have "bn_val x = bn_val BN_value_one * 2 ^ 3" "bn_val y = sgn (bn_val BN_value_one) * (\<bar>bn_val BN_value_one\<bar> div 2 ^ 3)" using h e by blast+
  moreover have "BN_lshift True ?r BN_value_one (- 1) = None" using h by simp
  ultimately show ?thesis using e r(3) by simp
qed

end
