(* ===== verification/BnDivWord.thy ===== *)
theory BnDivWord
  imports BnAsmProps
begin

text \<open>
  The division of two words by one, \<open>bn_div_words\<close>: its inner loop always ends, the corrections of the two half
  digits are enough, and the result is the quotient.
\<close>

lemma unat_or_shift:
  assumes "unat x * 2 ^ k < 2 ^ 64" "unat y < 2 ^ k" "k \<le> 64"
  shows "unat (push_bit k x OR y :: u64) = unat x * 2 ^ k + unat y"
proof -
  have p: "unat (push_bit k x) = unat x * 2 ^ k"
    using assms(1) by (simp only: unsigned_push_bit_eq) (simp add: take_bit_nat_eq_self push_bit_eq_mult)
  have "\<not> bit y j" if "k \<le> j" for j
  proof -
    have "unat y < 2 ^ j" using assms(2) that by (meson less_le_trans power_increasing one_le_numeral)
    then show ?thesis using bit_unsigned_iff [where 'a = nat, of y j] by (simp add: bit_iff_odd)
  qed
  then have "push_bit k x AND y = 0" by (intro bit_word_eqI) (auto simp: bit_simps)
  then have "push_bit k x OR y = push_bit k x + y" by (simp add: disjunctive_add_eq_or)
  moreover have "unat (push_bit k x + y) = unat x * 2 ^ k + unat y"
  proof -
    have "unat x * 2 ^ k + 2 ^ k \<le> 2 ^ 64"
    proof -
      obtain j where j: "64 = j + k" using assms(3) by (metis le_add_diff_inverse2)
      have "unat x < 2 ^ j" using assms(1) unfolding j power_add by simp
      then have "(unat x + 1) * 2 ^ k \<le> 2 ^ j * 2 ^ k" by (intro mult_le_mono1) simp
      then show ?thesis unfolding j power_add by simp
    qed
    then show ?thesis using unat_plus [of "push_bit k x" y] assms(2) unfolding p by linarith
  qed
  ultimately show ?thesis by simp
qed

lemma high_half: "w AND BN_MASK2h \<noteq> 0 \<longleftrightarrow> 2 ^ 32 \<le> unat w" "drop_bit BN_BITS4 (w AND BN_MASK2h) = word_of_nat (unat w div 2 ^ 32)"
proof -
  have k: "BN_MASK2h = NOT (mask 32)" by (simp add: BN_MASK2h_def mask_eq_exp_minus_1)
  have m: "w AND BN_MASK2h = push_bit 32 (drop_bit 32 w)" unfolding k by (rule bit_word_eqI) (auto simp: bit_simps simp del: mask_numeral)
  have d: "drop_bit 32 (w AND BN_MASK2h) = drop_bit 32 w" unfolding m by (rule bit_word_eqI) (auto simp: bit_simps dest: bit_imp_le_length)
  then show "drop_bit BN_BITS4 (w AND BN_MASK2h) = word_of_nat (unat w div 2 ^ 32)" by (simp only: BN_BITS4_def drop_of_nat)
  have "w AND BN_MASK2h = 0 \<longleftrightarrow> drop_bit 32 w = 0" using d unfolding m by (metis drop_bit_of_0 push_bit_of_0)
  also have "\<dots> \<longleftrightarrow> unat w div 2 ^ 32 = 0" by (metis unat_drop unat_eq_zero)
  finally show "w AND BN_MASK2h \<noteq> 0 \<longleftrightarrow> 2 ^ 32 \<le> unat w" by (simp add: div_eq_0_iff not_less)
qed

subsection \<open>The loop\<close>

lemma div_adjust:
  assumes "2 ^ 31 \<le> unat dh" "unat dh < 2 ^ 32" "unat dl < 2 ^ 32"
    and "unat q < 2 ^ 32" "unat q * unat dh \<le> unat h" "unat th = unat q * unat dh" "unat tlo = unat q * unat dl"
    and "(unat h * 2 ^ 32 + unat l div 2 ^ 32) div (unat dh * 2 ^ 32 + unat dl) \<le> unat q"
  shows "\<exists>q' th' tl'. div_adjust dh dl h l q th tlo = Some (q', th', tl') \<and>
    unat q' = (unat h * 2 ^ 32 + unat l div 2 ^ 32) div (unat dh * 2 ^ 32 + unat dl) \<and>
    unat th' = unat q' * unat dh \<and> unat tl' = unat q' * unat dl"
  using assms(4-)
proof (induction "unat q" arbitrary: q th tlo rule: less_induct)
  case less
  let ?N = "unat h * 2 ^ 32 + unat l div 2 ^ 32" and ?D = "unat dh * 2 ^ 32 + unat dl"
  define t where "t = h - th"
  have t: "unat t + unat q * unat dh = unat h" using less.prems(2,3) by (simp add: t_def unat_sub word_le_nat_alt)
  have qD: "unat q * ?D = unat q * unat dh * 2 ^ 32 + unat q * unat dl" by (simp only: distrib_left mult.assoc)
  have N: "?N = unat t * 2 ^ 32 + unat q * unat dh * 2 ^ 32 + unat l div 2 ^ 32" by (simp only: t [symmetric] distrib_right)
  have lhi: "unat l div 2 ^ 32 < 2 ^ 32" using unat_u64 [of l] by (simp add: less_mult_imp_div_less)
  have ql: "unat q * unat dl < 2 ^ 32 * 2 ^ 32" using less.prems(1) assms(3) by (intro mult_strict_mono) simp_all
  have cond: "t AND BN_MASK2h \<noteq> 0 \<or> tlo \<le> push_bit BN_BITS4 t OR drop_bit BN_BITS4 (l AND BN_MASK2h) \<longleftrightarrow> unat q * ?D \<le> ?N"
  proof (cases "2 ^ 32 \<le> unat t")
    case True
    then have "2 ^ 32 * 2 ^ 32 \<le> unat t * 2 ^ 32" by (rule mult_le_mono1)
    then have "unat q * unat dl \<le> unat t * 2 ^ 32" using ql by (rule less_imp_le [OF less_le_trans, rotated])
    then have "unat q * ?D \<le> ?N" unfolding qD N by linarith
    then show ?thesis using True high_half(1) [of t] by blast
  next
    case False
    have u: "unat (word_of_nat (unat l div 2 ^ 32) :: u64) = unat l div 2 ^ 32" using lhi by (intro unatI) simp_all
    have "unat (push_bit 32 t OR word_of_nat (unat l div 2 ^ 32)) = unat t * 2 ^ 32 + unat (word_of_nat (unat l div 2 ^ 32) :: u64)"
      by (rule unat_or_shift) (use False lhi u in simp_all)
    then have "unat (push_bit 32 t OR word_of_nat (unat l div 2 ^ 32)) = unat t * 2 ^ 32 + unat l div 2 ^ 32" by (simp only: u)
    then have "tlo \<le> push_bit BN_BITS4 t OR drop_bit BN_BITS4 (l AND BN_MASK2h) \<longleftrightarrow> unat q * unat dl \<le> unat t * 2 ^ 32 + unat l div 2 ^ 32"
      by (simp only: word_le_nat_alt less.prems(4) high_half(2)) (simp only: BN_BITS4_def)
    also have "\<dots> \<longleftrightarrow> unat q * ?D \<le> ?N" unfolding qD N by linarith
    finally show ?thesis using False high_half(1) [of t] by blast
  qed
  have D: "0 < ?D" using assms(1) by simp
  show ?case
  proof (cases "unat q * ?D \<le> ?N")
    case True
    then have "unat q \<le> ?N div ?D" using D by (simp only: less_eq_div_iff_mult_less_eq)
    then have "unat q = ?N div ?D" using less.prems(5) by linarith
    moreover have "div_adjust dh dl h l q th tlo = Some (q, th, tlo)"
      using True cond by (subst div_adjust.simps) (simp only: Let_def t_def [symmetric] if_True)
    ultimately show ?thesis using less.prems(3,4) by metis
  next
    case False
    then have lt: "?N div ?D < unat q" using D by (simp only: not_le div_less_iff_less_mult)
    then have q1: "unat (q - 1) = unat q - 1" "0 < unat q" by (simp_all add: unat_sub word_le_nat_alt)
    have s: "unat (th - dh) = unat (q - 1) * unat dh" "unat (tlo - dl) = unat (q - 1) * unat dl"
      using less.prems(3,4) q1 by (simp_all add: unat_sub word_le_nat_alt diff_mult_distrib)
    have "div_adjust dh dl h l q th tlo = div_adjust dh dl h l (q - 1) (th - dh) (tlo - dl)"
      using False cond by (subst div_adjust.simps) (simp only: Let_def t_def [symmetric] if_False)
    moreover have "unat (q - 1) * unat dh \<le> unat h" using less.prems(2) q1 by (simp add: diff_mult_distrib)
    ultimately show ?thesis using less.hyps [of "q - 1" "th - dh" "tlo - dl"] q1 s lt less.prems(1) by auto
  qed
qed

lemma push_high: "push_bit BN_BITS4 w AND BN_MASK2h = L2HBITS w"
proof -
  have k: "BN_MASK2h = NOT (mask 32)" by (simp add: BN_MASK2h_def mask_eq_exp_minus_1)
  show ?thesis
    unfolding L2HBITS_def and_MASK2 BN_BITS4_def k by (rule bit_word_eqI) (auto simp: bit_simps simp del: mask_numeral)
qed

lemma first_digit:
  assumes "2 ^ 31 \<le> dh" "dh = d div 2 ^ 32" "h < d" "d < 2 ^ 64" "lhi < 2 ^ 32"
    and "q = (if h div 2 ^ 32 = dh then 2 ^ 32 - 1 else h div dh)"
  shows "q < 2 ^ 32" "q * dh \<le> h" "(h * 2 ^ 32 + lhi) div d \<le> (q :: nat)"
proof -
  have le: "h div 2 ^ 32 \<le> dh" unfolding assms(2) using assms(3) by (intro div_le_mono) simp
  have dd: "dh * 2 ^ 32 \<le> d" unfolding assms(2) by (rule div_times_less_eq_dividend)
  have "q < 2 ^ 32 \<and> q * dh \<le> h \<and> (h * 2 ^ 32 + lhi) div d \<le> q"
  proof (cases "h div 2 ^ 32 = dh")
    case True
    have "q * dh \<le> dh * 2 ^ 32" using True assms(6) by (simp add: mult.commute)
    also have "\<dots> \<le> h" unfolding True [symmetric] by (rule div_times_less_eq_dividend)
    finally have "q * dh \<le> h" .
    moreover have "(h + 1) * 2 ^ 32 \<le> d * 2 ^ 32" using assms(3) by (intro mult_le_mono1) simp
    then have "h * 2 ^ 32 + lhi < d * 2 ^ 32" using assms(5) by simp
    then have "h * 2 ^ 32 + lhi < 2 ^ 32 * d" by (simp only: mult.commute)
    then have "(h * 2 ^ 32 + lhi) div d < 2 ^ 32" by (rule less_mult_imp_div_less)
    ultimately show ?thesis using True assms(6) by simp
  next
    case False
    then have "h div 2 ^ 32 < dh" using le by simp
    then have "h < 2 ^ 32 * dh" by (simp add: div_less_iff_less_mult mult.commute)
    then have "h div dh < 2 ^ 32" by (rule less_mult_imp_div_less)
    moreover have "(h * 2 ^ 32 + lhi) div d \<le> (h * 2 ^ 32 + lhi) div (2 ^ 32 * dh)" using dd assms(1) by (intro div_le_mono2) simp_all
    moreover have "(h * 2 ^ 32 + lhi) div (2 ^ 32 * dh) = h div dh" using assms(5) by (simp add: div_mult2_eq)
    moreover have "h div dh * dh \<le> h" by (rule div_times_less_eq_dividend)
    ultimately show ?thesis using False assms(6) by simp
  qed
  then show "q < 2 ^ 32" "q * dh \<le> h" "(h * 2 ^ 32 + lhi) div d \<le> q" by blast+
qed

lemma mul_halves: "x * 2 ^ 32 = x div 2 ^ 32 * 2 ^ 64 + x mod 2 ^ 32 * 2 ^ 32" for x :: nat
proof -
  have "x * 2 ^ 32 = (x div 2 ^ 32 * 2 ^ 32 + x mod 2 ^ 32) * 2 ^ 32" by (simp only: div_mult_mod_eq)
  also have "\<dots> = x div 2 ^ 32 * 2 ^ 64 + x mod 2 ^ 32 * 2 ^ 32" by (simp only: distrib_right mult.assoc) simp
  finally show ?thesis .
qed

lemma div_digit:
  assumes "2 ^ 63 \<le> unat d" "unat h < unat d"
  shows "\<exists>q h' l'. div_digit d h l = Some (q, h', l') \<and> unat q = (unat h * 2 ^ 32 + unat l div 2 ^ 32) div unat d \<and> unat q < 2 ^ 32 \<and>
    unat h' * 2 ^ 64 + unat l' + unat q * unat d * 2 ^ 32 = unat h * 2 ^ 64 + unat l"
proof -
  define dh dl where "dh = drop_bit BN_BITS4 (d AND BN_MASK2h)" and "dl = d AND BN_MASK2l"
  have d64: "unat d < 2 ^ 64" by (rule unat_u64)
  have "unat d div 2 ^ 32 < 2 ^ 32" using d64 by (intro less_mult_imp_div_less) simp
  then have dh: "unat dh = unat d div 2 ^ 32" unfolding dh_def high_half(2) by (intro unatI [OF refl]) simp
  have dl: "unat dl = unat d mod 2 ^ 32" by (simp only: dl_def MASK2l unat_mask)
  have dh31: "2 ^ 31 \<le> unat dh" unfolding dh using div_le_mono [OF assms(1), of "2 ^ 32"] by simp
  have D: "unat dh * 2 ^ 32 + unat dl = unat d" unfolding dh dl by (rule div_mult_mod_eq)
  define q0 where "q0 = (if drop_bit BN_BITS4 h = dh then BN_MASK2l else h div dh)"
  have "drop_bit BN_BITS4 h = dh \<longleftrightarrow> unat h div 2 ^ 32 = unat dh" by (simp only: word_unat_eq_iff BN_BITS4_def unat_drop)
  then have q0: "unat q0 = (if unat h div 2 ^ 32 = unat dh then 2 ^ 32 - 1 else unat h div unat dh)"
    by (simp add: q0_def unat_div BN_MASK2l_def)
  have lhi: "unat l div 2 ^ 32 < 2 ^ 32" using unat_u64 [of l] by (simp add: less_mult_imp_div_less)
  note f = first_digit [OF dh31 dh assms(2) d64 lhi q0]
  have dl32: "unat dl < 2 ^ 32" "unat dh < 2 ^ 32" using \<open>unat d div 2 ^ 32 < 2 ^ 32\<close> dh dl by simp_all
  have "unat q0 * unat dh < 2 ^ 64" using f(2) unat_u64 [of h] by linarith
  then have th: "unat (q0 * dh) = unat q0 * unat dh" by (rule unat_times)
  have "unat dl * unat q0 < 2 ^ 64" using half_prod [OF dl32(1) f(1)] by simp
  then have tl: "unat (dl * q0) = unat q0 * unat dl" by (simp only: unat_times) (simp only: mult.commute)
  obtain q th tlo where a: "div_adjust dh dl h l q0 (q0 * dh) (dl * q0) = Some (q, th, tlo)"
    "unat q = (unat h * 2 ^ 32 + unat l div 2 ^ 32) div unat d" "unat th = unat q * unat dh" "unat tlo = unat q * unat dl"
    using div_adjust [OF dh31 dl32(2,1) f(1,2) th tl, unfolded D, OF f(3)] by blast
  have q32: "unat q < 2 ^ 32" using f(1,3) a(2) by linarith
  define s where "s = L2HBITS tlo"
  have su: "unat s = unat q * unat dl mod 2 ^ 32 * 2 ^ 32" unfolding s_def unat_L2HBITS a(4) ..
  have tu: "unat (drop_bit BN_BITS4 tlo) = unat q * unat dl div 2 ^ 32" by (simp only: BN_BITS4_def unat_drop a(4))
  let ?A = "unat q * unat dh + unat q * unat dl div 2 ^ 32"
  have Q: "unat q * unat d * 2 ^ 32 = ?A * 2 ^ 64 + unat s"
  proof -
    have "unat q * unat d * 2 ^ 32 = unat q * unat dh * 2 ^ 64 + unat q * unat dl * 2 ^ 32"
      unfolding D [symmetric] by (simp add: distrib_left distrib_right)
    then show ?thesis unfolding su distrib_right mul_halves [of "unat q * unat dl"] by linarith
  qed
  have "unat q * unat d \<le> unat h * 2 ^ 32 + unat l div 2 ^ 32" unfolding a(2) by (rule div_times_less_eq_dividend)
  then have "unat q * unat d * 2 ^ 32 \<le> (unat h * 2 ^ 32 + unat l div 2 ^ 32) * 2 ^ 32" by (rule mult_le_mono1)
  also have "\<dots> \<le> unat h * 2 ^ 64 + unat l" using div_times_less_eq_dividend [of "unat l" "2 ^ 32"] by (simp add: distrib_right)
  finally have R: "?A * 2 ^ 64 + unat s \<le> unat h * 2 ^ 64 + unat l" unfolding Q .
  have less: "l < s \<longleftrightarrow> unat l < unat s" by (rule word_less_nat_alt)
  have A: "?A + of_bool (l < s) \<le> unat h" using R unat_u64 [of l] less by (cases "l < s") simp_all
  define t where "t = th + drop_bit BN_BITS4 tlo + of_bool (l < s)"
  have t: "unat t = ?A + of_bool (l < s)"
  proof (rule unatI)
    have "th = word_of_nat (unat q * unat dh)" "drop_bit BN_BITS4 tlo = word_of_nat (unat q * unat dl div 2 ^ 32)"
      by (simp_all only: a(3) [symmetric] tu [symmetric] unat_inverse)
    then show "t = word_of_nat (?A + of_bool (l < s))" unfolding t_def by (simp only: of_nat_add) simp
    show "?A + of_bool (l < s) < 2 ^ 64" using A unat_u64 [of h] by (rule le_less_trans)
  qed
  have lb: "unat (l - s) + unat s = unat l + 2 ^ 64 * of_bool (l < s)" by (rule sub_borrow_nat)
  obtain x where x: "unat h = ?A + of_bool (l < s) + x" using A less_eqE by blast
  have hb: "unat (h - t) = x" using x t by (simp add: unat_sub word_le_nat_alt)
  have "div_digit d h l = Some (q, h - t, l - s)"
  proof -
    have "\<not> h < t" using A t by (simp add: word_less_nat_alt)
    then show ?thesis unfolding div_digit_def Let_def dh_def [symmetric] dl_def [symmetric] q0_def [symmetric] a(1) push_high
      by (simp add: s_def [symmetric] t_def [symmetric] if_add_1 del: of_bool_eq)
  qed
  moreover have "unat (h - t) * 2 ^ 64 + unat (l - s) + unat q * unat d * 2 ^ 32 = unat h * 2 ^ 64 + unat l"
    unfolding Q hb x distrib_right using lb unfolding mult.commute [of "2 ^ 64" "of_bool (l < s)"] by linarith
  ultimately show ?thesis using a(2) q32 by blast
qed

subsection \<open>Both digits\<close>

lemma BN_num_bits_word_div: "d \<noteq> 0 \<Longrightarrow> BN_num_bits_word d \<le> 64 \<and> 2 ^ 63 \<le> unat d * 2 ^ (64 - BN_num_bits_word d) \<and> unat d * 2 ^ (64 - BN_num_bits_word d) < 2 ^ 64"
proof -
  assume "d \<noteq> 0"
  let ?k = "bit_len (unat d)"
  have k: "?k \<le> 64" "unat d < 2 ^ ?k" using unat_u64 [of d] bit_len_le [of "unat d"] by blast+
  have "0 < ?k" using \<open>d \<noteq> 0\<close> by (simp add: unat_eq_zero neq0_conv [symmetric] del: neq0_conv)
  then have "\<not> ?k \<le> ?k - 1" by simp
  then have "2 ^ (?k - 1) \<le> unat d" unfolding bit_len_le by simp
  then have lo: "2 ^ (?k - 1) * 2 ^ (64 - ?k) \<le> unat d * 2 ^ (64 - ?k)" by (rule mult_le_mono1)
  have "?k - 1 + (64 - ?k) = 63" using k(1) \<open>0 < ?k\<close> by simp
  then have l: "2 ^ (?k - 1) * 2 ^ (64 - ?k) = (2 :: nat) ^ 63" by (simp only: power_add [symmetric])
  have hi: "unat d * 2 ^ (64 - ?k) < 2 ^ ?k * 2 ^ (64 - ?k)" using k(2) by simp
  have h: "2 ^ ?k * 2 ^ (64 - ?k) = (2 :: nat) ^ 64" using k(1) by (simp only: power_add [symmetric]) simp
  show ?thesis unfolding BN_num_bits_word using k(1) lo [unfolded l] hi [unfolded h] by blast
qed

lemma unat_push: "unat w * 2 ^ k < 2 ^ 64 \<Longrightarrow> unat (push_bit k w :: u64) = unat w * 2 ^ k"
  by (simp only: unsigned_push_bit_eq) (simp add: take_bit_nat_eq_self push_bit_eq_mult)

text \<open>Both words of a number shifted to the left by less than a word.\<close>

lemma shift_two_words:
  fixes h l :: u64
  assumes "0 < i" "i < 64" "(unat h * 2 ^ 64 + unat l) * 2 ^ i < 2 ^ 64 * 2 ^ 64"
  shows "unat (push_bit i h OR drop_bit (64 - i) l) * 2 ^ 64 + unat (push_bit i l) = (unat h * 2 ^ 64 + unat l) * 2 ^ i"
proof -
  have p: "(2 :: nat) ^ 64 = 2 ^ (64 - i) * 2 ^ i" using assms(2) by (simp only: power_add [symmetric]) simp
  have "unat l < 2 ^ i * 2 ^ (64 - i)" using unat_u64 [of l] unfolding p by (simp only: mult.commute)
  then have top: "unat (drop_bit (64 - i) l) < 2 ^ i" unfolding unat_drop by (metis less_mult_imp_div_less mult.commute)
  have "unat h * 2 ^ i * 2 ^ 64 < 2 ^ 64 * 2 ^ 64" using assms(3) by (simp add: algebra_simps)
  then have "unat h * 2 ^ i < 2 ^ 64" by (simp only: mult_less_cancel2)
  then have h: "unat (push_bit i h OR drop_bit (64 - i) l) = unat h * 2 ^ i + unat (drop_bit (64 - i) l)"
    using top assms(2) by (intro unat_or_shift) simp_all
  have "unat (push_bit i l) = unat l * 2 ^ i mod (2 ^ (64 - i) * 2 ^ i)"
    unfolding p [symmetric] by (simp only: unsigned_push_bit_eq) (simp add: take_bit_eq_mod push_bit_eq_mult)
  also have "\<dots> = unat l mod 2 ^ (64 - i) * 2 ^ i" by (rule mult_mod_left [symmetric])
  finally have l: "unat (push_bit i l) = unat l mod 2 ^ (64 - i) * 2 ^ i" .
  have "unat l = unat l div 2 ^ (64 - i) * 2 ^ (64 - i) + unat l mod 2 ^ (64 - i)" by (rule div_mult_mod_eq [symmetric])
  then have "unat l * 2 ^ i = unat l div 2 ^ (64 - i) * (2 ^ (64 - i) * 2 ^ i) + unat l mod 2 ^ (64 - i) * 2 ^ i"
    by (metis distrib_right mult.assoc)
  then have e: "unat l * 2 ^ i = unat l div 2 ^ (64 - i) * 2 ^ 64 + unat l mod 2 ^ (64 - i) * 2 ^ i" unfolding p .
  have c: "unat h * 2 ^ i * 2 ^ 64 = unat h * 2 ^ 64 * 2 ^ i" by (simp only: ac_simps)
  show ?thesis unfolding h l unat_drop distrib_right c e by (rule add.assoc)
qed

lemma bn_div_words:
  assumes "unat h < unat d"
  shows "\<exists>q. bn_div_words h l d = Some q \<and> unat q = (unat h * 2 ^ 64 + unat l) div unat d"
proof -
  have d0: "d \<noteq> 0" using assms by (auto simp flip: unat_eq_zero)
  define i where "i = BN_BITS2 - BN_num_bits_word d"
  note nb = BN_num_bits_word_div [OF d0, folded BN_BITS2_def]
  have i: "2 ^ 63 \<le> unat d * 2 ^ i" "unat d * 2 ^ i < 2 ^ 64" using nb by (simp_all add: i_def BN_BITS2_def)
  have "0 < unat d" using assms by simp
  then have "2 ^ i \<le> unat d * 2 ^ i" by simp
  then have "2 ^ i < (2 :: nat) ^ 64" using i(2) by (rule le_less_trans)
  then have i64: "i < 64" by (simp only: power_strict_increasing_iff)
  define D where "D = push_bit i d"
  have D: "unat D = unat d * 2 ^ i" unfolding D_def by (rule unat_push [OF i(2)])
  have "unat h * 2 ^ 64 + unat l < unat d * 2 ^ 64"
  proof -
    have "(unat h + 1) * 2 ^ 64 \<le> unat d * 2 ^ 64" using assms by (intro mult_le_mono1) simp
    then show ?thesis using unat_u64 [of l] by simp
  qed
  then have "(unat h * 2 ^ 64 + unat l) * 2 ^ i < unat d * 2 ^ 64 * 2 ^ i" by simp
  then have R: "(unat h * 2 ^ 64 + unat l) * 2 ^ i < unat D * 2 ^ 64" unfolding D by (simp only: ac_simps)
  define H L where "H = (if i \<noteq> 0 then push_bit i h OR drop_bit (BN_BITS2 - i) l else h)" and "L = (if i \<noteq> 0 then push_bit i l else l)"
  have "unat D * 2 ^ 64 < 2 ^ 64 * 2 ^ 64" using unat_u64 [of D] by (simp only: mult_less_cancel2) simp
  then have HL: "unat H * 2 ^ 64 + unat L = (unat h * 2 ^ 64 + unat l) * 2 ^ i"
    using shift_two_words [of i h l] i64 R by (cases "i = 0") (simp_all add: H_def L_def BN_BITS2_def)
  have "unat H * 2 ^ 64 < unat D * 2 ^ 64" using R unfolding HL [symmetric] by linarith
  then have HD: "unat H < unat D" by (simp only: mult_less_cancel2)
  have D63: "2 ^ 63 \<le> unat D" using i(1) D by simp
  obtain q1 h1 l1 where 1: "div_digit D H L = Some (q1, h1, l1)" "unat q1 < 2 ^ 32"
    "unat q1 = (unat H * 2 ^ 32 + unat L div 2 ^ 32) div unat D"
    "unat h1 * 2 ^ 64 + unat l1 + unat q1 * unat D * 2 ^ 32 = unat H * 2 ^ 64 + unat L"
    using div_digit [OF D63 HD, of L] by blast
  let ?rem = "unat h1 * 2 ^ 64 + unat l1"
  have rem: "?rem < unat D * 2 ^ 32"
  proof -
    let ?N = "unat H * 2 ^ 32 + unat L div 2 ^ 32"
    have "unat H * 2 ^ 64 + unat L = ?N * 2 ^ 32 + unat L mod 2 ^ 32"
    proof -
      have "unat L = unat L div 2 ^ 32 * 2 ^ 32 + unat L mod 2 ^ 32" by (rule div_mult_mod_eq [symmetric])
      then show ?thesis by (simp add: distrib_right)
    qed
    moreover have "?N = unat q1 * unat D + ?N mod unat D" unfolding 1(3) by (rule div_mult_mod_eq [symmetric])
    then have "?N * 2 ^ 32 = unat q1 * unat D * 2 ^ 32 + ?N mod unat D * 2 ^ 32" by (metis distrib_right)
    ultimately have "?rem = ?N mod unat D * 2 ^ 32 + unat L mod 2 ^ 32" using 1(4) by linarith
    moreover have "(?N mod unat D + 1) * 2 ^ 32 \<le> unat D * 2 ^ 32" using D63 by (intro mult_le_mono1) (simp add: Suc_le_eq)
    ultimately show ?thesis by simp
  qed
  define H2 L2 where "H2 = (push_bit BN_BITS4 h1 OR drop_bit BN_BITS4 l1) AND BN_MASK2" and "L2 = push_bit BN_BITS4 (l1 AND BN_MASK2l)"
  have "unat D * 2 ^ 32 < 2 ^ 64 * 2 ^ 32" using unat_u64 [of D] by (simp only: mult_less_cancel2) simp
  then have "unat h1 * 2 ^ 64 < 2 ^ 64 * 2 ^ 32" using rem by linarith
  then have h1: "unat h1 < 2 ^ 32" by simp
  have l1: "unat (drop_bit 32 l1) < 2 ^ 32" unfolding unat_drop using unat_u64 [of l1] by (intro less_mult_imp_div_less) simp
  have H2: "unat H2 = unat h1 * 2 ^ 32 + unat l1 div 2 ^ 32"
    unfolding H2_def and_MASK2 BN_BITS4_def unat_drop [symmetric] using h1 l1 by (intro unat_or_shift) simp_all
  have L2: "unat L2 = unat l1 mod 2 ^ 32 * 2 ^ 32"
    unfolding L2_def BN_BITS4_def by (subst unat_push) (simp_all add: MASK2l unat_mask del: mask_numeral)
  have HL2: "unat H2 * 2 ^ 32 + unat L2 div 2 ^ 32 = ?rem"
  proof -
    have "unat l1 = unat l1 div 2 ^ 32 * 2 ^ 32 + unat l1 mod 2 ^ 32" by (rule div_mult_mod_eq [symmetric])
    then show ?thesis unfolding H2 L2 by (simp add: distrib_right)
  qed
  then have "unat H2 * 2 ^ 32 < unat D * 2 ^ 32" using rem by linarith
  then have HD2: "unat H2 < unat D" by (simp only: mult_less_cancel2)
  obtain q2 h2 l2 where 2: "div_digit D H2 L2 = Some (q2, h2, l2)" "unat q2 < 2 ^ 32" "unat q2 = ?rem div unat D"
    using div_digit [OF D63 HD2, of L2] unfolding HL2 by blast
  have "bn_div_words h l d = Some (push_bit BN_BITS4 q1 OR q2)"
    using assms d0 1(1) 2(1) unfolding H_def L_def D_def H2_def L2_def
    by (cases "i = 0") (simp_all add: bn_div_words_def i_def [symmetric] word_le_nat_alt Let_def)
  moreover have "unat (push_bit BN_BITS4 q1 OR q2) = unat q1 * 2 ^ 32 + unat q2"
    unfolding BN_BITS4_def using 1(2) 2(2) by (intro unat_or_shift) simp_all
  moreover have "(unat h * 2 ^ 64 + unat l) div unat d = unat q1 * 2 ^ 32 + unat q2"
  proof -
    have "(unat h * 2 ^ 64 + unat l) div unat d = (unat H * 2 ^ 64 + unat L) div unat D" unfolding HL D by simp
    also have "unat H * 2 ^ 64 + unat L = ?rem + unat q1 * 2 ^ 32 * unat D" using 1(4) by (simp only: ac_simps)
    also have "\<dots> div unat D = unat q1 * 2 ^ 32 + ?rem div unat D" using D63 by (subst div_mult_self1) simp_all
    finally show ?thesis unfolding 2(3) .
  qed
  ultimately show ?thesis by metis
qed

text \<open>C34: the division of two words by one, made of shifts, divisions of words and estimates that are lowered, ends and
  gives the exact quotient whenever it fits a word.\<close>

theorem bn_div_words_exact:
  assumes "unat h < unat d"
  shows "map_option unat (bn_div_words h l d) = Some ((unat h * 2 ^ 64 + unat l) div unat d)"
  using bn_div_words [OF assms, of l] by auto

theorem bn_div_words_exact_witness:
  "map_option unat (bn_div_words 5 7 9) = Some ((unat (5 :: u64) * 2 ^ 64 + unat (7 :: u64)) div unat (9 :: u64))"
  by (rule bn_div_words_exact) simp

end
