(* ===== verification/BnWordProps.thy ===== *)
theory BnWordProps
  imports BnShiftProps BnDivWord
begin

text \<open>
  Operations with one word, \<^verbatim>\<open>bn_word.c\<close>: addition and subtraction on signed numbers, multiplication, division with
  remainder and remainder alone.
\<close>

lemma words_val_update:
  "i < n \<Longrightarrow> n \<le> length d \<Longrightarrow> words_val (take n (d[i := x])) + 2 ^ (64 * i) * unat (d ! i) = words_val (take n d) + 2 ^ (64 * i) * unat x"
proof (induction n)
  case (Suc n)
  show ?case
  proof (cases "i = n")
    case True
    then show ?thesis using Suc.prems words_val_take_Suc [of n d] words_val_take_Suc [of n "d[n := x]"] by simp
  next
    case False
    then show ?thesis using Suc words_val_take_Suc [of n d] words_val_take_Suc [of n "d[i := x]"] by simp
  qed
qed simp

lemma BN_set_word:
  assumes "bn_fits a" "BN_set_word alloc a w = Some c"
  shows "bn_wf c \<and> bn_nat c = unat w \<and> \<not> bn_neg c \<and> bn_flags c = bn_flags a"
proof -
  obtain b where b: "bn_expand alloc a 64 = Some b" and c: "c = b\<lparr>bn_neg := False, bn_d := (bn_d b)[0 := w], bn_top := (if w \<noteq> 0 then 1 else 0)\<rparr>"
    using assms(2) by (auto simp: BN_set_word_def)
  have "bn_wexpand alloc a 1 = Some b" using b by (auto simp: bn_expand_def bn_wexpand_def BN_BITS2_def INT_MAX_def split: if_splits)
  note e = bn_wexpand [OF assms(1) this]
  obtain x xs where "bn_d b = x # xs" using e(2) by (cases "bn_d b") auto
  then show ?thesis using e(1,5) unfolding c by (simp add: bn_wf_def bn_fits_def bn_nat_def)
qed

text \<open>A number that keeps a nonzero top word is not 0.\<close>

lemma bn_top_nz: "bn_fits a \<Longrightarrow> 0 < bn_top a \<Longrightarrow> bn_d a ! (bn_top a - 1) \<noteq> 0 \<Longrightarrow> bn_nat a \<noteq> 0"
  using bn_top_word [of a] by (metis le_zero_eq power_not_zero zero_neq_numeral)

subsection \<open>Addition and subtraction\<close>

lemma add_word_loop:
  "i + n \<le> length d \<Longrightarrow> add_word_loop d i n w = (d', i', w') \<Longrightarrow>
   length d' = length d \<and> i' \<le> i + n \<and> (i' < i + n \<longrightarrow> w' = 0) \<and>
   words_val (take (i + n) d') + 2 ^ (64 * (i + n)) * unat w' = words_val (take (i + n) d) + 2 ^ (64 * i) * unat w"
proof (induction d i n w rule: add_word_loop.induct)
  case (2 d i n w)
  show ?case
  proof (cases "w = 0")
    case False
    let ?l = "d ! i + w" and ?c = "if w > d ! i + w then 1 else 0 :: u64"
    have l: "add_word_loop (d[i := ?l]) (i + 1) n ?c = (d', i', w')" using "2.prems"(2) False by (simp add: and_MASK2 Let_def)
    have ih: "length d' = length (d[i := ?l]) \<and> i' \<le> i + 1 + n \<and> (i' < i + 1 + n \<longrightarrow> w' = 0) \<and>
        words_val (take (i + 1 + n) d') + 2 ^ (64 * (i + 1 + n)) * unat w' = words_val (take (i + 1 + n) (d[i := ?l])) + 2 ^ (64 * (i + 1)) * unat ?c"
      using "2.IH" [OF False refl] l "2.prems"(1) by (simp add: and_MASK2)
    then have "words_val (take (i + 1 + n) d') + 2 ^ (64 * (i + 1 + n)) * unat w' = words_val (take (i + 1 + n) (d[i := ?l])) + 2 ^ (64 * (i + 1)) * unat ?c"
      by blast
    moreover have "words_val (take (i + 1 + n) (d[i := ?l])) + 2 ^ (64 * i) * unat (d ! i) = words_val (take (i + 1 + n) d) + 2 ^ (64 * i) * unat ?l"
      using "2.prems"(1) by (intro words_val_update) simp_all
    moreover have "2 ^ (64 * i) * unat ?l + 2 ^ (64 * (i + 1)) * unat ?c = 2 ^ (64 * i) * unat (d ! i) + 2 ^ (64 * i) * unat w"
    proof -
      have "unat ?l + 2 ^ 64 * unat ?c = unat (d ! i) + unat w" using word_add_carry [of "d ! i" w] by (cases "d ! i + w < w") simp_all
      then have "2 ^ (64 * i) * (unat ?l + 2 ^ 64 * unat ?c) = 2 ^ (64 * i) * (unat (d ! i) + unat w)" by simp
      then show ?thesis by (simp add: distrib_left power_add mult.assoc)
    qed
    ultimately have "words_val (take (i + 1 + n) d') + 2 ^ (64 * (i + 1 + n)) * unat w' = words_val (take (i + 1 + n) d) + 2 ^ (64 * i) * unat w"
      by linarith
    then show ?thesis using ih by simp
  qed (use 2 in simp)
qed simp

lemma BN_add_word_pos:
  assumes "bn_wf a" "\<not> bn_neg a" "BN_add_word alloc a w = Some c"
  shows "bn_wf c \<and> bn_nat c = bn_nat a + unat w \<and> \<not> bn_neg c \<and> bn_flags c = bn_flags a"
proof -
  have f: "bn_fits a" using assms(1) by (simp add: bn_wf_def)
  consider "w = 0" | "w \<noteq> 0" "bn_top a = 0" | "w \<noteq> 0" "bn_top a \<noteq> 0" by blast
  then show ?thesis
  proof cases
    case 2
    then have "BN_set_word alloc a w = Some c" "bn_nat a = 0" using assms(3) by (simp_all add: BN_add_word.simps [of alloc a] BN_is_zero_def bn_nat_def)
    then show ?thesis using BN_set_word [OF f] by simp
  next
    case 3
    let ?T = "bn_top a"
    have T: "?T \<le> length (bn_d a)" using f by (simp add: bn_fits_def)
    obtain d i w' where l: "add_word_loop (bn_d a) 0 ?T w = (d, i, w')" by (metis surj_pair)
    have v: "length d = length (bn_d a)" "i \<le> ?T" "i < ?T \<longrightarrow> w' = 0" "words_val (take ?T d) + 2 ^ (64 * ?T) * unat w' = bn_nat a + unat w"
      using add_word_loop [OF _ l] T by (simp_all add: bn_nat_def)
    have big: "2 ^ (64 * (?T - 1)) \<le> bn_nat a" using bn_top_word [OF f] assms(1) 3 by (simp add: bn_wf_def)
    have fd: "bn_fits (a\<lparr>bn_d := d\<rparr>)" using f v(1) by (simp add: bn_fits_def)
    show ?thesis
    proof (cases "w' \<noteq> 0 \<and> i = ?T")
      case True
      obtain b where b: "bn_wexpand alloc (a\<lparr>bn_d := d\<rparr>) (?T + 1) = Some b" "c = b\<lparr>bn_top := bn_top b + 1, bn_d := (bn_d b)[?T := w']\<rparr>"
        using assms(3) 3 assms(2) True l by (auto simp: BN_add_word.simps [of alloc a] BN_is_zero_def)
      note e = bn_wexpand [OF fd b(1)]
      have "take (?T + 1) ((bn_d b)[?T := w']) = take ?T d @ [w']"
        using e(2,6) by (simp add: take_Suc_conv_app_nth)
      then have n: "bn_nat c = bn_nat a + unat w" using v(4) e(3) v(1) T unfolding b(2) by (simp add: bn_nat_def words_val_append min_absorb2)
      have "bn_fits c" using e(1-3) unfolding b(2) by (simp add: bn_fits_def)
      moreover have "bn_d c ! (bn_top c - 1) \<noteq> 0" using e(2,3) True unfolding b(2) by simp
      ultimately show ?thesis using n e(3-5) assms(2) 3 unfolding b(2) by (simp add: bn_wf_def)
    next
      case False
      then have "w' = 0" using v(2,3) by auto
      have c: "c = a\<lparr>bn_d := d\<rparr>" using assms(3) 3 assms(2) False l by (auto simp: BN_add_word.simps [of alloc a] BN_is_zero_def)
      then have n: "bn_nat c = bn_nat a + unat w" using v(4) \<open>w' = 0\<close> by (simp add: bn_nat_def)
      have "bn_d c ! (?T - 1) \<noteq> 0" using bn_top_word [of c] fd big n 3 unfolding c by simp
      then show ?thesis using fd n assms(2) 3 unfolding c by (simp add: bn_wf_def)
    qed
  qed (use assms in \<open>simp add: BN_add_word.simps [of alloc a]\<close>)
qed

lemma words_val_from: "i < n \<Longrightarrow> n \<le> length d \<Longrightarrow>
    words_val (take (n - i) (drop i d)) = unat (d ! i) + 2 ^ 64 * words_val (take (n - Suc i) (drop (Suc i) d))"
proof -
  assume i: "i < n" "n \<le> length d"
  then have "drop i d = d ! i # drop (Suc i) d" by (simp add: Cons_nth_drop_Suc)
  moreover have "n - i = Suc (n - Suc i)" using i by simp
  ultimately show ?thesis by simp
qed

lemma sub_word_loop:
  "i \<le> n \<Longrightarrow> n \<le> length d \<Longrightarrow> 0 < unat w \<Longrightarrow> unat w \<le> words_val (take (n - i) (drop i d)) \<Longrightarrow>
   \<exists>d' j. sub_word_loop d i w = Some (d', j) \<and> i \<le> j \<and> j < n \<and> length d' = length d \<and> (\<forall>k. i \<le> k \<and> k < j \<longrightarrow> d' ! k \<noteq> 0) \<and>
     (\<forall>k. k < i \<or> j < k \<longrightarrow> d' ! k = d ! k) \<and> words_val (take n d') + 2 ^ (64 * i) * unat w = words_val (take n d)"
proof (induction d i w rule: sub_word_loop.induct)
  case (1 d i w)
  have i: "i < n"
  proof (rule ccontr)
    assume "\<not> i < n"
    then have "n - i = 0" by simp
    then show False using "1.prems"(3,4) by simp
  qed
  note v = words_val_from [OF i "1.prems"(2)]
  show ?case
  proof (cases "w \<le> d ! i")
    case True
    let ?d = "d[i := d ! i - w]"
    have s: "sub_word_loop d i w = Some (?d, i)" using True i "1.prems"(2) by (simp add: sub_word_loop.simps)
    have "unat (d ! i - w) + unat w = unat (d ! i)" using True by (simp add: unat_sub word_le_nat_alt)
    then have "2 ^ (64 * i) * unat (d ! i) = 2 ^ (64 * i) * unat (d ! i - w) + 2 ^ (64 * i) * unat w" by (simp flip: distrib_left)
    then have "words_val (take n ?d) + 2 ^ (64 * i) * unat w = words_val (take n d)"
      using words_val_update [OF i "1.prems"(2), of "d ! i - w"] by linarith
    then show ?thesis using s i by auto
  next
    case False
    let ?d = "d[i := d ! i - w]"
    have b: "unat (d ! i - w) + unat w = unat (d ! i) + 2 ^ 64" using sub_borrow_nat [of "d ! i" w] False by simp
    have ge: "unat 1 \<le> words_val (take (n - Suc i) (drop (Suc i) d))"
    proof (rule ccontr)
      assume "\<not> ?thesis"
      then have "unat w \<le> unat (d ! i)" using "1.prems"(4) v by simp
      then show False using False by (simp add: word_le_nat_alt)
    qed
    have same: "drop (Suc i) ?d = drop (Suc i) d" by simp
    have i': "\<not> length d \<le> i" using i "1.prems"(2) by simp
    have "\<exists>d' j. sub_word_loop ?d (i + 1) 1 = Some (d', j) \<and> i + 1 \<le> j \<and> j < n \<and> length d' = length ?d \<and>
        (\<forall>k. i + 1 \<le> k \<and> k < j \<longrightarrow> d' ! k \<noteq> 0) \<and> (\<forall>k. k < i + 1 \<or> j < k \<longrightarrow> d' ! k = ?d ! k) \<and>
        words_val (take n d') + 2 ^ (64 * (i + 1)) * unat (1 :: u64) = words_val (take n ?d)"
      using "1.IH" [OF i' False] i "1.prems"(2) ge same by (simp add: and_MASK2)
    then obtain d' j where j: "sub_word_loop ?d (i + 1) 1 = Some (d', j)" "i + 1 \<le> j" "j < n" "length d' = length d"
        "\<And>k. i + 1 \<le> k \<Longrightarrow> k < j \<Longrightarrow> d' ! k \<noteq> 0" "\<And>k. k < i + 1 \<or> j < k \<Longrightarrow> d' ! k = ?d ! k"
        "words_val (take n d') + 2 ^ (64 * (i + 1)) = words_val (take n ?d)" by auto
    have s: "sub_word_loop d i w = Some (d', j)" using j(1) False i' by (subst sub_word_loop.simps) (simp add: and_MASK2)
    have di: "d' ! i = d ! i - w" using j(6) [of i] i "1.prems"(2) by simp
    have "d' ! i \<noteq> 0" unfolding di using False by auto
    then have nz: "d' ! k \<noteq> 0" if "i \<le> k" "k < j" for k using j(5) [of k] that by (cases "k = i") simp_all
    have same': "d' ! k = d ! k" if "k < i \<or> j < k" for k using j(2) j(6) [of k] that by (cases "k = i") auto
    have "2 ^ (64 * i) * (unat (d ! i - w) + unat w) = 2 ^ (64 * i) * (unat (d ! i) + 2 ^ 64)" unfolding b ..
    moreover have "2 ^ (64 * i) * 2 ^ 64 = (2 :: nat) ^ (64 * (i + 1))" unfolding power_add [symmetric] by simp
    ultimately have "2 ^ (64 * i) * unat (d ! i - w) + 2 ^ (64 * i) * unat w = 2 ^ (64 * i) * unat (d ! i) + 2 ^ (64 * (i + 1))"
      by (simp only: distrib_left)
    then have "words_val (take n d') + 2 ^ (64 * i) * unat w = words_val (take n d)"
      using words_val_update [OF i "1.prems"(2), of "d ! i - w"] j(7) by linarith
    then show ?thesis using s j(2,3,4) nz same' by (intro exI [of _ d'] exI [of _ j]) auto
  qed
qed

lemma sub_word_le:
  assumes "bn_wf a" "bn_top a \<noteq> 0" "\<not> (bn_top a = 1 \<and> bn_d a ! 0 < w)"
  shows "unat w \<le> bn_nat a"
proof (cases "bn_top a = 1")
  case True
  then show ?thesis using bn_nat_words(2) [OF assms(1)] assms(3) by (simp add: word_le_nat_alt not_less)
next
  case False
  then show ?thesis using bn_nat_words(3) [OF assms(1)] assms(2) unat_u64 [of w] by linarith
qed

lemma BN_sub_word_pos:
  assumes "bn_wf a" "\<not> bn_neg a" "BN_sub_word alloc a w = Some c"
  shows "bn_wf c \<and> bn_val c = int (bn_nat a) - int (unat w) \<and> bn_flags c = bn_flags a"
proof -
  have f: "bn_fits a" using assms(1) by (simp add: bn_wf_def)
  let ?T = "bn_top a"
  have T: "?T \<le> length (bn_d a)" using f by (simp add: bn_fits_def)
  note nw = bn_nat_words [OF assms(1)]
  consider "w = 0" | "w \<noteq> 0" "?T = 0" | "w \<noteq> 0" "?T = 1" "bn_d a ! 0 < w" | "w \<noteq> 0" "?T \<noteq> 0" "\<not> (?T = 1 \<and> bn_d a ! 0 < w)" by blast
  then show ?thesis
  proof cases
    case 2
    then obtain b where b: "BN_set_word alloc a w = Some b" "c = BN_set_negative b True"
      using assms(3) by (auto simp: BN_sub_word.simps [of alloc a] BN_is_zero_def)
    note s = BN_set_word [OF f b(1)]
    have "bn_top b \<noteq> 0" using bn_nat_words(1) [of b] s 2 by (simp add: unat_eq_zero)
    then have "c = b\<lparr>bn_neg := True\<rparr>" unfolding b(2) by (simp add: BN_set_negative_def BN_is_zero_def)
    then show ?thesis using s bn_wf_neg [of b True] nw(1) 2 by (simp add: bn_val_def unat_eq_zero)
  next
    case 3
    then have c: "c = a\<lparr>bn_d := (bn_d a)[0 := w - bn_d a ! 0], bn_neg := True\<rparr>"
      using assms by (simp add: BN_sub_word.simps [of alloc a] BN_is_zero_def)
    obtain x xs where d: "bn_d a = x # xs" using T 3 by (cases "bn_d a") auto
    then have x: "x < w" "bn_nat a = unat x" using 3 nw(2) by simp_all
    have l: "unat x < unat w" using x(1) by (simp add: word_less_nat_alt)
    have u: "unat (w - x) = unat w - unat x" using x(1) by (simp add: unat_sub)
    then have "int (unat (w - x)) = int (unat w) - int (unat x)" using l by simp
    moreover have "w - x \<noteq> 0" using u l by (metis unat_0 zero_less_diff less_irrefl)
    ultimately show ?thesis using f x 3 unfolding c by (simp add: bn_wf_def bn_fits_def bn_val_def bn_nat_def d)
  next
    case 4
    have le: "unat w \<le> bn_nat a" by (rule sub_word_le [OF assms(1) 4(2,3)])
    obtain d j where l: "sub_word_loop (bn_d a) 0 w = Some (d, j)" "j < ?T" "length d = length (bn_d a)"
        "\<And>k. k < j \<Longrightarrow> d ! k \<noteq> 0" "\<And>k. j < k \<Longrightarrow> d ! k = bn_d a ! k" "words_val (take ?T d) + unat w = bn_nat a"
      using sub_word_loop [of 0 ?T "bn_d a" w] T 4 le by (auto simp: bn_nat_def unat_gt_0)
    have c: "c = a\<lparr>bn_d := d, bn_top := (if d ! j = 0 \<and> j + 1 = ?T then ?T - 1 else ?T)\<rparr>"
      using assms(2,3) 4 l(1) by (auto simp: BN_sub_word.simps [of alloc a] BN_is_zero_def)
    show ?thesis
    proof (cases "d ! j = 0 \<and> j + 1 = ?T")
      case True
      then have "j = ?T - 1" by linarith
      have "words_val (take ?T d) = words_val (take (?T - 1) d)"
        using words_val_take_Suc [of j d] True l(2,3) T \<open>j = ?T - 1\<close> [symmetric] by simp
      then have n: "bn_nat c + unat w = bn_nat a" using l(6) True unfolding c by (simp add: bn_nat_def)
      have "0 < ?T - 1 \<longrightarrow> d ! (?T - 1 - 1) \<noteq> 0" using l(4) [of "?T - 1 - 1"] \<open>j = ?T - 1\<close> by simp
      then have "bn_wf c" using f True assms(2) l(3) unfolding c by (auto simp: bn_wf_def bn_fits_def)
      moreover have "int (bn_nat c) = int (bn_nat a) - int (unat w)" using n by linarith
      moreover have "\<not> bn_neg c" "bn_flags c = bn_flags a" using assms(2) unfolding c by simp_all
      ultimately show ?thesis by (simp add: bn_val_def)
    next
      case False
      then have ct: "c = a\<lparr>bn_d := d\<rparr>" unfolding c by (simp only: if_False) simp
      then have n: "bn_nat c + unat w = bn_nat a" using l(6) by (simp add: bn_nat_def)
      have "d ! (?T - 1) \<noteq> 0"
      proof (cases "j + 1 = ?T")
        case True
        then have "j = ?T - 1" by linarith
        then show ?thesis using False True by simp
      next
        case False
        then have "j < ?T - 1" using l(2) by simp
        then show ?thesis using l(5) [of "?T - 1"] assms(1) 4 by (simp add: bn_wf_def)
      qed
      then have "bn_wf c" using f assms(2) l(3) 4 unfolding ct by (simp add: bn_wf_def bn_fits_def)
      moreover have "int (bn_nat c) = int (bn_nat a) - int (unat w)" using n by linarith
      moreover have "\<not> bn_neg c" "bn_flags c = bn_flags a" using assms(2) unfolding ct by simp_all
      ultimately show ?thesis by (simp add: bn_val_def)
    qed
  qed (use assms in \<open>simp add: BN_sub_word.simps [of alloc a] bn_val_def\<close>)
qed

lemma BN_signed_word:
  assumes "bn_wf a"
  shows "BN_add_word alloc a w = Some c \<Longrightarrow> bn_wf c \<and> bn_val c = bn_val a + int (unat w) \<and> bn_flags c = bn_flags a"
    "BN_sub_word alloc a w = Some c \<Longrightarrow> bn_wf c \<and> bn_val c = bn_val a - int (unat w) \<and> bn_flags c = bn_flags a"
proof -
  let ?a = "a\<lparr>bn_neg := False\<rparr>"
  note n = conjunct1 [OF bn_wf_neg [OF assms, of False, simplified]] conjunct2 [OF bn_wf_neg [OF assms, of False, simplified]]
  note nz = bn_nat_words(1) [OF assms]
  have z: "bn_neg a \<Longrightarrow> \<not> BN_is_zero a" using bn_neg_nat [OF assms] nz by (simp add: BN_is_zero_def)
  show "bn_wf c \<and> bn_val c = bn_val a + int (unat w) \<and> bn_flags c = bn_flags a" if c: "BN_add_word alloc a w = Some c"
  proof (cases "bn_neg a \<and> w \<noteq> 0")
    case True
    then obtain b where b: "BN_sub_word alloc ?a w = Some b" "c = (if \<not> BN_is_zero b then b\<lparr>bn_neg := \<not> bn_neg b\<rparr> else b)"
      using c z by (auto simp: BN_add_word.simps [of alloc a])
    note s = BN_sub_word_pos [OF n(1) _ b(1), simplified]
    have z: "BN_is_zero b \<longleftrightarrow> bn_nat b = 0" using s bn_nat_words(1) [of b] by (simp add: BN_is_zero_def)
    have v: "bn_val a = - int (bn_nat a)" using True by (simp add: bn_val_def)
    show ?thesis
    proof (cases "bn_nat b = 0")
      case True
      then show ?thesis using s z v n(2) unfolding b(2) by (simp add: bn_val_def split: if_splits)
    next
      case False
      then have "c = b\<lparr>bn_neg := \<not> bn_neg b\<rparr>" using b(2) z by simp
      moreover have "bn_val (b\<lparr>bn_neg := \<not> bn_neg b\<rparr>) = - bn_val b" by (simp add: bn_val_def bn_nat_def)
      ultimately show ?thesis using s v n(2) bn_wf_neg [of b "\<not> bn_neg b"] False by simp
    qed
  next
    case False
    then consider "w = 0" | "\<not> bn_neg a" by blast
    then show ?thesis
    proof cases
      case 1
      then show ?thesis using c assms by (simp add: BN_add_word.simps [of alloc a])
    next
      case 2
      then show ?thesis using BN_add_word_pos [OF assms 2 c] by (simp add: bn_val_def)
    qed
  qed
  show "bn_wf c \<and> bn_val c = bn_val a - int (unat w) \<and> bn_flags c = bn_flags a" if c: "BN_sub_word alloc a w = Some c"
  proof (cases "bn_neg a \<and> w \<noteq> 0")
    case True
    then obtain b where b: "BN_add_word alloc ?a w = Some b" "c = b\<lparr>bn_neg := True\<rparr>"
      using c z by (auto simp: BN_sub_word.simps [of alloc a])
    note s = BN_add_word_pos [OF n(1) _ b(1), simplified]
    have "bn_nat b \<noteq> 0" using s True by (simp add: unat_eq_zero)
    then show ?thesis using s True n(2) bn_wf_neg [of b True] unfolding b(2) by (simp add: bn_val_def)
  next
    case False
    then consider "w = 0" | "\<not> bn_neg a" by blast
    then show ?thesis
    proof cases
      case 1
      then show ?thesis using c assms by (simp add: BN_sub_word.simps [of alloc a])
    next
      case 2
      then show ?thesis using BN_sub_word_pos [OF assms 2 c] by (simp add: bn_val_def)
    qed
  qed
qed

subsection \<open>Multiplication\<close>

lemma BN_mul_word:
  assumes "bn_wf a" "BN_mul_word alloc a w = Some c"
  shows "bn_wf c \<and> bn_val c = bn_val a * int (unat w) \<and> bn_flags c = bn_flags a"
proof -
  have f: "bn_fits a" using assms(1) by (simp add: bn_wf_def)
  let ?T = "bn_top a"
  have T: "?T \<le> length (bn_d a)" using f by (simp add: bn_fits_def)
  note nz = bn_nat_words(1) [OF assms(1)]
  consider "?T = 0" | "?T \<noteq> 0" "w = 0" | "?T \<noteq> 0" "w \<noteq> 0" by blast
  then show ?thesis
  proof cases
    case 3
    obtain d ll where m: "bn_mul_words (bn_d a) (bn_d a) ?T w = (d, ll)" by fastforce
    note v = bn_mul_words [OF T T m]
    have fd: "bn_fits (a\<lparr>bn_d := d\<rparr>)" using f v(1) by (simp add: bn_fits_def)
    have big: "2 ^ (64 * (?T - 1)) \<le> bn_nat a" using bn_top_word [OF f] assms(1) 3 by (simp add: bn_wf_def)
    have w1: "1 \<le> unat w" using 3 by (simp add: Suc_le_eq unat_gt_0)
    have n0: "bn_neg a \<Longrightarrow> bn_nat a * unat w \<noteq> 0" using bn_neg_nat [OF assms(1)] w1 by simp
    show ?thesis
    proof (cases "ll = 0")
      case True
      have c: "c = a\<lparr>bn_d := d\<rparr>" using assms(2) 3 True by (simp add: BN_mul_word_def m)
      have n: "bn_nat c = bn_nat a * unat w" using v(3) True unfolding c by (simp add: bn_nat_def)
      have "2 ^ (64 * (?T - 1)) \<le> bn_nat c" unfolding n using big w1 by (metis mult.right_neutral mult_le_mono)
      then have "bn_d c ! (?T - 1) \<noteq> 0" using bn_top_word [of c] fd 3 unfolding c by simp
      then have "bn_wf c" using fd assms(1) 3 unfolding c by (simp add: bn_wf_def)
      then show ?thesis using n unfolding c by (simp add: bn_val_def)
    next
      case False
      obtain b where b: "bn_wexpand alloc (a\<lparr>bn_d := d\<rparr>) (?T + 1) = Some b" "c = b\<lparr>bn_d := (bn_d b)[?T := ll], bn_top := ?T + 1\<rparr>"
        using assms(2) 3 False bn_wexpand(3) [OF fd] by (auto simp: BN_mul_word_def m)
      note e = bn_wexpand [OF fd b(1)]
      have "take (?T + 1) ((bn_d b)[?T := ll]) = take ?T d @ [ll]"
        using e(2,6) by (simp add: take_Suc_conv_app_nth)
      then have n: "bn_nat c = bn_nat a * unat w" using v(1,3) e(3) T unfolding b(2) by (simp add: bn_nat_def words_val_append min_absorb2)
      have "bn_fits c" using e(1-3) unfolding b(2) by (simp add: bn_fits_def)
      moreover have "bn_d c ! (bn_top c - 1) \<noteq> 0" using e(2,3) False unfolding b(2) by simp
      ultimately have "bn_wf c" using e(3,4) unfolding b(2) by (simp add: bn_wf_def)
      moreover have "bn_neg c = bn_neg a" "bn_flags c = bn_flags a" using e(4,5) unfolding b(2) by simp_all
      ultimately show ?thesis using n by (simp add: bn_val_def)
    qed
  qed (use assms nz BN_zero_ex [OF f] in \<open>simp_all add: BN_mul_word_def bn_val_def\<close>)
qed

subsection \<open>Division\<close>

lemma div_word_loop:
  "n \<le> length ds \<Longrightarrow> unat ret < unat w \<Longrightarrow>
   \<exists>d r. div_word_loop ds w n ret = Some (d, r) \<and> length d = length ds \<and> drop n d = drop n ds \<and> unat r < unat w \<and>
     words_val (take n d) * unat w + unat r = unat ret * 2 ^ (64 * n) + words_val (take n ds)"
proof (induction n arbitrary: ds ret)
  case (Suc i)
  let ?l = "ds ! i" and ?N = "unat ret * 2 ^ 64 + unat (ds ! i)"
  obtain q where q: "bn_div_words ret ?l w = Some q" "unat q = ?N div unat w" using bn_div_words [OF Suc.prems(2)] by blast
  let ?r = "?l - q * w"
  have m: "unat q * unat w + ?N mod unat w = ?N" unfolding q(2) by (rule div_mult_mod_eq)
  have lt: "?N mod unat w < unat w" using Suc.prems(2) by simp
  have r: "unat ?r = ?N mod unat w"
  proof (rule unatI)
    show "?N mod unat w < 2 ^ 64" using lt unat_u64 [of w] by linarith
    have "word_of_nat (unat q * unat w + ?N mod unat w) = (word_of_nat ?N :: u64)" unfolding m ..
    moreover have "word_of_nat (unat ret * 2 ^ 64) = (0 :: u64)" unfolding word_of_nat_eq_0_iff by simp
    ultimately have "q * w + word_of_nat (?N mod unat w) = ?l" by (simp only: of_nat_add of_nat_mult [of "unat q"] unat_inverse add_0)
    then show "?r = word_of_nat (?N mod unat w)" by (simp only: diff_eq_eq add.commute)
  qed
  have "\<exists>d r. div_word_loop (ds[i := q]) w i ?r = Some (d, r) \<and> length d = length (ds[i := q]) \<and> drop i d = drop i (ds[i := q]) \<and>
     unat r < unat w \<and> words_val (take i d) * unat w + unat r = unat ?r * 2 ^ (64 * i) + words_val (take i (ds[i := q]))"
    using Suc.prems lt r by (intro Suc.IH) simp_all
  then obtain d r2 where d: "div_word_loop (ds[i := q]) w i ?r = Some (d, r2)" "length d = length ds" "drop i d = drop i (ds[i := q])"
      "unat r2 < unat w" "words_val (take i d) * unat w + unat r2 = unat ?r * 2 ^ (64 * i) + words_val (take i ds)" by auto
  have s: "div_word_loop ds w (Suc i) ret = Some (d, r2)" using d(1) q(1) by (simp add: and_MASK2)
  have i: "i < length ds" using Suc.prems(1) by simp
  have "d ! i = (ds[i := q]) ! i" using arg_cong [OF d(3), of hd] i d(2) by (simp add: hd_drop_conv_nth)
  then have di: "d ! i = q" using i by simp
  have "drop (Suc i) d = drop 1 (drop i d)" by simp
  also have "\<dots> = drop (Suc i) ds" unfolding d(3) by simp
  finally have dr: "drop (Suc i) d = drop (Suc i) ds" .
  have vd: "words_val (take (Suc i) d) = words_val (take i d) + 2 ^ (64 * i) * unat q" using words_val_take_Suc [of i d] i d(2) di by simp
  have vs: "words_val (take (Suc i) ds) = words_val (take i ds) + 2 ^ (64 * i) * unat ?l" using words_val_take_Suc [of i ds] i by simp
  have "(unat q * unat w + unat ?r) * 2 ^ (64 * i) = ?N * 2 ^ (64 * i)" unfolding r m ..
  moreover have "2 ^ 64 * 2 ^ (64 * i) = (2 :: nat) ^ (64 * Suc i)" unfolding power_add [symmetric] by simp
  ultimately have "unat q * unat w * 2 ^ (64 * i) + unat ?r * 2 ^ (64 * i) = unat ret * 2 ^ (64 * Suc i) + unat ?l * 2 ^ (64 * i)"
    by (simp only: distrib_right mult.assoc)
  moreover have "words_val (take (Suc i) d) * unat w = words_val (take i d) * unat w + unat q * unat w * 2 ^ (64 * i)"
    unfolding vd by (simp only: distrib_right distrib_left mult.assoc mult.commute mult.left_commute)
  moreover have "2 ^ (64 * i) * unat ?l = unat ?l * 2 ^ (64 * i)" by (rule mult.commute)
  ultimately have "words_val (take (Suc i) d) * unat w + unat r2 = unat ret * 2 ^ (64 * Suc i) + words_val (take (Suc i) ds)"
    using d(5) unfolding vs by linarith
  then show ?case using s d(2,4) dr by blast
qed simp

lemma bn_neg_val: "bn_wf a \<Longrightarrow> bn_neg a \<longleftrightarrow> bn_val a < 0"
  using bn_neg_nat [of a] by (auto simp: bn_val_def)

lemma BN_div_word:
  assumes "bn_wf a" "w \<noteq> 0" "BN_div_word alloc a w = Some (c, r)"
  shows "bn_wf c \<and> bn_val c = sgn (bn_val a) * (\<bar>bn_val a\<bar> div int (unat w)) \<and> unat r = bn_nat a mod unat w \<and> bn_flags c = bn_flags a"
proof (cases "bn_top a = 0")
  case True
  then have "c = a" "r = 0" "bn_nat a = 0" using assms bn_nat_words(1) [OF assms(1)] by (simp_all add: BN_div_word_def)
  then show ?thesis using assms(1) by (simp add: bn_val_def)
next
  case False
  define j where "j = BN_BITS2 - BN_num_bits_word w"
  define w' where "w' = push_bit j w"
  note nb = BN_num_bits_word_div [OF assms(2), folded BN_BITS2_def, folded j_def]
  have w': "unat w' = unat w * 2 ^ j" unfolding w'_def using nb by (intro unat_push) (simp add: BN_BITS2_def)
  have w0: "0 < unat w" using assms(2) by (simp add: unat_gt_0)
  obtain b where b: "BN_lshift alloc a a (int j) = Some b"
    using assms False by (auto simp: BN_div_word_def Let_def j_def [symmetric] bind_eq_Some_conv)
  have f: "bn_fits a" using assms(1) by (simp add: bn_wf_def)
  note l = BN_lshift [OF assms(1) f b]
  let ?T = "bn_top b"
  have fb: "bn_fits b" and T: "?T \<le> length (bn_d b)" using l by (simp_all add: bn_wf_def bn_fits_def)
  have w'0: "0 < unat w'" unfolding w' using w0 by simp
  obtain d r' where d: "div_word_loop (bn_d b) w' ?T 0 = Some (d, r')" "length d = length (bn_d b)" "unat r' < unat w'"
      "words_val (take ?T d) * unat w' + unat r' = bn_nat b"
    using div_word_loop [of ?T "bn_d b" 0 w'] T w'0 by (auto simp: bn_nat_def)
  have vb: "bn_nat b = bn_nat a * 2 ^ j" "bn_neg b = bn_neg a"
  proof -
    have "\<bar>bn_val b\<bar> = \<bar>bn_val a\<bar> * 2 ^ j" using l by (simp add: abs_mult)
    then have "int (bn_nat b) = int (bn_nat a * 2 ^ j)" by (simp add: bn_val_def split: if_splits)
    then show n: "bn_nat b = bn_nat a * 2 ^ j" by (simp only: of_nat_eq_iff)
    have "bn_val b < 0 \<longleftrightarrow> bn_val a < 0" using l by (simp add: mult_less_0_iff)
    then show "bn_neg b = bn_neg a" using bn_neg_val assms(1) l by blast
  qed
  have T0: "0 < ?T" using bn_nat_words(1) [of b] bn_nat_words(1) [OF assms(1)] False l vb(1) by simp
  have q: "words_val (take ?T d) = bn_nat a div unat w" "words_val (take ?T d) = bn_nat b div unat w'" "unat r' = bn_nat a mod unat w * 2 ^ j"
  proof -
    show "words_val (take ?T d) = bn_nat b div unat w'" unfolding d(4) [symmetric] using d(3) by simp
    then show "words_val (take ?T d) = bn_nat a div unat w" unfolding vb w' by simp
    have "unat r' = bn_nat b mod unat w'" unfolding d(4) [symmetric] using d(3) by simp
    then show "unat r' = bn_nat a mod unat w * 2 ^ j" unfolding vb w' by (simp add: mult_mod_left)
  qed
  have r: "unat r = bn_nat a mod unat w" if "r = drop_bit j r'" unfolding that unat_drop q(3) by simp
  have fd: "bn_fits (b\<lparr>bn_d := d\<rparr>)" using fb d(2) by (simp add: bn_fits_def)
  note u = assms(3) [unfolded BN_div_word_def Let_def, folded j_def, unfolded w'_def [symmetric] b bind.simps d(1)]
  have fin: ?thesis if "bn_wf c" "bn_nat c = words_val (take ?T d)" "bn_neg c \<longleftrightarrow> bn_neg a \<and> bn_nat c \<noteq> 0" "bn_flags c = bn_flags a" "r = drop_bit j r'"
  proof -
    have "int (bn_nat c) = \<bar>bn_val a\<bar> div int (unat w)" unfolding that(2) q(1) by (simp add: bn_val_def zdiv_int)
    moreover have "bn_nat a = 0 \<longrightarrow> bn_nat c = 0" unfolding that(2) q(1) by simp
    ultimately have "bn_val c = sgn (bn_val a) * (\<bar>bn_val a\<bar> div int (unat w))"
      using that(3) bn_neg_nat [OF assms(1)] by (cases "bn_neg a"; cases "bn_nat a = 0") (simp_all add: bn_val_def split: if_splits)
    then show ?thesis using that r by simp
  qed
  show ?thesis
  proof (cases "d ! (?T - 1) = 0")
    case True
    have v: "words_val (take ?T d) = words_val (take (?T - 1) d)"
      using words_val_take_Suc [of "?T - 1" d] True T0 T d(2) by simp
    show ?thesis
    proof (cases "?T = 1")
      case True
      then have c: "c = b\<lparr>bn_d := d, bn_top := 0, bn_neg := False\<rparr>" "r = drop_bit j r'" using u \<open>d ! (?T - 1) = 0\<close> assms(2) False by simp_all
      show ?thesis using fb d(2) c(2) l v True by (intro fin) (simp_all add: c(1) bn_wf_def bn_fits_def bn_nat_def)
    next
      case False
      then have c: "c = b\<lparr>bn_d := d, bn_top := ?T - 1\<rparr>" "r = drop_bit j r'" using u True T0 assms(2) \<open>bn_top a \<noteq> 0\<close> by simp_all
      have n: "bn_nat c = words_val (take ?T d)" unfolding c(1) using v by (simp add: bn_nat_def)
      have top: "0 < ?T - 1" "?T - 1 = (?T - 1 - 1) + 1" using False T0 by linarith+
      have lo: "2 ^ (64 * (?T - 1)) \<le> bn_nat b" using bn_top_word [OF fb T0] l T0 by (simp add: bn_wf_def)
      have "2 ^ (64 * (?T - 1)) = 2 ^ (64 * (?T - 1 - 1)) * (2 :: nat) ^ 64" unfolding power_add [symmetric] using top(1) by (intro arg_cong2 [where f = power]) simp_all
      moreover have "2 ^ (64 * (?T - 1 - 1)) * unat w' \<le> 2 ^ (64 * (?T - 1 - 1)) * 2 ^ 64" using unat_u64 [of w'] by (intro mult_le_mono2) linarith
      ultimately have "2 ^ (64 * (?T - 1 - 1)) * unat w' \<le> bn_nat b" using lo by linarith
      then have "2 ^ (64 * (?T - 1 - 1)) \<le> bn_nat b div unat w'" using w'0 by (simp add: less_eq_div_iff_mult_less_eq)
      then have "2 ^ (64 * (bn_top c - 1)) \<le> bn_nat c" unfolding n q(2) by (simp add: c(1))
      moreover have fc: "bn_fits c" unfolding c(1) using fd by (auto simp: bn_fits_def)
      ultimately have w0: "bn_d c ! (bn_top c - 1) \<noteq> 0" using bn_top_word [OF fc] top(1) by (simp add: c(1))
      note w = w0 bn_top_nz [OF fc _ w0]
      show ?thesis using c(2) l vb n w fc top(1) by (intro fin) (simp_all add: c(1) bn_wf_def)
    qed
  next
    case False
    then have c: "c = b\<lparr>bn_d := d\<rparr>" "r = drop_bit j r'" using u T0 assms(2) \<open>bn_top a \<noteq> 0\<close> by simp_all
    have "bn_nat c \<noteq> 0" using bn_top_nz [of c] fd T0 False unfolding c(1) by simp
    then show ?thesis using fd c(2) l vb False T0 by (intro fin) (simp_all add: c(1) bn_wf_def bn_nat_def)
  qed
qed

text \<open>The loop for a divisor of at most 33 bits keeps the remainder below it.\<close>

lemma mod_half:
  assumes "unat r < unat w" "unat w \<le> 2 ^ 32" "unat h < 2 ^ 32"
  shows "unat ((push_bit BN_BITS4 r OR h) mod w) = (unat r * 2 ^ 32 + unat h) mod unat (w :: u64)"
proof -
  have "unat r < 2 ^ 32" using assms by linarith
  then have "unat r * 2 ^ 32 < 2 ^ 64" by simp
  then have "unat (push_bit 32 r OR h) = unat r * 2 ^ 32 + unat h" using assms(3) by (intro unat_or_shift) simp_all
  then show ?thesis by (simp only: BN_BITS4_def unat_mod)
qed

lemma mod_shift: "(x mod w * a + b) mod w = (x * a + b) mod (w :: nat)"
  by (metis mod_add_left_eq mod_mult_left_eq)

lemma mod_word_loop:
  "n \<le> length d \<Longrightarrow> unat r < unat w \<Longrightarrow> unat w \<le> 2 ^ 32 \<Longrightarrow>
   unat (mod_word_loop d w n r) = (unat r * 2 ^ (64 * n) + words_val (take n d)) mod unat w"
proof (induction n arbitrary: r)
  case (Suc i)
  let ?l = "d ! i"
  define r1 where "r1 = (push_bit BN_BITS4 r OR HBITS ?l) mod w"
  define r2 where "r2 = (push_bit BN_BITS4 r1 OR LBITS ?l) mod w"
  have s: "mod_word_loop d w (Suc i) r = mod_word_loop d w i r2" by (simp add: r1_def r2_def HBITS_def LBITS_def Let_def)
  have w0: "0 < unat w" using Suc.prems(2) by linarith
  have r1: "unat r1 = (unat r * 2 ^ 32 + unat (HBITS ?l)) mod unat w" unfolding r1_def by (rule mod_half [OF Suc.prems(2,3) halves_less(2)])
  then have "unat r1 < unat w" using w0 by simp
  then have "unat r2 = (unat r1 * 2 ^ 32 + unat (LBITS ?l)) mod unat w" unfolding r2_def by (rule mod_half [OF _ Suc.prems(3) halves_less(1)])
  also have "\<dots> = ((unat r * 2 ^ 32 + unat (HBITS ?l)) * 2 ^ 32 + unat (LBITS ?l)) mod unat w" unfolding r1 by (rule mod_shift)
  also have "(unat r * 2 ^ 32 + unat (HBITS ?l)) * 2 ^ 32 + unat (LBITS ?l) = unat r * 2 ^ 64 + unat ?l" using halves [of ?l] by simp
  finally have r2: "unat r2 = (unat r * 2 ^ 64 + unat ?l) mod unat w" .
  have "unat r2 < unat w" unfolding r2 using w0 by simp
  then have "unat (mod_word_loop d w i r2) = (unat r2 * 2 ^ (64 * i) + words_val (take i d)) mod unat w"
    using Suc.prems by (intro Suc.IH) simp_all
  also have "\<dots> = ((unat r * 2 ^ 64 + unat ?l) * 2 ^ (64 * i) + words_val (take i d)) mod unat w" unfolding r2 by (rule mod_shift)
  also have "(unat r * 2 ^ 64 + unat ?l) * 2 ^ (64 * i) + words_val (take i d) = unat r * 2 ^ (64 * Suc i) + words_val (take (Suc i) d)"
  proof -
    have "words_val (take (Suc i) d) = words_val (take i d) + 2 ^ (64 * i) * unat ?l" using words_val_take_Suc [of i d] Suc.prems(1) by simp
    moreover have "unat r * (2 ^ 64 * 2 ^ (64 * i)) = unat r * 2 ^ (64 * Suc i)" unfolding power_add [symmetric] by simp
    ultimately show ?thesis by (simp only: distrib_right mult.assoc mult.commute [of "2 ^ (64 * i)" "unat ?l"])
  qed
  finally show ?case unfolding s .
qed simp

lemma BN_copy:
  assumes "bn_fits a" "bn_wf b" "BN_copy alloc a b = Some c"
  shows "bn_wf c \<and> bn_nat c = bn_nat b \<and> bn_neg c = bn_neg b \<and> bn_flags c = bn_flags a \<and> bn_top c = bn_top b"
proof -
  define n where "n = (if BN_get_flags b BN_FLG_CONSTTIME \<noteq> 0 then length (bn_d b) else bn_top b)"
  have n: "bn_top b \<le> n" "n \<le> length (bn_d b)" using assms(2) by (simp_all add: n_def bn_wf_def bn_fits_def)
  obtain e where e: "bn_wexpand alloc a n = Some e"
      "c = (if bn_top b > 0 then e\<lparr>bn_d := take n (bn_d b) @ drop n (bn_d e)\<rparr> else e)\<lparr>bn_neg := bn_neg b, bn_top := bn_top b\<rparr>"
    using assms(3) by (auto simp: BN_copy_def n_def [symmetric])
  note x = bn_wexpand [OF assms(1) e(1)]
  show ?thesis
  proof (cases "bn_top b = 0")
    case True
    then show ?thesis using x assms(2) unfolding e(2) by (simp add: bn_wf_def bn_fits_def bn_nat_def)
  next
    case False
    then have "bn_top b - 1 < n" using n(1) by linarith
    then show ?thesis using False x n assms(2) unfolding e(2) by (simp add: bn_wf_def bn_fits_def bn_nat_def nth_append)
  qed
qed

lemma BN_dup:
  assumes "bn_wf a"
  shows "\<exists>c. BN_dup True a = Some c \<and> bn_wf c \<and> bn_nat c = bn_nat a \<and> bn_neg c = bn_neg a \<and> bn_top c = bn_top a \<and> BN_get_flags c BN_FLG_STATIC_DATA = 0"
proof -
  define t where "t = (if BN_get_flags a BN_FLG_SECURE \<noteq> 0 then bn_init\<lparr>bn_flags := BN_FLG_MALLOCED OR BN_FLG_SECURE\<rparr> else bn_init\<lparr>bn_flags := BN_FLG_MALLOCED\<rparr>)"
  have t: "(if BN_get_flags a BN_FLG_SECURE \<noteq> 0 then BN_secure_new True else BN_new True) = Some t" "bn_fits t" "BN_get_flags t BN_FLG_STATIC_DATA = 0"
    by (simp_all add: t_def BN_secure_new_def BN_new_def bn_init_def bn_fits_def BN_get_flags_def BN_FLG_MALLOCED_def BN_FLG_SECURE_def BN_FLG_STATIC_DATA_def)
  define n where "n = (if BN_get_flags a BN_FLG_CONSTTIME \<noteq> 0 then length (bn_d a) else bn_top a)"
  have "n \<le> INT_MAX div (4 * BN_BITS2)" using assms by (simp add: n_def bn_wf_def bn_fits_def)
  then have "bn_wexpand True t n \<noteq> None" using t(3) by (simp add: bn_wexpand_None [OF t(2)] not_less)
  then obtain c where c: "BN_copy True t a = Some c" by (auto simp: BN_copy_def n_def [symmetric])
  then have "BN_dup True a = Some c" unfolding BN_dup_def t(1) by simp
  then show ?thesis using BN_copy [OF t(2) assms c] t(3) by (simp add: BN_get_flags_def)
qed

text \<open>When the operations fail: exactly when one more word is needed and the array cannot grow by it.\<close>

lemma set_word_None: "BN_set_word alloc a w = None \<longleftrightarrow> bn_wexpand alloc a 1 = None"
  by (simp add: BN_set_word_def bn_expand_def bn_wexpand_def BN_BITS2_def INT_MAX_def)

lemma wexpand_d: "bn_fits a \<Longrightarrow> length d = length (bn_d a) \<Longrightarrow> bn_wexpand alloc (a\<lparr>bn_d := d\<rparr>) n = None \<longleftrightarrow> bn_wexpand alloc a n = None"
  by (simp add: bn_wexpand_None bn_fits_def BN_get_flags_def)

lemma wexpand_neg: "bn_fits a \<Longrightarrow> bn_wexpand alloc (a\<lparr>bn_neg := b\<rparr>) n = None \<longleftrightarrow> bn_wexpand alloc a n = None"
  by (simp add: bn_wexpand_None bn_fits_def BN_get_flags_def)

lemma carry_word:
  assumes "words_val (take n d) + 2 ^ (64 * n) * unat (c :: u64) = v" "n \<le> length d"
  shows "c \<noteq> 0 \<longleftrightarrow> 2 ^ (64 * n) \<le> v"
proof (cases "c = 0")
  case True
  then show ?thesis using assms words_val_less [of "take n d"] by simp
next
  case False
  then have "1 \<le> unat c" by (simp add: Suc_le_eq unat_gt_0)
  then have "2 ^ (64 * n) * 1 \<le> (2 :: nat) ^ (64 * n) * unat c" by (intro mult_left_mono) simp_all
  then have "2 ^ (64 * n) \<le> v" using assms(1) by linarith
  then show ?thesis using False by blast
qed

lemma BN_add_word_None:
  assumes "bn_wf a" "\<not> bn_neg a"
  shows "BN_add_word alloc a w = None \<longleftrightarrow> bn_wexpand alloc a (bn_top a + 1) = None \<and> 2 ^ (64 * bn_top a) \<le> bn_nat a + unat w"
proof -
  have f: "bn_fits a" "bn_top a \<le> length (bn_d a)" using assms(1) by (simp_all add: bn_wf_def bn_fits_def)
  consider "w = 0" | "w \<noteq> 0" "bn_top a = 0" | "w \<noteq> 0" "bn_top a \<noteq> 0" by blast
  then show ?thesis
  proof cases
    case 1
    have "bn_nat a < 2 ^ (64 * bn_top a)" using words_val_less [of "take (bn_top a) (bn_d a)"] f(2) by (simp add: bn_nat_def min_absorb2)
    then show ?thesis using 1 by (simp add: BN_add_word.simps [of alloc a])
  next
    case 2
    then have "1 \<le> bn_nat a + unat w" using unat_gt_0 [of w] by linarith
    then show ?thesis using 2 by (simp add: BN_add_word.simps [of alloc a] BN_is_zero_def set_word_None)
  next
    case 3
    obtain d i w' where l: "add_word_loop (bn_d a) 0 (bn_top a) w = (d, i, w')" by (metis surj_pair)
    have h: "length d = length (bn_d a)" "i \<le> bn_top a" "i < bn_top a \<longrightarrow> w' = 0"
      "words_val (take (bn_top a) d) + 2 ^ (64 * bn_top a) * unat w' = bn_nat a + unat w"
      using add_word_loop [OF _ l] f(2) by (simp_all add: bn_nat_def)
    have c: "w' \<noteq> 0 \<longleftrightarrow> 2 ^ (64 * bn_top a) \<le> bn_nat a + unat w" by (rule carry_word [OF h(4)]) (simp add: h(1) f(2))
    have "w' \<noteq> 0 \<and> i = bn_top a \<longleftrightarrow> w' \<noteq> 0" using h(2,3) by auto
    then show ?thesis using 3 assms(2) wexpand_d [OF f(1) h(1)] c by (simp add: BN_add_word.simps [of alloc a] BN_is_zero_def l)
  qed
qed

lemma BN_sub_word_None:
  assumes "bn_wf a" "\<not> bn_neg a"
  shows "BN_sub_word alloc a w = None \<longleftrightarrow> bn_wexpand alloc a (bn_top a + 1) = None \<and> w \<noteq> 0 \<and> bn_top a = 0"
proof -
  have f: "bn_top a \<le> length (bn_d a)" using assms(1) by (simp add: bn_wf_def bn_fits_def)
  have "\<exists>d j. sub_word_loop (bn_d a) 0 w = Some (d, j)" if "w \<noteq> 0" "bn_top a \<noteq> 0" "\<not> (bn_top a = 1 \<and> bn_d a ! 0 < w)"
    using sub_word_loop [of 0 "bn_top a" "bn_d a" w] f that(1) sub_word_le [OF assms(1) that(2,3)] by (auto simp: bn_nat_def unat_gt_0)
  then show ?thesis using assms(2) by (auto simp: BN_sub_word.simps [of alloc a] BN_is_zero_def set_word_None)
qed

lemma signed_word_None:
  assumes "bn_wf a"
  shows "BN_add_word alloc a w = None \<longleftrightarrow> bn_wexpand alloc a (bn_top a + 1) = None \<and> 2 ^ (64 * bn_top a) \<le> \<bar>bn_val a + int (unat w)\<bar>"
    "BN_sub_word alloc a w = None \<longleftrightarrow> bn_wexpand alloc a (bn_top a + 1) = None \<and> 2 ^ (64 * bn_top a) \<le> \<bar>bn_val a - int (unat w)\<bar>"
proof -
  have f: "bn_fits a" using assms by (simp add: bn_wf_def)
  have B: "bn_nat a < 2 ^ (64 * bn_top a)"
    using words_val_less [of "take (bn_top a) (bn_d a)"] f by (simp add: bn_nat_def bn_fits_def min_absorb2)
  have Bi: "int (bn_nat a) < 2 ^ (64 * bn_top a)" using B by (metis of_nat_less_iff of_nat_numeral of_nat_power)
  have p: "bn_wf (a\<lparr>bn_neg := False\<rparr>)" "bn_nat (a\<lparr>bn_neg := False\<rparr>) = bn_nat a" using bn_wf_neg [OF assms, of False] by simp_all
  have cast: "2 ^ (64 * bn_top a) \<le> int (bn_nat a) + int (unat w) \<longleftrightarrow> 2 ^ (64 * bn_top a) \<le> bn_nat a + unat w"
    by (metis of_nat_add of_nat_le_iff of_nat_numeral of_nat_power)
  have W: "int (unat w) < 2 ^ 64" using unat_u64 [of w] by (metis of_nat_less_iff of_nat_numeral of_nat_power)
  have top: "bn_top a \<noteq> 0 \<Longrightarrow> (2 :: int) ^ 64 \<le> 2 ^ (64 * bn_top a)" by (intro power_increasing) simp_all
  have zero: "bn_top a = 0 \<Longrightarrow> bn_nat a = 0" by (simp add: bn_nat_def)
  have w0: "w = 0 \<longleftrightarrow> unat w = 0" by (simp add: unat_eq_zero)
  have sub: "\<not> 2 ^ (64 * bn_top a) \<le> \<bar>int (bn_nat a) - int (unat w)\<bar> \<longleftrightarrow> w = 0 \<or> bn_top a \<noteq> 0"
  proof (cases "bn_top a = 0")
    case True
    then show ?thesis using zero w0 by (simp only: mult_0_right power_0 of_nat_0) linarith
  next
    case False
    have "\<bar>int (bn_nat a) - int (unat w)\<bar> < 2 ^ (64 * bn_top a)" using Bi W top [OF False] by linarith
    then show ?thesis using False by simp
  qed
  have nz: "bn_neg a \<Longrightarrow> bn_top a \<noteq> 0" using assms by (auto simp: bn_wf_def)
  show "BN_add_word alloc a w = None \<longleftrightarrow> bn_wexpand alloc a (bn_top a + 1) = None \<and> 2 ^ (64 * bn_top a) \<le> \<bar>bn_val a + int (unat w)\<bar>"
  proof (cases "bn_neg a")
    case True
    have v: "\<bar>bn_val a + int (unat w)\<bar> = \<bar>int (bn_nat a) - int (unat w)\<bar>" using True by (simp add: bn_val_def abs_minus_commute)
    have "BN_add_word alloc a w \<noteq> None"
      using True nz BN_sub_word_None [OF p(1), of alloc w] by (simp add: BN_add_word.simps [of alloc a] BN_is_zero_def)
    then show ?thesis unfolding v using sub nz [OF True] by simp
  next
    case False
    have v: "\<bar>bn_val a + int (unat w)\<bar> = int (bn_nat a) + int (unat w)" using False by (simp add: bn_val_def)
    show ?thesis unfolding v cast by (rule BN_add_word_None [OF assms False])
  qed
  show "BN_sub_word alloc a w = None \<longleftrightarrow> bn_wexpand alloc a (bn_top a + 1) = None \<and> 2 ^ (64 * bn_top a) \<le> \<bar>bn_val a - int (unat w)\<bar>"
  proof (cases "bn_neg a")
    case True
    have v: "\<bar>bn_val a - int (unat w)\<bar> = int (bn_nat a) + int (unat w)" using True by (simp only: bn_val_def if_True)
    have "w = 0 \<Longrightarrow> \<not> 2 ^ (64 * bn_top a) \<le> bn_nat a + unat w" using B by simp
    then show ?thesis
      unfolding v cast using True nz BN_add_word_None [OF p(1), of alloc w] wexpand_neg [OF f, of alloc False] p(2)
      by (auto simp: BN_sub_word.simps [of alloc a] BN_is_zero_def)
  next
    case False
    have v: "bn_val a = int (bn_nat a)" using False by (simp add: bn_val_def)
    show ?thesis unfolding v using BN_sub_word_None [OF assms False, of alloc w] sub by blast
  qed
qed

lemma BN_mul_word_None:
  assumes "bn_wf a"
  shows "BN_mul_word alloc a w = None \<longleftrightarrow> bn_wexpand alloc a (bn_top a + 1) = None \<and> 2 ^ (64 * bn_top a) \<le> \<bar>bn_val a * int (unat w)\<bar>"
proof -
  have f: "bn_fits a" "bn_top a \<le> length (bn_d a)" using assms by (simp_all add: bn_wf_def bn_fits_def)
  obtain d l where m: "bn_mul_words (bn_d a) (bn_d a) (bn_top a) w = (d, l)" by fastforce
  note v = bn_mul_words [OF f(2,2) m, folded bn_nat_def]
  have c: "l \<noteq> 0 \<longleftrightarrow> 2 ^ (64 * bn_top a) \<le> bn_nat a * unat w" by (rule carry_word [OF v(3)]) (simp add: v(1) f(2))
  have cast: "2 ^ (64 * bn_top a) \<le> \<bar>bn_val a * int (unat w)\<bar> \<longleftrightarrow> 2 ^ (64 * bn_top a) \<le> bn_nat a * unat w"
    by (simp only: abs_mult bn_val_def abs_minus_cancel abs_of_nat if_distrib [of abs] if_cancel)
      (metis of_nat_le_iff of_nat_mult of_nat_numeral of_nat_power)
  have z: "bn_top a = 0 \<Longrightarrow> bn_nat a = 0" by (simp add: bn_nat_def)
  show ?thesis
    unfolding cast using c z wexpand_d [OF f(1) v(1)] by (auto simp: BN_mul_word_def m Let_def)
qed

lemma BN_div_word_None:
  assumes "bn_wf a"
  shows "BN_div_word alloc a w = None \<longleftrightarrow> bn_wexpand alloc a (bn_top a + 1) = None \<and> w \<noteq> 0 \<and> bn_top a \<noteq> 0"
proof (cases "w \<noteq> 0 \<and> bn_top a \<noteq> 0")
  case True
  define j where "j = BN_BITS2 - BN_num_bits_word w"
  have w: "w \<noteq> 0" using True by simp
  note nb = BN_num_bits_word_div [OF w, folded BN_BITS2_def, folded j_def]
  have "0 < BN_num_bits_word w" using nb unat_u64 [of w] by (cases "BN_num_bits_word w = 0") (auto simp: j_def BN_BITS2_def)
  then have "j div BN_BITS2 = 0" by (simp add: j_def BN_BITS2_def)
  then have sh: "BN_lshift alloc a a (int j) = None \<longleftrightarrow> bn_wexpand alloc a (bn_top a + 1) = None"
    by (simp add: BN_lshift_def bn_lshift_fixed_top_def Let_def)
  have "div_word_loop (bn_d b) (push_bit j w) (bn_top b) 0 \<noteq> None" if b: "BN_lshift alloc a a (int j) = Some b" for b
  proof -
    have "bn_fits a" using assms by (simp add: bn_wf_def)
    note l = BN_lshift [OF assms this b]
    have "unat (push_bit j w) = unat w * 2 ^ j" using nb by (intro unat_push) (simp add: BN_BITS2_def)
    then have "0 < unat (push_bit j w)" using w by (simp add: unat_gt_0)
    then show ?thesis using div_word_loop [of "bn_top b" "bn_d b" 0 "push_bit j w"] l by (auto simp: bn_wf_def bn_fits_def)
  qed
  then have "BN_div_word alloc a w = None \<longleftrightarrow> BN_lshift alloc a a (int j) = None"
    using True by (cases "BN_lshift alloc a a (int j)") (auto simp: BN_div_word_def Let_def j_def [symmetric] bind_eq_None_conv split: prod.splits)
  then show ?thesis using sh True by simp
qed (auto simp: BN_div_word_def)

lemma BN_mod_word:
  assumes "bn_wf a"
  shows "BN_mod_word alloc a w =
    (if w = 0 \<or> 2 ^ 32 < unat w \<and> (\<not> alloc \<or> bn_top a = INT_MAX div (4 * BN_BITS2)) then - 1
     else word_of_nat (bn_nat a mod unat w))"
proof -
  have big: "w > push_bit BN_BITS4 1 \<longleftrightarrow> 2 ^ 32 < unat w" by (simp add: BN_BITS4_def word_less_nat_alt)
  have bk: "r = word_of_nat (bn_nat a mod unat w)" if "unat r = bn_nat a mod unat w" for r :: u64 using that [symmetric] by simp
  consider "w = 0" | "w \<noteq> 0" "unat w \<le> 2 ^ 32" | "2 ^ 32 < unat w" "\<not> alloc" | "2 ^ 32 < unat w" "alloc" by linarith
  then show ?thesis
  proof cases
    case 1
    then show ?thesis by (simp add: BN_mod_word_def)
  next
    case 2
    then have "BN_mod_word alloc a w = mod_word_loop (bn_d a) w (bn_top a) 0" using big by (simp add: BN_mod_word_def)
    then show ?thesis using bk mod_word_loop [of "bn_top a" "bn_d a" 0 w] 2 assms by (simp add: bn_nat_def bn_wf_def bn_fits_def unat_gt_0)
  next
    case 3
    then have "BN_dup alloc a = None" by (simp add: BN_dup_def BN_new_def BN_secure_new_def)
    then show ?thesis using 3 big by (auto simp: BN_mod_word_def)
  next
    case 4
    have w: "w \<noteq> 0" using 4 by auto
    obtain t where t: "BN_dup True a = Some t" "bn_wf t" "bn_nat t = bn_nat a" "bn_top t = bn_top a" "BN_get_flags t BN_FLG_STATIC_DATA = 0"
      using BN_dup [OF assms] by blast
    have f: "bn_fits t" "bn_fits a" using t(2) assms by (simp_all add: bn_wf_def)
    have m: "INT_MAX div (4 * BN_BITS2) \<noteq> 0" by (simp add: INT_MAX_def BN_BITS2_def)
    have "BN_div_word True t w = None \<longleftrightarrow> bn_top a = INT_MAX div (4 * BN_BITS2)"
      using BN_div_word_None [OF t(2), of True w] bn_wexpand_None [OF f(1), of True "bn_top a + 1"] f t(4,5) w m
      by (auto simp: bn_fits_def)
    then show ?thesis
      using 4 w big t(1) bk BN_div_word [OF t(2) w] t(3)
      by (cases "BN_div_word True t w") (auto simp: BN_mod_word_def)
  qed
qed

text \<open>C36: for every number in normal form and every word, 0 included, adding, subtracting, multiplying by and dividing by
  the word give the number in normal form with the exact result (the quotient rounded towards zero, the remainder that of the
  magnitudes), and fail exactly when the result (for a division the number) needs one more word and \<open>bn_wexpand\<close> cannot provide it.
  \<open>BN_mod_word\<close> gives the remainder of the magnitudes on both of its paths, except that it reports an error for the
  word 0 and when the copy that its second path divides cannot be allocated or extended.\<close>

theorem bn_word_ops:
  assumes "bn_wf a"
  shows "(\<forall>c. BN_add_word alloc a w = Some c \<longrightarrow> bn_wf c \<and> bn_val c = bn_val a + int (unat w)) \<and>
    (BN_add_word alloc a w = None \<longleftrightarrow>
       bn_wexpand alloc a (bn_top a + 1) = None \<and> 2 ^ (64 * bn_top a) \<le> \<bar>bn_val a + int (unat w)\<bar>) \<and>
    (\<forall>c. BN_sub_word alloc a w = Some c \<longrightarrow> bn_wf c \<and> bn_val c = bn_val a - int (unat w)) \<and>
    (BN_sub_word alloc a w = None \<longleftrightarrow>
       bn_wexpand alloc a (bn_top a + 1) = None \<and> 2 ^ (64 * bn_top a) \<le> \<bar>bn_val a - int (unat w)\<bar>) \<and>
    (\<forall>c. BN_mul_word alloc a w = Some c \<longrightarrow> bn_wf c \<and> bn_val c = bn_val a * int (unat w)) \<and>
    (BN_mul_word alloc a w = None \<longleftrightarrow>
       bn_wexpand alloc a (bn_top a + 1) = None \<and> 2 ^ (64 * bn_top a) \<le> \<bar>bn_val a * int (unat w)\<bar>) \<and>
    (\<forall>c r. BN_div_word alloc a w = Some (c, r) \<longrightarrow>
       (if w = 0 then c = a \<and> r = - 1
        else bn_wf c \<and> bn_val c = sgn (bn_val a) * (\<bar>bn_val a\<bar> div int (unat w)) \<and> unat r = bn_nat a mod unat w)) \<and>
    (BN_div_word alloc a w = None \<longleftrightarrow> bn_wexpand alloc a (bn_top a + 1) = None \<and> w \<noteq> 0 \<and> bn_top a \<noteq> 0) \<and>
    BN_mod_word alloc a w =
      (if w = 0 \<or> 2 ^ 32 < unat w \<and> (\<not> alloc \<or> bn_top a = INT_MAX div (4 * BN_BITS2)) then - 1
       else word_of_nat (bn_nat a mod unat w))"
proof -
  have "\<forall>c r. BN_div_word alloc a w = Some (c, r) \<longrightarrow>
      (if w = 0 then c = a \<and> r = - 1
       else bn_wf c \<and> bn_val c = sgn (bn_val a) * (\<bar>bn_val a\<bar> div int (unat w)) \<and> unat r = bn_nat a mod unat w)"
    using BN_div_word [OF assms] by (auto simp: BN_div_word_def [of alloc a 0])
  then show ?thesis
    using BN_signed_word [OF assms, of alloc w] BN_mul_word [OF assms, of alloc w] signed_word_None [OF assms, of alloc w]
      BN_mul_word_None [OF assms, of alloc w] BN_div_word_None [OF assms, of alloc w] BN_mod_word [OF assms, of alloc w] by blast
qed

theorem bn_word_ops_witness:
  "\<exists>p q m d r. BN_add_word True \<lparr>bn_d = [5, 0], bn_top = 1, bn_neg = False, bn_flags = 0\<rparr> 3 = Some p \<and> bn_val p = 8 \<and>
     BN_sub_word True \<lparr>bn_d = [5, 0], bn_top = 1, bn_neg = False, bn_flags = 0\<rparr> 3 = Some q \<and> bn_val q = 2 \<and>
     BN_mul_word True \<lparr>bn_d = [5, 0], bn_top = 1, bn_neg = False, bn_flags = 0\<rparr> 3 = Some m \<and> bn_val m = 15 \<and>
     BN_div_word True \<lparr>bn_d = [5, 0], bn_top = 1, bn_neg = False, bn_flags = 0\<rparr> 3 = Some (d, r) \<and> bn_val d = 1 \<and> unat r = 2 \<and>
     unat (BN_mod_word True \<lparr>bn_d = [5, 0], bn_top = 1, bn_neg = False, bn_flags = 0\<rparr> 3) = 2"
proof -
  let ?a = "\<lparr>bn_d = [5, 0], bn_top = 1, bn_neg = False, bn_flags = 0\<rparr>"
  have w: "bn_wf ?a" "bn_val ?a = 5" "bn_nat ?a = 5" "bn_top ?a < length (bn_d ?a)"
    by (simp_all add: bn_wf_def bn_fits_def bn_val_def bn_nat_def INT_MAX_def BN_BITS2_def)
  have n: "(3 :: u64) \<noteq> 0" "unat (3 :: u64) = 3" by simp_all
  note h = bn_word_ops [OF w(1), of True 3]
  have x: "bn_wexpand True ?a (bn_top ?a + 1) \<noteq> None" by (simp add: bn_wexpand_def)
  have ne: "BN_add_word True ?a 3 \<noteq> None" "BN_sub_word True ?a 3 \<noteq> None" "BN_mul_word True ?a 3 \<noteq> None" "BN_div_word True ?a 3 \<noteq> None"
    using h x by blast+
  then obtain p q m y where e: "BN_add_word True ?a 3 = Some p" "BN_sub_word True ?a 3 = Some q" "BN_mul_word True ?a 3 = Some m"
      "BN_div_word True ?a 3 = Some y" by blast
  obtain d r where x: "y = (d, r)" by fastforce
  have "bn_val p = bn_val ?a + int (unat (3 :: u64))" "bn_val q = bn_val ?a - int (unat (3 :: u64))" "bn_val m = bn_val ?a * int (unat (3 :: u64))"
    using h e by blast+
  moreover have "bn_val d = sgn (bn_val ?a) * (\<bar>bn_val ?a\<bar> div int (unat (3 :: u64))) \<and> unat r = bn_nat ?a mod unat (3 :: u64)"
    using h e(4) n(1) unfolding x by (metis (no_types, lifting))
  moreover have "unat (BN_mod_word True ?a 3) = bn_nat ?a mod unat (3 :: u64)" using h n w(3) by simp
  ultimately show ?thesis using e x w(2,3) n(2) by simp
qed

end
