(* ===== verification/BnMul.thy ===== *)
theory BnMul
  imports BnAsm
begin

text \<open>
  Multiplication and squaring, \<^verbatim>\<open>bn_mul.c\<close> and \<^verbatim>\<open>bn_sqr.c\<close>: row by row, by the unrolled products of
  \<^verbatim>\<open>bn_asm.c\<close> and by Karatsuba's recursion. An array argument is the list of the words from where the pointer points
  to the end of the array; a function that writes an array returns this list. The recursion writes its result \<open>r\<close>
  and a scratch array \<open>t\<close> and returns both. \<open>BN_MUL_COMBA\<close>, \<open>BN_SQR_COMBA\<close> and \<open>BN_RECURSION\<close> are defined by
  \<^verbatim>\<open>bn_local.h\<close>.
\<close>

definition BN_MULL_SIZE_NORMAL :: nat where "BN_MULL_SIZE_NORMAL = 16"
definition BN_MUL_RECURSIVE_SIZE_NORMAL :: nat where "BN_MUL_RECURSIVE_SIZE_NORMAL = 16"
definition BN_SQR_RECURSIVE_SIZE_NORMAL :: nat where "BN_SQR_RECURSIVE_SIZE_NORMAL = 16"
definition BN_MUL_LOW_RECURSIVE_SIZE_NORMAL :: nat where "BN_MUL_LOW_RECURSIVE_SIZE_NORMAL = 32"

text \<open>A write through a pointer \<open>k\<close> words into an array.\<close>

definition at :: "nat \<Rightarrow> (u64 list \<Rightarrow> u64 list) \<Rightarrow> u64 list \<Rightarrow> u64 list" where
  "at k f r = take k r @ f (drop k r)"

definition memset0 :: "nat \<Rightarrow> u64 list \<Rightarrow> u64 list" where
  "memset0 n r = replicate n 0 @ drop n r"

subsection \<open>Differences of arrays of different lengths\<close>

text \<open>The words that only \<open>b\<close> has, and those that only \<open>a\<close> has: the latter are copied once the borrow is used up. (The
  case of a round that is left early has no words left to copy.)\<close>

fun sub_part_b :: "u64 list \<Rightarrow> nat \<Rightarrow> u64 \<Rightarrow> u64 list \<times> u64" where
  "sub_part_b b 0 c = ([], c)"
| "sub_part_b b (Suc n) c =
    (let t = b ! 0;
         r = (0 - t - c) AND BN_MASK2;
         (rs, c) = sub_part_b (drop 1 b) n (if t \<noteq> 0 then 1 else c)
     in (r # rs, c))"

fun sub_part_a :: "u64 list \<Rightarrow> nat \<Rightarrow> u64 \<Rightarrow> u64 list \<times> u64" where
  "sub_part_a a 0 c = ([], c)"
| "sub_part_a a (Suc n) c =
    (if c \<noteq> 0 then
       let t = a ! 0;
           r = (t - c) AND BN_MASK2;
           (rs, c) = sub_part_a (drop 1 a) n (if t \<noteq> 0 then 0 else c)
       in (r # rs, c)
     else (take (Suc n) a, c))"

definition bn_sub_part_words :: "u64 list \<Rightarrow> u64 list \<Rightarrow> u64 list \<Rightarrow> nat \<Rightarrow> int \<Rightarrow> u64 list \<times> u64" where
  "bn_sub_part_words r a b cl dl =
    (let (r, c) = bn_sub_words r a b cl
     in if dl = 0 then (r, c)
        else
          let (rs, c) = (if dl < 0 then sub_part_b (drop cl b) (nat (- dl)) c else sub_part_a (drop cl a) (nat dl) c)
          in (take cl r @ rs @ drop (cl + length rs) r, c))"

subsection \<open>Products row by row\<close>

text \<open>Each row adds the product with one more word of \<open>b\<close>, one word further up in \<open>r\<close>.\<close>

fun mul_rows :: "u64 list \<Rightarrow> nat \<Rightarrow> u64 list \<Rightarrow> nat \<Rightarrow> u64 list \<Rightarrow> u64 list" where
  "mul_rows a na b 0 r = r"
| "mul_rows a na b (Suc nb) r =
    (let (x, c) = bn_mul_add_words (drop 1 r) a na (b ! 1)
     in take 1 r @ mul_rows a na (drop 1 b) nb (x[na := c]))"

definition bn_mul_normal :: "u64 list \<Rightarrow> u64 list \<Rightarrow> nat \<Rightarrow> u64 list \<Rightarrow> nat \<Rightarrow> u64 list" where
  "bn_mul_normal r a na b nb =
    (let (a, na, b, nb) = (if na < nb then (b, nb, a, na) else (a, na, b, nb))
     in if nb = 0 then fst (bn_mul_words r a na 0)
        else let (r, c) = bn_mul_words r a na (b ! 0) in mul_rows a na b (nb - 1) (r[na := c]))"

text \<open>The lower half of a product.\<close>

fun mul_low_rows :: "u64 list \<Rightarrow> u64 list \<Rightarrow> nat \<Rightarrow> u64 list \<Rightarrow> u64 list" where
  "mul_low_rows a b 0 r = r"
| "mul_low_rows a b (Suc n) r =
    (if n = 0 then r else take 1 r @ mul_low_rows a (drop 1 b) n (fst (bn_mul_add_words (drop 1 r) a n (b ! 1))))"

definition bn_mul_low_normal :: "u64 list \<Rightarrow> u64 list \<Rightarrow> u64 list \<Rightarrow> nat \<Rightarrow> u64 list" where
  "bn_mul_low_normal r a b n = mul_low_rows a b n (fst (bn_mul_words r a n (b ! 0)))"

subsection \<open>Karatsuba's recursion\<close>

text \<open>The carry of the middle term, from word \<open>p\<close> up; the loop ends before the end of the array.\<close>

fun inc_words :: "u64 list \<Rightarrow> u64 list" where
  "inc_words [] = []"
| "inc_words (lo # p) = (let ln = (lo + 1) AND BN_MASK2 in ln # (if ln = 0 then inc_words p else p))"

fun add_carry_at :: "u64 \<Rightarrow> u64 list \<Rightarrow> u64 list" where
  "add_carry_at c1 [] = []"
| "add_carry_at c1 (lo # p) = (let ln = (lo + c1) AND BN_MASK2 in ln # (if ln < c1 then inc_words p else p))"

text \<open>The end of the functions: the middle term is made of the three products and added to the outer ones.\<close>

definition mul_combine :: "bool \<Rightarrow> nat \<Rightarrow> u64 list \<Rightarrow> u64 list \<Rightarrow> u64 list \<times> u64 list" where
  "mul_combine neg n r t =
    (let n2 = 2 * n;
         (t, k) = bn_add_words t r (drop n2 r) n2;
         c1 = uint k;
         (x, c1) =
           (if neg then let (x, k) = bn_sub_words (drop n2 t) t (drop n2 t) n2 in (x, c1 - uint k)
            else let (x, k) = bn_add_words (drop n2 t) (drop n2 t) t n2 in (x, c1 + uint k));
         t = take n2 t @ x;
         (x, k) = bn_add_words (drop n r) (drop n r) (drop n2 t) n2;
         r = take n r @ x;
         c1 = c1 + uint k
     in (if c1 \<noteq> 0 then at (n + n2) (add_carry_at (word_of_int c1)) r else r, t))"

text \<open>One difference of halves, written into the scratch array.\<close>

definition put_diff :: "nat \<Rightarrow> u64 list \<Rightarrow> u64 list \<Rightarrow> nat \<Rightarrow> int \<Rightarrow> u64 list \<Rightarrow> u64 list" where
  "put_diff k x y cl dl t = at k (\<lambda>p. fst (bn_sub_part_words p x y cl dl)) t"

text \<open>The cases of the two comparisons: \<open>c1 * 3 + c2\<close> with \<open>c1\<close> for \<open>a\<close> and \<open>c2\<close> for \<open>b\<close>.\<close>

definition mul_switch :: "u64 list \<Rightarrow> u64 list \<Rightarrow> nat \<Rightarrow> nat \<Rightarrow> nat \<Rightarrow> int" where
  "mul_switch a b n tna tnb =
    bn_cmp_part_words a (drop n a) tna (int n - int tna) * 3 + bn_cmp_part_words (drop n b) b tnb (int tnb - int n)"

definition mul_diffs :: "int \<Rightarrow> u64 list \<Rightarrow> u64 list \<Rightarrow> nat \<Rightarrow> nat \<Rightarrow> nat \<Rightarrow> u64 list \<Rightarrow> bool \<times> bool \<times> u64 list" where
  "mul_diffs sw a b n tna tnb t =
    (if sw = -4 then
       (False, False, put_diff n b (drop n b) tnb (int n - int tnb) (put_diff 0 (drop n a) a tna (int tna - int n) t))
     else if sw = -3 then (True, False, t)
     else if sw = -2 then
       (False, True, put_diff n (drop n b) b tnb (int tnb - int n) (put_diff 0 (drop n a) a tna (int tna - int n) t))
     else if sw = -1 \<or> sw = 0 \<or> sw = 1 then (True, False, t)
     else if sw = 2 then
       (False, True, put_diff n b (drop n b) tnb (int n - int tnb) (put_diff 0 a (drop n a) tna (int n - int tna) t))
     else if sw = 3 then (True, False, t)
     else if sw = 4 then
       (False, False, put_diff n (drop n b) b tnb (int tnb - int n) (put_diff 0 a (drop n a) tna (int n - int tna) t))
     else (False, False, t))"

text \<open>The three products of halves of four or eight words.\<close>

definition mul_comba_halves ::
  "(u64 list \<Rightarrow> u64 list \<Rightarrow> u64 list \<Rightarrow> u64 list) \<Rightarrow> bool \<Rightarrow> u64 list \<Rightarrow> u64 list \<Rightarrow> u64 list \<Rightarrow> nat \<Rightarrow> u64 list \<Rightarrow> u64 list \<times> u64 list" where
  "mul_comba_halves comba zero r a b n t =
    (let t = at (2 * n) (if \<not> zero then (\<lambda>p. comba p t (drop n t)) else memset0 (2 * n)) t;
         r = comba r a b
     in (at (2 * n) (\<lambda>p. comba p (drop n a) (drop n b)) r, t))"

text \<open>
  \<open>n2\<close> is a power of two, \<open>a\<close> and \<open>b\<close> have \<open>n2 + dna\<close> and \<open>n2 + dnb\<close> words. The first \<open>n2\<close> words of \<open>t\<close> take the two
  differences, the next \<open>n2\<close> their product; the calls below use \<open>t\<close> from word \<open>2 * n2\<close> on.
\<close>

function bn_mul_recursive :: "u64 list \<Rightarrow> u64 list \<Rightarrow> u64 list \<Rightarrow> nat \<Rightarrow> int \<Rightarrow> int \<Rightarrow> u64 list \<Rightarrow> u64 list \<times> u64 list" where
  "bn_mul_recursive r a b n2 dna dnb t =
    (if n2 = 8 \<and> dna = 0 \<and> dnb = 0 then (bn_mul_comba8 r a b, t)
     else if n2 < BN_MUL_RECURSIVE_SIZE_NORMAL then
       let r = bn_mul_normal r a (nat (int n2 + dna)) b (nat (int n2 + dnb))
       in (if dna + dnb < 0 then at (nat (2 * int n2 + dna + dnb)) (memset0 (nat (- (dna + dnb)))) r else r, t)
     else
       let n = n2 div 2; tna = nat (int n + dna); tnb = nat (int n + dnb);
           (zero, neg, t) = mul_diffs (mul_switch a b n tna tnb) a b n tna tnb t;
           (r, t) =
             (if n = 4 \<and> dna = 0 \<and> dnb = 0 then mul_comba_halves bn_mul_comba4 zero r a b n t
              else if n = 8 \<and> dna = 0 \<and> dnb = 0 then mul_comba_halves bn_mul_comba8 zero r a b n t
              else
                let p = drop (2 * n2) t;
                    (x, p) = (if \<not> zero then bn_mul_recursive (take n2 (drop n2 t)) t (drop n t) n 0 0 p
                              else (memset0 n2 (take n2 (drop n2 t)), p));
                    t = take n2 t @ x;
                    (r, p) = bn_mul_recursive r a b n 0 0 p;
                    (x, p) = bn_mul_recursive (drop n2 r) (drop n a) (drop n b) n dna dnb p
                in (take n2 r @ x, t @ p))
       in mul_combine neg n r t)"
  by pat_completeness auto
termination by (relation "measure (\<lambda>(r, a, b, n2, dna, dnb, t). n2)") (auto simp: BN_MUL_RECURSIVE_SIZE_NORMAL_def)

declare bn_mul_recursive.simps [simp del]

text \<open>The cases of \<open>bn_mul_part_recursive\<close>, where a difference of zero is not special.\<close>

definition mul_part_diffs :: "int \<Rightarrow> u64 list \<Rightarrow> u64 list \<Rightarrow> nat \<Rightarrow> nat \<Rightarrow> nat \<Rightarrow> u64 list \<Rightarrow> bool \<times> u64 list" where
  "mul_part_diffs sw a b n tna tnb t =
    (if sw = -4 then
       (False, put_diff n b (drop n b) tnb (int n - int tnb) (put_diff 0 (drop n a) a tna (int tna - int n) t))
     else if sw = -3 \<or> sw = -2 then
       (True, put_diff n (drop n b) b tnb (int tnb - int n) (put_diff 0 (drop n a) a tna (int tna - int n) t))
     else if sw = -1 \<or> sw = 0 \<or> sw = 1 \<or> sw = 2 then
       (True, put_diff n b (drop n b) tnb (int n - int tnb) (put_diff 0 a (drop n a) tna (int n - int tna) t))
     else if sw = 3 \<or> sw = 4 then
       (False, put_diff n (drop n b) b tnb (int tnb - int n) (put_diff 0 a (drop n a) tna (int n - int tna) t))
     else (False, t))"

text \<open>The loop that halves \<open>i\<close> until one of its two tests holds.\<close>

fun halve_loop :: "nat \<Rightarrow> nat \<Rightarrow> nat \<Rightarrow> nat" where
  "halve_loop i tna tnb =
    (let i' = i div 2 in if i' < tna \<or> i' < tnb \<or> i' = tna \<or> i' = tnb \<or> i = 0 then i' else halve_loop i' tna tnb)"

declare halve_loop.simps [simp del]

lemma halve_loop_le: "halve_loop i tna tnb \<le> i div 2"
proof (induction i tna tnb rule: halve_loop.induct)
  case (1 i tna tnb)
  show ?case
  proof (cases "i div 2 < tna \<or> i div 2 < tnb \<or> i div 2 = tna \<or> i div 2 = tnb \<or> i = 0")
    case True
    then show ?thesis by (subst halve_loop.simps) (simp add: Let_def)
  next
    case False
    then have "halve_loop i tna tnb = halve_loop (i div 2) tna tnb" by (subst halve_loop.simps) (simp add: Let_def)
    moreover have "halve_loop (i div 2) tna tnb \<le> i div 2 div 2" using 1 [OF refl False] .
    ultimately show ?thesis by linarith
  qed
qed

text \<open>\<open>a\<close> and \<open>b\<close> have \<open>n + tna\<close> and \<open>n + tnb\<close> words with \<open>n\<close> a power of two; \<open>r\<close> and \<open>t\<close> have at least \<open>4 * n\<close>.\<close>

function bn_mul_part_recursive :: "u64 list \<Rightarrow> u64 list \<Rightarrow> u64 list \<Rightarrow> nat \<Rightarrow> nat \<Rightarrow> nat \<Rightarrow> u64 list \<Rightarrow> u64 list \<times> u64 list" where
  "bn_mul_part_recursive r a b n tna tnb t =
    (let n2 = n * 2
     in if n < 8 then (bn_mul_normal r a (n + tna) b (n + tnb), t)
        else
          let (neg, t) = mul_part_diffs (mul_switch a b n tna tnb) a b n tna tnb t;
              (r, t) =
                (if n = 8 then
                   let t = at n2 (\<lambda>p. bn_mul_comba8 p t (drop n t)) t;
                       r = bn_mul_comba8 r a b;
                       r = at n2 (\<lambda>p. bn_mul_normal p (drop n a) tna (drop n b) tnb) r
                   in (at (n2 + tna + tnb) (memset0 (n2 - tna - tnb)) r, t)
                 else
                   let p = drop (n2 * 2) t;
                       (x, p) = bn_mul_recursive (take n2 (drop n2 t)) t (drop n t) n 0 0 p;
                       t = take n2 t @ x;
                       (r, p) = bn_mul_recursive r a b n 0 0 p;
                       i = n div 2;
                       j = (if tna > tnb then int tna - int i else int tnb - int i)
                   in if j = 0 then
                        let (x, p) = bn_mul_recursive (drop n2 r) (drop n a) (drop n b) i (int tna - int i) (int tnb - int i) p
                        in (take n2 r @ at (i * 2) (memset0 (n2 - i * 2)) x, t @ p)
                      else if j > 0 then
                        let (x, p) = bn_mul_part_recursive (drop n2 r) (drop n a) (drop n b) i (tna - i) (tnb - i) p
                        in (take n2 r @ at (tna + tnb) (memset0 (n2 - tna - tnb)) x, t @ p)
                      else
                        let r = at n2 (memset0 n2) r
                        in if tna < BN_MUL_RECURSIVE_SIZE_NORMAL \<and> tnb < BN_MUL_RECURSIVE_SIZE_NORMAL then
                             (at n2 (\<lambda>q. bn_mul_normal q (drop n a) tna (drop n b) tnb) r, t @ p)
                           else
                             let i = halve_loop i tna tnb;
                                 (x, p) =
                                   (if i < tna \<or> i < tnb then
                                      bn_mul_part_recursive (drop n2 r) (drop n a) (drop n b) i (tna - i) (tnb - i) p
                                    else bn_mul_recursive (drop n2 r) (drop n a) (drop n b) i (int tna - int i) (int tnb - int i) p)
                             in (take n2 r @ x, t @ p))
          in mul_combine neg n r t)"
  by pat_completeness auto
termination
proof (relation "measure (\<lambda>(r, a, b, n, tna, tnb, t). n)", goal_cases)
  case (3 r a b n tna tnb t)
  then show ?case using halve_loop_le [of "n div 2" tna tnb] by simp
qed simp_all

declare bn_mul_part_recursive.simps [simp del]

function bn_mul_low_recursive :: "u64 list \<Rightarrow> u64 list \<Rightarrow> u64 list \<Rightarrow> nat \<Rightarrow> u64 list \<Rightarrow> u64 list \<times> u64 list" where
  "bn_mul_low_recursive r a b n2 t =
    (let n = n2 div 2; (r, t) = bn_mul_recursive r a b n 0 0 t
     in if n \<ge> BN_MUL_LOW_RECURSIVE_SIZE_NORMAL then
          let (x, p) = bn_mul_low_recursive (take n2 t) a (drop n b) n (drop n2 t);
              r = at n (\<lambda>q. fst (bn_add_words q q x n)) r;
              (x, p) = bn_mul_low_recursive x (drop n a) b n p
          in (at n (\<lambda>q. fst (bn_add_words q q x n)) r, x @ p)
        else
          let t = bn_mul_low_normal t a (drop n b) n;
              t = at n (\<lambda>q. bn_mul_low_normal q (drop n a) b n) t;
              r = at n (\<lambda>q. fst (bn_add_words q q t n)) r
          in (at n (\<lambda>q. fst (bn_add_words q q (drop n t) n)) r, t))"
  by pat_completeness auto
termination by (relation "measure (\<lambda>(r, a, b, n2, t). n2)") (auto simp: BN_MUL_LOW_RECURSIVE_SIZE_NORMAL_def)

declare bn_mul_low_recursive.simps [simp del]

subsection \<open>Squares\<close>

text \<open>The products of different words: \<open>j\<close> words from \<open>ap\<close> on times the word before them, two words further up each time.\<close>

fun sqr_rows :: "u64 list \<Rightarrow> nat \<Rightarrow> nat \<Rightarrow> u64 list \<Rightarrow> u64 list" where
  "sqr_rows a j 0 rp = rp"
| "sqr_rows a j (Suc i) rp =
    (let j = j - 1;
         (x, c) = bn_mul_add_words rp (drop 1 a) j (a ! 0);
         x = x[j := c]
     in take 2 x @ sqr_rows (drop 1 a) j i (drop 2 x))"

definition bn_sqr_normal :: "u64 list \<Rightarrow> u64 list \<Rightarrow> nat \<Rightarrow> u64 list \<Rightarrow> u64 list \<times> u64 list" where
  "bn_sqr_normal r a n tmp =
    (let max = n * 2;
         r = (r[0 := 0])[max - 1 := 0];
         rp = drop 1 r;
         j = n - 1;
         rp = (if j > 0 then
                 let (x, c) = bn_mul_words rp (drop 1 a) j (a ! 0); x = x[j := c]
                 in take 2 x @ sqr_rows (drop 1 a) j (n - 2) (drop 2 x)
               else rp);
         r = take 1 r @ rp;
         (r, _) = bn_add_words r r r max;
         tmp = bn_sqr_words tmp a n;
         (r, _) = bn_add_words r r tmp max
     in (r, tmp))"

function bn_sqr_recursive :: "u64 list \<Rightarrow> u64 list \<Rightarrow> nat \<Rightarrow> u64 list \<Rightarrow> u64 list \<times> u64 list" where
  "bn_sqr_recursive r a n2 t =
    (if n2 = 4 then (bn_sqr_comba4 r a, t)
     else if n2 = 8 then (bn_sqr_comba8 r a, t)
     else if n2 < BN_SQR_RECURSIVE_SIZE_NORMAL then bn_sqr_normal r a n2 t
     else
       let n = n2 div 2;
           c1 = bn_cmp_words a (drop n a) n;
           zero = (c1 = 0);
           t = (if c1 > 0 then fst (bn_sub_words t a (drop n a) n)
                else if c1 < 0 then fst (bn_sub_words t (drop n a) a n) else t);
           p = drop (n2 * 2) t;
           (x, p) = (if \<not> zero then bn_sqr_recursive (take n2 (drop n2 t)) t n p
                     else (memset0 n2 (take n2 (drop n2 t)), p));
           t = take n2 t @ x;
           (r, p) = bn_sqr_recursive r a n p;
           (x, p) = bn_sqr_recursive (drop n2 r) (drop n a) n p
       in mul_combine True n (take n2 r @ x) (t @ p))"
  by pat_completeness auto
termination by (relation "measure (\<lambda>(r, a, n2, t). n2)") (auto simp: BN_SQR_RECURSIVE_SIZE_NORMAL_def)

declare bn_sqr_recursive.simps [simp del]

subsection \<open>Big numbers\<close>

text \<open>
  \<open>ctx\<close> are the numbers that successive calls of \<open>BN_CTX_get\<close> return (it fails at the end of the list); \<open>alias\<close> says
  whether the result is one of the operands. The array on the stack of \<open>bn_sqr_fixed_top\<close>, whose words are all written
  before they are read, is zero here.
\<close>

fun BN_CTX_get :: "bignum list \<Rightarrow> (bignum \<times> bignum list) option" where
  "BN_CTX_get [] = None"
| "BN_CTX_get (b # ctx) = Some (b, ctx)"

definition bn_mul_fixed_top :: "bool \<Rightarrow> bool \<Rightarrow> bignum list \<Rightarrow> bignum \<Rightarrow> bignum \<Rightarrow> bignum \<Rightarrow> bignum option" where
  "bn_mul_fixed_top alloc alias ctx r a b =
    (let al = bn_top a; bl = bn_top b; top = al + bl; i = int al - int bl
     in if al = 0 \<or> bl = 0 then Some (BN_zero_ex r)
        else
          Option.bind (if alias then BN_CTX_get ctx else Some (r, ctx)) (\<lambda>(rr, ctx).
          Option.bind
            (if i = 0 \<and> al = 8 then
               map_option (\<lambda>rr. rr\<lparr>bn_top := 16, bn_d := bn_mul_comba8 (bn_d rr) (bn_d a) (bn_d b)\<rparr>) (bn_wexpand alloc rr 16)
             else if al \<ge> BN_MULL_SIZE_NORMAL \<and> bl \<ge> BN_MULL_SIZE_NORMAL \<and> i \<ge> -1 \<and> i \<le> 1 then
               let j = 2 ^ (BN_num_bits_word (word_of_nat (if i \<ge> 0 then al else bl)) - 1); k = j + j
               in Option.bind (BN_CTX_get ctx) (\<lambda>(t, ctx).
                    if al > j \<or> bl > j then
                      Option.bind (bn_wexpand alloc t (k * 4)) (\<lambda>t.
                      map_option (\<lambda>rr. rr\<lparr>bn_d := fst (bn_mul_part_recursive (bn_d rr) (bn_d a) (bn_d b) j (al - j) (bl - j) (bn_d t)), bn_top := top\<rparr>)
                        (bn_wexpand alloc rr (k * 4)))
                    else
                      Option.bind (bn_wexpand alloc t (k * 2)) (\<lambda>t.
                      map_option (\<lambda>rr. rr\<lparr>bn_d := fst (bn_mul_recursive (bn_d rr) (bn_d a) (bn_d b) j (int al - int j) (int bl - int j) (bn_d t)), bn_top := top\<rparr>)
                        (bn_wexpand alloc rr (k * 2))))
             else map_option (\<lambda>rr. rr\<lparr>bn_top := top, bn_d := bn_mul_normal (bn_d rr) (bn_d a) al (bn_d b) bl\<rparr>) (bn_wexpand alloc rr top))
            (\<lambda>rr. let rr = rr\<lparr>bn_neg := (bn_neg a \<noteq> bn_neg b)\<rparr> in if alias then BN_copy alloc r rr else Some rr)))"

definition BN_mul :: "bool \<Rightarrow> bool \<Rightarrow> bignum list \<Rightarrow> bignum \<Rightarrow> bignum \<Rightarrow> bignum \<Rightarrow> bignum option" where
  "BN_mul alloc alias ctx r a b = map_option bn_correct_top (bn_mul_fixed_top alloc alias ctx r a b)"

definition bn_sqr_fixed_top :: "bool \<Rightarrow> bool \<Rightarrow> bignum list \<Rightarrow> bignum \<Rightarrow> bignum \<Rightarrow> bignum option" where
  "bn_sqr_fixed_top alloc alias ctx r a =
    (let al = bn_top a; max = 2 * al
     in if al = 0 then Some (r\<lparr>bn_top := 0, bn_neg := False\<rparr>)
        else
          Option.bind (if \<not> alias then Some (r, ctx) else BN_CTX_get ctx) (\<lambda>(rr, ctx).
          Option.bind (BN_CTX_get ctx) (\<lambda>(tmp, ctx).
          Option.bind (bn_wexpand alloc rr max) (\<lambda>rr.
          Option.bind
            (if al = 4 then Some (bn_sqr_comba4 (bn_d rr) (bn_d a))
             else if al = 8 then Some (bn_sqr_comba8 (bn_d rr) (bn_d a))
             else if al < BN_SQR_RECURSIVE_SIZE_NORMAL then
               Some (fst (bn_sqr_normal (bn_d rr) (bn_d a) al (replicate (BN_SQR_RECURSIVE_SIZE_NORMAL * 2) 0)))
             else
               let j = 2 ^ (BN_num_bits_word (word_of_nat al) - 1); k = j + j
               in if al = j then
                    map_option (\<lambda>tmp. fst (bn_sqr_recursive (bn_d rr) (bn_d a) al (bn_d tmp))) (bn_wexpand alloc tmp (k * 2))
                  else map_option (\<lambda>tmp. fst (bn_sqr_normal (bn_d rr) (bn_d a) al (bn_d tmp))) (bn_wexpand alloc tmp max))
            (\<lambda>d. let rr = rr\<lparr>bn_d := d, bn_neg := False, bn_top := max\<rparr> in if alias then BN_copy alloc r rr else Some rr)))))"

definition BN_sqr :: "bool \<Rightarrow> bool \<Rightarrow> bignum list \<Rightarrow> bignum \<Rightarrow> bignum \<Rightarrow> bignum option" where
  "BN_sqr alloc alias ctx r a = map_option bn_correct_top (bn_sqr_fixed_top alloc alias ctx r a)"

end
