(* ===== verification/BnDiv.thy ===== *)
theory BnDiv
  imports BnArith BnMul
begin

text \<open>
  Division, \<^verbatim>\<open>bn_div.c\<close>: the divisor is shifted until its highest bit is set, then each word of the quotient is estimated from
  the three highest words of what is left and the two highest of the divisor, and corrected by at most one. The estimate is
  the variant for compilers without a type of 128 bits.
\<close>

text \<open>The words of the divisor, shifted left until the highest bit of the last one is set.\<close>

fun align_loop :: "nat \<Rightarrow> nat \<Rightarrow> u64 \<Rightarrow> u64 list \<Rightarrow> u64 \<Rightarrow> u64 list" where
  "align_loop lshift rshift rmask [] m = []"
| "align_loop lshift rshift rmask (n # d) m =
    ((push_bit lshift n OR m) AND BN_MASK2) # align_loop lshift rshift rmask d (drop_bit rshift n AND rmask)"

definition bn_left_align :: "bignum \<Rightarrow> nat \<times> bignum" where
  "bn_left_align num =
    (let d = bn_d num; top = bn_top num;
         rshift = BN_num_bits_word (d ! (top - 1));
         lshift = BN_BITS2 - rshift;
         rshift = rshift mod BN_BITS2;
         rmask = shift_mask rshift
     in (lshift, num\<lparr>bn_d := align_loop lshift rshift rmask (take top d) 0 @ drop top d\<rparr>))"

text \<open>The loop that lowers the estimate \<open>q\<close>; \<open>t2h\<close> and \<open>t2l\<close> are \<open>d1 * q\<close>. Without a bit in \<open>d0\<close> it may not end.\<close>

partial_function (option) div_refine :: "u64 \<Rightarrow> u64 \<Rightarrow> u64 \<Rightarrow> u64 \<Rightarrow> u64 \<Rightarrow> u64 \<Rightarrow> u64 \<Rightarrow> u64 option" where
  "div_refine d0 d1 n2 q rem t2h t2l =
    (if t2h < rem \<or> t2h = rem \<and> t2l \<le> n2 then Some q
     else
       let q = q - 1; rem = rem + d0
       in if rem < d0 then Some q
          else
            let t2h = (if t2l < d1 then t2h - 1 else t2h); t2l = t2l - d1
            in div_refine d0 d1 n2 q rem t2h t2l)"

definition div_guess :: "u64 \<Rightarrow> u64 \<Rightarrow> u64 \<Rightarrow> u64 \<Rightarrow> u64 \<Rightarrow> u64 option" where
  "div_guess d0 d1 n0 n1 n2 =
    (if n0 = d0 then Some BN_MASK2
     else Option.bind (bn_div_words n0 n1 d0) (\<lambda>q.
       let rem = (n1 - q * d0) AND BN_MASK2;
           (t2l, t2h) = mul64 (LBITS d1) (HBITS d1) (LBITS q) (HBITS q)
       in div_refine d0 d1 n2 q rem t2h t2l))"

text \<open>
  One word of the quotient: \<open>s\<close> are the words of the dividend, of which those from \<open>k\<close> to \<open>k + div_n\<close> are divided; the multiple of
  the divisor is subtracted, and the divisor added back if that was too much.
\<close>

definition div_step :: "u64 \<Rightarrow> u64 \<Rightarrow> u64 list \<Rightarrow> nat \<Rightarrow> nat \<Rightarrow> u64 list \<Rightarrow> u64 list \<Rightarrow> (u64 \<times> u64 list \<times> u64 list) option" where
  "div_step d0 d1 sdiv div_n k s tmp =
    (let n0 = s ! (k + div_n);
         n1 = s ! (k + div_n - 1);
         n2 = (if div_n = 1 then 0 else s ! (k + div_n - 2))
     in Option.bind (div_guess d0 d1 n0 n1 n2) (\<lambda>q.
          let (tmp, l0) = bn_mul_words tmp sdiv div_n q;
              tmp = tmp[div_n := l0];
              (w, l0) = bn_sub_words (drop k s) (drop k s) tmp (div_n + 1);
              q = q - l0;
              l0 = 0 - l0;
              tmp = map (\<lambda>x. x AND l0) (take div_n sdiv) @ drop div_n tmp;
              (w, l0) = bn_add_words w w tmp div_n;
              w = w[div_n := w ! div_n + l0]
          in Some (q, take k s @ w, tmp)))"

fun div_loop :: "u64 \<Rightarrow> u64 \<Rightarrow> u64 list \<Rightarrow> nat \<Rightarrow> nat \<Rightarrow> u64 list \<Rightarrow> u64 list \<Rightarrow> u64 list \<Rightarrow> (u64 list \<times> u64 list) option" where
  "div_loop d0 d1 sdiv div_n 0 resp s tmp = Some (resp, s)"
| "div_loop d0 d1 sdiv div_n (Suc k) resp s tmp =
    Option.bind (div_step d0 d1 sdiv div_n k s tmp) (\<lambda>(q, s, tmp). div_loop d0 d1 sdiv div_n k (resp[k := q]) s tmp)"

text \<open>
  \<open>dv\<close> and \<open>rm\<close> are \<open>None\<close> for null pointers; the result holds the numbers that were passed. The remainder is shifted back
  without a look at the return value of \<open>bn_rshift_fixed_top\<close>.
\<close>

definition bn_div_fixed_top ::
  "bool \<Rightarrow> bignum list \<Rightarrow> bignum option \<Rightarrow> bignum option \<Rightarrow> bignum \<Rightarrow> bignum \<Rightarrow> (bignum option \<times> bignum option) option" where
  "bn_div_fixed_top alloc ctx dv rm num divisor =
    Option.bind (case dv of None \<Rightarrow> BN_CTX_get ctx | Some r \<Rightarrow> Some (r, ctx)) (\<lambda>(res, ctx).
    Option.bind (BN_CTX_get ctx) (\<lambda>(tmp, ctx).
    Option.bind (BN_CTX_get ctx) (\<lambda>(snum, ctx).
    Option.bind (BN_CTX_get ctx) (\<lambda>(sdiv, ctx).
    Option.bind (BN_copy alloc sdiv divisor) (\<lambda>sdiv.
    let (norm_shift, sdiv) = bn_left_align sdiv;
        sdiv = sdiv\<lparr>bn_neg := False\<rparr>
    in Option.bind (bn_lshift_fixed_top alloc snum num norm_shift) (\<lambda>snum.
    let div_n = bn_top sdiv; num_n = bn_top snum
    in Option.bind
      (if num_n \<le> div_n then
         map_option (\<lambda>snum. snum\<lparr>bn_d := at num_n (memset0 (div_n - num_n + 1)) (bn_d snum), bn_top := div_n + 1\<rparr>)
           (bn_wexpand alloc snum (div_n + 1))
       else Some snum) (\<lambda>snum.
    let loop = bn_top snum - div_n;
        d0 = bn_d sdiv ! (div_n - 1);
        d1 = (if div_n = 1 then 0 else bn_d sdiv ! (div_n - 2))
    in Option.bind (bn_wexpand alloc res loop) (\<lambda>res.
    let num_neg = bn_neg num;
        res = res\<lparr>bn_neg := (num_neg \<noteq> bn_neg divisor), bn_top := loop\<rparr>
    in Option.bind (bn_wexpand alloc tmp (div_n + 1)) (\<lambda>tmp.
    Option.bind (div_loop d0 d1 (bn_d sdiv) div_n loop (bn_d res) (bn_d snum) (bn_d tmp)) (\<lambda>(resp, s).
    let res = res\<lparr>bn_d := resp\<rparr>;
        snum = snum\<lparr>bn_d := s, bn_neg := num_neg, bn_top := div_n\<rparr>
    in Some (map_option (\<lambda>_. res) dv,
             map_option (\<lambda>rm. case bn_rshift_fixed_top alloc rm snum norm_shift of None \<Rightarrow> rm | Some r \<Rightarrow> r) rm)))))))))))"

definition BN_div :: "bool \<Rightarrow> bignum list \<Rightarrow> bignum option \<Rightarrow> bignum option \<Rightarrow> bignum \<Rightarrow> bignum \<Rightarrow> (bignum option \<times> bignum option) option" where
  "BN_div alloc ctx dv rm num divisor =
    (if BN_is_zero divisor then None
     else if bn_d divisor ! (bn_top divisor - 1) = 0 then None
     else map_option (\<lambda>(dv, rm). (map_option bn_correct_top dv, map_option bn_correct_top rm))
            (bn_div_fixed_top alloc ctx dv rm num divisor))"

definition BN_mod :: "bool \<Rightarrow> bignum list \<Rightarrow> bignum \<Rightarrow> bignum \<Rightarrow> bignum \<Rightarrow> bignum option" where
  "BN_mod alloc ctx rem m d = Option.bind (BN_div alloc ctx None (Some rem) m d) snd"

end
