(* ===== verification/BnMod.thy ===== *)
theory BnMod
  imports BnDiv
begin

text \<open>
  Arithmetic modulo a number, \<^verbatim>\<open>bn_mod.c\<close>. In calls of one function after the other the same list \<open>ctx\<close> stands for the numbers of
  the context, since they are handed out again; that their arrays may have grown meanwhile and what their words hold plays no role.
  The result is not the modulus.
\<close>

definition BN_nnmod :: "bool \<Rightarrow> bignum list \<Rightarrow> bignum \<Rightarrow> bignum \<Rightarrow> bignum \<Rightarrow> bignum option" where
  "BN_nnmod alloc ctx r m d =
    Option.bind (BN_mod alloc ctx r m d) (\<lambda>r.
      if \<not> bn_neg r then Some r
      else if bn_neg d then BN_sub alloc r r d else BN_add alloc r r d)"

definition BN_mod_add :: "bool \<Rightarrow> bignum list \<Rightarrow> bignum \<Rightarrow> bignum \<Rightarrow> bignum \<Rightarrow> bignum \<Rightarrow> bignum option" where
  "BN_mod_add alloc ctx r a b m = Option.bind (BN_add alloc r a b) (\<lambda>r. BN_nnmod alloc ctx r r m)"

text \<open>
  Word \<open>i\<close> of a number that is shorter than the modulus: the words from its top on are masked, and the index \<open>ai\<close> stays in its
  array. (For a null pointer the code reads a word of its own array, which the mask clears.)
\<close>

definition masked_word :: "bignum \<Rightarrow> nat \<Rightarrow> nat \<Rightarrow> u64" where
  "masked_word a i ai =
    (let mask = 0 - drop_bit (8 * 8 - 1) (word_of_nat i - word_of_nat (bn_top a))
     in (if bn_d a = [] then 0 else bn_d a ! ai) AND mask)"

definition next_index :: "bignum \<Rightarrow> nat \<Rightarrow> nat \<Rightarrow> nat" where
  "next_index a i ai = ai + unat (drop_bit (8 * 8 - 1) (word_of_nat i - word_of_nat (length (bn_d a)) :: u64))"

fun mod_add_loop :: "bignum \<Rightarrow> bignum \<Rightarrow> nat \<Rightarrow> nat \<Rightarrow> nat \<Rightarrow> nat \<Rightarrow> u64 \<Rightarrow> u64 list \<times> u64" where
  "mod_add_loop a b 0 i ai bi carry = ([], carry)"
| "mod_add_loop a b (Suc n) i ai bi carry =
    (let temp = (masked_word a i ai + carry) AND BN_MASK2;
         carry = (if temp < carry then 1 else 0);
         t = (masked_word b i bi + temp) AND BN_MASK2;
         carry = carry + (if t < temp then 1 else 0);
         i = i + 1;
         (ts, carry) = mod_add_loop a b n i (next_index a i ai) (next_index b i bi) carry
     in (t # ts, carry))"

definition bn_mod_add_fixed_top :: "bool \<Rightarrow> bignum \<Rightarrow> bignum \<Rightarrow> bignum \<Rightarrow> bignum \<Rightarrow> bignum option" where
  "bn_mod_add_fixed_top alloc r a b m =
    (let mtop = bn_top m
     in Option.bind (bn_wexpand alloc r mtop) (\<lambda>r.
          if mtop > 1024 div BN_BITS2 \<and> \<not> alloc then None
          else
            let (tp, carry) = mod_add_loop a b mtop 0 0 0 0;
                (rp, borrow) = bn_sub_words (bn_d r) tp (bn_d m) mtop;
                carry = carry - borrow;
                rp = map2 (\<lambda>t x. (carry AND t) OR (NOT carry AND x)) tp (take mtop rp) @ drop mtop rp
            in Some (r\<lparr>bn_d := rp, bn_top := mtop, bn_neg := False\<rparr>)))"

definition BN_mod_add_quick :: "bool \<Rightarrow> bignum \<Rightarrow> bignum \<Rightarrow> bignum \<Rightarrow> bignum \<Rightarrow> bignum option" where
  "BN_mod_add_quick alloc r a b m = map_option bn_correct_top (bn_mod_add_fixed_top alloc r a b m)"

definition BN_mod_sub :: "bool \<Rightarrow> bignum list \<Rightarrow> bignum \<Rightarrow> bignum \<Rightarrow> bignum \<Rightarrow> bignum \<Rightarrow> bignum option" where
  "BN_mod_sub alloc ctx r a b m = Option.bind (BN_sub alloc r a b) (\<lambda>r. BN_nnmod alloc ctx r r m)"

fun mod_sub_loop :: "bignum \<Rightarrow> bignum \<Rightarrow> nat \<Rightarrow> nat \<Rightarrow> nat \<Rightarrow> nat \<Rightarrow> u64 \<Rightarrow> u64 list \<times> u64" where
  "mod_sub_loop a b 0 i ai bi borrow = ([], borrow)"
| "mod_sub_loop a b (Suc n) i ai bi borrow =
    (let ta = masked_word a i ai;
         tb = masked_word b i bi;
         t = ta - tb - borrow;
         borrow = (if ta \<noteq> tb then (if ta < tb then 1 else 0) else borrow);
         i = i + 1;
         (ts, borrow) = mod_sub_loop a b n i (next_index a i ai) (next_index b i bi) borrow
     in (t # ts, borrow))"

text \<open>The modulus, or 0, added to the words \<open>rp\<close>.\<close>

fun mod_corr_loop :: "u64 \<Rightarrow> u64 list \<Rightarrow> u64 list \<Rightarrow> u64 \<Rightarrow> u64 list \<times> u64" where
  "mod_corr_loop msk (a # ap) (r # rp) carry =
    (let ta = ((a AND msk) + carry) AND BN_MASK2;
         carry = (if ta < carry then 1 else 0);
         r = (r + ta) AND BN_MASK2;
         carry = carry + (if r < ta then 1 else 0);
         (rs, carry) = mod_corr_loop msk ap rp carry
     in (r # rs, carry))"
| "mod_corr_loop msk ap rp carry = (rp, carry)"

definition bn_mod_sub_fixed_top :: "bool \<Rightarrow> bignum \<Rightarrow> bignum \<Rightarrow> bignum \<Rightarrow> bignum \<Rightarrow> bignum option" where
  "bn_mod_sub_fixed_top alloc r a b m =
    (let mtop = bn_top m
     in map_option (\<lambda>r.
          let (rp, borrow) = mod_sub_loop a b mtop 0 0 0 0;
              ap = take mtop (bn_d m);
              (rp, carry) = mod_corr_loop (0 - borrow) ap rp 0;
              borrow = borrow - carry;
              (rp, carry) = mod_corr_loop (0 - borrow) ap rp 0
          in r\<lparr>bn_d := rp @ drop mtop (bn_d r), bn_top := mtop, bn_neg := False\<rparr>)
        (bn_wexpand alloc r mtop))"

definition BN_mod_sub_quick :: "bool \<Rightarrow> bignum \<Rightarrow> bignum \<Rightarrow> bignum \<Rightarrow> bignum \<Rightarrow> bignum option" where
  "BN_mod_sub_quick alloc r a b m =
    Option.bind (BN_sub alloc r a b) (\<lambda>r. if bn_neg r then BN_add alloc r r m else Some r)"

text \<open>\<open>same\<close> says whether \<open>a\<close> and \<open>b\<close> are one object.\<close>

definition BN_mod_mul :: "bool \<Rightarrow> bool \<Rightarrow> bignum list \<Rightarrow> bignum \<Rightarrow> bignum \<Rightarrow> bignum \<Rightarrow> bignum \<Rightarrow> bignum option" where
  "BN_mod_mul alloc same ctx r a b m =
    Option.bind (BN_CTX_get ctx) (\<lambda>(t, ctx).
    Option.bind (if same then BN_sqr alloc False ctx t a else BN_mul alloc False ctx t a b) (\<lambda>t.
    BN_nnmod alloc ctx r t m))"

definition BN_mod_sqr :: "bool \<Rightarrow> bool \<Rightarrow> bignum list \<Rightarrow> bignum \<Rightarrow> bignum \<Rightarrow> bignum \<Rightarrow> bignum option" where
  "BN_mod_sqr alloc alias ctx r a m = Option.bind (BN_sqr alloc alias ctx r a) (\<lambda>r. BN_mod alloc ctx r r m)"

definition BN_mod_lshift1 :: "bool \<Rightarrow> bignum list \<Rightarrow> bignum \<Rightarrow> bignum \<Rightarrow> bignum \<Rightarrow> bignum option" where
  "BN_mod_lshift1 alloc ctx r a m = Option.bind (BN_lshift1 alloc r a) (\<lambda>r. BN_nnmod alloc ctx r r m)"

definition BN_mod_lshift1_quick :: "bool \<Rightarrow> bignum \<Rightarrow> bignum \<Rightarrow> bignum \<Rightarrow> bignum option" where
  "BN_mod_lshift1_quick alloc r a m =
    Option.bind (BN_lshift1 alloc r a) (\<lambda>r. if BN_cmp r m \<ge> 0 then BN_sub alloc r r m else Some r)"

text \<open>The shift in parts after each of which the number is reduced; \<open>None\<close> also when the number is longer than the modulus.\<close>

function mod_lshift_loop :: "bool \<Rightarrow> bignum \<Rightarrow> int \<Rightarrow> bignum \<Rightarrow> bignum option" where
  "mod_lshift_loop alloc r n m =
    (if n > 0 then
       let max_shift = int (BN_num_bits m) - int (BN_num_bits r)
       in if max_shift < 0 then None
          else
            let max_shift = (if max_shift > n then n else max_shift)
            in Option.bind
                 (if max_shift \<noteq> 0 then map_option (\<lambda>r. (r, n - max_shift)) (BN_lshift alloc r r max_shift)
                  else map_option (\<lambda>r. (r, n - 1)) (BN_lshift1 alloc r r)) (\<lambda>(r, n).
               Option.bind (if BN_cmp r m \<ge> 0 then BN_sub alloc r r m else Some r) (\<lambda>r.
               mod_lshift_loop alloc r n m))
     else Some r)"
  by pat_completeness auto
termination by (relation "measure (\<lambda>(alloc, r, n, m). nat n)") (auto split: if_splits)

declare mod_lshift_loop.simps [simp del]

definition BN_mod_lshift_quick :: "bool \<Rightarrow> bool \<Rightarrow> bignum \<Rightarrow> bignum \<Rightarrow> int \<Rightarrow> bignum \<Rightarrow> bignum option" where
  "BN_mod_lshift_quick alloc alias r a n m =
    Option.bind (if \<not> alias then BN_copy alloc r a else Some r) (\<lambda>r. mod_lshift_loop alloc r n m)"

definition BN_mod_lshift :: "bool \<Rightarrow> bignum list \<Rightarrow> bignum \<Rightarrow> bignum \<Rightarrow> int \<Rightarrow> bignum \<Rightarrow> bignum option" where
  "BN_mod_lshift alloc ctx r a n m =
    Option.bind (BN_nnmod alloc ctx r a m) (\<lambda>r.
    Option.bind (if bn_neg m then map_option (\<lambda>abs_m. abs_m\<lparr>bn_neg := False\<rparr>) (BN_dup alloc m) else Some m) (\<lambda>abs_m.
    BN_mod_lshift_quick alloc True r r n abs_m))"

end
