(* ===== verification/BnGcd.thy ===== *)
theory BnGcd
  imports BnMod
begin

text \<open>
  Inverses modulo a number, \<^verbatim>\<open>bn_gcd.c\<close>: the three variants of Euclid's algorithm (with divisions, with halvings for odd
  moduli of at most 2048 bits, and the one for secret numbers). The numbers that change their roles in a round are exchanged as in
  the code, so that each keeps its array. The context is not a null pointer. In the results \<open>None\<close> is a failure of an
  operation; the loops end whenever the numbers are in normal form. The result may be the same object as the modulus
  (\<^verbatim>\<open>doc/man3/BN_mod_inverse.pod\<close>); the flag \<open>al\<close> says that it is, and \<open>inp\<close> is not used then. Nothing is written to the result
  before the end, where the last reduction reads the modulus again.
\<close>

subsection \<open>Inverses of secret numbers\<close>

text \<open>The state of Euclid's algorithm: the numbers \<open>A\<close>, \<open>B\<close>, \<open>X\<close>, \<open>Y\<close>, \<open>M\<close>, \<open>D\<close>, \<open>T\<close> and the sign.\<close>

record euclid =
  eA :: bignum
  eB :: bignum
  eX :: bignum
  eY :: bignum
  eM :: bignum
  eD :: bignum
  eT :: bignum
  eneg :: bool

text \<open>The end of a round: \<open>tmp\<close> is the new \<open>X\<close>, made from the object of \<open>A\<close>.\<close>

definition euclid_turn :: "euclid \<Rightarrow> bignum \<Rightarrow> euclid" where
  "euclid_turn s tmp = s\<lparr>eA := eB s, eB := eM s, eM := eY s, eY := eX s, eX := tmp, eneg := \<not> eneg s\<rparr>"

partial_function (option) no_branch_loop :: "bool \<Rightarrow> bignum list \<Rightarrow> euclid \<Rightarrow> euclid option" where
  "no_branch_loop alloc ctx s =
    (if BN_is_zero (eB s) then Some s
     else
       let local_A = BN_with_flags bn_init (eA s) BN_FLG_CONSTTIME
       in Option.bind (BN_div alloc ctx (Some (eD s)) (Some (eM s)) local_A (eB s)) (\<lambda>(D, M).
          let s = s\<lparr>eD := the D, eM := the M\<rparr>
          in Option.bind (BN_mul alloc False ctx (eA s) (eD s) (eX s)) (\<lambda>tmp.
             Option.bind (BN_add alloc tmp tmp (eY s)) (\<lambda>tmp.
             no_branch_loop alloc ctx (euclid_turn s tmp)))))"

text \<open>The numbers from the context and their first values, the return values of \<open>BN_one\<close> and \<open>BN_zero\<close> not looked at.\<close>

definition euclid_init :: "bool \<Rightarrow> bignum list \<Rightarrow> bignum \<Rightarrow> bignum \<Rightarrow> (euclid \<times> bignum list) option" where
  "euclid_init alloc ctx a n =
    Option.bind (BN_CTX_get ctx) (\<lambda>(A, ctx).
    Option.bind (BN_CTX_get ctx) (\<lambda>(B, ctx).
    Option.bind (BN_CTX_get ctx) (\<lambda>(X, ctx).
    Option.bind (BN_CTX_get ctx) (\<lambda>(D, ctx).
    Option.bind (BN_CTX_get ctx) (\<lambda>(M, ctx).
    Option.bind (BN_CTX_get ctx) (\<lambda>(Y, ctx).
    Option.bind (BN_CTX_get ctx) (\<lambda>(T, ctx).
    let X = (case BN_set_word alloc X 1 of None \<Rightarrow> X | Some X \<Rightarrow> X);
        Y = BN_zero_ex Y
    in Option.bind (BN_copy alloc B a) (\<lambda>B.
       Option.bind (BN_copy alloc A n) (\<lambda>A.
       Some (\<lparr>eA = A\<lparr>bn_neg := False\<rparr>, eB = B, eX = X, eY = Y, eM = M, eD = D, eT = T, eneg = True\<rparr>, ctx))))))))))"

text \<open>\<open>BN_nnmod(d, m, d, ctx)\<close>: the remainder replaces the modulus before the modulus is added to it or subtracted from it.\<close>

definition BN_nnmod_same :: "bool \<Rightarrow> bignum list \<Rightarrow> bignum \<Rightarrow> bignum \<Rightarrow> bignum option" where
  "BN_nnmod_same alloc ctx m d =
    Option.bind (BN_mod alloc ctx d m d) (\<lambda>r.
      if \<not> bn_neg r then Some r
      else if bn_neg r then BN_sub alloc r r r else BN_add alloc r r r)"

text \<open>The end: the number \<open>Y\<close> with the right sign, copied or reduced to \<open>R\<close>, when \<open>A\<close> is 1. The first component is \<open>pnoinv\<close>.\<close>

definition euclid_end :: "bool \<Rightarrow> bignum list \<Rightarrow> bool \<Rightarrow> bignum \<Rightarrow> bignum \<Rightarrow> euclid \<Rightarrow> bool \<times> bignum option" where
  "euclid_end alloc ctx al R n s =
    (case (if eneg s then BN_sub alloc (eY s) n (eY s) else Some (eY s)) of
       None \<Rightarrow> (False, None)
     | Some Y \<Rightarrow>
         if BN_is_one (eA s) then
           (False,
            if \<not> bn_neg Y \<and> BN_ucmp Y n < 0 then BN_copy alloc R Y
            else if al then BN_nnmod_same alloc ctx Y n else BN_nnmod alloc ctx R Y n)
         else (True, None))"

text \<open>The object of the result.\<close>

definition inverse_target :: "bool \<Rightarrow> bool \<Rightarrow> bignum option \<Rightarrow> bignum \<Rightarrow> bignum option" where
  "inverse_target alloc al inp n = (if al then Some n else case inp of None \<Rightarrow> BN_new alloc | Some R \<Rightarrow> Some R)"

definition bn_mod_inverse_no_branch :: "bool \<Rightarrow> bignum list \<Rightarrow> bool \<Rightarrow> bignum option \<Rightarrow> bignum \<Rightarrow> bignum \<Rightarrow> bool \<times> bignum option" where
  "bn_mod_inverse_no_branch alloc ctx al inp a n =
    (case Option.bind (euclid_init alloc ctx a n) (\<lambda>(s, ctx).
          Option.bind (inverse_target alloc al inp n) (\<lambda>R.
          Option.bind
            (if bn_neg (eB s) \<or> BN_ucmp (eB s) (eA s) \<ge> 0 then
               let local_B = BN_with_flags bn_init (eB s) BN_FLG_CONSTTIME
               in map_option (\<lambda>B. s\<lparr>eB := B\<rparr>) (BN_nnmod alloc ctx (eB s) local_B (eA s))
             else Some s) (\<lambda>s.
          map_option (\<lambda>s. euclid_end alloc ctx al R n s) (no_branch_loop alloc ctx s)))) of
       None \<Rightarrow> (False, None)
     | Some r \<Rightarrow> r)"

subsection \<open>Inverses with halvings\<close>

text \<open>The loop that counts the zero bits at the end of \<open>B\<close> and halves \<open>X\<close> modulo \<open>n\<close> for each; without a bit in \<open>B\<close> it does not end.\<close>

partial_function (option) even_loop :: "bool \<Rightarrow> bignum \<Rightarrow> bignum \<Rightarrow> bignum \<Rightarrow> nat \<Rightarrow> (bignum \<times> nat) option" where
  "even_loop alloc n B X shift =
    (if BN_is_bit_set B (int shift) then Some (X, shift)
     else
       Option.bind (if BN_is_odd X then BN_uadd alloc X X n else Some X) (\<lambda>X.
       Option.bind (BN_rshift1 alloc X X) (\<lambda>X.
       even_loop alloc n B X (shift + 1))))"

definition make_odd :: "bool \<Rightarrow> bignum \<Rightarrow> bignum \<Rightarrow> bignum \<Rightarrow> (bignum \<times> bignum) option" where
  "make_odd alloc n B X =
    Option.bind (even_loop alloc n B X 0) (\<lambda>(X, shift).
      map_option (\<lambda>B. (B, X)) (if shift > 0 then BN_rshift alloc B B (int shift) else Some B))"

partial_function (option) binary_loop :: "bool \<Rightarrow> bignum \<Rightarrow> euclid \<Rightarrow> euclid option" where
  "binary_loop alloc n s =
    (if BN_is_zero (eB s) then Some s
     else
       Option.bind (make_odd alloc n (eB s) (eX s)) (\<lambda>(B, X).
       Option.bind (make_odd alloc n (eA s) (eY s)) (\<lambda>(A, Y).
       Option.bind
         (if BN_ucmp B A \<ge> 0 then
            Option.bind (BN_uadd alloc X X Y) (\<lambda>X.
            map_option (\<lambda>B. s\<lparr>eA := A, eB := B, eX := X, eY := Y\<rparr>) (BN_usub alloc B B A))
          else
            Option.bind (BN_uadd alloc Y Y X) (\<lambda>Y.
            map_option (\<lambda>A. s\<lparr>eA := A, eB := B, eX := X, eY := Y\<rparr>) (BN_usub alloc A A B))) (\<lambda>s.
       binary_loop alloc n s))))"

subsection \<open>Inverses with divisions\<close>

text \<open>The quotient \<open>D\<close> and the remainder \<open>M\<close> of \<open>A\<close> and \<open>B\<close>, by subtractions when the quotient is at most 3.\<close>

definition euclid_div :: "bool \<Rightarrow> bignum list \<Rightarrow> euclid \<Rightarrow> euclid option" where
  "euclid_div alloc ctx s =
    (let A = eA s; B = eB s; D = eD s; M = eM s; T = eT s
     in if BN_num_bits A = BN_num_bits B then
          Option.bind (BN_set_word alloc D 1) (\<lambda>D. map_option (\<lambda>M. s\<lparr>eD := D, eM := M\<rparr>) (BN_sub alloc M A B))
        else if BN_num_bits A = BN_num_bits B + 1 then
          Option.bind (BN_lshift1 alloc T B) (\<lambda>T.
            if BN_ucmp A T < 0 then
              Option.bind (BN_set_word alloc D 1) (\<lambda>D. map_option (\<lambda>M. s\<lparr>eD := D, eM := M, eT := T\<rparr>) (BN_sub alloc M A B))
            else
              Option.bind (BN_sub alloc M A T) (\<lambda>M.
              Option.bind (BN_add alloc D T B) (\<lambda>D.
                if BN_ucmp A D < 0 then map_option (\<lambda>D. s\<lparr>eD := D, eM := M, eT := T\<rparr>) (BN_set_word alloc D 2)
                else
                  Option.bind (BN_set_word alloc D 3) (\<lambda>D. map_option (\<lambda>M. s\<lparr>eD := D, eM := M, eT := T\<rparr>) (BN_sub alloc M M B)))))
        else map_option (\<lambda>(D, M). s\<lparr>eD := the D, eM := the M\<rparr>) (BN_div alloc ctx (Some D) (Some M) A B))"

text \<open>The next \<open>X\<close>, \<open>D * X + Y\<close>, in \<open>tmp\<close>.\<close>

definition euclid_mul :: "bool \<Rightarrow> bignum list \<Rightarrow> bignum \<Rightarrow> bignum \<Rightarrow> bignum \<Rightarrow> bignum \<Rightarrow> bignum option" where
  "euclid_mul alloc ctx tmp D X Y =
    (if BN_is_one D then BN_add alloc tmp X Y
     else
       Option.bind
         (if BN_is_word D 2 then BN_lshift1 alloc tmp X
          else if BN_is_word D 4 then BN_lshift alloc tmp X 2
          else if bn_top D = 1 then Option.bind (BN_copy alloc tmp X) (\<lambda>tmp. BN_mul_word alloc tmp (bn_d D ! 0))
          else BN_mul alloc False ctx tmp D X) (\<lambda>tmp.
       BN_add alloc tmp tmp Y))"

partial_function (option) euclid_loop :: "bool \<Rightarrow> bignum list \<Rightarrow> euclid \<Rightarrow> euclid option" where
  "euclid_loop alloc ctx s =
    (if BN_is_zero (eB s) then Some s
     else
       Option.bind (euclid_div alloc ctx s) (\<lambda>s.
       Option.bind (euclid_mul alloc ctx (eA s) (eD s) (eX s) (eY s)) (\<lambda>tmp.
       euclid_loop alloc ctx (euclid_turn s tmp))))"

subsection \<open>The interface\<close>

definition int_bn_mod_inverse :: "bool \<Rightarrow> bignum list \<Rightarrow> bool \<Rightarrow> bignum option \<Rightarrow> bignum \<Rightarrow> bignum \<Rightarrow> bool \<times> bignum option" where
  "int_bn_mod_inverse alloc ctx al inp a n =
    (if BN_abs_is_word n 1 \<or> BN_is_zero n then (True, None)
     else if BN_get_flags a BN_FLG_CONSTTIME \<noteq> 0 \<or> BN_get_flags n BN_FLG_CONSTTIME \<noteq> 0 then bn_mod_inverse_no_branch alloc ctx al inp a n
     else
       case Option.bind (euclid_init alloc ctx a n) (\<lambda>(s, ctx).
            Option.bind (inverse_target alloc al inp n) (\<lambda>R.
            Option.bind
              (if bn_neg (eB s) \<or> BN_ucmp (eB s) (eA s) \<ge> 0 then
                 map_option (\<lambda>B. s\<lparr>eB := B\<rparr>) (BN_nnmod alloc ctx (eB s) (eB s) (eA s))
               else Some s) (\<lambda>s.
            map_option (\<lambda>s. euclid_end alloc ctx al R n s)
              (if BN_is_odd n \<and> BN_num_bits n \<le> 2048 then binary_loop alloc n s else euclid_loop alloc ctx s)))) of
         None \<Rightarrow> (False, None)
       | Some r \<Rightarrow> r)"

text \<open>The error code \<open>BN_R_NO_INVERSE\<close> is reported when \<open>noinv\<close> is set, the first component here.\<close>

definition BN_mod_inverse :: "bool \<Rightarrow> bignum list \<Rightarrow> bool \<Rightarrow> bignum option \<Rightarrow> bignum \<Rightarrow> bignum \<Rightarrow> bool \<times> bignum option" where
  "BN_mod_inverse alloc ctx al inp a n = int_bn_mod_inverse alloc ctx al inp a n"

end
