(* ===== verification/BnComba.thy ===== *)
theory BnComba
  imports BnAsmProps
begin

text \<open>
  The products by columns of \<^verbatim>\<open>bn_asm.c\<close>: three words never overflow within a column, and the columns together are
  the product.
\<close>

fun val3 :: "u64 \<times> u64 \<times> u64 \<Rightarrow> nat" where
  "val3 (c0, c1, c2) = unat c0 + 2 ^ 64 * unat c1 + 2 ^ 128 * unat c2"

text \<open>An addition to the three words that is exact while the sum fits.\<close>

definition adds :: "(u64 \<times> u64 \<times> u64 \<Rightarrow> u64 \<times> u64 \<times> u64) \<Rightarrow> nat \<Rightarrow> bool" where
  "adds f x \<longleftrightarrow> x \<le> 2 ^ 129 \<and> (\<forall>c. val3 c + x < 2 ^ 192 \<longrightarrow> val3 (f c) = val3 c + x)"

lemma addsD: "adds f x \<Longrightarrow> val3 c + x < 2 ^ 192 \<Longrightarrow> val3 (f c) = val3 c + x" "adds f x \<Longrightarrow> x \<le> 2 ^ 129"
  unfolding adds_def by blast+

lemma unat_plus_bool: "unat h + of_bool P < 2 ^ 64 \<Longrightarrow> unat (h + of_bool P :: u64) = unat h + of_bool P"
  using unat_plus [of h 1] by (cases P) simp_all

lemma adds_product:
  assumes "unat lo + 2 ^ 64 * unat hi = x" "x \<le> (2 ^ 64 - 1) * (2 ^ 64 - 1)"
    and "\<And>c0 c1 c2. f (c0, c1, c2) =
      (c0 + lo, c1 + (hi + of_bool (c0 + lo < lo)), c2 + of_bool (c1 + (hi + of_bool (c0 + lo < lo)) < hi + of_bool (c0 + lo < lo)))"
  shows "adds f x"
  unfolding adds_def
proof (intro conjI allI impI)
  show "x \<le> 2 ^ 129" using assms(2) by (rule order_trans) simp
  fix c assume c: "val3 c + x < 2 ^ 192"
  obtain c0 c1 c2 where c3: "c = (c0, c1, c2)" by (cases c)
  let ?h = "hi + of_bool (c0 + lo < lo)"
  have 0: "unat (c0 + lo) + 2 ^ 64 * of_bool (c0 + lo < lo) = unat c0 + unat lo" by (rule word_add_carry)
  have "unat hi \<le> 2 ^ 64 - 2" using assms(1,2) by simp
  then have h: "unat ?h = unat hi + of_bool (c0 + lo < lo)" by (intro unat_plus_bool) simp
  have 1: "unat (c1 + ?h) + 2 ^ 64 * of_bool (c1 + ?h < ?h) = unat c1 + unat ?h" by (rule word_add_carry)
  have total: "val3 c + x = unat (c0 + lo) + 2 ^ 64 * unat (c1 + ?h) + 2 ^ 128 * (unat c2 + of_bool (c1 + ?h < ?h))"
    using 0 1 h assms(1) unfolding c3 by (simp add: algebra_simps)
  have "unat c2 + of_bool (c1 + ?h < ?h) < 2 ^ 64" using c unfolding total by simp
  then have "unat (c2 + of_bool (c1 + ?h < ?h)) = unat c2 + of_bool (c1 + ?h < ?h)" by (rule unat_plus_bool)
  then show "val3 (f c) = val3 c + x" unfolding total unfolding c3 assms(3) by simp
qed

lemma mul_add_c: "adds (mul_add_c a b) (unat a * unat b)"
proof -
  obtain lo hi where m: "mul64 (LBITS a) (HBITS a) (LBITS b) (HBITS b) = (lo, hi)" by fastforce
  show ?thesis
    by (rule adds_product [OF mul64_words [OF m] word_prod]) (auto simp: mul_add_c_def m and_MASK2 Let_def)
qed

lemma sqr_add_c: "adds (sqr_add_c a i) (unat (a ! i) * unat (a ! i))"
proof -
  obtain lo hi where m: "sqr64 (a ! i) = (lo, hi)" by fastforce
  show ?thesis
    by (rule adds_product [OF sqr64 [OF m] word_prod]) (auto simp: sqr_add_c_def m and_MASK2 Let_def)
qed

lemma mul_add_c2_twice: "mul_add_c2 a b c = mul_add_c a b (mul_add_c a b c)"
  by (auto simp: mul_add_c2_def mul_add_c_def Let_def split: prod.splits)

lemma sqr_add_c2: "adds (sqr_add_c2 a i j) (2 * unat (a ! i) * unat (a ! j))"
proof -
  have p: "unat (a ! i) * unat (a ! j) \<le> 2 ^ 128" by (rule order_trans [OF word_prod]) simp
  show ?thesis
    unfolding adds_def
  proof (intro conjI allI impI)
    show "2 * unat (a ! i) * unat (a ! j) \<le> 2 ^ 129" using p by simp
    fix c assume c: "val3 c + 2 * unat (a ! i) * unat (a ! j) < 2 ^ 192"
    then have 1: "val3 (mul_add_c (a ! i) (a ! j) c) = val3 c + unat (a ! i) * unat (a ! j)"
      by (intro addsD(1) [OF mul_add_c]) linarith
    then show "val3 (sqr_add_c2 a i j c) = val3 c + 2 * unat (a ! i) * unat (a ! j)"
      unfolding sqr_add_c2_def mul_add_c2_twice using c by (subst addsD(1) [OF mul_add_c]) linarith+
  qed
qed

subsection \<open>Columns\<close>

fun cols_val :: "nat \<Rightarrow> nat list list \<Rightarrow> nat" where
  "cols_val X [] = 0"
| "cols_val X (v # vs) = sum_list v + X * cols_val X vs"

lemma column:
  "list_all2 adds fs xs \<Longrightarrow> val3 c + sum_list xs < 2 ^ 192 \<Longrightarrow> val3 (fold (\<lambda>f. f) fs c) = val3 c + sum_list xs"
proof (induction fs xs arbitrary: c rule: list_all2_induct)
  case (Cons f fs x xs)
  then have "val3 (f c) = val3 c + x" using addsD(1) [of f x c] by simp
  then show ?case using Cons by simp
qed simp

lemma column_bound: "list_all2 adds fs xs \<Longrightarrow> sum_list xs \<le> length fs * 2 ^ 129"
  by (induction fs xs rule: list_all2_induct) (simp, use addsD(2) in \<open>fastforce\<close>)

lemma comba_cols:
  assumes "list_all2 (list_all2 adds) cols vs" "\<forall>col\<in>set cols. length col \<le> 8"
    and "val3 c < 2 ^ 128" "val3 c + cols_val (2 ^ 64) vs < 2 ^ (64 * (length cols + 1))"
  shows "words_val (comba_cols cols c) = val3 c + cols_val (2 ^ 64) vs \<and> length (comba_cols cols c) = length cols + 1"
  using assms
proof (induction cols vs arbitrary: c rule: list_all2_induct)
  case Nil
  then show ?case by (cases c) simp
next
  case (Cons col cols v vs)
  have "sum_list v \<le> 8 * 2 ^ 129"
    using column_bound [OF Cons.hyps(1)] Cons.prems(1) mult_le_mono1 [of "length col" 8 "2 ^ 129"] by (simp del: mult_le_cancel2)
  then have s: "val3 c + sum_list v < 2 ^ 192 - 1" using Cons.prems(2) by simp
  obtain c0 c1 c2 where f: "fold (\<lambda>f. f) col c = (c0, c1, c2)" by (metis surj_pair)
  have v: "val3 c + sum_list v = unat c0 + 2 ^ 64 * val3 (c1, c2, 0)"
    using column [OF Cons.hyps(1), of c] s f by simp
  have "val3 (c1, c2, 0) < 2 ^ 128" using s unfolding v by simp
  moreover have "val3 (c1, c2, 0) + cols_val (2 ^ 64) vs < 2 ^ (64 * (length cols + 1))"
  proof -
    have "unat c0 + 2 ^ 64 * (val3 (c1, c2, 0) + cols_val (2 ^ 64) vs) < 2 ^ (64 * (length (col # cols) + 1))"
      using Cons.prems(3) v by (simp only: cols_val.simps) (simp add: algebra_simps)
    also have "\<dots> = 2 ^ 64 * 2 ^ (64 * (length cols + 1))" by (simp add: power_add)
    finally have "2 ^ 64 * (val3 (c1, c2, 0) + cols_val (2 ^ 64) vs) < 2 ^ 64 * 2 ^ (64 * (length cols + 1))" by linarith
    then show ?thesis by (simp only: mult_less_cancel1)
  qed
  ultimately have "words_val (comba_cols cols (c1, c2, 0)) = val3 (c1, c2, 0) + cols_val (2 ^ 64) vs"
      "length (comba_cols cols (c1, c2, 0)) = length cols + 1"
    using Cons.IH [of "(c1, c2, 0)"] Cons.prems(1) by simp_all
  then show ?case using v f by (simp add: algebra_simps del: val3.simps)
qed

lemma bn_mul_comba8_poly:
  "cols_val X
     [[a0 * b0],
      [a0 * b1, a1 * b0],
      [a2 * b0, a1 * b1, a0 * b2],
      [a0 * b3, a1 * b2, a2 * b1, a3 * b0],
      [a4 * b0, a3 * b1, a2 * b2, a1 * b3, a0 * b4],
      [a0 * b5, a1 * b4, a2 * b3, a3 * b2, a4 * b1, a5 * b0],
      [a6 * b0, a5 * b1, a4 * b2, a3 * b3, a2 * b4, a1 * b5, a0 * b6],
      [a0 * b7, a1 * b6, a2 * b5, a3 * b4, a4 * b3, a5 * b2, a6 * b1, a7 * b0],
      [a7 * b1, a6 * b2, a5 * b3, a4 * b4, a3 * b5, a2 * b6, a1 * b7],
      [a2 * b7, a3 * b6, a4 * b5, a5 * b4, a6 * b3, a7 * b2],
      [a7 * b3, a6 * b4, a5 * b5, a4 * b6, a3 * b7],
      [a4 * b7, a5 * b6, a6 * b5, a7 * b4],
      [a7 * b5, a6 * b6, a5 * b7],
      [a6 * b7, a7 * b6],
      [a7 * b7]] =
   (a0 + X * (a1 + X * (a2 + X * (a3 + X * (a4 + X * (a5 + X * (a6 + X * a7))))))) * (b0 + X * (b1 + X * (b2 + X * (b3 + X * (b4 + X * (b5 + X * (b6 + X * b7)))))))"
  by (simp add: algebra_simps)

lemma bn_mul_comba4_poly:
  "cols_val X
     [[a0 * b0],
      [a0 * b1, a1 * b0],
      [a2 * b0, a1 * b1, a0 * b2],
      [a0 * b3, a1 * b2, a2 * b1, a3 * b0],
      [a3 * b1, a2 * b2, a1 * b3],
      [a2 * b3, a3 * b2],
      [a3 * b3]] =
   (a0 + X * (a1 + X * (a2 + X * a3))) * (b0 + X * (b1 + X * (b2 + X * b3)))"
  by (simp add: algebra_simps)

lemma bn_sqr_comba8_poly:
  "cols_val X
     [[a0 * a0],
      [2 * a1 * a0],
      [a1 * a1, 2 * a2 * a0],
      [2 * a3 * a0, 2 * a2 * a1],
      [a2 * a2, 2 * a3 * a1, 2 * a4 * a0],
      [2 * a5 * a0, 2 * a4 * a1, 2 * a3 * a2],
      [a3 * a3, 2 * a4 * a2, 2 * a5 * a1, 2 * a6 * a0],
      [2 * a7 * a0, 2 * a6 * a1, 2 * a5 * a2, 2 * a4 * a3],
      [a4 * a4, 2 * a5 * a3, 2 * a6 * a2, 2 * a7 * a1],
      [2 * a7 * a2, 2 * a6 * a3, 2 * a5 * a4],
      [a5 * a5, 2 * a6 * a4, 2 * a7 * a3],
      [2 * a7 * a4, 2 * a6 * a5],
      [a6 * a6, 2 * a7 * a5],
      [2 * a7 * a6],
      [a7 * a7]] =
   (a0 + X * (a1 + X * (a2 + X * (a3 + X * (a4 + X * (a5 + X * (a6 + X * a7))))))) * (a0 + X * (a1 + X * (a2 + X * (a3 + X * (a4 + X * (a5 + X * (a6 + X * a7)))))))"
  by (simp add: algebra_simps)

lemma bn_sqr_comba4_poly:
  "cols_val X
     [[a0 * a0],
      [2 * a1 * a0],
      [a1 * a1, 2 * a2 * a0],
      [2 * a3 * a0, 2 * a2 * a1],
      [a2 * a2, 2 * a3 * a1],
      [2 * a3 * a2],
      [a3 * a3]] =
   (a0 + X * (a1 + X * (a2 + X * a3))) * (a0 + X * (a1 + X * (a2 + X * a3)))"
  by (simp add: algebra_simps)

lemma take_map_nth: "n \<le> length a \<Longrightarrow> take n a = map ((!) a) [0..<n]"
  by (simp add: list_eq_iff_nth_eq)

lemma map_upt_4: "map f [0..<4] = [f 0, f 1, f 2, f 3]"
  by (simp add: upt_rec numeral_eq_Suc)

lemma map_upt_8: "map f [0..<8] = [f 0, f 1, f 2, f 3, f 4, f 5, f 6, f 7]"
  by (simp add: upt_rec numeral_eq_Suc)

lemma comba_product:
  assumes "list_all2 (list_all2 adds) cols vs" "\<forall>col\<in>set cols. length col \<le> 8" "length cols + 1 = length x + length y"
    and "cols_val (2 ^ 64) vs = words_val x * words_val y"
  shows "words_val (comba_cols cols (0, 0, 0)) = words_val x * words_val y" "length (comba_cols cols (0, 0, 0)) = length x + length y"
proof -
  have "words_val x * words_val y < 2 ^ (64 * length x) * 2 ^ (64 * length y)" by (intro mult_strict_mono words_val_less) simp_all
  also have "\<dots> = 2 ^ (64 * (length cols + 1))" unfolding assms(3) by (simp add: power_add distrib_left)
  finally have "val3 (0, 0, 0) + cols_val (2 ^ 64) vs < 2 ^ (64 * (length cols + 1))" unfolding assms(4) by simp
  then show "words_val (comba_cols cols (0, 0, 0)) = words_val x * words_val y" "length (comba_cols cols (0, 0, 0)) = length x + length y"
    using comba_cols [OF assms(1,2), of "(0, 0, 0)"] assms(3,4) by simp_all
qed

lemma bn_mul_comba8:
  assumes "8 \<le> length a" "8 \<le> length b"
  shows "words_val (take 16 (bn_mul_comba8 r a b)) = words_val (take 8 a) * words_val (take 8 b)"
    "length (bn_mul_comba8 r a b) = 16 + (length r - 16)" "drop 16 (bn_mul_comba8 r a b) = drop 16 r"
proof -
  let ?vs = "[[unat (a ! 0) * unat (b ! 0)],
       [unat (a ! 0) * unat (b ! 1), unat (a ! 1) * unat (b ! 0)],
       [unat (a ! 2) * unat (b ! 0), unat (a ! 1) * unat (b ! 1), unat (a ! 0) * unat (b ! 2)],
       [unat (a ! 0) * unat (b ! 3), unat (a ! 1) * unat (b ! 2), unat (a ! 2) * unat (b ! 1), unat (a ! 3) * unat (b ! 0)],
       [unat (a ! 4) * unat (b ! 0), unat (a ! 3) * unat (b ! 1), unat (a ! 2) * unat (b ! 2), unat (a ! 1) * unat (b ! 3), unat (a ! 0) * unat (b ! 4)],
       [unat (a ! 0) * unat (b ! 5), unat (a ! 1) * unat (b ! 4), unat (a ! 2) * unat (b ! 3), unat (a ! 3) * unat (b ! 2), unat (a ! 4) * unat (b ! 1), unat (a ! 5) * unat (b ! 0)],
       [unat (a ! 6) * unat (b ! 0), unat (a ! 5) * unat (b ! 1), unat (a ! 4) * unat (b ! 2), unat (a ! 3) * unat (b ! 3), unat (a ! 2) * unat (b ! 4), unat (a ! 1) * unat (b ! 5), unat (a ! 0) * unat (b ! 6)],
       [unat (a ! 0) * unat (b ! 7), unat (a ! 1) * unat (b ! 6), unat (a ! 2) * unat (b ! 5), unat (a ! 3) * unat (b ! 4), unat (a ! 4) * unat (b ! 3), unat (a ! 5) * unat (b ! 2), unat (a ! 6) * unat (b ! 1), unat (a ! 7) * unat (b ! 0)],
       [unat (a ! 7) * unat (b ! 1), unat (a ! 6) * unat (b ! 2), unat (a ! 5) * unat (b ! 3), unat (a ! 4) * unat (b ! 4), unat (a ! 3) * unat (b ! 5), unat (a ! 2) * unat (b ! 6), unat (a ! 1) * unat (b ! 7)],
       [unat (a ! 2) * unat (b ! 7), unat (a ! 3) * unat (b ! 6), unat (a ! 4) * unat (b ! 5), unat (a ! 5) * unat (b ! 4), unat (a ! 6) * unat (b ! 3), unat (a ! 7) * unat (b ! 2)],
       [unat (a ! 7) * unat (b ! 3), unat (a ! 6) * unat (b ! 4), unat (a ! 5) * unat (b ! 5), unat (a ! 4) * unat (b ! 6), unat (a ! 3) * unat (b ! 7)],
       [unat (a ! 4) * unat (b ! 7), unat (a ! 5) * unat (b ! 6), unat (a ! 6) * unat (b ! 5), unat (a ! 7) * unat (b ! 4)],
       [unat (a ! 7) * unat (b ! 5), unat (a ! 6) * unat (b ! 6), unat (a ! 5) * unat (b ! 7)],
       [unat (a ! 6) * unat (b ! 7), unat (a ! 7) * unat (b ! 6)],
       [unat (a ! 7) * unat (b ! 7)]]"
  have p: "cols_val (2 ^ 64) ?vs = words_val (take 8 a) * words_val (take 8 b)"
    unfolding take_map_nth [OF assms(1)] take_map_nth [OF assms(2)] bn_mul_comba8_poly by (simp add: map_upt_4 map_upt_8)
  obtain cols where c: "bn_mul_comba8 r a b = comba_cols cols (0, 0, 0) @ drop 16 r" "list_all2 (list_all2 adds) cols ?vs"
    "\<forall>col\<in>set cols. length col \<le> 8" "length cols = 15"
    by (rule that [OF bn_mul_comba8_def [unfolded Let_def]]) (simp_all add: mul_add_c sqr_add_c sqr_add_c2)
  have l: "length cols + 1 = length (take 8 a) + length (take 8 b)" using assms c(4) by simp
  show "words_val (take 16 (bn_mul_comba8 r a b)) = words_val (take 8 a) * words_val (take 8 b)"
    "length (bn_mul_comba8 r a b) = 16 + (length r - 16)" "drop 16 (bn_mul_comba8 r a b) = drop 16 r"
    using comba_product [OF c(2,3) l p] assms unfolding c(1) by simp_all
qed

lemma bn_mul_comba4:
  assumes "4 \<le> length a" "4 \<le> length b"
  shows "words_val (take 8 (bn_mul_comba4 r a b)) = words_val (take 4 a) * words_val (take 4 b)"
    "length (bn_mul_comba4 r a b) = 8 + (length r - 8)" "drop 8 (bn_mul_comba4 r a b) = drop 8 r"
proof -
  let ?vs = "[[unat (a ! 0) * unat (b ! 0)],
       [unat (a ! 0) * unat (b ! 1), unat (a ! 1) * unat (b ! 0)],
       [unat (a ! 2) * unat (b ! 0), unat (a ! 1) * unat (b ! 1), unat (a ! 0) * unat (b ! 2)],
       [unat (a ! 0) * unat (b ! 3), unat (a ! 1) * unat (b ! 2), unat (a ! 2) * unat (b ! 1), unat (a ! 3) * unat (b ! 0)],
       [unat (a ! 3) * unat (b ! 1), unat (a ! 2) * unat (b ! 2), unat (a ! 1) * unat (b ! 3)],
       [unat (a ! 2) * unat (b ! 3), unat (a ! 3) * unat (b ! 2)],
       [unat (a ! 3) * unat (b ! 3)]]"
  have p: "cols_val (2 ^ 64) ?vs = words_val (take 4 a) * words_val (take 4 b)"
    unfolding take_map_nth [OF assms(1)] take_map_nth [OF assms(2)] bn_mul_comba4_poly by (simp add: map_upt_4 map_upt_8)
  obtain cols where c: "bn_mul_comba4 r a b = comba_cols cols (0, 0, 0) @ drop 8 r" "list_all2 (list_all2 adds) cols ?vs"
    "\<forall>col\<in>set cols. length col \<le> 8" "length cols = 7"
    by (rule that [OF bn_mul_comba4_def [unfolded Let_def]]) (simp_all add: mul_add_c sqr_add_c sqr_add_c2)
  have l: "length cols + 1 = length (take 4 a) + length (take 4 b)" using assms c(4) by simp
  show "words_val (take 8 (bn_mul_comba4 r a b)) = words_val (take 4 a) * words_val (take 4 b)"
    "length (bn_mul_comba4 r a b) = 8 + (length r - 8)" "drop 8 (bn_mul_comba4 r a b) = drop 8 r"
    using comba_product [OF c(2,3) l p] assms unfolding c(1) by simp_all
qed

lemma bn_sqr_comba8:
  assumes "8 \<le> length a"
  shows "words_val (take 16 (bn_sqr_comba8 r a)) = words_val (take 8 a) * words_val (take 8 a)"
    "length (bn_sqr_comba8 r a) = 16 + (length r - 16)" "drop 16 (bn_sqr_comba8 r a) = drop 16 r"
proof -
  let ?vs = "[[unat (a ! 0) * unat (a ! 0)],
       [2 * unat (a ! 1) * unat (a ! 0)],
       [unat (a ! 1) * unat (a ! 1), 2 * unat (a ! 2) * unat (a ! 0)],
       [2 * unat (a ! 3) * unat (a ! 0), 2 * unat (a ! 2) * unat (a ! 1)],
       [unat (a ! 2) * unat (a ! 2), 2 * unat (a ! 3) * unat (a ! 1), 2 * unat (a ! 4) * unat (a ! 0)],
       [2 * unat (a ! 5) * unat (a ! 0), 2 * unat (a ! 4) * unat (a ! 1), 2 * unat (a ! 3) * unat (a ! 2)],
       [unat (a ! 3) * unat (a ! 3), 2 * unat (a ! 4) * unat (a ! 2), 2 * unat (a ! 5) * unat (a ! 1), 2 * unat (a ! 6) * unat (a ! 0)],
       [2 * unat (a ! 7) * unat (a ! 0), 2 * unat (a ! 6) * unat (a ! 1), 2 * unat (a ! 5) * unat (a ! 2), 2 * unat (a ! 4) * unat (a ! 3)],
       [unat (a ! 4) * unat (a ! 4), 2 * unat (a ! 5) * unat (a ! 3), 2 * unat (a ! 6) * unat (a ! 2), 2 * unat (a ! 7) * unat (a ! 1)],
       [2 * unat (a ! 7) * unat (a ! 2), 2 * unat (a ! 6) * unat (a ! 3), 2 * unat (a ! 5) * unat (a ! 4)],
       [unat (a ! 5) * unat (a ! 5), 2 * unat (a ! 6) * unat (a ! 4), 2 * unat (a ! 7) * unat (a ! 3)],
       [2 * unat (a ! 7) * unat (a ! 4), 2 * unat (a ! 6) * unat (a ! 5)],
       [unat (a ! 6) * unat (a ! 6), 2 * unat (a ! 7) * unat (a ! 5)],
       [2 * unat (a ! 7) * unat (a ! 6)],
       [unat (a ! 7) * unat (a ! 7)]]"
  have p: "cols_val (2 ^ 64) ?vs = words_val (take 8 a) * words_val (take 8 a)"
    unfolding take_map_nth [OF assms(1)] bn_sqr_comba8_poly by (simp add: map_upt_4 map_upt_8)
  obtain cols where c: "bn_sqr_comba8 r a = comba_cols cols (0, 0, 0) @ drop 16 r" "list_all2 (list_all2 adds) cols ?vs"
    "\<forall>col\<in>set cols. length col \<le> 8" "length cols = 15"
    by (rule that [OF bn_sqr_comba8_def [unfolded Let_def]]) (simp_all add: mul_add_c sqr_add_c sqr_add_c2)
  have l: "length cols + 1 = length (take 8 a) + length (take 8 a)" using assms c(4) by simp
  show "words_val (take 16 (bn_sqr_comba8 r a)) = words_val (take 8 a) * words_val (take 8 a)"
    "length (bn_sqr_comba8 r a) = 16 + (length r - 16)" "drop 16 (bn_sqr_comba8 r a) = drop 16 r"
    using comba_product [OF c(2,3) l p] assms unfolding c(1) by simp_all
qed

lemma bn_sqr_comba4:
  assumes "4 \<le> length a"
  shows "words_val (take 8 (bn_sqr_comba4 r a)) = words_val (take 4 a) * words_val (take 4 a)"
    "length (bn_sqr_comba4 r a) = 8 + (length r - 8)" "drop 8 (bn_sqr_comba4 r a) = drop 8 r"
proof -
  let ?vs = "[[unat (a ! 0) * unat (a ! 0)],
       [2 * unat (a ! 1) * unat (a ! 0)],
       [unat (a ! 1) * unat (a ! 1), 2 * unat (a ! 2) * unat (a ! 0)],
       [2 * unat (a ! 3) * unat (a ! 0), 2 * unat (a ! 2) * unat (a ! 1)],
       [unat (a ! 2) * unat (a ! 2), 2 * unat (a ! 3) * unat (a ! 1)],
       [2 * unat (a ! 3) * unat (a ! 2)],
       [unat (a ! 3) * unat (a ! 3)]]"
  have p: "cols_val (2 ^ 64) ?vs = words_val (take 4 a) * words_val (take 4 a)"
    unfolding take_map_nth [OF assms(1)] bn_sqr_comba4_poly by (simp add: map_upt_4 map_upt_8)
  obtain cols where c: "bn_sqr_comba4 r a = comba_cols cols (0, 0, 0) @ drop 8 r" "list_all2 (list_all2 adds) cols ?vs"
    "\<forall>col\<in>set cols. length col \<le> 8" "length cols = 7"
    by (rule that [OF bn_sqr_comba4_def [unfolded Let_def]]) (simp_all add: mul_add_c sqr_add_c sqr_add_c2)
  have l: "length cols + 1 = length (take 4 a) + length (take 4 a)" using assms c(4) by simp
  show "words_val (take 8 (bn_sqr_comba4 r a)) = words_val (take 4 a) * words_val (take 4 a)"
    "length (bn_sqr_comba4 r a) = 8 + (length r - 8)" "drop 8 (bn_sqr_comba4 r a) = drop 8 r"
    using comba_product [OF c(2,3) l p] assms unfolding c(1) by simp_all
qed

text \<open>C35: the unrolled column-wise products of four and eight words and the two squares are exact: whatever the result array
  held, its first words become the product and the others stay.\<close>

theorem comba_products:
  assumes "8 \<le> length a" "8 \<le> length b" "16 \<le> length r"
  shows "words_val (take 16 (bn_mul_comba8 r a b)) = words_val (take 8 a) * words_val (take 8 b) \<and> drop 16 (bn_mul_comba8 r a b) = drop 16 r \<and>
    words_val (take 8 (bn_mul_comba4 r a b)) = words_val (take 4 a) * words_val (take 4 b) \<and> drop 8 (bn_mul_comba4 r a b) = drop 8 r \<and>
    words_val (take 16 (bn_sqr_comba8 r a)) = (words_val (take 8 a)) ^ 2 \<and> drop 16 (bn_sqr_comba8 r a) = drop 16 r \<and>
    words_val (take 8 (bn_sqr_comba4 r a)) = (words_val (take 4 a)) ^ 2 \<and> drop 8 (bn_sqr_comba4 r a) = drop 8 r"
  using bn_mul_comba8 [of a b r] bn_mul_comba4 [of a b r] bn_sqr_comba8 [of a r] bn_sqr_comba4 [of a r] assms
  by (simp add: power2_eq_square)

theorem comba_products_witness:
  "words_val (take 16 (bn_mul_comba8 (replicate 16 0) [1, 2, 3, 4, 5, 6, 7, 8] [9, 8, 7, 6, 5, 4, 3, 2])) =
     words_val (take 8 [1, 2, 3, 4, 5, 6, 7, 8]) * words_val (take 8 [9, 8, 7, 6, 5, 4, 3, 2])"
  using comba_products [of "[1, 2, 3, 4, 5, 6, 7, 8]" "[9, 8, 7, 6, 5, 4, 3, 2]" "replicate 16 0"] by (simp only: length_replicate list.size)

end
