(* ===== verification/BnMulProps.thy ===== *)
theory BnMulProps
  imports BnMul BnComba BnShiftProps
begin

text \<open>
  The products of \<^verbatim>\<open>bn_mul.c\<close> and \<^verbatim>\<open>bn_sqr.c\<close> on arrays: the words written are the product of the words read, and the words
  after them are not touched.
\<close>

text \<open>\<open>wrote n v r r'\<close>: the first \<open>n\<close> words of the array at \<open>r\<close> have become the number \<open>v\<close>.\<close>

definition wrote :: "nat \<Rightarrow> nat \<Rightarrow> u64 list \<Rightarrow> u64 list \<Rightarrow> bool" where
  "wrote n v r r' \<longleftrightarrow> length r' = length r \<and> drop n r' = drop n r \<and> words_val (take n r') = v"

lemma wrote_at:
  assumes "wrote n v (drop k r) (f (drop k r))" "k \<le> length r"
  shows "length (at k f r) = length r" "take k (at k f r) = take k r" "drop k (at k f r) = f (drop k r)" "drop (k + n) (at k f r) = drop (k + n) r"
    "words_val (take n (drop k (at k f r))) = v"
proof -
  have l: "length (f (drop k r)) = length r - k" using assms by (simp add: wrote_def)
  show "length (at k f r) = length r" "take k (at k f r) = take k r" and d: "drop k (at k f r) = f (drop k r)" using l assms(2) by (simp_all add: at_def)
  show "words_val (take n (drop k (at k f r))) = v" unfolding d using assms(1) by (simp add: wrote_def)
  have "drop (k + n) (at k f r) = drop n (drop k (at k f r))" by (simp add: add.commute)
  then show "drop (k + n) (at k f r) = drop (k + n) r" unfolding d using assms(1) by (simp add: wrote_def add.commute)
qed

lemma memset0_wrote: "n \<le> length r \<Longrightarrow> wrote n 0 r (memset0 n r)"
  using words_val_replicate [of n "[]"] by (simp add: wrote_def memset0_def)

lemma comba_wrote:
  "8 \<le> length a \<Longrightarrow> 8 \<le> length b \<Longrightarrow> 16 \<le> length r \<Longrightarrow> wrote 16 (words_val (take 8 a) * words_val (take 8 b)) r (bn_mul_comba8 r a b)"
  "4 \<le> length a \<Longrightarrow> 4 \<le> length b \<Longrightarrow> 8 \<le> length r \<Longrightarrow> wrote 8 (words_val (take 4 a) * words_val (take 4 b)) r (bn_mul_comba4 r a b)"
  "8 \<le> length a \<Longrightarrow> 16 \<le> length r \<Longrightarrow> wrote 16 (words_val (take 8 a) * words_val (take 8 a)) r (bn_sqr_comba8 r a)"
  "4 \<le> length a \<Longrightarrow> 8 \<le> length r \<Longrightarrow> wrote 8 (words_val (take 4 a) * words_val (take 4 a)) r (bn_sqr_comba4 r a)"
  by (simp_all add: wrote_def bn_mul_comba8 bn_mul_comba4 bn_sqr_comba8 bn_sqr_comba4)

subsection \<open>Differences\<close>

text \<open>A step of a loop that takes words away, from the lowest word on.\<close>

lemma sub_word_nat: "unat c \<le> 1 \<Longrightarrow> sub_word a b c = (r, c') \<Longrightarrow> unat c' \<le> 1 \<and> unat r + unat b + unat c = unat a + 2 ^ 64 * unat c'"
proof -
  assume a: "unat c \<le> 1" "sub_word a b c = (r, c')"
  have "int (unat r + unat b + unat c) = int (unat a + 2 ^ 64 * unat c')" using sub_word [OF a] by simp
  then show ?thesis using sub_word [OF a] by (simp only: of_nat_eq_iff)
qed

lemma chain_step:
  fixes r :: nat
  assumes "r + t + c = u + K * k" "R + T + k = U + P * e"
  shows "(r + K * R) + (t + K * T) + c = (u + K * U) + K * P * e"
proof -
  have "K * (R + T + k) = K * (U + P * e)" using assms(2) by simp
  then show ?thesis using assms(1) by (simp add: distrib_left mult.assoc)
qed

lemma sub_part_b:
  "n \<le> length b \<Longrightarrow> unat c \<le> 1 \<Longrightarrow> sub_part_b b n c = (rs, c') \<Longrightarrow>
   length rs = n \<and> unat c' \<le> 1 \<and> words_val rs + words_val (take n b) + unat c = 2 ^ (64 * n) * unat c'"
proof (induction n arbitrary: b c rs)
  case (Suc n)
  obtain t b' where b: "b = t # b'" using Suc.prems(1) by (cases b) auto
  let ?r = "0 - t - c" and ?c = "if t \<noteq> 0 then 1 else c"
  obtain rs2 where s: "sub_part_b b' n ?c = (rs2, c')" "rs = ?r # rs2" using Suc.prems(3) by (auto simp: b Let_def and_MASK2 split: prod.splits)
  have "sub_word 0 t c = (?r, ?c)" by (auto simp: sub_word_def and_MASK2 word_gt_0)
  then have w: "unat ?c \<le> 1" "unat ?r + unat t + unat c = 2 ^ 64 * unat ?c" using sub_word_nat [OF Suc.prems(2)] by fastforce+
  have ih: "length rs2 = n \<and> unat c' \<le> 1 \<and> words_val rs2 + words_val (take n b') + unat ?c = 2 ^ (64 * n) * unat c'"
    using Suc.IH [OF _ w(1) s(1)] Suc.prems(1) b by simp
  have "2 ^ (64 * Suc n) = (2 :: nat) ^ 64 * 2 ^ (64 * n)" unfolding power_add [symmetric] by simp
  then have "words_val rs + words_val (take (Suc n) b) + unat c = 2 ^ (64 * Suc n) * unat c'"
    using chain_step [of "unat ?r" "unat t" "unat c" 0 "2 ^ 64" "unat ?c" "words_val rs2" "words_val (take n b')" 0 "2 ^ (64 * n)" "unat c'"] w(2) ih
    by (simp only: s(2) b take_Suc_Cons words_val.simps add_0 mult_0_right)
  then show ?case using ih by (simp add: s(2))
qed simp

lemma sub_part_a:
  "n \<le> length a \<Longrightarrow> unat c \<le> 1 \<Longrightarrow> sub_part_a a n c = (rs, c') \<Longrightarrow>
   length rs = n \<and> unat c' \<le> 1 \<and> words_val rs + unat c = words_val (take n a) + 2 ^ (64 * n) * unat c'"
proof (induction n arbitrary: a c rs)
  case (Suc n)
  obtain t a' where a: "a = t # a'" using Suc.prems(1) by (cases a) auto
  show ?case
  proof (cases "c = 0")
    case True
    then have "rs = take (Suc n) a" "c' = 0" using Suc.prems(3) by simp_all
    then show ?thesis using True Suc.prems(1) by simp
  next
    case False
    let ?r = "t - c" and ?c = "if t \<noteq> 0 then 0 else c"
    obtain rs2 where s: "sub_part_a a' n ?c = (rs2, c')" "rs = ?r # rs2" using Suc.prems(3) False by (auto simp: a Let_def and_MASK2 split: prod.splits)
    have "sub_word t 0 c = (?r, ?c)" by (auto simp: sub_word_def and_MASK2)
    then have w: "unat ?c \<le> 1" "unat ?r + unat c = unat t + 2 ^ 64 * unat ?c" using sub_word_nat [OF Suc.prems(2)] by fastforce+
    have ih: "length rs2 = n \<and> unat c' \<le> 1 \<and> words_val rs2 + unat ?c = words_val (take n a') + 2 ^ (64 * n) * unat c'"
      using Suc.IH [OF _ w(1) s(1)] Suc.prems(1) a by simp
    have "2 ^ (64 * Suc n) = (2 :: nat) ^ 64 * 2 ^ (64 * n)" unfolding power_add [symmetric] by simp
    then have "words_val rs + unat c = words_val (take (Suc n) a) + 2 ^ (64 * Suc n) * unat c'"
      using chain_step [of "unat ?r" 0 "unat c" "unat t" "2 ^ 64" "unat ?c" "words_val rs2" 0 "words_val (take n a')" "2 ^ (64 * n)" "unat c'"] w(2) ih
      by (simp only: s(2) a take_Suc_Cons words_val.simps add_0 add_0_right mult_0_right)
    then show ?thesis using ih by (simp add: s(2))
  qed
qed simp

lemma bn_sub_part_words:
  assumes "bn_sub_part_words r a b cl dl = (r', c)"
    and "cl + nat dl \<le> length a" "cl + nat (- dl) \<le> length b" "cl + nat \<bar>dl\<bar> \<le> length r"
  shows "length r' = length r" "drop (cl + nat \<bar>dl\<bar>) r' = drop (cl + nat \<bar>dl\<bar>) r" "unat c \<le> 1"
    "words_val (take (cl + nat \<bar>dl\<bar>) r') + words_val (take (cl + nat (- dl)) b) = words_val (take (cl + nat dl) a) + 2 ^ (64 * (cl + nat \<bar>dl\<bar>)) * unat c"
proof -
  obtain r1 c1 where s: "bn_sub_words r a b cl = (r1, c1)" by fastforce
  have l: "cl \<le> length r" "cl \<le> length a" "cl \<le> length b" using assms by simp_all
  note w = bn_sub_words [OF l s]
  consider "dl = 0" | "dl < 0" | "dl > 0" by linarith
  then have "length r' = length r \<and> drop (cl + nat \<bar>dl\<bar>) r' = drop (cl + nat \<bar>dl\<bar>) r \<and> unat c \<le> 1 \<and>
    words_val (take (cl + nat \<bar>dl\<bar>) r') + words_val (take (cl + nat (- dl)) b) = words_val (take (cl + nat dl) a) + 2 ^ (64 * (cl + nat \<bar>dl\<bar>)) * unat c"
  proof cases
    case 1
    then show ?thesis using w assms(1) by (simp add: bn_sub_part_words_def s)
  next
    case 2
    define m where "m = nat (- dl)"
    have m: "nat \<bar>dl\<bar> = m" "nat (- dl) = m" "nat dl = 0" using 2 by (simp_all add: m_def)
    obtain rs where rs: "sub_part_b (drop cl b) m c1 = (rs, c)" "r' = take cl r1 @ rs @ drop (cl + length rs) r1"
      using assms(1) 2 by (auto simp: bn_sub_part_words_def s m_def split: prod.splits)
    have "m \<le> length (drop cl b)" using assms(3) m by simp
    note p = sub_part_b [OF this w(3) rs(1)]
    have t: "take (cl + m) r' = take cl r1 @ rs" "length r' = length r" "drop (cl + m) r' = drop (cl + m) r"
      using p w(1,2) assms(4) m by (simp_all add: rs(2)) (metis add.commute drop_drop)
    have "words_val (take (cl + m) b) = words_val (take cl b) + 2 ^ (64 * cl) * words_val (take m (drop cl b))"
      using words_val_split [of cl "cl + m" b] l by simp
    moreover have "words_val (take (cl + m) r') = words_val (take cl r1) + 2 ^ (64 * cl) * words_val rs"
      unfolding t(1) using w(1) l by (simp add: words_val_append min_absorb2)
    moreover have "2 ^ (64 * cl) * (words_val rs + words_val (take m (drop cl b)) + unat c1) = 2 ^ (64 * cl) * (2 ^ (64 * m) * unat c)" using p by simp
    moreover have "2 ^ (64 * cl) * (2 ^ (64 * m) * unat c) = 2 ^ (64 * (cl + m)) * unat c" by (simp add: power_add distrib_left)
    ultimately have "words_val (take (cl + m) r') + words_val (take (cl + m) b) = words_val (take cl a) + 2 ^ (64 * (cl + m)) * unat c"
      using w(4) unfolding distrib_left by linarith
    then show ?thesis using p t(2,3) unfolding m by simp
  next
    case 3
    define m where "m = nat dl"
    have m: "nat \<bar>dl\<bar> = m" "nat (- dl) = 0" "nat dl = m" using 3 by (simp_all add: m_def)
    obtain rs where rs: "sub_part_a (drop cl a) m c1 = (rs, c)" "r' = take cl r1 @ rs @ drop (cl + length rs) r1"
      using assms(1) 3 by (auto simp: bn_sub_part_words_def s m_def split: prod.splits)
    have "m \<le> length (drop cl a)" using assms(2) m by simp
    note p = sub_part_a [OF this w(3) rs(1)]
    have t: "take (cl + m) r' = take cl r1 @ rs" "length r' = length r" "drop (cl + m) r' = drop (cl + m) r"
      using p w(1,2) assms(4) m by (simp_all add: rs(2)) (metis add.commute drop_drop)
    have "words_val (take (cl + m) a) = words_val (take cl a) + 2 ^ (64 * cl) * words_val (take m (drop cl a))"
      using words_val_split [of cl "cl + m" a] l by simp
    moreover have "words_val (take (cl + m) r') = words_val (take cl r1) + 2 ^ (64 * cl) * words_val rs"
      unfolding t(1) using w(1) l by (simp add: words_val_append min_absorb2)
    moreover have "2 ^ (64 * cl) * (words_val rs + unat c1) = 2 ^ (64 * cl) * (words_val (take m (drop cl a)) + 2 ^ (64 * m) * unat c)" using p by simp
    moreover have "2 ^ (64 * cl) * (2 ^ (64 * m) * unat c) = 2 ^ (64 * (cl + m)) * unat c" by (simp add: power_add distrib_left)
    ultimately have "words_val (take (cl + m) r') + words_val (take cl b) = words_val (take (cl + m) a) + 2 ^ (64 * (cl + m)) * unat c"
      using w(4) unfolding distrib_left by linarith
    then show ?thesis using p t(2,3) unfolding m by simp
  qed
  then show "length r' = length r" "drop (cl + nat \<bar>dl\<bar>) r' = drop (cl + nat \<bar>dl\<bar>) r" "unat c \<le> 1"
    "words_val (take (cl + nat \<bar>dl\<bar>) r') + words_val (take (cl + nat (- dl)) b) = words_val (take (cl + nat dl) a) + 2 ^ (64 * (cl + nat \<bar>dl\<bar>)) * unat c"
    by blast+
qed

subsection \<open>Comparison\<close>

lemma words_val_0: "words_val ws = 0 \<longleftrightarrow> (\<forall>i<length ws. ws ! i = 0)"
proof (induction ws)
  case (Cons w ws)
  have "(\<forall>i<length (w # ws). (w # ws) ! i = 0) \<longleftrightarrow> w = 0 \<and> (\<forall>i<length ws. ws ! i = 0)"
    by (auto simp: nth_Cons split: nat.splits)
  then show ?case using Cons.IH by (simp add: unat_eq_zero)
qed simp

lemma words_tail_0:
  assumes "cl + m \<le> length b"
  shows "words_val (take m (drop cl b)) = 0 \<longleftrightarrow> (\<forall>k. cl \<le> k \<and> k < cl + m \<longrightarrow> b ! k = 0)"
proof -
  have "words_val (take m (drop cl b)) = 0 \<longleftrightarrow> (\<forall>i<m. b ! (cl + i) = 0)" unfolding words_val_0 using assms by auto
  also have "\<dots> \<longleftrightarrow> (\<forall>k. cl \<le> k \<and> k < cl + m \<longrightarrow> b ! k = 0)" by (metis add_less_cancel_left le_add1 le_add_diff_inverse)
  finally show ?thesis .
qed

lemma bn_cmp_words: "n \<le> length a \<Longrightarrow> n \<le> length b \<Longrightarrow> bn_cmp_words a b n = sgn (int (words_val (take n a)) - int (words_val (take n b)))"
proof -
  assume l: "n \<le> length a" "n \<le> length b"
  have "bn_cmp_words a b n = cmp_loop a b n" by (cases n) (simp_all add: bn_cmp_words_def Let_def)
  then show ?thesis using cmp_loop [OF l] by simp
qed

lemma bn_cmp_part_words:
  assumes "cl + nat dl \<le> length a" "cl + nat (- dl) \<le> length b"
  shows "bn_cmp_part_words a b cl dl = sgn (int (words_val (take (cl + nat dl) a)) - int (words_val (take (cl + nat (- dl)) b)))"
proof -
  let ?lo = "\<lambda>x. words_val (take cl x)"
  have l: "cl \<le> length a" "cl \<le> length b" using assms by simp_all
  have b: "?lo x < 2 ^ (64 * cl)" if "cl \<le> length x" for x using words_val_less [of "take cl x"] that by (simp add: min_absorb2)
  note eq = bn_cmp_words [OF l]
  have big: "2 ^ (64 * cl) \<le> 2 ^ (64 * cl) * h" if "h \<noteq> 0" for h :: nat using that by simp
  consider "dl = 0" | "dl < 0" | "dl > 0" by linarith
  then show ?thesis
  proof cases
    case 1
    then show ?thesis using eq by (simp add: bn_cmp_part_words_def)
  next
    case 2
    define m where "m = nat (- dl)"
    let ?h = "words_val (take m (drop cl b))"
    have v: "words_val (take (cl + m) b) = ?lo b + 2 ^ (64 * cl) * ?h" using words_val_split [of cl "cl + m" b] l by simp
    have ex: "list_ex (\<lambda>i. b ! nat (int cl - 1 - i) \<noteq> 0) [dl..-1] \<longleftrightarrow> ?h \<noteq> 0"
    proof -
      have "list_ex (\<lambda>i. b ! nat (int cl - 1 - i) \<noteq> 0) [dl..-1] \<longleftrightarrow> (\<exists>k. cl \<le> k \<and> k < cl + m \<and> b ! k \<noteq> 0)"
      proof
        assume "list_ex (\<lambda>i. b ! nat (int cl - 1 - i) \<noteq> 0) [dl..-1]"
        then obtain i where i: "dl \<le> i" "i \<le> -1" "b ! nat (int cl - 1 - i) \<noteq> 0" by (auto simp: list_ex_iff)
        then have "cl \<le> nat (int cl - 1 - i) \<and> nat (int cl - 1 - i) < cl + m" unfolding m_def by linarith
        then show "\<exists>k. cl \<le> k \<and> k < cl + m \<and> b ! k \<noteq> 0" using i(3) by blast
      next
        assume "\<exists>k. cl \<le> k \<and> k < cl + m \<and> b ! k \<noteq> 0"
        then obtain k where k: "cl \<le> k" "k < cl + m" "b ! k \<noteq> 0" by blast
        have "nat (int cl - 1 - (int cl - 1 - int k)) = k" by simp
        moreover have "dl \<le> int cl - 1 - int k" "int cl - 1 - int k \<le> -1" using k(1,2) unfolding m_def by linarith+
        ultimately show "list_ex (\<lambda>i. b ! nat (int cl - 1 - i) \<noteq> 0) [dl..-1]" using k(3) unfolding list_ex_iff by (intro bexI [of _ "int cl - 1 - int k"]) simp_all
      qed
      moreover have "cl + m \<le> length b" using assms(2) by (simp add: m_def)
      ultimately show ?thesis unfolding words_tail_0 [OF \<open>cl + m \<le> length b\<close>] by blast
    qed
    show ?thesis
    proof (cases "?h = 0")
      case True
      then have "bn_cmp_part_words a b cl dl = bn_cmp_words a b cl" using 2 ex by (simp add: bn_cmp_part_words_def)
      then show ?thesis using eq v True 2 by (simp add: m_def)
    next
      case False
      then have "bn_cmp_part_words a b cl dl = -1" using 2 ex by (simp add: bn_cmp_part_words_def)
      moreover have "?lo a < words_val (take (cl + m) b)" using v big [OF False] b [OF l(1)] by linarith
      ultimately show ?thesis using 2 by (simp add: m_def)
    qed
  next
    case 3
    define m where "m = nat dl"
    let ?h = "words_val (take m (drop cl a))"
    have v: "words_val (take (cl + m) a) = ?lo a + 2 ^ (64 * cl) * ?h" using words_val_split [of cl "cl + m" a] l by simp
    have ex: "list_ex (\<lambda>i. a ! nat (int cl - 1 + i) \<noteq> 0) (rev [1..dl]) \<longleftrightarrow> ?h \<noteq> 0"
    proof -
      have "list_ex (\<lambda>i. a ! nat (int cl - 1 + i) \<noteq> 0) (rev [1..dl]) \<longleftrightarrow> (\<exists>k. cl \<le> k \<and> k < cl + m \<and> a ! k \<noteq> 0)"
      proof
        assume "list_ex (\<lambda>i. a ! nat (int cl - 1 + i) \<noteq> 0) (rev [1..dl])"
        then obtain i where i: "1 \<le> i" "i \<le> dl" "a ! nat (int cl - 1 + i) \<noteq> 0" by (auto simp: list_ex_iff)
        then have "cl \<le> nat (int cl - 1 + i) \<and> nat (int cl - 1 + i) < cl + m" unfolding m_def by linarith
        then show "\<exists>k. cl \<le> k \<and> k < cl + m \<and> a ! k \<noteq> 0" using i(3) by blast
      next
        assume "\<exists>k. cl \<le> k \<and> k < cl + m \<and> a ! k \<noteq> 0"
        then obtain k where k: "cl \<le> k" "k < cl + m" "a ! k \<noteq> 0" by blast
        have "nat (int cl - 1 + (int k - int cl + 1)) = k" by simp
        moreover have "1 \<le> int k - int cl + 1" "int k - int cl + 1 \<le> dl" using k(1,2) unfolding m_def by linarith+
        ultimately show "list_ex (\<lambda>i. a ! nat (int cl - 1 + i) \<noteq> 0) (rev [1..dl])" using k(3) unfolding list_ex_iff set_rev by (intro bexI [of _ "int k - int cl + 1"]) simp_all
      qed
      moreover have "cl + m \<le> length a" using assms(1) by (simp add: m_def)
      ultimately show ?thesis unfolding words_tail_0 [OF \<open>cl + m \<le> length a\<close>] by blast
    qed
    show ?thesis
    proof (cases "?h = 0")
      case True
      then have "bn_cmp_part_words a b cl dl = bn_cmp_words a b cl" using 3 ex by (simp add: bn_cmp_part_words_def)
      then show ?thesis using eq v True 3 by (simp add: m_def)
    next
      case False
      then have "bn_cmp_part_words a b cl dl = 1" using 3 ex by (simp add: bn_cmp_part_words_def)
      moreover have "?lo b < words_val (take (cl + m) a)" using v big [OF False] b [OF l(2)] by linarith
      ultimately show ?thesis using 3 by (simp add: m_def)
    qed
  qed
qed

subsection \<open>The differences of halves\<close>

lemma put_diff:
  assumes "cl + nat dl \<le> length x" "cl + nat (- dl) \<le> length y" "n = cl + nat \<bar>dl\<bar>" "k + n \<le> length t"
  shows "length (put_diff k x y cl dl t) = length t \<and> take k (put_diff k x y cl dl t) = take k t \<and>
      drop (k + n) (put_diff k x y cl dl t) = drop (k + n) t"
    "words_val (take (cl + nat (- dl)) y) \<le> words_val (take (cl + nat dl) x) \<Longrightarrow>
      words_val (take n (drop k (put_diff k x y cl dl t))) = words_val (take (cl + nat dl) x) - words_val (take (cl + nat (- dl)) y)"
proof -
  obtain r c where s: "bn_sub_part_words (drop k t) x y cl dl = (r, c)" by fastforce
  have l: "n \<le> length (drop k t)" using assms(4) by simp
  note p = bn_sub_part_words [OF s assms(1,2), folded assms(3), OF l]
  have kt: "k \<le> length t" using assms(4) by simp
  have "wrote n (words_val (take n r)) (drop k t) (fst (bn_sub_part_words (drop k t) x y cl dl))" using p s by (simp add: wrote_def)
  note w = wrote_at [where f = "\<lambda>p. fst (bn_sub_part_words p x y cl dl)", OF this kt]
  then show "length (put_diff k x y cl dl t) = length t \<and> take k (put_diff k x y cl dl t) = take k t \<and>
      drop (k + n) (put_diff k x y cl dl t) = drop (k + n) t" unfolding put_diff_def by blast
  assume le: "words_val (take (cl + nat (- dl)) y) \<le> words_val (take (cl + nat dl) x)"
  have "words_val (take n r) < 2 ^ (64 * n)" using words_val_less [of "take n r"] p(1) l by (simp add: min_absorb2)
  then have "unat c = 0" using p(3,4) le by (cases "unat c = 0") (auto simp: le_Suc_eq)
  then have "words_val (take n r) = words_val (take (cl + nat dl) x) - words_val (take (cl + nat (- dl)) y)" using p(4) by simp
  then show "words_val (take n (drop k (put_diff k x y cl dl t))) = words_val (take (cl + nat dl) x) - words_val (take (cl + nat (- dl)) y)"
    using w(5) unfolding put_diff_def by simp
qed

text \<open>The two halves of an array, the upper one shorter.\<close>

lemma put_half_diff:
  assumes "tn \<le> n" "n + tn \<le> length x" "k + n \<le> length t"
  shows "t' = put_diff k x (drop n x) tn (int n - int tn) t \<Longrightarrow> length t' = length t \<and> take k t' = take k t \<and> drop (k + n) t' = drop (k + n) t"
    "words_val (take n x) \<le> words_val (take tn (drop n x)) \<Longrightarrow> t' = put_diff k (drop n x) x tn (int tn - int n) t \<Longrightarrow>
      length t' = length t \<and> take k t' = take k t \<and> drop (k + n) t' = drop (k + n) t \<and>
      words_val (take n (drop k t')) = words_val (take tn (drop n x)) - words_val (take n x)"
    "words_val (take tn (drop n x)) \<le> words_val (take n x) \<Longrightarrow> t' = put_diff k x (drop n x) tn (int n - int tn) t \<Longrightarrow>
      length t' = length t \<and> take k t' = take k t \<and> drop (k + n) t' = drop (k + n) t \<and>
      words_val (take n (drop k t')) = words_val (take n x) - words_val (take tn (drop n x))"
proof -
  have e: "nat (int tn - int n) = 0" "nat (int n - int tn) = n - tn" "nat \<bar>int tn - int n\<bar> = n - tn" "nat \<bar>int n - int tn\<bar> = n - tn"
    "- (int tn - int n) = int n - int tn" "- (int n - int tn) = int tn - int n" "tn + (n - tn) = n" using assms(1) by auto
  have l: "tn \<le> length x - n" "n \<le> length x" using assms(2) by simp_all
  show "t' = put_diff k x (drop n x) tn (int n - int tn) t \<Longrightarrow> length t' = length t \<and> take k t' = take k t \<and> drop (k + n) t' = drop (k + n) t"
    using put_diff(1) [of tn "int n - int tn" x "drop n x" n k t] l assms(3) unfolding e by simp
  show "words_val (take n x) \<le> words_val (take tn (drop n x)) \<Longrightarrow> t' = put_diff k (drop n x) x tn (int tn - int n) t \<Longrightarrow>
      length t' = length t \<and> take k t' = take k t \<and> drop (k + n) t' = drop (k + n) t \<and>
      words_val (take n (drop k t')) = words_val (take tn (drop n x)) - words_val (take n x)"
    using put_diff [of tn "int tn - int n" "drop n x" x n k t] l assms(3) unfolding e by simp
  show "words_val (take tn (drop n x)) \<le> words_val (take n x) \<Longrightarrow> t' = put_diff k x (drop n x) tn (int n - int tn) t \<Longrightarrow>
      length t' = length t \<and> take k t' = take k t \<and> drop (k + n) t' = drop (k + n) t \<and>
      words_val (take n (drop k t')) = words_val (take n x) - words_val (take tn (drop n x))"
    using put_diff [of tn "int n - int tn" x "drop n x" n k t] l assms(3) unfolding e by simp
qed

lemma put_two:
  assumes "length t1 = length t \<and> take 0 t1 = take 0 t \<and> drop (0 + n) t1 = drop (0 + n) t \<and> words_val (take n (drop 0 t1)) = d1"
    and "length t2 = length t1 \<and> take n t2 = take n t1 \<and> drop (n + n) t2 = drop (n + n) t1 \<and> words_val (take n (drop n t2)) = d2"
  shows "length t2 = length t \<and> drop (2 * n) t2 = drop (2 * n) t \<and> words_val (take n t2) = d1 \<and> words_val (take n (drop n t2)) = d2"
proof -
  have "drop (n + n) t1 = drop n (drop n t1)" by simp
  also have "\<dots> = drop (n + n) t" using assms(1) by simp
  finally show ?thesis using assms by (simp add: mult_2)
qed

lemma mul_switch:
  assumes "tna \<le> n" "tnb \<le> n" "n + tna \<le> length a" "n + tnb \<le> length b"
  shows "mul_switch a b n tna tnb = sgn (int (words_val (take n a)) - int (words_val (take tna (drop n a)))) * 3 +
    sgn (int (words_val (take tnb (drop n b))) - int (words_val (take n b)))"
proof -
  have e: "nat (int n - int tna) = n - tna" "nat (- (int n - int tna)) = 0" "tna + (n - tna) = n"
    "nat (int tnb - int n) = 0" "nat (- (int tnb - int n)) = n - tnb" "tnb + (n - tnb) = n" using assms by auto
  show ?thesis
    unfolding mul_switch_def using assms bn_cmp_part_words [of tna "int n - int tna" a "drop n a"] bn_cmp_part_words [of tnb "int tnb - int n" "drop n b" b]
    unfolding e by simp
qed

lemma mul_diffs:
  fixes a b t :: "u64 list" and n tna tnb :: nat
  defines "D \<equiv> (int (words_val (take n a)) - int (words_val (take tna (drop n a)))) * (int (words_val (take tnb (drop n b))) - int (words_val (take n b)))"
  assumes "tna \<le> n" "tnb \<le> n" "n + tna \<le> length a" "n + tnb \<le> length b" "2 * n \<le> length t"
  shows "mul_diffs (mul_switch a b n tna tnb) a b n tna tnb t = (zero, neg, t') \<Longrightarrow>
      length t' = length t \<and> drop (2 * n) t' = drop (2 * n) t \<and> (zero \<longrightarrow> D = 0) \<and>
      (\<not> zero \<longrightarrow> D = (if neg then -1 else 1) * int (words_val (take n t') * words_val (take n (drop n t'))))"
    "mul_part_diffs (mul_switch a b n tna tnb) a b n tna tnb t = (neg, t') \<Longrightarrow>
      length t' = length t \<and> drop (2 * n) t' = drop (2 * n) t \<and>
      D = (if neg then -1 else 1) * int (words_val (take n t') * words_val (take n (drop n t')))"
proof -
  define a0 a1 b0 b1 where v: "a0 = words_val (take n a)" "a1 = words_val (take tna (drop n a))" "b0 = words_val (take n b)" "b1 = words_val (take tnb (drop n b))"
  define ah al bh bl where h: "ah = put_diff 0 (drop n a) a tna (int tna - int n) t" "al = put_diff 0 a (drop n a) tna (int n - int tna) t"
    "bh = (\<lambda>t. put_diff n (drop n b) b tnb (int tnb - int n) t)" "bl = (\<lambda>t. put_diff n b (drop n b) tnb (int n - int tnb) t)"
  have lt: "0 + n \<le> length t" using assms(6) by simp
  have pa: "a0 \<le> a1 \<Longrightarrow> length ah = length t \<and> take 0 ah = take 0 t \<and> drop (0 + n) ah = drop (0 + n) t \<and> words_val (take n (drop 0 ah)) = a1 - a0"
    "a1 \<le> a0 \<Longrightarrow> length al = length t \<and> take 0 al = take 0 t \<and> drop (0 + n) al = drop (0 + n) t \<and> words_val (take n (drop 0 al)) = a0 - a1"
    using put_half_diff(2,3) [OF assms(2,4) lt] unfolding v h by blast+
  have hb: "bh u = put_diff n (drop n b) b tnb (int tnb - int n) u" "bl u = put_diff n b (drop n b) tnb (int n - int tnb) u" for u by (simp_all only: h)
  have nn: "n + n \<le> length u" if "length u = length t" for u :: "u64 list" using assms(6) that by linarith
  have pb: "length (bh u) = length u \<and> take n (bh u) = take n u \<and> drop (n + n) (bh u) = drop (n + n) u \<and> words_val (take n (drop n (bh u))) = b1 - b0"
    if "b0 \<le> b1" "length u = length t" for u
    unfolding v by (rule put_half_diff(2) [OF assms(3,5) _ that(1) [unfolded v]]) (rule nn [OF that(2)], rule hb)
  have pb': "length (bl u) = length u \<and> take n (bl u) = take n u \<and> drop (n + n) (bl u) = drop (n + n) u \<and> words_val (take n (drop n (bl u))) = b0 - b1"
    if "b1 \<le> b0" "length u = length t" for u
    unfolding v by (rule put_half_diff(3) [OF assms(3,5) _ that(1) [unfolded v]]) (rule nn [OF that(2)], rule hb)
  have two1: "length (bh ah) = length t \<and> drop (2 * n) (bh ah) = drop (2 * n) t \<and> words_val (take n (bh ah)) = a1 - a0 \<and> words_val (take n (drop n (bh ah))) = b1 - b0"
    if o: "b0 \<le> b1" "a0 \<le> a1"
    by (rule put_two [OF pa(1) [OF o(2)] pb [OF o(1)]]) (rule conjunct1 [OF pa(1) [OF o(2)]])
  have two2: "length (bh al) = length t \<and> drop (2 * n) (bh al) = drop (2 * n) t \<and> words_val (take n (bh al)) = a0 - a1 \<and> words_val (take n (drop n (bh al))) = b1 - b0"
    if o: "b0 \<le> b1" "a1 \<le> a0"
    by (rule put_two [OF pa(2) [OF o(2)] pb [OF o(1)]]) (rule conjunct1 [OF pa(2) [OF o(2)]])
  have two3: "length (bl ah) = length t \<and> drop (2 * n) (bl ah) = drop (2 * n) t \<and> words_val (take n (bl ah)) = a1 - a0 \<and> words_val (take n (drop n (bl ah))) = b0 - b1"
    if o: "b1 \<le> b0" "a0 \<le> a1"
    by (rule put_two [OF pa(1) [OF o(2)] pb' [OF o(1)]]) (rule conjunct1 [OF pa(1) [OF o(2)]])
  have two4: "length (bl al) = length t \<and> drop (2 * n) (bl al) = drop (2 * n) t \<and> words_val (take n (bl al)) = a0 - a1 \<and> words_val (take n (drop n (bl al))) = b0 - b1"
    if o: "b1 \<le> b0" "a1 \<le> a0"
    by (rule put_two [OF pa(2) [OF o(2)] pb' [OF o(1)]]) (rule conjunct1 [OF pa(2) [OF o(2)]])
  have D: "D = (int a0 - int a1) * (int b1 - int b0)" by (simp add: D_def v)
  have sw: "mul_switch a b n tna tnb = sgn (int a0 - int a1) * 3 + sgn (int b1 - int b0)" unfolding v by (rule mul_switch [OF assms(2-5)])
  have Ds: "a0 \<le> a1 \<Longrightarrow> b0 \<le> b1 \<Longrightarrow> D = - int ((a1 - a0) * (b1 - b0))" "a1 \<le> a0 \<Longrightarrow> b0 \<le> b1 \<Longrightarrow> D = int ((a0 - a1) * (b1 - b0))"
    "a0 \<le> a1 \<Longrightarrow> b1 \<le> b0 \<Longrightarrow> D = int ((a1 - a0) * (b0 - b1))" "a1 \<le> a0 \<Longrightarrow> b1 \<le> b0 \<Longrightarrow> D = - int ((a0 - a1) * (b0 - b1))"
    unfolding D of_nat_mult by (simp_all only: of_nat_diff) (simp_all add: algebra_simps)
  consider "a0 < a1" "b0 < b1" | "a0 < a1" "b1 < b0" | "a1 < a0" "b0 < b1" | "a1 < a0" "b1 < b0" | "a0 = a1 \<or> b0 = b1" by linarith
  note cs = this
  show "length t' = length t \<and> drop (2 * n) t' = drop (2 * n) t \<and> (zero \<longrightarrow> D = 0) \<and>
      (\<not> zero \<longrightarrow> D = (if neg then -1 else 1) * int (words_val (take n t') * words_val (take n (drop n t'))))"
    if m: "mul_diffs (mul_switch a b n tna tnb) a b n tna tnb t = (zero, neg, t')"
  proof (rule cs)
    assume o: "a0 < a1" "b0 < b1"
    then have "\<not> zero \<and> neg \<and> t' = bh ah" using m unfolding sw by (simp add: mul_diffs_def h)
    then show ?thesis using two1 Ds(1) o by simp
  next
    assume o: "a0 < a1" "b1 < b0"
    then have "\<not> zero \<and> \<not> neg \<and> t' = bl ah" using m unfolding sw by (simp add: mul_diffs_def h)
    then show ?thesis using two3 Ds(3) o by simp
  next
    assume o: "a1 < a0" "b0 < b1"
    then have "\<not> zero \<and> \<not> neg \<and> t' = bh al" using m unfolding sw by (simp add: mul_diffs_def h)
    then show ?thesis using two2 Ds(2) o by simp
  next
    assume o: "a1 < a0" "b1 < b0"
    then have "\<not> zero \<and> neg \<and> t' = bl al" using m unfolding sw by (simp add: mul_diffs_def h)
    then show ?thesis using two4 Ds(4) o by simp
  next
    assume o: "a0 = a1 \<or> b0 = b1"
    then have "D = 0" by (auto simp: D)
    moreover have "zero \<and> t' = t" using m o unfolding sw by (cases "a0 = a1"; auto simp: mul_diffs_def sgn_if split: if_splits)
    ultimately show ?thesis by simp
  qed
  show "length t' = length t \<and> drop (2 * n) t' = drop (2 * n) t \<and>
      D = (if neg then -1 else 1) * int (words_val (take n t') * words_val (take n (drop n t')))"
    if m: "mul_part_diffs (mul_switch a b n tna tnb) a b n tna tnb t = (neg, t')"
  proof (rule cs)
    assume o: "a0 < a1" "b0 < b1"
    then have "neg \<and> t' = bh ah" using m unfolding sw by (simp add: mul_part_diffs_def h)
    then show ?thesis using two1 Ds(1) o by simp
  next
    assume o: "a0 < a1" "b1 < b0"
    then have "\<not> neg \<and> t' = bl ah" using m unfolding sw by (simp add: mul_part_diffs_def h)
    then show ?thesis using two3 Ds(3) o by simp
  next
    assume o: "a1 < a0" "b0 < b1"
    then have "\<not> neg \<and> t' = bh al" using m unfolding sw by (simp add: mul_part_diffs_def h)
    then show ?thesis using two2 Ds(2) o by simp
  next
    assume o: "a1 < a0" "b1 < b0"
    then have "neg \<and> t' = bl al" using m unfolding sw by (simp add: mul_part_diffs_def h)
    then show ?thesis using two4 Ds(4) o by simp
  next
    assume o: "a0 = a1 \<or> b0 = b1"
    then have D0: "D = 0" by (auto simp: D)
    consider "a0 = a1" "b0 = b1" | "a0 = a1" "b0 < b1" | "a0 = a1" "b1 < b0" | "a0 < a1" "b0 = b1" | "a1 < a0" "b0 = b1" using o by linarith
    then show ?thesis
    proof cases
      case 1
      then have "t' = bl al" using m unfolding sw by (simp add: mul_part_diffs_def h)
      then show ?thesis using two4 1 D0 by simp
    next
      case 2
      then have t': "t' = bl al" using m unfolding sw by (simp add: mul_part_diffs_def h)
      have la: "length al = length t" using pa(2) 2 by simp
      have "length (bl al) = length al \<and> take n (bl al) = take n al \<and> drop (n + n) (bl al) = drop (n + n) al"
        using put_half_diff(1) [OF assms(3,5), of n al] assms(6) la by (simp add: h)
      then have "length (bl al) = length t \<and> drop (2 * n) (bl al) = drop (2 * n) t \<and> words_val (take n (bl al)) = a0 - a1"
        using put_two [of al t n "a0 - a1" "bl al" "words_val (take n (drop n (bl al)))"] pa(2) 2 by simp
      then show ?thesis using D0 2 t' by simp
    next
      case 3
      then have "t' = bl al" using m unfolding sw by (simp add: mul_part_diffs_def h)
      then show ?thesis using two4 3 D0 by simp
    next
      case 4
      then have "t' = bh ah" using m unfolding sw by (simp add: mul_part_diffs_def h)
      then show ?thesis using two1 4 D0 by simp
    next
      case 5
      then have "t' = bh al" using m unfolding sw by (simp add: mul_part_diffs_def h)
      then show ?thesis using two2 5 D0 by simp
    qed
  qed
qed

subsection \<open>The middle term\<close>

lemma inc_words: "m \<le> length p \<Longrightarrow> words_val (take m p) + 1 < 2 ^ (64 * m) \<Longrightarrow> wrote m (words_val (take m p) + 1) p (inc_words p)"
proof (induction m arbitrary: p)
  case (Suc m)
  obtain lo q where p: "p = lo # q" using Suc.prems(1) by (cases p) auto
  show ?case
  proof (cases "lo + 1 = 0")
    case True
    then have lo: "unat lo + 1 = 2 ^ 64" using word_add_carry [of lo 1] by simp
    have "2 ^ 64 * (words_val (take m q) + 1) < 2 ^ (64 * Suc m)" using Suc.prems(2) lo by (simp add: p)
    moreover have "2 ^ (64 * Suc m) = (2 :: nat) ^ 64 * 2 ^ (64 * m)" unfolding power_add [symmetric] by simp
    ultimately have "words_val (take m q) + 1 < 2 ^ (64 * m)" by (simp only: nat_mult_less_cancel1 zero_less_power zero_less_numeral)
    then have "wrote m (words_val (take m q) + 1) q (inc_words q)" using Suc.prems(1) by (intro Suc.IH) (simp_all add: p)
    then show ?thesis using True lo by (simp add: p wrote_def and_MASK2)
  next
    case False
    then have "unat (lo + 1) = unat lo + 1" by (metis Suc_eq_plus1 unatSuc add.commute)
    then show ?thesis using False by (simp add: p wrote_def and_MASK2)
  qed
qed simp

lemma add_carry_at:
  assumes "m \<le> length p" "words_val (take m p) + unat c < 2 ^ (64 * m)" "unat c \<noteq> 0"
  shows "wrote m (words_val (take m p) + unat c) p (add_carry_at c p)"
proof (cases m)
  case 0
  then show ?thesis using assms(2,3) by simp
next
  case (Suc k)
  obtain lo q where p: "p = lo # q" using assms(1) Suc by (cases p) auto
  have ca: "unat (lo + c) + 2 ^ 64 * (if lo + c < c then 1 else 0) = unat lo + unat c" using word_add_carry [of lo c] by (cases "lo + c < c") simp_all
  show ?thesis
  proof (cases "lo + c < c")
    case True
    then have lo: "unat (lo + c) + 2 ^ 64 = unat lo + unat c" using ca by simp
    have "2 ^ 64 * (words_val (take k q) + 1) < 2 ^ (64 * Suc k)" using assms(2) lo by (simp add: p Suc)
    moreover have "2 ^ (64 * Suc k) = (2 :: nat) ^ 64 * 2 ^ (64 * k)" unfolding power_add [symmetric] by simp
    ultimately have "words_val (take k q) + 1 < 2 ^ (64 * k)" by (simp only: nat_mult_less_cancel1 zero_less_power zero_less_numeral)
    then have "wrote k (words_val (take k q) + 1) q (inc_words q)" using assms(1) by (intro inc_words) (simp_all add: p Suc)
    then show ?thesis using True lo by (simp add: p Suc wrote_def and_MASK2)
  next
    case False
    then show ?thesis using ca by (simp add: p Suc wrote_def and_MASK2)
  qed
qed

text \<open>What is left when the carries \<open>k\<close> of the middle term are set aside is less than the square of the base.\<close>

lemma carry_bounds:
  fixes X :: int
  assumes "z + X * X * k = h + m" "0 \<le> z" "z < X * X" "0 \<le> h" "h < X * X" "0 \<le> m" "m < 3 * (X * X)" "0 < X"
  shows "0 \<le> k" "k \<le> 3"
proof -
  have p: "0 < X * X" using assms(8) by simp
  have "X * X * - 1 < X * X * k" using assms(1-4,6) by linarith
  then show "0 \<le> k" unfolding mult_less_cancel_left_pos [OF p] by linarith
  have "X * X * k < X * X * 4" using assms by linarith
  then show "k \<le> 3" unfolding mult_less_cancel_left_pos [OF p] by linarith
qed

lemma mul_combine:
  assumes l: "4 * n \<le> length r" "4 * n \<le> length t"
    and m: "mid = int (words_val (take (2 * n) r)) + int (words_val (take (2 * n) (drop (2 * n) r))) +
        (if neg then -1 else 1) * int (words_val (take (2 * n) (drop (2 * n) t)))" "0 \<le> mid"
    and N: "int N = int (words_val (take (4 * n) r)) + 2 ^ (64 * n) * mid" "N < 2 ^ (64 * (4 * n))"
    and c: "mul_combine neg n r t = (r', t')"
  shows "wrote (4 * n) N r r'" "length t' = length t"
proof -
  define X :: int where "X = 2 ^ (64 * n)"
  define V where "V = (\<lambda>k x. int (words_val (take k x)))"
  have X: "0 < X" "2 ^ (64 * (2 * n)) = X * X" "2 ^ (64 * (3 * n)) = X * X * X" "2 ^ (64 * (4 * n)) = X * X * X * X"
    by (simp_all add: X_def power_add [symmetric])
  have Vb: "0 \<le> V k x" for k x by (simp add: V_def)
  have Vb2: "V (2 * n) x < X * X" if "2 * n \<le> length x" for x
    using words_val_less [of "take (2 * n) x"] that unfolding V_def X(2) [symmetric] by (simp add: min_absorb2 flip: of_nat_power)
  obtain t1 k1 where s1: "bn_add_words t r (drop (2 * n) r) (2 * n) = (t1, k1)" by fastforce
  have "2 * n \<le> length t" "2 * n \<le> length r" "2 * n \<le> length (drop (2 * n) r)" using l by simp_all
  note a1 = bn_add_words [OF this s1]
  have v1: "V (2 * n) t1 + X * X * uint k1 = V (2 * n) r + V (2 * n) (drop (2 * n) r)"
    using arg_cong [OF a1(4), of int] unfolding V_def X(2) [symmetric] by simp
  obtain x k2 where s2: "(if neg then bn_sub_words (drop (2 * n) t1) t1 (drop (2 * n) t1) (2 * n)
      else bn_add_words (drop (2 * n) t1) (drop (2 * n) t1) t1 (2 * n)) = (x, k2)" by fastforce
  define c1 where "c1 = (if neg then uint k1 - uint k2 else uint k1 + uint k2)"
  have l2: "2 * n \<le> length (drop (2 * n) t1)" "2 * n \<le> length t1" using l a1(1) by simp_all
  have v2: "V (2 * n) x + X * X * c1 = mid \<and> length x = length (drop (2 * n) t1)"
  proof (cases neg)
    case True
    then have s: "bn_sub_words (drop (2 * n) t1) t1 (drop (2 * n) t1) (2 * n) = (x, k2)" using s2 by simp
    note a2 = bn_sub_words [OF l2(1,2,1) s]
    have "V (2 * n) x + V (2 * n) (drop (2 * n) t1) = V (2 * n) t1 + X * X * uint k2"
      using arg_cong [OF a2(4), of int] unfolding V_def X(2) [symmetric] by simp
    moreover have "X * X * (uint k1 - uint k2) = X * X * uint k1 - X * X * uint k2" by (simp add: right_diff_distrib)
    ultimately show ?thesis using v1 m(1) True a2(1) unfolding c1_def a1(2) V_def by simp
  next
    case False
    then have s: "bn_add_words (drop (2 * n) t1) (drop (2 * n) t1) t1 (2 * n) = (x, k2)" using s2 by simp
    note a2 = bn_add_words [OF l2(1,1,2) s]
    have "V (2 * n) x + X * X * uint k2 = V (2 * n) (drop (2 * n) t1) + V (2 * n) t1"
      using arg_cong [OF a2(4), of int] unfolding V_def X(2) [symmetric] by simp
    moreover have "X * X * (uint k1 + uint k2) = X * X * uint k1 + X * X * uint k2" by (simp add: distrib_left)
    ultimately show ?thesis using v1 m(1) False a2(1) unfolding c1_def a1(2) V_def by simp
  qed
  define t2 where "t2 = take (2 * n) t1 @ x"
  have t2: "drop (2 * n) t2 = x" "length t2 = length t" using v2 l a1(1) by (simp_all add: t2_def)
  obtain z k3 where s3: "bn_add_words (drop n r) (drop n r) x (2 * n) = (z, k3)" by fastforce
  have l3: "2 * n \<le> length (drop n r)" "2 * n \<le> length x" using l a1(1) v2 by simp_all
  note a3 = bn_add_words [OF l3(1,1,2) s3]
  define r2 where "r2 = take n r @ z"
  define c3 where "c3 = c1 + uint k3"
  have v3: "V (2 * n) z + X * X * c3 = V (2 * n) (drop n r) + mid"
  proof -
    have "V (2 * n) z + X * X * uint k3 = V (2 * n) (drop n r) + V (2 * n) x"
      using arg_cong [OF a3(4), of int] unfolding V_def X(2) [symmetric] by simp
    then show ?thesis using v2 by (simp add: c3_def distrib_left)
  qed
  have res: "mul_combine neg n r t = (if c3 \<noteq> 0 then at (n + 2 * n) (add_carry_at (word_of_int c3)) r2 else r2, t2)"
    using s2 by (cases neg) (simp_all only: mul_combine_def Let_def s1 s3 prod.case if_True if_False simp_thms t2_def [symmetric] t2(1) r2_def [symmetric] c3_def c1_def if_distrib [of "\<lambda>x. (x, t2)"])
  show "length t' = length t" using c t2(2) unfolding res by simp
  have lr: "length z = length r - n" "length r2 = length r" "take n r2 = take n r" "drop n r2 = z" "drop (3 * n) r2 = drop (3 * n) r"
  proof -
    show z: "length z = length r - n" using a3(1) by simp
    show "length r2 = length r" "take n r2 = take n r" and d: "drop n r2 = z" using z l(1) by (simp_all add: r2_def)
    have "drop (3 * n) r2 = drop (2 * n) (drop n r2)" by simp
    also have "\<dots> = drop (3 * n) r" unfolding d a3(2) by simp
    finally show "drop (3 * n) r2 = drop (3 * n) r" .
  qed
  have split: "V (4 * n) u = V n u + X * (V (2 * n) (drop n u) + X * X * V n (drop (3 * n) u))" if "4 * n \<le> length u" for u
  proof -
    have "words_val (take (4 * n) u) = words_val (take n u) + 2 ^ (64 * n) * words_val (take (3 * n) (drop n u))"
      using words_val_split [of n "4 * n" u] that by simp
    moreover have "words_val (take (3 * n) (drop n u)) = words_val (take (2 * n) (drop n u)) + 2 ^ (64 * (2 * n)) * words_val (take n (drop (3 * n) u))"
      using words_val_split [of "2 * n" "3 * n" "drop n u"] that by simp
    ultimately have "V (4 * n) u = V n u + 2 ^ (64 * n) * (V (2 * n) (drop n u) + 2 ^ (64 * (2 * n)) * V n (drop (3 * n) u))"
      by (simp add: V_def)
    then show ?thesis unfolding X(2) X_def [symmetric] .
  qed
  have Nv: "int N = V (4 * n) r2 + X * X * X * c3"
  proof -
    have "V (4 * n) r2 = V n r + X * (V (2 * n) z + X * X * V n (drop (3 * n) r))" using split [of r2] l(1) lr by (simp add: V_def)
    moreover have "V (2 * n) z = V (2 * n) (drop n r) + mid - X * X * c3" using v3 by simp
    moreover have "int N = V n r + X * (V (2 * n) (drop n r) + X * X * V n (drop (3 * n) r)) + X * mid"
      using N(1) split [OF l(1)] unfolding X_def [symmetric] V_def by simp
    ultimately show ?thesis by (simp add: distrib_left right_diff_distrib mult.assoc)
  qed
  have "mid < 3 * (X * X)"
  proof -
    have "V (2 * n) r < X * X" "V (2 * n) (drop (2 * n) r) < X * X" "V (2 * n) (drop (2 * n) t) < X * X" by (rule Vb2, use l in simp)+
    moreover have "mid \<le> V (2 * n) r + V (2 * n) (drop (2 * n) r) + V (2 * n) (drop (2 * n) t)"
      using m(1) Vb [of "2 * n" "drop (2 * n) t"] by (cases neg) (simp_all add: V_def)
    ultimately show ?thesis by linarith
  qed
  then have k: "0 \<le> c3" "c3 \<le> 3"
    using carry_bounds [OF v3 Vb Vb2 Vb Vb2 m(2) _ X(1)] l lr(1) by simp_all
  show "wrote (4 * n) N r r'"
  proof (cases "c3 = 0")
    case True
    then have "int N = int (words_val (take (4 * n) r2))" using Nv by (simp add: V_def)
    moreover have "drop (4 * n) r2 = drop (4 * n) r"
    proof -
      have "drop (4 * n) r2 = drop n (drop (3 * n) r2)" by simp
      then show ?thesis unfolding lr(5) by simp
    qed
    ultimately show ?thesis using c True lr(2) unfolding res by (simp add: wrote_def)
  next
    case False
    define w :: u64 where "w = word_of_int c3"
    have "c3 = 1 \<or> c3 = 2 \<or> c3 = 3" using k False by linarith
    then have w: "int (unat w) = c3" unfolding w_def by auto
    have v: "V (4 * n) r2 = V (3 * n) r2 + X * X * X * V n (drop (3 * n) r2)"
    proof -
      have "words_val (take (4 * n) r2) = words_val (take (3 * n) r2) + 2 ^ (64 * (3 * n)) * words_val (take n (drop (3 * n) r2))"
        using words_val_split [of "3 * n" "4 * n" r2] l(1) lr(2) by simp
      then have "V (4 * n) r2 = V (3 * n) r2 + 2 ^ (64 * (3 * n)) * V n (drop (3 * n) r2)" by (simp add: V_def)
      then show ?thesis unfolding X(3) .
    qed
    have N2: "int N = V (3 * n) r2 + X * X * X * (V n (drop (3 * n) r2) + c3)" using Nv v by (simp add: distrib_left)
    have "int N < int (2 ^ (64 * (4 * n)))" using N(2) by (simp only: of_nat_less_iff)
    then have "int N < X * X * X * X" unfolding of_nat_power of_nat_numeral X(4) .
    then have "X * X * X * (V n (drop (3 * n) r2) + c3) < X * X * X * X" using N2 Vb [of "3 * n" r2] by linarith
    moreover have "0 < X * X * X" using X(1) by simp
    ultimately have "V n (drop (3 * n) r2) + c3 < X" by (simp only: mult_less_cancel_left_pos)
    then have "int (words_val (take n (drop (3 * n) r2)) + unat w) < int (2 ^ (64 * n))" using w unfolding V_def X_def by simp
    then have lt: "words_val (take n (drop (3 * n) r2)) + unat w < 2 ^ (64 * n)" by (simp only: of_nat_less_iff)
    have l4: "n \<le> length (drop (3 * n) r2)" "3 * n \<le> length r2" using l lr(2) by simp_all
    have "unat w \<noteq> 0" using w False by linarith
    note ac = wrote_at [where f = "add_carry_at w", OF add_carry_at [OF l4(1) lt this] l4(2)]
    have r': "r' = at (3 * n) (add_carry_at w) r2" using c False unfolding res w_def by simp
    have "words_val (take (4 * n) r') = words_val (take (3 * n) r') + 2 ^ (64 * (3 * n)) * words_val (take n (drop (3 * n) r'))"
      using words_val_split [of "3 * n" "4 * n" r'] ac(1) l(1) lr(2) unfolding r' by simp
    also have "\<dots> = words_val (take (3 * n) r2) + 2 ^ (64 * (3 * n)) * (words_val (take n (drop (3 * n) r2)) + unat w)"
      using ac(2,5) unfolding r' by simp
    finally have "int (words_val (take (4 * n) r')) = V (3 * n) r2 + 2 ^ (64 * (3 * n)) * (V n (drop (3 * n) r2) + c3)"
      using w by (simp add: V_def)
    then have "int (words_val (take (4 * n) r')) = int N" unfolding X(3) N2 .
    moreover have "drop (4 * n) r' = drop (4 * n) r"
    proof -
      have "drop (3 * n + n) r' = drop (3 * n + n) r2" using ac(4) unfolding r' .
      also have "\<dots> = drop n (drop (3 * n) r2)" by (simp add: add.commute)
      also have "\<dots> = drop (3 * n + n) r" unfolding lr(5) by (simp add: add.commute)
      finally show ?thesis by simp
    qed
    ultimately show ?thesis using ac(1) lr(2) unfolding wrote_def r' by simp
  qed
qed

end
