(* ===== verification/BnMulRec.thy ===== *)
theory BnMulRec
  imports BnMulProps
begin

text \<open>
  The multiplication and squaring functions of \<^verbatim>\<open>bn_mul.c\<close> and \<^verbatim>\<open>bn_sqr.c\<close>: row by row, recursive, and on big numbers.
\<close>

subsection \<open>Products row by row\<close>

lemma wroteD: "wrote n v r r' \<Longrightarrow> length r' = length r" "wrote n v r r' \<Longrightarrow> drop n r' = drop n r" "wrote n v r r' \<Longrightarrow> words_val (take n r') = v"
  by (simp_all add: wrote_def)

lemma words_val_put: "n < length x \<Longrightarrow> words_val (take (Suc n) (x[n := c])) = words_val (take n x) + 2 ^ (64 * n) * unat c"
  using words_val_take_Suc [of n "x[n := c]"] by simp

lemma mul_rows:
  "na \<le> length a \<Longrightarrow> nb < length b \<Longrightarrow> na + 1 + nb \<le> length r \<Longrightarrow>
   wrote (na + 1 + nb) (words_val (take (na + 1) r) + 2 ^ 64 * (words_val (take na a) * words_val (take nb (drop 1 b)))) r (mul_rows a na b nb r)"
proof (induction nb arbitrary: b r)
  case (Suc nb)
  obtain r0 x where r: "r = r0 # x" using Suc.prems(3) by (cases r) auto
  obtain b0 b1 bs where b: "b = b0 # b1 # bs" using Suc.prems(2) by (cases b; cases "tl b") auto
  obtain x1 c where m: "bn_mul_add_words x a na b1 = (x1, c)" by fastforce
  have lx: "na \<le> length x" "na < length x" using Suc.prems(3) r by simp_all
  note w = bn_mul_add_words [OF lx(1) Suc.prems(1) m]
  let ?x = "x1[na := c]"
  have "words_val (take (na + 1) ?x) = words_val (take na x) + words_val (take na a) * unat b1"
    using words_val_put [of na x1 c] w(1,3) lx(2) by simp
  moreover have "wrote (na + 1 + nb) (words_val (take (na + 1) ?x) + 2 ^ 64 * (words_val (take na a) * words_val (take nb (drop 1 (drop 1 b))))) ?x
      (mul_rows a na (drop 1 b) nb ?x)"
    using Suc.prems w(1) r b by (intro Suc.IH) simp_all
  ultimately have ih: "wrote (na + 1 + nb) (words_val (take na x) + words_val (take na a) * unat b1 + 2 ^ 64 * (words_val (take na a) * words_val (take nb bs))) ?x
      (mul_rows a na (drop 1 b) nb ?x)"
    by (simp add: b)
  have dr: "drop (na + 1 + nb) ?x = drop (na + 1 + nb) x"
  proof -
    have "drop (na + 1 + nb) ?x = drop nb (drop 1 (drop na ?x))" by (simp add: add.commute)
    also have "\<dots> = drop nb (drop 1 (drop na x1))" by (simp add: drop_update_cancel)
    finally show ?thesis unfolding w(2) by (simp add: add.commute)
  qed
  have rows: "mul_rows a na b (Suc nb) r = r0 # mul_rows a na (drop 1 b) nb ?x" by (simp add: r b m)
  have v: "2 ^ 64 * (words_val (take na x) + words_val (take na a) * unat b1 + 2 ^ 64 * (words_val (take na a) * words_val (take nb bs))) =
      2 ^ 64 * words_val (take na x) + 2 ^ 64 * (words_val (take na a) * words_val (take (Suc nb) (b1 # bs)))"
    by (simp add: distrib_left mult.left_commute)
  show ?case unfolding rows wrote_def using wroteD [OF ih] w(1) dr v by (simp add: r b)
qed (simp add: wrote_def)

lemma mul_rows_first:
  assumes "na \<le> length a" "0 < nb" "nb \<le> length b" "na + nb \<le> length r"
  shows "wrote (na + nb) (words_val (take na a) * words_val (take nb b)) r
    (case bn_mul_words r a na (b ! 0) of (r, c) \<Rightarrow> mul_rows a na b (nb - 1) (r[na := c]))"
proof -
  obtain b0 bs where b: "b = b0 # bs" using assms(2,3) by (cases b) auto
  obtain x c where m: "bn_mul_words r a na b0 = (x, c)" by fastforce
  have l: "na \<le> length r" "na < length r" using assms(2,4) by simp_all
  note w = bn_mul_words [OF l(1) assms(1) m]
  let ?x = "x[na := c]" and ?n = "na + 1 + (nb - 1)"
  have n: "?n = na + nb" using assms(2) by simp
  have "wrote ?n (words_val (take (na + 1) ?x) + 2 ^ 64 * (words_val (take na a) * words_val (take (nb - 1) (drop 1 b)))) ?x (mul_rows a na b (nb - 1) ?x)"
    using assms w(1) by (intro mul_rows) simp_all
  moreover have "words_val (take (na + 1) ?x) = words_val (take na a) * unat b0" using words_val_put [of na x c] w(1,3) l(2) by simp
  moreover have "words_val (take nb b) = unat b0 + 2 ^ 64 * words_val (take (nb - 1) bs)" using assms(2) by (cases nb) (simp_all add: b)
  moreover have "drop (na + nb) ?x = drop (na + nb) r"
  proof -
    have "drop ?n ?x = drop (nb - 1) (drop 1 (drop na ?x))" by (simp add: add.commute)
    also have "\<dots> = drop (nb - 1) (drop 1 (drop na x))" by (simp add: drop_update_cancel)
    also have "\<dots> = drop ?n r" unfolding w(2) by (simp add: add.commute)
    finally show ?thesis unfolding n .
  qed
  ultimately show ?thesis using w(1) unfolding n by (simp add: wrote_def b m distrib_left mult.left_commute)
qed

lemma bn_mul_normal:
  assumes "na \<le> length a" "nb \<le> length b" "na + nb \<le> length r"
  shows "wrote (na + nb) (words_val (take na a) * words_val (take nb b)) r (bn_mul_normal r a na b nb)"
proof -
  have z: "wrote n 0 r (fst (bn_mul_words r x n 0))" if "n \<le> length x" "n \<le> length r" for n x

  proof -
    obtain y c where m: "bn_mul_words r x n 0 = (y, c)" by fastforce
    then show ?thesis using bn_mul_words [OF that(2,1) m] by (simp add: wrote_def)
  qed
  consider "na < nb" "na = 0" | "na < nb" "0 < na" | "nb \<le> na" "nb = 0" | "nb \<le> na" "0 < nb" by linarith
  then show ?thesis
  proof cases
    case 2
    then show ?thesis using mul_rows_first [of nb b na a r] assms by (simp add: bn_mul_normal_def mult.commute add.commute)
  next
    case 4
    then show ?thesis using mul_rows_first [of na a nb b r] assms by (simp add: bn_mul_normal_def)
  qed (use z [of nb b] z [of na a] assms in \<open>simp_all add: bn_mul_normal_def\<close>)
qed

lemma wrote_0: "wrote n v r r1 \<Longrightarrow> n + m \<le> length r \<Longrightarrow> wrote (n + m) v r (at n (memset0 m) r1)"
proof -
  assume w: "wrote n v r r1" "n + m \<le> length r"
  have l: "m \<le> length (drop n r1)" "n \<le> length r1" using w by (simp_all add: wrote_def)
  note a = wrote_at [where f = "memset0 m", OF memset0_wrote [OF l(1)] l(2)]
  have "words_val (take (n + m) (at n (memset0 m) r1)) = words_val (take n (at n (memset0 m) r1)) + 2 ^ (64 * n) * words_val (take m (drop n (at n (memset0 m) r1)))"
    using words_val_split [of n "n + m" "at n (memset0 m) r1"] a(1) l(2) by simp
  moreover have "drop (n + m) r1 = drop (n + m) r"
  proof -
    have "drop (n + m) r1 = drop m (drop n r1)" by (simp add: add.commute)
    then show ?thesis unfolding wroteD(2) [OF w(1)] by (simp add: add.commute)
  qed
  ultimately show ?thesis using a w(1) by (simp add: wrote_def)
qed

subsection \<open>Karatsuba's recursion\<close>

lemma karatsuba:
  fixes X a0 a1 b0 b1 :: int
  shows "(a0 + X * a1) * (b0 + X * b1) = a0 * b0 + X * X * (a1 * b1) + X * (a0 * b0 + a1 * b1 + (a0 - a1) * (b1 - b0))"
    "a0 * b0 + a1 * b1 + (a0 - a1) * (b1 - b0) = a0 * b1 + a1 * b0"
  by (simp_all add: algebra_simps)

lemma words_product_less: "na \<le> n \<Longrightarrow> nb \<le> n \<Longrightarrow> words_val (take na a) * words_val (take nb b) < 2 ^ (64 * (2 * n))"
proof -
  assume n: "na \<le> n" "nb \<le> n"
  have "words_val (take k x) < 2 ^ (64 * n)" if "k \<le> n" for k x
  proof -
    have "words_val (take k x) < 2 ^ (64 * length (take k x))" by (rule words_val_less)
    also have "\<dots> \<le> 2 ^ (64 * n)" using that by (intro power_increasing) simp_all
    finally show ?thesis .
  qed
  then have "words_val (take na a) * words_val (take nb b) < 2 ^ (64 * n) * 2 ^ (64 * n)" using n by (intro mult_strict_mono') simp_all
  then show ?thesis by (simp add: power_add [symmetric] mult_2)
qed

text \<open>The common end: the three products are in place.\<close>

lemma karatsuba_end:
  assumes t: "tna \<le> n" "tnb \<le> n" "n \<le> length a" "n \<le> length b" "4 * n \<le> length r" "4 * n \<le> length t"
    and p: "words_val (take (2 * n) r) = words_val (take n a) * words_val (take n b)"
      "words_val (take (2 * n) (drop (2 * n) r)) = words_val (take tna (drop n a)) * words_val (take tnb (drop n b))"
      "(if neg then -1 else 1) * int (words_val (take (2 * n) (drop (2 * n) t))) =
        (int (words_val (take n a)) - int (words_val (take tna (drop n a)))) * (int (words_val (take tnb (drop n b))) - int (words_val (take n b)))"
    and c: "mul_combine neg n r t = (r', t')"
  shows "wrote (4 * n) (words_val (take (n + tna) a) * words_val (take (n + tnb) b)) r r' \<and> length t' = length t"
proof -
  define X :: int where "X = 2 ^ (64 * n)"
  define a0 a1 b0 b1 where v: "a0 = int (words_val (take n a))" "a1 = int (words_val (take tna (drop n a)))"
    "b0 = int (words_val (take n b))" "b1 = int (words_val (take tnb (drop n b)))"
  let ?mid = "a0 * b0 + a1 * b1 + (a0 - a1) * (b1 - b0)"
  have "int (words_val (take (n + tna) a)) = a0 + X * a1" "int (words_val (take (n + tnb) b)) = b0 + X * b1"
    using words_val_split [of n "n + tna" a] words_val_split [of n "n + tnb" b] t by (simp_all add: v X_def)
  then have N: "int (words_val (take (n + tna) a) * words_val (take (n + tnb) b)) = a0 * b0 + X * X * (a1 * b1) + X * ?mid"
    by (simp only: of_nat_mult karatsuba(1))
  have "words_val (take (4 * n) r) = words_val (take (2 * n) r) + 2 ^ (64 * (2 * n)) * words_val (take (2 * n) (drop (2 * n) r))"
    using words_val_split [of "2 * n" "4 * n" r] t by simp
  moreover have "2 ^ (64 * (2 * n)) = X * X" by (simp add: X_def power_add [symmetric])
  ultimately have R: "int (words_val (take (4 * n) r)) = a0 * b0 + X * X * (a1 * b1)" by (simp add: p(1,2) v)
  have "?mid = int (words_val (take (2 * n) r)) + int (words_val (take (2 * n) (drop (2 * n) r))) + (if neg then -1 else 1) * int (words_val (take (2 * n) (drop (2 * n) t)))"
    unfolding p(3) by (simp add: p(1,2) v)
  moreover have "0 \<le> ?mid" unfolding karatsuba(2) by (simp add: v)
  moreover have "int (words_val (take (n + tna) a) * words_val (take (n + tnb) b)) = int (words_val (take (4 * n) r)) + 2 ^ (64 * n) * ?mid"
    unfolding N R X_def [symmetric] ..
  moreover have "words_val (take (n + tna) a) * words_val (take (n + tnb) b) < 2 ^ (64 * (4 * n))"
    using words_product_less [of "n + tna" "2 * n" "n + tnb" a b] t by simp
  ultimately show ?thesis using mul_combine [OF t(5,6) _ _ _ _ c] by blast
qed

text \<open>The three products, those of the lower and of the upper halves in \<open>r\<close> and that of the differences in \<open>t\<close>.\<close>

definition products_done :: "nat \<Rightarrow> nat \<Rightarrow> nat \<Rightarrow> nat \<Rightarrow> u64 list \<Rightarrow> u64 list \<Rightarrow> u64 list \<Rightarrow> u64 list \<Rightarrow> bool" where
  "products_done n p0 p2 p1 r t r' t' \<longleftrightarrow> length r' = length r \<and> drop (4 * n) r' = drop (4 * n) r \<and> length t' = length t \<and>
     words_val (take (2 * n) r') = p0 \<and> words_val (take (2 * n) (drop (2 * n) r')) = p2 \<and> words_val (take (2 * n) (drop (2 * n) t')) = p1"

lemma two_writes:
  assumes "wrote k v r r1" "wrote m w (drop k r1) x" "k + m \<le> length r"
  shows "length (take k r1 @ x) = length r" "drop (k + m) (take k r1 @ x) = drop (k + m) r" "words_val (take k (take k r1 @ x)) = v"
    "words_val (take m (drop k (take k r1 @ x))) = w"
proof -
  have l: "length r1 = length r" "length x = length r - k" "k \<le> length r1" using assms by (simp_all add: wrote_def)
  then show "length (take k r1 @ x) = length r" "words_val (take k (take k r1 @ x)) = v" "words_val (take m (drop k (take k r1 @ x))) = w"
    using assms by (simp_all add: wrote_def)
  have "drop (k + m) (take k r1 @ x) = drop m x" using l by simp
  also have "\<dots> = drop m (drop k r1)" using assms(2) by (simp add: wrote_def)
  also have "\<dots> = drop (k + m) r" unfolding wroteD(2) [OF assms(1)] by (simp add: add.commute)
  finally show "drop (k + m) (take k r1 @ x) = drop (k + m) r" .
qed

lemma mul_comba_halves:
  assumes "\<And>p x y. n \<le> length x \<Longrightarrow> n \<le> length y \<Longrightarrow> 2 * n \<le> length p \<Longrightarrow> wrote (2 * n) (words_val (take n x) * words_val (take n y)) p (comba p x y)"
    and l: "4 * n \<le> length r" "4 * n \<le> length t" "2 * n \<le> length a" "2 * n \<le> length b"
    and "mul_comba_halves comba zero r a b n t = (r', t')"
  shows "products_done n (words_val (take n a) * words_val (take n b)) (words_val (take n (drop n a)) * words_val (take n (drop n b)))
    (if zero then 0 else words_val (take n t) * words_val (take n (drop n t))) r t r' t'"
proof -
  define f where "f = (if \<not> zero then (\<lambda>p. comba p t (drop n t)) else memset0 (2 * n))"
  have r': "r' = take (2 * n) (comba r a b) @ comba (drop (2 * n) (comba r a b)) (drop n a) (drop n b)" and t': "t' = at (2 * n) f t"
    using assms(6) by (simp_all add: mul_comba_halves_def Let_def f_def at_def)
  have w0: "wrote (2 * n) (words_val (take n a) * words_val (take n b)) r (comba r a b)" using l by (intro assms(1)) simp_all
  have w1: "wrote (2 * n) (words_val (take n (drop n a)) * words_val (take n (drop n b))) (drop (2 * n) (comba r a b)) (comba (drop (2 * n) (comba r a b)) (drop n a) (drop n b))"
    using l wroteD(1) [OF w0] by (intro assms(1)) simp_all
  have "2 * n + 2 * n \<le> length r" using l(1) by simp
  note two = two_writes [OF w0 w1 this, folded r']
  have f: "wrote (2 * n) (if zero then 0 else words_val (take n t) * words_val (take n (drop n t))) (drop (2 * n) t) (f (drop (2 * n) t))"
    using assms(1) [of t "drop n t" "drop (2 * n) t"] memset0_wrote [of "2 * n" "drop (2 * n) t"] l(2) by (simp add: f_def)
  have "2 * n \<le> length t" using l(2) by simp
  note tw = wrote_at [where f = f, OF f this, folded t']
  have "2 * n + 2 * n = 4 * n" by simp
  then show ?thesis using two tw(1,5) by (simp add: products_done_def)
qed

text \<open>The recursion: a product of \<open>n2 + dna\<close> and \<open>n2 + dnb\<close> words, for which \<open>4 * n2 - 32\<close> words of scratch are enough.\<close>

lemma bn_mul_recursive:
  "n2 = 2 ^ k \<Longrightarrow> 3 \<le> k \<Longrightarrow> -4 \<le> dna \<Longrightarrow> dna \<le> 0 \<Longrightarrow> -4 \<le> dnb \<Longrightarrow> dnb \<le> 0 \<Longrightarrow>
   nat (int n2 + dna) \<le> length a \<Longrightarrow> nat (int n2 + dnb) \<le> length b \<Longrightarrow> 2 * n2 \<le> length r \<Longrightarrow> 4 * n2 \<le> length t + 32 \<Longrightarrow>
   bn_mul_recursive r a b n2 dna dnb t = (r', t') \<Longrightarrow>
   wrote (2 * n2) (words_val (take (nat (int n2 + dna)) a) * words_val (take (nat (int n2 + dnb)) b)) r r' \<and> length t' = length t"
proof (induction k arbitrary: n2 dna dnb r a b t r' t')
  case (Suc k)
  show ?case
  proof (cases "k = 2")
    case True
    then have n2: "n2 = 8" using Suc.prems(1) by simp
    show ?thesis
    proof (cases "dna = 0 \<and> dnb = 0")
      case True
      then have "r' = bn_mul_comba8 r a b" "t' = t" using Suc.prems(11) n2 by (simp_all add: bn_mul_recursive.simps [of r])
      then show ?thesis using comba_wrote(1) [of a b r] Suc.prems n2 True by simp
    next
      case False
      define z where "z = nat (- (dna + dnb))"
      let ?na = "nat (8 + dna)" and ?nb = "nat (8 + dnb)"
      have e: "?na + ?nb + z = 16" "nat (16 + dna + dnb) = ?na + ?nb" using Suc.prems(3-6) by (auto simp: z_def)
      have z: "dna + dnb < 0" using False Suc.prems(4,6) by linarith
      have rt: "r' = at (?na + ?nb) (memset0 z) (bn_mul_normal r a ?na b ?nb)" "t' = t"
        using Suc.prems(11) n2 False z e(2) by (simp_all add: bn_mul_recursive.simps [of r] BN_MUL_RECURSIVE_SIZE_NORMAL_def z_def Let_def)
      have "?na + ?nb + z \<le> length r" using Suc.prems(9) e(1) n2 by simp
      moreover have "wrote (?na + ?nb) (words_val (take ?na a) * words_val (take ?nb b)) r (bn_mul_normal r a ?na b ?nb)"
        using Suc.prems(7-9) e(1) n2 by (intro bn_mul_normal) simp_all
      ultimately have "wrote (?na + ?nb + z) (words_val (take ?na a) * words_val (take ?nb b)) r r'" unfolding rt by (intro wrote_0)
      then show ?thesis unfolding e(1) using rt(2) n2 by simp
    qed
  next
    case False
    define n where "n = (2 :: nat) ^ k"
    have k: "3 \<le> k" using Suc.prems(2) False by simp
    have "(2 :: nat) ^ 3 \<le> 2 ^ k" using k by (intro power_increasing) simp_all
    then have n8: "8 \<le> n" by (simp add: n_def)
    have n2: "n2 = 2 * n" "n2 div 2 = n" using Suc.prems(1) by (simp_all add: n_def)
    define tna tnb where tn: "tna = nat (int n + dna)" "tnb = nat (int n + dnb)"
    have tnn: "tna \<le> n" "tnb \<le> n" "n + tna = nat (int n2 + dna)" "n + tnb = nat (int n2 + dnb)"
      using Suc.prems(3-6) n8 n2(1) by (auto simp: tn)
    have l: "4 * n \<le> length r" "4 * n \<le> length t" "n + tna \<le> length a" "n + tnb \<le> length b" "2 * n \<le> length t"
      using Suc.prems(7-10) tnn(3,4) n2 n8 by simp_all
    obtain zero neg t1 where md: "mul_diffs (mul_switch a b n tna tnb) a b n tna tnb t = (zero, neg, t1)" by (metis prod_cases3)
    note D = mul_diffs(1) [OF tnn(1,2) l(3,4,5) md]
    have big: "\<not> (n2 = 8 \<and> dna = 0 \<and> dnb = 0)" "\<not> n2 < BN_MUL_RECURSIVE_SIZE_NORMAL" "n \<noteq> 4" using n8 n2 by (simp_all add: BN_MUL_RECURSIVE_SIZE_NORMAL_def)
    have lt1: "length t1 = length t" using D by simp
    have "\<exists>r2 t2. bn_mul_recursive r a b n2 dna dnb t = mul_combine neg n r2 t2 \<and>
        products_done n (words_val (take n a) * words_val (take n b)) (words_val (take tna (drop n a)) * words_val (take tnb (drop n b)))
          (if zero then 0 else words_val (take n t1) * words_val (take n (drop n t1))) r t1 r2 t2"
    proof (cases "n = 8 \<and> dna = 0 \<and> dnb = 0")
      case True
      obtain r2 t2 where c: "mul_comba_halves bn_mul_comba8 zero r a b n t1 = (r2, t2)" by fastforce
      have "mul_diffs (mul_switch a b 8 8 8) a b 8 8 8 t = (zero, neg, t1)" using md True by (simp add: tn)
      then have "bn_mul_recursive r a b n2 dna dnb t = mul_combine neg n r2 t2"
        using big True c by (subst bn_mul_recursive.simps) (simp add: Let_def n2(2))
      moreover have "tna = n" "tnb = n" using True by (simp_all add: tn)
      moreover have "products_done n (words_val (take n a) * words_val (take n b)) (words_val (take n (drop n a)) * words_val (take n (drop n b)))
          (if zero then 0 else words_val (take n t1) * words_val (take n (drop n t1))) r t1 r2 t2"
        using l True calculation(2,3) lt1 by (intro mul_comba_halves [OF _ _ _ _ _ c]) (simp_all add: comba_wrote(1))
      ultimately show ?thesis by (intro exI [of _ r2] exI [of _ t2]) simp
    next
      case False
      obtain x p where x: "(if \<not> zero then bn_mul_recursive (take n2 (drop n2 t1)) t1 (drop n t1) n 0 0 (drop (2 * n2) t1)
          else (memset0 n2 (take n2 (drop n2 t1)), drop (2 * n2) t1)) = (x, p)" by fastforce
      obtain r1 p1 where r1: "bn_mul_recursive r a b n 0 0 p = (r1, p1)" by fastforce
      obtain y p2 where y: "bn_mul_recursive (drop n2 r1) (drop n a) (drop n b) n dna dnb p1 = (y, p2)" by fastforce
      have s: "bn_mul_recursive r a b n2 dna dnb t = mul_combine neg n (take n2 r1 @ y) ((take n2 t1 @ x) @ p2)"
        using x r1 y big(2,3)
        by (subst bn_mul_recursive.simps) (simp add: if_not_P [OF big(1)] if_not_P [OF False] Let_def n2(2) tn [symmetric] md)
      note IH = Suc.IH [OF n_def k]
      have lx: "length (take n2 (drop n2 t1)) = n2" "n2 \<le> length t1" using l(2) n2 lt1 by simp_all
      have lp: "4 * n \<le> length (drop (2 * n2) t1) + 32" using Suc.prems(10) n2 lt1 by simp
      have px: "wrote n2 (if zero then 0 else words_val (take n t1) * words_val (take n (drop n t1))) (take n2 (drop n2 t1)) x \<and> length p = length (drop (2 * n2) t1)"
      proof (cases zero)
        case True
        then show ?thesis using x memset0_wrote [of n2 "take n2 (drop n2 t1)"] lx by auto
      next
        case False
        then have "bn_mul_recursive (take n2 (drop n2 t1)) t1 (drop n t1) n 0 0 (drop (2 * n2) t1) = (x, p)" using x by simp
        note h = IH [OF _ _ _ _ _ _ _ _ this]
        show ?thesis using h l(5) lt1 lx lp n2 False by simp
      qed
      have h1: "wrote (2 * n) (words_val (take n a) * words_val (take n b)) r r1 \<and> length p1 = length p"
        using IH [OF _ _ _ _ _ _ _ _ r1] l lp px by simp
      have tn': "nat (int n + dna) = tna" "nat (int n + dnb) = tnb" by (simp_all add: tn)
      have h2: "wrote (2 * n) (words_val (take tna (drop n a)) * words_val (take tnb (drop n b))) (drop n2 r1) y \<and> length p2 = length p1"
        using IH [OF Suc.prems(3-6) _ _ _ _ y, unfolded tn'] l lp px h1 n2 wroteD(1) [OF conjunct1 [OF h1]] by simp
      have "2 * n + 2 * n \<le> length r" using l(1) by simp
      note two = two_writes [OF conjunct1 [OF h1] conjunct1 [OF h2 [unfolded n2(1)]] this]
      have lxx: "length x = n2" "length p2 = length t1 - 2 * n2" using wroteD(1) [OF conjunct1 [OF px]] px h1 h2 lx by simp_all
      have "length ((take n2 t1 @ x) @ p2) = length t1" "take (2 * n) (drop (2 * n) ((take n2 t1 @ x) @ p2)) = take n2 x"
        using lxx lx l(2) n2 lt1 by simp_all
      then have "products_done n (words_val (take n a) * words_val (take n b)) (words_val (take tna (drop n a)) * words_val (take tnb (drop n b)))
          (if zero then 0 else words_val (take n t1) * words_val (take n (drop n t1))) r t1 (take n2 r1 @ y) ((take n2 t1 @ x) @ p2)"
        using two wroteD(3) [OF conjunct1 [OF px]] n2(1) by (simp add: products_done_def)
      then show ?thesis using s by blast
    qed
    then obtain r2 t2 where c: "mul_combine neg n r2 t2 = (r', t')" and pd: "products_done n (words_val (take n a) * words_val (take n b))
        (words_val (take tna (drop n a)) * words_val (take tnb (drop n b))) (if zero then 0 else words_val (take n t1) * words_val (take n (drop n t1))) r t1 r2 t2"
      using Suc.prems(11) by auto
    note q = pd [unfolded products_done_def]
    have "wrote (4 * n) (words_val (take (n + tna) a) * words_val (take (n + tnb) b)) r2 r' \<and> length t' = length t2"
    proof (rule karatsuba_end [OF tnn(1,2) _ _ _ _ _ _ _ c])
      show "n \<le> length a" "n \<le> length b" using l by simp_all
      show "4 * n \<le> length r2" "4 * n \<le> length t2" using q l lt1 by simp_all
      show "words_val (take (2 * n) r2) = words_val (take n a) * words_val (take n b)"
        "words_val (take (2 * n) (drop (2 * n) r2)) = words_val (take tna (drop n a)) * words_val (take tnb (drop n b))" using q by blast+
      show "(if neg then -1 else 1) * int (words_val (take (2 * n) (drop (2 * n) t2))) =
          (int (words_val (take n a)) - int (words_val (take tna (drop n a)))) * (int (words_val (take tnb (drop n b))) - int (words_val (take n b)))"
        using q D by (cases zero) simp_all
    qed
    then show ?thesis using q D tnn(3,4) n2(1) by (simp add: wrote_def)
  qed
qed simp

end
