(* ===== verification/BnMulPart.thy ===== *)
theory BnMulPart
  imports BnMulRec
begin

text \<open>
  \<open>bn_mul_part_recursive\<close>, the product of numbers whose lengths lie between two powers of two, and the functions on big
  numbers \<open>BN_mul\<close> and \<open>BN_sqr\<close>.
\<close>

subsection \<open>Numbers that are longer than a power of two\<close>

lemma halve_loop:
  "i = 2 ^ m \<Longrightarrow> tna < i \<Longrightarrow> tnb < i \<Longrightarrow> 0 < tna \<or> 0 < tnb \<Longrightarrow>
   \<exists>j. halve_loop i tna tnb = 2 ^ j \<and> j < m \<and> tna < 2 * 2 ^ j \<and> tnb < 2 * 2 ^ j \<and> (2 ^ j \<le> tna \<or> 2 ^ j \<le> tnb)"
proof (induction m arbitrary: i)
  case (Suc m)
  have h: "i div 2 = 2 ^ m" using Suc.prems(1) by simp
  show ?case
  proof (cases "2 ^ m \<le> tna \<or> 2 ^ m \<le> tnb")
    case True
    then have "halve_loop i tna tnb = 2 ^ m" by (subst halve_loop.simps) (auto simp: h Let_def)
    then show ?thesis using True Suc.prems by (intro exI [of _ m]) simp
  next
    case False
    then have "halve_loop i tna tnb = halve_loop (2 ^ m) tna tnb" using Suc.prems by (subst halve_loop.simps) (auto simp: h Let_def)
    moreover have "\<exists>j. halve_loop (2 ^ m) tna tnb = 2 ^ j \<and> j < m \<and> tna < 2 * 2 ^ j \<and> tnb < 2 * 2 ^ j \<and> (2 ^ j \<le> tna \<or> 2 ^ j \<le> tnb)"
      using False Suc.prems(4) by (intro Suc.IH [OF refl]) simp_all
    ultimately show ?thesis by (metis less_Suc_eq)
  qed
qed simp

lemma wrote_over_0: "wrote m v (memset0 n y) x \<Longrightarrow> m \<le> n \<Longrightarrow> n \<le> length y \<Longrightarrow> wrote n v y x"
proof -
  assume a: "wrote m v (memset0 n y) x" "m \<le> n" "n \<le> length y"
  have l: "length x = length y" using a by (simp add: wrote_def memset0_def)
  have d: "drop m x = drop m (memset0 n y)" by (rule wroteD(2) [OF a(1)])
  have "drop n x = drop (n - m) (drop m x)" using a(2) by simp
  also have "\<dots> = drop n (memset0 n y)" unfolding d using a(2) by simp
  finally have dn: "drop n x = drop n y" by (simp add: memset0_def)
  have "take (n - m) (drop m x) = replicate (n - m) 0" unfolding d using a(2,3) by (simp add: memset0_def)
  then have "words_val (take (n - m) (drop m x)) = 0" using words_val_replicate [of "n - m" "[]"] by simp
  then have "words_val (take n x) = words_val (take m x)" using words_val_split [of m n x] a(2,3) l by simp
  then show ?thesis using l dn wroteD(3) [OF a(1)] by (simp add: wrote_def)
qed

lemma wrote_clear: "wrote n v r x \<Longrightarrow> v < 2 ^ (64 * m) \<Longrightarrow> m \<le> n \<Longrightarrow> n \<le> length r \<Longrightarrow> wrote n v r (at m (memset0 (n - m)) x)"
proof -
  assume a: "wrote n v r x" "v < 2 ^ (64 * m)" "m \<le> n" "n \<le> length r"
  have l: "length x = length r" by (rule wroteD(1) [OF a(1)])
  have v: "v = words_val (take m x) + 2 ^ (64 * m) * words_val (take (n - m) (drop m x))"
    using words_val_split [of m n x] wroteD(3) [OF a(1)] a(3,4) l by simp
  have "words_val (take (n - m) (drop m x)) = 0"
  proof (rule ccontr)
    assume "words_val (take (n - m) (drop m x)) \<noteq> 0"
    then have "2 ^ (64 * m) * 1 \<le> 2 ^ (64 * m) * words_val (take (n - m) (drop m x))" by (intro mult_le_mono2) simp
    then show False using v a(2) unfolding mult_1_right by linarith
  qed
  then have "wrote m v (take m r @ drop m x) x" using v l a(3,4) by (simp add: wrote_def)
  then have w: "wrote (m + (n - m)) v (take m r @ drop m x) (at m (memset0 (n - m)) x)" using a(3,4) l by (intro wrote_0) simp_all
  have "m + (n - m) = n" using a(3) by simp
  note w = w [unfolded this]
  have "drop n (take m r @ drop m x) = drop n r" using a(1,3,4) l by (simp add: wrote_def)
  then show ?thesis using w a(3,4) l by (simp add: wrote_def)
qed

lemma words_product_bound: "words_val (take na a) * words_val (take nb b) < 2 ^ (64 * (na + nb))"
proof -
  have "words_val (take k x) < 2 ^ (64 * k)" for k x
  proof -
    have "words_val (take k x) < 2 ^ (64 * length (take k x))" by (rule words_val_less)
    also have "\<dots> \<le> 2 ^ (64 * k)" by (intro power_increasing) simp_all
    finally show ?thesis .
  qed
  then have "words_val (take na a) * words_val (take nb b) < 2 ^ (64 * na) * 2 ^ (64 * nb)" by (intro mult_strict_mono') simp_all
  then show ?thesis by (simp add: power_add distrib_left)
qed

lemma at_at: "k \<le> length r \<Longrightarrow> at (k + m) g (at k f r) = at k (\<lambda>q. at m g (f q)) r"
  by (simp add: at_def add.commute min_absorb2)

text \<open>The three products, when the upper halves may be shorter: \<open>x\<close> is the array from word \<open>2 * n\<close> on.\<close>

lemma part_end:
  assumes d: "mul_part_diffs (mul_switch a b n tna tnb) a b n tna tnb t = (neg, t1)"
    and l: "tna \<le> n" "tnb \<le> n" "n + tna \<le> length a" "n + tnb \<le> length b" "4 * n \<le> length r" "4 * n \<le> length t"
    and w: "wrote (2 * n) (words_val (take n a) * words_val (take n b)) r r1"
      "wrote (2 * n) (words_val (take tna (drop n a)) * words_val (take tnb (drop n b))) (drop (2 * n) r1) x"
    and t2: "length t2 = length t1" "words_val (take (2 * n) (drop (2 * n) t2)) = words_val (take n t1) * words_val (take n (drop n t1))"
    and c: "mul_combine neg n (take (2 * n) r1 @ x) t2 = (r', t')"
  shows "wrote (4 * n) (words_val (take (n + tna) a) * words_val (take (n + tnb) b)) r r' \<and> length t' = length t"
proof -
  have "2 * n \<le> length t" using l by simp
  note D = mul_diffs(2) [OF l(1-4) this d]
  have "2 * n + 2 * n \<le> length r" using l(5) by simp
  note two = two_writes [OF w this]
  have "wrote (4 * n) (words_val (take (n + tna) a) * words_val (take (n + tnb) b)) (take (2 * n) r1 @ x) r' \<and> length t' = length t2"
  proof (rule karatsuba_end [OF l(1,2) _ _ _ _ two(3,4) _ c])
    show "n \<le> length a" "n \<le> length b" using l by simp_all
    show "4 * n \<le> length (take (2 * n) r1 @ x)" "4 * n \<le> length t2" using two(1) l t2(1) D by simp_all
    show "(if neg then -1 else 1) * int (words_val (take (2 * n) (drop (2 * n) t2))) =
        (int (words_val (take n a)) - int (words_val (take tna (drop n a)))) * (int (words_val (take tnb (drop n b))) - int (words_val (take n b)))"
      using D t2(2) by simp
  qed
  then show ?thesis using two(1,2) t2(1) D by (simp add: wrote_def)
qed

lemma part_8:
  assumes l: "tna < 8" "tnb < 8" "8 + tna \<le> length a" "8 + tnb \<le> length b" "32 \<le> length r" "32 \<le> length t"
    and c: "bn_mul_part_recursive r a b 8 tna tnb t = (r', t')"
  shows "wrote 32 (words_val (take (8 + tna) a) * words_val (take (8 + tnb) b)) r r' \<and> length t' = length t"
proof -
  obtain neg t1 where d: "mul_part_diffs (mul_switch a b 8 tna tnb) a b 8 tna tnb t = (neg, t1)" by fastforce
  have "2 * 8 \<le> length t" using l by simp
  note D = mul_diffs(2) [OF _ _ l(3,4) this d]
  have lt1: "length t1 = length t" using D l by simp
  define t2 where "t2 = at 16 (\<lambda>p. bn_mul_comba8 p t1 (drop 8 t1)) t1"
  define r1 where "r1 = bn_mul_comba8 r a b"
  define f where "f = (\<lambda>p. bn_mul_normal p (drop 8 a) tna (drop 8 b) tnb)"
  define x where "x = at (tna + tnb) (memset0 (16 - tna - tnb)) (f (drop 16 r1))"
  have w1: "wrote (2 * 8) (words_val (take 8 a) * words_val (take 8 b)) r r1" using comba_wrote(1) [of a b r] l by (simp add: r1_def)
  have l1: "length r1 = length r" by (rule wroteD(1) [OF w1])
  have "wrote (tna + tnb) (words_val (take tna (drop 8 a)) * words_val (take tnb (drop 8 b))) (drop 16 r1) (f (drop 16 r1))"
    unfolding f_def using l l1 by (intro bn_mul_normal) simp_all
  then have "wrote (tna + tnb + (16 - tna - tnb)) (words_val (take tna (drop 8 a)) * words_val (take tnb (drop 8 b))) (drop 16 r1) x"
    unfolding x_def using l l1 by (intro wrote_0) simp_all
  moreover have "tna + tnb + (16 - tna - tnb) = 2 * 8" using l by simp
  ultimately have w2: "wrote (2 * 8) (words_val (take tna (drop 8 a)) * words_val (take tnb (drop 8 b))) (drop (2 * 8) r1) x" by simp
  have "wrote 16 (words_val (take 8 t1) * words_val (take 8 (drop 8 t1))) (drop 16 t1) (bn_mul_comba8 (drop 16 t1) t1 (drop 8 t1))"
    using l lt1 by (intro comba_wrote(1)) simp_all
  then have t2: "length t2 = length t1" "words_val (take (2 * 8) (drop (2 * 8) t2)) = words_val (take 8 t1) * words_val (take 8 (drop 8 t1))"
    using wrote_at(1,5) [where f = "\<lambda>p. bn_mul_comba8 p t1 (drop 8 t1)" and k = 16 and n = 16 and r = t1] l lt1 by (simp_all add: t2_def)
  have "at (16 + tna + tnb) (memset0 (16 - tna - tnb)) (at 16 f r1) = take 16 r1 @ x"
    using at_at [of 16 r1 "tna + tnb" "memset0 (16 - tna - tnb)" f] l l1 by (simp add: at_def [of 16] x_def add.assoc)
  note e = this [unfolded f_def r1_def diff_diff_left]
  have "bn_mul_part_recursive r a b 8 tna tnb t = mul_combine neg 8 (take (2 * 8) r1 @ x) t2"
    unfolding t2_def r1_def by (subst bn_mul_part_recursive.simps) (simp add: d Let_def e)
  then have c': "mul_combine neg 8 (take (2 * 8) r1 @ x) t2 = (r', t')" using c by simp
  have "wrote (4 * 8) (words_val (take (8 + tna) a) * words_val (take (8 + tnb) b)) r r' \<and> length t' = length t"
    by (rule part_end [OF d _ _ l(3,4) _ _ w1 w2 t2 c']) (use l in simp_all)
  then show ?thesis by simp
qed

text \<open>The product of the upper halves, by whichever function fits their lengths.\<close>

lemma upper_recursive:
  assumes "i = 2 ^ m" "3 \<le> m" "tna \<le> i" "tnb \<le> i" "i \<le> tna + 1" "i \<le> tnb + 1" "tna \<le> length a" "tnb \<le> length b" "2 * i \<le> length y" "4 * i \<le> length p + 32"
    and "bn_mul_recursive y a b i (int tna - int i) (int tnb - int i) p = (x, p')"
  shows "wrote (2 * i) (words_val (take tna a) * words_val (take tnb b)) y x \<and> length p' = length p"
  using bn_mul_recursive [OF assms(1,2) _ _ _ _ _ _ assms(9-11)] assms(3-8) by simp

lemma bn_mul_part_recursive:
  "n = 2 ^ k \<Longrightarrow> 3 \<le> k \<Longrightarrow> tna < n \<Longrightarrow> tnb < n \<Longrightarrow> tna \<le> tnb + 1 \<Longrightarrow> tnb \<le> tna + 1 \<Longrightarrow> n + tna \<le> length a \<Longrightarrow> n + tnb \<le> length b \<Longrightarrow>
   4 * n \<le> length r \<Longrightarrow> 8 * n \<le> length t + 32 \<Longrightarrow> bn_mul_part_recursive r a b n tna tnb t = (r', t') \<Longrightarrow>
   wrote (4 * n) (words_val (take (n + tna) a) * words_val (take (n + tnb) b)) r r' \<and> length t' = length t"
proof (induction k arbitrary: n tna tnb r a b t r' t' rule: less_induct)
  case (less k)
  show ?case
  proof (cases "k = 3")
    case True
    then have n: "n = 8" using less.prems(1) by simp
    have "wrote 32 (words_val (take (8 + tna) a) * words_val (take (8 + tnb) b)) r r' \<and> length t' = length t"
      by (rule part_8 [OF _ _ _ _ _ _ less.prems(11) [unfolded n]]) (use less.prems n in simp_all)
    then show ?thesis by (simp add: n)
  next
    case False
    obtain j where k: "k = Suc j" "3 \<le> j" using False less.prems(2) by (cases k) auto
    define i where "i = (2 :: nat) ^ j"
    have n: "n = 2 * i" "n div 2 = i" using less.prems(1) k by (simp_all add: i_def)
    have "(2 :: nat) ^ 3 \<le> 2 ^ j" using k(2) by (intro power_increasing) simp_all
    then have i8: "8 \<le> i" by (simp add: i_def)
    let ?n2 = "2 * n"
    have l: "4 * n \<le> length t" "2 * n \<le> length t" using less.prems(10) n i8 by simp_all
    obtain neg t1 where d: "mul_part_diffs (mul_switch a b n tna tnb) a b n tna tnb t = (neg, t1)" by fastforce
    note D = mul_diffs(2) [OF less_imp_le [OF less.prems(3)] less_imp_le [OF less.prems(4)] less.prems(7,8) l(2) d]
    have lt1: "length t1 = length t" using D by simp
    obtain x0 p where x0: "bn_mul_recursive (take ?n2 (drop ?n2 t1)) t1 (drop n t1) n 0 0 (drop (4 * n) t1) = (x0, p)" by fastforce
    have hx: "wrote ?n2 (words_val (take n t1) * words_val (take n (drop n t1))) (take ?n2 (drop ?n2 t1)) x0 \<and> length p = length (drop (4 * n) t1)"
      using bn_mul_recursive [OF less.prems(1,2) _ _ _ _ _ _ _ _ x0] l lt1 less.prems(10) by simp
    obtain r1 p1 where r1: "bn_mul_recursive r a b n 0 0 p = (r1, p1)" by fastforce
    have hr: "wrote ?n2 (words_val (take n a) * words_val (take n b)) r r1 \<and> length p1 = length p"
      using bn_mul_recursive [OF less.prems(1,2) _ _ _ _ _ _ _ _ r1] hx lt1 less.prems(7-10) by simp
    have lr1: "length r1 = length r" by (rule wroteD(1) [OF conjunct1 [OF hr]])
    have lp1: "4 * n \<le> length p1 + 32" "length p1 = length t1 - 4 * n" using hr hx lt1 less.prems(10) by simp_all
    let ?P = "words_val (take tna (drop n a)) * words_val (take tnb (drop n b))" and ?y = "drop ?n2 r1"
    have ly: "?n2 \<le> length ?y" "tna \<le> length (drop n a)" "tnb \<le> length (drop n b)" using lr1 less.prems(7-9) by simp_all
    have lx0: "length x0 = ?n2" using wroteD(1) [OF conjunct1 [OF hx]] l lt1 by simp
    have up: "\<exists>x p2. bn_mul_part_recursive r a b n tna tnb t = mul_combine neg n (take ?n2 r1 @ x) ((take ?n2 t1 @ x0) @ p2) \<and>
        wrote ?n2 ?P ?y x \<and> length p2 = length p1"
    proof -
      have n16: "\<not> n < 8" "n \<noteq> 8" using n i8 by simp_all
      have n4: "n * 2 * 2 = 4 * n" "n * 2 = 2 * n" by simp_all
      let ?j = "if tna > tnb then int tna - int i else int tnb - int i"
      note eq = bn_mul_part_recursive.simps [of r a b n tna tnb t, unfolded Let_def n4 d prod.case x0 r1 n(2), simplified n16 if_False]
      consider "?j = 0" | "?j > 0" | "?j < 0" "tna < 16" "tnb < 16" | "?j < 0" "\<not> (tna < 16 \<and> tnb < 16)" by linarith
      then show ?thesis
      proof cases
        case 1
        obtain x p2 where x: "bn_mul_recursive ?y (drop n a) (drop n b) i (int tna - int i) (int tnb - int i) p1 = (x, p2)" by fastforce
        have "bn_mul_part_recursive r a b n tna tnb t = mul_combine neg n (take ?n2 r1 @ at (i * 2) (memset0 (?n2 - i * 2)) x) ((take ?n2 t1 @ x0) @ p2)"
          unfolding eq using 1 x by (simp add: x0 r1)
        moreover have w: "wrote (2 * i) ?P ?y x \<and> length p2 = length p1"
          using 1 less.prems(5,6) ly lp1(1) n(1) by (intro upper_recursive [OF i_def k(2) _ _ _ _ _ _ _ _ x]) (auto split: if_splits)
        moreover have "wrote ?n2 ?P ?y (at (i * 2) (memset0 (?n2 - i * 2)) x)"
          using wrote_0 [of "2 * i" ?P ?y x "?n2 - i * 2"] w ly(1) n(1) by (simp add: mult.commute)
        ultimately show ?thesis by blast
      next
        case 2
        obtain x p2 where x: "bn_mul_part_recursive ?y (drop n a) (drop n b) i (tna - i) (tnb - i) p1 = (x, p2)" by fastforce
        have "bn_mul_part_recursive r a b n tna tnb t =
            mul_combine neg n (take ?n2 r1 @ at (tna + tnb) (memset0 (?n2 - tna - tnb)) x) ((take ?n2 t1 @ x0) @ p2)"
          unfolding eq using 2 x by (simp add: x0 r1)
        moreover have hi: "i \<le> tna" "i \<le> tnb" using 2 less.prems(5,6) by (auto split: if_splits)
        moreover have "wrote (4 * i) (words_val (take (i + (tna - i)) (drop n a)) * words_val (take (i + (tnb - i)) (drop n b))) ?y x \<and> length p2 = length p1"
          using hi k less.prems(3-6) ly lp1(1) n(1) i8 by (intro less.IH [OF _ i_def k(2) _ _ _ _ _ _ _ _ x]) auto
        then have w: "wrote ?n2 ?P ?y x \<and> length p2 = length p1" using hi n(1) by simp
        moreover have "wrote ?n2 ?P ?y (at (tna + tnb) (memset0 (?n2 - tna - tnb)) x)"
          using wrote_clear [OF conjunct1 [OF w] words_product_bound] less.prems(3,4) ly(1) by simp
        ultimately show ?thesis by blast
      next
        case 3
        let ?x = "bn_mul_normal (memset0 ?n2 ?y) (drop n a) tna (drop n b) tnb"
        have "bn_mul_part_recursive r a b n tna tnb t = mul_combine neg n (take ?n2 r1 @ ?x) ((take ?n2 t1 @ x0) @ p1)"
          unfolding eq using 3 ly(1) by (simp add: x0 r1 at_def BN_MUL_RECURSIVE_SIZE_NORMAL_def min_absorb2)
        moreover have "wrote (tna + tnb) ?P (memset0 ?n2 ?y) ?x" using ly less.prems(3,4) by (intro bn_mul_normal) (simp_all add: memset0_def)
        then have "wrote ?n2 ?P ?y ?x" by (rule wrote_over_0) (use less.prems(3,4) ly(1) in simp_all)
        ultimately show ?thesis by blast
      next
        case 4
        have "tna < i" "tnb < i" "0 < tna \<or> 0 < tnb" using 4 less.prems(5,6) by (auto split: if_splits)
        then obtain m where m: "halve_loop i tna tnb = 2 ^ m" "m < j" "tna < 2 * 2 ^ m" "tnb < 2 * 2 ^ m" "2 ^ m \<le> tna \<or> 2 ^ m \<le> tnb"
          using halve_loop [OF i_def] by blast
        define h where "h = (2 :: nat) ^ m"
        note m = m [folded h_def]
        have "8 < h" using 4 m(3,4) by linarith
        then have "2 ^ 3 < (2 :: nat) ^ m" by (simp add: h_def)
        then have m3: "3 \<le> m" by (simp only: power_strict_increasing_iff)
        have "(2 :: nat) ^ Suc m \<le> 2 ^ j" using m(2) by (intro power_increasing) simp_all
        then have hi: "2 * h \<le> i" by (simp add: h_def i_def)
        let ?z = "memset0 ?n2 ?y"
        have lz: "length ?z = length ?y" using ly(1) by (simp add: memset0_def)
        have "\<exists>x p2. bn_mul_part_recursive r a b n tna tnb t = mul_combine neg n (take ?n2 r1 @ x) ((take ?n2 t1 @ x0) @ p2) \<and>
          (\<exists>c\<le>?n2. wrote c ?P ?z x) \<and> length p2 = length p1"
        proof (cases "h < tna \<or> h < tnb")
          case True
          obtain x p2 where x: "bn_mul_part_recursive ?z (drop n a) (drop n b) h (tna - h) (tnb - h) p1 = (x, p2)" by fastforce
          have "bn_mul_part_recursive r a b n tna tnb t = mul_combine neg n (take ?n2 r1 @ x) ((take ?n2 t1 @ x0) @ p2)"
            unfolding eq m(1) BN_MUL_RECURSIVE_SIZE_NORMAL_def if_not_P [OF 4(2)] using 4(1) x True ly(1) by (simp add: x0 r1 at_def min_absorb2)
          moreover have ge: "h \<le> tna" "h \<le> tnb" using True less.prems(5,6) by auto
          moreover have "wrote (4 * h) (words_val (take (h + (tna - h)) (drop n a)) * words_val (take (h + (tnb - h)) (drop n b))) ?z x \<and> length p2 = length p1"
            using ge k m m3 less.prems(3-6) ly lz lp1(1) n(1) hi by (intro less.IH [OF _ h_def m3 _ _ _ _ _ _ _ _ x]) auto
          then have "wrote (4 * h) ?P ?z x \<and> length p2 = length p1" using ge by simp
          moreover have "4 * h \<le> ?n2" using hi n(1) by simp
          ultimately show ?thesis by blast
        next
          case False
          obtain x p2 where x: "bn_mul_recursive ?z (drop n a) (drop n b) h (int tna - int h) (int tnb - int h) p1 = (x, p2)" by fastforce
          have "bn_mul_part_recursive r a b n tna tnb t = mul_combine neg n (take ?n2 r1 @ x) ((take ?n2 t1 @ x0) @ p2)"
            unfolding eq m(1) BN_MUL_RECURSIVE_SIZE_NORMAL_def if_not_P [OF 4(2)] using 4(1) x False ly(1) by (simp add: x0 r1 at_def min_absorb2)
          moreover have "wrote (2 * h) ?P ?z x \<and> length p2 = length p1"
            using False m(5) less.prems(5,6) ly lz lp1(1) n(1) hi by (intro upper_recursive [OF h_def m3 _ _ _ _ _ _ _ _ x]) auto
          moreover have "2 * h \<le> ?n2" using hi n(1) by simp
          ultimately show ?thesis by blast
        qed
        then show ?thesis using wrote_over_0 [OF _ _ ly(1)] by meson
      qed
    qed
    then obtain x p2 where x: "mul_combine neg n (take ?n2 r1 @ x) ((take ?n2 t1 @ x0) @ p2) = (r', t')" "wrote ?n2 ?P ?y x" "length p2 = length p1"
      using less.prems(11) by auto
    have t2: "length ((take ?n2 t1 @ x0) @ p2) = length t1" "take ?n2 (drop ?n2 ((take ?n2 t1 @ x0) @ p2)) = take ?n2 x0"
      using lx0 x(3) lp1 l lt1 by simp_all
    have "words_val (take ?n2 (drop ?n2 ((take ?n2 t1 @ x0) @ p2))) = words_val (take n t1) * words_val (take n (drop n t1))"
      unfolding t2(2) by (rule wroteD(3) [OF conjunct1 [OF hx]])
    then show ?thesis
      by (rule part_end [OF d less_imp_le [OF less.prems(3)] less_imp_le [OF less.prems(4)] less.prems(7,8,9) l(1) conjunct1 [OF hr] x(2) t2(1) _ x(1)])
  qed
qed

subsection \<open>Big numbers\<close>

lemma words_val_low: "words_val (take n x) < 2 ^ (64 * m) \<Longrightarrow> m \<le> n \<Longrightarrow> n \<le> length x \<Longrightarrow> words_val (take m x) = words_val (take n x)"
proof -
  assume a: "words_val (take n x) < 2 ^ (64 * m)" "m \<le> n" "n \<le> length x"
  have v: "words_val (take n x) = words_val (take m x) + 2 ^ (64 * m) * words_val (take (n - m) (drop m x))" using words_val_split [of m n x] a by simp
  then have "2 ^ (64 * m) * words_val (take (n - m) (drop m x)) < 2 ^ (64 * m) * 1" using a(1) by linarith
  then show ?thesis using v by simp
qed

lemma BN_copy_fits:
  assumes "bn_fits a" "bn_fits b" "BN_copy alloc a b = Some c"
  shows "bn_fits c \<and> bn_nat c = bn_nat b \<and> bn_neg c = bn_neg b \<and> bn_flags c = bn_flags a"
proof -
  define n where "n = (if BN_get_flags b BN_FLG_CONSTTIME \<noteq> 0 then length (bn_d b) else bn_top b)"
  have n: "bn_top b \<le> n" "n \<le> length (bn_d b)" using assms(2) by (simp_all add: n_def bn_fits_def)
  obtain e where e: "bn_wexpand alloc a n = Some e"
      "c = (if bn_top b > 0 then e\<lparr>bn_d := take n (bn_d b) @ drop n (bn_d e)\<rparr> else e)\<lparr>bn_neg := bn_neg b, bn_top := bn_top b\<rparr>"
    using assms(3) by (auto simp: BN_copy_def n_def [symmetric])
  note x = bn_wexpand [OF assms(1) e(1)]
  show ?thesis
    using x n assms(2) unfolding e(2) by (cases "bn_top b = 0") (simp_all add: bn_fits_def bn_nat_def)
qed

text \<open>The power of two in a number of words.\<close>

lemma words_power:
  assumes "0 < n" "n < 2 ^ 64" "j = 2 ^ (BN_num_bits_word (word_of_nat n) - 1)"
  shows "j \<le> n \<and> n < 2 * j"
proof -
  have u: "unat (word_of_nat n :: u64) = n" using assms(2) by (simp add: unat_of_nat take_bit_nat_eq_self)
  have b: "BN_num_bits_word (word_of_nat n) = bit_len n" unfolding BN_num_bits_word u ..
  have "n < 2 ^ bit_len n" using bit_len_le [of n "bit_len n"] by simp
  moreover have p: "0 < bit_len n" using assms(1) by (simp add: neq0_conv [symmetric] del: neq0_conv)
  then have "2 ^ bit_len n = 2 * (2 :: nat) ^ (bit_len n - 1)" by (metis Suc_pred' power_Suc)
  moreover have "2 ^ (bit_len n - 1) \<le> n" using bit_len_le [of n "bit_len n - 1"] p by linarith
  ultimately show ?thesis unfolding assms(3) b by simp
qed

lemma product_fits:
  assumes "bn_fits rr" "wrote n (words_val (take al a) * words_val (take bl b)) (bn_d rr) d" "al + bl \<le> n" "n \<le> length (bn_d rr)"
  shows "bn_fits (rr\<lparr>bn_d := d, bn_top := al + bl\<rparr>)" "bn_nat (rr\<lparr>bn_d := d, bn_top := al + bl\<rparr>) = words_val (take al a) * words_val (take bl b)"
proof -
  have l: "length d = length (bn_d rr)" by (rule wroteD(1) [OF assms(2)])
  show "bn_fits (rr\<lparr>bn_d := d, bn_top := al + bl\<rparr>)" using assms(1,3,4) l by (simp add: bn_fits_def)
  show "bn_nat (rr\<lparr>bn_d := d, bn_top := al + bl\<rparr>) = words_val (take al a) * words_val (take bl b)"
    using words_val_low [of n d "al + bl"] words_product_bound [of al a bl b] wroteD(3) [OF assms(2)] assms(3,4) l by (simp add: bn_nat_def)
qed

text \<open>The product is the same whichever of the four ways is taken.\<close>

definition mul_into :: "bool \<Rightarrow> bignum list \<Rightarrow> bignum \<Rightarrow> bignum \<Rightarrow> bignum \<Rightarrow> bignum option" where
  "mul_into alloc ctx rr a b =
    (let al = bn_top a; bl = bn_top b; top = al + bl; i = int al - int bl
     in if i = 0 \<and> al = 8 then
          map_option (\<lambda>rr. rr\<lparr>bn_top := 16, bn_d := bn_mul_comba8 (bn_d rr) (bn_d a) (bn_d b)\<rparr>) (bn_wexpand alloc rr 16)
        else if al \<ge> BN_MULL_SIZE_NORMAL \<and> bl \<ge> BN_MULL_SIZE_NORMAL \<and> i \<ge> -1 \<and> i \<le> 1 then
          let j = 2 ^ (BN_num_bits_word (word_of_nat (if i \<ge> 0 then al else bl)) - 1); k = j + j
          in Option.bind (BN_CTX_get ctx) (\<lambda>(t, ctx).
               if al > j \<or> bl > j then
                 Option.bind (bn_wexpand alloc t (k * 4)) (\<lambda>t.
                 map_option (\<lambda>rr. rr\<lparr>bn_d := fst (bn_mul_part_recursive (bn_d rr) (bn_d a) (bn_d b) j (al - j) (bl - j) (bn_d t)), bn_top := top\<rparr>)
                   (bn_wexpand alloc rr (k * 4)))
               else
                 Option.bind (bn_wexpand alloc t (k * 2)) (\<lambda>t.
                 map_option (\<lambda>rr. rr\<lparr>bn_d := fst (bn_mul_recursive (bn_d rr) (bn_d a) (bn_d b) j (int al - int j) (int bl - int j) (bn_d t)), bn_top := top\<rparr>)
                   (bn_wexpand alloc rr (k * 2))))
        else map_option (\<lambda>rr. rr\<lparr>bn_top := top, bn_d := bn_mul_normal (bn_d rr) (bn_d a) al (bn_d b) bl\<rparr>) (bn_wexpand alloc rr top))"

lemma bn_mul_fixed_top_into:
  "bn_mul_fixed_top alloc alias ctx r a b =
    (if bn_top a = 0 \<or> bn_top b = 0 then Some (BN_zero_ex r)
     else Option.bind (if alias then BN_CTX_get ctx else Some (r, ctx)) (\<lambda>(rr, ctx).
          Option.bind (mul_into alloc ctx rr a b)
            (\<lambda>rr. let rr = rr\<lparr>bn_neg := (bn_neg a \<noteq> bn_neg b)\<rparr> in if alias then BN_copy alloc r rr else Some rr)))"
  unfolding bn_mul_fixed_top_def mul_into_def Let_def by (rule refl)

lemma mul_into:
  assumes "bn_fits a" "bn_fits b" "bn_fits rr" "\<forall>x\<in>set ctx. bn_fits x" "mul_into alloc ctx rr a b = Some c"
  shows "bn_fits c \<and> bn_nat c = bn_nat a * bn_nat b \<and> bn_flags c = bn_flags rr"
proof -
  let ?al = "bn_top a" and ?bl = "bn_top b"
  have l: "?al \<le> length (bn_d a)" "?bl \<le> length (bn_d b)" "?al \<le> 8388607" "?bl \<le> 8388607"
    using assms(1,2) bn_fits_size [OF assms(1)] bn_fits_size [OF assms(2)] by (auto simp: bn_fits_def)
  have fin: "bn_fits c \<and> bn_nat c = bn_nat a * bn_nat b \<and> bn_flags c = bn_flags rr"
    if e: "bn_wexpand alloc rr n = Some r1" and c: "c = r1\<lparr>bn_d := d, bn_top := ?al + ?bl\<rparr>" and n: "?al + ?bl \<le> n"
      and w: "wrote m (words_val (take ?al (bn_d a)) * words_val (take ?bl (bn_d b))) (bn_d r1) d" "?al + ?bl \<le> m" "m \<le> n" for n m r1 d
  proof -
    note x = bn_wexpand [OF assms(3) e]
    have "m \<le> length (bn_d r1)" using w(3) x(2) by simp
    then show ?thesis using product_fits [OF x(1) w(1,2)] x(5) unfolding c by (simp add: bn_nat_def)
  qed
  let ?M = "if int ?al - int ?bl \<ge> 0 then ?al else ?bl"
  define j where "j = (2 :: nat) ^ (BN_num_bits_word (word_of_nat ?M) - 1)"
  consider "?al = 8" "?bl = 8" | "\<not> (?al = 8 \<and> ?bl = 8)" "16 \<le> ?al \<and> 16 \<le> ?bl \<and> -1 \<le> int ?al - int ?bl \<and> int ?al - int ?bl \<le> 1"
    | "\<not> (?al = 8 \<and> ?bl = 8)" "\<not> (16 \<le> ?al \<and> 16 \<le> ?bl \<and> -1 \<le> int ?al - int ?bl \<and> int ?al - int ?bl \<le> 1)" by linarith
  then show ?thesis
  proof cases
    case 1
    then obtain r1 where r1: "bn_wexpand alloc rr 16 = Some r1" "c = r1\<lparr>bn_d := bn_mul_comba8 (bn_d r1) (bn_d a) (bn_d b), bn_top := ?al + ?bl\<rparr>"
      using assms(5) by (auto simp: mul_into_def Let_def)
    show ?thesis using bn_wexpand(2) [OF assms(3) r1(1)] 1 l by (intro fin [OF r1 _ _ _ order_refl]) (simp_all add: comba_wrote)
  next
    case 2
    have "j \<le> ?M \<and> ?M < 2 * j" using 2 l by (intro words_power) (simp_all add: j_def)
    then have j: "?al < 2 * j" "?bl < 2 * j" "j \<le> ?al + 1" "j \<le> ?bl + 1" "\<not> (j = ?al + 1 \<and> j = ?bl + 1)" "(j \<le> ?al \<or> j \<le> ?bl)"
      using 2 by (auto split: if_splits)
    define k where "k = BN_num_bits_word (word_of_nat ?M :: u64) - 1"
    have jk: "j = 2 ^ k" by (simp add: j_def k_def)
    have "8 < j" using j 2 by linarith
    then have "2 ^ 3 < (2 :: nat) ^ k" by (simp add: jk)
    then have k3: "3 \<le> k" by (simp only: power_strict_increasing_iff)
    have i: "\<not> (int ?al - int ?bl = 0 \<and> ?al = 8)" using 2 by linarith
    obtain t ctx' where t: "BN_CTX_get ctx = Some (t, ctx')" "bn_fits t"
      using assms(4,5) 2 i by (cases ctx) (auto simp: mul_into_def Let_def BN_MULL_SIZE_NORMAL_def)
    have j8: "(j + j) * 4 = 8 * j" "(j + j) * 2 = 4 * j" by simp_all
    note u = assms(5) [unfolded mul_into_def Let_def BN_MULL_SIZE_NORMAL_def if_not_P [OF i] if_P [OF 2(2)] t(1) bind.simps prod.case, folded j_def, unfolded j8]
    show ?thesis
    proof (cases "?al > j \<or> ?bl > j")
      case True
      then obtain t1 r1 where e: "bn_wexpand alloc t (8 * j) = Some t1" "bn_wexpand alloc rr (8 * j) = Some r1"
          "c = r1\<lparr>bn_d := fst (bn_mul_part_recursive (bn_d r1) (bn_d a) (bn_d b) j (?al - j) (?bl - j) (bn_d t1)), bn_top := ?al + ?bl\<rparr>"
        using u by (auto simp: bind_eq_Some_conv split: if_splits)
      have ge: "j \<le> ?al" "j \<le> ?bl" using True j 2 by linarith+
      have wl: "8 * j \<le> length (bn_d t1)" "8 * j \<le> length (bn_d r1)" using bn_wexpand(2) [OF t(2) e(1)] bn_wexpand(2) [OF assms(3) e(2)] by simp_all
      have "wrote (4 * j) (words_val (take (j + (?al - j)) (bn_d a)) * words_val (take (j + (?bl - j)) (bn_d b))) (bn_d r1)
          (fst (bn_mul_part_recursive (bn_d r1) (bn_d a) (bn_d b) j (?al - j) (?bl - j) (bn_d t1)))"
        by (intro conjunct1 [OF bn_mul_part_recursive [OF jk k3 _ _ _ _ _ _ _ _ prod.collapse [symmetric]]])
          (use j(1,2) conjunct2 [OF conjunct2 [OF 2(2)]] l ge wl \<open>8 < j\<close> in linarith)+
      then have "wrote (4 * j) (words_val (take ?al (bn_d a)) * words_val (take ?bl (bn_d b))) (bn_d r1)
          (fst (bn_mul_part_recursive (bn_d r1) (bn_d a) (bn_d b) j (?al - j) (?bl - j) (bn_d t1)))" using ge by simp
      then show ?thesis by (rule fin [OF e(2,3), rotated]) (use j(1,2) \<open>8 < j\<close> in linarith)+
    next
      case False
      then obtain t1 r1 where e: "bn_wexpand alloc t (4 * j) = Some t1" "bn_wexpand alloc rr (4 * j) = Some r1"
          "c = r1\<lparr>bn_d := fst (bn_mul_recursive (bn_d r1) (bn_d a) (bn_d b) j (int ?al - int j) (int ?bl - int j) (bn_d t1)), bn_top := ?al + ?bl\<rparr>"
        using u by (auto simp: bind_eq_Some_conv split: if_splits)
      have wl: "4 * j \<le> length (bn_d t1)" "4 * j \<le> length (bn_d r1)" using bn_wexpand(2) [OF t(2) e(1)] bn_wexpand(2) [OF assms(3) e(2)] by simp_all
      have "wrote (2 * j) (words_val (take (nat (int j + (int ?al - int j))) (bn_d a)) * words_val (take (nat (int j + (int ?bl - int j))) (bn_d b))) (bn_d r1)
          (fst (bn_mul_recursive (bn_d r1) (bn_d a) (bn_d b) j (int ?al - int j) (int ?bl - int j) (bn_d t1)))"
        by (intro conjunct1 [OF bn_mul_recursive [OF jk k3 _ _ _ _ _ _ _ _ prod.collapse [symmetric]]])
          (use j(3,4) l False wl \<open>8 < j\<close> in linarith)+
      then have "wrote (2 * j) (words_val (take ?al (bn_d a)) * words_val (take ?bl (bn_d b))) (bn_d r1)
          (fst (bn_mul_recursive (bn_d r1) (bn_d a) (bn_d b) j (int ?al - int j) (int ?bl - int j) (bn_d t1)))" by simp
      then show ?thesis by (rule fin [OF e(2,3), rotated]) (use False \<open>8 < j\<close> in linarith)+
    qed
  next
    case 3
    have i: "\<not> (int ?al - int ?bl = 0 \<and> ?al = 8)" using 3 by linarith
    note u = assms(5) [unfolded mul_into_def Let_def BN_MULL_SIZE_NORMAL_def if_not_P [OF i] if_not_P [OF 3(2)]]
    then obtain r1 where r1: "bn_wexpand alloc rr (?al + ?bl) = Some r1"
        "c = r1\<lparr>bn_d := bn_mul_normal (bn_d r1) (bn_d a) ?al (bn_d b) ?bl, bn_top := ?al + ?bl\<rparr>"
      by auto
    show ?thesis using bn_wexpand(2) [OF assms(3) r1(1)] l by (intro fin [OF r1 _ bn_mul_normal]) simp_all
  qed
qed

lemma ctx_get: "BN_CTX_get ctx = Some (x, ctx') \<Longrightarrow> \<forall>y\<in>set ctx. bn_fits y \<Longrightarrow> bn_fits x \<and> (\<forall>y\<in>set ctx'. bn_fits y)"
  by (cases ctx) auto

lemma bn_mul_fixed_top:
  assumes "bn_fits a" "bn_fits b" "bn_fits r" "\<forall>x\<in>set ctx. bn_fits x" "bn_mul_fixed_top alloc alias ctx r a b = Some c"
  shows "bn_fits c \<and> bn_nat c = bn_nat a * bn_nat b \<and> bn_flags c = bn_flags r \<and> (bn_nat c \<noteq> 0 \<longrightarrow> bn_neg c = (bn_neg a \<noteq> bn_neg b)) \<and>
    (bn_neg c \<longrightarrow> bn_neg a \<noteq> bn_neg b)"
proof (cases "bn_top a = 0 \<or> bn_top b = 0")
  case True
  then have "c = BN_zero_ex r" "bn_nat a * bn_nat b = 0" using assms(5) by (auto simp: bn_mul_fixed_top_into bn_nat_def)
  then show ?thesis using BN_zero_ex [OF assms(3)] assms(3) by (simp add: BN_zero_ex_def bn_fits_def)
next
  case False
  then obtain rr ctx' where rr: "(if alias then BN_CTX_get ctx else Some (r, ctx)) = Some (rr, ctx')"
    using assms(5) by (auto simp: bn_mul_fixed_top_into bind_eq_Some_conv)
  have f: "bn_fits rr" "\<forall>x\<in>set ctx'. bn_fits x" using rr assms(3,4) ctx_get [of ctx rr ctx'] by (auto split: if_splits)
  define ne where "ne = (bn_neg a \<noteq> bn_neg b)"
  note u = assms(5) [unfolded bn_mul_fixed_top_into Let_def if_not_P [OF False] rr bind.simps prod.case, folded ne_def]
  then obtain e where e: "mul_into alloc ctx' rr a b = Some e"
      "(if alias then BN_copy alloc r (e\<lparr>bn_neg := ne\<rparr>) else Some (e\<lparr>bn_neg := ne\<rparr>)) = Some c" by (auto simp: bind_eq_Some_conv)
  note m = mul_into [OF assms(1,2) f e(1)]
  let ?e = "e\<lparr>bn_neg := ne\<rparr>"
  have fe: "bn_fits ?e" "bn_nat ?e = bn_nat a * bn_nat b" using m by (simp_all add: bn_fits_def bn_nat_def)
  show ?thesis
  proof (cases "alias")
    case True
    then show ?thesis using BN_copy_fits [OF assms(3) fe(1)] e(2) fe(2) unfolding ne_def [symmetric] by simp
  next
    case False
    then have "c = ?e" "rr = r" using e(2) rr by auto
    then show ?thesis using fe m unfolding ne_def [symmetric] by simp
  qed
qed

lemma BN_mul:
  assumes "bn_fits a" "bn_fits b" "bn_fits r" "\<forall>x\<in>set ctx. bn_fits x" "BN_mul alloc alias ctx r a b = Some c"
  shows "bn_wf c \<and> bn_nat c = bn_nat a * bn_nat b \<and> bn_val c = bn_val a * bn_val b \<and> bn_flags c = bn_flags r"
proof -
  obtain d where d: "bn_mul_fixed_top alloc alias ctx r a b = Some d" "c = bn_correct_top d" using assms(5) by (auto simp: BN_mul_def)
  note m = bn_mul_fixed_top [OF assms(1-4) d(1)]
  have fd: "bn_fits d" using m by blast
  note t = bn_correct_top [OF fd, folded d(2)] bn_neg_correct_top [OF fd, folded d(2)]
  have "bn_neg c \<longleftrightarrow> (bn_neg a \<noteq> bn_neg b) \<and> bn_nat a * bn_nat b \<noteq> 0" using t m by auto
  then have "bn_val c = bn_val a * bn_val b" using t(2) m by (cases "bn_nat a * bn_nat b = 0") (auto simp: bn_val_def)
  then show ?thesis using t m by simp
qed

text \<open>Nothing fails where there is memory, no array is static and the arrays that are asked for are below the bound of
  \<^verbatim>\<open>bn_expand_internal\<close>.\<close>

lemma mul_into_total:
  assumes "bn_fits rr" "\<forall>x\<in>set ctx. bn_fits x" "\<forall>x\<in>set (rr # ctx). BN_get_flags x BN_FLG_STATIC_DATA = 0" "1 \<le> length ctx"
    "bn_fits a" "bn_fits b" "8 * (bn_top a + bn_top b) \<le> INT_MAX div (4 * BN_BITS2)"
  shows "mul_into True ctx rr a b \<noteq> None"
proof -
  obtain t ctx' where c: "ctx = t # ctx'" using assms(4) by (cases ctx) auto
  have ok: "\<exists>y. bn_wexpand True x n = Some y" if "x \<in> {rr, t}" "n \<le> 8 * (bn_top a + bn_top b)" for x n
    using that assms(1-3,7) bn_wexpand_None [of x True n] unfolding c by (cases "bn_wexpand True x n") auto
  define M where "M = (if int (bn_top a) - int (bn_top b) \<ge> 0 then bn_top a else bn_top b)"
  define j where "j = (2 :: nat) ^ (BN_num_bits_word (word_of_nat M) - 1)"
  have "j \<le> M" if "16 \<le> bn_top a" "16 \<le> bn_top b"
    using words_power [of M] that bn_fits_size [OF assms(5)] bn_fits_size [OF assms(6)] by (simp add: j_def M_def)
  then have j: "8 * j \<le> 8 * (bn_top a + bn_top b)" if "16 \<le> bn_top a" "16 \<le> bn_top b" using that by (auto simp: M_def split: if_splits)
  have j8: "(j + j) * 4 = 8 * j" "(j + j) * 2 = 4 * j" by simp_all
  show ?thesis
  proof (cases "int (bn_top a) - int (bn_top b) = 0 \<and> bn_top a = 8")
    case True
    then show ?thesis using ok [of rr 16] unfolding mul_into_def Let_def if_P [OF True] by auto
  next
    case n8: False
    show ?thesis
    proof (cases "bn_top a \<ge> 16 \<and> bn_top b \<ge> 16 \<and> int (bn_top a) - int (bn_top b) \<ge> -1 \<and> int (bn_top a) - int (bn_top b) \<le> 1")
      case True
      obtain t8 r8 t4 r4 where "bn_wexpand True t (8 * j) = Some t8" "bn_wexpand True rr (8 * j) = Some r8"
        "bn_wexpand True t (4 * j) = Some t4" "bn_wexpand True rr (4 * j) = Some r4"
        using ok [of t "8 * j"] ok [of rr "8 * j"] ok [of t "4 * j"] ok [of rr "4 * j"] j True by fastforce
      then show ?thesis
        unfolding mul_into_def Let_def BN_MULL_SIZE_NORMAL_def if_not_P [OF n8] if_P [OF True] c BN_CTX_get.simps bind.simps prod.case M_def [symmetric] j_def [symmetric] j8
        by simp
    next
      case False
      then show ?thesis using ok [of rr "bn_top a + bn_top b"]
        unfolding mul_into_def Let_def BN_MULL_SIZE_NORMAL_def if_not_P [OF n8] if_not_P [OF False] by auto
    qed
  qed
qed

lemma BN_mul_total:
  assumes "bn_fits a" "bn_fits b" "bn_fits r" "\<forall>x\<in>set ctx. bn_fits x" "\<forall>x\<in>set (r # ctx). BN_get_flags x BN_FLG_STATIC_DATA = 0"
    "2 \<le> length ctx" "8 * (bn_top a + bn_top b) \<le> INT_MAX div (4 * BN_BITS2)"
  shows "BN_mul True alias ctx r a b \<noteq> None"
proof (cases "bn_top a = 0 \<or> bn_top b = 0")
  case True
  then show ?thesis by (auto simp: BN_mul_def bn_mul_fixed_top_into)
next
  case False
  obtain rr ctx' where rr: "(if alias then BN_CTX_get ctx else Some (r, ctx)) = Some (rr, ctx')" "rr \<in> set (r # ctx)" "set ctx' \<subseteq> set ctx"
      "1 \<le> length ctx'"
    using assms(6) by (cases "alias"; cases ctx) auto
  obtain e where e: "mul_into True ctx' rr a b = Some e"
    using mul_into_total [of rr ctx' a b] rr(2-4) assms by (cases "mul_into True ctx' rr a b") auto
  have "bn_fits e" using mul_into [OF assms(1,2) _ _ e] rr(2,3) assms(3,4) by auto
  then have f: "bn_fits (e\<lparr>bn_neg := v\<rparr>)" for v by (simp add: bn_fits_def)
  have "BN_copy True r (e\<lparr>bn_neg := v\<rparr>) \<noteq> None" for v
    using f [of v] assms(3,5) by (auto simp: BN_copy_def bn_wexpand_None bn_fits_def Let_def)
  then show ?thesis
    unfolding BN_mul_def bn_mul_fixed_top_into if_not_P [OF False] rr(1) bind.simps prod.case e Let_def by (cases "alias") auto
qed

text \<open>C29: The product of two big numbers is the product of the integers, in normal form, whichever of the four ways it is
  computed, with or without a separate result; it fails only for want of memory or of numbers in the context, for an array
  that must not grow, or for operands of millions of bits.\<close>

theorem bn_mul_product:
  assumes "bn_wf a" "bn_wf b" "bn_fits r" "\<forall>x\<in>set ctx. bn_fits x"
  shows "case BN_mul alloc alias ctx r a b of
       None \<Rightarrow> \<not> (alloc \<and> 2 \<le> length ctx \<and> (\<forall>x\<in>set (r # ctx). BN_get_flags x BN_FLG_STATIC_DATA = 0) \<and>
         8 * (bn_top a + bn_top b) \<le> INT_MAX div (4 * BN_BITS2))
     | Some c \<Rightarrow> bn_wf c \<and> bn_val c = bn_val a * bn_val b \<and> bn_flags c = bn_flags r"
proof (cases "BN_mul alloc alias ctx r a b")
  case None
  have "bn_fits a" "bn_fits b" using assms(1,2) by (auto simp: bn_wf_def)
  then show ?thesis using BN_mul_total [of a b r ctx "alias"] None assms(3,4) by auto
next
  case (Some c)
  have "bn_fits a" "bn_fits b" using assms(1,2) by (auto simp: bn_wf_def)
  then show ?thesis using BN_mul [OF _ _ assms(3,4) Some] Some by auto
qed

theorem bn_mul_product_witness:
  "case BN_mul True False [bn_init, bn_init] bn_init BN_value_one BN_value_one of
     None \<Rightarrow> False
   | Some c \<Rightarrow> bn_wf c \<and> bn_val c = 1 \<and> bn_flags c = bn_flags bn_init"
proof -
  have f: "bn_fits bn_init" "BN_get_flags bn_init BN_FLG_STATIC_DATA = 0" by (simp_all add: bn_fits_def bn_init_def BN_get_flags_def)
  have o: "bn_val BN_value_one = 1" "bn_top BN_value_one = 1" by (simp_all add: BN_value_one_def bn_val_def bn_nat_def)
  show ?thesis using bn_mul_product [OF one_wf one_wf f(1), of "[bn_init, bn_init]" True False] f
    by (cases "BN_mul True False [bn_init, bn_init] bn_init BN_value_one BN_value_one") (simp_all add: o INT_MAX_def BN_BITS2_def)
qed

end
