(* ===== verification/BnSqr.thy ===== *)
theory BnSqr
  imports BnMulPart
begin

text \<open>
  Squares, \<^verbatim>\<open>bn_sqr.c\<close>: the square row by row (the products of different words, doubled, and the squares of the words) and
  by recursion are the square of the number, and \<open>BN_sqr\<close> is the square of the integers.
\<close>

subsection \<open>Row by row\<close>

text \<open>The products of different words; \<open>cross\<close> starts at the place of the product of the first two.\<close>

fun cross :: "u64 list \<Rightarrow> nat" where
  "cross [] = 0"
| "cross (w # ws) = unat w * words_val ws + 2 ^ 128 * cross ws"

lemma square_cross: "words_val ws * words_val ws = squares_val ws + 2 * (2 ^ 64 * cross ws)"
proof (induction ws)
  case (Cons w ws)
  have sq: "(x + X * v) * (x + X * v) = x * x + X * X * (v * v) + 2 * (X * (x * v))" for x X v :: nat by algebra
  have "(2 :: nat) ^ 64 * 2 ^ 64 = 2 ^ 128" by simp
  then show ?case by (simp only: words_val.simps squares_val.simps cross.simps sq Cons.IH) (simp add: distrib_left)
qed simp

lemma no_carry: "x + P * c = y \<Longrightarrow> y < P \<Longrightarrow> c = 0" for c :: nat
  by (cases c) simp_all

lemma put_carry:
  assumes "j < length x" "length y = length x" "drop j y = drop j x"
  shows "length (y[j := c]) = length x" "drop (Suc j) (y[j := c]) = drop (Suc j) x"
    "words_val (take (Suc j) (y[j := c])) = words_val (take j y) + 2 ^ (64 * j) * unat c"
proof -
  have "drop (Suc j) (y[j := c]) = drop 1 (drop j y)" by simp
  then show "drop (Suc j) (y[j := c]) = drop (Suc j) x" unfolding assms(3) by simp
qed (use assms words_val_put [of j y c] in simp_all)

lemma take_2_rest:
  assumes "2 \<le> n" "2 \<le> length x" "drop n x = drop n r" "length x = length r" "drop m y = drop m (drop 2 x)" "length y = length x - 2" "n \<le> m + 2"
  shows "length (take 2 x @ y) = length r" "drop (m + 2) (take 2 x @ y) = drop (m + 2) r"
    "words_val (take (m + 2) (take 2 x @ y)) = words_val (take 2 x) + 2 ^ 128 * words_val (take m y)"
proof -
  have "drop (m + 2) (take 2 x @ y) = drop m y" using assms(2,6) by simp
  also have "\<dots> = drop (m + 2 - n) (drop n x)" using assms(5,7) by simp
  also have "\<dots> = drop (m + 2) r" unfolding assms(3) using assms(7) by simp
  finally show "drop (m + 2) (take 2 x @ y) = drop (m + 2) r" .
qed (use assms in \<open>simp_all add: words_val_append numeral_2_eq_2\<close>)

lemma sqr_rows:
  "Suc i \<le> length a \<Longrightarrow> 2 * i \<le> length rp \<Longrightarrow>
   wrote (2 * i) (words_val (take i rp) + cross (take (Suc i) a)) rp (sqr_rows a (Suc i) i rp)"
proof (induction i arbitrary: a rp)
  case 0
  then show ?case by (cases a) (simp_all add: wrote_def)
next
  case (Suc i)
  obtain a0 as where a: "a = a0 # as" "Suc i \<le> length as" using Suc.prems(1) by (cases a) auto
  obtain x c where m: "bn_mul_add_words rp as (Suc i) a0 = (x, c)" by fastforce
  have l: "Suc i \<le> length rp" "Suc i < length rp" using Suc.prems(2) by simp_all
  note w = bn_mul_add_words [OF l(1) a(2) m]
  let ?x = "x[Suc i := c]"
  note p = put_carry [OF l(2) w(1,2), of c]
  have row: "words_val (take (Suc (Suc i)) ?x) = words_val (take (Suc i) rp) + words_val (take (Suc i) as) * unat a0"
    using p(3) w(3) by simp
  have s: "words_val (take (Suc (Suc i)) ?x) = words_val (take 2 ?x) + 2 ^ 128 * words_val (take i (drop 2 ?x))"
    using words_val_split [of 2 "Suc (Suc i)" ?x] p(1) l by simp
  have ih: "wrote (2 * i) (words_val (take i (drop 2 ?x)) + cross (take (Suc i) as)) (drop 2 ?x) (sqr_rows as (Suc i) i (drop 2 ?x))"
    using Suc.prems(2) p(1) by (intro Suc.IH a(2)) simp
  have rows: "sqr_rows a (Suc (Suc i)) (Suc i) rp = take 2 ?x @ sqr_rows as (Suc i) i (drop 2 ?x)" by (simp add: a(1) m Let_def)
  have t: "2 \<le> Suc (Suc i)" "2 \<le> length ?x" "Suc (Suc i) \<le> 2 * i + 2" using p(1) l by simp_all
  note r = take_2_rest [OF t(1,2) p(2,1) wroteD(2) [OF ih] _ t(3)]
  have "length (sqr_rows as (Suc i) i (drop 2 ?x)) = length ?x - 2" using wroteD(1) [OF ih] by simp
  note r = r [OF this]
  have "words_val (take (2 * i + 2) (take 2 ?x @ sqr_rows as (Suc i) i (drop 2 ?x))) =
      words_val (take (Suc i) rp) + cross (take (Suc (Suc i)) a)"
    using r(3) wroteD(3) [OF ih] row s by (simp add: a(1) distrib_left mult.commute)
  then show ?case using r(1,2) unfolding rows by (simp add: wrote_def)
qed

lemma bn_sqr_normal:
  assumes "0 < n" "n \<le> length a" "2 * n \<le> length r" "2 * n \<le> length tmp" "bn_sqr_normal r a n tmp = (r', tmp')"
  shows "wrote (2 * n) (words_val (take n a) * words_val (take n a)) r r' \<and> length tmp' = length tmp"
proof -
  define r0 where "r0 = (r[0 := 0])[n * 2 - 1 := (0 :: u64)]"
  define rp where "rp = (if n - 1 > 0 then
                 let (x, c) = bn_mul_words (drop 1 r0) (drop 1 a) (n - 1) (a ! 0); x = x[n - 1 := c]
                 in take 2 x @ sqr_rows (drop 1 a) (n - 1) (n - 2) (drop 2 x)
               else drop 1 r0)"
  obtain a0 as where a: "a = a0 # as" "n - 1 \<le> length as" using assms(1,2) by (cases a) auto
  have l: "2 * n - 1 < length r" "0 < length r" using assms(1,3) by linarith+
  have r0: "length r0 = length r" "drop (2 * n) r0 = drop (2 * n) r" "r0 ! (2 * n - 1) = 0" "take 1 r0 = [0]"
  proof -
    show "drop (2 * n) r0 = drop (2 * n) r" using assms(1) by (simp add: r0_def drop_update_cancel mult.commute)
    obtain w ws where r: "r = w # ws" using l(2) by (cases r) auto
    show "take 1 r0 = [0]" using assms(1) by (cases "n * 2 - 1") (simp_all add: r0_def r)
  qed (use l in \<open>simp_all add: r0_def mult.commute\<close>)
  have rp: "wrote (2 * (n - 1)) (cross (take n a)) (drop 1 r0) rp"
  proof (cases "n - 1")
    case 0
    then show ?thesis using assms(1) by (cases n) (simp_all add: rp_def a wrote_def)
  next
    case (Suc i)
    then have n: "n = Suc (Suc i)" by simp
    obtain x c where m: "bn_mul_words (drop 1 r0) as (Suc i) a0 = (x, c)" by fastforce
    have l: "Suc i \<le> length (drop 1 r0)" "Suc i < length (drop 1 r0)" "Suc i \<le> length as" using assms(3) r0(1) a(2) n by simp_all
    note w = bn_mul_words [OF l(1,3) m]
    let ?x = "x[Suc i := c]"
    note p = put_carry [OF l(2) w(1,2), of c]
    have s: "words_val (take (Suc (Suc i)) ?x) = words_val (take 2 ?x) + 2 ^ 128 * words_val (take i (drop 2 ?x))"
      using words_val_split [of 2 "Suc (Suc i)" ?x] p(1) l by simp
    have h: "wrote (2 * i) (words_val (take i (drop 2 ?x)) + cross (take (Suc i) as)) (drop 2 ?x) (sqr_rows as (Suc i) i (drop 2 ?x))"
      using assms(3) p(1) l(3) n r0(1) by (intro sqr_rows) simp_all
    have t: "2 \<le> Suc (Suc i)" "2 \<le> length ?x" "Suc (Suc i) \<le> 2 * i + 2" "length (sqr_rows as (Suc i) i (drop 2 ?x)) = length ?x - 2"
      using p(1) l wroteD(1) [OF h] by simp_all
    note q = take_2_rest [OF t(1,2) p(2,1) wroteD(2) [OF h] t(4,3)]
    have "rp = take 2 ?x @ sqr_rows as (Suc i) i (drop 2 ?x)" using m by (simp add: rp_def n a(1) Let_def)
    then show ?thesis using q wroteD(3) [OF h] p(3) w(3) s by (simp add: wrote_def n a(1) distrib_left mult.commute)
  qed
  define r1 where "r1 = take 1 r0 @ rp"
  have r1: "length r1 = length r" "drop (2 * n) r1 = drop (2 * n) r" "words_val (take (2 * n) r1) = 2 ^ 64 * cross (take n a)"
  proof -
    have n1: "2 * n = Suc (Suc (2 * (n - 1)))" using assms(1) by simp
    have lp: "length rp = length r - 1" using wroteD(1) [OF rp] r0(1) by simp
    show "length r1 = length r" using lp r0(4) assms(1,3) by (simp add: r1_def)
    have d: "drop (2 * (n - 1)) rp = drop (2 * n - 1) r0" using wroteD(2) [OF rp] n1 by simp
    then have "drop 1 (drop (2 * (n - 1)) rp) = drop (2 * n) r0" using n1 by simp
    then show "drop (2 * n) r1 = drop (2 * n) r" using r0(2,4) by (subst n1) (simp add: r1_def)
    have "rp ! (2 * (n - 1)) = drop (2 * (n - 1)) rp ! 0" using lp assms(1,3) by simp
    then have "rp ! (2 * (n - 1)) = 0" unfolding d using r0(1,3) assms(1,3) by simp
    moreover have "2 * (n - 1) < length rp" using lp assms(1,3) by simp
    ultimately have "words_val (take (Suc (2 * (n - 1))) rp) = cross (take n a)" using wroteD(3) [OF rp] by (simp add: words_val_take_Suc)
    then show "words_val (take (2 * n) r1) = 2 ^ 64 * cross (take n a)" using r0(4) by (subst n1) (simp add: r1_def)
  qed
  obtain r2 c2 where e2: "bn_add_words r1 r1 r1 (n * 2) = (r2, c2)" by fastforce
  define tm where "tm = bn_sqr_words tmp a n"
  obtain r3 c3 where e3: "bn_add_words r2 r2 tm (n * 2) = (r3, c3)" by fastforce
  have rr: "r' = r3" "tmp' = tm"
    using assms(5) unfolding bn_sqr_normal_def Let_def r0_def [symmetric] rp_def [unfolded Let_def, symmetric] r1_def [symmetric] tm_def [symmetric] e2 prod.case e3
    by simp_all
  have l: "n * 2 \<le> length r1" "n * 2 \<le> length tm" "length tm = length tmp" "words_val (take (2 * n) tm) = squares_val (take n a)"
    using r1(1) assms bn_sqr_words [of n tmp a] by (simp_all add: tm_def)
  note w2 = bn_add_words [OF l(1) l(1) l(1) e2]
  have l2: "n * 2 \<le> length r2" using w2(1) l(1) by simp
  note w3 = bn_add_words [OF l2 l2 l(2) e3]
  have sq: "squares_val (take n a) + 2 * (2 ^ 64 * cross (take n a)) < 2 ^ (64 * (n * 2))"
    using words_product_less [of n n n a a] square_cross [of "take n a"] by (simp add: mult.commute)
  have "words_val (take (n * 2) r2) + 2 ^ (64 * (n * 2)) * unat c2 = 2 * (2 ^ 64 * cross (take n a))" using w2(4) r1(3) by (simp add: mult.commute)
  then have c2: "unat c2 = 0" by (rule no_carry) (use sq in linarith)
  have v2: "words_val (take (n * 2) r2) = 2 * (2 ^ 64 * cross (take n a))" using w2(4) r1(3) c2 by (simp add: mult.commute)
  have "words_val (take (n * 2) r3) + 2 ^ (64 * (n * 2)) * unat c3 = squares_val (take n a) + 2 * (2 ^ 64 * cross (take n a))"
    using w3(4) v2 l(4) by (simp add: mult.commute)
  then have "unat c3 = 0" using sq by (rule no_carry)
  then have "words_val (take (n * 2) r3) = words_val (take n a) * words_val (take n a)"
    using w3(4) v2 l(4) square_cross [of "take n a"] by (simp add: mult.commute)
  then show ?thesis using w3(1,2) w2(1,2) r1(1,2) l(3) unfolding rr wrote_def by (simp add: mult.commute)
qed

subsection \<open>By recursion\<close>

lemma sqr_diff:
  fixes a t :: "u64 list" and n :: nat
  defines "c1 \<equiv> bn_cmp_words a (drop n a) n"
  defines "t1 \<equiv> (if c1 > 0 then fst (bn_sub_words t a (drop n a) n) else if c1 < 0 then fst (bn_sub_words t (drop n a) a n) else t)"
  assumes "2 * n \<le> length a" "n \<le> length t"
  shows "length t1 = length t \<and> drop n t1 = drop n t" "c1 = 0 \<longleftrightarrow> words_val (take n a) = words_val (take n (drop n a))"
    "c1 \<noteq> 0 \<Longrightarrow> int (words_val (take n t1)) = \<bar>int (words_val (take n a)) - int (words_val (take n (drop n a)))\<bar>"
proof -
  have l: "n \<le> length a" "n \<le> length (drop n a)" using assms(3) by simp_all
  have c1: "c1 = sgn (int (words_val (take n a)) - int (words_val (take n (drop n a))))" unfolding c1_def using l by (rule bn_cmp_words)
  show "c1 = 0 \<longleftrightarrow> words_val (take n a) = words_val (take n (drop n a))" unfolding c1 by (simp add: sgn_0_0)
  have sub: "length d = length t \<and> drop n d = drop n t \<and> int (words_val (take n d)) = \<bar>int (words_val (take n x)) - int (words_val (take n y))\<bar>"
    if h: "n \<le> length x" "n \<le> length y" "words_val (take n y) < words_val (take n x)" "d = fst (bn_sub_words t x y n)" for x y d
  proof -
    obtain c where e: "bn_sub_words t x y n = (d, c)" using h(4) by (cases "bn_sub_words t x y n") simp
    note w = bn_sub_words [OF assms(4) h(1,2) e]
    have "words_val (take n d) < 2 ^ (64 * n)" using words_val_less [of "take n d"] w(1) assms(4) by simp
    then have "unat c \<noteq> 1" using w(4) h(3) by auto
    then have "unat c = 0" using w(3) by linarith
    then show ?thesis using w h(3) by simp
  qed
  consider "c1 > 0" | "c1 < 0" | "c1 = 0" by linarith
  then have "length t1 = length t \<and> drop n t1 = drop n t \<and>
    (c1 \<noteq> 0 \<longrightarrow> int (words_val (take n t1)) = \<bar>int (words_val (take n a)) - int (words_val (take n (drop n a)))\<bar>)"
  proof cases
    case 1
    then have less: "words_val (take n (drop n a)) < words_val (take n a)" by (simp add: c1)
    show ?thesis using sub [OF l less, of t1] 1 by (simp add: t1_def)
  next
    case 2
    then have less: "words_val (take n a) < words_val (take n (drop n a))" by (simp add: c1)
    show ?thesis using sub [OF l(2,1) less, of t1] 2 by (simp add: t1_def abs_minus_commute)
  qed (simp add: t1_def)
  then show "length t1 = length t \<and> drop n t1 = drop n t"
    "c1 \<noteq> 0 \<Longrightarrow> int (words_val (take n t1)) = \<bar>int (words_val (take n a)) - int (words_val (take n (drop n a)))\<bar>" by blast+
qed

lemma bn_sqr_recursive:
  "n2 = 2 ^ k \<Longrightarrow> 2 \<le> k \<Longrightarrow> n2 \<le> length a \<Longrightarrow> 2 * n2 \<le> length r \<Longrightarrow> 4 * n2 \<le> length t \<Longrightarrow> bn_sqr_recursive r a n2 t = (r', t') \<Longrightarrow>
   wrote (2 * n2) (words_val (take n2 a) * words_val (take n2 a)) r r' \<and> length t' = length t"
proof (induction k arbitrary: n2 r a t r' t')
  case (Suc k)
  consider "k = 1" | "k = 2" | "3 \<le> k" using Suc.prems(2) by linarith
  then show ?case
  proof cases
    case 1
    then have "n2 = 4" using Suc.prems(1) by simp
    then show ?thesis using Suc.prems(3-6) comba_wrote(4) [of a r] by (simp add: bn_sqr_recursive.simps [of r])
  next
    case 2
    then have "n2 = 8" using Suc.prems(1) by simp
    then show ?thesis using Suc.prems(3-6) comba_wrote(3) [of a r] by (simp add: bn_sqr_recursive.simps [of r])
  next
    case 3
    define n where "n = (2 :: nat) ^ k"
    have "(2 :: nat) ^ 3 \<le> 2 ^ k" using 3 by (intro power_increasing) simp_all
    then have n8: "8 \<le> n" by (simp add: n_def)
    have n2: "n2 = 2 * n" "n2 div 2 = n" using Suc.prems(1) by (simp_all add: n_def)
    define c1 where "c1 = bn_cmp_words a (drop n a) n"
    define t1 where "t1 = (if c1 > 0 then fst (bn_sub_words t a (drop n a) n) else if c1 < 0 then fst (bn_sub_words t (drop n a) a n) else t)"
    have l: "2 * n \<le> length a" "n \<le> length t" using Suc.prems(3,5) n2 by simp_all
    note D = sqr_diff [OF l, folded c1_def, folded t1_def]
    have lt: "length t1 = length t" using D(1) by simp
    obtain x p where x: "(if c1 \<noteq> 0 then bn_sqr_recursive (take n2 (drop n2 t1)) t1 n (drop (n2 * 2) t1)
          else (memset0 n2 (take n2 (drop n2 t1)), drop (n2 * 2) t1)) = (x, p)" by fastforce
    obtain r1 p1 where r1: "bn_sqr_recursive r a n p = (r1, p1)" by fastforce
    obtain y p2 where y: "bn_sqr_recursive (drop n2 r1) (drop n a) n p1 = (y, p2)" by fastforce
    have big: "n2 \<noteq> 4" "n2 \<noteq> 8" "\<not> n2 < BN_SQR_RECURSIVE_SIZE_NORMAL" using n8 n2 by (simp_all add: BN_SQR_RECURSIVE_SIZE_NORMAL_def)
    have s: "bn_sqr_recursive r a n2 t = mul_combine True n (take n2 r1 @ y) ((take n2 t1 @ x) @ p2)"
      by (subst bn_sqr_recursive.simps)
        (simp only: Let_def if_not_P [OF big(1)] if_not_P [OF big(2)] if_not_P [OF big(3)] n2(2) c1_def [symmetric] t1_def [symmetric] x r1 y prod.case)
    have k: "2 \<le> k" using 3 by simp
    note IH = Suc.IH [OF n_def k]
    have lp: "4 * n \<le> length (drop (n2 * 2) t1)" "length (take n2 (drop n2 t1)) = n2" "n2 \<le> length t1" using Suc.prems(5) n2 lt by simp_all
    have px: "wrote n2 (nat (\<bar>int (words_val (take n a)) - int (words_val (take n (drop n a)))\<bar> ^ 2)) (take n2 (drop n2 t1)) x \<and> length p = length (drop (n2 * 2) t1)"
    proof (cases "c1 = 0")
      case True
      then show ?thesis using x memset0_wrote [of n2 "take n2 (drop n2 t1)"] lp D(2) by auto
    next
      case False
      then have e: "bn_sqr_recursive (take n2 (drop n2 t1)) t1 n (drop (n2 * 2) t1) = (x, p)" using x by simp
      have "int (words_val (take n t1) * words_val (take n t1)) = \<bar>int (words_val (take n a)) - int (words_val (take n (drop n a)))\<bar> ^ 2"
        using D(3) False by (simp add: power2_eq_square)
      then have "words_val (take n t1) * words_val (take n t1) = nat (\<bar>int (words_val (take n a)) - int (words_val (take n (drop n a)))\<bar> ^ 2)" by linarith
      then show ?thesis using IH [OF _ _ _ e] l lt lp n2 by simp
    qed
    have h1: "wrote (2 * n) (words_val (take n a) * words_val (take n a)) r r1 \<and> length p1 = length p"
      using IH [OF _ _ _ r1] l lp px Suc.prems(4) n2 by simp
    have h2: "wrote (2 * n) (words_val (take n (drop n a)) * words_val (take n (drop n a))) (drop n2 r1) y \<and> length p2 = length p1"
      using IH [OF _ _ _ y] l lp px h1 wroteD(1) [OF conjunct1 [OF h1]] Suc.prems(4) n2 by simp
    have l4: "2 * n + 2 * n \<le> length r" using Suc.prems(4) n2 by simp
    note two = two_writes [OF conjunct1 [OF h1] conjunct1 [OF h2 [unfolded n2(1)]] l4]
    have lx: "length x = n2" "length p2 = length t1 - n2 * 2" using wroteD(1) [OF conjunct1 [OF px]] px h1 h2 lp by simp_all
    have tt: "length ((take n2 t1 @ x) @ p2) = length t1" "take (2 * n) (drop (2 * n) ((take n2 t1 @ x) @ p2)) = take n2 x"
      using lx lp Suc.prems(5) lt n2 by simp_all
    let ?r = "take n2 r1 @ y" and ?t = "(take n2 t1 @ x) @ p2"
    have q: "n \<le> n" "n \<le> n" "n \<le> length a" "n \<le> length a" "4 * n \<le> length ?r" "4 * n \<le> length ?t"
      using l l4 two(1) tt(1) lt Suc.prems(5) n2 by simp_all
    have sq: "int (nat (\<bar>d\<bar> ^ 2)) = d * d" for d :: int by (simp add: power2_eq_square)
    have m: "(if True then -1 else 1) * int (words_val (take (2 * n) (drop (2 * n) ?t))) =
        (int (words_val (take n a)) - int (words_val (take n (drop n a)))) * (int (words_val (take n (drop n a))) - int (words_val (take n a)))"
      unfolding tt(2) wroteD(3) [OF conjunct1 [OF px]] sq by (simp add: algebra_simps)
    have c: "mul_combine True n ?r ?t = (r', t')" using s Suc.prems(6) by simp
    have "wrote (4 * n) (words_val (take (n + n) a) * words_val (take (n + n) a)) ?r r' \<and> length t' = length ?t"
      using two(3,4) n2 by (intro karatsuba_end [OF q _ _ m c]) simp_all
    moreover have "n + n = n2" "4 * n = 2 * n2" "n2 + n2 = 2 * n2" using n2 by simp_all
    ultimately show ?thesis using two(1,2) [folded n2(1)] tt(1) lt unfolding wrote_def by metis
  qed
qed simp

subsection \<open>Big numbers\<close>

lemma words_power_eq: "0 < n \<Longrightarrow> n < 2 ^ 64 \<Longrightarrow> n = 2 ^ (BN_num_bits_word (word_of_nat n) - 1) \<Longrightarrow> 16 \<le> n \<Longrightarrow> \<exists>k. n = 2 ^ k \<and> 2 \<le> k"
proof -
  assume h: "n = 2 ^ (BN_num_bits_word (word_of_nat n :: u64) - 1)" "16 \<le> n"
  define k where "k = BN_num_bits_word (word_of_nat n :: u64) - 1"
  have "2 ^ 4 \<le> (2 :: nat) ^ k" using h(2) unfolding k_def h(1) [symmetric] by simp
  then have "4 \<le> k" by (simp only: power_increasing_iff)
  then show ?thesis using h(1) by (auto simp: k_def)
qed

definition sqr_into :: "bool \<Rightarrow> bignum \<Rightarrow> bignum \<Rightarrow> bignum \<Rightarrow> u64 list option" where
  "sqr_into alloc a rr tmp =
    (let al = bn_top a
     in if al = 4 then Some (bn_sqr_comba4 (bn_d rr) (bn_d a))
        else if al = 8 then Some (bn_sqr_comba8 (bn_d rr) (bn_d a))
        else if al < BN_SQR_RECURSIVE_SIZE_NORMAL then
          Some (fst (bn_sqr_normal (bn_d rr) (bn_d a) al (replicate (BN_SQR_RECURSIVE_SIZE_NORMAL * 2) 0)))
        else
          let j = 2 ^ (BN_num_bits_word (word_of_nat al) - 1); k = j + j
          in if al = j then
               map_option (\<lambda>tmp. fst (bn_sqr_recursive (bn_d rr) (bn_d a) al (bn_d tmp))) (bn_wexpand alloc tmp (k * 2))
             else map_option (\<lambda>tmp. fst (bn_sqr_normal (bn_d rr) (bn_d a) al (bn_d tmp))) (bn_wexpand alloc tmp (2 * al)))"

lemma bn_sqr_fixed_top_into:
  "bn_sqr_fixed_top alloc alias ctx r a =
    (if bn_top a = 0 then Some (r\<lparr>bn_top := 0, bn_neg := False\<rparr>)
     else
       Option.bind (if \<not> alias then Some (r, ctx) else BN_CTX_get ctx) (\<lambda>(rr, ctx).
       Option.bind (BN_CTX_get ctx) (\<lambda>(tmp, ctx).
       Option.bind (bn_wexpand alloc rr (2 * bn_top a)) (\<lambda>rr.
       Option.bind (sqr_into alloc a rr tmp)
         (\<lambda>d. let rr = rr\<lparr>bn_d := d, bn_neg := False, bn_top := 2 * bn_top a\<rparr> in if alias then BN_copy alloc r rr else Some rr)))))"
  unfolding bn_sqr_fixed_top_def sqr_into_def Let_def by (rule refl)

lemma sqr_into_cases:
  assumes "bn_fits a" "bn_top a \<noteq> 0" "bn_fits tmp"
  obtains (comba) "\<And>d. sqr_into alloc a r1 tmp = Some d \<Longrightarrow> 2 * bn_top a \<le> length (bn_d r1) \<Longrightarrow>
      wrote (2 * bn_top a) (bn_nat a * bn_nat a) (bn_d r1) d" "sqr_into alloc a r1 tmp \<noteq> None"
    | (scratch) n where "\<And>d. sqr_into alloc a r1 tmp = Some d \<Longrightarrow> 2 * bn_top a \<le> length (bn_d r1) \<Longrightarrow>
      wrote (2 * bn_top a) (bn_nat a * bn_nat a) (bn_d r1) d" "bn_wexpand alloc tmp n \<noteq> None \<Longrightarrow> sqr_into alloc a r1 tmp \<noteq> None"
      "n \<le> 4 * bn_top a"
proof -
  let ?al = "bn_top a"
  have l: "?al \<le> length (bn_d a)" "?al \<le> 8388607" using assms(1) bn_fits_size [OF assms(1)] by (auto simp: bn_fits_def)
  define j where "j = (2 :: nat) ^ (BN_num_bits_word (word_of_nat ?al) - 1)"
  consider "?al = 4" | "?al = 8" | "?al \<noteq> 4" "?al \<noteq> 8" "?al < 16" | "?al \<noteq> 4" "?al \<noteq> 8" "16 \<le> ?al" "?al = j"
    | "?al \<noteq> 4" "?al \<noteq> 8" "16 \<le> ?al" "?al \<noteq> j" by linarith
  then show ?thesis
  proof cases
    case 1
    then show ?thesis using l comba_wrote(4) [of "bn_d a" "bn_d r1"] by (intro comba) (auto simp: sqr_into_def bn_nat_def)
  next
    case 2
    then show ?thesis using l comba_wrote(3) [of "bn_d a" "bn_d r1"] by (intro comba) (auto simp: sqr_into_def bn_nat_def)
  next
    case 3
    then have e: "sqr_into alloc a r1 tmp = Some (fst (bn_sqr_normal (bn_d r1) (bn_d a) ?al (replicate 32 0)))"
      by (simp add: sqr_into_def BN_SQR_RECURSIVE_SIZE_NORMAL_def)
    show ?thesis
      using bn_sqr_normal [OF _ l(1) _ _ prod.collapse [symmetric], of "bn_d r1" "replicate 32 0"] assms(2) 3
      by (intro comba) (auto simp: e bn_nat_def)
  next
    case 4
    then obtain k where k: "?al = 2 ^ k" "2 \<le> k" using words_power_eq [of ?al] l(2) unfolding j_def by auto
    have e: "sqr_into alloc a r1 tmp = map_option (\<lambda>t. fst (bn_sqr_recursive (bn_d r1) (bn_d a) ?al (bn_d t))) (bn_wexpand alloc tmp (4 * ?al))"
      using 4(1-3) unfolding sqr_into_def Let_def j_def [symmetric] 4(4) [symmetric] by (simp add: BN_SQR_RECURSIVE_SIZE_NORMAL_def)
    show ?thesis
    proof (rule scratch)
      fix d
      assume d: "sqr_into alloc a r1 tmp = Some d" "2 * ?al \<le> length (bn_d r1)"
      obtain t1 where t1: "bn_wexpand alloc tmp (4 * ?al) = Some t1" "d = fst (bn_sqr_recursive (bn_d r1) (bn_d a) ?al (bn_d t1))"
        using d(1) unfolding e by auto
      show "wrote (2 * ?al) (bn_nat a * bn_nat a) (bn_d r1) d" unfolding t1(2) bn_nat_def
        by (rule conjunct1 [OF bn_sqr_recursive [OF k l(1) d(2) bn_wexpand(2) [OF assms(3) t1(1)] prod.collapse [symmetric]]])
    qed (use e in auto)
  next
    case 5
    then have e: "sqr_into alloc a r1 tmp = map_option (\<lambda>t. fst (bn_sqr_normal (bn_d r1) (bn_d a) ?al (bn_d t))) (bn_wexpand alloc tmp (2 * ?al))"
      unfolding sqr_into_def Let_def j_def [symmetric] by (simp add: BN_SQR_RECURSIVE_SIZE_NORMAL_def)
    show ?thesis
    proof (rule scratch)
      fix d
      assume d: "sqr_into alloc a r1 tmp = Some d" "2 * ?al \<le> length (bn_d r1)"
      obtain t1 where t1: "bn_wexpand alloc tmp (2 * ?al) = Some t1" "d = fst (bn_sqr_normal (bn_d r1) (bn_d a) ?al (bn_d t1))"
        using d(1) unfolding e by auto
      show "wrote (2 * ?al) (bn_nat a * bn_nat a) (bn_d r1) d" unfolding t1(2) bn_nat_def
        using bn_sqr_normal [OF _ l(1) d(2) bn_wexpand(2) [OF assms(3) t1(1)] prod.collapse [symmetric]] assms(2) by blast
    qed (use e in auto)
  qed
qed

lemma sqr_into:
  assumes "bn_fits a" "bn_top a \<noteq> 0" "bn_fits tmp" "sqr_into alloc a r1 tmp = Some d" "2 * bn_top a \<le> length (bn_d r1)"
  shows "wrote (2 * bn_top a) (bn_nat a * bn_nat a) (bn_d r1) d"
  using assms(4,5) by (cases rule: sqr_into_cases [OF assms(1-3), of alloc r1]) simp_all

lemma bn_sqr_fixed_top:
  assumes "bn_fits a" "bn_fits r" "\<forall>x\<in>set ctx. bn_fits x" "bn_sqr_fixed_top alloc alias ctx r a = Some c"
  shows "bn_fits c \<and> bn_nat c = bn_nat a * bn_nat a \<and> bn_flags c = bn_flags r \<and> \<not> bn_neg c"
proof (cases "bn_top a = 0")
  case True
  then have "c = r\<lparr>bn_top := 0, bn_neg := False\<rparr>" using assms(4) by (simp add: bn_sqr_fixed_top_def)
  then show ?thesis using assms(2) True by (simp add: bn_fits_def bn_nat_def)
next
  case False
  obtain rr ctx' tmp ctx'' r1 d where e: "(if \<not> alias then Some (r, ctx) else BN_CTX_get ctx) = Some (rr, ctx')" "BN_CTX_get ctx' = Some (tmp, ctx'')"
      "bn_wexpand alloc rr (2 * bn_top a) = Some r1" "sqr_into alloc a r1 tmp = Some d"
      "(if alias then BN_copy alloc r (r1\<lparr>bn_d := d, bn_neg := False, bn_top := 2 * bn_top a\<rparr>)
        else Some (r1\<lparr>bn_d := d, bn_neg := False, bn_top := 2 * bn_top a\<rparr>)) = Some c"
    using assms(4) unfolding bn_sqr_fixed_top_into Let_def if_not_P [OF False]
    by (simp only: bind_eq_Some_conv split_paired_Ex prod.case) blast
  have fc: "bn_fits rr \<and> (\<forall>x\<in>set ctx'. bn_fits x)"
    using e(1) assms(2,3) ctx_get [of ctx rr ctx', OF _ assms(3)] by (cases "alias") auto
  then have f: "bn_fits rr" "bn_fits tmp" using ctx_get [OF e(2)] by blast+
  note x = bn_wexpand [OF f(1) e(3)]
  note w = sqr_into [OF assms(1) False f(2) e(4) x(2)]
  let ?e = "r1\<lparr>bn_d := d, bn_neg := False, bn_top := 2 * bn_top a\<rparr>"
  have fe: "bn_fits ?e" "bn_nat ?e = bn_nat a * bn_nat a" using x(1,2) wroteD(1,3) [OF w] by (simp_all add: bn_fits_def) (simp add: bn_nat_def)
  show ?thesis
  proof (cases "alias")
    case True
    then show ?thesis using BN_copy_fits [OF assms(2) fe(1)] e(5) fe(2) by simp
  next
    case False
    then show ?thesis using e(1,5) fe x(5) by auto
  qed
qed

lemma BN_sqr:
  assumes "bn_fits a" "bn_fits r" "\<forall>x\<in>set ctx. bn_fits x" "BN_sqr alloc alias ctx r a = Some c"
  shows "bn_wf c \<and> bn_nat c = bn_nat a * bn_nat a \<and> bn_val c = bn_val a * bn_val a \<and> bn_flags c = bn_flags r \<and> \<not> bn_neg c"
proof -
  obtain d where d: "bn_sqr_fixed_top alloc alias ctx r a = Some d" "c = bn_correct_top d" using assms(4) by (auto simp: BN_sqr_def)
  note m = bn_sqr_fixed_top [OF assms(1-3) d(1)]
  have fd: "bn_fits d" using m by blast
  show ?thesis using bn_correct_top [OF fd, folded d(2)] m by (simp add: bn_val_def)
qed

lemma BN_sqr_total:
  assumes "bn_fits a" "bn_fits r" "\<forall>x\<in>set ctx. bn_fits x" "\<forall>x\<in>set (r # ctx). BN_get_flags x BN_FLG_STATIC_DATA = 0" "2 \<le> length ctx"
    "4 * bn_top a \<le> INT_MAX div (4 * BN_BITS2)"
  shows "BN_sqr True alias ctx r a \<noteq> None"
proof (cases "bn_top a = 0")
  case True
  then show ?thesis by (simp add: BN_sqr_def bn_sqr_fixed_top_def)
next
  case False
  obtain rr ctx' tmp ctx'' where c: "(if \<not> alias then Some (r, ctx) else BN_CTX_get ctx) = Some (rr, ctx')" "BN_CTX_get ctx' = Some (tmp, ctx'')"
      "rr \<in> set (r # ctx)" "tmp \<in> set (r # ctx)"
    using assms(5) by (cases ctx; cases "tl ctx"; cases "alias") auto
  have f: "bn_fits tmp" "bn_fits rr" using c(3,4) assms(2,3) by auto
  have ok: "bn_wexpand True x n \<noteq> None" if "x \<in> set (r # ctx)" "n \<le> 4 * bn_top a" for x n
    using that assms(2-4,6) bn_wexpand_None [of x True n] by auto
  obtain r1 where r1: "bn_wexpand True rr (2 * bn_top a) = Some r1" using ok [OF c(3), of "2 * bn_top a"] by auto
  note x = bn_wexpand [OF f(2) r1]
  have "sqr_into True a r1 tmp \<noteq> None" by (cases rule: sqr_into_cases [OF assms(1) False f(1), of True r1]) (use ok [OF c(4)] in auto)
  then obtain d where d: "sqr_into True a r1 tmp = Some d" by blast
  have "length d = length (bn_d r1)" by (rule wroteD(1) [OF sqr_into [OF assms(1) False f(1) d x(2)]])
  then have "BN_copy True r (r1\<lparr>bn_d := d, bn_neg := False, bn_top := 2 * bn_top a\<rparr>) \<noteq> None"
    using x(1) assms(2,4,6) by (auto simp: BN_copy_def bn_wexpand_None bn_fits_def Let_def)
  then show ?thesis
    unfolding BN_sqr_def bn_sqr_fixed_top_into if_not_P [OF False] c(1,2) bind.simps prod.case r1 d Let_def by (cases "alias") auto
qed

text \<open>C33: The square of a big number is the square of the integer, in normal form and not negative, by the unrolled squares, row by row or
  by recursion; it fails only as multiplication does.\<close>

theorem bn_sqr_square:
  assumes "bn_wf a" "bn_fits r" "\<forall>x\<in>set ctx. bn_fits x"
  shows "case BN_sqr alloc alias ctx r a of
       None \<Rightarrow> \<not> (alloc \<and> 2 \<le> length ctx \<and> (\<forall>x\<in>set (r # ctx). BN_get_flags x BN_FLG_STATIC_DATA = 0) \<and>
         4 * bn_top a \<le> INT_MAX div (4 * BN_BITS2))
     | Some c \<Rightarrow> bn_wf c \<and> bn_val c = bn_val a ^ 2 \<and> bn_flags c = bn_flags r"
proof (cases "BN_sqr alloc alias ctx r a")
  case None
  have "bn_fits a" using assms(1) by (simp add: bn_wf_def)
  then show ?thesis using BN_sqr_total [of a r ctx "alias"] None assms(2,3) by auto
next
  case (Some c)
  have "bn_fits a" using assms(1) by (simp add: bn_wf_def)
  then show ?thesis using BN_sqr [OF _ assms(2,3) Some] Some by (simp add: power2_eq_square)
qed

theorem bn_sqr_square_witness:
  "case BN_sqr True False [bn_init, bn_init] bn_init BN_value_one of
     None \<Rightarrow> False
   | Some c \<Rightarrow> bn_wf c \<and> bn_val c = 1 \<and> bn_flags c = bn_flags bn_init"
proof -
  have f: "bn_fits bn_init" "BN_get_flags bn_init BN_FLG_STATIC_DATA = 0" by (simp_all add: bn_fits_def bn_init_def BN_get_flags_def)
  have o: "bn_val BN_value_one = 1" "bn_top BN_value_one = 1" by (simp_all add: BN_value_one_def bn_val_def bn_nat_def)
  show ?thesis using bn_sqr_square [OF one_wf f(1), of "[bn_init, bn_init]" True False] f
    by (cases "BN_sqr True False [bn_init, bn_init] bn_init BN_value_one") (simp_all add: o INT_MAX_def BN_BITS2_def)
qed

end
