(* ===== verification/BnDivProps.thy ===== *)
theory BnDivProps
  imports BnDiv BnSqr BnWordProps
begin

text \<open>
  Division of big numbers: the estimate of a word of the quotient is right or one too large, the correction makes it exact, and
  \<open>BN_div\<close> is the division of the integers, rounded towards zero.
\<close>

subsection \<open>The estimate\<close>

text \<open>An estimate \<open>q\<close> that is not too large for the leading words (\<open>V\<close> and \<open>Dv\<close>) is at most one too large.\<close>

lemma guess_above:
  fixes q :: nat
  assumes "q * Dv \<le> V" "q \<le> Dv + 1" "V * P \<le> W" "D < (Dv + 1) * P" "0 < D"
  shows "q \<le> W div D + 1"
proof (cases q)
  case (Suc p)
  have "p * D \<le> p * ((Dv + 1) * P)" using assms(4) by (intro mult_le_mono2) simp
  also have "\<dots> = (p * Dv + p) * P" by (simp add: algebra_simps)
  also have "\<dots> \<le> (q * Dv) * P" using assms(2) Suc by (intro mult_le_mono1) (simp add: algebra_simps)
  also have "\<dots> \<le> V * P" using assms(1) by (intro mult_le_mono1)
  finally have "p * D \<le> W" using assms(3) by simp
  then have "p \<le> W div D" using assms(5) by (simp add: less_eq_div_iff_mult_less_eq)
  then show ?thesis using Suc by simp
qed simp

text \<open>An estimate that is too large for the leading words is too large.\<close>

lemma guess_below:
  fixes q :: nat
  assumes "V < q * Dv" "W < (V + 1) * P" "Dv * P \<le> D" "0 < D"
  shows "W div D < q"
proof -
  have "(V + 1) * P \<le> (q * Dv) * P" using assms(1) by (intro mult_le_mono1) simp
  also have "\<dots> = q * (Dv * P)" by (simp only: mult.assoc)
  also have "\<dots> \<le> q * D" using assms(3) by (intro mult_le_mono2)
  finally have "W < q * D" using assms(2) by simp
  then show ?thesis using assms(4) by (simp add: div_less_iff_less_mult)
qed

lemma div_refine:
  assumes "2 ^ 63 \<le> unat d0" "N = unat q * unat d0 + unat rem" "unat t2l + 2 ^ 64 * unat t2h = unat q * unat d1"
    and "\<And>p. N * 2 ^ 64 + unat n2 < p * (unat d0 * 2 ^ 64 + unat d1) \<Longrightarrow> m < p" "m \<le> unat q"
  shows "\<exists>p. div_refine d0 d1 n2 q rem t2h t2l = Some p \<and> m \<le> unat p \<and> unat p * (unat d0 * 2 ^ 64 + unat d1) \<le> N * 2 ^ 64 + unat n2"
  using assms(2,3,5)
proof (induction "2 ^ 64 - unat rem" arbitrary: q rem t2h t2l rule: less_induct)
  case less
  let ?D = "unat d0 * 2 ^ 64 + unat d1" and ?V = "N * 2 ^ 64 + unat n2"
  have le: "t2h < rem \<or> t2h = rem \<and> t2l \<le> n2 \<longleftrightarrow> unat q * unat d1 \<le> unat rem * 2 ^ 64 + unat n2"
  proof -
    have "unat t2l + 2 ^ 64 * unat t2h \<le> unat rem * 2 ^ 64 + unat n2 \<longleftrightarrow> unat t2h < unat rem \<or> unat t2h = unat rem \<and> unat t2l \<le> unat n2"
      using unat_u64 [of t2l] unat_u64 [of n2] by auto
    then show ?thesis unfolding less.prems(2) word_less_nat_alt word_le_nat_alt word_unat_eq_iff by blast
  qed
  have qD: "unat q * ?D = unat q * unat d0 * 2 ^ 64 + unat q * unat d1" by (simp add: algebra_simps)
  have V: "?V = unat q * unat d0 * 2 ^ 64 + (unat rem * 2 ^ 64 + unat n2)" by (simp add: less.prems(1) algebra_simps)
  have cond: "t2h < rem \<or> t2h = rem \<and> t2l \<le> n2 \<longleftrightarrow> unat q * ?D \<le> ?V" unfolding le qD V by simp
  show ?case
  proof (cases "unat q * ?D \<le> ?V")
    case True
    then show ?thesis using cond less.prems(3) by (subst div_refine.simps) simp
  next
    case False
    then have lt: "m < unat q" using assms(4) [of "unat q"] by simp
    then have q1: "unat (q - 1) = unat q - 1" "Suc (unat q - 1) = unat q" by (simp_all add: unat_sub word_le_nat_alt)
    have c: "\<not> (t2h < rem \<or> t2h = rem \<and> t2l \<le> n2)" using False cond by simp
    have N: "N = (unat q - 1) * unat d0 + (unat rem + unat d0)"
      using less.prems(1) arg_cong [OF q1(2), of "\<lambda>x. x * unat d0"] by (simp add: algebra_simps)
    have car: "unat (rem + d0) + 2 ^ 64 * of_bool (rem + d0 < d0) = unat rem + unat d0" by (rule word_add_carry)
    show ?thesis
    proof (cases "rem + d0 < d0")
      case True
      then have "2 ^ 64 \<le> unat rem + unat d0" using car by simp
      then have "2 ^ 64 * 2 ^ 64 \<le> (unat rem + unat d0) * 2 ^ 64" by (rule mult_le_mono1)
      moreover have "(unat q - 1) * unat d1 \<le> 2 ^ 64 * 2 ^ 64"
        using unat_u64 [of q] unat_u64 [of d1] by (intro mult_le_mono) simp_all
      ultimately have "(unat q - 1) * unat d1 \<le> (unat rem + unat d0) * 2 ^ 64" by (rule order.trans [rotated])
      then have "(unat q - 1) * ?D \<le> ?V" by (simp add: N algebra_simps)
      moreover have "div_refine d0 d1 n2 q rem t2h t2l = Some (q - 1)" using True c by (subst div_refine.simps) (simp add: Let_def)
      ultimately show ?thesis using lt q1 by auto
    next
      case no: False
      define h l where "h = (if t2l < d1 then t2h - 1 else t2h)" and "l = t2l - d1"
      have s: "div_refine d0 d1 n2 q rem t2h t2l = div_refine d0 d1 n2 (q - 1) (rem + d0) h l"
        by (subst div_refine.simps) (simp only: Let_def h_def l_def if_not_P [OF c] if_not_P [OF no])
      have rem: "unat (rem + d0) = unat rem + unat d0" using car no by simp
      have T: "unat l + 2 ^ 64 * unat h = unat (q - 1) * unat d1"
      proof -
        have t: "unat t2l + 2 ^ 64 * unat t2h = (unat q - 1) * unat d1 + unat d1"
          using less.prems(2) arg_cong [OF q1(2), of "\<lambda>x. x * unat d1"] by (simp add: algebra_simps)
        have b: "unat (t2l - d1) + unat d1 = unat t2l + 2 ^ 64 * of_bool (t2l < d1)" by (rule sub_borrow_nat)
        have h: "unat h + of_bool (t2l < d1) = unat t2h"
        proof (cases "t2l < d1")
          case True
          then have "unat t2l < unat d1" by (simp add: word_less_nat_alt)
          then have "unat t2h \<noteq> 0" using t by (cases "unat t2h = 0") simp_all
          then have "unat (t2h - 1) = unat t2h - 1" by (subst unat_sub) (simp_all add: word_le_nat_alt)
          then show ?thesis using True \<open>unat t2h \<noteq> 0\<close> by (simp add: h_def)
        qed (simp add: h_def)
        show ?thesis unfolding l_def q1(1) using t b h by (simp add: algebra_simps)
      qed
      have "2 ^ 64 - unat (rem + d0) < 2 ^ 64 - unat rem" using rem assms(1) unat_u64 [of rem] by simp
      from less.hyps [OF this _ T] show ?thesis unfolding s using N rem q1 lt by simp
    qed
  qed
qed

text \<open>\<open>W\<close> are the words that are divided and \<open>D\<close> is the divisor; \<open>P\<close> is the weight of the lowest word that the estimate sees. (The
  factor \<open>S\<close> is for a divisor of one word.)\<close>

lemma div_guess:
  fixes W D S P :: nat
  assumes d0: "2 ^ 63 \<le> unat d0" and le: "unat n0 \<le> unat d0" and W: "W < D * 2 ^ 64" "0 < S"
    and V: "W * S = (unat n0 * 2 ^ 128 + unat n1 * 2 ^ 64 + unat n2) * P + w" "w < P"
    and D: "D * S = (unat d0 * 2 ^ 64 + unat d1) * P + d" "d < P"
  shows "\<exists>q. div_guess d0 d1 n0 n1 n2 = Some q \<and> W div D \<le> unat q \<and> unat q \<le> W div D + 1"
proof -
  let ?N = "unat n0 * 2 ^ 64 + unat n1" and ?Dv = "unat d0 * 2 ^ 64 + unat d1"
  let ?V = "?N * 2 ^ 64 + unat n2"
  have V': "W * S = ?V * P + w" using V(1) by (simp add: algebra_simps)
  have D0: "0 < D * S" unfolding D(1) using d0 D(2) by (cases "P = 0") simp_all
  then have Dp: "0 < D" by simp
  have dv: "W * S div (D * S) = W div D" using W(2) by simp
  have below: "W div D < p" if "?V < p * ?Dv" for p
  proof -
    have "W * S div (D * S) < p" using that V' V(2) D(1) D0 by (intro guess_below [of ?V p ?Dv _ P]) simp_all
    then show ?thesis unfolding dv .
  qed
  have above: "unat q \<le> W div D + 1" if "unat q * ?Dv \<le> ?V" for q :: u64
  proof -
    have "unat q \<le> ?Dv + 1" using d0 unat_u64 [of q] by simp
    then have "unat q \<le> W * S div (D * S) + 1" using that V' D(1,2) D0 by (intro guess_above [of _ ?Dv ?V P]) simp_all
    then show ?thesis unfolding dv .
  qed
  show ?thesis
  proof (cases "n0 = d0")
    case True
    have le64: "W div D \<le> 2 ^ 64 - 1" using W(1) Dp less_mult_imp_div_less [of W "2 ^ 64" D] by (simp add: mult.commute)
    have "(2 ^ 64 - 1 - 1) * ((?Dv + 1) * P) \<le> W * S"
    proof -
      have "(2 ^ 64 - 1 - 1) * (?Dv + 1) \<le> (2 ^ 64 - 2) * ((unat d0 + 1) * 2 ^ 64 :: nat)" using unat_u64 [of d1] by (intro mult_le_mono) simp_all
      also have "\<dots> \<le> unat d0 * 2 ^ 64 * 2 ^ 64" using d0 by simp
      also have "\<dots> \<le> ?V" unfolding True by simp
      finally have "(2 ^ 64 - 1 - 1) * (?Dv + 1) * P \<le> ?V * P" by (rule mult_le_mono1)
      then show ?thesis unfolding V' by (simp add: algebra_simps)
    qed
    moreover have "D * S \<le> (?Dv + 1) * P" using D by (simp add: algebra_simps)
    then have "(2 ^ 64 - 1 - 1) * (D * S) \<le> (2 ^ 64 - 1 - 1) * ((?Dv + 1) * P)" by (rule mult_le_mono2)
    ultimately have "(2 ^ 64 - 1 - 1) * (D * S) \<le> W * S" by linarith
    then have "2 ^ 64 - 1 - 1 \<le> W * S div (D * S)" using D0 by (simp add: less_eq_div_iff_mult_less_eq)
    moreover have "unat (- 1 :: u64) = 2 ^ 64 - 1" by (simp add: unsigned_minus_1_eq_mask mask_eq_exp_minus_1)
    ultimately show ?thesis using le64 unfolding dv by (auto simp: div_guess_def True BN_MASK2_def)
  next
    case False
    then have lt: "unat n0 < unat d0" using le by (simp add: word_unat_eq_iff)
    obtain q where q: "bn_div_words n0 n1 d0 = Some q" "unat q = ?N div unat d0" using bn_div_words [OF lt] by blast
    define rem where "rem = (n1 - q * d0) AND BN_MASK2"
    obtain t2l t2h where m: "mul64 (LBITS d1) (HBITS d1) (LBITS q) (HBITS q) = (t2l, t2h)" by fastforce
    have T: "unat t2l + 2 ^ 64 * unat t2h = unat q * unat d1" using mul64_words [OF m] by (simp only: mult.commute)
    have N: "?N = unat q * unat d0 + ?N mod unat d0" unfolding q(2) by simp
    have "0 < unat d0" using d0 by (cases "unat d0") simp_all
    then have nd: "?N mod unat d0 < unat d0" by (rule mod_less_divisor)
    then have "?N mod unat d0 < 2 ^ 64" using unat_u64 [of d0] by (rule less_trans)
    moreover have "rem = word_of_nat (?N mod unat d0)"
    proof -
      have "(word_of_nat ?N :: u64) = word_of_nat (unat q * unat d0 + ?N mod unat d0)" using N by (rule arg_cong)
      moreover have "(word_of_nat ?N :: u64) = n1"
      proof -
        have z: "(18446744073709551616 :: u64) = 0" by simp
        have "(word_of_nat ?N :: u64) = n0 * 18446744073709551616 + n1" by simp
        then show ?thesis by (simp only: z mult_zero_right add_0)
      qed
      ultimately have "n1 = q * d0 + word_of_nat (?N mod unat d0)" by (simp only: of_nat_add of_nat_mult unat_inverse)
      then have "n1 - q * d0 = word_of_nat (?N mod unat d0)" unfolding diff_eq_eq by (simp only: add.commute)
      then show ?thesis by (simp only: rem_def limb_simps)
    qed
    ultimately have rem: "unat rem = ?N mod unat d0" by (intro unatI)
    have up: "W div D \<le> unat q"
    proof -
      have "unat d0 * (2 ^ 64 * P) \<le> D * S" unfolding D(1) by (simp add: algebra_simps)
      moreover have "?N < (unat q + 1) * unat d0" using N nd by simp
      moreover have "W * S < (?N + 1) * (2 ^ 64 * P)"
      proof -
        have "?V + 1 \<le> (?N + 1) * 2 ^ 64" using unat_u64 [of n2] by simp
        then have "(?V + 1) * P \<le> (?N + 1) * 2 ^ 64 * P" by (rule mult_le_mono1)
        moreover have "?V * P + w < (?V + 1) * P" using V(2) by simp
        ultimately show ?thesis unfolding V' by (simp only: mult.assoc)
      qed
      ultimately have "W * S div (D * S) < unat q + 1" using D0 by (intro guess_below)
      then show ?thesis unfolding dv by simp
    qed
    have "\<exists>p. div_refine d0 d1 n2 q rem t2h t2l = Some p \<and> W div D \<le> unat p \<and> unat p * ?Dv \<le> ?V"
      using N rem by (intro div_refine [OF d0 _ T below up]) simp_all
    then obtain p where p: "div_refine d0 d1 n2 q rem t2h t2l = Some p" "W div D \<le> unat p" "unat p * ?Dv \<le> ?V" by blast
    have "div_guess d0 d1 n0 n1 n2 = Some p" using False by (simp add: div_guess_def q(1) Let_def m rem_def [symmetric] p(1))
    then show ?thesis using p(2) above [OF p(3)] by blast
  qed
qed

subsection \<open>One word of the quotient\<close>

lemma pow64_Suc: "(2 :: nat) ^ (64 * Suc m) = 2 ^ 64 * 2 ^ (64 * m)"
  by (simp only: mult_Suc_right power_add)

lemma words_top_2:
  assumes "2 \<le> n" "n \<le> length d"
  shows "words_val (take n d) = (unat (d ! (n - 1)) * 2 ^ 64 + unat (d ! (n - 2))) * 2 ^ (64 * (n - 2)) + words_val (take (n - 2) d)"
proof -
  obtain m where n: "n = Suc (Suc m)" using assms(1) by (cases n; cases "n - 1") auto
  show ?thesis using assms(2) pow64_Suc [of m] by (simp only: n words_val_take_Suc Suc_le_eq diff_Suc_1) (simp add: words_val_take_Suc algebra_simps)
qed

lemma words_top:
  assumes "1 \<le> n" "n \<le> length d"
  shows "words_val (take n d) = unat (d ! (n - 1)) * 2 ^ (64 * (n - 1)) + words_val (take (n - 1) d)" "words_val (take (n - 1) d) < 2 ^ (64 * (n - 1))"
  using assms words_val_take_Suc [of "n - 1" d] words_val_less [of "take (n - 1) d"] by (simp_all add: mult.commute)

lemma div_guess_words:
  assumes n: "1 \<le> n" "n \<le> length sdiv" "n + 1 \<le> length x" and d0: "2 ^ 63 \<le> unat (sdiv ! (n - 1))"
    and W: "words_val (take (n + 1) x) < words_val (take n sdiv) * 2 ^ 64"
  shows "\<exists>q. div_guess (sdiv ! (n - 1)) (if n = 1 then 0 else sdiv ! (n - 2)) (x ! n) (x ! (n - 1)) (if n = 1 then 0 else x ! (n - 2)) = Some q \<and>
    words_val (take (n + 1) x) div words_val (take n sdiv) \<le> unat q \<and> unat q \<le> words_val (take (n + 1) x) div words_val (take n sdiv) + 1"
proof -
  let ?W = "words_val (take (n + 1) x)" and ?D = "words_val (take n sdiv)"
  have le: "unat (x ! n) \<le> unat (sdiv ! (n - 1))"
  proof -
    have p: "(2 :: nat) ^ (64 * n) = 2 ^ (64 * (n - 1)) * 2 ^ 64" using n(1) pow64_Suc [of "n - 1"] by (simp add: mult.commute)
    have "unat (x ! n) * 2 ^ (64 * n) \<le> ?W" using words_top(1) [of "n + 1" x] n by simp
    also have "\<dots> < ?D * 2 ^ 64" by (rule W)
    also have "\<dots> \<le> (unat (sdiv ! (n - 1)) + 1) * 2 ^ (64 * (n - 1)) * 2 ^ 64" using words_top [OF n(1,2)] by (intro mult_le_mono1) simp
    also have "\<dots> = (unat (sdiv ! (n - 1)) + 1) * 2 ^ (64 * n)" unfolding p by (simp only: mult.assoc)
    finally have "unat (x ! n) < unat (sdiv ! (n - 1)) + 1" by (simp only: mult_less_cancel2)
    then show ?thesis by simp
  qed
  show ?thesis
  proof (cases "n = 1")
    case True
    obtain x0 x1 xs where xs: "x = x0 # x1 # xs" using n(3) by (cases x; cases "tl x") (auto simp: True)
    obtain s0 ss where ss: "sdiv = s0 # ss" using n(1,2) by (cases sdiv) auto
    have x: "?W = unat (x ! 1) * 2 ^ 64 + unat (x ! 0)" "?D = unat (sdiv ! 0)" by (simp_all add: True xs ss)
    have "\<exists>q. div_guess (sdiv ! 0) 0 (x ! 1) (x ! 0) 0 = Some q \<and> ?W div ?D \<le> unat q \<and> unat q \<le> ?W div ?D + 1"
    proof (rule div_guess)
      show "2 ^ 63 \<le> unat (sdiv ! 0)" "unat (x ! 1) \<le> unat (sdiv ! 0)" "?W < ?D * 2 ^ 64" using d0 le W by (simp_all add: True)
      show "?W * 2 ^ 64 = (unat (x ! 1) * 2 ^ 128 + unat (x ! 0) * 2 ^ 64 + unat (0 :: u64)) * 1 + 0" "?D * 2 ^ 64 = (unat (sdiv ! 0) * 2 ^ 64 + unat (0 :: u64)) * 1 + 0"
        unfolding x by simp_all
    qed simp_all
    then show ?thesis by (simp add: True)
  next
    case False
    then have n2: "2 \<le> n" using n(1) by simp
    let ?P = "2 ^ (64 * (n - 2)) :: nat"
    have "(2 :: nat) ^ (64 * n) = 2 ^ 128 * ?P" using n2 by (simp only: power_add [symmetric]) simp
    then have x: "?W = (unat (x ! n) * 2 ^ 128 + unat (x ! (n - 1)) * 2 ^ 64 + unat (x ! (n - 2))) * ?P + words_val (take (n - 2) x)"
      using words_top(1) [of "n + 1" x] words_top_2 [OF n2, of x] n by (simp add: algebra_simps)
    have "\<exists>q. div_guess (sdiv ! (n - 1)) (sdiv ! (n - 2)) (x ! n) (x ! (n - 1)) (x ! (n - 2)) = Some q \<and> ?W div ?D \<le> unat q \<and> unat q \<le> ?W div ?D + 1"
    proof (rule div_guess [OF d0 le W])
      show "words_val (take (n - 2) x) < ?P" "words_val (take (n - 2) sdiv) < ?P"
        using words_val_less [of "take (n - 2) x"] words_val_less [of "take (n - 2) sdiv"] n by simp_all
      show "?W * 1 = (unat (x ! n) * 2 ^ 128 + unat (x ! (n - 1)) * 2 ^ 64 + unat (x ! (n - 2))) * ?P + words_val (take (n - 2) x)" using x by simp
      show "?D * 1 = (unat (sdiv ! (n - 1)) * 2 ^ 64 + unat (sdiv ! (n - 2))) * ?P + words_val (take (n - 2) sdiv)" using words_top_2 [OF n2 n(2)] by simp
    qed simp
    then show ?thesis using False by simp
  qed
qed

text \<open>The correction: \<open>b\<close> is the borrow of the subtraction; the top word \<open>T\<close> of the difference ends as 0.\<close>

lemma div_correct:
  fixes W D Q P B L L' T b c :: nat
  assumes "0 < D" "D \<le> P" "W div D \<le> Q" "Q \<le> W div D + 1" "b \<le> 1" "L < P" "T < B" "L' < P"
    and "L + P * T + Q * D = W + P * B * b" "L' + P * c = L + (if b = 1 then D else 0)"
  shows "Q - b = W div D" "b \<le> Q" "L' = W mod D" "b = 0 \<Longrightarrow> c = 0 \<and> T = 0" "b = 1 \<Longrightarrow> T + c = B"
proof -
  have W: "W = W div D * D + W mod D" "W mod D < D" using assms(1) by simp_all
  have "Q - b = W div D \<and> b \<le> Q \<and> L' = W mod D \<and> (b = 0 \<longrightarrow> c = 0 \<and> T = 0) \<and> (b = 1 \<longrightarrow> T + c = B)"
  proof (cases "b = 0")
    case True
    then have q: "Q * D \<le> W" using assms(9) by simp
    then have "Q \<le> W div D" using assms(1) by (simp add: less_eq_div_iff_mult_less_eq)
    then have Q: "Q = W div D" using assms(3) by simp
    have "L' + P * c = L" using assms(10) True by simp
    then have c: "c = 0" using assms(6) by (rule no_carry)
    have "L + P * T + W div D * D = W" using assms(9) True unfolding Q by simp
    then have "L + P * T = W mod D" using W(1) by linarith
    moreover have "W mod D < P" using W(2) assms(2) by simp
    ultimately have "T = 0" by (rule no_carry)
    then show ?thesis using Q True c \<open>L + P * T = W mod D\<close> \<open>L' + P * c = L\<close> by simp
  next
    case False
    then have b: "b = 1" using assms(5) by simp
    have "L + P * T < P * B"
    proof -
      have "P * (T + 1) \<le> P * B" using assms(7) by (intro mult_le_mono2) simp
      then show ?thesis using assms(6) by simp
    qed
    then have "W < Q * D" using assms(9) b by simp
    then have "W div D < Q" using assms(1) by (simp add: div_less_iff_less_mult)
    then have Q: "Q = W div D + 1" using assms(4) by simp
    have "L + P * T + (W div D * D + D) = W + P * B" using assms(9) b unfolding Q by simp
    then have "L + P * T + D = P * B + W mod D" using W(1) by linarith
    then have e: "L' + P * (T + c) = W mod D + P * B" using assms(10) b by (simp add: algebra_simps)
    have "(L' + P * (T + c)) mod P = L'" "(W mod D + P * B) mod P = W mod D" using assms(2,8) W(2) by simp_all
    then have "L' = W mod D" unfolding e by simp
    moreover have "0 < P" using assms(8) by simp
    ultimately show ?thesis using e Q b by simp
  qed
  then show "Q - b = W div D" "b \<le> Q" "L' = W mod D" "b = 0 \<Longrightarrow> c = 0 \<and> T = 0" "b = 1 \<Longrightarrow> T + c = B" by blast+
qed

lemma masked_words: "words_val (map (\<lambda>x. x AND (0 - b)) ws) = (if b = 1 then words_val ws else 0)" if "unat b \<le> 1"
proof -
  have "b = 0 \<or> b = 1" using that by (rule bit_word_cases)
  then show ?thesis by (induction ws) auto
qed

lemma div_step:
  fixes sdiv s :: "u64 list" and n k :: nat
  defines "D \<equiv> words_val (take n sdiv)" and "W \<equiv> words_val (take (n + 1) (drop k s))"
  assumes n: "1 \<le> n" "n \<le> length sdiv" "k + n + 1 \<le> length s" "n + 1 \<le> length tmp"
    and d0: "2 ^ 63 \<le> unat (sdiv ! (n - 1))" and W: "W < D * 2 ^ 64"
  shows "\<exists>q s' tmp'. div_step (sdiv ! (n - 1)) (if n = 1 then 0 else sdiv ! (n - 2)) sdiv n k s tmp = Some (q, s', tmp') \<and> unat q = W div D \<and>
    length s' = length s \<and> length tmp' = length tmp \<and> take k s' = take k s \<and> words_val (take n (drop k s')) = W mod D"
proof -
  let ?x = "drop k s" and ?P = "2 ^ (64 * n) :: nat"
  have lx: "n + 1 \<le> length ?x" using n(3) by simp
  have i: "s ! (k + n) = ?x ! n" "s ! (k + n - 1) = ?x ! (n - 1)" "n \<noteq> 1 \<Longrightarrow> s ! (k + n - 2) = ?x ! (n - 2)" using n by simp_all
  obtain q where q: "div_guess (sdiv ! (n - 1)) (if n = 1 then 0 else sdiv ! (n - 2)) (s ! (k + n)) (s ! (k + n - 1)) (if n = 1 then 0 else s ! (k + n - 2)) = Some q"
      "W div D \<le> unat q" "unat q \<le> W div D + 1"
    using div_guess_words [OF n(1,2) lx d0 W [unfolded W_def D_def]] unfolding i(1,2) W_def [symmetric] D_def [symmetric]
    by (cases "n = 1") (auto simp: i(3))
  obtain t1 l where m: "bn_mul_words tmp sdiv n q = (t1, l)" by fastforce
  have ln: "n \<le> length tmp" "n < length tmp" using n(4) by simp_all
  note mw = bn_mul_words [OF ln(1) n(2) m]
  let ?t = "t1[n := l]"
  note pc = put_carry [OF ln(2) mw(1,2), of l]
  have t: "words_val (take (n + 1) ?t) = D * unat q" using pc(3) mw(3) by (simp add: D_def)
  obtain w b where sb: "bn_sub_words ?x ?x ?t (n + 1) = (w, b)" by fastforce
  have lt: "n + 1 \<le> length ?t" using pc(1) n(4) by simp
  note sw = bn_sub_words [OF lx lx lt sb, unfolded t W_def [symmetric]]
  let ?t2 = "map (\<lambda>x. x AND (0 - b)) (take n sdiv) @ drop n ?t"
  have t2: "length ?t2 = length tmp" "words_val (take n ?t2) = (if b = 1 then D else 0)"
    using n pc(1) masked_words [OF sw(3), of "take n sdiv"] by (simp_all add: D_def)
  obtain w2 c where ad: "bn_add_words w w ?t2 n = (w2, c)" by fastforce
  have lw: "n \<le> length w" "n \<le> length ?t2" "n < length w" using sw(1) lx t2(1) n by simp_all
  note aw = bn_add_words [OF lw(1,1,2) ad, unfolded t2(2)]
  let ?w3 = "w2[n := w2 ! n + c]"
  have st: "div_step (sdiv ! (n - 1)) (if n = 1 then 0 else sdiv ! (n - 2)) sdiv n k s tmp = Some (q - b, take k s @ ?w3, ?t2)"
    unfolding div_step_def Let_def q(1) bind.simps m prod.case sb ad ..
  have nth: "w2 ! n = w ! n" using arg_cong [OF aw(2), of "\<lambda>x. x ! 0"] lw aw(1) by simp
  have e1: "words_val (take n w) + ?P * unat (w ! n) + unat q * D = W + ?P * 2 ^ 64 * unat b"
    using sw(4) words_val_take_Suc [OF lw(3)] pow64_Suc [of n] by (simp add: algebra_simps)
  have e2: "words_val (take n w2) + ?P * unat c = words_val (take n w) + (if unat b = 1 then D else 0)"
    using aw(4) bit_word_cases [OF sw(3)] by auto
  have D: "0 < D" "D \<le> ?P"
  proof -
    show "0 < D" using words_top(1) [OF n(1,2)] d0 by (cases "unat (sdiv ! (n - 1))") (simp_all add: D_def)
    show "D \<le> ?P" using words_val_less [of "take n sdiv"] n(2) by (simp add: D_def)
  qed
  have less: "words_val (take n w) < ?P" "words_val (take n w2) < ?P"
    using words_val_less [of "take n w"] words_val_less [of "take n w2"] lw(1) aw(1) by simp_all
  note dc = div_correct [OF D q(2,3) sw(3) less(1) unat_u64 less(2) e1 e2]
  have "unat (q - b) = W div D" using dc(1,2) by (simp add: unat_sub word_le_nat_alt)
  moreover have "length (take k s @ ?w3) = length s" "take k (take k s @ ?w3) = take k s" "words_val (take n (drop k (take k s @ ?w3))) = W mod D"
    using n(3) aw(1) sw(1) dc(3) by simp_all
  ultimately show ?thesis using st t2(1) by blast
qed

subsection \<open>All words\<close>

lemma div_loop:
  fixes sdiv :: "u64 list" and n :: nat
  defines "D \<equiv> words_val (take n sdiv)"
  assumes n: "1 \<le> n" "n \<le> length sdiv" and d0: "2 ^ 63 \<le> unat (sdiv ! (n - 1))"
  shows "k + n \<le> length s \<Longrightarrow> n + 1 \<le> length tmp \<Longrightarrow> k \<le> length resp \<Longrightarrow> words_val (take n (drop k s)) < D \<Longrightarrow>
    \<exists>resp' s'. div_loop (sdiv ! (n - 1)) (if n = 1 then 0 else sdiv ! (n - 2)) sdiv n k resp s tmp = Some (resp', s') \<and>
      length resp' = length resp \<and> drop k resp' = drop k resp \<and> length s' = length s \<and> words_val (take n s') < D \<and>
      words_val (take (k + n) s) = words_val (take k resp') * D + words_val (take n s')"
proof (induction k arbitrary: resp s tmp)
  case (Suc k)
  let ?W = "words_val (take (n + 1) (drop k s))"
  have l: "k < length s" "k + n + 1 \<le> length s" using Suc.prems(1) n(1) by simp_all
  have x: "take (n + 1) (drop k s) = s ! k # take n (drop (Suc k) s)" using l(1) by (simp add: Cons_nth_drop_Suc [symmetric])
  have W: "?W < D * 2 ^ 64"
  proof -
    have "(words_val (take n (drop (Suc k) s)) + 1) * 2 ^ 64 \<le> D * 2 ^ 64" using Suc.prems(4) by (intro mult_le_mono1) simp
    then show ?thesis unfolding x using unat_u64 [of "s ! k"] by simp
  qed
  obtain q s1 tmp1 where st: "div_step (sdiv ! (n - 1)) (if n = 1 then 0 else sdiv ! (n - 2)) sdiv n k s tmp = Some (q, s1, tmp1)"
      "unat q = ?W div D" "length s1 = length s" "length tmp1 = length tmp" "take k s1 = take k s" "words_val (take n (drop k s1)) = ?W mod D"
    using div_step [OF n l(2) Suc.prems(2) d0 W [unfolded D_def]] unfolding D_def by blast
  have D: "0 < D" using Suc.prems(4) by simp
  have "\<exists>resp' s'. div_loop (sdiv ! (n - 1)) (if n = 1 then 0 else sdiv ! (n - 2)) sdiv n k (resp[k := q]) s1 tmp1 = Some (resp', s') \<and>
      length resp' = length (resp[k := q]) \<and> drop k resp' = drop k (resp[k := q]) \<and> length s' = length s1 \<and> words_val (take n s') < D \<and>
      words_val (take (k + n) s1) = words_val (take k resp') * D + words_val (take n s')"
    using Suc.prems D st(3,4,6) by (intro Suc.IH) simp_all
  then obtain resp' s' where ih: "div_loop (sdiv ! (n - 1)) (if n = 1 then 0 else sdiv ! (n - 2)) sdiv n k (resp[k := q]) s1 tmp1 = Some (resp', s')"
      "length resp' = length resp" "drop k resp' = drop k (resp[k := q])" "length s' = length s" "words_val (take n s') < D"
      "words_val (take (k + n) s1) = words_val (take k resp') * D + words_val (take n s')"
    using st(3) by auto
  have k: "k < length resp'" using ih(2) Suc.prems(3) by simp
  have "resp' ! k = q" using arg_cong [OF ih(3), of "\<lambda>x. x ! 0"] k ih(2) by simp
  then have r: "words_val (take (Suc k) resp') = words_val (take k resp') + 2 ^ (64 * k) * (?W div D)" using words_val_take_Suc [OF k] st(2) by simp
  have s: "words_val (take (Suc k + n) s) = words_val (take k s) + 2 ^ (64 * k) * ?W"
    using words_val_split [of k "Suc k + n" s] l by (simp add: Suc_diff_le)
  have s1: "words_val (take (k + n) s1) = words_val (take k s) + 2 ^ (64 * k) * (?W mod D)"
    using words_val_split [of k "k + n" s1] l st(3,5,6) by simp
  have "2 ^ (64 * k) * ?W = 2 ^ (64 * k) * (?W div D) * D + 2 ^ (64 * k) * (?W mod D)"
    by (simp only: mult.assoc distrib_left [symmetric] div_mult_mod_eq)
  then have "words_val (take (Suc k + n) s) = words_val (take (Suc k) resp') * D + words_val (take n s')"
    unfolding s r using ih(6) unfolding s1 by (simp add: distrib_right)
  moreover have "drop (Suc k) resp' = drop (Suc k) resp" using arg_cong [OF ih(3), of "drop 1"] by simp
  moreover have "div_loop (sdiv ! (n - 1)) (if n = 1 then 0 else sdiv ! (n - 2)) sdiv n (Suc k) resp s tmp = Some (resp', s')"
    by (simp only: div_loop.simps st(1) bind.simps prod.case ih(1))
  ultimately show ?case using ih(2,4,5) by blast
qed simp

subsection \<open>The shift of the divisor\<close>

lemma shift_split:
  assumes "k < 64" "unat m < 2 ^ k"
  shows "unat (push_bit k n OR m) + 2 ^ 64 * unat (drop_bit ((64 - k) mod 64) n AND shift_mask ((64 - k) mod 64)) = unat n * 2 ^ k + unat m"
    "unat (drop_bit ((64 - k) mod 64) n AND shift_mask ((64 - k) mod 64)) < 2 ^ k"
proof -
  have h: "drop_bit ((64 - k) mod 64) n AND shift_mask ((64 - k) mod 64) = drop_bit (64 - k) n"
    using assms(1) by (intro bit_word_eqI) (simp only: bit_high_part bit_drop_bit_eq o_def, simp add: add.commute)
  have p: "(2 :: nat) ^ 64 = 2 ^ (64 - k) * 2 ^ k" using assms(1) by (simp only: power_add [symmetric]) simp
  have lo: "unat (n AND mask (64 - k)) = unat n mod 2 ^ (64 - k)" by (rule unat_mask)
  have "push_bit k n = push_bit k (n AND mask (64 - k))"
    by (rule bit_word_eqI) (auto simp: bit_simps simp del: mask_numeral)
  moreover have "unat (push_bit k (n AND mask (64 - k)) OR m) = unat (n AND mask (64 - k)) * 2 ^ k + unat m"
    using assms by (intro unat_or_shift) (simp_all only: lo p mult_less_cancel2, simp_all)
  ultimately have l: "unat (push_bit k n OR m) = unat n mod 2 ^ (64 - k) * 2 ^ k + unat m" by (simp only: lo)
  have "unat n * 2 ^ k = unat n div 2 ^ (64 - k) * 2 ^ (64 - k) * 2 ^ k + unat n mod 2 ^ (64 - k) * 2 ^ k"
    by (simp only: distrib_right [symmetric] div_mult_mod_eq)
  then show "unat (push_bit k n OR m) + 2 ^ 64 * unat (drop_bit ((64 - k) mod 64) n AND shift_mask ((64 - k) mod 64)) = unat n * 2 ^ k + unat m"
    unfolding h l unat_drop p by (simp only: mult_ac add_ac)
  show "unat (drop_bit ((64 - k) mod 64) n AND shift_mask ((64 - k) mod 64)) < 2 ^ k"
    unfolding h unat_drop using unat_u64 [of n] unfolding p by (simp only: mult.commute less_mult_imp_div_less)
qed

lemma align_loop:
  assumes "k < 64"
  shows "unat m < 2 ^ k \<Longrightarrow> words_val d * 2 ^ k + unat m < 2 ^ (64 * length d) \<Longrightarrow>
    length (align_loop k ((64 - k) mod 64) (shift_mask ((64 - k) mod 64)) d m) = length d \<and>
    words_val (align_loop k ((64 - k) mod 64) (shift_mask ((64 - k) mod 64)) d m) = words_val d * 2 ^ k + unat m"
proof (induction d arbitrary: m)
  case (Cons n d)
  let ?h = "drop_bit ((64 - k) mod 64) n AND shift_mask ((64 - k) mod 64)"
  note s = shift_split [OF assms Cons.prems(1), of n]
  have e: "words_val (n # d) * 2 ^ k + unat m = unat (push_bit k n OR m) + 2 ^ 64 * (words_val d * 2 ^ k + unat ?h)"
    using s(1) by (simp add: algebra_simps)
  have "2 ^ 64 * (words_val d * 2 ^ k + unat ?h) < 2 ^ 64 * 2 ^ (64 * length d)"
    using Cons.prems(2) unfolding e length_Cons pow64_Suc by linarith
  then have "words_val d * 2 ^ k + unat ?h < 2 ^ (64 * length d)" by (simp only: mult_less_cancel1)
  note ih = Cons.IH [OF s(2) this]
  show ?case using ih unfolding e by (simp add: limb_simps)
qed simp

lemma bn_left_align:
  assumes "bn_fits a" "0 < bn_top a" "bn_d a ! (bn_top a - 1) \<noteq> 0" "bn_left_align a = (k, c)"
  shows "k < 64" "bn_fits c" "bn_top c = bn_top a" "bn_nat c = bn_nat a * 2 ^ k" "2 ^ 63 \<le> unat (bn_d c ! (bn_top a - 1))"
proof -
  let ?n = "bn_top a"
  let ?w = "bn_d a ! (?n - 1)"
  have l: "1 \<le> ?n" "?n \<le> length (bn_d a)" using assms(1,2) by (auto simp: bn_fits_def)
  note b = BN_num_bits_word_div [OF assms(3)]
  have nz: "BN_num_bits_word ?w \<noteq> 0" using assms(3) by (simp add: BN_num_bits_word unat_eq_zero)
  have k: "k = 64 - BN_num_bits_word ?w" "BN_num_bits_word ?w mod 64 = (64 - k) mod 64"
    using assms(4) b by (auto simp: bn_left_align_def Let_def BN_BITS2_def)
  show k64: "k < 64" using k(1) nz by simp
  let ?al = "align_loop k ((64 - k) mod 64) (shift_mask ((64 - k) mod 64)) (take ?n (bn_d a)) 0"
  have c: "c = a\<lparr>bn_d := ?al @ drop ?n (bn_d a)\<rparr>"
    using assms(4) k by (simp add: bn_left_align_def Let_def BN_BITS2_def)
  note t = words_top [OF l]
  have p: "(2 :: nat) ^ (64 * ?n) = 2 ^ 64 * 2 ^ (64 * (?n - 1))" using pow64_Suc [of "?n - 1"] assms(2) by simp
  have "bn_nat a * 2 ^ k < 2 ^ (64 * ?n)"
  proof -
    have "(unat ?w + 1) * 2 ^ k \<le> 2 ^ 64"
    proof -
      have "unat ?w < 2 ^ BN_num_bits_word ?w" using bit_len_le [of "unat ?w" "BN_num_bits_word ?w"] by (simp add: BN_num_bits_word)
      then have "(unat ?w + 1) * 2 ^ k \<le> 2 ^ BN_num_bits_word ?w * 2 ^ k" by (intro mult_le_mono1) simp
      also have "\<dots> = 2 ^ 64" using k(1) b by (simp only: power_add [symmetric]) simp
      finally show ?thesis .
    qed
    then have "(unat ?w + 1) * 2 ^ k * 2 ^ (64 * (?n - 1)) \<le> 2 ^ (64 * ?n)" unfolding p by (rule mult_le_mono1)
    moreover have "bn_nat a < (unat ?w + 1) * 2 ^ (64 * (?n - 1))" using t by (simp add: bn_nat_def)
    then have "bn_nat a * 2 ^ k < (unat ?w + 1) * 2 ^ (64 * (?n - 1)) * 2 ^ k" by simp
    ultimately show ?thesis by (simp only: mult.assoc mult.commute mult.left_commute)
  qed
  then have al: "length ?al = ?n" "words_val ?al = bn_nat a * 2 ^ k"
    using align_loop [OF k64, of 0 "take ?n (bn_d a)"] l by (simp_all add: bn_nat_def)
  show f: "bn_fits c" "bn_top c = ?n" "bn_nat c = bn_nat a * 2 ^ k" using assms(1) al l by (simp_all add: c bn_fits_def bn_nat_def)
  have "2 ^ 63 * 2 ^ (64 * (?n - 1)) \<le> unat ?w * 2 ^ k * 2 ^ (64 * (?n - 1))" using b k(1) by (intro mult_le_mono1) simp
  also have "\<dots> \<le> bn_nat a * 2 ^ k" using t(1) by (simp add: bn_nat_def)
  also have "\<dots> = bn_nat c" using f(3) by simp
  also have "\<dots> < (unat (bn_d c ! (?n - 1)) + 1) * 2 ^ (64 * (?n - 1))"
    using words_top [of ?n "bn_d c"] l(1) f(1,2) by (simp add: bn_nat_def bn_fits_def)
  finally have "2 ^ 63 < unat (bn_d c ! (?n - 1)) + 1" by (simp only: mult_less_cancel2)
  then show "2 ^ 63 \<le> unat (bn_d c ! (?n - 1))" by simp
qed

subsection \<open>Big numbers\<close>

lemma quot_rem: "x = a * d + b \<Longrightarrow> b < d \<Longrightarrow> a = x div d \<and> b = x mod d" for d :: nat
  by simp

text \<open>The part of the function after the numbers are there: \<open>sd\<close> is the aligned divisor and \<open>sn\<close> the shifted dividend.\<close>

lemma div_words:
  assumes sd: "bn_fits sd" "0 < bn_top sd" "2 ^ 63 \<le> unat (bn_d sd ! (bn_top sd - 1))" "bn_nat sd = D * 2 ^ k"
    and sn: "bn_fits sn" "bn_nat sn = N * 2 ^ k" "bn_top sd < bn_top sn" "N * 2 ^ k < 2 ^ (64 * (bn_top sn - 1)) * 2 ^ 63"
    and l: "bn_top sd + 1 \<le> length tmp" "bn_top sn - bn_top sd \<le> length resp"
  shows "\<exists>resp' s'. div_loop (bn_d sd ! (bn_top sd - 1)) (if bn_top sd = 1 then 0 else bn_d sd ! (bn_top sd - 2)) (bn_d sd) (bn_top sd)
      (bn_top sn - bn_top sd) resp (bn_d sn) tmp = Some (resp', s') \<and> length resp' = length resp \<and> length s' = length (bn_d sn) \<and>
      words_val (take (bn_top sn - bn_top sd) resp') = N div D \<and> words_val (take (bn_top sd) s') = N mod D * 2 ^ k"
proof -
  let ?n = "bn_top sd" and ?k = "bn_top sn - bn_top sd"
  have n: "1 \<le> ?n" "?n \<le> length (bn_d sd)" "?k + ?n = bn_top sn" "bn_top sn \<le> length (bn_d sn)" using sd(1,2) sn(1,3) by (auto simp: bn_fits_def)
  have p: "(2 :: nat) ^ (64 * (bn_top sn - 1)) = 2 ^ (64 * ?k) * 2 ^ (64 * (?n - 1))"
    using n(1,3) by (simp only: power_add [symmetric]) (simp add: algebra_simps)
  have "2 ^ (64 * ?k) * words_val (take ?n (drop ?k (bn_d sn))) \<le> N * 2 ^ k"
    using words_val_split [of ?k "bn_top sn" "bn_d sn"] n sn(2,3) by (simp add: bn_nat_def)
  also have "\<dots> < 2 ^ (64 * ?k) * (2 ^ (64 * (?n - 1)) * 2 ^ 63)" using sn(4) unfolding p by (simp only: mult.assoc)
  finally have "words_val (take ?n (drop ?k (bn_d sn))) < 2 ^ (64 * (?n - 1)) * 2 ^ 63" by (simp only: mult_less_cancel1)
  also have "\<dots> \<le> 2 ^ (64 * (?n - 1)) * unat (bn_d sd ! (?n - 1))" using sd(3) by (rule mult_le_mono2)
  also have "\<dots> \<le> bn_nat sd" using words_top(1) [OF n(1,2)] by (simp add: bn_nat_def mult.commute)
  finally have top: "words_val (take ?n (drop ?k (bn_d sn))) < words_val (take ?n (bn_d sd))" by (simp only: bn_nat_def)
  obtain resp' s' where d: "div_loop (bn_d sd ! (?n - 1)) (if ?n = 1 then 0 else bn_d sd ! (?n - 2)) (bn_d sd) ?n ?k resp (bn_d sn) tmp = Some (resp', s')"
      "length resp' = length resp" "length s' = length (bn_d sn)" "words_val (take ?n s') < D * 2 ^ k"
      "N * 2 ^ k = words_val (take ?k resp') * (D * 2 ^ k) + words_val (take ?n s')"
    using div_loop [OF n(1,2) sd(3), of ?k "bn_d sn" tmp resp] n(3,4) l top sd(4) sn(2) unfolding bn_nat_def by auto
  have "0 < D * 2 ^ k" using d(4) by linarith
  then have D: "0 < D" by simp
  have "words_val (take ?k resp') = N * 2 ^ k div (D * 2 ^ k) \<and> words_val (take ?n s') = N * 2 ^ k mod (D * 2 ^ k)"
    using d(5,4) by (rule quot_rem)
  then show ?thesis using d(1-3) by (simp add: mult_mod_left)
qed

lemma padded:
  assumes "bn_fits sn0" "bn_nat sn0 = v" "bn_top sn0 = t + 1" "v < 2 ^ (64 * t) * 2 ^ 63"
    and "(if bn_top sn0 \<le> n then map_option (\<lambda>snum. snum\<lparr>bn_d := at (bn_top sn0) (memset0 (n - bn_top sn0 + 1)) (bn_d snum), bn_top := n + 1\<rparr>)
           (bn_wexpand alloc sn0 (n + 1)) else Some sn0) = Some sn"
  shows "bn_fits sn" "bn_nat sn = v" "n < bn_top sn" "v < 2 ^ (64 * (bn_top sn - 1)) * 2 ^ 63"
proof -
  have "bn_fits sn \<and> bn_nat sn = v \<and> n < bn_top sn \<and> t \<le> bn_top sn - 1"
  proof (cases "bn_top sn0 \<le> n")
    case True
    then obtain s1 where s1: "bn_wexpand alloc sn0 (n + 1) = Some s1" "sn = s1\<lparr>bn_d := at (bn_top sn0) (memset0 (n - bn_top sn0 + 1)) (bn_d s1), bn_top := n + 1\<rparr>"
      using assms(5) by auto
    note e = bn_wexpand [OF assms(1) s1(1)]
    let ?m = "n - bn_top sn0 + 1"
    have l: "?m \<le> length (drop (bn_top sn0) (bn_d s1))" "bn_top sn0 \<le> length (bn_d s1)" using e(2) True by simp_all
    note a = wrote_at [where f = "memset0 ?m", OF memset0_wrote [OF l(1)] l(2)]
    have "words_val (take (n + 1) (at (bn_top sn0) (memset0 ?m) (bn_d s1))) =
        words_val (take (bn_top sn0) (bn_d s1)) + 2 ^ (64 * bn_top sn0) * words_val (take ?m (drop (bn_top sn0) (at (bn_top sn0) (memset0 ?m) (bn_d s1))))"
      using words_val_split [of "bn_top sn0" "n + 1" "at (bn_top sn0) (memset0 ?m) (bn_d s1)"] True a(1,2) l(2) by (simp add: Suc_diff_le)
    then have "words_val (take (n + 1) (at (bn_top sn0) (memset0 ?m) (bn_d s1))) = v" using a(5) e(6) assms(2) by (simp add: bn_nat_def)
    then show ?thesis using s1(2) e(1,2) a(1) True assms(3) by (simp add: bn_fits_def bn_nat_def)
  next
    case False
    then show ?thesis using assms by auto
  qed
  then have h: "bn_fits sn" "bn_nat sn = v" "n < bn_top sn" "t \<le> bn_top sn - 1" by blast+
  show "bn_fits sn" "bn_nat sn = v" "n < bn_top sn" by fact+
  have "(2 :: nat) ^ (64 * t) \<le> 2 ^ (64 * (bn_top sn - 1))" using h(4) by (intro power_increasing) simp_all
  then have "(2 :: nat) ^ (64 * t) * 2 ^ 63 \<le> 2 ^ (64 * (bn_top sn - 1)) * 2 ^ 63" by (rule mult_le_mono1)
  then show "v < 2 ^ (64 * (bn_top sn - 1)) * 2 ^ 63" using assms(4) by (rule less_le_trans [rotated])
qed

lemma bn_div_fixed_top_run:
  assumes "bn_fits num" "bn_wf dr" "0 < bn_top dr" "bn_fits res" "bn_fits tmp" "bn_fits snum" "bn_fits sdiv"
    and c: "(case dv of None \<Rightarrow> BN_CTX_get ctx | Some r \<Rightarrow> Some (r, ctx)) = Some (res, ctx1)"
      "BN_CTX_get ctx1 = Some (tmp, ctx2)" "BN_CTX_get ctx2 = Some (snum, ctx3)" "BN_CTX_get ctx3 = Some (sdiv, ctx4)"
    and e: "BN_copy alloc sdiv dr = Some sd0" "bn_left_align sd0 = (k, sd)" "bn_lshift_fixed_top alloc snum num k = Some sn0"
      "(if bn_top sn0 \<le> bn_top sd then map_option (\<lambda>snum. snum\<lparr>bn_d := at (bn_top sn0) (memset0 (bn_top sd - bn_top sn0 + 1)) (bn_d snum), bn_top := bn_top sd + 1\<rparr>)
           (bn_wexpand alloc sn0 (bn_top sd + 1)) else Some sn0) = Some sn"
      "bn_wexpand alloc res (bn_top sn - bn_top sd) = Some res1" "bn_wexpand alloc tmp (bn_top sd + 1) = Some tmp1"
  shows "\<exists>q s. bn_div_fixed_top alloc ctx dv rm num dr = Some (map_option (\<lambda>_. q) dv,
        map_option (\<lambda>rm. case bn_rshift_fixed_top alloc rm s k of None \<Rightarrow> rm | Some r \<Rightarrow> r) rm) \<and>
      bn_fits q \<and> bn_nat q = bn_nat num div bn_nat dr \<and> bn_neg q = (bn_neg num \<noteq> bn_neg dr) \<and> bn_flags q = bn_flags res \<and>
      bn_fits s \<and> bn_nat s = bn_nat num mod bn_nat dr * 2 ^ k \<and> bn_neg s = bn_neg num \<and> bn_top s = bn_top dr \<and> k < 64"
proof -
  have d: "bn_fits dr" "bn_d dr ! (bn_top dr - 1) \<noteq> 0" using assms(2,3) by (simp_all add: bn_wf_def)
  note cp = BN_copy [OF assms(7) assms(2) e(1)]
  have f0: "bn_fits sd0" "0 < bn_top sd0" "bn_d sd0 ! (bn_top sd0 - 1) \<noteq> 0" using cp assms(3) by (auto simp: bn_wf_def)
  note al = bn_left_align [OF f0 e(2)]
  have tsd: "bn_top sd = bn_top dr" using al(3) cp by simp
  let ?sd = "sd\<lparr>bn_neg := False\<rparr>"
  have sd: "bn_fits ?sd" "0 < bn_top ?sd" "2 ^ 63 \<le> unat (bn_d ?sd ! (bn_top ?sd - 1))" "bn_nat ?sd = bn_nat dr * 2 ^ k"
  proof -
    have "bn_nat ?sd = bn_nat sd" by (simp add: bn_nat_def)
    then show "bn_nat ?sd = bn_nat dr * 2 ^ k" using al(4) cp by simp
  qed (use al f0(2) cp in \<open>simp_all add: bn_fits_def\<close>)
  note ls = bn_lshift_fixed_top [OF assms(1,6) e(3)]
  have "bn_nat num < 2 ^ (64 * bn_top num)" using words_val_less [of "take (bn_top num) (bn_d num)"] assms(1) by (simp add: bn_nat_def bn_fits_def)
  moreover have "(2 :: nat) ^ k \<le> 2 ^ 63" using al(1) by (intro power_increasing) simp_all
  ultimately have "bn_nat num * 2 ^ k < 2 ^ (64 * bn_top num) * 2 ^ 63" by (intro mult_less_le_imp_less) simp_all
  moreover have "bn_top sn0 = bn_top num + 1" using ls(5) al(1) by simp
  ultimately have sn: "bn_fits sn" "bn_nat sn = bn_nat num * 2 ^ k" "bn_top ?sd < bn_top sn" "bn_nat num * 2 ^ k < 2 ^ (64 * (bn_top sn - 1)) * 2 ^ 63"
    using padded [OF ls(1,2) _ _ e(4)] by simp_all
  note x = bn_wexpand [OF assms(4) e(5)] and y = bn_wexpand [OF assms(5) e(6)]
  let ?res = "res1\<lparr>bn_neg := (bn_neg num \<noteq> bn_neg dr), bn_top := bn_top sn - bn_top sd\<rparr>"
  have l: "bn_top ?sd + 1 \<le> length (bn_d tmp1)" "bn_top sn - bn_top ?sd \<le> length (bn_d ?res)" using x(2) y(2) by simp_all
  obtain resp s where dl: "div_loop (bn_d ?sd ! (bn_top ?sd - 1)) (if bn_top ?sd = 1 then 0 else bn_d ?sd ! (bn_top ?sd - 2)) (bn_d ?sd) (bn_top ?sd)
      (bn_top sn - bn_top ?sd) (bn_d ?res) (bn_d sn) (bn_d tmp1) = Some (resp, s)" "length resp = length (bn_d res1)" "length s = length (bn_d sn)"
      "words_val (take (bn_top sn - bn_top sd) resp) = bn_nat num div bn_nat dr" "words_val (take (bn_top sd) s) = bn_nat num mod bn_nat dr * 2 ^ k"
    using div_words [OF sd sn l] by auto
  let ?q = "?res\<lparr>bn_d := resp\<rparr>" and ?s = "sn\<lparr>bn_d := s, bn_neg := bn_neg num, bn_top := bn_top sd\<rparr>"
  have "bn_div_fixed_top alloc ctx dv rm num dr = Some (map_option (\<lambda>_. ?q) dv,
      map_option (\<lambda>rm. case bn_rshift_fixed_top alloc rm ?s k of None \<Rightarrow> rm | Some r \<Rightarrow> r) rm)"
  proof -
    have t: "bn_top ?sd = bn_top sd" "bn_d ?sd = bn_d sd" by simp_all
    have tr: "bn_d ?res = bn_d res1" by simp
    show ?thesis
      unfolding bn_div_fixed_top_def c bind.simps prod.case e(1,2,3) Let_def t e(4,5,6) dl(1) [unfolded t tr] tr by (rule refl)
  qed
  moreover have "bn_fits ?q" "bn_nat ?q = bn_nat num div bn_nat dr" "bn_fits ?s" "bn_nat ?s = bn_nat num mod bn_nat dr * 2 ^ k"
    using x(1,2) dl(2-5) sn(1,3) by (simp_all add: bn_fits_def) (simp_all add: bn_nat_def)
  ultimately show ?thesis using x(5) tsd al(1) by (intro exI [of _ ?q] exI [of _ ?s]) simp
qed

lemma bn_div_fixed_top:
  assumes "bn_fits num" "bn_wf dr" "0 < bn_top dr" "\<forall>x\<in>set ctx. bn_fits x" "\<forall>x\<in>set_option dv. bn_fits x"
    and r: "bn_div_fixed_top alloc ctx dv rm num dr = Some r"
  shows "\<exists>q s k. r = (map_option (\<lambda>_. q) dv, map_option (\<lambda>rm. case bn_rshift_fixed_top alloc rm s k of None \<Rightarrow> rm | Some r \<Rightarrow> r) rm) \<and>
      bn_fits q \<and> bn_nat q = bn_nat num div bn_nat dr \<and> bn_neg q = (bn_neg num \<noteq> bn_neg dr) \<and> (\<forall>x. dv = Some x \<longrightarrow> bn_flags q = bn_flags x) \<and>
      bn_fits s \<and> bn_nat s = bn_nat num mod bn_nat dr * 2 ^ k \<and> bn_neg s = bn_neg num \<and> bn_top s = bn_top dr \<and> k < 64"
proof -
  obtain res ctx1 tmp ctx2 snum ctx3 sdiv ctx4 where c: "(case dv of None \<Rightarrow> BN_CTX_get ctx | Some r \<Rightarrow> Some (r, ctx)) = Some (res, ctx1)"
      "BN_CTX_get ctx1 = Some (tmp, ctx2)" "BN_CTX_get ctx2 = Some (snum, ctx3)" "BN_CTX_get ctx3 = Some (sdiv, ctx4)"
    using r unfolding bn_div_fixed_top_def by (simp only: bind_eq_Some_conv split_paired_Ex prod.case) blast
  note u = r [unfolded bn_div_fixed_top_def c bind.simps prod.case]
  obtain sd0 where e1: "BN_copy alloc sdiv dr = Some sd0" using u by (cases "BN_copy alloc sdiv dr") simp_all
  obtain k sd where e2: "bn_left_align sd0 = (k, sd)" by fastforce
  note u = u [unfolded e1 e2 bind.simps prod.case Let_def]
  obtain sn0 where e3: "bn_lshift_fixed_top alloc snum num k = Some sn0" using u by (cases "bn_lshift_fixed_top alloc snum num k") simp_all
  let ?sd = "sd\<lparr>bn_neg := False\<rparr>"
  have t: "bn_top ?sd = bn_top sd" by simp
  let ?pad = "if bn_top sn0 \<le> bn_top sd then map_option (\<lambda>snum. snum\<lparr>bn_d := at (bn_top sn0) (memset0 (bn_top sd - bn_top sn0 + 1)) (bn_d snum), bn_top := bn_top sd + 1\<rparr>)
           (bn_wexpand alloc sn0 (bn_top sd + 1)) else Some sn0"
  note u = u [unfolded e3 bind.simps t]
  obtain sn where e4: "?pad = Some sn" using u by (cases ?pad) simp_all
  note u = u [unfolded e4 bind.simps]
  obtain res1 where e5: "bn_wexpand alloc res (bn_top sn - bn_top sd) = Some res1" using u by (cases "bn_wexpand alloc res (bn_top sn - bn_top sd)") simp_all
  note u = u [unfolded e5 bind.simps]
  obtain tmp1 where e6: "bn_wexpand alloc tmp (bn_top sd + 1) = Some tmp1" using u by (cases "bn_wexpand alloc tmp (bn_top sd + 1)") simp_all
  have f1: "bn_fits res \<and> (\<forall>x\<in>set ctx1. bn_fits x)"
  proof (cases dv)
    case None
    then show ?thesis using ctx_get [OF _ assms(4), of res ctx1] c(1) by simp
  qed (use c(1) assms(4,5) in auto)
  have f2: "bn_fits tmp \<and> (\<forall>x\<in>set ctx2. bn_fits x)" using ctx_get [OF c(2)] f1 by blast
  have f3: "bn_fits snum \<and> (\<forall>x\<in>set ctx3. bn_fits x)" using ctx_get [OF c(3)] f2 by blast
  have f4: "bn_fits sdiv" using ctx_get [OF c(4)] f3 by blast
  have fl: "\<forall>x. dv = Some x \<longrightarrow> bn_flags res = bn_flags x" using c(1) by auto
  obtain q s where q: "r = (map_option (\<lambda>_. q) dv, map_option (\<lambda>rm. case bn_rshift_fixed_top alloc rm s k of None \<Rightarrow> rm | Some r \<Rightarrow> r) rm)"
      "bn_fits q \<and> bn_nat q = bn_nat num div bn_nat dr \<and> bn_neg q = (bn_neg num \<noteq> bn_neg dr) \<and> bn_flags q = bn_flags res \<and>
      bn_fits s \<and> bn_nat s = bn_nat num mod bn_nat dr * 2 ^ k \<and> bn_neg s = bn_neg num \<and> bn_top s = bn_top dr \<and> k < 64"
    using bn_div_fixed_top_run [OF assms(1-3) conjunct1 [OF f1] conjunct1 [OF f2] conjunct1 [OF f3] f4 c e1 e2 e3 e4 e5 e6, of rm] r
    by (metis (no_types, lifting) option.inject)
  show ?thesis by (intro exI [of _ q] exI [of _ s] exI [of _ k]) (use q fl in simp)
qed

text \<open>The remainder: shifted back, or what was there when its array cannot grow.\<close>

lemma rem_shift:
  assumes "bn_fits s" "bn_nat s = m * 2 ^ k" "bn_neg s = n" "bn_top s = t" "0 < t" "k < 64" "bn_fits rm"
  shows "(if bn_wexpand alloc rm t = None then bn_rshift_fixed_top alloc rm s k = None
    else \<exists>c. bn_rshift_fixed_top alloc rm s k = Some c \<and> bn_fits c \<and> bn_nat c = m \<and> (bn_neg c \<longrightarrow> n) \<and> (bn_nat c \<noteq> 0 \<longrightarrow> bn_neg c = n) \<and> bn_flags c = bn_flags rm)"
proof -
  have k: "k div 64 = 0" using assms(6) by simp
  show ?thesis
  proof (cases "bn_wexpand alloc rm t")
    case None
    then show ?thesis using assms(4,5) k by (simp add: bn_rshift_fixed_top_def BN_BITS2_def Let_def)
  next
    case (Some r1)
    then obtain c where c: "bn_rshift_fixed_top alloc rm s k = Some c" using assms(4,5) k by (simp add: bn_rshift_fixed_top_def BN_BITS2_def Let_def)
    show ?thesis using bn_rshift_fixed_top [OF assms(1,7) c] assms(2,3) c Some by simp
  qed
qed

lemma BN_div:
  assumes "bn_wf num" "bn_wf dr" "\<forall>x\<in>set ctx. bn_fits x" "\<forall>x\<in>set_option dv. bn_fits x" "\<forall>x\<in>set_option rm. bn_fits x"
    and r: "BN_div alloc ctx dv rm num dr = Some (q, r)"
  shows "bn_val dr \<noteq> 0"
    "q = None \<longleftrightarrow> dv = None" "r = None \<longleftrightarrow> rm = None"
    "dv = Some x \<Longrightarrow> q = Some c \<Longrightarrow> bn_wf c \<and> bn_val c = sgn (bn_val num) * sgn (bn_val dr) * (\<bar>bn_val num\<bar> div \<bar>bn_val dr\<bar>) \<and> bn_flags c = bn_flags x"
    "rm = Some x \<Longrightarrow> r = Some c \<Longrightarrow> if bn_wexpand alloc x (bn_top dr) = None then c = bn_correct_top x
      else bn_wf c \<and> bn_val c = sgn (bn_val num) * (\<bar>bn_val num\<bar> mod \<bar>bn_val dr\<bar>) \<and> bn_flags c = bn_flags x"
proof -
  have d: "\<not> BN_is_zero dr" "bn_d dr ! (bn_top dr - 1) \<noteq> 0" using r by (auto simp: BN_div_def split: if_splits)
  then have t: "0 < bn_top dr" by (simp add: BN_is_zero_def)
  then have nz: "bn_nat dr \<noteq> 0" using bn_nat_words(1) [OF assms(2)] by simp
  then show "bn_val dr \<noteq> 0" by (simp add: bn_val_def)
  obtain p where p: "bn_div_fixed_top alloc ctx dv rm num dr = Some p" "(q, r) = (map_option bn_correct_top (fst p), map_option bn_correct_top (snd p))"
    using r d by (auto simp: BN_div_def)
  have fn: "bn_fits num" using assms(1) by (simp add: bn_wf_def)
  obtain q1 s k where m: "p = (map_option (\<lambda>_. q1) dv, map_option (\<lambda>rm. case bn_rshift_fixed_top alloc rm s k of None \<Rightarrow> rm | Some r \<Rightarrow> r) rm)"
      "bn_fits q1" "bn_nat q1 = bn_nat num div bn_nat dr" "bn_neg q1 = (bn_neg num \<noteq> bn_neg dr)" "\<forall>x. dv = Some x \<longrightarrow> bn_flags q1 = bn_flags x"
      "bn_fits s" "bn_nat s = bn_nat num mod bn_nat dr * 2 ^ k" "bn_neg s = bn_neg num" "bn_top s = bn_top dr" "k < 64"
    using bn_div_fixed_top [OF fn assms(2) t assms(3,4) p(1)] by blast
  show "q = None \<longleftrightarrow> dv = None" "r = None \<longleftrightarrow> rm = None" using p(2) m(1) by auto
  have sg: "sgn (bn_val a) = (if bn_nat a = 0 then 0 else if bn_neg a then -1 else 1)" "\<bar>bn_val a\<bar> = int (bn_nat a)" for a by (auto simp: bn_val_def)
  show "bn_wf c \<and> bn_val c = sgn (bn_val num) * sgn (bn_val dr) * (\<bar>bn_val num\<bar> div \<bar>bn_val dr\<bar>) \<and> bn_flags c = bn_flags x"
    if w: "dv = Some x" "q = Some c"
  proof -
    have c: "c = bn_correct_top q1" using w p(2) m(1) by simp
    note h = bn_correct_top [OF m(2), folded c] bn_neg_correct_top [OF m(2), folded c]
    have "bn_val c = sgn (bn_val num) * sgn (bn_val dr) * int (bn_nat num div bn_nat dr)"
      using h m(3,4) nz unfolding sg by (cases "bn_nat q1 = 0") (auto simp: bn_val_def)
    then show ?thesis using h m(5) w unfolding sg(2) by (simp add: zdiv_int)
  qed
  show "if bn_wexpand alloc x (bn_top dr) = None then c = bn_correct_top x
      else bn_wf c \<and> bn_val c = sgn (bn_val num) * (\<bar>bn_val num\<bar> mod \<bar>bn_val dr\<bar>) \<and> bn_flags c = bn_flags x" if w: "rm = Some x" "r = Some c"
  proof -
    have fx: "bn_fits x" using assms(5) w(1) by simp
    show ?thesis
    proof (cases "bn_wexpand alloc x (bn_top dr) = None")
    case True
    then show ?thesis using rem_shift [OF m(6-9) t m(10) fx, of alloc] w p(2) m(1) by simp
  next
    case False
    then obtain c1 where c1: "bn_rshift_fixed_top alloc x s k = Some c1" "bn_fits c1" "bn_nat c1 = bn_nat num mod bn_nat dr"
        "bn_neg c1 \<longrightarrow> bn_neg num" "bn_nat c1 \<noteq> 0 \<longrightarrow> bn_neg c1 = bn_neg num" "bn_flags c1 = bn_flags x"
      using rem_shift [OF m(6-9) t m(10) fx, of alloc] by auto
    have c: "c = bn_correct_top c1" using w p(2) m(1) c1(1) by simp
    note h = bn_correct_top [OF c1(2), folded c] bn_neg_correct_top [OF c1(2), folded c]
    have "bn_val c = sgn (bn_val num) * int (bn_nat num mod bn_nat dr)"
      using h c1(3-5) unfolding sg by (cases "bn_nat c1 = 0") (auto simp: bn_val_def)
    then show ?thesis using h c1(6) unfolding if_not_P [OF False] sg(2) by (simp add: zmod_int)
    qed
  qed
qed

lemma BN_copy_room:
  assumes "bn_fits a" "bn_fits b" "BN_get_flags a BN_FLG_STATIC_DATA = 0"
  shows "\<exists>c. BN_copy True a b = Some c"
proof -
  have "bn_wexpand True a n \<noteq> None" if "n \<le> length (bn_d b)" for n
    using that assms bn_wexpand_None [OF assms(1), of True n] by (auto simp: bn_fits_def)
  then show ?thesis using assms(2) by (simp add: BN_copy_def Let_def bn_fits_def)
qed

lemma bn_div_fixed_top_total:
  assumes "bn_fits num" "bn_wf dr" "0 < bn_top dr" "\<forall>x\<in>set (case dv of None \<Rightarrow> ctx | Some q \<Rightarrow> q # ctx). bn_fits x \<and> BN_get_flags x BN_FLG_STATIC_DATA = 0"
    "4 \<le> length (case dv of None \<Rightarrow> ctx | Some q \<Rightarrow> q # ctx)" "max (bn_top num) (bn_top dr) < INT_MAX div (4 * BN_BITS2)"
  shows "bn_div_fixed_top True ctx dv rm num dr \<noteq> None"
proof -
  define xs where "xs = (case dv of None \<Rightarrow> ctx | Some q \<Rightarrow> q # ctx)"
  obtain res tmp snum sdiv ys where xs: "xs = res # tmp # snum # sdiv # ys"
    using assms(5) unfolding xs_def [symmetric] by (cases xs; cases "tl xs"; cases "tl (tl xs)"; cases "tl (tl (tl xs))") auto
  have f: "bn_fits x \<and> BN_get_flags x BN_FLG_STATIC_DATA = 0" if "x \<in> {res, tmp, snum, sdiv}" for x
    using assms(4) that unfolding xs_def [symmetric] xs by auto
  have c: "(case dv of None \<Rightarrow> BN_CTX_get ctx | Some r \<Rightarrow> Some (r, ctx)) = Some (res, tmp # snum # sdiv # ys)"
    using xs unfolding xs_def by (cases dv) simp_all
  have c': "BN_CTX_get (tmp # snum # sdiv # ys) = Some (tmp, snum # sdiv # ys)" "BN_CTX_get (snum # sdiv # ys) = Some (snum, sdiv # ys)"
    "BN_CTX_get (sdiv # ys) = Some (sdiv, ys)" by simp_all
  have room: "\<exists>y. bn_wexpand True x n = Some y" if "bn_fits x" "BN_get_flags x BN_FLG_STATIC_DATA = 0" "n \<le> max (bn_top num) (bn_top dr) + 1" for x n
    using that assms(6) bn_wexpand_None [of x True n] by (cases "bn_wexpand True x n") auto
  have fd: "bn_fits dr" using assms(2) by (simp add: bn_wf_def)
  obtain sd0 where e1: "BN_copy True sdiv dr = Some sd0" using BN_copy_room [OF _ fd] f [of sdiv] by auto
  obtain k sd where e2: "bn_left_align sd0 = (k, sd)" by fastforce
  note cp = BN_copy [OF _ assms(2) e1]
  have f0: "bn_fits sd0" "0 < bn_top sd0" "bn_d sd0 ! (bn_top sd0 - 1) \<noteq> 0" using cp f [of sdiv] assms(3) by (auto simp: bn_wf_def)
  note al = bn_left_align [OF f0 e2]
  have t: "bn_top sd = bn_top dr" using al(3) cp f [of sdiv] by simp
  obtain sn0 where e3: "bn_lshift_fixed_top True snum num k = Some sn0"
    using room [of snum "bn_top num + 1"] f [of snum] al(1) by (auto simp: bn_lshift_fixed_top_def Let_def BN_BITS2_def)
  note ls = bn_lshift_fixed_top [OF assms(1) conjunct1 [OF f] e3]
  have sn0: "bn_fits sn0" "bn_top sn0 = bn_top num + 1" "BN_get_flags sn0 BN_FLG_STATIC_DATA = 0"
    using ls al(1) f [of snum] by (simp_all add: BN_get_flags_def)
  let ?pad = "if bn_top sn0 \<le> bn_top sd then map_option (\<lambda>snum. snum\<lparr>bn_d := at (bn_top sn0) (memset0 (bn_top sd - bn_top sn0 + 1)) (bn_d snum), bn_top := bn_top sd + 1\<rparr>)
           (bn_wexpand True sn0 (bn_top sd + 1)) else Some sn0"
  obtain sn where e4: "?pad = Some sn" "bn_top sn \<le> max (bn_top num) (bn_top dr) + 1"
    using room [OF sn0(1,3), of "bn_top dr + 1"] sn0(2) t by (cases "bn_top sn0 \<le> bn_top sd") auto
  obtain res1 where e5: "bn_wexpand True res (bn_top sn - bn_top sd) = Some res1"
    using room [of res "bn_top sn - bn_top sd", OF _ _ le_trans [OF diff_le_self e4(2)]] f [of res] by auto
  obtain tmp1 where e6: "bn_wexpand True tmp (bn_top sd + 1) = Some tmp1" using room [of tmp "bn_top sd + 1"] f [of tmp] t by auto
  show ?thesis
    using bn_div_fixed_top_run [OF assms(1-3) _ _ _ _ c c' e1 e2 e3 e4(1) e5 e6, of rm] f by auto
qed

lemma BN_div_total:
  assumes "bn_wf num" "bn_wf dr" "bn_val dr \<noteq> 0" "\<forall>x\<in>set (case dv of None \<Rightarrow> ctx | Some q \<Rightarrow> q # ctx). bn_fits x \<and> BN_get_flags x BN_FLG_STATIC_DATA = 0"
    "4 \<le> length (case dv of None \<Rightarrow> ctx | Some q \<Rightarrow> q # ctx)" "max (bn_top num) (bn_top dr) < INT_MAX div (4 * BN_BITS2)"
  shows "BN_div True ctx dv rm num dr \<noteq> None"
proof -
  have fn: "bn_fits num" using assms(1) by (simp add: bn_wf_def)
  have t: "0 < bn_top dr" using assms(3) bn_nat_words(1) [OF assms(2)] by (cases "bn_neg dr") (auto simp: bn_val_def)
  then have "bn_d dr ! (bn_top dr - 1) \<noteq> 0" using assms(2) by (simp add: bn_wf_def)
  then show ?thesis using bn_div_fixed_top_total [OF fn assms(2) t assms(4-6)] t by (auto simp: BN_div_def BN_is_zero_def)
qed

text \<open>C30: Division of two big numbers gives the quotient and the remainder of the integers, rounded towards zero, in normal form; it fails
  for a divisor of zero, and otherwise only for want of memory or context numbers. When only the array of the remainder cannot
  grow, the call succeeds all the same and leaves the old number there.\<close>

theorem bn_div_exact:
  assumes "bn_wf num" "bn_wf dr" "bn_fits q" "bn_fits r" "\<forall>x\<in>set ctx. bn_fits x"
  shows "case BN_div alloc ctx (Some q) (Some r) num dr of
       None \<Rightarrow> bn_val dr = 0 \<or> \<not> (alloc \<and> 3 \<le> length ctx \<and> (\<forall>x\<in>set (q # ctx). BN_get_flags x BN_FLG_STATIC_DATA = 0) \<and>
         max (bn_top num) (bn_top dr) < INT_MAX div (4 * BN_BITS2))
     | Some (q', r') \<Rightarrow> bn_val dr \<noteq> 0 \<and>
         (\<exists>c. q' = Some c \<and> bn_wf c \<and> bn_val c = sgn (bn_val num) * sgn (bn_val dr) * (\<bar>bn_val num\<bar> div \<bar>bn_val dr\<bar>)) \<and>
         (\<exists>c. r' = Some c \<and> (if bn_wexpand alloc r (bn_top dr) = None then c = bn_correct_top r
            else bn_wf c \<and> bn_val c = sgn (bn_val num) * (\<bar>bn_val num\<bar> mod \<bar>bn_val dr\<bar>)))"
proof (cases "BN_div alloc ctx (Some q) (Some r) num dr")
  case None
  then show ?thesis using BN_div_total [OF assms(1,2), of ctx "Some q" "Some r"] assms by auto
next
  case (Some p)
  obtain q' r' where p: "p = (q', r')" by fastforce
  have f: "\<forall>x\<in>set_option (Some q). bn_fits x" "\<forall>x\<in>set_option (Some r). bn_fits x" using assms(3,4) by simp_all
  note d = BN_div [OF assms(1,2,5) f Some [unfolded p]]
  obtain c1 c2 where c: "q' = Some c1" "r' = Some c2" using d(2,3) by auto
  show ?thesis using d(1) d(4) [OF refl c(1)] d(5) [OF refl c(2)] unfolding Some p c by simp
qed

theorem bn_div_exact_witness:
  "case BN_div True [bn_init, bn_init, bn_init] (Some bn_init) (Some bn_init) BN_value_one BN_value_one of
     None \<Rightarrow> False
   | Some (q', r') \<Rightarrow> (\<exists>c. q' = Some c \<and> bn_wf c \<and> bn_val c = 1) \<and> (\<exists>c. r' = Some c \<and> bn_wf c \<and> bn_val c = 0)"
proof -
  have f: "bn_fits bn_init" "BN_get_flags bn_init BN_FLG_STATIC_DATA = 0" by (simp_all add: bn_fits_def bn_init_def BN_get_flags_def)
  have o: "bn_val BN_value_one = 1" "bn_top BN_value_one = 1" by (simp_all add: BN_value_one_def bn_val_def bn_nat_def)
  have w: "bn_wexpand True bn_init 1 \<noteq> None" using bn_wexpand_None [OF f(1), of True 1] f(2) by (simp add: INT_MAX_def BN_BITS2_def)
  show ?thesis using bn_div_exact [OF one_wf one_wf f(1) f(1), of "[bn_init, bn_init, bn_init]" True] f w
    by (cases "BN_div True [bn_init, bn_init, bn_init] (Some bn_init) (Some bn_init) BN_value_one BN_value_one") (auto simp: o INT_MAX_def BN_BITS2_def)
qed

end
