(* ===== verification/BnModProps.thy ===== *)
theory BnModProps
  imports BnMod BnDivProps
begin

text \<open>
  Arithmetic modulo a number: every function of \<^verbatim>\<open>bn_mod.c\<close> gives the residue in normal form. From here on the lemmas are stated
  where nothing fails: there is memory, the result and the numbers of the context may grow, and the operands are below the bound
  on the size of an array.
\<close>

subsection \<open>Room\<close>

definition MAXW :: nat where "MAXW = INT_MAX div (4 * BN_BITS2)"

definition room :: "bignum \<Rightarrow> bool" where
  "room r \<longleftrightarrow> bn_fits r \<and> BN_get_flags r BN_FLG_STATIC_DATA = 0"

definition ctx_ok :: "nat \<Rightarrow> bignum list \<Rightarrow> bool" where
  "ctx_ok k ctx \<longleftrightarrow> k \<le> length ctx \<and> (\<forall>x\<in>set ctx. room x)"

lemma room_wexpand: "room r \<Longrightarrow> n \<le> MAXW \<Longrightarrow> \<exists>x. bn_wexpand True r n = Some x"
  using bn_wexpand_None [of r True n] by (cases "bn_wexpand True r n") (auto simp: room_def MAXW_def)

lemma room_result: "bn_wf c \<Longrightarrow> bn_flags c = bn_flags r \<Longrightarrow> room r \<Longrightarrow> room c"
  by (simp add: room_def bn_wf_def BN_get_flags_def)

lemma ctx_ok_get: "ctx_ok (Suc k) ctx \<Longrightarrow> \<exists>x ctx'. BN_CTX_get ctx = Some (x, ctx') \<and> room x \<and> ctx_ok k ctx'"
  by (cases ctx) (auto simp: ctx_ok_def)

lemma ctx_ok_less: "ctx_ok k ctx \<Longrightarrow> j \<le> k \<Longrightarrow> ctx_ok j ctx"
  by (auto simp: ctx_ok_def)

lemma ctx_ok_all: "ctx_ok k ctx \<Longrightarrow> \<forall>x\<in>set ctx. bn_fits x" "ctx_ok k ctx \<Longrightarrow> \<forall>x\<in>set ctx. BN_get_flags x BN_FLG_STATIC_DATA = 0"
  by (auto simp: ctx_ok_def room_def)

lemma bn_top_le:
  assumes "bn_wf c" "bn_nat c < 2 ^ (64 * k)"
  shows "bn_top c \<le> k"
proof (rule ccontr)
  assume "\<not> bn_top c \<le> k"
  then have t: "1 \<le> bn_top c" "bn_top c \<le> length (bn_d c)" "bn_d c ! (bn_top c - 1) \<noteq> 0" "k \<le> bn_top c - 1"
    using assms(1) by (auto simp: bn_wf_def bn_fits_def)
  have "unat (bn_d c ! (bn_top c - 1)) \<noteq> 0" using t(3) by (simp add: unat_eq_zero)
  then have "1 * 2 ^ (64 * (bn_top c - 1)) \<le> unat (bn_d c ! (bn_top c - 1)) * 2 ^ (64 * (bn_top c - 1))" by (intro mult_le_mono1) simp
  then have "2 ^ (64 * (bn_top c - 1)) \<le> bn_nat c" using words_top(1) [OF t(1,2)] unfolding bn_nat_def by linarith
  moreover have "(2 :: nat) ^ (64 * k) \<le> 2 ^ (64 * (bn_top c - 1))" using t(4) by (intro power_increasing) simp_all
  ultimately show False using assms(2) by linarith
qed

lemma bn_nat_bound: "bn_fits a \<Longrightarrow> bn_nat a < 2 ^ (64 * bn_top a)"
  using words_val_less [of "take (bn_top a) (bn_d a)"] by (simp add: bn_nat_def bn_fits_def)

lemma bn_top_mono: "bn_wf c \<Longrightarrow> bn_wf a \<Longrightarrow> bn_nat c \<le> bn_nat a \<Longrightarrow> bn_top c \<le> bn_top a"
  using bn_nat_bound [of a] by (intro bn_top_le) (simp_all add: bn_wf_def)

lemma bn_val_nat: "\<bar>bn_val a\<bar> = int (bn_nat a)" "bn_val a = 0 \<longleftrightarrow> bn_nat a = 0"
  by (simp_all add: bn_val_def)

lemma bn_top_abs: "bn_wf c \<Longrightarrow> bn_wf a \<Longrightarrow> \<bar>bn_val c\<bar> \<le> \<bar>bn_val a\<bar> \<Longrightarrow> bn_top c \<le> bn_top a"
  by (rule bn_top_mono) (simp_all add: bn_val_nat)

lemma bn_val_pos: "0 \<le> bn_val a \<Longrightarrow> bn_val a = int (bn_nat a)"
  using bn_val_nat(1) [of a] by simp

lemma bn_val_neg: "bn_wf a \<Longrightarrow> bn_neg a \<longleftrightarrow> bn_val a < 0"
  by (rule bn_neg_val)

subsection \<open>Operations that do not fail\<close>

lemma BN_add_run:
  assumes "bn_wf a" "bn_wf b" "room r" "max (bn_top a) (bn_top b) < MAXW"
  shows "\<exists>c. BN_add True r a b = Some c \<and> bn_wf c \<and> bn_val c = bn_val a + bn_val b \<and> bn_flags c = bn_flags r"
  using BN_add_cases [OF assms(1,2), of r True] room_wexpand [OF assms(3), of "max (bn_top a) (bn_top b) + 1"] assms(3,4)
  by (cases "BN_add True r a b") (auto simp: room_def)

lemma BN_sub_run:
  assumes "bn_wf a" "bn_wf b" "room r" "max (bn_top a) (bn_top b) < MAXW"
  shows "\<exists>c. BN_sub True r a b = Some c \<and> bn_wf c \<and> bn_val c = bn_val a - bn_val b \<and> bn_flags c = bn_flags r"
  using BN_sub_cases [OF assms(1,2), of r True] room_wexpand [OF assms(3), of "max (bn_top a) (bn_top b) + 1"] assms(3,4)
  by (cases "BN_sub True r a b") (auto simp: room_def)

lemma BN_mul_run:
  assumes "bn_wf a" "bn_wf b" "room r" "ctx_ok 2 ctx" "8 * (bn_top a + bn_top b) \<le> MAXW"
  shows "\<exists>c. BN_mul True alias ctx r a b = Some c \<and> bn_wf c \<and> bn_val c = bn_val a * bn_val b \<and> bn_flags c = bn_flags r"
proof -
  have f: "bn_fits a" "bn_fits b" "bn_fits r" "\<forall>x\<in>set (r # ctx). BN_get_flags x BN_FLG_STATIC_DATA = 0" "2 \<le> length ctx"
    using assms by (auto simp: bn_wf_def room_def ctx_ok_def)
  obtain c where c: "BN_mul True alias ctx r a b = Some c"
    using BN_mul_total [OF f(1-3) ctx_ok_all(1) [OF assms(4)] f(4,5), of "alias"] assms(5) unfolding MAXW_def by auto
  then show ?thesis using BN_mul [OF f(1-3) ctx_ok_all(1) [OF assms(4)] c] by blast
qed

lemma BN_sqr_run:
  assumes "bn_wf a" "room r" "ctx_ok 2 ctx" "4 * bn_top a \<le> MAXW"
  shows "\<exists>c. BN_sqr True alias ctx r a = Some c \<and> bn_wf c \<and> bn_val c = bn_val a * bn_val a \<and> bn_flags c = bn_flags r"
proof -
  have f: "bn_fits a" "bn_fits r" "\<forall>x\<in>set (r # ctx). BN_get_flags x BN_FLG_STATIC_DATA = 0" "2 \<le> length ctx"
    using assms by (auto simp: bn_wf_def room_def ctx_ok_def)
  obtain c where c: "BN_sqr True alias ctx r a = Some c"
    using BN_sqr_total [OF f(1,2) ctx_ok_all(1) [OF assms(3)] f(3,4), of "alias"] assms(4) unfolding MAXW_def by auto
  then show ?thesis using BN_sqr [OF f(1,2) ctx_ok_all(1) [OF assms(3)] c] by blast
qed

lemma BN_div_run:
  assumes "bn_wf num" "bn_wf dr" "bn_val dr \<noteq> 0" "room r" "room q" "ctx_ok 3 ctx" "max (bn_top num) (bn_top dr) < MAXW"
  shows "\<exists>c d. BN_div True ctx (Some q) (Some r) num dr = Some (Some c, Some d) \<and>
    bn_wf c \<and> bn_val c = sgn (bn_val num) * sgn (bn_val dr) * (\<bar>bn_val num\<bar> div \<bar>bn_val dr\<bar>) \<and> bn_flags c = bn_flags q \<and>
    bn_wf d \<and> bn_val d = sgn (bn_val num) * (\<bar>bn_val num\<bar> mod \<bar>bn_val dr\<bar>) \<and> bn_flags d = bn_flags r"
proof -
  have f: "\<forall>x\<in>set_option (Some q). bn_fits x" "\<forall>x\<in>set_option (Some r). bn_fits x" using assms by (simp_all add: room_def)
  have "\<forall>x\<in>set (case Some q of None \<Rightarrow> ctx | Some q \<Rightarrow> q # ctx). bn_fits x \<and> BN_get_flags x BN_FLG_STATIC_DATA = 0"
    "4 \<le> length (case Some q of None \<Rightarrow> ctx | Some q \<Rightarrow> q # ctx)" using assms(5,6) by (auto simp: ctx_ok_def room_def)
  from BN_div_total [OF assms(1-3) this assms(7) [unfolded MAXW_def], of "Some r"]
  obtain q' r' where d: "BN_div True ctx (Some q) (Some r) num dr = Some (q', r')" by auto
  note b = BN_div [OF assms(1,2) ctx_ok_all(1) [OF assms(6)] f d]
  obtain c1 c2 where c: "q' = Some c1" "r' = Some c2" using b(2,3) by auto
  have "bn_wexpand True r (bn_top dr) \<noteq> None" using room_wexpand [OF assms(4), of "bn_top dr"] assms(7) by auto
  then show ?thesis using d b(4) [OF refl c(1)] b(5) [OF refl c(2)] unfolding c by simp
qed

lemma BN_mod_run:
  assumes "bn_wf num" "bn_wf dr" "bn_val dr \<noteq> 0" "room r" "ctx_ok 4 ctx" "max (bn_top num) (bn_top dr) < MAXW"
  shows "\<exists>d. BN_mod True ctx r num dr = Some d \<and> bn_wf d \<and> bn_val d = sgn (bn_val num) * (\<bar>bn_val num\<bar> mod \<bar>bn_val dr\<bar>) \<and> bn_flags d = bn_flags r"
proof -
  have f: "\<forall>x\<in>set_option (None :: bignum option). bn_fits x" "\<forall>x\<in>set_option (Some r). bn_fits x" using assms by (simp_all add: room_def)
  have "\<forall>x\<in>set (case None of None \<Rightarrow> ctx | Some q \<Rightarrow> q # ctx). bn_fits x \<and> BN_get_flags x BN_FLG_STATIC_DATA = 0"
    "4 \<le> length (case None of None \<Rightarrow> ctx | Some q \<Rightarrow> q # ctx)" using assms(5) by (auto simp: ctx_ok_def room_def)
  from BN_div_total [OF assms(1-3) this assms(6) [unfolded MAXW_def], of "Some r"]
  obtain q' r' where d: "BN_div True ctx None (Some r) num dr = Some (q', r')" by auto
  note b = BN_div [OF assms(1,2) ctx_ok_all(1) [OF assms(5)] f d]
  obtain c2 where c: "r' = Some c2" using b(3) by auto
  have "bn_wexpand True r (bn_top dr) \<noteq> None" using room_wexpand [OF assms(4), of "bn_top dr"] assms(6) by auto
  then show ?thesis using d b(5) [OF refl c] unfolding c by (simp add: BN_mod_def)
qed

lemma mod_trunc: "sgn m * (\<bar>m\<bar> mod \<bar>d\<bar>) + (if sgn m * (\<bar>m\<bar> mod \<bar>d\<bar>) < 0 then \<bar>d\<bar> else 0) = m mod \<bar>d\<bar>" if "d \<noteq> 0" for m d :: int
proof -
  have nn: "0 \<le> \<bar>m\<bar> mod \<bar>d\<bar>" using that by simp
  consider "0 \<le> m" | "m < 0" "\<bar>m\<bar> mod \<bar>d\<bar> = 0" | "m < 0" "0 < \<bar>m\<bar> mod \<bar>d\<bar>" using nn by linarith
  then show ?thesis
  proof cases
    case 1
    then show ?thesis using nn by (cases "m = 0") auto
  next
    case 2
    then have "\<bar>d\<bar> dvd m" by (simp add: mod_eq_0_iff_dvd)
    then show ?thesis using 2 by simp
  next
    case 3
    then have "m mod \<bar>d\<bar> = (- \<bar>m\<bar>) mod \<bar>d\<bar>" by simp
    also have "\<dots> = \<bar>d\<bar> - \<bar>m\<bar> mod \<bar>d\<bar>" using 3(2) by (simp only: zmod_zminus1_eq_if) simp
    finally show ?thesis using 3 by simp
  qed
qed

lemma BN_nnmod_run:
  assumes "bn_wf a" "bn_wf m" "bn_val m \<noteq> 0" "room r" "ctx_ok 4 ctx" "max (bn_top a) (bn_top m) < MAXW"
  shows "\<exists>c. BN_nnmod True ctx r a m = Some c \<and> bn_wf c \<and> bn_val c = bn_val a mod \<bar>bn_val m\<bar> \<and> bn_flags c = bn_flags r"
proof -
  obtain d where d: "BN_mod True ctx r a m = Some d" "bn_wf d" "bn_val d = sgn (bn_val a) * (\<bar>bn_val a\<bar> mod \<bar>bn_val m\<bar>)" "bn_flags d = bn_flags r"
    using BN_mod_run [OF assms] by blast
  note t = mod_trunc [OF assms(3), of "bn_val a", folded d(3)]
  have rd: "room d" by (rule room_result [OF d(2,4) assms(4)])
  have "0 \<le> \<bar>bn_val a\<bar> mod \<bar>bn_val m\<bar>" "\<bar>bn_val a\<bar> mod \<bar>bn_val m\<bar> < \<bar>bn_val m\<bar>" using assms(3) by simp_all
  moreover have "\<bar>sgn x * k\<bar> \<le> k" if "0 \<le> k" for x k :: int using that by (cases "x = 0") (simp_all add: abs_mult abs_sgn_eq)
  ultimately have "\<bar>bn_val d\<bar> \<le> \<bar>bn_val m\<bar>" unfolding d(3) by (meson less_imp_le order.trans)
  then have tp: "max (bn_top d) (bn_top m) < MAXW" using bn_top_abs [OF d(2) assms(2)] assms(6) by simp
  show ?thesis
  proof (cases "bn_neg d")
    case False
    then show ?thesis using d t bn_val_neg [OF d(2)] by (simp add: BN_nnmod_def)
  next
    case True
    then have neg: "bn_val d < 0" using bn_val_neg [OF d(2)] by simp
    show ?thesis
    proof (cases "bn_neg m")
      case True
      then have "\<bar>bn_val m\<bar> = - bn_val m" using bn_val_neg [OF assms(2)] by simp
      then show ?thesis using BN_sub_run [OF d(2) assms(2) rd tp] d t neg True \<open>bn_neg d\<close> by (auto simp: BN_nnmod_def)
    next
      case False
      then have "\<bar>bn_val m\<bar> = bn_val m" using bn_val_neg [OF assms(2)] by simp
      then show ?thesis using BN_add_run [OF d(2) assms(2) rd tp] d t neg False \<open>bn_neg d\<close> by (auto simp: BN_nnmod_def)
    qed
  qed
qed

subsection \<open>Sums, differences and products\<close>

lemma bn_top_sum:
  assumes "bn_wf c" "bn_wf a" "bn_wf b" "\<bar>bn_val c\<bar> \<le> \<bar>bn_val a\<bar> + \<bar>bn_val b\<bar>"
  shows "bn_top c \<le> max (bn_top a) (bn_top b) + 1"
proof (rule bn_top_le [OF assms(1)])
  let ?k = "max (bn_top a) (bn_top b)"
  have "bn_nat x < 2 ^ (64 * ?k)" if "x \<in> {a, b}" for x
  proof -
    have "(2 :: nat) ^ (64 * bn_top x) \<le> 2 ^ (64 * ?k)" using that by (intro power_increasing) auto
    moreover have "bn_nat x < 2 ^ (64 * bn_top x)" using that assms(2,3) by (intro bn_nat_bound) (auto simp: bn_wf_def)
    ultimately show ?thesis by linarith
  qed
  then have "bn_nat a < 2 ^ (64 * ?k)" "bn_nat b < 2 ^ (64 * ?k)" by simp_all
  then have "bn_nat a + bn_nat b < 2 * 2 ^ (64 * ?k)" by simp
  also have "\<dots> \<le> 2 ^ 64 * 2 ^ (64 * ?k)" by (rule mult_le_mono1) simp
  finally have "bn_nat a + bn_nat b < 2 ^ 64 * 2 ^ (64 * ?k)" .
  moreover have "bn_nat c \<le> bn_nat a + bn_nat b" using assms(4) by (simp add: bn_val_nat)
  ultimately show "bn_nat c < 2 ^ (64 * (?k + 1))" using pow64_Suc [of ?k] by simp
qed

lemma bn_top_product:
  assumes "bn_wf c" "bn_wf a" "bn_wf b" "\<bar>bn_val c\<bar> = \<bar>bn_val a * bn_val b\<bar>"
  shows "bn_top c \<le> bn_top a + bn_top b"
proof (rule bn_top_le [OF assms(1)])
  have "bn_nat a < 2 ^ (64 * bn_top a)" "bn_nat b < 2 ^ (64 * bn_top b)" using assms(2,3) by (auto intro: bn_nat_bound simp: bn_wf_def)
  then have "bn_nat a * bn_nat b < 2 ^ (64 * bn_top a) * 2 ^ (64 * bn_top b)" by (intro mult_strict_mono) simp_all
  moreover have "int (bn_nat c) = int (bn_nat a * bn_nat b)" using assms(4) by (simp add: abs_mult bn_val_nat)
  ultimately show "bn_nat c < 2 ^ (64 * (bn_top a + bn_top b))" by (simp only: of_nat_eq_iff distrib_left power_add)
qed

lemma BN_mod_add_run:
  assumes "bn_wf a" "bn_wf b" "bn_wf m" "bn_val m \<noteq> 0" "room r" "ctx_ok 4 ctx" "max (max (bn_top a) (bn_top b) + 1) (bn_top m) < MAXW"
  shows "\<exists>c. BN_mod_add True ctx r a b m = Some c \<and> bn_wf c \<and> bn_val c = (bn_val a + bn_val b) mod \<bar>bn_val m\<bar> \<and> bn_flags c = bn_flags r"
proof -
  have t: "max (bn_top a) (bn_top b) < MAXW" using assms(7) by (auto simp: max_def split: if_splits)
  obtain c where c: "BN_add True r a b = Some c" "bn_wf c" "bn_val c = bn_val a + bn_val b" "bn_flags c = bn_flags r"
    using BN_add_run [OF assms(1,2,5) t] by blast
  have "\<bar>bn_val c\<bar> \<le> \<bar>bn_val a\<bar> + \<bar>bn_val b\<bar>" unfolding c(3) by linarith
  then have "max (bn_top c) (bn_top m) < MAXW" using bn_top_sum [OF c(2) assms(1,2)] assms(7) by simp
  from BN_nnmod_run [OF c(2) assms(3,4) room_result [OF c(2,4) assms(5)] assms(6) this] show ?thesis by (simp add: BN_mod_add_def c)
qed

lemma BN_mod_sub_run:
  assumes "bn_wf a" "bn_wf b" "bn_wf m" "bn_val m \<noteq> 0" "room r" "ctx_ok 4 ctx" "max (max (bn_top a) (bn_top b) + 1) (bn_top m) < MAXW"
  shows "\<exists>c. BN_mod_sub True ctx r a b m = Some c \<and> bn_wf c \<and> bn_val c = (bn_val a - bn_val b) mod \<bar>bn_val m\<bar> \<and> bn_flags c = bn_flags r"
proof -
  have t: "max (bn_top a) (bn_top b) < MAXW" using assms(7) by (auto simp: max_def split: if_splits)
  obtain c where c: "BN_sub True r a b = Some c" "bn_wf c" "bn_val c = bn_val a - bn_val b" "bn_flags c = bn_flags r"
    using BN_sub_run [OF assms(1,2,5) t] by blast
  have "\<bar>bn_val c\<bar> \<le> \<bar>bn_val a\<bar> + \<bar>bn_val b\<bar>" unfolding c(3) by linarith
  then have "max (bn_top c) (bn_top m) < MAXW" using bn_top_sum [OF c(2) assms(1,2)] assms(7) by simp
  from BN_nnmod_run [OF c(2) assms(3,4) room_result [OF c(2,4) assms(5)] assms(6) this] show ?thesis by (simp add: BN_mod_sub_def c)
qed

lemma BN_mod_mul_run:
  assumes "bn_wf a" "bn_wf b" "bn_wf m" "bn_val m \<noteq> 0" "room r" "ctx_ok 5 ctx" "same \<Longrightarrow> a = b" "8 * (bn_top a + bn_top b) \<le> MAXW" "bn_top m < MAXW"
  shows "\<exists>c. BN_mod_mul True same ctx r a b m = Some c \<and> bn_wf c \<and> bn_val c = (bn_val a * bn_val b) mod \<bar>bn_val m\<bar> \<and> bn_flags c = bn_flags r"
proof -
  obtain t ctx' where t: "BN_CTX_get ctx = Some (t, ctx')" "room t" "ctx_ok 4 ctx'" using ctx_ok_get [of 4 ctx] assms(6) by auto
  have k: "ctx_ok 2 ctx'" by (rule ctx_ok_less [OF t(3)]) simp
  obtain d where d: "(if same then BN_sqr True False ctx' t a else BN_mul True False ctx' t a b) = Some d" "bn_wf d" "bn_val d = bn_val a * bn_val b"
  proof (cases same)
    case True
    then show ?thesis using BN_sqr_run [OF assms(1) t(2) k, of False] assms(7,8) that by auto
  next
    case False
    then show ?thesis using BN_mul_run [OF assms(1,2) t(2) k assms(8), of False] that by auto
  qed
  have "bn_top d \<le> bn_top a + bn_top b" by (rule bn_top_product [OF d(2) assms(1,2)]) (simp add: d(3))
  moreover have "0 < MAXW" using assms(9) by simp
  ultimately have "max (bn_top d) (bn_top m) < MAXW" using assms(8,9) by (cases "bn_top a + bn_top b") auto
  from BN_nnmod_run [OF d(2) assms(3-5) t(3) this] show ?thesis by (simp add: BN_mod_mul_def t(1) d(1,3))
qed

lemma BN_mod_sqr_run:
  assumes "bn_wf a" "bn_wf m" "bn_val m \<noteq> 0" "room r" "ctx_ok 4 ctx" "4 * bn_top a \<le> MAXW" "bn_top m < MAXW"
  shows "\<exists>c. BN_mod_sqr True alias ctx r a m = Some c \<and> bn_wf c \<and> bn_val c = bn_val a ^ 2 mod \<bar>bn_val m\<bar> \<and> bn_flags c = bn_flags r"
proof -
  have k: "ctx_ok 2 ctx" by (rule ctx_ok_less [OF assms(5)]) simp
  obtain c where c: "BN_sqr True alias ctx r a = Some c" "bn_wf c" "bn_val c = bn_val a * bn_val a" "bn_flags c = bn_flags r"
    using BN_sqr_run [OF assms(1,4) k assms(6)] by blast
  have "bn_top c \<le> bn_top a + bn_top a" by (rule bn_top_product [OF c(2) assms(1,1)]) (simp add: c(3))
  then have "max (bn_top c) (bn_top m) < MAXW" using assms(6,7) by (cases "bn_top a") auto
  from BN_mod_run [OF c(2) assms(2,3) room_result [OF c(2,4) assms(4)] assms(5) this]
  obtain d where d: "BN_mod True ctx c c m = Some d" "bn_wf d" "bn_val d = sgn (bn_val c) * (\<bar>bn_val c\<bar> mod \<bar>bn_val m\<bar>)" "bn_flags d = bn_flags c" by blast
  have "0 \<le> bn_val c" by (simp add: c(3))
  then have "bn_val d = bn_val c mod \<bar>bn_val m\<bar>" unfolding d(3) by (cases "bn_val c = 0") simp_all
  then show ?thesis using d c by (simp add: BN_mod_sqr_def power2_eq_square)
qed

lemma BN_mod_sub_quick_run:
  assumes "bn_wf a" "bn_wf b" "bn_wf m" "0 \<le> bn_val a" "bn_val a < bn_val m" "0 \<le> bn_val b" "bn_val b < bn_val m" "room r" "bn_top m + 1 < MAXW"
  shows "\<exists>c. BN_mod_sub_quick True r a b m = Some c \<and> bn_wf c \<and> bn_val c = (bn_val a - bn_val b) mod bn_val m \<and> bn_flags c = bn_flags r"
proof -
  have tp: "bn_top a \<le> bn_top m" "bn_top b \<le> bn_top m" using assms by (auto intro: bn_top_abs)
  then have t: "max (bn_top a) (bn_top b) < MAXW" using assms(9) by simp
  obtain c where c: "BN_sub True r a b = Some c" "bn_wf c" "bn_val c = bn_val a - bn_val b" "bn_flags c = bn_flags r"
    using BN_sub_run [OF assms(1,2,8) t] by blast
  show ?thesis
  proof (cases "bn_neg c")
    case False
    then have "0 \<le> bn_val c" using bn_val_neg [OF c(2)] by simp
    then have "bn_val c = (bn_val a - bn_val b) mod bn_val m" using assms(4-7) c(3) by (simp add: mod_pos_pos_trivial)
    then show ?thesis using c False by (simp add: BN_mod_sub_quick_def)
  next
    case True
    then have n: "bn_val c < 0" using bn_val_neg [OF c(2)] by simp
    have tc: "max (bn_top c) (bn_top m) < MAXW" using bn_top_abs [OF c(2) assms(3)] assms(4-7,9) c(3) by simp
    obtain d where d: "BN_add True c c m = Some d" "bn_wf d" "bn_val d = bn_val c + bn_val m" "bn_flags d = bn_flags c"
      using BN_add_run [OF c(2) assms(3) room_result [OF c(2,4) assms(8)] tc] by blast
    have "(bn_val a - bn_val b) mod bn_val m = (bn_val c + bn_val m) mod bn_val m" by (simp add: c(3))
    also have "\<dots> = bn_val d" unfolding d(3) using n assms(4-7) c(3) by (intro mod_pos_pos_trivial) simp_all
    finally show ?thesis using c d True by (simp add: BN_mod_sub_quick_def)
  qed
qed

subsection \<open>Shifts\<close>

lemma BN_lshift1_run:
  assumes "bn_wf a" "room r" "bn_top a < MAXW"
  shows "\<exists>c. BN_lshift1 True r a = Some c \<and> bn_wf c \<and> bn_val c = 2 * bn_val a \<and> bn_flags c = bn_flags r"
proof -
  obtain x where "bn_wexpand True r (bn_top a + 1) = Some x" using room_wexpand [OF assms(2), of "bn_top a + 1"] assms(3) by auto
  then obtain c where c: "BN_lshift1 True r a = Some c" by (auto simp: BN_lshift1_def)
  then show ?thesis using BN_lshift1 [OF assms(1) _ c] assms(2) by (simp add: room_def)
qed

lemma BN_lshift_run:
  assumes "bn_wf a" "room r" "bn_top a + n div 64 < MAXW"
  shows "\<exists>c. BN_lshift True r a (int n) = Some c \<and> bn_wf c \<and> bn_val c = bn_val a * 2 ^ n \<and> bn_flags c = bn_flags r"
proof -
  obtain x where "bn_wexpand True r (bn_top a + n div 64 + 1) = Some x" using room_wexpand [OF assms(2), of "bn_top a + n div 64 + 1"] assms(3) by auto
  then obtain c where c: "BN_lshift True r a (int n) = Some c" by (auto simp: BN_lshift_def bn_lshift_fixed_top_def BN_BITS2_def Let_def)
  then show ?thesis using BN_lshift [OF assms(1) _ c] assms(2) by (simp add: room_def)
qed

lemma BN_mod_lshift1_run:
  assumes "bn_wf a" "bn_wf m" "bn_val m \<noteq> 0" "room r" "ctx_ok 4 ctx" "max (bn_top a + 1) (bn_top m) < MAXW"
  shows "\<exists>c. BN_mod_lshift1 True ctx r a m = Some c \<and> bn_wf c \<and> bn_val c = (2 * bn_val a) mod \<bar>bn_val m\<bar> \<and> bn_flags c = bn_flags r"
proof -
  obtain c where c: "BN_lshift1 True r a = Some c" "bn_wf c" "bn_val c = 2 * bn_val a" "bn_flags c = bn_flags r"
    using BN_lshift1_run [OF assms(1,4)] assms(6) by auto
  have "\<bar>bn_val c\<bar> \<le> \<bar>bn_val a\<bar> + \<bar>bn_val a\<bar>" by (simp add: c(3))
  then have "max (bn_top c) (bn_top m) < MAXW" using bn_top_sum [OF c(2) assms(1,1)] assms(6) by simp
  from BN_nnmod_run [OF c(2) assms(2,3) room_result [OF c(2,4) assms(4)] assms(5) this] show ?thesis by (simp add: BN_mod_lshift1_def c)
qed

text \<open>One conditional subtraction of the modulus.\<close>

lemma reduce_run:
  assumes "bn_wf c" "bn_wf m" "0 \<le> bn_val c" "bn_val c < 2 * bn_val m" "room c" "bn_top m + 1 < MAXW"
  shows "\<exists>d. (if BN_cmp c m \<ge> 0 then BN_sub True c c m else Some c) = Some d \<and> bn_wf d \<and> bn_val d = bn_val c mod bn_val m \<and> bn_flags d = bn_flags c"
proof -
  have cmp: "BN_cmp c m \<ge> 0 \<longleftrightarrow> bn_val m \<le> bn_val c" using BN_cmp [OF assms(1,2)] by (auto simp: sgn_if)
  have tc: "max (bn_top c) (bn_top m) < MAXW" using bn_top_sum [OF assms(1,2,2)] assms(3,4,6) by simp
  show ?thesis
  proof (cases "bn_val m \<le> bn_val c")
    case True
    have "bn_val c mod bn_val m = (bn_val c - bn_val m) mod bn_val m" by simp
    also have "\<dots> = bn_val c - bn_val m" using True assms(4) by (intro mod_pos_pos_trivial) simp_all
    finally show ?thesis using BN_sub_run [OF assms(1,2,5) tc] True cmp by auto
  qed (use assms cmp in \<open>simp add: mod_pos_pos_trivial\<close>)
qed

lemma BN_mod_lshift1_quick_run:
  assumes "bn_wf a" "bn_wf m" "0 \<le> bn_val a" "bn_val a < bn_val m" "room r" "bn_top m + 1 < MAXW"
  shows "\<exists>c. BN_mod_lshift1_quick True r a m = Some c \<and> bn_wf c \<and> bn_val c = (2 * bn_val a) mod bn_val m \<and> bn_flags c = bn_flags r"
proof -
  have "bn_top a \<le> bn_top m" using assms by (intro bn_top_abs) simp_all
  then obtain c where c: "BN_lshift1 True r a = Some c" "bn_wf c" "bn_val c = 2 * bn_val a" "bn_flags c = bn_flags r"
    using BN_lshift1_run [OF assms(1,5)] assms(6) by auto
  show ?thesis using reduce_run [OF c(2) assms(2) _ _ room_result [OF c(2,4) assms(5)] assms(6)] c assms(3,4) by (auto simp: BN_mod_lshift1_quick_def)
qed

lemma bits_bounds: "bn_wf a \<Longrightarrow> bn_nat a \<noteq> 0 \<Longrightarrow> 2 ^ (BN_num_bits a - 1) \<le> bn_nat a \<and> bn_nat a < 2 ^ BN_num_bits a \<and> 0 < BN_num_bits a"
proof -
  assume h: "bn_wf a" "bn_nat a \<noteq> 0"
  have b: "BN_num_bits a = bit_len (bn_nat a)" by (rule BN_num_bits [OF h(1)])
  have p: "0 < bit_len (bn_nat a)" using h(2) bit_len_0(2) [of "bn_nat a"] by linarith
  moreover have "\<not> bit_len (bn_nat a) \<le> bit_len (bn_nat a) - 1" using p by simp
  ultimately show ?thesis unfolding b using bit_len_le [of "bn_nat a" "bit_len (bn_nat a) - 1"] bit_len_le [of "bn_nat a" "bit_len (bn_nat a)"] p by simp
qed

lemma mod_lshift_loop:
  assumes "bn_wf m" "2 * bn_top m + 2 \<le> MAXW"
  shows "bn_wf r \<Longrightarrow> 0 \<le> bn_val r \<Longrightarrow> bn_val r < bn_val m \<Longrightarrow> room r \<Longrightarrow>
    \<exists>c. mod_lshift_loop True r (int n) m = Some c \<and> bn_wf c \<and> bn_val c = (bn_val r * 2 ^ n) mod bn_val m \<and> bn_flags c = bn_flags r"
proof (induction n arbitrary: r rule: less_induct)
  case (less n)
  show ?case
  proof (cases "n = 0")
    case True
    then show ?thesis using less.prems by (subst mod_lshift_loop.simps) (simp add: mod_pos_pos_trivial)
  next
    case False
    have m0: "bn_val m = int (bn_nat m)" using less.prems(2,3) by (intro bn_val_pos) linarith
    have nr2: "bn_val r = int (bn_nat r)" using less.prems(2) by (rule bn_val_pos)
    have "int (bn_nat r) < int (bn_nat m)" using less.prems(3) unfolding m0 nr2 .
    then have nr1: "bn_nat r < bn_nat m" by simp
    then have m1: "bn_nat m \<noteq> 0" by simp
    note m0 = m1 m0 and nr = nr1 nr2
    note bm = bits_bounds [OF assms(1) m0(1)]
    have br: "BN_num_bits r \<le> BN_num_bits m" using nr(1) bm by (simp add: BN_num_bits [OF less.prems(1)] bit_len_le)
    define k where "k = min n (BN_num_bits m - BN_num_bits r)"
    have tr: "bn_top r \<le> bn_top m" using bn_top_mono [OF less.prems(1) assms(1)] nr(1) by simp
    have "bn_nat m < 2 ^ (64 * bn_top m)" using assms(1) by (intro bn_nat_bound) (simp add: bn_wf_def)
    then have "BN_num_bits m \<le> 64 * bn_top m" by (simp add: BN_num_bits [OF assms(1)] bit_len_le)
    then have kt: "k div 64 \<le> bn_top m" by (simp add: k_def)
    define j where "j = (if k = 0 then 1 else k)"
    define step where "step = (if int k \<noteq> 0 then map_option (\<lambda>r. (r, int n - int k)) (BN_lshift True r r (int k)) else map_option (\<lambda>r. (r, int n - 1)) (BN_lshift1 True r r))"
    obtain c where c: "step = Some (c, int (n - j))" "bn_wf c" "bn_val c = bn_val r * 2 ^ j" "bn_flags c = bn_flags r"
    proof (cases "k = 0")
      case True
      then show ?thesis using BN_lshift1_run [OF less.prems(1,4)] tr assms(2) False that by (auto simp: step_def j_def of_nat_diff)
    next
      case k: False
      obtain c where c: "BN_lshift True r r (int k) = Some c" "bn_wf c" "bn_val c = bn_val r * 2 ^ k" "bn_flags c = bn_flags r"
        using BN_lshift_run [OF less.prems(1,4), of k] tr kt assms(2) by auto
      then have "step = Some (c, int (n - k))" using k by (simp add: step_def k_def of_nat_diff)
      then show ?thesis using that c(2-4) k by (simp add: j_def)
    qed
    have less2: "bn_nat r * 2 ^ j < 2 * bn_nat m"
    proof (cases "k = 0")
      case True
      then show ?thesis using nr(1) by (simp add: j_def)
    next
      case False
      have "bn_nat r < 2 ^ BN_num_bits r" using bit_len_le [of "bn_nat r" "BN_num_bits r"] by (simp add: BN_num_bits [OF less.prems(1)])
      then have "bn_nat r * 2 ^ k < 2 ^ BN_num_bits r * 2 ^ k" by simp
      also have "\<dots> \<le> 2 ^ BN_num_bits m" using br by (simp add: k_def power_add [symmetric])
      also have "\<dots> = 2 * 2 ^ (BN_num_bits m - 1)" using bm by (cases "BN_num_bits m") simp_all
      also have "\<dots> \<le> 2 * bn_nat m" using bm by simp
      finally show ?thesis using False by (simp add: j_def)
    qed
    then have "int (bn_nat r * 2 ^ j) < int (2 * bn_nat m)" by (simp only: of_nat_less_iff)
    then have c2: "0 \<le> bn_val c" "bn_val c < 2 * bn_val m" using c(3) nr(2) m0(2) by simp_all
    obtain d where d: "(if BN_cmp c m \<ge> 0 then BN_sub True c c m else Some c) = Some d" "bn_wf d" "bn_val d = bn_val c mod bn_val m" "bn_flags d = bn_flags c"
      using reduce_run [OF c(2) assms(1) c2 room_result [OF c(2,4) less.prems(4)]] assms(2) by auto
    have j: "n - j < n" using False by (simp add: j_def)
    have "0 \<le> bn_val d" "bn_val d < bn_val m" using m0 by (simp_all add: d(3))
    from less.IH [OF j d(2) this room_result [OF d(2) _ less.prems(4)]] obtain e where
      e: "mod_lshift_loop True d (int (n - j)) m = Some e" "bn_wf e" "bn_val e = (bn_val d * 2 ^ (n - j)) mod bn_val m" "bn_flags e = bn_flags d"
      using d(4) c(4) by auto
    have "bn_val e = (bn_val r * 2 ^ j * 2 ^ (n - j)) mod bn_val m" unfolding e(3) d(3) c(3) by (simp only: mod_mult_left_eq)
    also have "\<dots> = (bn_val r * 2 ^ n) mod bn_val m" using False by (simp add: mult.assoc power_add [symmetric] j_def k_def)
    finally have v: "bn_val e = (bn_val r * 2 ^ n) mod bn_val m" .
    have mx: "\<not> int (BN_num_bits m) - int (BN_num_bits r) < 0" "(if int (BN_num_bits m) - int (BN_num_bits r) > int n then int n else int (BN_num_bits m) - int (BN_num_bits r)) = int k"
      using br by (auto simp: k_def)
    have n0: "0 < int n" using False by simp
    have "mod_lshift_loop True r (int n) m = Some e"
      by (subst mod_lshift_loop.simps)
        (simp only: Let_def if_P [OF n0] if_not_P [OF mx(1)] mx(2) step_def [symmetric] c(1) bind.simps prod.case d(1) e(1))
    then show ?thesis using e(2,4) v d(4) c(4) by simp
  qed
qed

lemma BN_mod_lshift_run:
  assumes "bn_wf a" "bn_wf m" "bn_val m \<noteq> 0" "room r" "ctx_ok 4 ctx" "bn_top a < MAXW" "2 * bn_top m + 2 \<le> MAXW"
  shows "\<exists>c. BN_mod_lshift True ctx r a (int n) m = Some c \<and> bn_wf c \<and> bn_val c = (bn_val a * 2 ^ n) mod \<bar>bn_val m\<bar> \<and> bn_flags c = bn_flags r"
proof -
  have "max (bn_top a) (bn_top m) < MAXW" using assms(6,7) by simp
  from BN_nnmod_run [OF assms(1-5) this] obtain c where
    c: "BN_nnmod True ctx r a m = Some c" "bn_wf c" "bn_val c = bn_val a mod \<bar>bn_val m\<bar>" "bn_flags c = bn_flags r" by blast
  obtain d where d: "(if bn_neg m then map_option (\<lambda>abs_m. abs_m\<lparr>bn_neg := False\<rparr>) (BN_dup True m) else Some m) = Some d" "bn_wf d" "bn_val d = \<bar>bn_val m\<bar>" "bn_top d = bn_top m"
  proof (cases "bn_neg m")
    case True
    obtain e where e: "BN_dup True m = Some e" "bn_wf e" "bn_nat e = bn_nat m" "bn_top e = bn_top m" using BN_dup [OF assms(2)] by blast
    have "bn_wf (e\<lparr>bn_neg := False\<rparr>)" "bn_val (e\<lparr>bn_neg := False\<rparr>) = int (bn_nat e)"
      using e(2) by (simp_all add: bn_wf_def bn_fits_def bn_val_def bn_nat_def)
    then show ?thesis using e that [of "e\<lparr>bn_neg := False\<rparr>"] True by (simp add: bn_val_nat)
  next
    case False
    then have "bn_val m = \<bar>bn_val m\<bar>" using bn_val_neg [OF assms(2)] by simp
    then show ?thesis using that [OF _ assms(2)] False by simp
  qed
  have "0 \<le> bn_val c" "bn_val c < bn_val d" using assms(3) by (simp_all add: c(3) d(3))
  from mod_lshift_loop [OF d(2) _ c(2) this room_result [OF c(2,4) assms(4)], of n] obtain e where
    e: "mod_lshift_loop True c (int n) d = Some e" "bn_wf e" "bn_val e = (bn_val c * 2 ^ n) mod bn_val d" "bn_flags e = bn_flags c"
    using assms(7) d(4) by auto
  have "bn_val e = (bn_val a * 2 ^ n) mod \<bar>bn_val m\<bar>" unfolding e(3) c(3) d(3) by (rule mod_mult_left_eq)
  moreover have "BN_mod_lshift True ctx r a (int n) m = Some e" by (simp add: BN_mod_lshift_def c(1) d(1) BN_mod_lshift_quick_def e(1))
  ultimately show ?thesis using e(2,4) c(4) by simp
qed

subsection \<open>Sums and differences of residues word by word\<close>

definition pad :: "bignum \<Rightarrow> nat \<Rightarrow> u64" where
  "pad a i = (if i < bn_top a then bn_d a ! i else 0)"

definition idx :: "bignum \<Rightarrow> nat \<Rightarrow> nat" where
  "idx a i = min i (length (bn_d a) - 1)"

lemma small_size: "bn_fits a \<Longrightarrow> bn_top a < 2 ^ 62 \<and> length (bn_d a) < 2 ^ 62"
  using bn_fits_size [of a] by simp

lemma masked_word:
  assumes "bn_fits a" "i < 2 ^ 62"
  shows "masked_word a i (idx a i) = pad a i"
proof -
  have l: "bn_top a \<le> length (bn_d a)" using assms(1) by (simp add: bn_fits_def)
  have b: "drop_bit (8 * 8 - 1) (word_of_nat i - word_of_nat (bn_top a) :: u64) = (if i < bn_top a then 1 else 0)"
    using assms small_size [OF assms(1)] by (intro less_bit) simp_all
  show ?thesis
  proof (cases "i < bn_top a")
    case True
    then have "idx a i = i" "bn_d a \<noteq> []" using l by (auto simp: idx_def)
    then show ?thesis using True b by (simp add: masked_word_def pad_def)
  qed (use b in \<open>simp add: masked_word_def pad_def\<close>)
qed

lemma next_index: "bn_fits a \<Longrightarrow> i + 1 < 2 ^ 62 \<Longrightarrow> next_index a (i + 1) (idx a i) = idx a (i + 1)"
  using less_bit [of "i + 1" "length (bn_d a)"] small_size [of a] by (auto simp: next_index_def idx_def)

lemma pad_words: "n \<le> length (bn_d a) \<or> bn_top a \<le> length (bn_d a) \<Longrightarrow> words_val (map (pad a) [0..<n]) = words_val (take (min n (bn_top a)) (bn_d a))"
proof (induction n)
  case (Suc n)
  then show ?case
  proof (cases "n < bn_top a")
    case True
    then have "n < length (bn_d a)" using Suc.prems by auto
    then show ?thesis using Suc True by (auto simp: words_val_append words_val_take_Suc pad_def min_def)
  next
    case False
    then show ?thesis using Suc by (auto simp: words_val_append pad_def min_def)
  qed
qed simp

lemma pad_nat: "bn_fits a \<Longrightarrow> bn_top a \<le> n \<Longrightarrow> words_val (map (pad a) [0..<n]) = bn_nat a"
  by (simp add: pad_words bn_nat_def bn_fits_def min_absorb2)

lemma mod_add_loop:
  assumes "bn_fits a" "bn_fits b"
  shows "i + n < 2 ^ 62 \<Longrightarrow> unat c \<le> 1 \<Longrightarrow> mod_add_loop a b n i (idx a i) (idx b i) c = (ts, c') \<Longrightarrow>
    length ts = n \<and> unat c' \<le> 1 \<and>
    words_val ts + 2 ^ (64 * n) * unat c' = words_val (map (pad a) [i..<i + n]) + words_val (map (pad b) [i..<i + n]) + unat c"
proof (induction n arbitrary: i c ts c')
  case (Suc n)
  define t where "t = pad a i + c"
  define c1 where "c1 = (if t < c then 1 else 0 :: u64)"
  define u where "u = pad b i + t"
  define c2 where "c2 = c1 + (if u < t then 1 else 0)"
  obtain us where us: "mod_add_loop a b n (i + 1) (idx a (i + 1)) (idx b (i + 1)) c2 = (us, c')" "ts = u # us"
    using Suc.prems(1,3) by (auto simp: Let_def masked_word [OF assms(1)] masked_word [OF assms(2)] next_index [OF assms(1), simplified]
        next_index [OF assms(2), simplified] t_def [symmetric] c1_def [symmetric] u_def [symmetric] c2_def [symmetric] limb_simps split: prod.splits)
  have t: "unat t + 2 ^ 64 * of_bool (t < c) = unat (pad a i) + unat c" unfolding t_def by (rule word_add_carry)
  have u: "unat u + 2 ^ 64 * of_bool (u < t) = unat (pad b i) + unat t" unfolding u_def by (rule word_add_carry)
  have c2: "unat c2 = of_bool (t < c) + of_bool (u < t)" by (simp add: c2_def c1_def)
  have sum: "unat u + 2 ^ 64 * unat c2 = unat (pad a i) + unat (pad b i) + unat c" unfolding c2 using t u by simp
  then have "2 ^ 64 * unat c2 < 2 ^ 64 * 2" using unat_u64 [of "pad a i"] unat_u64 [of "pad b i"] Suc.prems(2) by simp
  then have "unat c2 \<le> 1" by simp
  from Suc.IH [OF _ this us(1)] Suc.prems(1) have ih: "length us = n" "unat c' \<le> 1"
    "words_val us + 2 ^ (64 * n) * unat c' = words_val (map (pad a) [Suc i..<Suc i + n]) + words_val (map (pad b) [Suc i..<Suc i + n]) + unat c2" by simp_all
  have up: "[i..<i + Suc n] = i # [Suc i..<Suc i + n]" by (simp add: upt_rec)
  have "words_val ts + 2 ^ (64 * Suc n) * unat c' = unat u + 2 ^ 64 * (words_val us + 2 ^ (64 * n) * unat c')"
    unfolding pow64_Suc by (simp add: us(2) distrib_left)
  also have "\<dots> = words_val (map (pad a) [i..<i + Suc n]) + words_val (map (pad b) [i..<i + Suc n]) + unat c"
    unfolding ih(3) up using sum by simp
  finally show ?case using ih(1,2) us(2) by simp
qed simp

lemma select_words:
  assumes "length t = length x"
  shows "map2 (\<lambda>t x. ((-1 :: u64) AND t) OR (NOT (-1) AND x)) t x = t" "map2 (\<lambda>t x. ((0 :: u64) AND t) OR (NOT 0 AND x)) t x = x"
  using assms by (induction t x rule: list_induct2) simp_all

lemma bn_mod_add_fixed_top:
  assumes "bn_fits a" "bn_fits b" "bn_wf m" "bn_top a \<le> bn_top m" "bn_top b \<le> bn_top m" "bn_nat a < bn_nat m" "bn_nat b < bn_nat m" "bn_fits r"
    and "bn_mod_add_fixed_top alloc r a b m = Some c"
  shows "bn_fits c \<and> bn_nat c = (bn_nat a + bn_nat b) mod bn_nat m \<and> \<not> bn_neg c \<and> bn_flags c = bn_flags r \<and> bn_top c = bn_top m"
proof -
  let ?n = "bn_top m" and ?M = "bn_nat m"
  obtain r1 where r1: "bn_wexpand alloc r ?n = Some r1" using assms(9) by (cases "bn_wexpand alloc r ?n") (simp_all add: bn_mod_add_fixed_top_def Let_def)
  note x = bn_wexpand [OF assms(8) r1]
  have fm: "bn_fits m" "?n \<le> length (bn_d m)" using assms(3) by (simp_all add: bn_wf_def bn_fits_def)
  obtain tp k where t: "mod_add_loop a b ?n 0 0 0 0 = (tp, k)" by fastforce
  have "mod_add_loop a b ?n 0 (idx a 0) (idx b 0) 0 = (tp, k)" using t by (simp add: idx_def)
  from mod_add_loop [OF assms(1,2) _ _ this] small_size [OF fm(1)] have
    tp: "length tp = ?n" "unat k \<le> 1" "words_val tp + 2 ^ (64 * ?n) * unat k = bn_nat a + bn_nat b"
    by (simp_all add: pad_nat assms(1,2,4,5))
  obtain rp w where s: "bn_sub_words (bn_d r1) tp (bn_d m) ?n = (rp, w)" by fastforce
  note sw = bn_sub_words [OF x(2) _ fm(2) s]
  have sw: "length rp = length (bn_d r1)" "unat w \<le> 1" "words_val (take ?n rp) + ?M = words_val tp + 2 ^ (64 * ?n) * unat w"
    using sw tp(1) by (simp_all add: bn_nat_def)
  let ?P = "2 ^ (64 * ?n) :: nat"
  define d where "d = map2 (\<lambda>t x. ((k - w) AND t) OR (NOT (k - w) AND x)) tp (take ?n rp)"
  have c: "c = r1\<lparr>bn_d := d @ drop ?n rp, bn_top := ?n, bn_neg := False\<rparr>"
    using assms(9) unfolding bn_mod_add_fixed_top_def Let_def r1 bind.simps t prod.case s d_def [symmetric] by (simp split: if_splits)
  have lr: "length (take ?n rp) = ?n" using sw(1) x(2) by simp
  have less: "words_val (take ?n rp) < ?P" "words_val tp < ?P" "?M < ?P"
    using words_val_less [of "take ?n rp"] words_val_less [of tp] lr tp(1) bn_nat_bound [OF fm(1)] by simp_all
  have kw: "k = 0 \<or> k = 1" "w = 0 \<or> w = 1" using tp(2) sw(2) by (simp_all add: bit_word_cases)
  have d: "length d = ?n \<and> words_val d = (bn_nat a + bn_nat b) mod ?M"
  proof (cases "bn_nat a + bn_nat b < ?M")
    case True
    then have k0: "k = 0" using kw(1) tp(3) less(3) by auto
    then have v: "words_val tp = bn_nat a + bn_nat b" using tp(3) by simp
    have "w = 1" using kw(2) sw(3) v True by auto
    then have "d = tp" using select_words(1) [of tp "take ?n rp"] lr tp(1) by (simp add: d_def k0)
    then show ?thesis using v True tp(1) by simp
  next
    case False
    have e: "words_val (take ?n rp) + ?M + ?P * unat k = bn_nat a + bn_nat b + ?P * unat w" using tp(3) sw(3) by simp
    have "k = w" using kw e less(1,3) False assms(6,7) by auto
    then have "d = take ?n rp" using select_words(2) [of tp "take ?n rp"] lr tp(1) by (simp add: d_def)
    moreover have "words_val (take ?n rp) = bn_nat a + bn_nat b - ?M" using e \<open>k = w\<close> by simp
    moreover have "(bn_nat a + bn_nat b) mod ?M = bn_nat a + bn_nat b - ?M" using False assms(6,7) by (simp add: le_mod_geq)
    ultimately show ?thesis using lr by simp
  qed
  show ?thesis using x(1,2,5) sw(1) d by (simp add: c bn_fits_def bn_nat_def)
qed

lemma mod_sub_loop:
  assumes "bn_fits a" "bn_fits b"
  shows "i + n < 2 ^ 62 \<Longrightarrow> unat c \<le> 1 \<Longrightarrow> mod_sub_loop a b n i (idx a i) (idx b i) c = (ts, c') \<Longrightarrow>
    length ts = n \<and> unat c' \<le> 1 \<and>
    words_val ts + words_val (map (pad b) [i..<i + n]) + unat c = words_val (map (pad a) [i..<i + n]) + 2 ^ (64 * n) * unat c'"
proof (induction n arbitrary: i c ts c')
  case (Suc n)
  define t where "t = pad a i - pad b i - c"
  define c2 where "c2 = (if pad a i \<noteq> pad b i then (if pad a i < pad b i then 1 else 0) else c)"
  obtain us where us: "mod_sub_loop a b n (i + 1) (idx a (i + 1)) (idx b (i + 1)) c2 = (us, c')" "ts = t # us"
    using Suc.prems(1,3) by (auto simp: Let_def masked_word [OF assms(1)] masked_word [OF assms(2)] next_index [OF assms(1), simplified]
        next_index [OF assms(2), simplified] t_def [symmetric] c2_def [symmetric] split: prod.splits)
  have "sub_word (pad a i) (pad b i) c = (t, c2)" by (simp add: sub_word_def t_def c2_def Let_def limb_simps)
  from sub_word_nat [OF Suc.prems(2) this] have st: "unat c2 \<le> 1" "unat t + unat (pad b i) + unat c = unat (pad a i) + 2 ^ 64 * unat c2" by blast+
  from Suc.IH [OF _ st(1) us(1)] Suc.prems(1) have ih: "length us = n" "unat c' \<le> 1"
    "words_val us + words_val (map (pad b) [Suc i..<Suc i + n]) + unat c2 = words_val (map (pad a) [Suc i..<Suc i + n]) + 2 ^ (64 * n) * unat c'" by simp_all
  have up: "[i..<i + Suc n] = i # [Suc i..<Suc i + n]" by (simp add: upt_rec)
  have "words_val ts + words_val (map (pad b) [i..<i + Suc n]) + unat c = words_val (map (pad a) [i..<i + Suc n]) + 2 ^ (64 * Suc n) * unat c'"
    unfolding up us(2) list.map words_val.simps pow64_Suc by (rule chain_step [OF st(2) ih(3)])
  then show ?case using ih(1,2) us(2) by simp
qed simp

lemma mod_corr_loop:
  "msk = 0 \<or> msk = -1 \<Longrightarrow> length ap = length rp \<Longrightarrow> unat c \<le> 1 \<Longrightarrow> mod_corr_loop msk ap rp c = (rs, c') \<Longrightarrow>
   length rs = length rp \<and> unat c' \<le> 1 \<and>
   words_val rs + 2 ^ (64 * length rp) * unat c' = words_val rp + (if msk = 0 then 0 else words_val ap) + unat c"
proof (induction ap arbitrary: rp c rs c')
  case (Cons a ap)
  obtain r rp' where rp: "rp = r # rp'" using Cons.prems(2) by (cases rp) auto
  define ta where "ta = (a AND msk) + c"
  define c1 where "c1 = (if ta < c then 1 else 0 :: u64)"
  define u where "u = r + ta"
  define c2 where "c2 = c1 + (if u < ta then 1 else 0)"
  obtain us where us: "mod_corr_loop msk ap rp' c2 = (us, c')" "rs = u # us"
    using Cons.prems(4) by (auto simp: rp Let_def ta_def [symmetric] c1_def [symmetric] u_def [symmetric] c2_def [symmetric] limb_simps split: prod.splits)
  have t: "unat ta + 2 ^ 64 * of_bool (ta < c) = unat (a AND msk) + unat c" unfolding ta_def by (rule word_add_carry)
  have u: "unat u + 2 ^ 64 * of_bool (u < ta) = unat r + unat ta" unfolding u_def by (rule word_add_carry)
  have c2: "unat c2 = of_bool (ta < c) + of_bool (u < ta)" by (simp add: c2_def c1_def)
  have sum: "unat u + 2 ^ 64 * unat c2 = unat r + unat (a AND msk) + unat c" unfolding c2 using t u by simp
  then have "2 ^ 64 * unat c2 < 2 ^ 64 * 2" using unat_u64 [of r] unat_u64 [of "a AND msk"] Cons.prems(3) by simp
  then have "unat c2 \<le> 1" by simp
  from Cons.IH [OF Cons.prems(1) _ this us(1)] Cons.prems(2) rp have ih: "length us = length rp'" "unat c' \<le> 1"
    "words_val us + 2 ^ (64 * length rp') * unat c' = words_val rp' + (if msk = 0 then 0 else words_val ap) + unat c2" by simp_all
  have a: "unat (a AND msk) = (if msk = 0 then 0 else unat a)" using Cons.prems(1) by auto
  have "words_val rs + 2 ^ (64 * length rp) * unat c' = unat u + 2 ^ 64 * (words_val us + 2 ^ (64 * length rp') * unat c')"
    unfolding rp length_Cons pow64_Suc by (simp add: us(2) distrib_left)
  also have "\<dots> = words_val rp + (if msk = 0 then 0 else words_val (a # ap)) + unat c"
    unfolding ih(3) using sum a by (simp add: rp)
  finally show ?case using ih(1,2) us(2) rp by simp
qed simp

lemma corr_steps:
  fixes A B M R1 R2 R3 P w c c' :: nat
  assumes "A < M" "B < 2 * M" "M < P" "R1 < P" "R2 < P" "R3 < P" "w \<le> 1" "c \<le> 1" "c' \<le> 1"
    and "R1 + B = A + P * w" "R2 + P * c = R1 + (if w = 0 then 0 else M)" "c \<le> w \<Longrightarrow> R3 + P * c' = R2 + (if w - c = 0 then 0 else M)"
  shows "c \<le> w" "int R3 = (int A - int B) mod int M"
proof -
  have w: "w = 0 \<or> w = 1" "c = 0 \<or> c = 1" "c' = 0 \<or> c' = 1" using assms(7-9) by linarith+
  show cw: "c \<le> w"
  proof (rule ccontr)
    assume "\<not> c \<le> w"
    then have "w = 0" "c = 1" using w by auto
    then show False using assms(4,11) by simp
  qed
  note r3 = assms(12) [OF cw]
  have mod: "(int A - int B) mod int M = int A - int B + k * int M" if "0 \<le> int A - int B + k * int M" "int A - int B + k * int M < int M" for k
  proof -
    have "(int A - int B) mod int M = (int A - int B + k * int M) mod int M" by simp
    then show ?thesis using that by (simp only: mod_pos_pos_trivial)
  qed
  consider "w = 0" | "w = 1" "c = 1" | "w = 1" "c = 0" using w by blast
  then show "int R3 = (int A - int B) mod int M"
  proof cases
    case 1
    then have "c = 0" "c' = 0" "R3 + B = A" using w cw r3 assms by auto
    then have "int R3 = int A - int B + 0 * int M" by simp
    then show ?thesis using mod [of 0] assms(1) by simp
  next
    case 2
    then have "c' = 0" using w r3 assms(5) by auto
    then have "R3 + B = A + M" using 2 r3 assms(10,11) by simp
    then have "int R3 = int A - int B + 1 * int M" by simp
    moreover have "A < B" using 2(1) assms(3,4,10) by simp
    ultimately show ?thesis using mod [of 1] by simp
  next
    case 3
    have R2: "R2 + B = A + P + M" using 3 assms(10,11) by simp
    then have AB: "A + M < B" using assms(5) by simp
    have e: "R3 + B + P * c' = A + P + 2 * M" using R2 r3 3 by simp
    have "c' = 1"
    proof (rule ccontr)
      assume "c' \<noteq> 1"
      then have "R3 + B = A + P + 2 * M" using e w(3) by simp
      then show False using assms(2,6) by simp
    qed
    then have "int R3 = int A - int B + 2 * int M" using e by simp
    then show ?thesis using mod [of 2] AB assms(2) by simp
  qed
qed

lemma bn_mod_sub_fixed_top:
  assumes "bn_fits a" "bn_fits b" "bn_wf m" "bn_top a \<le> bn_top m" "bn_top b \<le> bn_top m" "bn_nat a < bn_nat m" "bn_nat b < 2 * bn_nat m" "bn_fits r"
    and "bn_mod_sub_fixed_top alloc r a b m = Some c"
  shows "bn_fits c \<and> int (bn_nat c) = (int (bn_nat a) - int (bn_nat b)) mod int (bn_nat m) \<and> \<not> bn_neg c \<and> bn_flags c = bn_flags r \<and> bn_top c = bn_top m"
proof -
  let ?n = "bn_top m" and ?M = "bn_nat m" and ?P = "2 ^ (64 * bn_top m) :: nat" and ?ap = "take (bn_top m) (bn_d m)"
  have fm: "bn_fits m" "?n \<le> length (bn_d m)" using assms(3) by (simp_all add: bn_wf_def bn_fits_def)
  obtain rp w where s: "mod_sub_loop a b ?n 0 0 0 0 = (rp, w)" by fastforce
  have "mod_sub_loop a b ?n 0 (idx a 0) (idx b 0) 0 = (rp, w)" using s by (simp add: idx_def)
  from mod_sub_loop [OF assms(1,2) _ _ this] small_size [OF fm(1)] have
    s': "length rp = ?n" "unat w \<le> 1" "words_val rp + bn_nat b = bn_nat a + ?P * unat w"
    by (simp_all add: pad_nat assms(1,2,4,5))
  have w: "w = 0 \<or> w = 1" using s'(2) by (rule bit_word_cases)
  obtain rp2 k where c1: "mod_corr_loop (0 - w) ?ap rp 0 = (rp2, k)" by fastforce
  have la: "length ?ap = length rp" using s'(1) fm(2) by simp
  have "0 - w = 0 \<or> 0 - w = -1" using w by auto
  from mod_corr_loop [OF this la _ c1] have c1': "length rp2 = ?n" "unat k \<le> 1"
    "words_val rp2 + ?P * unat k = words_val rp + (if unat w = 0 then 0 else ?M)"
    using s'(1) w by (auto simp: bn_nat_def)
  have k: "k = 0 \<or> k = 1" using c1'(2) by (rule bit_word_cases)
  obtain rp3 k' where c2: "mod_corr_loop (0 - (w - k)) ?ap rp2 0 = (rp3, k')" by fastforce
  have la2: "length ?ap = length rp2" using c1'(1) fm(2) by simp
  have less: "words_val rp < ?P" "words_val rp2 < ?P" "?M < ?P"
    using words_val_less [of rp] words_val_less [of rp2] s'(1) c1'(1) bn_nat_bound [OF fm(1)] by simp_all
  have kw: "unat k \<le> unat w"
  proof (rule ccontr)
    assume "\<not> unat k \<le> unat w"
    then have "unat w = 0" "unat k = 1" using k w by auto
    then show False using c1'(3) less(1) by simp
  qed
  have d: "w - k = 0 \<and> unat w - unat k = 0 \<or> w - k = 1 \<and> unat w - unat k = 1" using w k kw by auto
  have "0 - x = 0 \<or> 0 - x = -1" if "x = 0 \<or> x = 1" for x :: u64 using that by auto
  from this [of "w - k"] d have "0 - (w - k) = 0 \<or> 0 - (w - k) = -1" by blast
  from mod_corr_loop [OF this la2 _ c2] have c2': "length rp3 = ?n" "unat k' \<le> 1"
    "words_val rp3 + ?P * unat k' = words_val rp2 + (if unat w - unat k = 0 then 0 else ?M)"
    using c1'(1) d by (auto simp: bn_nat_def)
  have less3: "words_val rp3 < ?P" using words_val_less [of rp3] c2'(1) by simp
  have v: "int (words_val rp3) = (int (bn_nat a) - int (bn_nat b)) mod int ?M"
    by (rule corr_steps(2) [OF assms(6,7) less(3,1,2) less3 s'(2) c1'(2) c2'(2) s'(3) c1'(3) c2'(3)])
  obtain r1 where r1: "bn_wexpand alloc r ?n = Some r1" "c = r1\<lparr>bn_d := rp3 @ drop ?n (bn_d r1), bn_top := ?n, bn_neg := False\<rparr>"
    using assms(9) unfolding bn_mod_sub_fixed_top_def Let_def s prod.case c1 c2 by blast
  note x = bn_wexpand [OF assms(8) r1(1)]
  show ?thesis using x(1,2,5) c2'(1) v by (simp add: r1(2) bn_fits_def bn_nat_def)
qed

lemma BN_mod_add_quick_run:
  assumes "bn_wf a" "bn_wf b" "bn_wf m" "0 \<le> bn_val a" "bn_val a < bn_val m" "0 \<le> bn_val b" "bn_val b < bn_val m" "room r"
  shows "\<exists>c. BN_mod_add_quick True r a b m = Some c \<and> bn_wf c \<and> bn_val c = (bn_val a + bn_val b) mod bn_val m \<and> bn_flags c = bn_flags r"
proof -
  have f: "bn_fits a" "bn_fits b" "bn_fits m" "bn_fits r" "bn_top m \<le> MAXW" using assms by (auto simp: bn_wf_def room_def bn_fits_def MAXW_def)
  have t: "bn_top a \<le> bn_top m" "bn_top b \<le> bn_top m" using assms by (auto intro: bn_top_abs)
  have v: "bn_val a = int (bn_nat a)" "bn_val b = int (bn_nat b)" "bn_val m = int (bn_nat m)" using assms(4-7) by (auto intro: bn_val_pos)
  then have n: "bn_nat a < bn_nat m" "bn_nat b < bn_nat m" using assms(5,7) by simp_all
  obtain x where x: "bn_wexpand True r (bn_top m) = Some x" using room_wexpand [OF assms(8) f(5)] by blast
  then obtain c where c: "bn_mod_add_fixed_top True r a b m = Some c" by (simp add: bn_mod_add_fixed_top_def Let_def split_beta)
  note h = bn_mod_add_fixed_top [OF f(1,2) assms(3) t n f(4) c]
  then have fc: "bn_fits c" by blast
  note ct = bn_correct_top [OF fc]
  have "bn_val (bn_correct_top c) = (bn_val a + bn_val b) mod bn_val m" using ct(2,3) h unfolding v by (simp add: bn_val_def zmod_int)
  then show ?thesis using ct(1,5) c h by (simp add: BN_mod_add_quick_def)
qed

text \<open>C32: The functions of arithmetic modulo a number give the residue between 0 and the modulus, in normal form; those for operands
  that are already residues do so without a division. Where there is memory and room none of them fails.\<close>

theorem bn_mod_ops:
  assumes "bn_wf a" "bn_wf b" "bn_wf m" "bn_val m \<noteq> 0" "room r" "ctx_ok 5 ctx"
    "8 * (bn_top a + bn_top b) + 2 \<le> MAXW" "2 * bn_top m + 2 \<le> MAXW" "same \<Longrightarrow> a = b"
  shows "(\<exists>c. BN_nnmod True ctx r a m = Some c \<and> bn_wf c \<and> bn_val c = bn_val a mod \<bar>bn_val m\<bar>) \<and>
    (\<exists>c. BN_mod_add True ctx r a b m = Some c \<and> bn_wf c \<and> bn_val c = (bn_val a + bn_val b) mod \<bar>bn_val m\<bar>) \<and>
    (\<exists>c. BN_mod_sub True ctx r a b m = Some c \<and> bn_wf c \<and> bn_val c = (bn_val a - bn_val b) mod \<bar>bn_val m\<bar>) \<and>
    (\<exists>c. BN_mod_mul True same ctx r a b m = Some c \<and> bn_wf c \<and> bn_val c = (bn_val a * bn_val b) mod \<bar>bn_val m\<bar>) \<and>
    (\<exists>c. BN_mod_sqr True alias ctx r a m = Some c \<and> bn_wf c \<and> bn_val c = bn_val a ^ 2 mod \<bar>bn_val m\<bar>) \<and>
    (\<exists>c. BN_mod_lshift1 True ctx r a m = Some c \<and> bn_wf c \<and> bn_val c = (2 * bn_val a) mod \<bar>bn_val m\<bar>) \<and>
    (\<exists>c. BN_mod_lshift True ctx r a (int n) m = Some c \<and> bn_wf c \<and> bn_val c = (bn_val a * 2 ^ n) mod \<bar>bn_val m\<bar>) \<and>
    (0 \<le> bn_val a \<and> bn_val a < bn_val m \<and> 0 \<le> bn_val b \<and> bn_val b < bn_val m \<longrightarrow>
      (\<exists>c. BN_mod_add_quick True r a b m = Some c \<and> bn_wf c \<and> bn_val c = (bn_val a + bn_val b) mod bn_val m) \<and>
      (\<exists>c. BN_mod_sub_quick True r a b m = Some c \<and> bn_wf c \<and> bn_val c = (bn_val a - bn_val b) mod bn_val m) \<and>
      (\<exists>c. BN_mod_lshift1_quick True r a m = Some c \<and> bn_wf c \<and> bn_val c = (2 * bn_val a) mod bn_val m))"
proof (intro conjI impI)
  have k: "ctx_ok 4 ctx" by (rule ctx_ok_less [OF assms(6)]) simp
  have t: "max (bn_top a) (bn_top m) < MAXW" "max (max (bn_top a) (bn_top b) + 1) (bn_top m) < MAXW" "8 * (bn_top a + bn_top b) \<le> MAXW" "bn_top m < MAXW"
    "4 * bn_top a \<le> MAXW" "max (bn_top a + 1) (bn_top m) < MAXW" "bn_top a < MAXW" "bn_top m + 1 < MAXW"
    using assms(7,8) by (auto simp: MAXW_def INT_MAX_def BN_BITS2_def)
  show "\<exists>c. BN_nnmod True ctx r a m = Some c \<and> bn_wf c \<and> bn_val c = bn_val a mod \<bar>bn_val m\<bar>"
    using BN_nnmod_run [OF assms(1,3,4,5) k t(1)] by blast
  show "\<exists>c. BN_mod_add True ctx r a b m = Some c \<and> bn_wf c \<and> bn_val c = (bn_val a + bn_val b) mod \<bar>bn_val m\<bar>"
    using BN_mod_add_run [OF assms(1-5) k t(2)] by blast
  show "\<exists>c. BN_mod_sub True ctx r a b m = Some c \<and> bn_wf c \<and> bn_val c = (bn_val a - bn_val b) mod \<bar>bn_val m\<bar>"
    using BN_mod_sub_run [OF assms(1-5) k t(2)] by blast
  show "\<exists>c. BN_mod_mul True same ctx r a b m = Some c \<and> bn_wf c \<and> bn_val c = (bn_val a * bn_val b) mod \<bar>bn_val m\<bar>"
    using BN_mod_mul_run [OF assms(1-6,9) t(3,4)] by blast
  show "\<exists>c. BN_mod_sqr True alias ctx r a m = Some c \<and> bn_wf c \<and> bn_val c = bn_val a ^ 2 mod \<bar>bn_val m\<bar>"
    using BN_mod_sqr_run [OF assms(1,3,4,5) k t(5,4)] by blast
  show "\<exists>c. BN_mod_lshift1 True ctx r a m = Some c \<and> bn_wf c \<and> bn_val c = (2 * bn_val a) mod \<bar>bn_val m\<bar>"
    using BN_mod_lshift1_run [OF assms(1,3,4,5) k t(6)] by blast
  show "\<exists>c. BN_mod_lshift True ctx r a (int n) m = Some c \<and> bn_wf c \<and> bn_val c = (bn_val a * 2 ^ n) mod \<bar>bn_val m\<bar>"
    using BN_mod_lshift_run [OF assms(1,3,4,5) k t(7) assms(8)] by blast
  assume h: "0 \<le> bn_val a \<and> bn_val a < bn_val m \<and> 0 \<le> bn_val b \<and> bn_val b < bn_val m"
  then have h: "0 \<le> bn_val a" "bn_val a < bn_val m" "0 \<le> bn_val b" "bn_val b < bn_val m" by blast+
  show "\<exists>c. BN_mod_add_quick True r a b m = Some c \<and> bn_wf c \<and> bn_val c = (bn_val a + bn_val b) mod bn_val m"
    using BN_mod_add_quick_run [OF assms(1-3) h assms(5)] by blast
  show "\<exists>c. BN_mod_sub_quick True r a b m = Some c \<and> bn_wf c \<and> bn_val c = (bn_val a - bn_val b) mod bn_val m"
    using BN_mod_sub_quick_run [OF assms(1-3) h assms(5) t(8)] by blast
  show "\<exists>c. BN_mod_lshift1_quick True r a m = Some c \<and> bn_wf c \<and> bn_val c = (2 * bn_val a) mod bn_val m"
    using BN_mod_lshift1_quick_run [OF assms(1,3) h(1,2) assms(5) t(8)] by blast
qed

lemma room_init: "room bn_init" "ctx_ok n (replicate n bn_init)"
  by (simp_all add: room_def ctx_ok_def bn_fits_def bn_init_def BN_get_flags_def)

lemma val_one: "bn_val BN_value_one = 1" "bn_top BN_value_one = 1" "bn_wf BN_value_one"
  using one_wf by (simp_all add: BN_value_one_def bn_val_def bn_nat_def)

theorem bn_mod_ops_witness:
  "\<exists>c. BN_mod_mul True True (replicate 5 bn_init) bn_init BN_value_one BN_value_one BN_value_one = Some c \<and> bn_wf c \<and> bn_val c = 0"
  using bn_mod_ops [OF val_one(3) val_one(3) val_one(3) _ room_init(1) room_init(2), of True False 0]
  by (simp add: val_one MAXW_def INT_MAX_def BN_BITS2_def)

end
