(* ===== verification/BnOps.thy ===== *)
theory BnOps
  imports BnModProps
begin

text \<open>
  The operations on big numbers as operations on integers: \<open>stands x v\<close> says that a number of the context is in normal form and stands for
  \<open>v\<close>, and \<open>below k v\<close> that \<open>v\<close> has at most \<open>k\<close> words. In the lemmas there is memory; with them a function that calls many operations is
  followed on integers.
\<close>

definition stands :: "bignum \<Rightarrow> int \<Rightarrow> bool" where
  "stands x v \<longleftrightarrow> room x \<and> bn_wf x \<and> bn_val x = v"

definition below :: "nat \<Rightarrow> int \<Rightarrow> bool" where
  "below k v \<longleftrightarrow> \<bar>v\<bar> < 2 ^ (64 * k)"

lemma standsD: "stands x v \<Longrightarrow> room x" "stands x v \<Longrightarrow> bn_wf x" "stands x v \<Longrightarrow> bn_val x = v" by (simp_all add: stands_def)

lemma room_fits: "room x \<Longrightarrow> bn_fits x" by (simp add: room_def)

lemma wf_size: "bn_wf x \<Longrightarrow> length (bn_d x) \<le> MAXW" "bn_wf x \<Longrightarrow> bn_top x \<le> MAXW"
  by (auto simp: bn_wf_def bn_fits_def MAXW_def)

lemma standsI: "bn_wf c \<Longrightarrow> bn_flags c = bn_flags r \<Longrightarrow> room r \<Longrightarrow> bn_val c = v \<Longrightarrow> stands c v"
  using room_result by (simp add: stands_def)

lemma opI: "\<exists>c. X = Some c \<and> bn_wf c \<and> bn_val c = v \<and> bn_flags c = bn_flags r \<Longrightarrow> room r \<Longrightarrow> \<exists>c. X = Some c \<and> stands c v"
  using standsI [of _ r] by blast

lemma below_top: "bn_wf x \<Longrightarrow> below k (bn_val x) \<Longrightarrow> bn_top x \<le> k"
  using bn_top_le [of x k] unfolding below_def bn_val_nat(1) by (simp only: of_nat_less_numeral_power_cancel_iff)

lemma top_below: "bn_fits x \<Longrightarrow> bn_top x \<le> k \<Longrightarrow> below k (bn_val x)"
proof -
  assume h: "bn_fits x" "bn_top x \<le> k"
  have "bn_nat x < 2 ^ (64 * bn_top x)" by (rule bn_nat_bound [OF h(1)])
  also have "\<dots> \<le> 2 ^ (64 * k)" using h(2) by (intro power_increasing) simp_all
  finally show ?thesis unfolding below_def bn_val_nat(1) by (simp only: of_nat_less_numeral_power_cancel_iff)
qed

lemma below_mono: "below j v \<Longrightarrow> j \<le> k \<Longrightarrow> below k v"
proof -
  assume h: "below j v" "j \<le> k"
  have "(2 :: int) ^ (64 * j) \<le> 2 ^ (64 * k)" using h(2) by (intro power_increasing) simp_all
  with h(1) show ?thesis unfolding below_def by linarith
qed

lemma below_le: "below k v \<Longrightarrow> \<bar>u\<bar> \<le> \<bar>v\<bar> \<Longrightarrow> below k u"
  by (simp add: below_def)

lemma below_times: "below j u \<Longrightarrow> \<bar>v\<bar> \<le> 2 ^ 64 * \<bar>u\<bar> \<Longrightarrow> below (j + 1) v"
proof -
  assume h: "below j u" "\<bar>v\<bar> \<le> 2 ^ 64 * \<bar>u\<bar>"
  have "2 ^ 64 * \<bar>u\<bar> < 2 ^ 64 * 2 ^ (64 * j)" using h(1) unfolding below_def by (intro mult_strict_left_mono) simp_all
  then show ?thesis using h(2) by (simp add: below_def power_add)
qed

subsection \<open>Operations\<close>

lemma add_op: "bn_wf a \<Longrightarrow> bn_wf b \<Longrightarrow> room r \<Longrightarrow> below k (bn_val a) \<Longrightarrow> below k (bn_val b) \<Longrightarrow> k < MAXW \<Longrightarrow>
    \<exists>c. BN_add True r a b = Some c \<and> stands c (bn_val a + bn_val b)"
  by (rule opI [OF BN_add_run]) (use below_top [of a k] below_top [of b k] in simp_all)

lemma sub_op: "bn_wf a \<Longrightarrow> bn_wf b \<Longrightarrow> room r \<Longrightarrow> below k (bn_val a) \<Longrightarrow> below k (bn_val b) \<Longrightarrow> k < MAXW \<Longrightarrow>
    \<exists>c. BN_sub True r a b = Some c \<and> stands c (bn_val a - bn_val b)"
  by (rule opI [OF BN_sub_run]) (use below_top [of a k] below_top [of b k] in simp_all)

lemma mul_op: "bn_wf a \<Longrightarrow> bn_wf b \<Longrightarrow> room r \<Longrightarrow> ctx_ok 2 ctx \<Longrightarrow> below k (bn_val a) \<Longrightarrow> below k (bn_val b) \<Longrightarrow> 16 * k \<le> MAXW \<Longrightarrow>
    \<exists>c. BN_mul True alias ctx r a b = Some c \<and> stands c (bn_val a * bn_val b)"
  by (rule opI [OF BN_mul_run]) (use below_top [of a k] below_top [of b k] in simp_all)

lemma sqr_op: "bn_wf a \<Longrightarrow> room r \<Longrightarrow> ctx_ok 2 ctx \<Longrightarrow> below k (bn_val a) \<Longrightarrow> 4 * k \<le> MAXW \<Longrightarrow>
    \<exists>c. BN_sqr True alias ctx r a = Some c \<and> stands c (bn_val a * bn_val a)"
  by (rule opI [OF BN_sqr_run]) (use below_top [of a k] in simp_all)

lemma div_op: "bn_wf num \<Longrightarrow> bn_wf dr \<Longrightarrow> 0 \<le> bn_val num \<Longrightarrow> 0 < bn_val dr \<Longrightarrow> room q \<Longrightarrow> room r \<Longrightarrow> ctx_ok 3 ctx \<Longrightarrow>
    below k (bn_val num) \<Longrightarrow> below k (bn_val dr) \<Longrightarrow> k < MAXW \<Longrightarrow>
    \<exists>c d. BN_div True ctx (Some q) (Some r) num dr = Some (Some c, Some d) \<and> stands c (bn_val num div bn_val dr) \<and> stands d (bn_val num mod bn_val dr)"
proof -
  assume h: "bn_wf num" "bn_wf dr" "0 \<le> bn_val num" "0 < bn_val dr" "room q" "room r" "ctx_ok 3 ctx" "below k (bn_val num)" "below k (bn_val dr)" "k < MAXW"
  have t: "max (bn_top num) (bn_top dr) < MAXW" using below_top [OF h(1,8)] below_top [OF h(2,9)] h(10) by simp
  have z: "bn_val dr \<noteq> 0" using h(4) by simp
  have s: "sgn (bn_val dr) = 1" using h(4) by simp
  have q: "sgn (bn_val num) * (bn_val num div bn_val dr) = bn_val num div bn_val dr" "sgn (bn_val num) * (bn_val num mod bn_val dr) = bn_val num mod bn_val dr"
    using h(3) by (cases "bn_val num = 0"; simp)+
  show ?thesis using BN_div_run [OF h(1,2) z h(6,5,7) t] h(3,4) standsI [OF _ _ h(5)] standsI [OF _ _ h(6)] by (auto simp: s q)
qed

lemma nnmod_op: "bn_wf a \<Longrightarrow> bn_wf m \<Longrightarrow> bn_val m \<noteq> 0 \<Longrightarrow> room r \<Longrightarrow> ctx_ok 4 ctx \<Longrightarrow> below k (bn_val a) \<Longrightarrow> below k (bn_val m) \<Longrightarrow> k < MAXW \<Longrightarrow>
    \<exists>c. BN_nnmod True ctx r a m = Some c \<and> stands c (bn_val a mod \<bar>bn_val m\<bar>)"
  by (rule opI [OF BN_nnmod_run]) (use below_top [of a k] below_top [of m k] in simp_all)

lemma lshift1_op: "bn_wf a \<Longrightarrow> room r \<Longrightarrow> below k (bn_val a) \<Longrightarrow> k < MAXW \<Longrightarrow> \<exists>c. BN_lshift1 True r a = Some c \<and> stands c (2 * bn_val a)"
  by (rule opI [OF BN_lshift1_run]) (use below_top [of a k] in simp_all)

lemma lshift_op: "bn_wf a \<Longrightarrow> room r \<Longrightarrow> below k (bn_val a) \<Longrightarrow> k + n div 64 < MAXW \<Longrightarrow>
    \<exists>c. BN_lshift True r a (int n) = Some c \<and> stands c (bn_val a * 2 ^ n)"
  by (rule opI [OF BN_lshift_run]) (use below_top [of a k] in simp_all)

lemma rshift_op: "bn_wf a \<Longrightarrow> room r \<Longrightarrow> 0 \<le> bn_val a \<Longrightarrow> \<exists>c. BN_rshift True r a (int n) = Some c \<and> stands c (bn_val a div 2 ^ n)"
proof -
  assume h: "bn_wf a" "room r" "0 \<le> bn_val a"
  have t: "bn_top a - n div BN_BITS2 \<le> MAXW" using wf_size [OF h(1)] by linarith
  obtain c where c: "BN_rshift True r a (int n) = Some c"
    using room_wexpand [OF h(2) t]
    by (cases "bn_top a \<le> n div BN_BITS2") (auto simp: BN_rshift_def bn_rshift_fixed_top_def Let_def)
  note s = BN_rshift [OF h(1) room_fits [OF h(2)] c]
  have "\<not> bn_neg c" using s h(3) bn_val_neg [OF h(1)] by auto
  then have "bn_val c = int (bn_nat c)" by (simp add: bn_val_def)
  also have "\<dots> = int (bn_nat a div 2 ^ n)" using s by simp
  finally have "bn_val c = int (bn_nat a div 2 ^ n)" .
  then have v: "bn_val c = bn_val a div 2 ^ n" unfolding bn_val_pos [OF h(3)] by (simp only: of_nat_div of_nat_power of_nat_numeral)
  have "stands c (bn_val a div 2 ^ n)" by (rule standsI [OF _ _ h(2) v]) (use s in blast)+
  then show ?thesis using c by blast
qed

lemma rshift1_op: "bn_wf a \<Longrightarrow> room r \<Longrightarrow> 0 \<le> bn_val a \<Longrightarrow> \<exists>c. BN_rshift1 True r a = Some c \<and> stands c (bn_val a div 2)"
proof -
  assume h: "bn_wf a" "room r" "0 \<le> bn_val a"
  have t: "bn_top a \<le> MAXW" using wf_size [OF h(1)] by linarith
  obtain c where c: "BN_rshift1 True r a = Some c" using room_wexpand [OF h(2) t] unfolding BN_rshift1_def by (cases "BN_is_zero a") auto
  note s = BN_rshift1 [OF h(1) room_fits [OF h(2)] c]
  have "\<not> bn_neg c" using s h(3) bn_val_neg [OF h(1)] by auto
  then have "bn_val c = int (bn_nat c)" by (simp add: bn_val_def)
  also have "\<dots> = int (bn_nat a div 2)" using s by simp
  finally have "bn_val c = int (bn_nat a div 2)" .
  then have v: "bn_val c = bn_val a div 2" unfolding bn_val_pos [OF h(3)] by (simp only: of_nat_div of_nat_power of_nat_numeral)
  have "stands c (bn_val a div 2)" by (rule standsI [OF _ _ h(2) v]) (use s in blast)+
  then show ?thesis using c by blast
qed

lemma uadd_op: "bn_wf a \<Longrightarrow> bn_wf b \<Longrightarrow> room r \<Longrightarrow> below k (bn_val a) \<Longrightarrow> below k (bn_val b) \<Longrightarrow> k < MAXW \<Longrightarrow>
    \<exists>c. BN_uadd True r a b = Some c \<and> stands c (\<bar>bn_val a\<bar> + \<bar>bn_val b\<bar>)"
proof -
  assume h: "bn_wf a" "bn_wf b" "room r" "below k (bn_val a)" "below k (bn_val b)" "k < MAXW"
  have t: "max (bn_top a) (bn_top b) + 1 \<le> MAXW" using below_top [OF h(1,4)] below_top [OF h(2,5)] h(6) by simp
  obtain x where x: "bn_wexpand True r (max (bn_top a) (bn_top b) + 1) = Some x" using room_wexpand [OF h(3) t] by blast
  obtain c where c: "BN_uadd True r a b = Some c"
    using x by (cases "bn_top a < bn_top b") (auto simp: BN_uadd_def Let_def max_def not_less split_beta)
  have f: "bn_fits r" using h(3) by (rule room_fits)
  note s = BN_uadd [OF h(1,2) f c]
  then have "bn_val c = int (bn_nat a + bn_nat b)" by (simp add: bn_val_def)
  then have "stands c (\<bar>bn_val a\<bar> + \<bar>bn_val b\<bar>)" using s h(3) by (intro standsI [of _ r]) (simp_all add: bn_val_nat(1))
  then show ?thesis using c by blast
qed

lemma usub_op: "bn_wf a \<Longrightarrow> bn_wf b \<Longrightarrow> room r \<Longrightarrow> 0 \<le> bn_val b \<Longrightarrow> bn_val b \<le> bn_val a \<Longrightarrow>
    \<exists>c. BN_usub True r a b = Some c \<and> stands c (bn_val a - bn_val b)"
proof -
  assume h: "bn_wf a" "bn_wf b" "room r" "0 \<le> bn_val b" "bn_val b \<le> bn_val a"
  have v: "bn_val a = int (bn_nat a)" "bn_val b = int (bn_nat b)" using h(4,5) by (auto intro: bn_val_pos)
  then have le: "bn_nat b \<le> bn_nat a" using h(5) by simp
  have t: "bn_top a \<le> MAXW" "bn_top b \<le> bn_top a" using h(1) bn_top_mono [OF h(2,1) le] by (simp_all add: bn_wf_def bn_fits_def MAXW_def)
  obtain c where c: "BN_usub True r a b = Some c" using room_wexpand [OF h(3) t(1)] t(2) by (auto simp: BN_usub_def Let_def)
  have f: "bn_fits r" using h(3) by (rule room_fits)
  note s = BN_usub [OF h(1,2) f le c]
  then have "bn_val c = int (bn_nat a - bn_nat b)" by (simp add: bn_val_def)
  then have "stands c (bn_val a - bn_val b)" using s h(3) le by (intro standsI [of _ r]) (simp_all add: v)
  then show ?thesis using c by blast
qed

lemma copy_op: "room r \<Longrightarrow> bn_wf b \<Longrightarrow> \<exists>c. BN_copy True r b = Some c \<and> stands c (bn_val b)"
proof -
  assume h: "room r" "bn_wf b"
  note t = wf_size [OF h(2)]
  obtain c where c: "BN_copy True r b = Some c" using room_wexpand [OF h(1) t(1)] room_wexpand [OF h(1) t(2)] unfolding BN_copy_def by (cases "BN_get_flags b BN_FLG_CONSTTIME \<noteq> 0") (auto simp: Let_def)
  have f: "bn_fits r" using h(1) by (rule room_fits)
  note s = BN_copy [OF f h(2) c]
  then have "stands c (bn_val b)" using h(1) by (intro standsI [of _ r]) (simp_all add: bn_val_def)
  then show ?thesis using c by blast
qed

lemma set_word_op: "room r \<Longrightarrow> \<exists>c. BN_set_word True r w = Some c \<and> stands c (int (unat w))"
proof -
  assume h: "room r"
  obtain x where "bn_wexpand True r 1 = Some x" using room_wexpand [OF h, of 1] by (auto simp: MAXW_def INT_MAX_def BN_BITS2_def)
  then obtain c where c: "BN_set_word True r w = Some c"
    by (auto simp: BN_set_word_def bn_wexpand_def bn_expand_def BN_BITS2_def INT_MAX_def split: if_splits)
  have f: "bn_fits r" using h by (rule room_fits)
  note s = BN_set_word [OF f c]
  then have "stands c (int (unat w))" using h by (intro standsI [of _ r]) (simp_all add: bn_val_def)
  then show ?thesis using c by blast
qed

lemma zero_op: "room r \<Longrightarrow> stands (BN_zero_ex r) 0"
  using BN_zero_ex [OF room_fits, of r] by (intro standsI [of _ r]) simp_all

lemma mul_word_op: "stands a v \<Longrightarrow> below k v \<Longrightarrow> k < MAXW \<Longrightarrow> \<exists>c. BN_mul_word True a w = Some c \<and> stands c (v * int (unat w))"
proof -
  assume h: "stands a v" "below k v" "k < MAXW"
  have wf: "bn_wf a" "bn_fits a" "room a" and v: "bn_val a = v" using standsD [OF h(1)] by (simp_all add: bn_wf_def)
  have t: "bn_top a + 1 \<le> MAXW" using below_top [OF wf(1), of k] h(2,3) v by simp
  obtain d l where m: "bn_mul_words (bn_d a) (bn_d a) (bn_top a) w = (d, l)" by fastforce
  have ld: "length d = length (bn_d a)" using bn_mul_words(1) [OF _ _ m] wf(2) by (simp add: bn_fits_def)
  have "room (a\<lparr>bn_d := d\<rparr>)" using wf(3) ld by (simp add: room_def bn_fits_def BN_get_flags_def)
  from room_wexpand [OF this t] obtain x where x: "bn_wexpand True (a\<lparr>bn_d := d\<rparr>) (bn_top a + 1) = Some x" by blast
  obtain c where c: "BN_mul_word True a w = Some c"
    by (cases "bn_top a = 0"; cases "w = 0"; cases "l = 0") (simp_all add: BN_mul_word_def m Let_def x [simplified])
  from BN_mul_word [OF wf(1) c] have "stands c (v * int (unat w))" using wf(3) v by (intro standsI [of _ a]) simp_all
  then show ?thesis using c by blast
qed

lemma pred_op: "stands a v \<Longrightarrow> 0 < v \<Longrightarrow> \<exists>c. BN_sub_word True a 1 = Some c \<and> stands c (v - 1)"
proof -
  assume h: "stands a v" "0 < v"
  note a = standsD [OF h(1)]
  have n: "\<not> bn_neg a" "bn_top a \<noteq> 0" "int (bn_nat a) = v" "bn_top a \<le> length (bn_d a)"
    using bn_val_neg [OF a(2)] bn_nat_words(1) [OF a(2)] bn_val_nat [of a] a h(2) by (auto simp: bn_wf_def bn_fits_def)
  have w: "\<not> (bn_top a = 1 \<and> bn_d a ! 0 < 1)"
  proof
    assume z: "bn_top a = 1 \<and> bn_d a ! 0 < 1"
    then have "bn_nat a = unat (bn_d a ! 0)" "bn_d a ! 0 = 0" using bn_nat_words(2) [OF a(2)] by simp_all
    then show False using n(3) h(2) by simp
  qed
  have "\<exists>c. BN_sub_word True a 1 = Some c"
    using sub_word_loop [of 0 "bn_top a" "bn_d a" 1] n w h(2) by (auto simp: BN_sub_word.simps BN_is_zero_def bn_nat_def)
  then obtain c where c: "BN_sub_word True a 1 = Some c" ..
  from BN_sub_word_pos [OF a(2) n(1) c] n(3) a(1) have "stands c (v - 1)" by (intro standsI [of _ a]) simp_all
  then show ?thesis using c by blast
qed

subsection \<open>Tests\<close>

lemma ucmp_val: "bn_wf a \<Longrightarrow> bn_wf b \<Longrightarrow> (0 \<le> BN_ucmp a b \<longleftrightarrow> \<bar>bn_val b\<bar> \<le> \<bar>bn_val a\<bar>) \<and> (BN_ucmp a b < 0 \<longleftrightarrow> \<bar>bn_val a\<bar> < \<bar>bn_val b\<bar>)"
  using BN_ucmp_nat [of a b] by (auto simp: bn_val_nat(1))

lemma is_zero_val: "bn_wf a \<Longrightarrow> BN_is_zero a \<longleftrightarrow> bn_val a = 0"
  using bn_nat_words(1) [of a] by (simp add: BN_is_zero_def bn_val_nat(2))

lemma is_odd_val: "bn_wf a \<Longrightarrow> BN_is_odd a \<longleftrightarrow> odd (bn_val a)"
proof -
  assume a: "bn_wf a"
  have o: "x AND 1 \<noteq> 0 \<longleftrightarrow> odd (unat x)" for x :: u64
    using bit_unsigned_iff [where 'a = nat, of x 0] by (simp add: and_one_eq mod2_eq_if bit_0)
  have "odd (bn_val a) \<longleftrightarrow> odd (bn_nat a)" by (simp add: bn_val_def)
  then show ?thesis using bn_nat_words(1,4) [OF a] o [of "bn_d a ! 0"] by (cases "bn_top a = 0") (simp_all add: BN_is_odd_def)
qed

lemma abs_is_word_val: "bn_wf a \<Longrightarrow> BN_abs_is_word a w \<longleftrightarrow> \<bar>bn_val a\<bar> = int (unat w)"
proof -
  assume a: "bn_wf a"
  note n = bn_nat_words [OF a]
  consider "bn_top a = 0" | "bn_top a = 1" | "1 < bn_top a" by linarith
  then show ?thesis
  proof cases
    case 2
    then show ?thesis using n(1,2) by (auto simp only: BN_abs_is_word_def bn_val_nat(1) of_nat_eq_iff word_unat_eq_iff)
  next
    case 3
    then have "bn_nat a \<noteq> unat w" using n(3) unat_u64 [of w] by linarith
    then show ?thesis using 3 by (auto simp only: BN_abs_is_word_def bn_val_nat(1) of_nat_eq_iff)
  qed (use n(1) in \<open>auto simp: BN_abs_is_word_def bn_val_nat(1) unat_eq_zero uint_0_iff\<close>)
qed

lemma is_one_val: "bn_wf a \<Longrightarrow> BN_is_one a \<longleftrightarrow> bn_val a = 1"
  using abs_is_word_val [of a 1] bn_val_neg [of a] by (auto simp: BN_is_one_def)

lemma is_word_val: "bn_wf a \<Longrightarrow> BN_is_word a w \<longleftrightarrow> bn_val a = int (unat w)"
  using abs_is_word_val [of a w] bn_val_neg [of a] by (auto simp: BN_is_word_def unat_eq_zero)

lemma bit_set_val: "bn_wf a \<Longrightarrow> 0 \<le> bn_val a \<Longrightarrow> BN_is_bit_set a (int n) \<longleftrightarrow> bit (bn_val a) n"
  using BN_is_bit_set [of a n] bn_val_pos [of a] bit_of_nat_iff_bit [where 'a = int, of "bn_nat a" n] by simp

lemma num_bits_val:
  assumes "bn_wf a" "0 < bn_val a"
  shows "2 ^ (BN_num_bits a - 1) \<le> bn_val a" "bn_val a < 2 ^ BN_num_bits a" "0 < BN_num_bits a"
proof -
  have n: "bn_nat a \<noteq> 0" "bn_val a = int (bn_nat a)" using assms(2) bn_val_nat(2) [of a] bn_val_pos [of a] by auto
  from bits_bounds [OF assms(1) n(1)] show "2 ^ (BN_num_bits a - 1) \<le> bn_val a" "bn_val a < 2 ^ BN_num_bits a" "0 < BN_num_bits a"
    unfolding n(2)
    by (simp_all only: of_nat_less_numeral_power_cancel_iff numeral_power_le_of_nat_cancel_iff)
qed

end
