(* ===== verification/BnGcdProps.thy ===== *)
theory BnGcdProps
  imports BnGcd BnOps
begin

text \<open>
  Inverses modulo a number: the variants of Euclid's algorithm keep the same relations between the numbers, and with either
  the result is the inverse when there is one.
\<close>

subsection \<open>What a round keeps\<close>

definition euclid_nums :: "euclid \<Rightarrow> bool" where
  "euclid_nums s \<longleftrightarrow> (\<forall>x\<in>{eA s, eB s, eX s, eY s}. room x \<and> bn_wf x \<and> 0 \<le> bn_val x) \<and> (\<forall>x\<in>{eM s, eD s, eT s}. room x)"

definition euclid_sg :: "euclid \<Rightarrow> int" where "euclid_sg s = (if eneg s then -1 else 1)"

definition euclid_cong :: "int \<Rightarrow> int \<Rightarrow> euclid \<Rightarrow> bool" where
  "euclid_cong a n s \<longleftrightarrow> gcd (bn_val (eA s)) (bn_val (eB s)) = gcd a n \<and>
     n dvd euclid_sg s * bn_val (eY s) * a - bn_val (eA s) \<and> n dvd euclid_sg s * bn_val (eX s) * a + bn_val (eB s)"

definition euclid_inv :: "int \<Rightarrow> int \<Rightarrow> euclid \<Rightarrow> bool" where
  "euclid_inv a n s \<longleftrightarrow> euclid_nums s \<and> euclid_cong a n s \<and> bn_val (eB s) < bn_val (eA s) \<and> 0 < bn_val (eX s) \<and>
     bn_val (eX s) * bn_val (eA s) + bn_val (eY s) * bn_val (eB s) = n \<and> bn_val (eY s) \<le> n"

lemma euclid_inv_le:
  assumes "euclid_inv a n s"
  shows "bn_val (eA s) \<le> n" "bn_val (eB s) \<le> n" "bn_val (eX s) \<le> n" "0 < bn_val (eB s) \<Longrightarrow> bn_val (eY s) \<le> n"
proof -
  let ?A = "bn_val (eA s)" and ?B = "bn_val (eB s)" and ?X = "bn_val (eX s)" and ?Y = "bn_val (eY s)"
  have h: "0 \<le> ?B" "?B < ?A" "0 < ?X" "0 \<le> ?Y" "?X * ?A + ?Y * ?B = n" using assms by (auto simp: euclid_inv_def euclid_nums_def)
  have p: "0 \<le> ?Y * ?B" using h by simp
  have "1 * ?A \<le> ?X * ?A" by (rule mult_right_mono) (use h in auto)
  then show A: "?A \<le> n" using h(5) p by linarith
  then show "?B \<le> n" using h(2) by linarith
  have "?X * 1 \<le> ?X * ?A" by (rule mult_left_mono) (use h in auto)
  then show "?X \<le> n" using h(5) p by linarith
  assume b: "0 < ?B"
  have "?Y * 1 \<le> ?Y * ?B" by (rule mult_left_mono) (use h b in auto)
  moreover have "0 \<le> ?X * ?A" using h by simp
  ultimately show "?Y \<le> n" using h(5) by linarith
qed

lemma euclid_turn:
  assumes "euclid_inv a n s" "0 < bn_val (eB s)"
    and "stands D (bn_val (eA s) div bn_val (eB s))" "stands M (bn_val (eA s) mod bn_val (eB s))" "room T"
    and "stands tmp (bn_val D * bn_val (eX s) + bn_val (eY s))"
  shows "euclid_inv a n (euclid_turn (s\<lparr>eD := D, eM := M, eT := T\<rparr>) tmp)"
    "bn_val (eB (euclid_turn (s\<lparr>eD := D, eM := M, eT := T\<rparr>) tmp)) = bn_val (eA s) mod bn_val (eB s)"
proof -
  let ?s = "euclid_turn (s\<lparr>eD := D, eM := M, eT := T\<rparr>) tmp"
  let ?A = "bn_val (eA s)" and ?B = "bn_val (eB s)" and ?X = "bn_val (eX s)" and ?Y = "bn_val (eY s)"
  define d m where "d = ?A div ?B" and "m = ?A mod ?B"
  have A: "?A = d * ?B + m" unfolding d_def m_def by simp
  have h: "0 \<le> ?A" "0 < ?B" "?B < ?A" "0 < ?X" "0 \<le> ?Y" "?X * ?A + ?Y * ?B = n" and nums: "euclid_nums s" and c: "euclid_cong a n s"
    using assms(1,2) by (auto simp: euclid_inv_def euclid_nums_def)
  have m: "0 \<le> m" "m < ?B" "0 < d" using h by (auto simp: m_def d_def pos_imp_zdiv_pos_iff)
  have D: "bn_val D = d" "bn_val M = m" "bn_val tmp = d * ?X + ?Y" using standsD(3) [OF assms(3)] standsD(3) [OF assms(4)] standsD(3) [OF assms(6)]
    by (simp_all add: d_def m_def)
  have r: "room D" "room M" "room tmp" "bn_wf M" "bn_wf tmp" using assms(3,4,6) by (auto dest: standsD)
  have p: "0 < d * ?X + ?Y" using m(3) h(4,5) by (simp add: add_pos_nonneg)
  have "euclid_nums ?s" using nums r p m(1) assms(5) unfolding euclid_nums_def euclid_turn_def by (simp add: D)
  moreover have "euclid_cong a n ?s"
  proof -
    define g where "g = euclid_sg s"
    have g: "euclid_sg ?s = - g" by (simp add: g_def euclid_sg_def euclid_turn_def)
    have cc: "gcd ?A ?B = gcd a n" "n dvd g * ?Y * a - ?A" "n dvd g * ?X * a + ?B" using c by (simp_all add: euclid_cong_def g_def)
    have "- g * ?X * a - ?B = - (g * ?X * a + ?B)" by simp
    then have 1: "n dvd - g * ?X * a - ?B" using cc(3) by (metis dvd_minus_iff)
    have "- g * (d * ?X + ?Y) * a + m = - (d * (g * ?X * a + ?B)) - (g * ?Y * a - ?A)" using A by (simp add: algebra_simps)
    then have 2: "n dvd - g * (d * ?X + ?Y) * a + m" using cc(2,3) by (simp add: dvd_diff)
    have 3: "gcd ?B m = gcd a n" using cc(1) gcd_red_int [of ?A ?B] by (simp add: m_def)
    show ?thesis unfolding euclid_cong_def g using 1 2 3 by (simp add: euclid_turn_def D)
  qed
  moreover have "(d * ?X + ?Y) * ?B + ?X * m = n" using h(6) A by (simp add: algebra_simps)
  ultimately show "euclid_inv a n ?s" using m(2) p euclid_inv_le(3) [OF assms(1)] by (simp add: euclid_inv_def euclid_turn_def D)
  show "bn_val (eB ?s) = ?A mod ?B" by (simp add: euclid_turn_def D m_def)
qed

lemma euclid_product:
  assumes "euclid_inv a n s" "0 < bn_val (eB s)"
  shows "0 < bn_val (eA s) div bn_val (eB s)" "bn_val (eA s) div bn_val (eB s) \<le> n"
    "0 \<le> bn_val (eA s) div bn_val (eB s) * bn_val (eX s)" "bn_val (eA s) div bn_val (eB s) * bn_val (eX s) \<le> n"
proof -
  let ?A = "bn_val (eA s)" and ?B = "bn_val (eB s)" and ?X = "bn_val (eX s)" and ?Y = "bn_val (eY s)"
  have h: "0 \<le> ?A" "?B < ?A" "0 < ?X" "0 \<le> ?Y" "?X * ?A + ?Y * ?B = n"
    using assms by (auto simp: euclid_inv_def euclid_nums_def)
  show p: "0 < ?A div ?B" using h(2) assms(2) by (simp add: pos_imp_zdiv_pos_iff)
  then show "0 \<le> ?A div ?B * ?X" using h(3) by simp
  have "?A div ?B \<le> ?A" using assms(2) h(1) zdiv_mono2 [of ?A 1 ?B] by simp
  then show "?A div ?B \<le> n" using euclid_inv_le(1) [OF assms(1)] by linarith
  have "?A div ?B * ?X * 1 \<le> ?A div ?B * ?X * ?B" using p h(3) assms(2) by (intro mult_left_mono) simp_all
  also have "\<dots> = ?X * (?A div ?B * ?B)" by simp
  also have "\<dots> \<le> ?X * ?A" using h(3) div_mult_mod_eq [of ?A ?B] pos_mod_sign [OF assms(2), of ?A] by (intro mult_left_mono) linarith+
  also have "\<dots> \<le> n" using h(5) mult_nonneg_nonneg [OF h(4), of ?B] assms(2) by linarith
  finally show "?A div ?B * ?X \<le> n" by simp
qed

subsection \<open>The variant for secret numbers\<close>

lemma with_flags_wf: "bn_wf (BN_with_flags d b f) = bn_wf b" "bn_val (BN_with_flags d b f) = bn_val b"
  by (simp_all add: BN_with_flags_def bn_wf_def bn_fits_def bn_val_def bn_nat_def)

lemma no_branch_loop:
  assumes "ctx_ok 3 ctx" "below k n" "16 * k \<le> MAXW" "0 < k"
  shows "euclid_inv a n s \<Longrightarrow> \<exists>s'. no_branch_loop True ctx s = Some s' \<and> euclid_inv a n s' \<and> bn_val (eB s') = 0"
proof (induction "nat (bn_val (eB s))" arbitrary: s rule: less_induct)
  case less
  let ?A = "bn_val (eA s)" and ?B = "bn_val (eB s)" and ?X = "bn_val (eX s)" and ?Y = "bn_val (eY s)"
  have nums: "bn_wf (eA s)" "bn_wf (eB s)" "bn_wf (eX s)" "bn_wf (eY s)" "room (eA s)" "room (eD s)" "room (eM s)" "room (eT s)"
    "0 \<le> ?A" "0 \<le> ?B" "0 \<le> ?X" "0 \<le> ?Y" and lt: "?B < ?A"
    using less.prems by (auto simp: euclid_inv_def euclid_nums_def)
  show ?case
  proof (cases "?B = 0")
    case True
    then have "no_branch_loop True ctx s = Some s" using is_zero_val [OF nums(2)] by (subst no_branch_loop.simps) simp
    then show ?thesis using less.prems True by blast
  next
    case False
    then have B: "0 < ?B" using nums(10) by simp
    note le = euclid_inv_le [OF less.prems]
    have n: "0 \<le> n" using le(1) nums(9) by linarith
    have b: "below k ?A" "below k ?B" "below k ?X" "below k ?Y" using le B nums n by (auto intro!: below_le [OF assms(2)])
    let ?l = "BN_with_flags bn_init (eA s) BN_FLG_CONSTTIME"
    have kk: "k < MAXW" using assms(3,4) by simp
    obtain D M where DM: "BN_div True ctx (Some (eD s)) (Some (eM s)) ?l (eB s) = Some (Some D, Some M)" "stands D (?A div ?B)" "stands M (?A mod ?B)"
      using div_op [of ?l "eB s" "eD s" "eM s" ctx k] nums b B assms(1) kk by (auto simp: with_flags_wf)
    have Dv: "bn_val D = ?A div ?B" "bn_wf D" using standsD [OF DM(2)] by simp_all
    have dle: "0 \<le> bn_val D" "bn_val D \<le> ?A" unfolding Dv using B nums(9) zdiv_mono2 [of ?A 1 ?B] by (simp_all add: pos_imp_zdiv_nonneg_iff)
    have bD: "below k (bn_val D)" using dle by (auto intro: below_le [OF b(1)])
    obtain t where t: "BN_mul True False ctx (eA s) D (eX s) = Some t" "stands t (bn_val D * ?X)"
      using mul_op [OF Dv(2) nums(3,5) ctx_ok_less [OF assms(1)] bD b(3) assms(3), of False] by auto
    note tD = standsD [OF t(2)]
    note pX = euclid_product(3,4) [OF less.prems B, folded Dv(1)]
    have bt: "below k (bn_val t)" unfolding tD(3) using pX by (auto intro!: below_le [OF assms(2)])
    obtain u where u: "BN_add True t t (eY s) = Some u" "stands u (bn_val D * ?X + ?Y)"
      using add_op [OF tD(2) nums(4) tD(1) bt b(4) kk] unfolding tD(3) by auto
    let ?s = "euclid_turn (s\<lparr>eD := D, eM := M, eT := eT s\<rparr>) u"
    note turn = euclid_turn [OF less.prems B DM(2,3) nums(8) u(2)]
    have ss: "s\<lparr>eD := D, eM := M, eT := eT s\<rparr> = s\<lparr>eD := D, eM := M\<rparr>" by simp
    have "nat (bn_val (eB ?s)) < nat ?B" unfolding turn(2) using B by simp
    from less.hyps [OF this turn(1)] obtain s' where s': "no_branch_loop True ctx ?s = Some s'" "euclid_inv a n s'" "bn_val (eB s') = 0" by blast
    have "no_branch_loop True ctx s = no_branch_loop True ctx ?s"
      using False is_zero_val [OF nums(2)] by (subst no_branch_loop.simps) (simp add: DM(1) t(1) u(1) ss)
    then show ?thesis using s' by simp
  qed
qed

subsection \<open>The variant with divisions\<close>

lemma quotient_is: "0 < b \<Longrightarrow> q * b \<le> a \<Longrightarrow> a < (q + 1) * b \<Longrightarrow> a div b = q \<and> a mod b = a - q * b" for a b q :: int
  using int_div_pos_eq [of a b q "a - q * b"] int_mod_pos_eq [of a b q "a - q * b"] by (simp add: algebra_simps)

lemma euclid_div:
  assumes "euclid_inv a n s" "0 < bn_val (eB s)" "ctx_ok 3 ctx" "below k n" "k + 2 < MAXW"
  shows "\<exists>D M T. euclid_div True ctx s = Some (s\<lparr>eD := D, eM := M, eT := T\<rparr>) \<and>
    stands D (bn_val (eA s) div bn_val (eB s)) \<and> stands M (bn_val (eA s) mod bn_val (eB s)) \<and> room T"
proof -
  let ?A = "bn_val (eA s)" and ?B = "bn_val (eB s)"
  have h: "bn_wf (eA s)" "bn_wf (eB s)" "room (eD s)" "room (eM s)" "room (eT s)" "?B < ?A"
    using assms(1) by (auto simp: euclid_inv_def euclid_nums_def)
  have A0: "0 < ?A" using h(6) assms(2) by simp
  note le = euclid_inv_le [OF assms(1)]
  have b: "below k ?A" "below k ?B" using le A0 assms(2) by (auto intro!: below_le [OF assms(4)])
  have km: "k < MAXW" "k + 1 < MAXW" using assms(5) by simp_all
  note bA = num_bits_val [OF h(1) A0] and bB = num_bits_val [OF h(2) assms(2)]
  let ?l = "BN_num_bits (eB s)"
  have pow: "(2 :: int) ^ ?l = 2 * 2 ^ (?l - 1)" using bB(3) by (simp flip: power_Suc)
  obtain D1 where D1: "BN_set_word True (eD s) 1 = Some D1" "stands D1 1" using set_word_op [OF h(3), of 1] by auto
  obtain M1 where M1: "BN_sub True (eM s) (eA s) (eB s) = Some M1" "stands M1 (?A - ?B)" using sub_op [OF h(1,2,4) b km(1)] by auto
  consider (eq) "BN_num_bits (eA s) = ?l" | (one) "BN_num_bits (eA s) = ?l + 1" | (far) "BN_num_bits (eA s) \<noteq> ?l" "BN_num_bits (eA s) \<noteq> ?l + 1" by blast
  then show ?thesis
  proof cases
    case eq
    have "?A < (1 + 1) * ?B" using bA(2) bB(1) pow unfolding eq by simp
    then have q: "?A div ?B = 1 \<and> ?A mod ?B = ?A - 1 * ?B" using quotient_is [of ?B 1 ?A] assms(2) h(6) by simp
    have "euclid_div True ctx s = Some (s\<lparr>eD := D1, eM := M1, eT := eT s\<rparr>)" using eq D1(1) M1(1) by (simp add: euclid_div_def)
    then show ?thesis by (intro exI [of _ D1] exI [of _ M1] exI [of _ "eT s"]) (use D1(2) M1(2) q h(5) in simp)
  next
    case one
    obtain T where T: "BN_lshift1 True (eT s) (eB s) = Some T" "stands T (2 * ?B)" using lshift1_op [OF h(2,5) b(2) km(1)] by auto
    note t = standsD [OF T(2)]
    have bT: "below (k + 1) (bn_val T)" unfolding t(3) using assms(2) by (intro below_times [OF b(2)]) simp
    have A4: "?A < 4 * ?B" using bA(2) bB(1) pow unfolding one by simp
    show ?thesis
    proof (cases "?A < 2 * ?B")
      case True
      then have c: "BN_ucmp (eA s) T < 0" using ucmp_val [OF h(1) t(2)] assms(2) A0 unfolding t(3) by simp
      have q: "?A div ?B = 1 \<and> ?A mod ?B = ?A - 1 * ?B" using quotient_is [of ?B 1 ?A] assms(2) h(6) True by simp
      have "euclid_div True ctx s = Some (s\<lparr>eD := D1, eM := M1, eT := T\<rparr>)" using one D1(1) M1(1) T(1) c by (simp add: euclid_div_def)
      then show ?thesis by (intro exI [of _ D1] exI [of _ M1] exI [of _ T]) (use D1(2) M1(2) q t(1) in simp)
    next
      case False
      then have c: "\<not> BN_ucmp (eA s) T < 0" using ucmp_val [OF h(1) t(2)] assms(2) A0 unfolding t(3) by simp
      obtain M where M: "BN_sub True (eM s) (eA s) T = Some M" "stands M (?A - 2 * ?B)"
        using sub_op [OF h(1) t(2) h(4) below_mono [OF b(1)] bT km(2)] unfolding t(3) by auto
      obtain D where D: "BN_add True (eD s) T (eB s) = Some D" "stands D (2 * ?B + ?B)"
        using add_op [OF t(2) h(2,3) bT below_mono [OF b(2)] km(2)] unfolding t(3) by auto
      note m = standsD [OF M(2)] and d = standsD [OF D(2)]
      show ?thesis
      proof (cases "?A < 3 * ?B")
        case True
        then have c2: "BN_ucmp (eA s) D < 0" using ucmp_val [OF h(1) d(2)] assms(2) A0 unfolding d(3) by simp
        have q: "?A div ?B = 2 \<and> ?A mod ?B = ?A - 2 * ?B" using quotient_is [of ?B 2 ?A] assms(2) False True by simp
        obtain E where E: "BN_set_word True D 2 = Some E" "stands E 2" using set_word_op [OF d(1), of 2] by auto
        have "euclid_div True ctx s = Some (s\<lparr>eD := E, eM := M, eT := T\<rparr>)" using one T(1) c M(1) D(1) c2 E(1) by (simp add: euclid_div_def)
        then show ?thesis by (intro exI [of _ E] exI [of _ M] exI [of _ T]) (use E(2) M(2) q t(1) in simp)
      next
        case F: False
        then have c2: "\<not> BN_ucmp (eA s) D < 0" using ucmp_val [OF h(1) d(2)] assms(2) A0 unfolding d(3) by simp
        have q: "?A div ?B = 3 \<and> ?A mod ?B = ?A - 3 * ?B" using quotient_is [of ?B 3 ?A] assms(2) F A4 by simp
        obtain E where E: "BN_set_word True D 3 = Some E" "stands E 3" using set_word_op [OF d(1), of 3] by auto
        have bM: "below k (bn_val M)" unfolding m(3) using False A0 assms(2) by (intro below_le [OF b(1)]) simp
        obtain N where N: "BN_sub True M M (eB s) = Some N" "stands N (?A - 2 * ?B - ?B)"
          using sub_op [OF m(2) h(2) m(1) bM b(2) km(1)] unfolding m(3) by auto
        have "euclid_div True ctx s = Some (s\<lparr>eD := E, eM := N, eT := T\<rparr>)" using one T(1) c M(1) D(1) c2 E(1) N(1) by (simp add: euclid_div_def)
        moreover have "?A - 2 * ?B - ?B = ?A mod ?B" using q by linarith
        then have "stands N (?A mod ?B)" using N(2) by simp
        ultimately show ?thesis by (intro exI [of _ E] exI [of _ N] exI [of _ T]) (use E(2) q t(1) in simp)
      qed
    qed
  next
    case far
    obtain D M where DM: "BN_div True ctx (Some (eD s)) (Some (eM s)) (eA s) (eB s) = Some (Some D, Some M)" "stands D (?A div ?B)" "stands M (?A mod ?B)"
      using div_op [OF h(1,2) _ assms(2) h(3,4) assms(3) b km(1)] A0 by auto
    have "euclid_div True ctx s = Some (s\<lparr>eD := D, eM := M, eT := eT s\<rparr>)" using far DM(1) by (simp add: euclid_div_def)
    then show ?thesis by (intro exI [of _ D] exI [of _ M] exI [of _ "eT s"]) (use DM(2,3) h(5) in simp)
  qed
qed

lemma euclid_mul:
  assumes "bn_wf D" "bn_wf X" "bn_wf Y" "room r" "0 < bn_val D" "0 \<le> bn_val X" "0 \<le> bn_val Y" "ctx_ok 2 ctx"
    and "below k (bn_val D)" "below k (bn_val X)" "below k (bn_val D * bn_val X)" "below k (bn_val Y)" "16 * k \<le> MAXW" "0 < k"
  shows "\<exists>c. euclid_mul True ctx r D X Y = Some c \<and> stands c (bn_val D * bn_val X + bn_val Y)"
proof (cases "bn_val D = 1")
  case True
  then show ?thesis using add_op [OF assms(2-4,10,12)] assms(13,14) is_one_val [OF assms(1)] by (auto simp: euclid_mul_def)
next
  case False
  have km: "k < MAXW" using assms(13,14) by simp
  define e where "e = (if BN_is_word D 2 then BN_lshift1 True r X
          else if BN_is_word D 4 then BN_lshift True r X 2
          else if bn_top D = 1 then Option.bind (BN_copy True r X) (\<lambda>tmp. BN_mul_word True tmp (bn_d D ! 0))
          else BN_mul True False ctx r D X)"
  have "\<exists>c. e = Some c \<and> stands c (bn_val D * bn_val X)"
  proof -
    note w = is_word_val [OF assms(1)]
    consider (two) "bn_val D = 2" | (four) "bn_val D = 4" | (word) "bn_val D \<noteq> 2" "bn_val D \<noteq> 4" "bn_top D = 1"
      | (big) "bn_val D \<noteq> 2" "bn_val D \<noteq> 4" "bn_top D \<noteq> 1" by blast
    then show ?thesis
    proof cases
      case two
      then show ?thesis using lshift1_op [OF assms(2,4,10) km] by (simp add: e_def w)
    next
      case four
      have "MAXW \<noteq> 0" using km by simp
      then show ?thesis using four lshift_op [OF assms(2,4,10), of 2] km by (simp add: e_def w mult.commute)
    next
      case word
      obtain c where c: "BN_copy True r X = Some c" "stands c (bn_val X)" using copy_op [OF assms(4,2)] by blast
      obtain d where d: "BN_mul_word True c (bn_d D ! 0) = Some d" "stands d (bn_val X * int (unat (bn_d D ! 0)))"
        using mul_word_op [OF c(2) assms(10) km] by blast
      have "bn_val D = int (unat (bn_d D ! 0))" using bn_nat_words(2) [OF assms(1) word(3)] bn_val_pos [of D] assms(5) by simp
      then show ?thesis using word c(1) d by (simp add: e_def w mult.commute)
    next
      case big
      then show ?thesis using mul_op [OF assms(1,2,4,8-10,13), of False] by (simp add: e_def w)
    qed
  qed
  then obtain t where t: "e = Some t" "stands t (bn_val D * bn_val X)" by blast
  note h = standsD [OF t(2)]
  have "\<exists>c. BN_add True t t Y = Some c \<and> stands c (bn_val D * bn_val X + bn_val Y)"
    using add_op [OF h(2) assms(3) h(1) _ assms(12) km] assms(11) unfolding h(3) by blast
  moreover have "euclid_mul True ctx r D X Y = BN_add True t t Y"
    using False is_one_val [OF assms(1)] t(1) unfolding euclid_mul_def e_def by simp
  ultimately show ?thesis by simp
qed

lemma euclid_loop:
  assumes "ctx_ok 3 ctx" "below k n" "16 * k \<le> MAXW" "0 < k"
  shows "euclid_inv a n s \<Longrightarrow> \<exists>s'. euclid_loop True ctx s = Some s' \<and> euclid_inv a n s' \<and> bn_val (eB s') = 0"
proof (induction "nat (bn_val (eB s))" arbitrary: s rule: less_induct)
  case less
  let ?A = "bn_val (eA s)" and ?B = "bn_val (eB s)" and ?X = "bn_val (eX s)" and ?Y = "bn_val (eY s)"
  have nums: "bn_wf (eA s)" "bn_wf (eB s)" "bn_wf (eX s)" "bn_wf (eY s)" "room (eA s)" "0 \<le> ?A" "0 \<le> ?B" "0 \<le> ?X" "0 \<le> ?Y"
    using less.prems by (auto simp: euclid_inv_def euclid_nums_def)
  show ?case
  proof (cases "?B = 0")
    case True
    then have "euclid_loop True ctx s = Some s" using is_zero_val [OF nums(2)] by (subst euclid_loop.simps) simp
    then show ?thesis using less.prems True by blast
  next
    case False
    then have B: "0 < ?B" using nums(7) by simp
    note le = euclid_inv_le [OF less.prems] and p = euclid_product [OF less.prems B]
    have km: "k + 2 < MAXW" using assms(3,4) by simp
    obtain D M T where d: "euclid_div True ctx s = Some (s\<lparr>eD := D, eM := M, eT := T\<rparr>)" "stands D (?A div ?B)" "stands M (?A mod ?B)" "room T"
      using euclid_div [OF less.prems B assms(1,2) km] by blast
    note D = standsD [OF d(2)]
    have b: "below k (bn_val D)" "below k ?X" "below k (bn_val D * ?X)" "below k ?Y"
      using le(3) le(4) [OF B] nums p unfolding D(3) by (auto intro!: below_le [OF assms(2)])
    obtain u where u: "euclid_mul True ctx (eA s) D (eX s) (eY s) = Some u" "stands u (bn_val D * ?X + ?Y)"
      using euclid_mul [OF D(2) nums(3,4,5) _ nums(8,9) ctx_ok_less [OF assms(1)] b assms(3,4)] p(1) unfolding D(3) by auto
    let ?s = "euclid_turn (s\<lparr>eD := D, eM := M, eT := T\<rparr>) u"
    note turn = euclid_turn [OF less.prems B d(2,3,4) u(2)]
    have "nat (bn_val (eB ?s)) < nat ?B" unfolding turn(2) using B by simp
    from less.hyps [OF this turn(1)] obtain s' where s': "euclid_loop True ctx ?s = Some s'" "euclid_inv a n s'" "bn_val (eB s') = 0" by blast
    have "euclid_loop True ctx s = euclid_loop True ctx ?s"
      using False is_zero_val [OF nums(2)] by (subst euclid_loop.simps) (simp add: d(1) u(1))
    then show ?thesis using s' by simp
  qed
qed

subsection \<open>The variant with halvings\<close>

lemma halve_step:
  assumes "bn_wf n" "odd (bn_val n)" "stands X x" "0 \<le> x" "below k x" "below k (bn_val n)" "k < MAXW"
  shows "\<exists>Y X' x'. (if BN_is_odd X then BN_uadd True X X n else Some X) = Some Y \<and> BN_rshift1 True Y Y = Some X' \<and> stands X' x' \<and>
    0 \<le> x' \<and> 2 * x' \<le> x + \<bar>bn_val n\<bar> \<and> bn_val n dvd 2 * x' - x"
proof -
  note X = standsD [OF assms(3)]
  define y where "y = (if odd x then x + \<bar>bn_val n\<bar> else x)"
  have y: "even y" "0 \<le> y" "y \<le> x + \<bar>bn_val n\<bar>" "bn_val n dvd y - x" using assms(2,4) by (auto simp: y_def)
  have "\<exists>Y. (if BN_is_odd X then BN_uadd True X X n else Some X) = Some Y \<and> stands Y y"
  proof (cases "odd x")
    case True
    have "below k (bn_val X)" using assms(5) X(3) by simp
    from uadd_op [OF X(2) assms(1) X(1) this assms(6,7)] show ?thesis using True is_odd_val [OF X(2)] X(3) assms(4) by (simp add: y_def)
  next
    case False
    then show ?thesis using is_odd_val [OF X(2)] X(3) assms(3) by (simp add: y_def)
  qed
  then obtain Y where Y: "(if BN_is_odd X then BN_uadd True X X n else Some X) = Some Y" "stands Y y" by blast
  note h = standsD [OF Y(2)]
  obtain X' where X': "BN_rshift1 True Y Y = Some X'" "stands X' (y div 2)" using rshift1_op [OF h(2,1)] y(2) unfolding h(3) by blast
  have e: "2 * (y div 2) = y" using y(1) by simp
  show ?thesis by (intro exI [of _ Y] exI [of _ X'] exI [of _ "y div 2"]) (use Y(1) X' y e in auto)
qed

lemma even_loop:
  assumes "bn_wf n" "odd (bn_val n)" "BN_is_bit_set B (int t)" "\<forall>i<t. \<not> BN_is_bit_set B (int i)" "\<bar>bn_val n\<bar> \<le> l" "below k (2 * l)" "k < MAXW"
  shows "j \<le> t \<Longrightarrow> stands X x \<Longrightarrow> 0 \<le> x \<Longrightarrow> x \<le> l \<or> j < t \<and> x + \<bar>bn_val n\<bar> \<le> 2 * l \<Longrightarrow>
    \<exists>X' x'. even_loop True n B X j = Some (X', t) \<and> stands X' x' \<and> 0 \<le> x' \<and> x' \<le> l \<and> bn_val n dvd 2 ^ (t - j) * x' - x"
proof (induction "t - j" arbitrary: j X x)
  case 0
  then have "even_loop True n B X j = Some (X, t)" using assms(3) by (subst even_loop.simps) simp
  then show ?case using 0 by auto
next
  case (Suc d)
  have j: "j < t" using Suc.hyps(2) by simp
  have bx: "below k x" "below k (bn_val n)" using Suc.prems(3,4) assms(5) by (auto intro!: below_le [OF assms(6)])
  obtain Y X1 x1 where s: "(if BN_is_odd X then BN_uadd True X X n else Some X) = Some Y" "BN_rshift1 True Y Y = Some X1" "stands X1 x1"
      "0 \<le> x1" "2 * x1 \<le> x + \<bar>bn_val n\<bar>" "bn_val n dvd 2 * x1 - x"
    using halve_step [OF assms(1,2) Suc.prems(2,3) bx assms(7)] by blast
  have x1: "x1 \<le> l" using s(5) Suc.prems(4) assms(5) by linarith
  have d: "d = t - (j + 1)" "j + 1 \<le> t" using Suc.hyps(2) by simp_all
  obtain X' x' where r: "even_loop True n B X1 (j + 1) = Some (X', t)" "stands X' x'" "0 \<le> x'" "x' \<le> l" "bn_val n dvd 2 ^ (t - (j + 1)) * x' - x1"
    using Suc.hyps(1) [OF d s(3,4) disjI1 [OF x1]] by blast
  have e: "even_loop True n B X j = even_loop True n B X1 (j + 1)"
    using j assms(4) s(2) by (subst even_loop.simps) (simp add: s(1))
  have "t - j = Suc (t - (j + 1))" using j by simp
  then have "2 ^ (t - j) * x' - x = 2 * (2 ^ (t - (j + 1)) * x' - x1) + (2 * x1 - x)" by (simp add: algebra_simps)
  moreover have "bn_val n dvd 2 * (2 ^ (t - (j + 1)) * x' - x1)" by (rule dvd_mult [OF r(5)])
  ultimately have "bn_val n dvd 2 ^ (t - j) * x' - x" using s(6) dvd_add by metis
  then show ?case using e r by auto
qed

lemma lowest_bit: "0 < (b :: int) \<Longrightarrow> \<exists>t b'. bit b t \<and> (\<forall>i<t. \<not> bit b i) \<and> b = 2 ^ t * b' \<and> odd b' \<and> 0 < b'"
proof (induction "nat b" arbitrary: b rule: less_induct)
  case less
  show ?case
  proof (cases "odd b")
    case True
    then show ?thesis using less.prems by (intro exI [of _ 0] exI [of _ b]) (simp add: bit_0)
  next
    case False
    then obtain c where c: "b = 2 * c" by (auto elim: evenE)
    then obtain t b' where t: "bit c t" "\<forall>i<t. \<not> bit c i" "c = 2 ^ t * b'" "odd b'" "0 < b'" using less.hyps [of c] less.prems by auto
    have "bit b (Suc t)" using t(1) c by (simp add: bit_double_iff)
    moreover have "\<not> bit b i" if "i < Suc t" for i using t(2) that c by (cases i) (auto simp: bit_0 bit_double_iff)
    ultimately show ?thesis using t c by (intro exI [of _ "Suc t"] exI [of _ b']) auto
  qed
qed

lemma make_odd:
  assumes "bn_wf n" "odd (bn_val n)" "stands B b" "0 < b" "stands X x" "0 \<le> x" "x \<le> l \<or> even b \<and> x + \<bar>bn_val n\<bar> \<le> 2 * l"
    and "\<bar>bn_val n\<bar> \<le> l" "below k (2 * l)" "k < MAXW"
  shows "\<exists>B' X' b' x' t. make_odd True n B X = Some (B', X') \<and> stands B' b' \<and> stands X' x' \<and> odd b' \<and> 0 < b' \<and> b = 2 ^ t * b' \<and>
    0 \<le> x' \<and> x' \<le> l \<and> bn_val n dvd 2 ^ t * x' - x"
proof -
  note h = standsD [OF assms(3)]
  obtain t b' where t: "bit b t" "\<forall>i<t. \<not> bit b i" "b = 2 ^ t * b'" "odd b'" "0 < b'" using lowest_bit [OF assms(4)] by blast
  have bits: "BN_is_bit_set B (int i) \<longleftrightarrow> bit b i" for i using bit_set_val [OF h(2)] h(3) assms(4) by simp
  have x: "x \<le> l \<or> 0 < t \<and> x + \<bar>bn_val n\<bar> \<le> 2 * l" using assms(7) t(3,4) by (cases t) auto
  obtain X' x' where e: "even_loop True n B X 0 = Some (X', t)" "stands X' x'" "0 \<le> x'" "x' \<le> l" "bn_val n dvd 2 ^ t * x' - x"
    using even_loop [OF assms(1,2) _ _ assms(8,9,10), of B t 0 X x] bits t(1,2) assms(5,6) x by auto
  have "\<exists>B'. (if t > 0 then BN_rshift True B B (int t) else Some B) = Some B' \<and> stands B' b'"
  proof (cases "t > 0")
    case True
    have "b div 2 ^ t = b'" using t(3) by simp
    then show ?thesis using True rshift_op [OF h(2,1), of t] assms(4) unfolding h(3) by simp
  next
    case False
    then show ?thesis using t(3) assms(3) by simp
  qed
  then obtain B' where "(if t > 0 then BN_rshift True B B (int t) else Some B) = Some B'" "stands B' b'" by blast
  then have "make_odd True n B X = Some (B', X') \<and> stands B' b'" using e(1) by (simp add: make_odd_def)
  then show ?thesis using e t by blast
qed

text \<open>The state before round \<open>k\<close>: one of \<open>A\<close> and \<open>B\<close> is even but in the first, and their product has halved in every round.\<close>

definition binary_inv :: "int \<Rightarrow> bignum \<Rightarrow> nat \<Rightarrow> euclid \<Rightarrow> bool" where
  "binary_inv a n k s \<longleftrightarrow> euclid_nums s \<and> euclid_cong a \<bar>bn_val n\<bar> s \<and> eneg s \<and> 0 < bn_val (eA s) \<and> k \<le> 4098 \<and>
     (let A = bn_val (eA s); B = bn_val (eB s); X = bn_val (eX s); Y = bn_val (eY s); N = \<bar>bn_val n\<bar>
      in (k = 0 \<and> A * B \<le> N * N \<or> 0 < k \<and> (even A \<or> even B) \<and> A * B * 2 ^ k \<le> 2 * (N * N)) \<and>
         (X \<le> (int k + 1) * N \<or> even B \<and> X + N \<le> 2 * ((int k + 1) * N)) \<and>
         (Y \<le> (int k + 1) * N \<or> even A \<and> Y + N \<le> 2 * ((int k + 1) * N)))"

lemma dvd_odd_part:
  fixes N :: int
  assumes "odd N" "N dvd s * x * a + 2 ^ t * b" "N dvd 2 ^ t * y - x"
  shows "N dvd s * y * a + b"
proof -
  have "2 ^ t * (s * y * a + b) = s * a * (2 ^ t * y - x) + (s * x * a + 2 ^ t * b)" by (simp add: algebra_simps)
  moreover have "N dvd s * a * (2 ^ t * y - x)" using assms(3) by (rule dvd_mult)
  ultimately have "N dvd 2 ^ t * (s * y * a + b)" using assms(2) dvd_add by metis
  moreover have "coprime N (2 ^ t)" using assms(1) by simp
  ultimately show ?thesis by (simp add: coprime_dvd_mult_right_iff)
qed

lemma gcd_odd_part: "odd (gcd a (2 ^ t * b)) \<Longrightarrow> gcd a (2 ^ t * b) = gcd a b" for a b :: int
proof (induction t)
  case (Suc t)
  let ?g = "gcd a (2 ^ Suc t * b)"
  have o: "coprime ?g 2" using Suc.prems by simp
  have "?g dvd 2 * (2 ^ t * b)" by (metis gcd_dvd2 mult.assoc power_Suc)
  then have "?g dvd gcd a (2 ^ t * b)" using o by (simp add: coprime_dvd_mult_right_iff)
  moreover have "gcd a (2 ^ t * b) dvd ?g" by (simp add: mult.assoc dvd_mult)
  ultimately have e: "?g = gcd a (2 ^ t * b)" by (intro zdvd_antisym_nonneg) simp_all
  then show ?case using Suc by simp
qed simp

lemma odd_parts_le:
  fixes a b :: int
  assumes "0 < a" "0 < b"
  shows "a * b \<le> (2 ^ u * a) * (2 ^ t * b)" "even (2 ^ u * a) \<or> even (2 ^ t * b) \<Longrightarrow> odd a \<Longrightarrow> odd b \<Longrightarrow> 2 * (a * b) \<le> (2 ^ u * a) * (2 ^ t * b)"
    "a \<le> 2 ^ u * a"
proof -
  have ab: "0 \<le> a * b" using assms by simp
  have e: "(2 ^ u * a) * (2 ^ t * b) = 2 ^ (u + t) * (a * b)" by (simp add: power_add)
  show "a * b \<le> (2 ^ u * a) * (2 ^ t * b)" unfolding e using mult_right_mono [OF _ ab, of 1 "2 ^ (u + t)"] by simp
  show "a \<le> 2 ^ u * a" using mult_right_mono [of 1 "2 ^ u" a] assms(1) by simp
  assume "even (2 ^ u * a) \<or> even (2 ^ t * b)" "odd a" "odd b"
  then have "1 \<le> u + t" by (cases "u + t") auto
  then have "(2 :: int) ^ 1 \<le> 2 ^ (u + t)" by (intro power_increasing) simp_all
  then show "2 * (a * b) \<le> (2 ^ u * a) * (2 ^ t * b)" unfolding e using mult_right_mono [OF _ ab, of 2 "2 ^ (u + t)"] by simp
qed

text \<open>The arithmetic of a round on integers, when it takes the smaller of two odd numbers from the larger.\<close>

lemma binary_round:
  fixes A B X Y N a b :: int
  assumes "0 < A" "0 < B" "k = 0 \<and> 2 ^ u * A * (2 ^ t * B) \<le> N * N \<or> 0 < k \<and> (even (2 ^ u * A) \<or> even (2 ^ t * B)) \<and> 2 ^ u * A * (2 ^ t * B) * 2 ^ k \<le> 2 * (N * N)"
    and "odd A" "odd B" "0 < N" "N < 2 ^ 2048"
  shows "k + 1 \<le> 4098" "A * B * 2 ^ (k + 1) \<le> 2 * (N * N)"
proof -
  define P where "P = 2 ^ u * A * (2 ^ t * B)"
  note le = odd_parts_le(1,2) [OF assms(1,2), of u t, folded P_def]
  have AB: "1 \<le> A * B" using assms(1,2) by (simp add: int_one_le_iff_zero_less)
  have NN: "N * N < 2 ^ 4096"
  proof -
    have "N * N < 2 ^ 2048 * 2 ^ 2048" using assms(6,7) by (intro mult_strict_mono) simp_all
    then show ?thesis by (simp flip: power_add)
  qed
  have N0: "0 < N * N" using assms(6) by simp
  have Pk: "P * 2 ^ k \<le> 2 * (N * N)"
    using assms(3)
  proof
    assume "k = 0 \<and> 2 ^ u * A * (2 ^ t * B) \<le> N * N"
    then have "k = 0" "P \<le> N * N" by (simp_all add: P_def)
    then show ?thesis using N0 by simp
  qed (simp add: P_def)
  have "1 * 2 ^ k \<le> P * 2 ^ k" using le(1) AB by (intro mult_right_mono) simp_all
  also note Pk
  also have "2 * (N * N) < 2 * 2 ^ 4096" using NN by (rule mult_strict_left_mono) simp
  finally have "(2 :: int) ^ k < 2 ^ 4097" by simp
  then show "k + 1 \<le> 4098" using power_less_imp_less_exp [of "2 :: int" k 4097] by simp
  show "A * B * 2 ^ (k + 1) \<le> 2 * (N * N)"
  proof (cases "k = 0")
    case True
    then show ?thesis using le(1) assms(3) unfolding P_def by simp
  next
    case False
    then have "2 * (A * B) \<le> P" using le(2) assms(3-5) by blast
    then have "2 * (A * B) * 2 ^ k \<le> P * 2 ^ k" by (intro mult_right_mono) simp_all
    moreover have "A * B * 2 ^ (k + 1) = 2 * (A * B) * 2 ^ k" by simp
    ultimately show ?thesis using Pk by linarith
  qed
qed

lemma binary_step:
  assumes n: "bn_wf n" "odd (bn_val n)" "\<bar>bn_val n\<bar> < 2 ^ 2048" "below kk (bn_val n)" "kk + 1 < MAXW"
    and s: "binary_inv a n k s" "0 < bn_val (eB s)"
  shows "\<exists>s'. binary_loop True n s = binary_loop True n s' \<and> binary_inv a n (k + 1) s' \<and>
    nat (bn_val (eA s') + bn_val (eB s')) < nat (bn_val (eA s) + bn_val (eB s))"
proof -
  define N where "N = \<bar>bn_val n\<bar>"
  define l where "l = (int k + 1) * N"
  let ?A = "bn_val (eA s)" and ?B = "bn_val (eB s)" and ?X = "bn_val (eX s)" and ?Y = "bn_val (eY s)"
  have h: "0 < ?A" "0 \<le> ?X" "0 \<le> ?Y" "stands (eA s) ?A" "stands (eB s) ?B" "stands (eX s) ?X" "stands (eY s) ?Y"
    "room (eM s)" "room (eD s)" "room (eT s)" "eneg s" "k \<le> 4098"
    and c: "gcd ?A ?B = gcd a N" "N dvd euclid_sg s * ?Y * a - ?A" "N dvd euclid_sg s * ?X * a + ?B"
    and pot: "k = 0 \<and> ?A * ?B \<le> N * N \<or> 0 < k \<and> (even ?A \<or> even ?B) \<and> ?A * ?B * 2 ^ k \<le> 2 * (N * N)"
    and bd: "?X \<le> l \<or> even ?B \<and> ?X + N \<le> 2 * l" "?Y \<le> l \<or> even ?A \<and> ?Y + N \<le> 2 * l"
    using s(1) by (simp_all add: binary_inv_def euclid_nums_def euclid_cong_def stands_def Let_def N_def l_def)
  have N: "odd N" "0 < N" "N < 2 ^ 2048" using n(2,3) by (auto simp: N_def intro: ccontr)
  have l: "N \<le> l" "0 \<le> l" "l \<le> 4099 * N"
    using mult_right_mono [of 1 "int k + 1" N] mult_right_mono [of "int k + 1" 4099 N] h(12) N(2) by (simp_all add: l_def)
  have km: "kk + 1 < MAXW" by (rule n(5))
  have b2: "below (kk + 1) (2 * l)" using l by (intro below_times [OF n(4)]) (simp flip: N_def)
  obtain B' X' b x t where m1: "make_odd True n (eB s) (eX s) = Some (B', X')" "stands B' b" "stands X' x" "odd b" "0 < b" "?B = 2 ^ t * b"
      "0 \<le> x" "x \<le> l" "bn_val n dvd 2 ^ t * x - ?X"
    using make_odd [OF n(1,2) h(5) s(2) h(6,2) bd(1) [unfolded N_def] l(1) [unfolded N_def] b2 km] by blast
  obtain A' Y' a' y u where m2: "make_odd True n (eA s) (eY s) = Some (A', Y')" "stands A' a'" "stands Y' y" "odd a'" "0 < a'" "?A = 2 ^ u * a'"
      "0 \<le> y" "y \<le> l" "bn_val n dvd 2 ^ u * y - ?Y"
    using make_odd [OF n(1,2) h(4,1) h(7,3) bd(2) [unfolded N_def] l(1) [unfolded N_def] b2 km] by blast
  note A' = standsD [OF m2(2)] and B' = standsD [OF m1(2)] and X' = standsD [OF m1(3)] and Y' = standsD [OF m2(3)]
  have dx: "N dvd euclid_sg s * x * a + b"
    by (rule dvd_odd_part [OF N(1), of _ ?X _ t]) (use c(3) m1(6,9) in \<open>simp_all add: N_def\<close>)
  have "N dvd euclid_sg s * y * a + - a'"
    by (rule dvd_odd_part [OF N(1), of _ ?Y _ u]) (use c(2) m2(6,9) in \<open>simp_all add: N_def\<close>)
  then have dy: "N dvd euclid_sg s * y * a - a'" by simp
  have og: "odd (gcd ?A ?B)" unfolding c(1) using N(1) by (meson dvd_trans gcd_dvd2)
  have g: "gcd a' b = gcd a N"
  proof -
    have o1: "odd (gcd (2 ^ u * a') (2 ^ t * b))" using og unfolding m1(6) m2(6) .
    note g1 = gcd_odd_part [OF o1]
    have o2: "odd (gcd b (2 ^ u * a'))" by (subst gcd.commute) (rule o1 [unfolded g1])
    note g2 = gcd_odd_part [OF o2]
    show ?thesis using c(1) g1 g2 gcd.commute [of b "2 ^ u * a'"] gcd.commute [of b a'] unfolding m1(6) m2(6) by metis
  qed
  note round = binary_round [OF m2(5) m1(5) pot [unfolded m1(6) m2(6)] m2(4) m1(4) N(2,3)]
  have bxy: "below (kk + 1) (bn_val X')" "below (kk + 1) (bn_val Y')"
    unfolding X'(3) Y'(3) using m1(7,8) m2(7,8) l(2) by (intro below_le [OF b2]; simp)+
  have l1: "(int (k + 1) + 1) * N = l + N" by (simp add: l_def algebra_simps)
  have dec: "a' \<le> ?A" "b \<le> ?B" unfolding m1(6) m2(6) using odd_parts_le(3) [OF m2(5) m1(5)] odd_parts_le(3) [OF m1(5) m2(5)] by auto
  note unf = binary_inv_def euclid_nums_def euclid_cong_def euclid_sg_def Let_def
  have loop: "binary_loop True n s = Option.bind
      (if BN_ucmp B' A' \<ge> 0 then
         Option.bind (BN_uadd True X' X' Y') (\<lambda>X.
         map_option (\<lambda>B. s\<lparr>eA := A', eB := B, eX := X, eY := Y'\<rparr>) (BN_usub True B' B' A'))
       else
         Option.bind (BN_uadd True Y' Y' X') (\<lambda>Y.
         map_option (\<lambda>A. s\<lparr>eA := A, eB := B', eX := X', eY := Y\<rparr>) (BN_usub True A' A' B'))) (binary_loop True n)"
    using s(2) is_zero_val [OF standsD(2) [OF h(5)]] by (subst binary_loop.simps) (simp add: m1(1) m2(1))
  show ?thesis
  proof (cases "a' \<le> b")
    case True
    then have cmp: "BN_ucmp B' A' \<ge> 0" using ucmp_val [OF B'(2) A'(2)] m1(5) m2(5) unfolding A'(3) B'(3) by simp
    obtain X2 where X2: "BN_uadd True X' X' Y' = Some X2" "stands X2 (x + y)"
      using uadd_op [OF X'(2) Y'(2) X'(1) bxy km] m1(7) m2(7) unfolding X'(3) Y'(3) by auto
    obtain B2 where B2: "BN_usub True B' B' A' = Some B2" "stands B2 (b - a')"
      using usub_op [OF B'(2) A'(2) B'(1)] True m2(5) unfolding A'(3) B'(3) by auto
    let ?s = "s\<lparr>eA := A', eB := B2, eX := X2, eY := Y'\<rparr>"
    note X2' = standsD [OF X2(2)] and B2' = standsD [OF B2(2)]
    have P: "a' * (b - a') * 2 ^ (k + 1) \<le> 2 * (N * N)"
    proof -
      have "a' * (b - a') * 2 ^ (k + 1) \<le> a' * b * 2 ^ (k + 1)" using m2(5) by (intro mult_right_mono mult_left_mono) simp_all
      then show ?thesis using round(2) by linarith
    qed
    have "gcd a' (b - a') = gcd a N" using g by (metis gcd.commute gcd_diff1)
    moreover have "N dvd euclid_sg s * (x + y) * a + (b - a')" using dvd_add [OF dx dy] by (simp add: algebra_simps)
    moreover have "even (b - a')" using m1(4) m2(4) by simp
    ultimately have "binary_inv a n (k + 1) ?s"
      using h dy P round(1) m1(7,8) m2(5,7,8) True A' Y' X2' B2' l N l1 unfolding unf by (simp flip: N_def)
    moreover have "binary_loop True n s = binary_loop True n ?s" using loop cmp X2(1) B2(1) by simp
    moreover have "nat (bn_val (eA ?s) + bn_val (eB ?s)) < nat (?A + ?B)" using A' B2' dec m2(5) True by simp
    ultimately show ?thesis by blast
  next
    case False
    then have cmp: "\<not> BN_ucmp B' A' \<ge> 0" using ucmp_val [OF B'(2) A'(2)] m1(5) m2(5) unfolding A'(3) B'(3) by simp
    obtain Y2 where Y2: "BN_uadd True Y' Y' X' = Some Y2" "stands Y2 (y + x)"
      using uadd_op [OF Y'(2) X'(2) Y'(1) bxy(2,1) km] m1(7) m2(7) unfolding X'(3) Y'(3) by auto
    obtain A2 where A2: "BN_usub True A' A' B' = Some A2" "stands A2 (a' - b)"
      using usub_op [OF A'(2) B'(2) A'(1)] False m1(5) unfolding A'(3) B'(3) by auto
    let ?s = "s\<lparr>eA := A2, eB := B', eX := X', eY := Y2\<rparr>"
    note Y2' = standsD [OF Y2(2)] and A2' = standsD [OF A2(2)]
    have P: "(a' - b) * b * 2 ^ (k + 1) \<le> 2 * (N * N)"
    proof -
      have "(a' - b) * b * 2 ^ (k + 1) \<le> a' * b * 2 ^ (k + 1)" using m1(5) by (intro mult_right_mono) simp_all
      then show ?thesis using round(2) by linarith
    qed
    have "gcd (a' - b) b = gcd a N" using g by (metis gcd_diff1)
    moreover have "N dvd euclid_sg s * (y + x) * a - (a' - b)" using dvd_add [OF dx dy] by (simp add: algebra_simps)
    moreover have "even (a' - b)" using m1(4) m2(4) by simp
    ultimately have "binary_inv a n (k + 1) ?s"
      using h dx P round(1) m1(5,7,8) m2(7,8) False X' B' Y2' A2' l N l1 unfolding unf by (simp flip: N_def)
    moreover have "binary_loop True n s = binary_loop True n ?s" using loop cmp Y2(1) A2(1) by simp
    moreover have "nat (bn_val (eA ?s) + bn_val (eB ?s)) < nat (?A + ?B)" using B' A2' dec m1(5) False by simp
    ultimately show ?thesis by blast
  qed
qed

lemma binary_loop:
  assumes "bn_wf n" "odd (bn_val n)" "\<bar>bn_val n\<bar> < 2 ^ 2048" "below kk (bn_val n)" "kk + 1 < MAXW"
  shows "binary_inv a n k s \<Longrightarrow> \<exists>s' k'. binary_loop True n s = Some s' \<and> binary_inv a n k' s' \<and> bn_val (eB s') = 0"
proof (induction "nat (bn_val (eA s) + bn_val (eB s))" arbitrary: s k rule: less_induct)
  case less
  have B: "bn_wf (eB s)" "0 \<le> bn_val (eB s)" using less.prems by (simp_all add: binary_inv_def euclid_nums_def)
  show ?case
  proof (cases "bn_val (eB s) = 0")
    case True
    then have "binary_loop True n s = Some s" using is_zero_val [OF B(1)] by (subst binary_loop.simps) simp
    then show ?thesis using less.prems True by blast
  next
    case False
    then have "0 < bn_val (eB s)" using B(2) by simp
    from binary_step [OF assms less.prems this] obtain s' where s': "binary_loop True n s = binary_loop True n s'"
      "binary_inv a n (k + 1) s'" "nat (bn_val (eA s') + bn_val (eB s')) < nat (bn_val (eA s) + bn_val (eB s))" by blast
    show ?thesis unfolding s'(1) by (rule less.hyps [OF s'(3,2)])
  qed
qed

subsection \<open>The interface\<close>

lemma euclid_init:
  assumes "ctx_ok (7 + j) ctx" "bn_wf a" "bn_wf n"
  shows "\<exists>s ctx'. euclid_init True ctx a n = Some (s, ctx') \<and> ctx_ok j ctx' \<and> stands (eA s) \<bar>bn_val n\<bar> \<and> stands (eB s) (bn_val a) \<and>
    stands (eX s) 1 \<and> stands (eY s) 0 \<and> room (eM s) \<and> room (eD s) \<and> room (eT s) \<and> eneg s"
proof -
  have c: "ctx_ok (Suc (Suc (Suc (Suc (Suc (Suc (Suc j))))))) ctx" using assms(1) by (simp add: eval_nat_numeral)
  obtain A c1 where 1: "BN_CTX_get ctx = Some (A, c1)" "room A" "ctx_ok (Suc (Suc (Suc (Suc (Suc (Suc j)))))) c1" using ctx_ok_get [OF c] by blast
  obtain B c2 where 2: "BN_CTX_get c1 = Some (B, c2)" "room B" "ctx_ok (Suc (Suc (Suc (Suc (Suc j))))) c2" using ctx_ok_get [OF 1(3)] by blast
  obtain X c3 where 3: "BN_CTX_get c2 = Some (X, c3)" "room X" "ctx_ok (Suc (Suc (Suc (Suc j)))) c3" using ctx_ok_get [OF 2(3)] by blast
  obtain D c4 where 4: "BN_CTX_get c3 = Some (D, c4)" "room D" "ctx_ok (Suc (Suc (Suc j))) c4" using ctx_ok_get [OF 3(3)] by blast
  obtain M c5 where 5: "BN_CTX_get c4 = Some (M, c5)" "room M" "ctx_ok (Suc (Suc j)) c5" using ctx_ok_get [OF 4(3)] by blast
  obtain Y c6 where 6: "BN_CTX_get c5 = Some (Y, c6)" "room Y" "ctx_ok (Suc j) c6" using ctx_ok_get [OF 5(3)] by blast
  obtain T c7 where 7: "BN_CTX_get c6 = Some (T, c7)" "room T" "ctx_ok j c7" using ctx_ok_get [OF 6(3)] by blast
  obtain X1 where X1: "BN_set_word True X 1 = Some X1" "stands X1 1" using set_word_op [OF 3(2), of 1] by auto
  obtain B1 where B1: "BN_copy True B a = Some B1" "stands B1 (bn_val a)" using copy_op [OF 2(2) assms(2)] by blast
  obtain A1 where A1: "BN_copy True A n = Some A1" "stands A1 (bn_val n)" using copy_op [OF 1(2) assms(3)] by blast
  note h = standsD [OF A1(2)]
  have "stands (A1\<lparr>bn_neg := False\<rparr>) \<bar>bn_val n\<bar>"
  proof (rule standsI [OF _ _ h(1)])
    have "\<bar>bn_val n\<bar> = int (bn_nat A1)" using h(3) bn_val_nat(1) [of A1] by simp
    then show "bn_val (A1\<lparr>bn_neg := False\<rparr>) = \<bar>bn_val n\<bar>" using bn_wf_neg [OF h(2), of False] by (simp add: bn_val_def)
  qed (use bn_wf_neg [OF h(2), of False] in simp_all)
  then show ?thesis
    using zero_op [OF 6(2)] B1(2) X1(2) 4(2) 5(2) 7(2,3)
    by (simp add: euclid_init_def 1(1) 2(1) 3(1) 4(1) 5(1) 6(1) 7(1) X1(1) B1(1) A1(1) Let_def)
qed

text \<open>The reduction in place goes wrong exactly for a negative remainder.\<close>

lemma nnmod_same_op:
  assumes "bn_wf a" "bn_wf m" "bn_val m \<noteq> 0" "room m" "ctx_ok 4 ctx" "below k (bn_val a)" "below k (bn_val m)" "k < MAXW"
  shows "\<exists>c. BN_nnmod_same True ctx a m = Some c \<and>
    stands c (if bn_val a < 0 \<and> \<not> bn_val m dvd bn_val a then 0 else bn_val a mod \<bar>bn_val m\<bar>)"
proof -
  have tp: "max (bn_top a) (bn_top m) < MAXW" using below_top [OF assms(1,6)] below_top [OF assms(2,7)] assms(8) by simp
  obtain d where d: "BN_mod True ctx m a m = Some d" "bn_wf d" "bn_val d = sgn (bn_val a) * (\<bar>bn_val a\<bar> mod \<bar>bn_val m\<bar>)" "bn_flags d = bn_flags m"
    using BN_mod_run [OF assms(1-5) tp] by blast
  note t = mod_trunc [OF assms(3), of "bn_val a", folded d(3)]
  have sd: "stands d (bn_val d)" by (rule standsI [OF d(2,4) assms(4) refl])
  have pos: "0 < \<bar>bn_val m\<bar>" using assms(3) by simp
  have neg: "bn_neg d \<longleftrightarrow> bn_val a < 0 \<and> \<not> bn_val m dvd bn_val a"
  proof -
    have "bn_neg d \<longleftrightarrow> bn_val d < 0" using bn_val_neg [OF d(2)] by simp
    also have "\<dots> \<longleftrightarrow> bn_val a < 0 \<and> \<bar>bn_val a\<bar> mod \<bar>bn_val m\<bar> \<noteq> 0"
      unfolding d(3) using pos_mod_sign [OF pos, of "\<bar>bn_val a\<bar>"] by (auto simp: mult_less_0_iff sgn_if)
    also have "\<bar>bn_val a\<bar> mod \<bar>bn_val m\<bar> \<noteq> 0 \<longleftrightarrow> \<not> bn_val m dvd bn_val a" by (simp add: mod_eq_0_iff_dvd)
    finally show ?thesis .
  qed
  show ?thesis
  proof (cases "bn_neg d")
    case True
    have "\<bar>bn_val a\<bar> mod \<bar>bn_val m\<bar> < \<bar>bn_val m\<bar>" "0 \<le> \<bar>bn_val a\<bar> mod \<bar>bn_val m\<bar>" using pos by simp_all
    then have "\<bar>bn_val d\<bar> \<le> \<bar>bn_val m\<bar>" unfolding d(3) by (simp add: abs_mult abs_sgn_eq)
    then have "below k (bn_val d)" by (rule below_le [OF assms(7)])
    then obtain c where "BN_sub True d d d = Some c" "stands c 0"
      using sub_op [OF d(2,2) standsD(1) [OF sd], of k] assms(8) by auto
    then show ?thesis using True neg d(1) by (simp add: BN_nnmod_same_def)
  next
    case False
    then have "bn_val d = bn_val a mod \<bar>bn_val m\<bar>" using t bn_val_neg [OF d(2)] by simp
    moreover have "\<not> (bn_val a < 0 \<and> \<not> bn_val m dvd bn_val a)" using False neg by simp
    ultimately show ?thesis using False sd d(1) by (simp only: BN_nnmod_same_def if_False Option.bind.simps) simp
  qed
qed

text \<open>The result at the end: with \<open>al\<close> it is lost when \<open>Y\<close> is negative.\<close>

lemma euclid_end:
  assumes s: "euclid_nums s" "euclid_cong a \<bar>bn_val n\<bar> s" "bn_val (eB s) = 0"
    and "bn_wf n" "1 < \<bar>bn_val n\<bar>" "room R" "ctx_ok 4 ctx" "below k (bn_val (eY s))" "below k (bn_val n)" "k + 1 < MAXW"
    and al: "al \<longrightarrow> room n"
  shows "if coprime a (bn_val n)
    then \<exists>c v. euclid_end True ctx al R n s = (False, Some c) \<and> stands c v \<and>
      (if al \<and> eneg s \<and> bn_val n < bn_val (eY s) then v = 0 else 0 \<le> v \<and> v < \<bar>bn_val n\<bar> \<and> bn_val n dvd v * a - 1)
    else euclid_end True ctx al R n s = (True, None)"
proof -
  let ?N = "\<bar>bn_val n\<bar>" and ?Y = "bn_val (eY s)"
  have h: "bn_wf (eA s)" "bn_wf (eY s)" "room (eY s)" "0 \<le> bn_val (eA s)" "0 \<le> ?Y" using s(1) by (simp_all add: euclid_nums_def)
  have km: "k < MAXW" using assms(10) by simp
  have A: "bn_val (eA s) = gcd a (bn_val n)" using s(2,3) h(4) by (simp add: euclid_cong_def)
  have d: "?N dvd euclid_sg s * ?Y * a - bn_val (eA s)" using s(2) by (simp add: euclid_cong_def)
  define y where "y = (if eneg s then bn_val n - ?Y else ?Y)"
  have "\<exists>Z. (if eneg s then BN_sub True (eY s) n (eY s) else Some (eY s)) = Some Z \<and> stands Z y"
    using sub_op [OF assms(4) h(2,3) assms(9,8) km] h(2,3) by (auto simp: y_def stands_def)
  then obtain Z where Z: "(if eneg s then BN_sub True (eY s) n (eY s) else Some (eY s)) = Some Z" "stands Z y" by blast
  note z = standsD [OF Z(2)]
  have yneg: "y < 0 \<longleftrightarrow> eneg s \<and> bn_val n < ?Y" using h(5) by (auto simp: y_def)
  have yd: "bn_val n dvd y * a - bn_val (eA s)"
  proof (cases "eneg s")
    case True
    have e: "y * a - bn_val (eA s) = bn_val n * a + (euclid_sg s * ?Y * a - bn_val (eA s))" using True by (simp add: y_def euclid_sg_def algebra_simps)
    have "bn_val n dvd euclid_sg s * ?Y * a - bn_val (eA s)" using d by simp
    from dvd_add [OF dvd_triv_left this] show ?thesis unfolding e .
  next
    case False
    then show ?thesis using d by (simp add: y_def euclid_sg_def)
  qed
  have yb: "below (k + 1) y"
  proof -
    have "\<bar>y\<bar> \<le> \<bar>bn_val n\<bar> + \<bar>?Y\<bar>" using abs_triangle_ineq4 [of "bn_val n" ?Y] by (simp add: y_def)
    then have "\<bar>y\<bar> < 2 ^ (64 * k) + 2 ^ (64 * k)" using assms(8,9) unfolding below_def by linarith
    then show ?thesis by (simp add: below_def power_add)
  qed
  have nb: "below (k + 1) (bn_val n)" by (rule below_mono [OF assms(9)]) simp
  show ?thesis
  proof (cases "coprime a (bn_val n)")
    case False
    then have "\<not> BN_is_one (eA s)" using is_one_val [OF h(1)] A by (simp add: coprime_iff_gcd_eq_1)
    then show ?thesis using False Z(1) by (simp add: euclid_end_def)
  next
    case True
    then have one: "BN_is_one (eA s)" "bn_val (eA s) = 1" using is_one_val [OF h(1)] A by (simp_all add: coprime_iff_gcd_eq_1)
    have nz: "bn_val n \<noteq> 0" using assms(5) by auto
    have e: "(y mod ?N) * a - 1 = (y * a - 1) - ?N * (y div ?N * a)" by (simp add: algebra_simps minus_mult_div_eq_mod [symmetric])
    have "bn_val n dvd ?N * (y div ?N * a)" by (rule dvd_mult2) simp
    from dvd_diff [OF yd [unfolded one(2)] this] have inv: "0 \<le> y mod ?N" "y mod ?N < ?N" "bn_val n dvd (y mod ?N) * a - 1"
      unfolding e using nz by simp_all
    have ndvd: "\<not> bn_val n dvd y"
    proof
      assume "bn_val n dvd y"
      from dvd_diff [OF dvd_mult2 [OF this, of a] yd [unfolded one(2)]] show False using assms(5) by simp
    qed
    show ?thesis
    proof (cases "\<not> bn_neg Z \<and> BN_ucmp Z n < 0")
      case c: True
      then have y: "0 \<le> y" "y < ?N" using bn_val_neg [OF z(2)] ucmp_val [OF z(2) assms(4)] z(3) by auto
      obtain C where "BN_copy True R Z = Some C" "stands C y" using copy_op [OF assms(6) z(2)] unfolding z(3) by blast
      then show ?thesis using True one yd y Z(1) c yneg by (auto simp: euclid_end_def)
    next
      case c: False
      show ?thesis
      proof (cases al)
        case al': True
        then have rn: "room n" using al by simp
        obtain C where C: "BN_nnmod_same True ctx Z n = Some C" "stands C (if y < 0 then 0 else y mod ?N)"
          using nnmod_same_op [OF z(2) assms(4) nz rn assms(7), of "k + 1", unfolded z(3), OF yb nb assms(10)] ndvd by auto
        have "euclid_end True ctx al R n s = (False, Some C)" using Z(1) one(1) c al' C(1) by (auto simp: euclid_end_def)
        then show ?thesis using True C(2) inv al' yneg by auto
      next
        case al': False
        obtain C where C: "BN_nnmod True ctx R Z n = Some C" "stands C (y mod ?N)"
          using nnmod_op [OF z(2) assms(4) nz assms(6,7), of "k + 1", unfolded z(3), OF yb nb assms(10)] by blast
        have "euclid_end True ctx al R n s = (False, Some C)" using Z(1) one(1) c al' C(1) by (auto simp: euclid_end_def)
        then show ?thesis using True C(2) inv al' by auto
      qed
    qed
  qed
qed

lemma euclid_start:
  assumes "stands (eA s) \<bar>N\<bar>" "stands (eB s) b" "stands (eX s) 1" "stands (eY s) 0" "room (eM s)" "room (eD s)" "room (eT s)" "eneg s"
    and "b = a mod \<bar>N\<bar> \<or> b = a" "0 \<le> b" "b < \<bar>N\<bar>"
  shows "euclid_inv a \<bar>N\<bar> s" "\<bar>bn_val n\<bar> = \<bar>N\<bar> \<Longrightarrow> binary_inv a n 0 s"
proof -
  note A = standsD [OF assms(1)] and B = standsD [OF assms(2)] and X = standsD [OF assms(3)] and Y = standsD [OF assms(4)]
  have g: "gcd \<bar>N\<bar> b = gcd a N" using assms(9) gcd_red_int [of a "\<bar>N\<bar>"] by (auto simp: gcd.commute)
  have "\<bar>N\<bar> dvd b - a" using assms(9) mod_mod_trivial [of a "\<bar>N\<bar>"] by (auto simp: mod_eq_dvd_iff [symmetric])
  then have d: "\<bar>N\<bar> dvd - 1 * 1 * a + b" by simp
  have nums: "euclid_nums s" using A B X Y assms(5-7,10,11) by (simp add: euclid_nums_def)
  have c: "euclid_cong a \<bar>N\<bar> s" using g d assms(8) by (simp add: euclid_cong_def euclid_sg_def A B X Y)
  show "euclid_inv a \<bar>N\<bar> s" using nums c assms(10,11) by (simp add: euclid_inv_def A B X Y)
  have "\<bar>N\<bar> * b \<le> \<bar>N\<bar> * \<bar>N\<bar>" using assms(11) by (intro mult_left_mono) simp_all
  then show "\<bar>bn_val n\<bar> = \<bar>N\<bar> \<Longrightarrow> binary_inv a n 0 s"
    using nums c assms(8,10,11) by (simp add: binary_inv_def A B X Y Let_def)
qed

text \<open>Where the reduction in place can go wrong: negative moduli and the variant with halvings.\<close>

definition alias_risk :: "bignum \<Rightarrow> bignum \<Rightarrow> bool" where
  "alias_risk a n \<longleftrightarrow> bn_val n < 0 \<or>
    (BN_is_odd n \<and> BN_num_bits n \<le> 2048 \<and> BN_get_flags a BN_FLG_CONSTTIME = 0 \<and> BN_get_flags n BN_FLG_CONSTTIME = 0)"

lemma int_bn_mod_inverse:
  assumes "bn_wf a" "bn_wf n" "ctx_ok 11 ctx" "\<forall>r. inp = Some r \<longrightarrow> room r" "below k (bn_val a)" "below k (bn_val n)" "16 * (k + 2) \<le> MAXW"
    "al \<longrightarrow> room n"
  shows "if 1 < \<bar>bn_val n\<bar> \<and> coprime (bn_val a) (bn_val n)
    then \<exists>c v. int_bn_mod_inverse True ctx al inp a n = (False, Some c) \<and> stands c v \<and>
      ((0 \<le> v \<and> v < \<bar>bn_val n\<bar> \<and> bn_val n dvd v * bn_val a - 1) \<or> (al \<and> alias_risk a n \<and> v = 0))
    else int_bn_mod_inverse True ctx al inp a n = (True, None)"
proof (cases "1 < \<bar>bn_val n\<bar>")
  case False
  then have "\<bar>bn_val n\<bar> = 1 \<or> bn_val n = 0" by linarith
  then have "BN_abs_is_word n 1 \<or> BN_is_zero n" using abs_is_word_val [OF assms(2), of 1] is_zero_val [OF assms(2)] by simp
  then show ?thesis using False by (simp add: int_bn_mod_inverse_def)
next
  case True
  let ?N = "\<bar>bn_val n\<bar>" and ?a = "bn_val a"
  have N: "bn_val n \<noteq> 0" "\<not> (BN_abs_is_word n 1 \<or> BN_is_zero n)"
    using True abs_is_word_val [OF assms(2), of 1] is_zero_val [OF assms(2)] by auto
  have km: "k < MAXW" "k + 1 + 1 < MAXW" "16 * (k + 1) \<le> MAXW" using assms(7) by simp_all
  obtain s c where i: "euclid_init True ctx a n = Some (s, c)" "ctx_ok 4 c" "stands (eA s) ?N" "stands (eB s) ?a" "stands (eX s) 1" "stands (eY s) 0"
      "room (eM s)" "room (eD s)" "room (eT s)" "eneg s"
    using euclid_init [of 4 ctx a n] assms(1-3) by auto
  note iA = standsD [OF i(3)] and iB = standsD [OF i(4)]
  have nb: "below (k + 1) ?N" "0 < k + 1" using below_mono [OF assms(6), of "k + 1"] by (simp_all add: below_def)
  have c3: "ctx_ok 3 c" by (rule ctx_ok_less [OF i(2)]) simp
  have "\<exists>r. inverse_target True al inp n = Some r \<and> room r"
    using assms(4,8) by (cases inp; cases al) (simp_all add: inverse_target_def BN_new_def room_def bn_fits_def bn_init_def BN_get_flags_def BN_FLG_MALLOCED_def BN_FLG_STATIC_DATA_def)
  then obtain r where r: "inverse_target True al inp n = Some r" "room r" by blast
  have cmp: "\<not> (bn_neg (eB s) \<or> BN_ucmp (eB s) (eA s) \<ge> 0) \<Longrightarrow> 0 \<le> ?a \<and> ?a < ?N"
    using bn_val_neg [OF iB(2)] ucmp_val [OF iB(2) iA(2)] iA(3) iB(3) by auto
  have start: "\<exists>x b. (if bn_neg (eB s) \<or> BN_ucmp (eB s) (eA s) \<ge> 0 then map_option (\<lambda>B. s\<lparr>eB := B\<rparr>) (BN_nnmod True c (eB s) f (eA s)) else Some s) = Some x \<and>
      euclid_inv ?a ?N x \<and> binary_inv ?a n 0 x" if f: "bn_wf f" "bn_val f = ?a" for f
  proof (cases "bn_neg (eB s) \<or> BN_ucmp (eB s) (eA s) \<ge> 0")
    case False
    then show ?thesis using euclid_start [OF i(3-10)] cmp by auto
  next
    case c: True
    obtain B where B: "BN_nnmod True c (eB s) f (eA s) = Some B" "stands B (?a mod ?N)"
      using nnmod_op [OF f(1) iA(2) _ iB(1) i(2), of k] assms(5,6) N(1) km(1) unfolding f(2) iA(3) by (auto simp: below_def)
    let ?s = "s\<lparr>eB := B\<rparr>"
    have "euclid_inv ?a ?N ?s" "binary_inv ?a n 0 ?s"
      using euclid_start(1) [where s = ?s and N = "bn_val n" and b = "?a mod ?N" and a = ?a]
        euclid_start(2) [where s = ?s and N = "bn_val n" and b = "?a mod ?N" and a = ?a and n = n] i(3,5-10) B(2) N(1) by simp_all
    then show ?thesis using c B(1) by auto
  qed
  have fin: "if coprime ?a (bn_val n) then \<exists>d v. euclid_end True c al r n x = (False, Some d) \<and> stands d v \<and>
        ((0 \<le> v \<and> v < ?N \<and> bn_val n dvd v * ?a - 1) \<or> (al \<and> alias_risk a n \<and> v = 0))
      else euclid_end True c al r n x = (True, None)"
    if x: "bn_val (eB x) = 0" "euclid_inv ?a ?N x \<or> (\<exists>k. binary_inv ?a n k x)"
      "euclid_inv ?a ?N x \<or> alias_risk a n" for x
  proof -
    have nums: "euclid_nums x" "euclid_cong ?a ?N x" using x(2) by (auto simp: euclid_inv_def binary_inv_def)
    have kn: "below (k + 1) (bn_val n)" by (rule below_mono [OF assms(6)]) simp
    have Y: "0 \<le> bn_val (eY x)" using x(2) by (auto simp: euclid_inv_def binary_inv_def euclid_nums_def)
    have "bn_val (eY x) \<le> 2 ^ 64 * ?N"
      using x(2)
    proof
      assume "euclid_inv ?a ?N x"
      then have "bn_val (eY x) \<le> ?N" by (simp add: euclid_inv_def)
      also have "\<dots> = 1 * ?N" by simp
      also have "\<dots> \<le> 2 ^ 64 * ?N" by (rule mult_right_mono) simp_all
      finally show ?thesis .
    next
      assume "\<exists>k. binary_inv ?a n k x"
      then obtain j where "binary_inv ?a n j x" ..
      then have "bn_val (eY x) \<le> (int j + 1) * ?N \<or> bn_val (eY x) + ?N \<le> 2 * ((int j + 1) * ?N)" "j \<le> 4098"
        by (simp_all add: binary_inv_def Let_def) blast
      moreover have "0 \<le> (int j + 1) * ?N" by simp
      ultimately have j: "bn_val (eY x) \<le> 2 * ((int j + 1) * ?N)" "j \<le> 4098" by linarith+
      have "2 * (int j + 1) * ?N \<le> 2 ^ 64 * ?N" using j(2) by (intro mult_right_mono) simp_all
      then show ?thesis using j(1) by (simp only: mult.assoc)
    qed
    then have ky: "below (k + 1) (bn_val (eY x))" using Y by (intro below_times [OF assms(6)]) simp
    have risk: "alias_risk a n" if "bn_val n < bn_val (eY x)"
      using x(3)
    proof
      assume "euclid_inv ?a ?N x"
      then have "bn_val (eY x) \<le> ?N" by (simp add: euclid_inv_def)
      then have "bn_val n < 0" using that by simp
      then show ?thesis by (simp add: alias_risk_def)
    qed
    from euclid_end [OF nums x(1) assms(2) True r(2) i(2) ky kn km(2) assms(8)] risk show ?thesis
      by (auto split: if_splits)
  qed
  show ?thesis
  proof (cases "BN_get_flags a BN_FLG_CONSTTIME \<noteq> 0 \<or> BN_get_flags n BN_FLG_CONSTTIME \<noteq> 0")
    case ct: True
    let ?l = "BN_with_flags bn_init (eB s) BN_FLG_CONSTTIME"
    obtain x where x: "(if bn_neg (eB s) \<or> BN_ucmp (eB s) (eA s) \<ge> 0 then map_option (\<lambda>B. s\<lparr>eB := B\<rparr>) (BN_nnmod True c (eB s) ?l (eA s)) else Some s) = Some x"
      "euclid_inv ?a ?N x" using start [of ?l] iB by (auto simp: with_flags_wf)
    obtain y where y: "no_branch_loop True c x = Some y" "euclid_inv ?a ?N y" "bn_val (eB y) = 0"
      using no_branch_loop [OF c3 nb(1) km(3) nb(2) x(2)] by blast
    have e: "int_bn_mod_inverse True ctx al inp a n = euclid_end True c al r n y"
      unfolding int_bn_mod_inverse_def bn_mod_inverse_no_branch_def
      by (simp only: N(2) ct if_True if_False i(1) r(1) x(1) y(1) Let_def Option.bind.simps prod.case option.case option.map)
    have "euclid_inv ?a ?N y \<or> (\<exists>k. binary_inv ?a n k y)" using y(2) by blast
    from fin [OF y(3) this disjI1 [OF y(2)]] True show ?thesis unfolding e by (simp only: simp_thms)
  next
    case ct: False
    obtain x where x: "(if bn_neg (eB s) \<or> BN_ucmp (eB s) (eA s) \<ge> 0 then map_option (\<lambda>B. s\<lparr>eB := B\<rparr>) (BN_nnmod True c (eB s) (eB s) (eA s)) else Some s) = Some x"
      "euclid_inv ?a ?N x" "binary_inv ?a n 0 x" using start [of "eB s"] iB by auto
    have "\<exists>y. (if BN_is_odd n \<and> BN_num_bits n \<le> 2048 then binary_loop True n x else euclid_loop True c x) = Some y \<and> bn_val (eB y) = 0 \<and>
        (euclid_inv ?a ?N y \<or> (\<exists>k. binary_inv ?a n k y)) \<and> (euclid_inv ?a ?N y \<or> alias_risk a n)"
    proof (cases "BN_is_odd n \<and> BN_num_bits n \<le> 2048")
      case bin: True
      have "int (bn_nat n) < 2 ^ BN_num_bits n" using bits_bounds [OF assms(2)] N(1) bn_val_nat(2) [of n] by (simp only: of_nat_less_numeral_power_cancel_iff) blast
      also have "\<dots> \<le> 2 ^ 2048" using bin by (intro power_increasing) simp_all
      finally have "?N < 2 ^ 2048" by (simp only: bn_val_nat(1))
      moreover have "alias_risk a n" using bin ct by (simp add: alias_risk_def)
      ultimately show ?thesis using binary_loop [OF assms(2) _ _ assms(6) _ x(3)] bin is_odd_val [OF assms(2)] km(2) by auto
    next
      case False
      from euclid_loop [OF c3 nb(1) km(3) nb(2) x(2)] False show ?thesis by auto
    qed
    then obtain y where y: "(if BN_is_odd n \<and> BN_num_bits n \<le> 2048 then binary_loop True n x else euclid_loop True c x) = Some y" "bn_val (eB y) = 0"
      "euclid_inv ?a ?N y \<or> (\<exists>k. binary_inv ?a n k y)" "euclid_inv ?a ?N y \<or> alias_risk a n" by blast
    have e: "int_bn_mod_inverse True ctx al inp a n = euclid_end True c al r n y"
      unfolding int_bn_mod_inverse_def
      by (simp only: N(2) ct if_True if_False i(1) r(1) x(1) y(1) Let_def Option.bind.simps prod.case option.case option.map)
    from fin [OF y(2,3,4)] True show ?thesis unfolding e by (simp only: simp_thms)
  qed
qed

text \<open>C31: \<open>BN_mod_inverse\<close> ends and gives the inverse between 0 and the modulus, or reports that there is none, which is the case when the
  numbers have a common divisor and for the moduli 0, 1 and -1. This holds for all three variants of the algorithm, for
  numbers with signs and whether or not the result is allocated. When the result is the same object as the modulus (\<open>al\<close>), as the
  documentation allows, the inverse may be lost and replaced by 0, only for negative moduli and in the variant with halvings.\<close>

theorem bn_mod_inverse_exact:
  assumes "bn_wf a" "bn_wf n" "ctx_ok 11 ctx" "\<forall>r. inp = Some r \<longrightarrow> room r" "16 * (max (bn_top a) (bn_top n) + 2) \<le> MAXW"
    "al \<longrightarrow> room n"
  shows "case BN_mod_inverse True ctx al inp a n of
       (noinv, None) \<Rightarrow> noinv \<and> (\<bar>bn_val n\<bar> \<le> 1 \<or> gcd (bn_val a) (bn_val n) \<noteq> 1)
     | (noinv, Some c) \<Rightarrow> \<not> noinv \<and> bn_wf c \<and> 1 < \<bar>bn_val n\<bar> \<and> gcd (bn_val a) (bn_val n) = 1 \<and>
         ((0 \<le> bn_val c \<and> bn_val c < \<bar>bn_val n\<bar> \<and> (bn_val c * bn_val a) mod \<bar>bn_val n\<bar> = 1) \<or>
          (al \<and> alias_risk a n \<and> bn_val c = 0))"
proof -
  let ?k = "max (bn_top a) (bn_top n)"
  have b: "below ?k (bn_val a)" "below ?k (bn_val n)" using assms(1,2) by (auto intro!: top_below simp: bn_wf_def)
  note i = int_bn_mod_inverse [OF assms(1-4) b assms(5,6)]
  show ?thesis
  proof (cases "1 < \<bar>bn_val n\<bar> \<and> coprime (bn_val a) (bn_val n)")
    case True
    then obtain c where c: "int_bn_mod_inverse True ctx al inp a n = (False, Some c)" "bn_wf c"
        "(0 \<le> bn_val c \<and> bn_val c < \<bar>bn_val n\<bar> \<and> bn_val n dvd bn_val c * bn_val a - 1) \<or> (al \<and> alias_risk a n \<and> bn_val c = 0)"
      using i by (auto simp: stands_def)
    have "(bn_val c * bn_val a) mod \<bar>bn_val n\<bar> = 1" if "bn_val n dvd bn_val c * bn_val a - 1"
    proof -
      have "(bn_val c * bn_val a) mod \<bar>bn_val n\<bar> = 1 mod \<bar>bn_val n\<bar>" using that by (simp add: mod_eq_dvd_iff)
      then show ?thesis using True by simp
    qed
    then show ?thesis using c True by (auto simp: BN_mod_inverse_def coprime_iff_gcd_eq_1)
  next
    case False
    then show ?thesis using i by (auto simp: BN_mod_inverse_def coprime_iff_gcd_eq_1)
  qed
qed

definition small :: "u64 \<Rightarrow> bignum" where "small w = \<lparr>bn_d = [w], bn_top = 1, bn_neg = False, bn_flags = 0\<rparr>"

lemma small: "w \<noteq> 0 \<Longrightarrow> bn_wf (small w)" "bn_val (small w) = int (unat w)" "bn_top (small w) = 1"
  by (simp_all add: small_def bn_wf_def bn_fits_def bn_val_def bn_nat_def INT_MAX_def BN_BITS2_def)

theorem bn_mod_inverse_exact_witness:
  "case BN_mod_inverse True (replicate 11 bn_init) False None (small 3) (small 7) of
     (noinv, None) \<Rightarrow> False
   | (noinv, Some c) \<Rightarrow> \<not> noinv \<and> bn_wf c \<and> (bn_val c * 3) mod 7 = 1"
proof -
  have g: "gcd (3 :: int) 7 = 1" by (simp add: gcd_non_0_int)
  have w: "bn_wf (small 3)" "bn_wf (small 7)" "bn_val (small 3) = 3" "bn_val (small 7) = 7" by (simp_all add: small)
  have "16 * (max (bn_top (small 3)) (bn_top (small 7)) + 2) \<le> MAXW" by (simp add: small MAXW_def INT_MAX_def BN_BITS2_def)
  from bn_mod_inverse_exact [OF w(1,2) room_init(2), of None False, OF _ this] g show ?thesis
    by (auto simp: w split: prod.splits option.splits)
qed

end
